(* ===== verification/List_Pool.thy ===== *)
theory List_Pool
  imports Prelude
begin

text \<open>
  The list library of \<^verbatim>\<open>list.h\<close>, \<^verbatim>\<open>list_adders.c\<close>,
  \<^verbatim>\<open>list_movers.c\<close> and \<^verbatim>\<open>list_removers.c\<close>: doubly linked lists
  whose nodes and headers live in two fixed pools threaded by free lists. The pools are
  functions from indices, every access is checked against the bounds of the array, and a
  pointer to a list is the index of its header (\<^const>\<open>None\<close> for NULL). Items are opaque
  pointers: \<^const>\<open>None\<close> is NULL. Messages printed by the library are left out; the
  dereferences made by their arguments are kept.
\<close>

section \<open>Data\<close>

definition MAX_LISTS :: int where "MAX_LISTS = 20"

definition MAX_NODES :: int where "MAX_NODES = 1000"

record LIST =
  l_head :: int
  l_tail :: int
  l_curr :: int
  l_count :: int
  l_before :: int
  l_after :: int
  l_link :: int

record 'a NODE =
  n_item :: "'a option"
  n_next :: int
  n_prev :: int
  n_link :: int

record 'a pool =
  initialized :: int
  free_list_head :: int
  free_node_head :: int
  pool_lists :: "int \<Rightarrow> LIST"
  pool_nodes :: "int \<Rightarrow> 'a NODE"

text \<open>Checked array accesses.\<close>

definition node_at :: "int \<Rightarrow> 'a pool \<Rightarrow> fault + 'a NODE" where
  "node_at i s = (if 0 \<le> i \<and> i < MAX_NODES then Inr (pool_nodes s i) else Inl OutOfBounds)"

definition node_upd :: "int \<Rightarrow> ('a NODE \<Rightarrow> 'a NODE) \<Rightarrow> 'a pool \<Rightarrow> fault + 'a pool" where
  "node_upd i f s = (if 0 \<le> i \<and> i < MAX_NODES
     then Inr (s\<lparr>pool_nodes := (pool_nodes s)(i := f (pool_nodes s i))\<rparr>) else Inl OutOfBounds)"

definition list_at :: "int \<Rightarrow> 'a pool \<Rightarrow> fault + LIST" where
  "list_at l s = (if 0 \<le> l \<and> l < MAX_LISTS then Inr (pool_lists s l) else Inl OutOfBounds)"

definition list_upd :: "int \<Rightarrow> (LIST \<Rightarrow> LIST) \<Rightarrow> 'a pool \<Rightarrow> fault + 'a pool" where
  "list_upd l f s = (if 0 \<le> l \<and> l < MAX_LISTS
     then Inr (s\<lparr>pool_lists := (pool_lists s)(l := f (pool_lists s l))\<rparr>) else Inl OutOfBounds)"

section \<open>list adders\<close>

definition nodeAllocator :: "'a pool \<Rightarrow> fault + (int \<times> 'a pool)" where
  "nodeAllocator s =
    (if free_node_head s = -1 then Inr (-1, s)
     else let i = free_node_head s in
       rbind (node_at i s) (\<lambda>nd.
       rbind (node_upd i (\<lambda>x. x\<lparr>n_link := -1, n_next := -1, n_prev := -1\<rparr>)
                (s\<lparr>free_node_head := n_link nd\<rparr>)) (\<lambda>s.
       Inr (i, s))))"

definition ListAppend :: "int option \<Rightarrow> 'a option \<Rightarrow> 'a pool \<Rightarrow> fault + (int \<times> 'a pool)" where
  "ListAppend list item s =
    (case list of None \<Rightarrow> Inr (-1, s) | Some l \<Rightarrow>
     if item = None then Inr (-1, s) else
     rbind (nodeAllocator s) (\<lambda>(new, s).
     if new = -1 then Inr (-1, s) else
     rbind (node_upd new (\<lambda>x. x\<lparr>n_item := item\<rparr>) s) (\<lambda>s.
     rbind (list_at l s) (\<lambda>L.
     rbind (if l_count L = 0
            then list_upd l (\<lambda>L. L\<lparr>l_head := new, l_tail := new, l_curr := new,
                                    l_before := 0, l_after := 0\<rparr>) s
            else Inr s) (\<lambda>s.
     rbind (list_at l s) (\<lambda>L.
     rbind (node_upd new (\<lambda>x. x\<lparr>n_prev := l_tail L\<rparr>) s) (\<lambda>s.
     rbind (node_upd (l_tail L) (\<lambda>x. x\<lparr>n_next := new\<rparr>) s) (\<lambda>s.
     rbind (list_upd l (\<lambda>L. L\<lparr>l_tail := new, l_count := l_count L + 1,
                             l_before := 0, l_after := 0\<rparr>) s) (\<lambda>s.
     Inr (0, s))))))))))"

definition ListPrepend :: "int option \<Rightarrow> 'a option \<Rightarrow> 'a pool \<Rightarrow> fault + (int \<times> 'a pool)" where
  "ListPrepend list item s =
    (case list of None \<Rightarrow> Inr (-1, s) | Some l \<Rightarrow>
     if item = None then Inr (-1, s) else
     rbind (nodeAllocator s) (\<lambda>(new, s).
     if new = -1 then Inr (-1, s) else
     rbind (node_upd new (\<lambda>x. x\<lparr>n_item := item\<rparr>) s) (\<lambda>s.
     rbind (list_at l s) (\<lambda>L.
     rbind (if l_count L = 0
            then list_upd l (\<lambda>L. L\<lparr>l_head := new, l_tail := new, l_curr := new,
                                    l_before := 0, l_after := 0\<rparr>) s
            else Inr s) (\<lambda>s.
     rbind (list_at l s) (\<lambda>L.
     rbind (node_upd new (\<lambda>x. x\<lparr>n_item := item, n_next := l_head L, n_prev := -1\<rparr>) s) (\<lambda>s.
     rbind (node_upd (l_head L) (\<lambda>x. x\<lparr>n_prev := new\<rparr>) s) (\<lambda>s.
     rbind (list_upd l (\<lambda>L. L\<lparr>l_head := new, l_count := l_count L + 1\<rparr>) s) (\<lambda>s.
     rbind (list_at l s) (\<lambda>L.
     rbind (node_at (l_curr L) s) (\<lambda>c. \<comment> \<open>the argument of the final printf\<close>
     if n_item c = None then Inl NullDeref else Inr (0, s))))))))))))"

definition ListAdd :: "int option \<Rightarrow> 'a option \<Rightarrow> 'a pool \<Rightarrow> fault + (int \<times> 'a pool)" where
  "ListAdd list item s =
    (case list of None \<Rightarrow> Inr (-1, s) | Some l \<Rightarrow>
     if item = None then Inr (-1, s) else
     rbind (list_at l s) (\<lambda>L.
     if l_count L = 0 \<or> l_after L = 1 \<or> l_curr L = -1 then ListAppend list item s
     else if l_before L = 1 then ListPrepend list item s
     else
     rbind (nodeAllocator s) (\<lambda>(new, s).
     if new = -1 then Inr (-1, s) else
     rbind (node_upd new (\<lambda>x. x\<lparr>n_prev := l_curr L, n_item := item\<rparr>) s) (\<lambda>s.
     rbind (node_at (l_curr L) s) (\<lambda>c.
     rbind (node_upd new (\<lambda>x. x\<lparr>n_next := n_next c\<rparr>) s) (\<lambda>s.
     rbind (node_at (l_curr L) s) (\<lambda>c.
     rbind (if n_next c \<noteq> -1 then node_upd (n_next c) (\<lambda>x. x\<lparr>n_prev := new\<rparr>) s else Inr s) (\<lambda>s.
     rbind (node_upd (l_curr L) (\<lambda>x. x\<lparr>n_next := new\<rparr>) s) (\<lambda>s.
     rbind (list_upd l (\<lambda>L. L\<lparr>l_count := l_count L + 1\<rparr>) s) (\<lambda>s.
     Inr (0, s)))))))))))"

definition ListInsert :: "int option \<Rightarrow> 'a option \<Rightarrow> 'a pool \<Rightarrow> fault + (int \<times> 'a pool)" where
  "ListInsert list item s =
    (case list of None \<Rightarrow> Inr (-1, s) | Some l \<Rightarrow>
     if item = None then Inr (-1, s) else
     rbind (list_at l s) (\<lambda>L.
     if l_count L = 0 then ListAppend list item s
     else if l_before L = 1 then ListPrepend list item s
     else if l_after L = 1 then ListAppend list item s
     else
     rbind (nodeAllocator s) (\<lambda>(new, s).
     if new = -1 then Inr (-1, s) else
     rbind (node_upd new (\<lambda>x. x\<lparr>n_item := item, n_next := l_curr L\<rparr>) s) (\<lambda>s.
     rbind (node_at (l_curr L) s) (\<lambda>c.
     rbind (node_upd new (\<lambda>x. x\<lparr>n_prev := n_prev c\<rparr>) s) (\<lambda>s.
     rbind (node_at (l_curr L) s) (\<lambda>c.
     rbind (if n_prev c \<noteq> -1 then node_upd (n_prev c) (\<lambda>x. x\<lparr>n_next := new\<rparr>) s else Inr s) (\<lambda>s.
     rbind (node_upd (l_curr L) (\<lambda>x. x\<lparr>n_prev := new\<rparr>) s) (\<lambda>s.
     rbind (list_upd l (\<lambda>L. (if l_head L = l_curr L then L\<lparr>l_head := new\<rparr> else L)
                             \<lparr>l_curr := new, l_count := l_count L + 1\<rparr>) s) (\<lambda>s.
     rbind (node_at new s) (\<lambda>c. \<comment> \<open>the argument of the final printf\<close>
     if n_item c = None then Inl NullDeref else Inr (0, s))))))))))))"

section \<open>list movers\<close>

definition ListCount :: "int option \<Rightarrow> 'a pool \<Rightarrow> fault + int" where
  "ListCount list s =
    (case list of None \<Rightarrow> Inr (-1) | Some l \<Rightarrow> rbind (list_at l s) (\<lambda>L. Inr (l_count L)))"

definition ListFirst :: "int option \<Rightarrow> 'a pool \<Rightarrow> fault + ('a option \<times> 'a pool)" where
  "ListFirst list s =
    (case list of None \<Rightarrow> Inr (None, s) | Some l \<Rightarrow>
     rbind (list_at l s) (\<lambda>L.
     if l_count L = 0 then Inr (None, s) else
     rbind (list_upd l (\<lambda>L. L\<lparr>l_curr := l_head L, l_before := 0, l_after := 0\<rparr>) s) (\<lambda>s.
     rbind (node_at (l_head L) s) (\<lambda>c. Inr (n_item c, s)))))"

definition ListLast :: "int option \<Rightarrow> 'a pool \<Rightarrow> fault + ('a option \<times> 'a pool)" where
  "ListLast list s =
    (case list of None \<Rightarrow> Inr (None, s) | Some l \<Rightarrow>
     rbind (list_at l s) (\<lambda>L.
     if l_count L = 0 then Inr (None, s) else
     rbind (list_upd l (\<lambda>L. L\<lparr>l_curr := l_tail L, l_before := 0, l_after := 0\<rparr>) s) (\<lambda>s.
     rbind (node_at (l_tail L) s) (\<lambda>c. Inr (n_item c, s)))))"

definition ListNext :: "int option \<Rightarrow> 'a pool \<Rightarrow> fault + ('a option \<times> 'a pool)" where
  "ListNext list s =
    (case list of None \<Rightarrow> Inr (None, s) | Some l \<Rightarrow>
     rbind (list_at l s) (\<lambda>L.
     if l_after L = 1 then Inr (None, s) else
     rbind (node_at (l_curr L) s) (\<lambda>c.
     rbind (list_upd l (\<lambda>L. L\<lparr>l_curr := n_next c\<rparr>) s) (\<lambda>s.
     if n_next c = -1
     then rbind (list_upd l (\<lambda>L. L\<lparr>l_after := 1, l_before := 0\<rparr>) s) (\<lambda>s. Inr (None, s))
     else rbind (node_at (n_next c) s) (\<lambda>c. Inr (n_item c, s))))))"

definition ListPrev :: "int option \<Rightarrow> 'a pool \<Rightarrow> fault + ('a option \<times> 'a pool)" where
  "ListPrev list s =
    (case list of None \<Rightarrow> Inr (None, s) | Some l \<Rightarrow>
     rbind (list_at l s) (\<lambda>L.
     if l_before L = 1 then Inr (None, s) else
     rbind (node_at (l_curr L) s) (\<lambda>c.
     rbind (list_upd l (\<lambda>L. L\<lparr>l_curr := n_prev c\<rparr>) s) (\<lambda>s.
     if n_prev c = -1
     then rbind (list_upd l (\<lambda>L. L\<lparr>l_before := 1, l_after := 0\<rparr>) s) (\<lambda>s. Inr (None, s))
     else rbind (node_at (n_prev c) s) (\<lambda>c. Inr (n_item c, s))))))"

definition ListCurr :: "int option \<Rightarrow> 'a pool \<Rightarrow> fault + 'a option" where
  "ListCurr list s =
    (case list of None \<Rightarrow> Inr None | Some l \<Rightarrow>
     rbind (list_at l s) (\<lambda>L.
     if l_curr L \<noteq> -1 then rbind (node_at (l_curr L) s) (\<lambda>c. Inr (n_item c)) else Inr None))"

text \<open>
  The loop of \<^verbatim>\<open>ListSearch\<close> follows the cursor until the comparator answers 1 or
  the cursor leaves the list. It need not end, so its result is an option: \<^const>\<open>None\<close>
  when the loop runs forever.
\<close>

partial_function (option) ListSearch_loop ::
  "('a \<Rightarrow> 'c \<Rightarrow> int) \<Rightarrow> 'c \<Rightarrow> int option \<Rightarrow> 'a option \<Rightarrow> 'a pool
    \<Rightarrow> (fault + ('a option \<times> 'a pool)) option" where
  "ListSearch_loop comparator comparisonArg list item s =
    (case item of None \<Rightarrow> Some (Inr (None, s)) | Some x \<Rightarrow>
     if comparator x comparisonArg = 1 then Some (Inr (Some x, s))
     else (case ListNext list s of
             Inl e \<Rightarrow> Some (Inl e)
           | Inr (item', s') \<Rightarrow> ListSearch_loop comparator comparisonArg list item' s'))"

definition ListSearch ::
  "int option \<Rightarrow> ('a \<Rightarrow> 'c \<Rightarrow> int) option \<Rightarrow> 'c \<Rightarrow> 'a pool
    \<Rightarrow> (fault + ('a option \<times> 'a pool)) option" where
  "ListSearch list comparator comparisonArg s =
    (case list of None \<Rightarrow> Some (Inr (None, s)) | Some l \<Rightarrow>
     case comparator of None \<Rightarrow> Some (Inr (None, s)) | Some cmp \<Rightarrow>
     (case rbind (list_at l s) (\<lambda>L.
             if l_before L = 1 \<and> l_count L > 0
             then list_upd l (\<lambda>L. L\<lparr>l_curr := l_head L, l_before := 0, l_after := 0\<rparr>) s
             else Inr s) of
        Inl e \<Rightarrow> Some (Inl e)
      | Inr s \<Rightarrow> (case ListCurr list s of
            Inl e \<Rightarrow> Some (Inl e)
          | Inr item \<Rightarrow> ListSearch_loop cmp comparisonArg list item s)))"

section \<open>list removers\<close>

definition init_pools :: "'a pool \<Rightarrow> 'a pool" where
  "init_pools s = s\<lparr>
     pool_nodes := (\<lambda>i. if 0 \<le> i \<and> i < MAX_NODES
       then \<lparr>n_item = None, n_next = -1, n_prev = -1,
             n_link = (if i = MAX_NODES - 1 then -1 else i + 1)\<rparr>
       else pool_nodes s i),
     pool_lists := (\<lambda>i. if 0 \<le> i \<and> i < MAX_LISTS
       then \<lparr>l_head = -1, l_tail = -1, l_curr = -1, l_count = 0, l_before = 1, l_after = 0,
             l_link = (if i = MAX_LISTS - 1 then -1 else i + 1)\<rparr>
       else pool_lists s i),
     initialized := 1\<rparr>"

definition ListCreate :: "'a pool \<Rightarrow> fault + (int option \<times> 'a pool)" where
  "ListCreate s =
    (let s = (if initialized s = 0 then init_pools s else s); freeListIdx = free_list_head s in
     if freeListIdx = -1 then Inr (None, s) else
     rbind (list_at freeListIdx s) (\<lambda>L.
     rbind (list_upd freeListIdx (\<lambda>L. L\<lparr>l_link := -1\<rparr>) (s\<lparr>free_list_head := l_link L\<rparr>)) (\<lambda>s.
     Inr (Some freeListIdx, s))))"

definition ListRemove :: "int option \<Rightarrow> 'a pool \<Rightarrow> fault + ('a option \<times> 'a pool)" where
  "ListRemove list s =
    (case list of None \<Rightarrow> Inr (None, s) | Some l \<Rightarrow>
     rbind (list_at l s) (\<lambda>L.
     if l_count L = 0 \<or> l_curr L = -1 \<or> l_before L = 1 \<or> l_after L = 1 then Inr (None, s) else
     let currNode = l_curr L in
     rbind (node_at currNode s) (\<lambda>c.
     let item = n_item c; prevNode = n_prev c; nextNode = n_next c in
     rbind (node_upd currNode (\<lambda>x. x\<lparr>n_item := None, n_next := -1, n_prev := -1,
                                       n_link := free_node_head s\<rparr>) s) (\<lambda>s.
     let s = s\<lparr>free_node_head := currNode\<rparr> in
     rbind (if prevNode \<noteq> -1 then node_upd prevNode (\<lambda>x. x\<lparr>n_next := nextNode\<rparr>) s
            else list_upd l (\<lambda>L. L\<lparr>l_head := nextNode\<rparr>) s) (\<lambda>s.
     rbind (if nextNode \<noteq> -1 then node_upd nextNode (\<lambda>x. x\<lparr>n_prev := prevNode\<rparr>) s
            else list_upd l (\<lambda>L. L\<lparr>l_tail := prevNode\<rparr>) s) (\<lambda>s.
     rbind (list_upd l (\<lambda>L. L\<lparr>l_count := l_count L - 1\<rparr>) s) (\<lambda>s.
     rbind (list_upd l (\<lambda>L.
              if l_count L = 0 then L\<lparr>l_curr := -1, l_before := 1, l_after := 0\<rparr>
              else if nextNode \<noteq> -1 then L\<lparr>l_curr := nextNode, l_before := 0, l_after := 0\<rparr>
              else L\<lparr>l_curr := prevNode, l_before := 0, l_after := 0\<rparr>) s) (\<lambda>s.
     Inr (item, s)))))))))"

definition ListConcat :: "int option \<Rightarrow> int option \<Rightarrow> 'a pool \<Rightarrow> fault + 'a pool" where
  "ListConcat list1 list2 s =
    (case list1 of None \<Rightarrow> Inr s | Some l1 \<Rightarrow> case list2 of None \<Rightarrow> Inr s | Some l2 \<Rightarrow>
     rbind (list_at l2 s) (\<lambda>L2.
     if l_count L2 = 0 then Inr s else
     rbind (list_at l1 s) (\<lambda>L1.
     rbind (node_upd (l_tail L1) (\<lambda>x. x\<lparr>n_next := l_head L2\<rparr>) s) (\<lambda>s.
     rbind (node_upd (l_head L2) (\<lambda>x. x\<lparr>n_prev := l_tail L1\<rparr>) s) (\<lambda>s.
     rbind (list_upd l1 (\<lambda>L. L\<lparr>l_tail := l_tail L2\<rparr>) s) (\<lambda>s.
     rbind (list_at l2 s) (\<lambda>L2.
     rbind (list_upd l1 (\<lambda>L. L\<lparr>l_count := l_count L + l_count L2\<rparr>) s) (\<lambda>s.
     rbind (list_upd l2 (\<lambda>L. L\<lparr>l_head := -1, l_tail := -1, l_curr := -1, l_count := 0,
                               l_before := 1, l_after := 0, l_link := free_list_head s\<rparr>) s) (\<lambda>s.
     Inr (s\<lparr>free_list_head := l2\<rparr>))))))))))"

text \<open>
  \<^verbatim>\<open>ListFree\<close> calls the routine it is given on every item; the model returns the items
  it was called on, in order.
\<close>

partial_function (option) ListFree_loop ::
  "int \<Rightarrow> 'a list \<Rightarrow> 'a pool \<Rightarrow> (fault + ('a list \<times> 'a pool)) option" where
  "ListFree_loop l freed s =
    (case list_at l s of
       Inl e \<Rightarrow> Some (Inl e)
     | Inr L \<Rightarrow>
       if l_count L > 0 then
         (case rbind (ListCurr (Some l) s) (\<lambda>item.
               rbind (ListNext (Some l) s) (\<lambda>(_, s).
               rbind (list_upd l (\<lambda>L. L\<lparr>l_count := l_count L - 1\<rparr>) s) (\<lambda>s. Inr (item, s)))) of
            Inl e \<Rightarrow> Some (Inl e)
          | Inr (item, s) \<Rightarrow>
              ListFree_loop l (case item of None \<Rightarrow> freed | Some x \<Rightarrow> freed @ [x]) s)
       else Some (Inr (freed, s)))"

definition ListFree :: "int option \<Rightarrow> 'f option \<Rightarrow> 'a pool \<Rightarrow> (fault + ('a list \<times> 'a pool)) option" where
  "ListFree list itemFree s =
    (case list of None \<Rightarrow> Some (Inr ([], s)) | Some l \<Rightarrow>
     if itemFree = None then Some (Inr ([], s)) else
     (case ListFirst list s of
        Inl e \<Rightarrow> Some (Inl e)
      | Inr (_, s) \<Rightarrow> (case ListFree_loop l [] s of
            None \<Rightarrow> None
          | Some (Inl e) \<Rightarrow> Some (Inl e)
          | Some (Inr (freed, s)) \<Rightarrow> Some (
              rbind (list_upd l (\<lambda>L. L\<lparr>l_head := -1, l_tail := -1, l_curr := -1, l_count := 0,
                                       l_before := 1, l_after := 0,
                                       l_link := free_list_head s\<rparr>) s) (\<lambda>s.
              Inr (freed, s\<lparr>free_list_head := l\<rparr>))))))"

definition ListTrim :: "int option \<Rightarrow> 'a pool \<Rightarrow> fault + ('a option \<times> 'a pool)" where
  "ListTrim list s =
    (case list of None \<Rightarrow> Inr (None, s) | Some l \<Rightarrow>
     rbind (list_at l s) (\<lambda>L.
     if l_count L = 0 then Inr (None, s)
     else if l_curr L = l_tail L then ListRemove list s
     else let savedCursor = l_curr L in
       rbind (ListLast list s) (\<lambda>(_, s).
       rbind (ListRemove list s) (\<lambda>(item, s).
       rbind (list_upd l (\<lambda>L. L\<lparr>l_curr := savedCursor\<rparr>) s) (\<lambda>s.
       Inr (item, s))))))"

text \<open>The pools as the loader leaves them: every global is zero.\<close>

definition bss_pool :: "'a pool" where
  "bss_pool = \<lparr>initialized = 0, free_list_head = 0, free_node_head = 0,
     pool_lists = (\<lambda>_. \<lparr>l_head = 0, l_tail = 0, l_curr = 0, l_count = 0,
                         l_before = 0, l_after = 0, l_link = 0\<rparr>),
     pool_nodes = (\<lambda>_. \<lparr>n_item = None, n_next = 0, n_prev = 0, n_link = 0\<rparr>)\<rparr>"

end
