(* ===== verification/List_Spec.thy ===== *)
theory List_Spec
  imports List_Pool
begin

text \<open>
  What the list library keeps and what it promises. \<open>pool_ok A hs fs nss xss s\<close> says that the
  headers in \<open>A\<close> are in use and list \<open>l\<close> owns the nodes \<open>nss l\<close> holding the items
  \<open>xss l\<close>, that \<open>fs\<close> is the chain of free nodes and \<open>hs\<close> the chain of free headers, and
  that no node has two owners. The end links of a list are \<open>-1\<close> or, as the code leaves them
  after the first insertion, the end node itself.
\<close>

section \<open>Representation\<close>

definition valid_node :: "int \<Rightarrow> bool" where
  "valid_node i \<longleftrightarrow> 0 \<le> i \<and> i < MAX_NODES"

fun linked :: "(int \<Rightarrow> 'a NODE) \<Rightarrow> int list \<Rightarrow> bool" where
  "linked f (a # b # ns) = (n_next (f a) = b \<and> n_prev (f b) = a \<and> linked f (b # ns))"
| "linked f _ = True"

primrec free_path :: "(int \<Rightarrow> int) \<Rightarrow> int \<Rightarrow> int list \<Rightarrow> bool" where
  "free_path lk i [] = (i = -1)"
| "free_path lk i (a # as) = (i = a \<and> free_path lk (lk a) as)"

definition list_ok :: "LIST \<Rightarrow> (int \<Rightarrow> 'a NODE) \<Rightarrow> int list \<Rightarrow> 'a list \<Rightarrow> bool" where
  "list_ok L f ns xs \<longleftrightarrow>
     l_count L = int (length ns) \<and> map (\<lambda>i. n_item (f i)) ns = map Some xs \<and> linked f ns \<and>
     (ns \<noteq> [] \<longrightarrow>
        l_head L = hd ns \<and> l_tail L = last ns \<and> (l_curr L = -1 \<or> l_curr L \<in> set ns) \<and>
        (n_prev (f (hd ns)) = -1 \<or> n_prev (f (hd ns)) = hd ns) \<and>
        (n_next (f (last ns)) = -1 \<or> n_next (f (last ns)) = last ns))"

definition pool_ok ::
  "int set \<Rightarrow> int list \<Rightarrow> int list \<Rightarrow> (int \<Rightarrow> int list) \<Rightarrow> (int \<Rightarrow> 'a list) \<Rightarrow> 'a pool \<Rightarrow> bool" where
  "pool_ok A hs fs nss xss s \<longleftrightarrow>
     initialized s = 1 \<and>
     A \<subseteq> {0..<MAX_LISTS} \<and> set hs \<subseteq> {0..<MAX_LISTS} \<and> A \<inter> set hs = {} \<and> distinct hs \<and>
     free_path (\<lambda>i. l_link (pool_lists s i)) (free_list_head s) hs \<and>
     (\<forall>h \<in> set hs. l_count (pool_lists s h) = 0) \<and>
     free_path (\<lambda>i. n_link (pool_nodes s i)) (free_node_head s) fs \<and> distinct fs \<and>
     (\<forall>i \<in> set fs. valid_node i) \<and>
     (\<forall>l \<in> A. list_ok (pool_lists s l) (pool_nodes s) (nss l) (xss l) \<and> distinct (nss l) \<and>
        (\<forall>i \<in> set (nss l). valid_node i) \<and> set (nss l) \<inter> set fs = {}) \<and>
     (\<forall>l \<in> A. \<forall>l' \<in> A. l \<noteq> l' \<longrightarrow> set (nss l) \<inter> set (nss l') = {})"

text \<open>The queue a client sees: the items of every list in use and the number of free nodes.\<close>

definition pool_rep :: "int set \<Rightarrow> (int \<Rightarrow> 'a list) \<Rightarrow> nat \<Rightarrow> 'a pool \<Rightarrow> bool" where
  "pool_rep A Q k s \<longleftrightarrow> (\<exists>hs fs nss. pool_ok A hs fs nss Q s \<and> length fs = k)"

text \<open>The effect of an append to a non-empty list and of a removal, in closed form.\<close>

definition append_nonempty :: "int \<Rightarrow> int \<Rightarrow> 'a \<Rightarrow> 'a pool \<Rightarrow> 'a pool" where
  "append_nonempty l f x s = s\<lparr>free_node_head := n_link (pool_nodes s f),
       pool_nodes := (pool_nodes s)(
         f := \<lparr>n_item = Some x, n_next = -1, n_prev = l_tail (pool_lists s l), n_link = -1\<rparr>,
         l_tail (pool_lists s l) := (pool_nodes s (l_tail (pool_lists s l)))\<lparr>n_next := f\<rparr>),
       pool_lists := (pool_lists s)(l := (pool_lists s l)\<lparr>l_tail := f,
         l_count := l_count (pool_lists s l) + 1, l_before := 0, l_after := 0\<rparr>)\<rparr>"

definition rm_nodes :: "int \<Rightarrow> int \<Rightarrow> int \<Rightarrow> int \<Rightarrow> (int \<Rightarrow> 'a NODE) \<Rightarrow> int \<Rightarrow> 'a NODE" where
  "rm_nodes c p q fnh f =
    (let f1 = f(c := \<lparr>n_item = None, n_next = -1, n_prev = -1, n_link = fnh\<rparr>);
         f2 = (if p \<noteq> -1 then f1(p := (f1 p)\<lparr>n_next := q\<rparr>) else f1)
     in if q \<noteq> -1 then f2(q := (f2 q)\<lparr>n_prev := p\<rparr>) else f2)"

definition rm_list :: "int \<Rightarrow> int \<Rightarrow> LIST \<Rightarrow> LIST" where
  "rm_list p q L =
    (let L = (if p \<noteq> -1 then L else L\<lparr>l_head := q\<rparr>);
         L = (if q \<noteq> -1 then L else L\<lparr>l_tail := p\<rparr>);
         L = L\<lparr>l_count := l_count L - 1\<rparr>
     in if l_count L = 0 then L\<lparr>l_curr := -1, l_before := 1, l_after := 0\<rparr>
        else L\<lparr>l_curr := (if q \<noteq> -1 then q else p), l_before := 0, l_after := 0\<rparr>)"

text \<open>A list is a stack under \<^verbatim>\<open>ListAppend\<close> and \<^verbatim>\<open>ListTrim\<close>.\<close>

definition tail_closed :: "int \<Rightarrow> (int \<Rightarrow> int list) \<Rightarrow> 'a pool \<Rightarrow> bool" where
  "tail_closed l nss s \<longleftrightarrow> length (nss l) \<le> 1 \<or> n_next (pool_nodes s (last (nss l))) = -1"

section \<open>Lemmas on chains\<close>

lemmas access_defs = node_at_def node_upd_def list_at_def list_upd_def

lemma valid_node_neq [simp]: "valid_node i \<Longrightarrow> i \<noteq> -1"
  by (auto simp: valid_node_def)

lemma node_at_valid [simp]: "valid_node i \<Longrightarrow> node_at i s = Inr (pool_nodes s i)"
  by (simp add: node_at_def valid_node_def)

lemma node_upd_valid [simp]:
  "valid_node i \<Longrightarrow> node_upd i g s = Inr (s\<lparr>pool_nodes := (pool_nodes s)(i := g (pool_nodes s i))\<rparr>)"
  by (simp add: node_upd_def valid_node_def)

lemma list_at_valid [simp]: "l \<in> {0..<MAX_LISTS} \<Longrightarrow> list_at l s = Inr (pool_lists s l)"
  by (simp add: list_at_def)

lemma list_upd_valid [simp]:
  "l \<in> {0..<MAX_LISTS} \<Longrightarrow>
   list_upd l g s = Inr (s\<lparr>pool_lists := (pool_lists s)(l := g (pool_lists s l))\<rparr>)"
  by (simp add: list_upd_def)

lemma linked_append:
  "linked f (as @ bs) \<longleftrightarrow> linked f as \<and> linked f bs \<and>
     (as \<noteq> [] \<and> bs \<noteq> [] \<longrightarrow> n_next (f (last as)) = hd bs \<and> n_prev (f (hd bs)) = last as)"
proof (induction as)
  case (Cons a as)
  then show ?case by (cases as; cases bs) auto
qed simp

lemma linked_cong:
  assumes "\<And>i. i \<in> set (butlast ns) \<Longrightarrow> n_next (g i) = n_next (f i)"
    and "\<And>i. i \<in> set (tl ns) \<Longrightarrow> n_prev (g i) = n_prev (f i)"
  shows "linked g ns = linked f ns"
  using assms by (induction f ns rule: linked.induct) auto

lemma in_set_tlD: "i \<in> set (tl ns) \<Longrightarrow> i \<in> set ns"
  by (cases ns) auto

lemma last_notin_butlast: "distinct ns \<Longrightarrow> ns \<noteq> [] \<Longrightarrow> last ns \<notin> set (butlast ns)"
  by (induction ns rule: rev_induct) auto

lemma hd_notin_tl: "distinct ns \<Longrightarrow> ns \<noteq> [] \<Longrightarrow> hd ns \<notin> set (tl ns)"
  by (cases ns) auto

lemma free_path_cong:
  "(\<And>i. i \<in> set as \<Longrightarrow> lk' i = lk i) \<Longrightarrow> free_path lk' i as = free_path lk i as"
  by (induction as arbitrary: i) auto

lemma free_path_Cons_hd: "free_path lk i as \<Longrightarrow> as \<noteq> [] \<Longrightarrow> i = hd as"
  by (cases as) auto

lemma list_ok_cong:
  assumes "\<And>i. i \<in> set ns \<Longrightarrow> g i = f i"
  shows "list_ok L g ns xs = list_ok L f ns xs"
proof -
  have "linked g ns = linked f ns"
    by (rule linked_cong) (use assms in \<open>auto dest: in_set_butlastD list.set_sel(2) in_set_tlD\<close>)
  moreover have "map (\<lambda>i. n_item (g i)) ns = map (\<lambda>i. n_item (f i)) ns"
    using assms by simp
  moreover have "ns \<noteq> [] \<Longrightarrow> g (hd ns) = f (hd ns) \<and> g (last ns) = f (last ns)"
    using assms by simp
  ultimately show ?thesis
    by (cases "ns = []") (simp_all add: list_ok_def del: map_eq_conv)
qed

lemma list_ok_length: "list_ok L f ns xs \<Longrightarrow> length xs = length ns"
  unfolding list_ok_def by (metis length_map)

section \<open>The pool invariant\<close>

lemma pool_okD:
  assumes "pool_ok A hs fs nss xss s"
  shows "initialized s = 1" "A \<subseteq> {0..<MAX_LISTS}" "A \<inter> set hs = {}"
    and "free_path (\<lambda>i. l_link (pool_lists s i)) (free_list_head s) hs"
    and "free_path (\<lambda>i. n_link (pool_nodes s i)) (free_node_head s) fs" "distinct fs"
    and "i \<in> set fs \<Longrightarrow> valid_node i"
    and "l \<in> A \<Longrightarrow> l \<in> {0..<MAX_LISTS}"
    and "l \<in> A \<Longrightarrow> list_ok (pool_lists s l) (pool_nodes s) (nss l) (xss l)"
    and "l \<in> A \<Longrightarrow> distinct (nss l)"
    and "l \<in> A \<Longrightarrow> i \<in> set (nss l) \<Longrightarrow> valid_node i"
    and "l \<in> A \<Longrightarrow> set (nss l) \<inter> set fs = {}"
  using assms unfolding pool_ok_def by blast+

text \<open>
  One operation on list \<open>l\<close> moves nodes between the list and the free chain. Every other list
  keeps its nodes, so only the touched list and the free chain need an argument.
\<close>

lemma pool_ok_update:
  assumes ok: "pool_ok A hs fs nss xss s" and l: "l \<in> A"
    and frame: "\<And>i. i \<notin> set fs \<union> set (nss l) \<Longrightarrow> pool_nodes s' i = pool_nodes s i"
    and lists: "\<And>k. k \<noteq> l \<Longrightarrow> pool_lists s' k = pool_lists s k"
    and heads: "free_list_head s' = free_list_head s" "initialized s' = initialized s"
    and free: "free_path (\<lambda>i. n_link (pool_nodes s' i)) (free_node_head s') fs'"
    and dist: "distinct (fs' @ ns')" and conserve: "set fs' \<union> set ns' \<subseteq> set fs \<union> set (nss l)"
    and new: "list_ok (pool_lists s' l) (pool_nodes s') ns' xs'"
  shows "pool_ok A hs fs' (nss(l := ns')) (xss(l := xs')) s'"
proof -
  have hs: "free_path (\<lambda>i. l_link (pool_lists s' i)) (free_list_head s') hs"
    using ok l lists heads free_path_cong[of hs "\<lambda>i. l_link (pool_lists s' i)"]
    unfolding pool_ok_def by (metis disjoint_iff)
  have cnt: "\<forall>h \<in> set hs. l_count (pool_lists s' h) = 0"
    using ok l lists unfolding pool_ok_def by (metis disjoint_iff)
  have disj: "k \<in> A \<Longrightarrow> k \<noteq> l \<Longrightarrow> set (nss k) \<inter> (set fs \<union> set (nss l)) = {}" for k
    using ok l unfolding pool_ok_def by blast
  have others: "list_ok (pool_lists s' k) (pool_nodes s') (nss k) (xss k)"
    if "k \<in> A" "k \<noteq> l" for k
    using list_ok_cong[of "nss k" "pool_nodes s'" "pool_nodes s"] frame disj that lists ok
    by (metis disjoint_iff pool_okD(9))
  have valid: "\<forall>i \<in> set fs' \<union> set ns'. valid_node i"
    using ok l conserve unfolding pool_ok_def by blast
  show ?thesis
    unfolding pool_ok_def
  proof (intro conjI ballI impI)
    fix k assume "k \<in> A"
    show "list_ok (pool_lists s' k) (pool_nodes s') ((nss(l := ns')) k) ((xss(l := xs')) k)"
      using others \<open>k \<in> A\<close> new by (cases "k = l") auto
    show "distinct ((nss(l := ns')) k)"
      using \<open>k \<in> A\<close> dist pool_okD(10)[OF ok] by (cases "k = l") auto
    show "set ((nss(l := ns')) k) \<inter> set fs' = {}"
      using \<open>k \<in> A\<close> dist disj conserve by (cases "k = l") auto
    fix i assume "i \<in> set ((nss(l := ns')) k)"
    then show "valid_node i"
      using \<open>k \<in> A\<close> valid pool_okD(11)[OF ok] by (cases "k = l") auto
  next
    fix k k' assume "k \<in> A" "k' \<in> A" "k \<noteq> k'"
    then have "set (nss k) \<inter> set (nss k') = {}"
      using ok unfolding pool_ok_def by blast
    then show "set ((nss(l := ns')) k) \<inter> set ((nss(l := ns')) k') = {}"
      using disj[of k] disj[of k'] conserve \<open>k \<in> A\<close> \<open>k' \<in> A\<close> \<open>k \<noteq> k'\<close>
      by (cases "k = l"; cases "k' = l") fastforce+
  qed (use ok hs cnt heads free dist valid in \<open>auto simp: pool_ok_def\<close>)
qed

section \<open>Appending\<close>

lemma free_path_transfer:
  "free_path lk i as \<Longrightarrow> (\<And>j. j \<in> set as \<Longrightarrow> lk' j = lk j) \<Longrightarrow> i' = i \<Longrightarrow> free_path lk' i' as"
  using free_path_cong by blast

lemma pool_ok_fs_Cons:
  assumes "pool_ok A hs (f # fs) nss xss s"
  shows "free_node_head s = f" "valid_node f" "f \<notin> set fs"
    and "free_path (\<lambda>i. n_link (pool_nodes s i)) (n_link (pool_nodes s f)) fs"
    and "l \<in> A \<Longrightarrow> f \<notin> set (nss l)"
  using assms unfolding pool_ok_def by auto

lemma nodeAllocator_Cons:
  assumes "pool_ok A hs (f # fs) nss xss s"
  shows "nodeAllocator s = Inr (f, s\<lparr>free_node_head := n_link (pool_nodes s f),
    pool_nodes := (pool_nodes s)(f := (pool_nodes s f)\<lparr>n_link := -1, n_next := -1, n_prev := -1\<rparr>)\<rparr>)"
  using pool_ok_fs_Cons[OF assms] by (auto simp: nodeAllocator_def Let_def)

lemma nodeAllocator_Nil:
  assumes "pool_ok A hs [] nss xss s"
  shows "nodeAllocator s = Inr (-1, s)"
  using assms by (simp add: nodeAllocator_def pool_ok_def)

lemma list_ok_Nil: "list_ok L f [] xs \<longleftrightarrow> l_count L = 0 \<and> xs = []"
  by (auto simp: list_ok_def)

lemma list_ok_count_0: "list_ok L f ns xs \<Longrightarrow> l_count L = 0 \<longleftrightarrow> ns = []"
  by (auto simp: list_ok_def)

lemma list_ok_tail: "list_ok L f ns xs \<Longrightarrow> ns \<noteq> [] \<Longrightarrow> l_tail L = last ns \<and> l_head L = hd ns"
  by (auto simp: list_ok_def)

lemma ListAppend_nonempty:
  assumes ok: "pool_ok A hs (f # fs) nss xss s" and l: "l \<in> A" and ne: "nss l \<noteq> []"
  shows "ListAppend (Some l) (Some x) s = Inr (0, append_nonempty l f x s)"
proof -
  note lo = pool_okD(9)[OF ok l] and f = pool_ok_fs_Cons[OF ok]
  have t: "valid_node (l_tail (pool_lists s l))" "l_tail (pool_lists s l) \<noteq> f"
    using list_ok_tail[OF lo ne] pool_okD(11)[OF ok l] f(5)[OF l] ne by (metis last_in_set)+
  show ?thesis
    using t f l ne list_ok_count_0[OF lo] pool_okD(8)[OF ok l] nodeAllocator_Cons[OF ok]
    by (cases "pool_nodes s f") (simp add: ListAppend_def append_nonempty_def fun_upd_twist)
qed

lemma ListAppend_empty:
  assumes ok: "pool_ok A hs (f # fs) nss xss s" and l: "l \<in> A" and ne: "nss l = []"
  shows "ListAppend (Some l) (Some x) s = Inr (0, s\<lparr>free_node_head := n_link (pool_nodes s f),
       pool_nodes := (pool_nodes s)(f := \<lparr>n_item = Some x, n_next = f, n_prev = f, n_link = -1\<rparr>),
       pool_lists := (pool_lists s)(l := (pool_lists s l)\<lparr>l_head := f, l_tail := f, l_curr := f,
         l_count := 1, l_before := 0, l_after := 0\<rparr>)\<rparr>)"
proof -
  note lo = pool_okD(9)[OF ok l] and f = pool_ok_fs_Cons[OF ok]
  show ?thesis
    using f l ne list_ok_count_0[OF lo] pool_okD(8)[OF ok l] nodeAllocator_Cons[OF ok]
    by (cases "pool_nodes s f"; cases "pool_lists s l") (simp add: ListAppend_def)
qed

lemma linked_snoc:
  assumes "linked g ns" "distinct ns" "ns \<noteq> []" "f \<notin> set ns"
    and "\<And>i. i \<in> set ns \<Longrightarrow> n_prev (g' i) = n_prev (g i)"
    and "\<And>i. i \<in> set ns \<Longrightarrow> i \<noteq> last ns \<Longrightarrow> n_next (g' i) = n_next (g i)"
    and "n_next (g' (last ns)) = f" "n_prev (g' f) = last ns"
  shows "linked g' (ns @ [f])"
proof -
  have "linked g' ns = linked g ns"
    by (rule linked_cong) (use assms last_notin_butlast in \<open>metis in_set_butlastD in_set_tlD\<close>)+
  with assms show ?thesis by (simp add: linked_append)
qed

lemma append_nonempty_ok:
  assumes ok: "pool_ok A hs (f # fs) nss xss s" and l: "l \<in> A" and ne: "nss l \<noteq> []"
  shows "pool_ok A hs fs (nss(l := nss l @ [f])) (xss(l := xss l @ [x])) (append_nonempty l f x s)"
proof -
  note lo = pool_okD(9)[OF ok l] and F = pool_ok_fs_Cons[OF ok] and d = pool_okD(10)[OF ok l]
  have t: "l_tail (pool_lists s l) = last (nss l)" "last (nss l) \<noteq> f" "last (nss l) \<in> set (nss l)"
    using list_ok_tail[OF lo ne] F(5)[OF l] ne by (auto dest: last_in_set)
  have nfs: "last (nss l) \<notin> set fs"
    using pool_okD(12)[OF ok l] t(3) by auto
  show ?thesis
  proof (rule pool_ok_update[OF ok l])
    let ?s = "append_nonempty l f x s"
    show "free_path (\<lambda>i. n_link (pool_nodes ?s i)) (free_node_head ?s) fs"
      by (rule free_path_transfer[OF F(4)]) (use F(3) nfs t in \<open>auto simp: append_nonempty_def\<close>)
    have "linked (pool_nodes ?s) (nss l @ [f])"
      by (rule linked_snoc[of "pool_nodes s"])
         (use lo d ne F(5)[OF l] t in \<open>auto simp: append_nonempty_def list_ok_def\<close>)
    moreover have "map (\<lambda>i. n_item (pool_nodes ?s i)) (nss l) = map (\<lambda>i. n_item (pool_nodes s i)) (nss l)"
      using F(5)[OF l] t by (auto simp: append_nonempty_def)
    ultimately show "list_ok (pool_lists ?s l) (pool_nodes ?s) (nss l @ [f]) (xss l @ [x])"
      using lo ne t F(5)[OF l] by (auto simp: list_ok_def append_nonempty_def simp del: map_eq_conv)
  qed (use t F(3,5) l d pool_okD(6,12)[OF ok] in \<open>auto simp: append_nonempty_def\<close>)
qed

lemma ListAppend_ok:
  assumes ok: "pool_ok A hs (f # fs) nss xss s" and l: "l \<in> A"
  shows "\<exists>s'. ListAppend (Some l) (Some x) s = Inr (0, s') \<and>
    pool_ok A hs fs (nss(l := nss l @ [f])) (xss(l := xss l @ [x])) s'"
proof (cases "nss l = []")
  case False
  then show ?thesis
    using ListAppend_nonempty[OF ok l] append_nonempty_ok[OF ok l] by blast
next
  case True
  note lo = pool_okD(9)[OF ok l] and F = pool_ok_fs_Cons[OF ok]
  have xs: "xss l = []"
    using list_ok_length[OF lo] True by simp
  obtain s' where s': "ListAppend (Some l) (Some x) s = Inr (0, s')"
    and eq: "s' = s\<lparr>free_node_head := n_link (pool_nodes s f),
       pool_nodes := (pool_nodes s)(f := \<lparr>n_item = Some x, n_next = f, n_prev = f, n_link = -1\<rparr>),
       pool_lists := (pool_lists s)(l := (pool_lists s l)\<lparr>l_head := f, l_tail := f, l_curr := f,
         l_count := 1, l_before := 0, l_after := 0\<rparr>)\<rparr>"
    using ListAppend_empty[OF ok l True] by blast
  have "pool_ok A hs fs (nss(l := [f])) (xss(l := [x])) s'"
  proof (rule pool_ok_update[OF ok l])
    show "free_path (\<lambda>i. n_link (pool_nodes s' i)) (free_node_head s') fs"
      by (rule free_path_transfer[OF F(4)]) (use F(3) in \<open>auto simp: eq\<close>)
  qed (use F True pool_okD(6)[OF ok] in \<open>auto simp: eq list_ok_def\<close>)
  with s' show ?thesis by (simp add: True xs)
qed

lemma ListAppend_full:
  assumes ok: "pool_ok A hs [] nss xss s" and l: "l \<in> A"
  shows "ListAppend (Some l) (Some x) s = Inr (-1, s)"
  using nodeAllocator_Nil[OF ok] by (simp add: ListAppend_def)

section \<open>Removing\<close>

lemma ListRemove_eq:
  assumes "l \<in> {0..<MAX_LISTS}" "l_curr (pool_lists s l) = c" "valid_node c"
    and "l_count (pool_lists s l) \<noteq> 0" "l_before (pool_lists s l) \<noteq> 1" "l_after (pool_lists s l) \<noteq> 1"
    and "n_prev (pool_nodes s c) = p" "n_next (pool_nodes s c) = q"
    and "p = -1 \<or> valid_node p" "q = -1 \<or> valid_node q"
  shows "ListRemove (Some l) s = Inr (n_item (pool_nodes s c),
    s\<lparr>free_node_head := c, pool_nodes := rm_nodes c p q (free_node_head s) (pool_nodes s),
      pool_lists := (pool_lists s)(l := rm_list p q (pool_lists s l))\<rparr>)"
proof -
  have 1: "(pool_nodes s c)\<lparr>n_item := None, n_next := -1, n_prev := -1, n_link := free_node_head s\<rparr>
     = \<lparr>n_item = None, n_next = -1, n_prev = -1, n_link = free_node_head s\<rparr>"
    by (cases "pool_nodes s c") simp
  have l: "0 \<le> l" "l < MAX_LISTS" using assms(1) by auto
  show ?thesis
    using assms(9,10)
    by (elim disjE) (simp_all add: ListRemove_def Let_def assms(2-8) l 1 rm_nodes_def rm_list_def)
qed

lemma rm_nodes_simps:
  "i \<noteq> c \<Longrightarrow> i \<noteq> p \<Longrightarrow> n_next (rm_nodes c p q h f i) = n_next (f i)"
  "i \<noteq> c \<Longrightarrow> i \<noteq> q \<Longrightarrow> n_prev (rm_nodes c p q h f i) = n_prev (f i)"
  "i \<noteq> c \<Longrightarrow> n_item (rm_nodes c p q h f i) = n_item (f i)"
  "i \<noteq> c \<Longrightarrow> n_link (rm_nodes c p q h f i) = n_link (f i)"
  "n_item (rm_nodes c p q h f c) = None" "n_link (rm_nodes c p q h f c) = h"
  "p \<noteq> -1 \<Longrightarrow> n_next (rm_nodes c p q h f p) = q"
  "q \<noteq> -1 \<Longrightarrow> n_prev (rm_nodes c p q h f q) = p"
  "i \<noteq> c \<Longrightarrow> p = -1 \<or> i \<noteq> p \<Longrightarrow> q = -1 \<or> i \<noteq> q \<Longrightarrow> rm_nodes c p q h f i = f i"
  by (auto simp: rm_nodes_def Let_def)

lemma rm_items:
  "c \<notin> set ns \<Longrightarrow> map (\<lambda>i. n_item (rm_nodes c p q h f i)) ns = map (\<lambda>i. n_item (f i)) ns"
  by (auto intro!: rm_nodes_simps(3))

lemma linked_ConsD: "linked f (c # bs) \<Longrightarrow> linked f bs"
  by (cases bs) auto

lemma linked_remove:
  assumes "linked f (as @ c # bs)" "distinct (as @ c # bs)" "\<forall>i \<in> set (as @ c # bs). i \<noteq> -1"
    and "as \<noteq> [] \<Longrightarrow> p = last as" "bs \<noteq> [] \<Longrightarrow> q = hd bs"
    and "as = [] \<Longrightarrow> p \<notin> set bs" "bs = [] \<Longrightarrow> q \<notin> set as"
  shows "linked (rm_nodes c p q h f) (as @ bs)"
proof -
  let ?g = "rm_nodes c p q h f"
  have out: "p \<notin> set (butlast as)" "p \<notin> set bs" "q \<notin> set as" "q \<notin> set (tl bs)" "c \<notin> set as" "c \<notin> set bs"
    using assms(2,4-7) last_notin_butlast[of as] hd_notin_tl[of bs] last_in_set[of as] hd_in_set[of bs]
    by (cases "as = []"; cases "bs = []"; force)+
  have "linked ?g as = linked f as"
    by (rule linked_cong; rule rm_nodes_simps) (use out in \<open>auto dest: in_set_butlastD in_set_tlD\<close>)
  moreover have "linked ?g bs = linked f bs"
    by (rule linked_cong; rule rm_nodes_simps) (use out in \<open>auto dest: in_set_butlastD in_set_tlD\<close>)
  moreover have "n_next (?g (last as)) = hd bs \<and> n_prev (?g (hd bs)) = last as" if "as \<noteq> []" "bs \<noteq> []"
    using assms(3-5) that rm_nodes_simps(7)[of p] rm_nodes_simps(8)[of q] by auto
  ultimately show ?thesis
    using assms(1) linked_ConsD[of f c bs] by (auto simp: linked_append)
qed

lemma list_ok_remove:
  assumes lo: "list_ok L f (as @ c # bs) (us @ x # vs)" and d: "distinct (as @ c # bs)"
    and neg: "-1 \<notin> set (as @ c # bs)"
    and p: "p = (if as \<noteq> [] then last as else -1)" and q: "q = (if bs \<noteq> [] then hd bs else -1)"
    and lk: "linked (rm_nodes c p q h f) (as @ bs)"
    and it: "map (\<lambda>i. n_item (rm_nodes c p q h f i)) (as @ bs) = map Some (us @ vs)"
  shows "list_ok (rm_list p q L) (rm_nodes c p q h f) (as @ bs) (us @ vs)"
proof -
  let ?g = "rm_nodes c p q h f"
  have ends: "as \<noteq> [] \<Longrightarrow> hd as \<noteq> c \<and> hd as \<noteq> q" "bs \<noteq> [] \<Longrightarrow> last bs \<noteq> c \<and> last bs \<noteq> p"
    using d neg p q by (auto simp: disjoint_iff split: if_splits; metis hd_in_set last_in_set)+
  have ne: "as \<noteq> [] \<Longrightarrow> last as \<noteq> -1" "bs \<noteq> [] \<Longrightarrow> hd bs \<noteq> -1"
    using neg by (auto, metis last_in_set, metis hd_in_set)
  have prev: "as \<noteq> [] \<Longrightarrow> n_prev (?g (hd as)) = n_prev (f (hd as))"
      "bs \<noteq> [] \<Longrightarrow> as = [] \<Longrightarrow> n_prev (?g (hd bs)) = -1"
    using ends(1) rm_nodes_simps(2)[of "hd as" c q p h f] rm_nodes_simps(8)[of q c p h f] p q ne
    by auto
  have nxt: "bs \<noteq> [] \<Longrightarrow> n_next (?g (last bs)) = n_next (f (last bs))"
      "as \<noteq> [] \<Longrightarrow> bs = [] \<Longrightarrow> n_next (?g (last as)) = -1"
    using ends(2) rm_nodes_simps(1)[of "last bs" c p q h f] rm_nodes_simps(7)[of p c q h f] p q ne
    by auto
  have "p = -1 \<longleftrightarrow> as = []" "q = -1 \<longleftrightarrow> bs = []"
    using p q ne by auto
  with lo lk it prev nxt p q show ?thesis
    by (cases "as = []"; cases "bs = []")
       (simp_all add: list_ok_def rm_list_def Let_def del: map_eq_conv)
qed

lemma ListRemove_ok:
  assumes ok: "pool_ok A hs fs nss xss s" and l: "l \<in> A"
    and ns: "nss l = as @ c # bs" and xs: "xss l = us @ x # vs" "length us = length as"
    and cur: "l_curr (pool_lists s l) = c"
    and flags: "l_before (pool_lists s l) \<noteq> 1" "l_after (pool_lists s l) \<noteq> 1"
    and noself: "as = [] \<and> bs = [] \<or> n_prev (pool_nodes s c) \<noteq> c \<and> n_next (pool_nodes s c) \<noteq> c"
  shows "\<exists>s'. ListRemove (Some l) s = Inr (Some x, s') \<and>
    pool_ok A hs (c # fs) (nss(l := as @ bs)) (xss(l := us @ vs)) s' \<and>
    l_curr (pool_lists s' l) = (if bs \<noteq> [] then hd bs else if as \<noteq> [] then last as else -1)"
proof -
  let ?f = "pool_nodes s" and ?L = "pool_lists s l"
  define p where "p = n_prev (?f c)"
  define q where "q = n_next (?f c)"
  note lo = pool_okD(9)[OF ok l, unfolded ns xs] and d = pool_okD(10)[OF ok l, unfolded ns]
    and v = pool_okD(11)[OF ok l, unfolded ns]
  have "map (\<lambda>i. n_item (?f i)) (as @ c # bs) = map Some (us @ x # vs)"
    using lo unfolding list_ok_def by blast
  then have items: "n_item (?f c) = Some x" "map (\<lambda>i. n_item (?f i)) as = map Some us"
      "map (\<lambda>i. n_item (?f i)) bs = map Some vs"
    using xs(2) by (auto simp: append_eq_append_conv simp del: map_eq_conv)
  have lk: "linked ?f (as @ c # bs)" and cnt: "l_count ?L = int (length as + length bs + 1)"
    using lo unfolding list_ok_def by auto
  have pq: "as \<noteq> [] \<Longrightarrow> p = last as \<and> n_next (?f (last as)) = c"
      "bs \<noteq> [] \<Longrightarrow> q = hd bs \<and> n_prev (?f (hd bs)) = c"
      "as = [] \<Longrightarrow> p = -1 \<or> p = c" "bs = [] \<Longrightarrow> q = -1 \<or> q = c"
    using lk lo by (auto simp: linked_append p_def q_def list_ok_def neq_Nil_conv)
  have pv: "p = -1 \<or> valid_node p" "q = -1 \<or> valid_node q"
    using pq v by (metis Un_iff last_in_set hd_in_set list.set_intros set_append)+
  define s' where "s' = s\<lparr>free_node_head := c, pool_nodes := rm_nodes c p q (free_node_head s) ?f,
      pool_lists := (pool_lists s)(l := rm_list p q ?L)\<rparr>"
  have res: "ListRemove (Some l) s = Inr (Some x, s')"
    unfolding s'_def items(1)[symmetric]
    by (rule ListRemove_eq) (use l pool_okD(8)[OF ok l] cur v cnt flags pv p_def q_def in auto)
  have np: "as = [] \<Longrightarrow> bs \<noteq> [] \<Longrightarrow> p = -1" "bs = [] \<Longrightarrow> as \<noteq> [] \<Longrightarrow> q = -1"
    using noself pq p_def q_def by auto
  have neg: "-1 \<notin> set as" "-1 \<notin> set bs" "c \<noteq> -1"
    using v[of "-1"] v[of c] valid_node_neq[of "-1"] valid_node_neq[of c] by auto
  have out: "as = [] \<Longrightarrow> p \<notin> set bs" "bs = [] \<Longrightarrow> q \<notin> set as"
    using pq(3,4) neg d by auto
  have "pool_ok A hs (c # fs) (nss(l := as @ bs)) (xss(l := us @ vs)) s'"
  proof (rule pool_ok_update[OF ok l])
    show "free_path (\<lambda>i. n_link (pool_nodes s' i)) (free_node_head s') (c # fs)"
      using pool_okD(12)[OF ok l] ns
      by (auto simp: s'_def rm_nodes_simps(6)
          intro!: free_path_transfer[OF pool_okD(5)[OF ok]] rm_nodes_simps(4))
    have "linked (pool_nodes s') (as @ bs)"
      using linked_remove[OF lk d, of p q "free_node_head s"] out pq(1,2) neg by (auto simp: s'_def)
    moreover have "map (\<lambda>i. n_item (pool_nodes s' i)) (as @ bs) = map Some (us @ vs)"
      using items(2,3) d by (simp add: s'_def rm_items del: map_eq_conv)
    ultimately show "list_ok (pool_lists s' l) (pool_nodes s') (as @ bs) (us @ vs)"
    proof (cases "as = [] \<and> bs = []")
      case True
      with items cnt show ?thesis by (auto simp: list_ok_Nil s'_def rm_list_def Let_def)
    next
      case False
      then have "p = (if as \<noteq> [] then last as else -1)" "q = (if bs \<noteq> [] then hd bs else -1)"
        using pq np by auto
      from list_ok_remove[OF lo d _ this] neg
      show ?thesis
        using \<open>linked (pool_nodes s') (as @ bs)\<close>
          \<open>map (\<lambda>i. n_item (pool_nodes s' i)) (as @ bs) = map Some (us @ vs)\<close>
        by (simp add: s'_def del: map_eq_conv map_append)
    qed
    show "pool_nodes s' i = pool_nodes s i" if "i \<notin> set fs \<union> set (nss l)" for i
    proof -
      have "i \<noteq> c" "i \<notin> set as" "i \<notin> set bs" using that ns by auto
      moreover have "p = -1 \<or> p = c \<or> p \<in> set as" using pq(1,3) last_in_set by blast
      moreover have "q = -1 \<or> q = c \<or> q \<in> set bs" using pq(2,4) hd_in_set by blast
      ultimately show ?thesis by (auto simp: s'_def intro: rm_nodes_simps(9))
    qed
  qed (use pool_okD(6)[OF ok] pool_okD(12)[OF ok l] d ns in \<open>auto simp: s'_def\<close>)
  moreover have "l_curr (pool_lists s' l) = (if bs \<noteq> [] then hd bs else if as \<noteq> [] then last as else -1)"
  proof (cases "bs = []")
    case True
    with np(2) pq(1) cnt neg show ?thesis
      by (cases "as = []") (simp_all add: s'_def rm_list_def Let_def)
  next
    case False
    with pq(2) cnt neg hd_in_set[of bs] have "q = hd bs" "hd bs \<noteq> -1" by metis+
    moreover have "int (length as) + int (length bs) \<noteq> 0" using False by (cases bs) auto
    ultimately show ?thesis using cnt False by (simp add: s'_def rm_list_def Let_def)
  qed
  ultimately show ?thesis using res by blast
qed

text \<open>\<^verbatim>\<open>ListFirst\<close> and \<^verbatim>\<open>ListLast\<close> move the cursor and leave the list as it is.\<close>

lemma cursor_move_ok:
  assumes ok: "pool_ok A hs fs nss xss s" and l: "l \<in> A"
    and c: "c = -1 \<or> c \<in> set (nss l)"
  shows "pool_ok A hs fs nss xss
    (s\<lparr>pool_lists := (pool_lists s)(l := (pool_lists s l)\<lparr>l_curr := c, l_before := b, l_after := a\<rparr>)\<rparr>)"
proof -
  have "pool_ok A hs fs (nss(l := nss l)) (xss(l := xss l))
    (s\<lparr>pool_lists := (pool_lists s)(l := (pool_lists s l)\<lparr>l_curr := c, l_before := b, l_after := a\<rparr>)\<rparr>)"
    by (rule pool_ok_update[OF ok l])
       (use pool_okD(5,6)[OF ok] pool_okD(9,10,12)[OF ok l] c in \<open>auto simp: list_ok_def\<close>)
  then show ?thesis by simp
qed

lemma ListFirst_ok:
  assumes ok: "pool_ok A hs fs nss xss s" and l: "l \<in> A" and ne: "xss l = x # xs"
  shows "\<exists>s'. ListFirst (Some l) s = Inr (Some x, s') \<and> pool_ok A hs fs nss xss s' \<and>
    pool_nodes s' = pool_nodes s \<and> l_curr (pool_lists s' l) = hd (nss l) \<and>
    l_before (pool_lists s' l) \<noteq> 1 \<and> l_after (pool_lists s' l) \<noteq> 1"
proof -
  note lo = pool_okD(9)[OF ok l]
  obtain n ns where ns: "nss l = n # ns"
    using list_ok_length[OF lo] ne by (cases "nss l") auto
  have h: "l_head (pool_lists s l) = n" "valid_node n" "n_item (pool_nodes s n) = Some x"
      "l_count (pool_lists s l) \<noteq> 0"
    using lo ns ne pool_okD(11)[OF ok l] by (auto simp: list_ok_def)
  show ?thesis
    using h ns cursor_move_ok[OF ok l, of n 0 0] pool_okD(8)[OF ok l] by (simp add: ListFirst_def)
qed

lemma ListLast_ok:
  assumes ok: "pool_ok A hs fs nss xss s" and l: "l \<in> A" and ne: "xss l \<noteq> []"
  shows "\<exists>s'. ListLast (Some l) s = Inr (Some (last (xss l)), s') \<and> pool_ok A hs fs nss xss s' \<and>
    pool_nodes s' = pool_nodes s \<and> l_curr (pool_lists s' l) = last (nss l) \<and>
    l_before (pool_lists s' l) \<noteq> 1 \<and> l_after (pool_lists s' l) \<noteq> 1"
proof -
  note lo = pool_okD(9)[OF ok l]
  have ns: "nss l \<noteq> []" using list_ok_length[OF lo] ne by auto
  have it: "map (\<lambda>i. n_item (pool_nodes s i)) (nss l) = map Some (xss l)"
    using lo by (simp add: list_ok_def)
  have "n_item (pool_nodes s (last (nss l))) = Some (last (xss l))"
    using arg_cong[OF it, of last] ns ne by (simp add: last_map)
  then have h: "l_tail (pool_lists s l) = last (nss l)" "valid_node (last (nss l))"
      "n_item (pool_nodes s (last (nss l))) = Some (last (xss l))" "l_count (pool_lists s l) \<noteq> 0"
    using lo ns pool_okD(11)[OF ok l] by (auto simp: list_ok_def)
  show ?thesis
    using h ns cursor_move_ok[OF ok l, of "last (nss l)" 0 0] pool_okD(8)[OF ok l]
    by (simp add: ListLast_def)
qed

lemma ListCount_ok:
  assumes ok: "pool_ok A hs fs nss xss s" and l: "l \<in> A"
  shows "ListCount (Some l) s = Inr (int (length (xss l)))"
  using pool_okD(8,9)[OF ok l] list_ok_length[OF pool_okD(9)[OF ok l]]
  by (simp add: ListCount_def list_ok_def)

text \<open>Taking the only item of a list works.\<close>

lemma take_single:
  assumes ok: "pool_ok A hs fs nss xss s" and l: "l \<in> A" and one: "xss l = [x]"
  shows "\<exists>s1 s'. ListFirst (Some l) s = Inr (Some x, s1) \<and> ListRemove (Some l) s1 = Inr (Some x, s') \<and>
    pool_ok A hs (hd (nss l) # fs) (nss(l := [])) (xss(l := [])) s'"
proof -
  obtain n where ns: "nss l = [n]"
    using list_ok_length[OF pool_okD(9)[OF ok l]] one by (cases "nss l") auto
  obtain s1 where s1: "ListFirst (Some l) s = Inr (Some x, s1)" "pool_ok A hs fs nss xss s1"
      "l_curr (pool_lists s1 l) = n" "l_before (pool_lists s1 l) \<noteq> 1" "l_after (pool_lists s1 l) \<noteq> 1"
    using ListFirst_ok[OF ok l one] ns by auto
  have "\<exists>s'. ListRemove (Some l) s1 = Inr (Some x, s') \<and>
      pool_ok A hs (n # fs) (nss(l := [])) (xss(l := [])) s'"
    using ListRemove_ok[OF s1(2) l, of "[]" n "[]" "[]" x "[]"] s1 ns one by auto
  then show ?thesis using s1(1) ns by auto
qed

text \<open>
  Taking the first of several items out of a list whose first node links back to itself, as
  every list filled by \<^verbatim>\<open>ListAppend\<close> does, leaves the header pointing at the removed
  node: the next \<^verbatim>\<open>ListFirst\<close> returns NULL although the list still has items.
\<close>

lemma take_selflinked:
  assumes ok: "pool_ok A hs fs nss xss s" and l: "l \<in> A" and many: "xss l = x # y # ys"
    and self: "n_prev (pool_nodes s (hd (nss l))) = hd (nss l)"
  shows "\<exists>s1 s' s''. ListFirst (Some l) s = Inr (Some x, s1) \<and> ListRemove (Some l) s1 = Inr (Some x, s') \<and>
    ListCount (Some l) s' = Inr (int (length (y # ys))) \<and> ListFirst (Some l) s' = Inr (None, s'') \<and>
    (\<forall>k. k \<noteq> l \<longrightarrow> pool_lists s' k = pool_lists s k)"
proof -
  note lo = pool_okD(9)[OF ok l]
  obtain c b bs where ns: "nss l = c # b # bs"
    using list_ok_length[OF lo] many by (metis Suc_length_conv)
  obtain s1 where s1: "ListFirst (Some l) s = Inr (Some x, s1)" "pool_ok A hs fs nss xss s1"
      "pool_nodes s1 = pool_nodes s"
      "l_curr (pool_lists s1 l) = c" "l_before (pool_lists s1 l) \<noteq> 1" "l_after (pool_lists s1 l) \<noteq> 1"
      "\<forall>k. k \<noteq> l \<longrightarrow> pool_lists s1 k = pool_lists s k"
    using ListFirst_ok[OF ok l many] ns pool_okD(8)[OF ok l]
    by (auto simp: ListFirst_def split: if_splits)
  note lo1 = pool_okD(9)[OF s1(2) l]
  have v: "valid_node c" "valid_node b" "b \<noteq> c"
    using pool_okD(10,11)[OF ok l] ns by auto
  have L: "l_head (pool_lists s1 l) = c" "l_count (pool_lists s1 l) = int (length (x # y # ys))"
      "n_next (pool_nodes s1 c) = b" "n_prev (pool_nodes s1 c) = c" "n_item (pool_nodes s1 c) = Some x"
    using lo1 ns many self s1(3) list_ok_length[OF lo1] by (auto simp: list_ok_def)
  define s' where "s' = s1\<lparr>free_node_head := c,
      pool_nodes := rm_nodes c c b (free_node_head s1) (pool_nodes s1),
      pool_lists := (pool_lists s1)(l := rm_list c b (pool_lists s1 l))\<rparr>"
  have "ListRemove (Some l) s1 = Inr (Some x, s')"
    unfolding s'_def L(5)[symmetric]
    by (rule ListRemove_eq) (use s1 L v pool_okD(8)[OF ok l] in auto)
  moreover have "ListCount (Some l) s' = Inr (int (length (y # ys)))"
    using L v pool_okD(8)[OF ok l] by (simp add: ListCount_def s'_def rm_list_def Let_def)
  moreover have "\<exists>s''. ListFirst (Some l) s' = Inr (None, s'')"
    using L v pool_okD(8)[OF ok l]
    by (simp add: ListFirst_def s'_def rm_list_def Let_def rm_nodes_simps)
  moreover have "\<forall>k. k \<noteq> l \<longrightarrow> pool_lists s' k = pool_lists s k" using s1(7) by (simp add: s'_def)
  ultimately show ?thesis using s1(1) by blast
qed

lemma fifo_broken:
  assumes ok: "pool_ok A hs (f # g # fs) nss xss s" and l: "l \<in> A" and empty: "xss l = []"
  shows "\<exists>s1 s2 s3 s4 s5. ListAppend (Some l) (Some x) s = Inr (0, s1) \<and>
    ListAppend (Some l) (Some y) s1 = Inr (0, s2) \<and>
    ListFirst (Some l) s2 = Inr (Some x, s3) \<and> ListRemove (Some l) s3 = Inr (Some x, s4) \<and>
    ListCount (Some l) s4 = Inr 1 \<and> ListFirst (Some l) s4 = Inr (None, s5) \<and>
    (\<forall>k. k \<noteq> l \<longrightarrow> pool_lists s4 k = pool_lists s k) \<and>
    pool_ok A hs fs (nss(l := [f, g])) (xss(l := [x, y])) s2"
proof -
  have e: "nss l = []" using list_ok_length[OF pool_okD(9)[OF ok l]] empty by simp
  obtain s1 where s1: "ListAppend (Some l) (Some x) s = Inr (0, s1)"
    "pool_ok A hs (g # fs) (nss(l := [f])) (xss(l := [x])) s1"
    using ListAppend_ok[OF ok l, of x] e empty by auto
  have fr1: "pool_nodes s1 f = \<lparr>n_item = Some x, n_next = f, n_prev = f, n_link = -1\<rparr>"
      "l_tail (pool_lists s1 l) = f" "\<forall>k. k \<noteq> l \<longrightarrow> pool_lists s1 k = pool_lists s k"
    using ListAppend_empty[OF ok l e, of x] s1(1) by auto
  have fg: "f \<noteq> g" using pool_okD(6)[OF ok] by auto
  let ?s2 = "append_nonempty l g y s1"
  have s2: "ListAppend (Some l) (Some y) s1 = Inr (0, ?s2)"
      "pool_ok A hs fs (nss(l := [f, g])) (xss(l := [x, y])) ?s2"
    using ListAppend_nonempty[OF s1(2) l, of y] append_nonempty_ok[OF s1(2) l, of y] by simp_all
  have "n_prev (pool_nodes ?s2 f) = f" using fr1 fg by (simp add: append_nonempty_def)
  with take_selflinked[OF s2(2) l, of x y "[]"] obtain s3 s4 s5 where
    "ListFirst (Some l) ?s2 = Inr (Some x, s3)" "ListRemove (Some l) s3 = Inr (Some x, s4)"
    "ListCount (Some l) s4 = Inr 1" "ListFirst (Some l) s4 = Inr (None, s5)"
    "\<forall>k. k \<noteq> l \<longrightarrow> pool_lists s4 k = pool_lists ?s2 k" by auto
  moreover have "\<forall>k. k \<noteq> l \<longrightarrow> pool_lists ?s2 k = pool_lists s k"
    using fr1(3) by (simp add: append_nonempty_def)
  ultimately show ?thesis using s1(1) s2
    by (intro exI[of _ s1] exI[of _ ?s2] exI[of _ s3] exI[of _ s4] exI[of _ s5]) simp
qed

section \<open>Creating\<close>

lemma free_path_upt: 
  assumes "\<And>j. i \<le> j \<Longrightarrow> j < n \<Longrightarrow> lk j = (if j = n - 1 then -1 else j + 1)" "i < n"
  shows "free_path lk i [i..n - 1]"
  using assms
proof (induction "nat (n - i)" arbitrary: i)
  case 0
  then show ?case by simp
next
  case (Suc k)
  have up: "[i..n - 1] = i # [i + 1..n - 1]" using Suc.prems(2) by (simp add: upto.simps)
  show ?case
  proof (cases "i = n - 1")
    case True
    with Suc.prems up show ?thesis by simp
  next
    case False
    then have "free_path lk (i + 1) [i + 1..n - 1]"
      using Suc.prems Suc.hyps(2) by (intro Suc.hyps(1)) auto
    with False Suc.prems up show ?thesis by simp
  qed
qed

lemma init_pools_ok:
  "pool_ok {} [0..MAX_LISTS - 1] [0..MAX_NODES - 1] nss xss (init_pools bss_pool)"
  unfolding pool_ok_def
proof (intro conjI ballI impI)
  show "free_path (\<lambda>i. l_link (pool_lists (init_pools bss_pool) i)) (free_list_head (init_pools bss_pool))
     [0..MAX_LISTS - 1]"
    by (simp add: init_pools_def bss_pool_def, rule free_path_upt) (auto simp: MAX_LISTS_def)
  show "free_path (\<lambda>i. n_link (pool_nodes (init_pools bss_pool) i)) (free_node_head (init_pools bss_pool))
     [0..MAX_NODES - 1]"
    by (simp add: init_pools_def bss_pool_def, rule free_path_upt) (auto simp: MAX_NODES_def)
qed (auto simp: init_pools_def bss_pool_def valid_node_def MAX_LISTS_def MAX_NODES_def)

lemma ListCreate_bss: "ListCreate bss_pool = ListCreate (init_pools bss_pool)"
  by (simp add: ListCreate_def init_pools_def bss_pool_def)

lemma ListCreate_ok:
  assumes ok: "pool_ok A (h # hs) fs nss xss s"
  shows "\<exists>s'. ListCreate s = Inr (Some h, s') \<and>
    pool_ok (insert h A) hs fs (nss(h := [])) (xss(h := [])) s'"
proof -
  have h: "h \<in> {0..<MAX_LISTS}" "free_list_head s = h" "h \<notin> A" "h \<notin> set hs" "h \<noteq> -1"
    "l_count (pool_lists s h) = 0"
    "free_path (\<lambda>i. l_link (pool_lists s i)) (l_link (pool_lists s h)) hs"
    using ok unfolding pool_ok_def by auto
  define s' where "s' = s\<lparr>free_list_head := l_link (pool_lists s h),
     pool_lists := (pool_lists s)(h := (pool_lists s h)\<lparr>l_link := -1\<rparr>)\<rparr>"
  have "ListCreate s = Inr (Some h, s')"
    using h pool_okD(1)[OF ok] by (simp add: ListCreate_def s'_def Let_def)
  moreover have "free_path (\<lambda>i. l_link (pool_lists s' i)) (free_list_head s') hs"
    by (rule free_path_transfer[OF h(7)]) (use h in \<open>auto simp: s'_def\<close>)
  moreover have "pool_nodes s' = pool_nodes s" "free_node_head s' = free_node_head s"
      "initialized s' = initialized s" "l_count (pool_lists s' h) = 0"
      "\<And>l. l \<noteq> h \<Longrightarrow> pool_lists s' l = pool_lists s l"
    using h by (auto simp: s'_def)
  moreover have "pool_ok (insert h A) hs fs (nss(h := [])) (xss(h := [])) s'"
    unfolding pool_ok_def
  proof (intro conjI ballI impI)
    fix l assume l: "l \<in> insert h A"
    show "list_ok (pool_lists s' l) (pool_nodes s') ((nss(h := [])) l) ((xss(h := [])) l)"
      using l pool_okD(9)[OF ok, of l] calculation h by (cases "l = h") (auto simp: list_ok_Nil)
    show "distinct ((nss(h := [])) l)"
      using l pool_okD(10)[OF ok, of l] by (cases "l = h") auto
    show "set ((nss(h := [])) l) \<inter> set fs = {}"
      using l pool_okD(12)[OF ok, of l] by (cases "l = h") auto
    show "valid_node i" if "i \<in> set ((nss(h := [])) l)" for i
      using l that pool_okD(11)[OF ok, of l i] by (cases "l = h") auto
    show "set ((nss(h := [])) l) \<inter> set ((nss(h := [])) l') = {}"
      if "l' \<in> insert h A" "l \<noteq> l'" for l'
      using ok l that by (cases "l = h"; cases "l' = h") (simp_all add: pool_ok_def)
  next
    show "\<And>k. k \<in> set hs \<Longrightarrow> l_count (pool_lists s' k) = 0"
      using ok h by (auto simp: pool_ok_def s'_def)
  qed (use calculation ok h in \<open>simp_all add: pool_ok_def\<close>)
  ultimately show ?thesis by blast
qed

lemma ListCreate_empty:
  assumes "pool_ok A (h # hs) fs (\<lambda>_. []) (\<lambda>_. []) s"
  shows "\<exists>s'. ListCreate s = Inr (Some h, s') \<and> pool_ok (insert h A) hs fs (\<lambda>_. []) (\<lambda>_. []) s'"
  using ListCreate_ok[OF assms] by (simp add: fun_upd_idem)

lemma boot_list:
  "\<exists>s. ListCreate bss_pool = Inr (Some 0, s) \<and>
    pool_ok {0} [1..MAX_LISTS - 1] (0 # 1 # [2..MAX_NODES - 1]) (\<lambda>_. []) (\<lambda>_. []) s"
proof -
  have up: "[0..MAX_LISTS - 1] = 0 # [1..MAX_LISTS - 1]" "[0..MAX_NODES - 1] = 0 # 1 # [2..MAX_NODES - 1]"
    using upto.simps[of 0 "MAX_LISTS - 1"] upto.simps[of 0 "MAX_NODES - 1"] upto.simps[of 1 "MAX_NODES - 1"]
    by (simp_all add: MAX_LISTS_def MAX_NODES_def)
  show ?thesis
    using ListCreate_empty[OF init_pools_ok[of "\<lambda>_. []" "\<lambda>_. []", unfolded up(1)]]
    by (simp add: ListCreate_bss up(2))
qed

lemma ListCreate_exhausted:
  assumes ok: "pool_ok A [] fs nss xss s"
  shows "ListCreate s = Inr (None, s)"
  using ok by (simp add: ListCreate_def pool_ok_def)

section \<open>Stack discipline\<close>

lemma restore_cursor_ok:
  assumes ok: "pool_ok A hs fs nss xss s" and l: "l \<in> A"
    and c: "c = -1 \<or> c \<in> set (nss l)"
  shows "pool_ok A hs fs nss xss
    (s\<lparr>pool_lists := (pool_lists s)(l := (pool_lists s l)\<lparr>l_curr := c\<rparr>)\<rparr>)"
  using cursor_move_ok[OF ok l c, of "l_after (pool_lists s l)" "l_before (pool_lists s l)"] by simp

lemma append_butlast_last: "ns \<noteq> [] \<Longrightarrow> ns = butlast ns @ last ns # []"
  by simp

lemma ListTrim_ok:
  assumes ok: "pool_ok A hs fs nss xss s" and l: "l \<in> A" and ne: "xss l \<noteq> []"
    and tc: "tail_closed l nss s"
    and flags: "l_curr (pool_lists s l) = l_tail (pool_lists s l) \<Longrightarrow>
       l_before (pool_lists s l) \<noteq> 1 \<and> l_after (pool_lists s l) \<noteq> 1"
  shows "\<exists>s'. ListTrim (Some l) s = Inr (Some (last (xss l)), s') \<and>
    pool_ok A hs (last (nss l) # fs) (nss(l := butlast (nss l))) (xss(l := butlast (xss l))) s'"
proof -
  note lo = pool_okD(9)[OF ok l]
  have ns: "nss l \<noteq> []" using list_ok_length[OF lo] ne by auto
  have t: "l_tail (pool_lists s l) = last (nss l)" "l_count (pool_lists s l) \<noteq> 0"
      "l_curr (pool_lists s l) = -1 \<or> l_curr (pool_lists s l) \<in> set (nss l)"
    using list_ok_tail[OF lo ns] list_ok_count_0[OF lo] ns lo by (auto simp: list_ok_def)
  have eqs: "nss l = butlast (nss l) @ last (nss l) # []" "xss l = butlast (xss l) @ last (xss l) # []"
    using ns ne by simp_all
  have len: "length (butlast (xss l)) = length (butlast (nss l))"
    using list_ok_length[OF lo] by simp
  have prev: "n_prev (pool_nodes s (last (nss l))) \<noteq> last (nss l)" if "butlast (nss l) \<noteq> []"
  proof -
    have "linked (pool_nodes s) (butlast (nss l) @ [last (nss l)])" "distinct (nss l)"
      using lo pool_okD(10)[OF ok l] ns by (simp_all add: list_ok_def)
    then have "n_prev (pool_nodes s (last (nss l))) = last (butlast (nss l))"
      using that by (simp add: linked_append)
    then show ?thesis
      using last_notin_butlast[OF \<open>distinct (nss l)\<close> ns] last_in_set[OF that] by metis
  qed
  have step: "\<exists>s'. ListRemove (Some l) s0 = Inr (Some (last (xss l)), s') \<and>
    pool_ok A hs (last (nss l) # fs) (nss(l := butlast (nss l))) (xss(l := butlast (xss l))) s'"
    if "pool_ok A hs fs nss xss s0" "pool_nodes s0 = pool_nodes s"
       "l_curr (pool_lists s0 l) = last (nss l)" "l_before (pool_lists s0 l) \<noteq> 1"
       "l_after (pool_lists s0 l) \<noteq> 1" for s0
  proof -
    have "butlast (nss l) = [] \<or> n_prev (pool_nodes s0 (last (nss l))) \<noteq> last (nss l) \<and>
        n_next (pool_nodes s0 (last (nss l))) \<noteq> last (nss l)"
      using prev tc that(2) pool_okD(11)[OF ok l last_in_set[OF ns]] valid_node_neq
      by (cases "nss l" rule: rev_cases) (auto simp: tail_closed_def)
    then show ?thesis
      using ListRemove_ok[OF that(1) l eqs(1) eqs(2) len that(3-5)] by auto
  qed
  show ?thesis
  proof (cases "l_curr (pool_lists s l) = l_tail (pool_lists s l)")
    case True
    then show ?thesis using step[OF ok] t flags pool_okD(8)[OF ok l] by (simp add: ListTrim_def)
  next
    case False
    obtain s1 where s1: "ListLast (Some l) s = Inr (Some (last (xss l)), s1)" "pool_ok A hs fs nss xss s1"
      "pool_nodes s1 = pool_nodes s" "l_curr (pool_lists s1 l) = last (nss l)"
      "l_before (pool_lists s1 l) \<noteq> 1" "l_after (pool_lists s1 l) \<noteq> 1"
      using ListLast_ok[OF ok l ne] by auto
    obtain s2 where s2: "ListRemove (Some l) s1 = Inr (Some (last (xss l)), s2)"
      "pool_ok A hs (last (nss l) # fs) (nss(l := butlast (nss l))) (xss(l := butlast (xss l))) s2"
      using step[OF s1(2-6)] by auto
    have "l_curr (pool_lists s l) = -1 \<or> l_curr (pool_lists s l) \<in> set (butlast (nss l))"
      using t False by (metis Un_iff empty_iff eqs(1) list.set(1) set_ConsD set_append)
    then show ?thesis
      using s1(1) s2(1) restore_cursor_ok[OF s2(2) l] t False pool_okD(8)[OF ok l]
      by (simp add: ListTrim_def)
  qed
qed

lemma append_tail_closed:
  assumes ok: "pool_ok A hs (f # fs) nss xss s" and l: "l \<in> A"
    and ap: "ListAppend (Some l) (Some x) s = Inr (r, s')"
  shows "tail_closed l (nss(l := nss l @ [f])) s'"
    and "l_before (pool_lists s' l) \<noteq> 1 \<and> l_after (pool_lists s' l) \<noteq> 1"
proof -
  note lo = pool_okD(9)[OF ok l] and F = pool_ok_fs_Cons[OF ok]
  have t: "nss l \<noteq> [] \<Longrightarrow> l_tail (pool_lists s l) \<noteq> f"
    using list_ok_tail[OF lo] F(5)[OF l] last_in_set by metis
  show "tail_closed l (nss(l := nss l @ [f])) s'"
    using ListAppend_nonempty[OF ok l, of x] ap t
    by (cases "nss l = []") (auto simp: tail_closed_def append_nonempty_def)
  show "l_before (pool_lists s' l) \<noteq> 1 \<and> l_after (pool_lists s' l) \<noteq> 1"
    using ListAppend_nonempty[OF ok l, of x] ListAppend_empty[OF ok l, of x] ap
    by (cases "nss l = []") (auto simp: append_nonempty_def)
qed

lemma ListAppend_Trim:
  assumes ok: "pool_ok A hs (f # fs) nss xss s" and l: "l \<in> A"
  shows "\<exists>s'. rbind (ListAppend (Some l) (Some x) s) (\<lambda>(_, s). ListTrim (Some l) s) = Inr (Some x, s') \<and>
    pool_ok A hs (f # fs) nss xss s'"
proof -
  obtain s1 where s1: "ListAppend (Some l) (Some x) s = Inr (0, s1)"
    "pool_ok A hs fs (nss(l := nss l @ [f])) (xss(l := xss l @ [x])) s1"
    using ListAppend_ok[OF ok l] by blast
  from ListTrim_ok[OF s1(2) l] append_tail_closed[OF ok l s1(1)]
  show ?thesis by (simp add: s1(1))
qed

section \<open>The interface its clients rely on\<close>

text \<open>
  What the monitor server and the chat program use of the library: append an item, count the
  items, take the item of a list that holds one. \<open>rep A Q k s\<close> says that the lists in \<open>A\<close> hold
  the items \<open>Q\<close> and that \<open>k\<close> nodes are free.
\<close>

locale item_queue =
  fixes rep :: "int set \<Rightarrow> (int \<Rightarrow> 'a list) \<Rightarrow> nat \<Rightarrow> 's \<Rightarrow> bool"
    and append :: "int option \<Rightarrow> 'a option \<Rightarrow> 's \<Rightarrow> fault + (int \<times> 's)"
    and count :: "int option \<Rightarrow> 's \<Rightarrow> fault + int"
    and first :: "int option \<Rightarrow> 's \<Rightarrow> fault + ('a option \<times> 's)"
    and remove :: "int option \<Rightarrow> 's \<Rightarrow> fault + ('a option \<times> 's)"
  assumes append_rep: "rep A Q (Suc k) s \<Longrightarrow> l \<in> A \<Longrightarrow>
      \<exists>s'. append (Some l) (Some x) s = Inr (0, s') \<and> rep A (Q(l := Q l @ [x])) k s'"
    and append_full: "rep A Q 0 s \<Longrightarrow> l \<in> A \<Longrightarrow> append (Some l) (Some x) s = Inr (-1, s)"
    and count_rep: "rep A Q k s \<Longrightarrow> l \<in> A \<Longrightarrow> count (Some l) s = Inr (int (length (Q l)))"
    and take_rep: "rep A Q k s \<Longrightarrow> l \<in> A \<Longrightarrow> Q l = [x] \<Longrightarrow>
      \<exists>s1 s'. first (Some l) s = Inr (Some x, s1) \<and> remove (Some l) s1 = Inr (Some x, s') \<and>
        rep A (Q(l := [])) (Suc k) s'"
begin

lemma append_take:
  assumes "rep A Q (Suc k) s" "l \<in> A" "Q l = []"
  shows "\<exists>s'. rbind (append (Some l) (Some x) s) (\<lambda>(_, s). rbind (first (Some l) s)
    (\<lambda>(_, s). remove (Some l) s)) = Inr (Some x, s') \<and> rep A Q (Suc k) s'"
proof -
  obtain s1 where s1: "append (Some l) (Some x) s = Inr (0, s1)" "rep A (Q(l := [x])) k s1"
    using append_rep[OF assms(1,2), of x] assms(3) by auto
  obtain s2 s3 where "first (Some l) s1 = Inr (Some x, s2)" "remove (Some l) s2 = Inr (Some x, s3)"
      "rep A (Q(l := [], l := [])) (Suc k) s3"
    using take_rep[OF s1(2) assms(2), of x] by auto
  moreover have "Q(l := [], l := []) = Q" using assms(3) by auto
  ultimately show ?thesis using s1(1) by auto
qed

lemma count_pos_iff:
  "rep A Q k s \<Longrightarrow> l \<in> A \<Longrightarrow> \<exists>n. count (Some l) s = Inr n \<and> (0 < n \<longleftrightarrow> Q l \<noteq> [])"
  using count_rep by fastforce

end

interpretation lq: item_queue pool_rep ListAppend ListCount ListFirst ListRemove
proof
  fix A :: "int set" and Q :: "int \<Rightarrow> 'a list" and k s l and x :: 'a
  show "\<exists>s'. ListAppend (Some l) (Some x) s = Inr (0, s') \<and> pool_rep A (Q(l := Q l @ [x])) k s'"
    if rep: "pool_rep A Q (Suc k) s" and l: "l \<in> A"
  proof -
    obtain hs f fs nss where "pool_ok A hs (f # fs) nss Q s" "length fs = k"
      using rep unfolding pool_rep_def length_Suc_conv by blast
    with ListAppend_ok[OF this(1) l, of x] show ?thesis unfolding pool_rep_def by blast
  qed
  show "pool_rep A Q 0 s \<Longrightarrow> l \<in> A \<Longrightarrow> ListAppend (Some l) (Some x) s = Inr (-1, s)"
    unfolding pool_rep_def using ListAppend_full by fastforce
  show "pool_rep A Q k s \<Longrightarrow> l \<in> A \<Longrightarrow> ListCount (Some l) s = Inr (int (length (Q l)))"
    unfolding pool_rep_def using ListCount_ok by blast
  show "pool_rep A Q k s \<Longrightarrow> l \<in> A \<Longrightarrow> Q l = [x] \<Longrightarrow>
      \<exists>s1 s'. ListFirst (Some l) s = Inr (Some x, s1) \<and> ListRemove (Some l) s1 = Inr (Some x, s') \<and>
        pool_rep A (Q(l := [])) (Suc k) s'"
    unfolding pool_rep_def using take_single by (metis length_Cons)
qed

end
