(* ===== verification/List_Walk.thy ===== *)
theory List_Walk
  imports List_Spec
begin

text \<open>
  The operations that walk a list: \<^verbatim>\<open>ListNext\<close>, \<^verbatim>\<open>ListSearch\<close> and
  \<^verbatim>\<open>ListFree\<close>, with the termination of their loops.
\<close>

text \<open>A search that has stopped making progress: the cursor stays on an item that does not match.\<close>

definition search_stuck :: "('a \<Rightarrow> 'c \<Rightarrow> int) \<Rightarrow> 'c \<Rightarrow> int option \<Rightarrow> 'a option \<Rightarrow> 'a pool \<Rightarrow> bool" where
  "search_stuck cmp a list item s \<longleftrightarrow> (\<exists>l x. list = Some l \<and> item = Some x \<and> cmp x a \<noteq> 1 \<and>
     ListNext list s = Inr (item, s))"

section \<open>Walking a list\<close>

lemma list_nth:
  assumes "list_ok L g (as @ c # bs) (us @ x # vs)" "length us = length as"
  shows "n_item (g c) = Some x" "bs \<noteq> [] \<Longrightarrow> n_next (g c) = hd bs"
    "map (\<lambda>i. n_item (g i)) bs = map Some vs"
proof -
  have "map (\<lambda>i. n_item (g i)) (as @ c # bs) = map Some (us @ x # vs)" "linked g (as @ c # bs)"
    using assms(1) unfolding list_ok_def by blast+
  with assms(2) show "n_item (g c) = Some x" "bs \<noteq> [] \<Longrightarrow> n_next (g c) = hd bs"
    "map (\<lambda>i. n_item (g i)) bs = map Some vs"
    by (auto simp: append_eq_append_conv linked_append neq_Nil_conv simp del: map_eq_conv)
qed

lemma ListNext_step:
  assumes ok: "pool_ok A hs fs nss xss s" and l: "l \<in> A"
    and ns: "nss l = as @ c # b # bs" and xs: "xss l = us @ x # v # vs" "length us = length as"
    and cur: "l_curr (pool_lists s l) = c" and after: "l_after (pool_lists s l) \<noteq> 1"
  shows "\<exists>s'. ListNext (Some l) s = Inr (Some v, s') \<and> pool_ok A hs fs nss xss s' \<and>
    pool_nodes s' = pool_nodes s \<and> l_curr (pool_lists s' l) = b \<and> l_after (pool_lists s' l) \<noteq> 1"
proof -
  have v: "valid_node c" "valid_node b" using pool_okD(11)[OF ok l] ns by auto
  have c: "n_next (pool_nodes s c) = b" "n_item (pool_nodes s b) = Some v"
    using list_nth[of "pool_lists s l" "pool_nodes s" as c "b # bs" us x "v # vs"]
      pool_okD(9)[OF ok l] ns xs by auto
  show ?thesis
    using v c after cur pool_okD(8)[OF ok l] restore_cursor_ok[OF ok l, of b] ns
    by (simp add: ListNext_def)
qed

lemma flags_swap: "(L :: LIST)\<lparr>l_after := a, l_before := b\<rparr> = L\<lparr>l_before := b, l_after := a\<rparr>"
  by simp

lemma ListNext_end:
  assumes ok: "pool_ok A hs fs nss xss s" and l: "l \<in> A" and ns: "nss l = as @ [c]"
    and cur: "l_curr (pool_lists s l) = c" and after: "l_after (pool_lists s l) \<noteq> 1"
    and last: "n_next (pool_nodes s c) = -1"
  shows "\<exists>s'. ListNext (Some l) s = Inr (None, s') \<and> pool_ok A hs fs nss xss s' \<and>
    l_curr (pool_lists s' l) = -1 \<and> l_after (pool_lists s' l) = 1"
  using last after cur pool_okD(8)[OF ok l] pool_okD(11)[OF ok l, of c] ns
    cursor_move_ok[OF ok l, of "-1" 1 0]
  by (simp add: ListNext_def flags_swap)

lemma ListNext_self:
  assumes ok: "pool_ok A hs fs nss xss s" and l: "l \<in> A" and c: "c \<in> set (nss l)"
    and cur: "l_curr (pool_lists s l) = c" and after: "l_after (pool_lists s l) \<noteq> 1"
    and self: "n_next (pool_nodes s c) = c"
  shows "ListNext (Some l) s = Inr (n_item (pool_nodes s c), s)"
  using self after cur pool_okD(8)[OF ok l] pool_okD(11)[OF ok l c] valid_node_neq[of c]
  by (simp add: ListNext_def fun_upd_idem)

text \<open>
  The search returns the first match at or after the cursor; with no match it returns NULL when
  the last node closes the chain, and never returns when that node links to itself.
\<close>

lemma search_loop_found:
  assumes "pool_ok A hs fs nss xss s" "l \<in> A" "nss l = as @ c # bs" "xss l = us @ x # vs"
    and "length us = length as" "l_curr (pool_lists s l) = c" "l_after (pool_lists s l) \<noteq> 1"
    and "find (\<lambda>y. cmp y a = 1) (x # vs) = Some y"
  shows "\<exists>s'. ListSearch_loop cmp a (Some l) (Some x) s = Some (Inr (Some y, s')) \<and>
    pool_ok A hs fs nss xss s'"
  using assms
proof (induction vs arbitrary: s as c bs us x)
  case Nil
  then show ?case by (subst ListSearch_loop.simps) (auto split: if_splits)
next
  case (Cons v vs)
  show ?case
  proof (cases "cmp x a = 1")
    case True
    with Cons.prems show ?thesis by (subst ListSearch_loop.simps) auto
  next
    case False
    obtain b bs' where bs: "bs = b # bs'"
      using list_ok_length[OF pool_okD(9)[OF Cons.prems(1,2)]] Cons.prems(3-5) by (cases bs) auto
    obtain s1 where s1: "ListNext (Some l) s = Inr (Some v, s1)" "pool_ok A hs fs nss xss s1"
        "l_curr (pool_lists s1 l) = b" "l_after (pool_lists s1 l) \<noteq> 1"
      using ListNext_step[OF Cons.prems(1,2) Cons.prems(3)[unfolded bs] Cons.prems(4-7)] by blast
    from Cons.IH[OF s1(2) Cons.prems(2), of "as @ [c]" b bs' "us @ [x]" v] Cons.prems s1 bs False
    show ?thesis by (subst ListSearch_loop.simps) auto
  qed
qed

lemma search_loop_missing:
  assumes "pool_ok A hs fs nss xss s" "l \<in> A" "nss l = as @ c # bs" "xss l = us @ x # vs"
    and "length us = length as" "l_curr (pool_lists s l) = c" "l_after (pool_lists s l) \<noteq> 1"
    and "find (\<lambda>y. cmp y a = 1) (x # vs) = None" and "n_next (pool_nodes s (last (nss l))) = -1"
  shows "\<exists>s'. ListSearch_loop cmp a (Some l) (Some x) s = Some (Inr (None, s')) \<and>
    pool_ok A hs fs nss xss s'"
  using assms
proof (induction vs arbitrary: s as c bs us x)
  case Nil
  have bs: "bs = []"
    using list_ok_length[OF pool_okD(9)[OF Nil.prems(1,2)]] Nil.prems(3-5) by auto
  obtain s1 where "ListNext (Some l) s = Inr (None, s1)" "pool_ok A hs fs nss xss s1"
    using ListNext_end[OF Nil.prems(1,2) Nil.prems(3)[unfolded bs] Nil.prems(6,7)] Nil.prems(3,9) bs
    by auto
  with Nil.prems(8) show ?case
    by (subst ListSearch_loop.simps) (auto simp: ListSearch_loop.simps[of _ _ _ None] split: if_splits)
next
  case (Cons v vs)
  have ne: "cmp x a \<noteq> 1" using Cons.prems(8) by (auto split: if_splits)
  obtain b bs' where bs: "bs = b # bs'"
    using list_ok_length[OF pool_okD(9)[OF Cons.prems(1,2)]] Cons.prems(3-5) by (cases bs) auto
  obtain s1 where s1: "ListNext (Some l) s = Inr (Some v, s1)" "pool_ok A hs fs nss xss s1"
      "pool_nodes s1 = pool_nodes s" "l_curr (pool_lists s1 l) = b" "l_after (pool_lists s1 l) \<noteq> 1"
    using ListNext_step[OF Cons.prems(1,2) Cons.prems(3)[unfolded bs] Cons.prems(4-7)] by blast
  from Cons.IH[OF s1(2) Cons.prems(2), of "as @ [c]" b bs' "us @ [x]" v] Cons.prems s1 bs ne
  show ?case by (subst ListSearch_loop.simps) auto
qed

lemma search_loop_diverges:
  assumes "search_stuck cmp a list item s"
  shows "ListSearch_loop cmp a list item s = None"
proof -
  have "ListSearch_loop cmp a list item s = Some r \<Longrightarrow> \<not> search_stuck cmp a list item s" for r
    by (rule ListSearch_loop.raw_induct[of "\<lambda>c a l i s y. \<not> search_stuck c a l i s"])
       (fastforce simp: search_stuck_def split: option.splits if_splits sum.splits prod.splits)
  with assms show ?thesis by (meson not_Some_eq)
qed

lemma search_loop_selflinked:
  assumes "pool_ok A hs fs nss xss s" "l \<in> A" "nss l = as @ c # bs" "xss l = us @ x # vs"
    and "length us = length as" "l_curr (pool_lists s l) = c" "l_after (pool_lists s l) \<noteq> 1"
    and "find (\<lambda>y. cmp y a = 1) (x # vs) = None"
    and "n_next (pool_nodes s (last (nss l))) = last (nss l)"
  shows "ListSearch_loop cmp a (Some l) (Some x) s = None"
  using assms
proof (induction vs arbitrary: s as c bs us x)
  case Nil
  have bs: "bs = []"
    using list_ok_length[OF pool_okD(9)[OF Nil.prems(1,2)]] Nil.prems(3-5) by auto
  have "n_item (pool_nodes s c) = Some x"
    using list_nth(1) pool_okD(9)[OF Nil.prems(1,2)] Nil.prems(3-5) by metis
  then have "ListNext (Some l) s = Inr (Some x, s)"
    using ListNext_self[OF Nil.prems(1,2) _ Nil.prems(6,7)] Nil.prems(3,9) bs by simp
  then show ?case
    using Nil.prems(8) by (intro search_loop_diverges) (auto simp: search_stuck_def split: if_splits)
next
  case (Cons v vs)
  have ne: "cmp x a \<noteq> 1" using Cons.prems(8) by (auto split: if_splits)
  obtain b bs' where bs: "bs = b # bs'"
    using list_ok_length[OF pool_okD(9)[OF Cons.prems(1,2)]] Cons.prems(3-5) by (cases bs) auto
  obtain s1 where s1: "ListNext (Some l) s = Inr (Some v, s1)" "pool_ok A hs fs nss xss s1"
      "pool_nodes s1 = pool_nodes s" "l_curr (pool_lists s1 l) = b" "l_after (pool_lists s1 l) \<noteq> 1"
    using ListNext_step[OF Cons.prems(1,2) Cons.prems(3)[unfolded bs] Cons.prems(4-7)] by blast
  from Cons.IH[OF s1(2) Cons.prems(2), of "as @ [c]" b bs' "us @ [x]" v] Cons.prems s1 bs ne
  show ?case by (subst ListSearch_loop.simps) auto
qed

lemma ListSearch_start:
  assumes ok: "pool_ok A hs fs nss xss s" and l: "l \<in> A" and ne: "xss l = x # xs"
    and first: "ListFirst (Some l) s = Inr (r, s1)"
  shows "ListSearch (Some l) (Some cmp) a s1 = ListSearch_loop cmp a (Some l) (Some x) s1"
proof -
  obtain n ns where ns: "nss l = n # ns"
    using list_ok_length[OF pool_okD(9)[OF ok l]] ne by (cases "nss l") auto
  from ListFirst_ok[OF ok l ne] first have s1: "pool_ok A hs fs nss xss s1"
      "l_curr (pool_lists s1 l) = n" "l_before (pool_lists s1 l) \<noteq> 1" using ns by auto
  have "n_item (pool_nodes s1 n) = Some x"
    using pool_okD(9)[OF s1(1) l] ns ne by (simp add: list_ok_def)
  then show ?thesis
    using s1 pool_okD(8)[OF ok l] pool_okD(11)[OF ok l, of n] ns valid_node_neq[of n]
    by (simp add: ListSearch_def ListCurr_def)
qed

section \<open>Freeing a list\<close>

lemma ListFree_loop_done:
  "l \<in> {0..<MAX_LISTS} \<Longrightarrow> l_count (pool_lists s l) \<le> 0 \<Longrightarrow> ListFree_loop l acc s = Some (Inr (acc, s))"
  by (subst ListFree_loop.simps) simp

lemma ListFree_loop_items:
  assumes "l \<in> {0..<MAX_LISTS}" "linked f ns" "\<forall>i \<in> set ns. valid_node i"
    and "n_next (f (last ns)) = -1 \<or> n_next (f (last ns)) = last ns"
    and "map (\<lambda>i. n_item (f i)) ns = map Some xs"
    and "pool_nodes s = f" "l_curr (pool_lists s l) = hd ns" "l_after (pool_lists s l) \<noteq> 1"
    and "l_count (pool_lists s l) = int (length ns)" "ns \<noteq> []"
  shows "\<exists>L. ListFree_loop l acc s =
    Some (Inr (acc @ xs, s\<lparr>pool_lists := (pool_lists s)(l := L)\<rparr>))"
  using assms
proof (induction ns arbitrary: s acc xs)
  case Nil
  then show ?case by simp
next
  case (Cons n ns)
  obtain x xs' where xs: "xs = x # xs'" "n_item (f n) = Some x"
      "map (\<lambda>i. n_item (f i)) ns = map Some xs'"
    using Cons.prems(5) by (cases xs) auto
  have n: "valid_node n" "n \<noteq> -1" "0 \<le> l" "l < MAX_LISTS"
    using Cons.prems(1,3) valid_node_neq by auto
  show ?case
  proof (cases "ns = []")
    case True
    then have "xs' = []" "n_next (f n) = -1 \<or> n_next (f n) = n" using xs(3) Cons.prems(4) by auto
    with Cons.prems(6-9) True xs(1,2) n show ?thesis
      by (subst ListFree_loop.simps) (elim disjE; simp add: ListFree_loop_done ListCurr_def ListNext_def;
        fastforce)
  next
    case False
    then obtain m ms where ns: "ns = m # ms" by (cases ns) auto
    have m: "n_next (f n) = m" "valid_node m" "m \<noteq> -1"
      using Cons.prems(2,3) valid_node_neq[of m] by (auto simp: ns)
    let ?s = "s\<lparr>pool_lists := (pool_lists s)(l := (pool_lists s l)\<lparr>l_curr := m,
      l_count := int (length ns)\<rparr>)\<rparr>"
    have step: "ListFree_loop l acc s = ListFree_loop l (acc @ [x]) ?s"
      using Cons.prems(6-9) xs n m
      by (subst ListFree_loop.simps) (auto simp: ListCurr_def ListNext_def ns)
    have "\<exists>L. ListFree_loop l (acc @ [x]) ?s =
      Some (Inr ((acc @ [x]) @ xs', ?s\<lparr>pool_lists := (pool_lists ?s)(l := L)\<rparr>))"
      using Cons.prems False xs by (intro Cons.IH) (auto simp: ns)
    then obtain L where "ListFree_loop l (acc @ [x]) ?s =
      Some (Inr ((acc @ [x]) @ xs', ?s\<lparr>pool_lists := (pool_lists ?s)(l := L)\<rparr>))" by blast
    moreover have "?s\<lparr>pool_lists := (pool_lists ?s)(l := L)\<rparr> = s\<lparr>pool_lists := (pool_lists s)(l := L)\<rparr>"
      by (rule pool.equality) auto
    ultimately show ?thesis by (simp only: step xs(1) append_assoc append_Cons append_Nil) blast
  qed
qed

lemma ListFree_ok:
  assumes ok: "pool_ok A hs fs nss xss s" and l: "l \<in> A"
  shows "\<exists>s'. ListFree (Some l) (Some fr) s = Some (Inr (xss l, s')) \<and>
    pool_ok (A - {l}) (l # hs) fs nss xss s'"
proof -
  note lo = pool_okD(9)[OF ok l]
  have lv: "l \<in> {0..<MAX_LISTS}" "l \<notin> set hs" using ok l unfolding pool_ok_def by auto
  have loop: "\<exists>L. (case ListFirst (Some l) s of Inl e \<Rightarrow> Some (Inl e) | Inr (_, s) \<Rightarrow> ListFree_loop l [] s)
      = Some (Inr (xss l, s\<lparr>pool_lists := (pool_lists s)(l := L)\<rparr>))"
  proof (cases "xss l")
    case Nil
    then have "nss l = []" using list_ok_length[OF lo] by simp
    then have "l_count (pool_lists s l) = 0" using lo by (simp add: list_ok_Nil)
    with lv Nil show ?thesis
      by (intro exI[of _ "pool_lists s l"])
         (simp add: ListFirst_def ListFree_loop_done)
  next
    case (Cons x xs)
    obtain s1 where s1: "ListFirst (Some l) s = Inr (Some x, s1)" "pool_ok A hs fs nss xss s1"
      "l_curr (pool_lists s1 l) = hd (nss l)" "l_after (pool_lists s1 l) \<noteq> 1"
      "\<exists>L. s1 = s\<lparr>pool_lists := (pool_lists s)(l := L)\<rparr>"
      using ListFirst_ok[OF ok l Cons] lv by (auto simp: ListFirst_def split: if_splits)
    note lo1 = pool_okD(9)[OF s1(2) l]
    have ne: "nss l \<noteq> []" using list_ok_length[OF lo] Cons by auto
    have "\<exists>L. ListFree_loop l [] s1 = Some (Inr ([] @ xss l, s1\<lparr>pool_lists := (pool_lists s1)(l := L)\<rparr>))"
      by (rule ListFree_loop_items[of l "pool_nodes s1" "nss l"])
         (use lv lo1 ne s1 pool_okD(11)[OF ok l] in \<open>auto simp: list_ok_def\<close>)
    with s1(1,5) show ?thesis by auto
  qed
  then obtain L where L: "(case ListFirst (Some l) s of Inl e \<Rightarrow> Some (Inl e) | Inr (_, s) \<Rightarrow>
      ListFree_loop l [] s) = Some (Inr (xss l, s\<lparr>pool_lists := (pool_lists s)(l := L)\<rparr>))" by blast
  define s' where "s' = s\<lparr>pool_lists := (pool_lists s)(l := L\<lparr>l_head := -1, l_tail := -1, l_curr := -1,
    l_count := 0, l_before := 1, l_after := 0, l_link := free_list_head s\<rparr>), free_list_head := l\<rparr>"
  have res: "ListFree (Some l) (Some fr) s = Some (Inr (xss l, s'))"
    using L lv by (auto simp: ListFree_def s'_def split: sum.splits prod.splits option.splits)
  have others: "\<And>k. k \<noteq> l \<Longrightarrow> pool_lists s' k = pool_lists s k" "pool_nodes s' = pool_nodes s"
      "free_node_head s' = free_node_head s" "initialized s' = initialized s"
    by (auto simp: s'_def)
  have "free_path (\<lambda>i. l_link (pool_lists s' i)) (free_list_head s) hs"
    by (rule free_path_transfer[OF pool_okD(4)[OF ok]]) (use lv(2) others(1) in \<open>metis\<close>)+
  then have fp: "free_path (\<lambda>i. l_link (pool_lists s' i)) (free_list_head s') (l # hs)"
    by (simp add: s'_def)
  have "pool_ok (A - {l}) (l # hs) fs nss xss s'"
    unfolding pool_ok_def
  proof (intro conjI ballI impI)
    fix k assume k: "k \<in> A - {l}"
    then show "list_ok (pool_lists s' k) (pool_nodes s') (nss k) (xss k)"
      using pool_okD(9)[OF ok, of k] others by auto
    show "distinct (nss k)" "set (nss k) \<inter> set fs = {}"
      using k pool_okD(10,12)[OF ok, of k] by auto
    show "valid_node i" if "i \<in> set (nss k)" for i
      using k that pool_okD(11)[OF ok, of k i] by auto
    show "set (nss k) \<inter> set (nss k') = {}" if "k' \<in> A - {l}" "k \<noteq> k'" for k'
      using ok k that by (simp add: pool_ok_def)
  next
    show "l_count (pool_lists s' h) = 0" if "h \<in> set (l # hs)" for h
      using ok that lv by (cases "h = l") (auto simp: pool_ok_def s'_def)
  qed (use ok lv fp others in \<open>simp_all add: pool_ok_def\<close>, blast+)
  with res show ?thesis by blast
qed

section \<open>Properties\<close>

text \<open>
  Appending to a list in use, with a free node left, succeeds, puts the item behind the
  others, takes one node and leaves every other list as it was; with no free node it returns
  \<open>-1\<close> and changes nothing.
\<close>

theorem list_append:
  assumes "pool_rep A Q k s" "l \<in> A"
  shows "if k = 0 then ListAppend (Some l) (Some x) s = Inr (-1, s)
    else \<exists>s'. ListAppend (Some l) (Some x) s = Inr (0, s') \<and>
      pool_rep A (Q(l := Q l @ [x])) (k - 1) s' \<and>
      ListCount (Some l) s' = Inr (int (length (Q l)) + 1)"
proof (cases k)
  case 0
  with lq.append_full assms show ?thesis by simp
next
  case (Suc k')
  with lq.append_rep[of A Q k' s l x] assms obtain s' where
    s': "ListAppend (Some l) (Some x) s = Inr (0, s')" "pool_rep A (Q(l := Q l @ [x])) k' s'" by auto
  with lq.count_rep[OF s'(2) assms(2)] Suc show ?thesis by auto
qed

theorem list_append_witness:
  "\<exists>s s'. ListAppend (Some 0) (Some (7 :: int)) s = Inr (0, s') \<and> ListCount (Some 0) s' = Inr 1"
proof -
  obtain s :: "int pool" where s: "pool_rep {0} (\<lambda>_. []) (length (0 # 1 # [2..MAX_NODES - 1])) s"
    using boot_list unfolding pool_rep_def by blast
  from list_append[OF this, of 0 7] show ?thesis by auto
qed

text \<open>
  A list is a stack under ListAppend and ListTrim: trimming right after an append returns the
  appended item, and the pools represent what they did before.
\<close>

theorem list_stack:
  assumes "pool_ok A hs (f # fs) nss xss s" "l \<in> A"
  shows "\<exists>s'. rbind (ListAppend (Some l) (Some x) s) (\<lambda>(_, s). ListTrim (Some l) s) = Inr (Some x, s') \<and>
    pool_ok A hs (f # fs) nss xss s'"
  using ListAppend_Trim[OF assms] .

theorem list_stack_witness:
  "\<exists>s s'. rbind (ListAppend (Some 0) (Some (7 :: int)) s) (\<lambda>(_, s). ListTrim (Some 0) s) = Inr (Some 7, s')"
proof -
  obtain s :: "int pool" where "pool_ok {0} [1..MAX_LISTS - 1] (0 # 1 # [2..MAX_NODES - 1]) (\<lambda>_. []) (\<lambda>_. []) s"
    using boot_list by blast
  from list_stack[OF this, of 0 7] show ?thesis by blast
qed

text \<open>
  C5: A list is not a queue: after two appends to an empty list, ListFirst and ListRemove take
  the first item, the count says one item is left, and the next ListFirst returns NULL.
\<close>

theorem list_fifo_loses_second:
  assumes "pool_ok A hs (f # g # fs) nss xss s" "l \<in> A" "xss l = []"
  shows "\<exists>s1 s2 s3 s4 s5. ListAppend (Some l) (Some x) s = Inr (0, s1) \<and>
    ListAppend (Some l) (Some y) s1 = Inr (0, s2) \<and> ListCount (Some l) s2 = Inr 2 \<and>
    ListFirst (Some l) s2 = Inr (Some x, s3) \<and> ListRemove (Some l) s3 = Inr (Some x, s4) \<and>
    ListCount (Some l) s4 = Inr 1 \<and> ListFirst (Some l) s4 = Inr (None, s5)"
proof -
  obtain s1 s2 s3 s4 s5 where F: "ListAppend (Some l) (Some x) s = Inr (0, s1)"
    "ListAppend (Some l) (Some y) s1 = Inr (0, s2)" "ListFirst (Some l) s2 = Inr (Some x, s3)"
    "ListRemove (Some l) s3 = Inr (Some x, s4)" "ListCount (Some l) s4 = Inr 1"
    "ListFirst (Some l) s4 = Inr (None, s5)" "pool_ok A hs fs (nss(l := [f, g])) (xss(l := [x, y])) s2"
    using fifo_broken[OF assms, of x y] by blast
  have "ListCount (Some l) s2 = Inr 2" using ListCount_ok[OF F(7) assms(2)] by simp
  with F show ?thesis by (intro exI[of _ s1] exI[of _ s2] exI[of _ s3] exI[of _ s4] exI[of _ s5]) simp
qed

theorem list_fifo_loses_second_witness:
  "\<exists>s s1 s2 s3 s4 s5. ListCreate bss_pool = Inr (Some 0, s) \<and>
    ListAppend (Some 0) (Some (CHR ''a'')) s = Inr (0, s1) \<and> ListAppend (Some 0) (Some (CHR ''b'')) s1 = Inr (0, s2) \<and>
    ListFirst (Some 0) s2 = Inr (Some (CHR ''a''), s3) \<and> ListRemove (Some 0) s3 = Inr (Some (CHR ''a''), s4) \<and>
    ListCount (Some 0) s4 = Inr 1 \<and> ListFirst (Some 0) s4 = Inr (None, s5)"
proof -
  obtain s :: "char pool" where "ListCreate bss_pool = Inr (Some 0, s)"
    "pool_ok {0} [1..MAX_LISTS - 1] (0 # 1 # [2..MAX_NODES - 1]) (\<lambda>_. []) (\<lambda>_. []) s"
    using boot_list by blast
  with list_fifo_loses_second[OF this(2), of 0 "CHR ''a''" "CHR ''b''"] show ?thesis by auto
qed

text \<open>
  C6: ListSearch, started at the first item, returns the first item the comparator accepts. When
  it accepts none, the search returns NULL if the last node ends the chain and runs forever if
  the last node links to itself, which is how a list of one appended item is linked.
\<close>

theorem list_search:
  assumes ok: "pool_ok A hs fs nss xss s" and l: "l \<in> A" and ne: "xss l \<noteq> []"
  shows "\<exists>s1. ListFirst (Some l) s = Inr (Some (hd (xss l)), s1) \<and>
    (case find (\<lambda>y. cmp y a = 1) (xss l) of
       Some y \<Rightarrow> \<exists>s'. ListSearch (Some l) (Some cmp) a s1 = Some (Inr (Some y, s')) \<and> pool_ok A hs fs nss xss s'
     | None \<Rightarrow> if n_next (pool_nodes s (last (nss l))) = -1
         then \<exists>s'. ListSearch (Some l) (Some cmp) a s1 = Some (Inr (None, s')) \<and> pool_ok A hs fs nss xss s'
         else ListSearch (Some l) (Some cmp) a s1 = None)"
proof -
  note lo = pool_okD(9)[OF ok l]
  obtain x xs where xs: "xss l = x # xs" using ne by (cases "xss l") auto
  obtain n ns where ns: "nss l = n # ns" using list_ok_length[OF lo] xs by (cases "nss l") auto
  obtain s1 where s1: "ListFirst (Some l) s = Inr (Some x, s1)" "pool_ok A hs fs nss xss s1"
    "pool_nodes s1 = pool_nodes s" "l_curr (pool_lists s1 l) = n" "l_after (pool_lists s1 l) \<noteq> 1"
    using ListFirst_ok[OF ok l xs] ns by auto
  note start = ListSearch_start[OF ok l xs s1(1), of cmp a]
  have "nss l = [] @ n # ns" "xss l = [] @ x # xs" "length [] = length []" using ns xs by simp_all
  note at = s1(2) l this s1(4,5)
  have last: "n_next (pool_nodes s (last (nss l))) \<noteq> -1 \<Longrightarrow>
      n_next (pool_nodes s1 (last (nss l))) = last (nss l)"
    using lo ns s1(3) by (auto simp: list_ok_def)
  show ?thesis
    using search_loop_found[OF at, of cmp a] search_loop_missing[OF at, of cmp a]
      search_loop_selflinked[OF at, of cmp a] last s1(1,3) xs
    by (intro exI[of _ s1]) (auto simp: start split: option.split)
qed

theorem list_search_witness:
  "\<exists>s s1. ListFirst (Some 0) s = Inr (Some (7 :: int), s1) \<and>
    ListSearch (Some 0) (Some (\<lambda>x y. if x = y then 1 else 0)) 8 s1 = None"
proof -
  obtain s :: "int pool" where ok: "pool_ok {0} [1..MAX_LISTS - 1] (0 # 1 # [2..MAX_NODES - 1]) (\<lambda>_. []) (\<lambda>_. []) s"
    using boot_list by blast
  obtain s' where s': "ListAppend (Some 0) (Some 7) s = Inr (0, s')"
    "pool_ok {0} [1..MAX_LISTS - 1] (1 # [2..MAX_NODES - 1]) ((\<lambda>_. [])(0 := [0])) ((\<lambda>_. [])(0 := [7])) s'"
    using ListAppend_ok[OF ok, of 0 7] by auto
  have "n_next (pool_nodes s' 0) = 0" using ListAppend_empty[OF ok, of 0 7] s'(1) by auto
  with list_search[OF s'(2), of 0 "\<lambda>x y. if x = y then 1 else 0" 8] show ?thesis by auto
qed

text \<open>
  ListFree terminates on every list the library built, passes each item to the release
  routine once and in order, and puts the header back on the free chain; the chain of free nodes
  is what it was, so the nodes of the list are not reused.
\<close>

theorem list_free:
  assumes "pool_ok A hs fs nss xss s" "l \<in> A"
  shows "\<exists>s'. ListFree (Some l) (Some fr) s = Some (Inr (xss l, s')) \<and>
    pool_ok (A - {l}) (l # hs) fs nss xss s'"
  using ListFree_ok[OF assms] .

theorem list_free_witness:
  "\<exists>s s'. ListFree (Some 0) (Some ()) s = Some (Inr ([7 :: int], s'))"
proof -
  obtain s :: "int pool" where ok: "pool_ok {0} [1..MAX_LISTS - 1] (0 # 1 # [2..MAX_NODES - 1]) (\<lambda>_. []) (\<lambda>_. []) s"
    using boot_list by blast
  obtain s' :: "int pool" where
    "pool_ok {0} [1..MAX_LISTS - 1] (1 # [2..MAX_NODES - 1]) ((\<lambda>_. [])(0 := [0])) ((\<lambda>_. [])(0 := [7])) s'"
    using ListAppend_ok[OF ok, of 0 7] by auto
  from list_free[OF this, of 0 "()"] show ?thesis by auto
qed

end
