(* ===== verification/Monitor.thy ===== *)
theory Monitor
  imports List_Spec
begin

text \<open>
  The monitor of \<^verbatim>\<open>Monitor.c\<close>: a server process that answers one message at a time.
  A client is blocked from its Send to the Reply, so a handler that does not reply leaves
  the client waiting. The model of a handler returns the replies it sends, in order, and the
  new state. A queue item is the process id its malloc'ed cell holds; the cell is written once
  and released right after its removal from the queue. Allocation of a cell succeeds.
\<close>

section \<open>The server\<close>

type_synonym pid = int

record MonMsg =
  m_type :: int
  m_arg :: int

definition MAX_CONDS :: int where "MAX_CONDS = 8"

record mon =
  monitor_locked :: int
  current_owner :: pid
  entry_queue :: "int option"
  urgent_queue :: "int option"
  condition_queues :: "int option list"
  num_conditions :: int
  lists :: "pid pool"

definition mon_boot :: mon where
  "mon_boot = \<lparr>monitor_locked = 0, current_owner = -1, entry_queue = None, urgent_queue = None,
     condition_queues = replicate 8 None, num_conditions = 0, lists = bss_pool\<rparr>"

type_synonym replies = "(pid \<times> int) list"

text \<open>\<^verbatim>\<open>waiting = ListFirst(q); pid = *waiting; free(ListRemove(q));\<close>\<close>

definition pop_pid :: "int option \<Rightarrow> mon \<Rightarrow> fault + (pid \<times> mon)" where
  "pop_pid q s =
    rbind (ListFirst q (lists s)) (\<lambda>(waiting, p).
    case waiting of None \<Rightarrow> Inl NullDeref | Some next_pid \<Rightarrow>
    rbind (ListRemove q p) (\<lambda>(_, p). Inr (next_pid, s\<lparr>lists := p\<rparr>)))"

definition push_pid :: "int option \<Rightarrow> pid \<Rightarrow> mon \<Rightarrow> fault + mon" where
  "push_pid q pid s = rbind (ListAppend q (Some pid) (lists s)) (\<lambda>(_, p). Inr (s\<lparr>lists := p\<rparr>))"

text \<open>The monitor is given to the next process: the urgent queue first, then the entry queue.\<close>

definition grant_next :: "mon \<Rightarrow> fault + (replies \<times> mon)" where
  "grant_next s =
    rbind (ListCount (urgent_queue s) (lists s)) (\<lambda>nu.
    if nu > 0 then rbind (pop_pid (urgent_queue s) s) (\<lambda>(next_pid, s).
      Inr ([(next_pid, 0)], s\<lparr>monitor_locked := 1, current_owner := next_pid\<rparr>))
    else rbind (ListCount (entry_queue s) (lists s)) (\<lambda>ne.
    if ne > 0 then rbind (pop_pid (entry_queue s) s) (\<lambda>(next_pid, s).
      Inr ([(next_pid, 0)], s\<lparr>monitor_locked := 1, current_owner := next_pid\<rparr>))
    else Inr ([], s)))"

definition mon_enter :: "pid \<Rightarrow> mon \<Rightarrow> fault + (replies \<times> mon)" where
  "mon_enter sender_pid s =
    (if monitor_locked s = 0
     then Inr ([(sender_pid, 0)], s\<lparr>monitor_locked := 1, current_owner := sender_pid\<rparr>)
     else rbind (push_pid (entry_queue s) sender_pid s) (\<lambda>s. Inr ([], s)))"

definition mon_leave :: "pid \<Rightarrow> mon \<Rightarrow> fault + (replies \<times> mon)" where
  "mon_leave sender_pid s =
    (if current_owner s = sender_pid
     then rbind (grant_next (s\<lparr>monitor_locked := 0, current_owner := -1\<rparr>)) (\<lambda>(rs, s).
          Inr ((sender_pid, 0) # rs, s))
     else Inr ([(sender_pid, -1)], s))"

text \<open>The queue of condition \<open>c\<close>; the handlers check \<open>0 \<le> c < num_conditions\<close> first.\<close>

definition cond_queue :: "int \<Rightarrow> mon \<Rightarrow> fault + int option" where
  "cond_queue c s = (if 0 \<le> c \<and> c < MAX_CONDS then Inr (condition_queues s ! nat c) else Inl OutOfBounds)"

definition mon_wait :: "pid \<Rightarrow> int \<Rightarrow> mon \<Rightarrow> fault + (replies \<times> mon)" where
  "mon_wait sender_pid c s =
    (if current_owner s = sender_pid \<and> 0 \<le> c \<and> c < num_conditions s
     then rbind (cond_queue c s) (\<lambda>q.
          rbind (push_pid q sender_pid s) (\<lambda>s.
          grant_next (s\<lparr>monitor_locked := 0, current_owner := -1\<rparr>)))
     else Inr ([(sender_pid, -1)], s))"

definition mon_signal :: "pid \<Rightarrow> int \<Rightarrow> mon \<Rightarrow> fault + (replies \<times> mon)" where
  "mon_signal sender_pid c s =
    (if current_owner s = sender_pid \<and> 0 \<le> c \<and> c < num_conditions s
     then rbind (cond_queue c s) (\<lambda>q.
          rbind (ListCount q (lists s)) (\<lambda>n.
          if n > 0 then
            rbind (pop_pid q s) (\<lambda>(wakeup_pid, s).
            rbind (push_pid (urgent_queue s) sender_pid s) (\<lambda>s.
            Inr ([(wakeup_pid, 0)], s\<lparr>current_owner := wakeup_pid\<rparr>)))
          else Inr ([(sender_pid, 0)], s)))
     else Inr ([(sender_pid, -1)], s))"

definition create_if_null :: "int option \<Rightarrow> 'a pool \<Rightarrow> fault + (int option \<times> 'a pool)" where
  "create_if_null q p = (case q of None \<Rightarrow> ListCreate p | Some l \<Rightarrow> Inr (Some l, p))"

fun create_conds :: "nat \<Rightarrow> int option list \<Rightarrow> 'a pool \<Rightarrow> fault + (int option list \<times> 'a pool)" where
  "create_conds 0 qs p = Inr (qs, p)"
| "create_conds (Suc n) [] p = Inl OutOfBounds"
| "create_conds (Suc n) (q # qs) p =
     rbind (create_if_null q p) (\<lambda>(q, p).
     rbind (create_conds n qs p) (\<lambda>(qs, p). Inr (q # qs, p)))"

definition mon_init :: "pid \<Rightarrow> int \<Rightarrow> mon \<Rightarrow> fault + (replies \<times> mon)" where
  "mon_init sender_pid numConds s =
    (let s = s\<lparr>num_conditions := (if numConds > MAX_CONDS then MAX_CONDS else numConds)\<rparr> in
     rbind (create_if_null (entry_queue s) (lists s)) (\<lambda>(e, p).
     rbind (create_if_null (urgent_queue s) p) (\<lambda>(u, p).
     rbind (create_conds (nat (num_conditions s)) (condition_queues s) p) (\<lambda>(cs, p).
     Inr ([(sender_pid, 0)],
          s\<lparr>entry_queue := e, urgent_queue := u, condition_queues := cs, lists := p\<rparr>)))))"

definition MonServer :: "pid \<Rightarrow> MonMsg \<Rightarrow> mon \<Rightarrow> fault + (replies \<times> mon)" where
  "MonServer sender_pid msg s =
    (if m_type msg = 1 then mon_enter sender_pid s
     else if m_type msg = 2 then mon_leave sender_pid s
     else if m_type msg = 3 then mon_wait sender_pid (m_arg msg) s
     else if m_type msg = 4 then mon_signal sender_pid (m_arg msg) s
     else if m_type msg = 5 then mon_init sender_pid (m_arg msg) s
     else Inr ([(sender_pid, -1)], s))"

section \<open>The client stubs\<close>

text \<open>
  A stub sends one message to the server and waits for the answer; \<open>MonInit\<close> creates the server
  first when there is none. \<open>create\<close> stands for the kernel's Create (\<open>-1\<close> when it fails).
\<close>

definition MonInit :: "pid \<Rightarrow> pid \<Rightarrow> int \<Rightarrow> pid \<times> MonMsg option" where
  "MonInit create MonServer_pid numConds =
    (let MonServer_pid = (if MonServer_pid = -1 then create else MonServer_pid) in
     (MonServer_pid, if MonServer_pid = -1 then None else Some \<lparr>m_type = 5, m_arg = numConds\<rparr>))"

definition MonEnter :: MonMsg where "MonEnter = \<lparr>m_type = 1, m_arg = 0\<rparr>"

definition MonLeave :: MonMsg where "MonLeave = \<lparr>m_type = 2, m_arg = 0\<rparr>"

definition MonWait :: "int \<Rightarrow> MonMsg" where "MonWait c = \<lparr>m_type = 3, m_arg = c\<rparr>"

definition MonSignal :: "int \<Rightarrow> MonMsg" where "MonSignal c = \<lparr>m_type = 4, m_arg = c\<rparr>"

text \<open>A sequence of messages handled in order.\<close>

fun serve :: "(pid \<times> MonMsg) list \<Rightarrow> mon \<Rightarrow> fault + (replies \<times> mon)" where
  "serve [] s = Inr ([], s)"
| "serve ((p, m) # ms) s =
     rbind (MonServer p m s) (\<lambda>(rs, s). rbind (serve ms s) (\<lambda>(rs', s). Inr (rs @ rs', s)))"

end
