(* ===== verification/Monitor_Spec.thy ===== *)
theory Monitor_Spec
  imports Monitor "HOL-Library.Multiset"
begin

text \<open>
  What the monitor promises. \<open>a_call\<close> is a Hoare monitor over mathematical queues; the server
  refines it as long as no queue it takes from holds more than one process, which two clients
  never violate and three clients do. The clients and a server form a transition system whose
  invariant gives mutual exclusion.
\<close>

section \<open>Abstract monitor\<close>

record amon =
  a_owner :: "pid option"
  a_entry :: "pid list"
  a_urgent :: "pid list"
  a_conds :: "pid list list"

definition a_grant :: "amon \<Rightarrow> replies \<times> amon" where
  "a_grant a = (case a_urgent a of p # ps \<Rightarrow> ([(p, 0)], a\<lparr>a_owner := Some p, a_urgent := ps\<rparr>)
    | [] \<Rightarrow> (case a_entry a of p # ps \<Rightarrow> ([(p, 0)], a\<lparr>a_owner := Some p, a_entry := ps\<rparr>)
    | [] \<Rightarrow> ([], a)))"

datatype call = Enter | Leave | Wait int | Signal int

fun call_msg :: "call \<Rightarrow> MonMsg" where
  "call_msg Enter = MonEnter"
| "call_msg Leave = MonLeave"
| "call_msg (Wait c) = MonWait c"
| "call_msg (Signal c) = MonSignal c"

definition cond_ok :: "int \<Rightarrow> amon \<Rightarrow> bool" where
  "cond_ok c a \<longleftrightarrow> 0 \<le> c \<and> c < int (length (a_conds a))"

fun a_call :: "pid \<Rightarrow> call \<Rightarrow> amon \<Rightarrow> replies \<times> amon" where
  "a_call p Enter a = (if a_owner a = None then ([(p, 0)], a\<lparr>a_owner := Some p\<rparr>)
     else ([], a\<lparr>a_entry := a_entry a @ [p]\<rparr>))"
| "a_call p Leave a = (if a_owner a = Some p
     then (let (rs, a) = a_grant (a\<lparr>a_owner := None\<rparr>) in ((p, 0) # rs, a)) else ([(p, -1)], a))"
| "a_call p (Wait c) a = (if a_owner a = Some p \<and> cond_ok c a
     then a_grant (a\<lparr>a_owner := None, a_conds := (a_conds a)[nat c := a_conds a ! nat c @ [p]]\<rparr>)
     else ([(p, -1)], a))"
| "a_call p (Signal c) a = (if a_owner a = Some p \<and> cond_ok c a
     then (case a_conds a ! nat c of [] \<Rightarrow> ([(p, 0)], a)
       | w # ws \<Rightarrow> ([(w, 0)], a\<lparr>a_owner := Some w, a_urgent := a_urgent a @ [p],
                               a_conds := (a_conds a)[nat c := ws]\<rparr>))
     else ([(p, -1)], a))"

section \<open>Representation\<close>

definition mon_rep ::
  "int \<Rightarrow> int \<Rightarrow> int list \<Rightarrow> int set \<Rightarrow> (int \<Rightarrow> pid list) \<Rightarrow> nat \<Rightarrow> mon \<Rightarrow> bool" where
  "mon_rep e u cs A Q k s \<longleftrightarrow>
     entry_queue s = Some e \<and> urgent_queue s = Some u \<and> num_conditions s = int (length cs) \<and>
     length (condition_queues s) = nat MAX_CONDS \<and> length cs \<le> nat MAX_CONDS \<and>
     (\<forall>i < length cs. condition_queues s ! i = Some (cs ! i)) \<and>
     distinct (e # u # cs) \<and> set (e # u # cs) \<subseteq> A \<and> pool_rep A Q k (lists s) \<and>
     (monitor_locked s = 0 \<and> current_owner s = -1 \<or> monitor_locked s = 1 \<and> current_owner s \<noteq> -1)"

definition mon_abs :: "int \<Rightarrow> int \<Rightarrow> int list \<Rightarrow> (int \<Rightarrow> pid list) \<Rightarrow> mon \<Rightarrow> amon" where
  "mon_abs e u cs Q s = \<lparr>a_owner = (if monitor_locked s = 0 then None else Some (current_owner s)),
     a_entry = Q e, a_urgent = Q u, a_conds = map Q cs\<rparr>"

definition mon_rel :: "nat \<Rightarrow> mon \<Rightarrow> amon \<Rightarrow> bool" where
  "mon_rel k s a \<longleftrightarrow> (\<exists>e u cs A Q. mon_rep e u cs A Q k s \<and> a = mon_abs e u cs Q s)"

text \<open>The processes waiting in the queues.\<close>

definition a_items :: "amon \<Rightarrow> pid multiset" where
  "a_items a = mset (a_entry a) + mset (a_urgent a) + mset (concat (a_conds a))"

text \<open>No queue that a call takes from holds more than one process.\<close>

definition takes_one :: "call \<Rightarrow> amon \<Rightarrow> bool" where
  "takes_one m a \<longleftrightarrow> (case m of Enter \<Rightarrow> True
     | Signal c \<Rightarrow> cond_ok c a \<longrightarrow> length (a_conds a ! nat c) \<le> 1
     | _ \<Rightarrow> length (a_urgent a) \<le> 1 \<and> (a_urgent a = [] \<longrightarrow> length (a_entry a) \<le> 1))"

lemma mon_rep_lists:
  "mon_rep e u cs A Q k s \<Longrightarrow> pool_rep A Q' k' p' \<Longrightarrow> mon_rep e u cs A Q' k' (s\<lparr>lists := p'\<rparr>)"
  by (simp add: mon_rep_def)

lemma mon_rep_pool: "mon_rep e u cs A Q k s \<Longrightarrow> pool_rep A Q k (lists s)"
  by (simp add: mon_rep_def)

lemma a_items_upd [simp]:
  "a_items (a\<lparr>a_owner := ow\<rparr>) = a_items a"
  "a_items (a\<lparr>a_entry := a_entry a @ [p]\<rparr>) = add_mset p (a_items a)"
  "a_items (a\<lparr>a_urgent := a_urgent a @ [p]\<rparr>) = add_mset p (a_items a)"
  "a_urgent a = p # ps \<Longrightarrow> a_items a = add_mset p (a_items (a\<lparr>a_urgent := ps\<rparr>))"
  "a_entry a = p # ps \<Longrightarrow> a_items a = add_mset p (a_items (a\<lparr>a_entry := ps\<rparr>))"
  by (simp_all add: a_items_def)

lemma mset_concat_update:
  "i < length cs \<Longrightarrow> mset (concat (cs[i := q])) + mset (cs ! i) = mset (concat cs) + mset q"
proof (induction cs arbitrary: i)
  case (Cons c cs)
  then show ?case by (cases i) (auto simp: ac_simps)
qed simp

lemma a_items_wait:
  "cond_ok c a \<Longrightarrow> a_items (a\<lparr>a_conds := (a_conds a)[nat c := a_conds a ! nat c @ [p]]\<rparr>) = add_mset p (a_items a)"
  using mset_concat_update[of "nat c" "a_conds a" "a_conds a ! nat c @ [p]"]
  by (simp add: a_items_def cond_ok_def nat_less_iff ac_simps)

lemma a_items_signal:
  "cond_ok c a \<Longrightarrow> a_conds a ! nat c = w # ws \<Longrightarrow>
   a_items a = add_mset w (a_items (a\<lparr>a_conds := (a_conds a)[nat c := ws]\<rparr>))"
  using mset_concat_update[of "nat c" "a_conds a" ws]
  by (simp add: a_items_def cond_ok_def nat_less_iff ac_simps)

lemma push_rep:
  assumes "mon_rep e u cs A Q (Suc k) s" "l \<in> A"
  shows "\<exists>p'. push_pid (Some l) p s = Inr (s\<lparr>lists := p'\<rparr>) \<and>
    mon_rep e u cs A (Q(l := Q l @ [p])) k (s\<lparr>lists := p'\<rparr>)"
proof -
  obtain p' where "ListAppend (Some l) (Some p) (lists s) = Inr (0, p')"
      "pool_rep A (Q(l := Q l @ [p])) k p'"
    using lq.append_rep[OF mon_rep_pool[OF assms(1)] assms(2)] by blast
  with mon_rep_lists[OF assms(1)] show ?thesis by (auto simp: push_pid_def)
qed

lemma pop_rep:
  assumes "mon_rep e u cs A Q k s" "l \<in> A" "Q l = [x]"
  shows "\<exists>p'. pop_pid (Some l) s = Inr (x, s\<lparr>lists := p'\<rparr>) \<and>
    mon_rep e u cs A (Q(l := [])) (Suc k) (s\<lparr>lists := p'\<rparr>)"
proof -
  obtain p1 p' where "ListFirst (Some l) (lists s) = Inr (Some x, p1)"
      "ListRemove (Some l) p1 = Inr (Some x, p')" "pool_rep A (Q(l := [])) (Suc k) p'"
    using lq.take_rep[OF mon_rep_pool[OF assms(1)] assms(2,3)] by blast
  with mon_rep_lists[OF assms(1)] show ?thesis by (auto simp: pop_pid_def)
qed

lemma count_rep:
  assumes "mon_rep e u cs A Q k s" "l \<in> A"
  shows "ListCount (Some l) (lists s) = Inr (int (length (Q l)))"
  using assms lq.count_rep by (auto simp: mon_rep_def)

lemma mon_repD:
  assumes "mon_rep e u cs A Q k s"
  shows "entry_queue s = Some e" "urgent_queue s = Some u" "num_conditions s = int (length cs)"
    "e \<in> A" "u \<in> A" "e \<noteq> u" "e \<notin> set cs" "u \<notin> set cs" "distinct cs"
    "i < length cs \<Longrightarrow> cs ! i \<in> A" "length cs \<le> nat MAX_CONDS"
    "i < length cs \<Longrightarrow> condition_queues s ! i = Some (cs ! i)"
  using assms by (auto simp: mon_rep_def)

lemma mon_rep_owner:
  "mon_rep e u cs A Q k s \<Longrightarrow> p \<noteq> -1 \<Longrightarrow>
   mon_rep e u cs A Q k (s\<lparr>monitor_locked := 1, current_owner := p\<rparr>)"
  "mon_rep e u cs A Q k s \<Longrightarrow> mon_rep e u cs A Q k (s\<lparr>monitor_locked := 0, current_owner := -1\<rparr>)"
  "mon_rep e u cs A Q k s \<Longrightarrow> monitor_locked s = 1 \<Longrightarrow> p \<noteq> -1 \<Longrightarrow>
   mon_rep e u cs A Q k (s\<lparr>current_owner := p\<rparr>)"
  by (auto simp: mon_rep_def)

lemma map_upd_notin: "l \<notin> set cs \<Longrightarrow> map (Q(l := v)) cs = map Q cs"
  by auto

lemma map_upd_nth: "distinct cs \<Longrightarrow> i < length cs \<Longrightarrow> map (Q(cs ! i := v)) cs = (map Q cs)[i := v]"
  by (rule nth_equalityI) (auto simp: nth_list_update nth_eq_iff_index_eq)

lemma mon_relI:
  "mon_rep e u cs A Q k s \<Longrightarrow> a = mon_abs e u cs Q s \<Longrightarrow> mon_rel k s a"
  unfolding mon_rel_def by blast

lemma grant_next_rel:
  assumes rep: "mon_rep e u cs A Q k s" and free: "monitor_locked s = 0"
    and one: "length (Q u) \<le> 1" "Q u = [] \<Longrightarrow> length (Q e) \<le> 1"
    and pids: "-1 \<notin> set (Q u) \<union> set (Q e)"
  shows "\<exists>s' k'. grant_next s = Inr (fst (a_grant (mon_abs e u cs Q s)), s') \<and>
    k' + size (a_items (snd (a_grant (mon_abs e u cs Q s)))) = k + size (a_items (mon_abs e u cs Q s)) \<and>
    mon_rel k' s' (snd (a_grant (mon_abs e u cs Q s)))"
proof (cases "Q u")
  case (Cons x xs)
  note D = mon_repD[OF rep]
  from Cons one have qu: "Q u = [x]" by simp
  obtain p' where p': "pop_pid (Some u) s = Inr (x, s\<lparr>lists := p'\<rparr>)"
    "mon_rep e u cs A (Q(u := [])) (Suc k) (s\<lparr>lists := p'\<rparr>)"
    using pop_rep[OF rep D(5) qu] by blast
  have "mon_rel (Suc k) (s\<lparr>lists := p', monitor_locked := 1, current_owner := x\<rparr>)
    ((mon_abs e u cs Q s)\<lparr>a_owner := Some x, a_urgent := []\<rparr>)"
    by (rule mon_relI[OF mon_rep_owner(1)[OF p'(2)]]) (use pids qu D in \<open>auto simp: mon_abs_def\<close>)
  then show ?thesis
    using p' count_rep[OF rep D(5)] D qu free
    by (intro exI[of _ "s\<lparr>lists := p', monitor_locked := 1, current_owner := x\<rparr>"] exI[of _ "Suc k"])
       (simp add: grant_next_def a_grant_def mon_abs_def a_items_def)
next
  case Nil
  note D = mon_repD[OF rep]
  show ?thesis
  proof (cases "Q e")
    case (Cons x xs)
    with one Nil have qe: "Q e = [x]" by simp
    obtain p' where p': "pop_pid (Some e) s = Inr (x, s\<lparr>lists := p'\<rparr>)"
      "mon_rep e u cs A (Q(e := [])) (Suc k) (s\<lparr>lists := p'\<rparr>)"
      using pop_rep[OF rep D(4) qe] by blast
    have "mon_rel (Suc k) (s\<lparr>lists := p', monitor_locked := 1, current_owner := x\<rparr>)
      ((mon_abs e u cs Q s)\<lparr>a_owner := Some x, a_entry := []\<rparr>)"
      by (rule mon_relI[OF mon_rep_owner(1)[OF p'(2)]]) (use pids qe D in \<open>auto simp: mon_abs_def\<close>)
    then show ?thesis
      using p' count_rep[OF rep D(4)] count_rep[OF rep D(5)] D qe Nil free
      by (intro exI[of _ "s\<lparr>lists := p', monitor_locked := 1, current_owner := x\<rparr>"] exI[of _ "Suc k"])
         (simp add: grant_next_def a_grant_def mon_abs_def a_items_def)
  next
    assume qe: "Q e = []"
    then show ?thesis
      using count_rep[OF rep D(4)] count_rep[OF rep D(5)] D Nil mon_relI[OF rep refl]
      by (intro exI[of _ s] exI[of _ k]) (simp add: grant_next_def a_grant_def mon_abs_def a_items_def)
  qed
qed

lemma MonServer_call [simp]:
  "MonServer p (call_msg Enter) s = mon_enter p s"
  "MonServer p (call_msg Leave) s = mon_leave p s"
  "MonServer p (call_msg (Wait c)) s = mon_wait p c s"
  "MonServer p (call_msg (Signal c)) s = mon_signal p c s"
  by (simp_all add: MonServer_def MonEnter_def MonLeave_def MonWait_def MonSignal_def)

lemma enter_refines:
  assumes rel: "mon_rel (Suc k) s a" and p: "p \<noteq> -1"
  shows "\<exists>s' k'. mon_enter p s = Inr (fst (a_call p Enter a), s') \<and>
    k' + size (a_items (snd (a_call p Enter a))) = Suc k + size (a_items a) \<and>
    mon_rel k' s' (snd (a_call p Enter a))"
proof -
  obtain e u cs A Q where rep: "mon_rep e u cs A Q (Suc k) s" and a: "a = mon_abs e u cs Q s"
    using rel unfolding mon_rel_def by blast
  note D = mon_repD[OF rep]
  show ?thesis
  proof (cases "monitor_locked s = 0")
    case True
    then show ?thesis
      using mon_relI[OF mon_rep_owner(1)[OF rep p] refl]
      by (intro exI[of _ "s\<lparr>monitor_locked := 1, current_owner := p\<rparr>"] exI[of _ "Suc k"])
         (simp add: mon_enter_def a mon_abs_def a_items_def)
  next
    case False
    obtain p' where p': "push_pid (Some e) p s = Inr (s\<lparr>lists := p'\<rparr>)"
      "mon_rep e u cs A (Q(e := Q e @ [p])) k (s\<lparr>lists := p'\<rparr>)"
      using push_rep[OF rep D(4)] by blast
    have "mon_rel k (s\<lparr>lists := p'\<rparr>) (a\<lparr>a_entry := a_entry a @ [p]\<rparr>)"
      by (rule mon_relI[OF p'(2)]) (use D False in \<open>auto simp: a mon_abs_def\<close>)
    with p' False D show ?thesis
      by (intro exI[of _ "s\<lparr>lists := p'\<rparr>"] exI[of _ k]) (simp add: mon_enter_def a mon_abs_def a_items_def)
  qed
qed

lemma leave_refines:
  assumes rel: "mon_rel (Suc k) s a" and p: "p \<noteq> -1" and one: "takes_one Leave a"
    and pids: "-1 \<notin># a_items a"
  shows "\<exists>s' k'. mon_leave p s = Inr (fst (a_call p Leave a), s') \<and>
    k' + size (a_items (snd (a_call p Leave a))) = Suc k + size (a_items a) \<and>
    mon_rel k' s' (snd (a_call p Leave a))"
proof -
  obtain e u cs A Q where rep: "mon_rep e u cs A Q (Suc k) s" and a: "a = mon_abs e u cs Q s"
    using rel unfolding mon_rel_def by blast
  have own: "a_owner a = Some p \<longleftrightarrow> current_owner s = p"
    using rep p by (auto simp: a mon_abs_def mon_rep_def)
  let ?s = "s\<lparr>monitor_locked := 0, current_owner := -1\<rparr>"
  have abs: "mon_abs e u cs Q ?s = a\<lparr>a_owner := None\<rparr>" by (simp add: a mon_abs_def)
  show ?thesis
  proof (cases "current_owner s = p")
    case True
    have "\<exists>s' k'. grant_next ?s = Inr (fst (a_grant (mon_abs e u cs Q ?s)), s') \<and>
      k' + size (a_items (snd (a_grant (mon_abs e u cs Q ?s)))) = Suc k + size (a_items (mon_abs e u cs Q ?s)) \<and>
      mon_rel k' s' (snd (a_grant (mon_abs e u cs Q ?s)))"
      by (rule grant_next_rel[OF mon_rep_owner(2)[OF rep]])
         (use one pids in \<open>auto simp: takes_one_def a mon_abs_def a_items_def\<close>)
    with True own show ?thesis
      unfolding abs by (auto simp: mon_leave_def a_items_def split: prod.splits) 
  next
    case False
    with own rel show ?thesis by (intro exI[of _ s] exI[of _ "Suc k"]) (simp add: mon_leave_def)
  qed
qed

lemma cond_ok_rep:
  assumes "mon_rep e u cs A Q k s" "a = mon_abs e u cs Q s" "cond_ok c a"
  shows "nat c < length cs" "cond_queue c s = Inr (Some (cs ! nat c))" "0 \<le> c" "c < num_conditions s"
    "a_conds a ! nat c = Q (cs ! nat c)"
  using mon_repD[OF assms(1)] assms(2,3)
  by (auto simp: cond_ok_def cond_queue_def mon_abs_def)

lemma wait_refines:
  assumes rel: "mon_rel (Suc k) s a" and p: "p \<noteq> -1" and one: "takes_one (Wait c) a"
    and pids: "-1 \<notin># a_items a"
  shows "\<exists>s' k'. mon_wait p c s = Inr (fst (a_call p (Wait c) a), s') \<and>
    k' + size (a_items (snd (a_call p (Wait c) a))) = Suc k + size (a_items a) \<and>
    mon_rel k' s' (snd (a_call p (Wait c) a))"
proof -
  obtain e u cs A Q where rep: "mon_rep e u cs A Q (Suc k) s" and a: "a = mon_abs e u cs Q s"
    using rel unfolding mon_rel_def by blast
  note D = mon_repD[OF rep]
  have own: "a_owner a = Some p \<and> cond_ok c a \<longleftrightarrow> current_owner s = p \<and> 0 \<le> c \<and> c < num_conditions s"
    using rep p by (auto simp: a mon_abs_def mon_rep_def cond_ok_def)
  show ?thesis
  proof (cases "a_owner a = Some p \<and> cond_ok c a")
    case True
    note C = cond_ok_rep[OF rep a conjunct2[OF True]]
    let ?q = "cs ! nat c"
    obtain p' where p': "push_pid (Some ?q) p s = Inr (s\<lparr>lists := p'\<rparr>)"
      "mon_rep e u cs A (Q(?q := Q ?q @ [p])) k (s\<lparr>lists := p'\<rparr>)"
      using push_rep[OF rep D(10)[OF C(1)]] by blast
    let ?s = "s\<lparr>lists := p', monitor_locked := 0, current_owner := -1\<rparr>"
    have neq: "?q \<noteq> u" "?q \<noteq> e" using D C(1) by (auto dest: nth_mem)
    have abs: "mon_abs e u cs (Q(?q := Q ?q @ [p])) ?s =
      a\<lparr>a_owner := None, a_conds := (a_conds a)[nat c := a_conds a ! nat c @ [p]]\<rparr>"
      using neq C D by (simp add: a mon_abs_def map_upd_nth)
    have "\<exists>s' k'. grant_next ?s = Inr (fst (a_grant (mon_abs e u cs (Q(?q := Q ?q @ [p])) ?s)), s') \<and>
      k' + size (a_items (snd (a_grant (mon_abs e u cs (Q(?q := Q ?q @ [p])) ?s)))) =
        k + size (a_items (mon_abs e u cs (Q(?q := Q ?q @ [p])) ?s)) \<and>
      mon_rel k' s' (snd (a_grant (mon_abs e u cs (Q(?q := Q ?q @ [p])) ?s)))"
      by (rule grant_next_rel[OF mon_rep_owner(2)[OF p'(2)]])
         (use one pids neq in \<open>auto simp: takes_one_def a mon_abs_def a_items_def\<close>)
    moreover have "size (a_items (a\<lparr>a_owner := None,
        a_conds := (a_conds a)[nat c := a_conds a ! nat c @ [p]]\<rparr>)) = Suc (size (a_items a))"
      using a_items_wait[of c "a\<lparr>a_owner := None\<rparr>" p] True by (simp add: cond_ok_def)
    ultimately show ?thesis
      unfolding abs using True own C p' by (simp add: mon_wait_def)
  next
    case False
    with own rel show ?thesis by (intro exI[of _ s] exI[of _ "Suc k"]) (auto simp: mon_wait_def)
  qed
qed

lemma signal_refines:
  assumes rel: "mon_rel (Suc k) s a" and p: "p \<noteq> -1" and one: "takes_one (Signal c) a"
    and pids: "-1 \<notin># a_items a"
  shows "\<exists>s' k'. mon_signal p c s = Inr (fst (a_call p (Signal c) a), s') \<and>
    k' + size (a_items (snd (a_call p (Signal c) a))) = Suc k + size (a_items a) \<and>
    mon_rel k' s' (snd (a_call p (Signal c) a))"
proof -
  obtain e u cs A Q where rep: "mon_rep e u cs A Q (Suc k) s" and a: "a = mon_abs e u cs Q s"
    using rel unfolding mon_rel_def by blast
  note D = mon_repD[OF rep]
  have own: "a_owner a = Some p \<and> cond_ok c a \<longleftrightarrow> current_owner s = p \<and> 0 \<le> c \<and> c < num_conditions s"
    using rep p by (auto simp: a mon_abs_def mon_rep_def cond_ok_def)
  show ?thesis
  proof (cases "a_owner a = Some p \<and> cond_ok c a")
    case False
    with own rel show ?thesis by (intro exI[of _ s] exI[of _ "Suc k"]) (auto simp: mon_signal_def)
  next
    case True
    note C = cond_ok_rep[OF rep a conjunct2[OF True]] and cnt = count_rep[OF rep D(10)[OF C(1)]]
    let ?q = "cs ! nat c"
    have neq: "?q \<noteq> u" "?q \<noteq> e" using D C(1) by (auto dest: nth_mem)
    show ?thesis
    proof (cases "Q ?q")
      case Nil
      with True own C cnt rel show ?thesis
        by (intro exI[of _ s] exI[of _ "Suc k"]) (simp add: mon_signal_def)
    next
      case (Cons w ws)
      have qq: "Q ?q = [w]" using Cons one True C(5) by (simp add: takes_one_def)
      have w: "w \<noteq> -1"
        using pids qq C(1) by (auto simp: a mon_abs_def a_items_def) (metis list.set_intros(1) nth_mem)
      obtain p1 where p1: "pop_pid (Some ?q) s = Inr (w, s\<lparr>lists := p1\<rparr>)"
        "mon_rep e u cs A (Q(?q := [])) (Suc (Suc k)) (s\<lparr>lists := p1\<rparr>)"
        using pop_rep[OF rep D(10)[OF C(1)] qq] by blast
      obtain p2 where p2: "push_pid (Some u) p (s\<lparr>lists := p1\<rparr>) = Inr (s\<lparr>lists := p2\<rparr>)"
        "mon_rep e u cs A (Q(?q := [], u := Q u @ [p])) (Suc k) (s\<lparr>lists := p2\<rparr>)"
        using push_rep[OF p1(2) D(5), of p] neq by auto
      have lock: "monitor_locked s = 1" using True rep by (auto simp: a mon_abs_def mon_rep_def)
      have "mon_rel (Suc k) (s\<lparr>lists := p2, current_owner := w\<rparr>)
        (a\<lparr>a_owner := Some w, a_urgent := a_urgent a @ [p], a_conds := (a_conds a)[nat c := []]\<rparr>)"
        by (rule mon_relI[OF mon_rep_owner(3)[OF p2(2)]])
           (use lock w neq D C(1) in \<open>simp_all add: a mon_abs_def map_upd_notin map_upd_nth\<close>)
      with True own C cnt qq p1 p2 D a_items_signal[of c a w "[]"] show ?thesis
        by (intro exI[of _ "s\<lparr>lists := p2, current_owner := w\<rparr>"] exI[of _ "Suc k"])
           (simp add: mon_signal_def a_items_def)
    qed
  qed
qed

lemma MonServer_refines:
  assumes rel: "mon_rel (Suc k) s a" and p: "p \<noteq> -1" and one: "takes_one m a"
    and pids: "-1 \<notin># a_items a"
  shows "\<exists>s' k'. MonServer p (call_msg m) s = Inr (fst (a_call p m a), s') \<and>
    k' + size (a_items (snd (a_call p m a))) = Suc k + size (a_items a) \<and>
    mon_rel k' s' (snd (a_call p m a))"
  using enter_refines[OF rel p] leave_refines[OF rel p _ pids] wait_refines[OF rel p _ pids]
    signal_refines[OF rel p _ pids] one
  by (cases m) (simp_all only: MonServer_call)

section \<open>Clients\<close>

text \<open>
  The clients and the server as a transition system, over any server. \<open>pending p\<close> is the call
  that \<open>p\<close> is blocked in; \<open>inside\<close> holds the processes that run between the return of
  \<^verbatim>\<open>MonEnter\<close> and the next \<^verbatim>\<open>MonLeave\<close>. Clients follow the protocol: enter
  from outside, everything else from inside.
\<close>

record 's sys =
  srv :: 's
  inside :: "pid set"
  pending :: "pid \<Rightarrow> call option"

fun deliver :: "replies \<Rightarrow> 's sys \<Rightarrow> 's sys" where
  "deliver [] c = c"
| "deliver ((q, r) # rs) c = deliver rs (case pending c q of None \<Rightarrow> c
    | Some m \<Rightarrow> c\<lparr>pending := (pending c)(q := None),
                 inside := (if m = Leave then inside c - {q} else insert q (inside c))\<rparr>)"

definition after_call :: "pid \<Rightarrow> call \<Rightarrow> replies \<Rightarrow> 's \<Rightarrow> 's sys \<Rightarrow> 's sys" where
  "after_call p m rs a c =
     deliver rs (c\<lparr>srv := a, pending := (pending c)(p \<mapsto> m), inside := inside c - {p}\<rparr>)"

definition may_call :: "pid set \<Rightarrow> pid \<Rightarrow> call \<Rightarrow> 's sys \<Rightarrow> bool" where
  "may_call P p m c \<longleftrightarrow> p \<in> P \<and> pending c p = None \<and> (m = Enter \<longleftrightarrow> p \<notin> inside c)"

inductive sys_step ::
  "(pid \<Rightarrow> call \<Rightarrow> 's \<Rightarrow> fault + (replies \<times> 's)) \<Rightarrow> pid set \<Rightarrow> 's sys \<Rightarrow> 's sys \<Rightarrow> bool"
  for server P where
  "may_call P p m c \<Longrightarrow> server p m (srv c) = Inr (rs, a) \<Longrightarrow> sys_step server P c (after_call p m rs a c)"

abbreviation a_server :: "pid \<Rightarrow> call \<Rightarrow> amon \<Rightarrow> fault + (replies \<times> amon)" where
  "a_server p m a \<equiv> Inr (a_call p m a)"

abbreviation c_server :: "pid \<Rightarrow> call \<Rightarrow> mon \<Rightarrow> fault + (replies \<times> mon)" where
  "c_server p m s \<equiv> MonServer p (call_msg m) s"

definition sys_inv :: "pid set \<Rightarrow> amon sys \<Rightarrow> bool" where
  "sys_inv P c \<longleftrightarrow> finite P \<and> a_items (srv c) = mset_set (dom (pending c)) \<and> dom (pending c) \<subseteq> P \<and>
     inside c = set_option (a_owner (srv c)) \<and> inside c \<subseteq> P - dom (pending c) \<and>
     Some Leave \<notin> range (pending c) \<and>
     (a_owner (srv c) = None \<longrightarrow> a_entry (srv c) = [] \<and> a_urgent (srv c) = [])"

definition sys_init :: "'s \<Rightarrow> 's sys \<Rightarrow> bool" where
  "sys_init s0 c \<longleftrightarrow> c = \<lparr>srv = s0, inside = {}, pending = Map.empty\<rparr>"

definition amon_init :: "nat \<Rightarrow> amon" where
  "amon_init n = \<lparr>a_owner = None, a_entry = [], a_urgent = [], a_conds = replicate n []\<rparr>"

lemma a_items_init [simp]: "a_items (amon_init n) = {#}"
  by (induction n) (auto simp: a_items_def amon_init_def)

lemma sys_inv_init: "finite P \<Longrightarrow> sys_init (amon_init n) c \<Longrightarrow> sys_inv P c"
  by (auto simp: sys_inv_def sys_init_def) (auto simp: amon_init_def)

text \<open>Handing the monitor over: the process taken from a queue becomes the only one inside.\<close>

lemma mset_set_remove:
  assumes "finite D" "add_mset q M = mset_set D"
  shows "q \<in> D" "M = mset_set (D - {q})"
proof -
  show q: "q \<in> D" using assms by (metis elem_mset_set union_single_eq_member)
  have "add_mset q (mset_set (D - {q})) = mset_set D"
    using q assms(1) by (simp add: mset_set.remove)
  with assms(2) show "M = mset_set (D - {q})" by (metis add_mset_remove_trivial)
qed

lemma wake_inv:
  assumes fin: "finite P" and items: "add_mset q (a_items a) = mset_set (dom pe)" and sub: "dom pe \<subseteq> P"
    and nl: "Some Leave \<notin> range pe" and own: "a_owner a = Some q"
  shows "sys_inv P (deliver [(q, r)] \<lparr>srv = a, inside = {}, pending = pe\<rparr>)"
proof -
  have fd: "finite (dom pe)" using fin sub by (rule rev_finite_subset)
  obtain m where m: "pe q = Some m" "m \<noteq> Leave"
    using mset_set_remove(1)[OF fd items] nl by (metis domD rangeI)
  have "Some Leave \<notin> range (pe(q := None))" using nl by auto
  then show ?thesis
    using m own sub fin mset_set_remove(2)[OF fd items] by (auto simp: sys_inv_def)
qed

lemma grant_inv:
  assumes fin: "finite P" and items: "a_items a = mset_set (dom pe)" and sub: "dom pe \<subseteq> P"
    and nl: "Some Leave \<notin> range pe" and own: "a_owner a = None" and g: "a_grant a = (rs, a')"
  shows "sys_inv P (deliver rs \<lparr>srv = a', inside = {}, pending = pe\<rparr>)"
proof -
  consider q qs where "a_urgent a = q # qs" | q qs where "a_urgent a = []" "a_entry a = q # qs"
    | "a_urgent a = []" "a_entry a = []" by (cases "a_urgent a"; cases "a_entry a") auto
  then show ?thesis
  proof cases
    case 1
    then have r: "rs = [(q, 0)]" "a' = a\<lparr>a_owner := Some q, a_urgent := qs\<rparr>"
      using g by (auto simp: a_grant_def)
    show ?thesis
      unfolding r by (rule wake_inv[OF fin _ sub nl])
        (use items 1 in \<open>simp_all add: a_items_def\<close>)
  next
    case 2
    then have r: "rs = [(q, 0)]" "a' = a\<lparr>a_owner := Some q, a_entry := qs\<rparr>"
      using g by (auto simp: a_grant_def)
    show ?thesis
      unfolding r by (rule wake_inv[OF fin _ sub nl])
        (use items 2 in \<open>simp_all add: a_items_def\<close>)
  next
    case 3
    with g fin items sub nl own show ?thesis by (auto simp: a_grant_def sys_inv_def)
  qed
qed

lemma sys_invD:
  assumes "sys_inv P c"
  shows "finite P" "a_items (srv c) = mset_set (dom (pending c))" "dom (pending c) \<subseteq> P"
    "inside c = set_option (a_owner (srv c))" "inside c \<subseteq> P - dom (pending c)"
    "Some Leave \<notin> range (pending c)"
    "a_owner (srv c) = None \<Longrightarrow> a_entry (srv c) = [] \<and> a_urgent (srv c) = []"
    "finite (dom (pending c))"
  using assms rev_finite_subset[of P] by (auto simp: sys_inv_def)

text \<open>A call that is answered at once and leaves the server as it is changes nothing.\<close>

lemma deliver_self:
  "pending c p = None \<Longrightarrow> p \<in> inside c \<Longrightarrow> m \<noteq> Leave \<Longrightarrow> after_call p m [(p, r)] (srv c) c = c"
  by (auto simp: after_call_def intro!: sys.equality)

lemma call_inv:
  assumes inv: "sys_inv P c" and may: "may_call P p m c" and res: "a_call p m (srv c) = (rs, a)"
  shows "sys_inv P (after_call p m rs a c)"
proof -
  note I = sys_invD[OF inv]
  let ?pe = "(pending c)(p \<mapsto> m)"
  have p: "p \<in> P" "p \<notin> dom (pending c)" using may by (auto simp: may_call_def)
  have items: "add_mset p (a_items (srv c)) = mset_set (dom ?pe)"
    using p(2) I(2,8) by simp
  have sub: "dom ?pe \<subseteq> P" using I(3) p by auto
  have nl: "m \<noteq> Leave \<Longrightarrow> Some Leave \<notin> range ?pe" using I(6) by auto
  have own: "m \<noteq> Enter \<longleftrightarrow> a_owner (srv c) = Some p"
    using may I(4) by (auto simp: may_call_def)
  have ins: "m \<noteq> Enter \<Longrightarrow> inside c - {p} = {}" using own I(4) by simp
  have upd: "m \<noteq> Enter \<Longrightarrow> after_call p m rs' b c = deliver rs' \<lparr>srv = b, inside = {}, pending = ?pe\<rparr>" for rs' b
    using ins by (cases c) (simp add: after_call_def Diff_eq_empty_iff[THEN iffD2])
  show ?thesis
  proof (cases m)
    case Enter
    show ?thesis
    proof (cases "a_owner (srv c)")
      case None
      then have r: "rs = [(p, 0)]" "a = srv c\<lparr>a_owner := Some p\<rparr>" "inside c = {}"
        using res Enter I(4) by auto
      have "(pending c)(p := None) = pending c" using p(2) by auto
      then have "after_call p m rs a c = c\<lparr>srv := a, inside := {p}\<rparr>"
        using r Enter by (simp add: after_call_def)
      with r I(1,2,3,6) p show ?thesis by (simp add: sys_inv_def)
    next
      case (Some q)
      then have r: "rs = []" "a = srv c\<lparr>a_entry := a_entry (srv c) @ [p]\<rparr>"
        using res Enter by auto
      have "p \<notin> inside c" using own Enter I(4) by auto
      then show ?thesis
        unfolding r sys_inv_def after_call_def deliver.simps
        using I(1,4,5) items sub nl Enter Some by auto
    qed
  next
    case Leave
    obtain rs' where g: "a_grant (srv c\<lparr>a_owner := None\<rparr>) = (rs', a)" and rs: "rs = (p, 0) # rs'"
      using res Leave own by (auto split: prod.splits)
    have "(pending c)(p := None) = pending c" using p(2) by auto
    then have "after_call p m rs a c = deliver rs' \<lparr>srv = a, inside = {}, pending = pending c\<rparr>"
      using Leave ins by (auto simp: after_call_def rs intro!: arg_cong[of _ _ "deliver rs'"])
    with grant_inv[OF I(1) _ I(3,6) _ g] I(2) show ?thesis by simp
  next
    case (Wait k)
    show ?thesis
    proof (cases "cond_ok k (srv c)")
      case True
      let ?a = "srv c\<lparr>a_owner := None, a_conds := (a_conds (srv c))[nat k := a_conds (srv c) ! nat k @ [p]]\<rparr>"
      have "a_grant ?a = (rs, a)" using res Wait own True by simp
      moreover have "a_items ?a = mset_set (dom ?pe)"
        using a_items_wait[of k "srv c\<lparr>a_owner := None\<rparr>" p] True items by (simp add: cond_ok_def)
      ultimately have "sys_inv P (deliver rs \<lparr>srv = a, inside = {}, pending = ?pe\<rparr>)"
        using grant_inv[OF I(1) _ sub nl] Wait by simp
      then show ?thesis using upd Wait by simp
    next
      case False
      then show ?thesis
        using res Wait own inv deliver_self[of c p m] may by (auto simp: may_call_def)
    qed
  next
    case (Signal k)
    show ?thesis
    proof (cases "cond_ok k (srv c) \<and> a_conds (srv c) ! nat k \<noteq> []")
      case True
      then obtain w ws where w: "a_conds (srv c) ! nat k = w # ws" by (auto simp: neq_Nil_conv)
      have res': "rs = [(w, 0)]" "a = srv c\<lparr>a_owner := Some w, a_urgent := a_urgent (srv c) @ [p],
          a_conds := (a_conds (srv c))[nat k := ws]\<rparr>"
        using res Signal own True w by auto
      have "add_mset w (a_items a) = mset_set (dom ?pe)"
        unfolding items[symmetric] using a_items_signal[of k "srv c" w ws] True w res'
        by (simp add: a_items_def)
      from wake_inv[OF I(1) this sub nl, of 0] show ?thesis
        using upd Signal res' by simp
    next
      case False
      then show ?thesis
        using res Signal own inv deliver_self[of c p m] may by (auto simp: may_call_def split: if_splits)
    qed
  qed
qed


interpretation hoare: invariant_system "sys_init (amon_init n)"
  "sys_step a_server P" "\<lambda>c. finite P \<longrightarrow> sys_inv P c" for n P
  by unfold_locales (auto intro: sys_inv_init call_inv elim!: sys_step.cases)

section \<open>Two clients\<close>

definition sys_map :: "('s \<Rightarrow> 't) \<Rightarrow> 's sys \<Rightarrow> 't sys" where
  "sys_map f c = \<lparr>srv = f (srv c), inside = inside c, pending = pending c\<rparr>"

definition csys_inv :: "pid set \<Rightarrow> mon sys \<Rightarrow> bool" where
  "csys_inv P c \<longleftrightarrow> (\<exists>k a. mon_rel k (srv c) a \<and> k + size (a_items a) = nat MAX_NODES \<and>
     sys_inv P (sys_map (\<lambda>_. a) c))"

lemma deliver_map: "deliver rs (sys_map f c) = sys_map f (deliver rs c)"
  by (induction rs c rule: deliver.induct) (auto simp: sys_map_def split: option.splits)

lemma srv_deliver [simp]: "srv (deliver rs c) = srv c"
  by (induction rs c rule: deliver.induct) (auto split: option.splits)

lemma after_call_map: "after_call p m rs b (sys_map f c) = sys_map (\<lambda>_. b) (after_call p m rs a c)"
  unfolding after_call_def deliver_map[symmetric] by (simp add: sys_map_def)

lemma length_le_items:
  "length (a_entry a) \<le> size (a_items a)" "length (a_urgent a) \<le> size (a_items a)"
  "cond_ok c a \<Longrightarrow> length (a_conds a ! nat c) \<le> size (a_items a)"
proof -
  show "length (a_entry a) \<le> size (a_items a)" "length (a_urgent a) \<le> size (a_items a)"
    by (auto simp: a_items_def)
  assume "cond_ok c a"
  then have "mset (a_conds a ! nat c) \<subseteq># mset (concat (a_conds a))"
    using mset_concat_update[of "nat c" "a_conds a" "[]"]
    by (simp add: cond_ok_def nat_less_iff) (metis mset_subset_eq_add_right)
  then show "length (a_conds a ! nat c) \<le> size (a_items a)"
    by (auto simp: a_items_def dest!: size_mset_mono)
qed

lemma two_clients_takes_one:
  assumes inv: "sys_inv P c" and two: "card P \<le> 2" and may: "may_call P p m c"
  shows "takes_one m (srv c)"
proof -
  note I = sys_invD[OF inv]
  have "dom (pending c) \<subseteq> P - {p}" "p \<in> P" using I(3) may by (auto simp: may_call_def)
  then have "card (dom (pending c)) \<le> 1"
    using card_mono[of "P - {p}" "dom (pending c)"] I(1) two by simp
  then have "size (a_items (srv c)) \<le> 1" using I(2) by simp
  then show ?thesis
    using length_le_items[where a = "srv c"] by (cases m) (auto simp: takes_one_def intro: order_trans)
qed

lemma csys_refine:
  assumes rel: "mon_rel k (srv c) a" and sz: "k + size (a_items a) = nat MAX_NODES" and si: "sys_inv P (sys_map (\<lambda>_. a) c)"
    and two: "card P \<le> 2" and may: "may_call P p m c" and pos: "-1 \<notin> P"
  shows "\<exists>rs s' a' k'. c_server p m (srv c) = Inr (rs, s') \<and> a_call p m a = (rs, a') \<and> mon_rel k' s' a' \<and>
    k' + size (a_items a') = nat MAX_NODES \<and> sys_inv P (sys_map (\<lambda>_. a') (after_call p m rs s' c))"
proof -
  let ?c = "sys_map (\<lambda>_. a) c"
  note I = sys_invD[OF si]
  have [simp]: "srv ?c = a" by (simp add: sys_map_def)
  have may': "may_call P p m ?c" using may by (simp add: may_call_def sys_map_def)
  have "size (a_items a) \<le> 2"
    using I(1-3) two card_mono[of P "dom (pending ?c)"] by simp
  then obtain k' where k: "k = Suc k'" using sz by (cases k) (auto simp: MAX_NODES_def)
  have "p \<noteq> -1" "-1 \<notin># a_items a"
    using pos may I(2,3,8) by (auto simp: may_call_def)
  moreover have "takes_one m a" using two_clients_takes_one[OF si two may'] by simp
  ultimately obtain s' k2 where s': "c_server p m (srv c) = Inr (fst (a_call p m a), s')"
    "k2 + size (a_items (snd (a_call p m a))) = Suc k' + size (a_items a)"
    "mon_rel k2 s' (snd (a_call p m a))" using MonServer_refines[OF rel[unfolded k]] by blast
  obtain rs a' where r: "a_call p m a = (rs, a')" by fastforce
  have "sys_inv P (after_call p m rs a' ?c)"
    by (rule call_inv[OF si may']) (simp add: r)
  then have "sys_inv P (sys_map (\<lambda>_. a') (after_call p m rs s' c))"
    by (simp add: after_call_map[of p m rs a' _ c s'])
  with s' k sz r show ?thesis by auto
qed

lemma csys_call:
  assumes inv: "csys_inv P c" and two: "card P \<le> 2" and may: "may_call P p m c" and pos: "-1 \<notin> P"
  shows "\<exists>rs s'. c_server p m (srv c) = Inr (rs, s') \<and> csys_inv P (after_call p m rs s' c)"
proof -
  obtain k a where "mon_rel k (srv c) a" "k + size (a_items a) = nat MAX_NODES" "sys_inv P (sys_map (\<lambda>_. a) c)"
    using inv unfolding csys_inv_def by blast
  from csys_refine[OF this two may pos] show ?thesis
    unfolding csys_inv_def by (force simp: after_call_def)
qed

section \<open>Initialisation\<close>

lemma create_conds_ok:
  assumes "pool_ok A hs fs (\<lambda>_. []) (\<lambda>_. []) p" "n \<le> length hs" "n \<le> length qs" "set qs \<subseteq> {None}"
  shows "\<exists>p'. create_conds n qs p = Inr (map Some (take n hs) @ drop n qs, p') \<and>
    pool_ok (A \<union> set (take n hs)) (drop n hs) fs (\<lambda>_. []) (\<lambda>_. []) p'"
  using assms
proof (induction n arbitrary: A hs qs p)
  case 0
  then show ?case by simp
next
  case (Suc n)
  obtain h hs' qs' where [simp]: "hs = h # hs'" "qs = None # qs'"
    using Suc.prems by (cases hs; cases qs) auto
  obtain p1 where p1: "ListCreate p = Inr (Some h, p1)" "pool_ok (insert h A) hs' fs (\<lambda>_. []) (\<lambda>_. []) p1"
    using ListCreate_empty[of A h hs' fs p] Suc.prems(1) by auto
  from Suc.IH[OF p1(2), of qs'] Suc.prems p1(1) show ?case
    by (auto simp: create_if_null_def)
qed

lemma mon_init_ok:
  assumes n: "0 \<le> n" "n \<le> MAX_CONDS"
  shows "\<exists>s. mon_init p n mon_boot = Inr ([(p, 0)], s) \<and> mon_rel (nat MAX_NODES) s (amon_init (nat n))"
proof -
  define hs where "hs = [2..MAX_LISTS - 1]"
  have hs: "[0..MAX_LISTS - 1] = 0 # 1 # hs" "length hs = 18" "distinct hs" "set hs \<subseteq> {2..}"
    by (simp_all add: hs_def MAX_LISTS_def upto.simps)
  have "pool_ok {} (0 # 1 # hs) [0..MAX_NODES - 1] (\<lambda>_. []) (\<lambda>_. []) (init_pools (bss_pool :: pid pool))"
    using init_pools_ok[of "\<lambda>_. []" "\<lambda>_. []"] hs by simp
  from ListCreate_empty[OF this] obtain p1 where p1: "ListCreate (bss_pool :: pid pool) = Inr (Some 0, p1)"
    "pool_ok {0} (1 # hs) [0..MAX_NODES - 1] (\<lambda>_. []) (\<lambda>_. []) p1" by (auto simp: ListCreate_bss)
  from ListCreate_empty[OF p1(2)] obtain p2 where p2: "ListCreate p1 = Inr (Some 1, p2)"
    "pool_ok {1, 0} hs [0..MAX_NODES - 1] (\<lambda>_. []) (\<lambda>_. []) p2" by auto
  have n8: "nat n \<le> 8" using n by (simp add: MAX_CONDS_def)
  from create_conds_ok[OF p2(2), of "nat n" "replicate 8 None"] hs(2) n8
  obtain p3 where p3: "create_conds (nat n) (replicate 8 None) p2 =
      Inr (map Some (take (nat n) hs) @ replicate (8 - nat n) None, p3)"
    "pool_ok ({1, 0} \<union> set (take (nat n) hs)) (drop (nat n) hs) [0..MAX_NODES - 1] (\<lambda>_. []) (\<lambda>_. []) p3"
    by auto
  have notin: "0 \<notin> set (take (nat n) hs)" "1 \<notin> set (take (nat n) hs)"
    using hs(4) by (auto dest: in_set_takeD)
  define s where "s = mon_boot\<lparr>num_conditions := n, entry_queue := Some 0, urgent_queue := Some 1,
    condition_queues := map Some (take (nat n) hs) @ replicate (8 - nat n) None, lists := p3\<rparr>"
  have "mon_init p n mon_boot = Inr ([(p, 0)], s)"
    using n p1(1) p2(1) p3(1) by (simp add: mon_init_def mon_boot_def create_if_null_def s_def)
  moreover have "pool_rep ({1, 0} \<union> set (take (nat n) hs)) (\<lambda>_. []) (nat MAX_NODES) p3"
    unfolding pool_rep_def using p3(2) by (intro exI conjI) (auto simp: MAX_NODES_def)
  then have "mon_rep 0 1 (take (nat n) hs) ({1, 0} \<union> set (take (nat n) hs)) (\<lambda>_. []) (nat MAX_NODES) s"
    using n n8 hs notin by (auto simp: mon_rep_def s_def mon_boot_def MAX_CONDS_def nth_append)
  moreover have "amon_init (nat n) = mon_abs 0 1 (take (nat n) hs) (\<lambda>_. []) s"
    using n8 hs(2) by (simp add: amon_init_def mon_abs_def s_def mon_boot_def map_replicate_const)
  ultimately show ?thesis using mon_relI by blast
qed

lemma lists_at_rep: 
  assumes "mon_rep e u cs A Q k s"
  obtains hs fs nss where "pool_ok A hs fs nss Q (lists s)" "length fs = k"
  using mon_rep_pool[OF assms] unfolding pool_rep_def by blast

text \<open>
  Two processes in the entry queue are one too many: the first leave serves the first of them,
  the next leave reads through a NULL pointer.
\<close>

lemma leave_leave_crash:
  assumes rep: "mon_rep e u cs A Q (Suc (Suc k)) s" and lock: "monitor_locked s = 1" "current_owner s = a"
    and empty: "Q e = []" "Q u = []"
  shows "serve [(b, MonEnter), (c, MonEnter), (a, MonLeave), (b, MonLeave)] s = Inl NullDeref"
proof -
  note D = mon_repD[OF rep]
  obtain hs f g fs nss where ok: "pool_ok A hs (f # g # fs) nss Q (lists s)"
    using lists_at_rep[OF rep] by (metis length_Suc_conv)
  obtain s1 s2 s3 s4 s5 where F: "ListAppend (Some e) (Some b) (lists s) = Inr (0, s1)"
    "ListAppend (Some e) (Some c) s1 = Inr (0, s2)"
    "ListFirst (Some e) s2 = Inr (Some b, s3)" "ListRemove (Some e) s3 = Inr (Some b, s4)"
    "ListCount (Some e) s4 = Inr 1" "ListFirst (Some e) s4 = Inr (None, s5)"
    "\<forall>k. k \<noteq> e \<longrightarrow> pool_lists s4 k = pool_lists (lists s) k"
    "pool_ok A hs fs (nss(e := [f, g])) (Q(e := [b, c])) s2"
    using fifo_broken[OF ok D(4) empty(1), of b c] by blast
  have u: "ListCount (Some u) s2 = Inr 0" "ListCount (Some e) s2 = Inr 2"
    using ListCount_ok[OF F(8)] D empty by auto
  have "ListCount (Some u) s4 = ListCount (Some u) (lists s)"
    using F(7) D(6) pool_okD(8)[OF ok D(5)] by (auto simp: ListCount_def)
  then have u4: "ListCount (Some u) s4 = Inr 0"
    using ListCount_ok[OF ok D(5)] empty by simp
  show ?thesis
    using F(1-6) u u4 D(1,2) lock
    by (simp add: MonServer_def MonEnter_def MonLeave_def mon_enter_def mon_leave_def push_pid_def
        grant_next_def pop_pid_def)
qed

lemma three_clients_crash_aux:
  assumes n: "0 \<le> n" "n \<le> MAX_CONDS" and a: "a \<noteq> -1"
  shows "serve [(p, \<lparr>m_type = 5, m_arg = n\<rparr>), (a, MonEnter), (b, MonEnter), (c, MonEnter),
    (a, MonLeave), (b, MonLeave)] mon_boot = Inl NullDeref"
proof -
  obtain s where s: "mon_init p n mon_boot = Inr ([(p, 0)], s)"
    "mon_rel (nat MAX_NODES) s (amon_init (nat n))" using mon_init_ok[OF n] by blast
  obtain e u cs A Q where rep: "mon_rep e u cs A Q (Suc (Suc 998)) s"
    and q: "amon_init (nat n) = mon_abs e u cs Q s"
    using s(2) unfolding mon_rel_def by (auto simp: MAX_NODES_def)
  have Q: "Q e = []" "Q u = []" "monitor_locked s = 0"
    using q by (auto simp: amon_init_def mon_abs_def split: if_splits)
  let ?s = "s\<lparr>monitor_locked := 1, current_owner := a\<rparr>"
  have "serve [(b, MonEnter), (c, MonEnter), (a, MonLeave), (b, MonLeave)] ?s = Inl NullDeref"
    by (rule leave_leave_crash[OF mon_rep_owner(1)[OF rep a]]) (use Q in auto)
  moreover have "MonServer p \<lparr>m_type = 5, m_arg = n\<rparr> mon_boot = Inr ([(p, 0)], s)"
    using s(1) by (simp add: MonServer_def)
  moreover have "MonServer a MonEnter s = Inr ([(a, 0)], ?s)"
    using Q(3) by (simp add: MonServer_def MonEnter_def mon_enter_def)
  ultimately show ?thesis by simp
qed

lemma mon_rel_owner: "mon_rel k s a \<Longrightarrow> a_owner a = Some p \<Longrightarrow> current_owner s = p"
  by (auto simp: mon_rel_def mon_abs_def split: if_splits)

section \<open>Properties\<close>

definition two_clients :: "pid set \<Rightarrow> int \<Rightarrow> mon \<Rightarrow> bool" where
  "two_clients P n s0 \<longleftrightarrow> finite P \<and> card P \<le> 2 \<and> -1 \<notin> P \<and> 0 \<le> n \<and> n \<le> MAX_CONDS \<and>
     (\<exists>p rs. MonServer p \<lparr>m_type = 5, m_arg = n\<rparr> mon_boot = Inr (rs, s0))"

lemma csys_inv_init:
  assumes "two_clients P n s0" "sys_init s0 c"
  shows "csys_inv P c"
proof -
  obtain p rs where "0 \<le> n" "n \<le> MAX_CONDS" "finite P" "mon_init p n mon_boot = Inr (rs, s0)"
    using assms(1) by (auto simp: two_clients_def MonServer_def)
  moreover have "sys_inv P (sys_map (\<lambda>_. amon_init (nat n)) c)" if "finite P"
    by (rule sys_inv_init[OF that]) (use assms(2) in \<open>auto simp: sys_init_def sys_map_def\<close>)
  ultimately show ?thesis
    using mon_init_ok[of n p] assms(2)
    by (auto simp: csys_inv_def sys_init_def intro!: exI[of _ "nat MAX_NODES"] exI[of _ "amon_init (nat n)"])
qed

interpretation pair: invariant_system "sys_init s0" "sys_step c_server P"
  "\<lambda>c. two_clients P n s0 \<longrightarrow> csys_inv P c" for s0 P n
proof
  show "sys_init s0 c \<Longrightarrow> two_clients P n s0 \<longrightarrow> csys_inv P c" for c
    using csys_inv_init by blast
  show "two_clients P n s0 \<longrightarrow> csys_inv P t"
    if "two_clients P n s0 \<longrightarrow> csys_inv P s" "sys_step c_server P s t" for s t
    using that(2)
  proof cases
    case (1 p m rs a)
    then show ?thesis
      using that(1) csys_call[of P s p m] by (auto simp: two_clients_def)
  qed
qed

text \<open>
  C1: With at most two client processes that follow the protocol (enter from outside, leave,
  wait and signal from inside), the server started by MonInit never faults, whatever the order
  of the calls; at most one process is ever inside the monitor, and a process inside is not
  blocked.
\<close>

theorem monitor_two_clients:
  assumes "two_clients P n s0" and "reach (sys_init s0) (sys_step c_server P) c"
  shows "(may_call P p m c \<longrightarrow> ok (MonServer p (call_msg m) (srv c))) \<and>
    (q \<in> inside c \<longrightarrow> pending c q = None \<and> inside c = {q})"
proof (intro conjI impI)
  have inv: "csys_inv P c" using pair.reach_inv[OF assms(2), of n] assms(1) by simp
  then obtain a where a: "sys_inv P (sys_map (\<lambda>_. a) c)" unfolding csys_inv_def by blast
  show "ok (MonServer p (call_msg m) (srv c))" if "may_call P p m c"
    using csys_call[OF inv _ that] assms(1) by (auto simp: two_clients_def ok_iff)
  assume "q \<in> inside c"
  then show "pending c q = None" "inside c = {q}"
    using sys_invD(4,5)[OF a] by (auto simp: sys_map_def)
qed

theorem monitor_two_clients_witness:
  "\<exists>s0. two_clients {1, 2} 2 s0 \<and> ok (MonServer 1 (call_msg Enter) s0)"
proof -
  obtain s0 where s0: "mon_init 3 2 mon_boot = Inr ([(3, 0)], s0)"
    using mon_init_ok[of 2 3] by (auto simp: MAX_CONDS_def)
  have two: "two_clients {1, 2} 2 s0"
    using s0 unfolding two_clients_def by (simp add: MAX_CONDS_def) (auto simp: MonServer_def)
  let ?c = "\<lparr>srv = s0, inside = {}, pending = Map.empty\<rparr>"
  have "reach (sys_init s0) (sys_step c_server {1, 2}) ?c"
    by (rule reach_init) (simp add: sys_init_def)
  from monitor_two_clients[OF two this, of 1 Enter] two show ?thesis
    by (auto simp: may_call_def)
qed

text \<open>
  C2: The message handlers implement a Hoare monitor. From a server state that represents an
  abstract monitor with at least one free list node, a call by a process other than \<open>-1\<close> that
  takes from queues of at most one process gives exactly the replies of the abstract monitor and
  a state that represents its successor; list nodes and waiting processes balance.
\<close>

theorem monitor_refines_hoare:
  assumes "mon_rel (Suc k) s a" "p \<noteq> -1" "-1 \<notin># a_items a" "takes_one m a"
  shows "\<exists>s' k'. MonServer p (call_msg m) s = Inr (fst (a_call p m a), s') \<and>
    mon_rel k' s' (snd (a_call p m a)) \<and>
    k' + size (a_items (snd (a_call p m a))) = Suc k + size (a_items a)"
  using MonServer_refines[OF assms(1,2,4,3)] by blast

theorem monitor_refines_hoare_witness:
  "\<exists>s s' k'. MonServer 7 (call_msg (Wait 0)) s = Inr ([], s') \<and>
    mon_rel k' s' \<lparr>a_owner = None, a_entry = [], a_urgent = [], a_conds = [[7]]\<rparr>"
proof -
  obtain s where s: "mon_rel (Suc 999) s (amon_init 1)"
    using mon_init_ok[of 1] by (auto simp: MAX_CONDS_def MAX_NODES_def)
  from monitor_refines_hoare[OF this, of 7 Enter] obtain s1 k1 where
    s1: "mon_rel k1 s1 (amon_init 1\<lparr>a_owner := Some 7\<rparr>)" "k1 = Suc 999"
    by (auto simp: takes_one_def amon_init_def a_items_def)
  from monitor_refines_hoare[OF s1(1)[unfolded s1(2)], of 7 "Wait 0"] show ?thesis
    by (auto simp: takes_one_def amon_init_def a_items_def cond_ok_def a_grant_def)
qed

text \<open>
  For any finite set of clients of the Hoare monitor: one process at most is inside, every
  blocked process waits in exactly one queue and every process in a queue is blocked, and a free
  monitor has nobody waiting to enter or to resume after a signal.
\<close>

theorem hoare_monitor_safe:
  assumes "finite P" and "reach (sys_init (amon_init n)) (sys_step a_server P) c"
  shows "inside c = set_option (a_owner (srv c)) \<and>
    a_items (srv c) = mset_set (dom (pending c)) \<and>
    (a_owner (srv c) = None \<longrightarrow> a_entry (srv c) = [] \<and> a_urgent (srv c) = [])"
  using sys_invD(2,4,7)[of P c] hoare.reach_inv[OF assms(2)] assms(1) by blast

theorem hoare_monitor_safe_witness:
  "\<exists>c. reach (sys_init (amon_init 1)) (sys_step a_server {1, 2}) c \<and> inside c = {1} \<and>
    a_items (srv c) = {#2#}"
proof -
  let ?c0 = "\<lparr>srv = amon_init 1, inside = {}, pending = Map.empty\<rparr>"
  let ?c1 = "after_call 1 Enter [(1, 0)] (amon_init 1\<lparr>a_owner := Some 1\<rparr>) ?c0"
  let ?c2 = "after_call 2 Enter [] (amon_init 1\<lparr>a_owner := Some 1, a_entry := [2]\<rparr>) ?c1"
  have 0: "reach (sys_init (amon_init 1)) (sys_step a_server {1, 2}) ?c0"
    by (rule reach_init) (simp add: sys_init_def)
  have 1: "reach (sys_init (amon_init 1)) (sys_step a_server {1, 2}) ?c1"
    by (rule reach_step[OF 0], rule sys_step.intros) (auto simp: may_call_def amon_init_def)
  have 2: "reach (sys_init (amon_init 1)) (sys_step a_server {1, 2}) ?c2"
    by (rule reach_step[OF 1], rule sys_step.intros)
       (auto simp: may_call_def amon_init_def after_call_def)
  from hoare_monitor_safe[OF _ 2] 2 show ?thesis
    by (intro exI[of _ ?c2]) (simp add: after_call_def amon_init_def)
qed

text \<open>
  C3: Three clients are too many for the server. After MonInit, when two processes wait to enter
  the monitor held by a third, the second of the two MonLeave calls that follow makes the server
  dereference NULL: the entry queue says it holds a process and its first item is NULL.
\<close>

theorem monitor_three_clients_crash:
  assumes "0 \<le> n" "n \<le> MAX_CONDS" "a \<noteq> -1"
  shows "serve [(p, \<lparr>m_type = 5, m_arg = n\<rparr>), (a, MonEnter), (b, MonEnter), (c, MonEnter),
    (a, MonLeave), (b, MonLeave)] mon_boot = Inl NullDeref"
  using three_clients_crash_aux[OF assms] .

theorem monitor_three_clients_crash_witness:
  "serve [(9, \<lparr>m_type = 5, m_arg = 2\<rparr>), (1, MonEnter), (2, MonEnter), (3, MonEnter),
    (1, MonLeave), (2, MonLeave)] mon_boot = Inl NullDeref"
  by (rule monitor_three_clients_crash) (simp_all add: MAX_CONDS_def)

text \<open>
  C4: Hoare signalling. When the owner signals a condition on which one process waits, the server
  answers the waiter only and makes it the owner; when the waiter then leaves, the signaller is
  answered and owns the monitor again, before any process waiting to enter.
\<close>

theorem monitor_signal_hands_over:
  assumes rel: "mon_rel (Suc k) s a" and own: "a_owner a = Some p" "p \<noteq> -1" "w \<noteq> -1"
    and q: "cond_ok c a" "a_conds a ! nat c = [w]" and none: "a_urgent a = []"
    and pids: "-1 \<notin># a_items a"
  shows "\<exists>s1 s2 k2. MonServer p (MonSignal c) s = Inr ([(w, 0)], s1) \<and>
    current_owner s1 = w \<and>
    MonServer w MonLeave s1 = Inr ([(w, 0), (p, 0)], s2) \<and> current_owner s2 = p \<and>
    mon_rel k2 s2 (a\<lparr>a_conds := (a_conds a)[nat c := []]\<rparr>)"
proof -
  let ?a1 = "a\<lparr>a_owner := Some w, a_urgent := [p], a_conds := (a_conds a)[nat c := []]\<rparr>"
  have items: "a_items ?a1 = add_mset p (a_items a - {#w#})" "w \<in># a_items a"
    using a_items_signal[OF q] none by (simp_all add: a_items_def)
  obtain s1 k1 where s1: "MonServer p (MonSignal c) s = Inr ([(w, 0)], s1)" "mon_rel k1 s1 ?a1"
    "k1 + size (a_items ?a1) = Suc k + size (a_items a)"
    using MonServer_refines[OF rel own(2), of "Signal c"] own(1) q none pids
    by (auto simp: takes_one_def)
  have "size (a_items ?a1) = size (a_items a)"
    using items by (simp add: size_Suc_Diff1)
  then have k1: "k1 = Suc k" using s1(3) by simp
  have "-1 \<notin># a_items ?a1" using items(1) pids own by (auto dest: in_diffD)
  with MonServer_refines[OF s1(2)[unfolded k1] own(3), of Leave]
  obtain s2 k2 where s2: "MonServer w MonLeave s1 = Inr ([(w, 0), (p, 0)], s2)"
    "mon_rel k2 s2 (?a1\<lparr>a_owner := Some p, a_urgent := []\<rparr>)"
    by (auto simp: takes_one_def a_grant_def)
  have "?a1\<lparr>a_owner := Some p, a_urgent := []\<rparr> = a\<lparr>a_conds := (a_conds a)[nat c := []]\<rparr>"
    using own(1) none by (cases a) simp
  moreover have "current_owner s1 = w" "current_owner s2 = p"
    using mon_rel_owner[OF s1(2)] mon_rel_owner[OF s2(2)] by simp_all
  ultimately show ?thesis using s1(1) s2 by auto
qed

theorem monitor_signal_hands_over_witness:
  "\<exists>s s1 s2. MonServer 8 (MonSignal 0) s = Inr ([(7, 0)], s1) \<and> current_owner s1 = 7 \<and>
    MonServer 7 MonLeave s1 = Inr ([(7, 0), (8, 0)], s2) \<and> current_owner s2 = 8"
proof -
  obtain s where s: "mon_rel (Suc 999) s (amon_init 1)"
    using mon_init_ok[of 1] by (auto simp: MAX_CONDS_def MAX_NODES_def)
  from MonServer_refines[OF this, of 7 Enter] obtain s1 where
    s1: "mon_rel (Suc 999) s1 (amon_init 1\<lparr>a_owner := Some 7\<rparr>)"
    by (auto simp: takes_one_def amon_init_def a_items_def)
  from MonServer_refines[OF s1, of 7 "Wait 0"] obtain s2 where
    s2: "mon_rel (Suc 998) s2 \<lparr>a_owner = None, a_entry = [], a_urgent = [], a_conds = [[7]]\<rparr>"
    by (auto simp: takes_one_def amon_init_def a_items_def cond_ok_def a_grant_def)
  from MonServer_refines[OF s2, of 8 Enter] obtain s3 where
    s3: "mon_rel (Suc 998) s3 \<lparr>a_owner = Some 8, a_entry = [], a_urgent = [], a_conds = [[7]]\<rparr>"
    by (auto simp: takes_one_def a_items_def)
  from monitor_signal_hands_over[OF s3, of 8 7 0] show ?thesis
    by (auto simp: cond_ok_def a_items_def)
qed

end
