(* ===== verification/Reader_Writer.thy ===== *)
theory Reader_Writer
  imports Monitor_Spec
begin

text \<open>
  The readers and writers of \<^verbatim>\<open>reader_writer_monitor.c\<close> and \<^verbatim>\<open>reader_writer.c\<close> on the server of
  \<^verbatim>\<open>Monitor.c\<close>. The invariant is shown for the Hoare monitor, which the server simulates for two
  processes; with three the server departs from it. A procedure is cut at its monitor calls: segment \<open>k\<close> runs the code
  that follows call \<open>k\<close> up to and including the next call. A process that has made its call is
  at the segment it continues with when the call returns.
\<close>

section \<open>The monitor procedures\<close>

definition OKtoRead :: int where "OKtoRead = 0"

definition OKtoWrite :: int where "OKtoWrite = 1"

definition numConds :: nat where "numConds = 2"

record rw_vars =
  numReaders :: int
  busyWriting :: int

text \<open>Each segment gives the call it ends with, the variables, and the next segment, if any.\<close>

fun StartRead :: "nat \<Rightarrow> rw_vars \<Rightarrow> call \<times> rw_vars \<times> nat option" where
  "StartRead 0 v = (Enter, v, Some 1)"
| "StartRead (Suc 0) v = (if busyWriting v \<noteq> 0 then (Wait OKtoRead, v, Some 2)
     else (Signal OKtoRead, v\<lparr>numReaders := numReaders v + 1\<rparr>, Some 3))"
| "StartRead (Suc (Suc 0)) v = (Signal OKtoRead, v\<lparr>numReaders := numReaders v + 1\<rparr>, Some 3)"
| "StartRead _ v = (Leave, v, None)"

fun StopRead :: "nat \<Rightarrow> rw_vars \<Rightarrow> call \<times> rw_vars \<times> nat option" where
  "StopRead 0 v = (Enter, v, Some 1)"
| "StopRead (Suc 0) v = (let v = v\<lparr>numReaders := numReaders v - 1\<rparr> in
     if numReaders v = 0 then (Signal OKtoWrite, v, Some 2) else (Leave, v, None))"
| "StopRead _ v = (Leave, v, None)"

fun StartWrite :: "nat \<Rightarrow> rw_vars \<Rightarrow> call \<times> rw_vars \<times> nat option" where
  "StartWrite 0 v = (Enter, v, Some 1)"
| "StartWrite (Suc 0) v = (if numReaders v \<noteq> 0 \<or> busyWriting v \<noteq> 0 then (Wait OKtoWrite, v, Some 2)
     else (Leave, v\<lparr>busyWriting := 1\<rparr>, None))"
| "StartWrite _ v = (Leave, v\<lparr>busyWriting := 1\<rparr>, None)"

fun StopWrite :: "nat \<Rightarrow> rw_vars \<Rightarrow> call \<times> rw_vars \<times> nat option" where
  "StopWrite 0 v = (Enter, v, Some 1)"
| "StopWrite (Suc 0) v = (Signal OKtoRead, v\<lparr>busyWriting := 0\<rparr>, Some 2)"
| "StopWrite _ v = (Leave, v, None)"

section \<open>The processes\<close>

datatype proc = SR | ER | SW | EW

text \<open>
  A process is at a segment of a procedure; at segment 0 of \<open>SR\<close> a reader is idle, at segment 0
  of \<open>ER\<close> it reads, and in the same way for writers.
\<close>

type_synonym rw_pc = "proc \<times> nat"

fun run_seg :: "rw_pc \<Rightarrow> rw_vars \<Rightarrow> call \<times> rw_vars \<times> nat option" where
  "run_seg (SR, k) v = StartRead k v"
| "run_seg (ER, k) v = StopRead k v"
| "run_seg (SW, k) v = StartWrite k v"
| "run_seg (EW, k) v = StopWrite k v"

text \<open>The endless loops of the two process bodies.\<close>

fun reader :: "proc \<Rightarrow> proc" where
  "reader SR = ER" | "reader ER = SR" | "reader q = q"

fun writer :: "proc \<Rightarrow> proc" where
  "writer SW = EW" | "writer EW = SW" | "writer q = q"

definition next_pc :: "proc \<Rightarrow> nat option \<Rightarrow> rw_pc" where
  "next_pc q k = (case k of Some k \<Rightarrow> (q, k) | None \<Rightarrow> (writer (reader q), 0))"

record 's rw =
  rsys :: "'s sys"
  vars :: rw_vars
  pcs :: "pid \<Rightarrow> rw_pc"

text \<open>
  A process that is not blocked runs one segment, and the server handles the call it ends with; the
  system with the server of \<^verbatim>\<open>Monitor.c\<close> is \<open>rw_step c_server\<close>, and \<open>rw_step a_server\<close> the one with the
  Hoare monitor. What a call returns is not looked at.
\<close>

inductive rw_step ::
  "(pid \<Rightarrow> call \<Rightarrow> 's \<Rightarrow> fault + (replies \<times> 's)) \<Rightarrow> pid set \<Rightarrow> 's rw \<Rightarrow> 's rw \<Rightarrow> bool" for server P where
  "p \<in> P \<Longrightarrow> pending (rsys s) p = None \<Longrightarrow> run_seg (pcs s p) (vars s) = (m, v, k) \<Longrightarrow>
   server p m (srv (rsys s)) = Inr (rs, a) \<Longrightarrow>
   rw_step server P s (s\<lparr>rsys := after_call p m rs a (rsys s), vars := v,
                  pcs := (pcs s)(p := next_pc (fst (pcs s p)) k)\<rparr>)"

definition rw_init :: "'s \<Rightarrow> pid set \<Rightarrow> pid set \<Rightarrow> 's rw \<Rightarrow> bool" where
  "rw_init s0 R W s \<longleftrightarrow> sys_init s0 (rsys s) \<and>
     vars s = \<lparr>numReaders = 0, busyWriting = 0\<rparr> \<and>
     (\<forall>p \<in> R. pcs s p = (SR, 0)) \<and> (\<forall>p \<in> W. pcs s p = (SW, 0))"

text \<open>The processes that \<^verbatim>\<open>mainp\<close> creates, with their ids and where they start.\<close>

definition mainp_procs :: "(string \<times> pid \<times> proc) list" where
  "mainp_procs = [(''R1'', 1000, SR), (''W1'', 500, SW), (''R2'', 1001, SR), (''R3'', 1002, SR), (''W2'', 501, SW)]"

definition procs_at :: "proc \<Rightarrow> pid set" where
  "procs_at q = set (map (fst \<circ> snd) (filter (\<lambda>x. snd (snd x) = q) mainp_procs))"

section \<open>Invariant\<close>

definition outside_pc :: "rw_pc set" where
  "outside_pc = {(SR, 0), (ER, 0), (SW, 0), (EW, 0)}"

definition entering_pc :: "rw_pc set" where
  "entering_pc = {(SR, 1), (ER, 1), (SW, 1), (EW, 1)}"

definition leaving_pc :: "rw_pc set" where
  "leaving_pc = {(SR, 3), (ER, 2), (EW, 2)}"

definition reading_pc :: "rw_pc set" where
  "reading_pc = {(SR, 3), (ER, 0), (ER, 1)}"

definition writing_pc :: "rw_pc set" where
  "writing_pc = {(EW, 0), (EW, 1)}"

definition at_pc :: "pid set \<Rightarrow> (pid \<Rightarrow> rw_pc) \<Rightarrow> rw_pc set \<Rightarrow> int" where
  "at_pc P pc S = int (card {p \<in> P. pc p \<in> S})"

definition counts_ok :: "pid set \<Rightarrow> rw_vars \<Rightarrow> (pid \<Rightarrow> rw_pc) \<Rightarrow> bool" where
  "counts_ok P v pc \<longleftrightarrow> numReaders v = at_pc P pc reading_pc \<and> busyWriting v = at_pc P pc writing_pc \<and>
     (busyWriting v = 0 \<or> busyWriting v = 1 \<and> numReaders v = 0)"

definition owner_ok :: "amon \<Rightarrow> rw_vars \<Rightarrow> (pid \<Rightarrow> rw_pc) \<Rightarrow> bool" where
  "owner_ok a v pc \<longleftrightarrow> (\<forall>p. a_owner a = Some p \<longrightarrow>
     pc p \<in> entering_pc \<union> leaving_pc \<or> pc p = (SR, 2) \<and> busyWriting v = 0 \<or>
     pc p = (SW, 2) \<and> busyWriting v = 0 \<and> numReaders v = 0)"

definition queues_ok :: "amon \<Rightarrow> (pid \<Rightarrow> rw_pc) \<Rightarrow> bool" where
  "queues_ok a pc \<longleftrightarrow> length (a_conds a) = 2 \<and>
     (\<forall>p \<in> set (a_entry a). pc p \<in> entering_pc) \<and> (\<forall>p \<in> set (a_urgent a). pc p \<in> leaving_pc) \<and>
     (\<forall>p \<in> set (a_conds a ! 0). pc p = (SR, 2)) \<and> (\<forall>p \<in> set (a_conds a ! 1). pc p = (SW, 2))"

definition rw_inv :: "pid set \<Rightarrow> amon rw \<Rightarrow> bool" where
  "rw_inv P s \<longleftrightarrow> sys_inv P (rsys s) \<and> counts_ok P (vars s) (pcs s) \<and>
     owner_ok (srv (rsys s)) (vars s) (pcs s) \<and> queues_ok (srv (rsys s)) (pcs s) \<and>
     (\<forall>p \<in> P. pending (rsys s) p = None \<and> p \<notin> inside (rsys s) \<longrightarrow> pcs s p \<in> outside_pc)"

lemmas pc_defs = outside_pc_def entering_pc_def leaving_pc_def reading_pc_def writing_pc_def

lemma at_pc_upd:
  assumes "finite P" "p \<in> P"
  shows "at_pc P (pc(p := x)) S = at_pc P pc S + of_bool (x \<in> S) - of_bool (pc p \<in> S)"
proof -
  have fin: "finite {q \<in> P. pc q \<in> S}" using assms by simp
  have "{q \<in> P. (pc(p := x)) q \<in> S} =
    (if x \<in> S then insert p {q \<in> P. pc q \<in> S} else {q \<in> P. pc q \<in> S} - {p})"
    using assms by auto
  moreover have "pc p \<in> S \<longleftrightarrow> p \<in> {q \<in> P. pc q \<in> S}" using assms by simp
  moreover have "p \<in> {q \<in> P. pc q \<in> S} \<Longrightarrow> card {q \<in> P. pc q \<in> S} > 0"
    using fin by (metis card_gt_0_iff empty_iff)
  ultimately show ?thesis
    using fin by (auto simp: at_pc_def card_insert_if card_Diff_singleton_if)
qed

lemma at_pc_nonneg: "0 \<le> at_pc P pc S"
  by (simp add: at_pc_def)

lemma at_pc_pos: "finite P \<Longrightarrow> p \<in> P \<Longrightarrow> pc p \<in> S \<Longrightarrow> 0 < at_pc P pc S"
  by (auto simp: at_pc_def card_gt_0_iff)

text \<open>The segments at the positions a running process can be at.\<close>

lemma run_segs:
  "run_seg (SR, 0) v = (Enter, v, Some 1)"
  "run_seg (ER, 0) v = (Enter, v, Some 1)"
  "run_seg (SW, 0) v = (Enter, v, Some 1)"
  "run_seg (EW, 0) v = (Enter, v, Some 1)"
  "run_seg (SR, 1) v = (if busyWriting v \<noteq> 0 then (Wait 0, v, Some 2)
     else (Signal 0, v\<lparr>numReaders := numReaders v + 1\<rparr>, Some 3))"
  "run_seg (SR, 2) v = (Signal 0, v\<lparr>numReaders := numReaders v + 1\<rparr>, Some 3)"
  "run_seg (SR, 3) v = (Leave, v, None)"
  "run_seg (ER, 1) v = (if numReaders v = 1 then (Signal 1, v\<lparr>numReaders := 0\<rparr>, Some 2)
     else (Leave, v\<lparr>numReaders := numReaders v - 1\<rparr>, None))"
  "run_seg (ER, 2) v = (Leave, v, None)"
  "run_seg (SW, 1) v = (if numReaders v \<noteq> 0 \<or> busyWriting v \<noteq> 0 then (Wait 1, v, Some 2)
     else (Leave, v\<lparr>busyWriting := 1\<rparr>, None))"
  "run_seg (SW, 2) v = (Leave, v\<lparr>busyWriting := 1\<rparr>, None)"
  "run_seg (EW, 1) v = (Signal 0, v\<lparr>busyWriting := 0\<rparr>, Some 2)"
  "run_seg (EW, 2) v = (Leave, v, None)"
  by (simp_all add: numeral_2_eq_2 numeral_3_eq_3 OKtoRead_def OKtoWrite_def Let_def)

declare run_seg.simps [simp del]

text \<open>What a running process may assume at its position.\<close>

definition at_ok :: "rw_pc \<Rightarrow> rw_vars \<Rightarrow> bool" where
  "at_ok pc v \<longleftrightarrow> pc \<in> outside_pc \<or> pc \<in> entering_pc \<or> pc \<in> leaving_pc \<or>
     pc = (SR, 2) \<and> busyWriting v = 0 \<or> pc = (SW, 2) \<and> busyWriting v = 0 \<and> numReaders v = 0"

lemma at_ok_cases:
  assumes "at_ok pc v"
  obtains "pc = (SR, 0)" | "pc = (ER, 0)" | "pc = (SW, 0)" | "pc = (EW, 0)"
  | "pc = (SR, 1)" | "pc = (ER, 1)" | "pc = (SW, 1)" | "pc = (EW, 1)"
  | "pc = (SR, 3)" | "pc = (ER, 2)" | "pc = (EW, 2)"
  | "pc = (SR, 2)" "busyWriting v = 0" | "pc = (SW, 2)" "busyWriting v = 0" "numReaders v = 0"
  using assms unfolding at_ok_def pc_defs by blast

lemma counts_step:
  assumes cnt: "counts_ok P v pc" and fin: "finite P" "p \<in> P"
    and run: "run_seg (pc p) v = (m, v', k)" and at: "at_ok (pc p) v"
  shows "counts_ok P v' (pc(p := next_pc (fst (pc p)) k))"
proof -
  let ?x = "next_pc (fst (pc p)) k"
  have pos: "pc p \<in> writing_pc \<longrightarrow> 0 < busyWriting v" "pc p \<in> reading_pc \<longrightarrow> 0 < numReaders v"
    and excl: "busyWriting v = 0 \<or> busyWriting v = 1 \<and> numReaders v = 0"
    using at_pc_pos[OF fin] cnt by (auto simp: counts_ok_def)
  have goal: "counts_ok P v' (pc(p := ?x)) \<longleftrightarrow>
      numReaders v' = numReaders v + of_bool (?x \<in> reading_pc) - of_bool (pc p \<in> reading_pc) \<and>
      busyWriting v' = busyWriting v + of_bool (?x \<in> writing_pc) - of_bool (pc p \<in> writing_pc) \<and>
      (busyWriting v' = 0 \<or> busyWriting v' = 1 \<and> numReaders v' = 0)"
    using cnt by (simp add: counts_ok_def at_pc_upd[OF fin, of pc])
  from at show ?thesis
    unfolding goal
  proof (cases rule: at_ok_cases)
  qed (use run pos excl in \<open>simp_all only: run_segs next_pc_def reading_pc_def writing_pc_def\<close>,
    auto split: if_splits)
qed

text \<open>The effect of a call on the queues and the owner, by kind of call.\<close>

lemma grant_ok:
  assumes q: "queues_ok a pc" and none: "a_owner a = None" and g: "a_grant a = (rs, a')"
  shows "queues_ok a' pc \<and> owner_ok a' v pc"
proof -
  consider x xs where "a_urgent a = x # xs" | x xs where "a_urgent a = []" "a_entry a = x # xs"
    | "a_urgent a = []" "a_entry a = []" by (cases "a_urgent a"; cases "a_entry a") auto
  then show ?thesis
  proof cases
    case 1
    then have "a' = a\<lparr>a_owner := Some x, a_urgent := xs\<rparr>" using g by (auto simp: a_grant_def)
    with q 1 show ?thesis by (simp add: queues_ok_def owner_ok_def)
  next
    case 2
    then have "a' = a\<lparr>a_owner := Some x, a_entry := xs\<rparr>" using g by (auto simp: a_grant_def)
    with q 2 show ?thesis by (simp add: queues_ok_def owner_ok_def)
  next
    case 3
    with q none g show ?thesis by (simp add: a_grant_def owner_ok_def)
  qed
qed

lemma queues_pc_upd:
  "queues_ok a pc \<Longrightarrow> p \<notin># a_items a \<Longrightarrow> queues_ok a (pc(p := x))"
  by (cases "a_conds a"; cases "tl (a_conds a)") (auto simp: queues_ok_def a_items_def)

lemma queues_owner_upd [simp]: "queues_ok (a\<lparr>a_owner := ow\<rparr>) pc = queues_ok a pc"
  by (simp add: queues_ok_def)

lemma enter_ok:
  assumes q: "queues_ok a pc" "p \<notin># a_items a" and o: "owner_ok a v pc" "a_owner a \<noteq> Some p"
    and x: "x \<in> entering_pc" and c: "a_call p Enter a = (rs, a')"
  shows "queues_ok a' (pc(p := x)) \<and> owner_ok a' v (pc(p := x))"
proof (cases "a_owner a")
  case None
  then have "a' = a\<lparr>a_owner := Some p\<rparr>" using c by auto
  with queues_pc_upd[OF q] x show ?thesis by (simp add: owner_ok_def)
next
  case (Some r)
  then have "a' = a\<lparr>a_entry := a_entry a @ [p]\<rparr>" using c by auto
  moreover define pc' where "pc' = pc(p := x)"
  moreover have "queues_ok a pc'" "pc' p = x" "owner_ok a v pc'"
    using queues_pc_upd[OF q, of x] o by (auto simp: pc'_def owner_ok_def)
  ultimately show ?thesis using x unfolding pc'_def[symmetric] by (auto simp: queues_ok_def owner_ok_def)
qed

lemma leave_ok:
  assumes q: "queues_ok a pc" "p \<notin># a_items a" and o: "a_owner a = Some p"
    and c: "a_call p Leave a = (rs, a')"
  shows "queues_ok a' (pc(p := x)) \<and> owner_ok a' v (pc(p := x))"
proof -
  obtain rs' where "a_grant (a\<lparr>a_owner := None\<rparr>) = (rs', a')"
    using c o by (auto split: prod.splits)
  with grant_ok[of "a\<lparr>a_owner := None\<rparr>" "pc(p := x)" rs' a' v] queues_pc_upd[OF q] show ?thesis by simp
qed

lemma wait_ok:
  assumes q: "queues_ok a pc" "p \<notin># a_items a" and o: "a_owner a = Some p"
    and k: "k = 0 \<and> x = (SR, 2) \<or> k = 1 \<and> x = (SW, 2)" and c: "a_call p (Wait k) a = (rs, a')"
  shows "queues_ok a' (pc(p := x)) \<and> owner_ok a' v (pc(p := x))"
proof -
  let ?a = "a\<lparr>a_owner := None, a_conds := (a_conds a)[nat k := a_conds a ! nat k @ [p]]\<rparr>"
  have len: "length (a_conds a) = 2" using q by (simp add: queues_ok_def)
  then have "a_grant ?a = (rs, a')" using c o k by (auto simp: cond_ok_def)
  moreover have "queues_ok ?a (pc(p := x))"
  proof -
    define pc' where "pc' = pc(p := x)"
    have "queues_ok a pc'" "pc' p = x" using queues_pc_upd[OF q, of x] by (auto simp: pc'_def)
    with k len show ?thesis unfolding pc'_def[symmetric] by (auto simp: queues_ok_def nth_list_update)
  qed
  ultimately show ?thesis using grant_ok[of ?a "pc(p := x)" rs a' v] by simp
qed

lemma signal_ok:
  assumes q: "queues_ok a pc" "p \<notin># a_items a" and o: "a_owner a = Some p" and x: "x \<in> leaving_pc"
    and k: "k = 0 \<and> busyWriting v = 0 \<or> k = 1 \<and> busyWriting v = 0 \<and> numReaders v = 0"
    and c: "a_call p (Signal k) a = (rs, a')"
  shows "queues_ok a' (pc(p := x)) \<and> owner_ok a' v (pc(p := x))"
proof -
  have len: "length (a_conds a) = 2" using q by (simp add: queues_ok_def)
  have ck: "cond_ok k a" using k len by (auto simp: cond_ok_def)
  define pc' where "pc' = pc(p := x)"
  have q': "queues_ok a pc'" "pc' p = x" using queues_pc_upd[OF q, of x] by (auto simp: pc'_def)
  show ?thesis
    unfolding pc'_def[symmetric]
  proof (cases "a_conds a ! nat k")
    case Nil
    then have "a' = a" using c o ck by simp
    with q' x o show "queues_ok a' pc' \<and> owner_ok a' v pc'" by (simp add: owner_ok_def)
  next
    case (Cons w ws)
    then have a': "a' = a\<lparr>a_owner := Some w, a_urgent := a_urgent a @ [p], a_conds := (a_conds a)[nat k := ws]\<rparr>"
      using c o ck by simp
    have "pc' w = (if k = 0 then (SR, 2) else (SW, 2))"
      using q' Cons k unfolding queues_ok_def by auto
    then have "owner_ok a' v pc'" using k by (auto simp: owner_ok_def a')
    moreover have "queues_ok a' pc'"
      using q' Cons k x len unfolding queues_ok_def a' by (auto simp: nth_list_update)
    ultimately show "queues_ok a' pc' \<and> owner_ok a' v pc'" by simp
  qed
qed

text \<open>A process that runs after a call is inside, was outside before, or has just left.\<close>

lemma deliver_out:
  assumes "\<forall>q. pending c q = None \<longrightarrow> q \<in> inside c \<or> q \<in> D" "\<forall>q. pending c q = Some Leave \<longrightarrow> q \<in> D"
  shows "pending (deliver rs c) q = None \<Longrightarrow> q \<in> inside (deliver rs c) \<or> q \<in> D"
  using assms
proof (induction rs arbitrary: c)
  case (Cons r rs)
  obtain x y where r: "r = (x, y)" by fastforce
  show ?case
  proof (cases "pending c x")
    case None
    with Cons r show ?thesis by simp
  next
    case (Some m)
    show ?thesis
      using Cons.IH[of "c\<lparr>pending := (pending c)(x := None),
            inside := (if m = Leave then inside c - {x} else insert x (inside c))\<rparr>"]
        Cons.prems r Some by auto
  qed
qed simp

lemma after_call_out:
  assumes "Some Leave \<notin> range (pending c)" "pending (after_call p m rs a c) q = None"
    "q \<notin> inside (after_call p m rs a c)"
  shows "q = p \<and> m = Leave \<or> q \<noteq> p \<and> pending c q = None \<and> q \<notin> inside c"
proof -
  let ?c = "c\<lparr>srv := a, pending := (pending c)(p \<mapsto> m), inside := inside c - {p}\<rparr>"
  let ?D = "{q. q = p \<and> m = Leave \<or> q \<noteq> p \<and> pending c q = None \<and> q \<notin> inside c}"
  have 1: "\<forall>q. pending ?c q = None \<longrightarrow> q \<in> inside ?c \<or> q \<in> ?D" by simp
  have 2: "\<forall>q. pending ?c q = Some Leave \<longrightarrow> q \<in> ?D"
    using assms(1) by (simp add: image_iff) metis
  show ?thesis
    using deliver_out[OF 1 2] assms(2,3) unfolding after_call_def by blast
qed

lemma seg_ok:
  assumes cnt: "counts_ok P v0 pc" and o: "owner_ok b v0 pc" and q: "queues_ok b pc"
    and at: "at_ok (pc p) v0" and out: "p \<notin># a_items b"
    and ow: "pc p \<notin> outside_pc \<longleftrightarrow> a_owner b = Some p" and i: "pc p \<in> outside_pc \<longleftrightarrow> p \<notin> ins"
    and run: "run_seg (pc p) v0 = (m, v, k)" and c: "a_call p m b = (rs, a)"
  shows "queues_ok a (pc(p := next_pc (fst (pc p)) k)) \<and> owner_ok a v (pc(p := next_pc (fst (pc p)) k)) \<and>
    (m = Enter \<longleftrightarrow> p \<notin> ins) \<and> (m = Leave \<longrightarrow> next_pc (fst (pc p)) k \<in> outside_pc)"
proof -
  have excl: "busyWriting v0 = 0 \<or> numReaders v0 = 0" using cnt by (auto simp: counts_ok_def)
  note E = enter_ok[OF q out o, where rs = rs and a' = a]
    and L = leave_ok[OF q out, where rs = rs and a' = a and v = v]
    and W = wait_ok[OF q out, where rs = rs and a' = a and v = v]
    and S = signal_ok[OF q out, where rs = rs and a' = a and v = v]
  consider (enter) "pc p \<in> outside_pc" "m = Enter" "v = v0" "k = Some 1"
    | (leave) "pc p \<notin> outside_pc" "m = Leave" "k = None"
    | (wait) j where "pc p \<notin> outside_pc" "m = Wait j" "j = 0 \<and> fst (pc p) = SR \<or> j = 1 \<and> fst (pc p) = SW" "k = Some 2"
    | (signal) j where "pc p \<notin> outside_pc" "m = Signal j"
        "j = 0 \<and> busyWriting v = 0 \<or> j = 1 \<and> busyWriting v = 0 \<and> numReaders v = 0"
        "next_pc (fst (pc p)) k \<in> leaving_pc"
    using at
    by (cases rule: at_ok_cases)
       (use run excl in \<open>auto simp: run_segs[unfolded One_nat_def] next_pc_def pc_defs split: if_splits\<close>)
  then show ?thesis
  proof cases
    case enter
    have "(fst (pc p), 1) \<in> entering_pc" using enter(1) by (auto simp: pc_defs)
    with E[of "(fst (pc p), 1)"] enter c ow i show ?thesis by (simp add: next_pc_def)
  next
    case leave
    have "next_pc (fst (pc p)) k \<in> outside_pc"
      using leave(3) by (cases "fst (pc p)") (auto simp: next_pc_def pc_defs)
    with L[of "next_pc (fst (pc p)) k"] leave c ow i show ?thesis by simp
  next
    case wait
    with W[of j "next_pc (fst (pc p)) k"] c ow i show ?thesis by (auto simp: next_pc_def)
  next
    case signal
    with S[of "next_pc (fst (pc p)) k" j] c ow i show ?thesis by auto
  qed
qed

lemma rw_seg_inv:
  assumes inv: "rw_inv P s" and 1: "p \<in> P" "pending (rsys s) p = None" "run_seg (pcs s p) (vars s) = (m, v, k)"
    "a_call p m (srv (rsys s)) = (rs, a)"
  shows "may_call P p m (rsys s)"
    "rw_inv P (s\<lparr>rsys := after_call p m rs a (rsys s), vars := v, pcs := (pcs s)(p := next_pc (fst (pcs s p)) k)\<rparr>)"
proof -
  have I: "sys_inv P (rsys s)" "counts_ok P (vars s) (pcs s)" "owner_ok (srv (rsys s)) (vars s) (pcs s)"
    "queues_ok (srv (rsys s)) (pcs s)"
    "\<forall>q \<in> P. pending (rsys s) q = None \<and> q \<notin> inside (rsys s) \<longrightarrow> pcs s q \<in> outside_pc"
    using inv by (auto simp: rw_inv_def)
  note S = sys_invD[OF I(1)]
  have out: "p \<notin># a_items (srv (rsys s))" using S(2,8) 1(2) by auto
  have ow: "p \<in> inside (rsys s) \<longleftrightarrow> a_owner (srv (rsys s)) = Some p" using S(4) by auto
  have at: "at_ok (pcs s p) (vars s)"
    using I(3,5) 1(1,2) ow by (cases "p \<in> inside (rsys s)") (auto simp: at_ok_def owner_ok_def)
  have pcin: "pcs s p \<in> outside_pc \<longleftrightarrow> p \<notin> inside (rsys s)"
    using I(3,5) 1(1,2) ow by (auto simp: owner_ok_def pc_defs)
  let ?pc = "(pcs s)(p := next_pc (fst (pcs s p)) k)"
  have cnt: "counts_ok P v ?pc" by (rule counts_step[OF I(2) S(1) 1(1,3) at])
  have step: "queues_ok a ?pc \<and> owner_ok a v ?pc \<and> (m = Enter \<longleftrightarrow> p \<notin> inside (rsys s)) \<and>
      (m = Leave \<longrightarrow> next_pc (fst (pcs s p)) k \<in> outside_pc)"
    by (rule seg_ok[OF I(2,3,4) at out _ pcin 1(3,4)]) (use ow pcin in auto)
  show may: "may_call P p m (rsys s)" using step 1(1,2) by (simp add: may_call_def)
  have si: "sys_inv P (after_call p m rs a (rsys s))" by (rule call_inv[OF I(1) may 1(4)])
  have out: "\<forall>q \<in> P. pending (after_call p m rs a (rsys s)) q = None \<and> q \<notin> inside (after_call p m rs a (rsys s))
      \<longrightarrow> ?pc q \<in> outside_pc"
  proof (intro ballI impI, elim conjE)
    fix q assume "q \<in> P" "pending (after_call p m rs a (rsys s)) q = None"
      "q \<notin> inside (after_call p m rs a (rsys s))"
    with after_call_out[OF S(6) this(2,3)] step I(5) show "?pc q \<in> outside_pc" by auto
  qed
  show "rw_inv P (s\<lparr>rsys := after_call p m rs a (rsys s), vars := v, pcs := ?pc\<rparr>)"
    using si cnt step out unfolding rw_inv_def by (simp add: after_call_def)
qed

lemma rw_step_inv: "rw_inv P s \<Longrightarrow> rw_step a_server P s t \<Longrightarrow> rw_inv P t"
  by (auto elim!: rw_step.cases intro: rw_seg_inv(2))

lemma rw_init_inv:
  assumes "finite (R \<union> W)" "rw_init (amon_init numConds) R W s"
  shows "rw_inv (R \<union> W) s"
proof -
  have pc: "pcs s p = (SR, 0) \<or> pcs s p = (SW, 0)" if "p \<in> R \<union> W" for p
    using assms(2) that by (auto simp: rw_init_def)
  have notin: "pcs s p \<notin> reading_pc" "pcs s p \<notin> writing_pc" if "p \<in> R \<union> W" for p
    using pc[OF that] by (auto simp: reading_pc_def writing_pc_def)
  have sets: "{p \<in> R \<union> W. pcs s p \<in> reading_pc} = {}" "{p \<in> R \<union> W. pcs s p \<in> writing_pc} = {}"
    using notin by blast+
  have "counts_ok (R \<union> W) (vars s) (pcs s)"
    using assms(2) unfolding counts_ok_def at_pc_def rw_init_def sets by simp
  moreover have "sys_inv (R \<union> W) (rsys s)"
    using sys_inv_init[OF assms(1)] assms(2) by (auto simp: rw_init_def)
  moreover have "queues_ok (srv (rsys s)) (pcs s)" "owner_ok (srv (rsys s)) (vars s) (pcs s)"
    using assms(2) by (auto simp: rw_init_def sys_init_def amon_init_def numConds_def queues_ok_def
        owner_ok_def numeral_2_eq_2)
  ultimately show ?thesis
    using pc by (auto simp: rw_inv_def outside_pc_def)
qed

interpretation rwsys: invariant_system "rw_init (amon_init numConds) R W" "rw_step a_server (R \<union> W)"
  "\<lambda>s. finite (R \<union> W) \<longrightarrow> rw_inv (R \<union> W) s" for R W
  by unfold_locales (auto intro: rw_init_inv rw_step_inv)

section \<open>The server of Monitor.c\<close>

text \<open>With two processes the system with the server simulates the one with the Hoare monitor.\<close>

definition rw_abs :: "amon \<Rightarrow> 's rw \<Rightarrow> amon rw" where
  "rw_abs a s = \<lparr>rsys = sys_map (\<lambda>_. a) (rsys s), vars = vars s, pcs = pcs s\<rparr>"

definition rw_rel :: "pid set \<Rightarrow> mon rw \<Rightarrow> amon rw \<Rightarrow> bool" where
  "rw_rel P s b \<longleftrightarrow> (\<exists>k a. mon_rel k (srv (rsys s)) a \<and> k + size (a_items a) = nat MAX_NODES \<and> b = rw_abs a s) \<and> rw_inv P b"

lemma rw_abs_simps [simp]:
  "vars (rw_abs a s) = vars s" "pcs (rw_abs a s) = pcs s" "srv (rsys (rw_abs a s)) = a"
  "pending (rsys (rw_abs a s)) = pending (rsys s)" "inside (rsys (rw_abs a s)) = inside (rsys s)"
  by (simp_all add: rw_abs_def sys_map_def)

lemma rw_simulates:
  assumes rel: "rw_rel P s b" and two: "card P \<le> 2" "-1 \<notin> P" and p: "p \<in> P" "pending (rsys s) p = None"
    and run: "run_seg (pcs s p) (vars s) = (m, v, k)"
  shows "\<exists>rs s' b'. c_server p m (srv (rsys s)) = Inr (rs, s') \<and> rw_step a_server P b b' \<and>
    rw_rel P (s\<lparr>rsys := after_call p m rs s' (rsys s), vars := v, pcs := (pcs s)(p := next_pc (fst (pcs s p)) k)\<rparr>) b'"
proof -
  obtain j a where a: "mon_rel j (srv (rsys s)) a" "j + size (a_items a) = nat MAX_NODES" "b = rw_abs a s" and inv: "rw_inv P b"
    using rel by (auto simp: rw_rel_def)
  have ab: "pending (rsys b) p = None" "run_seg (pcs b p) (vars b) = (m, v, k)" using p run a(3) by simp_all
  have may: "may_call P p m (rsys s)"
    using rw_seg_inv(1)[OF inv p(1) ab surjective_pairing] a(3) by (simp add: may_call_def)
  have si: "sys_inv P (sys_map (\<lambda>_. a) (rsys s))" using inv a(3) by (simp add: rw_inv_def rw_abs_def)
  obtain rs s' a' j' where r: "c_server p m (srv (rsys s)) = Inr (rs, s')" "a_call p m a = (rs, a')" "mon_rel j' s' a'"
    "j' + size (a_items a') = nat MAX_NODES" using csys_refine[OF a(1,2) si two(1) may two(2)] by blast
  let ?t = "s\<lparr>rsys := after_call p m rs s' (rsys s), vars := v, pcs := (pcs s)(p := next_pc (fst (pcs s p)) k)\<rparr>"
  let ?b = "b\<lparr>rsys := after_call p m rs a' (rsys b), vars := v, pcs := (pcs b)(p := next_pc (fst (pcs b p)) k)\<rparr>"
  have ac: "a_call p m (srv (rsys b)) = (rs, a')" using r(2) a(3) by simp
  have "?b = rw_abs a' ?t"
    using after_call_map[of p m rs a' "\<lambda>_. a" "rsys s" s'] by (simp add: a(3) rw_abs_def)
  moreover have "rw_step a_server P b ?b" by (rule rw_step.intros[OF p(1) ab]) (simp add: ac)
  moreover have "rw_inv P ?b" by (rule rw_seg_inv(2)[OF inv p(1) ab ac])
  moreover have "srv (rsys ?t) = s'" by (simp add: after_call_def)
  ultimately show ?thesis using r unfolding rw_rel_def by metis
qed

lemma rw_rel_step:
  assumes "rw_rel P s b" "card P \<le> 2" "-1 \<notin> P" "rw_step c_server P s t"
  obtains b' where "rw_rel P t b'" "rw_step a_server P b b'"
  using assms(4)
proof cases
  case (1 p m v k rs a)
  with rw_simulates[OF assms(1-3) 1(2,3,4)] that show thesis by auto
qed

lemma rw_rel_init:
  assumes "two_clients (R \<union> W) (int numConds) s0" "rw_init s0 R W s"
  obtains b where "rw_rel (R \<union> W) s b" "rw_init (amon_init numConds) R W b"
proof -
  obtain q rs where q: "mon_init q 2 mon_boot = Inr (rs, s0)" "finite (R \<union> W)"
    using assms(1) by (auto simp: two_clients_def MonServer_def numConds_def)
  then have rel: "mon_rel (nat MAX_NODES) s0 (amon_init numConds)"
    using mon_init_ok[of 2 q] by (auto simp: MAX_CONDS_def numConds_def)
  let ?b = "rw_abs (amon_init numConds) s"
  have i: "rw_init (amon_init numConds) R W ?b" using assms(2) by (simp add: rw_init_def rw_abs_def sys_init_def sys_map_def)
  have "srv (rsys s) = s0" using assms(2) by (simp add: rw_init_def sys_init_def)
  moreover have "size (a_items (amon_init numConds)) = 0" by (simp add: amon_init_def a_items_def)
  ultimately have "rw_rel (R \<union> W) s ?b" using rel rw_init_inv[OF q(2) i] unfolding rw_rel_def by fastforce
  with i show thesis by (rule that[rotated])
qed

lemma rw_rel_reach:
  assumes two: "two_clients (R \<union> W) (int numConds) s0" and r: "reach (rw_init s0 R W) (rw_step c_server (R \<union> W)) s"
  shows "\<exists>b. rw_rel (R \<union> W) s b \<and> reach (rw_init (amon_init numConds) R W) (rw_step a_server (R \<union> W)) b"
  using r
proof induction
  case (reach_init s)
  obtain b where "rw_rel (R \<union> W) s b" "rw_init (amon_init numConds) R W b" by (rule rw_rel_init[OF two reach_init])
  then show ?case by (blast intro: reach.reach_init)
next
  case (reach_step s t)
  then obtain b where b: "rw_rel (R \<union> W) s b" "reach (rw_init (amon_init numConds) R W) (rw_step a_server (R \<union> W)) b" by blast
  have "card (R \<union> W) \<le> 2" "-1 \<notin> R \<union> W" using two by (auto simp: two_clients_def)
  then obtain b' where "rw_rel (R \<union> W) t b'" "rw_step a_server (R \<union> W) b b'" by (rule rw_rel_step[OF b(1) _ _ reach_step(2)])
  with b(2) show ?case by (blast intro: reach.reach_step)
qed

section \<open>Writers only\<close>

definition writer_pcs :: "pid set \<Rightarrow> 's rw \<Rightarrow> bool" where
  "writer_pcs P s \<longleftrightarrow> (\<forall>p \<in> P. fst (pcs s p) \<in> {SW, EW})"

lemma writer_seg:
  assumes "fst pc \<in> {SW, EW}" "run_seg pc v = (m, v', k)"
  shows "m \<in> {Enter, Leave, Wait 1, Signal 0} \<and> fst (next_pc (fst pc) k) \<in> {SW, EW}"
proof -
  obtain q n where pc: "pc = (q, n)" by fastforce
  have "\<exists>j. n = 0 \<or> n = 1 \<or> n = Suc (Suc j)" by (metis One_nat_def not0_implies_Suc)
  then show ?thesis
    using assms
    by (auto simp: pc run_seg.simps next_pc_def OKtoRead_def OKtoWrite_def split: if_splits)
qed

lemma a_grant_conds: "a_grant a = (rs, a') \<Longrightarrow> a_conds a' = a_conds a"
  by (auto simp: a_grant_def split: list.splits)

lemma writers_keep_waiting:
  assumes "a_call p m a = (rs, a')" "m \<in> {Enter, Leave, Wait 1, Signal 0}" "length (a_conds a) = 2"
    and "x \<in> set (a_conds a ! 1)"
  shows "x \<in> set (a_conds a' ! 1) \<and> length (a_conds a') = 2"
  using assms by (auto split: if_splits prod.splits list.splits dest!: a_grant_conds)

lemma writers_stuck_step:
  assumes "rw_step a_server P s t" "rw_inv P s" "writer_pcs P s" "x \<in> set (a_conds (srv (rsys s)) ! 1)"
  shows "writer_pcs P t \<and> x \<in> set (a_conds (srv (rsys t)) ! 1)"
  using assms(1)
proof cases
  case (1 p m v k rs a)
  have w: "m \<in> {Enter, Leave, Wait 1, Signal 0}" "fst (next_pc (fst (pcs s p)) k) \<in> {SW, EW}"
    using writer_seg[OF _ 1(4)] assms(3) 1(2) by (auto simp: writer_pcs_def)
  have "length (a_conds (srv (rsys s))) = 2" using assms(2) by (simp add: rw_inv_def queues_ok_def)
  from writers_keep_waiting[OF sum.inject(2)[THEN iffD1, OF 1(5)] w(1) this assms(4)] w(2) assms(3) show ?thesis
    unfolding 1(1) by (simp add: writer_pcs_def after_call_def)
qed

lemma writers_only: "reach (rw_init i {} W) (rw_step a_server W) s \<Longrightarrow> writer_pcs W s"
proof (induction rule: reach.induct)
  case (reach_step s t)
  from reach_step(2) show ?case
  proof cases
    case (1 p m v k rs a)
    with writer_seg[OF _ 1(4)] reach_step.IH show ?thesis by (auto simp: writer_pcs_def)
  qed
qed (auto simp: rw_init_def writer_pcs_def)

lemma waits_to_write:
  assumes inv: "rw_inv P s"
  shows "p \<in> set (a_conds (srv (rsys s)) ! 1) \<longleftrightarrow> pcs s p = (SW, 2) \<and> pending (rsys s) p \<noteq> None"
proof -
  have q: "queues_ok (srv (rsys s)) (pcs s)" and si: "sys_inv P (rsys s)" using inv by (auto simp: rw_inv_def)
  note S = sys_invD[OF si]
  obtain x y where xy: "a_conds (srv (rsys s)) = [x, y]"
    using q by (auto simp: queues_ok_def length_Suc_conv numeral_2_eq_2)
  have items: "p \<in># a_items (srv (rsys s)) \<longleftrightarrow> pending (rsys s) p \<noteq> None" using S(2,8) by auto
  have "p \<in># a_items (srv (rsys s)) \<longleftrightarrow> p \<in> set (a_entry (srv (rsys s))) \<or> p \<in> set (a_urgent (srv (rsys s))) \<or> p \<in> set x \<or> p \<in> set y"
    by (auto simp: a_items_def xy)
  with items q show ?thesis by (auto simp: xy queues_ok_def pc_defs)
qed

section \<open>Executions\<close>

text \<open>The processes named in a list run a segment each, if none of them is blocked and the server does not fault.\<close>

fun rw_run :: "(pid \<Rightarrow> call \<Rightarrow> 's \<Rightarrow> fault + (replies \<times> 's)) \<Rightarrow> pid list \<Rightarrow> 's rw \<Rightarrow> 's rw option" where
  "rw_run server [] s = Some s"
| "rw_run server (p # ps) s = (case run_seg (pcs s p) (vars s) of (m, v, k) \<Rightarrow>
     (case pending (rsys s) p of Some _ \<Rightarrow> None
      | None \<Rightarrow> (case server p m (srv (rsys s)) of Inl _ \<Rightarrow> None
        | Inr (rs, a) \<Rightarrow> rw_run server ps (s\<lparr>rsys := after_call p m rs a (rsys s), vars := v,
            pcs := (pcs s)(p := next_pc (fst (pcs s p)) k)\<rparr>))))"

lemma rw_run_reach:
  "rw_run server ps s = Some t \<Longrightarrow> set ps \<subseteq> P \<Longrightarrow> reach i (rw_step server P) s \<Longrightarrow> reach i (rw_step server P) t"
proof (induction ps arbitrary: s)
  case (Cons p ps)
  obtain m v k where r: "run_seg (pcs s p) (vars s) = (m, v, k)" by (metis prod_cases3)
  then obtain rs a where a: "pending (rsys s) p = None" "server p m (srv (rsys s)) = Inr (rs, a)"
    "rw_run server ps (s\<lparr>rsys := after_call p m rs a (rsys s), vars := v, pcs := (pcs s)(p := next_pc (fst (pcs s p)) k)\<rparr>) = Some t"
    using Cons.prems(1) by (auto split: option.splits sum.splits prod.splits)
  have "p \<in> P" using Cons.prems(2) by simp
  then have "rw_step server P s (s\<lparr>rsys := after_call p m rs a (rsys s), vars := v, pcs := (pcs s)(p := next_pc (fst (pcs s p)) k)\<rparr>)"
    using a(1,2) r by (intro rw_step.intros)
  from Cons.IH[OF a(3) _ reach.reach_step[OF Cons.prems(3) this]] Cons.prems(2) show ?case by simp
qed simp

definition rw_start :: "'s \<Rightarrow> pid set \<Rightarrow> 's rw" where
  "rw_start s0 R = \<lparr>rsys = \<lparr>srv = s0, inside = {}, pending = Map.empty\<rparr>,
     vars = \<lparr>numReaders = 0, busyWriting = 0\<rparr>, pcs = (\<lambda>p. if p \<in> R then (SR, 0) else (SW, 0))\<rparr>"

lemma rw_start_init: "R \<inter> W = {} \<Longrightarrow> rw_init s0 R W (rw_start s0 R)"
  by (auto simp: rw_init_def rw_start_def sys_init_def)

text \<open>The server as \<^verbatim>\<open>Initialize\<close> leaves it: four empty lists, all nodes free.\<close>

definition fresh_node :: "int \<Rightarrow> pid NODE" where
  "fresh_node i = (if 0 \<le> i \<and> i < MAX_NODES
       then \<lparr>n_item = None, n_next = -1, n_prev = -1, n_link = (if i = MAX_NODES - 1 then -1 else i + 1)\<rparr>
       else \<lparr>n_item = None, n_next = 0, n_prev = 0, n_link = 0\<rparr>)"

definition fresh_list :: "int \<Rightarrow> LIST" where
  "fresh_list i = (if 0 \<le> i \<and> i < MAX_LISTS
       then \<lparr>l_head = -1, l_tail = -1, l_curr = -1, l_count = 0, l_before = 1, l_after = 0,
             l_link = (if i \<in> {0, 1, 2, 3} then -1 else if i = MAX_LISTS - 1 then -1 else i + 1)\<rparr>
       else \<lparr>l_head = 0, l_tail = 0, l_curr = 0, l_count = 0, l_before = 0, l_after = 0, l_link = 0\<rparr>)"

definition rw_server :: mon where
  "rw_server = \<lparr>monitor_locked = 0, current_owner = -1, entry_queue = Some 0, urgent_queue = Some 1,
     condition_queues = [Some 2, Some 3, None, None, None, None, None, None], num_conditions = 2,
     lists = \<lparr>initialized = 1, free_list_head = 4, free_node_head = 0, pool_lists = fresh_list, pool_nodes = fresh_node\<rparr>\<rparr>"

lemma rw_server_ok: "MonServer 9 \<lparr>m_type = 5, m_arg = int numConds\<rparr> mon_boot = Inr ([(9, 0)], rw_server)"
  by (simp add: MonServer_def mon_init_def create_if_null_def ListCreate_def init_pools_def bss_pool_def mon_boot_def numConds_def
      MAX_CONDS_def MAX_LISTS_def MAX_NODES_def list_at_def list_upd_def rw_server_def numeral_2_eq_2 numeral_eq_Suc fresh_node_def fresh_list_def fun_eq_iff Let_def)

lemma fresh_entries:
  "fresh_node 0 = \<lparr>n_item = None, n_next = -1, n_prev = -1, n_link = 1\<rparr>"
  "fresh_node 1 = \<lparr>n_item = None, n_next = -1, n_prev = -1, n_link = 2\<rparr>"
  "k \<in> {0, 1, 2, 3} \<Longrightarrow> fresh_list k = \<lparr>l_head = -1, l_tail = -1, l_curr = -1, l_count = 0, l_before = 1, l_after = 0, l_link = -1\<rparr>"
  by (auto simp: fresh_node_def fresh_list_def MAX_NODES_def MAX_LISTS_def)

lemmas server_eval = MonServer_def MonEnter_def MonLeave_def MonWait_def MonSignal_def mon_enter_def mon_leave_def mon_wait_def mon_signal_def
  grant_next_def push_pid_def pop_pid_def cond_queue_def ListCount_def ListFirst_def ListRemove_def ListAppend_def nodeAllocator_def
  node_at_def node_upd_def list_at_def list_upd_def MAX_NODES_def MAX_LISTS_def MAX_CONDS_def Let_def

lemma overlap_run:
  "\<exists>s. rw_run c_server [1000, 1000, 500, 501, 1000, 500, 500] (rw_start rw_server {1000, 1001, 1002}) = Some s \<and>
    pcs s 1000 = (ER, 0) \<and> pcs s 500 = (EW, 0) \<and> pending (rsys s) 1000 = None \<and> pending (rsys s) 500 = None"
  by (simp add: rw_start_def rw_server_def run_segs[unfolded One_nat_def] next_pc_def after_call_def server_eval fresh_entries)

lemma two_servers: "two_clients {a, b} (int numConds) rw_server" if "a \<noteq> -1" "b \<noteq> -1" for a b :: pid
  using that rw_server_ok unfolding two_clients_def
  by (auto simp: MAX_CONDS_def numConds_def card_insert_if)

section \<open>Properties\<close>

text \<open>
  C7: With at most two processes on the server of Monitor.c, whatever the interleaving, the server
  answers every call without a fault, nobody reads while a process writes, at most one process
  writes, and while a process writes the two monitor variables are 0 and 1.
\<close>

theorem reader_writer_exclusion:
  assumes two: "two_clients (R \<union> W) (int numConds) s0" and r: "reach (rw_init s0 R W) (rw_step c_server (R \<union> W)) s"
    and p: "p \<in> R \<union> W" and q: "q \<in> R \<union> W" "q \<noteq> p"
  shows "(pending (rsys s) p = None \<longrightarrow> ok (c_server p (fst (run_seg (pcs s p) (vars s))) (srv (rsys s)))) \<and>
    (pcs s p = (EW, 0) \<longrightarrow>
      pcs s q \<noteq> (ER, 0) \<and> pcs s q \<noteq> (EW, 0) \<and> numReaders (vars s) = 0 \<and> busyWriting (vars s) = 1)"
proof (intro conjI impI)
  let ?P = "R \<union> W"
  obtain b where b: "rw_rel ?P s b" using rw_rel_reach[OF two r] by blast
  have P: "finite ?P" "card ?P \<le> 2" "-1 \<notin> ?P" using two by (auto simp: two_clients_def)
  show "ok (c_server p (fst (run_seg (pcs s p) (vars s))) (srv (rsys s)))" if "pending (rsys s) p = None"
    using rw_simulates[OF b P(2,3) p that] by (cases "run_seg (pcs s p) (vars s)") (force simp: ok_iff)
  assume pw: "pcs s p = (EW, 0)"
  have cnt: "counts_ok ?P (vars s) (pcs s)" using b by (auto simp: rw_rel_def rw_inv_def)
  have "0 < at_pc ?P (pcs s) writing_pc"
    using p pw by (intro at_pc_pos[OF P(1)]) (auto simp: writing_pc_def)
  then show z: "numReaders (vars s) = 0" "busyWriting (vars s) = 1" using cnt by (auto simp: counts_ok_def)
  have "pcs s q \<notin> reading_pc" using at_pc_pos[OF P(1) q(1), of "pcs s" reading_pc] cnt z by (auto simp: counts_ok_def)
  then show "pcs s q \<noteq> (ER, 0)" by (auto simp: reading_pc_def)
  show "pcs s q \<noteq> (EW, 0)"
  proof
    assume "pcs s q = (EW, 0)"
    then have "{p, q} \<subseteq> {r \<in> ?P. pcs s r \<in> writing_pc}" using p q pw by (auto simp: writing_pc_def)
    from card_mono[OF _ this] P(1) q(2) z cnt show False by (simp add: counts_ok_def at_pc_def)
  qed
qed

theorem reader_writer_exclusion_witness:
  "\<exists>s. reach (rw_init rw_server {1000} {500}) (rw_step c_server ({1000} \<union> {500})) s \<and>
    pcs s 500 = (EW, 0) \<and> pcs s 1000 \<noteq> (ER, 0) \<and> busyWriting (vars s) = 1"
proof -
  have two: "two_clients ({1000} \<union> {500}) (int numConds) rw_server" using two_servers[of 500 1000] by simp
  have 0: "reach (rw_init rw_server {1000} {500}) (rw_step c_server ({1000} \<union> {500})) (rw_start rw_server {1000})"
    by (rule reach_init, rule rw_start_init) simp
  obtain s where s: "rw_run c_server [500, 500] (rw_start rw_server {1000}) = Some s" "pcs s 500 = (EW, 0)"
    by (simp add: rw_start_def rw_server_def run_segs[unfolded One_nat_def] next_pc_def after_call_def server_eval fresh_entries)
  have r: "reach (rw_init rw_server {1000} {500}) (rw_step c_server ({1000} \<union> {500})) s"
    by (rule rw_run_reach[OF s(1) _ 0]) simp
  from reader_writer_exclusion[OF two r, of 500 1000] s(2) r show ?thesis by auto
qed

text \<open>
  C8: The exclusion is lost with three processes. Once Initialize has been called, the processes
  that \<^verbatim>\<open>mainp\<close> creates reach, on the server of Monitor.c, a state in which the writer 500 writes while the reader 1000 reads: MonWait of
  the writer returns at once, because the entry queue still points to the list node that was freed
  and is used again for the waiting writer.
\<close>

theorem reader_writer_overlap:
  "\<exists>s. reach (rw_init rw_server (procs_at SR) (procs_at SW)) (rw_step c_server (procs_at SR \<union> procs_at SW)) s \<and>
    pcs s 1000 = (ER, 0) \<and> pcs s 500 = (EW, 0) \<and> pending (rsys s) 1000 = None \<and> pending (rsys s) 500 = None"
proof -
  have P: "procs_at SR = {1000, 1001, 1002}" "procs_at SW = {500, 501}" by (auto simp: procs_at_def mainp_procs_def)
  have 0: "reach (rw_init rw_server (procs_at SR) (procs_at SW)) (rw_step c_server (procs_at SR \<union> procs_at SW))
      (rw_start rw_server {1000, 1001, 1002})"
    unfolding P by (rule reach_init, rule rw_start_init) simp
  obtain s where s: "rw_run c_server [1000, 1000, 500, 501, 1000, 500, 500] (rw_start rw_server {1000, 1001, 1002}) = Some s"
    "pcs s 1000 = (ER, 0)" "pcs s 500 = (EW, 0)" "pending (rsys s) 1000 = None" "pending (rsys s) 500 = None"
    using overlap_run by blast
  from rw_run_reach[OF s(1) _ 0] s show ?thesis unfolding P by auto
qed

text \<open>
  C9: A writer can be forgotten. With one or two processes, all of them writers, on the server of
  Monitor.c, a writer that is blocked in the MonWait of StartWrite stays blocked there in every
  continuation, because StopWrite signals only the readers.
\<close>

theorem writer_starves:
  assumes two: "two_clients W (int numConds) s0" and r: "reach (rw_init s0 {} W) (rw_step c_server W) s"
    and p: "pcs s p = (SW, 2)" "pending (rsys s) p \<noteq> None" and st: "(rw_step c_server W)\<^sup>*\<^sup>* s t"
  shows "pcs t p = (SW, 2) \<and> pending (rsys t) p \<noteq> None"
proof -
  have W: "card W \<le> 2" "-1 \<notin> W" using two by (auto simp: two_clients_def)
  have rel_p: "p \<in> set (a_conds (srv (rsys b)) ! 1) \<longleftrightarrow> pcs u p = (SW, 2) \<and> pending (rsys u) p \<noteq> None" if "rw_rel W u b" for u b
    using that waits_to_write[of W b p] by (auto simp: rw_rel_def)
  from st have "\<exists>b. rw_rel W t b \<and> writer_pcs W b \<and> p \<in> set (a_conds (srv (rsys b)) ! 1)"
  proof induction
    case base
    obtain b where "rw_rel W s b" "writer_pcs W b"
      using rw_rel_reach[of "{}" W s0 s] two r writers_only by auto
    then show ?case using rel_p p by blast
  next
    case (step u v)
    then obtain b where b: "rw_rel W u b" "writer_pcs W b" "p \<in> set (a_conds (srv (rsys b)) ! 1)" by blast
    obtain b' where b': "rw_rel W v b'" "rw_step a_server W b b'" by (rule rw_rel_step[OF b(1) W step(2)])
    have "rw_inv W b" using b(1) by (simp add: rw_rel_def)
    from writers_stuck_step[OF b'(2) this b(2,3)] b'(1) show ?case by blast
  qed
  then show ?thesis using rel_p by blast
qed

theorem writer_starves_witness:
  "\<exists>s. reach (rw_init rw_server {} {500, 501}) (rw_step c_server {500, 501}) s \<and> vars s = \<lparr>numReaders = 0, busyWriting = 0\<rparr> \<and>
    pcs s 500 = (SW, 0) \<and> (\<forall>t. (rw_step c_server {500, 501})\<^sup>*\<^sup>* s t \<longrightarrow> pending (rsys t) 501 \<noteq> None)"
proof -
  have two: "two_clients {500, 501} (int numConds) rw_server" using two_servers[of 500 501] by simp
  have 0: "reach (rw_init rw_server {} {500, 501}) (rw_step c_server {500, 501}) (rw_start rw_server {})"
    by (rule reach_init, rule rw_start_init) simp
  obtain s where s: "rw_run c_server [500, 500, 501, 501, 500, 500, 500] (rw_start rw_server {}) = Some s"
    "vars s = \<lparr>numReaders = 0, busyWriting = 0\<rparr>" "pcs s 500 = (SW, 0)" "pcs s 501 = (SW, 2)" "pending (rsys s) 501 \<noteq> None"
    by (simp add: rw_start_def rw_server_def run_segs[unfolded One_nat_def] next_pc_def after_call_def server_eval fresh_entries)
  have r: "reach (rw_init rw_server {} {500, 501}) (rw_step c_server {500, 501}) s" by (rule rw_run_reach[OF s(1) _ 0]) simp
  from writer_starves[OF two r s(4,5)] r s(2,3) show ?thesis by blast
qed

end
