(* ===== verification/Schat.thy ===== *)
theory Schat
  imports List_Spec
begin

unbundle bit_operations_syntax

text \<open>
  The chat program \<^verbatim>\<open>s-chat.c\<close>: four threads around two message lists and a UDP socket. A
  thread body is one pass of its loop; the semaphores make the list section of a pass atomic.
  What \<^verbatim>\<open>read\<close>, \<^verbatim>\<open>recvfrom\<close> and \<^verbatim>\<open>gettimeofday\<close> deliver is an argument of the
  pass, and so is what \<^verbatim>\<open>malloc\<close> finds in the memory it returns. An array is the list of its bytes, and
  an access beyond its end is a fault. The conversion to network order followed by the copy into the packet is written as
  the big-endian bytes of the word.
\<close>

section \<open>Data\<close>

definition MAXLINE :: nat where "MAXLINE = 1024"

record ChatMessage =
  cm_sec :: "32 word"
  cm_usec :: "32 word"
  cm_msglen :: "16 word"
  cm_msg :: "8 word list"

record chat =
  outgoing_msgs :: "int option"
  incoming_msgs :: "int option"
  chat_pool :: "ChatMessage pool"
  shutdown_flag :: bool

datatype io_result = WouldBlock | IOError | Bytes "8 word list"

datatype 'a outcome = Continue 'a | Stop 'a

section \<open>Byte order\<close>

definition be16 :: "16 word \<Rightarrow> 8 word list" where
  "be16 w = [ucast (drop_bit 8 w), ucast w]"

definition of_be16 :: "8 word list \<Rightarrow> 16 word" where
  "of_be16 bs = push_bit 8 (ucast (bs ! 0)) OR ucast (bs ! 1)"

definition be32 :: "32 word \<Rightarrow> 8 word list" where
  "be32 w = [ucast (drop_bit 24 w), ucast (drop_bit 16 w), ucast (drop_bit 8 w), ucast w]"

definition of_be32 :: "8 word list \<Rightarrow> 32 word" where
  "of_be32 bs = push_bit 24 (ucast (bs ! 0)) OR push_bit 16 (ucast (bs ! 1)) OR
     push_bit 8 (ucast (bs ! 2)) OR ucast (bs ! 3)"

section \<open>Threads\<close>

text \<open>Copies to the start of an array, a store of one byte, and the string that \<^verbatim>\<open>%s\<close> prints.\<close>

definition memcpy_to :: "8 word list \<Rightarrow> 8 word list \<Rightarrow> fault + 8 word list" where
  "memcpy_to a bs = (if length bs \<le> length a then Inr (bs @ drop (length bs) a) else Inl OutOfBounds)"

definition store_at :: "8 word list \<Rightarrow> nat \<Rightarrow> 8 word \<Rightarrow> fault + 8 word list" where
  "store_at a i c = (if i < length a then Inr (a[i := c]) else Inl OutOfBounds)"

definition c_string :: "8 word list \<Rightarrow> fault + 8 word list" where
  "c_string a = (if 0 \<in> set a then Inr (takeWhile (\<lambda>c. c \<noteq> 0) a) else Inl OutOfBounds)"

definition exit_cmd :: "8 word list" where
  "exit_cmd = [0x65, 0x78, 0x69, 0x74]"

text \<open>
  \<^verbatim>\<open>keyboard_input\<close>: \<open>buffer\<close> is the array on its stack before the read and \<open>heap\<close> the array \<^verbatim>\<open>msg\<close> as
  \<^verbatim>\<open>malloc\<close> returns it.
\<close>

definition keyboard_input ::
  "io_result \<Rightarrow> 32 word \<Rightarrow> 32 word \<Rightarrow> 8 word list \<Rightarrow> 8 word list \<Rightarrow> chat \<Rightarrow> fault + chat outcome" where
  "keyboard_input r sec usec buffer heap s =
    (case r of WouldBlock \<Rightarrow> Inr (Continue s)
     | IOError \<Rightarrow> Inr (Stop s)
     | Bytes bs \<Rightarrow>
       if bs = [] then Inr (Stop s)
       else rbind (memcpy_to buffer bs) (\<lambda>buffer.
         rbind (memcpy_to heap (take (length bs) buffer)) (\<lambda>msg.
         let chat_msg = \<lparr>cm_sec = sec, cm_usec = usec, cm_msglen = of_nat (length bs), cm_msg = msg\<rparr> in
         rbind (ListAppend (outgoing_msgs s) (Some chat_msg) (chat_pool s)) (\<lambda>(_, p).
         let s = s\<lparr>chat_pool := p\<rparr> in
         rbind (store_at buffer (length bs) 0) (\<lambda>buffer.
         rbind (c_string buffer) (\<lambda>_.
         if take 4 buffer = exit_cmd then Inr (Stop (s\<lparr>shutdown_flag := True\<rparr>))
         else Inr (Continue s)))))))"

definition pack :: "ChatMessage \<Rightarrow> 8 word list" where
  "pack m = be32 (cm_sec m) @ be32 (cm_usec m) @ be16 (cm_msglen m) @ take (unat (cm_msglen m)) (cm_msg m)"

text \<open>The speaker prints the message when \<^verbatim>\<open>sendto\<close> succeeds.\<close>

definition speaker_thread :: "bool \<Rightarrow> chat \<Rightarrow> fault + (8 word list option \<times> chat)" where
  "speaker_thread sent s =
    rbind (ListCount (outgoing_msgs s) (chat_pool s)) (\<lambda>n.
    if n = 0 then Inr (None, s) else
    rbind (ListFirst (outgoing_msgs s) (chat_pool s)) (\<lambda>(_, p).
    rbind (ListRemove (outgoing_msgs s) p) (\<lambda>(item, p).
    case item of None \<Rightarrow> Inl NullDeref
    | Some chat_msg \<Rightarrow>
        let packet = pack chat_msg in
        rbind (if sent then c_string (cm_msg chat_msg) else Inr []) (\<lambda>_.
        Inr (Some packet, s\<lparr>chat_pool := p\<rparr>)))))"

text \<open>The checks of the listener on a received packet; \<^const>\<open>None\<close> when it is ignored.\<close>

definition unpack :: "8 word list \<Rightarrow> 8 word list \<Rightarrow> (fault + ChatMessage) option" where
  "unpack buffer heap =
    (if length buffer < 10 then None
     else let sec = of_be32 (take 4 buffer); usec = of_be32 (take 4 (drop 4 buffer));
              datalen = of_be16 (take 2 (drop 8 buffer)) in
       if length buffer < 10 + unat datalen then None
       else let datalen = (if MAXLINE < unat datalen then of_nat MAXLINE else datalen) in
         Some (rbind (memcpy_to heap (take (unat datalen) (drop 10 buffer))) (\<lambda>msg.
           Inr \<lparr>cm_sec = sec, cm_usec = usec, cm_msglen = datalen, cm_msg = msg\<rparr>)))"

definition listener_thread :: "io_result \<Rightarrow> 8 word list \<Rightarrow> chat \<Rightarrow> fault + chat" where
  "listener_thread r heap s =
    (case r of WouldBlock \<Rightarrow> Inr s | IOError \<Rightarrow> Inr s
     | Bytes buffer \<Rightarrow> (case unpack buffer heap of None \<Rightarrow> Inr s
       | Some m \<Rightarrow> rbind m (\<lambda>chat_msg.
           rbind (ListAppend (incoming_msgs s) (Some chat_msg) (chat_pool s)) (\<lambda>(_, p).
           Inr (s\<lparr>chat_pool := p\<rparr>)))))"

text \<open>What the display thread prints: the time and the string at \<^verbatim>\<open>msg\<close>.\<close>

definition display_thread :: "chat \<Rightarrow> fault + ((32 word \<times> 32 word \<times> 8 word list) option \<times> chat)" where
  "display_thread s =
    rbind (ListCount (incoming_msgs s) (chat_pool s)) (\<lambda>n.
    if n = 0 then Inr (None, s) else
    rbind (ListFirst (incoming_msgs s) (chat_pool s)) (\<lambda>(_, p).
    rbind (ListRemove (incoming_msgs s) p) (\<lambda>(item, p).
    case item of None \<Rightarrow> Inl NullDeref
    | Some chat_msg \<Rightarrow>
        rbind (c_string (cm_msg chat_msg)) (\<lambda>text.
        Inr (Some (cm_sec chat_msg, cm_usec chat_msg, text), s\<lparr>chat_pool := p\<rparr>)))))"

text \<open>The lists that \<^verbatim>\<open>mainp\<close> creates before the threads start.\<close>

definition chat_init :: "fault + chat" where
  "chat_init = rbind (ListCreate bss_pool) (\<lambda>(o_list, p). rbind (ListCreate p) (\<lambda>(i_list, p).
     Inr \<lparr>outgoing_msgs = o_list, incoming_msgs = i_list, chat_pool = p, shutdown_flag = False\<rparr>))"

text \<open>A UDP receive with a buffer of \<^verbatim>\<open>MAXLINE\<close> bytes: the rest of the packet is cut off.\<close>

definition recvfrom :: "8 word list \<Rightarrow> io_result" where
  "recvfrom datagram = Bytes (take MAXLINE datagram)"

section \<open>Encodings of fixed width\<close>

locale fixed_codec =
  fixes enc :: "'a \<Rightarrow> 'b list" and dec :: "'b list \<Rightarrow> 'a" and n :: nat
  assumes enc_length: "length (enc x) = n" and dec_enc: "dec (enc x) = x"
begin

lemma dec_prefix: "dec (take n (enc x @ ys)) = x"
  by (simp add: enc_length dec_enc)

lemma drop_enc: "drop n (enc x @ ys) = ys"
  by (simp add: enc_length)

lemma enc_inj: "enc x = enc y \<longleftrightarrow> x = y"
  using dec_enc by metis

end

lemma of_be16_be16: "of_be16 (be16 w) = w"
  unfolding of_be16_def be16_def
  by (rule bit_word_eqI) (auto simp: bit_simps)

lemma of_be32_be32: "of_be32 (be32 w) = w"
proof (rule bit_word_eqI)
  fix n assume "n < LENGTH(32)"
  then consider "n < 8" | "8 \<le> n" "n < 16" | "16 \<le> n" "n < 24" | "24 \<le> n" "n < 32" by fastforce
  then show "bit (of_be32 (be32 w)) n = bit w n"
    by cases (auto simp: of_be32_def be32_def bit_simps)
qed

interpretation net16: fixed_codec be16 of_be16 2
  by unfold_locales (simp_all add: of_be16_be16, simp add: be16_def)

interpretation net32: fixed_codec be32 of_be32 4
  by unfold_locales (simp_all add: of_be32_be32, simp add: be32_def)

section \<open>Packets\<close>

lemma pack_header:
  "of_be32 (take 4 (pack m)) = cm_sec m" "of_be32 (take 4 (drop 4 (pack m))) = cm_usec m"
  "of_be16 (take 2 (drop 8 (pack m))) = cm_msglen m"
  "drop 10 (pack m) = take (unat (cm_msglen m)) (cm_msg m)"
  by (simp_all add: pack_def net32.enc_length net16.enc_length net32.dec_enc net16.dec_enc)

lemma pack_length: "unat (cm_msglen m) \<le> length (cm_msg m) \<Longrightarrow> length (pack m) = 10 + unat (cm_msglen m)"
  by (simp add: pack_def net32.enc_length net16.enc_length)

lemma of_nat_len16: "n \<le> MAXLINE \<Longrightarrow> unat (of_nat n :: 16 word) = n"
  by (simp add: unat_of_nat MAXLINE_def)

text \<open>The message that carries \<open>line\<close> in an array that held \<open>heap\<close>.\<close>

definition message :: "32 word \<Rightarrow> 32 word \<Rightarrow> 8 word list \<Rightarrow> 8 word list \<Rightarrow> ChatMessage" where
  "message sec usec line heap =
    \<lparr>cm_sec = sec, cm_usec = usec, cm_msglen = of_nat (length line), cm_msg = line @ drop (length line) heap\<rparr>"

lemma unpack_pack:
  assumes "length line + 10 \<le> MAXLINE" "length heap = MAXLINE" "length heap' = MAXLINE"
  shows "unpack (take MAXLINE (pack (message sec usec line heap))) heap' = Some (Inr (message sec usec line heap'))"
proof -
  let ?m = "message sec usec line heap"
  have u: "unat (cm_msglen ?m) = length line" using assms(1) by (simp add: message_def of_nat_len16)
  then have l: "length (pack ?m) = 10 + length line" using pack_length[of ?m] by (simp add: message_def)
  then have "take MAXLINE (pack ?m) = pack ?m" using assms(1) by simp
  then show ?thesis
    using assms u l pack_header[of ?m] by (simp add: unpack_def Let_def memcpy_to_def message_def)
qed

lemma unpack_pack_cut:
  assumes "length line \<le> MAXLINE" "MAXLINE < length line + 10"
  shows "unpack (take MAXLINE (pack (message sec usec line heap))) heap' = None"
proof -
  let ?m = "message sec usec line heap"
  have u: "unat (cm_msglen ?m) = length line" using assms(1) by (simp add: message_def of_nat_len16)
  then have l: "length (pack ?m) = 10 + length line" using pack_length[of ?m] by (simp add: message_def)
  have "take 2 (drop 8 (take MAXLINE (pack ?m))) = take 2 (drop 8 (pack ?m))"
    by (simp add: take_drop MAXLINE_def min_def)
  then show ?thesis using l assms u pack_header(3)[of ?m] by (simp add: unpack_def Let_def)
qed

lemma shown:
  assumes "0 \<notin> set line" "0 \<in> set (drop (length line) heap)"
  shows "c_string (cm_msg (message sec usec line heap)) = Inr (line @ takeWhile (\<lambda>c. c \<noteq> 0) (drop (length line) heap))"
  using assms by (auto simp: c_string_def message_def takeWhile_append2 takeWhile_append)

section \<open>Properties\<close>

definition chat_rep :: "int set \<Rightarrow> (int \<Rightarrow> ChatMessage list) \<Rightarrow> nat \<Rightarrow> int \<Rightarrow> int \<Rightarrow> chat \<Rightarrow> bool" where
  "chat_rep A Q k o_list i_list s \<longleftrightarrow> outgoing_msgs s = Some o_list \<and> incoming_msgs s = Some i_list \<and>
     o_list \<in> A \<and> i_list \<in> A \<and> o_list \<noteq> i_list \<and> pool_rep A Q k (chat_pool s)"

lemma chat_init_rep:
  "\<exists>s. chat_init = Inr s \<and> chat_rep {1, 0} (\<lambda>_. []) (Suc (Suc (length [2..MAX_NODES - 1]))) 0 1 s"
proof -
  obtain p where p: "ListCreate (bss_pool :: ChatMessage pool) = Inr (Some 0, p)"
    "pool_ok {0} [1..MAX_LISTS - 1] (0 # 1 # [2..MAX_NODES - 1]) (\<lambda>_. []) (\<lambda>_. []) p"
    using boot_list by blast
  have "[1..MAX_LISTS - 1] = 1 # [2..MAX_LISTS - 1]"
    using upto.simps[of 1 "MAX_LISTS - 1"] by (simp add: MAX_LISTS_def)
  with p(2) have "pool_ok {0} (1 # [2..MAX_LISTS - 1]) (0 # 1 # [2..MAX_NODES - 1]) (\<lambda>_. []) (\<lambda>_. []) p"
    by simp
  from ListCreate_empty[OF this] obtain p' where p': "ListCreate p = Inr (Some 1, p')"
    "pool_ok {1, 0} [2..MAX_LISTS - 1] (0 # 1 # [2..MAX_NODES - 1]) (\<lambda>_. []) (\<lambda>_. []) p'"
    by auto
  from p'(2) have "pool_rep {1, 0} (\<lambda>_. []) (length (0 # 1 # [2..MAX_NODES - 1])) p'"
    unfolding pool_rep_def by blast
  with p(1) p'(1) show ?thesis by (auto simp: chat_init_def chat_rep_def)
qed

lemma exit_prefix: "take 4 (bs @ 0 # xs) = exit_cmd \<longleftrightarrow> take 4 bs = exit_cmd"
proof (cases "4 \<le> length bs")
  case False
  have "exit_cmd ! length bs \<noteq> 0" using False by (auto simp: exit_cmd_def nth_Cons' not_le)
  moreover have "take 4 (bs @ 0 # xs) ! length bs = 0" using False by (cases "4 - length bs") (auto simp: nth_append)
  ultimately show ?thesis using False by (auto simp: exit_cmd_def dest: arg_cong[where f = length])
qed simp

lemma keyboard_effect:
  assumes rep: "chat_rep A Q k ol il s" and len: "bs \<noteq> []" "length bs \<le> MAXLINE" "length buffer = MAXLINE" "length heap = MAXLINE"
  shows "if length bs = MAXLINE then keyboard_input (Bytes bs) sec usec buffer heap s = Inl OutOfBounds
    else \<exists>s'. keyboard_input (Bytes bs) sec usec buffer heap s = Inr (if take 4 bs = exit_cmd then Stop (s'\<lparr>shutdown_flag := True\<rparr>) else Continue s') \<and>
      chat_rep A (if k = 0 then Q else Q(ol := Q ol @ [message sec usec bs heap])) (k - 1) ol il s'"
proof -
  let ?m = "message sec usec bs heap"
  obtain n p where p: "ListAppend (Some ol) (Some ?m) (chat_pool s) = Inr (n, p)"
    "pool_rep A (if k = 0 then Q else Q(ol := Q ol @ [?m])) (k - 1) p"
    using rep lq.append_full[of A Q "chat_pool s" ol ?m] lq.append_rep[of A Q "k - 1" "chat_pool s" ol ?m]
    by (cases k) (auto simp: chat_rep_def)
  let ?b = "bs @ drop (length bs) buffer"
  have run: "keyboard_input (Bytes bs) sec usec buffer heap s =
    rbind (store_at ?b (length bs) 0) (\<lambda>b. rbind (c_string b) (\<lambda>_.
      if take 4 b = exit_cmd then Inr (Stop (s\<lparr>chat_pool := p, shutdown_flag := True\<rparr>)) else Inr (Continue (s\<lparr>chat_pool := p\<rparr>))))"
    using rep len p(1) by (simp add: keyboard_input_def memcpy_to_def Let_def chat_rep_def message_def[symmetric])
  have b: "store_at ?b (length bs) 0 = Inr (bs @ 0 # drop (Suc (length bs)) buffer)" if "length bs < MAXLINE"
    using that len by (simp add: store_at_def list_update_append) (metis Cons_nth_drop_Suc list_update_code(2))
  show ?thesis
  proof (cases "length bs = MAXLINE")
    case True
    then show ?thesis using run len by (simp add: store_at_def)
  next
    case False
    then have "length bs < MAXLINE" using len by simp
    then have "keyboard_input (Bytes bs) sec usec buffer heap s =
        Inr (if take 4 bs = exit_cmd then Stop (s\<lparr>chat_pool := p, shutdown_flag := True\<rparr>) else Continue (s\<lparr>chat_pool := p\<rparr>))"
      unfolding run b[OF \<open>length bs < MAXLINE\<close>] by (simp add: exit_prefix c_string_def del: take_append)
    then show ?thesis
      using False p rep by (auto simp: chat_rep_def intro!: exI[of _ "s\<lparr>chat_pool := p\<rparr>"])
  qed
qed

lemma speaker_sends:
  assumes rep: "chat_rep A Q k ol il s" and one: "Q ol = [m]" and p: "sent \<Longrightarrow> ok (c_string (cm_msg m))"
  shows "\<exists>s'. speaker_thread sent s = Inr (Some (pack m), s') \<and> chat_rep A (Q(ol := [])) (Suc k) ol il s'"
proof -
  obtain p1 p where p: "ListFirst (Some ol) (chat_pool s) = Inr (Some m, p1)"
    "ListRemove (Some ol) p1 = Inr (Some m, p)" "pool_rep A (Q(ol := [])) (Suc k) p"
    using lq.take_rep[of A Q k "chat_pool s" ol m] rep one by (auto simp: chat_rep_def)
  moreover have "ListCount (Some ol) (chat_pool s) = Inr 1"
    using lq.count_rep[of A Q k "chat_pool s" ol] rep one by (simp add: chat_rep_def)
  ultimately show ?thesis
    using rep assms(3) by (auto simp: speaker_thread_def chat_rep_def Let_def ok_iff)
qed

lemma listener_queues:
  assumes rep: "chat_rep A Q (Suc k) ol il s" and u: "unpack bs heap = Some (Inr m)"
  shows "\<exists>s'. listener_thread (Bytes bs) heap s = Inr s' \<and> chat_rep A (Q(il := Q il @ [m])) k ol il s'"
proof -
  obtain p where "ListAppend (Some il) (Some m) (chat_pool s) = Inr (0, p)"
    "pool_rep A (Q(il := Q il @ [m])) k p"
    using lq.append_rep[of A Q k "chat_pool s" il m] rep by (auto simp: chat_rep_def)
  with rep u show ?thesis by (auto simp: listener_thread_def chat_rep_def)
qed

lemma display_shows:
  assumes rep: "chat_rep A Q k ol il s" and one: "Q il = [m]" and p: "c_string (cm_msg m) = Inr text"
  shows "\<exists>s'. display_thread s = Inr (Some (cm_sec m, cm_usec m, text), s') \<and> chat_rep A (Q(il := [])) (Suc k) ol il s'"
proof -
  obtain p1 p where "ListFirst (Some il) (chat_pool s) = Inr (Some m, p1)"
    "ListRemove (Some il) p1 = Inr (Some m, p)" "pool_rep A (Q(il := [])) (Suc k) p"
    using lq.take_rep[of A Q k "chat_pool s" il m] rep one by (auto simp: chat_rep_def)
  moreover have "ListCount (Some il) (chat_pool s) = Inr 1"
    using lq.count_rep[of A Q k "chat_pool s" il] rep one by (simp add: chat_rep_def)
  ultimately show ?thesis using rep assms(3) by (auto simp: display_thread_def chat_rep_def)
qed

text \<open>
  C10: A line of at most 1014 bytes without a zero byte, typed while no earlier line waits to be sent or
  shown, passes through the four threads to the screen of the other side: the keyboard thread queues
  it, the speaker sends one packet, the listener queues the message, and the display thread prints
  the time of the sender and the line, followed by the bytes that malloc left behind the message, up
  to the first zero; such a zero must be there on both sides.
\<close>

theorem chat_delivers:
  assumes s: "chat_rep A Q (Suc k) ol il s" "Q ol = []" and r: "chat_rep A' Q' (Suc k') ol' il' r" "Q' il' = []"
    and line: "line \<noteq> []" "length line + 10 \<le> MAXLINE" "0 \<notin> set line"
    and arrays: "length buffer = MAXLINE" "length heap = MAXLINE" "length heap' = MAXLINE"
    and zero: "0 \<in> set (drop (length line) heap)" "0 \<in> set (drop (length line) heap')"
  shows "\<exists>s1 x s2 packet r1 r2. keyboard_input (Bytes line) sec usec buffer heap s = Inr x \<and> x \<in> {Continue s1, Stop s1} \<and>
    speaker_thread sent s1 = Inr (Some packet, s2) \<and> listener_thread (recvfrom packet) heap' r = Inr r1 \<and>
    display_thread r1 = Inr (Some (sec, usec, line @ takeWhile (\<lambda>c. c \<noteq> 0) (drop (length line) heap')), r2) \<and>
    chat_rep A Q (Suc k) ol il s2 \<and> chat_rep A' Q' (Suc k') ol' il' r2"
proof -
  let ?m = "message sec usec line heap" and ?m' = "message sec usec line heap'"
  have small: "length line \<noteq> MAXLINE" "length line \<le> MAXLINE" using line(2) by auto
  obtain s1 x where s1: "keyboard_input (Bytes line) sec usec buffer heap s = Inr x" "x \<in> {Continue s1, Stop s1}"
    "chat_rep A (Q(ol := [?m])) k ol il s1"
    using keyboard_effect[OF s(1) line(1) small(2) arrays(1,2), of sec usec] small(1) s(2)
    by (auto split: if_splits simp: chat_rep_def)
  have Q: "Q(ol := []) = Q" "Q'(il' := []) = Q'" using s(2) r(2) by auto
  obtain s2 where s2: "speaker_thread sent s1 = Inr (Some (pack ?m), s2)" "chat_rep A Q (Suc k) ol il s2"
    using speaker_sends[OF s1(3), of ?m sent] shown[OF line(3) zero(1), of sec usec] Q(1) by (auto simp: ok_iff)
  obtain r1 where r1: "listener_thread (recvfrom (pack ?m)) heap' r = Inr r1" "chat_rep A' (Q'(il' := [?m'])) k' ol' il' r1"
    using listener_queues[OF r(1) unpack_pack[OF line(2) arrays(2,3), of sec usec]] r(2) by (auto simp: recvfrom_def)
  obtain r2 where "display_thread r1 = Inr (Some (sec, usec, line @ takeWhile (\<lambda>c. c \<noteq> 0) (drop (length line) heap')), r2)"
    "chat_rep A' Q' (Suc k') ol' il' r2"
    using display_shows[OF r1(2) _ shown[OF line(3) zero(2), of sec usec]] Q(2) by (auto simp: message_def)
  with s1 s2 r1 show ?thesis by blast
qed

definition clean :: "8 word list" where
  "clean = replicate MAXLINE 0"

theorem chat_delivers_witness:
  "\<exists>s s1 s2 packet r1 r2. chat_init = Inr s \<and> keyboard_input (Bytes [104, 105]) 7 9 clean clean s = Inr (Continue s1) \<and>
    speaker_thread True s1 = Inr (Some packet, s2) \<and> listener_thread (recvfrom packet) (104 # 101 # 121 # replicate 1021 0) s = Inr r1 \<and>
    display_thread r1 = Inr (Some (7, 9, [104, 105, 121]), r2)"
proof -
  obtain s where s: "chat_init = Inr s"
    "chat_rep {1, 0} (\<lambda>_. []) (Suc (Suc (length [2..MAX_NODES - 1]))) 0 1 s"
    using chat_init_rep by blast
  have c: "length clean = MAXLINE" "0 \<in> set (drop (Suc (Suc 0)) clean)" by (simp_all add: clean_def MAXLINE_def)
  let ?h = "104 # 101 # 121 # replicate 1021 0 :: 8 word list"
  from chat_delivers[OF s(2) _ s(2), of "[104, 105]" clean clean ?h 7 9 True] c obtain s1 x s2 packet r1 r2 where
    d: "keyboard_input (Bytes [104, 105]) 7 9 clean clean s = Inr x" "x \<in> {Continue s1, Stop s1}"
      "speaker_thread True s1 = Inr (Some packet, s2)" "listener_thread (recvfrom packet) ?h s = Inr r1"
      "display_thread r1 = Inr (Some (7, 9, [104, 105, 121]), r2)"
    by (auto simp: MAXLINE_def)
  have "x = Continue s1"
    using d(1,2) keyboard_effect[OF s(2), of "[104, 105]" clean clean 7 9] c by (auto simp: exit_cmd_def MAXLINE_def)
  with d s(1) show ?thesis by blast
qed

text \<open>
  A longer line never arrives: from 1015 bytes on, the receive buffer cuts the packet, the
  length check of the listener fails, and the peer's lists stay as they were.
\<close>

theorem chat_drops_long:
  assumes "length line \<le> MAXLINE" "MAXLINE < length line + 10"
  shows "listener_thread (recvfrom (pack (message sec usec line heap))) heap' r = Inr r"
  using unpack_pack_cut[OF assms] by (simp add: listener_thread_def recvfrom_def)

text \<open>
  The keyboard thread on a line of up to 1024 bytes. It runs past the end of its buffer exactly
  when the line fills the buffer, because of the terminating zero. A shorter line is queued as one
  message, if a list node is free, and the thread stops and raises the shutdown flag exactly when
  the line starts with "exit".
\<close>

theorem keyboard_overruns:
  assumes "chat_rep A Q k ol il s" "bs \<noteq> []" "length bs \<le> MAXLINE" "length buffer = MAXLINE" "length heap = MAXLINE"
  shows "if length bs = MAXLINE then keyboard_input (Bytes bs) sec usec buffer heap s = Inl OutOfBounds
    else \<exists>s'. keyboard_input (Bytes bs) sec usec buffer heap s = Inr (if take 4 bs = exit_cmd then Stop (s'\<lparr>shutdown_flag := True\<rparr>) else Continue s') \<and>
      chat_rep A (if k = 0 then Q else Q(ol := Q ol @ [message sec usec bs heap])) (k - 1) ol il s'"
  by (rule keyboard_effect[OF assms])

theorem keyboard_overruns_witness:
  "\<exists>s s'. chat_init = Inr s \<and> keyboard_input (Bytes (replicate 1024 120)) 0 0 clean clean s = Inl OutOfBounds \<and>
    keyboard_input (Bytes exit_cmd) 0 0 clean clean s = Inr (Stop (s'\<lparr>shutdown_flag := True\<rparr>))"
proof -
  obtain s where s: "chat_init = Inr s"
    "chat_rep {1, 0} (\<lambda>_. []) (Suc (Suc (length [2..MAX_NODES - 1]))) 0 1 s"
    using chat_init_rep by blast
  have c: "length clean = MAXLINE" by (simp add: clean_def)
  have "keyboard_input (Bytes (replicate 1024 120)) 0 0 clean clean s = Inl OutOfBounds"
    using keyboard_overruns[OF s(2) _ _ c c, of "replicate 1024 120" 0 0] by (simp add: MAXLINE_def)
  moreover have "\<exists>s'. keyboard_input (Bytes exit_cmd) 0 0 clean clean s = Inr (Stop (s'\<lparr>shutdown_flag := True\<rparr>))"
    using keyboard_overruns[OF s(2) _ _ c c, of exit_cmd 0 0] by (auto simp: MAXLINE_def exit_cmd_def)
  ultimately show ?thesis using s(1) by blast
qed

end
