(* ===== verification/Uthread.thy ===== *)
theory Uthread
  imports Prelude
begin

text \<open>
  The user-level threads of \<^verbatim>\<open>user/uthread.c\<close>. \<open>all_thread\<close> is a list of four entries,
  \<open>current_thread\<close> an index. \<open>cpu\<close> gives the registers that a function call preserves, \<^verbatim>\<open>ra\<close> and
  \<^verbatim>\<open>sp\<close> included; the others a compiler saves around the call of \<^verbatim>\<open>thread_switch\<close>. A \<^verbatim>\<open>struct regi\<close> is the
  words at its byte offsets, and \<^verbatim>\<open>thread_switch\<close> runs the instructions of \<^verbatim>\<open>uthread_switch.S\<close> one by one. The stack of thread \<open>i\<close> starts at \<open>base + i * sizeof(struct thread)\<close>.
\<close>

section \<open>Model\<close>

definition FREE :: int where "FREE = 0"

definition RUNNING :: int where "RUNNING = 1"

definition RUNNABLE :: int where "RUNNABLE = 2"

definition STACK_SIZE :: nat where "STACK_SIZE = 8192"

definition MAX_THREAD :: nat where "MAX_THREAD = 4"

definition sizeof_thread :: nat where "sizeof_thread = STACK_SIZE + 8 + 14 * 8"

datatype reg = RA | SP | S0 | S1 | S2 | S3 | S4 | S5 | S6 | S7 | S8 | S9 | S10 | S11

type_synonym regi = "nat \<Rightarrow> 64 word"

text \<open>The byte offsets of the two fields that C code writes.\<close>

definition regi_ra :: nat where "regi_ra = 0"

definition regi_sp :: nat where "regi_sp = 8"

record thread =
  t_state :: int
  registers :: regi

record uthreads =
  all_thread :: "thread list"
  current_thread :: nat
  cpu :: "reg \<Rightarrow> 64 word"

definition zero_regi :: regi where
  "zero_regi = (\<lambda>_. 0)"

datatype sched_result = Scheduled uthreads | Exited int

definition thread_at :: "nat \<Rightarrow> uthreads \<Rightarrow> thread" where
  "thread_at i s = all_thread s ! i"

definition set_state :: "nat \<Rightarrow> int \<Rightarrow> uthreads \<Rightarrow> uthreads" where
  "set_state i x s = s\<lparr>all_thread := (all_thread s)[i := (thread_at i s)\<lparr>t_state := x\<rparr>]\<rparr>"

definition uthread_bss :: "(reg \<Rightarrow> 64 word) \<Rightarrow> uthreads" where
  "uthread_bss r = \<lparr>all_thread = replicate MAX_THREAD \<lparr>t_state = FREE, registers = zero_regi\<rparr>,
     current_thread = 0, cpu = r\<rparr>"

definition thread_init :: "uthreads \<Rightarrow> uthreads" where
  "thread_init s = s\<lparr>current_thread := 0,
     all_thread := (all_thread s)[0 := \<lparr>t_state = RUNNING, registers = zero_regi\<rparr>]\<rparr>"

text \<open>
  \<^verbatim>\<open>thread_switch\<close> stores the registers at the addresses relative to its first argument, the
  \<^verbatim>\<open>struct regi\<close> of thread \<open>t\<close>, and loads them relative to its second, that of thread \<open>n\<close>.
\<close>

datatype instr = Sd reg nat | Ld reg nat

definition switch_code :: "instr list" where
  "switch_code =
    [Sd RA 0, Sd SP 8, Sd S0 16, Sd S1 24, Sd S2 32, Sd S3 40, Sd S4 48, Sd S5 56, Sd S6 64, Sd S7 72,
     Sd S8 80, Sd S9 88, Sd S10 96, Sd S11 104,
     Ld RA 0, Ld SP 8, Ld S0 16, Ld S1 24, Ld S2 32, Ld S3 40, Ld S4 48, Ld S5 56, Ld S6 64, Ld S7 72,
     Ld S8 80, Ld S9 88, Ld S10 96, Ld S11 104]"

fun exec_instr :: "nat \<Rightarrow> nat \<Rightarrow> instr \<Rightarrow> uthreads \<Rightarrow> uthreads" where
  "exec_instr t n (Sd r off) s =
     s\<lparr>all_thread := (all_thread s)[t := (thread_at t s)\<lparr>registers := (registers (thread_at t s))(off := cpu s r)\<rparr>]\<rparr>"
| "exec_instr t n (Ld r off) s = s\<lparr>cpu := (cpu s)(r := registers (thread_at n s) off)\<rparr>"

definition thread_switch :: "nat \<Rightarrow> nat \<Rightarrow> uthreads \<Rightarrow> uthreads" where
  "thread_switch t n s = fold (exec_instr t n) switch_code s"

text \<open>The search loop: \<open>i\<close> iterations left, \<open>t\<close> the candidate, wrapping at the end of the table.\<close>

fun find_runnable :: "nat \<Rightarrow> nat \<Rightarrow> thread list \<Rightarrow> nat option" where
  "find_runnable 0 t ts = None"
| "find_runnable (Suc i) t ts =
     (let t = (if MAX_THREAD \<le> t then 0 else t) in
      if t_state (ts ! t) = RUNNABLE then Some t else find_runnable i (t + 1) ts)"

definition thread_schedule :: "uthreads \<Rightarrow> sched_result" where
  "thread_schedule s =
    (case find_runnable MAX_THREAD (current_thread s + 1) (all_thread s) of
       None \<Rightarrow> Exited (-1)
     | Some next_thread \<Rightarrow>
         if current_thread s \<noteq> next_thread then
           let s = set_state next_thread RUNNING s; t = current_thread s in
           Scheduled (thread_switch t next_thread (s\<lparr>current_thread := next_thread\<rparr>))
         else Scheduled s)"

definition thread_create :: "64 word \<Rightarrow> 64 word \<Rightarrow> uthreads \<Rightarrow> fault + uthreads" where
  "thread_create base func s =
    (case first_index (\<lambda>t. t_state t = FREE) (all_thread s) of
       None \<Rightarrow> Inl OutOfBounds
     | Some t \<Rightarrow> Inr (s\<lparr>all_thread := (all_thread s)[t := (thread_at t s)\<lparr>t_state := RUNNABLE,
         registers := (registers (thread_at t s))(
           regi_sp := base + of_nat (t * sizeof_thread + (STACK_SIZE - 1)), regi_ra := func)\<rparr>]\<rparr>))"

definition thread_yield :: "uthreads \<Rightarrow> sched_result" where
  "thread_yield s = thread_schedule (set_state (current_thread s) RUNNABLE s)"

definition thread_exit :: "uthreads \<Rightarrow> sched_result" where
  "thread_exit s = thread_schedule (set_state (current_thread s) FREE s)"

text \<open>Between two calls the running thread changes the registers it likes.\<close>

definition compute :: "(reg \<Rightarrow> 64 word) \<Rightarrow> uthreads \<Rightarrow> uthreads" where
  "compute r s = s\<lparr>cpu := r\<rparr>"

text \<open>The thread that runs after the given number of yields.\<close>

fun yields :: "nat \<Rightarrow> uthreads \<Rightarrow> sched_result" where
  "yields 0 s = Scheduled s"
| "yields (Suc k) s = (case thread_yield s of Scheduled s \<Rightarrow> yields k s | Exited e \<Rightarrow> Exited e)"

section \<open>Round robin\<close>

definition ok_threads :: "uthreads \<Rightarrow> bool" where
  "ok_threads s \<longleftrightarrow> length (all_thread s) = MAX_THREAD \<and> current_thread s < MAX_THREAD"

lemmas state_defs = FREE_def RUNNING_def RUNNABLE_def

lemma state_distinct [simp]: "FREE \<noteq> RUNNABLE" "RUNNING \<noteq> RUNNABLE" "FREE \<noteq> RUNNING"
    "RUNNABLE \<noteq> FREE" "RUNNABLE \<noteq> RUNNING" "RUNNING \<noteq> FREE"
  by (simp_all add: state_defs)

lemma thread_at_set [simp]:
  "thread_at i (set_state j x s) = (if i = j \<and> j < length (all_thread s) then (thread_at j s)\<lparr>t_state := x\<rparr> else thread_at i s)"
  "length (all_thread (set_state j x s)) = length (all_thread s)"
  "current_thread (set_state j x s) = current_thread s" "cpu (set_state j x s) = cpu s"
  by (auto simp: thread_at_def set_state_def nth_list_update list_update_beyond)

lemma find_runnable_Some:
  assumes "find_runnable k t ts = Some n" "t \<le> MAX_THREAD"
  shows "\<exists>j < k. n = (t + j) mod MAX_THREAD \<and> t_state (ts ! n) = RUNNABLE \<and>
    (\<forall>i < j. t_state (ts ! ((t + i) mod MAX_THREAD)) \<noteq> RUNNABLE)"
  using assms
proof (induction k t ts arbitrary: n rule: find_runnable.induct)
  case (2 i t ts)
  define u where "u = (if MAX_THREAD \<le> t then 0 else t)"
  have u: "u = t mod MAX_THREAD" "u < MAX_THREAD"
    using 2(3) by (auto simp: u_def MAX_THREAD_def)
  show ?case
  proof (cases "t_state (ts ! u) = RUNNABLE")
    case True
    then have "n = u" using 2(2) by (simp add: u_def[symmetric] Let_def)
    with True u show ?thesis by (intro exI[of _ 0]) simp
  next
    case False
    then have f: "find_runnable i (u + 1) ts = Some n" using 2(2) by (simp add: u_def[symmetric] Let_def)
    from 2(1)[OF u_def False f] u obtain j where j: "j < i" "n = (u + 1 + j) mod MAX_THREAD"
      "t_state (ts ! n) = RUNNABLE" "\<forall>i < j. t_state (ts ! ((u + 1 + i) mod MAX_THREAD)) \<noteq> RUNNABLE"
      by auto
    have shift: "(u + 1 + x) mod MAX_THREAD = (t + Suc x) mod MAX_THREAD" for x
      using u(1) by (metis add.assoc add_Suc_right mod_add_left_eq plus_1_eq_Suc)
    have "t_state (ts ! ((t + x) mod MAX_THREAD)) \<noteq> RUNNABLE" if "x < Suc j" for x
      using that j(4) False u(1) shift by (cases x) auto
    with j shift show ?thesis by (intro exI[of _ "Suc j"]) auto
  qed
qed simp

lemma find_runnable_None:
  assumes "find_runnable k t ts = None" "t \<le> MAX_THREAD" "j < k"
  shows "t_state (ts ! ((t + j) mod MAX_THREAD)) \<noteq> RUNNABLE"
  using assms
proof (induction k t ts arbitrary: j rule: find_runnable.induct)
  case (2 i t ts)
  define u where "u = (if MAX_THREAD \<le> t then 0 else t)"
  have u: "u = t mod MAX_THREAD" "u < MAX_THREAD"
    using 2(3) by (auto simp: u_def MAX_THREAD_def)
  have f: "t_state (ts ! u) \<noteq> RUNNABLE" "find_runnable i (u + 1) ts = None"
    using 2(2) by (auto simp: u_def[symmetric] Let_def split: if_splits)
  show ?case
  proof (cases j)
    case 0
    with f u show ?thesis by simp
  next
    case (Suc x)
    have "(u + 1 + x) mod MAX_THREAD = (t + Suc x) mod MAX_THREAD"
      using u(1) by (metis add.assoc add_Suc_right mod_add_left_eq plus_1_eq_Suc)
    with 2(1)[OF u_def f(1) f(2), of x] Suc 2(4) u(2) show ?thesis by simp
  qed
qed simp

text \<open>How many table entries lie between the running thread and thread \<open>t\<close>, in search order.\<close>

definition dist :: "nat \<Rightarrow> nat \<Rightarrow> nat" where
  "dist c t = (t + 3 - c) mod 4"

lemma dist_step:
  assumes "n = (c + 1 + j) mod 4" "t = (c + 1 + j0) mod 4" "j < j0" "j0 < 4" "c < (4 :: nat)"
  shows "dist n t < dist c t"
proof -
  have "c \<in> {0, 1, 2, 3}" "j0 \<in> {1, 2, 3}" "j \<in> {0, 1, 2}" using assms by auto
  with assms show ?thesis by (auto simp: dist_def)
qed

lemma dist_offset: "c < 4 \<Longrightarrow> t < 4 \<Longrightarrow> t = (c + 1 + dist c t) mod 4 \<and> dist c t < 4"
proof -
  assume "c < 4" "t < 4"
  then have "c \<in> {0, 1, 2, 3}" "t \<in> {0, 1, 2, 3}" by auto
  then show ?thesis by (auto simp: dist_def)
qed

lemma schedule_picks:
  assumes ok: "ok_threads s" and t: "t < MAX_THREAD" "t_state (thread_at t s) = RUNNABLE"
  shows "\<exists>n. find_runnable MAX_THREAD (current_thread s + 1) (all_thread s) = Some n \<and> n < MAX_THREAD \<and>
    t_state (thread_at n s) = RUNNABLE \<and> (n = t \<or> dist n t < dist (current_thread s) t)"
proof -
  let ?c = "current_thread s" let ?j = "dist ?c t"
  have c: "?c < 4" "t < 4" using ok t by (auto simp: ok_threads_def MAX_THREAD_def)
  note off = dist_offset[OF c]
  have run: "t_state (all_thread s ! ((?c + 1 + ?j) mod MAX_THREAD)) = RUNNABLE"
    using t(2) off by (simp add: thread_at_def MAX_THREAD_def)
  have le: "?c + 1 \<le> MAX_THREAD" using c by (simp add: MAX_THREAD_def)
  obtain n where n: "find_runnable MAX_THREAD (?c + 1) (all_thread s) = Some n"
    using find_runnable_None[OF _ le, of MAX_THREAD "all_thread s" ?j] run off
    by (cases "find_runnable MAX_THREAD (?c + 1) (all_thread s)") (auto simp: MAX_THREAD_def)
  from find_runnable_Some[OF n le] obtain j where j: "j < 4" "n = (?c + 1 + j) mod 4"
    "t_state (all_thread s ! n) = RUNNABLE"
    "\<forall>i < j. t_state (all_thread s ! ((?c + 1 + i) mod 4)) \<noteq> RUNNABLE"
    by (auto simp: MAX_THREAD_def)
  have "j \<le> ?j" using j(4) run by (force simp: MAX_THREAD_def not_le[symmetric])
  then have "n = t \<or> dist n t < dist ?c t"
    using dist_step[OF j(2) conjunct1[OF off]] off j c by (cases "j = ?j") auto
  with n j show ?thesis by (simp add: thread_at_def MAX_THREAD_def)
qed

text \<open>The struct that holds the registers \<open>c\<close>, and the registers that a struct holds.\<close>

fun reg_off :: "reg \<Rightarrow> nat" where
  "reg_off RA = 0" | "reg_off SP = 8" | "reg_off S0 = 16" | "reg_off S1 = 24" | "reg_off S2 = 32" | "reg_off S3 = 40"
| "reg_off S4 = 48" | "reg_off S5 = 56" | "reg_off S6 = 64" | "reg_off S7 = 72" | "reg_off S8 = 80" | "reg_off S9 = 88"
| "reg_off S10 = 96" | "reg_off S11 = 104"

definition holds :: "regi \<Rightarrow> (reg \<Rightarrow> 64 word) \<Rightarrow> bool" where
  "holds m c \<longleftrightarrow> (\<forall>r. m (reg_off r) = c r)"

lemma all_regs: "(\<forall>r. P r) \<longleftrightarrow> P RA \<and> P SP \<and> P S0 \<and> P S1 \<and> P S2 \<and> P S3 \<and> P S4 \<and> P S5 \<and> P S6 \<and> P S7 \<and> P S8 \<and> P S9 \<and> P S10 \<and> P S11"
proof
  assume *: "P RA \<and> P SP \<and> P S0 \<and> P S1 \<and> P S2 \<and> P S3 \<and> P S4 \<and> P S5 \<and> P S6 \<and> P S7 \<and> P S8 \<and> P S9 \<and> P S10 \<and> P S11"
  show "\<forall>r. P r"
  proof
    show "P r" for r using * by (cases r) simp_all
  qed
qed simp

definition all_reg :: "reg list" where
  "all_reg = [RA, SP, S0, S1, S2, S3, S4, S5, S6, S7, S8, S9, S10, S11]"

lemma switch_code_eq: "switch_code = map (\<lambda>r. Sd r (reg_off r)) all_reg @ map (\<lambda>r. Ld r (reg_off r)) all_reg"
  by (simp add: switch_code_def all_reg_def)

lemma fold_store:
  "t < length (all_thread s) \<Longrightarrow> fold (exec_instr t n) (map (\<lambda>r. Sd r (reg_off r)) rs) s =
    s\<lparr>all_thread := (all_thread s)[t := (thread_at t s)\<lparr>registers := fold (\<lambda>r m. m(reg_off r := cpu s r)) rs (registers (thread_at t s))\<rparr>]\<rparr>"
  by (induction rs arbitrary: s) (simp_all add: thread_at_def)

lemma fold_load:
  "fold (exec_instr t n) (map (\<lambda>r. Ld r (reg_off r)) rs) s =
    s\<lparr>cpu := fold (\<lambda>r c. c(r := registers (thread_at n s) (reg_off r))) rs (cpu s)\<rparr>"
  by (induction rs arbitrary: s) (simp_all add: thread_at_def)

lemma store_holds: "holds (fold (\<lambda>r m. m(reg_off r := c r)) all_reg m) c"
  by (simp add: holds_def all_regs all_reg_def)

lemma load_all: "fold (\<lambda>r c. c(r := m (reg_off r))) all_reg c = (\<lambda>r. m (reg_off r))"
  by (simp add: fun_eq_iff all_regs all_reg_def)

lemma thread_switch_effect:
  assumes t: "t < length (all_thread s)" "n < length (all_thread s)" "t \<noteq> n"
  shows "\<exists>m. holds m (cpu s) \<and> thread_switch t n s =
    s\<lparr>all_thread := (all_thread s)[t := (thread_at t s)\<lparr>registers := m\<rparr>], cpu := (\<lambda>r. registers (thread_at n s) (reg_off r))\<rparr>"
  using t store_holds[of "cpu s" "registers (thread_at t s)"]
  by (intro exI[of _ "fold (\<lambda>r m. m(reg_off r := cpu s r)) all_reg (registers (thread_at t s))"])
    (simp add: thread_switch_def switch_code_eq fold_store fold_load load_all thread_at_def)

lemma schedule_effect:
  assumes ok: "ok_threads s" and n: "find_runnable MAX_THREAD (current_thread s + 1) (all_thread s) = Some n"
    and lt: "n < MAX_THREAD"
  shows "\<exists>s'. thread_schedule s = Scheduled s' \<and> ok_threads s' \<and> current_thread s' = n \<and>
    (\<forall>i < MAX_THREAD. i \<noteq> n \<longrightarrow> t_state (thread_at i s') = t_state (thread_at i s)) \<and>
    (n \<noteq> current_thread s \<longrightarrow> holds (registers (thread_at n s)) (cpu s') \<and>
       holds (registers (thread_at (current_thread s) s')) (cpu s) \<and> t_state (thread_at n s') = RUNNING) \<and>
    (n = current_thread s \<longrightarrow> s' = s) \<and>
    (\<forall>i < MAX_THREAD. i \<noteq> current_thread s \<longrightarrow> registers (thread_at i s') = registers (thread_at i s))"
proof (cases "n = current_thread s")
  case True
  then show ?thesis using n ok by (simp add: thread_schedule_def)
next
  case False
  let ?u = "set_state n RUNNING s\<lparr>current_thread := n\<rparr>"
  let ?s = "thread_switch (current_thread s) n ?u"
  have "thread_schedule s = Scheduled ?s"
    using n False by (simp add: thread_schedule_def Let_def)
  moreover obtain m where "holds m (cpu s)" "?s = ?u\<lparr>all_thread := (all_thread ?u)[current_thread s := (thread_at (current_thread s) ?u)\<lparr>registers := m\<rparr>],
      cpu := (\<lambda>r. registers (thread_at n ?u) (reg_off r))\<rparr>"
    using thread_switch_effect[of "current_thread s" ?u n] ok lt False by (auto simp: ok_threads_def set_state_def)
  ultimately show ?thesis
    using ok lt False
    by (auto simp: ok_threads_def set_state_def thread_at_def nth_list_update holds_def)
qed

lemma yield_step:
  assumes ok: "ok_threads s" and t: "t < MAX_THREAD" "t_state (thread_at t s) = RUNNABLE"
  shows "\<exists>s'. thread_yield s = Scheduled s' \<and> ok_threads s' \<and>
    (current_thread s' = t \<or>
     t_state (thread_at t s') = RUNNABLE \<and> dist (current_thread s') t < dist (current_thread s) t)"
proof -
  let ?s = "set_state (current_thread s) RUNNABLE s"
  have ok': "ok_threads ?s" using ok by (simp add: ok_threads_def)
  have "t_state (thread_at t ?s) = RUNNABLE" using t ok by auto
  from schedule_picks[OF ok' t(1) this] obtain n where
    n: "find_runnable MAX_THREAD (current_thread ?s + 1) (all_thread ?s) = Some n" "n < MAX_THREAD"
      "n = t \<or> dist n t < dist (current_thread s) t" by auto
  from schedule_effect[OF ok' n(1,2)] n(3) t show ?thesis
    by (fastforce simp: thread_yield_def)
qed

lemma yields_reach:
  assumes "ok_threads s" "t < MAX_THREAD" "t_state (thread_at t s) = RUNNABLE" "dist (current_thread s) t \<le> d"
  shows "\<exists>k s'. 0 < k \<and> k \<le> Suc d \<and> yields k s = Scheduled s' \<and> current_thread s' = t"
  using assms
proof (induction d arbitrary: s)
  case 0
  from yield_step[OF 0(1-3)] 0(4) show ?case by (intro exI[of _ 1]) auto
next
  case (Suc d)
  from yield_step[OF Suc.prems(1-3)] obtain s1 where s1: "thread_yield s = Scheduled s1" "ok_threads s1"
    "current_thread s1 = t \<or> t_state (thread_at t s1) = RUNNABLE \<and> dist (current_thread s1) t < dist (current_thread s) t"
    by blast
  show ?case
  proof (cases "current_thread s1 = t")
    case True
    with s1 show ?thesis by (intro exI[of _ 1]) auto
  next
    case False
    with Suc.IH[OF s1(2) Suc.prems(2)] s1(3) Suc.prems(4) obtain k s' where
      "0 < k" "k \<le> Suc d" "yields k s1 = Scheduled s'" "current_thread s' = t" by auto
    with s1(1) show ?thesis by (intro exI[of _ "Suc k"]) auto
  qed
qed

section \<open>Saved contexts\<close>

text \<open>One call of the running thread, or a stretch of its own computation.\<close>

inductive ustep :: "64 word \<Rightarrow> uthreads \<Rightarrow> uthreads \<Rightarrow> bool" for base where
  yield: "thread_yield s = Scheduled t \<Longrightarrow> ustep base s t"
| exit: "thread_exit s = Scheduled t \<Longrightarrow> ustep base s t"
| create: "thread_create base func s = Inr t \<Longrightarrow> ustep base s t"
| run: "ustep base s (compute r s)"

text \<open>Thread \<open>t\<close> left the processor with the registers \<open>c\<close> and has not been touched since.\<close>

definition kept :: "nat \<Rightarrow> (reg \<Rightarrow> 64 word) \<Rightarrow> uthreads \<Rightarrow> bool" where
  "kept t c s \<longleftrightarrow> ok_threads s \<and> (if current_thread s = t then cpu s = c
     else holds (registers (thread_at t s)) c \<and> t_state (thread_at t s) = RUNNABLE)"

lemma holds_unique: "holds m c \<Longrightarrow> holds m d \<Longrightarrow> c = d"
  by (auto simp: holds_def)

lemma scheduledE:
  assumes "ok_threads s" "thread_schedule s = Scheduled s'"
  obtains n where "find_runnable MAX_THREAD (current_thread s + 1) (all_thread s) = Some n" "n < MAX_THREAD"
    "t_state (thread_at n s) = RUNNABLE"
proof -
  obtain n where n: "find_runnable MAX_THREAD (current_thread s + 1) (all_thread s) = Some n"
    using assms(2) by (cases "find_runnable MAX_THREAD (current_thread s + 1) (all_thread s)")
      (auto simp: thread_schedule_def)
  have "current_thread s + 1 \<le> MAX_THREAD" using assms(1) by (simp add: ok_threads_def)
  from find_runnable_Some[OF n this] show thesis using that[OF n] by (auto simp: thread_at_def MAX_THREAD_def)
qed

lemma schedule_kept:
  assumes ok: "ok_threads s" and t: "t < MAX_THREAD" "t \<noteq> current_thread s" "holds (registers (thread_at t s)) c" "t_state (thread_at t s) = RUNNABLE"
    and s': "thread_schedule s = Scheduled s'"
  shows "kept t c s'"
proof -
  obtain n where n: "find_runnable MAX_THREAD (current_thread s + 1) (all_thread s) = Some n" "n < MAX_THREAD"
    by (rule scheduledE[OF ok s'])
  from schedule_effect[OF ok n] s' t show ?thesis
    by (auto simp: kept_def dest: holds_unique)
qed

lemma yield_kept:
  assumes ok: "ok_threads s" and y: "thread_yield s = Scheduled s'"
  shows "kept (current_thread s) (cpu s) s'"
proof -
  let ?s = "set_state (current_thread s) RUNNABLE s"
  have ok': "ok_threads ?s" and c: "current_thread s < MAX_THREAD" "current_thread s < length (all_thread s)"
    using ok by (auto simp: ok_threads_def)
  obtain n where n: "find_runnable MAX_THREAD (current_thread ?s + 1) (all_thread ?s) = Some n" "n < MAX_THREAD"
    by (rule scheduledE[OF ok' y[unfolded thread_yield_def]])
  from schedule_effect[OF ok' n] y c show ?thesis by (auto simp: kept_def thread_yield_def)
qed

lemma ustep_kept:
  assumes "ustep base s s'" "kept t c s" "current_thread s \<noteq> t" "t < MAX_THREAD"
  shows "kept t c s'"
  using assms(1)
proof cases
  case yield
  then show ?thesis
    using assms(2-4) schedule_kept[of "set_state (current_thread s) RUNNABLE s" t c s']
    by (auto simp: thread_yield_def kept_def ok_threads_def)
next
  case exit
  then show ?thesis
    using assms(2-4) schedule_kept[of "set_state (current_thread s) FREE s" t c s']
    by (auto simp: thread_exit_def kept_def ok_threads_def)
next
  case (create func)
  then obtain i where i: "first_index (\<lambda>t. t_state t = FREE) (all_thread s) = Some i"
    by (auto simp: thread_create_def split: option.splits)
  have "i \<noteq> t" using first_index_SomeD(2)[OF i] assms(2,3) by (auto simp: kept_def thread_at_def)
  with create i assms(2,3) show ?thesis
    by (auto simp: thread_create_def kept_def ok_threads_def thread_at_def)
next
  case (run r)
  with assms(2,3) show ?thesis by (simp add: compute_def kept_def ok_threads_def thread_at_def)
qed

section \<open>Properties\<close>

text \<open>
  C11: Scheduling is fair: as long as the running threads keep yielding, a runnable thread runs
  after at most four yields, and no yield ends the program in between.
\<close>

theorem uthread_fair:
  assumes "ok_threads s" "t < MAX_THREAD" "t_state (thread_at t s) = RUNNABLE"
  shows "\<exists>k s'. 0 < k \<and> k \<le> MAX_THREAD \<and> yields k s = Scheduled s' \<and> current_thread s' = t"
proof -
  have "dist (current_thread s) t \<le> 3" by (simp add: dist_def)
  from yields_reach[OF assms this] show ?thesis by (simp add: MAX_THREAD_def)
qed

theorem uthread_fair_witness:
  "\<exists>s k s'. thread_create 4096 80 (thread_init (uthread_bss (\<lambda>_. 0))) = Inr s \<and>
    yields k s = Scheduled s' \<and> current_thread s' = 1"
proof -
  obtain s where s: "thread_create 4096 80 (thread_init (uthread_bss (\<lambda>_. 0))) = Inr s"
    "ok_threads s" "t_state (thread_at 1 s) = RUNNABLE"
    by (simp add: thread_create_def thread_init_def uthread_bss_def MAX_THREAD_def ok_threads_def
        thread_at_def numeral_eq_Suc)
  from uthread_fair[OF s(2) _ s(3)] s(1) show ?thesis by (auto simp: MAX_THREAD_def)
qed

text \<open>
  C12: A thread that yields finds its registers as it left them. Whatever the other threads do
  in the meantime with the processor, by yielding, exiting and creating threads, when the yielding
  thread runs again the processor holds in every register that a call preserves the value it had at
  the yield.
\<close>

theorem uthread_context_restored:
  assumes ok: "ok_threads s" and y: "thread_yield s = Scheduled s1"
    and away: "(\<lambda>u v. ustep base u v \<and> current_thread u \<noteq> current_thread s)\<^sup>*\<^sup>* s1 s2" and again: "current_thread s2 = current_thread s"
  shows "cpu s2 = cpu s"
proof -
  have "current_thread s < MAX_THREAD" using ok by (simp add: ok_threads_def)
  from away have "kept (current_thread s) (cpu s) s2"
  proof induction
    case base
    show ?case by (rule yield_kept[OF ok y])
  next
    case (step u v)
    then show ?case using ustep_kept[of base u v] \<open>current_thread s < MAX_THREAD\<close> by blast
  qed
  then show ?thesis using again by (simp add: kept_def)
qed

definition example_threads :: uthreads where
  "example_threads = (case thread_create 4096 80 (thread_init (uthread_bss (\<lambda>_. 7))) of Inr s \<Rightarrow> s)"

lemma example_ok: "ok_threads example_threads" "current_thread example_threads = 0"
  "t_state (thread_at 1 example_threads) = RUNNABLE" "t_state (thread_at 2 example_threads) = FREE" "t_state (thread_at 3 example_threads) = FREE"
  by (simp_all add: example_threads_def thread_create_def thread_init_def uthread_bss_def MAX_THREAD_def ok_threads_def
        thread_at_def numeral_eq_Suc)

lemma find_two:
  assumes "t_state (ts ! 2) = FREE" "t_state (ts ! 3) = FREE"
  shows "t_state (ts ! 1) = RUNNABLE \<Longrightarrow> find_runnable MAX_THREAD 1 ts = Some 1"
    "t_state (ts ! 0) = RUNNABLE \<Longrightarrow> find_runnable MAX_THREAD 2 ts = Some 0"
  using assms by (simp_all add: MAX_THREAD_def numeral_eq_Suc Let_def)

theorem uthread_context_restored_witness:
  "\<exists>s1 s2. thread_yield example_threads = Scheduled s1 \<and> current_thread s1 = 1 \<and>
    thread_yield (compute (\<lambda>_. 99) s1) = Scheduled s2 \<and> current_thread s2 = 0 \<and> cpu s2 = cpu example_threads"
proof -
  let ?s = "set_state 0 RUNNABLE example_threads"
  have ok: "ok_threads ?s" "0 < length (all_thread example_threads)" using example_ok(1) by (auto simp: ok_threads_def MAX_THREAD_def)
  have "find_runnable MAX_THREAD (current_thread ?s + 1) (all_thread ?s) = Some 1"
    using find_two(1)[of "all_thread ?s"] example_ok by (simp add: thread_at_def set_state_def)
  from schedule_effect[OF ok(1) this] obtain s1 where s1: "thread_yield example_threads = Scheduled s1" "ok_threads s1" "current_thread s1 = 1"
    "\<forall>i < MAX_THREAD. i \<noteq> 1 \<longrightarrow> t_state (thread_at i s1) = t_state (thread_at i ?s)"
    using example_ok(2) by (auto simp: thread_yield_def MAX_THREAD_def)
  let ?u = "compute (\<lambda>_. 99) s1" let ?v = "set_state 1 RUNNABLE ?u"
  have st: "t_state (thread_at 0 ?v) = RUNNABLE" "t_state (thread_at 2 ?v) = FREE" "t_state (thread_at 3 ?v) = FREE" "ok_threads ?v"
    "current_thread ?v = 1"
    using s1 ok example_ok by (auto simp: compute_def thread_at_def set_state_def MAX_THREAD_def ok_threads_def)
  have "find_runnable MAX_THREAD (current_thread ?v + 1) (all_thread ?v) = Some 0"
    using find_two(2)[of "all_thread ?v"] st by (simp add: thread_at_def numeral_2_eq_2)
  from schedule_effect[OF st(4) this] obtain s2 where s2: "thread_yield ?u = Scheduled s2" "current_thread s2 = 0"
    using s1(3) by (auto simp: thread_yield_def MAX_THREAD_def compute_def)
  have "(\<lambda>u v. ustep 4096 u v \<and> current_thread u \<noteq> current_thread example_threads)\<^sup>*\<^sup>* s1 s2"
    using ustep.run[of 4096 s1 "\<lambda>_. 99"] ustep.yield[OF s2(1), of 4096] s1(3) example_ok(2)
    by (intro converse_rtranclp_into_rtranclp[of _ s1 ?u] converse_rtranclp_into_rtranclp[of _ ?u s2]) (auto simp: compute_def)
  from uthread_context_restored[OF example_ok(1) s1(1) this] s1 s2 example_ok(2) show ?thesis by auto
qed

definition main_parked :: "uthreads \<Rightarrow> bool" where
  "main_parked s \<longleftrightarrow> ok_threads s \<and> current_thread s \<noteq> 0 \<and> t_state (thread_at 0 s) = RUNNING"

lemma schedule_parked:
  assumes "ok_threads s" "t_state (thread_at 0 s) = RUNNING" "thread_schedule s = Scheduled t"
  shows "main_parked t"
proof -
  obtain n where n: "find_runnable MAX_THREAD (current_thread s + 1) (all_thread s) = Some n"
    using assms(3) by (cases "find_runnable MAX_THREAD (current_thread s + 1) (all_thread s)")
      (auto simp: thread_schedule_def)
  have "current_thread s + 1 \<le> MAX_THREAD" using assms(1) by (simp add: ok_threads_def)
  from find_runnable_Some[OF n this] have r: "n < MAX_THREAD" "t_state (thread_at n s) = RUNNABLE"
    by (auto simp: thread_at_def MAX_THREAD_def)
  then have "n \<noteq> 0" using assms(2) by (metis state_distinct(2))
  with schedule_effect[OF assms(1) n r(1)] assms(2,3) show ?thesis
    by (auto simp: main_parked_def MAX_THREAD_def)
qed

lemma ustep_parked:
  assumes "ustep base s t" "main_parked s"
  shows "main_parked t"
  using assms(1)
proof cases
  case yield
  then show ?thesis
    using assms(2) schedule_parked[of "set_state (current_thread s) RUNNABLE s" t]
    by (auto simp: thread_yield_def main_parked_def ok_threads_def)
next
  case exit
  then show ?thesis
    using assms(2) schedule_parked[of "set_state (current_thread s) FREE s" t]
    by (auto simp: thread_exit_def main_parked_def ok_threads_def)
next
  case (create func)
  then obtain i where i: "first_index (\<lambda>t. t_state t = FREE) (all_thread s) = Some i"
    by (auto simp: thread_create_def split: option.splits)
  have "i \<noteq> 0" using first_index_SomeD(2)[OF i] assms(2) by (metis main_parked_def state_distinct(3) thread_at_def)
  with create i assms(2) show ?thesis
    by (auto simp: thread_create_def main_parked_def ok_threads_def thread_at_def)
next
  case (run r)
  with assms(2) show ?thesis by (simp add: compute_def main_parked_def ok_threads_def thread_at_def)
qed

interpretation parked: invariant_system main_parked "ustep base" main_parked for base
  by unfold_locales (auto intro: ustep_parked)

text \<open>
  Once the main thread has called thread\_schedule and another thread runs, the main thread
  never runs again: whatever the threads do, it stays RUNNING in the table and is never chosen,
  and when the last other thread exits the program ends with status \<open>-1\<close>.
\<close>

theorem uthread_main_never_resumes:
  assumes "ok_threads s0" "current_thread s0 = 0" "t_state (thread_at 0 s0) = RUNNING"
    and "thread_schedule s0 = Scheduled s" "(ustep base)\<^sup>*\<^sup>* s t"
  shows "current_thread t \<noteq> 0 \<and> t_state (thread_at 0 t) = RUNNING \<and>
    ((\<forall>i < MAX_THREAD. i \<noteq> current_thread t \<longrightarrow> t_state (thread_at i t) \<noteq> RUNNABLE) \<longrightarrow>
      thread_exit t = Exited (-1))"
proof -
  have t: "main_parked t"
    using parked.rtranclp_inv[OF assms(5) schedule_parked[OF assms(1,3,4)]] .
  then have ok: "ok_threads t" by (simp add: main_parked_def)
  have "thread_exit t = Exited (-1)"
    if none: "\<forall>i < MAX_THREAD. i \<noteq> current_thread t \<longrightarrow> t_state (thread_at i t) \<noteq> RUNNABLE"
  proof -
    let ?s = "set_state (current_thread t) FREE t"
    have no: "t_state (thread_at i ?s) \<noteq> RUNNABLE" if "i < MAX_THREAD" for i
      using none ok that by (auto simp: ok_threads_def)
    have le: "current_thread ?s + 1 \<le> MAX_THREAD" using ok by (simp add: ok_threads_def)
    have "find_runnable MAX_THREAD (current_thread ?s + 1) (all_thread ?s) = None"
    proof (rule ccontr)
      assume "find_runnable MAX_THREAD (current_thread ?s + 1) (all_thread ?s) \<noteq> None"
      then obtain n where n: "find_runnable MAX_THREAD (current_thread ?s + 1) (all_thread ?s) = Some n" by blast
      from find_runnable_Some[OF n le] no show False by (auto simp: thread_at_def MAX_THREAD_def)
    qed
    then show ?thesis by (simp add: thread_exit_def thread_schedule_def)
  qed
  with t show ?thesis by (simp add: main_parked_def)
qed

theorem uthread_main_never_resumes_witness:
  "\<exists>s. thread_exit s = Exited (-1) \<and> current_thread s = 1"
proof -
  obtain s0 where s0: "thread_create 4096 80 (thread_init (uthread_bss (\<lambda>_. 0))) = Inr s0"
    "ok_threads s0" "t_state (thread_at 1 s0) = RUNNABLE" "current_thread s0 = 0"
    "t_state (thread_at 0 s0) = RUNNING" "t_state (thread_at 2 s0) = FREE" "t_state (thread_at 3 s0) = FREE"
    by (simp add: thread_create_def thread_init_def uthread_bss_def MAX_THREAD_def ok_threads_def
        thread_at_def numeral_eq_Suc)
  have lt: "(1 :: nat) < MAX_THREAD" by (simp add: MAX_THREAD_def)
  from schedule_picks[OF s0(2) lt s0(3)] s0(4) obtain n where
    n: "find_runnable MAX_THREAD (current_thread s0 + 1) (all_thread s0) = Some n" "n = 1"
    by (auto simp: dist_def)
  from schedule_effect[OF s0(2) n(1)] n(2) lt obtain s where
    s: "thread_schedule s0 = Scheduled s" "current_thread s = 1"
      "\<forall>i < MAX_THREAD. i \<noteq> 1 \<longrightarrow> t_state (thread_at i s) = t_state (thread_at i s0)" by auto
  have "\<forall>i < MAX_THREAD. i \<noteq> current_thread s \<longrightarrow> t_state (thread_at i s) \<noteq> RUNNABLE"
  proof (intro allI impI)
    fix i assume i: "i < MAX_THREAD" "i \<noteq> current_thread s"
    then have "i = 0 \<or> i = 2 \<or> i = 3" using s(2) by (auto simp: MAX_THREAD_def)
    then show "t_state (thread_at i s) \<noteq> RUNNABLE" using s(2,3) s0(5-7) i by auto
  qed
  with uthread_main_never_resumes[OF s0(2,4,5) s(1), of 4096 s] s(2) show ?thesis by blast
qed

end
