(* ===== verification/Spinlock.thy ===== *)
theory Spinlock
  imports Prelude
begin

text \<open>
  The spin locks of \<^verbatim>\<open>kernel/spinlock.c\<close>. A lock, the per-CPU interrupt state and the nesting
  depth of \<^verbatim>\<open>push_off\<close> are explicit. \<^verbatim>\<open>acquire\<close> and \<^verbatim>\<open>release\<close> are cut at
  their atomic instructions, so that CPUs interleave between them.
\<close>

section \<open>Data\<close>

record cpu_state =
  noff :: int
  intena :: bool
  intr :: bool

record spinlock =
  lk_locked :: bool
  lk_cpu :: "nat option"

type_synonym cpus = "nat \<Rightarrow> cpu_state"

definition initlock :: spinlock where
  "initlock = \<lparr>lk_locked = False, lk_cpu = None\<rparr>"

section \<open>Interrupt nesting\<close>

definition push_off :: "cpu_state \<Rightarrow> cpu_state" where
  "push_off c = (let old = intr c; c = c\<lparr>intr := False\<rparr>;
                     c = (if noff c = 0 then c\<lparr>intena := old\<rparr> else c)
                 in c\<lparr>noff := noff c + 1\<rparr>)"

definition pop_off :: "cpu_state \<Rightarrow> fault + cpu_state" where
  "pop_off c =
    (if intr c then Inl (Panic ''pop_off - interruptible'')
     else if noff c < 1 then Inl (Panic ''pop_off'')
     else let c = c\<lparr>noff := noff c - 1\<rparr> in
       Inr (if noff c = 0 \<and> intena c then c\<lparr>intr := True\<rparr> else c))"

definition holding :: "nat \<Rightarrow> spinlock \<Rightarrow> bool" where
  "holding c lk \<longleftrightarrow> lk_locked lk \<and> lk_cpu lk = Some c"

section \<open>Atomic steps\<close>

text \<open>
  Where a CPU is in its use of the lock: outside; spinning on the test-and-set; past it but with
  \<^verbatim>\<open>lk->cpu\<close> unset; in the critical section; past the first store of \<^verbatim>\<open>release\<close>.
\<close>

datatype lock_pc = Out | Spin | Got | Crit | Rel

record lock_sys =
  lock :: spinlock
  cstate :: "nat \<Rightarrow> cpu_state"
  lpc :: "nat \<Rightarrow> lock_pc"

definition acquire_begin :: "nat \<Rightarrow> lock_sys \<Rightarrow> fault + lock_sys" where
  "acquire_begin c s =
    (let s = s\<lparr>cstate := (cstate s)(c := push_off (cstate s c))\<rparr> in
     if holding c (lock s) then Inl (Panic ''acquire'') else Inr (s\<lparr>lpc := (lpc s)(c := Spin)\<rparr>))"

definition test_and_set :: "nat \<Rightarrow> lock_sys \<Rightarrow> lock_sys" where
  "test_and_set c s =
    (if lk_locked (lock s) then s
     else s\<lparr>lock := (lock s)\<lparr>lk_locked := True\<rparr>, lpc := (lpc s)(c := Got)\<rparr>)"

definition acquire_end :: "nat \<Rightarrow> lock_sys \<Rightarrow> lock_sys" where
  "acquire_end c s = s\<lparr>lock := (lock s)\<lparr>lk_cpu := Some c\<rparr>, lpc := (lpc s)(c := Crit)\<rparr>"

definition release_begin :: "nat \<Rightarrow> lock_sys \<Rightarrow> fault + lock_sys" where
  "release_begin c s =
    (if \<not> holding c (lock s) then Inl (Panic ''release'')
     else Inr (s\<lparr>lock := (lock s)\<lparr>lk_cpu := None\<rparr>, lpc := (lpc s)(c := Rel)\<rparr>))"

definition release_end :: "nat \<Rightarrow> lock_sys \<Rightarrow> fault + lock_sys" where
  "release_end c s =
    (let s = s\<lparr>lock := (lock s)\<lparr>lk_locked := False\<rparr>\<rparr> in
     rbind (pop_off (cstate s c)) (\<lambda>cs. Inr (s\<lparr>cstate := (cstate s)(c := cs), lpc := (lpc s)(c := Out)\<rparr>)))"

text \<open>The next step of CPU \<open>c\<close>.\<close>

definition cpu_step :: "nat \<Rightarrow> lock_sys \<Rightarrow> fault + lock_sys" where
  "cpu_step c s = (case lpc s c of Out \<Rightarrow> acquire_begin c s | Spin \<Rightarrow> Inr (test_and_set c s)
     | Got \<Rightarrow> Inr (acquire_end c s) | Crit \<Rightarrow> release_begin c s | Rel \<Rightarrow> release_end c s)"

inductive lock_step :: "lock_sys \<Rightarrow> lock_sys \<Rightarrow> bool" where
  "cpu_step c s = Inr t \<Longrightarrow> lock_step s t"

definition lock_init :: "lock_sys \<Rightarrow> bool" where
  "lock_init s \<longleftrightarrow> lock s = initlock \<and> (\<forall>c. lpc s c = Out \<and> 0 \<le> noff (cstate s c) \<and>
     (0 < noff (cstate s c) \<longrightarrow> \<not> intr (cstate s c)))"

text \<open>\<^verbatim>\<open>acquire\<close> and \<^verbatim>\<open>release\<close> when the lock is free, as their callers see them.\<close>

definition acquire :: "nat \<Rightarrow> lock_sys \<Rightarrow> fault + lock_sys" where
  "acquire c s = rbind (acquire_begin c s) (\<lambda>s.
     if lk_locked (lock s) then Inl (Panic ''spins'') else Inr (acquire_end c (test_and_set c s)))"

definition release :: "nat \<Rightarrow> lock_sys \<Rightarrow> fault + lock_sys" where
  "release c s = rbind (release_begin c s) (release_end c)"

section \<open>Invariant\<close>

definition owning :: "lock_pc \<Rightarrow> bool" where
  "owning p \<longleftrightarrow> p \<in> {Got, Crit, Rel}"

definition linv :: "spinlock \<Rightarrow> (nat \<Rightarrow> cpu_state) \<Rightarrow> (nat \<Rightarrow> lock_pc) \<Rightarrow> bool" where
  "linv lk cs pc \<longleftrightarrow>
     (\<forall>c d. owning (pc c) \<longrightarrow> owning (pc d) \<longrightarrow> c = d) \<and>
     (lk_locked lk \<longleftrightarrow> (\<exists>c. owning (pc c))) \<and>
     (\<forall>c. lk_cpu lk = Some c \<longleftrightarrow> pc c = Crit) \<and>
     (\<forall>c. (if pc c = Out then 0 else 1) \<le> noff (cs c) \<and> (0 < noff (cs c) \<longrightarrow> \<not> intr (cs c)))"

definition lock_inv :: "lock_sys \<Rightarrow> bool" where
  "lock_inv s \<longleftrightarrow> linv (lock s) (cstate s) (lpc s)"

lemma owning_simps [simp]: "\<not> owning Out" "\<not> owning Spin" "owning Got" "owning Crit" "owning Rel"
  by (simp_all add: owning_def)

lemma owning_upd: "owning (f c) = owning x \<Longrightarrow> owning ((f(c := x)) d) = owning (f d)"
  by simp

lemma lock_init_inv: "lock_init s \<Longrightarrow> lock_inv s"
  by (auto simp: lock_init_def lock_inv_def linv_def initlock_def)

lemma push_off_props:
  "noff (push_off c) = noff c + 1" "\<not> intr (push_off c)"
  by (simp_all add: push_off_def Let_def)

lemma pop_push: "0 \<le> noff c \<Longrightarrow> (0 < noff c \<Longrightarrow> \<not> intr c) \<Longrightarrow>
   \<exists>c'. pop_off (push_off c) = Inr c' \<and> noff c' = noff c \<and> intr c' = intr c"
  by (auto simp: pop_off_def push_off_def Let_def)

lemma lock_invD:
  assumes "lock_inv s"
  shows "owning (lpc s c) \<Longrightarrow> owning (lpc s d) \<Longrightarrow> c = d"
    "lk_locked (lock s) \<longleftrightarrow> (\<exists>c. owning (lpc s c))"
    "lk_cpu (lock s) = Some c \<longleftrightarrow> lpc s c = Crit"
    "lpc s c \<noteq> Out \<Longrightarrow> 1 \<le> noff (cstate s c)" "0 \<le> noff (cstate s c)"
    "0 < noff (cstate s c) \<Longrightarrow> \<not> intr (cstate s c)"
  using assms unfolding lock_inv_def linv_def by (auto split: if_splits)

lemma no_panic:
  assumes "lock_inv s"
  shows "ok (cpu_step c s)"
proof -
  have "owning (lpc s c) \<Longrightarrow> lk_locked (lock s)" using lock_invD(2)[OF assms] by blast
  with lock_invD(3,4,6)[OF assms, of c] show ?thesis
    by (cases "lpc s c")
       (auto simp: cpu_step_def acquire_begin_def release_begin_def release_end_def holding_def Let_def
          ok_def pop_off_def split: sum.splits)
qed

text \<open>A CPU moves without taking or giving up the lock; takes it; gives it up.\<close>

lemma linv_move:
  assumes inv: "linv lk cs pc" and own: "owning (pc c) = owning x" and lck: "lk_locked lk' = lk_locked lk"
    and cpu: "\<forall>d. lk_cpu lk' = Some d \<longleftrightarrow> (pc(c := x)) d = Crit"
    and cc: "(if x = Out then 0 else 1) \<le> noff cc \<and> (0 < noff cc \<longrightarrow> \<not> intr cc)"
  shows "linv lk' (cs(c := cc)) (pc(c := x))"
proof -
  have "(\<exists>d. owning ((pc(c := x)) d)) = (\<exists>d. owning (pc d))" by (simp only: owning_upd[where f = pc, OF own])
  moreover have "\<forall>a b. owning ((pc(c := x)) a) \<longrightarrow> owning ((pc(c := x)) b) \<longrightarrow> a = b"
    unfolding owning_upd[where f = pc, OF own] using inv unfolding linv_def by blast
  moreover have "(if (pc(c := x)) d = Out then 0 else 1) \<le> noff ((cs(c := cc)) d) \<and>
      (0 < noff ((cs(c := cc)) d) \<longrightarrow> \<not> intr ((cs(c := cc)) d))" for d
    using inv cc unfolding linv_def by (cases "d = c") simp_all
  moreover have "lk_locked lk' \<longleftrightarrow> (\<exists>d. owning (pc d))" using inv lck unfolding linv_def by blast
  ultimately show ?thesis using cpu unfolding linv_def by blast
qed

lemma linv_take:
  assumes inv: "linv lk cs pc" and free: "\<not> lk_locked lk" and spin: "pc c = Spin"
  shows "linv (lk\<lparr>lk_locked := True\<rparr>) cs (pc(c := Got))"
proof -
  have none: "\<not> owning (pc d)" for d using inv free unfolding linv_def by blast
  then have "\<forall>d. pc d \<noteq> Crit" by (metis owning_simps(4))
  moreover have "(if (pc(c := Got)) d = Out then 0 else 1) \<le> noff (cs d) \<and> (0 < noff (cs d) \<longrightarrow> \<not> intr (cs d))" for d
    using inv spin unfolding linv_def by (cases "d = c") (auto dest: spec[of _ c])
  moreover have "lk_cpu lk \<noteq> Some d" for d using inv calculation(1) unfolding linv_def by blast
  moreover have "owning ((pc(c := Got)) d) \<longleftrightarrow> d = c" for d using none by simp
  ultimately show ?thesis unfolding linv_def by auto
qed

lemma linv_free:
  assumes inv: "linv lk cs pc" and rel: "pc c = Rel"
    and cc: "0 \<le> noff cc \<and> (0 < noff cc \<longrightarrow> \<not> intr cc)"
  shows "linv (lk\<lparr>lk_locked := False\<rparr>) (cs(c := cc)) (pc(c := Out))"
proof -
  have only: "owning (pc d) \<Longrightarrow> d = c" for d using inv rel unfolding linv_def by (metis owning_simps(5))
  then have "\<forall>d. d \<noteq> c \<longrightarrow> pc d \<noteq> Crit" by (metis owning_simps(4))
  moreover have "(if (pc(c := Out)) d = Out then 0 else 1) \<le> noff ((cs(c := cc)) d) \<and>
      (0 < noff ((cs(c := cc)) d) \<longrightarrow> \<not> intr ((cs(c := cc)) d))" for d
    using inv cc unfolding linv_def by (cases "d = c") simp_all
  moreover have "\<not> owning ((pc(c := Out)) d)" for d using only by (cases "d = c") auto
  moreover have "lk_cpu lk \<noteq> Some d" for d
    using inv rel calculation(1) unfolding linv_def by (metis lock_pc.distinct(19))
  ultimately show ?thesis unfolding linv_def by auto
qed

lemma step_inv:
  assumes inv: "lock_inv s" and st: "cpu_step c s = Inr t"
  shows "lock_inv t"
proof -
  note I = lock_invD[OF inv] and li = inv[unfolded lock_inv_def]
  have keep: "(cstate s)(c := cstate s c) = cstate s" by simp
  show ?thesis
  proof (cases "lpc s c")
    case Out
    then have t: "t = s\<lparr>cstate := (cstate s)(c := push_off (cstate s c)), lpc := (lpc s)(c := Spin)\<rparr>"
      using st by (auto simp: cpu_step_def acquire_begin_def Let_def split: if_splits)
    show ?thesis
      using linv_move[OF li, of c Spin "lock s" "push_off (cstate s c)"] Out I(3,5) push_off_props[of "cstate s c"]
      by (auto simp: lock_inv_def t)
  next
    case Spin
    then show ?thesis
      using st inv linv_take[OF li _ Spin]
      by (auto simp: cpu_step_def test_and_set_def lock_inv_def split: if_splits)
  next
    case Got
    have only: "lpc s d = Crit \<Longrightarrow> d = c" for d using I(1)[of c d] Got by simp
    then have "\<forall>d. (c = d) = (((lpc s)(c := Crit)) d = Crit)" by auto
    then show ?thesis
      using linv_move[OF li, of c Crit "(lock s)\<lparr>lk_cpu := Some c\<rparr>" "cstate s c"] Got st I(4,6)[of c]
      by (auto simp: cpu_step_def acquire_end_def lock_inv_def keep simp del: fun_upd_apply)
  next
    case Crit
    then have t: "t = s\<lparr>lock := (lock s)\<lparr>lk_cpu := None\<rparr>, lpc := (lpc s)(c := Rel)\<rparr>"
      using st by (auto simp: cpu_step_def release_begin_def split: if_splits)
    have only: "lpc s d = Crit \<Longrightarrow> d = c" for d using I(1)[of c d] Crit by simp
    then have "\<forall>d. ((lpc s)(c := Rel)) d \<noteq> Crit" by auto
    then show ?thesis
      using linv_move[OF li, of c Rel "(lock s)\<lparr>lk_cpu := None\<rparr>" "cstate s c"] Crit I(4,6)[of c]
      by (auto simp: lock_inv_def t keep simp del: fun_upd_apply)
  next
    case Rel
    then obtain cs where cs: "pop_off (cstate s c) = Inr cs"
      and t: "t = s\<lparr>lock := (lock s)\<lparr>lk_locked := False\<rparr>, cstate := (cstate s)(c := cs), lpc := (lpc s)(c := Out)\<rparr>"
      using st by (auto simp: cpu_step_def release_end_def Let_def)
    have "0 \<le> noff cs" "0 < noff cs \<Longrightarrow> \<not> intr cs"
      using cs I(4)[of c] Rel by (auto simp: pop_off_def Let_def split: if_splits)
    with linv_free[OF li Rel, of cs] show ?thesis by (simp add: lock_inv_def t)
  qed
qed

interpretation spin: invariant_system lock_init lock_step lock_inv
  by unfold_locales (auto intro: lock_init_inv step_inv elim: lock_step.cases)

section \<open>Properties\<close>

text \<open>
  C13: Spin locks exclude. However the CPUs interleave the atomic steps of acquire and release, at
  most one CPU is in the critical section, the CPU recorded in the lock is the one inside, inside
  the interrupts are off, and no step panics.
\<close>

theorem spinlock_exclusion:
  assumes "reach lock_init lock_step s"
  shows "(lpc s c = Crit \<longrightarrow> lpc s d = Crit \<longrightarrow> c = d) \<and>
    (lpc s c = Crit \<longleftrightarrow> holding c (lock s)) \<and> (lpc s c = Crit \<longrightarrow> \<not> intr (cstate s c)) \<and>
    ok (cpu_step c s)"
proof -
  have inv: "lock_inv s" by (rule spin.reach_inv[OF assms])
  note I = lock_invD[OF inv]
  have "lpc s c = Crit \<Longrightarrow> lk_locked (lock s)" using I(2) by (auto simp: owning_def)
  moreover have "lpc s c = Crit \<Longrightarrow> \<not> intr (cstate s c)" using I(4,6)[of c] by auto
  ultimately show ?thesis
    using I(1)[of c d] I(3)[of c] no_panic[OF inv] by (auto simp: holding_def owning_def)
qed

theorem spinlock_exclusion_witness:
  "\<exists>s. reach lock_init lock_step s \<and> lpc s 3 = Crit \<and> lpc s 4 \<noteq> Crit"
proof -
  let ?s0 = "\<lparr>lock = initlock, cstate = (\<lambda>_. \<lparr>noff = 0, intena = False, intr = True\<rparr>), lpc = (\<lambda>_. Out)\<rparr>"
  have 0: "reach lock_init lock_step ?s0" by (rule reach_init) (simp add: lock_init_def)
  define s1 where "s1 = ?s0\<lparr>cstate := (cstate ?s0)(3 := push_off (cstate ?s0 3)), lpc := (lpc ?s0)(3 := Spin)\<rparr>"
  have 1: "reach lock_init lock_step s1"
    by (rule reach_step[OF 0 lock_step.intros[of 3]])
       (simp add: cpu_step_def acquire_begin_def holding_def initlock_def s1_def)
  have 2: "reach lock_init lock_step (test_and_set 3 s1)"
    by (rule reach_step[OF 1 lock_step.intros[of 3]]) (simp add: cpu_step_def s1_def)
  have 3: "reach lock_init lock_step (acquire_end 3 (test_and_set 3 s1))" (is "reach _ _ ?s3")
    by (rule reach_step[OF 2 lock_step.intros[of 3]])
       (simp add: cpu_step_def s1_def test_and_set_def initlock_def)
  have "lpc ?s3 3 = Crit" by (simp add: acquire_end_def)
  with spinlock_exclusion[OF 3, of 3 4] 3 show ?thesis by auto
qed

text \<open>
  Acquiring a free lock and releasing it brings the CPU back to the interrupt state and the
  nesting depth it had, and leaves the lock free.
\<close>

theorem spinlock_nesting:
  assumes "\<not> lk_locked (lock s)" "0 \<le> noff (cstate s c)" "0 < noff (cstate s c) \<longrightarrow> \<not> intr (cstate s c)"
  shows "\<exists>s1 s2. acquire c s = Inr s1 \<and> holding c (lock s1) \<and> \<not> intr (cstate s1 c) \<and>
    release c s1 = Inr s2 \<and> \<not> lk_locked (lock s2) \<and> noff (cstate s2 c) = noff (cstate s c) \<and>
    intr (cstate s2 c) = intr (cstate s c)"
proof -
  obtain c' where c': "pop_off (push_off (cstate s c)) = Inr c'" "noff c' = noff (cstate s c)" "intr c' = intr (cstate s c)"
    using pop_push[of "cstate s c"] assms by auto
  show ?thesis
    using assms(1) c' push_off_props[of "cstate s c"]
    by (auto simp: acquire_def release_def acquire_begin_def holding_def test_and_set_def acquire_end_def
        release_begin_def release_end_def Let_def)
qed

theorem spinlock_nesting_witness:
  "\<exists>s1 s2. acquire 0 \<lparr>lock = initlock, cstate = (\<lambda>_. \<lparr>noff = 0, intena = False, intr = True\<rparr>), lpc = (\<lambda>_. Out)\<rparr> = Inr s1 \<and>
    release 0 s1 = Inr s2 \<and> intr (cstate s2 0)"
  using spinlock_nesting[of "\<lparr>lock = initlock, cstate = (\<lambda>_. \<lparr>noff = 0, intena = False, intr = True\<rparr>), lpc = (\<lambda>_. Out)\<rparr>" 0]
  by (auto simp: initlock_def)

end
