(* ===== verification/Proc.thy ===== *)
theory Proc
  imports Prelude
begin

text \<open>
  The process table of \<^verbatim>\<open>kernel/proc.c\<close>: allocation, fork, exit, wait, sleep, wakeup, kill and
  the scheduler's choice. The table is a function on the indices below \<open>NPROC\<close>; a pointer to
  a process is its index. A section that holds the locks it needs is one step. Memory
  allocation, page tables and user copies can fail: whether they do is an argument. A system
  call that sleeps is one pass up to the sleep.
\<close>

section \<open>Data\<close>

definition NPROC :: nat where "NPROC = 64"

definition NOFILE :: nat where "NOFILE = 16"

datatype procstate = UNUSED | USED | SLEEPING | RUNNABLE | RUNNING | ZOMBIE

text \<open>Sleep channels are addresses of kernel objects.\<close>

datatype chan = At_proc nat | At_mutex nat | At_obj nat

record proc =
  state :: procstate
  chan :: "chan option"
  killed_flag :: int
  xstate :: int
  pid :: int
  parent :: "nat option"
  sz :: "64 word"
  trapframe :: bool
  pagetable :: bool
  ofile :: "nat option list"
  cwd :: "nat option"
  p_name :: string
  trace_mask :: "64 word"

record ptable =
  proc :: "nat \<Rightarrow> proc"
  nextpid :: int
  initproc :: nat

abbreviation table :: "nat list" where "table \<equiv> [0..<NPROC]"

definition set_proc :: "nat \<Rightarrow> (proc \<Rightarrow> proc) \<Rightarrow> ptable \<Rightarrow> ptable" where
  "set_proc i f t = t\<lparr>proc := (proc t)(i := f (proc t i))\<rparr>"

section \<open>Operations\<close>

definition procinit :: "ptable \<Rightarrow> ptable" where
  "procinit t = t\<lparr>proc := (\<lambda>i. if i < NPROC then (proc t i)\<lparr>state := UNUSED\<rparr> else proc t i)\<rparr>"

text \<open>\<^verbatim>\<open>nextpid\<close> is an \<^verbatim>\<open>int\<close> of 32 bits and wraps around behind the greatest one.\<close>

definition INT_MAX :: int where "INT_MAX = 2 ^ 31 - 1"

definition allocpid :: "ptable \<Rightarrow> int \<times> ptable" where
  "allocpid t = (nextpid t, t\<lparr>nextpid := (if nextpid t = INT_MAX then - (2 ^ 31) else nextpid t + 1)\<rparr>)"

definition freeproc :: "nat \<Rightarrow> ptable \<Rightarrow> ptable" where
  "freeproc p = set_proc p (\<lambda>x. x\<lparr>trapframe := False, pagetable := False, sz := 0, pid := 0,
     parent := None, p_name := [], chan := None, killed_flag := 0, xstate := 0, state := UNUSED\<rparr>)"

definition allocproc :: "bool \<Rightarrow> bool \<Rightarrow> ptable \<Rightarrow> nat option \<times> ptable" where
  "allocproc tf_ok pt_ok t =
    (case find (\<lambda>i. state (proc t i) = UNUSED) table of
       None \<Rightarrow> (None, t)
     | Some p \<Rightarrow>
         let (n, t) = allocpid t; t = set_proc p (\<lambda>x. x\<lparr>pid := n, state := USED\<rparr>) t in
         if \<not> tf_ok then (None, freeproc p t)
         else let t = set_proc p (\<lambda>x. x\<lparr>trapframe := True\<rparr>) t in
         if \<not> pt_ok then (None, freeproc p t)
         else (Some p, set_proc p (\<lambda>x. x\<lparr>pagetable := True\<rparr>) t))"

definition userinit :: "nat option \<Rightarrow> ptable \<Rightarrow> fault + ptable" where
  "userinit root t =
    (case allocproc True True t of
       (None, t) \<Rightarrow> Inl NullDeref
     | (Some p, t) \<Rightarrow> Inr (set_proc p (\<lambda>x. x\<lparr>cwd := root, state := RUNNABLE\<rparr>) (t\<lparr>initproc := p\<rparr>)))"

text \<open>Fork by process \<open>p\<close>; \<open>copy_ok\<close> is the outcome of \<^verbatim>\<open>uvmcopy\<close>.\<close>

definition kfork :: "bool \<Rightarrow> bool \<Rightarrow> bool \<Rightarrow> nat \<Rightarrow> ptable \<Rightarrow> int \<times> ptable" where
  "kfork tf_ok pt_ok copy_ok p t =
    (case allocproc tf_ok pt_ok t of
       (None, t) \<Rightarrow> (-1, t)
     | (Some np, t) \<Rightarrow>
         if \<not> copy_ok then (-1, freeproc np t)
         else let t = set_proc np (\<lambda>x. x\<lparr>sz := sz (proc t p),
                        ofile := map2 (\<lambda>f g. if f = None then g else f) (ofile (proc t p)) (ofile x),
                        cwd := cwd (proc t p), p_name := p_name (proc t p),
                        trace_mask := trace_mask (proc t p)\<rparr>) t;
                  n = pid (proc t np);
                  t = set_proc np (\<lambda>x. x\<lparr>parent := Some p\<rparr>) t
              in (n, set_proc np (\<lambda>x. x\<lparr>state := RUNNABLE\<rparr>) t))"

definition wakeup :: "nat \<Rightarrow> chan \<Rightarrow> ptable \<Rightarrow> ptable" where
  "wakeup me c t = t\<lparr>proc := (\<lambda>i. if i < NPROC \<and> i \<noteq> me \<and> state (proc t i) = SLEEPING \<and> chan (proc t i) = Some c
     then (proc t i)\<lparr>state := RUNNABLE\<rparr> else proc t i)\<rparr>"

text \<open>Every child found wakes init; one wakeup of init is the same as several.\<close>

definition reparent :: "nat \<Rightarrow> ptable \<Rightarrow> ptable" where
  "reparent p t = fold (\<lambda>pp t. if parent (proc t pp) = Some p
     then wakeup p (At_proc (initproc t)) (set_proc pp (\<lambda>x. x\<lparr>parent := Some (initproc t)\<rparr>) t) else t) table t"

definition kexit :: "int \<Rightarrow> nat \<Rightarrow> ptable \<Rightarrow> fault + ptable" where
  "kexit status p t =
    (if p = initproc t then Inl (Panic ''init exiting'')
     else let t = set_proc p (\<lambda>x. x\<lparr>ofile := replicate NOFILE None, cwd := None\<rparr>) t;
              t = reparent p t in
       case parent (proc t p) of None \<Rightarrow> Inr (set_proc p (\<lambda>x. x\<lparr>xstate := status, state := ZOMBIE\<rparr>) t)
       | Some q \<Rightarrow> Inr (set_proc p (\<lambda>x. x\<lparr>xstate := status, state := ZOMBIE\<rparr>) (wakeup p (At_proc q) t)))"

definition sleep :: "nat \<Rightarrow> chan \<Rightarrow> ptable \<Rightarrow> ptable" where
  "sleep p c = set_proc p (\<lambda>x. x\<lparr>chan := Some c, state := SLEEPING\<rparr>)"

definition killed :: "nat \<Rightarrow> ptable \<Rightarrow> bool" where
  "killed p t \<longleftrightarrow> killed_flag (proc t p) \<noteq> 0"

datatype wait_result = WaitDone int | WaitSleeps

definition kwait :: "bool \<Rightarrow> bool \<Rightarrow> nat \<Rightarrow> ptable \<Rightarrow> wait_result \<times> ptable" where
  "kwait has_addr copyout_ok p t =
    (case find (\<lambda>i. parent (proc t i) = Some p \<and> state (proc t i) = ZOMBIE) table of
       Some pp \<Rightarrow> if has_addr \<and> \<not> copyout_ok then (WaitDone (-1), t)
                  else (WaitDone (pid (proc t pp)), freeproc pp t)
     | None \<Rightarrow> if \<not> list_ex (\<lambda>i. parent (proc t i) = Some p) table \<or> killed p t
               then (WaitDone (-1), t) else (WaitSleeps, sleep p (At_proc p) t))"

definition kkill :: "int \<Rightarrow> ptable \<Rightarrow> int \<times> ptable" where
  "kkill n t =
    (case find (\<lambda>i. pid (proc t i) = n) table of
       None \<Rightarrow> (-1, t)
     | Some p \<Rightarrow> (0, set_proc p (\<lambda>x. x\<lparr>killed_flag := 1,
         state := (if state x = SLEEPING then RUNNABLE else state x)\<rparr>) t))"

definition setkilled :: "nat \<Rightarrow> ptable \<Rightarrow> ptable" where
  "setkilled p = set_proc p (\<lambda>x. x\<lparr>killed_flag := 1\<rparr>)"

definition yield :: "nat \<Rightarrow> ptable \<Rightarrow> ptable" where
  "yield p = set_proc p (\<lambda>x. x\<lparr>state := RUNNABLE\<rparr>)"

text \<open>The checks of \<^verbatim>\<open>sched\<close> before the context switch.\<close>

definition sched :: "bool \<Rightarrow> int \<Rightarrow> bool \<Rightarrow> nat \<Rightarrow> ptable \<Rightarrow> fault + unit" where
  "sched holds_lock noff intr p t =
    (if \<not> holds_lock then Inl (Panic ''sched p->lock'')
     else if noff \<noteq> 1 then Inl (Panic ''sched locks'')
     else if state (proc t p) = RUNNING then Inl (Panic ''sched RUNNING'')
     else if intr then Inl (Panic ''sched interruptible'') else Inr ())"

text \<open>
  One iteration of the scheduler's inner loop on entry \<open>i\<close>. The process resumes behind the
  \<^verbatim>\<open>sched\<close> call that gave up the CPU; behind the one in \<^verbatim>\<open>sleep\<close> it clears its channel.
\<close>

definition scheduler_pick :: "nat \<Rightarrow> ptable \<Rightarrow> ptable" where
  "scheduler_pick i t =
    (if state (proc t i) = RUNNABLE then set_proc i (\<lambda>x. x\<lparr>state := RUNNING, chan := None\<rparr>) t else t)"

section \<open>Invariant\<close>

definition asleep :: "chan \<Rightarrow> nat \<Rightarrow> ptable \<Rightarrow> bool" where
  "asleep c p t \<longleftrightarrow> state (proc t p) = SLEEPING \<and> chan (proc t p) = Some c"

definition pids_ok :: "ptable \<Rightarrow> bool" where
  "pids_ok t \<longleftrightarrow> 0 < nextpid t \<and>
     (\<forall>i < NPROC. state (proc t i) = UNUSED \<longrightarrow> pid (proc t i) = 0) \<and>
     (\<forall>i < NPROC. state (proc t i) \<noteq> UNUSED \<longrightarrow> 0 < pid (proc t i) \<and> pid (proc t i) < nextpid t) \<and>
     (\<forall>i < NPROC. \<forall>j < NPROC. state (proc t i) \<noteq> UNUSED \<longrightarrow> pid (proc t i) = pid (proc t j) \<longrightarrow> i = j)"

definition links_ok :: "ptable \<Rightarrow> bool" where
  "links_ok t \<longleftrightarrow>
     initproc t < NPROC \<and> state (proc t (initproc t)) \<notin> {UNUSED, ZOMBIE} \<and>
     (\<forall>i < NPROC. state (proc t i) = UNUSED \<longrightarrow> parent (proc t i) = None) \<and>
     (\<forall>i < NPROC. \<forall>q. parent (proc t i) = Some q \<longrightarrow> q < NPROC \<and> state (proc t q) \<notin> {UNUSED, ZOMBIE}) \<and>
     (\<forall>i < NPROC. i \<noteq> initproc t \<longrightarrow> state (proc t i) \<notin> {UNUSED, USED} \<longrightarrow> parent (proc t i) \<noteq> None)"

definition ptable_ok :: "ptable \<Rightarrow> bool" where
  "ptable_ok t \<longleftrightarrow> links_ok t \<and> pids_ok t"

text \<open>No parent sleeps in wait while one of its children is a zombie.\<close>

definition no_lost_exit :: "ptable \<Rightarrow> bool" where
  "no_lost_exit t \<longleftrightarrow> (\<forall>i < NPROC. \<forall>q. state (proc t i) = ZOMBIE \<longrightarrow> parent (proc t i) = Some q \<longrightarrow>
     \<not> (state (proc t q) = SLEEPING \<and> chan (proc t q) = Some (At_proc q)))"

inductive proc_step :: "ptable \<Rightarrow> ptable \<Rightarrow> bool" where
  fork: "p < NPROC \<Longrightarrow> state (proc t p) = RUNNING \<Longrightarrow> proc_step t (snd (kfork a b c p t))"
| exit: "p < NPROC \<Longrightarrow> state (proc t p) = RUNNING \<Longrightarrow> kexit st p t = Inr t' \<Longrightarrow> proc_step t t'"
| wait: "p < NPROC \<Longrightarrow> state (proc t p) = RUNNING \<Longrightarrow> proc_step t (snd (kwait a b p t))"
| sleep: "p < NPROC \<Longrightarrow> state (proc t p) = RUNNING \<Longrightarrow> \<forall>q. c \<noteq> At_proc q \<Longrightarrow> proc_step t (sleep p c t)"
| wakeup: "proc_step t (wakeup p c t)"
| kill: "proc_step t (snd (kkill n t))"
| mark: "proc_step t (setkilled p t)"
| yield: "p < NPROC \<Longrightarrow> state (proc t p) = RUNNING \<Longrightarrow> proc_step t (yield p t)"
| pick: "i < NPROC \<Longrightarrow> proc_step t (scheduler_pick i t)"

end
