(* ===== verification/Proc_Spec.thy ===== *)
theory Proc_Spec
  imports Proc
begin

text \<open>
  The invariant of the process table and what it gives: identities, parents, and that the exit of
  a child is never missed by a parent in wait.
\<close>

section \<open>Invariant\<close>

lemma find_table_Some:
  "find P table = Some i \<Longrightarrow> i < NPROC \<and> P i"
  by (auto simp: find_Some_iff)

lemma find_table_None: "find P table = None \<longleftrightarrow> (\<forall>i < NPROC. \<not> P i)"
  by (auto simp: find_None_iff)

text \<open>A change that keeps identities, parents and which entries are unused or zombies.\<close>

definition calm :: "ptable \<Rightarrow> ptable \<Rightarrow> bool" where
  "calm t t' \<longleftrightarrow> nextpid t' = nextpid t \<and> initproc t' = initproc t \<and>
     (\<forall>i. pid (proc t' i) = pid (proc t i) \<and>
        (state (proc t' i) = UNUSED \<longleftrightarrow> state (proc t i) = UNUSED) \<and>
        (state (proc t' i) = USED \<longleftrightarrow> state (proc t i) = USED) \<and>
        (state (proc t' i) = ZOMBIE \<longleftrightarrow> state (proc t i) = ZOMBIE))"

lemma calmD:
  assumes "calm t t'"
  shows "nextpid t' = nextpid t" "initproc t' = initproc t" "pid (proc t' i) = pid (proc t i)"
    "state (proc t' i) = UNUSED \<longleftrightarrow> state (proc t i) = UNUSED"
    "state (proc t' i) = USED \<longleftrightarrow> state (proc t i) = USED"
    "state (proc t' i) = ZOMBIE \<longleftrightarrow> state (proc t i) = ZOMBIE"
  using assms unfolding calm_def by blast+

lemma links_okD:
  assumes "links_ok t"
  shows "initproc t < NPROC" "state (proc t (initproc t)) \<noteq> UNUSED" "state (proc t (initproc t)) \<noteq> ZOMBIE"
    "i < NPROC \<Longrightarrow> state (proc t i) = UNUSED \<Longrightarrow> parent (proc t i) = None"
    "i < NPROC \<Longrightarrow> parent (proc t i) = Some q \<Longrightarrow> q < NPROC"
    "i < NPROC \<Longrightarrow> parent (proc t i) = Some q \<Longrightarrow> state (proc t q) \<noteq> UNUSED"
    "i < NPROC \<Longrightarrow> parent (proc t i) = Some q \<Longrightarrow> state (proc t q) \<noteq> ZOMBIE"
    "i < NPROC \<Longrightarrow> i \<noteq> initproc t \<Longrightarrow> state (proc t i) \<noteq> UNUSED \<Longrightarrow> state (proc t i) \<noteq> USED \<Longrightarrow>
       parent (proc t i) \<noteq> None"
  using assms unfolding links_ok_def by blast+

lemma links_okI:
  assumes "initproc t < NPROC" "state (proc t (initproc t)) \<notin> {UNUSED, ZOMBIE}"
    and "\<And>i. i < NPROC \<Longrightarrow> state (proc t i) = UNUSED \<Longrightarrow> parent (proc t i) = None"
    and "\<And>i q. i < NPROC \<Longrightarrow> parent (proc t i) = Some q \<Longrightarrow> q < NPROC \<and> state (proc t q) \<notin> {UNUSED, ZOMBIE}"
    and "\<And>i. i < NPROC \<Longrightarrow> i \<noteq> initproc t \<Longrightarrow> state (proc t i) \<notin> {UNUSED, USED} \<Longrightarrow> parent (proc t i) \<noteq> None"
  shows "links_ok t"
  unfolding links_ok_def using assms by (intro conjI allI impI) blast+

lemma calm_ok:
  assumes ok: "links_ok t" and c: "calm t t'" and par: "\<And>i. parent (proc t' i) = parent (proc t i)"
  shows "links_ok t'"
proof (rule links_okI)
  note D = links_okD[OF ok] and C = calmD[OF c]
  show "initproc t' < NPROC" "state (proc t' (initproc t')) \<notin> {UNUSED, ZOMBIE}"
    using D(1-3) C by simp_all
  fix i assume i: "i < NPROC"
  show "parent (proc t' i) = None" if "state (proc t' i) = UNUSED"
    using D(4)[OF i] that C par by simp
  show "q < NPROC \<and> state (proc t' q) \<notin> {UNUSED, ZOMBIE}" if "parent (proc t' i) = Some q" for q
    using D(5-7)[OF i, of q] that C par by simp
  show "parent (proc t' i) \<noteq> None" if "i \<noteq> initproc t'" "state (proc t' i) \<notin> {UNUSED, USED}"
    using D(8)[OF i] that C par by simp
qed

lemma calm_set:
  assumes "\<And>x. pid (f x) = pid x"
    and "state (f (proc t i)) = state (proc t i) \<or>
      state (f (proc t i)) \<in> {SLEEPING, RUNNABLE, RUNNING} \<and> state (proc t i) \<in> {SLEEPING, RUNNABLE, RUNNING}"
  shows "calm t (set_proc i f t)"
  using assms unfolding calm_def set_proc_def by auto

lemma calm_wakeup: "calm t (wakeup p c t)"
  unfolding calm_def wakeup_def by auto

lemma no_lost_calm:
  assumes "no_lost_exit t" "calm t t'" "\<And>i. parent (proc t' i) = parent (proc t i)"
    and "\<And>q. state (proc t' q) = SLEEPING \<Longrightarrow> chan (proc t' q) = Some (At_proc q) \<Longrightarrow>
      state (proc t q) = SLEEPING \<and> chan (proc t q) = Some (At_proc q)"
  shows "no_lost_exit t'"
  using assms calmD(6)[OF assms(2)] unfolding no_lost_exit_def by metis

lemma set_proc_simps [simp]:
  "proc (set_proc i f t) i = f (proc t i)" "j \<noteq> i \<Longrightarrow> proc (set_proc i f t) j = proc t j"
  "nextpid (set_proc i f t) = nextpid t" "initproc (set_proc i f t) = initproc t"
  by (simp_all add: set_proc_def)

definition proc_inv :: "ptable \<Rightarrow> bool" where
  "proc_inv t \<longleftrightarrow> links_ok t \<and> no_lost_exit t"

lemma calm_set_inv:
  assumes inv: "proc_inv t" and pid: "\<And>x. pid (f x) = pid x" "\<And>x. parent (f x) = parent x"
    and st: "state (f (proc t i)) = state (proc t i) \<and> chan (f (proc t i)) = chan (proc t i) \<or>
      state (f (proc t i)) \<in> {RUNNABLE, RUNNING} \<and> state (proc t i) \<in> {SLEEPING, RUNNABLE, RUNNING} \<or>
      state (f (proc t i)) = SLEEPING \<and> state (proc t i) = RUNNING \<and> chan (f (proc t i)) \<noteq> Some (At_proc i)"
  shows "proc_inv (set_proc i f t)"
proof -
  have c: "calm t (set_proc i f t)" by (rule calm_set[OF pid(1)]) (use st in auto)
  have par: "parent (proc (set_proc i f t) j) = parent (proc t j)" for j
    using pid(2) by (cases "j = i") auto
  have "state (proc t q) = SLEEPING \<and> chan (proc t q) = Some (At_proc q)"
    if "state (proc (set_proc i f t) q) = SLEEPING" "chan (proc (set_proc i f t) q) = Some (At_proc q)" for q
    using that st by (cases "q = i") auto
  with calm_ok[OF _ c par] no_lost_calm[OF _ c par] inv show ?thesis by (simp add: proc_inv_def)
qed

lemma wakeup_inv: "proc_inv t \<Longrightarrow> proc_inv (wakeup p c t)"
proof -
  assume inv: "proc_inv t"
  have par: "parent (proc (wakeup p c t) j) = parent (proc t j)" for j by (simp add: wakeup_def)
  have "state (proc t q) = SLEEPING \<and> chan (proc t q) = Some (At_proc q)"
    if "state (proc (wakeup p c t) q) = SLEEPING" "chan (proc (wakeup p c t) q) = Some (At_proc q)" for q
    using that by (auto simp: wakeup_def split: if_splits)
  with calm_ok[OF _ calm_wakeup par] no_lost_calm[OF _ calm_wakeup par] inv show ?thesis
    by (simp add: proc_inv_def)
qed

text \<open>Fork changes one unused entry.\<close>

lemma kfork_effect:
  assumes p: "state (proc t p) = RUNNING" and r: "kfork a b c p t = (n, t')"
  shows "t' = t \<and> n = -1 \<or> (\<exists>np x. np < NPROC \<and> state (proc t np) = UNUSED \<and>
     t' = t\<lparr>nextpid := nextpid (snd (allocpid t)), proc := (proc t)(np := x)\<rparr> \<and>
     (n = -1 \<and> state x = UNUSED \<and> pid x = 0 \<and> parent x = None \<or>
      n = nextpid t \<and> state x = RUNNABLE \<and> pid x = nextpid t \<and> parent x = Some p \<and>
      killed_flag x = killed_flag (proc t np) \<and> trace_mask x = trace_mask (proc t p)))"
proof (cases "find (\<lambda>i. state (proc t i) = UNUSED) table")
  case None
  then show ?thesis using r by (simp add: kfork_def allocproc_def)
next
  case (Some np)
  have np: "np < NPROC" "state (proc t np) = UNUSED" using find_table_Some[OF Some] by auto
  have "np \<noteq> p" using np p by auto
  let ?P = "\<lambda>x. n = -1 \<and> state x = UNUSED \<and> pid x = 0 \<and> parent x = None \<or>
      n = nextpid t \<and> state x = RUNNABLE \<and> pid x = nextpid t \<and> parent x = Some p \<and>
      killed_flag x = killed_flag (proc t np) \<and> trace_mask x = trace_mask (proc t p)"
  have "t' = t\<lparr>nextpid := nextpid (snd (allocpid t)), proc := (proc t)(np := proc t' np)\<rparr> \<and> ?P (proc t' np)"
    using r Some \<open>np \<noteq> p\<close>
    by (cases a; cases b; cases c)
       (auto simp: kfork_def allocproc_def allocpid_def freeproc_def set_proc_def Let_def)
  with np show ?thesis by blast
qed

lemma fork_inv:
  assumes inv: "proc_inv t" and p: "p < NPROC" "state (proc t p) = RUNNING"
  shows "proc_inv (snd (kfork a b c p t))"
proof -
  obtain n t' where r: "kfork a b c p t = (n, t')" by fastforce
  have ok: "links_ok t" and nl: "no_lost_exit t" using inv by (auto simp: proc_inv_def)
  note D = links_okD[OF ok]
  consider "t' = t" | np x where "np < NPROC" "state (proc t np) = UNUSED"
     "t' = t\<lparr>nextpid := nextpid (snd (allocpid t)), proc := (proc t)(np := x)\<rparr>"
     "state x = UNUSED \<and> pid x = 0 \<and> parent x = None \<or> state x = RUNNABLE \<and> pid x = nextpid t \<and> parent x = Some p"
    using kfork_effect[OF p(2) r] by blast
  then show ?thesis
  proof cases
    case 1
    then show ?thesis using inv r by simp
  next
    case 2
    have ni: "np \<noteq> initproc t" "np \<noteq> p" using D(2) 2(2) p by auto
    have npar: "i < NPROC \<Longrightarrow> parent (proc t i) \<noteq> Some np" for i using D(6)[of i np] 2(2) by blast
    have "links_ok t'"
    proof (rule links_okI)
      fix i q assume iq: "i < NPROC" "parent (proc t' i) = Some q"
      then show "q < NPROC \<and> state (proc t' q) \<notin> {UNUSED, ZOMBIE}"
        using 2(3,4) p ni npar[of i] D(5-7)[of i q] by (cases "i = np") auto
    next
      show "initproc t' < NPROC" "state (proc t' (initproc t')) \<notin> {UNUSED, ZOMBIE}"
        using 2(3) D(1-3) ni by auto
      fix i assume i: "i < NPROC"
      show "parent (proc t' i) = None" if "state (proc t' i) = UNUSED"
        using 2(3,4) D(4)[OF i] that by (cases "i = np") auto
      show "parent (proc t' i) \<noteq> None" if "i \<noteq> initproc t'" "state (proc t' i) \<notin> {UNUSED, USED}"
        using 2(3,4) D(8)[OF i] that by (cases "i = np") auto
    qed
    moreover have "no_lost_exit t'"
      using nl npar 2(2-4) unfolding no_lost_exit_def by (auto split: if_splits)
    ultimately show ?thesis using r by (simp add: proc_inv_def)
  qed
qed

text \<open>The effect of passing the children of \<open>p\<close> to init.\<close>

definition reparented :: "nat \<Rightarrow> nat set \<Rightarrow> ptable \<Rightarrow> ptable \<Rightarrow> bool" where
  "reparented p X t t' \<longleftrightarrow> calm t t' \<and>
     (\<forall>i. parent (proc t' i) = (if i \<in> X \<and> parent (proc t i) = Some p then Some (initproc t) else parent (proc t i))) \<and>
     (\<forall>i. chan (proc t' i) = chan (proc t i)) \<and>
     (\<forall>i. state (proc t' i) = state (proc t i) \<or> i \<noteq> p \<and> state (proc t i) = SLEEPING \<and> state (proc t' i) = RUNNABLE) \<and>
     ((\<exists>i \<in> X. parent (proc t i) = Some p) \<longrightarrow>
        \<not> (state (proc t' (initproc t)) = SLEEPING \<and> chan (proc t' (initproc t)) = Some (At_proc (initproc t))))"

lemma calm_trans: "calm t u \<Longrightarrow> calm u v \<Longrightarrow> calm t v"
  unfolding calm_def by auto

lemma reparent_fold:
  assumes "initproc t \<noteq> p" "initproc t < NPROC"
  shows "reparented p (set xs) t (fold (\<lambda>pp t. if parent (proc t pp) = Some p
     then wakeup p (At_proc (initproc t)) (set_proc pp (\<lambda>x. x\<lparr>parent := Some (initproc t)\<rparr>) t) else t) xs t)"
proof (induction xs rule: rev_induct)
  case Nil
  then show ?case by (simp add: reparented_def calm_def)
next
  case (snoc x xs)
  let ?F = "\<lambda>pp t. if parent (proc t pp) = Some p
     then wakeup p (At_proc (initproc t)) (set_proc pp (\<lambda>x. x\<lparr>parent := Some (initproc t)\<rparr>) t) else t"
  define u where "u = fold ?F xs t"
  have u: "reparented p (set xs) t u" using snoc by (simp add: u_def)
  have iu: "initproc u = initproc t" using u by (simp add: reparented_def calm_def)
  show ?case
  proof (cases "parent (proc u x) = Some p")
    case False
    have px: "\<not> (x \<notin> set xs \<and> parent (proc t x) = Some p)" "x \<in> set xs \<Longrightarrow> parent (proc t x) = Some p \<Longrightarrow> True"
      using u False by (auto simp: reparented_def)
    have eq: "fold ?F (xs @ [x]) t = u" using False by (simp add: u_def)
    show ?thesis unfolding eq using u px(1) unfolding reparented_def by auto
  next
    case True
    define v where "v = set_proc x (\<lambda>y. y\<lparr>parent := Some (initproc t)\<rparr>) u"
    have eq: "fold ?F (xs @ [x]) t = wakeup p (At_proc (initproc t)) v"
      using True by (simp add: u_def[symmetric] v_def iu)
    have px: "x \<notin> set xs" "parent (proc t x) = Some p"
      using u True assms(1) by (auto simp: reparented_def split: if_splits)
    have cv: "calm u v" unfolding v_def by (rule calm_set) auto
    have "calm t (wakeup p (At_proc (initproc t)) v)"
      using u calm_trans[OF _ calm_trans[OF cv calm_wakeup]] by (simp add: reparented_def)
    moreover have "parent (proc (wakeup p (At_proc (initproc t)) v) i) =
       (if i \<in> set (xs @ [x]) \<and> parent (proc t i) = Some p then Some (initproc t) else parent (proc t i))" for i
      using u px by (cases "i = x") (auto simp: wakeup_def v_def reparented_def)
    moreover have "chan (proc (wakeup p (At_proc (initproc t)) v) i) = chan (proc t i)" for i
      using u by (cases "i = x") (auto simp: wakeup_def v_def reparented_def)
    moreover have "state (proc v i) = state (proc u i)" for i by (cases "i = x") (auto simp: v_def)
    then have "state (proc (wakeup p (At_proc (initproc t)) v) i) = state (proc t i) \<or>
       i \<noteq> p \<and> state (proc t i) = SLEEPING \<and> state (proc (wakeup p (At_proc (initproc t)) v) i) = RUNNABLE" for i
    proof -
      have "state (proc u i) = state (proc t i) \<or>
          i \<noteq> p \<and> state (proc t i) = SLEEPING \<and> state (proc u i) = RUNNABLE"
        using u unfolding reparented_def by blast
      then show ?thesis using \<open>\<And>i. state (proc v i) = state (proc u i)\<close>[of i] by (auto simp: wakeup_def)
    qed
    moreover have "\<not> (state (proc (wakeup p (At_proc (initproc t)) v) (initproc t)) = SLEEPING \<and>
       chan (proc (wakeup p (At_proc (initproc t)) v) (initproc t)) = Some (At_proc (initproc t)))"
      using assms by (auto simp: wakeup_def)
    ultimately show ?thesis unfolding eq reparented_def by blast
  qed
qed

lemma reparent_effect:
  "initproc t \<noteq> p \<Longrightarrow> initproc t < NPROC \<Longrightarrow> reparented p {0..<NPROC} t (reparent p t)"
  using reparent_fold[of t p table] by (simp add: reparent_def)

lemma reparent_inv:
  assumes inv: "proc_inv t" and p: "initproc t \<noteq> p" "state (proc t p) \<noteq> UNUSED"
  shows "proc_inv (reparent p t)" and "i < NPROC \<Longrightarrow> parent (proc (reparent p t) i) \<noteq> Some p"
proof -
  have ok: "links_ok t" and nl: "no_lost_exit t" using inv by (auto simp: proc_inv_def)
  note D = links_okD[OF ok]
  define t' where "t' = reparent p t"
  have R: "reparented p {0..<NPROC} t t'" using reparent_effect[OF p(1) D(1)] by (simp add: t'_def)
  then have c: "calm t t'" by (simp add: reparented_def)
  note C = calmD[OF c]
  have par: "parent (proc t' i) = (if i < NPROC \<and> parent (proc t i) = Some p then Some (initproc t) else parent (proc t i))" for i
    using R by (simp add: reparented_def)
  show "i < NPROC \<Longrightarrow> parent (proc (reparent p t) i) \<noteq> Some p" for i
    using par[of i] p(1) by (simp add: t'_def)
  have "links_ok t'"
  proof (rule links_okI)
    show "initproc t' < NPROC" "state (proc t' (initproc t')) \<notin> {UNUSED, ZOMBIE}"
      using D(1-3) C by simp_all
    fix i assume i: "i < NPROC"
    show "parent (proc t' i) = None" if "state (proc t' i) = UNUSED"
      using D(4)[OF i] that C par[of i] by simp
    show "q < NPROC \<and> state (proc t' q) \<notin> {UNUSED, ZOMBIE}" if "parent (proc t' i) = Some q" for q
      using D(5-7)[OF i, of q] D(1-3) that C par[of i] by (auto split: if_splits)
    show "parent (proc t' i) \<noteq> None" if "i \<noteq> initproc t'" "state (proc t' i) \<notin> {UNUSED, USED}"
      using D(8)[OF i] that C par[of i] by simp
  qed
  moreover have "no_lost_exit t'"
    unfolding no_lost_exit_def
  proof (intro allI impI)
    fix i q assume i: "i < NPROC" "state (proc t' i) = ZOMBIE" "parent (proc t' i) = Some q"
    show "\<not> (state (proc t' q) = SLEEPING \<and> chan (proc t' q) = Some (At_proc q))"
    proof (cases "parent (proc t i) = Some p")
      case True
      then have "q = initproc t" using par[of i] i by simp
      moreover have "\<exists>i \<in> {0..<NPROC}. parent (proc t i) = Some p" using True i by auto
      ultimately show ?thesis using R unfolding reparented_def by blast
    next
      case False
      then have "\<not> (state (proc t q) = SLEEPING \<and> chan (proc t q) = Some (At_proc q))"
        using nl par[of i] i C(6) unfolding no_lost_exit_def by auto
      with R show ?thesis unfolding reparented_def by (metis procstate.distinct(19))
    qed
  qed
  ultimately show "proc_inv (reparent p t)" by (simp add: proc_inv_def t'_def)
qed

text \<open>Turning a process without children into a zombie once its parent is awake.\<close>

lemma zombie_inv:
  assumes inv: "proc_inv t" and p: "p < NPROC" "p \<noteq> initproc t" "state (proc t p) = RUNNING"
    and nochild: "\<And>i. i < NPROC \<Longrightarrow> parent (proc t i) \<noteq> Some p"
    and awake: "\<And>q. parent (proc t p) = Some q \<Longrightarrow>
      \<not> (state (proc t q) = SLEEPING \<and> chan (proc t q) = Some (At_proc q))"
  shows "proc_inv (set_proc p (\<lambda>x. x\<lparr>xstate := st, state := ZOMBIE\<rparr>) t)"
proof -
  have ok: "links_ok t" and nl: "no_lost_exit t" using inv by (auto simp: proc_inv_def)
  note D = links_okD[OF ok]
  let ?t = "set_proc p (\<lambda>x. x\<lparr>xstate := st, state := ZOMBIE\<rparr>) t"
  have pa: "parent (proc ?t i) = parent (proc t i)" "pid (proc ?t i) = pid (proc t i)" for i
    by (cases "i = p"; simp)+
  have st: "i \<noteq> p \<Longrightarrow> state (proc ?t i) = state (proc t i)" "state (proc ?t p) = ZOMBIE" for i by auto
  have "links_ok ?t"
  proof (rule links_okI)
    show "initproc ?t < NPROC" "state (proc ?t (initproc ?t)) \<notin> {UNUSED, ZOMBIE}"
      using D(1-3) p by simp_all
    fix i assume i: "i < NPROC"
    show "parent (proc ?t i) = None" if "state (proc ?t i) = UNUSED"
      using D(4)[OF i] that pa st by (cases "i = p") auto
    show "q < NPROC \<and> state (proc ?t q) \<notin> {UNUSED, ZOMBIE}" if "parent (proc ?t i) = Some q" for q
      using D(5-7)[OF i, of q] that pa(1)[of i] nochild[OF i] by (cases "q = p") auto
    show "parent (proc ?t i) \<noteq> None" if "i \<noteq> initproc ?t" "state (proc ?t i) \<notin> {UNUSED, USED}"
      using D(8)[OF i] that pa(1)[of i] p(3) by (cases "i = p") auto
  qed
  moreover have "no_lost_exit ?t"
    unfolding no_lost_exit_def
  proof (intro allI impI)
    fix i q assume i: "i < NPROC" "state (proc ?t i) = ZOMBIE" "parent (proc ?t i) = Some q"
    have "q \<noteq> p" using nochild[OF i(1)] pa(1)[of i] i(3) by auto
    then have "proc ?t q = proc t q" by simp
    moreover have "\<not> (state (proc t q) = SLEEPING \<and> chan (proc t q) = Some (At_proc q))"
      using nl i pa(1)[of i] awake st(1)[of i] unfolding no_lost_exit_def by (cases "i = p") auto
    ultimately show "\<not> (state (proc ?t q) = SLEEPING \<and> chan (proc ?t q) = Some (At_proc q))" by simp
  qed
  ultimately show ?thesis by (simp add: proc_inv_def)
qed

lemma exit_inv:
  assumes inv: "proc_inv t" and p: "p < NPROC" "state (proc t p) = RUNNING" and r: "kexit st p t = Inr t'"
  shows "proc_inv t'"
proof -
  have pi: "p \<noteq> initproc t" using r by (auto simp: kexit_def split: if_splits)
  let ?t1 = "set_proc p (\<lambda>x. x\<lparr>ofile := replicate NOFILE None, cwd := None\<rparr>) t"
  have i1: "proc_inv ?t1" by (rule calm_set_inv[OF inv]) auto
  have s1: "state (proc ?t1 p) = RUNNING" "initproc ?t1 = initproc t" "initproc t < NPROC"
    using p inv links_okD(1) by (auto simp: proc_inv_def)
  let ?t2 = "reparent p ?t1"
  have i2: "proc_inv ?t2" and nc: "\<And>i. i < NPROC \<Longrightarrow> parent (proc ?t2 i) \<noteq> Some p"
    using reparent_inv[OF i1] s1 pi by auto
  have R: "reparented p {0..<NPROC} ?t1 ?t2" using reparent_effect[of ?t1 p] s1 pi by auto
  have "state (proc ?t2 p) = state (proc ?t1 p)" using R unfolding reparented_def by blast
  moreover have "initproc ?t2 = initproc ?t1" using R calmD(2) unfolding reparented_def by blast
  ultimately have s2: "state (proc ?t2 p) = RUNNING" "initproc ?t2 = initproc t" using s1 by auto
  show ?thesis
  proof (cases "parent (proc ?t2 p)")
    case None
    then have "t' = set_proc p (\<lambda>x. x\<lparr>xstate := st, state := ZOMBIE\<rparr>) ?t2"
      using r pi by (simp add: kexit_def Let_def)
    with zombie_inv[OF i2 p(1) _ s2(1) nc, of st] None s2(2) pi show ?thesis by simp
  next
    case (Some q)
    let ?t3 = "wakeup p (At_proc q) ?t2"
    have t': "t' = set_proc p (\<lambda>x. x\<lparr>xstate := st, state := ZOMBIE\<rparr>) ?t3"
      using r pi Some by (simp add: kexit_def Let_def)
    have q: "q \<noteq> p" "q < NPROC" using nc[OF p(1)] Some i2 links_okD(5)[of ?t2 p q] p(1) by (auto simp: proc_inv_def)
    have "proc_inv t'"
      unfolding t' by (rule zombie_inv[OF wakeup_inv[OF i2] p(1)])
        (use s2 pi nc q Some in \<open>auto simp: wakeup_def\<close>)
    then show ?thesis .
  qed
qed

text \<open>Freeing a zombie that has no children.\<close>

lemma free_inv:
  assumes inv: "proc_inv t" and p: "p < NPROC" "state (proc t p) = ZOMBIE"
  shows "proc_inv (freeproc p t)"
proof -
  have ok: "links_ok t" and nl: "no_lost_exit t" using inv by (auto simp: proc_inv_def)
  note D = links_okD[OF ok]
  let ?t = "freeproc p t"
  have o: "i \<noteq> p \<Longrightarrow> proc ?t i = proc t i" for i by (simp add: freeproc_def)
  have n: "state (proc ?t p) = UNUSED" "pid (proc ?t p) = 0" "parent (proc ?t p) = None"
    "initproc ?t = initproc t" "nextpid ?t = nextpid t" by (simp_all add: freeproc_def)
  have nc: "i < NPROC \<Longrightarrow> parent (proc t i) \<noteq> Some p" for i using D(7)[of i p] p(2) by blast
  have pi: "p \<noteq> initproc t" using D(3) p(2) by auto
  have "links_ok ?t"
  proof (rule links_okI)
    show "initproc ?t < NPROC" "state (proc ?t (initproc ?t)) \<notin> {UNUSED, ZOMBIE}"
      using D(1-3) pi o n by auto
    fix i assume i: "i < NPROC"
    show "parent (proc ?t i) = None" if "state (proc ?t i) = UNUSED"
      using D(4)[OF i] that o n by (cases "i = p") auto
    show "q < NPROC \<and> state (proc ?t q) \<notin> {UNUSED, ZOMBIE}" if "parent (proc ?t i) = Some q" for q
      using D(5-7)[OF i, of q] that o n nc[OF i] by (cases "i = p"; cases "q = p") auto
    show "parent (proc ?t i) \<noteq> None" if "i \<noteq> initproc ?t" "state (proc ?t i) \<notin> {UNUSED, USED}"
      using D(8)[OF i] that o n by (cases "i = p") auto
  qed
  moreover have "no_lost_exit ?t"
    unfolding no_lost_exit_def
  proof (intro allI impI)
    fix i q assume i: "i < NPROC" "state (proc ?t i) = ZOMBIE" "parent (proc ?t i) = Some q"
    then have ip: "i \<noteq> p" using n by auto
    then have "q \<noteq> p" using nc[OF i(1)] i o by auto
    with i ip nl o show "\<not> (state (proc ?t q) = SLEEPING \<and> chan (proc ?t q) = Some (At_proc q))"
      unfolding no_lost_exit_def by metis
  qed
  ultimately show ?thesis by (simp add: proc_inv_def)
qed

lemma wait_inv:
  assumes inv: "proc_inv t" and p: "p < NPROC" "state (proc t p) = RUNNING"
  shows "proc_inv (snd (kwait a b p t))"
proof (cases "find (\<lambda>i. parent (proc t i) = Some p \<and> state (proc t i) = ZOMBIE) table")
  case (Some pp)
  then show ?thesis using free_inv[OF inv] find_table_Some[OF Some] inv by (simp add: kwait_def)
next
  case None
  then have nz: "i < NPROC \<Longrightarrow> parent (proc t i) = Some p \<Longrightarrow> state (proc t i) \<noteq> ZOMBIE" for i
    by (simp add: find_table_None)
  let ?t = "sleep p (At_proc p) t"
  have c: "calm t ?t" unfolding sleep_def by (rule calm_set) (use p in auto)
  have par: "parent (proc ?t i) = parent (proc t i)" for i by (cases "i = p") (auto simp: sleep_def)
  have "no_lost_exit ?t"
    unfolding no_lost_exit_def
  proof (intro allI impI)
    fix i q assume i: "i < NPROC" "state (proc ?t i) = ZOMBIE" "parent (proc ?t i) = Some q"
    then have z: "state (proc t i) = ZOMBIE" "parent (proc t i) = Some q" using calmD(6)[OF c] par by auto
    then have "q \<noteq> p" using nz[OF i(1)] by auto
    with inv i z show "\<not> (state (proc ?t q) = SLEEPING \<and> chan (proc ?t q) = Some (At_proc q))"
      by (auto simp: proc_inv_def no_lost_exit_def sleep_def)
  qed
  with calm_ok[OF _ c par] inv have "proc_inv ?t" by (simp add: proc_inv_def)
  then show ?thesis using None inv by (simp add: kwait_def)
qed

lemma kill_inv:
  assumes inv: "proc_inv t"
  shows "proc_inv (snd (kkill n t))"
proof (cases "find (\<lambda>i. pid (proc t i) = n) table")
  case None
  then show ?thesis using inv by (simp add: kkill_def)
next
  case (Some p)
  have "proc_inv (set_proc p (\<lambda>x. x\<lparr>killed_flag := 1,
         state := (if state x = SLEEPING then RUNNABLE else state x)\<rparr>) t)"
    by (rule calm_set_inv[OF inv]) auto
  then show ?thesis using Some by (simp add: kkill_def)
qed

lemma proc_step_inv: "proc_step t t' \<Longrightarrow> proc_inv t \<Longrightarrow> proc_inv t'"
proof (induction rule: proc_step.induct)
  case (fork p t a b c)
  then show ?case by (intro fork_inv)
next
  case (exit p t st t')
  show ?case by (rule exit_inv[OF exit(4,1,2,3)])
next
  case (wait p t a b)
  then show ?case by (intro wait_inv)
next
  case (sleep p t c)
  then show ?case unfolding Proc.sleep_def by (intro calm_set_inv) auto
next
  case (wakeup t p c)
  then show ?case by (rule wakeup_inv)
next
  case (kill t n)
  then show ?case by (rule kill_inv)
next
  case (mark t p)
  then show ?case unfolding setkilled_def by (intro calm_set_inv) auto
next
  case (yield p t)
  then show ?case unfolding Proc.yield_def by (intro calm_set_inv) auto
next
  case (pick i t)
  show ?case
  proof (cases "state (proc t i) = RUNNABLE")
    case True
    have "proc_inv (set_proc i (\<lambda>x. x\<lparr>state := RUNNING, chan := None\<rparr>) t)"
      by (rule calm_set_inv[OF pick(2)]) (use True in auto)
    with True show ?thesis by (simp add: scheduler_pick_def)
  next
    case False
    with pick(2) show ?thesis by (simp add: scheduler_pick_def)
  qed
qed


interpretation procs: invariant_system proc_inv proc_step proc_inv
  by unfold_locales (auto intro: proc_step_inv)

section \<open>Process ids\<close>

text \<open>A change that keeps the ids and which entries are unused.\<close>

definition same_ids :: "ptable \<Rightarrow> ptable \<Rightarrow> bool" where
  "same_ids t t' \<longleftrightarrow> nextpid t' = nextpid t \<and>
     (\<forall>i. pid (proc t' i) = pid (proc t i) \<and> (state (proc t' i) = UNUSED \<longleftrightarrow> state (proc t i) = UNUSED))"

lemma same_ids_calm: "calm t t' \<Longrightarrow> same_ids t t'"
  by (simp add: calm_def same_ids_def)

lemma same_ids_trans: "same_ids t u \<Longrightarrow> same_ids u v \<Longrightarrow> same_ids t v"
  by (simp add: same_ids_def)

lemma same_ids_set:
  "(\<And>x. pid (f x) = pid x) \<Longrightarrow> (state (f (proc t i)) = UNUSED \<longleftrightarrow> state (proc t i) = UNUSED) \<Longrightarrow> same_ids t (set_proc i f t)"
  by (auto simp: same_ids_def set_proc_def)

lemma pids_same: "same_ids t t' \<Longrightarrow> pids_ok t \<Longrightarrow> pids_ok t'"
  by (simp add: same_ids_def pids_ok_def)

lemma pids_free: "pids_ok t \<Longrightarrow> pids_ok (freeproc p t)"
  by (auto simp: pids_ok_def freeproc_def set_proc_def)

lemma pids_fork:
  assumes ok: "pids_ok t" and p: "state (proc t p) = RUNNING" and small: "nextpid t < INT_MAX"
  shows "pids_ok (snd (kfork a b c p t))"
proof -
  obtain n t' where r: "kfork a b c p t = (n, t')" by fastforce
  consider "t' = t" | np x where "np < NPROC" "state (proc t np) = UNUSED"
     "t' = t\<lparr>nextpid := nextpid (snd (allocpid t)), proc := (proc t)(np := x)\<rparr>"
     "state x = UNUSED \<and> pid x = 0 \<or> state x = RUNNABLE \<and> pid x = nextpid t"
    using kfork_effect[OF p r] by blast
  then show ?thesis
  proof cases
    case 1
    then show ?thesis using ok r by simp
  next
    case 2
    have succ: "nextpid t' = nextpid t + 1" using 2(3) small by (simp add: allocpid_def)
    have ids: "pid (proc t i) \<noteq> nextpid t" if "i < NPROC" for i
      using ok that by (cases "state (proc t i) = UNUSED") (auto simp: pids_ok_def)
    have "i = j" if "i < NPROC" "j < NPROC" "state (proc t' i) \<noteq> UNUSED" "pid (proc t' i) = pid (proc t' j)" for i j
    proof (rule ccontr)
      assume ne: "i \<noteq> j"
      have pos: "k < NPROC \<Longrightarrow> state (proc t k) \<noteq> UNUSED \<Longrightarrow> pid (proc t k) \<noteq> 0" for k using ok unfolding pids_ok_def by fastforce
      have uniq: "state (proc t i) \<noteq> UNUSED \<Longrightarrow> pid (proc t i) \<noteq> pid (proc t j)" using ok that(1,2) ne unfolding pids_ok_def by blast
      consider "i = np" "j \<noteq> np" | "i \<noteq> np" "j = np" | "i \<noteq> np" "j \<noteq> np" using ne by blast
      then show False
      proof cases
        case 1
        then show False using that 2(3,4) ids[of j] by auto
      next
        case ij: 2
        then show False using that \<open>t' = _\<close> \<open>state x = UNUSED \<and> _ \<or> _\<close> ids[of i] pos[of i] by auto
      next
        case 3
        then show False using that 2(3) uniq by auto
      qed
    qed
    moreover have "0 < pid (proc t' i) \<and> pid (proc t' i) < nextpid t'" if "i < NPROC" "state (proc t' i) \<noteq> UNUSED" for i
      using that 2 ok succ by (cases "i = np") (auto simp: pids_ok_def)
    moreover have "pid (proc t' i) = 0" if "i < NPROC" "state (proc t' i) = UNUSED" for i
      using that 2 ok by (cases "i = np") (auto simp: pids_ok_def)
    moreover have "0 < nextpid t'" using ok succ by (simp add: pids_ok_def)
    ultimately have "pids_ok t'" unfolding pids_ok_def by blast
    then show ?thesis using r by simp
  qed
qed

lemma ids_exit:
  assumes ok: "links_ok t" and p: "state (proc t p) = RUNNING" and r: "kexit st p t = Inr t'"
  shows "same_ids t t'"
proof -
  have pi: "p \<noteq> initproc t" using r by (auto simp: kexit_def split: if_splits)
  let ?t1 = "set_proc p (\<lambda>x. x\<lparr>ofile := replicate NOFILE None, cwd := None\<rparr>) t"
  let ?t2 = "reparent p ?t1"
  have R: "reparented p {0..<NPROC} ?t1 ?t2" using reparent_effect[of ?t1 p] links_okD(1)[OF ok] pi by simp
  have a: "same_ids t ?t1" by (rule same_ids_set) auto
  have b: "same_ids ?t1 ?t2" using R by (intro same_ids_calm) (simp add: reparented_def)
  have s: "state (proc ?t2 p) \<noteq> UNUSED" using a b p by (simp add: same_ids_def)
  have z: "same_ids u (set_proc p (\<lambda>x. x\<lparr>xstate := st, state := ZOMBIE\<rparr>) u)" if "state (proc u p) \<noteq> UNUSED" for u
    using that by (intro same_ids_set) auto
  have "same_ids ?t2 t'"
  proof (cases "parent (proc ?t2 p)")
    case None
    then show ?thesis using r pi z[OF s] by (simp add: kexit_def Let_def)
  next
    case (Some q)
    have w: "same_ids ?t2 (wakeup p (At_proc q) ?t2)" by (rule same_ids_calm[OF calm_wakeup])
    then have "state (proc (wakeup p (At_proc q) ?t2) p) \<noteq> UNUSED" using s by (simp add: same_ids_def)
    then show ?thesis using r pi Some same_ids_trans[OF w z] by (simp add: kexit_def Let_def)
  qed
  then show ?thesis using same_ids_trans[OF a] same_ids_trans[OF b] by blast
qed

lemma pids_step:
  assumes "proc_step t t'" "links_ok t" "pids_ok t" "nextpid t < INT_MAX"
  shows "pids_ok t'"
  using assms
proof (induction rule: proc_step.induct)
  case (fork p t a b c)
  then show ?case by (intro pids_fork)
next
  case (exit p t st t')
  then show ?case using pids_same ids_exit by blast
next
  case (wait p t a b)
  then have "pids_ok (Proc.sleep p (At_proc p) t)"
    unfolding Proc.sleep_def by (intro pids_same[OF same_ids_set]) auto
  then show ?case using wait pids_free by (auto simp: kwait_def split: option.split)
next
  case (sleep p t c)
  then show ?case unfolding Proc.sleep_def by (intro pids_same[OF same_ids_set]) auto
next
  case (wakeup t p c)
  then show ?case using pids_same same_ids_calm calm_wakeup by blast
next
  case (kill t n)
  have "pids_ok (set_proc p (\<lambda>x. x\<lparr>killed_flag := 1, state := (if state x = SLEEPING then RUNNABLE else state x)\<rparr>) t)" for p
    using kill by (intro pids_same[OF same_ids_set]) auto
  then show ?case using kill by (auto simp: kkill_def split: option.split)
next
  case (mark t p)
  then show ?case unfolding setkilled_def by (intro pids_same[OF same_ids_set]) auto
next
  case (yield p t)
  then show ?case unfolding Proc.yield_def by (intro pids_same[OF same_ids_set]) auto
next
  case (pick i t)
  then have "pids_ok (set_proc i (\<lambda>x. x\<lparr>state := RUNNING, chan := None\<rparr>) t)" if "state (proc t i) = RUNNABLE"
    using that by (intro pids_same[OF same_ids_set]) auto
  then show ?case using pick by (auto simp: scheduler_pick_def)
qed

text \<open>A step taken before the ids run out.\<close>

definition early_step :: "ptable \<Rightarrow> ptable \<Rightarrow> bool" where
  "early_step t t' \<longleftrightarrow> proc_step t t' \<and> nextpid t < INT_MAX"

lemma early_inv: "early_step t t' \<Longrightarrow> proc_inv t \<and> pids_ok t \<Longrightarrow> proc_inv t' \<and> pids_ok t'"
  using proc_step_inv pids_step by (auto simp: early_step_def proc_inv_def)


section \<open>Properties\<close>

text \<open>The table after \<^verbatim>\<open>procinit\<close> and \<^verbatim>\<open>userinit\<close> on zeroed memory.\<close>

definition zero_proc :: proc where
  "zero_proc = \<lparr>state = UNUSED, chan = None, killed_flag = 0, xstate = 0, pid = 0, parent = None, sz = 0,
     trapframe = False, pagetable = False, ofile = replicate NOFILE None, cwd = None, p_name = [], trace_mask = 0\<rparr>"

definition boot_table :: "fault + ptable" where
  "boot_table = userinit None (procinit \<lparr>proc = (\<lambda>_. zero_proc), nextpid = 1, initproc = 0\<rparr>)"

lemma table_Cons: "table = 0 # [1..<NPROC]"
  by (simp add: NPROC_def upt_conv_Cons)

lemma boot_table_ok: "\<exists>t. boot_table = Inr t \<and> proc_inv t \<and> pids_ok t \<and> state (proc t 0) = RUNNABLE \<and> initproc t = 0 \<and>
  state (proc t 1) = UNUSED \<and> nextpid t < INT_MAX"
proof -
  let ?z = "procinit \<lparr>proc = (\<lambda>_. zero_proc), nextpid = 1, initproc = 0\<rparr>"
  have z: "?z = \<lparr>proc = (\<lambda>_. zero_proc), nextpid = 1, initproc = 0\<rparr>"
    by (auto simp: procinit_def zero_proc_def)
  define x where "x = zero_proc\<lparr>pid := 1, state := RUNNABLE, trapframe := True, pagetable := True, cwd := None\<rparr>"
  define t where "t = \<lparr>proc = (\<lambda>_. zero_proc)(0 := x), nextpid = 2, initproc = 0\<rparr>"
  have "boot_table = Inr t"
    unfolding boot_table_def z
    by (simp add: userinit_def allocproc_def table_Cons zero_proc_def allocpid_def INT_MAX_def set_proc_def Let_def
        t_def x_def del: upt_Suc)
  moreover have "links_ok t"
    by (rule links_okI) (auto simp: t_def x_def zero_proc_def NPROC_def split: if_splits)
  moreover have "pids_ok t" by (simp add: pids_ok_def t_def x_def zero_proc_def)
  moreover have "no_lost_exit t" by (auto simp: no_lost_exit_def t_def x_def zero_proc_def)
  moreover have "state (proc t 0) = RUNNABLE" "initproc t = 0" "state (proc t 1) = UNUSED" "nextpid t < INT_MAX"
    by (auto simp: t_def x_def zero_proc_def INT_MAX_def)
  ultimately show ?thesis by (auto simp: proc_inv_def)
qed

lemma kexit_total: "p \<noteq> initproc t \<Longrightarrow> \<exists>t'. kexit st p t = Inr t'"
  by (simp add: kexit_def Let_def split: option.split)

lemma boot_table_inv: "boot_table = Inr t \<Longrightarrow> proc_inv t \<and> pids_ok t"
  using boot_table_ok by (metis sum.inject(2))



text \<open>
  C15: No exit is lost. In every reachable table, a process that sleeps in wait has no zombie
  child; so when a child has exited, its parent is awake, and its next pass through wait returns
  the pid of a zombie child and frees exactly that entry.
\<close>

theorem wait_no_lost_exit:
  assumes "boot_table = Inr t0" "proc_step\<^sup>*\<^sup>* t0 t"
    and "i < NPROC" "state (proc t i) = ZOMBIE" "parent (proc t i) = Some q"
  shows "\<not> (state (proc t q) = SLEEPING \<and> chan (proc t q) = Some (At_proc q)) \<and>
    (\<exists>z < NPROC. parent (proc t z) = Some q \<and> state (proc t z) = ZOMBIE \<and>
      kwait False True q t = (WaitDone (pid (proc t z)), freeproc z t))"
proof -
  have inv: "proc_inv t" using procs.rtranclp_inv[OF assms(2)] boot_table_inv[OF assms(1)] by blast
  then have "\<not> (state (proc t q) = SLEEPING \<and> chan (proc t q) = Some (At_proc q))"
    using assms(3-5) by (auto simp: proc_inv_def no_lost_exit_def)
  moreover obtain z where z: "find (\<lambda>i. parent (proc t i) = Some q \<and> state (proc t i) = ZOMBIE) table = Some z"
    using find_table_None[of "\<lambda>i. parent (proc t i) = Some q \<and> state (proc t i) = ZOMBIE"] assms(3-5)
    by (cases "find (\<lambda>i. parent (proc t i) = Some q \<and> state (proc t i) = ZOMBIE) table") auto
  ultimately show ?thesis using find_table_Some[OF z] by (auto simp: kwait_def)
qed

theorem wait_no_lost_exit_witness:
  "\<exists>t0 t z. boot_table = Inr t0 \<and> proc_step\<^sup>*\<^sup>* t0 t \<and> state (proc t z) = ZOMBIE \<and>
    kwait False True 0 t = (WaitDone (pid (proc t z)), freeproc z t)"
proof -
  obtain t0 where t0: "boot_table = Inr t0" "proc_inv t0" "state (proc t0 0) = RUNNABLE" "initproc t0 = 0"
    "state (proc t0 1) = UNUSED" using boot_table_ok by blast
  have N: "(0 :: nat) < NPROC" "(1 :: nat) < NPROC" by (simp_all add: NPROC_def)
  let ?t1 = "scheduler_pick 0 t0"
  have s1: "state (proc ?t1 0) = RUNNING" "state (proc ?t1 1) = UNUSED" "initproc ?t1 = 0"
    using t0 by (auto simp: scheduler_pick_def)
  let ?r = "kfork True True True 0 ?t1"
  have f: "find (\<lambda>i. state (proc ?t1 i) = UNUSED) table = Some 1"
    using s1 by (simp add: NPROC_def upt_conv_Cons)
  have r: "state (proc (snd ?r) 1) = RUNNABLE" "parent (proc (snd ?r) 1) = Some 0"
      "initproc (snd ?r) = 0" "state (proc (snd ?r) 0) = RUNNING"
    using s1 by (simp_all add: kfork_def allocproc_def f allocpid_def set_proc_def Let_def)
  let ?t2 = "scheduler_pick 1 (snd ?r)"
  have s2: "state (proc ?t2 1) = RUNNING" "parent (proc ?t2 1) = Some 0" "initproc ?t2 = 0"
    using r by (simp_all add: scheduler_pick_def)
  obtain t3 where t3: "kexit 0 1 ?t2 = Inr t3"
    using kexit_total[of 1 ?t2] s2(3) by auto
  have steps: "proc_step\<^sup>*\<^sup>* t0 t3"
    using proc_step.pick[OF N(1), of t0] proc_step.fork[OF N(1) s1(1), of True True True]
      proc_step.pick[OF N(2), of "snd ?r"] proc_step.exit[OF N(2) s2(1) t3]
    by (meson converse_rtranclp_into_rtranclp rtranclp.rtrancl_refl)
  let ?u = "set_proc 1 (\<lambda>x. x\<lparr>ofile := replicate NOFILE None, cwd := None\<rparr>) ?t2"
  have R: "reparented 1 {0..<NPROC} ?u (reparent 1 ?u)" using reparent_effect[of ?u 1] s2 N by simp
  have "parent (proc (reparent 1 ?u) 1) = Some 0" using R s2 by (simp add: reparented_def)
  then have z: "state (proc t3 1) = ZOMBIE" "parent (proc t3 1) = Some 0"
    using t3 s2 by (auto simp: kexit_def Let_def wakeup_def)
  from wait_no_lost_exit[OF t0(1) steps N(2) z] t0(1) steps show ?thesis by blast
qed

text \<open>
  C16: A process can be born killed. Kill with pid 0 succeeds and marks an unused table entry, and
  the next fork that takes this entry returns a child whose killed flag is set.
\<close>

theorem kill_zero_poisons_fork:
  assumes ok: "ptable_ok t" and free: "find (\<lambda>i. state (proc t i) = UNUSED) table = Some np"
    and p: "p < NPROC" "state (proc t p) = RUNNING"
  shows "fst (kkill 0 t) = 0 \<and>
    (let (n, t') = kfork True True True p (snd (kkill 0 t)) in
       0 < n \<and> pid (proc t' np) = n \<and> state (proc t' np) = RUNNABLE \<and> killed np t')"
proof -
  have pids: "pids_ok t" using ok by (simp add: ptable_ok_def)
  have np: "np < NPROC" "state (proc t np) = UNUSED" using find_table_Some[OF free] by auto
  have iff: "i < NPROC \<Longrightarrow> pid (proc t i) = 0 \<longleftrightarrow> state (proc t i) = UNUSED" for i
    using pids unfolding pids_ok_def by force
  have z: "find (\<lambda>i. pid (proc t i) = 0) table = Some np"
  proof -
    have "find (\<lambda>i. pid (proc t i) = 0) table = find (\<lambda>i. state (proc t i) = UNUSED) table"
      by (rule find_cong) (use iff in auto)
    then show ?thesis using free by simp
  qed
  let ?t = "set_proc np (\<lambda>x. x\<lparr>killed_flag := 1, state := (if state x = SLEEPING then RUNNABLE else state x)\<rparr>) t"
  have k: "kkill 0 t = (0, ?t)" by (simp add: kkill_def z)
  have same: "state (proc ?t i) = state (proc t i)" for i using np by (cases "i = np") auto
  have f: "find (\<lambda>i. state (proc ?t i) = UNUSED) table = Some np" using free by (simp add: same)
  define u where "u = ?t"
  have u: "find (\<lambda>i. state (proc u i) = UNUSED) table = Some np" "killed_flag (proc u np) = 1" "nextpid u = nextpid t"
    using f by (simp_all add: u_def)
  have "np \<noteq> p" using np p by auto
  with pids u show ?thesis
    unfolding k u_def[symmetric] pids_ok_def
    by (simp add: kfork_def allocproc_def allocpid_def set_proc_def killed_def Let_def)
qed

theorem kill_zero_poisons_fork_witness:
  "\<exists>t. fst (kkill 0 t) = 0 \<and> killed 1 (snd (kfork True True True 0 (snd (kkill 0 t))))"
proof -
  obtain t0 where t0: "boot_table = Inr t0" "proc_inv t0 \<and> pids_ok t0" "state (proc t0 0) = RUNNABLE" "initproc t0 = 0"
    "state (proc t0 1) = UNUSED" "nextpid t0 < INT_MAX" using boot_table_ok by blast
  have N: "(0 :: nat) < NPROC" by (simp add: NPROC_def)
  let ?t = "scheduler_pick 0 t0"
  have s: "state (proc ?t 0) = RUNNING" "state (proc ?t 1) = UNUSED" using t0 by (auto simp: scheduler_pick_def)
  have f: "find (\<lambda>i. state (proc ?t i) = UNUSED) table = Some 1"
    using s by (simp add: NPROC_def upt_conv_Cons)
  have "early_step t0 ?t" using proc_step.pick[OF N] t0(6) by (simp add: early_step_def)
  from early_inv[OF this t0(2)] have "ptable_ok ?t" by (simp add: proc_inv_def ptable_ok_def)
  from kill_zero_poisons_fork[OF this f N s(1)] show ?thesis by (auto simp: Let_def split: prod.splits)
qed

end
