(* ===== verification/Locks.thy ===== *)
theory Locks
  imports Proc_Spec
begin

text \<open>
  The blocking locks of the kernel: the mutex system calls at the end of \<^verbatim>\<open>kernel/proc.c\<close> and
  the sleep locks of \<^verbatim>\<open>kernel/sleeplock.c\<close>. Both keep a flag under a spin lock, sleep on
  their own address while it is set and wake every sleeper when they clear it. Their common
  contract is a locale. A call that has to wait is one pass of its loop up to the sleep; when
  the process runs again the pass is repeated.
\<close>

section \<open>Mutexes\<close>

definition NMUTEX :: nat where "NMUTEX = 64"

record mutex =
  mtx_locked :: int
  mtx_used :: int
  mtx_owner :: "nat option"

record kernel =
  ptab :: ptable
  mutexes :: "nat \<Rightarrow> mutex"

datatype lock_result = LockDone int | LockSleeps

definition mutexinit :: "kernel \<Rightarrow> kernel" where
  "mutexinit k = k\<lparr>mutexes := (\<lambda>i. if i < NMUTEX then \<lparr>mtx_locked = 0, mtx_used = 0, mtx_owner = None\<rparr> else mutexes k i)\<rparr>"

definition sys_mtx_create :: "int \<Rightarrow> nat \<Rightarrow> kernel \<Rightarrow> int \<times> kernel" where
  "sys_mtx_create locked me k =
    (case find (\<lambda>i. mtx_used (mutexes k i) = 0) [0..<NMUTEX] of
       Some i \<Rightarrow> (int i, k\<lparr>mutexes := (mutexes k)(i := \<lparr>mtx_locked = (if locked \<noteq> 0 then 1 else 0),
         mtx_used = 1, mtx_owner = (if locked \<noteq> 0 then Some me else None)\<rparr>)\<rparr>)
     | None \<Rightarrow> (-1, k))"

text \<open>The loop of \<^verbatim>\<open>sys_mtx_lock\<close>: take the free mutex, or sleep on it.\<close>

definition mtx_lock_pass :: "nat \<Rightarrow> nat \<Rightarrow> kernel \<Rightarrow> lock_result \<times> kernel" where
  "mtx_lock_pass i me k =
    (if mtx_locked (mutexes k i) \<noteq> 0 then (LockSleeps, k\<lparr>ptab := sleep me (At_mutex i) (ptab k)\<rparr>)
     else (LockDone 0, k\<lparr>mutexes := (mutexes k)(i := (mutexes k i)\<lparr>mtx_locked := 1, mtx_owner := Some me\<rparr>)\<rparr>))"

definition sys_mtx_lock :: "int \<Rightarrow> nat \<Rightarrow> kernel \<Rightarrow> lock_result \<times> kernel" where
  "sys_mtx_lock lock_id me k =
    (if lock_id < 0 \<or> lock_id \<ge> int NMUTEX then (LockDone (-1), k)
     else if mtx_used (mutexes k (nat lock_id)) = 0 then (LockDone (-1), k)
     else mtx_lock_pass (nat lock_id) me k)"

definition sys_mtx_unlock :: "int \<Rightarrow> nat \<Rightarrow> kernel \<Rightarrow> int \<times> kernel" where
  "sys_mtx_unlock lock_id me k =
    (if lock_id < 0 \<or> lock_id \<ge> int NMUTEX then (-1, k)
     else let i = nat lock_id in
       if mtx_used (mutexes k i) = 0 \<or> mtx_locked (mutexes k i) = 0 then (-1, k)
       else (0, k\<lparr>mutexes := (mutexes k)(i := (mutexes k i)\<lparr>mtx_locked := 0, mtx_owner := None\<rparr>),
                 ptab := wakeup me (At_mutex i) (ptab k)\<rparr>))"

section \<open>Sleep locks\<close>

record sleeplock =
  slk_locked :: bool
  slk_pid :: int

record slk_sys =
  slk :: sleeplock
  slk_tab :: ptable

definition initsleeplock :: sleeplock where
  "initsleeplock = \<lparr>slk_locked = False, slk_pid = 0\<rparr>"

text \<open>The lock at address \<open>a\<close>.\<close>

definition acquiresleep :: "nat \<Rightarrow> nat \<Rightarrow> slk_sys \<Rightarrow> lock_result \<times> slk_sys" where
  "acquiresleep a me s =
    (if slk_locked (slk s) then (LockSleeps, s\<lparr>slk_tab := sleep me (At_obj a) (slk_tab s)\<rparr>)
     else (LockDone 0, s\<lparr>slk := \<lparr>slk_locked = True, slk_pid = pid (proc (slk_tab s) me)\<rparr>\<rparr>))"

definition releasesleep :: "nat \<Rightarrow> nat \<Rightarrow> slk_sys \<Rightarrow> slk_sys" where
  "releasesleep a me s =
    s\<lparr>slk := \<lparr>slk_locked = False, slk_pid = 0\<rparr>, slk_tab := wakeup me (At_obj a) (slk_tab s)\<rparr>"

definition holdingsleep :: "nat \<Rightarrow> slk_sys \<Rightarrow> bool" where
  "holdingsleep me s \<longleftrightarrow> slk_locked (slk s) \<and> slk_pid (slk s) = pid (proc (slk_tab s) me)"

section \<open>The contract of a blocking lock\<close>

text \<open>
  Processes using a lock: a running process that does not hold it attempts to take it, a running
  holder gives it back, and in between the rest of the kernel changes the process table without
  putting anyone to sleep on the lock's channel. The second component is the set of holders.
\<close>

inductive lock_use ::
  "(nat \<Rightarrow> 'k \<Rightarrow> lock_result \<times> 'k) \<Rightarrow> (nat \<Rightarrow> 'k \<Rightarrow> 'k) \<Rightarrow> ('k \<Rightarrow> ptable) \<Rightarrow> (ptable \<Rightarrow> 'k \<Rightarrow> 'k) \<Rightarrow> chan
    \<Rightarrow> 'k \<times> nat set \<Rightarrow> 'k \<times> nat set \<Rightarrow> bool"
  for attempt unlock tab set_tab c where
  got: "p < NPROC \<Longrightarrow> state (proc (tab k) p) = RUNNING \<Longrightarrow> p \<notin> H \<Longrightarrow> attempt p k = (LockDone r, k') \<Longrightarrow>
    lock_use attempt unlock tab set_tab c (k, H) (k', insert p H)"
| waits: "p < NPROC \<Longrightarrow> state (proc (tab k) p) = RUNNING \<Longrightarrow> p \<notin> H \<Longrightarrow> attempt p k = (LockSleeps, k') \<Longrightarrow>
    lock_use attempt unlock tab set_tab c (k, H) (k', H)"
| gives: "p < NPROC \<Longrightarrow> state (proc (tab k) p) = RUNNING \<Longrightarrow> p \<in> H \<Longrightarrow>
    lock_use attempt unlock tab set_tab c (k, H) (unlock p k, H - {p})"
| other: "proc_step (tab k) t \<Longrightarrow> \<forall>p < NPROC. asleep c p t \<longrightarrow> asleep c p (tab k) \<Longrightarrow>
    lock_use attempt unlock tab set_tab c (k, H) (set_tab t k, H)"

text \<open>A held lock has one holder; a free lock has none and nobody sleeps on it.\<close>

definition use_inv :: "('k \<Rightarrow> bool) \<Rightarrow> ('k \<Rightarrow> bool) \<Rightarrow> ('k \<Rightarrow> ptable) \<Rightarrow> chan \<Rightarrow> 'k \<times> nat set \<Rightarrow> bool" where
  "use_inv valid locked tab c s \<longleftrightarrow> (case s of (k, H) \<Rightarrow> valid k \<and> (if locked k then \<exists>h. H = {h}
     else H = {} \<and> (\<forall>p < NPROC. \<not> asleep c p (tab k))))"

locale blocking_lock =
  fixes valid :: "'k \<Rightarrow> bool"
    and locked :: "'k \<Rightarrow> bool"
    and attempt :: "nat \<Rightarrow> 'k \<Rightarrow> lock_result \<times> 'k"
    and unlock :: "nat \<Rightarrow> 'k \<Rightarrow> 'k"
    and tab :: "'k \<Rightarrow> ptable"
    and set_tab :: "ptable \<Rightarrow> 'k \<Rightarrow> 'k"
    and c :: chan
  assumes attempt_free: "valid k \<Longrightarrow> \<not> locked k \<Longrightarrow>
      \<exists>k'. attempt p k = (LockDone 0, k') \<and> locked k' \<and> tab k' = tab k \<and> valid k'"
    and attempt_busy: "valid k \<Longrightarrow> locked k \<Longrightarrow>
      \<exists>k'. attempt p k = (LockSleeps, k') \<and> locked k' \<and> tab k' = sleep p c (tab k) \<and> valid k'"
    and unlock_frees: "valid k \<Longrightarrow> locked k \<Longrightarrow>
      \<not> locked (unlock p k) \<and> tab (unlock p k) = wakeup p c (tab k) \<and> valid (unlock p k)"
    and set_tab_frame: "tab (set_tab t k) = t" "locked (set_tab t k) = locked k" "valid (set_tab t k) = valid k"
begin

lemma use_step:
  assumes "lock_use attempt unlock tab set_tab c s s'" "use_inv valid locked tab c s"
  shows "use_inv valid locked tab c s'"
  using assms
proof (induction rule: lock_use.induct)
  case (got p k H r k')
  have v: "valid k" using got by (simp add: use_inv_def)
  have "\<not> locked k" using attempt_busy[OF v, of p] got(4) by auto
  with attempt_free[OF v this, of p] got show ?case by (auto simp: use_inv_def)
next
  case (waits p k H k')
  have v: "valid k" using waits by (simp add: use_inv_def)
  have "locked k" using attempt_free[OF v, of p] waits(4) by auto
  with attempt_busy[OF v this, of p] waits show ?case by (auto simp: use_inv_def)
next
  case (gives p k H)
  have v: "valid k" "locked k" using gives by (auto simp: use_inv_def split: if_splits)
  moreover from this obtain h where "H = {h}" using gives by (auto simp: use_inv_def)
  moreover have "\<not> asleep c q (wakeup p c (tab k))" if "q < NPROC" for q
    using gives(2) that by (auto simp: asleep_def wakeup_def)
  ultimately show ?case using unlock_frees[OF v, of p] gives(3) by (auto simp: use_inv_def)
next
  case (other k t H)
  then show ?case using set_tab_frame[of t k] by (auto simp: use_inv_def split: if_splits)
qed

lemma use_reachable:
  "(lock_use attempt unlock tab set_tab c)\<^sup>*\<^sup>* s s' \<Longrightarrow> use_inv valid locked tab c s \<Longrightarrow> use_inv valid locked tab c s'"
  by (induction rule: rtranclp_induct) (auto intro: use_step)

lemma exclusive:
  assumes "(lock_use attempt unlock tab set_tab c)\<^sup>*\<^sup>* (k, {}) (k', H)" "valid k" "\<not> locked k"
    "\<forall>p < NPROC. \<not> asleep c p (tab k)"
  shows "(\<exists>h. H \<subseteq> {h}) \<and> (p < NPROC \<longrightarrow> asleep c p (tab k') \<longrightarrow> H \<noteq> {}) \<and> (locked k' \<longleftrightarrow> H \<noteq> {})"
  using use_reachable[OF assms(1)] assms(2-4) by (auto simp: use_inv_def split: if_splits)

end

definition mutex_exists :: "nat \<Rightarrow> kernel \<Rightarrow> bool" where
  "mutex_exists i k \<longleftrightarrow> i < NMUTEX \<and> mtx_used (mutexes k i) \<noteq> 0"

definition mutex_locked :: "nat \<Rightarrow> kernel \<Rightarrow> bool" where
  "mutex_locked i k \<longleftrightarrow> mtx_locked (mutexes k i) \<noteq> 0"

abbreviation mtx_use :: "nat \<Rightarrow> kernel \<times> nat set \<Rightarrow> kernel \<times> nat set \<Rightarrow> bool" where
  "mtx_use i \<equiv> lock_use (sys_mtx_lock (int i)) (\<lambda>me k. snd (sys_mtx_unlock (int i) me k)) ptab
     (\<lambda>t k. k\<lparr>ptab := t\<rparr>) (At_mutex i)"

interpretation mtx: blocking_lock "mutex_exists i" "mutex_locked i" "sys_mtx_lock (int i)"
  "\<lambda>me k. snd (sys_mtx_unlock (int i) me k)" ptab "\<lambda>t k. k\<lparr>ptab := t\<rparr>" "At_mutex i" for i
  by unfold_locales (auto simp: sys_mtx_lock_def sys_mtx_unlock_def mtx_lock_pass_def mutex_exists_def
      mutex_locked_def Let_def)

abbreviation slk_use :: "nat \<Rightarrow> slk_sys \<times> nat set \<Rightarrow> slk_sys \<times> nat set \<Rightarrow> bool" where
  "slk_use a \<equiv> lock_use (acquiresleep a) (releasesleep a) slk_tab (\<lambda>t s. s\<lparr>slk_tab := t\<rparr>) (At_obj a)"

interpretation slp: blocking_lock "\<lambda>_. True" "\<lambda>s. slk_locked (slk s)" "acquiresleep a" "releasesleep a"
  slk_tab "\<lambda>t s. s\<lparr>slk_tab := t\<rparr>" "At_obj a" for a
  by unfold_locales (auto simp: acquiresleep_def releasesleep_def)

section \<open>Properties\<close>

text \<open>
  C17: The mutex system calls exclude, as long as only holders unlock: from a kernel where the
  mutex exists, is free and has no sleepers, at most one process ever holds it, the lock flag
  says whether somebody does, and no process sleeps on a free mutex, so no wakeup is lost.
\<close>

theorem mutex_exclusion:
  assumes "(mtx_use i)\<^sup>*\<^sup>* (k, {}) (k', H)" "mutex_exists i k" "\<not> mutex_locked i k"
    "\<forall>p < NPROC. \<not> asleep (At_mutex i) p (ptab k)"
  shows "(\<exists>h. H \<subseteq> {h}) \<and> (p < NPROC \<longrightarrow> asleep (At_mutex i) p (ptab k') \<longrightarrow> H \<noteq> {}) \<and>
    (mutex_locked i k' \<longleftrightarrow> H \<noteq> {})"
  using mtx.exclusive[OF assms] .

theorem mutex_exclusion_witness:
  "\<exists>k k'. (mtx_use 0)\<^sup>*\<^sup>* (k, {}) (k', {0}) \<and> mutex_locked 0 k'"
proof -
  obtain t0 where t0: "boot_table = Inr t0" "state (proc t0 0) = RUNNABLE" "proc_inv t0" using boot_table_ok by blast
  define t where "t = scheduler_pick 0 t0"
  have t: "state (proc t 0) = RUNNING" using t0 by (simp add: t_def scheduler_pick_def)
  let ?t = "wakeup 0 (At_mutex 0) t"
  have na: "\<forall>p < NPROC. \<not> asleep (At_mutex 0) p ?t" using t by (auto simp: asleep_def wakeup_def)
  define k where "k = snd (sys_mtx_create 0 0 (mutexinit \<lparr>ptab = ?t, mutexes = (\<lambda>_. \<lparr>mtx_locked = 0, mtx_used = 0, mtx_owner = None\<rparr>)\<rparr>))"
  have f: "[0..<NMUTEX] = 0 # [1..<NMUTEX]" by (simp add: NMUTEX_def upt_conv_Cons)
  have pos: "0 < NMUTEX" by (simp add: NMUTEX_def)
  have k: "mutex_exists 0 k" "\<not> mutex_locked 0 k" "ptab k = ?t"
    by (simp_all add: k_def sys_mtx_create_def mutexinit_def f mutex_exists_def mutex_locked_def pos)
  obtain k' where k': "sys_mtx_lock (int 0) 0 k = (LockDone 0, k')" using mtx.attempt_free[OF k(1,2), of 0] by auto
  have "state (proc (ptab k) 0) = RUNNING" using t k(3) by (simp add: wakeup_def)
  then have "mtx_use 0 (k, {}) (k', insert 0 {})"
    by (intro lock_use.got[where r = 0]) (use k' in \<open>auto simp: NPROC_def\<close>)
  then have st: "(mtx_use 0)\<^sup>*\<^sup>* (k, {}) (k', {0})" by simp
  from mutex_exclusion[OF st k(1,2)] na k(3) st show ?thesis by auto
qed

text \<open>
  The unlock call does not ask who holds the mutex: any process that unlocks a locked mutex
  succeeds, and the next lock by anyone succeeds while the first holder still believes it holds
  the mutex.
\<close>

theorem mutex_unlock_by_anyone:
  assumes "mutex_exists i k" "mtx_owner (mutexes k i) = Some q" "mutex_locked i k" "p \<noteq> q"
  shows "\<exists>k1 k2. sys_mtx_unlock (int i) p k = (0, k1) \<and> sys_mtx_lock (int i) p k1 = (LockDone 0, k2) \<and>
    mtx_owner (mutexes k2 i) = Some p"
  using assms by (auto simp: sys_mtx_unlock_def sys_mtx_lock_def mtx_lock_pass_def mutex_exists_def mutex_locked_def Let_def)

theorem mutex_unlock_by_anyone_witness:
  "\<exists>k k1 k2. mtx_owner (mutexes k 3) = Some 5 \<and> sys_mtx_unlock 3 6 k = (0, k1) \<and>
    sys_mtx_lock 3 6 k1 = (LockDone 0, k2) \<and> mtx_owner (mutexes k2 3) = Some 6"
proof -
  obtain t0 where "boot_table = Inr t0" using boot_table_ok by blast
  let ?k = "\<lparr>ptab = t0, mutexes = (\<lambda>_. \<lparr>mtx_locked = 1, mtx_used = 1, mtx_owner = Some 5\<rparr>)\<rparr>"
  have "mutex_exists 3 ?k" "mutex_locked 3 ?k" "mtx_owner (mutexes ?k 3) = Some 5"
    by (simp_all add: mutex_exists_def mutex_locked_def NMUTEX_def)
  from mutex_unlock_by_anyone[OF this(1,3,2), of 6]
  obtain k1 k2 where "sys_mtx_unlock (int 3) 6 ?k = (0, k1)" "sys_mtx_lock (int 3) 6 k1 = (LockDone 0, k2)"
    "mtx_owner (mutexes k2 3) = Some 6" by auto
  then show ?thesis by (intro exI[of _ ?k] exI[of _ k1] exI[of _ k2]) simp
qed

text \<open>
  Sleep locks exclude: at most one process holds the lock, the flag says whether somebody
  does, and nobody sleeps on a free lock.
\<close>

theorem sleeplock_exclusion:
  assumes "(slk_use a)\<^sup>*\<^sup>* (s, {}) (s', H)" "\<not> slk_locked (slk s)" "\<forall>p < NPROC. \<not> asleep (At_obj a) p (slk_tab s)"
  shows "(\<exists>h. H \<subseteq> {h}) \<and> (p < NPROC \<longrightarrow> asleep (At_obj a) p (slk_tab s') \<longrightarrow> H \<noteq> {}) \<and>
    (slk_locked (slk s') \<longleftrightarrow> H \<noteq> {})"
  using slp.exclusive[OF assms(1) TrueI assms(2,3)] .

theorem sleeplock_exclusion_witness:
  "\<exists>s s'. (slk_use 8)\<^sup>*\<^sup>* (s, {}) (s', {0}) \<and> slk_locked (slk s')"
proof -
  obtain t0 where t0: "boot_table = Inr t0" "state (proc t0 0) = RUNNABLE" using boot_table_ok by blast
  define t where "t = wakeup 0 (At_obj 8) (scheduler_pick 0 t0)"
  have t: "state (proc t 0) = RUNNING" using t0 by (simp add: t_def scheduler_pick_def wakeup_def)
  have na: "\<forall>p < NPROC. \<not> asleep (At_obj 8) p t"
    using t by (auto simp: asleep_def t_def wakeup_def split: if_splits)
  let ?s = "\<lparr>slk = initsleeplock, slk_tab = t\<rparr>"
  have u: "\<not> slk_locked (slk ?s)" by (simp add: initsleeplock_def)
  obtain s' where s': "acquiresleep 8 0 ?s = (LockDone 0, s')" using slp.attempt_free[OF TrueI u, of 8 0] by auto
  have "slk_use 8 (?s, {}) (s', insert 0 {})"
    by (rule lock_use.got) (use t s' in \<open>auto simp: NPROC_def\<close>)
  then have st: "(slk_use 8)\<^sup>*\<^sup>* (?s, {}) (s', {0})" by simp
  from sleeplock_exclusion[OF st u] na st show ?thesis by auto
qed

end
