(* ===== verification/Cstring.thy ===== *)
theory Cstring
  imports Prelude "HOL-Library.Monad_Syntax"
begin

text \<open>
  The string and memory functions of \<^verbatim>\<open>kernel/string.c\<close> and \<^verbatim>\<open>user/ulib.c\<close> over a byte
  memory. An address is a natural number and the memory gives a byte at every address; which
  bytes a function reads and writes is explicit, so overlapping regions are covered. A loop
  that runs to a terminating zero is a partial function: \<^const>\<open>None\<close> when there is none.
\<close>

section \<open>Memory\<close>

type_synonym byte = "8 word"
type_synonym mem = "nat \<Rightarrow> byte"

text \<open>The loops \<^verbatim>\<open>*d++ = *s++\<close> and \<^verbatim>\<open>*--d = *--s\<close>, \<open>n\<close> times.\<close>

primrec copy_up :: "nat \<Rightarrow> nat \<Rightarrow> nat \<Rightarrow> mem \<Rightarrow> mem" where
  "copy_up d s 0 m = m"
| "copy_up d s (Suc n) m = copy_up (Suc d) (Suc s) n (m(d := m s))"

primrec copy_down :: "nat \<Rightarrow> nat \<Rightarrow> nat \<Rightarrow> mem \<Rightarrow> mem" where
  "copy_down d s 0 m = m"
| "copy_down d s (Suc n) m = copy_down (d - 1) (s - 1) n (m(d - 1 := m (s - 1)))"

section \<open>Kernel functions\<close>

primrec memset :: "nat \<Rightarrow> byte \<Rightarrow> nat \<Rightarrow> mem \<Rightarrow> mem" where
  "memset dst c 0 m = m"
| "memset dst c (Suc n) m = memset (Suc dst) c n (m(dst := c))"

primrec memcmp :: "nat \<Rightarrow> nat \<Rightarrow> nat \<Rightarrow> mem \<Rightarrow> int" where
  "memcmp s1 s2 0 m = 0"
| "memcmp s1 s2 (Suc n) m =
    (if m s1 \<noteq> m s2 then uint (m s1) - uint (m s2) else memcmp (Suc s1) (Suc s2) n m)"

definition memmove :: "nat \<Rightarrow> nat \<Rightarrow> nat \<Rightarrow> mem \<Rightarrow> mem" where
  "memmove dst src n m =
    (if n = 0 then m
     else if src < dst \<and> src + n > dst then copy_down (dst + n) (src + n) n m
     else copy_up dst src n m)"

definition memcpy :: "nat \<Rightarrow> nat \<Rightarrow> nat \<Rightarrow> mem \<Rightarrow> mem" where
  "memcpy dst src n m = memmove dst src n m"

primrec strncmp :: "nat \<Rightarrow> nat \<Rightarrow> nat \<Rightarrow> mem \<Rightarrow> int" where
  "strncmp p q 0 m = 0"
| "strncmp p q (Suc n) m =
    (if m p \<noteq> 0 \<and> m p = m q then strncmp (Suc p) (Suc q) n m
     else uint (m p) - uint (m q))"

primrec strncpy_loop :: "nat \<Rightarrow> nat \<Rightarrow> nat \<Rightarrow> mem \<Rightarrow> mem" where
  "strncpy_loop s t 0 m = m"
| "strncpy_loop s t (Suc n) m =
    (let m' = m(s := m t) in if m t \<noteq> 0 then strncpy_loop (Suc s) (Suc t) n m' else memset (Suc s) 0 n m')"

definition strncpy :: "nat \<Rightarrow> nat \<Rightarrow> int \<Rightarrow> mem \<Rightarrow> mem" where
  "strncpy s t n m = strncpy_loop s t (nat n) m"

text \<open>The copy loop of \<^verbatim>\<open>safestrcpy\<close> with the final store of zero where it stopped.\<close>

primrec safestrcpy_loop :: "nat \<Rightarrow> nat \<Rightarrow> nat \<Rightarrow> mem \<Rightarrow> mem" where
  "safestrcpy_loop s t 0 m = m(s := 0)"
| "safestrcpy_loop s t (Suc n) m =
    (let m' = m(s := m t) in if m t \<noteq> 0 then safestrcpy_loop (Suc s) (Suc t) n m' else m'(Suc s := 0))"

definition safestrcpy :: "nat \<Rightarrow> nat \<Rightarrow> int \<Rightarrow> mem \<Rightarrow> mem" where
  "safestrcpy s t n m = (if n \<le> 0 then m else safestrcpy_loop s t (nat n - 1) m)"

partial_function (option) strlen_from :: "nat \<Rightarrow> nat \<Rightarrow> mem \<Rightarrow> nat option" where
  "strlen_from n s m = (if m (s + n) \<noteq> 0 then strlen_from (Suc n) s m else Some n)"

definition strlen :: "nat \<Rightarrow> mem \<Rightarrow> nat option" where
  "strlen s m = strlen_from 0 s m"

section \<open>User library\<close>

partial_function (option) strcpy :: "nat \<Rightarrow> nat \<Rightarrow> mem \<Rightarrow> mem option" where
  "strcpy s t m = (let m' = m(s := m t) in if m t \<noteq> 0 then strcpy (Suc s) (Suc t) m' else Some m')"

partial_function (option) strcmp :: "nat \<Rightarrow> nat \<Rightarrow> mem \<Rightarrow> int option" where
  "strcmp p q m = (if m p \<noteq> 0 \<and> m p = m q then strcmp (Suc p) (Suc q) m else Some (uint (m p) - uint (m q)))"

text \<open>The result of \<^verbatim>\<open>strchr\<close> is the address found, or the inner \<^const>\<open>None\<close> for the NULL pointer.\<close>

partial_function (option) strchr :: "nat \<Rightarrow> byte \<Rightarrow> mem \<Rightarrow> nat option option" where
  "strchr s c m = (if m s = 0 then Some None else if m s = c then Some (Some s) else strchr (Suc s) c m)"

text \<open>
  \<^verbatim>\<open>gets\<close> with \<open>left\<close> more iterations allowed (\<^verbatim>\<open>max - 1 - i\<close>), storing at \<open>p\<close>; the list is what the
  one-byte reads still deliver, empty at the end of the file. The rest of it is returned too.
\<close>

fun gets_loop :: "nat \<Rightarrow> nat \<Rightarrow> byte list \<Rightarrow> mem \<Rightarrow> mem \<times> byte list" where
  "gets_loop p 0 inp m = (m(p := 0), inp)"
| "gets_loop p (Suc left) [] m = (m(p := 0), [])"
| "gets_loop p (Suc left) (c # inp) m =
    (let m' = m(p := c) in if c = 10 \<or> c = 13 then (m'(Suc p := 0), inp) else gets_loop (Suc p) left inp m')"

definition gets :: "nat \<Rightarrow> int \<Rightarrow> byte list \<Rightarrow> mem \<Rightarrow> mem \<times> byte list" where
  "gets buf limit inp m = gets_loop buf (nat (limit - 1)) inp m"

partial_function (option) atoi_from :: "int \<Rightarrow> nat \<Rightarrow> mem \<Rightarrow> int option" where
  "atoi_from n s m = (if 48 \<le> m s \<and> m s \<le> 57 then atoi_from (n * 10 + uint (m s) - 48) (Suc s) m else Some n)"

definition atoi :: "nat \<Rightarrow> mem \<Rightarrow> int option" where
  "atoi s m = atoi_from 0 s m"

definition ulib_memmove :: "nat \<Rightarrow> nat \<Rightarrow> int \<Rightarrow> mem \<Rightarrow> mem" where
  "ulib_memmove dst src n m =
    (if src > dst then copy_up dst src (nat n) m
     else copy_down (nat (int dst + n)) (nat (int src + n)) (nat n) m)"

primrec ulib_memcmp :: "nat \<Rightarrow> nat \<Rightarrow> nat \<Rightarrow> mem \<Rightarrow> int" where
  "ulib_memcmp p1 p2 0 m = 0"
| "ulib_memcmp p1 p2 (Suc n) m =
    (if m p1 \<noteq> m p2 then uint (m p1) - uint (m p2) else ulib_memcmp (Suc p1) (Suc p2) n m)"

definition ulib_memcpy :: "nat \<Rightarrow> nat \<Rightarrow> nat \<Rightarrow> mem \<Rightarrow> mem" where
  "ulib_memcpy dst src n m = ulib_memmove dst src (int n) m"

section \<open>Strings in memory\<close>

definition bytes_at :: "mem \<Rightarrow> nat \<Rightarrow> byte list \<Rightarrow> bool" where
  "bytes_at m s xs \<longleftrightarrow> map m [s..<s + length xs] = xs"

text \<open>The bytes of the string before its terminating zero.\<close>

definition cstr :: "mem \<Rightarrow> nat \<Rightarrow> byte list \<Rightarrow> bool" where
  "cstr m s xs \<longleftrightarrow> bytes_at m s (xs @ [0]) \<and> 0 \<notin> set xs"

text \<open>What a block copy should do: every byte of the target comes from the memory before the call.\<close>

definition block_copy :: "nat \<Rightarrow> nat \<Rightarrow> nat \<Rightarrow> mem \<Rightarrow> mem" where
  "block_copy dst src n m = (\<lambda>a. if dst \<le> a \<and> a < dst + n then m (src + (a - dst)) else m a)"

section \<open>Block operations\<close>

lemma memset_eq: "memset d c n m = (\<lambda>a. if d \<le> a \<and> a < d + n then c else m a)"
  by (induction n arbitrary: d m) (auto simp: fun_eq_iff)

lemma copy_up_eq: "d \<le> s \<or> s + n \<le> d \<Longrightarrow> copy_up d s n m = block_copy d s n m"
proof (induction n arbitrary: d s m)
  case (Suc n)
  have "copy_up (Suc d) (Suc s) n (m(d := m s)) = block_copy (Suc d) (Suc s) n (m(d := m s))"
    by (rule Suc.IH) (use Suc.prems in auto)
  also have "\<dots> = block_copy d s (Suc n) m"
    using Suc.prems by (auto simp: block_copy_def fun_eq_iff le_Suc_eq Suc_diff_le Suc_diff_Suc)
  finally show ?case by simp
qed (auto simp: block_copy_def fun_eq_iff)

lemma copy_down_eq: "s \<le> d \<or> d + n \<le> s \<Longrightarrow> copy_down (d + n) (s + n) n m = block_copy d s n m"
proof (induction n arbitrary: m)
  case (Suc n)
  have "copy_down (d + n) (s + n) n (m(d + n := m (s + n))) = block_copy d s n (m(d + n := m (s + n)))"
    by (rule Suc.IH) (use Suc.prems in auto)
  also have "\<dots> = block_copy d s (Suc n) m"
    using Suc.prems by (auto simp: block_copy_def fun_eq_iff less_Suc_eq)
  finally show ?case by simp
qed (auto simp: block_copy_def fun_eq_iff)

lemma memmove_eq: "memmove dst src n m = block_copy dst src n m"
proof (cases "n = 0")
  case True
  then show ?thesis by (auto simp: memmove_def block_copy_def fun_eq_iff)
next
  case False
  then show ?thesis by (cases "src < dst \<and> src + n > dst") (auto simp: memmove_def copy_up_eq copy_down_eq)
qed

text \<open>
  Both block moves are right for every overlap of the regions: the result is the copy of the
  bytes as they were before the call, and nothing else changes.
\<close>

theorem memmove_copies:
  "memmove dst src n m = block_copy dst src n m \<and> ulib_memmove dst src (int n) m = block_copy dst src n m"
proof
  show "ulib_memmove dst src (int n) m = block_copy dst src n m"
    by (cases "src > dst") (auto simp: ulib_memmove_def copy_up_eq copy_down_eq nat_int_add)
qed (rule memmove_eq)

section \<open>String operations\<close>

lemma bytes_at_Nil [simp]: "bytes_at m s []"
  by (simp add: bytes_at_def)

lemma bytes_at_Cons [simp]: "bytes_at m s (x # xs) \<longleftrightarrow> m s = x \<and> bytes_at m (Suc s) xs"
  by (simp add: bytes_at_def upt_conv_Cons del: upt_Suc)

lemma bytes_at_append [simp]: "bytes_at m s (xs @ ys) \<longleftrightarrow> bytes_at m s xs \<and> bytes_at m (s + length xs) ys"
  by (induction xs arbitrary: s) auto

lemma cstr_Nil [simp]: "cstr m s [] \<longleftrightarrow> m s = 0"
  by (simp add: cstr_def)

lemma cstr_Cons [simp]: "cstr m s (x # xs) \<longleftrightarrow> m s = x \<and> x \<noteq> 0 \<and> cstr m (Suc s) xs"
  by (auto simp: cstr_def)

lemma bytes_at_upd: "a < s \<or> s + length xs \<le> a \<Longrightarrow> bytes_at (m(a := v)) s xs \<longleftrightarrow> bytes_at m s xs"
  by (induction xs arbitrary: s) auto

lemma cstr_upd: "a < s \<or> s + length xs < a \<Longrightarrow> cstr (m(a := v)) s xs \<longleftrightarrow> cstr m s xs"
  by (auto simp: cstr_def bytes_at_upd)

lemma cstr_unique: "cstr m s xs \<Longrightarrow> cstr m s ys \<Longrightarrow> xs = ys"
proof (induction xs arbitrary: s ys)
  case (Cons x xs)
  then show ?case by (cases ys) auto
qed (case_tac ys; auto)

lemma strlen_from_cstr: "cstr m (s + n) xs \<Longrightarrow> strlen_from n s m = Some (n + length xs)"
  by (induction xs arbitrary: n) (subst strlen_from.simps; simp)+

lemma uint_eq_0: "uint (w :: byte) = 0 \<longleftrightarrow> w = 0"
  by (rule unsigned_eq_0_iff)

lemma uint_eq_iff: "uint (v :: byte) = uint w \<longleftrightarrow> v = w"
  by (metis word_uint_eq_iff)

lemma strcmp_cstr:
  "cstr m p xs \<Longrightarrow> cstr m q ys \<Longrightarrow> \<exists>d. strcmp p q m = Some d \<and> (d = 0 \<longleftrightarrow> xs = ys)"
proof (induction xs arbitrary: p q ys)
  case Nil
  then show ?case by (cases ys) (simp_all add: strcmp.simps[of p] uint_eq_0)
next
  case (Cons x xs)
  then show ?case by (cases ys) (auto simp add: strcmp.simps[of p] uint_eq_0 uint_eq_iff)
qed

lemma strcpy_cstr:
  "cstr m t xs \<Longrightarrow> s + length xs < t \<or> t + length xs < s \<Longrightarrow>
   \<exists>m'. strcpy s t m = Some m' \<and> cstr m' s xs \<and> (\<forall>a. a < s \<or> s + length xs < a \<longrightarrow> m' a = m a)"
proof (induction xs arbitrary: s t m)
  case Nil
  then show ?case by (simp add: strcpy.simps[of s])
next
  case (Cons x xs)
  then have "cstr (m(s := x)) (Suc t) xs" by (auto simp: cstr_upd)
  moreover have "Suc s + length xs < Suc t \<or> Suc t + length xs < Suc s" using Cons.prems by auto
  ultimately obtain m' where m': "strcpy (Suc s) (Suc t) (m(s := x)) = Some m'" "cstr m' (Suc s) xs"
    "\<forall>a. a < Suc s \<or> Suc s + length xs < a \<longrightarrow> m' a = (m(s := x)) a" using Cons.IH by blast
  then have "\<forall>a. a < s \<or> s + length (x # xs) < a \<longrightarrow> m' a = m a" "m' s = x" by auto
  with m' Cons.prems show ?case by (auto simp: strcpy.simps[of s])
qed

lemma safestrcpy_loop_cstr:
  "cstr m t xs \<Longrightarrow> s + n < t \<or> t + length xs < s \<Longrightarrow>
   cstr (safestrcpy_loop s t n m) s (take n xs) \<and> (\<forall>a. a < s \<or> s + n < a \<longrightarrow> safestrcpy_loop s t n m a = m a)"
proof (induction xs arbitrary: s t n m)
  case Nil
  then show ?case by (cases n) auto
next
  case (Cons x xs)
  show ?case
  proof (cases n)
    case (Suc k)
    define m' where "m' = m(s := x)"
    let ?r = "safestrcpy_loop (Suc s) (Suc t) k m'"
    have "cstr m' (Suc t) xs" using Cons.prems Suc by (auto simp: cstr_upd m'_def)
    then have r: "cstr ?r (Suc s) (take k xs)" "\<forall>a. a < Suc s \<or> Suc s + k < a \<longrightarrow> ?r a = m' a"
      using Cons.IH[of m' "Suc t" "Suc s" k] Cons.prems Suc by auto
    then have "?r s = x" "\<forall>a. a < s \<or> s + n < a \<longrightarrow> ?r a = m a" using Suc by (auto simp: m'_def)
    with r(1) Cons.prems Suc show ?thesis by (simp add: m'_def)
  qed simp
qed

text \<open>
  \<^verbatim>\<open>safestrcpy\<close> into a buffer of \<open>n\<close> bytes leaves there the terminated string of the first
  \<open>n - 1\<close> characters and changes no byte outside the buffer, and \<^verbatim>\<open>strlen\<close> of the result ends
  with its length.
\<close>

theorem safestrcpy_terminates:
  assumes "cstr m t xs" "0 < n" "s + nat n \<le> t \<or> t + length xs < s"
  shows "\<exists>m'. safestrcpy s t n m = m' \<and> cstr m' s (take (nat n - 1) xs) \<and>
    strlen s m' = Some (min (nat n - 1) (length xs)) \<and> (\<forall>a. a < s \<or> s + nat n \<le> a \<longrightarrow> m' a = m a)"
proof -
  have "s + (nat n - 1) < t \<or> t + length xs < s" using assms(2,3) by auto
  from safestrcpy_loop_cstr[OF assms(1) this]
  have *: "cstr (safestrcpy s t n m) s (take (nat n - 1) xs)"
    "\<forall>a. a < s \<or> s + (nat n - 1) < a \<longrightarrow> safestrcpy s t n m a = m a" using assms(2) by (auto simp: safestrcpy_def)
  then have "strlen s (safestrcpy s t n m) = Some (min (nat n - 1) (length xs))"
    using strlen_from_cstr[of _ s 0] by (simp add: strlen_def min.commute)
  with * assms(2) show ?thesis by auto
qed

theorem safestrcpy_terminates_witness:
  "\<exists>m'. safestrcpy 100 0 4 (\<lambda>a. if a < 6 then 65 else 0) = m' \<and> cstr m' 100 [65, 65, 65]"
proof -
  have "cstr (\<lambda>a. if a < 6 then 65 else 0) 0 [65, 65, 65, 65, 65, 65]" by simp
  from safestrcpy_terminates[OF this, of 4 100] show ?thesis by (simp add: eval_nat_numeral)
qed

end
