(* ===== verification/Printf.thy ===== *)
theory Printf
  imports Cstring
begin

unbundle bit_operations_syntax

text \<open>
  Formatted output: \<^verbatim>\<open>kernel/printf.c\<close> and \<^verbatim>\<open>user/printf.c\<close>, with \<^verbatim>\<open>consputc\<close> of
  \<^verbatim>\<open>kernel/console.c\<close>. The output is the list of bytes sent to the device, a variable argument
  is a word or a string pointer, and the digit buffer of 20 bytes is checked at every store.
\<close>

section \<open>Characters and arguments\<close>

text \<open>\<^verbatim>\<open>consputc\<close>: the bytes it sends to the serial line.\<close>

definition BACKSPACE :: int where "BACKSPACE = 0x100"

definition consputc :: "int \<Rightarrow> byte list" where
  "consputc c = (if c = BACKSPACE then [8, 32, 8] else [of_int c])"

definition kernel_digits :: "byte list" where
  "kernel_digits = [48, 49, 50, 51, 52, 53, 54, 55, 56, 57, 97, 98, 99, 100, 101, 102]"

definition user_digits :: "byte list" where
  "user_digits = [48, 49, 50, 51, 52, 53, 54, 55, 56, 57, 65, 66, 67, 68, 69, 70]"

datatype va = VWord "64 word" | VPtr "byte list option"

fun va_word :: "va list \<Rightarrow> fault + (64 word \<times> va list)" where
  "va_word (VWord w # ap) = Inr (w, ap)"
| "va_word _ = Inl OutOfBounds"

fun va_ptr :: "va list \<Rightarrow> fault + (byte list option \<times> va list)" where
  "va_ptr (VPtr s # ap) = Inr (s, ap)"
| "va_ptr _ = Inl OutOfBounds"

definition as_int :: "64 word \<Rightarrow> 64 word" where
  "as_int w = scast (ucast w :: 32 word)"

definition as_uint32 :: "64 word \<Rightarrow> 64 word" where
  "as_uint32 w = ucast (ucast w :: 32 word)"

text \<open>The byte at an index of the format string, zero at its end.\<close>

definition ch :: "byte list \<Rightarrow> nat \<Rightarrow> byte" where
  "ch fmt i = (if i < length fmt then fmt ! i else 0)"

section \<open>Integers\<close>

text \<open>The loop that fills \<^verbatim>\<open>buf[20]\<close>; the list is the part of the buffer written so far.\<close>

function digit_loop :: "byte list \<Rightarrow> 64 word \<Rightarrow> 64 word \<Rightarrow> byte list \<Rightarrow> fault + byte list" where
  "digit_loop D base x buf =
    (if 20 \<le> length buf then Inl OutOfBounds
     else let buf = buf @ [D ! unat (x mod base)] in
       if x div base \<noteq> 0 then digit_loop D base (x div base) buf else Inr buf)"
  by auto
termination by (relation "measure (\<lambda>(D, base, x, buf). 20 - length buf)") auto

declare digit_loop.simps [simp del]

definition put_sign :: "bool \<Rightarrow> byte list \<Rightarrow> fault + byte list" where
  "put_sign neg buf = (if neg then if 20 \<le> length buf then Inl OutOfBounds else Inr (buf @ [45]) else Inr buf)"

definition printint :: "byte list \<Rightarrow> 64 word \<Rightarrow> 64 word \<Rightarrow> bool \<Rightarrow> fault + byte list" where
  "printint D xx base sign =
    (let neg = (sign \<and> sint xx < 0); x = (if neg then - xx else xx) in
     rbind (digit_loop D base x []) (\<lambda>buf. rbind (put_sign neg buf) (\<lambda>buf. Inr (rev buf))))"

fun ptr_digits :: "byte list \<Rightarrow> nat \<Rightarrow> 64 word \<Rightarrow> byte list" where
  "ptr_digits D 0 x = []"
| "ptr_digits D (Suc n) x = D ! unat (drop_bit 60 x) # ptr_digits D n (push_bit 4 x)"

definition printptr :: "byte list \<Rightarrow> 64 word \<Rightarrow> byte list" where
  "printptr D x = [48, 120] @ ptr_digits D 16 x"

definition conv_int :: "byte list \<Rightarrow> (64 word \<Rightarrow> 64 word) \<Rightarrow> 64 word \<Rightarrow> bool \<Rightarrow> nat \<Rightarrow> va list \<Rightarrow>
    fault + (byte list \<times> va list \<times> nat)" where
  "conv_int D ext base sign skip ap =
    rbind (va_word ap) (\<lambda>(w, ap). rbind (printint D (ext w) base sign) (\<lambda>s. Inr (s, ap, skip)))"

definition conv_str :: "va list \<Rightarrow> fault + (byte list \<times> va list \<times> nat)" where
  "conv_str ap = rbind (va_ptr ap) (\<lambda>(s, ap).
     Inr (takeWhile (\<lambda>c. c \<noteq> 0) (case s of None \<Rightarrow> [40, 110, 117, 108, 108, 41] | Some s \<Rightarrow> s), ap, 0))"

section \<open>The kernel's printf\<close>

text \<open>
  The chain of tests behind a percent sign: the bytes printed, the arguments left and how far
  the index moves beyond the directive's first letter. The letters are d 100, l 108, u 117,
  x 120, p 112, c 99, s 115 and the percent sign 37.
\<close>

definition directive :: "byte list \<Rightarrow> byte \<Rightarrow> byte \<Rightarrow> byte \<Rightarrow> va list \<Rightarrow> fault + (byte list \<times> va list \<times> nat)" where
  "directive D c0 c1 c2 ap =
    (if c0 = 100 then conv_int D as_int 10 True 0 ap
     else if c0 = 108 \<and> c1 = 100 then conv_int D id 10 True 1 ap
     else if c0 = 108 \<and> c1 = 108 \<and> c2 = 100 then conv_int D id 10 True 2 ap
     else if c0 = 117 then conv_int D as_uint32 10 False 0 ap
     else if c0 = 108 \<and> c1 = 117 then conv_int D id 10 False 1 ap
     else if c0 = 108 \<and> c1 = 108 \<and> c2 = 117 then conv_int D id 10 False 2 ap
     else if c0 = 120 then conv_int D as_uint32 16 False 0 ap
     else if c0 = 108 \<and> c1 = 120 then conv_int D id 16 False 1 ap
     else if c0 = 108 \<and> c1 = 108 \<and> c2 = 120 then conv_int D id 16 False 2 ap
     else if c0 = 112 then rbind (va_word ap) (\<lambda>(w, ap). Inr (printptr D w, ap, 0))
     else if c0 = 99 then rbind (va_word ap) (\<lambda>(w, ap). Inr (consputc (uint (as_uint32 w)), ap, 0))
     else if c0 = 115 then conv_str ap
     else if c0 = 37 then Inr (consputc 37, ap, 0)
     else Inr (consputc 37 @ consputc (uint c0), ap, 0))"

function printf_loop :: "byte list \<Rightarrow> byte list \<Rightarrow> nat \<Rightarrow> va list \<Rightarrow> byte list \<Rightarrow> fault + byte list" where
  "printf_loop D fmt i ap out =
    (let cx = ch fmt i in
     if cx = 0 then Inr out
     else if cx \<noteq> 37 then printf_loop D fmt (i + 1) ap (out @ consputc (uint cx))
     else let i = i + 1; c0 = ch fmt i; c1 = (if c0 \<noteq> 0 then ch fmt (i + 1) else 0);
              c2 = (if c1 \<noteq> 0 then ch fmt (i + 2) else 0) in
       if c0 = 0 then Inr out
       else rbind (directive D c0 c1 c2 ap) (\<lambda>(s, ap, skip). printf_loop D fmt (i + skip + 1) ap (out @ s)))"
  by auto
termination
  by (relation "measure (\<lambda>(D, fmt, i, ap, out). length fmt - i)") (auto simp: ch_def split: if_splits)

declare printf_loop.simps [simp del]

definition printf :: "byte list \<Rightarrow> va list \<Rightarrow> fault + byte list" where
  "printf fmt ap = printf_loop kernel_digits fmt 0 ap []"

section \<open>The user's vprintf\<close>

text \<open>The library has its own copies of the conversions, with its own table of digits.\<close>

function u_digit_loop :: "64 word \<Rightarrow> 64 word \<Rightarrow> byte list \<Rightarrow> fault + byte list" where
  "u_digit_loop base x buf =
    (if 20 \<le> length buf then Inl OutOfBounds
     else let buf = buf @ [user_digits ! unat (x mod base)] in
       if x div base \<noteq> 0 then u_digit_loop base (x div base) buf else Inr buf)"
  by auto
termination by (relation "measure (\<lambda>(base, x, buf). 20 - length buf)") auto

declare u_digit_loop.simps [simp del]

definition u_put_sign :: "bool \<Rightarrow> byte list \<Rightarrow> fault + byte list" where
  "u_put_sign neg buf = (if neg then if 20 \<le> length buf then Inl OutOfBounds else Inr (buf @ [45]) else Inr buf)"

definition u_printint :: "64 word \<Rightarrow> 64 word \<Rightarrow> bool \<Rightarrow> fault + byte list" where
  "u_printint xx base sg =
    (let (neg, x) = (if sg \<and> sint xx < 0 then (True, - xx) else (False, xx)) in
     rbind (u_digit_loop base x []) (\<lambda>buf. rbind (u_put_sign neg buf) (\<lambda>buf. Inr (rev buf))))"

fun u_ptr_digits :: "nat \<Rightarrow> 64 word \<Rightarrow> byte list" where
  "u_ptr_digits 0 x = []"
| "u_ptr_digits (Suc n) x = user_digits ! unat (drop_bit 60 x) # u_ptr_digits n (push_bit 4 x)"

definition u_printptr :: "64 word \<Rightarrow> byte list" where
  "u_printptr x = [48, 120] @ u_ptr_digits 16 x"

definition u_conv_int :: "(64 word \<Rightarrow> 64 word) \<Rightarrow> 64 word \<Rightarrow> bool \<Rightarrow> nat \<Rightarrow> va list \<Rightarrow>
    fault + (byte list \<times> va list \<times> nat)" where
  "u_conv_int ext base sign skip ap =
    rbind (va_word ap) (\<lambda>(w, ap). rbind (u_printint (ext w) base sign) (\<lambda>s. Inr (s, ap, skip)))"

definition u_conv_str :: "va list \<Rightarrow> fault + (byte list \<times> va list \<times> nat)" where
  "u_conv_str ap = rbind (va_ptr ap) (\<lambda>(s, ap).
     Inr (takeWhile (\<lambda>c. c \<noteq> 0) (case s of None \<Rightarrow> [40, 110, 117, 108, 108, 41] | Some s \<Rightarrow> s), ap, 0))"

definition u_directive :: "byte \<Rightarrow> byte \<Rightarrow> byte \<Rightarrow> va list \<Rightarrow> fault + (byte list \<times> va list \<times> nat)" where
  "u_directive c0 c1 c2 ap =
    (if c0 = 100 then u_conv_int as_int 10 True 0 ap
     else if c0 = 108 \<and> c1 = 100 then u_conv_int id 10 True 1 ap
     else if c0 = 108 \<and> c1 = 108 \<and> c2 = 100 then u_conv_int id 10 True 2 ap
     else if c0 = 117 then u_conv_int as_uint32 10 False 0 ap
     else if c0 = 108 \<and> c1 = 117 then u_conv_int id 10 False 1 ap
     else if c0 = 108 \<and> c1 = 108 \<and> c2 = 117 then u_conv_int id 10 False 2 ap
     else if c0 = 120 then u_conv_int as_uint32 16 False 0 ap
     else if c0 = 108 \<and> c1 = 120 then u_conv_int id 16 False 1 ap
     else if c0 = 108 \<and> c1 = 108 \<and> c2 = 120 then u_conv_int id 16 False 2 ap
     else if c0 = 112 then rbind (va_word ap) (\<lambda>(w, ap). Inr (u_printptr w, ap, 0))
     else if c0 = 99 then rbind (va_word ap) (\<lambda>(w, ap). Inr ([ucast (as_uint32 w)], ap, 0))
     else if c0 = 115 then u_conv_str ap
     else if c0 = 37 then Inr ([37], ap, 0)
     else Inr ([37, c0], ap, 0))"

text \<open>The loop with its variable \<^verbatim>\<open>state\<close>, here whether a percent sign has been read.\<close>

function vprintf_loop :: "byte list \<Rightarrow> nat \<Rightarrow> bool \<Rightarrow> va list \<Rightarrow> byte list \<Rightarrow> fault + byte list" where
  "vprintf_loop fmt i percent ap out =
    (let c0 = ch fmt i in
     if c0 = 0 then Inr out
     else if \<not> percent then
       if c0 = 37 then vprintf_loop fmt (i + 1) True ap out
       else vprintf_loop fmt (i + 1) False ap (out @ [c0])
     else let c1 = ch fmt (i + 1); c2 = (if c1 \<noteq> 0 then ch fmt (i + 2) else 0) in
       rbind (u_directive c0 c1 c2 ap) (\<lambda>(s, ap, skip). vprintf_loop fmt (i + skip + 1) False ap (out @ s)))"
  by auto
termination
  by (relation "measure (\<lambda>(fmt, i, percent, ap, out). length fmt - i)") (auto simp: ch_def split: if_splits)

declare vprintf_loop.simps [simp del]

definition vprintf :: "byte list \<Rightarrow> va list \<Rightarrow> fault + byte list" where
  "vprintf fmt ap = vprintf_loop fmt 0 False ap []"

section \<open>The two implementations agree\<close>

text \<open>The same byte, or a small letter of the kernel's digits and the capital letter of the user's.\<close>

definition same_char :: "byte \<Rightarrow> byte \<Rightarrow> bool" where
  "same_char a b \<longleftrightarrow> a = b \<or> 97 \<le> a \<and> a \<le> 102 \<and> b = a - 32"

abbreviation same_text :: "byte list \<Rightarrow> byte list \<Rightarrow> bool" where
  "same_text \<equiv> list_all2 same_char"

abbreviation same_result :: "fault + byte list \<Rightarrow> fault + byte list \<Rightarrow> bool" where
  "same_result \<equiv> rel_sum (=) same_text"

lemma same_text_refl [simp]: "same_text s s"
  by (simp add: list_all2_refl same_char_def)

lemma rbind_rel:
  "rel_sum (=) R r r' \<Longrightarrow> (\<And>x y. R x y \<Longrightarrow> rel_sum (=) S (f x) (g y)) \<Longrightarrow> rel_sum (=) S (rbind r f) (rbind r' g)"
  by (cases r; cases r') auto

lemma digits_same: "n < 16 \<Longrightarrow> same_char (kernel_digits ! n) (user_digits ! n)"
proof -
  have "same_text kernel_digits user_digits" by (simp add: kernel_digits_def user_digits_def same_char_def)
  moreover have "length kernel_digits = 16" by (simp add: kernel_digits_def)
  ultimately show "n < 16 \<Longrightarrow> ?thesis" by (simp add: list_all2_nthD)
qed

lemma result_refl: "rel_sum (=) (=) r r"
  by (cases r) auto

lemma same_append: "same_text s t \<Longrightarrow> same_text u v \<Longrightarrow> same_text (s @ u) (t @ v)"
  by (rule list_all2_appendI)

lemma mod_base: "base \<in> {10, 16} \<Longrightarrow> unat (x mod base :: 64 word) < 16"
  by (auto simp: unat_mod intro: less_trans[OF mod_less_divisor])

lemma digit_loops_same:
  "base \<in> {10, 16} \<Longrightarrow> same_text buf buf' \<Longrightarrow> same_result (digit_loop kernel_digits base x buf) (u_digit_loop base x buf')"
proof (induction kernel_digits base x buf arbitrary: buf' rule: digit_loop.induct)
  case (1 base x buf)
  have len: "length buf' = length buf" using 1(3) by (simp add: list_all2_lengthD)
  have "same_text (buf @ [kernel_digits ! unat (x mod base)]) (buf' @ [user_digits ! unat (x mod base)])"
    using 1(3) digits_same[OF mod_base[OF 1(2)], of x] by (simp add: list_all2_appendI)
  with 1 len show ?case
    by (simp add: digit_loop.simps[of _ base x buf] u_digit_loop.simps[of base x buf'] Let_def)
qed

lemma put_sign_same: "same_text buf buf' \<Longrightarrow> same_result (put_sign neg buf) (u_put_sign neg buf')"
  by (auto simp: put_sign_def u_put_sign_def list_all2_lengthD list_all2_appendI same_char_def)

lemma printint_same: "base \<in> {10, 16} \<Longrightarrow> same_result (printint kernel_digits x base sg) (u_printint x base sg)"
  unfolding printint_def u_printint_def
  by (auto simp: Let_def list_all2_rev intro!: rbind_rel[OF digit_loops_same] rbind_rel[OF put_sign_same])

lemma ptr_digits_same: "same_text (ptr_digits kernel_digits n x) (u_ptr_digits n x)"
proof (induction n arbitrary: x)
  case (Suc n)
  have "unat (drop_bit 60 x) = unat x div 2 ^ 60" by (simp add: drop_bit_eq_div unat_div)
  then have "unat (drop_bit 60 x) < 16" using unsigned_less[of x, where 'a = nat] by simp
  with digits_same Suc show ?case by simp
qed simp

definition same_step :: "fault + (byte list \<times> va list \<times> nat) \<Rightarrow> fault + (byte list \<times> va list \<times> nat) \<Rightarrow> bool" where
  "same_step = rel_sum (=) (rel_prod same_text (=))"

lemma same_step_refl: "same_step r r"
  unfolding same_step_def by (cases r) (auto simp: rel_prod_sel)

definition no_backspace :: "va list \<Rightarrow> bool" where
  "no_backspace ap \<longleftrightarrow> (\<forall>w. VWord w \<in> set ap \<longrightarrow> uint (as_uint32 w) \<noteq> BACKSPACE)"

lemma consputc_byte [simp]: "consputc (uint (c :: byte)) = [c]"
proof -
  have "uint c < 256" using uint_bounded[of c] by simp
  then show ?thesis by (simp add: consputc_def BACKSPACE_def)
qed

lemma consputc_percent [simp]: "consputc 37 = [37]"
  by (simp add: consputc_def BACKSPACE_def)

lemma conv_int_same: "base \<in> {10, 16} \<Longrightarrow> same_step (conv_int kernel_digits ext base sg k ap) (u_conv_int ext base sg k ap)"
  unfolding same_step_def conv_int_def u_conv_int_def
  by (rule rbind_rel[OF result_refl]) (auto intro!: rbind_rel[OF printint_same] split: prod.splits)

lemma conv_str_eq: "u_conv_str = conv_str"
  by (intro ext) (simp add: u_conv_str_def conv_str_def)

lemma put_char_eq:
  "no_backspace ap \<Longrightarrow> rbind (va_word ap) (\<lambda>(w, ap). Inr (consputc (uint (as_uint32 w)), ap, 0)) =
     rbind (va_word ap) (\<lambda>(w, ap). Inr ([ucast (as_uint32 w)], ap, 0))"
  by (cases ap rule: va_word.cases) (auto simp: no_backspace_def consputc_def)

lemma put_ptr_same:
  "same_step (rbind (va_word ap) (\<lambda>(w, ap). Inr (printptr kernel_digits w, ap, 0))) (rbind (va_word ap) (\<lambda>(w, ap). Inr (u_printptr w, ap, 0)))"
  unfolding same_step_def
  by (rule rbind_rel[OF result_refl]) (auto simp: printptr_def u_printptr_def ptr_digits_same same_char_def split: prod.splits)

lemma directive_same: "no_backspace ap \<Longrightarrow> same_step (directive kernel_digits c0 c1 c2 ap) (u_directive c0 c1 c2 ap)"
  unfolding directive_def u_directive_def put_char_eq conv_str_eq
  by (auto simp: conv_int_same put_ptr_same same_step_refl)

lemma va_wordD: "va_word ap = Inr (w, ap') \<Longrightarrow> ap = VWord w # ap'"
  by (induction ap rule: va_word.induct) auto

lemma va_ptrD: "va_ptr ap = Inr (w, ap') \<Longrightarrow> ap = VPtr w # ap'"
  by (induction ap rule: va_ptr.induct) auto

lemma directive_rest: "u_directive c0 c1 c2 ap = Inr (s, ap', k) \<Longrightarrow> set ap' \<subseteq> set ap"
  by (auto simp: u_directive_def u_conv_int_def u_conv_str_def dest: va_wordD va_ptrD split: if_splits)

lemma ch_in: "ch fmt i \<noteq> 0 \<Longrightarrow> i < length fmt"
  by (auto simp: ch_def split: if_splits)

lemma loops_same:
  "no_backspace ap \<Longrightarrow> same_text out out' \<Longrightarrow> same_result (printf_loop kernel_digits fmt i ap out) (vprintf_loop fmt i False ap out')"
proof (induction "length fmt - i" arbitrary: i ap out out' rule: less_induct)
  case less
  have IH: "same_result (printf_loop kernel_digits fmt j ap1 o1) (vprintf_loop fmt j False ap1 o2)"
    if "ch fmt i \<noteq> 0" "i < j" "no_backspace ap1" "same_text o1 o2" for j ap1 o1 o2
    using less(1)[of j ap1 o1 o2] that ch_in[of fmt i] by auto
  let ?c0 = "ch fmt (Suc i)" and ?c1 = "ch fmt (Suc (Suc i))"
  let ?c2 = "if ?c1 \<noteq> 0 then ch fmt (Suc (Suc (Suc i))) else 0"
  consider "ch fmt i = 0" | "ch fmt i \<noteq> 0" "ch fmt i \<noteq> 37" | "ch fmt i = 37" "?c0 = 0" | "ch fmt i = 37" "?c0 \<noteq> 0"
    by blast
  then show ?case
  proof cases
    case 2
    have "same_text (out @ [ch fmt i]) (out' @ [ch fmt i])" by (rule same_append[OF less(3) same_text_refl])
    from IH[OF 2(1) _ less(2) this, of "Suc i"] 2 show ?thesis
      by (simp add: printf_loop.simps[of _ fmt i] vprintf_loop.simps[of fmt i])
  next
    case 4
    have "same_result (rbind (directive kernel_digits ?c0 ?c1 ?c2 ap) (\<lambda>(s, ap, skip). printf_loop kernel_digits fmt (Suc (Suc (i + skip))) ap (out @ s)))
      (rbind (u_directive ?c0 ?c1 ?c2 ap) (\<lambda>(s, ap, skip). vprintf_loop fmt (Suc (Suc (i + skip))) False ap (out' @ s)))"
    proof (cases "u_directive ?c0 ?c1 ?c2 ap")
      case (Inl e)
      then show ?thesis using directive_same[OF less(2), of ?c0 ?c1 ?c2]
        by (cases "directive kernel_digits ?c0 ?c1 ?c2 ap") (auto simp: same_step_def)
    next
      case (Inr x)
      then obtain s ap' k where x: "x = (s, ap', k)" "set ap' \<subseteq> set ap" by (cases x) (auto dest: directive_rest)
      obtain s' where s': "directive kernel_digits ?c0 ?c1 ?c2 ap = Inr (s', ap', k)" "same_text s' s"
        using directive_same[OF less(2), of ?c0 ?c1 ?c2] Inr x
        by (cases "directive kernel_digits ?c0 ?c1 ?c2 ap") (auto simp: same_step_def)
      have "no_backspace ap'" using less(2) x(2) by (auto simp: no_backspace_def)
      moreover have "same_text (out @ s') (out' @ s)" using less(3) s'(2) by (rule same_append)
      ultimately show ?thesis using IH[of "Suc (Suc (i + k))" ap'] 4 Inr x s' by simp
    qed
    with 4 show ?thesis
      by (cases "?c1 = 0") (simp_all add: printf_loop.simps[of _ fmt i] vprintf_loop.simps[of fmt i] vprintf_loop.simps[of fmt "Suc i"]
          Let_def)
  qed (simp_all add: printf_loop.simps[of _ fmt i] vprintf_loop.simps[of fmt i] vprintf_loop.simps[of fmt "Suc i"] less(2,3))
qed

text \<open>
  C18: For every format and argument list the kernel's \<^verbatim>\<open>printf\<close> and the user library's \<^verbatim>\<open>vprintf\<close>
  print the same bytes, except that the kernel prints a hexadecimal digit as a small letter and the
  library as a capital one, and the one reads past its arguments or its buffer exactly when the
  other does; no argument may be the code \<open>0x100\<close> that \<^verbatim>\<open>consputc\<close> takes for a backspace.
\<close>

theorem printf_vprintf_agree:
  assumes "no_backspace ap"
  shows "rel_sum (=) (list_all2 same_char) (printf fmt ap) (vprintf fmt ap)"
  unfolding printf_def vprintf_def by (rule loops_same[OF assms]) simp

theorem printf_vprintf_agree_witness:
  "rel_sum (=) (list_all2 same_char) (printf [97, 37, 120, 37] [VWord 0xBEE]) (vprintf [97, 37, 120, 37] [VWord 0xBEE])"
  by (rule printf_vprintf_agree) (simp add: no_backspace_def as_uint32_def BACKSPACE_def)

section \<open>Printed integers\<close>

definition digit_bytes :: "byte list \<Rightarrow> bool" where
  "digit_bytes ds \<longleftrightarrow> (\<forall>c \<in> set ds. 48 \<le> c \<and> c \<le> 57)"

definition decimal :: "byte list \<Rightarrow> int" where
  "decimal ds = foldl (\<lambda>n c. n * 10 + uint c - 48) 0 ds"

lemma decimal_snoc [simp]: "decimal (ds @ [c]) = decimal ds * 10 + uint c - 48"
  by (simp add: decimal_def)

lemma digit_nth:
  assumes "n < 10" "take 10 D = take 10 kernel_digits"
  shows "48 \<le> D ! n" "D ! n \<le> 57" "uint (D ! n) = 48 + int n"
proof -
  have "D ! n = take 10 D ! n" using assms(1) by simp
  then have eq: "D ! n = kernel_digits ! n" using assms by simp
  have "n \<in> {0, 1, 2, 3, 4, 5, 6, 7, 8, 9}" using assms(1) by auto
  then show "48 \<le> D ! n" "D ! n \<le> 57" "uint (D ! n) = 48 + int n"
    unfolding eq by (auto simp: kernel_digits_def)
qed

lemma decimal_loop:
  assumes "take 10 D = take 10 kernel_digits" "unat x < 10 ^ k" "0 < k" "length buf + k \<le> 20"
  shows "\<exists>ds. digit_loop D 10 x buf = Inr (buf @ ds) \<and> ds \<noteq> [] \<and> length ds \<le> k \<and> digit_bytes ds \<and>
    decimal (rev ds) = uint x"
  using assms(2-)
proof (induction k arbitrary: x buf)
  case (Suc k)
  let ?d = "D ! unat (x mod 10)"
  have m: "unat (x mod 10) < 10" "int (unat (x mod 10)) = uint x mod 10"
    by (simp_all add: unat_mod zmod_int)
  note d = digit_nth[OF m(1) assms(1)]
  show ?case
  proof (cases "x div 10 = 0")
    case True
    then have "uint (x div 10) = 0" by simp
    then have "uint x div 10 = 0" by (simp add: uint_div)
    with True Suc.prems d m show ?thesis
      by (intro exI[of _ "[?d]"]) (auto simp: digit_loop.simps[of D 10 x buf] Let_def digit_bytes_def decimal_def)
  next
    case False
    have lt: "unat (x div 10) < 10 ^ k" using Suc.prems(1) by (simp add: unat_div)
    have "0 < k" using False lt by (cases k) (auto simp: unat_eq_0)
    from Suc.IH[OF lt this, of "buf @ [?d]"] Suc.prems(3) obtain ds where ds:
      "digit_loop D 10 (x div 10) (buf @ [?d]) = Inr (buf @ ?d # ds)" "length ds \<le> k" "digit_bytes ds"
      "decimal (rev ds) = uint (x div 10)" by auto
    have "uint (x div 10) = uint x div 10" by (simp add: uint_div)
    with False ds Suc.prems(3) d m show ?thesis
      by (intro exI[of _ "?d # ds"]) (auto simp: digit_loop.simps[of D 10 x buf] Let_def digit_bytes_def)
  qed
qed simp

lemma atoi_from_decimal:
  "cstr m a ds \<Longrightarrow> digit_bytes ds \<Longrightarrow> atoi_from n a m = Some (foldl (\<lambda>n c. n * 10 + uint c - 48) n ds)"
proof (induction ds arbitrary: n a)
  case Nil
  then show ?case by (simp add: atoi_from.simps[of n a])
next
  case (Cons d ds)
  then show ?case by (simp add: atoi_from.simps[of n a] digit_bytes_def)
qed

lemma atoi_decimal: "cstr m a ds \<Longrightarrow> digit_bytes ds \<Longrightarrow> atoi a m = Some (decimal ds)"
  by (simp add: atoi_def atoi_from_decimal decimal_def)

lemma printint_unsigned:
  assumes "take 10 D = take 10 kernel_digits"
  shows "\<exists>s. digit_loop D 10 x [] = Inr (rev s) \<and> digit_bytes s \<and> length s \<le> 20 \<and> decimal s = uint x"
proof -
  have "unat x < 10 ^ 20" using unsigned_less[of x, where 'a = nat] by simp
  from decimal_loop[OF assms this, of "[]"] obtain ds where
    "digit_loop D 10 x [] = Inr ds" "digit_bytes ds" "length ds \<le> 20" "decimal (rev ds) = uint x" by auto
  then show ?thesis by (intro exI[of _ "rev ds"]) (auto simp: digit_bytes_def)
qed

lemma printint_negative:
  assumes "take 10 D = take 10 kernel_digits" "sint x < 0"
  shows "\<exists>s. digit_loop D 10 (- x) [] = Inr (rev s) \<and> digit_bytes s \<and> length s \<le> 19 \<and> decimal s = - sint x"
proof -
  have ge: "- sint x \<le> 2 ^ 63" using sint_greater_eq[of x] by simp
  have u: "uint (- x) = - sint x"
  proof -
    have "uint (- x) = uint (of_int (- sint x) :: 64 word)" by simp
    also have "\<dots> = (- sint x) mod 2 ^ 64" by (simp only: uint_word_of_int)  simp
    also have "\<dots> = - sint x" using ge assms(2) by (intro mod_pos_pos_trivial) auto
    finally show ?thesis .
  qed
  then have "unat (- x) < 10 ^ 19" using ge by (simp add: unat_eq_nat_uint)
  from decimal_loop[OF assms(1) this, of "[]"] u obtain ds where
    "digit_loop D 10 (- x) [] = Inr ds" "digit_bytes ds" "length ds \<le> 19" "decimal (rev ds) = - sint x" by auto
  then show ?thesis by (intro exI[of _ "rev ds"]) (auto simp: digit_bytes_def)
qed

text \<open>
  Printing any 64-bit value in decimal never overruns the digit buffer, and the library's
  \<^verbatim>\<open>atoi\<close> reads the printed digits back: the value itself when it is printed as unsigned or is
  not negative, and its magnitude behind the sign otherwise.
\<close>

theorem printint_atoi:
  "\<exists>s. printint kernel_digits x 10 sg = Inr s \<and> length s \<le> 20 \<and>
    (if sg \<and> sint x < 0
     then hd s = 45 \<and> (\<forall>m a. cstr m a (tl s) \<longrightarrow> atoi a m = Some (- sint x))
     else (\<forall>m a. cstr m a s \<longrightarrow> atoi a m = Some (if sg then sint x else uint x)))"
proof (cases "sg \<and> sint x < 0")
  case True
  with printint_negative[OF refl, of x] obtain s where
    "digit_loop kernel_digits 10 (- x) [] = Inr (rev s)" "digit_bytes s" "length s \<le> 19" "decimal s = - sint x" by auto
  with True show ?thesis
    by (intro exI[of _ "45 # s"]) (auto simp: printint_def put_sign_def Let_def atoi_decimal)
next
  case False
  from printint_unsigned[OF refl, of x] obtain s where s:
    "digit_loop kernel_digits 10 x [] = Inr (rev s)" "digit_bytes s" "length s \<le> 20" "decimal s = uint x" by auto
  have "uint x = sint x" if "\<not> sint x < 0"
  proof -
    have "uint x = uint (of_int (sint x) :: 64 word)" by simp
    also have "\<dots> = sint x mod 2 ^ 64" by (simp only: uint_word_of_int) simp
    also have "\<dots> = sint x" using that sint_less[of x] by (intro mod_pos_pos_trivial) auto
    finally show ?thesis .
  qed
  with False s show ?thesis by (intro exI[of _ s]) (auto simp: printint_def put_sign_def Let_def atoi_decimal)
qed

theorem printint_atoi_witness:
  "\<exists>s m. printint kernel_digits 40 10 True = Inr s \<and> cstr m 0 s \<and> atoi 0 m = Some 40"
proof -
  obtain s where s: "printint kernel_digits 40 10 True = Inr s" "\<forall>m a. cstr m a s \<longrightarrow> atoi a m = Some 40"
    using printint_atoi[of 40 True] by auto
  have "s = [52, 48]"
    using s(1) by (simp add: printint_def digit_loop.simps Let_def put_sign_def kernel_digits_def)
  then have "cstr (\<lambda>a. if a = 0 then 52 else if a = 1 then 48 else 0) 0 s" by simp
  with s show ?thesis by blast
qed

end
