(* ===== verification/Grep.thy ===== *)
theory Grep
  imports Cstring
begin

text \<open>
  The pattern search of \<^verbatim>\<open>user/grep.c\<close>: the backtracking matcher and the loop that splits the
  input into lines. A C string is the list of its bytes before the terminating zero, so a test
  for \<^verbatim>\<open>'\0'\<close> is a test for the empty list. The special bytes are 94 (caret), 36 (dollar),
  42 (star), 46 (dot) and 10 (newline).
\<close>

section \<open>The matcher\<close>

function (sequential) matchhere :: "byte list \<Rightarrow> byte list \<Rightarrow> bool"
  and matchstar :: "byte \<Rightarrow> byte list \<Rightarrow> byte list \<Rightarrow> bool" where
  "matchhere [] text = True"
| "matchhere (r # re) text =
    (if re \<noteq> [] \<and> hd re = 42 then matchstar r (tl re) text
     else if r = 36 \<and> re = [] then text = []
     else if text \<noteq> [] \<and> (r = 46 \<or> r = hd text) then matchhere re (tl text)
     else False)"
| "matchstar c re text =
    (if matchhere re text then True
     else if text \<noteq> [] \<and> (hd text = c \<or> c = 46) then matchstar c re (tl text)
     else False)"
  by pat_completeness auto
termination
  by (relation "inv_image (less_than <*lex*> less_than <*lex*> less_than)
      (\<lambda>x. case x of Inl (re, text) \<Rightarrow> (length re, 0, length text) | Inr (c, re, text) \<Rightarrow> (length re, 1, length text))")
    auto

declare matchstar.simps [simp del]

text \<open>The loop of \<^verbatim>\<open>match\<close> over the suffixes of the text, the empty one included.\<close>

fun match_from :: "byte list \<Rightarrow> byte list \<Rightarrow> bool" where
  "match_from re [] = matchhere re []"
| "match_from re (c # text) = (if matchhere re (c # text) then True else match_from re text)"

definition match :: "byte list \<Rightarrow> byte list \<Rightarrow> bool" where
  "match re text = (if re \<noteq> [] \<and> hd re = 94 then matchhere (tl re) text else match_from re text)"

section \<open>The search loop\<close>

text \<open>
  The inner loop over the complete lines of the buffer, from \<^verbatim>\<open>p\<close> on: the bytes printed and the
  rest of the buffer. \<^verbatim>\<open>strchr\<close> does not look past a zero byte.
\<close>

function scan_lines :: "byte list \<Rightarrow> byte list \<Rightarrow> byte list \<times> byte list" where
  "scan_lines pattern p =
    (case first_index (\<lambda>c. c = 10) (takeWhile (\<lambda>c. c \<noteq> 0) p) of
       None \<Rightarrow> ([], p)
     | Some q \<Rightarrow> let (out, rest) = scan_lines pattern (drop (q + 1) p) in
         ((if match pattern (take q p) then take (q + 1) p else []) @ out, rest))"
  by auto
termination
  by (relation "measure (\<lambda>(pattern, p). length p)")
    (auto dest!: first_index_SomeD(1) dest: order.strict_trans2[OF _ length_takeWhile_le])

declare scan_lines.simps [simp del]

definition bufsize :: nat where "bufsize = 1024"

text \<open>
  A read may return fewer bytes than it is asked for: \<open>sched j\<close> is how many the \<open>j\<close>-th call
  would give. It returns 0 only at the end of the input or when asked for no bytes.
\<close>

definition read_count :: "(nat \<Rightarrow> nat) \<Rightarrow> nat \<Rightarrow> nat \<Rightarrow> byte list \<Rightarrow> nat" where
  "read_count sched j k inp = min (min k (length inp)) (max 1 (sched j))"

function grep_loop :: "byte list \<Rightarrow> (nat \<Rightarrow> nat) \<Rightarrow> nat \<Rightarrow> byte list \<Rightarrow> byte list \<Rightarrow> byte list" where
  "grep_loop pattern sched j buf inp =
    (let n = read_count sched j (bufsize - length buf - 1) inp in
     if n > 0 then
       let (out, rest) = scan_lines pattern (buf @ take n inp) in
       out @ grep_loop pattern sched (j + 1) rest (drop n inp)
     else [])"
  by auto
termination
  by (relation "measure (\<lambda>(pattern, sched, j, buf, inp). length inp)") (auto simp: read_count_def min_def)

declare grep_loop.simps [simp del]

definition grep :: "byte list \<Rightarrow> (nat \<Rightarrow> nat) \<Rightarrow> byte list \<Rightarrow> byte list" where
  "grep pattern sched inp = grep_loop pattern sched 0 [] inp"

section \<open>What a pattern means\<close>

datatype item = One byte | Many byte | Eol

fun items :: "byte list \<Rightarrow> item list" where
  "items [] = []"
| "items [r] = (if r = 36 then [Eol] else [One r])"
| "items (r # s # re) = (if s = 42 then Many r # items re else One r # items (s # re))"

definition accepts :: "byte \<Rightarrow> byte \<Rightarrow> bool" where
  "accepts r c \<longleftrightarrow> r = 46 \<or> r = c"

text \<open>Which pieces of text an item stands for, given the text that follows the piece.\<close>

fun stands_for :: "item \<Rightarrow> byte list \<Rightarrow> byte list \<Rightarrow> bool" where
  "stands_for (One r) w rest \<longleftrightarrow> (\<exists>c. w = [c] \<and> accepts r c)"
| "stands_for (Many r) w rest \<longleftrightarrow> (\<forall>c \<in> set w. accepts r c)"
| "stands_for Eol w rest \<longleftrightarrow> w = [] \<and> rest = []"

fun begins :: "item list \<Rightarrow> byte list \<Rightarrow> bool" where
  "begins [] text \<longleftrightarrow> True"
| "begins (i # its) text \<longleftrightarrow> (\<exists>w rest. text = w @ rest \<and> stands_for i w rest \<and> begins its rest)"

section \<open>The matcher is right\<close>

lemma begins_One: "begins (One r # its) text \<longleftrightarrow> text \<noteq> [] \<and> accepts r (hd text) \<and> begins its (tl text)"
proof (cases "text")
  case (Cons c t)
  have "begins (One r # its) (c # t) \<longleftrightarrow> (\<exists>x rest. c # t = [x] @ rest \<and> accepts r x \<and> begins its rest)"
    unfolding begins.simps stands_for.simps by blast
  with Cons show ?thesis by auto
qed simp

lemma begins_Eol: "begins [Eol] text \<longleftrightarrow> text = []"
  by simp

lemma begins_Many_Cons:
  "begins (Many r # its) (c # t) \<longleftrightarrow> begins its (c # t) \<or> accepts r c \<and> begins (Many r # its) t"
    (is "?l \<longleftrightarrow> ?r")
proof
  assume ?l
  then obtain w rest where w: "c # t = w @ rest" "\<forall>x \<in> set w. accepts r x" "begins its rest" by auto
  show ?r
  proof (cases w)
    case (Cons x w')
    with w have "t = w' @ rest" "accepts r c" "\<forall>x \<in> set w'. accepts r x" by auto
    with w(3) show ?thesis by auto
  qed (use w in simp)
next
  assume ?r
  then show ?l
  proof
    assume "accepts r c \<and> begins (Many r # its) t"
    then obtain w rest where "accepts r c" "t = w @ rest" "\<forall>x \<in> set w. accepts r x" "begins its rest" by auto
    then have "c # t = (c # w) @ rest \<and> stands_for (Many r) (c # w) rest \<and> begins its rest" by simp
    then show ?l unfolding begins.simps by blast
  qed (force intro: exI[of _ "[]"])
qed

lemma begins_Many:
  "begins (Many r # its) text \<longleftrightarrow> begins its text \<or> (text \<noteq> [] \<and> accepts r (hd text) \<and> begins (Many r # its) (tl text))"
  by (cases "text") (simp, simp only: begins_Many_Cons list.sel list.distinct simp_thms)

lemma matcher_items:
  "matchhere re text \<longleftrightarrow> begins (items re) text"
  "matchstar c re text \<longleftrightarrow> begins (Many c # items re) text"
proof (induction re "text" and c re "text" rule: matchhere_matchstar.induct)
  case (2 r re t)
  show ?case
  proof (cases re)
    case Nil
    with 2 show ?thesis by (auto simp: begins_One begins_Eol accepts_def simp del: begins.simps(2))
  next
    case (Cons s re')
    with 2 show ?thesis by (auto simp: begins_One accepts_def simp del: begins.simps(2))
  qed
next
  case (3 c re t)
  then show ?case
    by (subst matchstar.simps, subst begins_Many) (auto simp: accepts_def simp del: begins.simps(2))
qed simp

lemma match_from_iff: "match_from re text \<longleftrightarrow> (\<exists>pre suf. text = pre @ suf \<and> begins (items re) suf)"
proof (induction "text")
  case (Cons c t)
  show ?case
    by (auto simp: matcher_items(1) Cons Cons_eq_append_conv simp del: begins.simps)
qed (simp add: matcher_items(1))

text \<open>
  C19: The backtracking matcher decides exactly the language of the pattern: read as a list of
  items, its pieces cover a part of the text in order, starting at the front for a pattern with a
  caret, and ending at the end of the text for one with a final dollar sign. It ends for every
  pattern and text, being a total function.
\<close>

theorem grep_match_correct:
  "match re text \<longleftrightarrow>
    (if re \<noteq> [] \<and> hd re = 94 then begins (items (tl re)) text
     else \<exists>pre suf. text = pre @ suf \<and> begins (items re) suf)"
  by (simp add: match_def matcher_items(1) match_from_iff del: begins.simps)

section \<open>Lines\<close>

text \<open>The lines of a text that end in a newline, and what follows the last newline.\<close>

fun chop :: "byte list \<Rightarrow> byte list \<Rightarrow> byte list list \<times> byte list" where
  "chop acc [] = ([], acc)"
| "chop acc (c # cs) = (if c = 10 then let (ls, r) = chop [] cs in (acc # ls, r) else chop (acc @ [c]) cs)"

definition selected :: "byte list \<Rightarrow> byte list list \<Rightarrow> byte list" where
  "selected pattern ls = concat (map (\<lambda>l. l @ [10]) (filter (match pattern) ls))"

lemma chop_no_newline: "10 \<notin> set xs \<Longrightarrow> chop acc (xs @ ys) = chop (acc @ xs) ys"
  by (induction xs arbitrary: acc) auto

lemma chop_append:
  "chop acc (xs @ ys) = (let (ls, r) = chop acc xs; (ls', r') = chop r ys in (ls @ ls', r'))"
  by (induction acc xs rule: chop.induct) (auto simp: split_def Let_def)

lemma chop_rest: "10 \<notin> set acc \<Longrightarrow> 10 \<notin> set (snd (chop acc xs))"
  by (induction acc xs rule: chop.induct) (auto simp: split_def Let_def)

lemma chop_rest_subset: "set (snd (chop acc xs)) \<subseteq> set acc \<union> set xs"
  by (induction acc xs rule: chop.induct) (auto simp: split_def Let_def)

lemma chop_first_long:
  "fst (chop acc xs) \<noteq> [] \<Longrightarrow> length acc \<le> length (hd (fst (chop acc xs)))"
proof (induction acc xs rule: chop.induct)
  case (2 acc c cs)
  then show ?case by (auto simp: split_def Let_def split: if_splits)
qed simp

lemma takeWhile_no_zero: "0 \<notin> set p \<Longrightarrow> takeWhile (\<lambda>c. c \<noteq> 0) p = (p :: byte list)"
  by (simp add: takeWhile_eq_all_conv)  metis

lemma first_newline:
  assumes "first_index (\<lambda>c. c = (10 :: byte)) p = Some q"
  shows "p = take q p @ 10 # drop (q + 1) p" "10 \<notin> set (take q p)" "take (q + 1) p = take q p @ [10]"
proof -
  note q = first_index_SomeD[OF assms]
  show "p = take q p @ 10 # drop (q + 1) p" using id_take_nth_drop[OF q(1)] q(2) by simp
  show "10 \<notin> set (take q p)" using q(3) by (auto simp: in_set_conv_nth)
  show "take (q + 1) p = take q p @ [10]" using q(1,2) by (simp add: take_Suc_conv_app_nth)
qed

lemma scan_lines_chop:
  "0 \<notin> set p \<Longrightarrow> scan_lines pattern p = (selected pattern (fst (chop [] p)), snd (chop [] p))"
proof (induction pattern p rule: scan_lines.induct)
  case (1 pattern p)
  show ?case
  proof (cases "first_index (\<lambda>c. c = 10) p")
    case None
    then have "10 \<notin> set p" by auto
    then have "chop [] p = ([], p)" using chop_no_newline[of p "[]" "[]"] by simp
    then show ?thesis
      by (subst scan_lines.simps) (simp add: takeWhile_no_zero[OF 1(2)] None selected_def del: first_index_None_iff)
  next
    case (Some q)
    note p = first_newline[OF Some]
    have nz: "0 \<notin> set (drop (q + 1) p)" using 1(2) by (meson in_set_dropD)
    have IH: "scan_lines pattern (drop (q + 1) p) =
      (selected pattern (fst (chop [] (drop (q + 1) p))), snd (chop [] (drop (q + 1) p)))"
      using 1(1)[of q] nz Some by (simp add: takeWhile_no_zero[OF 1(2)])
    have "chop [] p = (take q p # fst (chop [] (drop (q + 1) p)), snd (chop [] (drop (q + 1) p)))"
      by (subst p(1), subst chop_no_newline[OF p(2)]) (simp add: split_def Let_def)
    then show ?thesis
      using IH by (subst scan_lines.simps) (simp add: takeWhile_no_zero[OF 1(2)] Some selected_def p(3)[simplified])
  qed
qed

lemma grep_loop_lines:
  assumes "0 \<notin> set (buf @ inp)" "10 \<notin> set buf" "\<forall>l \<in> set (fst (chop [] (buf @ inp))). length l < bufsize - 1"
  shows "grep_loop pattern sched j buf inp = selected pattern (fst (chop [] (buf @ inp)))"
  using assms
proof (induction pattern sched j buf inp rule: grep_loop.induct)
  case (1 pattern sched j buf inp)
  define n where "n = read_count sched j (bufsize - length buf - 1) inp"
  have unfold: "grep_loop pattern sched j buf inp =
    (if n > 0 then let (out, rest) = scan_lines pattern (buf @ take n inp) in
       out @ grep_loop pattern sched (j + 1) rest (drop n inp) else [])"
    by (subst grep_loop.simps) (simp only: Let_def n_def)
  show ?case
  proof (cases "n > 0")
    case True
    define b where "b = buf @ take n inp"
    define rest where "rest = snd (chop [] b)"
    have split: "buf @ inp = b @ drop n inp" by (simp add: b_def)
    have scan: "scan_lines pattern b = (selected pattern (fst (chop [] b)), rest)"
      using 1(2) unfolding rest_def by (intro scan_lines_chop) (auto simp: b_def dest: in_set_takeD)
    have nl: "10 \<notin> set rest" by (simp add: rest_def chop_rest)
    have app: "fst (chop [] (buf @ inp)) = fst (chop [] b) @ fst (chop [] (rest @ drop n inp))"
      unfolding split chop_append[of "[]" b] chop_no_newline[OF nl] by (simp add: split_def Let_def rest_def)
    have "0 \<notin> set (rest @ drop n inp)"
      using 1(2) chop_rest_subset[of "[]" b] by (auto simp: rest_def b_def dest: in_set_takeD in_set_dropD)
    then have "grep_loop pattern sched (j + 1) rest (drop n inp) = selected pattern (fst (chop [] (rest @ drop n inp)))"
      using 1(1)[OF n_def _ _ _ ] True scan nl 1(4) app by (auto simp: b_def n_def)
    then show ?thesis
      using True scan app unfolding unfold by (simp add: b_def[symmetric] selected_def)
  next
    case False
    have "fst (chop [] (buf @ inp)) = []"
    proof (rule ccontr)
      assume ne: "fst (chop [] (buf @ inp)) \<noteq> []"
      then have "inp \<noteq> []" using chop_no_newline[OF 1(3), of "[]" "[]"] by auto
      with False have "bufsize - 1 \<le> length buf" by (simp add: n_def read_count_def split: if_splits)
      moreover have "length buf \<le> length (hd (fst (chop [] (buf @ inp))))"
        using ne chop_first_long[of buf inp] chop_no_newline[OF 1(3), of "[]" inp] by simp
      ultimately show False using 1(4) ne hd_in_set[OF ne] by fastforce
    qed
    with False show ?thesis unfolding unfold by (simp add: selected_def)
  qed
qed

text \<open>
  C20: However the input arrives in pieces, \<^verbatim>\<open>grep\<close> prints the lines that match, in order and each
  with its newline, provided no line has more than 1022 bytes and there is no zero byte. A last
  line without newline is not printed.
\<close>

theorem grep_prints_matches:
  assumes "0 \<notin> set inp" "\<forall>l \<in> set (fst (chop [] inp)). length l \<le> 1022"
  shows "grep pattern sched inp = concat (map (\<lambda>l. l @ [10]) (filter (match pattern) (fst (chop [] inp))))"
proof -
  have "\<forall>l \<in> set (fst (chop [] ([] @ inp))). length l < bufsize - 1" using assms(2) by (auto simp: bufsize_def)
  from grep_loop_lines[OF _ _ this] assms(1) show ?thesis by (simp add: grep_def selected_def)
qed

theorem grep_prints_matches_witness:
  "grep [94, 97] (\<lambda>j. 2) [97, 98, 10, 98, 10, 97, 10, 97] = [97, 98, 10, 97, 10]"
  using grep_prints_matches[of "[97, 98, 10, 98, 10, 97, 10, 97]" "[94, 97]" "\<lambda>j. 2"] by (simp add: match_def)

end
