(* ===== verification/Kalloc.thy ===== *)
theory Kalloc
  imports Prelude
begin

text \<open>
  The page allocator of \<^verbatim>\<open>kernel/kalloc.c\<close>: a free list threaded through the first words of the
  free pages. An address is a natural number, NULL is 0 and the memory is what the allocator sees
  of it, the first word of every page. The contract of an allocator is a locale, which the block
  allocator of the file system uses too.
\<close>

section \<open>Allocators\<close>

text \<open>
  \<open>alloc\<close> hands out an element of \<open>avail\<close> or nothing when there is none; \<open>free\<close> takes back an
  element that it has handed out. A fault of \<open>free\<close> is \<^const>\<open>Inl\<close>.
\<close>

inductive alloc_use ::
  "('s \<Rightarrow> 'a option \<times> 's) \<Rightarrow> ('a \<Rightarrow> 's \<Rightarrow> fault + 's) \<Rightarrow> 's \<times> 'a set \<Rightarrow> 's \<times> 'a set \<Rightarrow> bool"
  for alloc :: "'s \<Rightarrow> 'a option \<times> 's" and free :: "'a \<Rightarrow> 's \<Rightarrow> fault + 's" where
  use_alloc: "alloc s = (Some x, s') \<Longrightarrow> alloc_use alloc free (s, own) (s', insert x own)"
| use_fail: "alloc s = (None, s') \<Longrightarrow> alloc_use alloc free (s, own) (s', own)"
| use_free: "x \<in> own \<Longrightarrow> free x s = Inr s' \<Longrightarrow> alloc_use alloc free (s, own) (s', own - {x})"

locale allocator =
  fixes inv :: "'s \<Rightarrow> bool" and avail :: "'s \<Rightarrow> 'a set"
    and alloc :: "'s \<Rightarrow> 'a option \<times> 's" and free :: "'a \<Rightarrow> 's \<Rightarrow> fault + 's" and valid :: "'a \<Rightarrow> bool"
  assumes alloc_Some: "inv s \<Longrightarrow> alloc s = (Some x, s') \<Longrightarrow>
      inv s' \<and> x \<in> avail s \<and> valid x \<and> avail s' = avail s - {x}"
    and alloc_None: "inv s \<Longrightarrow> alloc s = (None, s') \<Longrightarrow> s' = s \<and> avail s = {}"
    and free_ok: "inv s \<Longrightarrow> valid x \<Longrightarrow> x \<notin> avail s \<Longrightarrow>
      \<exists>s'. free x s = Inr s' \<and> inv s' \<and> avail s' = insert x (avail s)"
begin

definition owned_ok :: "'a set \<Rightarrow> 's \<times> 'a set \<Rightarrow> bool" where
  "owned_ok U = (\<lambda>(s, own). inv s \<and> own \<inter> avail s = {} \<and> own \<union> avail s = U \<and> (\<forall>x \<in> own. valid x))"

lemma owned_ok_step: "alloc_use alloc free c c' \<Longrightarrow> owned_ok U c \<Longrightarrow> owned_ok U c'"
proof (induction rule: alloc_use.induct)
  case (use_alloc s x s' own)
  then show ?case using alloc_Some[OF _ use_alloc(1)] by (auto simp: owned_ok_def)
next
  case (use_fail s s' own)
  then show ?case using alloc_None[OF _ use_fail(1)] by (auto simp: owned_ok_def)
next
  case (use_free x own s s')
  then have inv: "inv s" "valid x" "x \<notin> avail s" by (auto simp: owned_ok_def)
  from free_ok[OF this] use_free(2) have "inv s'" "avail s' = insert x (avail s)" by auto
  with use_free show ?case by (auto simp: owned_ok_def)
qed

lemma owned_ok_reach: "(alloc_use alloc free)\<^sup>*\<^sup>* c c' \<Longrightarrow> owned_ok U c \<Longrightarrow> owned_ok U c'"
  by (induction rule: rtranclp_induct) (blast intro: owned_ok_step)+

text \<open>Nothing is handed out twice, a failed request means that everything is in use, and freeing works.\<close>

lemma exclusive:
  assumes "(alloc_use alloc free)\<^sup>*\<^sup>* (s, {}) (s', own)" "inv s"
  shows "own \<inter> avail s' = {}" "own \<union> avail s' = avail s"
    "alloc s' = (Some x, s'') \<Longrightarrow> x \<notin> own" "alloc s' = (None, s'') \<Longrightarrow> own = avail s"
    "x \<in> own \<Longrightarrow> \<exists>s''. free x s' = Inr s'' \<and> avail s'' = insert x (avail s')"
proof -
  have *: "owned_ok (avail s) (s', own)"
    using owned_ok_reach[OF assms(1)] assms(2) by (simp add: owned_ok_def)
  then show "own \<inter> avail s' = {}" "own \<union> avail s' = avail s" by (auto simp: owned_ok_def)
  show "x \<notin> own" if "alloc s' = (Some x, s'')" using * alloc_Some[OF _ that] by (auto simp: owned_ok_def)
  show "own = avail s" if "alloc s' = (None, s'')" using * alloc_None[OF _ that] by (auto simp: owned_ok_def)
  show "\<exists>s''. free x s' = Inr s'' \<and> avail s'' = insert x (avail s')" if "x \<in> own"
    using * that free_ok[of s' x] by (auto simp: owned_ok_def)
qed

end

section \<open>Pages\<close>

definition PGSIZE :: nat where "PGSIZE = 4096"

definition KERNBASE :: nat where "KERNBASE = 0x80000000"

definition PHYSTOP :: nat where "PHYSTOP = KERNBASE + 128 * 1024 * 1024"

definition PGROUNDUP :: "nat \<Rightarrow> nat" where
  "PGROUNDUP sz = (sz + PGSIZE - 1) div PGSIZE * PGSIZE"

record kmem =
  freelist :: nat
  next_of :: "nat \<Rightarrow> nat"

text \<open>The first word of a page whose bytes have all been set to \<open>c\<close>.\<close>

definition junk :: "nat \<Rightarrow> nat" where
  "junk c = c * 0x0101010101010101"

definition kfree :: "nat \<Rightarrow> nat \<Rightarrow> kmem \<Rightarrow> fault + kmem" where
  "kfree kend pa k =
    (if pa mod PGSIZE \<noteq> 0 \<or> pa < kend \<or> pa \<ge> PHYSTOP then Inl (Panic ''kfree'')
     else let k = k\<lparr>next_of := (next_of k)(pa := junk 1)\<rparr>;
              k = k\<lparr>next_of := (next_of k)(pa := freelist k)\<rparr> in Inr (k\<lparr>freelist := pa\<rparr>))"

definition kalloc :: "kmem \<Rightarrow> nat option \<times> kmem" where
  "kalloc k =
    (let r = freelist k in
     if r \<noteq> 0 then (Some r, k\<lparr>freelist := next_of k r, next_of := (next_of k)(r := junk 5)\<rparr>) else (None, k))"

function free_pages :: "nat \<Rightarrow> nat \<Rightarrow> nat \<Rightarrow> kmem \<Rightarrow> fault + kmem" where
  "free_pages kend p pa_end k =
    (if p + PGSIZE \<le> pa_end then rbind (kfree kend p k) (free_pages kend (p + PGSIZE) pa_end) else Inr k)"
  by auto
termination by (relation "measure (\<lambda>(kend, p, pa_end, k). pa_end - p)") (auto simp: PGSIZE_def)

declare free_pages.simps [simp del]

definition freerange :: "nat \<Rightarrow> nat \<Rightarrow> nat \<Rightarrow> kmem \<Rightarrow> fault + kmem" where
  "freerange kend pa_start pa_end k = free_pages kend (PGROUNDUP pa_start) pa_end k"

definition kinit :: "nat \<Rightarrow> kmem \<Rightarrow> fault + kmem" where
  "kinit kend k = freerange kend kend PHYSTOP k"

section \<open>The free list\<close>

fun chain :: "(nat \<Rightarrow> nat) \<Rightarrow> nat \<Rightarrow> nat list \<Rightarrow> bool" where
  "chain nx r [] \<longleftrightarrow> r = 0"
| "chain nx r (p # ps) \<longleftrightarrow> r = p \<and> p \<noteq> 0 \<and> p \<notin> set ps \<and> chain nx (nx p) ps"

definition page :: "nat \<Rightarrow> nat \<Rightarrow> bool" where
  "page kend p \<longleftrightarrow> p mod PGSIZE = 0 \<and> kend \<le> p \<and> p < PHYSTOP \<and> p \<noteq> 0"

definition kmem_ok :: "nat \<Rightarrow> kmem \<Rightarrow> bool" where
  "kmem_ok kend k \<longleftrightarrow> (\<exists>ps. chain (next_of k) (freelist k) ps \<and> (\<forall>p \<in> set ps. page kend p))"

definition pages_of :: "kmem \<Rightarrow> nat set" where
  "pages_of k = {p. \<exists>ps. chain (next_of k) (freelist k) ps \<and> p \<in> set ps}"

lemma chain_upd: "a \<notin> set ps \<Longrightarrow> chain (nx(a := v)) r ps \<longleftrightarrow> chain nx r ps"
  by (induction ps arbitrary: r) auto

lemma chain_unique: "chain nx r ps \<Longrightarrow> chain nx r qs \<Longrightarrow> ps = qs"
proof (induction ps arbitrary: r qs)
  case Nil
  then show ?case by (cases qs) auto
next
  case (Cons p ps)
  then show ?case by (cases qs) auto
qed

lemma pages_of_chain: "chain (next_of k) (freelist k) ps \<Longrightarrow> pages_of k = set ps"
  by (auto simp: pages_of_def dest: chain_unique)

lemma kfree_ok:
  assumes "kmem_ok kend k" "page kend p" "p \<notin> pages_of k"
  shows "\<exists>k'. kfree kend p k = Inr k' \<and> kmem_ok kend k' \<and> pages_of k' = insert p (pages_of k)"
proof -
  obtain ps where ps: "chain (next_of k) (freelist k) ps" "\<forall>p \<in> set ps. page kend p" using assms(1) by (auto simp: kmem_ok_def)
  with assms(3) have p: "p \<notin> set ps" by (simp add: pages_of_chain)
  let ?k = "k\<lparr>next_of := (next_of k)(p := freelist k), freelist := p\<rparr>"
  have c: "chain (next_of ?k) (freelist ?k) (p # ps)" using ps(1) p assms(2) by (simp add: chain_upd page_def)
  have "kfree kend p k = Inr ?k" using assms(2) by (auto simp: kfree_def page_def)
  moreover have "kmem_ok kend ?k" unfolding kmem_ok_def using c ps(2) assms(2) by (intro exI[of _ "p # ps"]) simp
  ultimately show ?thesis using pages_of_chain[OF c] pages_of_chain[OF ps(1)] by auto
qed

lemma kalloc_Some:
  assumes "kmem_ok kend k" "kalloc k = (Some p, k')"
  shows "kmem_ok kend k'" "p \<in> pages_of k" "page kend p" "pages_of k' = pages_of k - {p}"
proof -
  obtain ps where ps: "chain (next_of k) (freelist k) ps" "\<forall>p \<in> set ps. page kend p" using assms(1) by (auto simp: kmem_ok_def)
  have k': "freelist k = p" "p \<noteq> 0" "k' = k\<lparr>freelist := next_of k p, next_of := (next_of k)(p := junk 5)\<rparr>"
    using assms(2) by (auto simp: kalloc_def Let_def split: if_splits)
  with ps(1) obtain qs where qs: "ps = p # qs" "p \<notin> set qs" "chain (next_of k) (next_of k p) qs" by (cases ps) auto
  have c: "chain (next_of k') (freelist k') qs" using qs k' by (simp add: chain_upd)
  show "kmem_ok kend k'" using c ps(2) qs(1) by (auto simp: kmem_ok_def)
  show "p \<in> pages_of k" "page kend p" "pages_of k' = pages_of k - {p}"
    using pages_of_chain[OF c] pages_of_chain[OF ps(1)] qs ps(2) by auto
qed

lemma kalloc_None: "kmem_ok kend k \<Longrightarrow> kalloc k = (None, k') \<Longrightarrow> k' = k \<and> pages_of k = {}"
  by (auto simp: kalloc_def Let_def kmem_ok_def split: if_splits)
    (metis chain.simps(1) empty_iff list.set(1) pages_of_chain)

interpretation pages: allocator "kmem_ok kend" pages_of kalloc "kfree kend" "page kend"
  by unfold_locales (auto simp: kalloc_Some dest: kalloc_None kfree_ok)

section \<open>Start-up\<close>

definition whole_pages :: "nat \<Rightarrow> nat set" where
  "whole_pages p = {q. q mod PGSIZE = 0 \<and> p \<le> q \<and> q + PGSIZE \<le> PHYSTOP}"

lemma whole_pages_step:
  assumes "p mod PGSIZE = 0" "p + PGSIZE \<le> PHYSTOP"
  shows "whole_pages p = insert p (whole_pages (p + PGSIZE))"
proof -
  have "q = p \<or> p + PGSIZE \<le> q" if "PGSIZE dvd q" "p \<le> q" for q
  proof -
    from that(1) assms(1) obtain a b where "q = PGSIZE * a" "p = PGSIZE * b" by (auto simp: mod_eq_0_iff_dvd elim!: dvdE)
    with that(2) show ?thesis by (cases "a = b") (auto simp: PGSIZE_def)
  qed
  then have "q \<in> whole_pages p \<longleftrightarrow> q = p \<or> q \<in> whole_pages (p + PGSIZE)" for q
    unfolding whole_pages_def mem_Collect_eq mod_eq_0_iff_dvd
    using assms by (metis add_leD1 le_refl mod_eq_0_iff_dvd)
  then show ?thesis by blast
qed

lemma free_pages_ok:
  "p mod PGSIZE = 0 \<Longrightarrow> kend \<le> p \<Longrightarrow> 0 < p \<Longrightarrow> kmem_ok kend k \<Longrightarrow> \<forall>q \<in> pages_of k. q < p \<Longrightarrow>
   \<exists>k'. free_pages kend p PHYSTOP k = Inr k' \<and> kmem_ok kend k' \<and> pages_of k' = pages_of k \<union> whole_pages p"
proof (induction "PHYSTOP - p" arbitrary: p k rule: less_induct)
  case less
  show ?case
  proof (cases "p + PGSIZE \<le> PHYSTOP")
    case True
    have "page kend p" "p \<notin> pages_of k" using less.prems True by (auto simp: page_def PGSIZE_def)
    from kfree_ok[OF less.prems(4) this] obtain k1 where
      k1: "kfree kend p k = Inr k1" "kmem_ok kend k1" "pages_of k1 = insert p (pages_of k)" by auto
    have "PHYSTOP - (p + PGSIZE) < PHYSTOP - p" using True by (simp add: PGSIZE_def)
    moreover have "(p + PGSIZE) mod PGSIZE = 0" using less.prems(1) by simp
    moreover have "\<forall>q \<in> pages_of k1. q < p + PGSIZE" using less.prems(5) k1(3) by (auto simp: PGSIZE_def)
    ultimately obtain k' where "free_pages kend (p + PGSIZE) PHYSTOP k1 = Inr k'" "kmem_ok kend k'"
      "pages_of k' = pages_of k1 \<union> whole_pages (p + PGSIZE)"
      using less.hyps[of "p + PGSIZE" k1] less.prems(2,3) k1(2) by auto
    then show ?thesis
      using k1 True whole_pages_step[OF less.prems(1) True] by (auto simp: free_pages.simps[of kend p])
  next
    case False
    then show ?thesis using less.prems(4) by (auto simp: free_pages.simps[of kend p] whole_pages_def)
  qed
qed

lemma PGROUNDUP_props:
  shows "PGROUNDUP a mod PGSIZE = 0" and "a \<le> PGROUNDUP a"
    and "q mod PGSIZE = 0 \<Longrightarrow> a \<le> q \<Longrightarrow> PGROUNDUP a \<le> q"
proof -
  show "PGROUNDUP a mod PGSIZE = 0" by (simp add: PGROUNDUP_def)
  show "a \<le> PGROUNDUP a"
    using div_mult_mod_eq[of "a + 4095" 4096] mod_less_divisor[of 4096 "a + 4095"] by (simp add: PGROUNDUP_def PGSIZE_def)
  assume "q mod PGSIZE = 0" "a \<le> q"
  then obtain c where "q = 4096 * c" "a \<le> 4096 * c" by (auto simp: PGSIZE_def)
  then have "a + 4095 < (c + 1) * 4096" by simp
  then have "(a + 4095) div 4096 < c + 1" by (rule less_mult_imp_div_less)
  then show "PGROUNDUP a \<le> q" using \<open>q = 4096 * c\<close> by (simp add: PGROUNDUP_def PGSIZE_def)
qed

lemma kinit_ok:
  assumes "0 < kend" "freelist k0 = 0"
  shows "\<exists>k. kinit kend k0 = Inr k \<and> kmem_ok kend k \<and> pages_of k = whole_pages kend"
proof -
  have c: "chain (next_of k0) (freelist k0) []" using assms(2) by simp
  then have "kmem_ok kend k0" "pages_of k0 = {}" by (auto simp: kmem_ok_def pages_of_chain[OF c] intro!: exI[of _ "[]"])
  moreover have "whole_pages (PGROUNDUP kend) = whole_pages kend"
    using PGROUNDUP_props(2)[of kend] PGROUNDUP_props(3)[of _ kend]
    unfolding whole_pages_def by (meson order.trans)
  moreover have "0 < PGROUNDUP kend" using PGROUNDUP_props(2)[of kend] assms(1) by linarith
  ultimately show ?thesis
    using free_pages_ok[of "PGROUNDUP kend" kend k0] PGROUNDUP_props(1,2)[of kend]
    by (simp add: kinit_def freerange_def)
qed

text \<open>
  C21: After start-up the allocator has exactly the whole pages between the end of the kernel and
  the top of memory. Whatever sequence of allocations and releases follows, a page that is in use
  is never handed out again, releasing it succeeds, no page is lost, and an allocation fails only
  when every page is in use.
\<close>

theorem kalloc_exclusive:
  assumes "0 < kend" "freelist k0 = 0" "kinit kend k0 = Inr k"
    and "(alloc_use kalloc (kfree kend))\<^sup>*\<^sup>* (k, {}) (k', own)"
  shows "own \<inter> pages_of k' = {} \<and> own \<union> pages_of k' = whole_pages kend \<and>
    (\<forall>p k''. kalloc k' = (Some p, k'') \<longrightarrow> p \<notin> own \<and> p mod PGSIZE = 0) \<and>
    (\<forall>k''. kalloc k' = (None, k'') \<longrightarrow> own = whole_pages kend) \<and>
    (\<forall>p \<in> own. ok (kfree kend p k'))"
proof -
  have k: "kmem_ok kend k" "pages_of k = whole_pages kend" using kinit_ok[OF assms(1,2)] assms(3) by auto
  note ex = pages.exclusive[OF assms(4) k(1), unfolded k(2)]
  have "p mod PGSIZE = 0" if "kalloc k' = (Some p, k'')" for p k''
  proof -
    have "kmem_ok kend k'" using pages.owned_ok_reach[OF assms(4), where U = "whole_pages kend"] k by (auto simp: pages.owned_ok_def)
    from kalloc_Some(3)[OF this that] show ?thesis by (simp add: page_def)
  qed
  moreover have "\<forall>p \<in> own. ok (kfree kend p k')" using ex(5) unfolding ok_iff by blast
  ultimately show ?thesis using ex(1-4) by simp
qed

theorem kalloc_exclusive_witness:
  "\<exists>k p k'. kinit 0x87fff000 \<lparr>freelist = 0, next_of = (\<lambda>_. 0)\<rparr> = Inr k \<and> kalloc k = (Some p, k') \<and>
    {p} \<inter> pages_of k' = {} \<and> {p} \<union> pages_of k' = whole_pages 0x87fff000"
proof -
  let ?e = "0x87fff000 :: nat" and ?k0 = "\<lparr>freelist = 0, next_of = (\<lambda>_. 0)\<rparr>"
  obtain k where k: "kinit ?e ?k0 = Inr k" "kmem_ok ?e k" "pages_of k = whole_pages ?e" using kinit_ok[of ?e ?k0] by auto
  have "?e \<in> whole_pages ?e" by (simp add: whole_pages_def PGSIZE_def PHYSTOP_def KERNBASE_def)
  with k(3) have "\<not> (\<exists>k'. kalloc k = (None, k'))" using kalloc_None[OF k(2)] by auto
  then obtain p k' where p: "kalloc k = (Some p, k')" by (metis not_None_eq surj_pair)
  then have "(alloc_use kalloc (kfree ?e))\<^sup>*\<^sup>* (k, {}) (k', {p})" by (auto intro: use_alloc)
  from kalloc_exclusive[OF _ _ k(1) this] p k(1) show ?thesis by auto
qed

end
