(* ===== verification/Ring.thy ===== *)
theory Ring
  imports Prelude
begin

text \<open>
  Byte queues in a circular array with free-running 32-bit counters, as pipes and the console use
  them. The counters wrap around modulo \<open>2 ^ 32\<close>; because the size of the array divides that,
  the slot of a counter moves on by one slot when the counter does, also at the wrap.
\<close>

type_synonym counter = "32 word"

definition slot :: "nat \<Rightarrow> counter \<Rightarrow> nat" where
  "slot N c = unat c mod N"

text \<open>The elements between a read and a write counter, oldest first.\<close>

definition slice :: "nat \<Rightarrow> (nat \<Rightarrow> 'a) \<Rightarrow> counter \<Rightarrow> counter \<Rightarrow> 'a list" where
  "slice N data r w = map (\<lambda>i. data (slot N (r + of_nat i))) [0..<unat (w - r)]"

lemma counter_add: "unat (a :: counter) + unat b < 2 ^ 32 \<Longrightarrow> unat (a + b) = unat a + unat b"
  by (simp add: unat_word_ariths)

lemma counter_pred: "(a :: counter) \<noteq> 0 \<Longrightarrow> unat a = Suc (unat (a - 1))"
  using unat_minus_one[of a] unat_gt_0[of a] by simp

locale ring =
  fixes N :: nat
  assumes N_pos: "0 < N" and N_dvd: "N dvd 2 ^ 32" and N_small: "N < 2 ^ 32"
begin

lemma slot_less: "slot N c < N"
  using N_pos by (simp add: slot_def)

lemma slot_add: "slot N (c + of_nat i) = (unat c + i) mod N"
proof -
  have "unat (c + of_nat i) = (unat c + i) mod 2 ^ 32"
    by (simp add: unat_word_ariths unat_of_nat take_bit_eq_mod mod_add_right_eq)
  then show ?thesis using N_dvd by (simp add: slot_def mod_mod_cancel)
qed

lemma slots_differ:
  assumes "i < j" "j < i + N"
  shows "slot N (c + of_nat i) \<noteq> slot N (c + of_nat j)"
proof
  assume "slot N (c + of_nat i) = slot N (c + of_nat j)"
  then have "(unat c + i) mod N = (unat c + j) mod N" by (simp add: slot_add)
  then have "N dvd (unat c + j) - (unat c + i)" using assms(1) by (metis mod_eq_dvd_iff_nat nat_add_left_cancel_le less_imp_le)
  then have "N dvd j - i" by simp
  with assms show False by (auto dest: dvd_imp_le)
qed

lemma slice_length [simp]: "length (slice N data r w) = unat (w - r)"
  by (simp add: slice_def)

lemma slice_empty_iff: "slice N data r w = [] \<longleftrightarrow> r = w"
  by (auto simp: slice_def unat_eq_0)

lemma unat_succ: "unat (x :: counter) < N \<Longrightarrow> unat (x + 1) = Suc (unat x)"
  using N_small by (simp add: unat_word_ariths)

lemma slice_push:
  assumes "unat (w - r) < N"
  shows "slice N (data(slot N w := x)) r (w + 1) = slice N data r w @ [x]"
proof -
  have u: "unat (w + 1 - r) = Suc (unat (w - r))" using unat_succ[OF assms] by (simp add: algebra_simps)
  have w: "w = r + of_nat (unat (w - r))" by simp
  have "slot N (r + of_nat i) \<noteq> slot N w" if "i < unat (w - r)" for i
    using slots_differ[OF that, of r] assms by (metis w less_trans add.commute trans_less_add2)
  then have "map (\<lambda>i. (data(slot N w := x)) (slot N (r + of_nat i))) [0..<unat (w - r)] = slice N data r w"
    by (simp add: slice_def)
  then show ?thesis unfolding slice_def u upt_Suc_append[OF le0] map_append by simp
qed

lemma slice_pop:
  assumes "r \<noteq> w"
  shows "slice N data r w = data (slot N r) # slice N data (r + 1) w"
proof -
  have "w - r \<noteq> 0" using assms by simp
  then have u: "unat (w - r) = Suc (unat (w - (r + 1)))"
    using unat_minus_one[of "w - r"] unat_gt_0[of "w - r"] by (simp add: diff_diff_eq)
  show ?thesis unfolding slice_def u upt_conv_Cons[OF zero_less_Suc] map_Suc_upt[symmetric]
    by (simp add: algebra_simps)
qed

end

end
