(* ===== verification/Pipe.thy ===== *)
theory Pipe
  imports Ring Proc
begin

text \<open>
  Pipes, \<^verbatim>\<open>kernel/pipe.c\<close>. A call runs under the pipe's lock until it returns or sleeps, so one
  such pass is one step; a writer that slept goes on with the byte it had reached. The lock does
  not stop \<^verbatim>\<open>kkill\<close>, so the writer may find itself killed at any byte of a pass: \<open>kd i\<close> is what
  \<^verbatim>\<open>killed(pr)\<close> answers at byte \<open>i\<close>. The user memory is an argument too: \<open>copyin i\<close> is the byte at
  \<^verbatim>\<open>addr + i\<close> or \<^const>\<open>None\<close> where it cannot be read, \<open>copyout i\<close> whether \<^verbatim>\<open>addr + i\<close> can be
  written. The pipe at address \<open>a\<close> has its channels at the addresses of its counters.
\<close>

section \<open>Operations\<close>

definition PIPESIZE :: nat where "PIPESIZE = 512"

record pipe =
  data :: "nat \<Rightarrow> 8 word"
  nread :: counter
  nwrite :: counter
  readopen :: bool
  writeopen :: bool

record pipe_sys =
  pip :: pipe
  pip_tab :: ptable

datatype pipe_result = PipeDone int | PipeSleeps nat

definition at_nread :: "nat \<Rightarrow> chan" where
  "at_nread a = At_obj (a + 536)"

definition at_nwrite :: "nat \<Rightarrow> chan" where
  "at_nwrite a = At_obj (a + 540)"

definition new_pipe :: "(nat \<Rightarrow> 8 word) \<Rightarrow> pipe" where
  "new_pipe junk = \<lparr>data = junk, nread = 0, nwrite = 0, readopen = True, writeopen = True\<rparr>"

text \<open>The flag returned says whether both ends are closed, when the page of the pipe is freed.\<close>

definition pipeclose :: "bool \<Rightarrow> nat \<Rightarrow> nat \<Rightarrow> pipe_sys \<Rightarrow> bool \<times> pipe_sys" where
  "pipeclose writable me a s =
    (let s = (if writable then s\<lparr>pip := (pip s)\<lparr>writeopen := False\<rparr>, pip_tab := wakeup me (at_nread a) (pip_tab s)\<rparr>
              else s\<lparr>pip := (pip s)\<lparr>readopen := False\<rparr>, pip_tab := wakeup me (at_nwrite a) (pip_tab s)\<rparr>)
     in (\<not> readopen (pip s) \<and> \<not> writeopen (pip s), s))"

definition store :: "8 word \<Rightarrow> pipe \<Rightarrow> pipe" where
  "store c p = p\<lparr>data := (data p)(slot PIPESIZE (nwrite p) := c), nwrite := nwrite p + 1\<rparr>"

text \<open>
  A pass of the writer returns with the value of its variable \<^verbatim>\<open>i\<close>, the bytes that have gone into
  the pipe. It wakes the readers at the end and before it sleeps, not where it gives up with \<open>-1\<close>.
\<close>

definition pipewrite_end :: "nat \<Rightarrow> nat \<Rightarrow> nat \<Rightarrow> pipe_sys \<Rightarrow> pipe_result \<times> nat \<times> pipe_sys" where
  "pipewrite_end me a i s = (PipeDone (int i), i, s\<lparr>pip_tab := wakeup me (at_nread a) (pip_tab s)\<rparr>)"

function pipewrite_loop ::
  "(nat \<Rightarrow> 8 word option) \<Rightarrow> (nat \<Rightarrow> bool) \<Rightarrow> nat \<Rightarrow> nat \<Rightarrow> nat \<Rightarrow> nat \<Rightarrow> pipe_sys \<Rightarrow> pipe_result \<times> nat \<times> pipe_sys" where
  "pipewrite_loop copyin kd me a n i s =
    (if i < n then
       if \<not> readopen (pip s) \<or> kd i then (PipeDone (-1), i, s)
       else if nwrite (pip s) = nread (pip s) + of_nat PIPESIZE
       then (PipeSleeps i, i, s\<lparr>pip_tab := sleep me (at_nwrite a) (wakeup me (at_nread a) (pip_tab s))\<rparr>)
       else (case copyin i of None \<Rightarrow> pipewrite_end me a i s
             | Some c \<Rightarrow> pipewrite_loop copyin kd me a n (i + 1) (s\<lparr>pip := store c (pip s)\<rparr>))
     else pipewrite_end me a i s)"
  by auto
termination by (relation "measure (\<lambda>(copyin, kd, me, a, n, i, s). n - i)") auto

declare pipewrite_loop.simps [simp del]

definition pipewrite ::
  "(nat \<Rightarrow> 8 word option) \<Rightarrow> (nat \<Rightarrow> bool) \<Rightarrow> nat \<Rightarrow> nat \<Rightarrow> int \<Rightarrow> pipe_sys \<Rightarrow> pipe_result \<times> nat \<times> pipe_sys" where
  "pipewrite copyin kd me a n s = pipewrite_loop copyin kd me a (nat n) 0 s"

text \<open>
  The copy loop of \<^verbatim>\<open>piperead\<close>, with the bytes taken out of the pipe and whether each has reached the
  user: the byte whose copy fails is gone.
\<close>

function piperead_loop :: "(nat \<Rightarrow> bool) \<Rightarrow> nat \<Rightarrow> nat \<Rightarrow> pipe \<Rightarrow> nat \<times> (8 word \<times> bool) list \<times> pipe" where
  "piperead_loop copyout n i p =
    (if i < n then
       if nread p = nwrite p then (i, [], p)
       else let c = data p (slot PIPESIZE (nread p)); p = p\<lparr>nread := nread p + 1\<rparr> in
         if \<not> copyout i then (i, [(c, False)], p)
         else let (j, out, p) = piperead_loop copyout n (i + 1) p in (j, (c, True) # out, p)
     else (i, [], p))"
  by auto
termination by (relation "measure (\<lambda>(copyout, n, i, p). n - i)") auto

declare piperead_loop.simps [simp del]

definition piperead ::
  "(nat \<Rightarrow> bool) \<Rightarrow> nat \<Rightarrow> nat \<Rightarrow> int \<Rightarrow> pipe_sys \<Rightarrow> pipe_result \<times> (8 word \<times> bool) list \<times> pipe_sys" where
  "piperead copyout me a n s =
    (if nread (pip s) = nwrite (pip s) \<and> writeopen (pip s) then
       if killed me (pip_tab s) then (PipeDone (-1), [], s)
       else (PipeSleeps 0, [], s\<lparr>pip_tab := sleep me (at_nread a) (pip_tab s)\<rparr>)
     else let (i, out, p) = piperead_loop copyout (nat n) 0 (pip s) in
       (PipeDone (int i), out, s\<lparr>pip := p, pip_tab := wakeup me (at_nwrite a) (pip_tab s)\<rparr>))"

section \<open>The pipe as a queue\<close>

interpretation pring: ring PIPESIZE
  by unfold_locales (simp_all add: PIPESIZE_def)

definition contents :: "pipe \<Rightarrow> 8 word list" where
  "contents p = slice PIPESIZE (data p) (nread p) (nwrite p)"

definition pipe_ok :: "pipe \<Rightarrow> bool" where
  "pipe_ok p \<longleftrightarrow> length (contents p) \<le> PIPESIZE"

lemma length_contents: "length (contents p) = unat (nwrite p - nread p)"
  by (simp add: contents_def)

lemma full_iff: "nwrite p = nread p + of_nat PIPESIZE \<longleftrightarrow> length (contents p) = PIPESIZE"
proof
  assume "length (contents p) = PIPESIZE"
  then have "nwrite p - nread p = of_nat PIPESIZE" by (metis length_contents word_unat_eq_iff unat_of_nat word_nat_cases of_nat_unat ucast_id)
  then show "nwrite p = nread p + of_nat PIPESIZE" by (simp add: algebra_simps)
qed (simp add: length_contents PIPESIZE_def)

lemma empty_iff: "nread p = nwrite p \<longleftrightarrow> contents p = []"
  by (simp add: contents_def pring.slice_empty_iff)

lemma contents_store: "length (contents p) < PIPESIZE \<Longrightarrow> contents (store c p) = contents p @ [c]"
  by (simp add: contents_def store_def length_contents[unfolded contents_def] pring.slice_push)

lemma contents_pop:
  "contents p \<noteq> [] \<Longrightarrow> contents p = data p (slot PIPESIZE (nread p)) # contents (p\<lparr>nread := nread p + 1\<rparr>)"
  using pring.slice_pop[of "nread p" "nwrite p" "data p"] by (simp add: contents_def pring.slice_empty_iff)

lemma store_frame [simp]: "readopen (store c p) = readopen p" "writeopen (store c p) = writeopen p"
  by (simp_all add: store_def)

text \<open>
  What a pass of the writer does: it appends the bytes from \<open>i\<close> to some \<open>j\<close>, and ends because all
  are written, the user memory cannot be read, the pipe is full, nobody reads any more, or the
  writer has been killed. The last two wake nobody.
\<close>

definition write_pass ::
  "(nat \<Rightarrow> 8 word option) \<Rightarrow> (nat \<Rightarrow> bool) \<Rightarrow> nat \<Rightarrow> nat \<Rightarrow> nat \<Rightarrow> nat \<Rightarrow> pipe_sys \<Rightarrow> pipe_result \<Rightarrow> pipe_sys \<Rightarrow> nat \<Rightarrow> bool" where
  "write_pass copyin kd me a n i s res s' j \<longleftrightarrow>
    i \<le> j \<and> (j \<le> n \<or> j = i) \<and> (\<forall>k \<in> {i..<j}. copyin k \<noteq> None) \<and>
    contents (pip s') = contents (pip s) @ map (\<lambda>k. the (copyin k)) [i..<j] \<and> pipe_ok (pip s') \<and>
    readopen (pip s') = readopen (pip s) \<and> writeopen (pip s') = writeopen (pip s) \<and>
    (case res of
       PipeSleeps k \<Rightarrow> k = j \<and> readopen (pip s) \<and> length (contents (pip s')) = PIPESIZE \<and>
         pip_tab s' = sleep me (at_nwrite a) (wakeup me (at_nread a) (pip_tab s))
     | PipeDone v \<Rightarrow>
         v = int j \<and> (n \<le> j \<or> copyin j = None) \<and> pip_tab s' = wakeup me (at_nread a) (pip_tab s)
         \<or> v = -1 \<and> pip_tab s' = pip_tab s \<and> (\<not> readopen (pip s) \<and> j = i \<or> kd j))"

lemma pipewrite_loop_pass:
  "pipe_ok (pip s) \<Longrightarrow> pipewrite_loop copyin kd me a n i s = (res, j, s') \<Longrightarrow> write_pass copyin kd me a n i s res s' j"
proof (induction copyin kd me a n i s rule: pipewrite_loop.induct)
  case (1 copyin kd me a n i s)
  let ?open = "readopen (pip s) \<and> \<not> kd i"
  consider (finished) "\<not> i < n" | (closed) "i < n" "\<not> ?open" | (full) "i < n" ?open "length (contents (pip s)) = PIPESIZE"
    | (fault) "i < n" ?open "length (contents (pip s)) \<noteq> PIPESIZE" "copyin i = None"
    | (byte) c where "i < n" ?open "length (contents (pip s)) \<noteq> PIPESIZE" "copyin i = Some c"
    by (cases "copyin i") auto
  then show ?case
  proof cases
    case (byte c)
    let ?s = "s\<lparr>pip := store c (pip s)\<rparr>"
    have lt: "length (contents (pip s)) < PIPESIZE" using 1(2) byte(3) by (simp add: pipe_ok_def)
    have run: "pipewrite_loop copyin kd me a n (i + 1) ?s = (res, j, s')"
      using 1(3) byte by (simp add: pipewrite_loop.simps[of copyin kd me a n i s] full_iff)
    have "pipe_ok (pip ?s)" using lt by (simp add: pipe_ok_def contents_store)
    from 1(1)[OF byte(1) _ _ byte(4) this run] byte(2,3) have j: "write_pass copyin kd me a n (i + 1) ?s res s' j"
      by (auto simp: full_iff)
    have "k \<in> {i..<j} \<Longrightarrow> copyin k \<noteq> None" for k
      using j byte(4) by (cases "k = i") (auto simp: write_pass_def)
    with j byte show ?thesis
      by (auto simp: write_pass_def contents_store[OF lt] upt_conv_Cons[of i j] split: pipe_result.splits)
  qed (use 1(2,3) in \<open>auto simp: write_pass_def pipewrite_end_def full_iff
      pipewrite_loop.simps[of copyin kd me a n i s]\<close>)
qed

text \<open>
  What a pass of the reader does: it takes a prefix of the pipe, every byte of it reaches the user
  but perhaps the last, and the count it returns is the number that did.
\<close>

lemma piperead_loop_takes:
  "piperead_loop copyout n i p = (j, out, p') \<Longrightarrow>
    contents p = map fst out @ contents p' \<and> readopen p' = readopen p \<and> writeopen p' = writeopen p \<and>
    j = i + length (filter snd out) \<and> (\<forall>x \<in> set (butlast out). snd x) \<and>
    ((\<forall>k. copyout k) \<and> i \<le> n \<longrightarrow> (\<forall>x \<in> set out. snd x) \<and> length out = min (n - i) (length (contents p)))"
proof (induction "n - i" arbitrary: i p j out p')
  case 0
  then have "piperead_loop copyout n i p = (i, [], p)" by (subst piperead_loop.simps) simp
  with 0 show ?case by auto
next
  case (Suc d)
  define q where "q = p\<lparr>nread := nread p + 1\<rparr>"
  let ?c = "data p (slot PIPESIZE (nread p))"
  show ?case
  proof (cases "contents p = []")
    case True
    then have "piperead_loop copyout n i p = (i, [], p)" by (subst piperead_loop.simps) (simp add: empty_iff)
    with Suc(3) True show ?thesis by auto
  next
    case False
    have pop: "contents p = ?c # contents q" unfolding q_def by (rule contents_pop[OF False])
    have q: "readopen q = readopen p" "writeopen q = writeopen p" by (simp_all add: q_def)
    have d: "d = n - (i + 1)" "i + 1 \<le> n" using Suc(2) by linarith+
    show ?thesis
    proof (cases "copyout i")
      case True
      obtain j1 out1 p1 where r: "piperead_loop copyout n (i + 1) q = (j1, out1, p1)" by (metis prod_cases3)
      have "piperead_loop copyout n i p = (j1, (?c, True) # out1, p1)"
        using False True Suc(2) r by (subst piperead_loop.simps) (simp add: empty_iff Let_def q_def)
      then have eq: "j = j1" "p' = p1" "out = (?c, True) # out1" using Suc(3) by auto
      have len: "min (n - i) (length (contents p)) = Suc (min (n - (i + 1)) (length (contents q)))"
        using d(2) by (simp add: pop)
      have ih: "contents q = map fst out1 @ contents p1" "readopen p1 = readopen q" "writeopen p1 = writeopen q"
        "j1 = i + 1 + length (filter snd out1)" "\<forall>x \<in> set (butlast out1). snd x"
        "(\<forall>k. copyout k) \<Longrightarrow> (\<forall>x \<in> set out1. snd x) \<and> length out1 = min (n - (i + 1)) (length (contents q))"
        using Suc(1)[OF d(1) r] d(2) by blast+
      have "(\<forall>k. copyout k) \<Longrightarrow> (\<forall>x \<in> set out. snd x) \<and> length out = min (n - i) (length (contents p))"
        unfolding eq len using ih(6) by simp
      moreover have "\<forall>x \<in> set (butlast out). snd x" using ih(5) unfolding eq by simp
      ultimately show ?thesis using ih(1-4) q pop unfolding eq by simp
    next
      case no: False
      then have "piperead_loop copyout n i p = (i, [(?c, False)], q)"
        using False Suc(2) by (subst piperead_loop.simps) (simp add: empty_iff Let_def q_def)
      then show ?thesis using Suc(3) pop q no by auto
    qed
  qed
qed

section \<open>Readers and writers\<close>

text \<open>
  Every interleaving of passes of readers and writers, of closing and of other steps of the
  process table. The history has the bytes put into the pipe, the bytes taken out of it with
  whether each reached the reader's memory, and whether a writer killed in mid-pass has been the
  last to put bytes into the pipe, nobody having woken the readers since.
\<close>

inductive pipe_io :: "nat \<Rightarrow> 8 word list \<Rightarrow> (8 word \<times> bool) list \<Rightarrow> bool \<Rightarrow> pipe_sys \<Rightarrow> bool" for a where
  start: "pip s = new_pipe junk \<Longrightarrow> \<forall>p < NPROC. \<not> asleep (at_nread a) p (pip_tab s) \<and> \<not> asleep (at_nwrite a) p (pip_tab s) \<Longrightarrow>
    pipe_io a [] [] False s"
| writes: "pipe_io a w r cutoff s \<Longrightarrow> state (proc (pip_tab s) me) = RUNNING \<Longrightarrow>
    pipewrite_loop copyin kd me a n i s = (res, j, s') \<Longrightarrow>
    pipe_io a (w @ map (\<lambda>k. the (copyin k)) [i..<j]) r (res = PipeDone (-1) \<and> (cutoff \<or> i < j)) s'"
| reads: "pipe_io a w r cutoff s \<Longrightarrow> state (proc (pip_tab s) me) = RUNNING \<Longrightarrow>
    piperead copyout me a n s = (res, out, s') \<Longrightarrow> pipe_io a w (r @ out) cutoff s'"
| closes: "pipe_io a w r cutoff s \<Longrightarrow> state (proc (pip_tab s) me) = RUNNING \<Longrightarrow>
    pipe_io a w r (cutoff \<and> \<not> writable) (snd (pipeclose writable me a s))"
| others: "pipe_io a w r cutoff s \<Longrightarrow> \<forall>p < NPROC. asleep (at_nread a) p t \<longrightarrow> asleep (at_nread a) p (pip_tab s) \<Longrightarrow>
    \<forall>p < NPROC. asleep (at_nwrite a) p t \<longrightarrow> asleep (at_nwrite a) p (pip_tab s) \<Longrightarrow> pipe_io a w r cutoff (s\<lparr>pip_tab := t\<rparr>)"

text \<open>
  Readers sleep only on an empty pipe that can still be written, unless a writer was cut short;
  writers only on a full one that can still be read.
\<close>

definition sleepers_ok :: "nat \<Rightarrow> bool \<Rightarrow> pipe_sys \<Rightarrow> bool" where
  "sleepers_ok a cutoff s \<longleftrightarrow> (\<forall>p < NPROC.
     (asleep (at_nread a) p (pip_tab s) \<longrightarrow> (contents (pip s) = [] \<or> cutoff) \<and> writeopen (pip s)) \<and>
     (asleep (at_nwrite a) p (pip_tab s) \<longrightarrow> length (contents (pip s)) = PIPESIZE \<and> readopen (pip s)))"

lemma chans_differ [simp]: "at_nread a \<noteq> at_nwrite a" "at_nwrite a \<noteq> at_nread a"
  by (simp_all add: at_nread_def at_nwrite_def)

lemma asleep_wakeup:
  "state (proc t me) = RUNNING \<Longrightarrow> p < NPROC \<Longrightarrow> asleep c p (wakeup me d t) \<longleftrightarrow> asleep c p t \<and> c \<noteq> d"
  by (auto simp: asleep_def wakeup_def)

lemma asleep_sleep: "asleep c p (sleep me d t) \<longleftrightarrow> (if p = me then c = d else asleep c p t)"
  by (auto simp: asleep_def sleep_def set_proc_def)

lemma write_sleepers:
  assumes "write_pass copyin kd me a n i s res s' j" "state (proc (pip_tab s) me) = RUNNING" "sleepers_ok a cutoff s"
  shows "sleepers_ok a (res = PipeDone (-1) \<and> (cutoff \<or> i < j)) s'"
proof -
  have ok': "length (contents (pip s')) \<le> PIPESIZE" and ij: "i \<le> j"
    and c: "contents (pip s') = contents (pip s) @ map (\<lambda>k. the (copyin k)) [i..<j]"
    and f: "readopen (pip s') = readopen (pip s)" "writeopen (pip s') = writeopen (pip s)"
    using assms(1) by (auto simp: write_pass_def pipe_ok_def)
  have full: "length (contents (pip s)) = PIPESIZE \<Longrightarrow> length (contents (pip s')) = PIPESIZE" using ok' c by simp
  show ?thesis
  proof (cases res)
    case (PipeSleeps k)
    with assms full f show ?thesis
      by (auto simp: sleepers_ok_def write_pass_def asleep_sleep asleep_wakeup[OF assms(2)])
  next
    case (PipeDone v)
    with assms(1) consider "pip_tab s' = wakeup me (at_nread a) (pip_tab s)" | "res = PipeDone (-1)" "pip_tab s' = pip_tab s"
      by (auto simp: write_pass_def)
    then show ?thesis
    proof cases
      case 1
      then show ?thesis using assms(3) full f by (auto simp: sleepers_ok_def asleep_wakeup[OF assms(2)])
    next
      case 2
      have "contents (pip s') = contents (pip s) \<or> i < j" using c ij by (cases "i = j") auto
      then show ?thesis using assms(3) full f 2 by (auto simp: sleepers_ok_def)
    qed
  qed
qed

lemma pipe_io_inv:
  "pipe_io a w r cutoff s \<Longrightarrow> w = map fst r @ contents (pip s) \<and> pipe_ok (pip s) \<and> sleepers_ok a cutoff s"
proof (induction rule: pipe_io.induct)
  case (start s junk)
  then show ?case by (simp add: new_pipe_def contents_def slice_def pipe_ok_def sleepers_ok_def)
next
  case (writes w r cutoff s me copyin kd n i res j s')
  then have j: "write_pass copyin kd me a n i s res s' j" using pipewrite_loop_pass by blast
  from writes.IH write_sleepers[OF j writes(2)] j show ?case by (simp add: write_pass_def)
next
  case (reads w r cutoff s me copyout n res out s')
  show ?case
  proof (cases "nread (pip s) = nwrite (pip s) \<and> writeopen (pip s)")
    case True
    then show ?thesis using reads
      by (auto simp: piperead_def sleepers_ok_def asleep_sleep empty_iff split: if_splits)
  next
    case False
    then obtain i p where p: "piperead_loop copyout (nat n) 0 (pip s) = (i, out, p)"
      "s' = s\<lparr>pip := p, pip_tab := wakeup me (at_nwrite a) (pip_tab s)\<rparr>"
      using reads(3) by (auto simp: piperead_def split: prod.splits)
    have t: "contents (pip s) = map fst out @ contents p" "readopen p = readopen (pip s)" "writeopen p = writeopen (pip s)"
      using piperead_loop_takes[OF p(1)] by blast+
    have "contents (pip s) = [] \<Longrightarrow> contents p = []" using t(1) by simp
    then have "sleepers_ok a cutoff s'"
      using reads.IH t(2,3) unfolding p(2) sleepers_ok_def
      by (auto simp: asleep_wakeup[OF reads(2)])
    with reads.IH t p(2) show ?thesis by (simp add: pipe_ok_def)
  qed
next
  case (closes w r cutoff s me writable)
  then show ?case by (auto simp: pipeclose_def Let_def sleepers_ok_def asleep_wakeup contents_def pipe_ok_def)
next
  case (others w r cutoff s t)
  then show ?case by (simp add: sleepers_ok_def)
qed

text \<open>
  C22: A pipe is a first-in first-out queue of at most 512 bytes, whatever the interleaving of
  readers, writers, closing and killing, whatever copies fail, and also when the 32-bit counters
  wrap around: what has been put into it is what has been taken out of it, in that order, followed
  by what is in it. A read that returns a count takes a prefix of the pipe, of which all but perhaps
  the last byte reach the reader, as many as the count says (a byte whose copy fails is lost). A
  writer sleeps only while the pipe is full and can be read; a reader only while the pipe can be
  written and is empty, or the last bytes came from a writer that was killed in mid-pass, which
  wakes nobody.
\<close>

theorem pipe_fifo:
  assumes "pipe_io a w r cutoff s"
  shows "w = map fst r @ contents (pip s) \<and> length (contents (pip s)) \<le> 512 \<and>
    (\<forall>p < NPROC. asleep (at_nread a) p (pip_tab s) \<longrightarrow> (contents (pip s) = [] \<or> cutoff) \<and> writeopen (pip s)) \<and>
    (\<forall>p < NPROC. asleep (at_nwrite a) p (pip_tab s) \<longrightarrow> length (contents (pip s)) = 512 \<and> readopen (pip s)) \<and>
    (\<forall>copyout me n v out s'. piperead copyout me a n s = (PipeDone v, out, s') \<longrightarrow>
       contents (pip s) = map fst out @ contents (pip s') \<and> (\<forall>x \<in> set (butlast out). snd x) \<and>
       (if contents (pip s) = [] \<and> writeopen (pip s) then v = -1 else v = int (length (filter snd out))))"
proof -
  have "contents (pip s) = map fst out @ contents (pip s') \<and> (\<forall>x \<in> set (butlast out). snd x) \<and>
      (if contents (pip s) = [] \<and> writeopen (pip s) then v = -1 else v = int (length (filter snd out)))"
    if "piperead copyout me a n s = (PipeDone v, out, s')" for copyout me n v out s'
  proof (cases "contents (pip s) = [] \<and> writeopen (pip s)")
    case True
    then show ?thesis using that by (simp add: piperead_def empty_iff split: if_splits)
  next
    case False
    obtain i bs p where p: "piperead_loop copyout (nat n) 0 (pip s) = (i, bs, p)" by (metis prod_cases3)
    with that False have "v = int i" "out = bs" "pip s' = p" by (auto simp: piperead_def empty_iff)
    with False piperead_loop_takes[OF p] show ?thesis by simp
  qed
  with pipe_io_inv[OF assms] show ?thesis by (auto simp: pipe_ok_def sleepers_ok_def PIPESIZE_def)
qed

section \<open>A run\<close>

definition first_proc :: proc where
  "first_proc = \<lparr>state = RUNNING, chan = None, killed_flag = 0, xstate = 0, pid = 1, parent = None, sz = 0, trapframe = True,
    pagetable = True, ofile = [], cwd = None, p_name = [], trace_mask = 0\<rparr>"

definition fresh_pipe :: pipe_sys where
  "fresh_pipe = \<lparr>pip = new_pipe (\<lambda>_. 0), pip_tab = \<lparr>proc = (\<lambda>_. first_proc), nextpid = 2, initproc = 0\<rparr>\<rparr>"

lemma fresh_pipe_io: "pipe_io 0 [] [] False fresh_pipe"
  by (rule start) (simp_all add: asleep_def fresh_pipe_def first_proc_def)

text \<open>
  A reader sleeps on the empty pipe; a writer puts one byte of two into it, is killed before the
  second and leaves with \<open>-1\<close>: the reader sleeps on with a byte in the pipe, and nobody is running
  that would wake it.
\<close>

lemma killed_writer_strands_reader:
  "\<exists>s. pipe_io 0 [7] [] True s \<and> contents (pip s) = [7] \<and> asleep (at_nread 0) 1 (pip_tab s)"
proof -
  let ?s = "fresh_pipe\<lparr>pip_tab := sleep 1 (at_nread 0) (pip_tab fresh_pipe)\<rparr>"
  have "piperead (\<lambda>_. True) 1 0 1 fresh_pipe = (PipeSleeps 0, [], ?s)"
    by (simp add: piperead_def fresh_pipe_def first_proc_def new_pipe_def killed_def)
  from reads[OF fresh_pipe_io _ this] have io: "pipe_io 0 [] [] False ?s"
    by (simp add: fresh_pipe_def first_proc_def)
  let ?in = "\<lambda>k :: nat. Some (7 :: 8 word)"
  let ?t = "?s\<lparr>pip := store 7 (pip ?s)\<rparr>"
  have w: "pipewrite_loop ?in (\<lambda>i. i = 1) 0 0 2 0 ?s = (PipeDone (-1), 1, ?t)"
    by (simp add: pipewrite_loop.simps fresh_pipe_def new_pipe_def PIPESIZE_def)
  have run: "state (proc (pip_tab ?s) 0) = RUNNING"
    by (simp add: fresh_pipe_def first_proc_def sleep_def set_proc_def)
  from writes[OF io run w] have "pipe_io 0 [7] [] True ?t" by simp
  moreover from pipe_io_inv[OF this] have "contents (pip ?t) = [7]" by simp
  moreover have "asleep (at_nread 0) 1 (pip_tab ?t)" by (simp add: asleep_sleep)
  ultimately show ?thesis by blast
qed

theorem pipe_fifo_witness:
  "\<exists>s. pipe_io 0 [7, 8] [(7, False)] False s \<and> contents (pip s) = [8]"
proof -
  let ?in = "\<lambda>k :: nat. Some (if k = 0 then 7 else 8 :: 8 word)"
  let ?s = "fresh_pipe\<lparr>pip := store 8 (store 7 (pip fresh_pipe)), pip_tab := wakeup 0 (at_nread 0) (pip_tab fresh_pipe)\<rparr>"
  have w: "pipewrite_loop ?in (\<lambda>_. False) 0 0 2 0 fresh_pipe = (PipeDone 2, 2, ?s)"
    by (simp add: pipewrite_loop.simps pipewrite_end_def fresh_pipe_def new_pipe_def PIPESIZE_def store_def)
  have run: "state (proc (pip_tab fresh_pipe) 0) = RUNNING" "state (proc (pip_tab ?s) 0) = RUNNING"
    by (simp_all add: fresh_pipe_def first_proc_def wakeup_def)
  from writes[OF fresh_pipe_io run(1) w] have io: "pipe_io 0 [7, 8] [] False ?s" by (simp add: numeral_2_eq_2)
  have c: "contents (pip ?s) = [7, 8]" using pipe_fifo[OF io] by simp
  obtain i out p where rd: "piperead_loop (\<lambda>_. False) 1 0 (pip ?s) = (i, out, p)" by (metis prod_cases3)
  have ne: "nread (pip ?s) \<noteq> nwrite (pip ?s)" unfolding empty_iff using c by simp
  have "out = [(7, False)]"
    using rd by (simp add: piperead_loop.simps Let_def fresh_pipe_def new_pipe_def store_def slot_def PIPESIZE_def)
  moreover have "[7, 8] = map fst out @ contents p"
    using piperead_loop_takes[OF rd] c by metis
  ultimately have t: "out = [(7, False)]" "contents p = [8]" by simp_all
  have "piperead (\<lambda>_. False) 0 0 1 ?s = (PipeDone (int i), out, ?s\<lparr>pip := p, pip_tab := wakeup 0 (at_nwrite 0) (pip_tab ?s)\<rparr>)"
    using rd ne by (simp add: piperead_def)
  from reads[OF io run(2) this] t show ?thesis by (intro exI) auto
qed

end
