(* ===== verification/Console.thy ===== *)
theory Console
  imports Ring Proc Printf
begin

text \<open>
  The console's line input of \<^verbatim>\<open>kernel/console.c\<close>: the interrupt handler edits the current line in
  a circular buffer with three counters, and \<^verbatim>\<open>consoleread\<close> takes whole lines from it. The bytes
  echoed to the serial line are part of the state. A reader runs under the console's lock until
  it returns or sleeps.
\<close>

section \<open>Operations\<close>

definition INPUT_BUF_SIZE :: nat where "INPUT_BUF_SIZE = 128"

record cons =
  c_buf :: "nat \<Rightarrow> byte"
  c_r :: counter
  c_w :: counter
  c_e :: counter
  c_tab :: ptable
  c_echo :: "byte list"

definition at_cons_r :: chan where
  "at_cons_r = At_obj 152"

definition echo :: "int \<Rightarrow> cons \<Rightarrow> cons" where
  "echo c s = s\<lparr>c_echo := c_echo s @ consputc c\<rparr>"

definition erase_one :: "cons \<Rightarrow> cons" where
  "erase_one s = echo BACKSPACE (s\<lparr>c_e := c_e s - 1\<rparr>)"

function kill_line :: "cons \<Rightarrow> cons" where
  "kill_line s =
    (if c_e s \<noteq> c_w s \<and> c_buf s (slot INPUT_BUF_SIZE (c_e s - 1)) \<noteq> 10 then kill_line (erase_one s) else s)"
  by auto
termination
proof (relation "measure (\<lambda>s. unat (c_e s - c_w s))")
  fix s :: cons
  assume "c_e s \<noteq> c_w s \<and> c_buf s (slot INPUT_BUF_SIZE (c_e s - 1)) \<noteq> 10"
  then have "c_e s - c_w s \<noteq> 0" by simp
  then show "(erase_one s, s) \<in> measure (\<lambda>s. unat (c_e s - c_w s))"
    using unat_minus_one[of "c_e s - c_w s"] unat_gt_0[of "c_e s - c_w s"]
    by (simp add: erase_one_def echo_def algebra_simps)
qed simp

declare kill_line.simps [simp del]

text \<open>The process listing of control-P goes to the screen only and is left out.\<close>

definition consoleintr :: "byte \<Rightarrow> nat \<Rightarrow> cons \<Rightarrow> cons" where
  "consoleintr c me s =
    (if c = 16 then s
     else if c = 21 then kill_line s
     else if c = 8 \<or> c = 127 then if c_e s \<noteq> c_w s then erase_one s else s
     else if c \<noteq> 0 \<and> unat (c_e s - c_r s) < INPUT_BUF_SIZE then
       let c = (if c = 13 then 10 else c); s = echo (uint c) s;
           s = s\<lparr>c_buf := (c_buf s)(slot INPUT_BUF_SIZE (c_e s) := c), c_e := c_e s + 1\<rparr> in
       if c = 10 \<or> c = 4 \<or> unat (c_e s - c_r s) = INPUT_BUF_SIZE
       then s\<lparr>c_w := c_e s, c_tab := wakeup me at_cons_r (c_tab s)\<rparr> else s
     else s)"

datatype cons_result = ConsDone int | ConsSleeps nat

text \<open>
  A pass of \<^verbatim>\<open>consoleread\<close> with \<open>n\<close> of \<open>target\<close> bytes still wanted; the middle component are the bytes
  that have reached the reader, and \<open>copyout n\<close> says whether the byte can be stored.
\<close>

function consoleread :: "(nat \<Rightarrow> bool) \<Rightarrow> nat \<Rightarrow> nat \<Rightarrow> nat \<Rightarrow> cons \<Rightarrow> cons_result \<times> byte list \<times> cons" where
  "consoleread copyout me target n s =
    (if n > 0 then
       if c_r s = c_w s then
         if killed me (c_tab s) then (ConsDone (-1), [], s)
         else (ConsSleeps n, [], s\<lparr>c_tab := sleep me at_cons_r (c_tab s)\<rparr>)
       else let c = c_buf s (slot INPUT_BUF_SIZE (c_r s)); s = s\<lparr>c_r := c_r s + 1\<rparr> in
         if c = 4 then
           (ConsDone (int target - int n), [], if n < target then s\<lparr>c_r := c_r s - 1\<rparr> else s)
         else if \<not> copyout n then (ConsDone (int target - int n), [], s)
         else if c = 10 then (ConsDone (int target - int (n - 1)), [c], s)
         else let (res, out, s) = consoleread copyout me target (n - 1) s in (res, c # out, s)
     else (ConsDone (int target - int n), [], s))"
  by auto
termination by (relation "measure (\<lambda>(copyout, me, target, n, s). n)") auto

declare consoleread.simps [simp del]

section \<open>The line editor it implements\<close>

text \<open>
  The abstract state: the bytes of the finished lines that have not been read, and the line being
  typed.
\<close>

type_synonym line_ed = "byte list \<times> byte list"

definition key :: "byte \<Rightarrow> line_ed \<Rightarrow> line_ed" where
  "key c l = (case l of (lines, typed) \<Rightarrow>
    if c = 16 then l
    else if c = 21 then (lines, [])
    else if c = 8 \<or> c = 127 then (lines, butlast typed)
    else if c = 0 \<or> length lines + length typed \<ge> INPUT_BUF_SIZE then l
    else let c = (if c = 13 then 10 else c); typed = typed @ [c] in
      if c = 10 \<or> c = 4 \<or> length lines + length typed = INPUT_BUF_SIZE then (lines @ typed, []) else (lines, typed))"

interpretation cring: ring INPUT_BUF_SIZE
  by unfold_locales (simp_all add: INPUT_BUF_SIZE_def)

definition line_abs :: "cons \<Rightarrow> line_ed" where
  "line_abs s = (slice INPUT_BUF_SIZE (c_buf s) (c_r s) (c_w s), slice INPUT_BUF_SIZE (c_buf s) (c_w s) (c_e s))"

definition cons_ok :: "cons \<Rightarrow> bool" where
  "cons_ok s \<longleftrightarrow> unat (c_w s - c_r s) + unat (c_e s - c_w s) \<le> INPUT_BUF_SIZE \<and> 10 \<notin> set (snd (line_abs s))"

section \<open>Refinement of the interrupt handler\<close>

lemma slice_upd_other:
  assumes "unat (w - r) + k < INPUT_BUF_SIZE"
  shows "slice INPUT_BUF_SIZE (b(slot INPUT_BUF_SIZE (w + of_nat k) := x)) r w = slice INPUT_BUF_SIZE b r w"
proof -
  have "slot INPUT_BUF_SIZE (r + of_nat i) \<noteq> slot INPUT_BUF_SIZE (w + of_nat k)" if "i < unat (w - r)" for i
  proof -
    have eq: "r + of_nat (unat (w - r) + k) = w + of_nat k" by simp
    show ?thesis
      using cring.slots_differ[of i "unat (w - r) + k" r, unfolded eq] that assms by linarith
  qed
  then show ?thesis by (simp add: slice_def)
qed

lemma slice_butlast:
  assumes "w \<noteq> e"
  shows "slice INPUT_BUF_SIZE b w e = slice INPUT_BUF_SIZE b w (e - 1) @ [b (slot INPUT_BUF_SIZE (e - 1))]"
proof -
  have "e - w \<noteq> 0" using assms by simp
  then have u: "unat (e - w) = Suc (unat (e - 1 - w))"
    using counter_pred[of "e - w"] by (simp add: diff_right_commute)
  show ?thesis unfolding slice_def u upt_Suc_append[OF le0] map_append by simp
qed

lemma erase_one_fields [simp]:
  "c_e (erase_one s) = c_e s - 1" "c_w (erase_one s) = c_w s" "c_r (erase_one s) = c_r s" "c_buf (erase_one s) = c_buf s"
  "c_tab (erase_one s) = c_tab s"
  by (simp_all add: erase_one_def echo_def)

lemma abs_erase_one: "c_e s \<noteq> c_w s \<Longrightarrow> line_abs (erase_one s) = (fst (line_abs s), butlast (snd (line_abs s)))"
  using slice_butlast[of "c_w s" "c_e s" "c_buf s"] by (simp add: line_abs_def)

lemma typed_empty_iff: "snd (line_abs s) = [] \<longleftrightarrow> c_e s = c_w s"
  using cring.slice_empty_iff[of "c_buf s" "c_w s" "c_e s"] by (auto simp: line_abs_def)

lemma abs_lengths: "length (fst (line_abs s)) = unat (c_w s - c_r s)" "length (snd (line_abs s)) = unat (c_e s - c_w s)"
  by (simp_all add: line_abs_def)

lemma cons_ok_iff:
  "cons_ok s \<longleftrightarrow> length (fst (line_abs s)) + length (snd (line_abs s)) \<le> INPUT_BUF_SIZE \<and> 10 \<notin> set (snd (line_abs s))"
  by (simp add: cons_ok_def abs_lengths)

lemma used_sum: "cons_ok s \<Longrightarrow> unat (c_e s - c_r s) = length (fst (line_abs s)) + length (snd (line_abs s))"
proof -
  assume "cons_ok s"
  then have "unat (c_w s - c_r s) + unat (c_e s - c_w s) \<le> 128" by (simp add: cons_ok_def INPUT_BUF_SIZE_def)
  then have "unat ((c_w s - c_r s) + (c_e s - c_w s)) = unat (c_w s - c_r s) + unat (c_e s - c_w s)"
    by (intro counter_add) simp
  then show ?thesis by (simp add: abs_lengths)
qed

lemma kill_line_abs: "cons_ok s \<Longrightarrow> line_abs (kill_line s) = (fst (line_abs s), [])"
proof (induction s rule: kill_line.induct)
  case (1 s)
  show ?case
  proof (cases "c_e s = c_w s")
    case True
    then show ?thesis using typed_empty_iff[of s] by (subst kill_line.simps) (simp add: prod_eq_iff)
  next
    case False
    have "c_buf s (slot INPUT_BUF_SIZE (c_e s - 1)) \<in> set (snd (line_abs s))"
      using slice_butlast[of "c_w s" "c_e s" "c_buf s"] False by (simp add: line_abs_def)
    then have c: "c_buf s (slot INPUT_BUF_SIZE (c_e s - 1)) \<noteq> 10" using 1(2) by (auto simp: cons_ok_iff)
    have "cons_ok (erase_one s)" using 1(2) False by (auto simp: cons_ok_iff abs_erase_one dest: in_set_butlastD)
    with 1(1) False c show ?thesis by (subst kill_line.simps) (simp add: abs_erase_one)
  qed
qed

lemma abs_type:
  assumes "cons_ok s" "length (fst (line_abs s)) + length (snd (line_abs s)) < INPUT_BUF_SIZE"
  shows "line_abs (s\<lparr>c_echo := ec, c_buf := (c_buf s)(slot INPUT_BUF_SIZE (c_e s) := c), c_e := c_e s + 1\<rparr>) =
    (fst (line_abs s), snd (line_abs s) @ [c])"
proof -
  have e: "c_w s + of_nat (unat (c_e s - c_w s)) = c_e s" by simp
  show ?thesis
    using slice_upd_other[of "c_w s" "c_r s" "unat (c_e s - c_w s)" "c_buf s" c, unfolded e]
      cring.slice_push[of "c_e s" "c_w s" "c_buf s" c] assms(2)
    by (simp add: line_abs_def)
qed

lemma abs_commit:
  assumes "unat (c_w s - c_r s) + unat (c_e s - c_w s) \<le> INPUT_BUF_SIZE"
  shows "line_abs (s\<lparr>c_w := c_e s, c_tab := t\<rparr>) = (fst (line_abs s) @ snd (line_abs s), [])"
proof -
  have w: "c_w s = c_r s + of_nat (unat (c_w s - c_r s))" by simp
  have "unat (c_e s - c_r s) = unat ((c_w s - c_r s) + (c_e s - c_w s))" by simp
  also have "\<dots> = unat (c_w s - c_r s) + unat (c_e s - c_w s)"
    using assms by (intro counter_add) (simp add: INPUT_BUF_SIZE_def)
  finally have u: "unat (c_e s - c_r s) = unat (c_w s - c_r s) + unat (c_e s - c_w s)" .
  have "slice INPUT_BUF_SIZE (c_buf s) (c_r s) (c_e s) =
    slice INPUT_BUF_SIZE (c_buf s) (c_r s) (c_w s) @ slice INPUT_BUF_SIZE (c_buf s) (c_w s) (c_e s)"
    unfolding slice_def u upt_add_eq_append[OF le0] map_append
    by (subst (4) w) (simp add: map_add_upt[symmetric] algebra_simps comp_def)
  then show ?thesis by (simp add: line_abs_def slice_def)
qed

lemma consoleintr_abs:
  assumes "cons_ok s"
  shows "line_abs (consoleintr c me s) = key c (line_abs s)"
proof -
  obtain lines typed where l: "line_abs s = (lines, typed)" by (cases "line_abs s")
  have used: "unat (c_e s - c_r s) = length lines + length typed" using used_sum[OF assms] l by simp
  consider (dump) "c = 16" | (kill) "c = 21" | (erase) "c = 8 \<or> c = 127"
    | (full) "c \<notin> {16, 21, 8, 127}" "c = 0 \<or> INPUT_BUF_SIZE \<le> length lines + length typed"
    | (store) "c \<notin> {16, 21, 8, 127}" "c \<noteq> 0" "length lines + length typed < INPUT_BUF_SIZE"
    by fastforce
  then show ?thesis
  proof cases
    case dump
    then show ?thesis by (simp add: consoleintr_def key_def l)
  next
    case kill
    then show ?thesis using kill_line_abs[OF assms] by (simp add: consoleintr_def key_def l)
  next
    case erase
    have "c \<noteq> 16" "c \<noteq> 21" using erase by auto
    moreover have "butlast typed = typed" if "c_e s = c_w s" using typed_empty_iff[of s] l that by simp
    ultimately show ?thesis using erase abs_erase_one[of s] l
      by (cases "c_e s = c_w s") (simp_all add: consoleintr_def key_def)
  next
    case full
    then show ?thesis using used by (auto simp: consoleintr_def key_def l)
  next
    case store
    define d where "d = (if c = 13 then 10 else c)"
    define s1 where "s1 = s\<lparr>c_echo := c_echo s @ consputc (uint d),
      c_buf := (c_buf s)(slot INPUT_BUF_SIZE (c_e s) := d), c_e := c_e s + 1\<rparr>"
    have a1: "line_abs s1 = (lines, typed @ [d])"
      unfolding s1_def by (subst abs_type[OF assms]) (use store(3) l in simp_all)
    have "unat (c_w s1 - c_r s1) + unat (c_e s1 - c_w s1) \<le> INPUT_BUF_SIZE" "length lines = unat (c_w s1 - c_r s1)"
      "Suc (length typed) = unat (c_e s1 - c_w s1)"
      using a1 store(3) abs_lengths[of s1] by simp_all
    moreover have "unat (c_e s1 - c_r s1) = Suc (length lines + length typed)"
    proof -
      have "unat (c_e s - c_r s + 1) = Suc (unat (c_e s - c_r s))" using cring.unat_succ used store(3) by simp
      then show ?thesis using used by (simp add: s1_def algebra_simps)
    qed
    moreover have "consoleintr c me s = (if d = 10 \<or> d = 4 \<or> unat (c_e s1 - c_r s1) = INPUT_BUF_SIZE
        then s1\<lparr>c_w := c_e s1, c_tab := wakeup me at_cons_r (c_tab s1)\<rparr> else s1)"
      using store used by (simp add: consoleintr_def d_def s1_def echo_def Let_def)
    ultimately show ?thesis
      using store a1 abs_commit[of s1] by (simp add: key_def l d_def[symmetric] Let_def)
  qed
qed

lemma key_ok:
  assumes "length (fst l) + length (snd l) \<le> INPUT_BUF_SIZE" "10 \<notin> set (snd l)"
  shows "length (fst (key c l)) + length (snd (key c l)) \<le> INPUT_BUF_SIZE \<and> 10 \<notin> set (snd (key c l))"
  using assms by (cases l) (auto simp: key_def Let_def dest: in_set_butlastD)

lemma consoleintr_ok: "cons_ok s \<Longrightarrow> cons_ok (consoleintr c me s)"
  using key_ok[of "line_abs s" c] by (simp add: cons_ok_iff consoleintr_abs)

section \<open>Reading lines\<close>

text \<open>
  What a reader gets: it takes bytes up to its limit or the end of the line; an end-of-file mark
  ends the call, and is kept for the next call when something has been read.
\<close>

fun take_line :: "bool \<Rightarrow> nat \<Rightarrow> byte list \<Rightarrow> byte list \<times> byte list \<times> bool" where
  "take_line started 0 ls = ([], ls, False)"
| "take_line started (Suc n) [] = ([], [], True)"
| "take_line started (Suc n) (c # ls) =
    (if c = 4 then ([], if started then c # ls else ls, False)
     else if c = 10 then ([c], ls, False)
     else let (out, rest, blocked) = take_line True n ls in (c # out, rest, blocked))"

lemma abs_pop:
  "c_r s \<noteq> c_w s \<Longrightarrow> line_abs s = (c_buf s (slot INPUT_BUF_SIZE (c_r s)) # fst (line_abs (s\<lparr>c_r := c_r s + 1\<rparr>)), snd (line_abs s))"
  using cring.slice_pop[of "c_r s" "c_w s" "c_buf s"] by (simp add: line_abs_def)

lemma abs_c_r: "snd (line_abs (s\<lparr>c_r := x\<rparr>)) = snd (line_abs s)"
  by (simp add: line_abs_def)

lemma consoleread_takes:
  "consoleread (\<lambda>_. True) me target n s = (res, out, s') \<Longrightarrow> n \<le> target \<Longrightarrow> \<not> killed me (c_tab s) \<Longrightarrow>
    (case take_line (n < target) n (fst (line_abs s)) of (got, rest, blocked) \<Rightarrow>
      out = got \<and> line_abs s' = (rest, snd (line_abs s)) \<and>
      res = (if blocked then ConsSleeps (n - length got) else ConsDone (int (target - n) + int (length got))))"
proof (induction n arbitrary: s res out s')
  case 0
  then show ?case by (subst (asm) consoleread.simps) auto
next
  case (Suc n)
  show ?case
  proof (cases "c_r s = c_w s")
    case True
    then have "fst (line_abs s) = []" by (simp add: line_abs_def slice_def)
    moreover have "consoleread (\<lambda>_. True) me target (Suc n) s =
      (ConsSleeps (Suc n), [], s\<lparr>c_tab := sleep me at_cons_r (c_tab s)\<rparr>)"
      using True Suc.prems(3) by (subst consoleread.simps) simp
    ultimately show ?thesis using Suc.prems(1) by (auto simp: line_abs_def)
  next
    case False
    define c where "c = c_buf s (slot INPUT_BUF_SIZE (c_r s))"
    define s1 where "s1 = s\<lparr>c_r := c_r s + 1\<rparr>"
    have pop: "line_abs s = (c # fst (line_abs s1), snd (line_abs s))" unfolding c_def s1_def by (rule abs_pop[OF False])
    have undo: "s1\<lparr>c_r := c_r s1 - 1\<rparr> = s" by (simp add: s1_def)
    have sn: "snd (line_abs s1) = snd (line_abs s)" by (simp add: s1_def abs_c_r)
    have unf: "consoleread (\<lambda>_. True) me target (Suc n) s =
      (if c = 4 then (ConsDone (int target - int (Suc n)), [], if Suc n < target then s1\<lparr>c_r := c_r s1 - 1\<rparr> else s1)
       else if c = 10 then (ConsDone (int target - int n), [c], s1)
       else let (res, out, s) = consoleread (\<lambda>_. True) me target n s1 in (res, c # out, s))"
      using False by (subst consoleread.simps) (simp add: Let_def c_def s1_def)
    consider "c = 4" | "c = 10" | "c \<noteq> 4" "c \<noteq> 10" by blast
    then show ?thesis
    proof cases
      case 1
      then show ?thesis using Suc.prems(1,2) pop sn unfolding unf undo by (auto simp: prod_eq_iff)
    next
      case 2
      then show ?thesis using Suc.prems(1,2) pop sn unfolding unf by (subst pop) (auto simp: prod_eq_iff)
    next
      case 3
      obtain res1 out1 s2 where r: "consoleread (\<lambda>_. True) me target n s1 = (res1, out1, s2)" by (metis prod_cases3)
      with Suc.prems(1) 3 have eq: "res = res1" "out = c # out1" "s' = s2" unfolding unf by auto
      obtain got rest blocked where t: "take_line True n (fst (line_abs s1)) = (got, rest, blocked)" by (metis prod_cases3)
      have "\<not> killed me (c_tab s1)" using Suc.prems(3) by (simp add: s1_def)
      from Suc.IH[OF r _ this] Suc.prems(2) t have
        "out1 = got" "line_abs s2 = (rest, snd (line_abs s))" "res1 = (if blocked then ConsSleeps (n - length got)
          else ConsDone (int (target - n) + int (length got)))" by (simp_all add: sn)
      with 3 t eq Suc.prems(2) show ?thesis by (subst pop) (auto simp: Let_def of_nat_diff)
    qed
  qed
qed

text \<open>
  C23: The console implements a line editor: an input byte changes the finished lines and the line
  being typed as the editor does it (erase, kill, end of line, end of file, full buffer), whatever
  the values of the wrapping counters, and a reader that is not killed gets the bytes of the
  finished lines in order, at most up to the end of a line, or sleeps when there are none.
\<close>

theorem console_refines:
  assumes "cons_ok s" "n \<le> target" "\<not> killed me (c_tab s)"
  shows "line_abs (consoleintr c me s) = key c (line_abs s) \<and> cons_ok (consoleintr c me s) \<and>
    (case (consoleread (\<lambda>_. True) me target n s, take_line (n < target) n (fst (line_abs s))) of
       ((res, out, s'), (got, rest, blocked)) \<Rightarrow> out = got \<and> line_abs s' = (rest, snd (line_abs s)) \<and>
         res = (if blocked then ConsSleeps (n - length got) else ConsDone (int (target - n) + int (length got))))"
proof -
  obtain res out s' where r: "consoleread (\<lambda>_. True) me target n s = (res, out, s')" by (metis prod_cases3)
  from consoleread_takes[OF this assms(2,3)] r show ?thesis
    using consoleintr_abs[OF assms(1)] consoleintr_ok[OF assms(1)] by (simp split: prod.splits)
qed

theorem console_refines_witness:
  "\<exists>s. c_e s = 0 \<and> c_w s = - 1 \<and> line_abs s = ([], [97]) \<and> line_abs (consoleintr 13 0 s) = ([97, 10], [])"
proof -
  let ?x = "\<lparr>state = RUNNING, chan = None, killed_flag = 0, xstate = 0, pid = 1, parent = None, sz = 0, trapframe = True,
    pagetable = True, ofile = [], cwd = None, p_name = [], trace_mask = 0\<rparr>"
  let ?s = "\<lparr>c_buf = (\<lambda>_. 97), c_r = - 1, c_w = - 1, c_e = 0, c_tab = \<lparr>proc = (\<lambda>_. ?x), nextpid = 2, initproc = 0\<rparr>, c_echo = []\<rparr>"
  have a: "line_abs ?s = ([], [97])" by (simp add: line_abs_def slice_def)
  have "cons_ok ?s" by (simp add: cons_ok_iff a INPUT_BUF_SIZE_def)
  from console_refines[OF this, of 0 0 0 13] a show ?thesis
    by (intro exI[of _ ?s]) (simp add: killed_def key_def INPUT_BUF_SIZE_def)
qed

end
