(* ===== verification/Log.thy ===== *)
theory Log
  imports Proc
begin

text \<open>
  The write-ahead log of \<^verbatim>\<open>kernel/log.c\<close>. A disk block is an array of 32-bit words, so that the
  header block is read and written through \<^verbatim>\<open>struct logheader\<close> word by word: word 0 is \<^verbatim>\<open>n\<close> and
  word \<open>1 + i\<close> is \<^verbatim>\<open>block[i]\<close>. \<open>view\<close> is what \<^verbatim>\<open>bread\<close> returns for a block: the contents of its
  buffer, which the log keeps pinned while they differ from the disk. \<open>io\<close> records the disk writes
  in order; each writes one whole block.
\<close>

section \<open>State\<close>

type_synonym block = "nat \<Rightarrow> 32 word"

definition MAXOPBLOCKS :: nat where "MAXOPBLOCKS = 10"

definition LOGBLOCKS :: nat where "LOGBLOCKS = MAXOPBLOCKS * 3"

record log =
  log_start :: nat
  outstanding :: int
  committing :: bool
  lh_n :: nat
  lh_block :: "nat \<Rightarrow> nat"
  view :: "nat \<Rightarrow> block"
  disk :: "nat \<Rightarrow> block"
  io :: "(nat \<times> block) list"
  log_tab :: ptable

definition at_log :: chan where
  "at_log = At_obj 1"

definition bwrite :: "nat \<Rightarrow> log \<Rightarrow> log" where
  "bwrite b s = s\<lparr>disk := (disk s)(b := view s b), io := io s @ [(b, view s b)]\<rparr>"

definition set_view :: "nat \<Rightarrow> block \<Rightarrow> log \<Rightarrow> log" where
  "set_view b v s = s\<lparr>view := (view s)(b := v)\<rparr>"

section \<open>Commit and recovery\<close>

definition install_trans :: "log \<Rightarrow> log" where
  "install_trans s = fold (\<lambda>tail s.
     bwrite (lh_block s tail) (set_view (lh_block s tail) (view s (log_start s + tail + 1)) s)) [0..<lh_n s] s"

definition read_head :: "log \<Rightarrow> log" where
  "read_head s = (let h = view s (log_start s); n = unat (h 0) in
     s\<lparr>lh_n := n, lh_block := (\<lambda>i. if i < n then unat (h (1 + i)) else lh_block s i)\<rparr>)"

definition head_of :: "log \<Rightarrow> block" where
  "head_of s = (\<lambda>j. if j = 0 then of_nat (lh_n s)
     else if j \<le> lh_n s then of_nat (lh_block s (j - 1)) else view s (log_start s) j)"

definition write_head :: "log \<Rightarrow> log" where
  "write_head s = bwrite (log_start s) (set_view (log_start s) (head_of s) s)"

definition recover_from_log :: "log \<Rightarrow> log" where
  "recover_from_log s = write_head ((install_trans (read_head s))\<lparr>lh_n := 0\<rparr>)"

definition initlog :: "nat \<Rightarrow> log \<Rightarrow> log" where
  "initlog logstart s = recover_from_log (s\<lparr>log_start := logstart\<rparr>)"

definition write_log :: "log \<Rightarrow> log" where
  "write_log s = fold (\<lambda>tail s.
     bwrite (log_start s + tail + 1) (set_view (log_start s + tail + 1) (view s (lh_block s tail)) s)) [0..<lh_n s] s"

definition commit :: "log \<Rightarrow> log" where
  "commit s = (if lh_n s > 0 then write_head ((install_trans (write_head (write_log s)))\<lparr>lh_n := 0\<rparr>) else s)"

section \<open>Transactions\<close>

datatype begin_result = Begun | BeginSleeps

definition begin_op :: "nat \<Rightarrow> log \<Rightarrow> begin_result \<times> log" where
  "begin_op me s =
    (if committing s \<or> int (lh_n s) + (outstanding s + 1) * int MAXOPBLOCKS > int LOGBLOCKS
     then (BeginSleeps, s\<lparr>log_tab := sleep me at_log (log_tab s)\<rparr>)
     else (Begun, s\<lparr>outstanding := outstanding s + 1\<rparr>))"

text \<open>\<^verbatim>\<open>end_op\<close> up to its commit, and what it does behind the commit.\<close>

definition end_op_begin :: "nat \<Rightarrow> log \<Rightarrow> fault + (bool \<times> log)" where
  "end_op_begin me s =
    (let s = s\<lparr>outstanding := outstanding s - 1\<rparr> in
     if committing s then Inl (Panic ''log.committing'')
     else if outstanding s = 0 then Inr (True, s\<lparr>committing := True\<rparr>)
     else Inr (False, s\<lparr>log_tab := wakeup me at_log (log_tab s)\<rparr>))"

definition end_op_end :: "nat \<Rightarrow> log \<Rightarrow> log" where
  "end_op_end me s = s\<lparr>committing := False, log_tab := wakeup me at_log (log_tab s)\<rparr>"

definition end_op :: "nat \<Rightarrow> log \<Rightarrow> fault + log" where
  "end_op me s = rbind (end_op_begin me s) (\<lambda>(do_commit, s). Inr (if do_commit then end_op_end me (commit s) else s))"

text \<open>\<open>v\<close> is the modified contents of the buffer.\<close>

definition log_write :: "nat \<Rightarrow> block \<Rightarrow> log \<Rightarrow> fault + log" where
  "log_write b v s =
    (if lh_n s \<ge> LOGBLOCKS then Inl (Panic ''too big a transaction'')
     else if outstanding s < 1 then Inl (Panic ''log_write outside of trans'')
     else let s = set_view b v s;
              i = (case find (\<lambda>i. lh_block s i = b) [0..<lh_n s] of Some i \<Rightarrow> i | None \<Rightarrow> lh_n s);
              s = s\<lparr>lh_block := (lh_block s)(i := b)\<rparr> in
       Inr (if i = lh_n s then s\<lparr>lh_n := lh_n s + 1\<rparr> else s))"

section \<open>Crashes\<close>

text \<open>The disk after a list of block writes, and the machine that starts from a disk with an empty cache.\<close>

definition apply_writes :: "(nat \<times> block) list \<Rightarrow> (nat \<Rightarrow> block) \<Rightarrow> nat \<Rightarrow> block" where
  "apply_writes ws d = fold (\<lambda>(b, v) d. d(b := v)) ws d"

definition reboot :: "nat \<Rightarrow> (nat \<Rightarrow> block) \<Rightarrow> log \<Rightarrow> log" where
  "reboot start d s = \<lparr>log_start = start, outstanding = 0, committing = False, lh_n = 0, lh_block = (\<lambda>_. 0),
     view = d, disk = d, io = [], log_tab = log_tab s\<rparr>"

definition log_area :: "nat \<Rightarrow> nat set" where
  "log_area start = {start..start + LOGBLOCKS}"

text \<open>
  A log between operations: the log on disk is empty, the logged blocks are distinct, lie outside
  the log and fit in it, and only they differ between cache and disk.
\<close>

definition log_ok :: "log \<Rightarrow> bool" where
  "log_ok s \<longleftrightarrow> disk s (log_start s) 0 = 0 \<and> lh_n s \<le> LOGBLOCKS \<and>
     distinct (map (lh_block s) [0..<lh_n s]) \<and>
     (\<forall>i < lh_n s. lh_block s i \<notin> log_area (log_start s) \<and> lh_block s i < 2 ^ 32) \<and>
     (\<forall>b. b \<notin> lh_block s ` {..<lh_n s} \<longrightarrow> view s b = disk s b)"

section \<open>The writes of a commit\<close>

lemma apply_writes_Nil [simp]: "apply_writes [] d = d"
  by (simp add: apply_writes_def)

lemma apply_writes_Cons: "apply_writes (w # ws) d = apply_writes ws (d(fst w := snd w))"
  by (simp add: apply_writes_def split_def)

lemma apply_writes_append: "apply_writes (ws @ vs) d = apply_writes vs (apply_writes ws d)"
  by (simp add: apply_writes_def)

lemma apply_writes_snoc: "apply_writes (ws @ [(b, v)]) d = (apply_writes ws d)(b := v)"
  by (simp add: apply_writes_def)

lemma apply_writes_other: "b \<notin> fst ` set ws \<Longrightarrow> apply_writes ws d b = d b"
  by (induction ws rule: rev_induct) (auto simp: apply_writes_snoc)

lemma apply_writes_in: "distinct (map fst ws) \<Longrightarrow> (b, v) \<in> set ws \<Longrightarrow> apply_writes ws d b = v"
proof (induction ws arbitrary: d)
  case (Cons w ws)
  show ?case
  proof (cases "(b, v) = w")
    case True
    then have w: "w = (b, v)" by simp
    have "b \<notin> fst ` set ws" using Cons.prems(1) w by simp
    then show ?thesis unfolding w apply_writes_Cons by (simp add: apply_writes_other)
  qed (use Cons in \<open>auto simp: apply_writes_Cons\<close>)
qed simp

definition install_writes :: "log \<Rightarrow> (nat \<times> block) list" where
  "install_writes s = map (\<lambda>i. (lh_block s i, view s (log_start s + i + 1))) [0..<lh_n s]"

definition log_writes :: "log \<Rightarrow> (nat \<times> block) list" where
  "log_writes s = map (\<lambda>i. (log_start s + i + 1, view s (lh_block s i))) [0..<lh_n s]"

definition after :: "(nat \<times> block) list \<Rightarrow> log \<Rightarrow> log" where
  "after ws s = s\<lparr>view := apply_writes ws (view s), disk := apply_writes ws (disk s), io := io s @ ws\<rparr>"

lemma after_fields [simp]:
  "view (after ws s) = apply_writes ws (view s)" "disk (after ws s) = apply_writes ws (disk s)"
  "io (after ws s) = io s @ ws" "lh_n (after ws s) = lh_n s" "lh_block (after ws s) = lh_block s"
  "log_start (after ws s) = log_start s"
  by (simp_all add: after_def)

lemma write_after: "bwrite b (set_view b v (after ws s)) = after (ws @ [(b, v)]) s"
  by (simp add: bwrite_def set_view_def after_def apply_writes_snoc)

lemma after_Nil [simp]: "after [] s = s"
  by (simp add: after_def)

definition outside_log :: "log \<Rightarrow> bool" where
  "outside_log s \<longleftrightarrow> lh_n s \<le> LOGBLOCKS \<and> (\<forall>i < lh_n s. lh_block s i \<notin> log_area (log_start s))"

lemma log_slot_in_area: "i < n \<Longrightarrow> n \<le> LOGBLOCKS \<Longrightarrow> start + i + 1 \<in> log_area start"
  by (simp add: log_area_def)

lemma install_trans_eq:
  assumes "outside_log s"
  shows "install_trans s = after (install_writes s) s"
proof -
  let ?f = "\<lambda>tail s. bwrite (lh_block s tail) (set_view (lh_block s tail) (view s (log_start s + tail + 1)) s)"
  let ?w = "\<lambda>k. map (\<lambda>i. (lh_block s i, view s (log_start s + i + 1))) [0..<k]"
  have "k \<le> lh_n s \<Longrightarrow> fold ?f [0..<k] s = after (?w k) s" for k
  proof (induction k)
    case (Suc k)
    have "log_start s + k + 1 \<notin> fst ` set (?w k)"
      using assms Suc.prems log_slot_in_area[of k "lh_n s" "log_start s"] by (force simp: outside_log_def)
    then have "view (after (?w k) s) (log_start s + k + 1) = view s (log_start s + k + 1)"
      unfolding after_fields by (rule apply_writes_other)
    with Suc show ?case by (simp add: write_after)
  qed simp
  then show ?thesis by (simp add: install_trans_def install_writes_def)
qed

lemma write_log_eq:
  assumes "outside_log s"
  shows "write_log s = after (log_writes s) s"
proof -
  let ?f = "\<lambda>tail s. bwrite (log_start s + tail + 1) (set_view (log_start s + tail + 1) (view s (lh_block s tail)) s)"
  let ?w = "\<lambda>k. map (\<lambda>i. (log_start s + i + 1, view s (lh_block s i))) [0..<k]"
  have "k \<le> lh_n s \<Longrightarrow> fold ?f [0..<k] s = after (?w k) s" for k
  proof (induction k)
    case (Suc k)
    have "log_start s + i + 1 \<noteq> lh_block s k" if "i < k" for i
      using assms Suc.prems that log_slot_in_area[of i "lh_n s" "log_start s"] by (force simp: outside_log_def)
    then have "lh_block s k \<notin> fst ` set (?w k)" by fastforce
    then have "view (after (?w k) s) (lh_block s k) = view s (lh_block s k)"
      unfolding after_fields by (rule apply_writes_other)
    with Suc show ?case by (simp add: write_after)
  qed simp
  then show ?thesis by (simp add: write_log_def log_writes_def)
qed

lemma write_head_eq: "write_head s = after [(log_start s, head_of s)] s"
  using write_after[of "log_start s" "head_of s" "[]" s] by (simp add: write_head_def)

text \<open>Header contents: the full header of a commit and the cleared one.\<close>

definition commit_writes :: "log \<Rightarrow> (nat \<times> block) list" where
  "commit_writes s = log_writes s @ [(log_start s, head_of (after (log_writes s) s))] @
     map (\<lambda>i. (lh_block s i, view s (lh_block s i))) [0..<lh_n s] @
     [(log_start s, (\<lambda>j. if j = 0 then 0 else head_of (after (log_writes s) s) j))]"

lemma log_ok_outside: "log_ok s \<Longrightarrow> outside_log s"
  by (simp add: log_ok_def outside_log_def)

lemma log_slots_distinct: "distinct (map fst (log_writes s))"
  by (simp add: log_writes_def comp_def distinct_map inj_on_def)

lemma logged_slot:
  "i < lh_n s \<Longrightarrow> apply_writes (log_writes s) d (log_start s + i + 1) = view s (lh_block s i)"
  by (rule apply_writes_in[OF log_slots_distinct]) (auto simp: log_writes_def)

lemma commit_io:
  assumes "log_ok s" "lh_n s > 0"
  shows "io (commit s) = io s @ commit_writes s"
proof -
  note out = log_ok_outside[OF assms(1)]
  define s1 where "s1 = after (log_writes s) s"
  define s2 where "s2 = after [(log_start s, head_of s1)] s1"
  have s1: "write_log s = s1" by (simp add: s1_def write_log_eq[OF out])
  have s2: "write_head s1 = s2" by (simp add: s2_def write_head_eq s1_def)
  have fields: "lh_n s2 = lh_n s" "lh_block s2 = lh_block s" "log_start s2 = log_start s"
    by (simp_all add: s1_def s2_def)
  have out2: "outside_log s2" using out by (simp add: outside_log_def fields)
  have "view s2 (log_start s + i + 1) = view s (lh_block s i)" if "i < lh_n s" for i
    using logged_slot[OF that, of "view s"] by (simp add: s1_def s2_def apply_writes_Cons)
  then have inst: "install_writes s2 = map (\<lambda>i. (lh_block s i, view s (lh_block s i))) [0..<lh_n s]"
    by (simp add: install_writes_def fields)
  define s3 where "s3 = (after (install_writes s2) s2)\<lparr>lh_n := 0\<rparr>"
  have "log_start s \<notin> fst ` set (install_writes s2)"
    using out by (auto simp: inst outside_log_def log_area_def)
  then have "view s3 (log_start s) = head_of s1" by (simp add: s3_def apply_writes_other s2_def apply_writes_Cons)
  moreover have "lh_n s3 = 0" "log_start s3 = log_start s" by (simp_all add: s3_def fields)
  ultimately have head: "head_of s3 = (\<lambda>j. if j = 0 then 0 else head_of s1 j)"
    by (simp add: head_of_def[of s3] fun_eq_iff)
  have "commit s = write_head s3" using assms(2) by (simp add: commit_def s1 s2 s3_def install_trans_eq[OF out2])
  then have "io (commit s) = io s3 @ [(log_start s3, head_of s3)]" by (simp add: write_head_eq)
  also have "io s3 = io s @ log_writes s @ [(log_start s, head_of s1)] @ install_writes s2"
    by (simp add: s3_def s2_def s1_def)
  also have "log_start s3 = log_start s" by (simp add: s3_def fields)
  finally show ?thesis unfolding head inst commit_writes_def s1_def by simp
qed

section \<open>Recovery\<close>

lemma reboot_fields [simp]:
  "log_start (reboot start d s) = start" "view (reboot start d s) = d" "disk (reboot start d s) = d"
  by (simp_all add: reboot_def)

lemma read_head_fields [simp]:
  "log_start (read_head s) = log_start s" "view (read_head s) = view s" "disk (read_head s) = disk s"
  "lh_n (read_head s) = unat (view s (log_start s) 0)"
  "i < unat (view s (log_start s) 0) \<Longrightarrow> lh_block (read_head s) i = unat (view s (log_start s) (1 + i))"
  by (simp_all add: read_head_def Let_def)

lemma recover_home:
  assumes "d start 0 = of_nat n" "n \<le> LOGBLOCKS" "\<And>i. i < n \<Longrightarrow> d start (1 + i) = of_nat (blk i)"
    and "\<And>i. i < n \<Longrightarrow> blk i \<notin> log_area start \<and> blk i < 2 ^ 32" and "b \<noteq> start"
  shows "disk (recover_from_log (reboot start d s)) b = apply_writes (map (\<lambda>i. (blk i, d (start + i + 1))) [0..<n]) d b"
proof -
  let ?r = "read_head (reboot start d s)"
  have n: "unat (d start 0) = n" using assms(1,2) by (simp add: unat_of_nat LOGBLOCKS_def MAXOPBLOCKS_def take_bit_nat_eq_self)
  have blk: "lh_block ?r i = blk i" if "i < n" for i
    using that assms(3,4)[OF that] n by (simp add: unat_of_nat take_bit_nat_eq_self)
  have "outside_log ?r" using n blk assms(2,4) by (simp add: outside_log_def)
  moreover have "install_writes ?r = map (\<lambda>i. (blk i, d (start + i + 1))) [0..<n]" using n blk by (simp add: install_writes_def)
  ultimately show ?thesis
    using assms(5) by (simp add: recover_from_log_def write_head_eq install_trans_eq apply_writes_Cons)
qed

lemma recover_empty:
  assumes "d start 0 = 0" "b \<noteq> start"
  shows "disk (recover_from_log (reboot start d s)) b = d b"
  using recover_home[of d start 0 "\<lambda>_. 0" b s] assms by simp

section \<open>Crash points\<close>

definition home_writes :: "log \<Rightarrow> (nat \<times> block) list" where
  "home_writes s = map (\<lambda>i. (lh_block s i, view s (lh_block s i))) [0..<lh_n s]"

definition commit_head :: "log \<Rightarrow> block" where
  "commit_head s = head_of (after (log_writes s) s)"

lemma commit_writes_eq:
  "commit_writes s = log_writes s @ [(log_start s, commit_head s)] @ home_writes s @
    [(log_start s, (\<lambda>j. if j = 0 then 0 else commit_head s j))]"
  unfolding commit_writes_def home_writes_def commit_head_def by (rule refl)

lemma log_writes_keys:
  assumes "log_ok s"
  shows "fst ` set (log_writes s) \<subseteq> log_area (log_start s)" "log_start s \<notin> fst ` set (log_writes s)"
    "length (log_writes s) = lh_n s" "length (home_writes s) = lh_n s"
  using assms by (auto simp: log_ok_def log_writes_def log_area_def home_writes_def)

lemma log_writes_elsewhere:
  assumes "log_ok s" "b \<notin> log_area (log_start s)"
  shows "apply_writes (take j (log_writes s)) d b = d b"
  using log_writes_keys(1)[OF assms(1)] assms(2) by (intro apply_writes_other) (auto dest: in_set_takeD)

text \<open>A prefix of the writes to the home locations, and all of them.\<close>

lemma home_writes_prefix:
  assumes "log_ok s" "d b = disk s b"
  shows "apply_writes (take j (home_writes s)) d b = disk s b \<or> apply_writes (take j (home_writes s)) d b = view s b"
proof (cases "b \<in> fst ` set (take j (home_writes s))")
  case True
  have "distinct (map fst (home_writes s))" using assms(1) by (simp add: home_writes_def log_ok_def comp_def)
  then have "distinct (map fst (take j (home_writes s)))" by (simp add: distinct_take flip: take_map)
  moreover obtain v where v: "(b, v) \<in> set (take j (home_writes s))" using True by auto
  moreover have "v = view s b" using in_set_takeD[OF v] by (auto simp: home_writes_def)
  ultimately show ?thesis by (simp add: apply_writes_in)
qed (use assms in \<open>simp add: apply_writes_other\<close>)

lemma home_writes_all:
  assumes "log_ok s" "d b = disk s b \<or> d b = view s b"
  shows "apply_writes (home_writes s) d b = view s b"
proof (cases "b \<in> fst ` set (home_writes s)")
  case True
  then have "(b, view s b) \<in> set (home_writes s)" by (auto simp: home_writes_def)
  moreover have "distinct (map fst (home_writes s))" using assms(1) by (simp add: home_writes_def log_ok_def comp_def)
  ultimately show ?thesis by (intro apply_writes_in)
next
  case False
  then have "b \<notin> lh_block s ` {..<lh_n s}" by (force simp: home_writes_def)
  then have "view s b = disk s b" using assms(1) by (auto simp: log_ok_def)
  with assms(2) show ?thesis by (simp add: apply_writes_other[OF False])
qed

text \<open>While the header on the disk is the one of the commit, recovery installs the transaction.\<close>

lemma recover_committed:
  assumes ok: "log_ok s" and b: "b \<notin> log_area (log_start s)"
    and head: "d (log_start s) = commit_head s" and slots: "\<And>i. i < lh_n s \<Longrightarrow> d (log_start s + i + 1) = view s (lh_block s i)"
    and home: "d b = disk s b \<or> d b = view s b"
  shows "disk (recover_from_log (reboot (log_start s) d s)) b = view s b"
proof -
  have s: "lh_n s \<le> LOGBLOCKS" "\<And>i. i < lh_n s \<Longrightarrow> lh_block s i \<notin> log_area (log_start s) \<and> lh_block s i < 2 ^ 32"
    using ok by (auto simp: log_ok_def)
  have "b \<noteq> log_start s" using b by (auto simp: log_area_def)
  then have "disk (recover_from_log (reboot (log_start s) d s)) b =
      apply_writes (map (\<lambda>i. (lh_block s i, d (log_start s + i + 1))) [0..<lh_n s]) d b"
    using s by (intro recover_home) (simp_all add: head commit_head_def head_of_def)
  also have "map (\<lambda>i. (lh_block s i, d (log_start s + i + 1))) [0..<lh_n s] = home_writes s"
    using slots by (simp add: home_writes_def)
  also have "apply_writes (home_writes s) d b = view s b" using home_writes_all[OF ok, of d b] home by blast
  finally show ?thesis .
qed

text \<open>The disk once the log and its header are written.\<close>

lemma logged_disk:
  assumes "log_ok s" "b \<notin> log_area (log_start s)"
    and d: "d = apply_writes (log_writes s @ [(log_start s, commit_head s)]) (disk s)"
  shows "d (log_start s) = commit_head s" "d b = disk s b" "i < lh_n s \<Longrightarrow> d (log_start s + i + 1) = view s (lh_block s i)"
proof -
  show "d (log_start s) = commit_head s" by (simp add: d apply_writes_snoc)
  have "b \<noteq> log_start s" using assms(2) by (auto simp: log_area_def)
  then show "d b = disk s b"
    using log_writes_elsewhere[OF assms(1, 2), of "lh_n s"] log_writes_keys(3)[OF assms(1)] by (simp add: d apply_writes_snoc)
  show "d (log_start s + i + 1) = view s (lh_block s i)" if "i < lh_n s"
    using logged_slot[OF that, of "disk s"] by (simp add: d apply_writes_snoc)
qed

lemma crash_before_head:
  assumes "log_ok s" "b \<notin> log_area (log_start s)"
  shows "disk (recover_from_log (reboot (log_start s) (apply_writes (take k (log_writes s)) (disk s)) s)) b = disk s b"
proof -
  have "log_start s \<notin> fst ` set (take k (log_writes s))" using log_writes_keys(2)[OF assms(1)] by (auto dest: in_set_takeD)
  then have "apply_writes (take k (log_writes s)) (disk s) (log_start s) 0 = 0"
    using assms(1) by (simp add: apply_writes_other log_ok_def)
  moreover have "b \<noteq> log_start s" using assms(2) by (auto simp: log_area_def)
  ultimately show ?thesis using recover_empty log_writes_elsewhere[OF assms] by simp
qed

lemma crash_while_installing:
  assumes "log_ok s" "b \<notin> log_area (log_start s)" "d1 = apply_writes (log_writes s @ [(log_start s, commit_head s)]) (disk s)"
  shows "disk (recover_from_log (reboot (log_start s) (apply_writes (take j (home_writes s)) d1) s)) b = view s b"
proof (rule recover_committed[OF assms(1, 2)])
  note D = logged_disk[OF assms]
  have "apply_writes (take j (home_writes s)) d1 a = d1 a" if "a \<in> log_area (log_start s)" for a
    using that assms(1) by (intro apply_writes_other) (auto simp: home_writes_def log_ok_def dest!: in_set_takeD)
  moreover have "log_start s \<in> log_area (log_start s)" "\<And>i. i < lh_n s \<Longrightarrow> log_start s + i + 1 \<in> log_area (log_start s)"
    using assms(1) by (auto simp: log_area_def log_ok_def)
  ultimately show "apply_writes (take j (home_writes s)) d1 (log_start s) = commit_head s"
    "\<And>i. i < lh_n s \<Longrightarrow> apply_writes (take j (home_writes s)) d1 (log_start s + i + 1) = view s (lh_block s i)"
    using D(1, 3) by simp_all
  show "apply_writes (take j (home_writes s)) d1 b = disk s b \<or> apply_writes (take j (home_writes s)) d1 b = view s b"
    using home_writes_prefix[OF assms(1), of d1 b j] D(2) by blast
qed

text \<open>
  C24: A crash at any moment of a commit, between any two block writes, leaves after recovery
  either none or all of the blocks of the transaction: before the header is written the file
  system is as it was, and from then on every logged block has its new contents. Blocks outside
  the transaction never change.
\<close>

theorem log_crash_atomic:
  assumes "log_ok s" "lh_n s > 0" "b \<notin> log_area (log_start s)"
  shows "\<exists>ws. io (commit s) = io s @ ws \<and>
    disk (recover_from_log (reboot (log_start s) (apply_writes (take k ws) (disk s)) s)) b =
      (if k \<le> lh_n s then disk s b else view s b)"
proof (intro exI conjI)
  let ?n = "lh_n s" and ?d = "apply_writes (take k (commit_writes s)) (disk s)"
  define d1 where "d1 = apply_writes (log_writes s @ [(log_start s, commit_head s)]) (disk s)"
  show "io (commit s) = io s @ commit_writes s" by (rule commit_io[OF assms(1,2)])
  note len = log_writes_keys(3, 4)[OF assms(1)] and W = commit_writes_eq
  consider "k \<le> ?n" | "?n < k" "k \<le> 2 * ?n + 1" | "2 * ?n + 1 < k" by linarith
  then show "disk (recover_from_log (reboot (log_start s) ?d s)) b = (if k \<le> ?n then disk s b else view s b)"
  proof cases
    case 1
    then have "?d = apply_writes (take k (log_writes s)) (disk s)" using len by (simp add: W)
    then show ?thesis using crash_before_head[OF assms(1, 3)] 1 by simp
  next
    case 2
    then have "?d = apply_writes (take (k - (?n + 1)) (home_writes s)) d1"
      using len by (simp add: W d1_def apply_writes_append[symmetric] take_Cons' flip: append.assoc)
    then show ?thesis using crash_while_installing[OF assms(1, 3) d1_def] 2 by simp
  next
    case 3
    have b: "b \<noteq> log_start s" using assms(3) by (auto simp: log_area_def)
    have d: "?d = (apply_writes (home_writes s) d1)(log_start s := (\<lambda>j. if j = 0 then 0 else commit_head s j))"
      using 3 len by (simp add: W d1_def apply_writes_append apply_writes_Cons)
    then have "disk (recover_from_log (reboot (log_start s) ?d s)) b = ?d b" using b by (intro recover_empty) simp_all
    also have "\<dots> = view s b" using home_writes_all[OF assms(1)] logged_disk(2)[OF assms(1, 3) d1_def] b by (simp add: d)
    finally show ?thesis using 3 by simp
  qed
qed

theorem log_crash_atomic_witness:
  "\<exists>s ws. lh_n s = 1 \<and> io (commit s) = ws \<and>
    disk (recover_from_log (reboot 2 (apply_writes (take 2 ws) (disk s)) s)) 50 = (\<lambda>_. 7)"
proof -
  let ?s = "\<lparr>log_start = 2, outstanding = 0, committing = True, lh_n = 1, lh_block = (\<lambda>_. 50), view = (\<lambda>_. \<lambda>_. 0)(50 := (\<lambda>_. 7)),
    disk = (\<lambda>_. \<lambda>_. 0), io = [], log_tab = undefined\<rparr>"
  have "log_ok ?s" by (simp add: log_ok_def log_area_def LOGBLOCKS_def MAXOPBLOCKS_def)
  from log_crash_atomic[OF this, of 50 2] obtain ws where "io (commit ?s) = ws"
    "disk (recover_from_log (reboot 2 (apply_writes (take 2 ws) (disk ?s)) ?s)) 50 = view ?s 50"
    by (auto simp: log_area_def LOGBLOCKS_def MAXOPBLOCKS_def)
  then show ?thesis by (intro exI[of _ ?s] exI[of _ ws]) simp
qed

section \<open>Log space\<close>

text \<open>
  Operations of the file system: \<open>c me = Some k\<close> says that the process is inside an operation that
  has called \<^verbatim>\<open>log_write\<close> \<open>k\<close> times so far, at most \<^const>\<open>MAXOPBLOCKS\<close> times. The calls for a block
  already in the log (absorbed, \<^verbatim>\<open>log.c\<close> says) count too: the reservation is per block, but
  \<open>absorbed_write_panics\<close> below shows that a call in excess may panic even when it is absorbed. The
  last operation to end commits, while new operations wait.
\<close>

inductive fs_op :: "log \<times> (nat \<rightharpoonup> nat) \<Rightarrow> log \<times> (nat \<rightharpoonup> nat) \<Rightarrow> bool" where
  op_begins: "c me = None \<Longrightarrow> begin_op me s = (Begun, s') \<Longrightarrow> fs_op (s, c) (s', c(me \<mapsto> 0))"
| op_waits: "begin_op me s = (BeginSleeps, s') \<Longrightarrow> fs_op (s, c) (s', c)"
| op_logs: "c me = Some k \<Longrightarrow> k < MAXOPBLOCKS \<Longrightarrow> log_write b v s = Inr s' \<Longrightarrow> fs_op (s, c) (s', c(me \<mapsto> Suc k))"
| op_ends: "c me = Some k \<Longrightarrow> end_op_begin me s = Inr (do_commit, s') \<Longrightarrow> fs_op (s, c) (s', c(me := None))"
| op_commits: "committing s \<Longrightarrow> fs_op (s, c) (end_op_end me (commit s), c)"

definition reserved :: "(nat \<rightharpoonup> nat) \<Rightarrow> nat" where
  "reserved c = (\<Sum>me \<in> dom c. MAXOPBLOCKS - the (c me))"

definition space_ok :: "log \<times> (nat \<rightharpoonup> nat) \<Rightarrow> bool" where
  "space_ok sc \<longleftrightarrow> (case sc of (s, c) \<Rightarrow> finite (dom c) \<and> outstanding s = int (card (dom c)) \<and>
     (\<forall>me k. c me = Some k \<longrightarrow> k \<le> MAXOPBLOCKS) \<and> lh_n s + reserved c \<le> LOGBLOCKS \<and> (committing s \<longrightarrow> dom c = {}))"

lemma commit_lh_n: "lh_n (commit s) = 0" and commit_outstanding: "outstanding (commit s) = outstanding s"
proof -
  have "outstanding (bwrite b s) = outstanding s" "outstanding (set_view b v s) = outstanding s" for b v s
    by (simp_all add: bwrite_def set_view_def)
  then have f: "outstanding (fold (\<lambda>t s. bwrite (f s t) (set_view (g s t) (h s t) s)) xs s) = outstanding s"
    for f g h and xs :: "nat list" and s by (induction xs arbitrary: s) simp_all
  have w: "outstanding (write_head s) = outstanding s" for s by (simp add: write_head_eq after_def)
  show "outstanding (commit s) = outstanding s"
    using f[of "\<lambda>s t. lh_block s t"] f[of "\<lambda>s t. log_start s + t + 1"]
    by (simp add: commit_def w install_trans_def write_log_def)
  show "lh_n (commit s) = 0" by (simp add: commit_def write_head_eq)
qed

lemma reserved_upd:
  assumes "finite (dom c)" "c me = Some k"
  shows "reserved c = MAXOPBLOCKS - k + reserved (c(me := None))"
proof -
  have "(\<Sum>x \<in> dom c - {me}. MAXOPBLOCKS - the (c x)) = reserved (c(me := None))"
    unfolding reserved_def by (intro sum.cong) auto
  moreover have "me \<in> dom c" using assms(2) by auto
  ultimately show ?thesis using assms sum.remove[of "dom c" me "\<lambda>me. MAXOPBLOCKS - the (c me)"] by (simp add: reserved_def)
qed

lemma reserved_set:
  assumes "finite (dom c)"
  shows "reserved (c(me \<mapsto> k)) = MAXOPBLOCKS - k + reserved (c(me := None))"
  using reserved_upd[of "c(me \<mapsto> k)" me k] assms by simp

lemma reserved_le: "finite (dom c) \<Longrightarrow> reserved c \<le> card (dom c) * MAXOPBLOCKS"
  unfolding reserved_def by (intro order.trans[OF sum_bounded_above[of _ _ MAXOPBLOCKS]]) auto

lemma log_write_n:
  "log_write b v s = Inr s' \<Longrightarrow> lh_n s' \<le> Suc (lh_n s) \<and> outstanding s' = outstanding s \<and> committing s' = committing s"
  by (auto simp: log_write_def Let_def set_view_def split: if_splits option.splits)

lemma fs_op_space: "fs_op x y \<Longrightarrow> space_ok x \<Longrightarrow> space_ok y"
proof (induction rule: fs_op.induct)
  case (op_begins c me s s')
  then have b: "\<not> committing s" "int (lh_n s) + (outstanding s + 1) * int MAXOPBLOCKS \<le> int LOGBLOCKS"
    "s' = s\<lparr>outstanding := outstanding s + 1\<rparr>" by (auto simp: begin_op_def split: if_splits)
  have c: "finite (dom c)" "outstanding s = int (card (dom c))" using op_begins(3) by (auto simp: space_ok_def)
  have "int (lh_n s) + int (reserved c) + int MAXOPBLOCKS \<le> int LOGBLOCKS"
    using reserved_le[OF c(1)] b(2) unfolding c(2)
    by (simp add: algebra_simps) (metis (mono_tags, lifting) add_left_mono of_nat_le_iff of_nat_mult order.trans)
  then have "lh_n s + reserved (c(me \<mapsto> 0)) \<le> LOGBLOCKS"
    using op_begins(1) by (simp add: reserved_set[OF c(1)] fun_upd_idem)
  moreover have "card (dom (c(me \<mapsto> 0))) = Suc (card (dom c))" using op_begins(1) c(1) by (simp add: card_insert_if domIff)
  ultimately show ?case using op_begins(3) b by (auto simp: space_ok_def)
next
  case (op_waits me s s' c)
  then show ?case by (auto simp: begin_op_def space_ok_def split: if_splits)
next
  case (op_logs c me k b v s s')
  have c: "finite (dom c)" "lh_n s + reserved c \<le> LOGBLOCKS" using op_logs(4) by (auto simp: space_ok_def)
  have "lh_n s' + reserved (c(me \<mapsto> Suc k)) \<le> LOGBLOCKS"
    using log_write_n[OF op_logs(3)] c(2) op_logs(2) reserved_upd[OF c(1) op_logs(1)] reserved_set[OF c(1), of me "Suc k"]
    by linarith
  moreover have "dom (c(me \<mapsto> Suc k)) = dom c" using op_logs(1) by auto
  ultimately show ?case using log_write_n[OF op_logs(3)] op_logs by (auto simp: space_ok_def)
next
  case (op_ends c me k s do_commit s')
  have c: "finite (dom c)" "outstanding s = int (card (dom c))" "me \<in> dom c" using op_ends(1,3) by (auto simp: space_ok_def)
  have card: "card (dom (c(me := None))) = card (dom c) - 1" using c by simp
  have "0 < card (dom c)" using c by (auto simp: card_gt_0_iff)
  moreover have "c(me := None) = Map.empty" if "card (dom c) = Suc 0"
  proof -
    have "card (dom (c(me := None))) = 0" "finite (dom (c(me := None)))" using that card c(1) by simp_all
    then show ?thesis by (metis card_0_eq dom_eq_empty_conv)
  qed
  moreover have "reserved (c(me := None)) \<le> reserved c" using reserved_upd[OF c(1) op_ends(1)] by simp
  ultimately show ?case using op_ends(2,3) c card
    by (auto simp: space_ok_def end_op_begin_def Let_def split: if_splits)
next
  case (op_commits s c me)
  then show ?case by (auto simp: space_ok_def end_op_end_def commit_lh_n commit_outstanding)
qed

lemma log_fresh:
  assumes "lh_n s < LOGBLOCKS" "1 \<le> outstanding s" "\<forall>i < lh_n s. lh_block s i = 100 + i"
  obtains s' where "log_write (100 + lh_n s) v s = Inr s'" "lh_n s' = Suc (lh_n s)" "outstanding s' = outstanding s"
    "\<forall>i < lh_n s'. lh_block s' i = 100 + i"
proof -
  have "find (\<lambda>i. lh_block s i = 100 + lh_n s) [0..<lh_n s] = None" using assms(3) by (auto simp: find_None_iff)
  with assms that show ?thesis by (simp add: log_write_def Let_def set_view_def less_Suc_eq)
qed

lemma log_fill:
  assumes "c me = Some k" "k + m \<le> MAXOPBLOCKS" "lh_n s + m \<le> LOGBLOCKS" "1 \<le> outstanding s"
    "\<forall>i < lh_n s. lh_block s i = 100 + i"
  shows "\<exists>s'. fs_op\<^sup>*\<^sup>* (s, c) (s', c(me \<mapsto> k + m)) \<and> lh_n s' = lh_n s + m \<and> outstanding s' = outstanding s \<and>
    (\<forall>i < lh_n s'. lh_block s' i = 100 + i)"
  using assms
proof (induction m arbitrary: k s c)
  case 0
  then show ?case by (metis add.right_neutral map_upd_triv rtranclp.rtrancl_refl)
next
  case (Suc m)
  obtain s1 where s1: "log_write (100 + lh_n s) (\<lambda>_. 0) s = Inr s1" "lh_n s1 = Suc (lh_n s)" "outstanding s1 = outstanding s"
    "\<forall>i < lh_n s1. lh_block s1 i = 100 + i"
    using log_fresh[of s "\<lambda>_. 0"] Suc.prems(3-5) by auto
  have "fs_op (s, c) (s1, c(me \<mapsto> Suc k))" using Suc.prems(1,2) s1(1) by (intro op_logs) auto
  moreover obtain s2 where "fs_op\<^sup>*\<^sup>* (s1, c(me \<mapsto> Suc k)) (s2, c(me \<mapsto> Suc k, me \<mapsto> Suc k + m))"
    "lh_n s2 = lh_n s1 + m" "outstanding s2 = outstanding s1" "\<forall>i < lh_n s2. lh_block s2 i = 100 + i"
    using Suc.IH[of "c(me \<mapsto> Suc k)" "Suc k" s1] Suc.prems s1 by (auto simp del: fun_upd_apply simp: fun_upd_same)
  ultimately show ?case using s1(2,3) by (intro exI[of _ s2]) (auto intro: converse_rtranclp_into_rtranclp simp del: fun_upd_apply)
qed

text \<open>
  The call in excess: three operations have each logged their ten blocks; when one of them logs a
  block once more that is in the log already, \<^verbatim>\<open>log_write\<close> panics, as it compares \<^verbatim>\<open>lh.n\<close> with
  \<^verbatim>\<open>LOGBLOCKS\<close> before it looks for the block.
\<close>

lemma absorbed_write_panics:
  assumes "outstanding s0 = 0" "lh_n s0 = 0" "\<not> committing s0"
  shows "\<exists>s. fs_op\<^sup>*\<^sup>* (s0, Map.empty) (s, [0 \<mapsto> 10, 1 \<mapsto> 10, 2 \<mapsto> 10]) \<and> lh_n s = 30 \<and> lh_block s 0 = 100 \<and>
    log_write 100 v s = Inl (Panic ''too big a transaction'')"
proof -
  let ?s = "\<lambda>n. s0\<lparr>outstanding := n\<rparr>" and ?c = "[0 \<mapsto> 0, 1 \<mapsto> 0, 2 \<mapsto> 0] :: nat \<rightharpoonup> nat"
  have "fs_op (s0, Map.empty) (?s 1, [0 \<mapsto> 0])" "fs_op (?s 1, [0 \<mapsto> 0]) (?s 2, [0 \<mapsto> 0, 1 \<mapsto> 0])"
    "fs_op (?s 2, [0 \<mapsto> 0, 1 \<mapsto> 0]) (?s 3, ?c)"
    using assms by (auto intro!: op_begins simp: begin_op_def LOGBLOCKS_def MAXOPBLOCKS_def)
  then have b: "fs_op\<^sup>*\<^sup>* (s0, Map.empty) (?s 3, ?c)" by (meson converse_rtranclp_into_rtranclp rtranclp.rtrancl_refl)
  obtain s1 where s1: "fs_op\<^sup>*\<^sup>* (?s 3, ?c) (s1, ?c(0 \<mapsto> 10))" "lh_n s1 = 10" "outstanding s1 = 3"
    "\<forall>i < lh_n s1. lh_block s1 i = 100 + i"
    using log_fill[of ?c 0 0 10 "?s 3"] assms by (auto simp: LOGBLOCKS_def MAXOPBLOCKS_def)
  obtain s2 where s2: "fs_op\<^sup>*\<^sup>* (s1, ?c(0 \<mapsto> 10)) (s2, ?c(0 \<mapsto> 10, 1 \<mapsto> 10))" "lh_n s2 = 20" "outstanding s2 = 3"
    "\<forall>i < lh_n s2. lh_block s2 i = 100 + i"
    using log_fill[of "?c(0 \<mapsto> 10)" 1 0 10 s1] s1 by (auto simp: LOGBLOCKS_def MAXOPBLOCKS_def)
  obtain s3 where s3: "fs_op\<^sup>*\<^sup>* (s2, ?c(0 \<mapsto> 10, 1 \<mapsto> 10)) (s3, ?c(0 \<mapsto> 10, 1 \<mapsto> 10, 2 \<mapsto> 10))" "lh_n s3 = 30"
    "\<forall>i < lh_n s3. lh_block s3 i = 100 + i"
    using log_fill[of "?c(0 \<mapsto> 10, 1 \<mapsto> 10)" 2 0 10 s2] s2 by (auto simp: LOGBLOCKS_def MAXOPBLOCKS_def)
  have "?c(0 \<mapsto> 10, 1 \<mapsto> 10, 2 \<mapsto> 10) = [0 \<mapsto> 10, 1 \<mapsto> 10, 2 \<mapsto> 10]" by (auto simp: fun_eq_iff)
  then have "fs_op\<^sup>*\<^sup>* (s0, Map.empty) (s3, [0 \<mapsto> 10, 1 \<mapsto> 10, 2 \<mapsto> 10])"
    using rtranclp_trans[OF rtranclp_trans[OF rtranclp_trans[OF b s1(1)] s2(1)] s3(1)] by simp
  moreover have "log_write 100 v s3 = Inl (Panic ''too big a transaction'')"
    using s3(2) by (simp add: log_write_def LOGBLOCKS_def MAXOPBLOCKS_def)
  ultimately show ?thesis using s3 by auto
qed

text \<open>
  C25: The reservation made by \<^verbatim>\<open>begin_op\<close> is enough for operations that call \<^verbatim>\<open>log_write\<close> at most
  \<^verbatim>\<open>MAXOPBLOCKS\<close> times each, the calls that are absorbed included, however many run at the same time:
  the log never overflows, \<^verbatim>\<open>log_write\<close> and \<^verbatim>\<open>end_op\<close> never panic, and a commit runs only when no
  operation is in progress.
\<close>

theorem log_never_full:
  assumes "fs_op\<^sup>*\<^sup>* (s0, Map.empty) (s, c)" "outstanding s0 = 0" "lh_n s0 = 0"
  shows "lh_n s \<le> 30 \<and> (committing s \<longrightarrow> c = Map.empty) \<and>
    (\<forall>me k b v. c me = Some k \<longrightarrow> ok (end_op_begin me s) \<and> (k < 10 \<longrightarrow> ok (log_write b v s)))"
proof -
  have sp: "space_ok (s, c)" using assms(1)
  proof (induction rule: rtranclp_induct)
    case base
    show ?case using assms(2,3) by (simp add: space_ok_def reserved_def)
  qed (rule fs_op_space)
  have "ok (end_op_begin me s)" if "c me = Some k" for me k
    using sp that by (auto simp: space_ok_def end_op_begin_def Let_def)
  moreover have "ok (log_write b v s)" if "c me = Some k" "k < 10" for me k b v
  proof -
    have c: "finite (dom c)" "lh_n s + reserved c \<le> LOGBLOCKS" "outstanding s = int (card (dom c))"
      using sp by (auto simp: space_ok_def)
    then have "lh_n s < LOGBLOCKS" using reserved_upd[OF c(1) that(1)] that(2) by (simp add: MAXOPBLOCKS_def)
    moreover have "0 < card (dom c)" using c(1) that(1) by (auto simp: card_gt_0_iff)
    ultimately show ?thesis using c(3) by (auto simp: log_write_def Let_def)
  qed
  ultimately show ?thesis using sp by (auto simp: space_ok_def LOGBLOCKS_def MAXOPBLOCKS_def)
qed

theorem log_never_full_witness:
  "\<exists>s0 s. fs_op\<^sup>*\<^sup>* (s0, Map.empty) (s, [5 \<mapsto> 0]) \<and> ok (log_write 60 (\<lambda>_. 1) s)"
proof -
  let ?s = "\<lparr>log_start = 2, outstanding = 0, committing = False, lh_n = 0, lh_block = (\<lambda>_. 0), view = (\<lambda>_. \<lambda>_. 0),
    disk = (\<lambda>_. \<lambda>_. 0), io = [], log_tab = undefined\<rparr>"
  let ?s1 = "?s\<lparr>outstanding := 1\<rparr>"
  have "fs_op (?s, Map.empty) (?s1, [5 \<mapsto> 0])"
    by (rule op_begins) (simp_all add: begin_op_def LOGBLOCKS_def MAXOPBLOCKS_def)
  then have "fs_op\<^sup>*\<^sup>* (?s, Map.empty) (?s1, [5 \<mapsto> 0])" by blast
  moreover have "ok (log_write 60 (\<lambda>_. 1) ?s1)"
    using log_never_full[OF calculation, THEN conjunct2, THEN conjunct2, rule_format, of 5 0] by simp
  ultimately show ?thesis by blast
qed

end
