(* ===== verification/Fs_Blocks.thy ===== *)
theory Fs_Blocks
  imports Kalloc
begin

unbundle bit_operations_syntax

text \<open>
  The block layer of the file system, \<^verbatim>\<open>kernel/fs.c\<close>: the free bitmap, the block map of an inode
  with its indirect block, and truncation. The disk is what \<^verbatim>\<open>bread\<close> returns, an array of blocks of
  32-bit little-endian words; bit \<open>bi\<close> of a bitmap block, in byte \<^verbatim>\<open>bi/8\<close> at position \<^verbatim>\<open>bi%8\<close>, is
  bit \<open>bi mod 32\<close> of word \<open>bi div 32\<close>. A modified block goes to the log, which is the component Log;
  here it is the update of the array.
\<close>

section \<open>Data\<close>

type_synonym blk = "nat \<Rightarrow> 32 word"
type_synonym fsdisk = "nat \<Rightarrow> blk"

definition BPB :: nat where "BPB = 1024 * 8"

definition NDIRECT :: nat where "NDIRECT = 12"

definition NINDIRECT :: nat where "NINDIRECT = 1024 div 4"

definition IPB :: nat where "IPB = 1024 div 64"

record superblock =
  sb_size :: nat
  sb_ninodes :: nat
  sb_inodestart :: nat
  sb_bmapstart :: nat

record inode =
  inum :: nat
  i_type :: "16 word"
  i_major :: "16 word"
  i_minor :: "16 word"
  i_nlink :: "16 word"
  i_size :: "32 word"
  addrs :: "nat \<Rightarrow> 32 word"

definition BBLOCK :: "nat \<Rightarrow> superblock \<Rightarrow> nat" where
  "BBLOCK b sb = b div BPB + sb_bmapstart sb"

definition IBLOCK :: "nat \<Rightarrow> superblock \<Rightarrow> nat" where
  "IBLOCK i sb = i div IPB + sb_inodestart sb"

section \<open>Bitmap\<close>

definition bit_at :: "nat \<Rightarrow> nat \<Rightarrow> fsdisk \<Rightarrow> bool" where
  "bit_at blockno bi d = bit (d blockno (bi div 32)) (bi mod 32)"

definition mark :: "nat \<Rightarrow> nat \<Rightarrow> fsdisk \<Rightarrow> fsdisk" where
  "mark blockno bi d = d(blockno := (d blockno)(bi div 32 := set_bit (bi mod 32) (d blockno (bi div 32))))"

definition unmark :: "nat \<Rightarrow> nat \<Rightarrow> fsdisk \<Rightarrow> fsdisk" where
  "unmark blockno bi d = d(blockno := (d blockno)(bi div 32 := unset_bit (bi mod 32) (d blockno (bi div 32))))"

definition bzero :: "nat \<Rightarrow> fsdisk \<Rightarrow> fsdisk" where
  "bzero bno d = d(bno := (\<lambda>_. 0))"

text \<open>The loop of \<^verbatim>\<open>balloc\<close> over the bitmap blocks and within one block.\<close>

function balloc_from :: "superblock \<Rightarrow> nat \<Rightarrow> fsdisk \<Rightarrow> nat \<times> fsdisk" where
  "balloc_from sb b d =
    (if b < sb_size sb then
       case find (\<lambda>bi. b + bi < sb_size sb \<and> \<not> bit_at (BBLOCK b sb) bi d) [0..<BPB] of
         Some bi \<Rightarrow> (b + bi, bzero (b + bi) (mark (BBLOCK b sb) bi d))
       | None \<Rightarrow> balloc_from sb (b + BPB) d
     else (0, d))"
  by auto
termination by (relation "measure (\<lambda>(sb, b, d). sb_size sb - b)") (auto simp: BPB_def)

declare balloc_from.simps [simp del]

definition balloc :: "superblock \<Rightarrow> fsdisk \<Rightarrow> nat \<times> fsdisk" where
  "balloc sb d = balloc_from sb 0 d"

definition bfree :: "superblock \<Rightarrow> nat \<Rightarrow> fsdisk \<Rightarrow> fault + fsdisk" where
  "bfree sb b d =
    (let bi = b mod BPB in
     if \<not> bit_at (BBLOCK b sb) bi d then Inl (Panic ''freeing free block'') else Inr (unmark (BBLOCK b sb) bi d))"

section \<open>Inodes\<close>

text \<open>The sixteen words of \<^verbatim>\<open>struct dinode\<close>, at index \<^verbatim>\<open>inum % IPB\<close> of the inode's block.\<close>

definition dinode_word :: "inode \<Rightarrow> nat \<Rightarrow> 32 word" where
  "dinode_word ip j =
    (if j = 0 then ucast (i_type ip) OR push_bit 16 (ucast (i_major ip))
     else if j = 1 then ucast (i_minor ip) OR push_bit 16 (ucast (i_nlink ip))
     else if j = 2 then i_size ip else addrs ip (j - 3))"

definition iupdate :: "superblock \<Rightarrow> inode \<Rightarrow> fsdisk \<Rightarrow> fsdisk" where
  "iupdate sb ip d =
    (let b = IBLOCK (inum ip) sb; off = inum ip mod IPB * 16 in
     d(b := (\<lambda>w. if off \<le> w \<and> w < off + 16 then dinode_word ip (w - off) else d b w)))"

definition bmap :: "superblock \<Rightarrow> inode \<Rightarrow> nat \<Rightarrow> fsdisk \<Rightarrow> fault + (nat \<times> inode \<times> fsdisk)" where
  "bmap sb ip bn d =
    (if bn < NDIRECT then
       if addrs ip bn = 0 then
         let (addr, d) = balloc sb d in
         if addr = 0 then Inr (0, ip, d) else Inr (addr, ip\<lparr>addrs := (addrs ip)(bn := of_nat addr)\<rparr>, d)
       else Inr (unat (addrs ip bn), ip, d)
     else let bn = bn - NDIRECT in
     if bn < NINDIRECT then
       let (addr, ip, d) =
         (if addrs ip NDIRECT = 0 then
            let (addr, d) = balloc sb d in
            if addr = 0 then (0, ip, d) else (addr, ip\<lparr>addrs := (addrs ip)(NDIRECT := of_nat addr)\<rparr>, d)
          else (unat (addrs ip NDIRECT), ip, d)) in
       if addr = 0 then Inr (0, ip, d)
       else if d addr bn = 0 then
         let (a, d) = balloc sb d in
         if a = 0 then Inr (0, ip, d) else Inr (a, ip, d(addr := (d addr)(bn := of_nat a)))
       else Inr (unat (d addr bn), ip, d)
     else Inl (Panic ''bmap: out of range''))"

definition itrunc :: "superblock \<Rightarrow> inode \<Rightarrow> fsdisk \<Rightarrow> fault + (inode \<times> fsdisk)" where
  "itrunc sb ip d =
    rbind (rfold (\<lambda>i (ip, d). if addrs ip i \<noteq> 0
        then rbind (bfree sb (unat (addrs ip i)) d) (\<lambda>d. Inr (ip\<lparr>addrs := (addrs ip)(i := 0)\<rparr>, d))
        else Inr (ip, d)) [0..<NDIRECT] (ip, d)) (\<lambda>(ip, d).
    rbind (if addrs ip NDIRECT \<noteq> 0 then
        rbind (rfold (\<lambda>j d. if d (unat (addrs ip NDIRECT)) j \<noteq> 0
          then bfree sb (unat (d (unat (addrs ip NDIRECT)) j)) d else Inr d) [0..<NINDIRECT] d) (\<lambda>d.
        rbind (bfree sb (unat (addrs ip NDIRECT)) d) (\<lambda>d. Inr (ip\<lparr>addrs := (addrs ip)(NDIRECT := 0)\<rparr>, d)))
      else Inr (ip, d)) (\<lambda>(ip, d).
    let ip = ip\<lparr>i_size := 0\<rparr> in Inr (ip, iupdate sb ip d)))"

section \<open>Invariants\<close>

definition used :: "superblock \<Rightarrow> nat \<Rightarrow> fsdisk \<Rightarrow> bool" where
  "used sb b d = bit_at (BBLOCK b sb) (b mod BPB) d"

text \<open>The first block behind the bitmap; all blocks before it hold metadata.\<close>

definition data_start :: "superblock \<Rightarrow> nat" where
  "data_start sb = sb_bmapstart sb + sb_size sb div BPB + 1"

definition data_block :: "superblock \<Rightarrow> nat \<Rightarrow> bool" where
  "data_block sb b \<longleftrightarrow> data_start sb \<le> b \<and> b < sb_size sb"

definition bitmap_ok :: "superblock \<Rightarrow> fsdisk \<Rightarrow> bool" where
  "bitmap_ok sb d \<longleftrightarrow> sb_size sb < 2 ^ 32 \<and> data_start sb \<le> sb_size sb \<and> (\<forall>b < data_start sb. used sb b d)"

definition free_blocks :: "superblock \<Rightarrow> fsdisk \<Rightarrow> nat set" where
  "free_blocks sb d = {b. b < sb_size sb \<and> \<not> used sb b d}"

definition balloc_opt :: "superblock \<Rightarrow> fsdisk \<Rightarrow> nat option \<times> fsdisk" where
  "balloc_opt sb d = (let (b, d) = balloc sb d in (if b = 0 then None else Some b, d))"

section \<open>The bitmap as an allocator\<close>

lemma bit_address: "b div BPB = c div BPB \<Longrightarrow> b mod BPB div 32 = c mod BPB div 32 \<Longrightarrow> b mod BPB mod 32 = c mod BPB mod 32 \<Longrightarrow> b = c"
  by (metis div_mult_mod_eq)

lemma used_mark: "used sb c (mark (BBLOCK b sb) (b mod BPB) d) \<longleftrightarrow> c = b \<or> used sb c d"
proof -
  have "b mod BPB mod 32 < 32" by simp
  then show ?thesis
    using bit_address[of b c] by (auto simp: used_def bit_at_def mark_def BBLOCK_def bit_set_bit_iff)
qed

lemma used_unmark: "used sb c (unmark (BBLOCK b sb) (b mod BPB) d) \<longleftrightarrow> c \<noteq> b \<and> used sb c d"
  using bit_address[of b c] by (auto simp: used_def bit_at_def unmark_def BBLOCK_def bit_unset_bit_iff)

lemma used_other: "(\<And>x. x < data_start sb \<Longrightarrow> d' x = d x) \<Longrightarrow> c < sb_size sb \<Longrightarrow> used sb c d' \<longleftrightarrow> used sb c d"
proof -
  assume "\<And>x. x < data_start sb \<Longrightarrow> d' x = d x" "c < sb_size sb"
  moreover from this(2) have "c div BPB \<le> sb_size sb div BPB" by (intro div_le_mono) simp
  then have "BBLOCK c sb < data_start sb" by (simp add: BBLOCK_def data_start_def)
  ultimately show ?thesis by (simp add: used_def bit_at_def)
qed

lemma find_Some_upt: "find P [0..<n] = Some i \<Longrightarrow> i < n \<and> P i \<and> (\<forall>j < i. \<not> P j)"
  by (auto simp: find_Some_iff)

lemma find_None_upt: "find P [0..<n] = None \<Longrightarrow> j < n \<Longrightarrow> \<not> P j"
  by (auto simp: find_None_iff)

text \<open>The nested loops find the first clear bit of the whole map.\<close>

lemma balloc_from_spec:
  assumes "b mod BPB = 0" "\<forall>c < b. c < sb_size sb \<longrightarrow> used sb c d"
  shows "(\<forall>c < sb_size sb. used sb c d) \<and> balloc_from sb b d = (0, d) \<or>
    (\<exists>c < sb_size sb. \<not> used sb c d \<and> balloc_from sb b d = (c, bzero c (mark (BBLOCK c sb) (c mod BPB) d)))"
  using assms
proof (induction sb b d rule: balloc_from.induct)
  case (1 sb b d)
  have at: "BBLOCK (b + bi) sb = BBLOCK b sb" "(b + bi) mod BPB = bi" if "bi < BPB" for bi
  proof -
    obtain q where q: "b = q * BPB" using 1(2) by (metis dvd_def mod_eq_0_iff_dvd mult.commute)
    show "BBLOCK (b + bi) sb = BBLOCK b sb" "(b + bi) mod BPB = bi" using that by (simp_all add: q BBLOCK_def)
  qed
  show ?case
  proof (cases "b < sb_size sb")
    case True
    let ?P = "\<lambda>bi. b + bi < sb_size sb \<and> \<not> bit_at (BBLOCK b sb) bi d"
    show ?thesis
    proof (cases "find ?P [0..<BPB]")
      case None
      have "used sb c d" if "c < b + BPB" "c < sb_size sb" for c
      proof (cases "c < b")
        case False
        then obtain bi where bi: "c = b + bi" "bi < BPB" using \<open>c < b + BPB\<close> by (metis le_add_diff_inverse nat_add_left_cancel_less not_less)
        with find_None_upt[OF None bi(2)] that(2) show ?thesis by (simp add: used_def at)
      qed (use 1(3) that in blast)
      then have all: "\<forall>c < b + BPB. c < sb_size sb \<longrightarrow> used sb c d" by blast
      moreover have "balloc_from sb b d = balloc_from sb (b + BPB) d" using True None by (subst balloc_from.simps) simp
      moreover have "(b + BPB) mod BPB = 0" using 1(2) by simp
      ultimately show ?thesis using 1(1)[OF True None] by simp
    next
      case (Some bi)
      from find_Some_upt[OF this] have bi: "bi < BPB" "b + bi < sb_size sb" "\<not> bit_at (BBLOCK b sb) bi d" by auto
      have "balloc_from sb b d = (b + bi, bzero (b + bi) (mark (BBLOCK b sb) bi d))" using True Some by (subst balloc_from.simps) simp
      with bi show ?thesis by (intro disjI2 exI[of _ "b + bi"]) (simp add: used_def at)
    qed
  next
    case False
    then show ?thesis using 1(3) by (subst balloc_from.simps) auto
  qed
qed

lemma balloc_cases:
  assumes "bitmap_ok sb d"
  obtains "balloc sb d = (0, d)" "free_blocks sb d = {}"
  | b where "balloc sb d = (b, bzero b (mark (BBLOCK b sb) (b mod BPB) d))" "data_block sb b" "\<not> used sb b d"
proof -
  from balloc_from_spec[of 0 sb d] consider "\<forall>c < sb_size sb. used sb c d" "balloc sb d = (0, d)"
    | b where "b < sb_size sb" "\<not> used sb b d" "balloc sb d = (b, bzero b (mark (BBLOCK b sb) (b mod BPB) d))"
    by (auto simp: balloc_def)
  then show ?thesis
  proof cases
    case 1
    then show ?thesis using that(1) by (auto simp: free_blocks_def)
  next
    case 2
    then have "data_start sb \<le> b" using assms by (auto simp: bitmap_ok_def intro: leI)
    with 2 show ?thesis using that(2) by (simp add: data_block_def)
  qed
qed

lemma bitmap_below: "b < sb_size sb \<Longrightarrow> BBLOCK b sb < data_start sb"
  using div_le_mono[of b "sb_size sb" BPB] by (simp add: BBLOCK_def data_start_def)

lemma used_bzero: "data_block sb b \<Longrightarrow> c < sb_size sb \<Longrightarrow> used sb c (bzero b d) \<longleftrightarrow> used sb c d"
  by (rule used_other) (auto simp: data_block_def bzero_def)

text \<open>The effect of an allocation and of a release on the map and on the other blocks.\<close>

definition allocated :: "superblock \<Rightarrow> nat \<Rightarrow> fsdisk \<Rightarrow> fsdisk \<Rightarrow> bool" where
  "allocated sb b d d' \<longleftrightarrow> data_block sb b \<and> \<not> used sb b d \<and> (\<forall>c < sb_size sb. used sb c d' \<longleftrightarrow> c = b \<or> used sb c d) \<and>
     d' b = (\<lambda>_. 0) \<and> (\<forall>c. data_start sb \<le> c \<longrightarrow> c \<noteq> b \<longrightarrow> d' c = d c)"

lemma balloc_allocated:
  assumes "bitmap_ok sb d" "balloc sb d = (b, d')" "b \<noteq> 0"
  shows "allocated sb b d d'"
  using assms(1)
proof (cases rule: balloc_cases)
  case (2 c)
  then have "b = c" "d' = bzero b (mark (BBLOCK b sb) (b mod BPB) d)" using assms(2) by auto
  moreover have "BBLOCK b sb < data_start sb" using 2 \<open>b = c\<close> by (intro bitmap_below) (simp add: data_block_def)
  ultimately show ?thesis using 2 by (auto simp: allocated_def used_bzero used_mark) (auto simp: bzero_def mark_def)
qed (use assms in simp)

lemma balloc_fails:
  assumes "bitmap_ok sb d" "balloc sb d = (0, d')"
  shows "d' = d \<and> free_blocks sb d = {}"
  using assms(1)
proof (cases rule: balloc_cases)
  case (2 c)
  then show ?thesis using assms(2) by (auto simp: data_block_def data_start_def)
qed (use assms in simp)

lemma allocated_ok: "bitmap_ok sb d \<Longrightarrow> allocated sb b d d' \<Longrightarrow> bitmap_ok sb d'"
  by (auto simp: bitmap_ok_def allocated_def)

lemma allocated_free: "allocated sb b d d' \<Longrightarrow> free_blocks sb d' = free_blocks sb d - {b}"
  by (auto simp: free_blocks_def allocated_def)

lemma bfree_ok:
  assumes "bitmap_ok sb d" "data_block sb b" "used sb b d"
  shows "\<exists>d'. bfree sb b d = Inr d' \<and> bitmap_ok sb d' \<and> free_blocks sb d' = insert b (free_blocks sb d) \<and>
    (\<forall>c < sb_size sb. used sb c d' \<longleftrightarrow> c \<noteq> b \<and> used sb c d) \<and> (\<forall>c. data_start sb \<le> c \<or> c < sb_bmapstart sb \<longrightarrow> d' c = d c)"
proof -
  let ?d = "unmark (BBLOCK b sb) (b mod BPB) d"
  have b: "b < sb_size sb" "data_start sb \<le> b" using assms(2) by (simp_all add: data_block_def)
  have "bfree sb b d = Inr ?d" using assms(3) by (simp add: bfree_def used_def)
  moreover have "bitmap_ok sb ?d" using assms(1) b by (auto simp: bitmap_ok_def used_unmark)
  moreover have "free_blocks sb ?d = insert b (free_blocks sb d)" using b by (auto simp: free_blocks_def used_unmark)
  moreover have "\<forall>c. data_start sb \<le> c \<or> c < sb_bmapstart sb \<longrightarrow> ?d c = d c"
    using bitmap_below[OF b(1)] by (auto simp: unmark_def BBLOCK_def)
  ultimately show ?thesis by (auto simp: used_unmark)
qed

interpretation blocks: allocator "bitmap_ok sb" "free_blocks sb" "balloc_opt sb" "bfree sb" "data_block sb"
proof
  fix d b d'
  assume "bitmap_ok sb d" "balloc_opt sb d = (Some b, d')"
  then have "bitmap_ok sb d" "allocated sb b d d'"
    by (auto simp: balloc_opt_def split: prod.splits if_splits intro: balloc_allocated)
  then show "bitmap_ok sb d' \<and> b \<in> free_blocks sb d \<and> data_block sb b \<and> free_blocks sb d' = free_blocks sb d - {b}"
    by (auto simp: allocated_ok allocated_free) (auto simp: allocated_def free_blocks_def data_block_def)
next
  fix d d'
  assume "bitmap_ok sb d" "balloc_opt sb d = (None, d')"
  then show "d' = d \<and> free_blocks sb d = {}"
    using balloc_fails by (auto simp: balloc_opt_def split: prod.splits if_splits)
next
  fix d b
  assume "bitmap_ok sb d" "data_block sb b" "b \<notin> free_blocks sb d"
  then show "\<exists>d'. bfree sb b d = Inr d' \<and> bitmap_ok sb d' \<and> free_blocks sb d' = insert b (free_blocks sb d)"
    using bfree_ok[of sb d b] by (auto simp: free_blocks_def data_block_def)
qed

section \<open>The block map of an inode\<close>

text \<open>
  The block numbers an inode refers to, by position: the twelve direct ones, the indirect block,
  and the entries of the indirect block. Zero stands for no block.
\<close>

definition NREFS :: nat where "NREFS = NDIRECT + 1 + NINDIRECT"

definition ref :: "inode \<Rightarrow> fsdisk \<Rightarrow> nat \<Rightarrow> nat" where
  "ref ip d k = (if k \<le> NDIRECT then unat (addrs ip k)
     else if addrs ip NDIRECT = 0 then 0 else unat (d (unat (addrs ip NDIRECT)) (k - NDIRECT - 1)))"

definition refs :: "inode \<Rightarrow> fsdisk \<Rightarrow> nat set" where
  "refs ip d = ref ip d ` {..<NREFS} - {0}"

definition file_block :: "inode \<Rightarrow> fsdisk \<Rightarrow> nat \<Rightarrow> nat" where
  "file_block ip d bn = ref ip d (if bn < NDIRECT then bn else bn + 1)"

definition inode_ok :: "superblock \<Rightarrow> inode \<Rightarrow> fsdisk \<Rightarrow> bool" where
  "inode_ok sb ip d \<longleftrightarrow>
     (\<forall>k < NREFS. ref ip d k \<noteq> 0 \<longrightarrow> data_block sb (ref ip d k) \<and> used sb (ref ip d k) d) \<and>
     (\<forall>k < NREFS. \<forall>l < NREFS. ref ip d k = ref ip d l \<longrightarrow> ref ip d k \<noteq> 0 \<longrightarrow> k = l)"

lemma inode_ok_upd:
  assumes "inode_ok sb ip d" "allocated sb b d d1" "k < NREFS"
    and "\<And>j. j < NREFS \<Longrightarrow> ref ip' d' j = (if j = k then b else ref ip d j)"
    and "\<And>c. c < sb_size sb \<Longrightarrow> used sb c d' \<longleftrightarrow> used sb c d1"
  shows "inode_ok sb ip' d'"
  unfolding inode_ok_def
proof (intro conjI allI impI)
  fix j assume j: "j < NREFS" "ref ip' d' j \<noteq> 0"
  then show "data_block sb (ref ip' d' j)" "used sb (ref ip' d' j) d'"
    using assms(1,2,5) unfolding assms(4)[OF j(1)]
    by (auto simp: inode_ok_def allocated_def data_block_def split: if_splits)
next
  fix j l assume l: "j < NREFS" "l < NREFS" "ref ip' d' j = ref ip' d' l" "ref ip' d' j \<noteq> 0"
  have "ref ip d i \<noteq> b" if "i < NREFS" for i
    using assms(1,2) that by (auto simp: inode_ok_def allocated_def data_block_def data_start_def)
  then show "j = l" using l assms(1) unfolding assms(4)[OF l(1)] assms(4)[OF l(2)]
    by (auto simp: inode_ok_def split: if_splits)
qed

lemma indirect_kept:
  assumes "inode_ok sb ip d" "allocated sb b d d1" "addrs ip NDIRECT \<noteq> 0"
  shows "d1 (unat (addrs ip NDIRECT)) = d (unat (addrs ip NDIRECT))" "data_block sb (unat (addrs ip NDIRECT))"
    "unat (addrs ip NDIRECT) \<noteq> b"
proof -
  have "ref ip d NDIRECT = unat (addrs ip NDIRECT)" "NDIRECT < NREFS" by (simp_all add: ref_def NREFS_def)
  moreover have "unat (addrs ip NDIRECT) \<noteq> 0" using assms(3) by (simp add: unat_eq_0)
  ultimately have "data_block sb (unat (addrs ip NDIRECT))" "used sb (unat (addrs ip NDIRECT)) d"
    using assms(1) unfolding inode_ok_def by metis+
  then show "d1 (unat (addrs ip NDIRECT)) = d (unat (addrs ip NDIRECT))" "data_block sb (unat (addrs ip NDIRECT))"
    "unat (addrs ip NDIRECT) \<noteq> b"
    using assms(2) by (auto simp: allocated_def data_block_def)
qed

lemma block_fits: "bitmap_ok sb d \<Longrightarrow> data_block sb b \<Longrightarrow> unat (of_nat b :: 32 word) = b"
  by (simp add: bitmap_ok_def data_block_def unat_of_nat take_bit_nat_eq_self)

text \<open>Storing a fresh block at a position of the inode itself, and in its indirect block.\<close>

lemma store_direct:
  assumes "bitmap_ok sb d" "inode_ok sb ip d" "allocated sb b d d1" "k \<le> NDIRECT" "addrs ip k = 0"
  defines "ip' \<equiv> ip\<lparr>addrs := (addrs ip)(k := of_nat b)\<rparr>"
  shows "inode_ok sb ip' d1" "\<And>j. j < NREFS \<Longrightarrow> ref ip' d1 j = (if j = k then b else ref ip d j)"
proof -
  have b: "unat (of_nat b :: 32 word) = b" "data_block sb b" "d1 b = (\<lambda>_. 0)"
    using assms(1,3) block_fits by (auto simp: allocated_def)
  then have b0: "(of_nat b :: 32 word) \<noteq> 0" by (metis data_block_def data_start_def unat_0 not_one_le_zero add_is_0 le_zero_eq zero_neq_one)
  show r: "ref ip' d1 j = (if j = k then b else ref ip d j)" if "j < NREFS" for j
  proof (cases "j \<le> NDIRECT")
    case True
    then show ?thesis by (simp add: ref_def ip'_def b)
  next
    case False
    show ?thesis
    proof (cases "k = NDIRECT")
      case True
      then show ?thesis using False assms(5) b b0 by (simp add: ref_def ip'_def)
    next
      case ne: False
      then show ?thesis using False assms(4) indirect_kept(1)[OF assms(2,3)] by (auto simp: ref_def ip'_def)
    qed
  qed
  show "inode_ok sb ip' d1"
    using assms(4) by (intro inode_ok_upd[OF assms(2,3) _ r]) (auto simp: NREFS_def)
qed

lemma store_indirect:
  assumes "bitmap_ok sb d" "inode_ok sb ip d" "allocated sb b d d1" "j0 < NINDIRECT" "addrs ip NDIRECT \<noteq> 0"
  defines "a \<equiv> unat (addrs ip NDIRECT)"
  defines "d' \<equiv> d1(a := (d1 a)(j0 := of_nat b))"
  shows "inode_ok sb ip d'" "\<And>j. j < NREFS \<Longrightarrow> ref ip d' j = (if j = NDIRECT + 1 + j0 then b else ref ip d j)"
    "\<And>c. c < sb_size sb \<Longrightarrow> used sb c d' \<longleftrightarrow> used sb c d1"
proof -
  have b: "unat (of_nat b :: 32 word) = b" using assms(1,3) block_fits by (auto simp: allocated_def)
  note ind = indirect_kept[OF assms(2,3,5), folded a_def]
  show r: "ref ip d' j = (if j = NDIRECT + 1 + j0 then b else ref ip d j)" if "j < NREFS" for j
    using assms(5) ind(1) b by (auto simp: ref_def d'_def a_def[symmetric])
  show u: "used sb c d' \<longleftrightarrow> used sb c d1" if "c < sb_size sb" for c
    using that ind(2) by (intro used_other) (auto simp: d'_def data_block_def)
  show "inode_ok sb ip d'"
    using assms(4) by (intro inode_ok_upd[OF assms(2,3) _ r u]) (auto simp: NREFS_def)
qed

text \<open>
  What looking up block \<open>bn\<close> promises: the block it returns is the one the inode now has there,
  no other block of the file changes place, and it fails only on a full disk.
\<close>

definition mapped :: "superblock \<Rightarrow> inode \<Rightarrow> fsdisk \<Rightarrow> nat \<Rightarrow> nat \<Rightarrow> inode \<Rightarrow> fsdisk \<Rightarrow> bool" where
  "mapped sb ip d bn a ip' d' \<longleftrightarrow> bitmap_ok sb d' \<and> inode_ok sb ip' d' \<and>
     (if a = 0 then free_blocks sb d' = {} else file_block ip' d' bn = a \<and> data_block sb a) \<and>
     (\<forall>bn' < NDIRECT + NINDIRECT. bn' \<noteq> bn \<longrightarrow> file_block ip' d' bn' = file_block ip d bn') \<and>
     (file_block ip d bn \<noteq> 0 \<longrightarrow> a = file_block ip d bn \<and> ip' = ip \<and> d' = d)"

lemma mapped_same:
  assumes "bitmap_ok sb d" "inode_ok sb ip d" "file_block ip d bn = a" "a \<noteq> 0" "bn < NDIRECT + NINDIRECT"
  shows "mapped sb ip d bn a ip d"
proof -
  have "(if bn < NDIRECT then bn else bn + 1) < NREFS" using assms(5) by (auto simp: NREFS_def)
  then have "data_block sb a" using assms(2,3,4) unfolding inode_ok_def file_block_def by metis
  with assms show ?thesis by (simp add: mapped_def)
qed

lemma bmap_direct:
  assumes "bitmap_ok sb d" "inode_ok sb ip d" "bn < NDIRECT"
  shows "\<exists>a ip' d'. bmap sb ip bn d = Inr (a, ip', d') \<and> mapped sb ip d bn a ip' d'"
proof (cases "addrs ip bn = 0")
  case True
  obtain b d1 where b: "balloc sb d = (b, d1)" by (cases "balloc sb d")
  have fb: "file_block ip d bn = 0" using True assms(3) by (simp add: file_block_def ref_def)
  show ?thesis
  proof (cases "b = 0")
    case True': True
    then have "d1 = d" "free_blocks sb d = {}" using balloc_fails[OF assms(1)] b by auto
    moreover have "bmap sb ip bn d = Inr (0, ip, d1)" using True True' b assms(3) by (simp add: bmap_def)
    ultimately show ?thesis using assms fb by (simp add: mapped_def)
  next
    case False
    note al = balloc_allocated[OF assms(1) b False]
    let ?ip = "ip\<lparr>addrs := (addrs ip)(bn := of_nat b)\<rparr>"
    have st: "inode_ok sb ?ip d1" "\<And>j. j < NREFS \<Longrightarrow> ref ?ip d1 j = (if j = bn then b else ref ip d j)"
      using store_direct[OF assms(1,2) al _ True] assms(3) by auto
    have "file_block ?ip d1 bn' = (if bn' = bn then b else file_block ip d bn')" if "bn' < NDIRECT + NINDIRECT" for bn'
      using that assms(3) st(2) by (auto simp: file_block_def NREFS_def)
    moreover have "data_block sb b" using al by (simp add: allocated_def)
    ultimately have "mapped sb ip d bn b ?ip d1"
      using st(1) allocated_ok[OF assms(1) al] False fb assms(3) by (simp add: mapped_def)
    moreover have "bmap sb ip bn d = Inr (b, ?ip, d1)" using True False b assms(3) by (simp add: bmap_def)
    ultimately show ?thesis by blast
  qed
next
  case False
  then have "bmap sb ip bn d = Inr (file_block ip d bn, ip, d)" "file_block ip d bn \<noteq> 0"
    using assms(3) by (simp_all add: bmap_def file_block_def ref_def unat_eq_0)
  with mapped_same[OF assms(1,2) refl] assms(3) show ?thesis by (metis trans_less_add1)
qed

definition with_indirect :: "superblock \<Rightarrow> inode \<Rightarrow> fsdisk \<Rightarrow> nat \<times> inode \<times> fsdisk" where
  "with_indirect sb ip d =
    (if addrs ip NDIRECT = 0 then
       let (addr, d) = balloc sb d in
       if addr = 0 then (0, ip, d) else (addr, ip\<lparr>addrs := (addrs ip)(NDIRECT := of_nat addr)\<rparr>, d)
     else (unat (addrs ip NDIRECT), ip, d))"

lemma with_indirect_ok:
  assumes "bitmap_ok sb d" "inode_ok sb ip d" "with_indirect sb ip d = (a, ip1, d1)"
  shows "a = 0 \<and> ip1 = ip \<and> d1 = d \<and> free_blocks sb d = {} \<and> addrs ip NDIRECT = 0 \<or>
    bitmap_ok sb d1 \<and> inode_ok sb ip1 d1 \<and> addrs ip1 NDIRECT \<noteq> 0 \<and> a = unat (addrs ip1 NDIRECT) \<and> a \<noteq> 0 \<and>
    (\<forall>j < NREFS. j \<noteq> NDIRECT \<longrightarrow> ref ip1 d1 j = ref ip d j) \<and> (addrs ip NDIRECT \<noteq> 0 \<longrightarrow> ip1 = ip \<and> d1 = d)"
proof (cases "addrs ip NDIRECT = 0")
  case True
  obtain b d2 where b: "balloc sb d = (b, d2)" by (cases "balloc sb d")
  show ?thesis
  proof (cases "b = 0")
    case True': True
    then show ?thesis using True b assms balloc_fails[OF assms(1)] by (auto simp: with_indirect_def)
  next
    case False
    note al = balloc_allocated[OF assms(1) b False]
    have eq: "a = b" "ip1 = ip\<lparr>addrs := (addrs ip)(NDIRECT := of_nat b)\<rparr>" "d1 = d2"
      using assms(3) True False b by (auto simp: with_indirect_def)
    have "unat (of_nat b :: 32 word) = b" using block_fits[OF assms(1)] al by (simp add: allocated_def)
    moreover from this have "(of_nat b :: 32 word) \<noteq> 0" using False by (metis unat_0)
    ultimately show ?thesis
      using store_direct[OF assms(1,2) al order.refl True] allocated_ok[OF assms(1) al] True False by (simp add: eq)
  qed
next
  case False
  then show ?thesis using assms by (auto simp: with_indirect_def unat_gt_0)
qed

lemma bmap_indirect:
  assumes "bitmap_ok sb d" "inode_ok sb ip d" "\<not> bn < NDIRECT" "bn < NDIRECT + NINDIRECT"
  shows "\<exists>a ip' d'. bmap sb ip bn d = Inr (a, ip', d') \<and> mapped sb ip d bn a ip' d'"
proof -
  define j where "j = bn - NDIRECT"
  have j: "j < NINDIRECT" "bn = NDIRECT + j" using assms(3,4) by (auto simp: j_def)
  obtain a ip1 d1 where w: "with_indirect sb ip d = (a, ip1, d1)" by (metis prod_cases3)
  have unf: "bmap sb ip bn d = (if a = 0 then Inr (0, ip1, d1)
      else if d1 a j = 0 then
        let (c, d) = balloc sb d1 in
        if c = 0 then Inr (0, ip1, d) else Inr (c, ip1, d(a := (d a)(j := of_nat c)))
      else Inr (unat (d1 a j), ip1, d1))"
    using assms(3) j w by (simp add: bmap_def with_indirect_def[symmetric] j_def[symmetric])
  from with_indirect_ok[OF assms(1,2) w] show ?thesis
  proof
    assume z: "a = 0 \<and> ip1 = ip \<and> d1 = d \<and> free_blocks sb d = {} \<and> addrs ip NDIRECT = 0"
    then have "file_block ip d bn = 0" using j by (simp add: file_block_def ref_def)
    then show ?thesis using z assms(1,2) unf by (simp add: mapped_def)
  next
    assume ok: "bitmap_ok sb d1 \<and> inode_ok sb ip1 d1 \<and> addrs ip1 NDIRECT \<noteq> 0 \<and> a = unat (addrs ip1 NDIRECT) \<and> a \<noteq> 0 \<and>
      (\<forall>j < NREFS. j \<noteq> NDIRECT \<longrightarrow> ref ip1 d1 j = ref ip d j) \<and> (addrs ip NDIRECT \<noteq> 0 \<longrightarrow> ip1 = ip \<and> d1 = d)"
    have keep: "file_block ip1 d1 bn' = file_block ip d bn'" if "bn' < NDIRECT + NINDIRECT" for bn'
      using ok that by (auto simp: file_block_def NREFS_def)
    have entry: "file_block ip1 d1 bn = unat (d1 a j)" using ok j by (simp add: file_block_def ref_def)
    have same: "ip1 = ip \<and> d1 = d" if "file_block ip d bn \<noteq> 0"
      using that ok j by (auto simp: file_block_def ref_def split: if_splits)
    show ?thesis
    proof (cases "d1 a j = 0")
      case True
      obtain c d2 where c: "balloc sb d1 = (c, d2)" by (cases "balloc sb d1")
      have z: "file_block ip d bn = 0" using keep[OF assms(4)] entry True by simp
      show ?thesis
      proof (cases "c = 0")
        case True': True
        then have "d2 = d1" "free_blocks sb d1 = {}" using balloc_fails c ok by auto
        then show ?thesis using True True' c ok keep z unf by (simp add: mapped_def)
      next
        case False
        have al: "allocated sb c d1 d2" using balloc_allocated c ok False by blast
        let ?d = "d2(a := (d2 a)(j := of_nat c))"
        have st: "inode_ok sb ip1 ?d" "\<And>i. i < NREFS \<Longrightarrow> ref ip1 ?d i = (if i = NDIRECT + 1 + j then c else ref ip1 d1 i)"
          "\<And>b. b < sb_size sb \<Longrightarrow> used sb b ?d \<longleftrightarrow> used sb b d2"
          using store_indirect[OF _ _ al j(1), of ip1] ok by auto
        have "bitmap_ok sb ?d" using allocated_ok[OF _ al] ok st(3) by (auto simp: bitmap_ok_def)
        moreover have "file_block ip1 ?d bn' = (if bn' = bn then c else file_block ip1 d1 bn')" if "bn' < NDIRECT + NINDIRECT" for bn'
          using that j st(2) by (auto simp: file_block_def NREFS_def)
        ultimately have "mapped sb ip d bn c ip1 ?d"
          using st(1) False z keep al assms(4) by (simp add: mapped_def allocated_def)
        then show ?thesis using True False c ok unf by simp
      qed
    next
      case False
      then have nz: "file_block ip1 d1 bn \<noteq> 0" using entry by (simp add: unat_eq_0)
      then have "ip1 = ip" "d1 = d" using same keep[OF assms(4)] by auto
      then show ?thesis using mapped_same[OF assms(1,2) refl _ assms(4)] nz entry unf ok False by simp
    qed
  qed
qed

text \<open>
  Looking up a block of a file allocates at most the blocks it needs: the block returned is
  the one the inode has at that position afterwards, all blocks of the file stay distinct, marked
  in use and in the data area, no other block of the file moves, a block that was there is returned
  without any change, and the call fails only when the disk is full.
\<close>

theorem bmap_maps:
  assumes "bitmap_ok sb d" "inode_ok sb ip d" "bn < NDIRECT + NINDIRECT"
  shows "\<exists>a ip' d'. bmap sb ip bn d = Inr (a, ip', d') \<and> bitmap_ok sb d' \<and> inode_ok sb ip' d' \<and>
    (if a = 0 then free_blocks sb d' = {} else file_block ip' d' bn = a \<and> data_block sb a) \<and>
    (\<forall>bn' < NDIRECT + NINDIRECT. bn' \<noteq> bn \<longrightarrow> file_block ip' d' bn' = file_block ip d bn') \<and>
    (file_block ip d bn \<noteq> 0 \<longrightarrow> a = file_block ip d bn \<and> ip' = ip \<and> d' = d)"
  using bmap_direct[OF assms(1,2)] bmap_indirect[OF assms(1,2) _ assms(3)] unfolding mapped_def by blast

definition small_sb :: superblock where
  "small_sb = \<lparr>sb_size = 100, sb_ninodes = 10, sb_inodestart = 2, sb_bmapstart = 3\<rparr>"

definition small_disk :: fsdisk where
  "small_disk = (\<lambda>_ _. 0)(3 := (\<lambda>w. if w = 0 then 15 else 0))"

definition empty_inode :: inode where
  "empty_inode = \<lparr>inum = 1, i_type = 2, i_major = 0, i_minor = 0, i_nlink = 1, i_size = 0, addrs = (\<lambda>_. 0)\<rparr>"

lemma small_ok: "bitmap_ok small_sb small_disk" "inode_ok small_sb empty_inode d"
proof -
  have "used small_sb b small_disk" if "b < 4" for b
  proof -
    have "b \<in> {0, 1, 2, 3}" using that by auto
    then show ?thesis by (auto simp: used_def bit_at_def BBLOCK_def BPB_def small_sb_def small_disk_def)
  qed
  then show "bitmap_ok small_sb small_disk" by (simp add: bitmap_ok_def data_start_def) (simp add: small_sb_def BPB_def)
  show "inode_ok small_sb empty_inode d" by (simp add: inode_ok_def ref_def empty_inode_def)
qed

theorem bmap_maps_witness:
  "\<exists>a ip' d'. bmap small_sb empty_inode 20 small_disk = Inr (a, ip', d') \<and> inode_ok small_sb ip' d' \<and>
    (a \<noteq> 0 \<longrightarrow> file_block ip' d' 20 = a)"
  using bmap_maps[OF small_ok(1) small_ok(2), of 20] by (force simp: NDIRECT_def NINDIRECT_def)

section \<open>Truncation\<close>

definition freed :: "superblock \<Rightarrow> nat set \<Rightarrow> fsdisk \<Rightarrow> fsdisk \<Rightarrow> bool" where
  "freed sb B d d' \<longleftrightarrow> bitmap_ok sb d' \<and> (\<forall>c < sb_size sb. used sb c d' \<longleftrightarrow> c \<notin> B \<and> used sb c d) \<and>
     (\<forall>c. data_start sb \<le> c \<or> c < sb_bmapstart sb \<longrightarrow> d' c = d c)"

lemma freed_insert:
  assumes "freed sb B d d1" "data_block sb b" "used sb b d" "b \<notin> B"
  shows "\<exists>d2. bfree sb b d1 = Inr d2 \<and> freed sb (insert b B) d d2"
proof -
  have "used sb b d1" using assms by (simp add: freed_def data_block_def)
  with bfree_ok[of sb d1 b] assms show ?thesis by (auto simp: freed_def)
qed

lemma ref_fresh:
  assumes "inode_ok sb ip d" "k < NREFS" "ref ip d k \<noteq> 0" "K \<subseteq> {..<NREFS}" "k \<notin> K"
  shows "data_block sb (ref ip d k)" "used sb (ref ip d k) d" "ref ip d k \<notin> ref ip d ` K - {0}"
  using assms unfolding inode_ok_def by blast+

lemma itrunc_direct:
  assumes "bitmap_ok sb d" "inode_ok sb ip d" "k \<le> NDIRECT"
  shows "\<exists>d'. rfold (\<lambda>i (ip, d). if addrs ip i \<noteq> 0
        then rbind (bfree sb (unat (addrs ip i)) d) (\<lambda>d. Inr (ip\<lparr>addrs := (addrs ip)(i := 0)\<rparr>, d))
        else Inr (ip, d)) [0..<k] (ip, d) = Inr (ip\<lparr>addrs := (\<lambda>i. if i < k then 0 else addrs ip i)\<rparr>, d') \<and>
    freed sb (ref ip d ` {..<k} - {0}) d d'"
  using assms(3)
proof (induction k)
  case 0
  then show ?case using assms(1) by (simp add: freed_def)
next
  case (Suc k)
  let ?ip = "ip\<lparr>addrs := (\<lambda>i. if i < k then 0 else addrs ip i)\<rparr>"
  from Suc obtain d1 where d1: "rfold (\<lambda>i (ip, d). if addrs ip i \<noteq> 0
        then rbind (bfree sb (unat (addrs ip i)) d) (\<lambda>d. Inr (ip\<lparr>addrs := (addrs ip)(i := 0)\<rparr>, d))
        else Inr (ip, d)) [0..<k] (ip, d) = Inr (?ip, d1)" "freed sb (ref ip d ` {..<k} - {0}) d d1" by auto
  have r: "ref ip d k = unat (addrs ip k)" using Suc.prems by (simp add: ref_def)
  have k: "k < NREFS" "{..<k} \<subseteq> {..<NREFS}" using Suc.prems by (auto simp: NREFS_def)
  have upd: "?ip\<lparr>addrs := (addrs ?ip)(k := 0)\<rparr> = ip\<lparr>addrs := (\<lambda>i. if i < Suc k then 0 else addrs ip i)\<rparr>"
    by (simp add: fun_eq_iff less_Suc_eq)
  show ?case
  proof (cases "addrs ip k = 0")
    case True
    then have "(\<lambda>i. if i < k then 0 else addrs ip i) = (\<lambda>i. if i < Suc k then 0 else addrs ip i)"
      by (auto simp: fun_eq_iff less_Suc_eq)
    then have "?ip = ip\<lparr>addrs := (\<lambda>i. if i < Suc k then 0 else addrs ip i)\<rparr>" by simp
    moreover have "ref ip d ` {..<Suc k} - {0} = ref ip d ` {..<k} - {0}" using True r by (auto simp: lessThan_Suc)
    ultimately show ?thesis using d1 True by (simp add: rfold_snoc)
  next
    case False
    then have nz: "ref ip d k \<noteq> 0" using r by (simp add: unat_eq_0)
    obtain d2 where d2: "bfree sb (ref ip d k) d1 = Inr d2" "freed sb (insert (ref ip d k) (ref ip d ` {..<k} - {0})) d d2"
      using freed_insert[OF d1(2)] ref_fresh[OF assms(2) k(1) nz k(2)] by auto
    moreover have "ref ip d ` {..<Suc k} - {0} = insert (ref ip d k) (ref ip d ` {..<k} - {0})"
      using nz by (auto simp: lessThan_Suc)
    ultimately show ?thesis using d1 False r upd by (simp add: rfold_snoc)
  qed
qed

lemma itrunc_indirect:
  assumes "inode_ok sb ip d" "freed sb B d d1" "B = ref ip d ` {..<NDIRECT} - {0}" "addrs ip NDIRECT \<noteq> 0" "k \<le> NINDIRECT"
  defines "a \<equiv> unat (addrs ip NDIRECT)"
  shows "\<exists>d'. rfold (\<lambda>j d. if d a j \<noteq> 0 then bfree sb (unat (d a j)) d else Inr d) [0..<k] d1 = Inr d' \<and>
    freed sb (ref ip d ` ({..<NDIRECT} \<union> {NDIRECT + 1..<NDIRECT + 1 + k}) - {0}) d d'"
  using assms(5)
proof (induction k)
  case 0
  then show ?case using assms(2,3) by simp
next
  case (Suc k)
  let ?K = "{..<NDIRECT} \<union> {NDIRECT + 1..<NDIRECT + 1 + k}" and ?p = "NDIRECT + 1 + k"
  from Suc obtain d2 where d2: "rfold (\<lambda>j d. if d a j \<noteq> 0 then bfree sb (unat (d a j)) d else Inr d) [0..<k] d1 = Inr d2"
    "freed sb (ref ip d ` ?K - {0}) d d2" by auto
  have "ref ip d NDIRECT = a" by (simp add: ref_def a_def)
  moreover have "a \<noteq> 0" using assms(4) by (simp add: a_def unat_eq_0)
  ultimately have "data_block sb a" using ref_fresh(1)[OF assms(1), of NDIRECT "{}"] by (simp add: NREFS_def)
  then have da: "d2 a = d a" using d2(2) by (simp add: freed_def data_block_def)
  have r: "ref ip d ?p = unat (d a k)" using assms(4) by (simp add: ref_def a_def)
  have K: "?p < NREFS" "?K \<subseteq> {..<NREFS}" "?p \<notin> ?K" using Suc.prems by (auto simp: NREFS_def)
  have ins: "{..<NDIRECT} \<union> {NDIRECT + 1..<NDIRECT + 1 + Suc k} = insert ?p ?K" by auto
  show ?case
  proof (cases "d a k = 0")
    case True
    then have "ref ip d ` (insert ?p ?K) - {0} = ref ip d ` ?K - {0}" using r by auto
    then show ?thesis using d2 True da unfolding ins by (simp add: rfold_snoc)
  next
    case False
    then have nz: "ref ip d ?p \<noteq> 0" using r by (simp add: unat_eq_0)
    obtain d3 where "bfree sb (ref ip d ?p) d2 = Inr d3" "freed sb (insert (ref ip d ?p) (ref ip d ` ?K - {0})) d d3"
      using freed_insert[OF d2(2)] ref_fresh[OF assms(1) K(1) nz K(2,3)] by blast
    moreover have "ref ip d ` (insert ?p ?K) - {0} = insert (ref ip d ?p) (ref ip d ` ?K - {0})" using nz by auto
    ultimately show ?thesis using d2 False da r unfolding ins by (simp add: rfold_snoc)
  qed
qed

lemma iupdate_frame:
  assumes "IBLOCK (inum ip) sb < sb_bmapstart sb"
  shows "used sb c (iupdate sb ip d) = used sb c d"
  using assms by (auto simp: used_def bit_at_def iupdate_def Let_def BBLOCK_def)

text \<open>The inode that is left.\<close>

definition emptied :: "inode \<Rightarrow> inode" where
  "emptied ip = ip\<lparr>addrs := (\<lambda>i. if i \<le> NDIRECT then 0 else addrs ip i), i_size := 0\<rparr>"

lemma emptied_simps [simp]:
  "inum (emptied ip) = inum ip" "i_type (emptied ip) = i_type ip" "i_size (emptied ip) = 0" "refs (emptied ip) d = {}"
  by (auto simp: emptied_def refs_def ref_def)

lemma refs_direct:
  assumes "addrs ip NDIRECT = 0"
  shows "refs ip d = ref ip d ` {..<NDIRECT} - {0}"
proof -
  have z: "ref ip d k = 0" if "NDIRECT \<le> k" for k
    using that assms by (cases "k = NDIRECT") (simp_all add: ref_def)
  have "{..<NREFS} = {..<NDIRECT} \<union> {NDIRECT..<NREFS}" by (auto simp: NREFS_def)
  then have "refs ip d = (ref ip d ` {..<NDIRECT} - {0}) \<union> (ref ip d ` {NDIRECT..<NREFS} - {0})"
    unfolding refs_def by (simp only: image_Un Un_Diff)
  moreover have "ref ip d ` {NDIRECT..<NREFS} - {0} = {}" using z by auto
  ultimately show ?thesis by simp
qed

lemma itrunc_ok:
  assumes "bitmap_ok sb d" "inode_ok sb ip d"
  shows "\<exists>d2. itrunc sb ip d = Inr (emptied ip, iupdate sb (emptied ip) d2) \<and> freed sb (refs ip d) d d2"
proof -
  let ?ip = "ip\<lparr>addrs := (\<lambda>i. if i < NDIRECT then 0 else addrs ip i)\<rparr>"
  obtain d1 where d1: "rfold (\<lambda>i (ip, d). if addrs ip i \<noteq> 0
        then rbind (bfree sb (unat (addrs ip i)) d) (\<lambda>d. Inr (ip\<lparr>addrs := (addrs ip)(i := 0)\<rparr>, d))
        else Inr (ip, d)) [0..<NDIRECT] (ip, d) = Inr (?ip, d1)" "freed sb (ref ip d ` {..<NDIRECT} - {0}) d d1"
    using itrunc_direct[OF assms(1,2) order.refl] by auto
  show ?thesis
  proof (cases "addrs ip NDIRECT = 0")
    case True
    then have "(\<lambda>i. if i < NDIRECT then 0 else addrs ip i) = (\<lambda>i. if i \<le> NDIRECT then 0 else addrs ip i)"
      by (auto simp: fun_eq_iff le_less)
    then have "?ip\<lparr>i_size := 0\<rparr> = emptied ip" by (simp add: emptied_def)
    then show ?thesis using d1 refs_direct[OF True] True by (auto simp: itrunc_def Let_def)
  next
    case False
    let ?e = "?ip\<lparr>addrs := (addrs ?ip)(NDIRECT := 0)\<rparr>"
    let ?a = "unat (addrs ip NDIRECT)" and ?K = "{..<NDIRECT} \<union> {NDIRECT + 1..<NDIRECT + 1 + NINDIRECT}"
    obtain d2 where d2: "rfold (\<lambda>j d. if d ?a j \<noteq> 0 then bfree sb (unat (d ?a j)) d else Inr d) [0..<NINDIRECT] d1 = Inr d2"
      "freed sb (ref ip d ` ?K - {0}) d d2"
      using itrunc_indirect[OF assms(2) d1(2) refl False order.refl] by auto
    have a: "ref ip d NDIRECT = ?a" "?a \<noteq> 0" "NDIRECT < NREFS" "?K \<subseteq> {..<NREFS}"
      using False by (auto simp: ref_def NREFS_def unat_eq_0)
    obtain d3 where d3: "bfree sb ?a d2 = Inr d3" "freed sb (insert ?a (ref ip d ` ?K - {0})) d d3"
      using freed_insert[OF d2(2)] ref_fresh[OF assms(2) a(3) _ a(4)] a(1,2) by auto
    have "{..<NREFS} = insert NDIRECT ?K" by (auto simp: NREFS_def)
    then have refs: "refs ip d = insert ?a (ref ip d ` ?K - {0})"
      using a(1,2) unfolding refs_def by (simp only: image_insert insert_Diff_if singleton_iff if_False)
    have addr: "addrs ?ip NDIRECT = addrs ip NDIRECT" by simp
    have "(\<lambda>i. if i < NDIRECT then 0 else addrs ip i)(NDIRECT := 0) = (\<lambda>i. if i \<le> NDIRECT then 0 else addrs ip i)"
      by (auto simp: fun_eq_iff le_less)
    then have e: "?e\<lparr>i_size := 0\<rparr> = emptied ip" by (simp add: emptied_def)
    have "itrunc sb ip d = Inr (?e\<lparr>i_size := 0\<rparr>, iupdate sb (?e\<lparr>i_size := 0\<rparr>) d3)"
      unfolding itrunc_def d1(1) rbind.simps prod.case addr d2(1) d3(1) using False by (simp add: Let_def)
    then show ?thesis using d3(2) unfolding refs e by auto
  qed
qed

text \<open>
  Truncating a well-formed inode never panics and gives back exactly the blocks it refers to,
  direct, indirect and the indirect block itself; the inode is empty afterwards.
\<close>

theorem itrunc_frees_all:
  assumes "bitmap_ok sb d" "inode_ok sb ip d" "IBLOCK (inum ip) sb < sb_bmapstart sb"
  shows "\<exists>ip' d'. itrunc sb ip d = Inr (ip', d') \<and> bitmap_ok sb d' \<and>
    free_blocks sb d' = free_blocks sb d \<union> refs ip d \<and> refs ip' d' = {} \<and> i_size ip' = 0"
proof -
  obtain d2 where d2: "itrunc sb ip d = Inr (emptied ip, iupdate sb (emptied ip) d2)" "freed sb (refs ip d) d d2"
    using itrunc_ok[OF assms(1, 2)] by blast
  have u: "used sb c (iupdate sb (emptied ip) d2) = used sb c d2" for c using assms(3) by (intro iupdate_frame) simp
  have "free_blocks sb d2 = free_blocks sb d \<union> refs ip d"
    using d2(2) assms(2) by (auto simp: free_blocks_def freed_def refs_def inode_ok_def data_block_def)
  moreover have "bitmap_ok sb d2" using d2(2) by (simp add: freed_def)
  ultimately show ?thesis using d2(1) by (auto simp: free_blocks_def bitmap_ok_def u)
qed

theorem itrunc_frees_all_witness:
  "\<exists>ip' d'. itrunc small_sb empty_inode small_disk = Inr (ip', d') \<and>
    free_blocks small_sb d' = free_blocks small_sb small_disk \<union> refs empty_inode small_disk"
proof -
  have "IBLOCK (inum empty_inode) small_sb < sb_bmapstart small_sb" by (simp add: IBLOCK_def IPB_def empty_inode_def small_sb_def)
  from itrunc_frees_all[OF small_ok(1) small_ok(2) this] show ?thesis by blast
qed

end
