(* ===== verification/Fs_Files.thy ===== *)
theory Fs_Files
  imports Fs_Blocks
begin

unbundle bit_operations_syntax

text \<open>
  Reading and writing the content of an inode, \<^verbatim>\<open>readi\<close> and \<^verbatim>\<open>writei\<close> of \<^verbatim>\<open>kernel/fs.c\<close>, over the
  blocks of the theory of block maps. Byte \<open>j\<close> of a block is a byte of its little-endian word
  \<open>j div 4\<close>. The copies to and from the caller's memory are parameters: \<open>accept\<close> says whether a chunk
  can be delivered, \<open>fetch\<close> gives the bytes of a chunk and whether all of them could be copied. A file
  is abstracted to the list of its bytes.
\<close>

section \<open>Bytes of a block\<close>

definition BSIZE :: nat where "BSIZE = 1024"

definition MAXFILE :: nat where "MAXFILE = NDIRECT + NINDIRECT"

type_synonym byte = "8 word"

definition get_byte :: "blk \<Rightarrow> nat \<Rightarrow> byte" where
  "get_byte b j = ucast (drop_bit (8 * (j mod 4)) (b (j div 4)))"

definition set_byte :: "nat \<Rightarrow> byte \<Rightarrow> blk \<Rightarrow> blk" where
  "set_byte j v b =
    b(j div 4 := (b (j div 4) AND NOT (push_bit (8 * (j mod 4)) (mask 8))) OR push_bit (8 * (j mod 4)) (ucast v))"

definition get_bytes :: "nat \<Rightarrow> nat \<Rightarrow> blk \<Rightarrow> byte list" where
  "get_bytes off m b = map (get_byte b) [off..<off + m]"

primrec put_bytes :: "nat \<Rightarrow> byte list \<Rightarrow> blk \<Rightarrow> blk" where
  "put_bytes off [] b = b"
| "put_bytes off (v # vs) b = put_bytes (Suc off) vs (set_byte off v b)"

section \<open>Reading and writing\<close>

function readi_loop :: "superblock \<Rightarrow> (nat \<Rightarrow> nat \<Rightarrow> bool) \<Rightarrow> nat \<Rightarrow> nat \<Rightarrow> nat \<Rightarrow> inode \<Rightarrow> fsdisk \<Rightarrow>
    fault + (int \<times> byte list \<times> inode \<times> fsdisk)" where
  "readi_loop sb accept n tot off ip d =
    (if tot < n then
       rbind (bmap sb ip (off div BSIZE) d) (\<lambda>(addr, ip, d).
         if addr = 0 then Inr (int tot, [], ip, d)
         else let m = min (n - tot) (BSIZE - off mod BSIZE) in
           if \<not> accept tot m then Inr (-1, [], ip, d)
           else rbind (readi_loop sb accept n (tot + m) (off + m) ip d) (\<lambda>(r, bs, ip, d').
             Inr (r, get_bytes (off mod BSIZE) m (d addr) @ bs, ip, d')))
     else Inr (int tot, [], ip, d))"
  by auto
termination
  by (relation "measure (\<lambda>(sb, accept, n, tot, off, ip, d). n - tot)") (auto simp: BSIZE_def)

declare readi_loop.simps [simp del]

definition readi :: "superblock \<Rightarrow> (nat \<Rightarrow> nat \<Rightarrow> bool) \<Rightarrow> inode \<Rightarrow> 32 word \<Rightarrow> 32 word \<Rightarrow> fsdisk \<Rightarrow>
    fault + (int \<times> byte list \<times> inode \<times> fsdisk)" where
  "readi sb accept ip off n d =
    (if off > i_size ip \<or> off + n < off then Inr (0, [], ip, d)
     else let n = (if off + n > i_size ip then i_size ip - off else n) in
       readi_loop sb accept (unat n) 0 (unat off) ip d)"

function writei_loop :: "superblock \<Rightarrow> (nat \<Rightarrow> nat \<Rightarrow> byte list \<times> bool) \<Rightarrow> nat \<Rightarrow> nat \<Rightarrow> nat \<Rightarrow> inode \<Rightarrow> fsdisk \<Rightarrow>
    fault + (nat \<times> nat \<times> inode \<times> fsdisk)" where
  "writei_loop sb fetch n tot off ip d =
    (if tot < n then
       rbind (bmap sb ip (off div BSIZE) d) (\<lambda>(addr, ip, d).
         if addr = 0 then Inr (tot, off, ip, d)
         else let m = min (n - tot) (BSIZE - off mod BSIZE); (bs, copied) = fetch tot m;
                  d = d(addr := put_bytes (off mod BSIZE) bs (d addr)) in
           if \<not> copied then Inr (tot, off, ip, d)
           else writei_loop sb fetch n (tot + m) (off + m) ip d)
     else Inr (tot, off, ip, d))"
  by auto
termination
  by (relation "measure (\<lambda>(sb, fetch, n, tot, off, ip, d). n - tot)") (auto simp: BSIZE_def)

declare writei_loop.simps [simp del]

definition writei :: "superblock \<Rightarrow> (nat \<Rightarrow> nat \<Rightarrow> byte list \<times> bool) \<Rightarrow> inode \<Rightarrow> 32 word \<Rightarrow> 32 word \<Rightarrow> fsdisk \<Rightarrow>
    fault + (int \<times> inode \<times> fsdisk)" where
  "writei sb fetch ip off n d =
    (if off > i_size ip \<or> off + n < off then Inr (-1, ip, d)
     else if unat (off + n) > MAXFILE * BSIZE then Inr (-1, ip, d)
     else rbind (writei_loop sb fetch (unat n) 0 (unat off) ip d) (\<lambda>(tot, off, ip, d).
       let ip = (if off > unat (i_size ip) then ip\<lparr>i_size := of_nat off\<rparr> else ip) in
       Inr (int tot, ip, iupdate sb ip d)))"

text \<open>A source in the kernel's own memory, which can always be copied.\<close>

definition from_kernel :: "byte list \<Rightarrow> nat \<Rightarrow> nat \<Rightarrow> byte list \<times> bool" where
  "from_kernel src tot m = (take m (drop tot src), True)"

section \<open>Laws of the bytes\<close>

lemma bit_byte_mask: "bit (mask 8 :: 32 word) k \<longleftrightarrow> k < 8"
  by (auto simp: bit_mask_iff)

lemma bit_get_byte: "bit (get_byte b j) n \<longleftrightarrow> n < 8 \<and> bit (b (j div 4)) (8 * (j mod 4) + n)"
  by (simp add: get_byte_def bit_ucast_iff bit_drop_bit_eq)

lemma bit_set_word:
  fixes w :: "32 word" and v :: byte
  assumes "q < 32"
  shows "bit ((w AND NOT (push_bit p (mask 8))) OR push_bit p (ucast v)) q \<longleftrightarrow>
    (if p \<le> q \<and> q < p + 8 then bit v (q - p) else bit w q)"
  using assms bit_imp_le_length[of v "q - p"]
  by (auto simp: bit_or_iff bit_and_iff bit_not_iff bit_push_bit_iff bit_byte_mask bit_ucast_iff)

lemma get_set_byte: "get_byte (set_byte j v b) i = (if i = j then v else get_byte b i)"
proof (cases "i div 4 = j div 4")
  case True
  then have ij: "i = j \<longleftrightarrow> i mod 4 = j mod 4" by (metis div_mult_mod_eq)
  have m: "i mod 4 < 4" "j mod 4 < 4" by simp_all
  show ?thesis
  proof (rule bit_word_eqI)
    fix n assume n: "n < LENGTH(8)"
    let ?p = "8 * (j mod 4)" and ?q = "8 * (i mod 4) + n"
    have q: "?q < 32" using m n by simp
    have "bit (get_byte (set_byte j v b) i) n \<longleftrightarrow>
        (if ?p \<le> ?q \<and> ?q < ?p + 8 then bit v (?q - ?p) else bit (b (j div 4)) ?q)"
      unfolding bit_get_byte set_byte_def using True n bit_set_word[OF q] by simp
    moreover have "?p \<le> ?q \<and> ?q < ?p + 8 \<longleftrightarrow> i mod 4 = j mod 4" using m n by auto
    ultimately show "bit (get_byte (set_byte j v b) i) n \<longleftrightarrow> bit (if i = j then v else get_byte b i) n"
      using True n ij by (simp add: bit_get_byte)
  qed
qed (auto simp: get_byte_def set_byte_def)

lemma get_put_bytes:
  "get_byte (put_bytes off vs b) i = (if off \<le> i \<and> i < off + length vs then vs ! (i - off) else get_byte b i)"
  by (induction vs arbitrary: off b) (auto simp: get_set_byte nth_Cons')

lemma get_bytes_nth [simp]: "k < m \<Longrightarrow> get_bytes off m b ! k = get_byte b (off + k)"
  and get_bytes_length [simp]: "length (get_bytes off m b) = m"
  by (simp_all add: get_bytes_def)

section \<open>What looking up a block leaves alone\<close>

text \<open>
  From \<open>ip, d\<close> to \<open>ip', d'\<close> only free blocks were taken: used blocks stay used, and all but the
  indirect block keep their content; what the inode refers to is what it did, or was free.
\<close>

definition grows :: "superblock \<Rightarrow> inode \<Rightarrow> fsdisk \<Rightarrow> inode \<Rightarrow> fsdisk \<Rightarrow> bool" where
  "grows sb ip d ip' d' \<longleftrightarrow>
    (\<forall>c < sb_size sb. used sb c d \<longrightarrow> used sb c d') \<and>
    (\<forall>c. data_block sb c \<longrightarrow> used sb c d \<longrightarrow> c \<noteq> unat (addrs ip NDIRECT) \<longrightarrow> d' c = d c) \<and>
    (\<forall>k < NREFS. ref ip' d' k = 0 \<or> ref ip' d' k \<in> refs ip d \<or>
       ref ip' d' k < sb_size sb \<and> \<not> used sb (ref ip' d' k) d) \<and>
    ip'\<lparr>addrs := addrs ip\<rparr> = ip \<and>
    (addrs ip' NDIRECT = addrs ip NDIRECT \<or> addrs ip NDIRECT = 0 \<and> \<not> used sb (unat (addrs ip' NDIRECT)) d)"

lemma growsD:
  assumes "grows sb ip d ip' d'"
  shows "c < sb_size sb \<Longrightarrow> used sb c d \<Longrightarrow> used sb c d'"
    and "data_block sb c \<Longrightarrow> used sb c d \<Longrightarrow> c \<noteq> unat (addrs ip NDIRECT) \<Longrightarrow> d' c = d c"
    and "k < NREFS \<Longrightarrow> ref ip' d' k = 0 \<or> ref ip' d' k \<in> refs ip d \<or>
       ref ip' d' k < sb_size sb \<and> \<not> used sb (ref ip' d' k) d"
    and "ip'\<lparr>addrs := addrs ip\<rparr> = ip"
    and "addrs ip' NDIRECT = addrs ip NDIRECT \<or> addrs ip NDIRECT = 0 \<and> \<not> used sb (unat (addrs ip' NDIRECT)) d"
  using assms unfolding grows_def by blast+

lemma grows_refl: "inode_ok sb ip d \<Longrightarrow> grows sb ip d ip d"
  by (auto simp: grows_def refs_def)

lemma grows_trans:
  assumes 1: "grows sb ip d ip1 d1" and 2: "grows sb ip1 d1 ip2 d2" and ok: "inode_ok sb ip1 d1" "inode_ok sb ip2 d2"
    and b: "bitmap_ok sb d"
  shows "grows sb ip d ip2 d2"
proof -
  have ind: "c \<noteq> unat (addrs ip1 NDIRECT)" if "used sb c d" "c \<noteq> unat (addrs ip NDIRECT)" for c
    using 1 that by (auto simp: grows_def)
  have u: "used sb c d1" if "c < sb_size sb" "used sb c d" for c using 1 that by (simp add: grows_def)
  have size2: "unat (addrs ip2 NDIRECT) < sb_size sb" if "addrs ip2 NDIRECT \<noteq> 0"
  proof -
    have "ref ip2 d2 NDIRECT = unat (addrs ip2 NDIRECT)" "NDIRECT < NREFS" "unat (addrs ip2 NDIRECT) \<noteq> 0"
      using that by (simp_all add: ref_def NREFS_def unat_eq_0)
    then have "data_block sb (unat (addrs ip2 NDIRECT))" using ok(2) unfolding inode_ok_def by metis
    then show ?thesis by (simp add: data_block_def)
  qed
  have "ref ip2 d2 k = 0 \<or> ref ip2 d2 k \<in> refs ip d \<or> ref ip2 d2 k < sb_size sb \<and> \<not> used sb (ref ip2 d2 k) d"
    if k: "k < NREFS" for k
  proof -
    from growsD(3)[OF 2 k] show ?thesis
    proof (elim disjE conjE)
      assume "ref ip2 d2 k \<in> refs ip1 d1"
      then obtain l where "l < NREFS" "ref ip2 d2 k = ref ip1 d1 l" "ref ip1 d1 l \<noteq> 0" by (auto simp: refs_def)
      then show ?thesis using growsD(3)[OF 1, of l] by simp
    qed (use u in auto)
  qed
  moreover have "addrs ip2 NDIRECT = addrs ip NDIRECT \<or> addrs ip NDIRECT = 0 \<and> \<not> used sb (unat (addrs ip2 NDIRECT)) d"
  proof (cases "addrs ip2 NDIRECT = addrs ip1 NDIRECT")
    case True
    then show ?thesis using 1 by (auto simp: grows_def)
  next
    case False
    then have z: "addrs ip1 NDIRECT = 0" "\<not> used sb (unat (addrs ip2 NDIRECT)) d1" using 2 by (auto simp: grows_def)
    then have "addrs ip2 NDIRECT \<noteq> 0" using False by simp
    then have "\<not> used sb (unat (addrs ip2 NDIRECT)) d" using z(2) u size2 by blast
    moreover have "addrs ip NDIRECT = 0"
    proof -
      have "used sb 0 d" using b by (auto simp: bitmap_ok_def data_start_def)
      then show ?thesis using 1 z(1) by (auto simp: grows_def)
    qed
    ultimately show ?thesis by simp
  qed
  moreover have "ip2\<lparr>addrs := addrs ip\<rparr> = ip"
  proof -
    have "ip2\<lparr>addrs := addrs ip\<rparr> = (ip2\<lparr>addrs := addrs ip1\<rparr>)\<lparr>addrs := addrs ip\<rparr>" by simp
    also have "\<dots> = ip" using 1 2 unfolding grows_def by simp
    finally show ?thesis .
  qed
  moreover have "d2 c = d c" if "data_block sb c" "used sb c d" "c \<noteq> unat (addrs ip NDIRECT)" for c
    using that 1 2 ind[OF that(2, 3)] u[of c] by (auto simp: grows_def data_block_def)
  moreover have "used sb c d2" if "c < sb_size sb" "used sb c d" for c using growsD(1)[OF 2 that(1)] u that by simp
  ultimately show ?thesis by (simp add: grows_def)
qed

lemma grows_direct:
  assumes "bitmap_ok sb d" "inode_ok sb ip d" "allocated sb b d d1" "k \<le> NDIRECT" "addrs ip k = 0"
  shows "grows sb ip d (ip\<lparr>addrs := (addrs ip)(k := of_nat b)\<rparr>) d1"
proof -
  let ?ip = "ip\<lparr>addrs := (addrs ip)(k := of_nat b)\<rparr>"
  note st = store_direct(2)[OF assms]
  have b: "data_block sb b" "\<not> used sb b d" "unat (of_nat b :: 32 word) = b"
    using assms(3) block_fits[OF assms(1)] by (auto simp: allocated_def)
  have "ref ?ip d1 j = 0 \<or> ref ?ip d1 j \<in> refs ip d \<or> ref ?ip d1 j < sb_size sb \<and> \<not> used sb (ref ?ip d1 j) d" if "j < NREFS" for j
    using st[OF that] b that by (auto simp: refs_def data_block_def)
  then show ?thesis
    using assms(3, 5) b by (auto simp: grows_def allocated_def data_block_def)
qed

lemma grows_indirect:
  assumes "bitmap_ok sb d" "inode_ok sb ip d" "allocated sb b d d1" "j0 < NINDIRECT" "addrs ip NDIRECT \<noteq> 0"
  shows "grows sb ip d ip (d1(unat (addrs ip NDIRECT) := (d1 (unat (addrs ip NDIRECT)))(j0 := of_nat b)))"
proof -
  let ?d = "d1(unat (addrs ip NDIRECT) := (d1 (unat (addrs ip NDIRECT)))(j0 := of_nat b))"
  note st = store_indirect[OF assms]
  have b: "data_block sb b" "\<not> used sb b d" using assms(3) by (auto simp: allocated_def)
  have "ref ip ?d j = 0 \<or> ref ip ?d j \<in> refs ip d \<or> ref ip ?d j < sb_size sb \<and> \<not> used sb (ref ip ?d j) d" if "j < NREFS" for j
    using st(2)[OF that] b that by (auto simp: refs_def data_block_def)
  then show ?thesis
    using assms(3) b st(3) by (auto simp: grows_def allocated_def data_block_def)
qed

lemma grows_with_indirect:
  assumes "bitmap_ok sb d" "inode_ok sb ip d" "with_indirect sb ip d = (a, ip1, d1)"
  shows "grows sb ip d ip1 d1"
proof (cases "addrs ip NDIRECT = 0 \<and> fst (balloc sb d) \<noteq> 0")
  case True
  obtain b d2 where b: "balloc sb d = (b, d2)" by (cases "balloc sb d")
  then have "allocated sb b d d2" using balloc_allocated[OF assms(1)] True by simp
  then show ?thesis
    using grows_direct[OF assms(1, 2) _ order_refl] assms(3) True b by (auto simp: with_indirect_def)
next
  case False
  then have "ip1 = ip \<and> d1 = d"
    using assms(3) balloc_fails[OF assms(1)] by (auto simp: with_indirect_def split: prod.splits if_splits)
  then show ?thesis using grows_refl[OF assms(2)] by simp
qed

lemma bmap_mapped:
  assumes "bitmap_ok sb d" "inode_ok sb ip d" "bn < MAXFILE"
  obtains a ip' d' where "bmap sb ip bn d = Inr (a, ip', d')" "mapped sb ip d bn a ip' d'"
  using bmap_direct[OF assms(1, 2)] bmap_indirect[OF assms(1, 2)] assms(3) unfolding MAXFILE_def by blast

lemma bmap_grows:
  assumes b: "bitmap_ok sb d" and ok: "inode_ok sb ip d" and bn: "bn < MAXFILE"
    and m: "bmap sb ip bn d = Inr (a, ip', d')"
  shows "grows sb ip d ip' d' \<and> (file_block ip d bn = 0 \<longrightarrow> a \<noteq> 0 \<longrightarrow> d' a = (\<lambda>_. 0)) \<and>
    (a = 0 \<longrightarrow> file_block ip' d' bn = 0)"
proof (cases "bn < NDIRECT")
  case True
  show ?thesis
  proof (cases "addrs ip bn = 0 \<and> fst (balloc sb d) \<noteq> 0")
    case al: True
    obtain c d1 where c: "balloc sb d = (c, d1)" by (cases "balloc sb d")
    then have A: "allocated sb c d d1" using balloc_allocated[OF b] al by simp
    have "a = c" "ip' = ip\<lparr>addrs := (addrs ip)(bn := of_nat c)\<rparr>" "d' = d1"
      using m True al c by (auto simp: bmap_def)
    moreover have "c \<noteq> 0" using al c by simp
    ultimately show ?thesis using grows_direct[OF b ok A _ conjunct1[OF al]] True A by (auto simp: allocated_def)
  next
    case False
    then have "ip' = ip \<and> d' = d \<and> (a = 0 \<or> addrs ip bn \<noteq> 0)"
      using m True balloc_fails[OF b] by (auto simp: bmap_def split: prod.splits if_splits)
    moreover have "a = 0 \<Longrightarrow> addrs ip bn = 0"
      using m True by (auto simp: bmap_def unat_eq_0 split: prod.splits if_splits)
    ultimately show ?thesis using grows_refl[OF ok] True by (auto simp: file_block_def ref_def unat_eq_0)
  qed
next
  case False
  define j where "j = bn - NDIRECT"
  have j: "j < NINDIRECT" "bn = NDIRECT + j" using False bn by (auto simp: j_def MAXFILE_def)
  obtain i ip1 d1 where w: "with_indirect sb ip d = (i, ip1, d1)" by (metis prod_cases3)
  have unf: "bmap sb ip bn d = (if i = 0 then Inr (0, ip1, d1)
      else if d1 i j = 0 then
        let (c, d) = balloc sb d1 in
        if c = 0 then Inr (0, ip1, d) else Inr (c, ip1, d(i := (d i)(j := of_nat c)))
      else Inr (unat (d1 i j), ip1, d1))"
    using False j w by (simp add: bmap_def with_indirect_def[symmetric] j_def[symmetric])
  note G = grows_with_indirect[OF b ok w]
  from with_indirect_ok[OF b ok w] show ?thesis
  proof
    assume "i = 0 \<and> ip1 = ip \<and> d1 = d \<and> free_blocks sb d = {} \<and> addrs ip NDIRECT = 0"
    then show ?thesis using G m unf j by (simp add: file_block_def ref_def)
  next
    assume I: "bitmap_ok sb d1 \<and> inode_ok sb ip1 d1 \<and> addrs ip1 NDIRECT \<noteq> 0 \<and> i = unat (addrs ip1 NDIRECT) \<and> i \<noteq> 0 \<and>
      (\<forall>j < NREFS. j \<noteq> NDIRECT \<longrightarrow> ref ip1 d1 j = ref ip d j) \<and> (addrs ip NDIRECT \<noteq> 0 \<longrightarrow> ip1 = ip \<and> d1 = d)"
    have fb: "file_block ip1 d1 bn = unat (d1 i j)" "file_block ip d bn = unat (d1 i j)"
    proof -
      show 1: "file_block ip1 d1 bn = unat (d1 i j)" using I j by (simp add: file_block_def ref_def)
      have "ref ip1 d1 (bn + 1) = ref ip d (bn + 1)" using I j by (simp add: NREFS_def)
      then show "file_block ip d bn = unat (d1 i j)" using 1 False by (simp add: file_block_def)
    qed
    show ?thesis
    proof (cases "d1 i j = 0 \<and> fst (balloc sb d1) \<noteq> 0")
      case True
      obtain c d2 where c: "balloc sb d1 = (c, d2)" by (cases "balloc sb d1")
      then have A: "allocated sb c d1 d2" using balloc_allocated I True by auto
      have e: "a = c" "ip' = ip1" "d' = d2(i := (d2 i)(j := of_nat c))" using m unf I True c by auto
      have G2: "grows sb ip1 d1 ip1 d'" using grows_indirect[OF _ _ A j(1)] I e(3) by auto
      have ok2: "inode_ok sb ip1 d'" using store_indirect(1)[OF _ _ A j(1)] I e(3) by auto
      have "d' a = (\<lambda>_. 0)" using A I indirect_kept(3)[OF _ A] e by (auto simp: allocated_def)
      moreover have "a \<noteq> 0" using True c e(1) by simp
      ultimately show ?thesis using grows_trans[OF G G2 _ ok2 b] I e(2) by simp
    next
      case False
      then have "ip' = ip1 \<and> d' = d1 \<and> (a = 0 \<or> d1 i j \<noteq> 0)"
        using m unf I balloc_fails[of sb d1] by (auto split: prod.splits if_splits)
      moreover have "a = 0 \<Longrightarrow> d1 i j = 0"
        using m unf I by (auto simp: unat_eq_0 split: prod.splits if_splits)
      ultimately show ?thesis using G fb by (auto simp: unat_eq_0)
    qed
  qed
qed

text \<open>The blocks before the bitmap, with the log and the inodes, are not touched.\<close>

definition meta_kept :: "superblock \<Rightarrow> inode \<Rightarrow> fsdisk \<Rightarrow> inode \<Rightarrow> fsdisk \<Rightarrow> bool" where
  "meta_kept sb ip d ip' d' \<longleftrightarrow> (\<forall>c < sb_bmapstart sb. d' c = d c) \<and> (\<forall>k > NDIRECT. addrs ip' k = addrs ip k)"

lemma balloc_low:
  assumes "bitmap_ok sb d" "c < sb_bmapstart sb" "balloc sb d = (b, d')"
  shows "d' c = d c"
  using assms(1) by (cases rule: balloc_cases) (use assms in \<open>auto simp: bzero_def mark_def BBLOCK_def data_block_def data_start_def\<close>)

lemma bmap_meta:
  assumes b: "bitmap_ok sb d" and ok: "inode_ok sb ip d" and m: "bmap sb ip bn d = Inr (a, ip', d')"
  shows "meta_kept sb ip d ip' d'"
proof (cases "bn < NDIRECT")
  case True
  then show ?thesis
    using m balloc_low[OF b] by (auto simp: bmap_def meta_kept_def split: prod.splits if_splits)
next
  case False
  obtain i ip1 d1 where w: "with_indirect sb ip d = (i, ip1, d1)" by (metis prod_cases3)
  have unf: "bmap sb ip bn d = (if \<not> bn - NDIRECT < NINDIRECT then Inl (Panic ''bmap: out of range'')
      else if i = 0 then Inr (0, ip1, d1)
      else if d1 i (bn - NDIRECT) = 0 then
        let (c, d) = balloc sb d1 in
        if c = 0 then Inr (0, ip1, d) else Inr (c, ip1, d(i := (d i)(bn - NDIRECT := of_nat c)))
      else Inr (unat (d1 i (bn - NDIRECT)), ip1, d1))"
    using False w by (simp add: bmap_def with_indirect_def[symmetric])
  have 1: "meta_kept sb ip d ip1 d1"
    using w balloc_low[OF b] by (auto simp: with_indirect_def meta_kept_def split: prod.splits if_splits)
  have "bitmap_ok sb d1 \<and> data_block sb i" if "i \<noteq> 0"
  proof -
    have "bitmap_ok sb d1" "inode_ok sb ip1 d1" "ref ip1 d1 NDIRECT = i"
      using with_indirect_ok[OF b ok w] that by (auto simp: ref_def)
    moreover have "NDIRECT < NREFS" by (simp add: NREFS_def)
    ultimately show ?thesis using that unfolding inode_ok_def by metis
  qed
  then show ?thesis
    using 1 m unf balloc_low[of sb d1]
    by (auto simp: meta_kept_def data_block_def data_start_def split: prod.splits if_splits)
qed

section \<open>Files as lists of bytes\<close>

definition fbyte :: "inode \<Rightarrow> fsdisk \<Rightarrow> nat \<Rightarrow> byte" where
  "fbyte ip d i = (let b = file_block ip d (i div BSIZE) in if b = 0 then 0 else get_byte (d b) (i mod BSIZE))"

definition contents :: "inode \<Rightarrow> fsdisk \<Rightarrow> byte list" where
  "contents ip d = map (fbyte ip d) [0..<unat (i_size ip)]"

text \<open>A file without holes on a consistent disk.\<close>

definition file_ok :: "superblock \<Rightarrow> inode \<Rightarrow> fsdisk \<Rightarrow> bool" where
  "file_ok sb ip d \<longleftrightarrow> bitmap_ok sb d \<and> inode_ok sb ip d \<and> IBLOCK (inum ip) sb < sb_bmapstart sb \<and>
    unat (i_size ip) \<le> MAXFILE * BSIZE \<and> (\<forall>i < unat (i_size ip). file_block ip d (i div BSIZE) \<noteq> 0)"

lemma block_index: "i < MAXFILE * BSIZE \<Longrightarrow> i div BSIZE < MAXFILE"
  by (rule less_mult_imp_div_less)

lemma file_block_facts:
  assumes "inode_ok sb ip d" "bn < MAXFILE" "file_block ip d bn \<noteq> 0"
  shows "data_block sb (file_block ip d bn)" "used sb (file_block ip d bn) d" "file_block ip d bn \<noteq> unat (addrs ip NDIRECT)"
    "file_block ip d bn \<in> refs ip d" "bn' < MAXFILE \<Longrightarrow> file_block ip d bn' = file_block ip d bn \<Longrightarrow> bn' = bn"
proof -
  define k where "k = (\<lambda>bn. if bn < NDIRECT then bn else bn + 1)"
  have fb: "file_block ip d bn = ref ip d (k bn)" for bn by (simp add: file_block_def k_def)
  have k: "k bn < NREFS" "k bn \<noteq> NDIRECT" if "bn < MAXFILE" for bn using that by (auto simp: k_def NREFS_def MAXFILE_def)
  have inj: "k bn = k bn' \<Longrightarrow> bn = bn'" for bn bn' by (auto simp: k_def split: if_splits)
  show "data_block sb (file_block ip d bn)" "used sb (file_block ip d bn) d"
    using assms k(1)[OF assms(2)] unfolding fb inode_ok_def by blast+
  show "file_block ip d bn \<in> refs ip d" using assms(3) k(1)[OF assms(2)] unfolding fb refs_def by blast
  have "ref ip d NDIRECT = unat (addrs ip NDIRECT)" "NDIRECT < NREFS" by (simp_all add: ref_def NREFS_def)
  then show "file_block ip d bn \<noteq> unat (addrs ip NDIRECT)"
    using assms k[OF assms(2)] unfolding fb inode_ok_def by metis
  show "bn' = bn" if "bn' < MAXFILE" "file_block ip d bn' = file_block ip d bn"
    using that assms k(1) inj unfolding fb inode_ok_def by metis
qed

text \<open>Looking up a block keeps every byte of the file, because a new block is zero.\<close>

lemma bmap_fbyte:
  assumes b: "bitmap_ok sb d" and ok: "inode_ok sb ip d" and bn: "bn < MAXFILE"
    and m: "bmap sb ip bn d = Inr (a, ip', d')" "mapped sb ip d bn a ip' d'" and i: "i < MAXFILE * BSIZE"
  shows "fbyte ip' d' i = fbyte ip d i" "file_block ip d (i div BSIZE) \<noteq> 0 \<Longrightarrow> file_block ip' d' (i div BSIZE) \<noteq> 0"
proof -
  note G = bmap_grows[OF b ok bn m(1)]
  let ?k = "i div BSIZE"
  have k: "?k < MAXFILE" by (rule block_index[OF i])
  have same: "file_block ip' d' ?k = file_block ip d ?k" if "?k \<noteq> bn \<or> file_block ip d bn \<noteq> 0"
    using m(2) k that by (auto simp: mapped_def MAXFILE_def)
  show "file_block ip' d' ?k \<noteq> 0" if "file_block ip d ?k \<noteq> 0"
    using same that by (cases "?k = bn") auto
  show "fbyte ip' d' i = fbyte ip d i"
  proof (cases "?k \<noteq> bn \<or> file_block ip d bn \<noteq> 0")
    case True
    have "d' (file_block ip d ?k) = d (file_block ip d ?k)" if "file_block ip d ?k \<noteq> 0"
      using file_block_facts[OF ok k that] growsD(2)[OF conjunct1[OF G]] by simp
    then show ?thesis using same[OF True] by (simp add: fbyte_def Let_def)
  next
    case False
    then have z: "?k = bn" "file_block ip d bn = 0" by auto
    have "get_byte (d' (file_block ip' d' bn)) (i mod BSIZE) = 0" if "file_block ip' d' bn \<noteq> 0"
    proof -
      have "a \<noteq> 0" using G that by auto
      then have "file_block ip' d' bn = a" "d' a = (\<lambda>_. 0)" using m(2) G z by (auto simp: mapped_def)
      then show ?thesis by (simp add: get_byte_def)
    qed
    then show ?thesis using z by (simp add: fbyte_def Let_def)
  qed
qed

section \<open>Writing\<close>

text \<open>
  The bytes \<open>bs\<close> now stand at \<open>off\<close>, in blocks that exist; nothing else of the file and nothing of any
  other file has changed.
\<close>

definition wrote :: "superblock \<Rightarrow> inode \<Rightarrow> fsdisk \<Rightarrow> nat \<Rightarrow> byte list \<Rightarrow> inode \<Rightarrow> fsdisk \<Rightarrow> bool" where
  "wrote sb ip d off bs ip' d' \<longleftrightarrow> bitmap_ok sb d' \<and> inode_ok sb ip' d' \<and>
    (\<forall>i < MAXFILE * BSIZE. fbyte ip' d' i = (if off \<le> i \<and> i < off + length bs then bs ! (i - off) else fbyte ip d i)) \<and>
    (\<forall>i < MAXFILE * BSIZE. off \<le> i \<and> i < off + length bs \<or> file_block ip d (i div BSIZE) \<noteq> 0 \<longrightarrow>
       file_block ip' d' (i div BSIZE) \<noteq> 0) \<and>
    (\<forall>c. data_block sb c \<longrightarrow> used sb c d \<longrightarrow> c \<notin> refs ip d \<longrightarrow> d' c = d c \<and> used sb c d' \<and> c \<notin> refs ip' d') \<and>
    ip'\<lparr>addrs := addrs ip\<rparr> = ip \<and> meta_kept sb ip d ip' d'"

lemma wroteD:
  assumes "wrote sb ip d off bs ip' d'"
  shows "bitmap_ok sb d'" "inode_ok sb ip' d'"
    "i < MAXFILE * BSIZE \<Longrightarrow> fbyte ip' d' i = (if off \<le> i \<and> i < off + length bs then bs ! (i - off) else fbyte ip d i)"
    "i < MAXFILE * BSIZE \<Longrightarrow> off \<le> i \<and> i < off + length bs \<or> file_block ip d (i div BSIZE) \<noteq> 0 \<Longrightarrow>
       file_block ip' d' (i div BSIZE) \<noteq> 0"
    "data_block sb c \<Longrightarrow> used sb c d \<Longrightarrow> c \<notin> refs ip d \<Longrightarrow> d' c = d c \<and> used sb c d' \<and> c \<notin> refs ip' d'"
    "ip'\<lparr>addrs := addrs ip\<rparr> = ip" "meta_kept sb ip d ip' d'"
  using assms unfolding wrote_def by blast+

lemma wrote_append:
  assumes 1: "wrote sb ip d off bs ip1 d1" and 2: "wrote sb ip1 d1 (off + length bs) cs ip2 d2"
  shows "wrote sb ip d off (bs @ cs) ip2 d2"
proof -
  have "ip2\<lparr>addrs := addrs ip\<rparr> = (ip2\<lparr>addrs := addrs ip1\<rparr>)\<lparr>addrs := addrs ip\<rparr>" by simp
  also have "\<dots> = ip" using wroteD(6)[OF 1] wroteD(6)[OF 2] by simp
  finally have "ip2\<lparr>addrs := addrs ip\<rparr> = ip" .
  moreover have "fbyte ip2 d2 i = (if off \<le> i \<and> i < off + length (bs @ cs) then (bs @ cs) ! (i - off) else fbyte ip d i)"
    if "i < MAXFILE * BSIZE" for i
    using wroteD(3)[OF 1 that] wroteD(3)[OF 2 that] by (auto simp: nth_append)
  moreover have "file_block ip2 d2 (i div BSIZE) \<noteq> 0"
    if "i < MAXFILE * BSIZE" "off \<le> i \<and> i < off + length (bs @ cs) \<or> file_block ip d (i div BSIZE) \<noteq> 0" for i
    using wroteD(4)[OF 1 that(1)] wroteD(4)[OF 2 that(1)] that(2) by force
  moreover have "d2 c = d c \<and> used sb c d2 \<and> c \<notin> refs ip2 d2" if "data_block sb c" "used sb c d" "c \<notin> refs ip d" for c
    using wroteD(5)[OF 1 that] wroteD(5)[OF 2 that(1)] by simp
  moreover have "meta_kept sb ip d ip2 d2" using wroteD(7)[OF 1] wroteD(7)[OF 2] by (simp add: meta_kept_def)
  ultimately show ?thesis using wroteD(1, 2)[OF 2] unfolding wrote_def by blast
qed

lemma grows_refs:
  assumes "grows sb ip d ip' d'" "data_block sb c" "used sb c d" "c \<notin> refs ip d"
  shows "c \<notin> refs ip' d'"
  using growsD(3)[OF assms(1)] assms(3, 4) unfolding refs_def by fastforce

lemma bmap_wrote_nothing:
  assumes "bitmap_ok sb d" "inode_ok sb ip d" "bn < MAXFILE"
    and m: "bmap sb ip bn d = Inr (a, ip', d')" "mapped sb ip d bn a ip' d'"
  shows "wrote sb ip d off [] ip' d'"
proof -
  note G = conjunct1[OF bmap_grows[OF assms(1-3) m(1)]] and B = bmap_fbyte[OF assms(1-3) m]
  have ind: "unat (addrs ip NDIRECT) \<in> refs ip d" if "addrs ip NDIRECT \<noteq> 0"
    using that by (auto simp: refs_def ref_def NREFS_def unat_eq_0 image_iff intro!: bexI[of _ NDIRECT])
  have "d' c = d c \<and> used sb c d' \<and> c \<notin> refs ip' d'" if c: "data_block sb c" "used sb c d" "c \<notin> refs ip d" for c
  proof -
    have "c \<noteq> unat (addrs ip NDIRECT)" using ind c(1, 3) by (cases "addrs ip NDIRECT = 0") (auto simp: data_block_def data_start_def)
    then show ?thesis using growsD(1, 2)[OF G] grows_refs[OF G c] c by (auto simp: data_block_def)
  qed
  then show ?thesis
    using m(2) B growsD(4)[OF G] bmap_meta[OF assms(1, 2) m(1)] unfolding wrote_def mapped_def by auto
qed

text \<open>Storing bytes in a block of the file.\<close>

lemma same_block:
  assumes "off \<le> i" "i < off + l" "off mod BSIZE + l \<le> BSIZE"
  shows "i div BSIZE = off div BSIZE"
proof -
  have "off div BSIZE * BSIZE \<le> i" "i < off div BSIZE * BSIZE + BSIZE"
    using assms div_mult_mod_eq[of off BSIZE] by linarith+
  then have "off div BSIZE * BSIZE \<le> i" "i < Suc (off div BSIZE) * BSIZE" by auto
  then show ?thesis by (metis div_nat_eqI mult.commute)
qed

lemma store_wrote:
  assumes b: "bitmap_ok sb d" and ok: "inode_ok sb ip d" and a: "file_block ip d (off div BSIZE) = a" "a \<noteq> 0"
    and off: "off < MAXFILE * BSIZE" "off mod BSIZE + length bs \<le> BSIZE"
  shows "wrote sb ip d off bs ip (d(a := put_bytes (off mod BSIZE) bs (d a)))"
proof -
  let ?d = "d(a := put_bytes (off mod BSIZE) bs (d a))" and ?bn = "off div BSIZE"
  have bn: "?bn < MAXFILE" by (rule block_index[OF off(1)])
  note F = file_block_facts[OF ok bn, unfolded a(1), OF a(2)]
  have ref: "ref ip ?d k = ref ip d k" for k using F(3) by (auto simp: ref_def)
  then have fb: "file_block ip ?d k = file_block ip d k" and refs: "refs ip ?d = refs ip d" for k
    by (auto simp: file_block_def refs_def)
  have u: "used sb c ?d = used sb c d" if "c < sb_size sb" for c
    using F(1) that by (intro used_other) (auto simp: data_block_def)
  have "bitmap_ok sb ?d" using b u by (auto simp: bitmap_ok_def)
  moreover have "inode_ok sb ip ?d" using ok u unfolding inode_ok_def ref by (auto simp: data_block_def)
  moreover have "fbyte ip ?d i = (if off \<le> i \<and> i < off + length bs then bs ! (i - off) else fbyte ip d i)"
    if i: "i < MAXFILE * BSIZE" for i
  proof (cases "i div BSIZE = ?bn")
    case True
    then have "i div BSIZE * BSIZE = ?bn * BSIZE" by simp
    then have "i = ?bn * BSIZE + i mod BSIZE" "off = ?bn * BSIZE + off mod BSIZE"
      using div_mult_mod_eq[of i BSIZE] div_mult_mod_eq[of off BSIZE] by linarith+
    then have "off \<le> i \<longleftrightarrow> off mod BSIZE \<le> i mod BSIZE" "i < off + length bs \<longleftrightarrow> i mod BSIZE < off mod BSIZE + length bs"
      "i mod BSIZE - off mod BSIZE = i - off" by linarith+
    then show ?thesis using True a unfolding fbyte_def fb by (simp add: get_put_bytes)
  next
    case False
    then have "\<not> (off \<le> i \<and> i < off + length bs)" using same_block[OF _ _ off(2)] by blast
    moreover have "file_block ip d (i div BSIZE) \<noteq> a" using F(5)[OF block_index[OF i]] False by auto
    ultimately show ?thesis unfolding fbyte_def fb Let_def by auto
  qed
  moreover have "file_block ip ?d (i div BSIZE) \<noteq> 0"
    if "off \<le> i \<and> i < off + length bs \<or> file_block ip d (i div BSIZE) \<noteq> 0" for i
  proof (cases "file_block ip d (i div BSIZE) \<noteq> 0")
    case False
    then have h: "off \<le> i" "i < off + length bs" using that by auto
    then show ?thesis using same_block[OF h off(2)] a fb by simp
  qed (simp add: fb)
  moreover have "?d c = d c \<and> used sb c ?d \<and> c \<notin> refs ip ?d" if "data_block sb c" "used sb c d" "c \<notin> refs ip d" for c
    using that F(4) u refs by (auto simp: data_block_def)
  moreover have "meta_kept sb ip d ip ?d" using F(1) by (auto simp: meta_kept_def data_block_def data_start_def)
  ultimately show ?thesis unfolding wrote_def by auto
qed

lemma chunk_bound: "off mod BSIZE + min k (BSIZE - off mod BSIZE) \<le> BSIZE" "0 < k \<Longrightarrow> 0 < min k (BSIZE - off mod BSIZE)"
  using mod_less_divisor[of BSIZE off] by (auto simp: BSIZE_def)

lemma writei_loop_ok:
  assumes "bitmap_ok sb d" "inode_ok sb ip d" "tot \<le> length src" "off + (length src - tot) \<le> MAXFILE * BSIZE"
  shows "\<exists>k ip' d'. writei_loop sb (from_kernel src) (length src) tot off ip d = Inr (tot + k, off + k, ip', d') \<and>
    tot + k \<le> length src \<and> wrote sb ip d off (take k (drop tot src)) ip' d' \<and>
    (tot + k < length src \<longrightarrow> free_blocks sb d' = {})"
  using assms
proof (induction "length src - tot" arbitrary: tot off ip d rule: less_induct)
  case (less tot off ip d)
  let ?n = "length src"
  have wrote0: "wrote sb ip d off [] ip d" using less.prems(1, 2) by (auto simp: wrote_def meta_kept_def)
  show ?case
  proof (cases "tot < ?n")
    case False
    then show ?thesis using less.prems(3) wrote0 by (subst writei_loop.simps) (auto intro!: exI[of _ 0])
  next
    case True
    define m where "m = min (?n - tot) (BSIZE - off mod BSIZE)"
    have off: "off < MAXFILE * BSIZE" using True less.prems(4) by simp
    have m: "0 < m" "off mod BSIZE + m \<le> BSIZE" "tot + m \<le> ?n"
      using chunk_bound(1)[of off "?n - tot"] chunk_bound(2)[of "?n - tot" off] True by (auto simp: m_def)
    obtain a ip1 d1 where bm: "bmap sb ip (off div BSIZE) d = Inr (a, ip1, d1)" "mapped sb ip d (off div BSIZE) a ip1 d1"
      using bmap_mapped[OF less.prems(1, 2) block_index[OF off]] by blast
    note w0 = bmap_wrote_nothing[OF less.prems(1, 2) block_index[OF off] bm, of off]
    show ?thesis
    proof (cases "a = 0")
      case a0: True
      then have "writei_loop sb (from_kernel src) ?n tot off ip d = Inr (tot + 0, off + 0, ip1, d1)"
        using True bm(1) by (subst writei_loop.simps) simp
      moreover have "free_blocks sb d1 = {}" using bm(2) a0 by (simp add: mapped_def)
      ultimately show ?thesis using w0 less.prems(3) by (intro exI[of _ 0] exI[of _ ip1] exI[of _ d1]) simp
    next
      case False
      let ?bs = "take m (drop tot src)"
      let ?d = "d1(a := put_bytes (off mod BSIZE) ?bs (d1 a))"
      have len: "length ?bs = m" using m(3) by simp
      have fb: "file_block ip1 d1 (off div BSIZE) = a" using bm(2) False by (simp add: mapped_def)
      have w1: "wrote sb ip d off ?bs ip1 ?d"
        using wrote_append[OF w0, of ?bs ip1 ?d] store_wrote[OF wroteD(1, 2)[OF w0] fb False off, of ?bs] m(2) len by simp
      have rec: "writei_loop sb (from_kernel src) ?n tot off ip d = writei_loop sb (from_kernel src) ?n (tot + m) (off + m) ip1 ?d"
        using True bm(1) False by (subst writei_loop.simps) (simp add: from_kernel_def m_def Let_def)
      have "?n - (tot + m) < ?n - tot" using m(1) True by simp
      moreover have "off + m + (?n - (tot + m)) \<le> MAXFILE * BSIZE" using less.prems(4) m(3) by simp
      ultimately obtain k ip2 d2 where
        k: "writei_loop sb (from_kernel src) ?n (tot + m) (off + m) ip1 ?d = Inr (tot + m + k, off + m + k, ip2, d2)"
        "tot + m + k \<le> ?n" "wrote sb ip1 ?d (off + m) (take k (drop (tot + m) src)) ip2 d2"
        "tot + m + k < ?n \<longrightarrow> free_blocks sb d2 = {}"
        using less.hyps[of "tot + m" ?d ip1 "off + m"] wroteD(1, 2)[OF w1] m(3) by blast
      have "?bs @ take k (drop (tot + m) src) = take (m + k) (drop tot src)" by (simp only: take_add drop_drop add.commute[of m tot])
      then have "wrote sb ip d off (take (m + k) (drop tot src)) ip2 d2"
        using wrote_append[OF w1, of "take k (drop (tot + m) src)" ip2 d2] k(3) len by simp
      then show ?thesis
        using rec k by (intro exI[of _ "m + k"] exI[of _ ip2] exI[of _ d2]) (simp add: add.assoc)
    qed
  qed
qed

text \<open>What fits into one block is written completely or not at all.\<close>

lemma writei_loop_chunk:
  assumes "off mod BSIZE + length src \<le> BSIZE" "src \<noteq> []"
    "writei_loop sb (from_kernel src) (length src) 0 off ip d = Inr (k, x)"
  shows "k = 0 \<or> k = length src"
proof -
  have m: "min (length src) (BSIZE - off mod BSIZE) = length src" using assms(1) by simp
  show ?thesis
    using assms(2, 3) m
    by (subst (asm) writei_loop.simps, cases "bmap sb ip (off div BSIZE) d")
      (auto simp: writei_loop.simps[of _ _ "length src" "length src"] from_kernel_def Let_def split: if_splits)
qed

lemma iupdate_keeps:
  assumes i: "IBLOCK (inum ip) sb < sb_bmapstart sb" and b: "bitmap_ok sb d"
  shows "bitmap_ok sb (iupdate sb ip d)" "used sb c (iupdate sb ip d) = used sb c d"
    "data_start sb \<le> c \<Longrightarrow> iupdate sb ip d c = d c" "free_blocks sb (iupdate sb ip d) = free_blocks sb d"
proof -
  show u: "used sb c (iupdate sb ip d) = used sb c d" for c by (rule iupdate_frame[OF i])
  show "bitmap_ok sb (iupdate sb ip d)" using b by (simp add: bitmap_ok_def u)
  show "iupdate sb ip d c = d c" if "data_start sb \<le> c" using that i by (auto simp: iupdate_def Let_def data_start_def)
  show "free_blocks sb (iupdate sb ip d) = free_blocks sb d" by (simp add: free_blocks_def u)
qed

text \<open>A file is determined by its blocks; changes elsewhere do not touch it.\<close>

lemma ref_cong:
  assumes "inode_ok sb ip d" "addrs ip' = addrs ip"
    and "\<And>c. c \<in> refs ip d \<Longrightarrow> d' c = d c" "k < NREFS"
  shows "ref ip' d' k = ref ip d k"
proof (cases "addrs ip NDIRECT = 0")
  case False
  then have "unat (addrs ip NDIRECT) \<in> refs ip d"
    by (auto simp: refs_def ref_def NREFS_def unat_eq_0 image_iff intro!: bexI[of _ NDIRECT])
  then show ?thesis using assms(2, 3) by (auto simp: ref_def)
qed (use assms in \<open>simp add: ref_def\<close>)

lemma file_cong:
  assumes ok: "inode_ok sb ip d" and a: "addrs ip' = addrs ip" and d: "\<And>c. c \<in> refs ip d \<Longrightarrow> d' c = d c"
  shows "refs ip' d' = refs ip d" "bn < MAXFILE \<Longrightarrow> file_block ip' d' bn = file_block ip d bn"
    "i < MAXFILE * BSIZE \<Longrightarrow> fbyte ip' d' i = fbyte ip d i"
    "(\<And>c. c \<in> refs ip d \<Longrightarrow> used sb c d') \<Longrightarrow> inode_ok sb ip' d'"
proof -
  note R = ref_cong[OF ok a d]
  show "refs ip' d' = refs ip d" using R by (auto simp: refs_def image_iff)
  show fb: "file_block ip' d' bn = file_block ip d bn" if "bn < MAXFILE" for bn
    using R[of "if bn < NDIRECT then bn else bn + 1"] that by (auto simp: file_block_def NREFS_def MAXFILE_def)
  show "fbyte ip' d' i = fbyte ip d i" if "i < MAXFILE * BSIZE"
    using fb[OF block_index[OF that]] d file_block_facts(4)[OF ok block_index[OF that]] by (simp add: fbyte_def Let_def)
  show "inode_ok sb ip' d'" if u: "\<And>c. c \<in> refs ip d \<Longrightarrow> used sb c d'"
    using ok u R unfolding inode_ok_def refs_def by auto
qed

section \<open>Reading\<close>

lemma readi_loop_ok:
  assumes "file_ok sb ip d" "tot \<le> n" "off + (n - tot) \<le> unat (i_size ip)"
  shows "readi_loop sb (\<lambda>_ _. True) n tot off ip d = Inr (int n, map (fbyte ip d) [off..<off + (n - tot)], ip, d)"
  using assms(2, 3)
proof (induction "n - tot" arbitrary: tot off rule: less_induct)
  case (less tot off)
  show ?case
  proof (cases "tot < n")
    case False
    then show ?thesis using less.prems by (subst readi_loop.simps) simp
  next
    case True
    define m where "m = min (n - tot) (BSIZE - off mod BSIZE)"
    have m: "0 < m" "off mod BSIZE + m \<le> BSIZE" "tot + m \<le> n"
      using chunk_bound(1)[of off "n - tot"] chunk_bound(2)[of "n - tot" off] True by (auto simp: m_def)
    have off: "off < unat (i_size ip)" using True less.prems by simp
    then have bn: "off div BSIZE < MAXFILE" "file_block ip d (off div BSIZE) \<noteq> 0"
      using assms(1) block_index by (auto simp: file_ok_def)
    obtain a ip1 d1 where "bmap sb ip (off div BSIZE) d = Inr (a, ip1, d1)" "mapped sb ip d (off div BSIZE) a ip1 d1"
      using bmap_mapped[of sb d ip "off div BSIZE"] assms(1) bn(1) by (auto simp: file_ok_def)
    then have bm: "bmap sb ip (off div BSIZE) d = Inr (file_block ip d (off div BSIZE), ip, d)"
      using bn(2) by (auto simp: mapped_def)
    let ?b = "d (file_block ip d (off div BSIZE))"
    have "get_bytes (off mod BSIZE) m ?b = map (fbyte ip d) [off..<off + m]"
    proof (rule nth_equalityI)
      fix k assume k: "k < length (get_bytes (off mod BSIZE) m ?b)"
      have blk: "(off + k) div BSIZE = off div BSIZE" using k m(2) by (intro same_block[of _ _ m]) auto
      then have "(off + k) div BSIZE * BSIZE = off div BSIZE * BSIZE" by simp
      then have "(off + k) mod BSIZE = off mod BSIZE + k"
        using div_mult_mod_eq[of "off + k" BSIZE] div_mult_mod_eq[of off BSIZE] by linarith
      then show "get_bytes (off mod BSIZE) m ?b ! k = map (fbyte ip d) [off..<off + m] ! k"
        using k blk bn(2) by (simp add: fbyte_def)
    qed simp
    moreover have "readi_loop sb (\<lambda>_ _. True) n (tot + m) (off + m) ip d =
        Inr (int n, map (fbyte ip d) [off + m..<off + m + (n - (tot + m))], ip, d)"
      using less.hyps[of "tot + m" "off + m"] less.prems m True by simp
    moreover have "[off..<off + m] @ [off + m..<off + m + (n - (tot + m))] = [off..<off + (n - tot)]"
      using m(3) upt_add_eq_append[of off "off + m" "n - (tot + m)"] by simp
    ultimately show ?thesis
      using True bm bn(2) unfolding m_def[symmetric]
      by (subst readi_loop.simps) (simp add: m_def[symmetric] Let_def flip: map_append)
  qed
qed

lemma contents_length [simp]: "length (contents ip d) = unat (i_size ip)"
  by (simp add: contents_def)

lemma unat_small: "k < 2 ^ 32 \<Longrightarrow> unat (of_nat k :: 32 word) = k"
  by (simp add: unat_of_nat take_bit_nat_eq_self)

lemma readi_contents:
  assumes ok: "file_ok sb ip d" and off: "off \<le> i_size ip" and n: "unat off + unat n < 2 ^ 32"
  shows "readi sb (\<lambda>_ _. True) ip off n d =
    (let bs = take (unat n) (drop (unat off) (contents ip d)) in Inr (int (length bs), bs, ip, d))"
proof -
  have no: "unat (off + n) = unat off + unat n" "\<not> off + n < off"
    using n by (auto simp: unat_word_ariths word_less_nat_alt)
  have le: "unat off \<le> unat (i_size ip)" using off by (simp add: word_le_nat_alt)
  define k where "k = unat (if off + n > i_size ip then i_size ip - off else n)"
  have k: "k = min (unat n) (unat (i_size ip) - unat off)"
    using no(1) off by (auto simp: k_def word_less_nat_alt unat_sub min_def)
  have "unat off + k \<le> unat (i_size ip)" using k le by auto
  then have "readi sb (\<lambda>_ _. True) ip off n d = Inr (int k, map (fbyte ip d) [unat off..<unat off + k], ip, d)"
    using no off readi_loop_ok[OF ok, of 0 k "unat off"] by (auto simp: readi_def k_def[symmetric] Let_def not_less)
  moreover have "map (fbyte ip d) [unat off..<unat off + k] = take (unat n) (drop (unat off) (contents ip d))"
    using k le by (intro nth_equalityI) (auto simp: contents_def)
  ultimately show ?thesis using k le by (auto simp: Let_def min_def)
qed

lemma writei_wrote:
  assumes ok: "file_ok sb ip d" and off: "off \<le> i_size ip" and n: "unat n = length src"
    and fits: "unat off + length src \<le> MAXFILE * BSIZE"
  shows "\<exists>k ip1 d1. writei sb (from_kernel src) ip off n d =
      (let ip' = (if unat off + k > unat (i_size ip1) then ip1\<lparr>i_size := of_nat (unat off + k)\<rparr> else ip1)
       in Inr (int k, ip', iupdate sb ip' d1)) \<and>
    k \<le> length src \<and> wrote sb ip d (unat off) (take k src) ip1 d1 \<and> (k < length src \<longrightarrow> free_blocks sb d1 = {})"
proof -
  have lt: "MAXFILE * BSIZE < 2 ^ 32" by (simp add: MAXFILE_def NDIRECT_def NINDIRECT_def BSIZE_def)
  then have no: "unat (off + n) = unat off + unat n" "\<not> off + n < off"
    using n fits by (auto simp: unat_word_ariths word_less_nat_alt)
  obtain k ip1 d1 where k: "writei_loop sb (from_kernel src) (length src) 0 (unat off) ip d = Inr (k, unat off + k, ip1, d1)"
    "k \<le> length src" "wrote sb ip d (unat off) (take k src) ip1 d1" "k < length src \<longrightarrow> free_blocks sb d1 = {}"
    using writei_loop_ok[of sb d ip 0 src "unat off"] ok fits by (auto simp: file_ok_def)
  have "\<not> off > i_size ip" "\<not> unat (off + n) > MAXFILE * BSIZE" using off no n fits by auto
  then have "writei sb (from_kernel src) ip off n d =
      (let ip' = (if unat off + k > unat (i_size ip1) then ip1\<lparr>i_size := of_nat (unat off + k)\<rparr> else ip1)
       in Inr (int k, ip', iupdate sb ip' d1))"
    using no(2) n k(1) by (simp add: writei_def Let_def)
  then show ?thesis using k by blast
qed

text \<open>Every other file stays as it is, and stays apart from the file written.\<close>

definition others_kept :: "superblock \<Rightarrow> inode \<Rightarrow> fsdisk \<Rightarrow> inode \<Rightarrow> fsdisk \<Rightarrow> bool" where
  "others_kept sb ip d ip' d' \<longleftrightarrow> (\<forall>ip2. file_ok sb ip2 d \<longrightarrow> refs ip2 d \<inter> refs ip d = {} \<longrightarrow>
    file_ok sb ip2 d' \<and> contents ip2 d' = contents ip2 d \<and> refs ip2 d' = refs ip2 d \<and> refs ip2 d' \<inter> refs ip' d' = {})"

text \<open>The inode goes to its place on the disk; what else is before the bitmap stays.\<close>

definition saved :: "superblock \<Rightarrow> inode \<Rightarrow> fsdisk \<Rightarrow> inode \<Rightarrow> fsdisk \<Rightarrow> bool" where
  "saved sb ip d ip' d' \<longleftrightarrow> inum ip' = inum ip \<and> i_type ip' = i_type ip \<and> i_nlink ip' = i_nlink ip \<and>
    (\<exists>d1. d' = iupdate sb ip' d1 \<and> meta_kept sb ip d ip' d1)"

lemma wrote_contents:
  assumes ok: "file_ok sb ip d" and off: "off \<le> unat (i_size ip)" and w: "wrote sb ip d off bs ip1 d1"
    and fits: "off + length bs \<le> MAXFILE * BSIZE"
    and ip': "addrs ip' = addrs ip1" "inum ip' = inum ip" "unat (i_size ip') = max (unat (i_size ip)) (off + length bs)"
  shows "file_ok sb ip' (iupdate sb ip' d1)"
    "contents ip' (iupdate sb ip' d1) = take off (contents ip d) @ bs @ drop (off + length bs) (contents ip d)"
    "others_kept sb ip d ip' (iupdate sb ip' d1)"
proof -
  have ib: "IBLOCK (inum ip') sb < sb_bmapstart sb" using ok ip'(2) by (simp add: file_ok_def)
  note U = iupdate_keeps[OF ib wroteD(1)[OF w]]
  have in1: "c \<in> refs ip1 d1 \<Longrightarrow> data_block sb c \<and> used sb c d1" for c
    using wroteD(2)[OF w] by (auto simp: refs_def inode_ok_def)
  have d1: "iupdate sb ip' d1 c = d1 c" if "c \<in> refs ip1 d1" for c
    using U(3) in1[OF that] by (simp add: data_block_def)
  note C = file_cong[OF wroteD(2)[OF w] ip'(1) d1]
  have s: "unat (i_size ip') \<le> MAXFILE * BSIZE" using ok fits ip'(3) by (simp add: file_ok_def)
  have "file_block ip' (iupdate sb ip' d1) (i div BSIZE) \<noteq> 0" if i: "i < unat (i_size ip')" for i
  proof -
    have "i < unat (i_size ip) \<Longrightarrow> file_block ip d (i div BSIZE) \<noteq> 0" using ok by (simp add: file_ok_def)
    then have "off \<le> i \<and> i < off + length bs \<or> file_block ip d (i div BSIZE) \<noteq> 0"
      using i ip'(3) off by (cases "i < unat (i_size ip)") (auto simp: max_def split: if_splits)
    then show ?thesis using wroteD(4)[OF w, of i] C(2)[of "i div BSIZE"] block_index[of i] i s by simp
  qed
  then show "file_ok sb ip' (iupdate sb ip' d1)"
    using U(1, 2) C(4) in1 ib s by (simp add: file_ok_def)
  show "contents ip' (iupdate sb ip' d1) = take off (contents ip d) @ bs @ drop (off + length bs) (contents ip d)"
  proof (rule nth_equalityI)
    show "length (contents ip' (iupdate sb ip' d1)) = length (take off (contents ip d) @ bs @ drop (off + length bs) (contents ip d))"
      using off ip'(3) by auto
    fix i assume "i < length (contents ip' (iupdate sb ip' d1))"
    then have i: "i < max (unat (i_size ip)) (off + length bs)" "i < MAXFILE * BSIZE" using s ip'(3) by auto
    have "contents ip' (iupdate sb ip' d1) ! i = fbyte ip1 d1 i"
      using i ip'(3) C(3) by (simp add: contents_def)
    then show "contents ip' (iupdate sb ip' d1) ! i = (take off (contents ip d) @ bs @ drop (off + length bs) (contents ip d)) ! i"
      using wroteD(3)[OF w i(2)] off i(1)
      by (auto simp: nth_append contents_def not_less max_def split: if_splits)
  qed
  have "file_ok sb ip2 (iupdate sb ip' d1) \<and> contents ip2 (iupdate sb ip' d1) = contents ip2 d \<and>
      refs ip2 (iupdate sb ip' d1) = refs ip2 d \<and> refs ip2 (iupdate sb ip' d1) \<inter> refs ip' (iupdate sb ip' d1) = {}"
    if o: "file_ok sb ip2 d" "refs ip2 d \<inter> refs ip d = {}" for ip2
  proof -
    have K: "iupdate sb ip' d1 c = d c \<and> used sb c (iupdate sb ip' d1) \<and> c \<notin> refs ip1 d1" if "c \<in> refs ip2 d" for c
    proof -
      have "data_block sb c" "used sb c d" "c \<notin> refs ip d" using that o by (auto simp: file_ok_def inode_ok_def refs_def)
      then show ?thesis using wroteD(5)[OF w, of c] U(2, 3) by (simp add: data_block_def)
    qed
    have ok2: "inode_ok sb ip2 d" "unat (i_size ip2) \<le> MAXFILE * BSIZE" using o(1) by (simp_all add: file_ok_def)
    have E: "iupdate sb ip' d1 c = d c" if "c \<in> refs ip2 d" for c using K[OF that] by simp
    note C2 = file_cong[OF ok2(1) refl[of "addrs ip2"] E]
    have "contents ip2 (iupdate sb ip' d1) = contents ip2 d" using C2(3) ok2(2) by (auto simp: contents_def)
    moreover have "file_ok sb ip2 (iupdate sb ip' d1)"
      using o(1) U(1) C2(4) K C2(2) block_index unfolding file_ok_def by (metis order.strict_trans2)
    moreover have "refs ip2 (iupdate sb ip' d1) \<inter> refs ip' (iupdate sb ip' d1) = {}" using C2(1) C(1) K by auto
    ultimately show ?thesis using C2(1) by simp
  qed
  then show "others_kept sb ip d ip' (iupdate sb ip' d1)" unfolding others_kept_def by blast
qed

lemma writei_ok:
  assumes "file_ok sb ip d" "off \<le> i_size ip" "unat n = length src" "unat off + length src \<le> MAXFILE * BSIZE"
  shows "\<exists>k ip' d'. writei sb (from_kernel src) ip off n d = Inr (int k, ip', d') \<and> k \<le> length src \<and>
    (k < length src \<longrightarrow> free_blocks sb d' = {}) \<and> file_ok sb ip' d' \<and> saved sb ip d ip' d' \<and>
    contents ip' d' = take (unat off) (contents ip d) @ take k src @ drop (unat off + k) (contents ip d) \<and>
    others_kept sb ip d ip' d'"
proof -
  obtain k ip1 d1 where w: "writei sb (from_kernel src) ip off n d =
      (let ip' = (if unat off + k > unat (i_size ip1) then ip1\<lparr>i_size := of_nat (unat off + k)\<rparr> else ip1)
       in Inr (int k, ip', iupdate sb ip' d1))" and k: "k \<le> length src"
    "wrote sb ip d (unat off) (take k src) ip1 d1" "k < length src \<longrightarrow> free_blocks sb d1 = {}"
    using writei_wrote[OF assms] by blast
  define ip' where "ip' = (if unat off + k > unat (i_size ip1) then ip1\<lparr>i_size := of_nat (unat off + k)\<rparr> else ip1)"
  define d' where "d' = iupdate sb ip' d1"
  note e = wroteD(6)[OF k(2)]
  have ip1: "i_size ip1 = i_size ip" "inum ip1 = inum ip" "i_type ip1 = i_type ip"
    using arg_cong[OF e, of i_size] arg_cong[OF e, of inum] arg_cong[OF e, of i_type] by simp_all
  have len: "length (take k src) = k" using k(1) by simp
  have "unat off + k < 2 ^ 32"
    using k(1) assms(4) by (simp add: MAXFILE_def NDIRECT_def NINDIRECT_def BSIZE_def)
  then have "unat (of_nat (unat off + k) :: 32 word) = unat off + k" by (rule unat_small)
  then have ip': "addrs ip' = addrs ip1" "inum ip' = inum ip" "unat (i_size ip') = max (unat (i_size ip)) (unat off + length (take k src))"
    using ip1 len by (auto simp: ip'_def simp del: of_nat_add)
  have off: "unat off \<le> unat (i_size ip)" using assms(2) by (simp add: word_le_nat_alt)
  have fit: "unat off + length (take k src) \<le> MAXFILE * BSIZE" using assms(4) k(1) by simp
  note W = wrote_contents[OF assms(1) off k(2) fit ip', folded d'_def]
  have "writei sb (from_kernel src) ip off n d = Inr (int k, ip', d')" using w by (simp add: ip'_def d'_def Let_def)
  moreover have "free_blocks sb d' = free_blocks sb d1"
    using iupdate_keeps(4)[OF _ wroteD(1)[OF k(2)]] assms(1) ip'(2) by (simp add: d'_def file_ok_def)
  moreover have "saved sb ip d ip' d'"
  proof -
    have "i_nlink ip1 = i_nlink ip" using arg_cong[OF e, of i_nlink] by simp
    then have "inum ip' = inum ip \<and> i_type ip' = i_type ip \<and> i_nlink ip' = i_nlink ip" using ip1 by (simp add: ip'_def)
    moreover have "meta_kept sb ip d ip' d1" using wroteD(7)[OF k(2)] ip'(1) by (simp add: meta_kept_def)
    ultimately show ?thesis unfolding saved_def d'_def by blast
  qed
  ultimately show ?thesis using W k(1, 3) len by auto
qed

end
