(* ===== verification/Fs_Names.thy ===== *)
theory Fs_Names
  imports Fs_Files Cstring
begin

unbundle bit_operations_syntax

text \<open>
  Directories and path names, the upper layers of \<^verbatim>\<open>kernel/fs.c\<close>. A directory is a file of entries
  of sixteen bytes, a little-endian inode number and a name of at most fourteen bytes; a name is a
  list of bytes, read as if zeros followed it. An inode is identified by its number and read from
  its place on the disk; the counting of references to in-memory inodes is not part of this model.
\<close>

section \<open>Names and entries\<close>

definition DIRSIZ :: nat where "DIRSIZ = 14"

definition char0 :: "byte list \<Rightarrow> byte" where
  "char0 s = (case s of [] \<Rightarrow> 0 | c # _ \<Rightarrow> c)"

primrec str_ncmp :: "nat \<Rightarrow> byte list \<Rightarrow> byte list \<Rightarrow> int" where
  "str_ncmp 0 p q = 0"
| "str_ncmp (Suc n) p q =
    (if char0 p \<noteq> 0 \<and> char0 p = char0 q then str_ncmp n (tl p) (tl q) else uint (char0 p) - uint (char0 q))"

definition namecmp :: "byte list \<Rightarrow> byte list \<Rightarrow> int" where
  "namecmp s t = str_ncmp DIRSIZ s t"

definition de_inum :: "byte list \<Rightarrow> nat" where
  "de_inum e = unat (e ! 0) + 256 * unat (e ! 1)"

definition de_name :: "byte list \<Rightarrow> byte list" where
  "de_name e = drop 2 e"

text \<open>The entry \<^verbatim>\<open>dirlink\<close> writes: \<^verbatim>\<open>strncpy\<close> cuts the name off or fills it up with zeros.\<close>

definition dirent :: "nat \<Rightarrow> byte list \<Rightarrow> byte list" where
  "dirent i name = [of_nat i, of_nat (i div 256)] @ take DIRSIZ (name @ replicate DIRSIZ 0)"

section \<open>Directories\<close>

lemma below_size: "off < unat (n :: 32 word) \<Longrightarrow> off < 4294967296"
  using unsigned_less[of n, where 'a = nat] by simp

function dirlookup_loop :: "superblock \<Rightarrow> byte list \<Rightarrow> nat \<Rightarrow> inode \<Rightarrow> fsdisk \<Rightarrow>
    fault + ((nat \<times> nat) option \<times> inode \<times> fsdisk)" where
  "dirlookup_loop sb name off dp d =
    (if off < unat (i_size dp) then
       rbind (readi sb (\<lambda>_ _. True) dp (of_nat off) 16 d) (\<lambda>(r, de, dp, d).
         if r \<noteq> 16 then Inl (Panic ''dirlookup read'')
         else if de_inum de = 0 then dirlookup_loop sb name (off + 16) dp d
         else if namecmp name (de_name de) = 0 then Inr (Some (de_inum de, off), dp, d)
         else dirlookup_loop sb name (off + 16) dp d)
     else Inr (None, dp, d))"
  by auto
termination
  by (relation "measure (\<lambda>(sb, name, off, dp, d). 4294967296 - off)") (auto dest: below_size)

declare dirlookup_loop.simps [simp del]

definition dirlookup :: "superblock \<Rightarrow> inode \<Rightarrow> byte list \<Rightarrow> fsdisk \<Rightarrow> fault + ((nat \<times> nat) option \<times> inode \<times> fsdisk)" where
  "dirlookup sb dp name d =
    (if i_type dp \<noteq> T_DIR then Inl (Panic ''dirlookup not DIR'') else dirlookup_loop sb name 0 dp d)"

function free_dirent :: "superblock \<Rightarrow> nat \<Rightarrow> inode \<Rightarrow> fsdisk \<Rightarrow> fault + (nat \<times> inode \<times> fsdisk)" where
  "free_dirent sb off dp d =
    (if off < unat (i_size dp) then
       rbind (readi sb (\<lambda>_ _. True) dp (of_nat off) 16 d) (\<lambda>(r, de, dp, d).
         if r \<noteq> 16 then Inl (Panic ''dirlink read'')
         else if de_inum de = 0 then Inr (off, dp, d)
         else free_dirent sb (off + 16) dp d)
     else Inr (off, dp, d))"
  by auto
termination
  by (relation "measure (\<lambda>(sb, off, dp, d). 4294967296 - off)") (auto dest: below_size)

declare free_dirent.simps [simp del]

definition dirlink :: "superblock \<Rightarrow> inode \<Rightarrow> byte list \<Rightarrow> nat \<Rightarrow> fsdisk \<Rightarrow> fault + (int \<times> inode \<times> fsdisk)" where
  "dirlink sb dp name i d =
    rbind (dirlookup sb dp name d) (\<lambda>(found, dp, d).
    if found \<noteq> None then Inr (-1, dp, d)
    else rbind (free_dirent sb 0 dp d) (\<lambda>(off, dp, d).
    rbind (writei sb (from_kernel (dirent i name)) dp (of_nat off) 16 d) (\<lambda>(r, dp, d).
    if r \<noteq> 16 then Inr (-1, dp, d) else Inr (0, dp, d))))"

section \<open>Paths\<close>

text \<open>The next element of a path, at most fourteen bytes of it, and what follows.\<close>

definition skipelem :: "byte list \<Rightarrow> (byte list \<times> byte list) option" where
  "skipelem path =
    (let s = dropWhile (\<lambda>c. c = 47) path in
     if s = [] then None
     else Some (take DIRSIZ (takeWhile (\<lambda>c. c \<noteq> 47) s), dropWhile (\<lambda>c. c = 47) (dropWhile (\<lambda>c. c \<noteq> 47) s)))"

lemma skipelem_shorter: "skipelem path = Some (name, path') \<Longrightarrow> length path' < length path"
proof -
  let ?s = "dropWhile (\<lambda>c. c = 47) path"
  assume "skipelem path = Some (name, path')"
  then have s: "?s \<noteq> []" "path' = dropWhile (\<lambda>c. c = 47) (dropWhile (\<lambda>c. c \<noteq> 47) ?s)"
    by (auto simp: skipelem_def Let_def split: if_splits)
  then obtain c r where c: "?s = c # r" by (cases ?s) auto
  then have "c \<noteq> 47" using hd_dropWhile[of "\<lambda>c. c = 47" path] by simp
  have "length path' \<le> length (dropWhile (\<lambda>c. c \<noteq> 47) r)" using s(2) c \<open>c \<noteq> 47\<close> by (simp add: length_dropWhile_le)
  also have "\<dots> \<le> length r" by (rule length_dropWhile_le)
  also have "\<dots> < length ?s" using c by simp
  also have "\<dots> \<le> length path" by (rule length_dropWhile_le)
  finally show ?thesis .
qed

text \<open>The inode of a number, as \<^verbatim>\<open>ilock\<close> reads it from its place in the block of the inode.\<close>

definition read_inode :: "superblock \<Rightarrow> nat \<Rightarrow> fsdisk \<Rightarrow> inode" where
  "read_inode sb i d =
    (let w = (\<lambda>j. d (IBLOCK i sb) (i mod IPB * 16 + j)) in
     \<lparr>inum = i, i_type = ucast (w 0), i_major = ucast (drop_bit 16 (w 0)),
      i_minor = ucast (w 1), i_nlink = ucast (drop_bit 16 (w 1)), i_size = w 2,
      addrs = (\<lambda>k. if k \<le> NDIRECT then w (3 + k) else 0)\<rparr>)"

function namex :: "superblock \<Rightarrow> bool \<Rightarrow> byte list \<Rightarrow> nat \<Rightarrow> fsdisk \<Rightarrow> fault + ((nat \<times> byte list) option \<times> fsdisk)" where
  "namex sb nameiparent path ip d =
    (case skipelem path of
       None \<Rightarrow> Inr (if nameiparent then None else Some (ip, []), d)
     | Some (name, path) \<Rightarrow>
         let dp = read_inode sb ip d in
         if i_type dp = 0 then Inl (Panic ''ilock: no type'')
         else if i_type dp \<noteq> T_DIR then Inr (None, d)
         else if nameiparent \<and> path = [] then Inr (Some (ip, name), d)
         else rbind (dirlookup sb dp name d) (\<lambda>(next, dp, d).
           case next of None \<Rightarrow> Inr (None, d) | Some (i, _) \<Rightarrow> namex sb nameiparent path i d))"
  by auto
termination
  by (relation "measure (\<lambda>(sb, nameiparent, path, ip, d). length path)") (auto dest: skipelem_shorter)

declare namex.simps [simp del]

definition ROOTINO :: nat where "ROOTINO = 1"

definition namei :: "superblock \<Rightarrow> byte list \<Rightarrow> nat \<Rightarrow> fsdisk \<Rightarrow> fault + ((nat \<times> byte list) option \<times> fsdisk)" where
  "namei sb path cwd d = namex sb False path (if char0 path = 47 then ROOTINO else cwd) d"

definition nameiparent :: "superblock \<Rightarrow> byte list \<Rightarrow> nat \<Rightarrow> fsdisk \<Rightarrow> fault + ((nat \<times> byte list) option \<times> fsdisk)" where
  "nameiparent sb path cwd d = namex sb True path (if char0 path = 47 then ROOTINO else cwd) d"

section \<open>Names are compared by their first fourteen bytes\<close>

definition name_key :: "byte list \<Rightarrow> byte list" where
  "name_key s = take DIRSIZ (takeWhile (\<lambda>c. c \<noteq> 0) s)"

lemma str_ncmp_0_iff: "str_ncmp n p q = 0 \<longleftrightarrow> take n (takeWhile (\<lambda>c. c \<noteq> 0) p) = take n (takeWhile (\<lambda>c. c \<noteq> 0) q)"
proof (induction n arbitrary: p q)
  case (Suc n)
  then show ?case
    by (cases p; cases q) (auto simp: char0_def uint_0_iff simp flip: word_uint_eq_iff)
qed simp

text \<open>It is \<^verbatim>\<open>strncmp\<close> on strings that lie in memory.\<close>

lemma strncmp_bytes:
  assumes "\<And>k. k < n \<Longrightarrow> m (p + k) = char0 (drop k s)" "\<And>k. k < n \<Longrightarrow> m (q + k) = char0 (drop k t)"
  shows "strncmp p q n m = str_ncmp n s t"
  using assms
proof (induction n arbitrary: p q s t)
  case (Suc n)
  have "strncmp (Suc p) (Suc q) n m = str_ncmp n (tl s) (tl t)"
    using Suc.prems(1)[of "Suc _"] Suc.prems(2)[of "Suc _"] by (intro Suc.IH) (simp_all add: drop_Suc)
  then show ?case using Suc.prems(1)[of 0] Suc.prems(2)[of 0] by simp
qed simp

lemma namecmp_0_iff: "namecmp s t = 0 \<longleftrightarrow> name_key s = name_key t"
  by (simp add: namecmp_def name_key_def str_ncmp_0_iff)

lemma takeWhile_take: "takeWhile P (take n xs) = take n (takeWhile P xs)"
  by (induction xs arbitrary: n) (auto simp: take_Cons split: nat.splits)

lemma takeWhile_pad: "takeWhile (\<lambda>c. c \<noteq> 0) (s @ replicate n (0 :: byte)) = takeWhile (\<lambda>c. c \<noteq> 0) s"
  by (induction s) (cases n, auto)

lemma dirent_fields [simp]:
  "length (dirent i name) = 16" "i < 2 ^ 16 \<Longrightarrow> de_inum (dirent i name) = i" "name_key (de_name (dirent i name)) = name_key name"
proof -
  show "length (dirent i name) = 16" by (simp add: dirent_def DIRSIZ_def)
  show "de_inum (dirent i name) = i" if "i < 2 ^ 16"
    using that by (simp add: de_inum_def dirent_def unat_of_nat)
  show "name_key (de_name (dirent i name)) = name_key name"
    by (simp add: name_key_def de_name_def dirent_def takeWhile_take takeWhile_pad del: take_append)
qed

section \<open>A directory as a finite map\<close>

definition dir_ok :: "superblock \<Rightarrow> inode \<Rightarrow> fsdisk \<Rightarrow> bool" where
  "dir_ok sb dp d \<longleftrightarrow> file_ok sb dp d \<and> i_type dp = T_DIR \<and> unat (i_size dp) mod 16 = 0"

definition dir_entry :: "byte list \<Rightarrow> nat \<Rightarrow> byte list" where
  "dir_entry cs k = take 16 (drop (16 * k) cs)"

definition entry_at :: "byte list \<Rightarrow> byte list \<Rightarrow> nat \<Rightarrow> bool" where
  "entry_at cs name k \<longleftrightarrow> de_inum (dir_entry cs k) \<noteq> 0 \<and> namecmp name (de_name (dir_entry cs k)) = 0"

definition dir_map :: "byte list \<Rightarrow> byte list \<Rightarrow> nat option" where
  "dir_map cs name = map_option (\<lambda>k. de_inum (dir_entry cs k)) (find (entry_at cs name) [0..<length cs div 16])"

lemma readi_entry:
  assumes "dir_ok sb dp d" "k < unat (i_size dp) div 16"
  shows "readi sb (\<lambda>_ _. True) dp (of_nat (16 * k)) 16 d = Inr (16, dir_entry (contents dp d) k, dp, d)"
    "16 * k < unat (i_size dp)"
proof -
  show k: "16 * k < unat (i_size dp)" using assms(2) by simp
  have ok: "file_ok sb dp d" using assms(1) by (simp add: dir_ok_def)
  have s: "unat (i_size dp) = 16 * (unat (i_size dp) div 16)" using assms(1) by (auto simp: dir_ok_def)
  have le: "16 * k + 16 \<le> unat (i_size dp)" using assms(2) by (subst s) simp
  have lt: "unat (i_size dp) \<le> 274432" using ok by (simp add: file_ok_def MAXFILE_def NDIRECT_def NINDIRECT_def BSIZE_def)
  have u: "unat (of_nat (16 * k) :: 32 word) = 16 * k" using k lt by (intro unat_small) simp
  have off: "of_nat (16 * k) \<le> i_size dp" using u k unfolding word_le_nat_alt by simp
  show "readi sb (\<lambda>_ _. True) dp (of_nat (16 * k)) 16 d = Inr (16, dir_entry (contents dp d) k, dp, d)"
    using readi_contents[OF ok off, of 16] le lt unfolding u by (simp add: dir_entry_def Let_def)
qed

lemma entries_end: "dir_ok sb dp d \<Longrightarrow> k = unat (i_size dp) div 16 \<Longrightarrow> 16 * k = unat (i_size dp)"
  by (auto simp: dir_ok_def)

lemma dirlookup_loop_ok:
  assumes "dir_ok sb dp d" "k \<le> unat (i_size dp) div 16"
  shows "dirlookup_loop sb name (16 * k) dp d =
    Inr (map_option (\<lambda>k. (de_inum (dir_entry (contents dp d) k), 16 * k))
      (find (entry_at (contents dp d) name) [k..<unat (i_size dp) div 16]), dp, d)"
  using assms(2)
proof (induction k rule: inc_induct)
  case base
  then show ?case using entries_end[OF assms(1) refl] by (subst dirlookup_loop.simps) simp
next
  case (step k)
  have nxt: "16 * k + 16 = 16 * Suc k" by simp
  show ?case
    using readi_entry[OF assms(1) step(2)] step(3) unfolding upt_conv_Cons[OF step(2)]
    by (subst dirlookup_loop.simps) (simp add: nxt entry_at_def[of _ _ k] del: mult_Suc_right)
qed

lemma dirlookup_ok:
  assumes "dir_ok sb dp d"
  shows "dirlookup sb dp name d =
    Inr (map_option (\<lambda>k. (de_inum (dir_entry (contents dp d) k), 16 * k))
      (find (entry_at (contents dp d) name) [0..<unat (i_size dp) div 16]), dp, d)"
  using dirlookup_loop_ok[OF assms, of 0] assms by (simp add: dirlookup_def dir_ok_def)

lemma dirlookup_map: "dir_ok sb dp d \<Longrightarrow> \<exists>x. dirlookup sb dp name d = Inr (x, dp, d) \<and> map_option fst x = dir_map (contents dp d) name"
  by (simp add: dirlookup_ok dir_map_def option.map_comp comp_def)

lemma free_dirent_ok:
  assumes "dir_ok sb dp d" "k \<le> unat (i_size dp) div 16"
  shows "\<exists>j. free_dirent sb (16 * k) dp d = Inr (16 * j, dp, d) \<and> k \<le> j \<and> j \<le> unat (i_size dp) div 16 \<and>
    (j < unat (i_size dp) div 16 \<longrightarrow> de_inum (dir_entry (contents dp d) j) = 0)"
  using assms(2)
proof (induction k rule: inc_induct)
  case base
  then show ?case using entries_end[OF assms(1) refl] by (subst free_dirent.simps) (auto intro!: exI[of _ "unat (i_size dp) div 16"])
next
  case (step k)
  have nxt: "16 * k + 16 = 16 * Suc k" by simp
  show ?case
  proof (cases "de_inum (dir_entry (contents dp d) k) = 0")
    case True
    then show ?thesis using readi_entry[OF assms(1) step(2)] step(2) by (subst free_dirent.simps) auto
  next
    case False
    have "free_dirent sb (16 * k) dp d = free_dirent sb (16 * Suc k) dp d"
      using readi_entry[OF assms(1) step(2)] False by (subst free_dirent.simps) (simp add: nxt del: mult_Suc_right)
    then show ?thesis using step(3) Suc_leD by metis
  qed
qed

lemma slots_of:
  fixes k :: nat
  assumes "length cs mod 16 = 0" "j < length cs div 16"
  shows "16 * j + 16 \<le> length cs"
proof -
  have "length cs = 16 * (length cs div 16)" using assms(1) by auto
  then show ?thesis using assms(2) by simp
qed

lemma dir_entry_put:
  assumes "length cs mod 16 = 0" "k \<le> length cs div 16" "length e = 16" "cs' = take (16 * k) cs @ e @ drop (16 * k + 16) cs"
  shows "length cs' div 16 = max (length cs div 16) (Suc k)" "length cs' mod 16 = 0"
    "j < length cs' div 16 \<Longrightarrow> dir_entry cs' j = (if j = k then e else dir_entry cs j)"
proof -
  have k: "16 * k \<le> length cs" using assms(2) by simp
  have n: "length cs = 16 * (length cs div 16)" using assms(1) by auto
  have "length cs' = 16 * max (length cs div 16) (Suc k)"
  proof (cases "k < length cs div 16")
    case True
    then show ?thesis using slots_of[OF assms(1) True] assms(3) n by (simp add: assms(4))
  next
    case False
    then have "k = length cs div 16" using assms(2) by simp
    then show ?thesis using n assms(3) by (simp add: assms(4))
  qed
  then show L: "length cs' div 16 = max (length cs div 16) (Suc k)" "length cs' mod 16 = 0" by simp_all
  have e: "dir_entry cs' k = e" using k assms(3) by (simp add: dir_entry_def assms(4))
  have below: "dir_entry cs' j = dir_entry cs j" if "j < k"
  proof -
    have "16 * j + 16 \<le> 16 * k" using that by simp
    then show ?thesis using k by (simp add: dir_entry_def assms(4) drop_take)
  qed
  have above: "dir_entry cs' j = dir_entry cs j" if kj: "k < j" "j < length cs div 16"
  proof -
    obtain i where "j = Suc (k + i)" using less_imp_Suc_add[OF kj(1)] by blast
    then show ?thesis using k assms(3) by (simp add: dir_entry_def assms(4) ac_simps)
  qed
  assume "j < length cs' div 16"
  then show "dir_entry cs' j = (if j = k then e else dir_entry cs j)"
    using e below above L(1) by (cases j k rule: linorder_cases) auto
qed

lemma find_upt_unique:
  assumes "k < n" "P k" "\<And>j. j < n \<Longrightarrow> P j \<Longrightarrow> j = k"
  shows "find P [0..<n] = Some k"
proof -
  have "\<not> P j" if "j < k" for j using that assms(1) assms(3)[of j] by auto
  then show ?thesis using assms(1, 2) by (auto simp: find_Some_iff intro!: exI[of _ k])
qed

lemma find_upt_grown:
  assumes "n \<le> n'" "\<And>j. j < n' \<Longrightarrow> Q j \<longleftrightarrow> j < n \<and> P j"
  shows "find Q [0..<n'] = find P [0..<n]"
proof (cases "find P [0..<n]")
  case None
  then have "find Q [0..<n'] = None" using assms(2) by (auto simp: find_None_iff)
  then show ?thesis using None by simp
next
  case (Some k)
  then have "k < n" "P k" "\<forall>j < k. \<not> P j" using find_Some_upt[OF Some] by auto
  then have "find Q [0..<n'] = Some k" using assms by (auto simp: find_Some_iff intro!: exI[of _ k])
  then show ?thesis using Some by simp
qed

text \<open>Overwriting an unused entry, or appending one, binds the name and nothing else.\<close>

lemma dir_map_put:
  assumes "length cs mod 16 = 0" "k \<le> length cs div 16" "cs' = take (16 * k) cs @ dirent i name @ drop (16 * k + 16) cs"
    and i: "0 < i" "i < 2 ^ 16" and free: "k < length cs div 16 \<longrightarrow> de_inum (dir_entry cs k) = 0"
    and new: "dir_map cs name = None"
  shows "dir_map cs' x = (if namecmp x name = 0 then Some i else dir_map cs x)"
proof -
  note P = dir_entry_put[OF assms(1, 2) dirent_fields(1) assms(3)]
  have at: "entry_at cs' x j \<longleftrightarrow> (if j = k then namecmp x name = 0 else entry_at cs x j)" if "j < length cs' div 16" for j
    using P(3)[OF that] i by (simp add: entry_at_def namecmp_0_iff)
  have other: "j < length cs div 16" if "j < length cs' div 16" "j \<noteq> k" for j using that P(1) assms(2) by (auto simp: max_def split: if_splits)
  show ?thesis
  proof (cases "namecmp x name = 0")
    case True
    then have "\<not> entry_at cs x j" if "j < length cs div 16" for j
      using new that by (auto simp: dir_map_def find_None_iff entry_at_def namecmp_0_iff)
    then have "j = k" if "j < length cs' div 16" "entry_at cs' x j" for j using at[OF that(1)] other[OF that(1)] that(2) by presburger
    then have "find (entry_at cs' x) [0..<length cs' div 16] = Some k"
      using True at[of k] P(1) by (intro find_upt_unique) auto
    then show ?thesis using True P(1) P(3)[of k] i by (simp add: dir_map_def)
  next
    case False
    have nk: "\<not> entry_at cs x k" if "k < length cs div 16" using free that by (simp add: entry_at_def)
    have "find (entry_at cs' x) [0..<length cs' div 16] = find (entry_at cs x) [0..<length cs div 16]"
      using P(1) at other nk False by (intro find_upt_grown) auto
    moreover have "de_inum (dir_entry cs' j) = de_inum (dir_entry cs j)" if "find (entry_at cs x) [0..<length cs div 16] = Some j" for j
      using find_Some_upt[OF that] nk P(1) P(3)[of j] by auto
    ultimately show ?thesis using False by (cases "find (entry_at cs x) [0..<length cs div 16]") (auto simp: dir_map_def)
  qed
qed

text \<open>The write of one entry stays within a block: it happens completely or not at all.\<close>

lemma entry_write:
  assumes ok: "dir_ok sb dp d" and k: "k \<le> unat (i_size dp) div 16" and e: "length e = 16"
  shows "\<exists>r dp' d'. writei sb (from_kernel e) dp (of_nat (16 * k)) 16 d = Inr (r, dp', d') \<and> file_ok sb dp' d' \<and> (saved sb dp d dp' d' \<or> dp' = dp \<and> d' = d) \<and> others_kept sb dp d dp' d' \<and>
    (r = 16 \<and> contents dp' d' = take (16 * k) (contents dp d) @ e @ drop (16 * k + 16) (contents dp d) \<or>
     r \<noteq> 16 \<and> contents dp' d' = contents dp d \<and> (free_blocks sb d' = {} \<or> unat (i_size dp) = MAXFILE * BSIZE))"
proof -
  have fok: "file_ok sb dp d" and m: "unat (i_size dp) mod 16 = 0" using ok by (auto simp: dir_ok_def)
  have lt: "unat (i_size dp) \<le> MAXFILE * BSIZE" using fok by (simp add: file_ok_def)
  have M: "MAXFILE * BSIZE = 274432" by (simp add: MAXFILE_def NDIRECT_def NINDIRECT_def BSIZE_def)
  have le: "16 * k \<le> unat (i_size dp)" using k by simp
  have u: "unat (of_nat (16 * k) :: 32 word) = 16 * k" using le lt M by (intro unat_small) simp
  have off: "of_nat (16 * k) \<le> i_size dp" using u le unfolding word_le_nat_alt by simp
  show ?thesis
  proof (cases "16 * k + 16 \<le> MAXFILE * BSIZE")
    case True
    have "unat (16 :: 32 word) = length e" "unat (of_nat (16 * k) :: 32 word) + length e \<le> MAXFILE * BSIZE" using u e True by simp_all
    from writei_ok[OF fok off this] obtain n dp' d' where
      w: "writei sb (from_kernel e) dp (of_nat (16 * k)) 16 d = Inr (int n, dp', d')" and
      n: "n \<le> 16" "n < 16 \<longrightarrow> free_blocks sb d' = {}" "file_ok sb dp' d'" "saved sb dp d dp' d'"
        "contents dp' d' = take (16 * k) (contents dp d) @ take n e @ drop (16 * k + n) (contents dp d)"
        "others_kept sb dp d dp' d'"
      unfolding u e by blast
    have "\<exists>x. writei_loop sb (from_kernel e) (length e) 0 (16 * k) dp d = Inr (n, x)"
      using w u e unfolding writei_def
      by (cases "writei_loop sb (from_kernel e) 16 0 (16 * k) dp d") (auto simp: Let_def split: if_splits)
    then obtain x where "writei_loop sb (from_kernel e) (length e) 0 (16 * k) dp d = Inr (n, x)" ..
    moreover have "16 * k mod BSIZE + length e \<le> BSIZE"
    proof -
      have "16 * k mod BSIZE = 16 * (k mod 64)" by (simp add: BSIZE_def mult_mod_right)
      moreover have "k mod 64 < 64" by simp
      ultimately show ?thesis using e by (simp add: BSIZE_def)
    qed
    ultimately have "n = 0 \<or> n = 16" using writei_loop_chunk[of "16 * k" e] e by fastforce
    then show ?thesis
      using w n e by (elim disjE) auto
  next
    case False
    have big: "unat (of_nat (16 * k) + 16 :: 32 word) = 16 * k + 16"
      using u le lt M by (simp add: unat_word_ariths)
    then have "\<not> of_nat (16 * k) + 16 < (of_nat (16 * k) :: 32 word)" using u unfolding word_less_nat_alt by simp
    then have "writei sb (from_kernel e) dp (of_nat (16 * k)) 16 d = Inr (- 1, dp, d)"
      using off big False unfolding writei_def by auto
    moreover have "unat (i_size dp) = MAXFILE * BSIZE" using False le lt M m by presburger
    moreover have "others_kept sb dp d dp d" by (simp add: others_kept_def)
    ultimately show ?thesis using fok by auto
  qed
qed

definition linked :: "superblock \<Rightarrow> inode \<Rightarrow> fsdisk \<Rightarrow> byte list \<Rightarrow> nat \<Rightarrow> int \<Rightarrow> inode \<Rightarrow> fsdisk \<Rightarrow> bool" where
  "linked sb dp d name i r dp' d' \<longleftrightarrow>
    (case dir_map (contents dp d) name of
       Some _ \<Rightarrow> r = -1 \<and> dp' = dp \<and> d' = d
     | None \<Rightarrow>
         r = 0 \<and> (\<forall>x. dir_map (contents dp' d') x = (if namecmp x name = 0 then Some i else dir_map (contents dp d) x)) \<or>
         r = -1 \<and> contents dp' d' = contents dp d \<and> (free_blocks sb d' = {} \<or> unat (i_size dp) = MAXFILE * BSIZE))"

lemma dirlink_ok:
  assumes ok: "dir_ok sb dp d" and i: "0 < i" "i < 2 ^ 16"
  shows "\<exists>r dp' d'. dirlink sb dp name i d = Inr (r, dp', d') \<and> dir_ok sb dp' d' \<and> linked sb dp d name i r dp' d' \<and>
    (saved sb dp d dp' d' \<or> dp' = dp \<and> d' = d) \<and> others_kept sb dp d dp' d'"
proof -
  obtain x where x: "dirlookup sb dp name d = Inr (x, dp, d)" "map_option fst x = dir_map (contents dp d) name"
    using dirlookup_map[OF ok] by blast
  show ?thesis
  proof (cases x)
    case (Some y)
    then have "dirlink sb dp name i d = Inr (- 1, dp, d)" "dir_map (contents dp d) name = Some (fst y)"
      using x(1) x(2)[symmetric] by (auto simp: dirlink_def)
    then show ?thesis using ok by (auto simp: linked_def others_kept_def)
  next
    case None
    then have new: "dir_map (contents dp d) name = None" using x(2) by simp
    obtain k where k: "free_dirent sb 0 dp d = Inr (16 * k, dp, d)" "k \<le> unat (i_size dp) div 16"
      "k < unat (i_size dp) div 16 \<longrightarrow> de_inum (dir_entry (contents dp d) k) = 0"
      using free_dirent_ok[OF ok, of 0] by auto
    obtain r dp' d' where w: "writei sb (from_kernel (dirent i name)) dp (of_nat (16 * k)) 16 d = Inr (r, dp', d')"
      and W: "file_ok sb dp' d'" "saved sb dp d dp' d' \<or> dp' = dp \<and> d' = d" "others_kept sb dp d dp' d'"
        "r = 16 \<and> contents dp' d' = take (16 * k) (contents dp d) @ dirent i name @ drop (16 * k + 16) (contents dp d) \<or>
         r \<noteq> 16 \<and> contents dp' d' = contents dp d \<and> (free_blocks sb d' = {} \<or> unat (i_size dp) = MAXFILE * BSIZE)"
      using entry_write[OF ok k(2) dirent_fields(1)] by blast
    have run: "dirlink sb dp name i d = Inr (if r = 16 then 0 else - 1, dp', d')"
      using x None k(1) w by (simp add: dirlink_def)
    have ty: "i_type dp' = i_type dp" using W(2) by (auto simp: saved_def)
    have m: "length (contents dp d) mod 16 = 0" using ok by (simp add: dir_ok_def)
    have "dir_ok sb dp' d' \<and> linked sb dp d name i (if r = 16 then 0 else - 1) dp' d'"
    proof (cases "r = 16")
      case True
      then have c: "contents dp' d' = take (16 * k) (contents dp d) @ dirent i name @ drop (16 * k + 16) (contents dp d)"
        using W(4) by simp
      have k': "k \<le> length (contents dp d) div 16" "k < length (contents dp d) div 16 \<longrightarrow> de_inum (dir_entry (contents dp d) k) = 0"
        using k by simp_all
      have "unat (i_size dp') mod 16 = 0" using dir_entry_put(2)[OF m k'(1) dirent_fields(1) c] by simp
      then show ?thesis
        using True W(1) ty ok new dir_map_put[OF m k'(1) c i k'(2) new] by (simp add: dir_ok_def linked_def)
    next
      case False
      then have same: "contents dp' d' = contents dp d" using W(4) by simp
      then have "unat (i_size dp') = unat (i_size dp)" by (metis contents_length)
      then show ?thesis using False same W(1, 4) ty ok new by (simp add: dir_ok_def linked_def)
    qed
    then show ?thesis using run W(2, 3) by blast
  qed
qed

text \<open>
  A directory is a map from names, which count up to their fourteenth byte, to inode numbers,
  and looking up is its application. Linking a new name binds it to the given inode and keeps every
  other binding; a name already there is refused with nothing changed; when the disk or the directory
  is full, linking fails and all bindings stay. No other file changes and no panic is reached.
\<close>

theorem dir_link_lookup:
  assumes "dir_ok sb dp d" "0 < i" "i < 2 ^ 16"
  shows "\<exists>r dp' d'. dirlink sb dp name i d = Inr (r, dp', d') \<and> dir_ok sb dp' d' \<and> linked sb dp d name i r dp' d' \<and>
    (\<forall>x. \<exists>y. dirlookup sb dp' x d' = Inr (y, dp', d') \<and> map_option fst y = dir_map (contents dp' d') x) \<and>
    others_kept sb dp d dp' d'"
  using dirlink_ok[OF assms, of name] dirlookup_map by blast

definition empty_dir :: inode where
  "empty_dir = empty_inode\<lparr>i_type := T_DIR\<rparr>"

lemma empty_dir_ok: "dir_ok small_sb empty_dir small_disk"
proof -
  have "IBLOCK (inum empty_dir) small_sb < sb_bmapstart small_sb"
    by (simp add: IBLOCK_def IPB_def empty_dir_def empty_inode_def small_sb_def)
  moreover have "inode_ok small_sb empty_dir small_disk"
    by (simp add: inode_ok_def ref_def empty_dir_def empty_inode_def)
  ultimately show ?thesis using small_ok(1) by (simp add: dir_ok_def file_ok_def) (simp add: empty_dir_def empty_inode_def)
qed

text \<open>The name \<^verbatim>\<open>ab\<close> linked in an empty directory on a fresh disk.\<close>

theorem dir_link_lookup_witness:
  "\<exists>r dp' d'. dirlink small_sb empty_dir [97, 98] 2 small_disk = Inr (r, dp', d') \<and>
    linked small_sb empty_dir small_disk [97, 98] 2 r dp' d'"
  using dir_link_lookup[OF empty_dir_ok, of 2 "[97, 98]"] by auto

section \<open>Paths as lists of names\<close>

text \<open>The pieces between the slashes, and what a path names: the pieces that are not empty, cut off.\<close>

fun split_slash :: "byte list \<Rightarrow> byte list list" where
  "split_slash [] = [[]]"
| "split_slash (c # s) = (if c = 47 then [] # split_slash s else (c # hd (split_slash s)) # tl (split_slash s))"

definition path_names :: "byte list \<Rightarrow> byte list list" where
  "path_names path = map (take DIRSIZ) (filter (\<lambda>e. e \<noteq> []) (split_slash path))"

lemma split_slash_Cons: "split_slash s \<noteq> []"
  by (cases s) auto

lemma split_slash_piece:
  "split_slash s = takeWhile (\<lambda>c. c \<noteq> 47) s #
    (case dropWhile (\<lambda>c. c \<noteq> 47) s of [] \<Rightarrow> [] | _ # r \<Rightarrow> split_slash r)"
  by (induction s) auto

lemma path_names_slashes: "path_names (dropWhile (\<lambda>c. c = 47) path) = path_names path"
  by (induction path) (auto simp: path_names_def)

lemma path_names_skipelem:
  "path_names path = (case skipelem path of None \<Rightarrow> [] | Some (name, path') \<Rightarrow> name # path_names path')"
proof -
  define s where "s = dropWhile (\<lambda>c. c = 47) path"
  have same: "path_names s = path_names path" unfolding s_def by (rule path_names_slashes)
  show ?thesis
  proof (cases s)
    case Nil
    then have "path_names path = []" using same by (simp add: path_names_def)
    then show ?thesis using Nil by (simp add: skipelem_def s_def[symmetric])
  next
    case (Cons c r)
    then have "c \<noteq> 47" using hd_dropWhile[of "\<lambda>c. c = 47" path] by (simp add: s_def)
    then have piece: "takeWhile (\<lambda>c. c \<noteq> 47) s \<noteq> []" using Cons by simp
    let ?t = "dropWhile (\<lambda>c. c \<noteq> 47) s"
    have "path_names s = take DIRSIZ (takeWhile (\<lambda>c. c \<noteq> 47) s) # path_names (dropWhile (\<lambda>c. c = 47) ?t)"
    proof (cases ?t)
      case Nil
      then show ?thesis using split_slash_piece[of s] piece unfolding Nil by (simp add: path_names_def)
    next
      case (Cons e u)
      then have "e = 47" using hd_dropWhile[of "\<lambda>c. c \<noteq> 47" s] by simp
      then have "path_names (dropWhile (\<lambda>c. c = 47) ?t) = path_names u" using Cons by (simp add: path_names_slashes)
      then show ?thesis using split_slash_piece[of s] piece Cons by (simp add: path_names_def)
    qed
    then show ?thesis
      using same Cons by (simp add: skipelem_def s_def[symmetric])
  qed
qed

lemma skipelem_last:
  assumes "skipelem path = Some (name, path')"
  shows "path' = [] \<longleftrightarrow> path_names path' = []"
proof -
  obtain s where "path' = dropWhile (\<lambda>c. c = 47) s"
    using assms by (auto simp: skipelem_def Let_def split: if_splits)
  then have no: "path' = [] \<or> hd path' \<noteq> 47" using hd_dropWhile[of "\<lambda>c. c = 47" s] by blast
  show ?thesis
  proof
    assume "path_names path' = []"
    then have "dropWhile (\<lambda>c. c = 47) path' = []"
      using path_names_skipelem[of path'] by (auto simp: skipelem_def Let_def split: if_splits)
    then show "path' = []" using no by (cases path') auto
  qed (simp add: path_names_def)
qed

text \<open>
  A set \<open>R\<close> of inode numbers is a file tree: its inodes are in use, and its directories are sound and
  lead only to members of the set.
\<close>

definition tree_ok :: "superblock \<Rightarrow> fsdisk \<Rightarrow> nat set \<Rightarrow> bool" where
  "tree_ok sb d R \<longleftrightarrow> (\<forall>i \<in> R. i_type (read_inode sb i d) \<noteq> 0 \<and>
    (i_type (read_inode sb i d) = T_DIR \<longrightarrow> dir_ok sb (read_inode sb i d) d \<and>
      ran (dir_map (contents (read_inode sb i d) d)) \<subseteq> R))"

primrec walk :: "superblock \<Rightarrow> fsdisk \<Rightarrow> byte list list \<Rightarrow> nat \<Rightarrow> nat option" where
  "walk sb d [] i = Some i"
| "walk sb d (e # es) i =
    (let dp = read_inode sb i d in
     if i_type dp \<noteq> T_DIR then None else Option.bind (dir_map (contents dp d) e) (walk sb d es))"

definition walk_parent :: "superblock \<Rightarrow> fsdisk \<Rightarrow> byte list list \<Rightarrow> nat \<Rightarrow> (nat \<times> byte list) option" where
  "walk_parent sb d es i =
    (if es = [] then None
     else Option.bind (walk sb d (butlast es) i) (\<lambda>p.
       if i_type (read_inode sb p d) = T_DIR then Some (p, List.last es) else None))"

lemma namex_walks:
  assumes "tree_ok sb d R" "i \<in> R"
  shows "namex sb parent path i d =
    Inr (if parent then walk_parent sb d (path_names path) i
         else map_option (\<lambda>j. (j, [])) (walk sb d (path_names path) i), d)"
  using assms(2)
proof (induction path arbitrary: i rule: measure_induct_rule[where f = length])
  case (less path)
  define dp where "dp = read_inode sb i d"
  have T: "i_type dp \<noteq> 0" "i_type dp = T_DIR \<longrightarrow> dir_ok sb dp d \<and> ran (dir_map (contents dp d)) \<subseteq> R"
    using assms(1) less(2) by (auto simp: tree_ok_def dp_def)
  show ?case
  proof (cases "skipelem path")
    case None
    then show ?thesis
      using path_names_skipelem[of path] by (subst namex.simps) (auto simp: walk_parent_def)
  next
    case (Some np)
    obtain name path' where np: "np = (name, path')" by (cases np)
    note S = Some[unfolded np]
    have names: "path_names path = name # path_names path'" using path_names_skipelem[of path] S by simp
    have lst: "path' = [] \<longleftrightarrow> path_names path' = []" by (rule skipelem_last[OF S])
    show ?thesis
    proof (cases "i_type dp = T_DIR \<and> \<not> (parent \<and> path' = [])")
      case False
      then show ?thesis
        using S T(1) names lst by (subst namex.simps) (auto simp: Let_def dp_def[symmetric] walk_parent_def)
    next
      case True
      then have dir: "dir_ok sb dp d" "ran (dir_map (contents dp d)) \<subseteq> R" using T(2) by auto
      obtain x where x: "dirlookup sb dp name d = Inr (x, dp, d)" "map_option fst x = dir_map (contents dp d) name"
        using dirlookup_map[OF dir(1)] by blast
      show ?thesis
      proof (cases x)
        case None
        then have "dir_map (contents dp d) name = None" using x(2) by simp
        then show ?thesis
          using S T(1) True names lst x(1) None by (subst namex.simps) (auto simp: Let_def dp_def[symmetric] walk_parent_def)
      next
        case (Some y)
        obtain j off where y: "y = (j, off)" by (cases y)
        have m: "dir_map (contents dp d) name = Some j" using x(2)[symmetric] Some y by simp
        then have "j \<in> R" using dir(2) by (auto simp: ran_def)
        note IH = less(1)[OF skipelem_shorter[OF S] this]
        have step: "namex sb parent path i d = namex sb parent path' j d"
          using S T(1) True x(1) Some y by (subst namex.simps) (auto simp: Let_def dp_def[symmetric])
        show ?thesis
          unfolding step IH using names m True lst by (auto simp: walk_parent_def dp_def[symmetric] cong: if_cong)
      qed
    qed
  qed
qed

end
