(* ===== verification/Fs_Tree.thy ===== *)
theory Fs_Tree
  imports Fs_Names
begin

unbundle bit_operations_syntax

text \<open>
  The file tree on the disk. Writing an inode to its place and reading it back are inverse; linking
  a name keeps the tree sound, keeps every path that leads somewhere and makes the new path lead to
  the linked inode. This joins the block maps, the files, the directories and the paths.
\<close>

section \<open>Inodes on the disk\<close>

lemma two_halves:
  fixes a b :: "16 word"
  shows "ucast (ucast a OR push_bit 16 (ucast b) :: 32 word) = a"
    "ucast (drop_bit 16 (ucast a) OR drop_bit 16 (push_bit 16 (ucast b)) :: 32 word) = b"
  by (rule bit_word_eqI; auto simp: bit_ucast_iff bit_or_iff bit_push_bit_iff bit_drop_bit_eq dest: bit_imp_le_length)+

lemma read_inode_iupdate:
  assumes "\<And>k. NDIRECT < k \<Longrightarrow> addrs ip k = 0"
  shows "read_inode sb (inum ip) (iupdate sb ip d) = ip"
proof -
  have a: "(\<lambda>k. if k \<le> NDIRECT then addrs ip k else 0) = addrs ip" using assms by auto
  show ?thesis
    using a by (cases ip) (simp add: read_inode_def iupdate_def dinode_word_def two_halves NDIRECT_def Let_def cong: if_cong)
qed

lemma read_inode_cong:
  assumes "\<And>w. w < 16 \<Longrightarrow> d' (IBLOCK j sb) (j mod IPB * 16 + w) = d (IBLOCK j sb) (j mod IPB * 16 + w)"
  shows "read_inode sb j d' = read_inode sb j d"
proof -
  have "d' (IBLOCK j sb) (j mod IPB * 16 + (3 + k)) = d (IBLOCK j sb) (j mod IPB * 16 + (3 + k))" if "k \<le> NDIRECT" for k
    using that by (intro assms) (simp add: NDIRECT_def)
  then have "(\<lambda>k. if k \<le> NDIRECT then d' (IBLOCK j sb) (j mod IPB * 16 + (3 + k)) else 0) =
      (\<lambda>k. if k \<le> NDIRECT then d (IBLOCK j sb) (j mod IPB * 16 + (3 + k)) else 0)"
    by auto
  then show ?thesis using assms[of 0] assms[of 1] assms[of 2] unfolding read_inode_def Let_def by simp
qed

lemma read_inode_other:
  assumes "j \<noteq> inum ip"
  shows "read_inode sb j (iupdate sb ip d) = read_inode sb j d"
proof (rule read_inode_cong)
  fix w :: nat assume w: "w < 16"
  show "iupdate sb ip d (IBLOCK j sb) (j mod IPB * 16 + w) = d (IBLOCK j sb) (j mod IPB * 16 + w)"
  proof (cases "IBLOCK j sb = IBLOCK (inum ip) sb")
    case True
    then have "j mod IPB \<noteq> inum ip mod IPB"
      using assms by (simp add: IBLOCK_def) (metis div_mult_mod_eq)
    then have "\<not> (inum ip mod IPB * 16 \<le> j mod IPB * 16 + w \<and> j mod IPB * 16 + w < inum ip mod IPB * 16 + 16)"
      using w by auto
    then show ?thesis by (auto simp: iupdate_def Let_def)
  qed (simp add: iupdate_def Let_def)
qed

lemma inum_read_inode [simp]: "inum (read_inode sb i d) = i"
  by (simp add: read_inode_def Let_def)

lemma saved_inodes:
  assumes "saved sb (read_inode sb p d) d ip' d'" "IBLOCK j sb < sb_bmapstart sb"
  shows "read_inode sb j d' = (if j = p then ip' else read_inode sb j d)"
proof -
  obtain d1 where d1: "d' = iupdate sb ip' d1" "meta_kept sb (read_inode sb p d) d ip' d1" and i: "inum ip' = p"
    using assms(1) by (auto simp: saved_def)
  have "addrs (read_inode sb p d) k = 0" if "NDIRECT < k" for k using that by (simp add: read_inode_def Let_def)
  then have "read_inode sb p d' = ip'" using d1 i read_inode_iupdate[of ip' sb d1] by (simp add: meta_kept_def)
  moreover have "read_inode sb j d1 = read_inode sb j d" using d1(2) assms(2) by (intro read_inode_cong) (simp add: meta_kept_def)
  ultimately show ?thesis using d1(1) i read_inode_other[of j ip' sb d1] by auto
qed

section \<open>Linking in a tree\<close>

text \<open>A sound tree whose files share no blocks.\<close>

definition forest_ok :: "superblock \<Rightarrow> fsdisk \<Rightarrow> nat set \<Rightarrow> bool" where
  "forest_ok sb d R \<longleftrightarrow> tree_ok sb d R \<and> (\<forall>i \<in> R. file_ok sb (read_inode sb i d) d) \<and>
    (\<forall>i \<in> R. \<forall>j \<in> R. i \<noteq> j \<longrightarrow> refs (read_inode sb i d) d \<inter> refs (read_inode sb j d) d = {})"

lemma dirlink_forest:
  assumes F: "forest_ok sb d R" and p: "p \<in> R" "i_type (read_inode sb p d) = T_DIR"
    and i: "i \<in> R" "0 < i" "i < 2 ^ 16"
    and run: "dirlink sb (read_inode sb p d) name i d = Inr (r, dp', d')"
  shows "forest_ok sb d' R" "linked sb (read_inode sb p d) d name i r dp' d'"
    "j \<in> R \<Longrightarrow> read_inode sb j d' = (if j = p then dp' else read_inode sb j d)"
    "j \<in> R \<Longrightarrow> j \<noteq> p \<Longrightarrow> contents (read_inode sb j d) d' = contents (read_inode sb j d) d"
    "i_type dp' = T_DIR"
proof -
  let ?dp = "read_inode sb p d"
  have T: "tree_ok sb d R" and fok: "\<And>j. j \<in> R \<Longrightarrow> file_ok sb (read_inode sb j d) d"
    and dis: "\<And>j k. j \<in> R \<Longrightarrow> k \<in> R \<Longrightarrow> j \<noteq> k \<Longrightarrow> refs (read_inode sb j d) d \<inter> refs (read_inode sb k d) d = {}"
    using F unfolding forest_ok_def by blast+
  have "dir_ok sb ?dp d" using T p by (auto simp: tree_ok_def)
  from dirlink_ok[OF this i(2, 3), of name] run
  have D: "dir_ok sb dp' d'" "linked sb ?dp d name i r dp' d'" "saved sb ?dp d dp' d' \<or> dp' = ?dp \<and> d' = d"
    "others_kept sb ?dp d dp' d'" by auto
  show "linked sb ?dp d name i r dp' d'" by (rule D(2))
  show ty: "i_type dp' = T_DIR" using D(1) by (simp add: dir_ok_def)
  have low: "IBLOCK j sb < sb_bmapstart sb" if "j \<in> R" for j using fok[OF that] by (simp add: file_ok_def)
  have rd: "read_inode sb j d' = (if j = p then dp' else read_inode sb j d)" if "j \<in> R" for j
    using D(3) saved_inodes[of sb p d dp' d'] low[OF that] by auto
  then show "j \<in> R \<Longrightarrow> read_inode sb j d' = (if j = p then dp' else read_inode sb j d)" by blast
  have K: "file_ok sb (read_inode sb j d) d' \<and> contents (read_inode sb j d) d' = contents (read_inode sb j d) d \<and>
      refs (read_inode sb j d) d' = refs (read_inode sb j d) d \<and> refs (read_inode sb j d) d' \<inter> refs dp' d' = {}"
    if "j \<in> R" "j \<noteq> p" for j
    using D(4) fok[OF that(1)] dis[OF that(1) p(1) that(2)] unfolding others_kept_def by blast
  then show "j \<in> R \<Longrightarrow> j \<noteq> p \<Longrightarrow> contents (read_inode sb j d) d' = contents (read_inode sb j d) d" by blast
  have ranp: "ran (dir_map (contents dp' d')) \<subseteq> R"
  proof -
    have "ran (dir_map (contents ?dp d)) \<subseteq> R" using T p by (auto simp: tree_ok_def)
    moreover have "dir_map (contents dp' d') x = dir_map (contents ?dp d) x \<or> dir_map (contents dp' d') x = Some i" for x
      using D(2) by (auto simp: linked_def split: option.splits)
    ultimately have "b \<in> R" if "dir_map (contents dp' d') x = Some b" for x b
      using that i(1) by (metis option.inject ranI subset_iff)
    then show ?thesis by (auto simp: ran_def)
  qed
  have "tree_ok sb d' R"
    unfolding tree_ok_def
  proof
    fix j assume j: "j \<in> R"
    show "i_type (read_inode sb j d') \<noteq> 0 \<and> (i_type (read_inode sb j d') = T_DIR \<longrightarrow>
        dir_ok sb (read_inode sb j d') d' \<and> ran (dir_map (contents (read_inode sb j d') d')) \<subseteq> R)"
    proof (cases "j = p")
      case True
      then show ?thesis using rd[OF j] D(1) ty ranp by (simp add: T_DIR_def)
    next
      case False
      then show ?thesis using rd[OF j] K[OF j False] T j by (auto simp: tree_ok_def dir_ok_def)
    qed
  qed
  moreover have "file_ok sb (read_inode sb j d') d'" if "j \<in> R" for j
    using rd[OF that] K[OF that] D(1) by (cases "j = p") (auto simp: dir_ok_def)
  moreover have "refs (read_inode sb j d') d' \<inter> refs (read_inode sb k d') d' = {}" if "j \<in> R" "k \<in> R" "j \<noteq> k" for j k
    using rd[OF that(1)] rd[OF that(2)] K[OF that(1)] K[OF that(2)] dis[OF that] that(3)
    by (cases "j = p"; cases "k = p") (auto simp: Int_commute)
  ultimately show "forest_ok sb d' R" unfolding forest_ok_def by blast
qed

lemma dir_map_key: "namecmp x y = 0 \<Longrightarrow> dir_map cs x = dir_map cs y"
  by (simp add: dir_map_def entry_at_def[abs_def] namecmp_0_iff)

lemma linked_mono:
  assumes "linked sb dp d name i r dp' d'" "dir_map (contents dp d) x = Some j"
  shows "dir_map (contents dp' d') x = Some j"
proof (cases "namecmp x name = 0")
  case True
  then show ?thesis using assms dir_map_key[of x name "contents dp d"] by (simp add: linked_def)
next
  case False
  then show ?thesis using assms by (auto simp: linked_def split: option.splits)
qed

lemma walk_append: "walk sb d (es @ fs) i = Option.bind (walk sb d es i) (walk sb d fs)"
proof (induction es arbitrary: i)
  case (Cons e es)
  then show ?case by (cases "dir_map (contents (read_inode sb i d) d) e") (simp_all add: Let_def)
qed simp

lemma walk_stays:
  assumes "tree_ok sb d R" "i \<in> R" "walk sb d es i = Some j"
  shows "j \<in> R"
  using assms(2, 3)
proof (induction es arbitrary: i)
  case (Cons e es)
  let ?dp = "read_inode sb i d"
  obtain k where k: "i_type ?dp = T_DIR" "dir_map (contents ?dp d) e = Some k" "walk sb d es k = Some j"
    using Cons.prems(2) by (auto simp: Let_def bind_eq_Some_conv split: if_splits)
  then have "k \<in> R" using assms(1) Cons.prems(1) by (auto simp: tree_ok_def ran_def)
  then show ?case using Cons.IH k(3) by blast
qed simp

text \<open>Linking keeps all paths.\<close>

lemma walk_linked:
  assumes F: "forest_ok sb d R" and p: "p \<in> R" "i_type (read_inode sb p d) = T_DIR"
    and i: "i \<in> R" "0 < i" "i < 2 ^ 16"
    and run: "dirlink sb (read_inode sb p d) name i d = Inr (r, dp', d')"
    and j: "j \<in> R" "walk sb d es j = Some k"
  shows "walk sb d' es j = Some k"
  using j
proof (induction es arbitrary: j)
  case (Cons e es)
  note L = dirlink_forest[OF F p i run]
  let ?dp = "read_inode sb j d"
  obtain l where l: "i_type ?dp = T_DIR" "dir_map (contents ?dp d) e = Some l" "walk sb d es l = Some k"
    using Cons.prems(2) by (auto simp: Let_def bind_eq_Some_conv split: if_splits)
  have "l \<in> R" using F l(1, 2) Cons.prems(1) by (auto simp: forest_ok_def tree_ok_def ran_def)
  then have IH: "walk sb d' es l = Some k" using Cons.IH l(3) by blast
  show ?case
  proof (cases "j = p")
    case True
    then have "dir_map (contents dp' d') e = Some l" using linked_mono[OF L(2)] l(2) by simp
    then show ?thesis using L(3)[OF Cons.prems(1)] L(5) True IH by simp
  next
    case False
    then show ?thesis using L(3)[OF Cons.prems(1)] L(4)[OF Cons.prems(1) False] l IH by simp
  qed
qed simp

lemma walk_parent_split:
  assumes "walk_parent sb d es s = Some (p, name)"
  shows "es = butlast es @ [name]" "walk sb d (butlast es) s = Some p" "i_type (read_inode sb p d) = T_DIR"
  using assms append_butlast_last_id[of es]
  by (auto simp: walk_parent_def bind_eq_Some_conv split: if_splits)

lemma walk_child:
  assumes "walk_parent sb d es s = Some (p, name)"
  shows "walk sb d es s = dir_map (contents (read_inode sb p d) d) name"
proof -
  note P = walk_parent_split[OF assms]
  have "walk sb d es s = walk sb d (butlast es @ [name]) s" using P(1) by simp
  also have "\<dots> = dir_map (contents (read_inode sb p d) d) name"
    unfolding walk_append using P(2, 3) by (cases "dir_map (contents (read_inode sb p d) d) name") (simp_all add: Let_def)
  finally show ?thesis .
qed

text \<open>
  Linking a file under a path, which is resolved to a parent directory and a last name as
  \<^verbatim>\<open>sys_link\<close> and \<^verbatim>\<open>create\<close> do, never panics and keeps the tree sound. A path that led to nothing
  leads to the linked inode afterwards, unless the disk or the directory is full; a path in use is
  refused and nothing changes. Every path that led to an inode before still does.
\<close>

theorem link_resolves:
  assumes F: "forest_ok sb d R" and R: "ROOTINO \<in> R" "cwd \<in> R" and i: "i \<in> R" "0 < i" "i < 2 ^ 16"
    and parent: "nameiparent sb path cwd d = Inr (Some (p, name), d)"
  shows "\<exists>r dp' d'. dirlink sb (read_inode sb p d) name i d = Inr (r, dp', d') \<and> forest_ok sb d' R \<and>
    (if namei sb path cwd d = Inr (None, d)
     then r = 0 \<and> namei sb path cwd d' = Inr (Some (i, []), d') \<or>
       r = -1 \<and> (free_blocks sb d' = {} \<or> unat (i_size (read_inode sb p d)) = MAXFILE * BSIZE)
     else r = -1 \<and> d' = d) \<and>
    (\<forall>path j. namei sb path cwd d = Inr (Some (j, []), d) \<longrightarrow> namei sb path cwd d' = Inr (Some (j, []), d'))"
proof -
  define s where "s path = (if char0 path = 47 then ROOTINO else cwd)" for path
  have s: "s path \<in> R" for path using R by (simp add: s_def)
  have T: "tree_ok sb d R" using F by (simp add: forest_ok_def)
  note N = namex_walks[OF T s, folded s_def]
  have wp: "walk_parent sb d (path_names path) (s path) = Some (p, name)"
    using parent N[of True] by (simp add: nameiparent_def s_def)
  note P = walk_parent_split[OF wp]
  have p: "p \<in> R" by (rule walk_stays[OF T s P(2)])
  have "dir_ok sb (read_inode sb p d) d" using T p P(3) by (simp add: tree_ok_def)
  then obtain r dp' d' where run: "dirlink sb (read_inode sb p d) name i d = Inr (r, dp', d')"
    using dirlink_ok[OF _ i(2, 3)] by blast
  note L = dirlink_forest[OF F p P(3) i run] and W = walk_linked[OF F p P(3) i run s]
  have T': "tree_ok sb d' R" using L(1) by (simp add: forest_ok_def)
  have old: "namei sb q cwd d = Inr (map_option (\<lambda>j. (j, [])) (walk sb d (path_names q) (s q)), d)" for q
    using namex_walks[OF T s[of q]] by (simp add: namei_def s_def)
  have new: "namei sb q cwd d' = Inr (map_option (\<lambda>j. (j, [])) (walk sb d' (path_names q) (s q)), d')" for q
    using namex_walks[OF T' s[of q]] by (simp add: namei_def s_def)
  have "namei sb path cwd d' = Inr (Some (i, []), d')" if "r = 0"
  proof -
    have "dir_map (contents dp' d') name = Some i" using L(2) that by (auto simp: linked_def namecmp_0_iff split: option.splits)
    moreover have "walk sb d' (butlast (path_names path)) (s path) = Some p" by (rule W[OF P(2)])
    ultimately have "walk sb d' (butlast (path_names path) @ [name]) (s path) = Some i"
      unfolding walk_append using L(3)[OF p] L(5) by simp
    then show ?thesis using new[of path] P(1) by simp
  qed
  moreover have "namei sb path cwd d = Inr (None, d) \<longleftrightarrow> dir_map (contents (read_inode sb p d) d) name = None"
    using old[of path] walk_child[OF wp] by simp
  ultimately show ?thesis
    using run L(1) L(2) old new W by (auto simp: linked_def split: option.splits)
qed

text \<open>A fresh disk with an empty root directory, in which the root is linked under the name \<^verbatim>\<open>a\<close>.\<close>

definition root_disk :: fsdisk where
  "root_disk = small_disk(2 := (\<lambda>w. if w = 16 then 1 else 0))"

lemma root_inode: "read_inode small_sb 1 root_disk =
    \<lparr>inum = 1, i_type = T_DIR, i_major = 0, i_minor = 0, i_nlink = 0, i_size = 0, addrs = (\<lambda>_. 0)\<rparr>"
  by (auto simp: read_inode_def IBLOCK_def IPB_def small_sb_def root_disk_def T_DIR_def Let_def)

lemma root_forest: "forest_ok small_sb root_disk {1}"
proof -
  have "bitmap_ok small_sb root_disk"
    using small_ok(1) by (simp add: bitmap_ok_def used_def bit_at_def root_disk_def BBLOCK_def small_sb_def)
  moreover have "IBLOCK 1 small_sb < sb_bmapstart small_sb" by (simp add: IBLOCK_def IPB_def small_sb_def)
  ultimately have "file_ok small_sb (read_inode small_sb 1 root_disk) root_disk"
    unfolding root_inode by (simp add: file_ok_def inode_ok_def ref_def)
  moreover have "dir_map (contents (read_inode small_sb 1 root_disk) root_disk) = Map.empty"
    unfolding root_inode by (auto simp: dir_map_def contents_def)
  ultimately show ?thesis
    unfolding forest_ok_def tree_ok_def by (simp add: dir_ok_def) (simp add: root_inode[unfolded One_nat_def] T_DIR_def)
qed

theorem link_resolves_witness:
  "\<exists>r dp' d'. dirlink small_sb (read_inode small_sb 1 root_disk) [97] 1 root_disk = Inr (r, dp', d') \<and>
    forest_ok small_sb d' {1} \<and> (r = 0 \<longrightarrow> namei small_sb [97] 1 d' = Inr (Some (1, []), d'))"
proof -
  have "nameiparent small_sb [97] 1 root_disk = Inr (Some (1, [97]), root_disk)"
    by (simp add: nameiparent_def char0_def skipelem_def namex.simps[of _ _ "[97]"] root_inode[unfolded One_nat_def] T_DIR_def DIRSIZ_def)
  from link_resolves[OF root_forest _ _ _ _ _ this, of 1]
  obtain r dp' d' where 1: "dirlink small_sb (read_inode small_sb 1 root_disk) [97] 1 root_disk = Inr (r, dp', d')"
    "forest_ok small_sb d' {1}"
    "if namei small_sb [97] 1 root_disk = Inr (None, root_disk)
     then r = 0 \<and> namei small_sb [97] 1 d' = Inr (Some (1, []), d') \<or>
       r = -1 \<and> (free_blocks small_sb d' = {} \<or> unat (i_size (read_inode small_sb 1 root_disk)) = MAXFILE * BSIZE)
     else r = -1 \<and> d' = root_disk"
    by (auto simp: ROOTINO_def)
  then show ?thesis by (auto split: if_splits)
qed

text \<open>
  Resolving a path takes its names, the non-empty pieces between slashes cut off after fourteen
  bytes, from the root if the path begins with a slash and from the current directory otherwise, and
  follows them through the directories one by one; on a sound tree it never panics and changes
  nothing. The variant for parents stops before the last name, which it returns, and fails when there
  is no name or the inode reached is not a directory.
\<close>

theorem path_resolution:
  assumes "tree_ok sb d R" "ROOTINO \<in> R" "cwd \<in> R"
  shows "namei sb path cwd d =
      Inr (map_option (\<lambda>j. (j, [])) (walk sb d (path_names path) (if char0 path = 47 then ROOTINO else cwd)), d) \<and>
    nameiparent sb path cwd d = Inr (walk_parent sb d (path_names path) (if char0 path = 47 then ROOTINO else cwd), d)"
  using namex_walks[OF assms(1)] assms(2, 3) by (simp add: namei_def nameiparent_def)

text \<open>The path \<^verbatim>\<open>a\<close> on the same disk leads nowhere, its parent is the root.\<close>

theorem path_resolution_witness:
  "\<exists>x. namei small_sb [97] 1 root_disk = Inr (x, root_disk) \<and>
    nameiparent small_sb [97] 1 root_disk = Inr (walk_parent small_sb root_disk [[97]] 1, root_disk)"
  using path_resolution[of small_sb root_disk "{1}" 1 "[97]"] root_forest
  by (simp add: forest_ok_def ROOTINO_def char0_def path_names_def DIRSIZ_def)

end
