(* ===== verification/Name_Space.thy ===== *)
theory Name_Space
  imports Fs_Names
begin

text \<open>
  What a file system promises about its names, apart from blocks and inodes: a set \<open>R\<close> of nodes, the
  directories \<open>D\<close> among them, the slots \<open>S\<close> of every directory and a link count \<open>n\<close> for every node.
  The four ways in which the system calls change it keep it sound.
\<close>

section \<open>Soundness\<close>

text \<open>A slot holds a name and the number of a node.\<close>

type_synonym dirslots = "nat \<Rightarrow> (byte list \<times> nat) option"

definition names_distinct :: "dirslots \<Rightarrow> bool" where
  "names_distinct s \<longleftrightarrow> (\<forall>k l x i j. s k = Some (x, i) \<longrightarrow> s l = Some (x, j) \<longrightarrow> k = l)"

text \<open>The entries of other directories that lead to \<open>i\<close>; a directory's entry for itself does not count.\<close>

definition entries :: "nat set \<Rightarrow> (nat \<Rightarrow> dirslots) \<Rightarrow> nat \<Rightarrow> (nat \<times> nat) set" where
  "entries D S i = {(p, k). p \<in> D \<and> p \<noteq> i \<and> (\<exists>x. S p k = Some (x, i))}"

definition dot :: "byte list" where "dot = [46]"

definition dotdot :: "byte list" where "dotdot = [46, 46]"

text \<open>The first two slots of a directory lead to itself and to its parent.\<close>

definition dots_ok :: "nat set \<Rightarrow> (nat \<Rightarrow> dirslots) \<Rightarrow> bool" where
  "dots_ok D S \<longleftrightarrow> (\<forall>p \<in> D. S p 0 = Some (dot, p) \<and> (\<exists>q \<in> D. S p 1 = Some (dotdot, q))) \<and> S ROOTINO 1 = Some (dotdot, ROOTINO)"

text \<open>Every directory but the root has exactly one entry, in its parent.\<close>

definition parents_ok :: "nat set \<Rightarrow> (nat \<Rightarrow> dirslots) \<Rightarrow> bool" where
  "parents_ok D S \<longleftrightarrow>
    (\<forall>p \<in> D. \<forall>k x c. 2 \<le> k \<longrightarrow> S p k = Some (x, c) \<longrightarrow> c \<in> D \<longrightarrow>
      c \<noteq> p \<and> c \<noteq> ROOTINO \<and> S c 1 = Some (dotdot, p) \<and> (\<forall>l y. 2 \<le> l \<longrightarrow> S p l = Some (y, c) \<longrightarrow> l = k)) \<and>
    (\<forall>c \<in> D. c \<noteq> ROOTINO \<longrightarrow> (\<exists>p \<in> D. \<exists>k x. 2 \<le> k \<and> S p k = Some (x, c)))"

text \<open>From every directory the entries for the parent lead to the root, so the directories form a tree.\<close>

inductive rooted :: "nat set \<Rightarrow> (nat \<Rightarrow> dirslots) \<Rightarrow> nat \<Rightarrow> bool" for D S where
  at_root: "rooted D S ROOTINO"
| below: "c \<in> D \<Longrightarrow> S c 1 = Some (dotdot, p) \<Longrightarrow> rooted D S p \<Longrightarrow> rooted D S c"

definition counts_ok :: "nat set \<Rightarrow> nat set \<Rightarrow> (nat \<Rightarrow> dirslots) \<Rightarrow> (nat \<Rightarrow> nat) \<Rightarrow> bool" where
  "counts_ok R D S n \<longleftrightarrow> (\<forall>i \<in> R. n i = card (entries D S i) + (if i = ROOTINO then 1 else 0))"

definition ns_ok :: "nat set \<Rightarrow> nat set \<Rightarrow> (nat \<Rightarrow> dirslots) \<Rightarrow> (nat \<Rightarrow> nat) \<Rightarrow> bool" where
  "ns_ok R D S n \<longleftrightarrow> finite R \<and> D \<subseteq> R \<and> ROOTINO \<in> D \<and>
    (\<forall>p \<in> D. names_distinct (S p) \<and> finite (dom (S p)) \<and> (\<forall>k x i. S p k = Some (x, i) \<longrightarrow> i \<in> R)) \<and>
    dots_ok D S \<and> parents_ok D S \<and> counts_ok R D S n \<and> (\<forall>p \<in> D. rooted D S p)"

lemma ns_okD:
  assumes "ns_ok R D S n"
  shows "finite R" "D \<subseteq> R" "ROOTINO \<in> D" "p \<in> D \<Longrightarrow> names_distinct (S p)" "p \<in> D \<Longrightarrow> finite (dom (S p))"
    "p \<in> D \<Longrightarrow> S p k = Some (x, i) \<Longrightarrow> i \<in> R" "dots_ok D S" "parents_ok D S" "counts_ok R D S n" "p \<in> D \<Longrightarrow> rooted D S p"
  using assms by (auto simp: ns_ok_def)

lemma dotsD:
  assumes "dots_ok D S" "p \<in> D"
  shows "S p 0 = Some (dot, p)" "\<exists>q \<in> D. S p 1 = Some (dotdot, q)"
  using assms by (auto simp: dots_ok_def)

lemma parentsD:
  assumes "parents_ok D S" "p \<in> D" "2 \<le> k" "S p k = Some (x, c)" "c \<in> D"
  shows "c \<noteq> p" "c \<noteq> ROOTINO" "S c 1 = Some (dotdot, p)" "2 \<le> l \<Longrightarrow> S p l = Some (y, c) \<Longrightarrow> l = k"
  using assms unfolding parents_ok_def by blast+

lemma parents_okI:
  assumes "\<And>p k x c. p \<in> D \<Longrightarrow> 2 \<le> k \<Longrightarrow> S p k = Some (x, c) \<Longrightarrow> c \<in> D \<Longrightarrow>
      c \<noteq> p \<and> c \<noteq> ROOTINO \<and> S c 1 = Some (dotdot, p) \<and> (\<forall>l y. 2 \<le> l \<longrightarrow> S p l = Some (y, c) \<longrightarrow> l = k)"
    and "\<And>c. c \<in> D \<Longrightarrow> c \<noteq> ROOTINO \<Longrightarrow> \<exists>p \<in> D. \<exists>k x. 2 \<le> k \<and> S p k = Some (x, c)"
  shows "parents_ok D S"
  unfolding parents_ok_def using assms by blast

lemma parents_entry: "parents_ok D S \<Longrightarrow> c \<in> D \<Longrightarrow> c \<noteq> ROOTINO \<Longrightarrow> \<exists>p \<in> D. \<exists>k x. 2 \<le> k \<and> S p k = Some (x, c)"
  unfolding parents_ok_def by blast

text \<open>A chain of parents stays one when its directories keep their second slots.\<close>

lemma rooted_keep:
  assumes "rooted D S c" "P c" "\<And>c p. c \<in> D \<Longrightarrow> P c \<Longrightarrow> S c 1 = Some (dotdot, p) \<Longrightarrow> c \<in> D' \<and> S' c 1 = S c 1 \<and> P p"
  shows "rooted D' S' c"
  using assms(1, 2)
proof (induction rule: rooted.induct)
  case (below c p)
  then show ?case using assms(3)[OF below(1) below(5) below(2)] by (intro rooted.below[of c D' S' p]) auto
qed (rule rooted.at_root)

lemma finite_entries:
  assumes "ns_ok R D S n"
  shows "finite (entries D S i)"
proof (rule finite_subset)
  show "entries D S i \<subseteq> (SIGMA p:D. dom (S p))" by (auto simp: entries_def)
  show "finite (SIGMA p:D. dom (S p))" using ns_okD(1, 2, 5)[OF assms] finite_subset by (intro finite_SigmaI) auto
qed

lemma entries_cong: "(\<And>p. p \<in> D \<Longrightarrow> S' p = S p) \<Longrightarrow> entries D S' i = entries D S i"
  by (auto simp: entries_def)

lemma ns_cong:
  assumes "ns_ok R D S n" "\<And>p. p \<in> D \<Longrightarrow> S' p = S p" "\<And>i. i \<in> R \<Longrightarrow> n' i = n i"
  shows "ns_ok R D S' n'"
proof -
  have r: "ROOTINO \<in> D" by (rule ns_okD(3)[OF assms(1)])
  have "dots_ok D S'" using ns_okD(7)[OF assms(1)] assms(2) r by (simp add: dots_ok_def)
  moreover have "parents_ok D S'"
  proof (rule parents_okI)
    fix p k x c assume a: "p \<in> D" "2 \<le> k" "S' p k = Some (x, c)" "c \<in> D"
    show "c \<noteq> p \<and> c \<noteq> ROOTINO \<and> S' c 1 = Some (dotdot, p) \<and> (\<forall>l y. 2 \<le> l \<longrightarrow> S' p l = Some (y, c) \<longrightarrow> l = k)"
      using parentsD[OF ns_okD(8)[OF assms(1)] a(1, 2) _ a(4)] a assms(2) by auto
  next
    fix c assume "c \<in> D" "c \<noteq> ROOTINO"
    then show "\<exists>p \<in> D. \<exists>k x. 2 \<le> k \<and> S' p k = Some (x, c)"
      using parents_entry[OF ns_okD(8)[OF assms(1)]] assms(2) by metis
  qed
  moreover have "counts_ok R D S' n'"
    using ns_okD(9)[OF assms(1)] assms(3) entries_cong[of D S' S, OF assms(2)] by (simp add: counts_ok_def)
  moreover have "rooted D S' p" if "p \<in> D" for p
    using rooted_keep[OF ns_okD(10)[OF assms(1) that], of "\<lambda>_. True"] assms(2) by auto
  ultimately show ?thesis using assms(1, 2) by (simp add: ns_ok_def)
qed

text \<open>A slot for a file is never one of the first two.\<close>

lemma file_slot: "dots_ok D S \<Longrightarrow> p \<in> D \<Longrightarrow> S p k = Some (x, i) \<Longrightarrow> i \<notin> D \<Longrightarrow> 2 \<le> k"
  using dotsD[of D S p] by (cases "k = 0"; cases "k = 1") auto

lemma free_slot: "dots_ok D S \<Longrightarrow> p \<in> D \<Longrightarrow> S p k = None \<Longrightarrow> 2 \<le> k"
  using dotsD[of D S p] by (cases "k = 0"; cases "k = 1") auto

lemma named_slot: "dots_ok D S \<Longrightarrow> p \<in> D \<Longrightarrow> S p k = Some (x, i) \<Longrightarrow> x \<noteq> dot \<Longrightarrow> x \<noteq> dotdot \<Longrightarrow> 2 \<le> k"
  using dotsD[of D S p] by (cases "k = 0"; cases "k = 1") auto

text \<open>One slot is set or cleared.\<close>

lemma distinct_put: "names_distinct s \<Longrightarrow> \<forall>k j. s k \<noteq> Some (x, j) \<Longrightarrow> names_distinct (s(k \<mapsto> (x, i)))"
  by (auto simp: names_distinct_def)

lemma distinct_clear: "names_distinct s \<Longrightarrow> names_distinct (s(k := None))"
  by (auto simp: names_distinct_def)

lemma put_at: "(S(p := (S p)(k := e))) q l = (if q = p \<and> l = k then e else S q l)"
  by simp

lemma entries_put:
  assumes "p \<in> D" "i \<noteq> p" "S p k = None"
  shows "entries D (S(p := (S p)(k \<mapsto> (x, i)))) j = (if j = i then insert (p, k) (entries D S i) else entries D S j)"
  unfolding entries_def put_at using assms by (auto split: if_splits)

lemma entries_clear:
  assumes "S p k = Some (x, i)"
  shows "entries D (S(p := (S p)(k := None))) j = (if j = i then entries D S i - {(p, k)} else entries D S j)"
  unfolding entries_def put_at using assms by (auto split: if_splits)

text \<open>Slots for files do not matter for the tree of directories.\<close>

lemma parents_files:
  assumes ok: "parents_ok D S" and k: "2 \<le> k" and e: "\<And>x c. S p k = Some (x, c) \<Longrightarrow> c \<notin> D" "\<And>x c. e = Some (x, c) \<Longrightarrow> c \<notin> D"
  shows "parents_ok D (S(p := (S p)(k := e)))"
proof (rule parents_okI, unfold put_at)
  fix q l x c assume "q \<in> D" "2 \<le> l" "(if q = p \<and> l = k then e else S q l) = Some (x, c)" "c \<in> D"
  then have "\<not> (q = p \<and> l = k)" "S q l = Some (x, c)" using e(2) by (auto split: if_splits)
  with parentsD[OF ok \<open>q \<in> D\<close> \<open>2 \<le> l\<close> this(2) \<open>c \<in> D\<close>] e(2) \<open>c \<in> D\<close> k
  show "c \<noteq> q \<and> c \<noteq> ROOTINO \<and> (if c = p \<and> 1 = k then e else S c 1) = Some (dotdot, q) \<and>
      (\<forall>m y. 2 \<le> m \<longrightarrow> (if q = p \<and> m = k then e else S q m) = Some (y, c) \<longrightarrow> m = l)" by auto
next
  fix c assume c: "c \<in> D" "c \<noteq> ROOTINO"
  obtain q l x where "q \<in> D" "2 \<le> l" "S q l = Some (x, c)" using parents_entry[OF ok c] by blast
  moreover from this have "\<not> (q = p \<and> l = k)" using e(1) c by auto
  ultimately show "\<exists>q \<in> D. \<exists>l x. 2 \<le> l \<and> (if q = p \<and> l = k then e else S q l) = Some (x, c)" by metis
qed

section \<open>Files\<close>

text \<open>A further name for a file, or the first one of a new file.\<close>

lemma ns_link:
  assumes ns: "ns_ok R D S n" and p: "p \<in> D" "S p k = None" "\<forall>l j. S p l \<noteq> Some (x, j)" and i: "i \<notin> D" "i \<notin> R \<Longrightarrow> n i = 0"
  shows "ns_ok (insert i R) D (S(p := (S p)(k \<mapsto> (x, i)))) (n(i := n i + 1))"
proof -
  let ?S = "S(p := (S p)(k \<mapsto> (x, i)))"
  have ip: "i \<noteq> p" "ROOTINO \<noteq> i" using p(1) i(1) ns_okD(3)[OF ns] by auto
  have k: "2 \<le> k" by (rule free_slot[OF ns_okD(7)[OF ns] p(1, 2)])
  note e = entries_put[of p D i S k, OF p(1) ip(1) p(2)]
  have "i \<notin> R \<Longrightarrow> entries D S i = {}" using ns_okD(6)[OF ns] by (auto simp: entries_def)
  moreover have "(p, k) \<notin> entries D S i" using p(2) by (simp add: entries_def)
  ultimately have "counts_ok (insert i R) D ?S (n(i := n i + 1))"
    using ns_okD(9)[OF ns] i(2) ip finite_entries[OF ns] unfolding counts_ok_def e by (cases "i \<in> R") auto
  moreover have "dots_ok D ?S" using ns_okD(7)[OF ns] k by (simp add: dots_ok_def)
  moreover have "parents_ok D ?S" using p(2) i(1) by (intro parents_files[OF ns_okD(8)[OF ns] k]) auto
  moreover have "names_distinct (?S q) \<and> finite (dom (?S q))" if "q \<in> D" for q
    using ns_okD(4, 5)[OF ns that] distinct_put[OF _ p(3)] by (cases "q = p") auto
  moreover have "\<forall>l y j. ?S q l = Some (y, j) \<longrightarrow> j \<in> insert i R" if "q \<in> D" for q
    unfolding put_at using ns_okD(6)[OF ns that] by (auto split: if_splits)
  moreover have "finite (insert i R)" "D \<subseteq> insert i R" using ns_okD(1, 2)[OF ns] by auto
  moreover have "rooted D ?S q" if "q \<in> D" for q
    by (rule rooted_keep[OF ns_okD(10)[OF ns that], of "\<lambda>_. True"]) (use k in auto)
  ultimately show ?thesis using ns_okD(3)[OF ns] unfolding ns_ok_def by blast
qed

text \<open>A name of a file is removed; the file goes with its last name.\<close>

lemma ns_unlink:
  assumes ns: "ns_ok R D S n" and p: "p \<in> D" "S p k = Some (x, i)" and i: "i \<notin> D"
  shows "ns_ok (if n i = 1 then R - {i} else R) D (S(p := (S p)(k := None))) (n(i := n i - 1))" "0 < n i"
proof -
  let ?S = "S(p := (S p)(k := None))" and ?R = "if n i = 1 then R - {i} else R"
  have iR: "i \<in> R" by (rule ns_okD(6)[OF ns p])
  have ip: "i \<noteq> p" "ROOTINO \<noteq> i" using p(1) i ns_okD(3)[OF ns] by auto
  have k: "2 \<le> k" by (rule file_slot[OF ns_okD(7)[OF ns] p i])
  note e = entries_clear[of S p k, OF p(2), of D]
  have pk: "(p, k) \<in> entries D S i" using p ip by (auto simp: entries_def)
  have c: "n i = card (entries D S i)" using ns_okD(9)[OF ns] iR ip(2) by (simp add: counts_ok_def)
  have fin: "finite (entries D S i)" by (rule finite_entries[OF ns])
  show "0 < n i" using c pk fin card_gt_0_iff by fastforce
  have "counts_ok ?R D ?S (n(i := n i - 1))"
    using ns_okD(9)[OF ns] ip c pk fin unfolding counts_ok_def e by auto
  moreover have "j \<in> ?R" if "q \<in> D" "?S q l = Some (y, j)" for q l y j
  proof -
    have S: "S q l = Some (y, j)" "(q, l) \<noteq> (p, k)" using that(2) unfolding put_at by (auto split: if_splits)
    then have jR: "j \<in> R" by (intro ns_okD(6)[OF ns that(1)])
    have "n i \<noteq> 1" if "j = i"
    proof -
      have "(q, l) \<in> entries D S i" using S that \<open>q \<in> D\<close> i by (auto simp: entries_def)
      then show ?thesis using c pk S(2) by (auto simp: card_1_singleton_iff)
    qed
    then show ?thesis using jR by auto
  qed
  moreover have "dots_ok D ?S" using ns_okD(7)[OF ns] k by (simp add: dots_ok_def)
  moreover have "parents_ok D ?S" using p(2) i by (intro parents_files[OF ns_okD(8)[OF ns] k]) auto
  moreover have "names_distinct (?S q) \<and> finite (dom (?S q))" if "q \<in> D" for q
    using ns_okD(4, 5)[OF ns that] distinct_clear by (cases "q = p") auto
  moreover have "D \<subseteq> ?R" "finite ?R" using ns_okD(1, 2)[OF ns] i by auto
  moreover have "rooted D ?S q" if "q \<in> D" for q
    by (rule rooted_keep[OF ns_okD(10)[OF ns that], of "\<lambda>_. True"]) (use k in auto)
  ultimately show "ns_ok ?R D ?S (n(i := n i - 1))" using ns_okD(3)[OF ns] unfolding ns_ok_def by blast
qed

section \<open>Directories\<close>

lemma ns_mkdir:
  assumes ns: "ns_ok R D S n" and p: "p \<in> D" "S p k = None" "\<forall>l j. S p l \<noteq> Some (x, j)" and c: "c \<notin> R"
  shows "ns_ok (insert c R) (insert c D) (S(p := (S p)(k \<mapsto> (x, c)), c := [0 \<mapsto> (dot, c), 1 \<mapsto> (dotdot, p)])) (n(c := 1, p := n p + 1))"
proof -
  let ?S = "S(p := (S p)(k \<mapsto> (x, c)), c := [0 \<mapsto> (dot, c), 1 \<mapsto> (dotdot, p)])" and ?D = "insert c D" and ?n = "n(c := 1, p := n p + 1)"
  have k: "2 \<le> k" by (rule free_slot[OF ns_okD(7)[OF ns] p(1, 2)])
  have cD: "c \<notin> D" "c \<noteq> p" "c \<noteq> ROOTINO" using c ns_okD(2, 3)[OF ns] p(1) by auto
  have at: "?S q l = (if q = c then [0 \<mapsto> (dot, c), 1 \<mapsto> (dotdot, p)] l else if q = p \<and> l = k then Some (x, c) else S q l)" for q l
    using cD by simp
  have old: "S q l \<noteq> Some (y, c)" if "q \<in> D" for q l y using ns_okD(6)[OF ns that] c by blast
  have e: "entries ?D ?S j = (if j = c then {(p, k)} else if j = p then insert (c, 1) (entries D S p) else entries D S j)" for j
    unfolding entries_def at using cD p(1, 2) old by (auto split: if_splits)
  have rooted: "rooted ?D ?S q" if "q \<in> ?D" for q
  proof -
    have old: "rooted ?D ?S q" if "q \<in> D" for q
      by (rule rooted_keep[OF ns_okD(10)[OF ns that], of "\<lambda>_. True"]) (use k cD in auto)
    show ?thesis
    proof (cases "q = c")
      case True
      have "?S q 1 = Some (dotdot, p)" using True by simp
      with True old[OF p(1)] show ?thesis by (intro rooted.below[of q ?D ?S p]) simp_all
    next
      case False
      then have "q \<in> D" using that by simp
      then show ?thesis by (rule old)
    qed
  qed
  have "counts_ok (insert c R) ?D ?S ?n"
    using ns_okD(9)[OF ns] cD finite_entries[OF ns] unfolding counts_ok_def e by (auto simp: entries_def)
  moreover have "dots_ok ?D ?S"
    unfolding dots_ok_def at using ns_okD(3, 7)[OF ns] k cD p(1) by (auto simp: dots_ok_def)
  moreover have "parents_ok ?D ?S"
  proof (rule parents_okI, unfold at)
    fix q l y b assume a: "q \<in> ?D" "2 \<le> l" "(if q = c then [0 \<mapsto> (dot, c), 1 \<mapsto> (dotdot, p)] l else if q = p \<and> l = k then Some (x, c) else S q l) = Some (y, b)" "b \<in> ?D"
    then have q: "q \<in> D" "q \<noteq> c" using cD by (auto split: if_splits)
    show "b \<noteq> q \<and> b \<noteq> ROOTINO \<and> (if b = c then [0 \<mapsto> (dot, c), 1 \<mapsto> (dotdot, p)] 1 else if b = p \<and> 1 = k then Some (x, c) else S b 1) = Some (dotdot, q) \<and>
      (\<forall>m z. 2 \<le> m \<longrightarrow> (if q = c then [0 \<mapsto> (dot, c), 1 \<mapsto> (dotdot, p)] m else if q = p \<and> m = k then Some (x, c) else S q m) = Some (z, b) \<longrightarrow> m = l)"
    proof (cases "b = c")
      case True
      then show ?thesis using a old[OF q(1)] q(2) cD by (auto split: if_splits)
    next
      case False
      then have b: "S q l = Some (y, b)" "b \<in> D" using a q by (auto split: if_splits)
      show ?thesis using parentsD[OF ns_okD(8)[OF ns] q(1) a(2) b] False q(2) k by auto
    qed
  next
    fix b assume b: "b \<in> ?D" "b \<noteq> ROOTINO"
    show "\<exists>q \<in> ?D. \<exists>l y. 2 \<le> l \<and> (if q = c then [0 \<mapsto> (dot, c), 1 \<mapsto> (dotdot, p)] l else if q = p \<and> l = k then Some (x, c) else S q l) = Some (y, b)"
    proof (cases "b = c")
      case True
      then show ?thesis using p(1) k cD(2) by (intro bexI[of _ p] exI[of _ k]) auto
    next
      case False
      then obtain q l y where q: "q \<in> D" "2 \<le> l" "S q l = Some (y, b)" using parents_entry[OF ns_okD(8)[OF ns], of b] b by blast
      then have "q \<noteq> c" "\<not> (q = p \<and> l = k)" using cD(1) p(2) by auto
      then show ?thesis using q by (intro bexI[of _ q] exI[of _ l] exI[of _ y]) auto
    qed
  qed
  moreover have "names_distinct (?S q) \<and> finite (dom (?S q))" if "q \<in> ?D" for q
  proof (cases "q = c")
    case True
    then show ?thesis by (auto simp: names_distinct_def dot_def dotdot_def split: if_splits)
  next
    case False
    then show ?thesis using that ns_okD(4, 5)[OF ns, of q] distinct_put[OF _ p(3)] by (cases "q = p") auto
  qed
  moreover have "\<forall>l y j. ?S q l = Some (y, j) \<longrightarrow> j \<in> insert c R" if "q \<in> ?D" for q
    unfolding at using ns_okD(6)[OF ns, of q] that p(1) ns_okD(2)[OF ns] by (auto split: if_splits)
  moreover have "finite (insert c R)" "?D \<subseteq> insert c R" "ROOTINO \<in> ?D" using ns_okD(1, 2, 3)[OF ns] by auto
  moreover have "\<forall>q \<in> ?D. rooted ?D ?S q" by (rule ballI) (rule rooted)
  ultimately show ?thesis unfolding ns_ok_def by (intro conjI; (assumption | blast))
qed

text \<open>An empty directory is removed: nothing else leads to it, and it leads to nothing but its parent.\<close>

lemma dir_entries:
  assumes ns: "ns_ok R D S n" and p: "p \<in> D" "2 \<le> k" "S p k = Some (x, c)" and c: "c \<in> D" "\<forall>l \<ge> 2. S c l = None"
    and q: "q \<in> D" "S q l = Some (y, c)"
  shows "q = c \<and> l = 0 \<or> q = p \<and> l = k"
proof -
  note P = parentsD[OF ns_okD(8)[OF ns] p c(1)]
  consider "l = 0" | "l = 1" | "2 \<le> l" by linarith
  then show ?thesis
  proof cases
    case 1
    then show ?thesis using dotsD(1)[OF ns_okD(7)[OF ns] q(1)] q(2) by simp
  next
    case 2
    have "q \<noteq> ROOTINO" using ns_okD(7)[OF ns] q(2) 2 P(2) by (auto simp: dots_ok_def)
    then obtain r m z where r: "r \<in> D" "2 \<le> m" "S r m = Some (z, q)" using parents_entry[OF ns_okD(8)[OF ns] q(1)] by blast
    then have "r = c" using parentsD(3)[OF ns_okD(8)[OF ns] r q(1)] q(2) 2 by simp
    then show ?thesis using r c(2) by simp
  next
    case 3
    then have "q = p" using parentsD(3)[OF ns_okD(8)[OF ns] q(1) 3 q(2) c(1)] P(3) by simp
    then show ?thesis using P(4)[OF 3] q(2) by simp
  qed
qed

lemma rmdir_entries:
  assumes ns: "ns_ok R D S n" and p: "p \<in> D" "2 \<le> k" "S p k = Some (x, c)" and c: "c \<in> D" "\<forall>l \<ge> 2. S c l = None"
  shows "entries D S c = {(p, k)}" "(c, 1) \<in> entries D S p"
    "j \<noteq> c \<Longrightarrow> entries (D - {c}) (S(p := (S p)(k := None))) j = (if j = p then entries D S p - {(c, 1)} else entries D S j)"
proof -
  note P = parentsD[OF ns_okD(8)[OF ns] p c(1)] and U = dir_entries[OF ns p c]
  show "entries D S c = {(p, k)}" using U P(1) p by (auto simp: entries_def)
  show "(c, 1) \<in> entries D S p" using c(1) P(1, 3) by (auto simp: entries_def)
  assume j: "j \<noteq> c"
  have cl: "S c l = Some (y, j) \<longleftrightarrow> l = 1 \<and> y = dotdot \<and> j = p" for l y
    using dotsD(1)[OF ns_okD(7)[OF ns] c(1)] P(3) c(2) j by (cases "l = 0"; cases "l = 1") auto
  have old: "(if q = p \<and> l = k then None else S q l) = Some (y, j) \<longleftrightarrow> S q l = Some (y, j)" for q l y using p(3) j by auto
  show "entries (D - {c}) (S(p := (S p)(k := None))) j = (if j = p then entries D S p - {(c, 1)} else entries D S j)"
  proof (cases "j = p")
    case True
    then show ?thesis unfolding entries_def put_at old using cl by auto
  next
    case False
    then have "\<not> (\<exists>y. S c l = Some (y, j))" for l using cl by simp
    then show ?thesis unfolding entries_def put_at old using False by auto
  qed
qed

lemma ns_rmdir:
  assumes ns: "ns_ok R D S n" and p: "p \<in> D" "2 \<le> k" "S p k = Some (x, c)" and c: "c \<in> D" "\<forall>l \<ge> 2. S c l = None"
  shows "ns_ok (R - {c}) (D - {c}) (S(p := (S p)(k := None))) (n(p := n p - 1, c := 0))" "n c = 1" "0 < n p" "n p = 1 \<Longrightarrow> p = ROOTINO"
proof -
  let ?S = "S(p := (S p)(k := None))" and ?D = "D - {c}" and ?n = "n(p := n p - 1, c := 0)"
  note P = parentsD[OF ns_okD(8)[OF ns] p c(1)] and U = dir_entries[OF ns p c] and E = rmdir_entries[OF ns p c]
  have pc: "p \<in> R" "c \<in> R" using p(1) c(1) ns_okD(2)[OF ns] by auto
  show "n c = 1" using ns_okD(9)[OF ns] pc(2) E(1) P(2) by (simp add: counts_ok_def)
  have n: "n j = card (entries D S j) + (if j = ROOTINO then 1 else 0)" if "j \<in> R" for j
    using ns_okD(9)[OF ns] that by (simp add: counts_ok_def)
  have fin: "finite (entries D S j)" for j by (rule finite_entries[OF ns])
  have one: "card (entries D S p) = Suc (card (entries D S p - {(c, 1)}))" using card.remove[OF fin E(2)] .
  then show "0 < n p" using n[OF pc(1)] by simp
  show "p = ROOTINO" if "n p = 1"
  proof (rule ccontr)
    assume pr: "p \<noteq> ROOTINO"
    then obtain q l y where q: "q \<in> D" "2 \<le> l" "S q l = Some (y, p)" using parents_entry[OF ns_okD(8)[OF ns] p(1)] by blast
    then have "(q, l) \<in> entries D S p" using parentsD(1)[OF ns_okD(8)[OF ns] q p(1)] by (auto simp: entries_def)
    moreover have "(q, l) \<noteq> (c, 1)" using q(2) by auto
    moreover have "card (entries D S p) = 1" using n[OF pc(1)] that pr by simp
    then obtain z where "entries D S p = {z}" by (rule card_1_singletonE)
    ultimately show False using E(2) by (metis singletonD)
  qed
  have "counts_ok (R - {c}) ?D ?S ?n"
    unfolding counts_ok_def using E(3) n one P(1) by simp
  moreover have "dots_ok ?D ?S"
    unfolding dots_ok_def put_at
  proof (intro conjI ballI)
    fix q assume q: "q \<in> ?D"
    then obtain r where r: "r \<in> D" "S q 1 = Some (dotdot, r)" using dotsD(2)[OF ns_okD(7)[OF ns]] by blast
    then have "r \<noteq> c" using U[of q 1] q p(2) by auto
    then show "\<exists>r \<in> ?D. (if q = p \<and> 1 = k then None else S q 1) = Some (dotdot, r)" using r p(2) by auto
    show "(if q = p \<and> 0 = k then None else S q 0) = Some (dot, q)" using dotsD(1)[OF ns_okD(7)[OF ns]] q p(2) by auto
  qed (use ns_okD(7)[OF ns] p(2) in \<open>auto simp: dots_ok_def\<close>)
  moreover have "parents_ok ?D ?S"
  proof (rule parents_okI, unfold put_at)
    fix q l y b assume a: "q \<in> ?D" "2 \<le> l" "(if q = p \<and> l = k then None else S q l) = Some (y, b)" "b \<in> ?D"
    then have b: "S q l = Some (y, b)" "q \<in> D" "b \<in> D" by (auto split: if_splits)
    show "b \<noteq> q \<and> b \<noteq> ROOTINO \<and> (if b = p \<and> 1 = k then None else S b 1) = Some (dotdot, q) \<and>
        (\<forall>m z. 2 \<le> m \<longrightarrow> (if q = p \<and> m = k then None else S q m) = Some (z, b) \<longrightarrow> m = l)"
      using parentsD[OF ns_okD(8)[OF ns] b(2) a(2) b(1, 3)] p(2) by (auto split: if_splits)
  next
    fix b assume b: "b \<in> ?D" "b \<noteq> ROOTINO"
    then obtain q l y where q: "q \<in> D" "2 \<le> l" "S q l = Some (y, b)" using parents_entry[OF ns_okD(8)[OF ns], of b] by blast
    moreover have "q \<noteq> c" "\<not> (q = p \<and> l = k)" using q c(2) p(3) b(1) by auto
    ultimately show "\<exists>q \<in> ?D. \<exists>l y. 2 \<le> l \<and> (if q = p \<and> l = k then None else S q l) = Some (y, b)"
      by (intro bexI[of _ q] exI[of _ l] exI[of _ y]) auto
  qed
  moreover have "names_distinct (?S q) \<and> finite (dom (?S q))" if "q \<in> ?D" for q
    using ns_okD(4, 5)[OF ns, of q] that distinct_clear by (cases "q = p") auto
  moreover have "\<forall>l y j. ?S q l = Some (y, j) \<longrightarrow> j \<in> R - {c}" if "q \<in> ?D" for q
    unfolding put_at using ns_okD(6)[OF ns, of q] U[of q] that by (auto split: if_splits)
  moreover have "finite (R - {c})" "?D \<subseteq> R - {c}" "ROOTINO \<in> ?D" using ns_okD(1, 2, 3)[OF ns] P(2) by auto
  moreover have "rooted ?D ?S q" if "q \<in> ?D" for q
  proof (rule rooted_keep[OF ns_okD(10)[OF ns], of q "\<lambda>q. q \<noteq> c"])
    show "a \<in> ?D \<and> ?S a 1 = S a 1 \<and> r \<noteq> c" if "a \<in> D" "a \<noteq> c" "S a 1 = Some (dotdot, r)" for a r
      using that U[of a 1] p(2) by auto
  qed (use that in auto)
  ultimately show "ns_ok (R - {c}) ?D ?S ?n" unfolding ns_ok_def by blast
qed

end
