(* ===== verification/Fs_Inodes.thy ===== *)
theory Fs_Inodes
  imports Fs_Tree Name_Space
begin

unbundle bit_operations_syntax

text \<open>
  Allocating and releasing inodes, and directories slot by slot. Each operation works on one inode;
  what it leaves of the others is stated once, by \<open>touches\<close>.
\<close>

section \<open>Definitions\<close>

text \<open>\<^verbatim>\<open>ialloc\<close> clears the place of the first free inode and gives it the type.\<close>

function ialloc_from :: "superblock \<Rightarrow> nat \<Rightarrow> 16 word \<Rightarrow> fsdisk \<Rightarrow> nat option \<times> fsdisk" where
  "ialloc_from sb i ty d =
    (if i < sb_ninodes sb then
       if i_type (read_inode sb i d) = 0
       then (Some i, iupdate sb \<lparr>inum = i, i_type = ty, i_major = 0, i_minor = 0, i_nlink = 0, i_size = 0, addrs = (\<lambda>_. 0)\<rparr> d)
       else ialloc_from sb (i + 1) ty d
     else (None, d))"
  by auto
termination by (relation "measure (\<lambda>(sb, i, ty, d). sb_ninodes sb - i)") auto

declare ialloc_from.simps [simp del]

definition ialloc :: "superblock \<Rightarrow> 16 word \<Rightarrow> fsdisk \<Rightarrow> nat option \<times> fsdisk" where
  "ialloc sb ty d = ialloc_from sb 1 ty d"

text \<open>
  \<open>others\<close> are the inodes that the table holds further references to, for open files and current
  directories. The test of \<^verbatim>\<open>ip->valid\<close>, which keeps an inode that was never read in from being
  freed, is left out: the fields of an inode are read from its block here, and those a call has
  obtained by \<^verbatim>\<open>iget\<close> are locked, and so valid, before they come to \<^verbatim>\<open>iput\<close> with no links.
\<close>

definition iput :: "superblock \<Rightarrow> (nat \<Rightarrow> bool) \<Rightarrow> inode \<Rightarrow> fsdisk \<Rightarrow> fault + fsdisk" where
  "iput sb others ip d =
    (if \<not> others (inum ip) \<and> i_nlink ip = 0
     then rbind (itrunc sb ip d) (\<lambda>(ip, d). Inr (iupdate sb (ip\<lparr>i_type := 0\<rparr>) d))
     else Inr d)"

section \<open>All inodes of a disk\<close>

definition live :: "superblock \<Rightarrow> fsdisk \<Rightarrow> nat set" where
  "live sb d = {i. 0 < i \<and> i < sb_ninodes sb \<and> i_type (read_inode sb i d) \<noteq> 0}"

definition disk_ok :: "superblock \<Rightarrow> fsdisk \<Rightarrow> bool" where
  "disk_ok sb d \<longleftrightarrow> (\<forall>i < sb_ninodes sb. IBLOCK i sb < sb_bmapstart sb) \<and> sb_ninodes sb \<le> 2 ^ 16 \<and> bitmap_ok sb d \<and>
    (\<forall>i \<in> live sb d. file_ok sb (read_inode sb i d) d \<and>
      (i_type (read_inode sb i d) = T_DIR \<longrightarrow> unat (i_size (read_inode sb i d)) mod 16 = 0)) \<and>
    (\<forall>i \<in> live sb d. \<forall>j \<in> live sb d. i \<noteq> j \<longrightarrow> refs (read_inode sb i d) d \<inter> refs (read_inode sb j d) d = {})"

lemma disk_okD:
  assumes "disk_ok sb d"
  shows "i < sb_ninodes sb \<Longrightarrow> IBLOCK i sb < sb_bmapstart sb" "sb_ninodes sb \<le> 2 ^ 16" "bitmap_ok sb d"
    "i \<in> live sb d \<Longrightarrow> file_ok sb (read_inode sb i d) d"
    "i \<in> live sb d \<Longrightarrow> i_type (read_inode sb i d) = T_DIR \<Longrightarrow> dir_ok sb (read_inode sb i d) d"
    "i \<in> live sb d \<Longrightarrow> j \<in> live sb d \<Longrightarrow> i \<noteq> j \<Longrightarrow> refs (read_inode sb i d) d \<inter> refs (read_inode sb j d) d = {}"
  using assms unfolding disk_ok_def dir_ok_def by blast+

lemma liveD: "i \<in> live sb d \<Longrightarrow> 0 < i \<and> i < sb_ninodes sb"
  by (simp add: live_def)

text \<open>Everything but the inode \<open>p\<close> is as before.\<close>

definition touches :: "superblock \<Rightarrow> nat \<Rightarrow> fsdisk \<Rightarrow> fsdisk \<Rightarrow> bool" where
  "touches sb p d d' \<longleftrightarrow> disk_ok sb d' \<and> (\<forall>j < sb_ninodes sb. j \<noteq> p \<longrightarrow> read_inode sb j d' = read_inode sb j d \<and>
    (j \<in> live sb d \<longrightarrow> contents (read_inode sb j d) d' = contents (read_inode sb j d) d \<and> refs (read_inode sb j d) d' = refs (read_inode sb j d) d))"

lemma touchesD:
  assumes "touches sb p d d'"
  shows "disk_ok sb d'" "j < sb_ninodes sb \<Longrightarrow> j \<noteq> p \<Longrightarrow> read_inode sb j d' = read_inode sb j d"
    "j \<in> live sb d \<Longrightarrow> j \<noteq> p \<Longrightarrow> contents (read_inode sb j d') d' = contents (read_inode sb j d) d"
    "j \<noteq> p \<Longrightarrow> j \<in> live sb d' \<longleftrightarrow> j \<in> live sb d"
    "j \<in> live sb d \<Longrightarrow> j \<noteq> p \<Longrightarrow> refs (read_inode sb j d') d' = refs (read_inode sb j d) d"
  using assms by (auto simp: touches_def live_def)

lemma touches_refl: "disk_ok sb d \<Longrightarrow> touches sb p d d"
  by (simp add: touches_def)

lemma touches_trans: "touches sb p d d1 \<Longrightarrow> touches sb p d1 d2 \<Longrightarrow> touches sb p d d2"
  unfolding touches_def live_def by auto

lemma touchesI:
  assumes W: "disk_ok sb d" and p: "p \<in> live sb d" and O: "others_kept sb (read_inode sb p d) d ip' d'" and f: "file_ok sb ip' d'"
    and rd: "\<And>j. j < sb_ninodes sb \<Longrightarrow> read_inode sb j d' = (if j = p then ip' else read_inode sb j d)"
    and ty: "i_type ip' \<noteq> 0" "i_type ip' = T_DIR \<Longrightarrow> unat (i_size ip') mod 16 = 0"
  shows "touches sb p d d'" "live sb d' = live sb d"
proof -
  show L: "live sb d' = live sb d" using rd p ty(1) by (auto simp: live_def split: if_splits)
  have K: "file_ok sb (read_inode sb j d) d' \<and> contents (read_inode sb j d) d' = contents (read_inode sb j d) d \<and>
      refs (read_inode sb j d) d' = refs (read_inode sb j d) d \<and> refs (read_inode sb j d) d' \<inter> refs ip' d' = {}"
    if "j \<in> live sb d" "j \<noteq> p" for j
    using O disk_okD(4)[OF W that(1)] disk_okD(6)[OF W that(1) p that(2)] unfolding others_kept_def by blast
  have rl: "read_inode sb j d' = (if j = p then ip' else read_inode sb j d)" if "j \<in> live sb d" for j
    using rd liveD[OF that] by simp
  have "disk_ok sb d'"
    unfolding disk_ok_def L
  proof (intro conjI ballI impI allI)
    show "IBLOCK i sb < sb_bmapstart sb" if "i < sb_ninodes sb" for i by (rule disk_okD(1)[OF W that])
    show "sb_ninodes sb \<le> 2 ^ 16" by (rule disk_okD(2)[OF W])
    show "bitmap_ok sb d'" using f by (simp add: file_ok_def)
    show "file_ok sb (read_inode sb i d') d'" if "i \<in> live sb d" for i using rl[OF that] K[OF that] f by (cases "i = p") auto
    show "unat (i_size (read_inode sb i d')) mod 16 = 0" if "i \<in> live sb d" "i_type (read_inode sb i d') = T_DIR" for i
      using rl[OF that(1)] that ty(2) disk_okD(5)[OF W that(1)] by (cases "i = p") (auto simp: dir_ok_def)
    show "refs (read_inode sb i d') d' \<inter> refs (read_inode sb j d') d' = {}" if "i \<in> live sb d" "j \<in> live sb d" "i \<noteq> j" for i j
      using rl[OF that(1)] rl[OF that(2)] K[OF that(1)] K[OF that(2)] disk_okD(6)[OF W that] that(3)
      by (cases "i = p"; cases "j = p") (auto simp: Int_commute)
  qed
  then show "touches sb p d d'" using rd K by (auto simp: touches_def)
qed

section \<open>Writing an inode\<close>

lemma iupdate_others:
  assumes ok: "file_ok sb ip d" and ip': "addrs ip' = addrs ip" "i_size ip' = i_size ip" "inum ip' = inum ip"
  shows "file_ok sb ip' (iupdate sb ip' d)" "contents ip' (iupdate sb ip' d) = contents ip d"
    "others_kept sb ip d ip' (iupdate sb ip' d)" "refs ip' (iupdate sb ip' d) = refs ip d"
proof -
  have ib: "IBLOCK (inum ip') sb < sb_bmapstart sb" and b: "bitmap_ok sb d" using ok ip'(3) by (auto simp: file_ok_def)
  note U = iupdate_keeps[OF ib b]
  have K: "file_ok sb jp' (iupdate sb ip' d) \<and> contents jp' (iupdate sb ip' d) = contents jp d \<and> refs jp' (iupdate sb ip' d) = refs jp d"
    if jp: "file_ok sb jp d" "addrs jp' = addrs jp" "i_size jp' = i_size jp" "inum jp' = inum jp" for jp jp'
  proof -
    have ok2: "inode_ok sb jp d" "unat (i_size jp) \<le> MAXFILE * BSIZE" using jp(1) by (auto simp: file_ok_def)
    have D: "data_block sb c \<and> used sb c d" if "c \<in> refs jp d" for c using ok2(1) that by (auto simp: refs_def inode_ok_def)
    have E: "iupdate sb ip' d c = d c" if "c \<in> refs jp d" for c using D[OF that] U(3) by (simp add: data_block_def)
    note C = file_cong[OF ok2(1) jp(2) E]
    have "contents jp' (iupdate sb ip' d) = contents jp d" using C(3) ok2(2) jp(3) by (auto simp: contents_def)
    moreover have "file_ok sb jp' (iupdate sb ip' d)"
      using jp U(1, 2) C(2, 4) D block_index unfolding file_ok_def by (metis order.strict_trans2)
    ultimately show ?thesis using C(1) by blast
  qed
  show "file_ok sb ip' (iupdate sb ip' d)" "contents ip' (iupdate sb ip' d) = contents ip d" "refs ip' (iupdate sb ip' d) = refs ip d"
    using K[OF ok ip'] by auto
  show "others_kept sb ip d ip' (iupdate sb ip' d)"
    unfolding others_kept_def using K[OF _ refl refl refl] K[OF ok ip'] by blast
qed

lemma addrs_read_inode: "NDIRECT < k \<Longrightarrow> addrs (read_inode sb p d) k = 0"
  by (simp add: read_inode_def Let_def)

text \<open>A change of the fields of an inode that do not concern its blocks.\<close>

lemma iupdate_touches:
  assumes W: "disk_ok sb d" and p: "p \<in> live sb d"
    and ip': "addrs ip' = addrs (read_inode sb p d)" "i_size ip' = i_size (read_inode sb p d)" "inum ip' = p" "i_type ip' = i_type (read_inode sb p d)"
  shows "touches sb p d (iupdate sb ip' d)" "live sb (iupdate sb ip' d) = live sb d" "read_inode sb p (iupdate sb ip' d) = ip'"
    "contents ip' (iupdate sb ip' d) = contents (read_inode sb p d) d" "free_blocks sb (iupdate sb ip' d) = free_blocks sb d"
    "refs ip' (iupdate sb ip' d) = refs (read_inode sb p d) d"
proof -
  note O = iupdate_others[OF disk_okD(4)[OF W p] ip'(1, 2), unfolded inum_read_inode, OF ip'(3)]
  have "addrs ip' k = 0" if "NDIRECT < k" for k using that ip'(1) by (simp add: addrs_read_inode)
  then have R: "read_inode sb (inum ip') (iupdate sb ip' d) = ip'" by (rule read_inode_iupdate)
  then show "read_inode sb p (iupdate sb ip' d) = ip'" using ip'(3) by simp
  have rd: "read_inode sb j (iupdate sb ip' d) = (if j = p then ip' else read_inode sb j d)" for j
    using R read_inode_other[of j ip' sb d] ip'(3) by auto
  have ty: "i_type ip' \<noteq> 0" "i_type ip' = T_DIR \<Longrightarrow> unat (i_size ip') mod 16 = 0"
    using p ip' disk_okD(5)[OF W p] by (auto simp: live_def dir_ok_def)
  show "touches sb p d (iupdate sb ip' d)" by (rule touchesI(1)[OF W p O(3, 1) rd ty])
  show "live sb (iupdate sb ip' d) = live sb d" by (rule touchesI(2)[OF W p O(3, 1) rd ty])
  show "contents ip' (iupdate sb ip' d) = contents (read_inode sb p d) d" "refs ip' (iupdate sb ip' d) = refs (read_inode sb p d) d"
    by (rule O(2), rule O(4))
  show "free_blocks sb (iupdate sb ip' d) = free_blocks sb d"
    using iupdate_keeps(4)[OF _ disk_okD(3)[OF W]] disk_okD(1)[OF W] liveD[OF p] ip'(3) by simp
qed

section \<open>Allocating and releasing an inode\<close>

text \<open>Blocks of the metadata other than the place of \<open>p\<close> and all blocks in use by other inodes stay.\<close>

lemma touches_frame:
  assumes W: "disk_ok sb d" and b: "bitmap_ok sb d'" and p: "p < sb_ninodes sb"
    and rd: "\<And>j. j < sb_ninodes sb \<Longrightarrow> j \<noteq> p \<Longrightarrow> read_inode sb j d' = read_inode sb j d"
    and u: "\<And>j c. j \<in> live sb d \<Longrightarrow> j \<noteq> p \<Longrightarrow> c \<in> refs (read_inode sb j d) d \<Longrightarrow> d' c = d c \<and> used sb c d'"
    and ip: "i_type (read_inode sb p d') \<noteq> 0 \<Longrightarrow> 0 < p \<Longrightarrow>
      file_ok sb (read_inode sb p d') d' \<and> i_size (read_inode sb p d') = 0 \<and> refs (read_inode sb p d') d' = {}"
  shows "touches sb p d d'"
proof -
  have K: "file_ok sb (read_inode sb j d) d' \<and> contents (read_inode sb j d) d' = contents (read_inode sb j d) d \<and>
      refs (read_inode sb j d) d' = refs (read_inode sb j d) d" if "j \<in> live sb d" "j \<noteq> p" for j
  proof -
    have ok: "file_ok sb (read_inode sb j d) d" by (rule disk_okD(4)[OF W that(1)])
    then have ok2: "inode_ok sb (read_inode sb j d) d" "unat (i_size (read_inode sb j d)) \<le> MAXFILE * BSIZE" by (auto simp: file_ok_def)
    have E: "d' c = d c" if "c \<in> refs (read_inode sb j d) d" for c using u[OF \<open>j \<in> live sb d\<close> \<open>j \<noteq> p\<close> that] by simp
    note C = file_cong[OF ok2(1) refl[of "addrs (read_inode sb j d)"] E]
    have "contents (read_inode sb j d) d' = contents (read_inode sb j d) d" using C(3) ok2(2) by (auto simp: contents_def)
    moreover have "file_ok sb (read_inode sb j d) d'"
      using ok b C(2) C(4) u[OF that] block_index unfolding file_ok_def by (metis order.strict_trans2)
    ultimately show ?thesis using C(1) by blast
  qed
  have L: "j \<in> live sb d' \<Longrightarrow> j \<noteq> p \<Longrightarrow> j \<in> live sb d" "j \<in> live sb d' \<Longrightarrow> j \<noteq> p \<Longrightarrow> read_inode sb j d' = read_inode sb j d" for j
    using rd by (auto simp: live_def)
  have P: "p \<in> live sb d' \<Longrightarrow> file_ok sb (read_inode sb p d') d' \<and> i_size (read_inode sb p d') = 0 \<and> refs (read_inode sb p d') d' = {}"
    using ip by (simp add: live_def)
  have "disk_ok sb d'"
    unfolding disk_ok_def
  proof (intro conjI ballI impI allI)
    show "IBLOCK i sb < sb_bmapstart sb" if "i < sb_ninodes sb" for i by (rule disk_okD(1)[OF W that])
    show "sb_ninodes sb \<le> 2 ^ 16" by (rule disk_okD(2)[OF W])
    show "file_ok sb (read_inode sb i d') d'" if "i \<in> live sb d'" for i using L[OF that] K[of i] P that by (cases "i = p") auto
    show "unat (i_size (read_inode sb i d')) mod 16 = 0" if "i \<in> live sb d'" "i_type (read_inode sb i d') = T_DIR" for i
      using L[OF that(1)] that P disk_okD(5)[OF W, of i] by (cases "i = p") (auto simp: dir_ok_def)
    show "refs (read_inode sb i d') d' \<inter> refs (read_inode sb j d') d' = {}" if "i \<in> live sb d'" "j \<in> live sb d'" "i \<noteq> j" for i j
      using L[OF that(1)] L[OF that(2)] K[of i] K[of j] P disk_okD(6)[OF W, of i j] that by (cases "i = p"; cases "j = p") auto
  qed (rule b)
  then show ?thesis using rd K by (simp add: touches_def)
qed

definition blank :: "nat \<Rightarrow> 16 word \<Rightarrow> inode" where
  "blank i ty = \<lparr>inum = i, i_type = ty, i_major = 0, i_minor = 0, i_nlink = 0, i_size = 0, addrs = (\<lambda>_. 0)\<rparr>"

lemma blank_simps [simp]:
  "inum (blank i ty) = i" "i_type (blank i ty) = ty" "i_size (blank i ty) = 0" "refs (blank i ty) d = {}" "contents (blank i ty) d = []"
  by (auto simp: blank_def refs_def ref_def contents_def)

lemma ialloc_from_cases:
  "ialloc_from sb i ty d = (None, d) \<or>
   (\<exists>j. i \<le> j \<and> j < sb_ninodes sb \<and> i_type (read_inode sb j d) = 0 \<and> ialloc_from sb i ty d = (Some j, iupdate sb (blank j ty) d))"
proof (induction sb i ty d rule: ialloc_from.induct)
  case (1 sb i ty d)
  have e: "ialloc_from sb i ty d = (if i < sb_ninodes sb then
      if i_type (read_inode sb i d) = 0 then (Some i, iupdate sb (blank i ty) d) else ialloc_from sb (i + 1) ty d else (None, d))"
    by (subst ialloc_from.simps) (simp add: blank_def)
  show ?case
  proof (cases "i < sb_ninodes sb \<and> i_type (read_inode sb i d) \<noteq> 0")
    case True
    then show ?thesis using 1 e by (auto intro: Suc_leD)
  qed (use e in auto)
qed

lemma ialloc_ok:
  assumes W: "disk_ok sb d" and ty: "ty \<noteq> 0"
  shows "ialloc sb ty d = (None, d) \<or>
    (\<exists>i d'. ialloc sb ty d = (Some i, d') \<and> 0 < i \<and> i < sb_ninodes sb \<and> i \<notin> live sb d \<and> touches sb i d d' \<and>
      live sb d' = insert i (live sb d) \<and> read_inode sb i d' = blank i ty \<and> free_blocks sb d' = free_blocks sb d)"
  using ialloc_from_cases[of sb 1 ty d]
proof (elim disjE exE conjE)
  fix i
  let ?d = "iupdate sb (blank i ty) d"
  assume i: "1 \<le> i" "i < sb_ninodes sb" "i_type (read_inode sb i d) = 0" and run: "ialloc_from sb 1 ty d = (Some i, ?d)"
  have R: "read_inode sb i ?d = blank i ty" using read_inode_iupdate[of "blank i ty" sb d] by (simp add: blank_def)
  have ib: "IBLOCK (inum (blank i ty)) sb < sb_bmapstart sb" using disk_okD(1)[OF W i(2)] by simp
  note U = iupdate_keeps[OF ib disk_okD(3)[OF W]]
  have O: "read_inode sb j ?d = read_inode sb j d" if "j \<noteq> i" for j using read_inode_other[of j "blank i ty"] that by simp
  have "file_ok sb (blank i ty) ?d" using U(1) ib by (simp add: file_ok_def inode_ok_def ref_def blank_def)
  moreover have "?d c = d c \<and> used sb c ?d" if "j \<in> live sb d" "c \<in> refs (read_inode sb j d) d" for j c
  proof -
    have "data_block sb c" "used sb c d" using disk_okD(4)[OF W that(1)] that(2) by (auto simp: file_ok_def inode_ok_def refs_def)
    then show ?thesis using U(2, 3) by (simp add: data_block_def)
  qed
  ultimately have "touches sb i d ?d" using R O by (intro touches_frame[OF W U(1) i(2)]) auto
  moreover have "x \<in> live sb ?d \<longleftrightarrow> x \<in> insert i (live sb d)" for x
    using O[of x] R i ty by (cases "x = i") (auto simp: live_def)
  then have "live sb ?d = insert i (live sb d)" by blast
  ultimately show ?thesis using run i R U(4) by (auto simp: ialloc_def live_def)
qed (simp add: ialloc_def)

lemma iput_keeps: "others (inum ip) \<or> i_nlink ip \<noteq> 0 \<Longrightarrow> iput sb others ip d = Inr d"
  by (auto simp: iput_def)

lemma iput_frees:
  assumes W: "disk_ok sb d" and p: "p \<in> live sb d" and z: "i_nlink (read_inode sb p d) = 0" "\<not> others p"
  shows "\<exists>d'. iput sb others (read_inode sb p d) d = Inr d' \<and> touches sb p d d' \<and> live sb d' = live sb d - {p} \<and>
    free_blocks sb d' = free_blocks sb d \<union> refs (read_inode sb p d) d"
proof -
  let ?ip = "read_inode sb p d" and ?e = "emptied (read_inode sb p d)"
  have ok: "bitmap_ok sb d" "inode_ok sb ?ip d" and ib: "IBLOCK p sb < sb_bmapstart sb" "p < sb_ninodes sb"
    using disk_okD(3)[OF W] disk_okD(4)[OF W p] disk_okD(1)[OF W] liveD[OF p] by (auto simp: file_ok_def)
  obtain d2 where d2: "itrunc sb ?ip d = Inr (?e, iupdate sb ?e d2)" "freed sb (refs ?ip d) d d2" using itrunc_ok[OF ok] by blast
  define d' where "d' = iupdate sb (?e\<lparr>i_type := 0\<rparr>) (iupdate sb ?e d2)"
  have b2: "bitmap_ok sb d2" "\<And>c. c < sb_size sb \<Longrightarrow> used sb c d2 \<longleftrightarrow> c \<notin> refs ?ip d \<and> used sb c d"
    "\<And>c. data_start sb \<le> c \<or> c < sb_bmapstart sb \<Longrightarrow> d2 c = d c" using d2(2) by (auto simp: freed_def)
  have ib': "IBLOCK (inum ?e) sb < sb_bmapstart sb" "IBLOCK (inum (?e\<lparr>i_type := 0\<rparr>)) sb < sb_bmapstart sb" using ib by auto
  note U1 = iupdate_keeps[OF ib'(1) b2(1)] and U2 = iupdate_keeps[OF ib'(2) iupdate_keeps(1)[OF ib'(1) b2(1)]]
  have run: "iput sb others ?ip d = Inr d'" using z d2(1) by (simp add: iput_def d'_def)
  have rd: "read_inode sb j d' = read_inode sb j d" if "j < sb_ninodes sb" "j \<noteq> p" for j
  proof -
    have "read_inode sb j d' = read_inode sb j d2"
      using that read_inode_other[of j "?e\<lparr>i_type := 0\<rparr>" sb] read_inode_other[of j ?e sb] by (simp add: d'_def)
    also have "\<dots> = read_inode sb j d" using b2(3) disk_okD(1)[OF W that(1)] by (intro read_inode_cong) simp
    finally show ?thesis .
  qed
  have "addrs (?e\<lparr>i_type := 0\<rparr>) k = 0" if "NDIRECT < k" for k using that by (simp add: emptied_def addrs_read_inode)
  then have "read_inode sb (inum (?e\<lparr>i_type := 0\<rparr>)) d' = ?e\<lparr>i_type := 0\<rparr>" unfolding d'_def by (rule read_inode_iupdate)
  then have z': "i_type (read_inode sb p d') = 0" by simp
  have us: "used sb c d' = used sb c d2" for c using U1(2) U2(2) by (simp add: d'_def)
  have "d' c = d c \<and> used sb c d'" if "j \<in> live sb d" "j \<noteq> p" "c \<in> refs (read_inode sb j d) d" for j c
  proof -
    have c: "data_block sb c" "used sb c d" using disk_okD(4)[OF W that(1)] that(3) by (auto simp: file_ok_def inode_ok_def refs_def)
    have "c \<notin> refs ?ip d" using disk_okD(6)[OF W that(1) p that(2)] that(3) by auto
    then show ?thesis using c us b2(2, 3) U1(3) U2(3) by (simp add: data_block_def d'_def)
  qed
  then have t: "touches sb p d d'" using rd z' U2(1) by (intro touches_frame[OF W _ ib(2)]) (auto simp: d'_def)
  have "x \<in> live sb d' \<longleftrightarrow> x \<in> live sb d - {p}" for x
    using z' touchesD(4)[OF t, of x] by (cases "x = p") (auto simp: live_def)
  then have "live sb d' = live sb d - {p}" by blast
  moreover have "free_blocks sb d' = free_blocks sb d \<union> refs ?ip d"
    using us b2(2) ok(2) by (auto simp: free_blocks_def refs_def inode_ok_def data_block_def)
  ultimately show ?thesis using run t by blast
qed

section \<open>Directories slot by slot\<close>

definition dirslot :: "byte list \<Rightarrow> dirslots" where
  "dirslot cs k = (if k < length cs div 16 \<and> de_inum (dir_entry cs k) \<noteq> 0
    then Some (name_key (de_name (dir_entry cs k)), de_inum (dir_entry cs k)) else None)"

definition slots :: "superblock \<Rightarrow> fsdisk \<Rightarrow> nat \<Rightarrow> dirslots" where
  "slots sb d p = dirslot (contents (read_inode sb p d) d)"

lemma slot_within: "dirslot cs k = Some x \<Longrightarrow> k < length cs div 16"
  by (auto simp: dirslot_def split: if_splits)

lemma entry_at_slot: "k < length cs div 16 \<Longrightarrow> entry_at cs name k \<longleftrightarrow> (\<exists>i. dirslot cs k = Some (name_key name, i))"
  by (auto simp: entry_at_def dirslot_def namecmp_0_iff)

lemma dir_map_slot:
  "dir_map cs name = None \<longleftrightarrow> (\<forall>k i. dirslot cs k \<noteq> Some (name_key name, i))"
  "dir_map cs name = Some i \<Longrightarrow> \<exists>k. dirslot cs k = Some (name_key name, i)"
proof -
  show "dir_map cs name = None \<longleftrightarrow> (\<forall>k i. dirslot cs k \<noteq> Some (name_key name, i))"
  proof -
    have "dir_map cs name = None \<longleftrightarrow> (\<forall>k < length cs div 16. \<not> entry_at cs name k)" by (auto simp: dir_map_def find_None_iff)
    also have "\<dots> \<longleftrightarrow> (\<forall>k i. dirslot cs k \<noteq> Some (name_key name, i))" using entry_at_slot[of _ cs name] slot_within[of cs] by metis
    finally show ?thesis .
  qed
  assume "dir_map cs name = Some i"
  then obtain k where "find (entry_at cs name) [0..<length cs div 16] = Some k" "de_inum (dir_entry cs k) = i" by (auto simp: dir_map_def)
  then show "\<exists>k. dirslot cs k = Some (name_key name, i)"
    using find_Some_upt[of "entry_at cs name"] by (auto simp: entry_at_def dirslot_def namecmp_0_iff intro!: exI[of _ k])
qed

text \<open>With distinct names, a directory is a map.\<close>

lemma dir_map_distinct: "names_distinct (dirslot cs) \<Longrightarrow> dir_map cs name = Some i \<longleftrightarrow> (\<exists>k. dirslot cs k = Some (name_key name, i))"
  using dir_map_slot(1)[of cs name] dir_map_slot(2)[of cs name]
  by (cases "dir_map cs name") (auto simp: names_distinct_def, metis option.inject prod.inject)

lemma slot_put:
  assumes "length cs mod 16 = 0" "k \<le> length cs div 16" "length e = 16" "cs' = take (16 * k) cs @ e @ drop (16 * k + 16) cs"
  shows "dirslot cs' = (dirslot cs)(k := if de_inum e = 0 then None else Some (name_key (de_name e), de_inum e))"
proof
  fix j
  note P = dir_entry_put[OF assms]
  show "dirslot cs' j = ((dirslot cs)(k := if de_inum e = 0 then None else Some (name_key (de_name e), de_inum e))) j"
  proof (cases "j = k")
    case True
    then show ?thesis using P(1) P(3)[of k] by (auto simp: dirslot_def)
  next
    case False
    then have "j < length cs' div 16 \<longleftrightarrow> j < length cs div 16" using P(1) assms(2) by auto
    then show ?thesis using False P(3)[of j] by (auto simp: dirslot_def)
  qed
qed

lemma touch_write:
  assumes W: "disk_ok sb d" and p: "p \<in> live sb d" "i_type (read_inode sb p d) = T_DIR"
    and s: "saved sb (read_inode sb p d) d ip' d' \<or> ip' = read_inode sb p d \<and> d' = d"
    and O: "others_kept sb (read_inode sb p d) d ip' d'" and f: "file_ok sb ip' d'" "unat (i_size ip') mod 16 = 0"
  shows "touches sb p d d'" "live sb d' = live sb d" "read_inode sb p d' = ip'" "i_type ip' = T_DIR" "i_nlink ip' = i_nlink (read_inode sb p d)"
proof -
  have rd: "read_inode sb j d' = (if j = p then ip' else read_inode sb j d)" if "j < sb_ninodes sb" for j
    using s saved_inodes[of sb p d ip' d' j] disk_okD(1)[OF W that] by auto
  have ty: "i_type ip' = i_type (read_inode sb p d)" using s by (auto simp: saved_def)
  have T: "i_type ip' \<noteq> 0" "i_type ip' = T_DIR \<Longrightarrow> unat (i_size ip') mod 16 = 0" using ty p(2) f(2) by (auto simp: T_DIR_def)
  show "touches sb p d d'" "live sb d' = live sb d" using touchesI[OF W p(1) O f(1) rd T] by auto
  show "read_inode sb p d' = ip'" using rd liveD[OF p(1)] by simp
  show "i_type ip' = T_DIR" "i_nlink ip' = i_nlink (read_inode sb p d)" using ty p(2) s by (auto simp: saved_def)
qed

lemma free_dirent_first:
  assumes "dir_ok sb dp d"
  obtains k where "free_dirent sb 0 dp d = Inr (16 * k, dp, d)" "k \<le> unat (i_size dp) div 16" "dirslot (contents dp d) k = None"
    "\<forall>j < k. dirslot (contents dp d) j \<noteq> None"
proof -
  have "\<exists>j. free_dirent sb (16 * k) dp d = Inr (16 * j, dp, d) \<and> k \<le> j \<and> j \<le> unat (i_size dp) div 16 \<and> dirslot (contents dp d) j = None \<and>
      (\<forall>l. k \<le> l \<longrightarrow> l < j \<longrightarrow> dirslot (contents dp d) l \<noteq> None)" if "k \<le> unat (i_size dp) div 16" for k
    using that
  proof (induction k rule: inc_induct)
    case base
    then show ?case using entries_end[OF assms refl]
      by (subst free_dirent.simps) (auto simp: dirslot_def intro!: exI[of _ "unat (i_size dp) div 16"])
  next
    case (step k)
    show ?case
    proof (cases "de_inum (dir_entry (contents dp d) k) = 0")
      case True
      then show ?thesis using readi_entry[OF assms step(2)] step(2) by (subst free_dirent.simps) (auto simp: dirslot_def intro!: exI[of _ k])
    next
      case False
      have nxt: "16 * k + 16 = 16 * Suc k" by simp
      have "free_dirent sb (16 * k) dp d = free_dirent sb (16 * Suc k) dp d"
        using readi_entry[OF assms step(2)] False by (subst free_dirent.simps) (simp add: nxt del: mult_Suc_right)
      moreover have "dirslot (contents dp d) k \<noteq> None" using False step(2) by (simp add: dirslot_def)
      ultimately show ?thesis using step(3) by (metis Suc_leD Suc_leI le_eq_less_or_eq)
    qed
  qed
  from this[of 0] show thesis using that by auto
qed

lemma dirlink_slots:
  assumes W: "disk_ok sb d" and p: "p \<in> live sb d" "i_type (read_inode sb p d) = T_DIR" and i: "0 < i" "i < 2 ^ 16"
  shows "\<exists>r d'. dirlink sb (read_inode sb p d) name i d = Inr (r, read_inode sb p d', d') \<and> touches sb p d d' \<and> live sb d' = live sb d \<and>
    i_type (read_inode sb p d') = T_DIR \<and> i_nlink (read_inode sb p d') = i_nlink (read_inode sb p d) \<and>
    (r = 0 \<and> (\<forall>k j. slots sb d p k \<noteq> Some (name_key name, j)) \<and>
       (\<exists>k. slots sb d p k = None \<and> (\<forall>j < k. slots sb d p j \<noteq> None) \<and> slots sb d' p = (slots sb d p)(k \<mapsto> (name_key name, i))) \<or>
     r = -1 \<and> slots sb d' p = slots sb d p)"
proof -
  let ?dp = "read_inode sb p d" and ?S = "slots sb d p"
  have ok: "dir_ok sb ?dp d" by (rule disk_okD(5)[OF W p])
  obtain x where x: "dirlookup sb ?dp name d = Inr (x, ?dp, d)" "map_option fst x = dir_map (contents ?dp d) name"
    using dirlookup_map[OF ok] by blast
  show ?thesis
  proof (cases x)
    case (Some y)
    then show ?thesis
      using x(1) touches_refl[OF W] p(2) by (intro exI[of _ "-1"] exI[of _ d]) (simp add: dirlink_def)
  next
    case None
    then have new: "\<forall>k j. ?S k \<noteq> Some (name_key name, j)" using x(2) dir_map_slot(1)[of "contents ?dp d" name] by (simp add: slots_def)
    obtain k where k: "free_dirent sb 0 ?dp d = Inr (16 * k, ?dp, d)" "k \<le> unat (i_size ?dp) div 16" "?S k = None" "\<forall>j < k. ?S j \<noteq> None"
      using free_dirent_first[OF ok] unfolding slots_def by blast
    obtain r dp' d' where w: "writei sb (from_kernel (dirent i name)) ?dp (of_nat (16 * k)) 16 d = Inr (r, dp', d')"
      and V: "file_ok sb dp' d'" "saved sb ?dp d dp' d' \<or> dp' = ?dp \<and> d' = d" "others_kept sb ?dp d dp' d'"
        "r = 16 \<and> contents dp' d' = take (16 * k) (contents ?dp d) @ dirent i name @ drop (16 * k + 16) (contents ?dp d) \<or>
         r \<noteq> 16 \<and> contents dp' d' = contents ?dp d \<and> (free_blocks sb d' = {} \<or> unat (i_size ?dp) = MAXFILE * BSIZE)"
      using entry_write[OF ok k(2) dirent_fields(1)] by blast
    have m: "length (contents ?dp d) mod 16 = 0" using ok by (simp add: dir_ok_def)
    have kc: "k \<le> length (contents ?dp d) div 16" using k(2) by simp
    have S': "dirslot (contents dp' d') = (if r = 16 then ?S(k \<mapsto> (name_key name, i)) else ?S)"
      using V(4) slot_put[OF m kc dirent_fields(1)[of i name], of "contents dp' d'"] i by (auto simp: slots_def)
    have "length (contents dp' d') mod 16 = 0"
      using V(4) m dir_entry_put(2)[OF m kc dirent_fields(1)[of i name], of "contents dp' d'"] by metis
    then have m': "unat (i_size dp') mod 16 = 0" by simp
    note T = touch_write[OF W p V(2, 3, 1) m']
    have "dirlink sb ?dp name i d = Inr (if r = 16 then 0 else - 1, read_inode sb p d', d')"
      using x None k(1) w T(3) by (simp add: dirlink_def)
    then show ?thesis using T S' new k(3, 4)
      by (intro exI[of _ "if r = 16 then 0 else - 1"] exI[of _ d']) (auto simp: slots_def)
  qed
qed

text \<open>A write within the size of a file needs no new block.\<close>

lemma write_in_place:
  assumes "file_ok sb ip d" "off < unat (i_size ip)" "off mod BSIZE + length src \<le> BSIZE" "src \<noteq> []"
  shows "\<exists>x. writei_loop sb (from_kernel src) (length src) 0 off ip d = Inr (length src, x)"
proof -
  have bn: "off div BSIZE < MAXFILE" "file_block ip d (off div BSIZE) \<noteq> 0"
    using assms(1, 2) block_index by (auto simp: file_ok_def)
  obtain a ip1 d1 where "bmap sb ip (off div BSIZE) d = Inr (a, ip1, d1)" "mapped sb ip d (off div BSIZE) a ip1 d1"
    using bmap_mapped[of sb d ip "off div BSIZE"] assms(1) bn(1) by (auto simp: file_ok_def)
  then have bm: "bmap sb ip (off div BSIZE) d = Inr (file_block ip d (off div BSIZE), ip, d)"
    using bn(2) by (auto simp: mapped_def)
  have m: "min (length src) (BSIZE - off mod BSIZE) = length src" using assms(3) by simp
  show ?thesis
    using bm bn(2) m assms(4)
    by (subst writei_loop.simps) (simp add: writei_loop.simps[of _ _ "length src" "length src"] from_kernel_def Let_def)
qed

text \<open>Clearing the slot that a lookup found.\<close>

lemma clear_slot:
  assumes W: "disk_ok sb d" and p: "p \<in> live sb d" "i_type (read_inode sb p d) = T_DIR" and k: "slots sb d p k \<noteq> None"
  shows "\<exists>d'. writei sb (from_kernel (replicate 16 0)) (read_inode sb p d) (of_nat (16 * k)) 16 d = Inr (16, read_inode sb p d', d') \<and>
    touches sb p d d' \<and> live sb d' = live sb d \<and> i_type (read_inode sb p d') = T_DIR \<and>
    i_nlink (read_inode sb p d') = i_nlink (read_inode sb p d) \<and> slots sb d' p = (slots sb d p)(k := None)"
proof -
  let ?dp = "read_inode sb p d" and ?e = "replicate 16 0 :: byte list"
  have ok: "dir_ok sb ?dp d" by (rule disk_okD(5)[OF W p])
  then have fok: "file_ok sb ?dp d" and m: "length (contents ?dp d) mod 16 = 0" by (auto simp: dir_ok_def)
  have kl: "k < unat (i_size ?dp) div 16" using k slot_within[of "contents ?dp d" k] by (auto simp: slots_def)
  have M: "MAXFILE * BSIZE = 274432" by (simp add: MAXFILE_def NDIRECT_def NINDIRECT_def BSIZE_def)
  have le: "16 * k + 16 \<le> unat (i_size ?dp)" "unat (i_size ?dp) \<le> MAXFILE * BSIZE" using kl fok by (auto simp: file_ok_def)
  have len: "length ?e = 16" by simp
  obtain r dp' d' where w: "writei sb (from_kernel ?e) ?dp (of_nat (16 * k)) 16 d = Inr (r, dp', d')"
    and V: "file_ok sb dp' d'" "saved sb ?dp d dp' d' \<or> dp' = ?dp \<and> d' = d" "others_kept sb ?dp d dp' d'"
      "r = 16 \<and> contents dp' d' = take (16 * k) (contents ?dp d) @ ?e @ drop (16 * k + 16) (contents ?dp d) \<or> r \<noteq> 16"
    using entry_write[OF ok less_imp_le[OF kl] len] by blast
  have "16 * k mod BSIZE = 16 * (k mod 64)" "k mod 64 < 64" by (simp_all add: BSIZE_def mult_mod_right)
  then have "16 * k mod BSIZE + length ?e \<le> BSIZE" by (simp add: BSIZE_def)
  from write_in_place[OF fok _ this] le(1) obtain x where
    x: "writei_loop sb (from_kernel ?e) (length ?e) 0 (16 * k) ?dp d = Inr (length ?e, x)" by auto
  have u: "unat (of_nat (16 * k) :: 32 word) = 16 * k" using le M by (intro unat_small) simp
  have big: "unat (of_nat (16 * k) + 16 :: 32 word) = 16 * k + 16" using u le M by (simp add: unat_word_ariths)
  have "\<not> of_nat (16 * k) > i_size ?dp" "\<not> of_nat (16 * k) + 16 < (of_nat (16 * k) :: 32 word)"
    using u big le(1) unfolding word_less_nat_alt by simp_all
  then have r: "r = 16" using w x u big le unfolding writei_def by (cases x) (simp add: Let_def)
  have kc: "k \<le> length (contents ?dp d) div 16" using kl by simp
  have cs: "contents dp' d' = take (16 * k) (contents ?dp d) @ ?e @ drop (16 * k + 16) (contents ?dp d)" using V(4) r by blast
  have "de_inum ?e = 0" by (simp add: de_inum_def)
  then have S: "dirslot (contents dp' d') = (dirslot (contents ?dp d))(k := None)" using slot_put[OF m kc len cs] by simp
  have "unat (i_size dp') mod 16 = 0" using dir_entry_put(2)[OF m kc len cs] by simp
  note T = touch_write[OF W p V(2, 3, 1) this]
  show ?thesis using w r T S by (auto simp: slots_def)
qed

end
