(* ===== verification/Fs_Paths.thy ===== *)
theory Fs_Paths
  imports Fs_Inodes
begin

unbundle bit_operations_syntax

text \<open>
  The system calls on paths of \<^verbatim>\<open>kernel/sysfile.c\<close>: creating files, directories and devices, linking,
  unlinking, the way from a path to the inode in \<^verbatim>\<open>open\<close> and \<^verbatim>\<open>chdir\<close>. The kernel writes an inode to
  its block whenever it has changed it, so the copy of an inode in memory is the one on the disk.
  \<open>held\<close> says which inodes the table of inodes holds for others than the call at hand. An argument
  that cannot be fetched from user memory is \<open>None\<close>.
\<close>

section \<open>Definitions\<close>

definition ilock :: "superblock \<Rightarrow> nat \<Rightarrow> fsdisk \<Rightarrow> fault + inode" where
  "ilock sb i d = (let ip = read_inode sb i d in if i_type ip = 0 then Inl (Panic ''ilock: no type'') else Inr ip)"

text \<open>At boot the inodes that no name leads to any more are released; nothing else holds them then.\<close>

definition ireclaim :: "superblock \<Rightarrow> fsdisk \<Rightarrow> fault + fsdisk" where
  "ireclaim sb d =
    rfold (\<lambda>i d. let ip = read_inode sb i d in
      if i_type ip \<noteq> 0 \<and> i_nlink ip = 0 then rbind (ilock sb i d) (\<lambda>ip. iput sb (\<lambda>_. False) ip d) else Inr d)
      [1..<sb_ninodes sb] d"

text \<open>The part of \<^verbatim>\<open>create\<close> behind the label \<^verbatim>\<open>fail\<close>.\<close>

definition create_fail :: "superblock \<Rightarrow> (nat \<Rightarrow> bool) \<Rightarrow> inode \<Rightarrow> inode \<Rightarrow> fsdisk \<Rightarrow> fault + (nat option \<times> fsdisk)" where
  "create_fail sb held ip dp d =
    (let ip = ip\<lparr>i_nlink := 0\<rparr> in
     rbind (iput sb held ip (iupdate sb ip d)) (\<lambda>d. rbind (iput sb held dp d) (\<lambda>d. Inr (None, d))))"

definition make_dots :: "superblock \<Rightarrow> inode \<Rightarrow> nat \<Rightarrow> fsdisk \<Rightarrow> fault + (int \<times> inode \<times> fsdisk)" where
  "make_dots sb ip up d =
    rbind (dirlink sb ip dot (inum ip) d) (\<lambda>(r, ip, d). if r < 0 then Inr (r, ip, d) else dirlink sb ip dotdot up d)"

text \<open>The part of \<^verbatim>\<open>create\<close> that has found no inode of the name.\<close>

definition create_new :: "superblock \<Rightarrow> (nat \<Rightarrow> bool) \<Rightarrow> inode \<Rightarrow> byte list \<Rightarrow> 16 word \<Rightarrow> 16 word \<Rightarrow> 16 word \<Rightarrow> fsdisk \<Rightarrow>
    fault + (nat option \<times> fsdisk)" where
  "create_new sb held dp name ty major minor d =
    (case ialloc sb ty d of
       (None, d) \<Rightarrow> rbind (iput sb held dp d) (\<lambda>d. Inr (None, d))
     | (Some i, d) \<Rightarrow>
         rbind (ilock sb i d) (\<lambda>ip.
         let ip = ip\<lparr>i_major := major, i_minor := minor, i_nlink := 1\<rparr>; d = iupdate sb ip d in
         rbind (if ty = T_DIR then make_dots sb ip (inum dp) d else Inr (0, ip, d)) (\<lambda>(r, ip, d).
         if r < 0 then create_fail sb held ip dp d
         else rbind (dirlink sb dp name i d) (\<lambda>(r, dp, d).
         if r < 0 then create_fail sb held ip dp d
         else let (dp, d) = (if ty = T_DIR then let dp = dp\<lparr>i_nlink := i_nlink dp + 1\<rparr> in (dp, iupdate sb dp d) else (dp, d)) in
         rbind (iput sb held dp d) (\<lambda>d. Inr (Some i, d))))))"

definition create :: "superblock \<Rightarrow> (nat \<Rightarrow> bool) \<Rightarrow> nat \<Rightarrow> byte list \<Rightarrow> 16 word \<Rightarrow> 16 word \<Rightarrow> 16 word \<Rightarrow> fsdisk \<Rightarrow>
    fault + (nat option \<times> fsdisk)" where
  "create sb held cwd path ty major minor d =
    rbind (nameiparent sb path cwd d) (\<lambda>(up, d). case up of
      None \<Rightarrow> Inr (None, d)
    | Some (p, name) \<Rightarrow>
        rbind (ilock sb p d) (\<lambda>dp.
        rbind (dirlookup sb dp name d) (\<lambda>(found, dp, d). case found of
          Some (i, _) \<Rightarrow>
            rbind (iput sb (\<lambda>j. held j \<or> j = i) dp d) (\<lambda>d.
            rbind (ilock sb i d) (\<lambda>ip.
            if ty = T_FILE \<and> (i_type ip = T_FILE \<or> i_type ip = T_DEVICE) then Inr (Some i, d)
            else rbind (iput sb held ip d) (\<lambda>d. Inr (None, d))))
        | None \<Rightarrow> create_new sb held dp name ty major minor d)))"

text \<open>\<^verbatim>\<open>mkdir\<close> and \<^verbatim>\<open>mknod\<close> drop the inode they have made; a device number is a \<^verbatim>\<open>short\<close>.\<close>

definition make :: "superblock \<Rightarrow> (nat \<Rightarrow> bool) \<Rightarrow> nat \<Rightarrow> byte list option \<Rightarrow> 16 word \<Rightarrow> 16 word \<Rightarrow> 16 word \<Rightarrow> fsdisk \<Rightarrow>
    fault + (int \<times> fsdisk)" where
  "make sb held cwd arg ty major minor d =
    (case arg of None \<Rightarrow> Inr (-1, d) | Some path \<Rightarrow>
     rbind (create sb held cwd path ty major minor d) (\<lambda>(made, d). case made of
       None \<Rightarrow> Inr (-1, d)
     | Some i \<Rightarrow> rbind (iput sb held (read_inode sb i d) d) (\<lambda>d. Inr (0, d))))"

definition sys_mkdir :: "superblock \<Rightarrow> (nat \<Rightarrow> bool) \<Rightarrow> nat \<Rightarrow> byte list option \<Rightarrow> fsdisk \<Rightarrow> fault + (int \<times> fsdisk)" where
  "sys_mkdir sb held cwd arg d = make sb held cwd arg T_DIR 0 0 d"

definition sys_mknod :: "superblock \<Rightarrow> (nat \<Rightarrow> bool) \<Rightarrow> nat \<Rightarrow> byte list option \<Rightarrow> int \<Rightarrow> int \<Rightarrow> fsdisk \<Rightarrow> fault + (int \<times> fsdisk)" where
  "sys_mknod sb held cwd arg major minor d = make sb held cwd arg T_DEVICE (of_int major) (of_int minor) d"

text \<open>The part of \<^verbatim>\<open>sys_link\<close> that makes the entry; there is one device only.\<close>

definition link_name :: "superblock \<Rightarrow> (nat \<Rightarrow> bool) \<Rightarrow> nat \<Rightarrow> byte list \<Rightarrow> nat \<Rightarrow> fsdisk \<Rightarrow> fault + (bool \<times> fsdisk)" where
  "link_name sb held cwd new i d =
    rbind (nameiparent sb new cwd d) (\<lambda>(up, d). case up of
      None \<Rightarrow> Inr (False, d)
    | Some (p, name) \<Rightarrow>
        rbind (ilock sb p d) (\<lambda>dp.
        rbind (dirlink sb dp name i d) (\<lambda>(r, dp, d).
        rbind (iput sb held dp d) (\<lambda>d. Inr (r \<ge> 0, d)))))"

definition link_inode :: "superblock \<Rightarrow> (nat \<Rightarrow> bool) \<Rightarrow> nat \<Rightarrow> nat \<Rightarrow> byte list \<Rightarrow> fsdisk \<Rightarrow> fault + (int \<times> fsdisk)" where
  "link_inode sb held cwd i new d =
    rbind (ilock sb i d) (\<lambda>ip.
    if i_type ip = T_DIR then rbind (iput sb held ip d) (\<lambda>d. Inr (-1, d))
    else let ip = ip\<lparr>i_nlink := i_nlink ip + 1\<rparr> in
    rbind (link_name sb held cwd new i (iupdate sb ip d)) (\<lambda>(linked, d).
    if linked then rbind (iput sb held (read_inode sb i d) d) (\<lambda>d. Inr (0, d))
    else rbind (ilock sb i d) (\<lambda>ip.
      let ip = ip\<lparr>i_nlink := i_nlink ip - 1\<rparr> in
      rbind (iput sb held ip (iupdate sb ip d)) (\<lambda>d. Inr (-1, d)))))"

definition sys_link :: "superblock \<Rightarrow> (nat \<Rightarrow> bool) \<Rightarrow> nat \<Rightarrow> byte list option \<Rightarrow> byte list option \<Rightarrow> fsdisk \<Rightarrow> fault + (int \<times> fsdisk)" where
  "sys_link sb held cwd old new d =
    (if old = None \<or> new = None then Inr (-1, d)
     else rbind (namei sb (the old) cwd d) (\<lambda>(found, d). case found of
       None \<Rightarrow> Inr (-1, d)
     | Some (i, _) \<Rightarrow> link_inode sb held cwd i (the new) d))"

function isdirempty_from :: "superblock \<Rightarrow> nat \<Rightarrow> inode \<Rightarrow> fsdisk \<Rightarrow> fault + (bool \<times> inode \<times> fsdisk)" where
  "isdirempty_from sb off dp d =
    (if off < unat (i_size dp) then
       rbind (readi sb (\<lambda>_ _. True) dp (of_nat off) 16 d) (\<lambda>(r, de, dp, d).
         if r \<noteq> 16 then Inl (Panic ''isdirempty: readi'')
         else if de_inum de \<noteq> 0 then Inr (False, dp, d)
         else isdirempty_from sb (off + 16) dp d)
     else Inr (True, dp, d))"
  by auto
termination
  by (relation "measure (\<lambda>(sb, off, dp, d). 4294967296 - off)") (auto dest: below_size)

declare isdirempty_from.simps [simp del]

definition isdirempty :: "superblock \<Rightarrow> inode \<Rightarrow> fsdisk \<Rightarrow> fault + (bool \<times> inode \<times> fsdisk)" where
  "isdirempty sb dp d = isdirempty_from sb (2 * 16) dp d"

text \<open>The end of \<^verbatim>\<open>sys_unlink\<close>, with the entry for \<open>ip\<close> found at \<open>off\<close>.\<close>

definition remove_entry :: "superblock \<Rightarrow> (nat \<Rightarrow> bool) \<Rightarrow> inode \<Rightarrow> nat \<Rightarrow> inode \<Rightarrow> fsdisk \<Rightarrow> fault + (int \<times> fsdisk)" where
  "remove_entry sb held dp off ip d =
    rbind (writei sb (from_kernel (replicate 16 0)) dp (of_nat off) 16 d) (\<lambda>(r, dp, d).
    if r \<noteq> 16 then Inl (Panic ''unlink: writei'')
    else let (dp, d) = (if i_type ip = T_DIR then let dp = dp\<lparr>i_nlink := i_nlink dp - 1\<rparr> in (dp, iupdate sb dp d) else (dp, d)) in
    rbind (iput sb held dp d) (\<lambda>d.
    let ip = ip\<lparr>i_nlink := i_nlink ip - 1\<rparr> in
    rbind (iput sb held ip (iupdate sb ip d)) (\<lambda>d. Inr (0, d))))"

text \<open>
  The part of \<^verbatim>\<open>sys_unlink\<close> that has found the inode: it waits for the lock of the inode while it holds
  the lock of the directory.
\<close>

definition unlink_inode :: "superblock \<Rightarrow> (nat \<Rightarrow> bool) \<Rightarrow> inode \<Rightarrow> nat \<Rightarrow> nat \<Rightarrow> fsdisk \<Rightarrow> fault + (int \<times> fsdisk)" where
  "unlink_inode sb held dp off i d =
    (if i = inum dp then Inl Deadlock
     else rbind (ilock sb i d) (\<lambda>ip.
     if sint (i_nlink ip) < 1 then Inl (Panic ''unlink: nlink < 1'')
     else rbind (if i_type ip = T_DIR then isdirempty sb ip d else Inr (True, ip, d)) (\<lambda>(empty, ip, d).
     if \<not> empty then rbind (iput sb held ip d) (\<lambda>d. rbind (iput sb held dp d) (\<lambda>d. Inr (-1, d)))
     else remove_entry sb held dp off ip d)))"

definition sys_unlink :: "superblock \<Rightarrow> (nat \<Rightarrow> bool) \<Rightarrow> nat \<Rightarrow> byte list option \<Rightarrow> fsdisk \<Rightarrow> fault + (int \<times> fsdisk)" where
  "sys_unlink sb held cwd arg d =
    (case arg of None \<Rightarrow> Inr (-1, d) | Some path \<Rightarrow>
     rbind (nameiparent sb path cwd d) (\<lambda>(up, d). case up of
       None \<Rightarrow> Inr (-1, d)
     | Some (p, name) \<Rightarrow>
         rbind (ilock sb p d) (\<lambda>dp.
         if namecmp name dot = 0 \<or> namecmp name dotdot = 0 then rbind (iput sb held dp d) (\<lambda>d. Inr (-1, d))
         else rbind (dirlookup sb dp name d) (\<lambda>(found, dp, d). case found of
           None \<Rightarrow> rbind (iput sb held dp d) (\<lambda>d. Inr (-1, d))
         | Some (i, off) \<Rightarrow>
             unlink_inode sb held dp off i d))))"

text \<open>The inode that \<^verbatim>\<open>sys_open\<close> goes on with.\<close>

definition open_inode :: "superblock \<Rightarrow> (nat \<Rightarrow> bool) \<Rightarrow> nat \<Rightarrow> byte list option \<Rightarrow> int \<Rightarrow> fsdisk \<Rightarrow> fault + (nat option \<times> fsdisk)" where
  "open_inode sb held cwd arg omode d =
    (case arg of None \<Rightarrow> Inr (None, d) | Some path \<Rightarrow>
     if omode AND 0x200 \<noteq> 0 then create sb held cwd path T_FILE 0 0 d
     else rbind (namei sb path cwd d) (\<lambda>(found, d). case found of
       None \<Rightarrow> Inr (None, d)
     | Some (i, _) \<Rightarrow>
         rbind (ilock sb i d) (\<lambda>ip.
         if i_type ip = T_DIR \<and> omode \<noteq> 0 then rbind (iput sb held ip d) (\<lambda>d. Inr (None, d))
         else Inr (Some i, d))))"

text \<open>\<^verbatim>\<open>sys_chdir\<close> returns the new current directory with its result.\<close>

definition sys_chdir :: "superblock \<Rightarrow> (nat \<Rightarrow> bool) \<Rightarrow> nat \<Rightarrow> byte list option \<Rightarrow> fsdisk \<Rightarrow> fault + (int \<times> nat \<times> fsdisk)" where
  "sys_chdir sb held cwd arg d =
    (case arg of None \<Rightarrow> Inr (-1, cwd, d) | Some path \<Rightarrow>
     rbind (namei sb path cwd d) (\<lambda>(found, d). case found of
       None \<Rightarrow> Inr (-1, cwd, d)
     | Some (i, _) \<Rightarrow>
         rbind (ilock sb i d) (\<lambda>ip.
         if i_type ip \<noteq> T_DIR then rbind (iput sb held ip d) (\<lambda>d. Inr (-1, cwd, d))
         else rbind (iput sb (\<lambda>j. held j \<or> j = i) (read_inode sb cwd d) d) (\<lambda>d. Inr (0, i, d)))))"

section \<open>The name space of a disk\<close>

definition links :: "superblock \<Rightarrow> fsdisk \<Rightarrow> nat \<Rightarrow> nat" where
  "links sb d i = (if i \<in> live sb d then unat (i_nlink (read_inode sb i d)) else 0)"

definition nodes :: "superblock \<Rightarrow> fsdisk \<Rightarrow> nat set" where
  "nodes sb d = {i. links sb d i \<noteq> 0}"

definition dirs :: "superblock \<Rightarrow> fsdisk \<Rightarrow> nat set" where
  "dirs sb d = {i \<in> nodes sb d. i_type (read_inode sb i d) = T_DIR}"

definition fs_ok :: "superblock \<Rightarrow> fsdisk \<Rightarrow> bool" where
  "fs_ok sb d \<longleftrightarrow> disk_ok sb d \<and> ns_ok (nodes sb d) (dirs sb d) (slots sb d) (links sb d) \<and> (\<forall>i. links sb d i < 2 ^ 15)"

lemma fs_okD:
  assumes "fs_ok sb d"
  shows "disk_ok sb d" "ns_ok (nodes sb d) (dirs sb d) (slots sb d) (links sb d)" "links sb d i < 2 ^ 15"
  using assms by (auto simp: fs_ok_def)

lemma nodes_live: "i \<in> nodes sb d \<Longrightarrow> i \<in> live sb d"
  by (auto simp: nodes_def links_def split: if_splits)

lemma dirsD: "p \<in> dirs sb d \<Longrightarrow> p \<in> nodes sb d \<and> p \<in> live sb d \<and> i_type (read_inode sb p d) = T_DIR"
  by (auto simp: dirs_def nodes_live)

lemma nodes_nlink: "i \<in> nodes sb d \<Longrightarrow> i_nlink (read_inode sb i d) \<noteq> 0"
  by (auto simp: nodes_def links_def split: if_splits)

text \<open>The same names and counts, on a disk that may differ elsewhere.\<close>

definition same :: "superblock \<Rightarrow> fsdisk \<Rightarrow> fsdisk \<Rightarrow> bool" where
  "same sb d d' \<longleftrightarrow> disk_ok sb d' \<and> links sb d' = links sb d \<and> dirs sb d' = dirs sb d \<and> (\<forall>p \<in> dirs sb d. slots sb d' p = slots sb d p)"

lemma same_refl: "disk_ok sb d \<Longrightarrow> same sb d d"
  by (simp add: same_def)

lemma same_trans: "same sb d d1 \<Longrightarrow> same sb d1 d2 \<Longrightarrow> same sb d d2"
  by (auto simp: same_def)

lemma fs_view:
  assumes "disk_ok sb d'" "ns_ok (nodes sb d') (dirs sb d') S n" "\<And>p. p \<in> dirs sb d' \<Longrightarrow> slots sb d' p = S p"
    "\<And>i. i \<in> nodes sb d' \<Longrightarrow> links sb d' i = n i" "\<And>i. links sb d' i < 2 ^ 15"
  shows "fs_ok sb d'"
  using assms(1, 5) ns_cong[OF assms(2, 3, 4)] by (simp add: fs_ok_def)

lemma fs_same: "fs_ok sb d \<Longrightarrow> same sb d d' \<Longrightarrow> fs_ok sb d'"
  using fs_okD(2)[of sb d] by (intro fs_view) (auto simp: same_def nodes_def fs_ok_def)

text \<open>The inodes outside \<open>X\<close> keep their fields and contents.\<close>

definition inodes_kept :: "superblock \<Rightarrow> nat set \<Rightarrow> fsdisk \<Rightarrow> fsdisk \<Rightarrow> bool" where
  "inodes_kept sb X d d' \<longleftrightarrow> (\<forall>j \<in> live sb d - X. j \<in> live sb d' \<and> read_inode sb j d' = read_inode sb j d \<and>
    contents (read_inode sb j d') d' = contents (read_inode sb j d) d \<and> refs (read_inode sb j d') d' = refs (read_inode sb j d) d)"

lemma kept_refl [simp]: "inodes_kept sb X d d"
  by (simp add: inodes_kept_def)

lemma keptD:
  assumes "inodes_kept sb X d d'" "j \<in> live sb d" "j \<notin> X"
  shows "j \<in> live sb d'" "read_inode sb j d' = read_inode sb j d" "contents (read_inode sb j d') d' = contents (read_inode sb j d) d"
    "slots sb d' j = slots sb d j" "refs (read_inode sb j d') d' = refs (read_inode sb j d) d"
proof -
  from assms have "j \<in> live sb d' \<and> read_inode sb j d' = read_inode sb j d \<and> contents (read_inode sb j d') d' = contents (read_inode sb j d) d \<and>
      refs (read_inode sb j d') d' = refs (read_inode sb j d) d"
    unfolding inodes_kept_def by blast
  then show "j \<in> live sb d'" "read_inode sb j d' = read_inode sb j d" "contents (read_inode sb j d') d' = contents (read_inode sb j d) d"
    "slots sb d' j = slots sb d j" "refs (read_inode sb j d') d' = refs (read_inode sb j d) d" unfolding slots_def by argo+
qed

lemma keptI:
  assumes "\<And>j. j \<in> live sb d \<Longrightarrow> j \<notin> X \<Longrightarrow> j \<in> live sb d'"
    "\<And>j. j \<in> live sb d \<Longrightarrow> j \<notin> X \<Longrightarrow> read_inode sb j d' = read_inode sb j d"
    "\<And>j. j \<in> live sb d \<Longrightarrow> j \<notin> X \<Longrightarrow> contents (read_inode sb j d') d' = contents (read_inode sb j d) d"
    "\<And>j. j \<in> live sb d \<Longrightarrow> j \<notin> X \<Longrightarrow> refs (read_inode sb j d') d' = refs (read_inode sb j d) d"
  shows "inodes_kept sb X d d'"
  unfolding inodes_kept_def using assms by blast

lemma kept_trans:
  assumes "inodes_kept sb X d d1" "inodes_kept sb Y d1 d2" "X \<subseteq> Z" "Y \<subseteq> Z"
  shows "inodes_kept sb Z d d2"
proof (rule keptI)
  fix j assume j: "j \<in> live sb d" "j \<notin> Z"
  then have X: "j \<notin> X" "j \<notin> Y" using assms(3, 4) by auto
  note A = keptD[OF assms(1) j(1) X(1)]
  note B = keptD[OF assms(2) A(1) X(2)]
  show "j \<in> live sb d2" "read_inode sb j d2 = read_inode sb j d" "contents (read_inode sb j d2) d2 = contents (read_inode sb j d) d"
    "refs (read_inode sb j d2) d2 = refs (read_inode sb j d) d"
    using A B by auto
qed

lemma touches_kept: "touches sb p d d' \<Longrightarrow> inodes_kept sb {p} d d'"
  using touchesD(2-5)[of sb p d d'] liveD by (intro keptI) auto

lemma touches_links: "touches sb p d d' \<Longrightarrow> j \<noteq> p \<Longrightarrow> links sb d' j = links sb d j"
  using touchesD(2, 4)[of sb p d d' j] liveD by (auto simp: links_def)

lemma touches_dirs: "touches sb p d d' \<Longrightarrow> j \<noteq> p \<Longrightarrow> j \<in> dirs sb d' \<longleftrightarrow> j \<in> dirs sb d"
  using touches_links[of sb p d d' j] touchesD(2)[of sb p d d' j] liveD[OF nodes_live, of j sb d] by (auto simp: dirs_def nodes_def)

lemma touches_slots: "touches sb p d d' \<Longrightarrow> j \<in> dirs sb d \<Longrightarrow> j \<noteq> p \<Longrightarrow> slots sb d' j = slots sb d j"
  using keptD(4)[OF touches_kept] dirsD by blast

text \<open>An operation on one inode that keeps its type and its count.\<close>

lemma touches_same:
  assumes t: "touches sb p d d'" and l: "links sb d' p = links sb d p" "p \<in> nodes sb d \<Longrightarrow> i_type (read_inode sb p d') = i_type (read_inode sb p d)"
  shows "links sb d' = links sb d" "nodes sb d' = nodes sb d" "dirs sb d' = dirs sb d"
    "(p \<in> dirs sb d \<Longrightarrow> slots sb d' p = slots sb d p) \<Longrightarrow> same sb d d'"
proof -
  have "links sb d' j = links sb d j" for j using touches_links[OF t] l(1) by (cases "j = p") auto
  then show L: "links sb d' = links sb d" by blast
  then show N: "nodes sb d' = nodes sb d" by (simp add: nodes_def)
  have "j \<in> dirs sb d' \<longleftrightarrow> j \<in> dirs sb d" for j using touches_dirs[OF t, of j] l(2) N by (cases "j = p") (auto simp: dirs_def)
  then show D: "dirs sb d' = dirs sb d" by blast
  show "same sb d d'" if "p \<in> dirs sb d \<Longrightarrow> slots sb d' p = slots sb d p"
    unfolding same_def using touchesD(1)[OF t] L D touches_slots[OF t] that by metis
qed

section \<open>Steps of the calls\<close>

lemma set_nlink:
  assumes W: "disk_ok sb d" and i: "i \<in> live sb d"
    and ip: "ip = (read_inode sb i d)\<lparr>i_major := a, i_minor := b, i_nlink := w\<rparr>"
  shows "touches sb i d (iupdate sb ip d)" "live sb (iupdate sb ip d) = live sb d" "read_inode sb i (iupdate sb ip d) = ip"
    "links sb (iupdate sb ip d) = (links sb d)(i := unat w)" "slots sb (iupdate sb ip d) i = slots sb d i"
    "contents ip (iupdate sb ip d) = contents (read_inode sb i d) d" "refs ip (iupdate sb ip d) = refs (read_inode sb i d) d"
proof -
  have "addrs ip = addrs (read_inode sb i d)" "i_size ip = i_size (read_inode sb i d)" "inum ip = i" "i_type ip = i_type (read_inode sb i d)"
    by (simp_all add: ip)
  note U = iupdate_touches[OF W i this]
  show "touches sb i d (iupdate sb ip d)" "live sb (iupdate sb ip d) = live sb d" "read_inode sb i (iupdate sb ip d) = ip"
    "contents ip (iupdate sb ip d) = contents (read_inode sb i d) d" "refs ip (iupdate sb ip d) = refs (read_inode sb i d) d" using U by auto
  show "slots sb (iupdate sb ip d) i = slots sb d i" using U(3, 4) by (simp add: slots_def)
  show "links sb (iupdate sb ip d) = (links sb d)(i := unat w)"
  proof
    fix j show "links sb (iupdate sb ip d) j = ((links sb d)(i := unat w)) j"
      using touches_links[OF U(1), of j] U(2, 3) i by (cases "j = i") (auto simp: links_def ip)
  qed
qed

lemma iput_same:
  assumes W: "disk_ok sb d" and i: "i \<in> live sb d"
  shows "\<exists>d'. iput sb held (read_inode sb i d) d = Inr d' \<and> same sb d d' \<and> touches sb i d d' \<and>
    (if held i \<or> links sb d i \<noteq> 0 then d' = d else live sb d' = live sb d - {i} \<and> free_blocks sb d' = free_blocks sb d \<union> refs (read_inode sb i d) d)"
proof (cases "held i \<or> links sb d i \<noteq> 0")
  case True
  then have "held (inum (read_inode sb i d)) \<or> i_nlink (read_inode sb i d) \<noteq> 0" using i by (auto simp: links_def)
  then show ?thesis using iput_keeps[of held "read_inode sb i d" sb d] same_refl[OF W] touches_refl[OF W] True by simp
next
  case False
  then have z: "i_nlink (read_inode sb i d) = 0" "\<not> held i" using i by (auto simp: links_def unat_eq_0)
  obtain d' where d': "iput sb held (read_inode sb i d) d = Inr d'" "touches sb i d d'" "live sb d' = live sb d - {i}"
    "free_blocks sb d' = free_blocks sb d \<union> refs (read_inode sb i d) d"
    using iput_frees[of sb d i held, OF W i z] by blast
  have n: "links sb d' i = links sb d i" "i \<notin> nodes sb d" using d'(3) False by (simp_all add: links_def nodes_def)
  have "same sb d d'" using n dirsD[of i sb d] by (intro touches_same(4)[OF d'(2)]) auto
  then show ?thesis using d' False by auto
qed

lemma iput_node:
  assumes "i \<in> nodes sb d"
  shows "iput sb held (read_inode sb i d) d = Inr d"
  using nodes_nlink[OF assms] by (intro iput_keeps) simp

lemma ilock_live: "i \<in> live sb d \<Longrightarrow> ilock sb i d = Inr (read_inode sb i d)"
  by (simp add: ilock_def live_def Let_def)

section \<open>Paths\<close>

lemma fs_tree:
  assumes "fs_ok sb d"
  shows "tree_ok sb d (nodes sb d)"
  unfolding tree_ok_def
proof (intro ballI conjI impI)
  fix i assume i: "i \<in> nodes sb d"
  then show "i_type (read_inode sb i d) \<noteq> 0" using nodes_live by (auto simp: live_def)
  assume t: "i_type (read_inode sb i d) = T_DIR"
  then show "dir_ok sb (read_inode sb i d) d" by (intro disk_okD(5)[OF fs_okD(1)[OF assms] nodes_live[OF i]])
  have "i \<in> dirs sb d" using i t by (simp add: dirs_def)
  then show "ran (dir_map (contents (read_inode sb i d) d)) \<subseteq> nodes sb d"
    using ns_okD(6)[OF fs_okD(2)[OF assms]] dir_map_slot(2) by (fastforce simp: ran_def slots_def)
qed

lemma fs_root: "fs_ok sb d \<Longrightarrow> ROOTINO \<in> nodes sb d"
  using ns_okD(3)[OF fs_okD(2)] dirsD by blast

lemma start_node: "fs_ok sb d \<Longrightarrow> cwd \<in> nodes sb d \<Longrightarrow> (if char0 path = 47 then ROOTINO else cwd) \<in> nodes sb d"
  by (simp add: fs_root)

lemma nameiparent_ok:
  assumes "fs_ok sb d" "cwd \<in> nodes sb d"
  shows "\<exists>x. nameiparent sb path cwd d = Inr (x, d) \<and> (\<forall>p name. x = Some (p, name) \<longrightarrow> p \<in> dirs sb d)"
proof -
  note S = start_node[OF assms, of path]
  have "p \<in> dirs sb d" if w: "walk_parent sb d (path_names path) (if char0 path = 47 then ROOTINO else cwd) = Some (p, name)" for p name
    using walk_parent_split[OF w] walk_stays[OF fs_tree[OF assms(1)] S] by (simp add: dirs_def)
  then show ?thesis using namex_walks[OF fs_tree[OF assms(1)] S, of True path] unfolding nameiparent_def by auto
qed

lemma namei_ok:
  assumes "fs_ok sb d" "cwd \<in> nodes sb d"
  shows "\<exists>x. namei sb path cwd d = Inr (x, d) \<and> (\<forall>i name. x = Some (i, name) \<longrightarrow> i \<in> nodes sb d)"
proof -
  note S = start_node[OF assms, of path]
  show ?thesis
    using namex_walks[OF fs_tree[OF assms(1)] S, of False path] walk_stays[OF fs_tree[OF assms(1)] S] by (auto simp: namei_def)
qed

section \<open>Unlinking\<close>

lemma dirlookup_slots:
  assumes "disk_ok sb d" "p \<in> live sb d" "i_type (read_inode sb p d) = T_DIR"
  obtains "dirlookup sb (read_inode sb p d) name d = Inr (None, read_inode sb p d, d)" "\<forall>k i. slots sb d p k \<noteq> Some (name_key name, i)"
  | i k where "dirlookup sb (read_inode sb p d) name d = Inr (Some (i, 16 * k), read_inode sb p d, d)" "slots sb d p k = Some (name_key name, i)"
proof -
  let ?cs = "contents (read_inode sb p d) d"
  note L = dirlookup_ok[OF disk_okD(5)[OF assms], of name]
  show thesis
  proof (cases "find (entry_at ?cs name) [0..<unat (i_size (read_inode sb p d)) div 16]")
    case None
    then have "dir_map ?cs name = None" by (simp add: dir_map_def)
    then show thesis using that(1) L None dir_map_slot(1)[of ?cs name] by (simp add: slots_def)
  next
    case (Some k)
    from find_Some_upt[OF this] have "slots sb d p k = Some (name_key name, de_inum (dir_entry ?cs k))"
      by (auto simp: slots_def dirslot_def entry_at_def namecmp_0_iff)
    then show thesis using that(2) L Some by simp
  qed
qed

lemma all_from: "(\<forall>l \<ge> k. P l) \<longleftrightarrow> P k \<and> (\<forall>l \<ge> Suc k. P l)"
  using le_imp_less_or_eq[of k] by (auto simp: Suc_le_eq)

lemma isdirempty_ok:
  assumes "disk_ok sb d" "p \<in> live sb d" "i_type (read_inode sb p d) = T_DIR"
  shows "isdirempty sb (read_inode sb p d) d = Inr (\<forall>l \<ge> 2. slots sb d p l = None, read_inode sb p d, d)"
proof -
  let ?dp = "read_inode sb p d"
  have ok: "dir_ok sb ?dp d" by (rule disk_okD(5)[OF assms])
  have none: "\<forall>l \<ge> k. slots sb d p l = None" if "unat (i_size ?dp) div 16 \<le> k" for k using that by (auto simp: slots_def dirslot_def)
  have big: "isdirempty_from sb (16 * k) ?dp d = Inr (True, ?dp, d)" if "unat (i_size ?dp) div 16 \<le> k" for k
  proof -
    have "\<not> 16 * k < unat (i_size ?dp)" using entries_end[OF ok refl] that by linarith
    then show ?thesis by (subst isdirempty_from.simps) simp
  qed
  have "isdirempty_from sb (16 * k) ?dp d = Inr (\<forall>l \<ge> k. slots sb d p l = None, ?dp, d)" if "k \<le> unat (i_size ?dp) div 16" for k
    using that
  proof (induction k rule: inc_induct)
    case base
    then show ?case using big[OF order.refl] none[OF order.refl] by simp
  next
    case (step k)
    have nxt: "16 * k + 16 = 16 * Suc k" by simp
    have run: "isdirempty_from sb (16 * k) ?dp d =
        (if de_inum (dir_entry (contents ?dp d) k) \<noteq> 0 then Inr (False, ?dp, d) else isdirempty_from sb (16 * Suc k) ?dp d)"
      using readi_entry[OF ok step(2)] by (subst isdirempty_from.simps) (simp add: nxt del: mult_Suc_right)
    have "slots sb d p k = None \<longleftrightarrow> de_inum (dir_entry (contents ?dp d) k) = 0" using step(2) by (simp add: slots_def dirslot_def)
    moreover have "(\<forall>l \<ge> k. slots sb d p l = None) \<longleftrightarrow> slots sb d p k = None \<and> (\<forall>l \<ge> Suc k. slots sb d p l = None)"
      by (rule all_from)
    ultimately show ?case unfolding run using step(3) by simp
  qed
  from this[of 2] show ?thesis
    using big[of 2] none[of 2] by (cases "2 \<le> unat (i_size ?dp) div 16") (simp_all add: isdirempty_def)
qed

text \<open>What is left when an entry for \<open>i\<close> in slot \<open>k\<close> of \<open>p\<close> has gone.\<close>

definition unlinked :: "superblock \<Rightarrow> (nat \<Rightarrow> bool) \<Rightarrow> nat \<Rightarrow> nat \<Rightarrow> nat \<Rightarrow> fsdisk \<Rightarrow> fsdisk \<Rightarrow> bool" where
  "unlinked sb held p k i d d' \<longleftrightarrow>
    (\<forall>q \<in> dirs sb d'. slots sb d' q = (if q = p then (slots sb d p)(k := None) else slots sb d q)) \<and>
    dirs sb d' = dirs sb d - {i} \<and>
    links sb d' = (if i \<in> dirs sb d then (links sb d)(p := links sb d p - 1, i := 0) else (links sb d)(i := links sb d i - 1)) \<and>
    inodes_kept sb {p, i} d d' \<and> (i \<in> live sb d' \<longrightarrow> i_type (read_inode sb i d') = i_type (read_inode sb i d)) \<and>
    (if links sb d' i = 0 \<and> \<not> held i then i \<notin> live sb d' \<and> refs (read_inode sb i d) d \<subseteq> free_blocks sb d'
     else i \<in> live sb d' \<and> contents (read_inode sb i d') d' = contents (read_inode sb i d) d)"

text \<open>The last two steps: the count of \<open>i\<close> goes down and its reference is dropped.\<close>

lemma drop_link:
  assumes W: "disk_ok sb d" and i: "i \<in> live sb d" "0 < links sb d i"
    and ip: "ip = (read_inode sb i d)\<lparr>i_nlink := i_nlink (read_inode sb i d) - 1\<rparr>"
  shows "\<exists>d'. iput sb held ip (iupdate sb ip d) = Inr d' \<and> touches sb i d d' \<and> links sb d' = (links sb d)(i := links sb d i - 1) \<and>
    dirs sb d' = (if links sb d i = 1 then dirs sb d - {i} else dirs sb d) \<and> (i \<in> dirs sb d' \<longrightarrow> slots sb d' i = slots sb d i) \<and>
    (i \<in> live sb d' \<longrightarrow> i_type (read_inode sb i d') = i_type (read_inode sb i d)) \<and>
    (if links sb d' i = 0 \<and> \<not> held i then i \<notin> live sb d' \<and> refs (read_inode sb i d) d \<subseteq> free_blocks sb d'
     else i \<in> live sb d' \<and> contents (read_inode sb i d') d' = contents (read_inode sb i d) d)"
proof -
  let ?d = "iupdate sb ip d"
  have e: "ip = (read_inode sb i d)\<lparr>i_major := i_major (read_inode sb i d), i_minor := i_minor (read_inode sb i d),
      i_nlink := i_nlink (read_inode sb i d) - 1\<rparr>" by (simp add: ip)
  note N = set_nlink[OF W i(1) e]
  have "i_nlink (read_inode sb i d) \<noteq> 0" using i by (auto simp: links_def)
  then have u: "unat (i_nlink (read_inode sb i d) - 1) = links sb d i - 1" using i(1) by (simp add: unat_minus_one links_def)
  have L: "links sb ?d = (links sb d)(i := links sb d i - 1)" using N(4) u by simp
  obtain d' where d': "iput sb held ip ?d = Inr d'" "same sb ?d d'" "touches sb i ?d d'"
    "if held i \<or> links sb ?d i \<noteq> 0 then d' = ?d else live sb d' = live sb ?d - {i} \<and> free_blocks sb d' = free_blocks sb ?d \<union> refs (read_inode sb i ?d) ?d"
    using iput_same[OF touchesD(1)[OF N(1)], of i held] i(1) unfolding N(2, 3) by blast
  have D: "j \<in> dirs sb ?d \<longleftrightarrow> j \<in> (if links sb d i = 1 then dirs sb d - {i} else dirs sb d)" for j
    using touches_dirs[OF N(1), of j] N(3) L i(2) by (cases "j = i") (auto simp: dirs_def nodes_def ip)
  then have D': "dirs sb ?d = (if links sb d i = 1 then dirs sb d - {i} else dirs sb d)" by blast
  have "touches sb i d d'" by (rule touches_trans[OF N(1) d'(3)])
  moreover have "if links sb d' i = 0 \<and> \<not> held i then i \<notin> live sb d' \<and> refs (read_inode sb i d) d \<subseteq> free_blocks sb d'
     else i \<in> live sb d' \<and> contents (read_inode sb i d') d' = contents (read_inode sb i d) d"
    using d'(2, 4) N(2, 3, 6, 7) i(1) by (auto simp: same_def split: if_splits)
  moreover have "i \<in> live sb d' \<longrightarrow> i_type (read_inode sb i d') = i_type (read_inode sb i d)"
    using d'(4) N(2, 3) ip by (auto split: if_splits)
  ultimately show ?thesis using d'(1, 2) L D' N(5) unfolding same_def by (intro exI[of _ d']) auto
qed

lemma cleared:
  assumes F: "fs_ok sb d" and p: "p \<in> dirs sb d" "slots sb d p k \<noteq> None"
  obtains d1 where "writei sb (from_kernel (replicate 16 0)) (read_inode sb p d) (of_nat (16 * k)) 16 d = Inr (16, read_inode sb p d1, d1)"
    "touches sb p d d1" "live sb d1 = live sb d" "i_type (read_inode sb p d1) = T_DIR" "slots sb d1 p = (slots sb d p)(k := None)"
    "links sb d1 = links sb d" "nodes sb d1 = nodes sb d" "dirs sb d1 = dirs sb d"
proof -
  note P = dirsD[OF p(1)]
  obtain d1 where w: "writei sb (from_kernel (replicate 16 0)) (read_inode sb p d) (of_nat (16 * k)) 16 d = Inr (16, read_inode sb p d1, d1)"
    and T: "touches sb p d d1" "live sb d1 = live sb d" "i_type (read_inode sb p d1) = T_DIR"
      "i_nlink (read_inode sb p d1) = i_nlink (read_inode sb p d)" "slots sb d1 p = (slots sb d p)(k := None)"
    using clear_slot[OF fs_okD(1)[OF F], of p k] P p(2) by auto
  have lp: "links sb d1 p = links sb d p" "i_type (read_inode sb p d1) = i_type (read_inode sb p d)" using T(2, 3, 4) P by (simp_all add: links_def)
  show thesis using that[OF w T(1-3, 5)] touches_same(1-3)[OF T(1) lp] by blast
qed

lemma remove_file:
  assumes F: "fs_ok sb d" and p: "p \<in> dirs sb d" "slots sb d p k = Some (x, i)" and i: "i \<notin> dirs sb d"
  shows "\<exists>d'. remove_entry sb held (read_inode sb p d) (16 * k) (read_inode sb i d) d = Inr (0, d') \<and> fs_ok sb d' \<and> unlinked sb held p k i d d'"
proof -
  note ns = fs_okD(2)[OF F] and P = dirsD[OF p(1)]
  have iN: "i \<in> nodes sb d" by (rule ns_okD(6)[OF ns p])
  have ip: "i \<noteq> p" "i \<in> live sb d" "i_type (read_inode sb i d) \<noteq> T_DIR" using p(1) i iN nodes_live by (auto simp: dirs_def)
  obtain d1 where w: "writei sb (from_kernel (replicate 16 0)) (read_inode sb p d) (of_nat (16 * k)) 16 d = Inr (16, read_inode sb p d1, d1)"
    and T: "touches sb p d d1" "live sb d1 = live sb d" "i_type (read_inode sb p d1) = T_DIR" "slots sb d1 p = (slots sb d p)(k := None)"
    and V: "links sb d1 = links sb d" "nodes sb d1 = nodes sb d" "dirs sb d1 = dirs sb d"
    using cleared[OF F p(1), of k] p(2) by blast
  have ii: "read_inode sb i d1 = read_inode sb i d" using keptD(2)[OF touches_kept[OF T(1)] ip(2)] ip(1) by simp
  have i1: "i \<in> live sb d1" "0 < links sb d1 i" using ip(2) T(2) V(1) iN by (auto simp: nodes_def)
  obtain d2 where d2: "iput sb held ((read_inode sb i d)\<lparr>i_nlink := i_nlink (read_inode sb i d) - 1\<rparr>)
        (iupdate sb ((read_inode sb i d)\<lparr>i_nlink := i_nlink (read_inode sb i d) - 1\<rparr>) d1) = Inr d2"
    and E: "touches sb i d1 d2" "links sb d2 = (links sb d1)(i := links sb d1 i - 1)"
      "dirs sb d2 = (if links sb d1 i = 1 then dirs sb d1 - {i} else dirs sb d1)"
      "i \<in> live sb d2 \<longrightarrow> i_type (read_inode sb i d2) = i_type (read_inode sb i d1)"
      "if links sb d2 i = 0 \<and> \<not> held i then i \<notin> live sb d2 \<and> refs (read_inode sb i d1) d1 \<subseteq> free_blocks sb d2
       else i \<in> live sb d2 \<and> contents (read_inode sb i d2) d2 = contents (read_inode sb i d1) d1"
    using drop_link[OF touchesD(1)[OF T(1)] i1 refl, of held] unfolding ii by blast
  have ty: "i \<in> live sb d2 \<longrightarrow> i_type (read_inode sb i d2) = i_type (read_inode sb i d)" using E(4) ii by simp
  have run: "remove_entry sb held (read_inode sb p d) (16 * k) (read_inode sb i d) d = Inr (0, d2)"
    using w d2 ip(3) iput_node[of p sb d1 held] V(2) P unfolding remove_entry_def by simp
  have D: "dirs sb d2 = dirs sb d" "dirs sb d - {i} = dirs sb d" using E(3) V(3) i by auto
  have S: "slots sb d2 q = (if q = p then (slots sb d p)(k := None) else slots sb d q)" if "q \<in> dirs sb d" for q
  proof -
    have "q \<noteq> i" using that i by auto
    then show ?thesis using touches_slots[OF E(1), of q] touches_slots[OF T(1) that] T(4) V(3) that by auto
  qed
  have C: "contents (read_inode sb i d1) d1 = contents (read_inode sb i d) d" "refs (read_inode sb i d1) d1 = refs (read_inode sb i d) d"
    using touchesD(3, 5)[OF T(1) ip(2, 1)] by auto
  have u: "unlinked sb held p k i d d2"
    unfolding unlinked_def using S D E(2) E(5)[unfolded C] ty V(1) i kept_trans[OF touches_kept[OF T(1)] touches_kept[OF E(1)]] by simp
  note U = ns_unlink[OF ns p i]
  have N: "nodes sb d2 = (if links sb d i = 1 then nodes sb d - {i} else nodes sb d)"
    using E(2) V(1) U(2) iN by (auto simp: nodes_def)
  have "fs_ok sb d2"
  proof (rule fs_view[OF touchesD(1)[OF E(1)]])
    show "ns_ok (nodes sb d2) (dirs sb d2) ((slots sb d)(p := (slots sb d p)(k := None))) ((links sb d)(i := links sb d i - 1))"
      unfolding N D(1) by (rule U(1))
    show "links sb d2 j < 2 ^ 15" for j using E(2) V(1) fs_okD(3)[OF F, of j] by auto
  qed (use S D(1) E(2) V(1) in auto)
  then show ?thesis using run u by blast
qed

lemma remove_dir:
  assumes F: "fs_ok sb d" and p: "p \<in> dirs sb d" "2 \<le> k" "slots sb d p k = Some (x, i)"
    and i: "i \<in> dirs sb d" "\<forall>l \<ge> 2. slots sb d i l = None"
  shows "\<exists>d'. remove_entry sb held (read_inode sb p d) (16 * k) (read_inode sb i d) d = Inr (0, d') \<and> fs_ok sb d' \<and> unlinked sb held p k i d d'"
proof -
  note ns = fs_okD(2)[OF F] and P = dirsD[OF p(1)] and I = dirsD[OF i(1)]
  note U = ns_rmdir[OF ns p i] 
  have ip: "i \<noteq> p" by (rule parentsD(1)[OF ns_okD(8)[OF ns] p i(1)])
  have np: "1 < links sb d p"
  proof (cases "p = ROOTINO")
    case True
    then have "ROOTINO \<in> nodes sb d - {i}" using fs_root[OF F] ip by simp
    from bspec[OF ns_okD(9)[OF U(1), unfolded counts_ok_def] this] show ?thesis using True ip by simp
  qed (use U(3, 4) in linarith)
  obtain d1 where w: "writei sb (from_kernel (replicate 16 0)) (read_inode sb p d) (of_nat (16 * k)) 16 d = Inr (16, read_inode sb p d1, d1)"
    and T: "touches sb p d d1" "live sb d1 = live sb d" "i_type (read_inode sb p d1) = T_DIR" "slots sb d1 p = (slots sb d p)(k := None)"
    and V: "links sb d1 = links sb d" "nodes sb d1 = nodes sb d" "dirs sb d1 = dirs sb d"
    using cleared[OF F p(1), of k] p(3) by blast
  have p1: "p \<in> live sb d1" "0 < links sb d1 p" using P T(2) V(1) np by auto
  define dp where "dp = (read_inode sb p d1)\<lparr>i_nlink := i_nlink (read_inode sb p d1) - 1\<rparr>"
  obtain d2 where d2: "iput sb held dp (iupdate sb dp d1) = Inr d2"
    and E: "touches sb p d1 d2" "links sb d2 = (links sb d1)(p := links sb d1 p - 1)"
      "dirs sb d2 = (if links sb d1 p = 1 then dirs sb d1 - {p} else dirs sb d1)" "p \<in> dirs sb d2 \<longrightarrow> slots sb d2 p = slots sb d1 p"
    using drop_link[OF touchesD(1)[OF T(1)] p1 dp_def, of held] by blast
  have t2: "touches sb p d d2" by (rule touches_trans[OF T(1) E(1)])
  have D2: "dirs sb d2 = dirs sb d" "links sb d2 = (links sb d)(p := links sb d p - 1)" using E(2, 3) V np by auto
  have ii: "read_inode sb i d2 = read_inode sb i d" "i \<in> live sb d2"
    using keptD(1, 2)[OF touches_kept[OF t2], of i] I ip by auto
  have C: "contents (read_inode sb i d2) d2 = contents (read_inode sb i d) d" "refs (read_inode sb i d2) d2 = refs (read_inode sb i d) d"
    using touchesD(3, 5)[OF t2, of i] I ip by auto
  have one: "links sb d2 i = 1" using D2(2) U(2) ip by simp
  define ip' where "ip' = (read_inode sb i d)\<lparr>i_nlink := i_nlink (read_inode sb i d) - 1\<rparr>"
  obtain d3 where d3: "iput sb held ip' (iupdate sb ip' d2) = Inr d3"
    and G: "touches sb i d2 d3" "links sb d3 = (links sb d2)(i := 0)" "dirs sb d3 = dirs sb d2 - {i}"
      "i \<in> live sb d3 \<longrightarrow> i_type (read_inode sb i d3) = i_type (read_inode sb i d2)"
      "if links sb d3 i = 0 \<and> \<not> held i then i \<notin> live sb d3 \<and> refs (read_inode sb i d2) d2 \<subseteq> free_blocks sb d3
       else i \<in> live sb d3 \<and> contents (read_inode sb i d3) d3 = contents (read_inode sb i d2) d2"
    using drop_link[OF touchesD(1)[OF E(1)] ii(2) _ ip'_def[folded ii(1)], of held] one by auto
  have run: "remove_entry sb held (read_inode sb p d) (16 * k) (read_inode sb i d) d = Inr (0, d3)"
    using w d2 d3 I unfolding remove_entry_def dp_def ip'_def by (simp add: Let_def)
  have D: "dirs sb d3 = dirs sb d - {i}" "links sb d3 = (links sb d)(p := links sb d p - 1, i := 0)" using G(2, 3) D2 by auto
  have S: "slots sb d3 q = (if q = p then (slots sb d p)(k := None) else slots sb d q)" if "q \<in> dirs sb d - {i}" for q
    using that touches_slots[OF G(1), of q] touches_slots[OF t2, of q] E(4) T(4) D2(1) by auto
  have u: "unlinked sb held p k i d d3"
    unfolding unlinked_def using S D G(4)[unfolded ii(1)] G(5)[unfolded C] i kept_trans[OF touches_kept[OF t2] touches_kept[OF G(1)]] by simp
  have N: "nodes sb d3 = nodes sb d - {i}" using D(2) np ip by (auto simp: nodes_def)
  have "fs_ok sb d3"
  proof (rule fs_view[OF touchesD(1)[OF G(1)]])
    show "ns_ok (nodes sb d3) (dirs sb d3) ((slots sb d)(p := (slots sb d p)(k := None))) ((links sb d)(p := links sb d p - 1, i := 0))"
      unfolding N D(1) by (rule U(1))
    show "links sb d3 j < 2 ^ 15" for j using D(2) fs_okD(3)[OF F, of j] by auto
  qed (use S D in auto)
  then show ?thesis using run u by blast
qed

lemma dot_keys [simp]: "name_key dot = dot" "name_key dotdot = dotdot"
  by (simp_all add: name_key_def dot_def dotdot_def DIRSIZ_def)

text \<open>A name may be removed if it is not one of the first two of its directory and leads to no directory with entries.\<close>

definition removable :: "superblock \<Rightarrow> fsdisk \<Rightarrow> nat \<Rightarrow> nat \<Rightarrow> nat \<Rightarrow> bool" where
  "removable sb d p k i \<longleftrightarrow> 2 \<le> k \<and> (i \<in> dirs sb d \<longrightarrow> (\<forall>l \<ge> 2. slots sb d i l = None))"

lemma sint_small: "unat (w :: 16 word) < 2 ^ 15 \<Longrightarrow> sint w = int (unat w)"
proof -
  assume w: "unat w < 2 ^ 15"
  have "signed_take_bit 15 (int n) = int n" if "n < 2 ^ 15" for n using that by (intro signed_take_bit_int_eq_self) auto
  from this[OF w] show ?thesis by (simp add: sint_uint)
qed

lemma unlink_found:
  assumes F: "fs_ok sb d" and p: "p \<in> dirs sb d" "2 \<le> k" "slots sb d p k = Some (x, i)"
  shows "\<exists>r d'. unlink_inode sb held (read_inode sb p d) (16 * k) i d = Inr (r, d') \<and> fs_ok sb d' \<and>
    (if removable sb d p k i then r = 0 \<and> unlinked sb held p k i d d' else r = -1 \<and> d' = d)"
proof -
  note ns = fs_okD(2)[OF F] and P = dirsD[OF p(1)]
  have iN: "i \<in> nodes sb d" by (rule ns_okD(6)[OF ns p(1, 3)])
  have ip: "i \<noteq> p" using parentsD(1)[OF ns_okD(8)[OF ns] p] p(1) by auto
  have "0 < unat (i_nlink (read_inode sb i d))" "unat (i_nlink (read_inode sb i d)) < 2 ^ 15"
    using iN nodes_live[OF iN] fs_okD(3)[OF F, of i] by (auto simp: nodes_def links_def)
  then have n: "\<not> sint (i_nlink (read_inode sb i d)) < 1" using sint_small[of "i_nlink (read_inode sb i d)"] by linarith
  show ?thesis
  proof (cases "i \<in> dirs sb d")
    case True
    note I = dirsD[OF True]
    show ?thesis
      using isdirempty_ok[OF fs_okD(1)[OF F], of i] I n ip ilock_live[of i sb d] remove_dir[OF F p True, of held]
        iput_node[of i sb d held] iput_node[of p sb d held] P F p(2) True
      by (auto simp: removable_def unlink_inode_def)
  next
    case False
    then have "i_type (read_inode sb i d) \<noteq> T_DIR" using iN by (simp add: dirs_def)
    then show ?thesis using remove_file[OF F p(1, 3) False, of held] nodes_live[OF iN] n ip ilock_live[of i sb d] p(2) False
      by (auto simp: removable_def unlink_inode_def)
  qed
qed

text \<open>The entry that a path names: slot \<open>k\<close> of directory \<open>p\<close>, for the inode \<open>i\<close>.\<close>

definition leads :: "superblock \<Rightarrow> nat \<Rightarrow> fsdisk \<Rightarrow> byte list option \<Rightarrow> nat \<Rightarrow> nat \<Rightarrow> nat \<Rightarrow> bool" where
  "leads sb cwd d arg p k i \<longleftrightarrow> (\<exists>path name. arg = Some path \<and> nameiparent sb path cwd d = Inr (Some (p, name), d) \<and>
    slots sb d p k = Some (name_key name, i))"

lemma leads_iff: "nameiparent sb path cwd d = Inr (Some (p, name), d) \<Longrightarrow>
    leads sb cwd d (Some path) q k i \<longleftrightarrow> q = p \<and> slots sb d p k = Some (name_key name, i)"
  by (auto simp: leads_def)

lemma unlink_ok:
  assumes F: "fs_ok sb d" and c: "cwd \<in> nodes sb d"
  shows "\<exists>r d'. sys_unlink sb held cwd arg d = Inr (r, d') \<and> fs_ok sb d' \<and>
    (r = 0 \<and> (\<exists>p k i. leads sb cwd d arg p k i \<and> removable sb d p k i \<and> unlinked sb held p k i d d') \<or>
     r = -1 \<and> d' = d \<and> \<not> (\<exists>p k i. leads sb cwd d arg p k i \<and> removable sb d p k i))"
proof (cases arg)
  case None
  then show ?thesis using F by (simp add: sys_unlink_def leads_def)
next
  case (Some path)
  obtain x where x: "nameiparent sb path cwd d = Inr (x, d)" "\<forall>p name. x = Some (p, name) \<longrightarrow> p \<in> dirs sb d"
    using nameiparent_ok[OF F c] by blast
  show ?thesis
  proof (cases x)
    case None
    then show ?thesis using F x(1) Some by (simp add: sys_unlink_def leads_def)
  next
    case (Some y)
    obtain p name where y: "y = (p, name)" by (cases y)
    have p: "p \<in> dirs sb d" using x(2) Some y by simp
    note P = dirsD[OF p] and W = fs_okD(1)[OF F] and dots = ns_okD(7)[OF fs_okD(2)[OF F]]
    have drop: "iput sb held (read_inode sb p d) d = Inr d" using P by (intro iput_node) simp
    have one: "slots sb d p k = Some (z, i) \<Longrightarrow> slots sb d p l = Some (z, j) \<Longrightarrow> k = l" for k l i j z
      using ns_okD(4)[OF fs_okD(2)[OF F] p] unfolding names_distinct_def by blast
    have par: "nameiparent sb path cwd d = Inr (Some (p, name), d)" using x(1) Some y by simp
    note L = leads_iff[OF par, folded \<open>arg = Some path\<close>]
    show ?thesis
    proof (cases "name_key name = dot \<or> name_key name = dotdot")
      case True
      have "\<not> removable sb d p k i" if "slots sb d p k = Some (name_key name, i)" for k i
        using True that dotsD[OF dots p] one[OF that, of 0] one[OF that, of 1] by (auto simp: removable_def)
      moreover have "sys_unlink sb held cwd arg d = Inr (-1, d)"
        using True par P drop ilock_live[of p sb d] \<open>arg = Some path\<close> by (auto simp: sys_unlink_def namecmp_0_iff)
      ultimately show ?thesis using F unfolding L by blast
    next
      case False
      show ?thesis
        using W conjunct1[OF conjunct2[OF P]] conjunct2[OF conjunct2[OF P]]
      proof (cases rule: dirlookup_slots[of _ _ _ name])
        case 1
        then have "sys_unlink sb held cwd arg d = Inr (-1, d)"
          using False par P drop ilock_live[of p sb d] \<open>arg = Some path\<close> by (simp add: sys_unlink_def namecmp_0_iff)
        then show ?thesis using F 1(2) unfolding L by blast
      next
        case (2 i k)
        have "2 \<le> k" using named_slot[OF dots p 2(2)] False by blast
        note U = unlink_found[OF F p this 2(2), of held]
        have "sys_unlink sb held cwd arg d = unlink_inode sb held (read_inode sb p d) (16 * k) i d"
          using False par P 2(1) ilock_live[of p sb d] \<open>arg = Some path\<close> by (simp add: sys_unlink_def namecmp_0_iff)
        with U obtain r d' where "sys_unlink sb held cwd arg d = Inr (r, d')" "fs_ok sb d'"
          "if removable sb d p k i then r = 0 \<and> unlinked sb held p k i d d' else r = -1 \<and> d' = d" by metis
        moreover have "l = k \<and> j = i" if "slots sb d p l = Some (name_key name, j)" for l j using one[OF 2(2) that] that 2(2) by simp
        ultimately show ?thesis using 2(2) unfolding L by metis
      qed
    qed
  qed
qed

section \<open>Linking\<close>

text \<open>Files other than directories keep their type and contents.\<close>

definition files_kept :: "superblock \<Rightarrow> fsdisk \<Rightarrow> fsdisk \<Rightarrow> bool" where
  "files_kept sb d d' \<longleftrightarrow> (\<forall>j \<in> live sb d. i_type (read_inode sb j d) \<noteq> T_DIR \<longrightarrow> j \<in> live sb d' \<and>
    i_type (read_inode sb j d') = i_type (read_inode sb j d) \<and> contents (read_inode sb j d') d' = contents (read_inode sb j d) d)"

lemma files_refl: "files_kept sb d d"
  by (simp add: files_kept_def)

lemma files_trans: "files_kept sb d d1 \<Longrightarrow> files_kept sb d1 d2 \<Longrightarrow> files_kept sb d d2"
  unfolding files_kept_def by metis

lemma files_touches:
  assumes "touches sb p d d'"
    and "p \<in> live sb d \<Longrightarrow> i_type (read_inode sb p d) \<noteq> T_DIR \<Longrightarrow> p \<in> live sb d' \<and>
      i_type (read_inode sb p d') = i_type (read_inode sb p d) \<and> contents (read_inode sb p d') d' = contents (read_inode sb p d) d"
  shows "files_kept sb d d'"
  unfolding files_kept_def
proof (intro ballI impI)
  fix j assume j: "j \<in> live sb d" "i_type (read_inode sb j d) \<noteq> T_DIR"
  show "j \<in> live sb d' \<and> i_type (read_inode sb j d') = i_type (read_inode sb j d) \<and> contents (read_inode sb j d') d' = contents (read_inode sb j d) d"
    using keptD[OF touches_kept[OF assms(1)] j(1)] assms(2) j by (cases "j = p") auto
qed

text \<open>Paths are resolved alike as long as the directories stay.\<close>

lemma walk_cong:
  assumes T: "tree_ok sb d R" and ty: "\<And>j. j \<in> R \<Longrightarrow> i_type (read_inode sb j d') = i_type (read_inode sb j d)"
    and cs: "\<And>j. j \<in> R \<Longrightarrow> i_type (read_inode sb j d) = T_DIR \<Longrightarrow> contents (read_inode sb j d') d' = contents (read_inode sb j d) d"
    and ok: "\<And>j. j \<in> R \<Longrightarrow> i_type (read_inode sb j d) = T_DIR \<Longrightarrow> dir_ok sb (read_inode sb j d') d'"
  shows "tree_ok sb d' R" "i \<in> R \<Longrightarrow> walk sb d' es i = walk sb d es i" "i \<in> R \<Longrightarrow> walk_parent sb d' es i = walk_parent sb d es i"
proof -
  show "tree_ok sb d' R" using T ty cs ok by (simp add: tree_ok_def)
  show W: "i \<in> R \<Longrightarrow> walk sb d' es i = walk sb d es i" for i es
  proof (induction es arbitrary: i)
    case (Cons e es)
    have "j \<in> R" if "i_type (read_inode sb i d) = T_DIR" "dir_map (contents (read_inode sb i d) d) e = Some j" for j
      using T Cons.prems that by (auto simp: tree_ok_def ran_def)
    then show ?case
      using Cons ty[OF Cons.prems] cs[OF Cons.prems] by (cases "dir_map (contents (read_inode sb i d) d) e") (auto simp: Let_def)
  qed simp
  show "walk_parent sb d' es i = walk_parent sb d es i" if i: "i \<in> R"
  proof (cases "walk sb d (butlast es) i")
    case (Some p)
    then show ?thesis using W[OF i] ty[OF walk_stays[OF T i Some]] by (simp add: walk_parent_def)
  qed (use W[OF i] in \<open>simp add: walk_parent_def\<close>)
qed

lemma dirlink_names:
  assumes W: "disk_ok sb d" and p: "p \<in> live sb d" "i_type (read_inode sb p d) = T_DIR" and i: "i \<in> live sb d"
  obtains r d' where "dirlink sb (read_inode sb p d) name i d = Inr (r, read_inode sb p d', d')" "touches sb p d d'" "live sb d' = live sb d"
    "links sb d' = links sb d" "nodes sb d' = nodes sb d" "dirs sb d' = dirs sb d" "i_type (read_inode sb p d') = T_DIR" "files_kept sb d d'"
    "r = 0 \<and> (\<forall>k j. slots sb d p k \<noteq> Some (name_key name, j)) \<and>
       (\<exists>k. slots sb d p k = None \<and> (\<forall>j < k. slots sb d p j \<noteq> None) \<and> slots sb d' p = (slots sb d p)(k \<mapsto> (name_key name, i))) \<or>
     r = -1 \<and> slots sb d' p = slots sb d p"
proof -
  have "0 < i" "i < 2 ^ 16" using liveD[OF i] disk_okD(2)[OF W] by auto
  from dirlink_slots[OF W p this, of name] obtain r d' where R: "dirlink sb (read_inode sb p d) name i d = Inr (r, read_inode sb p d', d')"
    "touches sb p d d'" "live sb d' = live sb d" "i_type (read_inode sb p d') = T_DIR" "i_nlink (read_inode sb p d') = i_nlink (read_inode sb p d)"
    and S: "r = 0 \<and> (\<forall>k j. slots sb d p k \<noteq> Some (name_key name, j)) \<and>
       (\<exists>k. slots sb d p k = None \<and> (\<forall>j < k. slots sb d p j \<noteq> None) \<and> slots sb d' p = (slots sb d p)(k \<mapsto> (name_key name, i))) \<or>
     r = -1 \<and> slots sb d' p = slots sb d p" by blast
  have l: "links sb d' p = links sb d p" "i_type (read_inode sb p d') = i_type (read_inode sb p d)" using R(3-5) p(2) by (simp_all add: links_def)
  have "files_kept sb d d'" using p(2) by (intro files_touches[OF R(2)]) simp
  then show thesis using that[OF R(1-3) _ _ _ R(4) _ S] touches_same(1-3)[OF R(2) l] by blast
qed

text \<open>A new name \<open>x\<close> in slot \<open>k\<close> of \<open>p\<close> for the inode \<open>i\<close>.\<close>

definition named :: "superblock \<Rightarrow> nat \<Rightarrow> nat \<Rightarrow> byte list \<Rightarrow> nat \<Rightarrow> fsdisk \<Rightarrow> fsdisk \<Rightarrow> bool" where
  "named sb p k x i d d' \<longleftrightarrow> slots sb d p k = None \<and> (\<forall>l j. slots sb d p l \<noteq> Some (x, j)) \<and> slots sb d' p = (slots sb d p)(k \<mapsto> (x, i)) \<and>
    (\<forall>q \<in> dirs sb d. q \<noteq> p \<longrightarrow> slots sb d' q = slots sb d q)"

lemma named_file:
  assumes F: "fs_ok sb d" and p: "p \<in> dirs sb d" and n: "named sb p k x i d d'" and W: "disk_ok sb d'"
    and i: "i \<notin> dirs sb d" "links sb d' = (links sb d)(i := links sb d i + 1)" "dirs sb d' = dirs sb d" "links sb d i + 1 < 2 ^ 15"
  shows "fs_ok sb d'"
proof (rule fs_view[OF W])
  have N: "nodes sb d' = insert i (nodes sb d)" using i(2) by (auto simp: nodes_def)
  have "i \<notin> nodes sb d \<Longrightarrow> links sb d i = 0" by (simp add: nodes_def)
  then show "ns_ok (nodes sb d') (dirs sb d') ((slots sb d)(p := (slots sb d p)(k \<mapsto> (x, i)))) ((links sb d)(i := links sb d i + 1))"
    unfolding N i(3) using n i(1) by (intro ns_link[OF fs_okD(2)[OF F] p]) (auto simp: named_def)
  show "slots sb d' q = ((slots sb d)(p := (slots sb d p)(k \<mapsto> (x, i)))) q" if "q \<in> dirs sb d'" for q
    using n that i(3) by (simp add: named_def)
  show "links sb d' j < 2 ^ 15" for j using i(2, 4) fs_okD(3)[OF F, of j] by auto
qed (use i(2) in simp)

lemma link_name_ok:
  assumes W: "disk_ok sb d" and T: "tree_ok sb d (nodes sb d)" "ROOTINO \<in> nodes sb d" "cwd \<in> nodes sb d" and i: "i \<in> live sb d"
  shows "\<exists>b d'. link_name sb held cwd path i d = Inr (b, d') \<and> disk_ok sb d' \<and> live sb d' = live sb d \<and> links sb d' = links sb d \<and>
    dirs sb d' = dirs sb d \<and> files_kept sb d d' \<and> (\<forall>j \<in> live sb d - dirs sb d. read_inode sb j d' = read_inode sb j d) \<and>
    (if b then \<exists>p name k. nameiparent sb path cwd d = Inr (Some (p, name), d) \<and> p \<in> dirs sb d \<and> named sb p k (name_key name) i d d'
     else \<forall>q \<in> dirs sb d. slots sb d' q = slots sb d q)"
proof -
  define s where "s = (if char0 path = 47 then ROOTINO else cwd)"
  have s: "s \<in> nodes sb d" using T by (simp add: s_def)
  have np: "nameiparent sb path cwd d = Inr (walk_parent sb d (path_names path) s, d)"
    using namex_walks[OF T(1) s, of True path] by (simp add: nameiparent_def s_def[symmetric])
  show ?thesis
  proof (cases "walk_parent sb d (path_names path) s")
    case None
    then have "link_name sb held cwd path i d = Inr (False, d)" using np by (simp add: link_name_def)
    then show ?thesis using W files_refl[of sb d] by (intro exI[of _ False] exI[of _ d]) simp
  next
    case (Some y)
    obtain p name where y: "y = (p, name)" by (cases y)
    note P = walk_parent_split[OF Some[unfolded y]]
    have p: "p \<in> dirs sb d" using walk_stays[OF T(1) s P(2)] P(3) by (simp add: dirs_def)
    note D = dirsD[OF p]
    have D2: "p \<in> live sb d" "i_type (read_inode sb p d) = T_DIR" using D by auto
    obtain r d' where R: "dirlink sb (read_inode sb p d) name i d = Inr (r, read_inode sb p d', d')" "touches sb p d d'" "live sb d' = live sb d"
      "links sb d' = links sb d" "nodes sb d' = nodes sb d" "dirs sb d' = dirs sb d" "i_type (read_inode sb p d') = T_DIR" "files_kept sb d d'"
      and S: "r = 0 \<and> (\<forall>k j. slots sb d p k \<noteq> Some (name_key name, j)) \<and>
         (\<exists>k. slots sb d p k = None \<and> (\<forall>j < k. slots sb d p j \<noteq> None) \<and> slots sb d' p = (slots sb d p)(k \<mapsto> (name_key name, i))) \<or>
       r = -1 \<and> slots sb d' p = slots sb d p"
      by (rule dirlink_names[OF W D2 i, of name])
    have run: "link_name sb held cwd path i d = Inr (r \<ge> 0, d')"
      using np Some y R(1, 5) D ilock_live[of p sb d] iput_node[of p sb d' held] by (simp add: link_name_def)
    have o: "slots sb d' q = slots sb d q" if "q \<in> dirs sb d" "q \<noteq> p" for q by (rule touches_slots[OF R(2) that])
    have "read_inode sb j d' = read_inode sb j d" if "j \<in> live sb d - dirs sb d" for j
      using keptD(2)[OF touches_kept[OF R(2)], of j] that p by auto
    moreover have "if r \<ge> 0 then \<exists>p name k. nameiparent sb path cwd d = Inr (Some (p, name), d) \<and> p \<in> dirs sb d \<and> named sb p k (name_key name) i d d'
     else \<forall>q \<in> dirs sb d. slots sb d' q = slots sb d q"
      using S
    proof (elim disjE conjE exE)
      fix k assume "r = 0" "\<forall>k j. slots sb d p k \<noteq> Some (name_key name, j)" "slots sb d p k = None" "slots sb d' p = (slots sb d p)(k \<mapsto> (name_key name, i))"
      then have "named sb p k (name_key name) i d d'" using o by (simp add: named_def)
      then show ?thesis using np Some y p \<open>r = 0\<close> by auto
    next
      assume "r = -1" "slots sb d' p = slots sb d p"
      then show ?thesis using o by auto
    qed
    ultimately show ?thesis using run R touchesD(1)[OF R(2)] by (intro exI[of _ "r \<ge> 0"] exI[of _ d']) simp
  qed
qed

text \<open>With the count already raised the names are not sound, but paths lead where they did.\<close>

lemma raised:
  assumes F: "fs_ok sb d" and c: "cwd \<in> nodes sb d" and i: "i \<in> nodes sb d" "i \<notin> dirs sb d" and n: "links sb d i < 2 ^ 15 - 1"
    and ip: "ip = (read_inode sb i d)\<lparr>i_nlink := i_nlink (read_inode sb i d) + 1\<rparr>" and d1: "d1 = iupdate sb ip d"
  shows "touches sb i d d1" "live sb d1 = live sb d" "links sb d1 = (links sb d)(i := links sb d i + 1)" "nodes sb d1 = nodes sb d" "dirs sb d1 = dirs sb d"
    "q \<in> dirs sb d \<Longrightarrow> slots sb d1 q = slots sb d q" "files_kept sb d d1" "tree_ok sb d1 (nodes sb d)"
    "nameiparent sb path cwd d = Inr (x, d) \<longleftrightarrow> nameiparent sb path cwd d1 = Inr (x, d1)"
proof -
  have e: "ip = (read_inode sb i d)\<lparr>i_major := i_major (read_inode sb i d), i_minor := i_minor (read_inode sb i d),
      i_nlink := i_nlink (read_inode sb i d) + 1\<rparr>" by (simp add: ip)
  have iL: "i \<in> live sb d" by (rule nodes_live[OF i(1)])
  note N = set_nlink[OF fs_okD(1)[OF F] iL e, folded d1]
  have "unat (i_nlink (read_inode sb i d)) + 1 < 2 ^ 16" using n iL by (simp add: links_def)
  then have "unat (i_nlink (read_inode sb i d) + 1) = links sb d i + 1" using iL by (simp add: links_def unat_word_ariths)
  then show L: "links sb d1 = (links sb d)(i := links sb d i + 1)" using N(4) by simp
  show "touches sb i d d1" "live sb d1 = live sb d" by (rule N(1), rule N(2))
  show R: "nodes sb d1 = nodes sb d" using L i(1) by (auto simp: nodes_def)
  have ty: "i_type (read_inode sb i d1) = i_type (read_inode sb i d)" using N(3) ip by simp
  have "q \<in> dirs sb d1 \<longleftrightarrow> q \<in> dirs sb d" for q using touches_dirs[OF N(1), of q] R ty by (cases "q = i") (auto simp: dirs_def)
  then show "dirs sb d1 = dirs sb d" by blast
  show "q \<in> dirs sb d \<Longrightarrow> slots sb d1 q = slots sb d q" using touches_slots[OF N(1)] i(2) by auto
  show "files_kept sb d d1" using N(2, 3, 6) ty iL by (intro files_touches[OF N(1)]) simp
  have K: "read_inode sb j d1 = read_inode sb j d" "contents (read_inode sb j d1) d1 = contents (read_inode sb j d) d" if "j \<in> nodes sb d" "j \<noteq> i" for j
    using keptD(2, 3)[OF touches_kept[OF N(1)] nodes_live[OF that(1)]] that(2) by auto
  have t: "i_type (read_inode sb j d1) = i_type (read_inode sb j d)" if "j \<in> nodes sb d" for j using K[OF that] ty by (cases "j = i") auto
  have cs: "contents (read_inode sb j d1) d1 = contents (read_inode sb j d) d" if "j \<in> nodes sb d" "i_type (read_inode sb j d) = T_DIR" for j
  proof -
    have "j \<noteq> i" using i that by (auto simp: dirs_def)
    then show ?thesis by (rule K(2)[OF that(1)])
  qed
  have ok: "dir_ok sb (read_inode sb j d1) d1" if "j \<in> nodes sb d" "i_type (read_inode sb j d) = T_DIR" for j
    using disk_okD(5)[OF touchesD(1)[OF N(1)], of j] nodes_live[OF that(1)] N(2) t that by auto
  note C = walk_cong[OF fs_tree[OF F], of d1]
  show T: "tree_ok sb d1 (nodes sb d)" using C(1) t cs ok by blast
  note S = start_node[OF F c, of path]
  have "walk_parent sb d1 es j = walk_parent sb d es j" if "j \<in> nodes sb d" for es j using C(3) t cs ok that by blast
  from this[OF S] show "nameiparent sb path cwd d = Inr (x, d) \<longleftrightarrow> nameiparent sb path cwd d1 = Inr (x, d1)"
    unfolding nameiparent_def namex_walks[OF T S] namex_walks[OF fs_tree[OF F] S] by simp
qed

lemma link_file:
  assumes F: "fs_ok sb d" and c: "cwd \<in> nodes sb d" and few: "\<And>i. links sb d i < 2 ^ 15 - 1" and i: "i \<in> nodes sb d" "i \<notin> dirs sb d"
  shows "\<exists>r d'. link_inode sb held cwd i new d = Inr (r, d') \<and> fs_ok sb d' \<and> files_kept sb d d' \<and>
    (r = 0 \<and> (\<exists>p k name. nameiparent sb new cwd d = Inr (Some (p, name), d) \<and> named sb p k (name_key name) i d d' \<and>
      links sb d' = (links sb d)(i := links sb d i + 1) \<and> dirs sb d' = dirs sb d) \<or> r = -1 \<and> same sb d d')"
proof -
  define ip where "ip = (read_inode sb i d)\<lparr>i_nlink := i_nlink (read_inode sb i d) + 1\<rparr>"
  define d1 where "d1 = iupdate sb ip d"
  note R = raised[OF F c i few ip_def d1_def]
  have iL: "i \<in> live sb d" "i_type (read_inode sb i d) \<noteq> T_DIR" using nodes_live[OF i(1)] i by (auto simp: dirs_def)
  obtain b d2 where run: "link_name sb held cwd new i d1 = Inr (b, d2)" and G: "disk_ok sb d2" "live sb d2 = live sb d1"
      "links sb d2 = links sb d1" "dirs sb d2 = dirs sb d1" "files_kept sb d1 d2" "\<forall>j \<in> live sb d1 - dirs sb d1. read_inode sb j d2 = read_inode sb j d1"
    and B: "if b then \<exists>p name k. nameiparent sb new cwd d1 = Inr (Some (p, name), d1) \<and> p \<in> dirs sb d1 \<and> named sb p k (name_key name) i d1 d2
      else \<forall>q \<in> dirs sb d1. slots sb d2 q = slots sb d1 q"
    using link_name_ok[OF touchesD(1)[OF R(1)] _ _ _, of cwd i held new] R(2, 4, 8) fs_root[OF F] c iL(1) by auto
  have L2: "links sb d2 = (links sb d)(i := links sb d i + 1)" "dirs sb d2 = dirs sb d" "live sb d2 = live sb d" using G R by auto
  have fk: "files_kept sb d d2" by (rule files_trans[OF R(7) G(5)])
  show ?thesis
  proof (cases b)
    case True
    then obtain p name k where p: "nameiparent sb new cwd d1 = Inr (Some (p, name), d1)" "p \<in> dirs sb d1" "named sb p k (name_key name) i d1 d2"
      using B by auto
    have n: "named sb p k (name_key name) i d d2" using p(2, 3) R(5, 6) by (simp add: named_def)
    have i2: "i \<in> nodes sb d2" using L2(1) by (simp add: nodes_def)
    have "link_inode sb held cwd i new d = Inr (0, d2)"
      using run True iL ilock_live[OF iL(1)] iput_node[OF i2] by (simp add: link_inode_def Let_def ip_def d1_def)
    moreover have "fs_ok sb d2" using few[of i] p(2) R(5) by (intro named_file[OF F _ n G(1) i(2) L2(1, 2)]) auto
    ultimately show ?thesis using fk p(1) n L2 R(9) by blast
  next
    case False
    have i2: "i \<in> live sb d2" "0 < links sb d2 i" using L2 iL by auto
    define iq where "iq = (read_inode sb i d2)\<lparr>i_nlink := i_nlink (read_inode sb i d2) - 1\<rparr>"
    obtain d3 where d3: "iput sb held iq (iupdate sb iq d2) = Inr d3" and E: "touches sb i d2 d3" "links sb d3 = (links sb d2)(i := links sb d2 i - 1)"
        "dirs sb d3 = (if links sb d2 i = 1 then dirs sb d2 - {i} else dirs sb d2)"
        "i \<in> live sb d3 \<longrightarrow> i_type (read_inode sb i d3) = i_type (read_inode sb i d2)"
        "if links sb d3 i = 0 \<and> \<not> held i then i \<notin> live sb d3 \<and> refs (read_inode sb i d2) d2 \<subseteq> free_blocks sb d3
         else i \<in> live sb d3 \<and> contents (read_inode sb i d3) d3 = contents (read_inode sb i d2) d2"
      using drop_link[OF G(1) i2 iq_def, of held] by blast
    have l3: "links sb d3 = links sb d" "dirs sb d3 = dirs sb d" using E(2, 3) L2 i(2) by auto
    have "slots sb d3 q = slots sb d q" if "q \<in> dirs sb d" for q
    proof -
      have "q \<noteq> i" using that i(2) by auto
      then show ?thesis using touches_slots[OF E(1), of q] B False R(5, 6) L2(2) that by auto
    qed
    then have sm: "same sb d d3" using l3 touchesD(1)[OF E(1)] by (simp add: same_def)
    have "links sb d3 i \<noteq> 0" using l3(1) i(1) by (simp add: nodes_def)
    then have "i \<in> live sb d3" "contents (read_inode sb i d3) d3 = contents (read_inode sb i d2) d2" using E(5) by auto
    then have "files_kept sb d2 d3" using E(4) by (intro files_touches[OF E(1)]) blast
    moreover have "link_inode sb held cwd i new d = Inr (-1, d3)"
      using run False iL ilock_live[OF iL(1)] ilock_live[OF i2(1)] d3 by (simp add: link_inode_def Let_def ip_def d1_def iq_def)
    ultimately show ?thesis using files_trans[OF fk] sm fs_same[OF F sm] by blast
  qed
qed

lemma link_ok:
  assumes F: "fs_ok sb d" and c: "cwd \<in> nodes sb d" and few: "\<And>i. links sb d i < 2 ^ 15 - 1"
  shows "\<exists>r d'. sys_link sb held cwd old new d = Inr (r, d') \<and> fs_ok sb d' \<and> files_kept sb d d' \<and>
    (r = 0 \<and> (\<exists>i p k name. old \<noteq> None \<and> new \<noteq> None \<and> namei sb (the old) cwd d = Inr (Some (i, []), d) \<and> i \<notin> dirs sb d \<and>
       nameiparent sb (the new) cwd d = Inr (Some (p, name), d) \<and> named sb p k (name_key name) i d d' \<and>
       links sb d' = (links sb d)(i := links sb d i + 1) \<and> dirs sb d' = dirs sb d) \<or>
     r = -1 \<and> same sb d d')"
proof -
  note W = fs_okD(1)[OF F]
  have fail: ?thesis if "sys_link sb held cwd old new d = Inr (-1, d)" using that F same_refl[OF W] files_refl[of sb d] by blast
  show ?thesis
  proof (cases "old = None \<or> new = None")
    case True
    then show ?thesis using fail by (simp add: sys_link_def)
  next
    case False
    obtain x where x: "namei sb (the old) cwd d = Inr (x, d)" "\<forall>i name. x = Some (i, name) \<longrightarrow> i \<in> nodes sb d"
      using namei_ok[OF F c] by blast
    show ?thesis
    proof (cases x)
      case None
      then show ?thesis using fail False x(1) by (simp add: sys_link_def)
    next
      case (Some y)
      then obtain i where y: "x = Some (i, [])"
        using x(1) namex_walks[OF fs_tree[OF F] start_node[OF F c], of False] by (auto simp: namei_def)
      then have i: "i \<in> nodes sb d" "i \<in> live sb d" using x(2) nodes_live by auto
      show ?thesis
      proof (cases "i \<in> dirs sb d")
        case True
        then show ?thesis using fail False x(1) y i ilock_live[OF i(2)] iput_node[OF i(1)] dirsD[OF True] by (simp add: sys_link_def link_inode_def)
      next
        case nd: False
        have run: "sys_link sb held cwd old new d = link_inode sb held cwd i (the new) d" using False x(1) y by (auto simp: sys_link_def)
        obtain r d' where "link_inode sb held cwd i (the new) d = Inr (r, d')" and
          R: "fs_ok sb d'" "files_kept sb d d'"
           "r = 0 \<and> (\<exists>p k name. nameiparent sb (the new) cwd d = Inr (Some (p, name), d) \<and> named sb p k (name_key name) i d d' \<and>
             links sb d' = (links sb d)(i := links sb d i + 1) \<and> dirs sb d' = dirs sb d) \<or> r = -1 \<and> same sb d d'"
          using link_file[OF F c few i(1) nd, of held "the new"] by blast
        then show ?thesis using False x(1) y nd run by auto
      qed
    qed
  qed
qed

section \<open>Creating\<close>

text \<open>The inode \<open>i\<close> is being made: it has a count of one and no name yet.\<close>

definition fresh :: "superblock \<Rightarrow> nat \<Rightarrow> fsdisk \<Rightarrow> fsdisk \<Rightarrow> bool" where
  "fresh sb i d d' \<longleftrightarrow> disk_ok sb d' \<and> i \<notin> live sb d \<and> i \<in> live sb d' \<and> links sb d' = (links sb d)(i := 1) \<and>
    (\<forall>q. q \<noteq> i \<longrightarrow> (q \<in> dirs sb d' \<longleftrightarrow> q \<in> dirs sb d)) \<and> (\<forall>q \<in> dirs sb d. slots sb d' q = slots sb d q) \<and> files_kept sb d d'"

lemma freshD:
  assumes "fresh sb i d d'"
  shows "disk_ok sb d'" "i \<notin> live sb d" "i \<in> live sb d'" "links sb d' = (links sb d)(i := 1)" "q \<noteq> i \<Longrightarrow> q \<in> dirs sb d' \<longleftrightarrow> q \<in> dirs sb d"
    "q \<in> dirs sb d \<Longrightarrow> slots sb d' q = slots sb d q" "files_kept sb d d'" "i \<notin> dirs sb d" "links sb d i = 0"
  using assms dirsD[of i sb d] by (auto simp: fresh_def links_def)

lemma files_new:
  assumes "files_kept sb d d1" "touches sb i d1 d2" "i \<notin> live sb d"
  shows "files_kept sb d d2"
  unfolding files_kept_def
proof (intro ballI impI)
  fix j assume j: "j \<in> live sb d" "i_type (read_inode sb j d) \<noteq> T_DIR"
  then have 1: "j \<in> live sb d1" "i_type (read_inode sb j d1) = i_type (read_inode sb j d)" "contents (read_inode sb j d1) d1 = contents (read_inode sb j d) d"
    using assms(1) by (auto simp: files_kept_def)
  have "j \<notin> {i}" using j(1) assms(3) by auto
  from keptD[OF touches_kept[OF assms(2)] 1(1) this] show "j \<in> live sb d2 \<and> i_type (read_inode sb j d2) = i_type (read_inode sb j d) \<and>
      contents (read_inode sb j d2) d2 = contents (read_inode sb j d) d" using 1 by auto
qed

text \<open>Further changes of the new inode leave it so.\<close>

lemma fresh_touches:
  assumes f: "fresh sb i d d1" and t: "touches sb i d1 d2" "live sb d2 = live sb d1" "links sb d2 = links sb d1"
  shows "fresh sb i d d2"
  unfolding fresh_def
proof (intro conjI allI impI ballI)
  fix q assume "q \<noteq> i" then show "q \<in> dirs sb d2 \<longleftrightarrow> q \<in> dirs sb d" using touches_dirs[OF t(1)] freshD(5)[OF f] by simp
next
  fix q assume q: "q \<in> dirs sb d"
  then have "q \<noteq> i" using freshD(8)[OF f] by auto
  then show "slots sb d2 q = slots sb d q" using touches_slots[OF t(1), of q] freshD(5, 6)[OF f, of q] q by simp
qed (use freshD[OF f] t touchesD(1)[OF t(1)] files_new[OF freshD(7)[OF f] t(1)] in auto)

lemma create_failed:
  assumes F: "fs_ok sb d" and f: "fresh sb i d d1" and p: "p \<in> dirs sb d"
  shows "\<exists>d'. create_fail sb held (read_inode sb i d1) (read_inode sb p d1) d1 = Inr (None, d') \<and> same sb d d' \<and> files_kept sb d d'"
proof -
  note R = freshD[OF f]
  have ip: "p \<noteq> i" using p R(8) by auto
  define ip' where "ip' = (read_inode sb i d1)\<lparr>i_nlink := 0\<rparr>"
  have e: "ip' = (read_inode sb i d1)\<lparr>i_major := i_major (read_inode sb i d1), i_minor := i_minor (read_inode sb i d1), i_nlink := 0\<rparr>"
    by (simp add: ip'_def)
  define d2 where "d2 = iupdate sb ip' d1"
  note N = set_nlink[OF R(1, 3) e, folded d2_def]
  obtain d3 where d3: "iput sb held ip' d2 = Inr d3" "same sb d2 d3" "touches sb i d2 d3"
    using iput_same[OF touchesD(1)[OF N(1)], of i held] R(3) N(2, 3) by auto
  have t: "touches sb i d1 d3" by (rule touches_trans[OF N(1) d3(3)])
  have l: "links sb d3 = links sb d" using d3(2) N(4) R(4, 9) by (auto simp: same_def)
  have D: "q \<in> dirs sb d3 \<longleftrightarrow> q \<in> dirs sb d" for q
  proof (cases "q = i")
    case True
    then show ?thesis using R(8, 9) l by (auto simp: dirs_def nodes_def)
  next
    case False
    then show ?thesis using touches_dirs[OF t] R(5) by simp
  qed
  have "slots sb d3 q = slots sb d q" if "q \<in> dirs sb d" for q
    using touches_slots[OF t, of q] R(5, 6, 8) that by metis
  then have "same sb d d3" using l D touchesD(1)[OF t] by (auto simp: same_def)
  moreover have "files_kept sb d d3" by (rule files_new[OF R(7) t R(2)])
  moreover have "p \<in> nodes sb d3" using D[of p] p dirsD by blast
  moreover have "read_inode sb p d1 = read_inode sb p d3"
    using keptD(2)[OF touches_kept[OF t], of p] R(5)[OF ip] p dirsD[of p sb d1] ip by auto
  ultimately show ?thesis using d3(1) iput_node[of p sb d3 held] by (simp add: create_fail_def Let_def ip'_def[symmetric] d2_def[symmetric])
qed

lemma named_dir:
  assumes F: "fs_ok sb d" and p: "p \<in> dirs sb d" and n: "named sb p k x i d d'" and W: "disk_ok sb d'" and i: "i \<notin> live sb d"
    and s: "slots sb d' i = [0 \<mapsto> (dot, i), 1 \<mapsto> (dotdot, p)]" "dirs sb d' = insert i (dirs sb d)"
    and l: "links sb d' = (links sb d)(i := 1, p := links sb d p + 1)" "links sb d p + 1 < 2 ^ 15"
  shows "fs_ok sb d'"
proof (rule fs_view[OF W])
  have N: "nodes sb d' = insert i (nodes sb d)" using l(1) dirsD[OF p] by (auto simp: nodes_def)
  have "i \<notin> nodes sb d" using i nodes_live by blast
  then show "ns_ok (nodes sb d') (dirs sb d') ((slots sb d)(p := (slots sb d p)(k \<mapsto> (x, i)), i := [0 \<mapsto> (dot, i), 1 \<mapsto> (dotdot, p)]))
      ((links sb d)(i := 1, p := links sb d p + 1))"
    unfolding N s(2) using n by (intro ns_mkdir[OF fs_okD(2)[OF F] p]) (auto simp: named_def)
  show "slots sb d' q = ((slots sb d)(p := (slots sb d p)(k \<mapsto> (x, i)), i := [0 \<mapsto> (dot, i), 1 \<mapsto> (dotdot, p)])) q" if "q \<in> dirs sb d'" for q
    using n that s by (cases "q = i") (auto simp: named_def)
  show "links sb d' j < 2 ^ 15" for j using l fs_okD(3)[OF F, of j] by auto
qed (use l in simp)

text \<open>The inode right after it was allocated and marked.\<close>

lemma allocate_fresh:
  assumes W: "disk_ok sb d" and ty: "ty \<noteq> 0" and al: "ialloc sb ty d = (Some i, d1)"
    and ip: "ip = (read_inode sb i d1)\<lparr>i_major := a, i_minor := b, i_nlink := 1\<rparr>" and d2: "d2 = iupdate sb ip d1"
  shows "fresh sb i d d2" "read_inode sb i d2 = ip" "i_type ip = ty" "slots sb d2 i = Map.empty" "inodes_kept sb {i} d d2" "i \<in> live sb d1"
    "contents (read_inode sb i d2) d2 = []"
proof -
  have A: "i \<notin> live sb d" "touches sb i d d1" "live sb d1 = insert i (live sb d)" "read_inode sb i d1 = blank i ty"
    using ialloc_ok[OF W ty] al by auto
  show iL: "i \<in> live sb d1" using A(3) by simp
  note N = set_nlink[OF touchesD(1)[OF A(2)] iL ip, folded d2]
  have t: "touches sb i d d2" by (rule touches_trans[OF A(2) N(1)])
  show "read_inode sb i d2 = ip" "i_type ip = ty" using N(3) ip A(4) by auto
  have c: "contents (read_inode sb i d1) d1 = []" using A(4) by simp
  then show "contents (read_inode sb i d2) d2 = []" using N(3, 6) by simp
  show "slots sb d2 i = Map.empty" using N(5) c by (auto simp: slots_def dirslot_def)
  show "inodes_kept sb {i} d d2" by (rule touches_kept[OF t])
  have "links sb d2 j = ((links sb d)(i := 1)) j" for j using touches_links[OF t, of j] N(4) by (cases "j = i") auto
  then have "links sb d2 = (links sb d)(i := 1)" by blast
  moreover have "slots sb d2 q = slots sb d q" if "q \<in> dirs sb d" for q
    using touches_slots[OF t that] dirsD[OF that] A(1) by auto
  moreover have "files_kept sb d d2" using A(1) by (intro files_touches[OF t]) simp
  ultimately show "fresh sb i d d2" using touchesD(1)[OF t] A(1) iL N(2) touches_dirs[OF t] by (auto simp: fresh_def)
qed

lemma make_dots_ok:
  assumes f: "fresh sb i d d2" and i: "i_type (read_inode sb i d2) = T_DIR" "slots sb d2 i = Map.empty" and p: "p \<in> live sb d2"
  shows "\<exists>r d3. make_dots sb (read_inode sb i d2) p d2 = Inr (r, read_inode sb i d3, d3) \<and> fresh sb i d d3 \<and> inodes_kept sb {i} d2 d3 \<and>
    i_type (read_inode sb i d3) = T_DIR \<and> (r = 0 \<and> slots sb d3 i = [0 \<mapsto> (dot, i), 1 \<mapsto> (dotdot, p)] \<or> r = -1)"
proof -
  note R = freshD[OF f]
  obtain r1 d1 where A: "dirlink sb (read_inode sb i d2) dot i d2 = Inr (r1, read_inode sb i d1, d1)" "touches sb i d2 d1" "live sb d1 = live sb d2"
    "links sb d1 = links sb d2" "nodes sb d1 = nodes sb d2" "dirs sb d1 = dirs sb d2" "i_type (read_inode sb i d1) = T_DIR" "files_kept sb d2 d1"
    "r1 = 0 \<and> (\<forall>k j. slots sb d2 i k \<noteq> Some (name_key dot, j)) \<and>
       (\<exists>k. slots sb d2 i k = None \<and> (\<forall>j < k. slots sb d2 i j \<noteq> None) \<and> slots sb d1 i = (slots sb d2 i)(k \<mapsto> (name_key dot, i))) \<or>
     r1 = -1 \<and> slots sb d1 i = slots sb d2 i"
    by (rule dirlink_names[OF R(1, 3) i(1) R(3), of dot])
  have f1: "fresh sb i d d1" by (rule fresh_touches[OF f A(2-4)])
  show ?thesis
  proof (cases "r1 = 0")
    case False
    then have "make_dots sb (read_inode sb i d2) p d2 = Inr (-1, read_inode sb i d1, d1)" using A(1, 9) by (simp add: make_dots_def)
    then show ?thesis using f1 touches_kept[OF A(2)] A(7) by blast
  next
    case True
    then obtain k where "\<forall>j < k. slots sb d2 i j \<noteq> None" "slots sb d1 i = (slots sb d2 i)(k \<mapsto> (dot, i))" using A(9) by auto
    then have s1: "slots sb d1 i = [0 \<mapsto> (dot, i)]" using i(2) by (cases k) auto
    have p1: "p \<in> live sb d1" "i \<in> live sb d1" using p A(3) R(3) by auto
    obtain r3 d3 where B: "dirlink sb (read_inode sb i d1) dotdot p d1 = Inr (r3, read_inode sb i d3, d3)" "touches sb i d1 d3" "live sb d3 = live sb d1"
      "links sb d3 = links sb d1" "nodes sb d3 = nodes sb d1" "dirs sb d3 = dirs sb d1" "i_type (read_inode sb i d3) = T_DIR" "files_kept sb d1 d3"
      "r3 = 0 \<and> (\<forall>k j. slots sb d1 i k \<noteq> Some (name_key dotdot, j)) \<and>
         (\<exists>k. slots sb d1 i k = None \<and> (\<forall>j < k. slots sb d1 i j \<noteq> None) \<and> slots sb d3 i = (slots sb d1 i)(k \<mapsto> (name_key dotdot, p))) \<or>
       r3 = -1 \<and> slots sb d3 i = slots sb d1 i"
      by (rule dirlink_names[OF touchesD(1)[OF A(2)] p1(2) A(7) p1(1), of dotdot])
    have "slots sb d3 i = [0 \<mapsto> (dot, i), 1 \<mapsto> (dotdot, p)]" if r: "r3 = 0"
    proof -
      obtain k where k: "slots sb d1 i k = None" "\<forall>j < k. slots sb d1 i j \<noteq> None" "slots sb d3 i = (slots sb d1 i)(k \<mapsto> (dotdot, p))" using B(9) r by auto
      have "k = 1"
      proof (rule ccontr)
        assume "k \<noteq> 1"
        then consider "k = 0" | "1 < k" by linarith
        then show False using k s1 by cases auto
      qed
      then show ?thesis using k(3) s1 by simp
    qed
    moreover have "make_dots sb (read_inode sb i d2) p d2 = Inr (r3, read_inode sb i d3, d3)" using A(1) B(1) True by (simp add: make_dots_def)
    ultimately show ?thesis
      using B(9) B(7) fresh_touches[OF f1 B(2-4)] touches_kept[OF touches_trans[OF A(2) B(2)]] by blast
  qed
qed

lemma name_new:
  assumes f: "fresh sb i d d1" and k: "inodes_kept sb {i} d d1" and p: "p \<in> dirs sb d" and new: "\<forall>l j. slots sb d p l \<noteq> Some (name_key name, j)"
  shows "\<exists>r d2. dirlink sb (read_inode sb p d) name i d1 = Inr (r, read_inode sb p d2, d2) \<and> disk_ok sb d2 \<and> live sb d2 = live sb d1 \<and>
    links sb d2 = links sb d1 \<and> dirs sb d2 = dirs sb d1 \<and> files_kept sb d d2 \<and>
    read_inode sb i d2 = read_inode sb i d1 \<and> slots sb d2 i = slots sb d1 i \<and> contents (read_inode sb i d2) d2 = contents (read_inode sb i d1) d1 \<and>
    (r = 0 \<and> (\<exists>k. named sb p k (name_key name) i d d2) \<or> r = -1 \<and> fresh sb i d d2)"
proof -
  note R = freshD[OF f] and P = dirsD[OF p]
  have ip: "p \<noteq> i" using P R(2) by auto
  have q: "read_inode sb p d1 = read_inode sb p d" "p \<in> live sb d1" using keptD(1, 2)[OF k, of p] P ip by auto
  then have t: "i_type (read_inode sb p d1) = T_DIR" using P by simp
  obtain r d2 where A: "dirlink sb (read_inode sb p d1) name i d1 = Inr (r, read_inode sb p d2, d2)" "touches sb p d1 d2" "live sb d2 = live sb d1"
    "links sb d2 = links sb d1" "nodes sb d2 = nodes sb d1" "dirs sb d2 = dirs sb d1" "i_type (read_inode sb p d2) = T_DIR" "files_kept sb d1 d2"
    "r = 0 \<and> (\<forall>k j. slots sb d1 p k \<noteq> Some (name_key name, j)) \<and>
       (\<exists>k. slots sb d1 p k = None \<and> (\<forall>j < k. slots sb d1 p j \<noteq> None) \<and> slots sb d2 p = (slots sb d1 p)(k \<mapsto> (name_key name, i))) \<or>
     r = -1 \<and> slots sb d2 p = slots sb d1 p"
    by (rule dirlink_names[OF R(1) q(2) t R(3), of name])
  have o: "slots sb d2 x = slots sb d x" if "x \<in> dirs sb d" "x \<noteq> p" for x
    using touches_slots[OF A(2), of x] R(5, 6, 8) that by metis
  have fk: "files_kept sb d d2" by (rule files_trans[OF R(7) A(8)])
  have ii: "read_inode sb i d2 = read_inode sb i d1" "slots sb d2 i = slots sb d1 i" "contents (read_inode sb i d2) d2 = contents (read_inode sb i d1) d1"
    using keptD(2-4)[OF touches_kept[OF A(2)] R(3)] ip by auto
  have sp: "slots sb d1 p = slots sb d p" by (rule R(6)[OF p])
  have "r = 0 \<and> (\<exists>k. named sb p k (name_key name) i d d2) \<or> r = -1 \<and> fresh sb i d d2"
    using A(9)
  proof (elim disjE conjE exE)
    fix k assume "r = 0" "slots sb d1 p k = None" "slots sb d2 p = (slots sb d1 p)(k \<mapsto> (name_key name, i))"
    then show ?thesis using new o sp by (auto simp: named_def)
  next
    assume "r = -1" "slots sb d2 p = slots sb d1 p"
    then show ?thesis using R o sp touchesD(1)[OF A(2)] A(3, 4, 6) fk by (auto simp: fresh_def)
  qed
  then show ?thesis using A q(1) touchesD(1)[OF A(2)] fk ii by (intro exI[of _ r] exI[of _ d2]) simp
qed

text \<open>What \<^verbatim>\<open>create\<close> has made.\<close>

definition created :: "superblock \<Rightarrow> nat \<Rightarrow> nat \<Rightarrow> byte list \<Rightarrow> 16 word \<Rightarrow> nat \<Rightarrow> fsdisk \<Rightarrow> fsdisk \<Rightarrow> bool" where
  "created sb p k x ty i d d' \<longleftrightarrow> i \<notin> live sb d \<and> i \<in> live sb d' \<and> i_type (read_inode sb i d') = ty \<and> named sb p k x i d d' \<and>
    (if ty = T_DIR
     then slots sb d' i = [0 \<mapsto> (dot, i), 1 \<mapsto> (dotdot, p)] \<and> dirs sb d' = insert i (dirs sb d) \<and> links sb d' = (links sb d)(i := 1, p := links sb d p + 1)
     else contents (read_inode sb i d') d' = [] \<and> dirs sb d' = dirs sb d \<and> links sb d' = (links sb d)(i := 1))"

lemma new_file:
  assumes F: "fs_ok sb d" and p: "p \<in> dirs sb d" and new: "\<forall>l j. slots sb d p l \<noteq> Some (name_key name, j)"
    and ty: "ty \<noteq> 0" "ty \<noteq> T_DIR" and al: "ialloc sb ty d = (Some i, d1)"
  shows "\<exists>x d'. create_new sb held (read_inode sb p d) name ty a b d = Inr (x, d') \<and> fs_ok sb d' \<and> files_kept sb d d' \<and>
    (x = None \<and> same sb d d' \<or> x = Some i \<and> (\<exists>k. created sb p k (name_key name) ty i d d'))"
proof -
  note W = fs_okD(1)[OF F]
  define ip where "ip = (read_inode sb i d1)\<lparr>i_major := a, i_minor := b, i_nlink := 1\<rparr>"
  define d2 where "d2 = iupdate sb ip d1"
  note A = allocate_fresh[OF W ty(1) al ip_def d2_def] and R = freshD[OF allocate_fresh(1)[OF W ty(1) al ip_def d2_def]]
  obtain r d3 where B: "dirlink sb (read_inode sb p d) name i d2 = Inr (r, read_inode sb p d3, d3)" "disk_ok sb d3" "live sb d3 = live sb d2"
      "links sb d3 = links sb d2" "dirs sb d3 = dirs sb d2" "files_kept sb d d3" "read_inode sb i d3 = read_inode sb i d2"
      "contents (read_inode sb i d3) d3 = contents (read_inode sb i d2) d2"
    and C: "r = 0 \<and> (\<exists>k. named sb p k (name_key name) i d d3) \<or> r = -1 \<and> fresh sb i d d3"
    using name_new[OF A(1, 5) p new] by blast
  have run: "create_new sb held (read_inode sb p d) name ty a b d =
      (if r < 0 then create_fail sb held (read_inode sb i d3) (read_inode sb p d3) d3 else rbind (iput sb held (read_inode sb p d3) d3) (\<lambda>d. Inr (Some i, d)))"
    using al ilock_live[OF A(6)] B(1, 7) A(2) ty(2) by (simp add: create_new_def Let_def ip_def[symmetric] d2_def[symmetric])
  show ?thesis
    using C
  proof (elim disjE conjE exE)
    assume "r = -1" "fresh sb i d d3"
    then show ?thesis using create_failed[OF F _ p, of i d3 held] run fs_same[OF F] by auto
  next
    fix k assume k: "r = 0" "named sb p k (name_key name) i d d3"
    have l: "links sb d3 = (links sb d)(i := links sb d i + 1)" using B(4) R(4, 9) by simp
    have D: "q \<in> dirs sb d3 \<longleftrightarrow> q \<in> dirs sb d" for q
      using B(5, 7) R(5, 8) A(2, 3) ty(2) by (cases "q = i") (auto simp: dirs_def)
    then have D: "dirs sb d3 = dirs sb d" by blast
    have pn: "p \<in> nodes sb d3" using D p dirsD by blast
    have "fs_ok sb d3" using R(9) by (intro named_file[OF F p k(2) B(2) R(8) l D]) simp
    moreover have "created sb p k (name_key name) ty i d d3"
      using k(2) R(2, 3, 9) B(3, 7, 8) A(2, 3, 7) ty(2) l D by (simp add: created_def)
    ultimately show ?thesis using run k(1) iput_node[OF pn] B(6) by auto
  qed
qed

text \<open>The parent of a new directory gets a further link, for the second entry of the new one.\<close>

lemma parent_counted:
  assumes F: "fs_ok sb d" and p: "p \<in> dirs sb d" "links sb d p + 1 < 2 ^ 15" and n: "named sb p k x i d d1" and W: "disk_ok sb d1"
    and i: "i \<notin> live sb d" "i \<in> live sb d1" "i_type (read_inode sb i d1) = T_DIR" "slots sb d1 i = [0 \<mapsto> (dot, i), 1 \<mapsto> (dotdot, p)]"
    and l: "links sb d1 = (links sb d)(i := 1)" "\<And>q. q \<noteq> i \<Longrightarrow> q \<in> dirs sb d1 \<longleftrightarrow> q \<in> dirs sb d" and fk: "files_kept sb d d1"
    and dp: "dp = (read_inode sb p d1)\<lparr>i_nlink := i_nlink (read_inode sb p d1) + 1\<rparr>" and d2: "d2 = iupdate sb dp d1"
  shows "fs_ok sb d2" "files_kept sb d d2" "created sb p k x T_DIR i d d2" "iput sb held dp d2 = Inr d2"
proof -
  have ip: "p \<noteq> i" using dirsD[OF p(1)] i(1) by auto
  then have p1: "p \<in> dirs sb d1" using l(2) p(1) by simp
  note P = dirsD[OF p1]
  have e: "dp = (read_inode sb p d1)\<lparr>i_major := i_major (read_inode sb p d1), i_minor := i_minor (read_inode sb p d1),
      i_nlink := i_nlink (read_inode sb p d1) + 1\<rparr>" by (simp add: dp)
  have pL: "p \<in> live sb d1" using P by simp
  note N = set_nlink[OF W pL e, folded d2]
  have lp: "unat (i_nlink (read_inode sb p d1)) = links sb d p" using pL l(1) ip by (metis fun_upd_other links_def)
  then have "unat (i_nlink (read_inode sb p d1) + 1) = links sb d p + 1" using p(2) by (simp add: unat_word_ariths)
  then have L: "links sb d2 = (links sb d)(i := 1, p := links sb d p + 1)" using N(4) l(1) ip by auto
  have ty: "i_type (read_inode sb p d2) = T_DIR" using N(3) P by (simp add: dp)
  have ii: "read_inode sb i d2 = read_inode sb i d1" "slots sb d2 i = slots sb d1 i"
    using keptD(2, 4)[OF touches_kept[OF N(1)] i(2)] ip by auto
  have D: "q \<in> dirs sb d2 \<longleftrightarrow> q \<in> insert i (dirs sb d)" for q
    using touches_dirs[OF N(1), of q] l(2)[of q] ii(1) i(3) L ty ip p(1)
    by (cases "q = p"; cases "q = i") (auto simp: dirs_def nodes_def)
  then have D: "dirs sb d2 = insert i (dirs sb d)" by blast
  have o: "slots sb d2 q = slots sb d q" if "q \<in> dirs sb d" "q \<noteq> p" for q
  proof -
    have "q \<noteq> i" using dirsD[OF that(1)] i(1) by auto
    then have "slots sb d2 q = slots sb d1 q" using touches_slots[OF N(1) _ that(2)] l(2)[of q] that(1) by simp
    then show ?thesis using n that by (simp add: named_def)
  qed
  have n2: "named sb p k x i d d2" using n o N(5) by (simp add: named_def)
  show "fs_ok sb d2" using ii(2) i(4) by (intro named_dir[OF F p(1) n2 touchesD(1)[OF N(1)] i(1) _ D L p(2)]) simp
  show "files_kept sb d d2" using P by (intro files_trans[OF fk] files_touches[OF N(1)]) simp
  show "created sb p k x T_DIR i d d2" using i n2 N(2) ii D L by (simp add: created_def)
  have "p \<in> nodes sb d2" using L by (simp add: nodes_def)
  from iput_node[OF this, of held] show "iput sb held dp d2 = Inr d2" using N(3) by simp
qed

lemma new_dir:
  assumes F: "fs_ok sb d" and p: "p \<in> dirs sb d" "links sb d p + 1 < 2 ^ 15" and new: "\<forall>l j. slots sb d p l \<noteq> Some (name_key name, j)"
    and al: "ialloc sb T_DIR d = (Some i, d1)"
  shows "\<exists>x d'. create_new sb held (read_inode sb p d) name T_DIR a b d = Inr (x, d') \<and> fs_ok sb d' \<and> files_kept sb d d' \<and>
    (x = None \<and> same sb d d' \<or> x = Some i \<and> (\<exists>k. created sb p k (name_key name) T_DIR i d d'))"
proof -
  note W = fs_okD(1)[OF F] and P = dirsD[OF p(1)]
  have ty: "T_DIR \<noteq> 0" by (simp add: T_DIR_def)
  define ip where "ip = (read_inode sb i d1)\<lparr>i_major := a, i_minor := b, i_nlink := 1\<rparr>"
  define d2 where "d2 = iupdate sb ip d1"
  note A = allocate_fresh[OF W ty al ip_def d2_def]
  have ni: "p \<noteq> i" using P freshD(2)[OF A(1)] by auto
  have p2: "p \<in> live sb d2" using keptD(1)[OF A(5), of p] P ni by simp
  have t2: "i_type (read_inode sb i d2) = T_DIR" using A(2, 3) by simp
  obtain r1 d3 where M: "make_dots sb (read_inode sb i d2) p d2 = Inr (r1, read_inode sb i d3, d3)" "fresh sb i d d3" "inodes_kept sb {i} d2 d3"
    "i_type (read_inode sb i d3) = T_DIR" "r1 = 0 \<and> slots sb d3 i = [0 \<mapsto> (dot, i), 1 \<mapsto> (dotdot, p)] \<or> r1 = -1"
    using make_dots_ok[OF A(1) t2 A(4) p2] by blast
  have k3: "inodes_kept sb {i} d d3" by (rule kept_trans[OF A(5) M(3)]) auto
  have q3: "read_inode sb p d3 = read_inode sb p d" using keptD(2)[OF k3, of p] P ni by simp
  obtain r d4 where B: "dirlink sb (read_inode sb p d) name i d3 = Inr (r, read_inode sb p d4, d4)" "disk_ok sb d4" "live sb d4 = live sb d3"
      "links sb d4 = links sb d3" "dirs sb d4 = dirs sb d3" "files_kept sb d d4" "read_inode sb i d4 = read_inode sb i d3" "slots sb d4 i = slots sb d3 i"
    and C: "r = 0 \<and> (\<exists>k. named sb p k (name_key name) i d d4) \<or> r = -1 \<and> fresh sb i d d4"
    using name_new[OF M(2) k3 p(1) new] by blast
  define dp where "dp = (read_inode sb p d4)\<lparr>i_nlink := i_nlink (read_inode sb p d4) + 1\<rparr>"
  have run: "create_new sb held (read_inode sb p d) name T_DIR a b d =
      (if r1 < 0 then create_fail sb held (read_inode sb i d3) (read_inode sb p d3) d3
       else if r < 0 then create_fail sb held (read_inode sb i d4) (read_inode sb p d4) d4
       else rbind (iput sb held dp (iupdate sb dp d4)) (\<lambda>d. Inr (Some i, d)))"
    using al ilock_live[OF A(6)] M(1) B(1, 7) A(2) q3 by (simp add: create_new_def Let_def ip_def[symmetric] d2_def[symmetric] dp_def[symmetric])
  consider "r1 = -1" | "r1 = 0" "slots sb d3 i = [0 \<mapsto> (dot, i), 1 \<mapsto> (dotdot, p)]" "r = -1" "fresh sb i d d4"
    | k where "r1 = 0" "slots sb d3 i = [0 \<mapsto> (dot, i), 1 \<mapsto> (dotdot, p)]" "r = 0" "named sb p k (name_key name) i d d4"
    using M(5) C by blast
  then show ?thesis
  proof cases
    case 1
    then show ?thesis using create_failed[OF F M(2) p(1), of held] run fs_same[OF F] by auto
  next
    case 2
    then show ?thesis using create_failed[OF F 2(4) p(1), of held] run fs_same[OF F] by auto
  next
    case (3 k)
    note R = freshD[OF M(2)]
    have i4: "i \<in> live sb d4" "i_type (read_inode sb i d4) = T_DIR" "slots sb d4 i = [0 \<mapsto> (dot, i), 1 \<mapsto> (dotdot, p)]"
      "links sb d4 = (links sb d)(i := 1)" using R(3, 4) B(3, 4, 7, 8) M(4) 3(2) by auto
    have dd: "q \<in> dirs sb d4 \<longleftrightarrow> q \<in> dirs sb d" if "q \<noteq> i" for q using B(5) R(5)[OF that] by simp
    note G = parent_counted[OF F p 3(4) B(2) R(2) i4 dd B(6) dp_def refl]
    show ?thesis using run 3(1, 3) G by auto
  qed
qed

lemma path_create_ok:
  assumes F: "fs_ok sb d" and c: "cwd \<in> nodes sb d" and ty: "ty \<noteq> 0" and few: "ty = T_DIR \<Longrightarrow> \<forall>i. links sb d i < 2 ^ 15 - 1"
  shows "\<exists>x d'. create sb held cwd path ty a b d = Inr (x, d') \<and> fs_ok sb d' \<and> files_kept sb d d' \<and>
    (case x of None \<Rightarrow> same sb d d'
     | Some i \<Rightarrow> \<exists>p name. nameiparent sb path cwd d = Inr (Some (p, name), d) \<and>
         (d' = d \<and> ty = T_FILE \<and> i_type (read_inode sb i d) \<in> {T_FILE, T_DEVICE} \<and> (\<exists>k. slots sb d p k = Some (name_key name, i)) \<or>
          (\<exists>k. created sb p k (name_key name) ty i d d')))"
proof -
  note W = fs_okD(1)[OF F] and ns = fs_okD(2)[OF F]
  obtain x where x: "nameiparent sb path cwd d = Inr (x, d)" "\<forall>p name. x = Some (p, name) \<longrightarrow> p \<in> dirs sb d"
    using nameiparent_ok[OF F c] by blast
  have same0: "same sb d d" "files_kept sb d d" using same_refl[OF W] files_refl by auto
  show ?thesis
  proof (cases x)
    case None
    then have "create sb held cwd path ty a b d = Inr (None, d)" using x(1) by (simp add: create_def)
    then show ?thesis using F same0 by (intro exI[of _ None] exI[of _ d]) simp
  next
    case (Some y)
    obtain p name where y: "y = (p, name)" by (cases y)
    have p: "p \<in> dirs sb d" and par: "nameiparent sb path cwd d = Inr (Some (p, name), d)" using x Some y by simp_all
    note P = dirsD[OF p]
    have L: "ilock sb p d = Inr (read_inode sb p d)" "\<And>h. iput sb h (read_inode sb p d) d = Inr d" using P ilock_live iput_node by auto
    show ?thesis
      using W conjunct1[OF conjunct2[OF P]] conjunct2[OF conjunct2[OF P]]
    proof (cases rule: dirlookup_slots[of _ _ _ name])
      case 1
      then have run: "create sb held cwd path ty a b d = create_new sb held (read_inode sb p d) name ty a b d"
        using par L by (simp add: create_def)
      obtain z d1 where al: "ialloc sb ty d = (z, d1)" by (cases "ialloc sb ty d")
      have "z = None \<and> d1 = d \<or> (\<exists>i. z = Some i)" using ialloc_ok[OF W ty] al by auto
      then consider "ialloc sb ty d = (None, d)" | i where "ialloc sb ty d = (Some i, d1)" using al by auto
      then show ?thesis
      proof cases
        case a: 1
        then have "create sb held cwd path ty a b d = Inr (None, d)" unfolding run using L by (simp add: create_new_def)
        then show ?thesis using F same0 by (intro exI[of _ None] exI[of _ d]) simp
      next
        case a: (2 i)
        have "\<exists>x d'. create_new sb held (read_inode sb p d) name ty a b d = Inr (x, d') \<and> fs_ok sb d' \<and> files_kept sb d d' \<and>
          (x = None \<and> same sb d d' \<or> x = Some i \<and> (\<exists>k. created sb p k (name_key name) ty i d d'))"
        proof (cases "ty = T_DIR")
          case True
          have "links sb d p < 2 ^ 15 - 1" using few[OF True] by blast
          then have "links sb d p + 1 < 2 ^ 15" by simp
          from new_dir[OF F p this 1(2) a[unfolded True]] show ?thesis unfolding True .
        next
          case False
          from new_file[OF F p 1(2) ty False a] show ?thesis .
        qed
        then obtain x d' where "create_new sb held (read_inode sb p d) name ty a b d = Inr (x, d')" "fs_ok sb d'" "files_kept sb d d'"
          "x = None \<and> same sb d d' \<or> x = Some i \<and> (\<exists>k. created sb p k (name_key name) ty i d d')" by blast
        then show ?thesis unfolding run using par by (intro exI[of _ x] exI[of _ d']) auto
      qed
    next
      case (2 i k)
      have iN: "i \<in> nodes sb d" by (rule ns_okD(6)[OF ns p 2(2)])
      have "create sb held cwd path ty a b d =
          Inr (if ty = T_FILE \<and> (i_type (read_inode sb i d) = T_FILE \<or> i_type (read_inode sb i d) = T_DEVICE) then Some i else None, d)"
        using 2(1) par L ilock_live[OF nodes_live[OF iN]] iput_node[OF iN] by (simp add: create_def)
      then show ?thesis using F same0 par 2(2) by (auto split: if_splits)
    qed
  qed
qed

end
