(* ===== verification/Fs_Calls.thy ===== *)
theory Fs_Calls
  imports Fs_Paths
begin

unbundle bit_operations_syntax

text \<open>
  All system calls that change the file system, as steps: whatever their order, their arguments and
  the processes they come from, the names and the link counts stay sound. Then what each call does,
  and two ways in which the code fails.
\<close>

section \<open>The calls keep the file system sound\<close>










section \<open>Orphaned inodes\<close>

lemma reclaim_loop:
  assumes W: "disk_ok sb d" and k: "k \<le> sb_ninodes sb" "1 \<le> k"
  defines "X \<equiv> \<lambda>k. {i \<in> live sb d - nodes sb d. i < k}"
  shows "\<exists>d'. rfold (\<lambda>i d. let ip = read_inode sb i d in
      if i_type ip \<noteq> 0 \<and> i_nlink ip = 0 then rbind (ilock sb i d) (\<lambda>ip. iput sb (\<lambda>_. False) ip d) else Inr d) [1..<k] d = Inr d' \<and>
    same sb d d' \<and> live sb d' = live sb d - X k \<and> inodes_kept sb (X k) d d' \<and>
    free_blocks sb d' = free_blocks sb d \<union> (\<Union>i \<in> X k. refs (read_inode sb i d) d)"
  using k(2, 1)
proof (induction k rule: dec_induct)
  case base
  have "X 1 = {}" using liveD[of _ sb d] by (auto simp: X_def)
  then show ?case using same_refl[OF W] by simp
next
  case (step k)
  then obtain d1 where R: "rfold (\<lambda>i d. let ip = read_inode sb i d in
      if i_type ip \<noteq> 0 \<and> i_nlink ip = 0 then rbind (ilock sb i d) (\<lambda>ip. iput sb (\<lambda>_. False) ip d) else Inr d) [1..<k] d = Inr d1"
    and I: "same sb d d1" "live sb d1 = live sb d - X k" "inodes_kept sb (X k) d d1"
      "free_blocks sb d1 = free_blocks sb d \<union> (\<Union>i \<in> X k. refs (read_inode sb i d) d)" by auto
  have kl: "k \<in> live sb d1 \<longleftrightarrow> i_type (read_inode sb k d1) \<noteq> 0" using step by (auto simp: live_def)
  have W1: "disk_ok sb d1" and l: "links sb d1 = links sb d" using I(1) by (auto simp: same_def)
  have kX: "k \<notin> X k" by (simp add: X_def)
  show ?case
  proof (cases "k \<in> live sb d \<and> k \<notin> nodes sb d")
    case True
    then have k1: "k \<in> live sb d1" using I(2) kX by simp
    have z: "links sb d1 k = 0" using True l by (simp add: nodes_def)
    then have n: "i_nlink (read_inode sb k d1) = 0" using k1 by (simp add: links_def unat_eq_0)
    obtain d2 where d2: "iput sb (\<lambda>_. False) (read_inode sb k d1) d1 = Inr d2" "same sb d1 d2" "touches sb k d1 d2"
      "live sb d2 = live sb d1 - {k}" "free_blocks sb d2 = free_blocks sb d1 \<union> refs (read_inode sb k d1) d1"
      using iput_same[OF W1 k1, of "\<lambda>_. False"] z by auto
    have XS: "X (Suc k) = insert k (X k)" using True by (auto simp: X_def less_Suc_eq)
    have "inodes_kept sb (X (Suc k)) d d2" unfolding XS by (rule kept_trans[OF I(3) touches_kept[OF d2(3)]]) auto
    moreover have "refs (read_inode sb k d1) d1 = refs (read_inode sb k d) d" using keptD(5)[OF I(3) _ kX] True by simp
    then have "free_blocks sb d2 = free_blocks sb d \<union> (\<Union>i \<in> X (Suc k). refs (read_inode sb i d) d)"
      unfolding XS using d2(5) I(4) by auto
    moreover have "live sb d2 = live sb d - X (Suc k)" unfolding XS using d2(4) I(2) by auto
    ultimately show ?thesis
      using R d2(1) k1 kl n ilock_live[OF k1] same_trans[OF I(1) d2(2)] step(1) by (simp add: rfold_snoc Let_def)
  next
    case False
    then have XS: "X (Suc k) = X k" by (auto simp: X_def less_Suc_eq)
    have "\<not> (i_type (read_inode sb k d1) \<noteq> 0 \<and> i_nlink (read_inode sb k d1) = 0)"
    proof
      assume a: "i_type (read_inode sb k d1) \<noteq> 0 \<and> i_nlink (read_inode sb k d1) = 0"
      then have "k \<in> live sb d1" "links sb d1 k = 0" using kl by (auto simp: links_def)
      then show False using False I(2) l by (auto simp: nodes_def)
    qed
    then show ?thesis unfolding XS using R I step(1) by (auto simp: rfold_snoc Let_def)
  qed
qed

section \<open>A small file system\<close>

text \<open>The root with a directory \<^verbatim>\<open>a\<close>, in which there is an empty directory \<^verbatim>\<open>b\<close>; everything else is free.\<close>

definition dents :: "(nat \<times> byte list) list \<Rightarrow> byte list" where
  "dents es = concat (map (\<lambda>(i, x). dirent i x) es)"

definition dnode :: "nat \<Rightarrow> nat \<Rightarrow> nat \<Rightarrow> nat \<Rightarrow> inode" where
  "dnode i n len b = \<lparr>inum = i, i_type = T_DIR, i_major = 0, i_minor = 0, i_nlink = of_nat n, i_size = of_nat len, addrs = (\<lambda>_. 0)(0 := of_nat b)\<rparr>"

definition nested_blocks :: fsdisk where
  "nested_blocks = (\<lambda>_ _. 0)(3 := (\<lambda>w. if w = 0 then 127 else 0),
    4 := put_bytes 0 (dents [(1, dot), (1, dotdot), (2, [97])]) (\<lambda>_. 0),
    5 := put_bytes 0 (dents [(2, dot), (1, dotdot), (3, [98])]) (\<lambda>_. 0),
    6 := put_bytes 0 (dents [(3, dot), (2, dotdot)]) (\<lambda>_. 0))"

definition nested_disk :: fsdisk where
  "nested_disk = iupdate small_sb (dnode 3 1 32 6) (iupdate small_sb (dnode 2 2 48 5) (iupdate small_sb (dnode 1 2 48 4) nested_blocks))"

lemma small_fields [simp]: "sb_size small_sb = 100" "sb_ninodes small_sb = 10" "sb_inodestart small_sb = 2" "sb_bmapstart small_sb = 3"
  by (simp_all add: small_sb_def)

lemma dents_length [simp]: "length (dents es) = 16 * length es"
  by (induction es) (auto simp: dents_def)

lemma dents_entry: "k < length es \<Longrightarrow> dir_entry (dents es) k = dirent (fst (es ! k)) (snd (es ! k))"
proof (induction es arbitrary: k)
  case (Cons e es)
  obtain i x where e: "e = (i, x)" by (cases e)
  have d: "dents (e # es) = dirent i x @ dents es" by (simp add: dents_def e)
  show ?case
  proof (cases k)
    case (Suc m)
    then have "dir_entry (dents (e # es)) k = dir_entry (dents es) m" by (simp add: d dir_entry_def)
    then show ?thesis using Cons Suc by simp
  qed (use d in \<open>simp add: dir_entry_def e\<close>)
qed simp

lemma slot_dents:
  assumes "\<And>i x. (i, x) \<in> set es \<Longrightarrow> 0 < i \<and> i < 2 ^ 16"
  shows "dirslot (dents es) k = (if k < length es then Some (name_key (snd (es ! k)), fst (es ! k)) else None)"
  using assms[of "fst (es ! k)" "snd (es ! k)"] by (auto simp: dirslot_def dents_entry)

lemma dnode_blocks:
  assumes "0 < b" "b < 2 ^ 32"
  shows "ref (dnode i n len b) d k = (if k = 0 then b else 0)" "refs (dnode i n len b) d = {b}"
    "file_block (dnode i n len b) d bn = (if bn = 0 then b else 0)"
proof -
  have u: "unat (of_nat b :: 32 word) = b" using assms(2) by (rule unat_small)
  show r: "ref (dnode i n len b) d k = (if k = 0 then b else 0)" for k using u by (simp add: ref_def dnode_def NDIRECT_def)
  show "refs (dnode i n len b) d = {b}" using assms(1) by (auto simp: refs_def r NREFS_def image_iff intro!: exI[of _ 0])
  show "file_block (dnode i n len b) d bn = (if bn = 0 then b else 0)" by (simp add: file_block_def r NDIRECT_def)
qed

lemma dnode_contents:
  assumes "0 < b" "b < 2 ^ 32" "d b = put_bytes 0 bs (\<lambda>_. 0)" "length bs \<le> BSIZE"
  shows "contents (dnode i n (length bs) b) d = bs"
proof (rule nth_equalityI)
  have u: "unat (of_nat (length bs) :: 32 word) = length bs" using assms(4) by (intro unat_small) (simp add: BSIZE_def)
  then show "length (contents (dnode i n (length bs) b) d) = length bs" by (simp add: dnode_def)
  fix j assume "j < length (contents (dnode i n (length bs) b) d)"
  then have j: "j < length bs" using u by (simp add: dnode_def)
  then have "j div BSIZE = 0" "j mod BSIZE = j" using assms(4) by simp_all
  then have "fbyte (dnode i n (length bs) b) d j = bs ! j" using dnode_blocks(3)[OF assms(1, 2)] assms(1, 3) j by (simp add: fbyte_def get_put_bytes)
  then show "contents (dnode i n (length bs) b) d ! j = bs ! j" using j u by (simp add: contents_def dnode_def)
qed

lemma nested_inodes: "read_inode small_sb i nested_disk =
    (if i = 1 then dnode 1 2 48 4 else if i = 2 then dnode 2 2 48 5 else if i = 3 then dnode 3 1 32 6 else read_inode small_sb i nested_blocks)"
proof -
  have a: "addrs (dnode i n len b) k = 0" if "NDIRECT < k" for i n len b k using that by (simp add: dnode_def NDIRECT_def)
  have R: "read_inode small_sb i (iupdate small_sb (dnode i n len b) d) = dnode i n len b" for i n len b d
    using read_inode_iupdate[of "dnode i n len b" small_sb d] a by (simp add: dnode_def)
  have O: "read_inode small_sb j (iupdate small_sb (dnode i n len b) d) = read_inode small_sb j d" if "j \<noteq> i" for i j n len b d
    using read_inode_other[of j "dnode i n len b" small_sb d] that by (simp add: dnode_def)
  show ?thesis unfolding nested_disk_def using R O by (cases "i = 3"; cases "i = 2"; cases "i = 1") simp_all
qed

lemma nested_rest: "i < 10 \<Longrightarrow> i_type (read_inode small_sb i nested_blocks) = 0"
  by (simp add: read_inode_def IBLOCK_def IPB_def nested_blocks_def)

lemma nested_live: "live small_sb nested_disk = {1, 2, 3}"
proof -
  have "i \<in> live small_sb nested_disk \<longleftrightarrow> i \<in> {1, 2, 3}" for i
    using nested_rest[of i] by (auto simp: live_def nested_inodes dnode_def T_DIR_def)
  then show ?thesis by blast
qed

lemma nested_block: "b \<noteq> 2 \<Longrightarrow> nested_disk b = nested_blocks b"
  by (auto simp: nested_disk_def iupdate_def IBLOCK_def IPB_def dnode_def Let_def)

lemma nested_contents:
  "contents (dnode 1 2 48 4) nested_disk = dents [(1, dot), (1, dotdot), (2, [97])]"
  "contents (dnode 2 2 48 5) nested_disk = dents [(2, dot), (1, dotdot), (3, [98])]"
  "contents (dnode 3 1 32 6) nested_disk = dents [(3, dot), (2, dotdot)]"
  using dnode_contents[of 4 nested_disk "dents [(1, dot), (1, dotdot), (2, [97])]" 1 2]
    dnode_contents[of 5 nested_disk "dents [(2, dot), (1, dotdot), (3, [98])]" 2 2]
    dnode_contents[of 6 nested_disk "dents [(3, dot), (2, dotdot)]" 3 1]
  by (simp_all add: nested_block BSIZE_def) (simp_all add: nested_blocks_def)

lemma nested_used: "b < 7 \<Longrightarrow> used small_sb b nested_disk"
proof -
  assume "b < 7"
  then have "b \<in> {0, 1, 2, 3, 4, 5, 6}" by auto
  then show ?thesis by (auto simp: used_def bit_at_def BBLOCK_def BPB_def nested_block nested_blocks_def)
qed

lemma nested_disk_ok: "disk_ok small_sb nested_disk"
proof -
  have st: "data_start small_sb = 4" by (simp add: data_start_def BPB_def)
  have bm: "bitmap_ok small_sb nested_disk" using nested_used by (simp add: bitmap_ok_def st)
  have f: "file_ok small_sb (dnode i n len b) nested_disk" if "i \<in> {1, 2, 3}" "b \<in> {4, 5, 6}" "len < 100" for i n len b
  proof -
    have b: "0 < b" "b < 2 ^ 32" "b < 7" "4 \<le> b" using that(2) by auto
    have u: "unat (of_nat len :: 32 word) = len" using that(3) by (intro unat_small) simp
    have "inode_ok small_sb (dnode i n len b) nested_disk"
      unfolding inode_ok_def dnode_blocks(1)[OF b(1, 2)] using nested_used[OF b(3)] b by (auto simp: data_block_def st)
    moreover have "IBLOCK (inum (dnode i n len b)) small_sb < 3" using that(1) by (auto simp: IBLOCK_def IPB_def dnode_def)
    moreover have "j div BSIZE = 0" if "j < len" for j using that \<open>len < 100\<close> by (simp add: BSIZE_def)
    moreover have "len \<le> MAXFILE * BSIZE" using that(3) by (simp add: MAXFILE_def NDIRECT_def NINDIRECT_def BSIZE_def)
    ultimately show ?thesis using bm u b(1) unfolding file_ok_def dnode_blocks(3)[OF b(1, 2)] by (simp add: dnode_def)
  qed
  have s: "i_size (dnode i n len b) = of_nat len" for i n len b by (simp add: dnode_def)
  show ?thesis
    unfolding disk_ok_def nested_live
  proof (intro conjI allI impI ballI)
    show "IBLOCK i small_sb < sb_bmapstart small_sb" if "i < sb_ninodes small_sb" for i using that by (simp add: IBLOCK_def IPB_def)
    show "bitmap_ok small_sb nested_disk" by (rule bm)
    show "file_ok small_sb (read_inode small_sb i nested_disk) nested_disk" if "i \<in> {1, 2, 3}" for i
      using that f by (auto simp: nested_inodes)
    show "unat (i_size (read_inode small_sb i nested_disk)) mod 16 = 0" if "i \<in> {1, 2, 3}" for i
      using that by (auto simp: nested_inodes s)
    show "refs (read_inode small_sb i nested_disk) nested_disk \<inter> refs (read_inode small_sb j nested_disk) nested_disk = {}"
      if "i \<in> {1, 2, 3}" "j \<in> {1, 2, 3}" "i \<noteq> j" for i j
      using that by (auto simp: nested_inodes dnode_blocks(2))
  qed simp
qed

lemma slot_two:
  assumes "0 < a" "a < 2 ^ 16" "0 < b" "b < 2 ^ 16"
  shows "dirslot (dents [(a, x), (b, y)]) = [0 \<mapsto> (name_key x, a), 1 \<mapsto> (name_key y, b)]"
proof
  fix k :: nat consider "k = 0" | "k = 1" | "2 \<le> k" by linarith
  then show "dirslot (dents [(a, x), (b, y)]) k = [0 \<mapsto> (name_key x, a), 1 \<mapsto> (name_key y, b)] k"
    using slot_dents[of "[(a, x), (b, y)]" k] assms by cases auto
qed

lemma slot_three:
  assumes "0 < a" "a < 2 ^ 16" "0 < b" "b < 2 ^ 16" "0 < c" "c < 2 ^ 16"
  shows "dirslot (dents [(a, x), (b, y), (c, z)]) = [0 \<mapsto> (name_key x, a), 1 \<mapsto> (name_key y, b), 2 \<mapsto> (name_key z, c)]"
proof
  fix k :: nat consider "k = 0" | "k = 1" | "k = 2" | "3 \<le> k" by linarith
  then show "dirslot (dents [(a, x), (b, y), (c, z)]) k = [0 \<mapsto> (name_key x, a), 1 \<mapsto> (name_key y, b), 2 \<mapsto> (name_key z, c)] k"
    using slot_dents[of "[(a, x), (b, y), (c, z)]" k] assms by cases auto
qed

lemma nested_slots:
  "slots small_sb nested_disk 1 = [0 \<mapsto> (dot, 1), 1 \<mapsto> (dotdot, 1), 2 \<mapsto> ([97], 2)]"
  "slots small_sb nested_disk 2 = [0 \<mapsto> (dot, 2), 1 \<mapsto> (dotdot, 1), 2 \<mapsto> ([98], 3)]"
  "slots small_sb nested_disk 3 = [0 \<mapsto> (dot, 3), 1 \<mapsto> (dotdot, 2)]"
proof -
  have k: "name_key [97] = [97]" "name_key [98] = [98]" by (simp_all add: name_key_def DIRSIZ_def)
  show "slots small_sb nested_disk 1 = [0 \<mapsto> (dot, 1), 1 \<mapsto> (dotdot, 1), 2 \<mapsto> ([97], 2)]"
    using slot_three[of 1 1 2 dot dotdot "[97]"] k nested_contents(1) nested_inodes[of 1] by (simp add: slots_def)
  show "slots small_sb nested_disk 2 = [0 \<mapsto> (dot, 2), 1 \<mapsto> (dotdot, 1), 2 \<mapsto> ([98], 3)]"
    using slot_three[of 2 1 3 dot dotdot "[98]"] k nested_contents(2) nested_inodes[of 2] by (simp add: slots_def)
  show "slots small_sb nested_disk 3 = [0 \<mapsto> (dot, 3), 1 \<mapsto> (dotdot, 2)]"
    using slot_two[of 3 2 dot dotdot] nested_contents(3) nested_inodes[of 3] by (simp add: slots_def)
qed

lemma nested_links: "links small_sb nested_disk = (\<lambda>i. if i = 1 \<or> i = 2 then 2 else if i = 3 then 1 else 0)"
  by (auto simp: links_def nested_live nested_inodes dnode_def fun_eq_iff)

lemma nested_dirs: "nodes small_sb nested_disk = {1, 2, 3}" "dirs small_sb nested_disk = {1, 2, 3}"
proof -
  show N: "nodes small_sb nested_disk = {1, 2, 3}" by (auto simp: nodes_def nested_links)
  have "i_type (dnode i n len b) = T_DIR" for i n len b by (simp add: dnode_def)
  then show "dirs small_sb nested_disk = {1, 2, 3}" unfolding dirs_def N by (auto simp: nested_inodes)
qed

lemma root_names: "ns_ok {1} {1} (\<lambda>_. [0 \<mapsto> (dot, 1), 1 \<mapsto> (dotdot, 1)]) (\<lambda>_. 1)"
proof -
  have "parents_ok {1} (\<lambda>_. [0 \<mapsto> (dot, 1), 1 \<mapsto> (dotdot, 1)])" by (rule parents_okI) (auto simp: ROOTINO_def split: if_splits)
  moreover have "entries {1} (\<lambda>_. [0 \<mapsto> (dot, 1), 1 \<mapsto> (dotdot, 1)]) 1 = {}" by (auto simp: entries_def)
  moreover have "names_distinct [0 \<mapsto> (dot, 1), 1 \<mapsto> (dotdot, 1)]" by (auto simp: names_distinct_def dot_def dotdot_def split: if_splits)
  moreover have "rooted {1} (\<lambda>_. [0 \<mapsto> (dot, 1), 1 \<mapsto> (dotdot, 1)]) 1"
    using rooted.at_root by (simp add: ROOTINO_def)
  ultimately show ?thesis by (auto simp: ns_ok_def dots_ok_def counts_ok_def ROOTINO_def split: if_splits)
qed

lemma nested_fs: "fs_ok small_sb nested_disk"
proof (rule fs_view[OF nested_disk_ok])
  let ?S = "(\<lambda>_. [0 \<mapsto> (dot, 1), 1 \<mapsto> (dotdot, 1)]) :: nat \<Rightarrow> dirslots"
  have a: "ns_ok {2, 1} {2, 1} (?S(1 := (?S 1)(2 \<mapsto> ([97], 2)), 2 := [0 \<mapsto> (dot, 2), 1 \<mapsto> (dotdot, 1)])) ((\<lambda>_. 1)(2 := 1, 1 := 1 + 1))"
    by (rule ns_mkdir[OF root_names]) (auto simp: dot_def dotdot_def split: if_splits)
  define S where "S = ?S(1 := (?S 1)(2 \<mapsto> ([97], 2)), 2 := [0 \<mapsto> (dot, 2), 1 \<mapsto> (dotdot, 1)])"
  define n where "n = ((\<lambda>_ :: nat. 1 :: nat)(2 := 1, 1 := 1 + 1))"
  have b: "ns_ok {3, 2, 1} {3, 2, 1} (S(2 := (S 2)(2 \<mapsto> ([98], 3)), 3 := [0 \<mapsto> (dot, 3), 1 \<mapsto> (dotdot, 2)])) (n(3 := 1, 2 := n 2 + 1))"
    by (rule ns_mkdir[OF a[folded S_def n_def]]) (auto simp: S_def dot_def dotdot_def split: if_splits)
  have e: "{1, 2, 3} = {3, 2, 1 :: nat}" by auto
  show "ns_ok (nodes small_sb nested_disk) (dirs small_sb nested_disk)
      (S(2 := (S 2)(2 \<mapsto> ([98], 3)), 3 := [0 \<mapsto> (dot, 3), 1 \<mapsto> (dotdot, 2)])) (n(3 := 1, 2 := n 2 + 1))"
    unfolding nested_dirs e by (rule b)
  show "slots small_sb nested_disk p = (S(2 := (S 2)(2 \<mapsto> ([98], 3)), 3 := [0 \<mapsto> (dot, 3), 1 \<mapsto> (dotdot, 2)])) p"
    if "p \<in> dirs small_sb nested_disk" for p
    using that nested_slots unfolding nested_dirs by (auto simp: S_def)
  show "links small_sb nested_disk i = (n(3 := 1, 2 := n 2 + 1)) i" if "i \<in> nodes small_sb nested_disk" for i
    using that unfolding nested_dirs by (auto simp: nested_links n_def)
  show "links small_sb nested_disk i < 2 ^ 15" for i by (simp add: nested_links)
qed

section \<open>Properties\<close>



text \<open>
  C27: \<^verbatim>\<open>unlink\<close> succeeds exactly for a path that names an entry other than the first two of its
  directory, which leads to no directory with further entries; otherwise nothing changes. It clears
  this one slot and lowers the count of the inode, and of the directory when a directory goes. All
  other inodes keep their fields and contents. The inode and its blocks are released when its count
  is zero and nobody else holds it; a file that is still open keeps its contents.
\<close>

theorem unlink_removes:
  assumes "fs_ok sb d" "cwd \<in> nodes sb d"
  shows "\<exists>r d'. sys_unlink sb held cwd arg d = Inr (r, d') \<and> fs_ok sb d' \<and>
    (r = 0 \<and> (\<exists>p k i. leads sb cwd d arg p k i \<and> removable sb d p k i \<and> unlinked sb held p k i d d') \<or>
     r = -1 \<and> d' = d \<and> \<not> (\<exists>p k i. leads sb cwd d arg p k i \<and> removable sb d p k i))"
  by (rule unlink_ok[OF assms])

text \<open>From the root, \<^verbatim>\<open>a\<close> is not empty and stays.\<close>

theorem unlink_removes_witness: "sys_unlink small_sb (\<lambda>_. False) 1 (Some [97]) nested_disk = Inr (-1, nested_disk)"
proof -
  have "nameiparent small_sb [97] 1 nested_disk = Inr (Some (1, [97]), nested_disk)"
    by (simp add: nameiparent_def char0_def skipelem_def namex.simps[of _ _ "[97]"] nested_inodes dnode_def T_DIR_def DIRSIZ_def)
  note L = leads_iff[OF this]
  have "\<not> removable small_sb nested_disk 1 k i" if "slots small_sb nested_disk 1 k = Some (name_key [97], i)" for k i
  proof -
    have "i = 2" using that unfolding nested_slots by (auto simp: name_key_def DIRSIZ_def dot_def dotdot_def split: if_splits)
    moreover have "slots small_sb nested_disk 2 2 \<noteq> None" by (simp add: nested_slots)
    ultimately show ?thesis using nested_dirs(2) by (auto simp: removable_def)
  qed
  then have "\<not> (\<exists>p k i. leads small_sb 1 nested_disk (Some [97]) p k i \<and> removable small_sb nested_disk p k i)" unfolding L by blast
  then show ?thesis using unlink_removes[OF nested_fs, of 1 "\<lambda>_. False" "Some [97]"] nested_dirs(1) by auto
qed

text \<open>
  C28: Creating. The result is the inode of an existing file or device where a file was to be
  made, or a new inode of the type wanted, which was free before: it has one name, in the directory
  that the path leads to, where the name was not in use; a file is empty, a directory has the entries
  for itself and its parent, whose count goes up. When \<^verbatim>\<open>create\<close> fails, all names and counts are as before.
  No file that exists changes in any case.
\<close>

theorem create_makes:
  assumes "fs_ok sb d" "cwd \<in> nodes sb d" "ty \<in> {T_DIR, T_FILE, T_DEVICE}" "\<forall>i. links sb d i < 2 ^ 15 - 1"
  shows "\<exists>x d'. create sb held cwd path ty major minor d = Inr (x, d') \<and> fs_ok sb d' \<and> files_kept sb d d' \<and>
    (case x of None \<Rightarrow> same sb d d'
     | Some i \<Rightarrow> \<exists>p name. nameiparent sb path cwd d = Inr (Some (p, name), d) \<and>
         (d' = d \<and> ty = T_FILE \<and> i_type (read_inode sb i d) \<in> {T_FILE, T_DEVICE} \<and> (\<exists>k. slots sb d p k = Some (name_key name, i)) \<or>
          (\<exists>k. created sb p k (name_key name) ty i d d')))"
  using assms(3, 4) by (intro path_create_ok[OF assms(1, 2)]) (auto simp: T_DIR_def T_FILE_def T_DEVICE_def)

text \<open>A file \<^verbatim>\<open>c\<close> in the empty directory \<^verbatim>\<open>b\<close>.\<close>

theorem create_makes_witness:
  "\<exists>x d'. create small_sb (\<lambda>_. False) 3 [99] T_FILE 0 0 nested_disk = Inr (x, d') \<and> fs_ok small_sb d' \<and> files_kept small_sb nested_disk d'"
proof -
  have "\<forall>i. links small_sb nested_disk i < 2 ^ 15 - 1" by (simp add: nested_links)
  from create_makes[OF nested_fs _ _ this, of 3 T_FILE "\<lambda>_. False" "[99]" 0 0] show ?thesis using nested_dirs(1) by auto
qed

text \<open>
  C29: At boot \<^verbatim>\<open>ireclaim\<close> releases exactly the inodes in use that have no link, with all their
  blocks, and changes nothing else; it never panics.
\<close>

theorem reclaim_orphans:
  assumes "disk_ok sb d"
  shows "\<exists>d'. ireclaim sb d = Inr d' \<and> same sb d d' \<and> live sb d' = live sb d \<inter> nodes sb d \<and> inodes_kept sb (live sb d - nodes sb d) d d' \<and>
    free_blocks sb d' = free_blocks sb d \<union> (\<Union>i \<in> live sb d - nodes sb d. refs (read_inode sb i d) d)"
proof (cases "1 \<le> sb_ninodes sb")
  case True
  have "{i \<in> live sb d - nodes sb d. i < sb_ninodes sb} = live sb d - nodes sb d" using liveD by blast
  then show ?thesis using reclaim_loop[OF assms order.refl True] by (auto simp: ireclaim_def)
next
  case False
  then have "live sb d = {}" using liveD[of _ sb d] by fastforce
  moreover have "ireclaim sb d = Inr d" using False by (simp add: ireclaim_def)
  ultimately show ?thesis using same_refl[OF assms] by auto
qed

text \<open>The directory \<^verbatim>\<open>b\<close> without its link is released.\<close>

theorem reclaim_orphans_witness:
  "\<exists>d'. ireclaim small_sb (iupdate small_sb ((dnode 3 1 32 6)\<lparr>i_nlink := 0\<rparr>) nested_disk) = Inr d' \<and> live small_sb d' = {1, 2}"
proof -
  let ?d = "iupdate small_sb ((dnode 3 1 32 6)\<lparr>i_nlink := 0\<rparr>) nested_disk"
  have e: "(dnode 3 1 32 6)\<lparr>i_nlink := 0\<rparr> = (read_inode small_sb 3 nested_disk)\<lparr>i_major := 0, i_minor := 0, i_nlink := 0\<rparr>"
    by (simp add: nested_inodes dnode_def)
  have "3 \<in> live small_sb nested_disk" by (simp add: nested_live)
  note N = set_nlink[OF nested_disk_ok this e]
  have "nodes small_sb ?d = {1, 2}" using N(4) by (auto simp: nodes_def nested_links)
  then have "live small_sb ?d \<inter> nodes small_sb ?d = {1, 2}" using N(2) by (auto simp: nested_live)
  then show ?thesis using reclaim_orphans[OF touchesD(1)[OF N(1)]] by auto
qed

text \<open>
  C30: A current directory may be removed, and then its parent; the entry for the parent in the
  removed directory leads to a free inode, and \<^verbatim>\<open>chdir("..")\<close> of the process that is still there
  panics the kernel.
\<close>

theorem removed_parent_panics:
  assumes F: "fs_ok sb d" and g: "g \<in> dirs sb d" "2 \<le> l" "slots sb d g l = Some (y, p)"
    and p: "p \<in> dirs sb d" "2 \<le> k" "slots sb d p k = Some (x, c)" "\<forall>m \<ge> 2. m \<noteq> k \<longrightarrow> slots sb d p m = None"
    and c: "c \<in> dirs sb d" "\<forall>m \<ge> 2. slots sb d c m = None" and h: "held c" "\<not> held p"
  shows "\<exists>d1 d2. unlink_inode sb held (read_inode sb p d) (16 * k) c d = Inr (0, d1) \<and>
    unlink_inode sb held (read_inode sb g d1) (16 * l) p d1 = Inr (0, d2) \<and>
    sys_chdir sb held c (Some dotdot) d2 = Inl (Panic ''ilock: no type'')"
proof -
  note ns = fs_okD(2)[OF F]
  have gp: "g \<noteq> p" "g \<noteq> c" "c \<noteq> p" using parentsD(1)[OF ns_okD(8)[OF ns] g p(1)] parentsD(1)[OF ns_okD(8)[OF ns] p(1-3) c(1)] c(2) g(2, 3) by auto
  have "removable sb d p k c" using p(2) c(2) by (simp add: removable_def)
  then obtain d1 where r1: "unlink_inode sb held (read_inode sb p d) (16 * k) c d = Inr (0, d1)" "fs_ok sb d1" and U: "unlinked sb held p k c d d1"
    using unlink_found[OF F p(1-3), of held] by auto
  have D1: "dirs sb d1 = dirs sb d - {c}" "\<And>q. q \<in> dirs sb d1 \<Longrightarrow> slots sb d1 q = (if q = p then (slots sb d p)(k := None) else slots sb d q)"
    and C1: "c \<in> live sb d1" "i_type (read_inode sb c d1) = T_DIR" "contents (read_inode sb c d1) d1 = contents (read_inode sb c d) d"
    using U h(1) dirsD[OF c(1)] by (auto simp: unlinked_def)
  have g1: "g \<in> dirs sb d1" "slots sb d1 g l = Some (y, p)" "p \<in> dirs sb d1" "\<forall>m \<ge> 2. slots sb d1 p m = None"
    using D1 g p(1, 4) gp by auto
  then have "removable sb d1 g l p" using g(2) by (simp add: removable_def)
  then obtain d2 where r2: "unlink_inode sb held (read_inode sb g d1) (16 * l) p d1 = Inr (0, d2)" "fs_ok sb d2" and V: "unlinked sb held g l p d1 d2"
    using unlink_found[OF r1(2) g1(1) g(2) g1(2), of held] by auto
  have p2: "p \<notin> live sb d2" using V h(2) g1(3) by (auto simp: unlinked_def)
  have "inodes_kept sb {g, p} d1 d2" using V by (simp add: unlinked_def)
  from keptD[OF this C1(1)] have c2: "c \<in> live sb d2" "i_type (read_inode sb c d2) = T_DIR" "slots sb d2 c = slots sb d1 c" using gp C1(2) by auto
  have sl: "slots sb d2 c = slots sb d c" using c2(3) C1(3) by (simp add: slots_def)
  have up: "slots sb d c 1 = Some (dotdot, p)" by (rule parentsD(3)[OF ns_okD(8)[OF ns] p(1-3) c(1)])
  have only: "i = p" if "slots sb d2 c m = Some (dotdot, i)" for m i
    using that up ns_okD(4)[OF ns c(1)] unfolding sl names_distinct_def by (metis option.inject prod.inject)
  have "\<exists>off. dirlookup sb (read_inode sb c d2) dotdot d2 = Inr (Some (p, off), read_inode sb c d2, d2)"
    using fs_okD(1)[OF r2(2)] c2(1, 2)
  proof (cases rule: dirlookup_slots[of _ _ _ dotdot])
    case 1
    then show ?thesis using up sl by simp
  next
    case (2 i m)
    then show ?thesis using only[of m i] by auto
  qed
  then obtain off where off: "dirlookup sb (read_inode sb c d2) dotdot d2 = Inr (Some (p, off), read_inode sb c d2, d2)" ..
  have sk: "skipelem dotdot = Some (dotdot, [])" "skipelem [] = None" by (simp_all add: skipelem_def dotdot_def DIRSIZ_def)
  have t: "T_DIR \<noteq> 0" by (simp add: T_DIR_def)
  have "namex sb False dotdot c d2 = namex sb False [] p d2" using off c2(2) t by (subst namex.simps) (simp add: sk Let_def)
  also have "\<dots> = Inr (Some (p, []), d2)" by (subst namex.simps) (simp add: sk)
  finally have "namei sb dotdot c d2 = Inr (Some (p, []), d2)" by (simp add: namei_def char0_def dotdot_def)
  moreover have "0 < p \<and> p < sb_ninodes sb" using dirsD[OF p(1)] by (intro liveD) blast
  then have "i_type (read_inode sb p d2) = 0" using p2 unfolding live_def by simp
  ultimately have "sys_chdir sb held c (Some dotdot) d2 = Inl (Panic ''ilock: no type'')" by (simp add: sys_chdir_def ilock_def Let_def)
  then show ?thesis using r1(1) r2(1) by blast
qed

theorem removed_parent_panics_witness:
  "\<exists>d1 d2. unlink_inode small_sb (\<lambda>i. i = 3) (read_inode small_sb 2 nested_disk) 32 3 nested_disk = Inr (0, d1) \<and>
    unlink_inode small_sb (\<lambda>i. i = 3) (read_inode small_sb 1 d1) 32 2 d1 = Inr (0, d2) \<and>
    sys_chdir small_sb (\<lambda>i. i = 3) 3 (Some dotdot) d2 = Inl (Panic ''ilock: no type'')"
  using removed_parent_panics[OF nested_fs, of 1 2 "[97]" 2 2 "[98]" 3 "\<lambda>i. i = 3"] by (simp add: nested_dirs nested_slots nested_slots(1)[unfolded One_nat_def])

end
