(* ===== verification/File_Table.thy ===== *)
theory File_Table
  imports Proc
begin

unbundle bit_operations_syntax

text \<open>
  Open files: the table of \<^verbatim>\<open>kernel/file.c\<close>, the descriptors of the processes, and the system calls
  of \<^verbatim>\<open>kernel/sysfile.c\<close> that move references between them. A pipe is represented by which of its ends
  are open, an in-memory inode by its reference count. Where a call obtains an inode, a page or the
  result of a copy to user memory from another part of the kernel, it is an argument.

  Calls of different processes interleave. A step is what a process does from one place where it takes
  a lock of the tables (\<^verbatim>\<open>ftable.lock\<close>, a pipe's or the inode table's) to the next: so \<^verbatim>\<open>fileclose\<close> lowers
  the count in one step and closes the pipe or drops the inode in a later one, and others run
  in between. Where a process is in its call is the field \<open>point\<close>, and \<open>debts\<close> are the references it
  is to give up before it goes on there.
\<close>

section \<open>Data\<close>

definition NFILE :: nat where "NFILE = 100"

definition NDEV :: int where "NDEV = 10"

datatype fd_type = FD_NONE | FD_PIPE | FD_INODE | FD_DEVICE

record kfile =
  f_type :: fd_type
  f_ref :: int
  readable :: bool
  writable :: bool
  f_pipe :: nat
  f_ip :: nat
  f_off :: "32 word"
  f_major :: int

text \<open>
  \<open>CloseFile f\<close>: a call of \<^verbatim>\<open>fileclose\<close>; \<open>EndClose ff\<close>: its rest behind \<^verbatim>\<open>ftable.lock\<close>, with the
  copy \<^verbatim>\<open>ff\<close>; \<open>PutInode i\<close>: a call of \<^verbatim>\<open>iput\<close>.
\<close>

datatype debt = CloseFile nat | EndClose kfile | PutInode nat

text \<open>
  Where a process is: in user mode, about to return a value, in \<^verbatim>\<open>kexit\<close> before descriptor \<open>fd\<close> or
  with the file of \<open>fd\<close> closed and \<^verbatim>\<open>p->ofile[fd]\<close> still set, in \<^verbatim>\<open>kfork\<close> before descriptor \<open>i\<close>
  of the child, in \<^verbatim>\<open>sys_open\<close> with the inode, in \<^verbatim>\<open>sys_pipe\<close> with one or two new files, or in
  \<^verbatim>\<open>sys_chdir\<close> with the inode.
\<close>

datatype point = User | Returning int | Exiting nat | Clearing nat | Forking nat nat int
  | Opening int nat "16 word" int | OneEnd nat bool | TwoEnds nat nat bool | ChangingDir nat bool

record fsys =
  ftable :: "nat \<Rightarrow> kfile"
  fds :: "nat \<Rightarrow> nat \<Rightarrow> nat option"
  cwds :: "nat \<Rightarrow> nat option"
  pipes :: "nat \<Rightarrow> (bool \<times> bool) option"
  iref :: "nat \<Rightarrow> int"
  debts :: "nat \<Rightarrow> debt list"
  point :: "nat \<Rightarrow> point"

definition set_file :: "nat \<Rightarrow> kfile \<Rightarrow> fsys \<Rightarrow> fsys" where
  "set_file f x s = s\<lparr>ftable := (ftable s)(f := x)\<rparr>"

definition set_fd :: "nat \<Rightarrow> nat \<Rightarrow> nat option \<Rightarrow> fsys \<Rightarrow> fsys" where
  "set_fd me fd x s = s\<lparr>fds := (fds s)(me := (fds s me)(fd := x))\<rparr>"

definition idup_ref :: "nat \<Rightarrow> fsys \<Rightarrow> fsys" where
  "idup_ref i s = s\<lparr>iref := (iref s)(i := iref s i + 1)\<rparr>"

definition iput_ref :: "nat \<Rightarrow> fsys \<Rightarrow> fsys" where
  "iput_ref i s = s\<lparr>iref := (iref s)(i := iref s i - 1)\<rparr>"

definition set_cwd :: "nat \<Rightarrow> nat option \<Rightarrow> fsys \<Rightarrow> fsys" where
  "set_cwd me x s = s\<lparr>cwds := (cwds s)(me := x)\<rparr>"

definition goto :: "nat \<Rightarrow> point \<Rightarrow> fsys \<Rightarrow> fsys" where
  "goto me x s = s\<lparr>point := (point s)(me := x)\<rparr>"

definition owe :: "nat \<Rightarrow> debt list \<Rightarrow> fsys \<Rightarrow> fsys" where
  "owe me ds s = s\<lparr>debts := (debts s)(me := ds @ debts s me)\<rparr>"

text \<open>Closing an end; the page of a pipe with both ends closed is freed, and using it then is a fault.\<close>

definition close_end :: "nat \<Rightarrow> bool \<Rightarrow> fsys \<Rightarrow> fault + fsys" where
  "close_end pi w s =
    (case pipes s pi of
       None \<Rightarrow> Inl OutOfBounds
     | Some (r, wo) \<Rightarrow>
         let r = (if w then r else False); wo = (if w then False else wo) in
         Inr (s\<lparr>pipes := (pipes s)(pi := if \<not> r \<and> \<not> wo then None else Some (r, wo))\<rparr>))"

section \<open>The table of open files\<close>

definition filealloc :: "fsys \<Rightarrow> nat option \<times> fsys" where
  "filealloc s =
    (case find (\<lambda>f. f_ref (ftable s f) = 0) [0..<NFILE] of
       Some f \<Rightarrow> (Some f, set_file f ((ftable s f)\<lparr>f_ref := 1\<rparr>) s)
     | None \<Rightarrow> (None, s))"

definition filedup :: "nat \<Rightarrow> fsys \<Rightarrow> fault + fsys" where
  "filedup f s =
    (if f_ref (ftable s f) < 1 then Inl (Panic ''filedup'')
     else Inr (set_file f ((ftable s f)\<lparr>f_ref := f_ref (ftable s f) + 1\<rparr>) s))"

definition fileclose :: "nat \<Rightarrow> nat \<Rightarrow> fsys \<Rightarrow> fault + fsys" where
  "fileclose me f s =
    (if f_ref (ftable s f) < 1 then Inl (Panic ''fileclose'')
     else let r = f_ref (ftable s f) - 1; s = set_file f ((ftable s f)\<lparr>f_ref := r\<rparr>) s in
     if r > 0 then Inr s
     else let ff = ftable s f; s = set_file f (ff\<lparr>f_ref := 0, f_type := FD_NONE\<rparr>) s in
     Inr (owe me [EndClose ff] s))"

definition end_close :: "kfile \<Rightarrow> fsys \<Rightarrow> fault + fsys" where
  "end_close ff s =
    (if f_type ff = FD_PIPE then close_end (f_pipe ff) (writable ff) s
     else if f_type ff = FD_INODE \<or> f_type ff = FD_DEVICE then Inr (iput_ref (f_ip ff) s)
     else Inr s)"

fun pay :: "nat \<Rightarrow> debt \<Rightarrow> fsys \<Rightarrow> fault + fsys" where
  "pay me (CloseFile f) s = fileclose me f s"
| "pay me (EndClose ff) s = end_close ff s"
| "pay me (PutInode i) s = Inr (iput_ref i s)"

section \<open>Descriptors\<close>

definition argfd :: "nat \<Rightarrow> int \<Rightarrow> fsys \<Rightarrow> nat option" where
  "argfd me fd s = (if fd < 0 \<or> fd \<ge> int NOFILE then None else fds s me (nat fd))"

definition fdalloc :: "nat \<Rightarrow> nat \<Rightarrow> fsys \<Rightarrow> int \<times> fsys" where
  "fdalloc me f s =
    (case find (\<lambda>fd. fds s me fd = None) [0..<NOFILE] of
       Some fd \<Rightarrow> (int fd, set_fd me fd (Some f) s)
     | None \<Rightarrow> (-1, s))"

definition sys_dup :: "nat \<Rightarrow> int \<Rightarrow> fsys \<Rightarrow> fault + fsys" where
  "sys_dup me fd s =
    (case argfd me fd s of
       None \<Rightarrow> Inr (goto me (Returning (-1)) s)
     | Some f \<Rightarrow> let (fd, s) = fdalloc me f s in
         if fd < 0 then Inr (goto me (Returning (-1)) s)
         else rbind (filedup f s) (\<lambda>s. Inr (goto me (Returning fd) s)))"

definition sys_close :: "nat \<Rightarrow> int \<Rightarrow> fsys \<Rightarrow> fault + fsys" where
  "sys_close me fd s =
    (case argfd me fd s of
       None \<Rightarrow> Inr (goto me (Returning (-1)) s)
     | Some f \<Rightarrow> fileclose me f (goto me (Returning 0) (set_fd me (nat fd) None s)))"

text \<open>
  The loops of \<^verbatim>\<open>kfork\<close> and \<^verbatim>\<open>kexit\<close> over the descriptors, and what follows them. The first process,
  which must not exit, has entry 0.
\<close>

definition fork_files :: "nat \<Rightarrow> nat \<Rightarrow> nat \<Rightarrow> int \<Rightarrow> fsys \<Rightarrow> fault + fsys" where
  "fork_files p np i v s =
    (if i < NOFILE then
       case fds s p i of
         None \<Rightarrow> Inr (goto p (Forking np (i + 1) v) s)
       | Some f \<Rightarrow> rbind (filedup f s) (\<lambda>s. Inr (goto p (Forking np (i + 1) v) (set_fd np i (Some f) s)))
     else case cwds s p of
         None \<Rightarrow> Inl NullDeref
       | Some c \<Rightarrow> Inr (goto p (Returning v) (set_cwd np (Some c) (idup_ref c s))))"

definition begin_exit :: "nat \<Rightarrow> fsys \<Rightarrow> fault + fsys" where
  "begin_exit p s = (if p = 0 then Inl (Panic ''init exiting'') else Inr (goto p (Exiting 0) s))"

definition exit_files :: "nat \<Rightarrow> nat \<Rightarrow> fsys \<Rightarrow> fault + fsys" where
  "exit_files p fd s =
    (if fd < NOFILE then
       case fds s p fd of
         None \<Rightarrow> Inr (goto p (Exiting (fd + 1)) s)
       | Some f \<Rightarrow> fileclose p f (goto p (Clearing fd) s)
     else case cwds s p of
         None \<Rightarrow> Inl NullDeref
       | Some c \<Rightarrow> Inr (goto p User (set_cwd p None (iput_ref c s))))"

section \<open>Opening\<close>

text \<open>
  \<^verbatim>\<open>sys_open\<close> from where it has the locked inode \<open>ip\<close> of type \<open>ty\<close> and device number \<open>maj\<close>; \<^verbatim>\<open>itrunc\<close>
  for \<^verbatim>\<open>O_TRUNC\<close>, which follows, does not touch these tables.
\<close>

definition open_file :: "nat \<Rightarrow> int \<Rightarrow> nat \<Rightarrow> 16 word \<Rightarrow> int \<Rightarrow> fsys \<Rightarrow> fsys" where
  "open_file me omode ip ty maj s =
    (if ty = T_DEVICE \<and> (maj < 0 \<or> maj \<ge> NDEV) then goto me (Returning (-1)) (owe me [PutInode ip] s)
     else case filealloc s of
       (None, s) \<Rightarrow> goto me (Returning (-1)) (owe me [PutInode ip] s)
     | (Some f, s) \<Rightarrow>
         let (fd, s) = fdalloc me f s in
         if fd < 0 then goto me (Returning (-1)) (owe me [CloseFile f, PutInode ip] s)
         else let x = ftable s f;
                  x = (if ty = T_DEVICE then x\<lparr>f_type := FD_DEVICE, f_major := maj\<rparr> else x\<lparr>f_type := FD_INODE, f_off := 0\<rparr>);
                  x = x\<lparr>f_ip := ip, readable := (omode AND 1 = 0), writable := (omode AND 1 \<noteq> 0 \<or> omode AND 2 \<noteq> 0)\<rparr> in
              goto me (Returning fd) (set_file f x s))"

text \<open>
  \<^verbatim>\<open>sys_pipe\<close> with its call of \<^verbatim>\<open>pipealloc\<close>: the first file, the second file, the page and the rest,
  where \<open>copied\<close> says whether the descriptors can be copied to the user.
\<close>

definition sys_pipe :: "nat \<Rightarrow> bool \<Rightarrow> fsys \<Rightarrow> fsys" where
  "sys_pipe me copied s =
    (case filealloc s of
       (None, s) \<Rightarrow> goto me (Returning (-1)) s
     | (Some f0, s) \<Rightarrow> goto me (OneEnd f0 copied) s)"

definition pipe_second :: "nat \<Rightarrow> nat \<Rightarrow> bool \<Rightarrow> fsys \<Rightarrow> fsys" where
  "pipe_second me f0 copied s =
    (case filealloc s of
       (None, s) \<Rightarrow> goto me (Returning (-1)) (owe me [CloseFile f0] s)
     | (Some f1, s) \<Rightarrow> goto me (TwoEnds f0 f1 copied) s)"

definition pipe_fds :: "nat \<Rightarrow> nat \<Rightarrow> nat \<Rightarrow> bool \<Rightarrow> fsys \<Rightarrow> fsys" where
  "pipe_fds me rfile wfile copied s =
    (let (fd0, s) = fdalloc me rfile s in
     if fd0 < 0 then goto me (Returning (-1)) (owe me [CloseFile rfile, CloseFile wfile] s)
     else let (fd1, s) = fdalloc me wfile s in
     if fd1 < 0
     then goto me (Returning (-1)) (owe me [CloseFile rfile, CloseFile wfile] (set_fd me (nat fd0) None s))
     else if \<not> copied
     then goto me (Returning (-1)) (owe me [CloseFile rfile, CloseFile wfile] (set_fd me (nat fd1) None (set_fd me (nat fd0) None s)))
     else goto me (Returning 0) s)"

definition pipe_page :: "nat \<Rightarrow> nat option \<Rightarrow> nat \<Rightarrow> nat \<Rightarrow> bool \<Rightarrow> fsys \<Rightarrow> fsys" where
  "pipe_page me page f0 f1 copied s =
    (case page of
       None \<Rightarrow> goto me (Returning (-1)) (owe me [CloseFile f0, CloseFile f1] s)
     | Some pi \<Rightarrow>
         let s = s\<lparr>pipes := (pipes s)(pi := Some (True, True))\<rparr>;
             s = set_file f0 ((ftable s f0)\<lparr>f_type := FD_PIPE, readable := True, writable := False, f_pipe := pi\<rparr>) s;
             s = set_file f1 ((ftable s f1)\<lparr>f_type := FD_PIPE, readable := False, writable := True, f_pipe := pi\<rparr>) s in
         pipe_fds me f0 f1 copied s)"

text \<open>\<^verbatim>\<open>sys_chdir\<close> from where it has the inode \<open>ip\<close>, a directory or not.\<close>

definition change_dir :: "nat \<Rightarrow> nat \<Rightarrow> bool \<Rightarrow> fsys \<Rightarrow> fault + fsys" where
  "change_dir me ip is_dir s =
    (if \<not> is_dir then Inr (goto me (Returning (-1)) (iput_ref ip s))
     else case cwds s me of
       None \<Rightarrow> Inl NullDeref
     | Some c \<Rightarrow> Inr (goto me (Returning 0) (set_cwd me (Some ip) (iput_ref c s))))"

section \<open>Steps\<close>

text \<open>A process goes on in its call: it pays its debts first. \<open>page\<close> is what \<^verbatim>\<open>kalloc\<close> would return now.\<close>

definition resume :: "nat \<Rightarrow> nat option \<Rightarrow> fsys \<Rightarrow> fault + fsys" where
  "resume me page s =
    (case debts s me of
       d # ds \<Rightarrow> pay me d (s\<lparr>debts := (debts s)(me := ds)\<rparr>)
     | [] \<Rightarrow> (case point s me of
         User \<Rightarrow> Inr s
       | Returning _ \<Rightarrow> Inr (goto me User s)
       | Exiting fd \<Rightarrow> exit_files me fd s
       | Clearing fd \<Rightarrow> Inr (goto me (Exiting (fd + 1)) (set_fd me fd None s))
       | Forking np i v \<Rightarrow> fork_files me np i v s
       | Opening omode ip ty maj \<Rightarrow> Inr (open_file me omode ip ty maj s)
       | OneEnd f0 copied \<Rightarrow> Inr (pipe_second me f0 copied s)
       | TwoEnds f0 f1 copied \<Rightarrow> Inr (pipe_page me page f0 f1 copied s)
       | ChangingDir ip is_dir \<Rightarrow> change_dir me ip is_dir s))"

datatype file_call = Dup int | Close int | Fork nat int | Exit | Open int nat "16 word" int | MkPipe bool | Chdir nat bool

text \<open>
  A process makes a call. The inode of an open or a change of directory comes with a reference that
  \<^verbatim>\<open>namei\<close> or \<^verbatim>\<open>create\<close> took.
\<close>

fun do_call :: "nat \<Rightarrow> file_call \<Rightarrow> fsys \<Rightarrow> fault + fsys" where
  "do_call me (Dup fd) s = sys_dup me fd s"
| "do_call me (Close fd) s = sys_close me fd s"
| "do_call me (Fork np v) s = Inr (goto me (Forking np 0 v) s)"
| "do_call me Exit s = begin_exit me s"
| "do_call me (Open omode ip ty maj) s = Inr (goto me (Opening omode ip ty maj) (idup_ref ip s))"
| "do_call me (MkPipe copied) s = Inr (sys_pipe me copied s)"
| "do_call me (Chdir ip is_dir) s = Inr (goto me (ChangingDir ip is_dir) (idup_ref ip s))"

text \<open>
  What the rest of the kernel provides: the caller is a process in user mode, which has a current
  directory, the table entry of a new process is clear and nobody else's child in the making, and a
  page from \<^verbatim>\<open>kalloc\<close> is not in use for a pipe.
\<close>

fun clear_entry :: "file_call \<Rightarrow> fsys \<Rightarrow> bool" where
  "clear_entry (Fork np _) s \<longleftrightarrow> np < NPROC \<and> fds s np = Map.empty \<and> cwds s np = None \<and> point s np = User \<and>
    (\<forall>q i v. point s q \<noteq> Forking np i v)"
| "clear_entry _ s \<longleftrightarrow> True"

definition may_call :: "nat \<Rightarrow> file_call \<Rightarrow> fsys \<Rightarrow> bool" where
  "may_call me c s \<longleftrightarrow> me < NPROC \<and> cwds s me \<noteq> None \<and> point s me = User \<and> clear_entry c s"

definition may_resume :: "nat \<Rightarrow> nat option \<Rightarrow> fsys \<Rightarrow> bool" where
  "may_resume me page s \<longleftrightarrow> point s me \<noteq> User \<and> (\<forall>pi. page = Some pi \<longrightarrow> pipes s pi = None)"

inductive file_step :: "fsys \<Rightarrow> fsys \<Rightarrow> bool" where
  calls: "may_call me c s \<Longrightarrow> do_call me c s = Inr s' \<Longrightarrow> file_step s s'"
| resumes: "may_resume me page s \<Longrightarrow> resume me page s = Inr s' \<Longrightarrow> file_step s s'"

text \<open>After boot the first process has the root directory \<open>r\<close> as its current one and nothing is open.\<close>

definition no_file :: kfile where
  "no_file = \<lparr>f_type = FD_NONE, f_ref = 0, readable = False, writable = False, f_pipe = 0, f_ip = 0, f_off = 0, f_major = 0\<rparr>"

definition boot_files :: "nat \<Rightarrow> fsys" where
  "boot_files r = \<lparr>ftable = (\<lambda>_. no_file), fds = (\<lambda>_. Map.empty), cwds = Map.empty(0 \<mapsto> r), pipes = Map.empty,
    iref = (\<lambda>_. 0)(r := 1), debts = (\<lambda>_. []), point = (\<lambda>_. User)\<rparr>"

section \<open>Reference counts\<close>

definition tally :: "('a \<Rightarrow> int) \<Rightarrow> nat \<Rightarrow> (nat \<Rightarrow> 'a) \<Rightarrow> int" where
  "tally g n F = (\<Sum>x<n. g (F x))"

lemma tally_upd:
  assumes "a < n"
  shows "tally g n (F(a := v)) = tally g n F - g (F a) + g v"
proof -
  have "tally g n H = g (H a) + (\<Sum>x \<in> {..<n} - {a}. g (H x))" for H
    unfolding tally_def using assms by (intro sum.remove) auto
  moreover have "(\<Sum>x \<in> {..<n} - {a}. g ((F(a := v)) x)) = (\<Sum>x \<in> {..<n} - {a}. g (F x))" by (rule sum.cong) auto
  ultimately show ?thesis by simp
qed

lemma tally_pos: "a < n \<Longrightarrow> g (F a) \<ge> 1 \<Longrightarrow> (\<And>x. g x \<ge> 0) \<Longrightarrow> tally g n F \<ge> 1"
  using member_le_sum[of a "{..<n}" "\<lambda>x. g (F x)"] by (simp add: tally_def)

lemma tally_nonneg: "(\<And>x. g x \<ge> 0) \<Longrightarrow> tally g n F \<ge> 0"
  by (simp add: tally_def sum_nonneg)

text \<open>The descriptors of all processes that refer to a file, and the files and processes that refer to an inode.\<close>

definition refers :: "nat \<Rightarrow> (nat \<Rightarrow> nat option) \<Rightarrow> int" where
  "refers f = tally (\<lambda>x. of_bool (x = Some f)) NOFILE"

definition holders :: "fsys \<Rightarrow> nat \<Rightarrow> int" where
  "holders s f = tally (refers f) NPROC (fds s)"

definition inode_file :: "nat \<Rightarrow> kfile \<Rightarrow> bool" where
  "inode_file i x \<longleftrightarrow> (f_type x = FD_INODE \<or> f_type x = FD_DEVICE) \<and> f_ip x = i"

definition inode_users :: "fsys \<Rightarrow> nat \<Rightarrow> int" where
  "inode_users s i = tally (\<lambda>x. of_bool (inode_file i x)) NFILE (ftable s) + tally (\<lambda>x. of_bool (x = Some i)) NPROC (cwds s)"

definition pipe_end :: "fsys \<Rightarrow> nat \<Rightarrow> bool \<Rightarrow> bool" where
  "pipe_end s pi w = (case pipes s pi of None \<Rightarrow> False | Some (r, wo) \<Rightarrow> if w then wo else r)"

definition end_file :: "nat \<Rightarrow> bool \<Rightarrow> kfile \<Rightarrow> bool" where
  "end_file pi w x \<longleftrightarrow> f_type x = FD_PIPE \<and> f_pipe x = pi \<and> writable x = w"

definition end_files :: "fsys \<Rightarrow> nat \<Rightarrow> bool \<Rightarrow> int" where
  "end_files s pi w = tally (\<lambda>x. of_bool (end_file pi w x)) NFILE (ftable s)"

lemma refers_nonneg: "refers f F \<ge> 0"
  by (simp add: refers_def tally_nonneg)

lemma refers_pos: "F fd = Some f \<Longrightarrow> fd < NOFILE \<Longrightarrow> refers f F \<ge> 1"
  unfolding refers_def by (rule tally_pos[of fd]) simp_all

text \<open>
  The invariant of the tables while the calls in progress hold \<open>h f\<close> references to the file \<open>f\<close>,
  \<open>k i\<close> references to the inode \<open>i\<close> and \<open>e pi w\<close> references to the end \<open>w\<close> of the pipe \<open>pi\<close> that are not
  in a table.
\<close>

definition files_inv :: "fsys \<Rightarrow> (nat \<Rightarrow> int) \<Rightarrow> (nat \<Rightarrow> int) \<Rightarrow> (nat \<Rightarrow> bool \<Rightarrow> int) \<Rightarrow> bool" where
  "files_inv s h k e \<longleftrightarrow>
    (\<forall>f < NFILE. f_ref (ftable s f) = holders s f + h f) \<and>
    (\<forall>p fd f. fds s p fd = Some f \<longrightarrow> p < NPROC \<and> fd < NOFILE \<and> f < NFILE) \<and>
    (\<forall>f < NFILE. f_ref (ftable s f) = 0 \<longrightarrow> f_type (ftable s f) = FD_NONE) \<and>
    (\<forall>pi w. of_bool (pipe_end s pi w) = end_files s pi w + e pi w) \<and>
    (\<forall>pi. pipes s pi \<noteq> Some (False, False)) \<and>
    (\<forall>i. iref s i = inode_users s i + k i)"

lemma files_invD:
  assumes "files_inv s h k e"
  shows "f < NFILE \<Longrightarrow> f_ref (ftable s f) = holders s f + h f"
    and "fds s p fd = Some f \<Longrightarrow> p < NPROC \<and> fd < NOFILE \<and> f < NFILE"
    and "f < NFILE \<Longrightarrow> f_ref (ftable s f) = 0 \<Longrightarrow> f_type (ftable s f) = FD_NONE"
    and "of_bool (pipe_end s pi w) = end_files s pi w + e pi w"
    and "pipes s pi \<noteq> Some (False, False)"
    and "iref s i = inode_users s i + k i"
  using assms unfolding files_inv_def by blast+

section \<open>What each operation does to the counts\<close>

lemma fsys_upd_simps [simp]:
  "ftable (set_file f x s) = (ftable s)(f := x)" "fds (set_file f x s) = fds s" "cwds (set_file f x s) = cwds s"
  "pipes (set_file f x s) = pipes s" "iref (set_file f x s) = iref s" "debts (set_file f x s) = debts s" "point (set_file f x s) = point s"
  "ftable (set_fd p fd y s) = ftable s" "fds (set_fd p fd y s) = (fds s)(p := (fds s p)(fd := y))"
  "cwds (set_fd p fd y s) = cwds s" "pipes (set_fd p fd y s) = pipes s" "iref (set_fd p fd y s) = iref s"
  "debts (set_fd p fd y s) = debts s" "point (set_fd p fd y s) = point s"
  "ftable (idup_ref i s) = ftable s" "fds (idup_ref i s) = fds s" "cwds (idup_ref i s) = cwds s" "pipes (idup_ref i s) = pipes s"
  "iref (idup_ref i s) = (iref s)(i := iref s i + 1)" "debts (idup_ref i s) = debts s" "point (idup_ref i s) = point s"
  "ftable (iput_ref i s) = ftable s" "fds (iput_ref i s) = fds s" "cwds (iput_ref i s) = cwds s" "pipes (iput_ref i s) = pipes s"
  "iref (iput_ref i s) = (iref s)(i := iref s i - 1)" "debts (iput_ref i s) = debts s" "point (iput_ref i s) = point s"
  "ftable (set_cwd p y s) = ftable s" "fds (set_cwd p y s) = fds s" "cwds (set_cwd p y s) = (cwds s)(p := y)" "pipes (set_cwd p y s) = pipes s"
  "iref (set_cwd p y s) = iref s" "debts (set_cwd p y s) = debts s" "point (set_cwd p y s) = point s"
  "ftable (goto p pt s) = ftable s" "fds (goto p pt s) = fds s" "cwds (goto p pt s) = cwds s" "pipes (goto p pt s) = pipes s"
  "iref (goto p pt s) = iref s" "debts (goto p pt s) = debts s" "point (goto p pt s) = (point s)(p := pt)"
  "ftable (owe p ds s) = ftable s" "fds (owe p ds s) = fds s" "cwds (owe p ds s) = cwds s" "pipes (owe p ds s) = pipes s"
  "iref (owe p ds s) = iref s" "debts (owe p ds s) = (debts s)(p := ds @ debts s p)" "point (owe p ds s) = point s"
  by (simp_all add: set_file_def set_fd_def idup_ref_def iput_ref_def set_cwd_def goto_def owe_def)

lemma files_inv_flow [simp]:
  "files_inv (goto p pt s) h k e = files_inv s h k e" "files_inv (owe p ds s) h k e = files_inv s h k e"
  "files_inv (s\<lparr>debts := ds'\<rparr>) h k e = files_inv s h k e"
  by (simp_all add: files_inv_def holders_def inode_users_def pipe_end_def end_files_def)

lemma hand_eq: "files_inv s h k e \<Longrightarrow> h = h' \<Longrightarrow> k = k' \<Longrightarrow> e = e' \<Longrightarrow> files_inv s h' k' e'"
  by simp

lemma holders_set_fd:
  assumes "p < NPROC" "fd < NOFILE"
  shows "holders (set_fd p fd y s) f = holders s f - of_bool (fds s p fd = Some f) + of_bool (y = Some f)"
  unfolding holders_def refers_def using assms by (simp add: tally_upd)

lemma holders_cong: "fds s' = fds s \<Longrightarrow> holders s' f = holders s f"
  by (simp add: holders_def)

text \<open>Storing a descriptor moves a reference from the hand to the table, clearing one takes it back.\<close>

lemma set_fd_inv:
  assumes I: "files_inv s h k e" and p: "p < NPROC" "fd < NOFILE" and y: "\<And>f. y = Some f \<Longrightarrow> f < NFILE"
  shows "files_inv (set_fd p fd y s) (\<lambda>f. h f + of_bool (fds s p fd = Some f) - of_bool (y = Some f)) k e"
proof -
  have "inode_users (set_fd p fd y s) i = inode_users s i" "end_files (set_fd p fd y s) pi w = end_files s pi w" for i pi w
    by (simp_all add: inode_users_def end_files_def)
  then show ?thesis
    using I p y unfolding files_inv_def pipe_end_def by (simp add: holders_set_fd)
qed

text \<open>A change of a file entry that keeps what it refers to, and so only moves references in the hand.\<close>

lemma set_ref_inv:
  assumes I: "files_inv s h k e" and f: "f < NFILE" and r: "r \<noteq> 0 \<or> f_type (ftable s f) = FD_NONE"
  shows "files_inv (set_file f ((ftable s f)\<lparr>f_ref := r\<rparr>) s) (h(f := r - holders s f)) k e"
proof -
  let ?s = "set_file f ((ftable s f)\<lparr>f_ref := r\<rparr>) s"
  have e: "end_files ?s pi w = end_files s pi w" for pi w
    using f by (simp add: end_files_def tally_upd end_file_def)
  have i: "inode_users ?s j = inode_users s j" for j
    using f by (simp add: inode_users_def tally_upd inode_file_def)
  have h: "holders ?s g = holders s g" for g by (rule holders_cong) simp
  show ?thesis
    using files_invD[OF I] f r unfolding files_inv_def e i h pipe_end_def by auto
qed

lemma filealloc_inv:
  assumes I: "files_inv s h k e" and a: "filealloc s = (x, s')"
  shows "case x of None \<Rightarrow> s' = s
    | Some f \<Rightarrow> files_inv s' (h(f := h f + 1)) k e \<and> f < NFILE \<and> f_ref (ftable s f) = 0 \<and>
        s' = set_file f ((ftable s f)\<lparr>f_ref := 1\<rparr>) s \<and> f_type (ftable s f) = FD_NONE"
proof (cases "find (\<lambda>f. f_ref (ftable s f) = 0) [0..<NFILE]")
  case None
  then show ?thesis using a by (auto simp: filealloc_def)
next
  case (Some f)
  then have f: "f < NFILE" "f_ref (ftable s f) = 0" by (auto simp: find_Some_iff)
  have t: "f_type (ftable s f) = FD_NONE" by (rule files_invD(3)[OF I f])
  have z: "h f = - holders s f" using files_invD(1)[OF I f(1)] f(2) by linarith
  have e: "x = Some f" "s' = set_file f ((ftable s f)\<lparr>f_ref := 1\<rparr>) s" using a Some by (auto simp: filealloc_def)
  have "files_inv s' (h(f := h f + 1)) k e" using set_ref_inv[OF I f(1), of 1] z by (simp add: e(2) add.commute)
  then show ?thesis using f t by (simp add: e)
qed

lemma filedup_inv:
  assumes I: "files_inv s h k e" and f: "f < NFILE" "f_ref (ftable s f) \<ge> 1"
  shows "filedup f s = Inr (set_file f ((ftable s f)\<lparr>f_ref := f_ref (ftable s f) + 1\<rparr>) s)"
    "files_inv (set_file f ((ftable s f)\<lparr>f_ref := f_ref (ftable s f) + 1\<rparr>) s) (h(f := h f + 1)) k e"
  using set_ref_inv[OF I f(1), of "f_ref (ftable s f) + 1"] f(2) files_invD(1)[OF I f(1)]
  by (auto simp: filedup_def algebra_simps)

lemma close_end_effect:
  assumes "pipes s pi \<noteq> None"
  shows "\<exists>y. close_end pi w s = Inr (s\<lparr>pipes := (pipes s)(pi := y)\<rparr>) \<and> y \<noteq> Some (False, False) \<and>
    (\<forall>pi' w'. pipe_end (s\<lparr>pipes := (pipes s)(pi := y)\<rparr>) pi' w' \<longleftrightarrow> pipe_end s pi' w' \<and> (pi', w') \<noteq> (pi, w))"
proof -
  obtain r wo where "pipes s pi = Some (r, wo)" using assms by auto
  then show ?thesis by (cases w) (auto simp: close_end_def pipe_end_def)
qed

text \<open>
  The first part of \<^verbatim>\<open>fileclose\<close> takes a reference to the file; with the last one what the file referred
  to passes into the hand.
\<close>

definition debt_inodes :: "nat \<Rightarrow> debt \<Rightarrow> int" where
  "debt_inodes i d = (case d of EndClose x \<Rightarrow> of_bool (inode_file i x) | PutInode j \<Rightarrow> of_bool (i = j) | _ \<Rightarrow> 0)"

definition debt_ends :: "nat \<Rightarrow> bool \<Rightarrow> debt \<Rightarrow> int" where
  "debt_ends pi w d = (case d of EndClose x \<Rightarrow> of_bool (end_file pi w x) | _ \<Rightarrow> 0)"

definition debt_files :: "nat \<Rightarrow> debt \<Rightarrow> int" where
  "debt_files f d = (case d of CloseFile g \<Rightarrow> of_bool (f = g) | _ \<Rightarrow> 0)"

lemmas debt_defs = debt_inodes_def debt_ends_def debt_files_def

definition owed :: "(debt \<Rightarrow> int) \<Rightarrow> debt list \<Rightarrow> int" where
  "owed g ds = sum_list (map g ds)"

lemma owed_simps [simp]: "owed g [] = 0" "owed g (d # ds) = g d + owed g ds" "owed g (ds @ ds') = owed g ds + owed g ds'"
  by (simp_all add: owed_def)

lemma owed_nonneg: "(\<And>d. g d \<ge> 0) \<Longrightarrow> owed g ds \<ge> 0"
  by (induction ds) (simp_all add: add_nonneg_nonneg)

lemma debt_nonneg [simp]: "debt_inodes i d \<ge> 0" "debt_ends pi w d \<ge> 0" "debt_files f d \<ge> 0"
  by (cases d; simp add: debt_defs)+

lemma fileclose_inv:
  assumes I: "files_inv s h k e" and f: "f < NFILE" "f_ref (ftable s f) \<ge> 1"
  shows "\<exists>ds x. fileclose me f s = Inr (owe me ds (set_file f x s)) \<and> (\<forall>d \<in> set ds. \<exists>y. d = EndClose y) \<and>
    files_inv (owe me ds (set_file f x s)) (h(f := h f - 1)) (\<lambda>i. k i + owed (debt_inodes i) ds) (\<lambda>pi w. e pi w + owed (debt_ends pi w) ds)"
proof (cases "f_ref (ftable s f) = 1")
  case False
  let ?x = "(ftable s f)\<lparr>f_ref := f_ref (ftable s f) - 1\<rparr>"
  have "fileclose me f s = Inr (owe me [] (set_file f ?x s))"
    using False f(2) by (simp add: fileclose_def Let_def owe_def set_file_def)
  moreover have "files_inv (set_file f ?x s) (h(f := h f - 1)) k e"
    using set_ref_inv[OF I f(1), of "f_ref (ftable s f) - 1"] False files_invD(1)[OF I f(1)] by (simp add: algebra_simps)
  ultimately show ?thesis by (intro exI[of _ "[]"] exI[of _ ?x]) simp
next
  case True
  let ?x = "(ftable s f)\<lparr>f_ref := 0, f_type := FD_NONE\<rparr>" and ?d = "EndClose ((ftable s f)\<lparr>f_ref := 0\<rparr>)"
  let ?s = "set_file f ?x s"
  note D = files_invD[OF I]
  have "fileclose me f s = Inr (owe me [?d] ?s)"
    using True by (simp add: fileclose_def Let_def set_file_def)
  moreover have "files_inv ?s (h(f := h f - 1)) (\<lambda>i. k i + debt_inodes i ?d) (\<lambda>pi w. e pi w + debt_ends pi w ?d)"
  proof -
    have hold: "holders ?s g = holders s g" for g by (rule holders_cong) simp
    have ends: "end_files ?s pi w = end_files s pi w - debt_ends pi w ?d" for pi w
      using f(1) by (simp add: end_files_def tally_upd end_file_def debt_ends_def)
    have users: "inode_users ?s i = inode_users s i - debt_inodes i ?d" for i
      using f(1) by (simp add: inode_users_def tally_upd inode_file_def debt_inodes_def)
    have "f_ref (ftable ?s g) = holders ?s g + (h(f := h f - 1)) g" if "g < NFILE" for g
      using D(1)[OF that] True by (auto simp: hold)
    moreover have "f_ref (ftable ?s g) = 0 \<longrightarrow> f_type (ftable ?s g) = FD_NONE" if "g < NFILE" for g
      using D(3)[OF that] by simp
    moreover have "pipe_end ?s = pipe_end s" by (simp add: fun_eq_iff pipe_end_def)
    ultimately show ?thesis unfolding files_inv_def ends users using D(2, 4, 5, 6) by simp
  qed
  ultimately show ?thesis by (intro exI[of _ "[?d]"] exI[of _ ?x]) simp
qed

lemma iput_inv: "files_inv s h k e \<Longrightarrow> files_inv (iput_ref i s) h (k(i := k i - 1)) e"
  and idup_inv: "files_inv s h k e \<Longrightarrow> files_inv (idup_ref i s) h (k(i := k i + 1)) e"
  by (simp_all add: files_inv_def holders_def inode_users_def pipe_end_def end_files_def)

lemma end_close_inv:
  assumes I: "files_inv s h k e" and e: "\<And>pi w. end_file pi w x \<Longrightarrow> e pi w \<ge> 1"
  shows "\<exists>s'. end_close x s = Inr s' \<and> ftable s' = ftable s \<and> fds s' = fds s \<and> cwds s' = cwds s \<and> debts s' = debts s \<and> point s' = point s \<and>
    files_inv s' h (\<lambda>i. k i - of_bool (inode_file i x)) (\<lambda>pi w. e pi w - of_bool (end_file pi w x))"
proof (cases "f_type x = FD_PIPE")
  case True
  let ?pi = "f_pipe x" and ?w = "writable x"
  have "end_files s ?pi ?w \<ge> 0" by (simp add: end_files_def tally_nonneg)
  then have "pipe_end s ?pi ?w" using files_invD(4)[OF I, of ?pi ?w] e[of ?pi ?w] True by (cases "pipe_end s ?pi ?w") (simp_all add: end_file_def)
  then have "pipes s ?pi \<noteq> None" by (cases "pipes s ?pi") (simp_all add: pipe_end_def)
  from close_end_effect[OF this, of ?w] obtain y where y: "close_end ?pi ?w s = Inr (s\<lparr>pipes := (pipes s)(?pi := y)\<rparr>)" "y \<noteq> Some (False, False)"
    "\<And>pi' w'. pipe_end (s\<lparr>pipes := (pipes s)(?pi := y)\<rparr>) pi' w' \<longleftrightarrow> pipe_end s pi' w' \<and> (pi', w') \<noteq> (?pi, ?w)" by blast
  let ?s = "s\<lparr>pipes := (pipes s)(?pi := y)\<rparr>"
  have ends: "end_file pi w x \<longleftrightarrow> (pi, w) = (?pi, ?w)" for pi w using True by (auto simp: end_file_def)
  have "of_bool (pipe_end ?s pi w) = end_files ?s pi w + (e pi w - of_bool (end_file pi w x))" for pi w
  proof -
    have "end_files ?s pi w = end_files s pi w" by (simp add: end_files_def)
    then show ?thesis
      using files_invD(4)[OF I, of pi w] \<open>pipe_end s ?pi ?w\<close> unfolding y(3) ends by auto
  qed
  moreover have "inode_users ?s = inode_users s" "holders ?s = holders s" by (simp_all add: fun_eq_iff inode_users_def holders_def)
  moreover have "\<not> inode_file i x" for i using True by (simp add: inode_file_def)
  ultimately have "files_inv ?s h (\<lambda>i. k i - of_bool (inode_file i x)) (\<lambda>pi w. e pi w - of_bool (end_file pi w x))"
    using files_invD(1, 2, 3, 5, 6)[OF I] y(2) unfolding files_inv_def by auto
  then show ?thesis using True y(1) by (simp add: end_close_def)
next
  case False
  then have noend: "end_file pi w x = False" for pi w by (simp add: end_file_def)
  have one: "(\<lambda>i. k i - of_bool (i = j)) = k(j := k j - 1)" for j by (simp add: fun_eq_iff)
  show ?thesis
  proof (cases "f_type x = FD_NONE")
    case True
    then show ?thesis using I by (simp add: end_close_def noend inode_file_def)
  next
    case n: False
    with False have "f_type x = FD_INODE \<or> f_type x = FD_DEVICE" by (cases "f_type x") auto
    then show ?thesis
      using iput_inv[OF I, of "f_ip x"] False by (simp add: end_close_def noend inode_file_def eq_commute[of "f_ip x"] one)
  qed
qed

lemma set_cwd_inv:
  assumes I: "files_inv s h k e" and p: "p < NPROC"
  shows "files_inv (set_cwd p y s) h (\<lambda>i. k i + of_bool (cwds s p = Some i) - of_bool (y = Some i)) e"
proof -
  let ?s = "set_cwd p y s"
  have "inode_users ?s i = inode_users s i - of_bool (cwds s p = Some i) + of_bool (y = Some i)" for i
    using p by (simp add: inode_users_def tally_upd)
  moreover have "holders ?s = holders s" "pipe_end ?s = pipe_end s" "end_files ?s = end_files s"
    by (simp_all add: fun_eq_iff holders_def pipe_end_def end_files_def)
  ultimately show ?thesis using I by (simp add: files_inv_def)
qed

section \<open>What the calls in progress hold\<close>

definition point_files :: "point \<Rightarrow> (nat \<Rightarrow> nat option) \<Rightarrow> nat \<Rightarrow> int" where
  "point_files x F f =
    (case x of Clearing fd \<Rightarrow> - of_bool (F fd = Some f) | OneEnd f0 _ \<Rightarrow> of_bool (f = f0)
     | TwoEnds f0 f1 _ \<Rightarrow> of_bool (f = f0) + of_bool (f = f1) | _ \<Rightarrow> 0)"

definition point_inodes :: "point \<Rightarrow> nat \<Rightarrow> int" where
  "point_inodes x i = (case x of Opening _ ip _ _ \<Rightarrow> of_bool (i = ip) | ChangingDir ip _ \<Rightarrow> of_bool (i = ip) | _ \<Rightarrow> 0)"

text \<open>
  The references of one process outside the tables: the files it is about to close or has just
  allocated, less the one of a descriptor whose file it has closed and which it has yet to clear; the
  inodes and the pipe ends it is about to give up or use.
\<close>

definition hand :: "fsys \<Rightarrow> nat \<Rightarrow> nat \<Rightarrow> int" where
  "hand s p f = owed (debt_files f) (debts s p) + point_files (point s p) (fds s p) f"

definition hand_inodes :: "fsys \<Rightarrow> nat \<Rightarrow> nat \<Rightarrow> int" where
  "hand_inodes s p i = owed (debt_inodes i) (debts s p) + point_inodes (point s p) i"

definition hand_ends :: "fsys \<Rightarrow> nat \<Rightarrow> nat \<Rightarrow> bool \<Rightarrow> int" where
  "hand_ends s p pi w = owed (debt_ends pi w) (debts s p)"

definition in_hand :: "fsys \<Rightarrow> nat \<Rightarrow> int" where
  "in_hand s f = (\<Sum>p<NPROC. hand s p f)"

definition inodes_in_hand :: "fsys \<Rightarrow> nat \<Rightarrow> int" where
  "inodes_in_hand s i = (\<Sum>p<NPROC. hand_inodes s p i)"

definition ends_in_hand :: "fsys \<Rightarrow> nat \<Rightarrow> bool \<Rightarrow> int" where
  "ends_in_hand s pi w = (\<Sum>p<NPROC. hand_ends s p pi w)"

lemmas hand_defs = hand_def hand_inodes_def hand_ends_def point_files_def point_inodes_def

text \<open>A file that only its creator knows.\<close>

definition fresh :: "fsys \<Rightarrow> nat \<Rightarrow> bool" where
  "fresh s f \<longleftrightarrow> f < NFILE \<and> f_type (ftable s f) = FD_NONE \<and> f_ref (ftable s f) = 1"

definition here :: "fsys \<Rightarrow> nat \<Rightarrow> bool" where
  "here s p \<longleftrightarrow> (debts s p \<noteq> [] \<longrightarrow> point s p \<in> range Returning \<union> range Clearing) \<and> (point s p \<noteq> User \<longrightarrow> cwds s p \<noteq> None) \<and>
    (\<forall>f. CloseFile f \<in> set (debts s p) \<longrightarrow> f < NFILE) \<and>
    (case point s p of
       OneEnd f0 _ \<Rightarrow> fresh s f0
     | TwoEnds f0 f1 _ \<Rightarrow> fresh s f0 \<and> fresh s f1 \<and> f0 \<noteq> f1
     | Forking np i _ \<Rightarrow> np < NPROC \<and> cwds s np = None \<and> point s np = User \<and> (\<forall>j \<ge> i. fds s np j = None) \<and>
         (\<forall>q j v. point s q = Forking np j v \<longrightarrow> q = p)
     | _ \<Rightarrow> True)"

definition conf_ok :: "fsys \<Rightarrow> bool" where
  "conf_ok s \<longleftrightarrow> files_inv s (in_hand s) (inodes_in_hand s) (ends_in_hand s) \<and>
    (\<forall>p. here s p \<and> (point s p \<noteq> User \<longrightarrow> p < NPROC))"

lemma conf_okD:
  assumes "conf_ok s"
  shows "files_inv s (in_hand s) (inodes_in_hand s) (ends_in_hand s)" "here s p" "point s p \<noteq> User \<Longrightarrow> p < NPROC"
  using assms unfolding conf_ok_def by blast+

definition own :: "fsys \<Rightarrow> nat \<Rightarrow> nat \<Rightarrow> int" where
  "own s p f = refers f (fds s p) + hand s p f"

lemma own_ge:
  assumes "conf_ok s"
  shows "own s p f \<ge> owed (debt_files f) (debts s p) + of_bool (point s p \<in> range (OneEnd f)) +
    of_bool (\<exists>g c. point s p = TwoEnds f g c) + of_bool (\<exists>g c. point s p = TwoEnds g f c)"
proof (cases "point s p")
  case (Clearing fd)
  have "refers f (fds s p) \<ge> of_bool (fds s p fd = Some f)"
    using refers_pos[of "fds s p" fd f] files_invD(2)[OF conf_okD(1)[OF assms], of p fd f] refers_nonneg[of f "fds s p"] by auto
  then show ?thesis using Clearing by (simp add: own_def hand_defs image_iff)
qed (use refers_nonneg[of f "fds s p"] in \<open>auto simp: own_def hand_defs image_iff\<close>)

lemma own_ge_owed: "conf_ok s \<Longrightarrow> own s p f \<ge> owed (debt_files f) (debts s p)"
  by (rule order_trans[OF _ own_ge]) (simp_all add: of_bool_def)

lemma own_nonneg: "conf_ok s \<Longrightarrow> own s p f \<ge> 0"
  using own_ge_owed[of s f p] owed_nonneg[of "debt_files f" "debts s p"] by simp

lemma ref_own: "conf_ok s \<Longrightarrow> f < NFILE \<Longrightarrow> f_ref (ftable s f) = (\<Sum>p<NPROC. own s p f)"
  using files_invD(1)[OF conf_okD(1)] by (simp add: own_def sum.distrib holders_def tally_def in_hand_def)

lemma ref_pos:
  assumes "conf_ok s" "f < NFILE" "p < NPROC" "own s p f \<ge> 1"
  shows "f_ref (ftable s f) \<ge> 1"
  using member_le_sum[of p "{..<NPROC}" "\<lambda>p. own s p f"] own_nonneg[OF assms(1)] ref_own[OF assms(1, 2)] assms(3, 4) by auto

lemma own_fresh:
  assumes C: "conf_ok s" and f: "fresh s f" "q < NPROC" "own s q f \<ge> 1" and p: "p < NPROC" "p \<noteq> q"
  shows "own s p f = 0"
proof -
  have "(\<Sum>x \<in> {p, q}. own s x f) \<le> (\<Sum>x<NPROC. own s x f)"
    using f(2) p(1) own_nonneg[OF C] by (intro sum_mono2) auto
  then have "own s p f + own s q f \<le> 1" using ref_own[OF C, of f] f(1) p(2) by (simp add: fresh_def)
  then show ?thesis using own_nonneg[OF C, of p f] f(3) by linarith
qed

lemma sum_change:
  fixes F G :: "nat \<Rightarrow> int"
  assumes "p < n" "\<And>q. q \<noteq> p \<Longrightarrow> G q = F q"
  shows "sum G {..<n} = sum F {..<n} - F p + G p"
proof -
  have "sum H {..<n} = H p + sum H ({..<n} - {p})" for H :: "nat \<Rightarrow> int" using assms(1) by (intro sum.remove) auto
  moreover have "sum G ({..<n} - {p}) = sum F ({..<n} - {p})" using assms(2) by (intro sum.cong) auto
  ultimately show ?thesis by simp
qed

text \<open>
  One step of process \<open>p\<close>: it changes its own place and, when it forks, the entry of its child; the
  files only it knows and the children of others are not concerned.
\<close>

lemma conf_step:
  assumes C: "conf_ok s" and p: "p < NPROC" "cwds s p \<noteq> None"
    and F: "files_inv s' h k e"
    and same: "\<And>q. q \<noteq> p \<Longrightarrow> debts s' q = debts s q \<and> point s' q = point s q"
    and tabs: "\<And>q. q \<noteq> p \<Longrightarrow> q \<notin> X \<Longrightarrow> fds s' q = fds s q \<and> cwds s' q = cwds s q"
    and X: "\<And>x. x \<in> X \<Longrightarrow> x \<noteq> p \<and> point s x = User \<and> (\<forall>q i v. q \<noteq> p \<longrightarrow> point s q \<noteq> Forking x i v)"
    and h: "\<And>f. h f = in_hand s f - hand s p f + hand s' p f"
    and k: "\<And>i. k i = inodes_in_hand s i - hand_inodes s p i + hand_inodes s' p i"
    and e: "\<And>pi w. e pi w = ends_in_hand s pi w - hand_ends s p pi w + hand_ends s' p pi w"
    and touch: "\<And>f. f < NFILE \<Longrightarrow> f_ref (ftable s f) \<noteq> 0 \<Longrightarrow> own s p f = 0 \<Longrightarrow> ftable s' f = ftable s f"
    and now: "here s' p"
  shows "conf_ok s'"
proof -
  have hq: "hand s' q f = hand s q f" if "q \<noteq> p" for q f
    using same[OF that] tabs[OF that] X[of q] by (cases "q \<in> X") (auto simp: hand_defs)
  have "h = in_hand s'" "k = inodes_in_hand s'" "e = ends_in_hand s'"
    unfolding h[abs_def] k[abs_def] e[abs_def] fun_eq_iff in_hand_def inodes_in_hand_def ends_in_hand_def
    using sum_change[OF p(1), of "\<lambda>q. hand s' q _" "\<lambda>q. hand s q _", OF hq]
      sum_change[OF p(1), of "\<lambda>q. hand_inodes s' q _" "\<lambda>q. hand_inodes s q _"]
      sum_change[OF p(1), of "\<lambda>q. hand_ends s' q _ _" "\<lambda>q. hand_ends s q _ _"] same
    by (simp_all add: hand_inodes_def hand_ends_def)
  moreover have "here s' q \<and> (point s' q \<noteq> User \<longrightarrow> q < NPROC)" for q
  proof (cases "q = p")
    case False
    note S = same[OF False] and H = conf_okD(2)[OF C, of q]
    have c: "cwds s' q \<noteq> None" if "point s q \<noteq> User"
      using tabs[OF False] X[of q] that H by (cases "q \<in> X") (auto simp: here_def)
    have fresh: "fresh s' f" if "fresh s f" "own s q f \<ge> 1" "point s q \<noteq> User" for f
      using touch[of f] own_fresh[OF C that(1) _ that(2) p(1)] False conf_okD(3)[OF C that(3)] that(1) by (simp add: fresh_def)
    have own: "own s q f \<ge> 1" if "point s q \<in> range (OneEnd f) \<or> (\<exists>g c. point s q = TwoEnds f g c) \<or> (\<exists>g c. point s q = TwoEnds g f c)" for f
      using own_ge[OF C, of f q] owed_nonneg[of "debt_files f" "debts s q"] that by (auto simp: of_bool_def split: if_splits)
    have "here s' q"
    proof (cases "point s q")
      case (OneEnd f0 c')
      then show ?thesis using H S c fresh[of f0] own[of f0] by (simp add: here_def)
    next
      case (TwoEnds f0 f1 c')
      then show ?thesis using H S c fresh[of f0] fresh[of f1] own[of f0] own[of f1] by (simp add: here_def)
    next
      case (Forking np i v)
      then have n: "np < NPROC" "cwds s np = None" "point s np = User" "\<forall>j \<ge> i. fds s np j = None" "\<forall>r j v. point s r = Forking np j v \<longrightarrow> r = q"
        using H by (auto simp: here_def)
      have np: "np \<noteq> p" "np \<notin> X" using n(2) p(2) X[of np] Forking False by auto
      have uniq: "r = q" if "point s' r = Forking np j w" for r j w
      proof (cases "r = p")
        case True
        then have "q = p" using now S Forking that unfolding here_def by auto
        then show ?thesis using False by simp
      qed (use that n(5) same[of r] in auto)
      have pt: "point s' q = Forking np i v" and ds: "debts s' q = debts s q" using S Forking by simp_all
      have "cwds s' np = None" "point s' np = User" "\<forall>j \<ge> i. fds s' np j = None"
        using n tabs[OF np] same[OF np(1)] by simp_all
      moreover have "cwds s' q \<noteq> None" using c Forking by simp
      moreover have "\<forall>f. CloseFile f \<in> set (debts s q) \<longrightarrow> f < NFILE" "debts s q = []"
        using H Forking by (auto simp: here_def)
      ultimately show ?thesis unfolding here_def pt ds point.case using n(1) uniq by blast
    qed (use H S c in \<open>simp_all add: here_def\<close>)
    then show ?thesis using S conf_okD(3)[OF C, of q] by simp
  qed (use now p(1) in simp)
  ultimately show ?thesis using F unfolding conf_ok_def by blast
qed

section \<open>Every step keeps the counts exact\<close>

lemma fdalloc_inv:
  assumes I: "files_inv s h k e" and me: "me < NPROC" and f: "f < NFILE" and a: "fdalloc me f s = (fd, s')"
  shows "fd = -1 \<and> s' = s \<or>
    (\<exists>n < NOFILE. fd = int n \<and> fds s me n = None \<and> s' = set_fd me n (Some f) s \<and> files_inv s' (h(f := h f - 1)) k e)"
proof (cases "find (\<lambda>fd. fds s me fd = None) [0..<NOFILE]")
  case None
  then show ?thesis using a by (simp add: fdalloc_def)
next
  case (Some n)
  then have n: "n < NOFILE" "fds s me n = None" by (auto simp: find_Some_iff)
  have "files_inv (set_fd me n (Some f) s) (h(f := h f - 1)) k e"
    by (rule hand_eq[OF set_fd_inv[OF I me n(1)]]) (use n(2) f in auto)
  then show ?thesis using a Some n by (auto simp: fdalloc_def)
qed

lemma take_fd_inv:
  assumes I: "files_inv s h k e" and f: "fds s me n = Some f"
  shows "files_inv (set_fd me n None s) (h(f := h f + 1)) k e"
  using files_invD(2)[OF I f] by (intro hand_eq[OF set_fd_inv[OF I]]) (auto simp: f)

lemma argfd_Some: "argfd me fd s = Some f \<Longrightarrow> fds s me (nat fd) = Some f"
  by (simp add: argfd_def split: if_splits)

text \<open>A process that is in no call, or has only made its way through one, owns its descriptors' references.\<close>

lemma held:
  assumes C: "conf_ok s" and f: "fds s p fd = Some f" and d: "debts s p = []" "\<forall>n. point s p \<noteq> Clearing n"
  shows "own s p f \<ge> 1" "f_ref (ftable s f) \<ge> 1" "f < NFILE" "p < NPROC" "fd < NOFILE"
proof -
  have B: "p < NPROC \<and> fd < NOFILE \<and> f < NFILE" by (rule files_invD(2)[OF conf_okD(1)[OF C] f])
  have "point_files (point s p) (fds s p) f \<ge> 0" using d(2) by (cases "point s p") (auto simp: point_files_def)
  then show o: "own s p f \<ge> 1" using refers_pos[of "fds s p" fd f] f B d(1) by (simp add: own_def hand_def)
  show "f_ref (ftable s f) \<ge> 1" using ref_pos[OF C _ _ o] B by blast
  show "f < NFILE" "p < NPROC" "fd < NOFILE" using B by simp_all
qed

text \<open>A step that only moves the process on.\<close>

lemma goto_ok:
  assumes C: "conf_ok s" and p: "p < NPROC" "cwds s p \<noteq> None"
    and x: "\<And>f. point_files x (fds s p) f = point_files (point s p) (fds s p) f" "\<And>i. point_inodes x i = point_inodes (point s p) i"
    and now: "here (goto p x s) p"
  shows "conf_ok (goto p x s)"
proof (rule conf_step[OF C p, where X = "{}"])
  show "files_inv (goto p x s) (in_hand s) (inodes_in_hand s) (ends_in_hand s)" using conf_okD(1)[OF C] by simp
qed (use x now in \<open>auto simp: hand_def hand_inodes_def hand_ends_def\<close>)

lemma debts_nil: "conf_ok s \<Longrightarrow> point s p \<notin> range Returning \<union> range Clearing \<Longrightarrow> debts s p = []"
  using conf_okD(2)[of s p] by (auto simp: here_def)

lemma return_ok: "conf_ok s \<Longrightarrow> p < NPROC \<Longrightarrow> cwds s p \<noteq> None \<Longrightarrow> point s p = User \<Longrightarrow> conf_ok (goto p (Returning v) s)"
proof -
  assume a: "conf_ok s" "p < NPROC" "cwds s p \<noteq> None" "point s p = User"
  then have "debts s p = []" using debts_nil[of s p] by auto
  then show ?thesis using a by (intro goto_ok) (auto simp: hand_defs here_def)
qed

lemma sys_dup_ok:
  assumes C: "conf_ok s" and p: "p < NPROC" "cwds s p \<noteq> None" "point s p = User"
  shows "\<exists>s'. sys_dup p fd s = Inr s' \<and> conf_ok s'"
proof (cases "argfd p fd s")
  case None
  then show ?thesis using return_ok[OF C p] by (simp add: sys_dup_def)
next
  case (Some f)
  have d: "debts s p = []" using debts_nil[OF C, of p] p(3) by auto
  note H = held[OF C argfd_Some[OF Some] d] and I = conf_okD(1)[OF C]
  obtain r s1 where a: "fdalloc p f s = (r, s1)" by (cases "fdalloc p f s")
  have f: "f < NFILE" "f_ref (ftable s f) \<ge> 1" "own s p f \<ge> 1" using H p(3) by simp_all
  from fdalloc_inv[OF I p(1) f(1) a] show ?thesis
  proof (elim disjE exE conjE)
    fix n assume n: "r = int n" "s1 = set_fd p n (Some f) s" "files_inv s1 ((in_hand s)(f := in_hand s f - 1)) (inodes_in_hand s) (ends_in_hand s)"
    have r1: "f_ref (ftable s1 f) \<ge> 1" using f(2) n(2) by simp
    note F = filedup_inv[OF n(3) f(1) r1]
    let ?s = "goto p (Returning r) (set_file f ((ftable s1 f)\<lparr>f_ref := f_ref (ftable s1 f) + 1\<rparr>) s1)"
    have "conf_ok ?s"
    proof (rule conf_step[OF C p(1, 2), where X = "{}"])
      show "files_inv ?s ((in_hand s)(f := in_hand s f - 1, f := in_hand s f - 1 + 1)) (inodes_in_hand s) (ends_in_hand s)"
        using F(2) by simp
    qed (use f d p in \<open>auto simp: n(2) hand_defs here_def\<close>)
    then show ?thesis using Some a n(1) F(1) by (simp add: sys_dup_def)
  qed (use Some a return_ok[OF C p] in \<open>simp add: sys_dup_def\<close>)
qed

lemma owed_ends: "\<forall>d \<in> set ds. \<exists>y. d = EndClose y \<Longrightarrow> owed (debt_files f) ds = 0"
  by (induction ds) (auto simp: debt_files_def)

lemma sys_close_ok:
  assumes C: "conf_ok s" and p: "p < NPROC" "cwds s p \<noteq> None" "point s p = User"
  shows "\<exists>s'. sys_close p fd s = Inr s' \<and> conf_ok s'"
proof (cases "argfd p fd s")
  case None
  then show ?thesis using return_ok[OF C p] by (simp add: sys_close_def)
next
  case (Some f)
  have d: "debts s p = []" using debts_nil[OF C, of p] p(3) by auto
  note fd = argfd_Some[OF Some]
  have f: "f < NFILE" "f_ref (ftable s f) \<ge> 1" "own s p f \<ge> 1" using held[OF C fd d] p(3) by simp_all
  let ?t = "goto p (Returning 0) (set_fd p (nat fd) None s)"
  have F0: "files_inv ?t ((in_hand s)(f := in_hand s f + 1)) (inodes_in_hand s) (ends_in_hand s)"
    using take_fd_inv[OF conf_okD(1)[OF C] fd] by simp
  have "f_ref (ftable ?t f) \<ge> 1" using f(2) by simp
  from fileclose_inv[OF F0 f(1) this, of p] obtain ds x where run: "fileclose p f ?t = Inr (owe p ds (set_file f x ?t))"
    and ds: "\<forall>d \<in> set ds. \<exists>y. d = EndClose y"
    and F: "files_inv (owe p ds (set_file f x ?t)) ((in_hand s)(f := in_hand s f + 1, f := in_hand s f + 1 - 1))
      (\<lambda>i. inodes_in_hand s i + owed (debt_inodes i) ds) (\<lambda>pi w. ends_in_hand s pi w + owed (debt_ends pi w) ds)" by auto
  have "conf_ok (owe p ds (set_file f x ?t))"
    by (rule conf_step[OF C p(1, 2) F, where X = "{}"]) (use f d p ds owed_ends[OF ds] in \<open>auto simp: hand_defs here_def\<close>)
  then show ?thesis using Some run by (simp add: sys_close_def)
qed

lemma exit_files_ok:
  assumes C: "conf_ok s" and p: "point s p = Exiting fd"
  shows "\<exists>s'. exit_files p fd s = Inr s' \<and> conf_ok s'"
proof -
  have q: "p < NPROC" "cwds s p \<noteq> None" "debts s p = []" using conf_okD(2, 3)[OF C, of p] p by (auto simp: here_def)
  note I = conf_okD(1)[OF C]
  consider (free) "fd < NOFILE" "fds s p fd = None" | (close) f where "fd < NOFILE" "fds s p fd = Some f" | (last) "\<not> fd < NOFILE"
    by (cases "fds s p fd") auto
  then show ?thesis
  proof cases
    case free
    have "conf_ok (goto p (Exiting (fd + 1)) s)" using p q by (intro goto_ok[OF C]) (auto simp: hand_defs here_def)
    then show ?thesis using free by (simp add: exit_files_def)
  next
    case (close f)
    have f: "f < NFILE" "f_ref (ftable s f) \<ge> 1" "own s p f \<ge> 1" using held[OF C close(2) q(3)] p by simp_all
    let ?t = "goto p (Clearing fd) s"
    have F0: "files_inv ?t (in_hand s) (inodes_in_hand s) (ends_in_hand s)" "f_ref (ftable ?t f) \<ge> 1" using I f by simp_all
    from fileclose_inv[OF F0(1) f(1) F0(2), of p] obtain ds x where run: "fileclose p f ?t = Inr (owe p ds (set_file f x ?t))"
      and ds: "\<forall>d \<in> set ds. \<exists>y. d = EndClose y"
      and F: "files_inv (owe p ds (set_file f x ?t)) ((in_hand s)(f := in_hand s f - 1))
        (\<lambda>i. inodes_in_hand s i + owed (debt_inodes i) ds) (\<lambda>pi w. ends_in_hand s pi w + owed (debt_ends pi w) ds)" by auto
    have "conf_ok (owe p ds (set_file f x ?t))"
      by (rule conf_step[OF C q(1, 2) F, where X = "{}"]) (use f q p ds close owed_ends[OF ds] in \<open>auto simp: hand_defs here_def\<close>)
    then show ?thesis using close run by (simp add: exit_files_def)
  next
    case last
    obtain c where c: "cwds s p = Some c" using q(2) by auto
    let ?t = "goto p User (set_cwd p None (iput_ref c s))"
    have F: "files_inv ?t (in_hand s) (inodes_in_hand s) (ends_in_hand s)"
      using hand_eq[OF set_cwd_inv[OF iput_inv[OF I, of c] q(1), of None] refl _ refl, of "inodes_in_hand s"] c by (auto simp: fun_eq_iff)
    have "conf_ok ?t"
      by (rule conf_step[OF C q(1, 2) F, where X = "{}"]) (use q p in \<open>auto simp: hand_defs here_def\<close>)
    then show ?thesis using last c by (simp add: exit_files_def)
  qed
qed

lemma here_forking:
  assumes "point s p = Forking np i v" "debts s p = []" "cwds s p \<noteq> None" "np < NPROC" "cwds s np = None" "point s np = User"
    "\<forall>j \<ge> i. fds s np j = None" "\<And>q j w. point s q = Forking np j w \<Longrightarrow> q = p"
  shows "here s p"
  unfolding here_def assms(1) point.case by (intro conjI allI impI; (rule assms(3-7) | erule assms(8) | simp add: assms(2, 7)))

lemma fork_files_ok:
  assumes C: "conf_ok s" and p: "point s p = Forking np i v"
  shows "\<exists>s'. fork_files p np i v s = Inr s' \<and> conf_ok s'"
proof -
  have q: "p < NPROC" "cwds s p \<noteq> None" "debts s p = []" using conf_okD(2, 3)[OF C, of p] p by (auto simp: here_def)
  have n: "np < NPROC" "cwds s np = None" "point s np = User" "\<forall>j \<ge> i. fds s np j = None" "\<forall>r j v. point s r = Forking np j v \<longrightarrow> r = p"
    using conf_okD(2)[OF C, of p] p by (auto simp: here_def)
  have ne: "np \<noteq> p" using n(3) p by auto
  have uniq: "point s q = Forking np j w \<Longrightarrow> q = p" for q j w using n(5) by blast
  note I = conf_okD(1)[OF C]
  consider (free) "i < NOFILE" "fds s p i = None" | (dup) f where "i < NOFILE" "fds s p i = Some f" | (last) "\<not> i < NOFILE"
    by (cases "fds s p i") auto
  then show ?thesis
  proof cases
    case free
    have "conf_ok (goto p (Forking np (i + 1) v) s)"
    proof (rule goto_ok[OF C q(1, 2)])
      show "here (goto p (Forking np (i + 1) v) s) p"
        by (rule here_forking[of _ _ np "i + 1" v]) (use q n(1-4) ne in \<open>auto split: if_splits dest: uniq\<close>)
    qed (simp_all add: p hand_defs)
    then show ?thesis using free by (simp add: fork_files_def)
  next
    case (dup f)
    have f: "f < NFILE" "f_ref (ftable s f) \<ge> 1" "own s p f \<ge> 1" using held[OF C dup(2) q(3)] p by simp_all
    let ?u = "set_file f ((ftable s f)\<lparr>f_ref := f_ref (ftable s f) + 1\<rparr>) s"
    let ?t = "goto p (Forking np (i + 1) v) (set_fd np i (Some f) ?u)"
    note D = filedup_inv[OF I f(1, 2)]
    have F: "files_inv ?t (in_hand s) (inodes_in_hand s) (ends_in_hand s)"
      using hand_eq[OF set_fd_inv[OF D(2) n(1) dup(1), of "Some f"], of "in_hand s"] f(1) n(4) by (auto simp: fun_eq_iff)
    have "conf_ok ?t"
    proof (rule conf_step[OF C q(1, 2) F, where X = "{np}"])
      show "x \<noteq> p \<and> point s x = User \<and> (\<forall>q i v. q \<noteq> p \<longrightarrow> point s q \<noteq> Forking x i v)" if "x \<in> {np}" for x
        using that n(3, 5) ne by blast
      show "here ?t p" by (rule here_forking[of _ _ np "i + 1" v]) (use q n(1-4) ne in \<open>auto split: if_splits dest: uniq\<close>)
    qed (use f q p ne in \<open>auto simp: hand_defs\<close>)
    then show ?thesis using dup D(1) by (simp add: fork_files_def)
  next
    case last
    obtain c where c: "cwds s p = Some c" using q(2) by auto
    let ?t = "goto p (Returning v) (set_cwd np (Some c) (idup_ref c s))"
    have F: "files_inv ?t (in_hand s) (inodes_in_hand s) (ends_in_hand s)"
      using hand_eq[OF set_cwd_inv[OF idup_inv[OF I, of c] n(1), of "Some c"] refl _ refl, of "inodes_in_hand s"] n(2) by (auto simp: fun_eq_iff)
    have "conf_ok ?t"
    proof (rule conf_step[OF C q(1, 2) F, where X = "{np}"])
      show "x \<noteq> p \<and> point s x = User \<and> (\<forall>q i v. q \<noteq> p \<longrightarrow> point s q \<noteq> Forking x i v)" if "x \<in> {np}" for x
        using that n(3, 5) ne by blast
    qed (use q p ne in \<open>simp_all add: hand_defs here_def\<close>)
    then show ?thesis using last c by (simp add: fork_files_def)
  qed
qed

lemma pay_ok:
  assumes C: "conf_ok s" and d: "debts s p = d # ds"
  shows "\<exists>s'. pay p d (s\<lparr>debts := (debts s)(p := ds)\<rparr>) = Inr s' \<and> conf_ok s'"
proof -
  let ?t = "s\<lparr>debts := (debts s)(p := ds)\<rparr>"
  have q: "p < NPROC" "cwds s p \<noteq> None" "point s p \<in> range Returning \<union> range Clearing"
    using conf_okD(2, 3)[OF C, of p] d by (auto simp: here_def)
  have own: "\<forall>f. CloseFile f \<in> set (d # ds) \<longrightarrow> f < NFILE" using conf_okD(2)[OF C, of p] d by (auto simp: here_def)
  have I: "files_inv ?t (in_hand s) (inodes_in_hand s) (ends_in_hand s)" using conf_okD(1)[OF C] by simp
  show ?thesis
  proof (cases d)
    case (CloseFile f)
    have o: "own s p f \<ge> 1" using own_ge_owed[OF C, of f p] d CloseFile owed_nonneg[of "debt_files f" ds, OF debt_nonneg(3)] by (simp add: debt_files_def)
    have f: "f < NFILE" "f_ref (ftable ?t f) \<ge> 1" using own CloseFile ref_pos[OF C _ q(1) o] by simp_all
    from fileclose_inv[OF I f, of p] obtain ds' x where run: "fileclose p f ?t = Inr (owe p ds' (set_file f x ?t))"
      and ds': "\<forall>d \<in> set ds'. \<exists>y. d = EndClose y"
      and F: "files_inv (owe p ds' (set_file f x ?t)) ((in_hand s)(f := in_hand s f - 1))
        (\<lambda>i. inodes_in_hand s i + owed (debt_inodes i) ds') (\<lambda>pi w. ends_in_hand s pi w + owed (debt_ends pi w) ds')" by auto
    have "conf_ok (owe p ds' (set_file f x ?t))"
      by (rule conf_step[OF C q(1, 2) F, where X = "{}"])
        (use o q(2, 3) d own ds' CloseFile owed_ends[OF ds'] in \<open>auto simp: hand_defs here_def debt_defs\<close>)
    then show ?thesis using run CloseFile by simp
  next
    case (EndClose x)
    have "ends_in_hand s pi w \<ge> 1" if "end_file pi w x" for pi w
    proof -
      have "hand_ends s p pi w \<ge> 1" using d EndClose that owed_nonneg[of "debt_ends pi w" ds, OF debt_nonneg(2)] by (simp add: hand_ends_def debt_ends_def)
      moreover have "hand_ends s p pi w \<le> ends_in_hand s pi w"
        unfolding ends_in_hand_def using q(1) by (intro member_le_sum) (auto simp: hand_ends_def intro: owed_nonneg)
      ultimately show ?thesis by simp
    qed
    from end_close_inv[OF I this] obtain s' where s': "end_close x ?t = Inr s'" "ftable s' = ftable s" "fds s' = fds s" "cwds s' = cwds s"
      "debts s' = (debts s)(p := ds)" "point s' = point s"
      and F: "files_inv s' (in_hand s) (\<lambda>i. inodes_in_hand s i - of_bool (inode_file i x)) (\<lambda>pi w. ends_in_hand s pi w - of_bool (end_file pi w x))"
      by auto
    have "conf_ok s'"
      by (rule conf_step[OF C q(1, 2) F, where X = "{}"]) (use q(2, 3) d own s' EndClose in \<open>auto simp: hand_defs here_def debt_defs\<close>)
    then show ?thesis using s'(1) EndClose by simp
  next
    case (PutInode i)
    note F = iput_inv[OF I, of i]
    have "conf_ok (iput_ref i ?t)"
      by (rule conf_step[OF C q(1, 2) F, where X = "{}"]) (use q(2, 3) d own PutInode in \<open>auto simp: hand_defs here_def debt_defs\<close>)
    then show ?thesis using PutInode by simp
  qed
qed

text \<open>A fresh file entry becomes a user of an inode, or two become the ends of a pipe.\<close>

lemma use_inode_inv:
  assumes I: "files_inv s h k e" and f: "f < NFILE" "f_type (ftable s f) = FD_NONE" and r: "f_ref (ftable s f) \<noteq> 0"
    and x: "f_ref x = f_ref (ftable s f)" "inode_file i x"
  shows "files_inv (set_file f x s) h (k(i := k i - 1)) e"
proof -
  let ?s = "set_file f x s"
  have hold: "holders ?s g = holders s g" for g by (rule holders_cong) simp
  have pe: "pipe_end ?s = pipe_end s" by (simp add: fun_eq_iff pipe_end_def)
  have old: "\<not> inode_file j (ftable s f)" "\<not> end_file pi w (ftable s f)" "\<not> end_file pi w x" for j pi w
    using f(2) x(2) by (auto simp: inode_file_def end_file_def)
  have new: "inode_file j x \<longleftrightarrow> j = i" for j using x(2) by (auto simp: inode_file_def)
  have users: "inode_users ?s j = inode_users s j + of_bool (j = i)" for j
    using f(1) old new by (simp add: inode_users_def tally_upd)
  have ends: "end_files ?s pi w = end_files s pi w" for pi w
    using f(1) old by (simp add: end_files_def tally_upd)
  show ?thesis
    using files_invD[OF I] f r x unfolding files_inv_def hold pe users ends by auto
qed

lemma use_pipe_inv:
  assumes I: "files_inv s h k e" and f: "f0 < NFILE" "f1 < NFILE" "f0 \<noteq> f1"
    and t: "f_type (ftable s f0) = FD_NONE" "f_type (ftable s f1) = FD_NONE"
    and r: "f_ref (ftable s f0) \<noteq> 0" "f_ref (ftable s f1) \<noteq> 0" and new: "pipes s pi = None"
    and s': "ftable s' = (ftable s)(f0 := (ftable s f0)\<lparr>f_type := FD_PIPE, readable := True, writable := False, f_pipe := pi\<rparr>,
        f1 := (ftable s f1)\<lparr>f_type := FD_PIPE, readable := False, writable := True, f_pipe := pi\<rparr>)"
      "fds s' = fds s" "cwds s' = cwds s" "iref s' = iref s" "pipes s' = (pipes s)(pi := Some (True, True))"
  shows "files_inv s' h k e"
proof -
  note D = files_invD[OF I]
  have hold: "holders s' g = holders s g" for g by (rule holders_cong[OF s'(2)])
  have other: "\<not> end_file p w (ftable s f0)" "\<not> end_file p w (ftable s f1)" for p w using t by (simp_all add: end_file_def)
  have ends: "end_files s' p w = end_files s p w + of_bool (p = pi)" for p w
    using f other by (cases w) (auto simp: end_files_def s' tally_upd end_file_def)
  have pe: "of_bool (pipe_end s' p w) = (of_bool (pipe_end s p w) :: int) + of_bool (p = pi)" for p w
    by (auto simp: pipe_end_def s'(5) new)
  have "inode_users s' i = inode_users s i" for i
    using f t by (simp add: inode_users_def s' tally_upd inode_file_def)
  moreover have "f_ref (ftable s' g) = f_ref (ftable s g)" for g by (simp add: s')
  moreover have "f_ref (ftable s g) = 0 \<longrightarrow> f_type (ftable s' g) = FD_NONE" if "g < NFILE" for g
    using D(3)[OF that] r by (auto simp: s')
  moreover have "pipes s' p \<noteq> Some (False, False)" for p using D(5) by (simp add: s'(5))
  ultimately show ?thesis unfolding files_inv_def hold pe ends using D(1, 2, 4, 6) s'(2, 4) by auto
qed

lemma open_file_ok:
  assumes C: "conf_ok s" and p: "point s p = Opening omode ip ty maj"
  shows "conf_ok (open_file p omode ip ty maj s)"
proof -
  have q: "p < NPROC" "cwds s p \<noteq> None" "debts s p = []" using conf_okD(2, 3)[OF C, of p] p by (auto simp: here_def)
  note I = conf_okD(1)[OF C]
  obtain x s1 where fa: "filealloc s = (x, s1)" by (cases "filealloc s")
  note A = filealloc_inv[OF I fa]
  show ?thesis
  proof (cases "ty = T_DEVICE \<and> (maj < 0 \<or> maj \<ge> NDEV) \<or> x = None")
    case True
    let ?t = "goto p (Returning (- 1)) (owe p [PutInode ip] s)"
    have F: "files_inv ?t (in_hand s) (inodes_in_hand s) (ends_in_hand s)" using I by simp
    have "conf_ok ?t" by (rule conf_step[OF C q(1, 2) F, where X = "{}"]) (use p q in \<open>auto simp: hand_defs here_def debt_defs\<close>)
    moreover have "open_file p omode ip ty maj s = ?t" using True fa A by (auto simp: open_file_def)
    ultimately show ?thesis by simp
  next
    case False
    then obtain f where x: "x = Some f" by auto
    let ?x1 = "(ftable s f)\<lparr>f_ref := 1\<rparr>"
    have f: "files_inv s1 ((in_hand s)(f := in_hand s f + 1)) (inodes_in_hand s) (ends_in_hand s)" "f < NFILE" "f_ref (ftable s f) = 0"
      "s1 = set_file f ?x1 s" "f_type (ftable s f) = FD_NONE" using A x by auto
    obtain fd s2 where fdl: "fdalloc p f s1 = (fd, s2)" by (cases "fdalloc p f s1")
    from fdalloc_inv[OF f(1) q(1) f(2) fdl] show ?thesis
    proof (elim disjE exE conjE)
      assume n: "fd = - 1" "s2 = s1"
      let ?t = "goto p (Returning (- 1)) (owe p [CloseFile f, PutInode ip] s1)"
      have F: "files_inv ?t ((in_hand s)(f := in_hand s f + 1)) (inodes_in_hand s) (ends_in_hand s)" using f(1) by simp
      have "conf_ok ?t" by (rule conf_step[OF C q(1, 2) F, where X = "{}"]) (use p q f(2-5) in \<open>auto simp: hand_defs here_def debt_defs\<close>)
      moreover have "open_file p omode ip ty maj s = ?t" using False fa x fdl n by (auto simp: open_file_def)
      ultimately show ?thesis by simp
    next
      fix n assume n: "fd = int n" "n < NOFILE" "s2 = set_fd p n (Some f) s1"
        "files_inv s2 ((in_hand s)(f := in_hand s f + 1, f := ((in_hand s)(f := in_hand s f + 1)) f - 1)) (inodes_in_hand s) (ends_in_hand s)"
      define y where "y = (if ty = T_DEVICE then (ftable s2 f)\<lparr>f_type := FD_DEVICE, f_major := maj\<rparr> else (ftable s2 f)\<lparr>f_type := FD_INODE, f_off := 0\<rparr>)
        \<lparr>f_ip := ip, readable := (omode AND 1 = 0), writable := (omode AND 1 \<noteq> 0 \<or> omode AND 2 \<noteq> 0)\<rparr>"
      let ?t = "goto p (Returning (int n)) (set_file f y s2)"
      have y: "f_ref y = f_ref (ftable s2 f)" "inode_file ip y" by (auto simp: y_def inode_file_def)
      have F: "files_inv ?t (in_hand s) ((inodes_in_hand s)(ip := inodes_in_hand s ip - 1)) (ends_in_hand s)"
        using use_inode_inv[OF n(4) f(2) _ _ y] n(3) f(4, 5) by simp
      have "conf_ok ?t" by (rule conf_step[OF C q(1, 2) F, where X = "{}"]) (use p q f(2-5) n(3) in \<open>auto simp: hand_defs here_def\<close>)
      moreover have "open_file p omode ip ty maj s = ?t"
        using False fa x fdl n(1) by (auto simp: open_file_def y_def Let_def)
      ultimately show ?thesis by simp
    qed
  qed
qed

lemma sys_pipe_ok:
  assumes C: "conf_ok s" and p: "p < NPROC" "cwds s p \<noteq> None" "point s p = User"
  shows "conf_ok (sys_pipe p copied s)"
proof -
  have d: "debts s p = []" using debts_nil[OF C, of p] p(3) by auto
  obtain x s1 where fa: "filealloc s = (x, s1)" by (cases "filealloc s")
  note A = filealloc_inv[OF conf_okD(1)[OF C] fa]
  show ?thesis
  proof (cases x)
    case None
    then show ?thesis using fa A return_ok[OF C p] by (simp add: sys_pipe_def)
  next
    case (Some f)
    let ?t = "goto p (OneEnd f copied) s1"
    have f: "files_inv ?t ((in_hand s)(f := in_hand s f + 1)) (inodes_in_hand s) (ends_in_hand s)" "f < NFILE" "f_ref (ftable s f) = 0"
      "s1 = set_file f ((ftable s f)\<lparr>f_ref := 1\<rparr>) s" "f_type (ftable s f) = FD_NONE" using A Some by auto
    have "conf_ok ?t" by (rule conf_step[OF C p(1, 2) f(1), where X = "{}"]) (use p d f(2-5) in \<open>auto simp: hand_defs here_def fresh_def\<close>)
    then show ?thesis using fa Some by (simp add: sys_pipe_def)
  qed
qed

lemma pipe_second_ok:
  assumes C: "conf_ok s" and p: "point s p = OneEnd f0 copied"
  shows "conf_ok (pipe_second p f0 copied s)"
proof -
  have q: "p < NPROC" "cwds s p \<noteq> None" "debts s p = []" "fresh s f0" using conf_okD(2, 3)[OF C, of p] p by (auto simp: here_def)
  note I = conf_okD(1)[OF C]
  obtain x s1 where fa: "filealloc s = (x, s1)" by (cases "filealloc s")
  note A = filealloc_inv[OF I fa]
  show ?thesis
  proof (cases x)
    case None
    let ?t = "goto p (Returning (- 1)) (owe p [CloseFile f0] s)"
    have F: "files_inv ?t (in_hand s) (inodes_in_hand s) (ends_in_hand s)" using I by simp
    have "conf_ok ?t" by (rule conf_step[OF C q(1, 2) F, where X = "{}"]) (use p q in \<open>auto simp: hand_defs here_def debt_defs fresh_def\<close>)
    then show ?thesis using None fa A by (simp add: pipe_second_def)
  next
    case (Some f)
    let ?t = "goto p (TwoEnds f0 f copied) s1"
    have f: "files_inv ?t ((in_hand s)(f := in_hand s f + 1)) (inodes_in_hand s) (ends_in_hand s)" "f < NFILE" "f_ref (ftable s f) = 0"
      "s1 = set_file f ((ftable s f)\<lparr>f_ref := 1\<rparr>) s" "f_type (ftable s f) = FD_NONE" using A Some by auto
    have "f0 \<noteq> f" using q(4) f(3) by (auto simp: fresh_def)
    then have "conf_ok ?t" using q p f(2-5)
      by (intro conf_step[OF C q(1, 2) f(1), where X = "{}"]) (auto simp: hand_defs here_def fresh_def)
    then show ?thesis using fa Some by (simp add: pipe_second_def)
  qed
qed

lemma pipe_fds_inv:
  assumes I: "files_inv s h k e" and p: "p < NPROC" and f: "f0 < NFILE" "f1 < NFILE" "f0 \<noteq> f1"
  obtains (stored) v F where "pipe_fds p f0 f1 copied s = goto p (Returning v) (s\<lparr>fds := (fds s)(p := F)\<rparr>)"
      "files_inv (s\<lparr>fds := (fds s)(p := F)\<rparr>) (h(f0 := h f0 - 1, f1 := h f1 - 1)) k e"
  | (given_up) "pipe_fds p f0 f1 copied s = goto p (Returning (-1)) (owe p [CloseFile f0, CloseFile f1] s)"
proof -
  obtain fd0 s2 where a0: "fdalloc p f0 s = (fd0, s2)" by (cases "fdalloc p f0 s")
  from fdalloc_inv[OF I p f(1) a0] consider "fd0 = - 1" "s2 = s"
    | n where "fd0 = int n" "fds s p n = None" "s2 = set_fd p n (Some f0) s" "files_inv s2 (h(f0 := h f0 - 1)) k e" by auto
  then show thesis
  proof cases
    case 1
    then show thesis using a0 by (intro given_up) (simp add: pipe_fds_def)
  next
    case n: (2 n)
    obtain fd1 s3 where a1: "fdalloc p f1 s2 = (fd1, s3)" by (cases "fdalloc p f1 s2")
    have undo: "set_fd p n None s2 = s" using n(2, 3) by (simp add: set_fd_def fun_eq_iff)
    from fdalloc_inv[OF n(4) p f(2) a1] consider "fd1 = - 1" "s3 = s2"
      | m where "fd1 = int m" "fds s2 p m = None" "s3 = set_fd p m (Some f1) s2" "files_inv s3 (h(f0 := h f0 - 1, f1 := h f1 - 1)) k e"
      using f(3) by auto
    then show thesis
    proof cases
      case 1
      then show thesis using a0 a1 n(1) undo by (intro given_up) (simp add: pipe_fds_def)
    next
      case m: (2 m)
      have s3: "s3 = s\<lparr>fds := (fds s)(p := (fds s p)(n := Some f0, m := Some f1))\<rparr>" using m(3) n(3) by (simp add: set_fd_def)
      have ne: "m \<noteq> n" using m(2) n(3) by auto
      have "set_fd p m None (set_fd p n None s3) = s"
        using m(2) n(2, 3) ne by (simp add: s3 set_fd_def fun_eq_iff)
      then show thesis
        using a0 a1 n(1) m(1, 4) by (cases copied) (auto simp: pipe_fds_def s3 intro: stored given_up)
    qed
  qed
qed

lemma pipe_page_ok:
  assumes C: "conf_ok s" and p: "point s p = TwoEnds f0 f1 copied" and page: "\<And>pi. page = Some pi \<Longrightarrow> pipes s pi = None"
  shows "conf_ok (pipe_page p page f0 f1 copied s)"
proof -
  have q: "p < NPROC" "cwds s p \<noteq> None" "debts s p = []" "fresh s f0" "fresh s f1" "f0 \<noteq> f1"
    using conf_okD(2, 3)[OF C, of p] p by (auto simp: here_def)
  note I = conf_okD(1)[OF C]
  have own: "own s p f0 \<ge> 1" "own s p f1 \<ge> 1"
    using q(3) p q(6) refers_nonneg[of f0 "fds s p"] refers_nonneg[of f1 "fds s p"] by (simp_all add: own_def hand_defs)
  show ?thesis
  proof (cases page)
    case None
    let ?t = "goto p (Returning (- 1)) (owe p [CloseFile f0, CloseFile f1] s)"
    have F: "files_inv ?t (in_hand s) (inodes_in_hand s) (ends_in_hand s)" using I by simp
    have "conf_ok ?t" by (rule conf_step[OF C q(1, 2) F, where X = "{}"]) (use p q in \<open>auto simp: hand_defs here_def debt_defs fresh_def\<close>)
    then show ?thesis using None by (simp add: pipe_page_def)
  next
    case (Some pi)
    define s2 where "s2 = set_file f1 ((ftable s f1)\<lparr>f_type := FD_PIPE, readable := False, writable := True, f_pipe := pi\<rparr>)
      (set_file f0 ((ftable s f0)\<lparr>f_type := FD_PIPE, readable := True, writable := False, f_pipe := pi\<rparr>) (s\<lparr>pipes := (pipes s)(pi := Some (True, True))\<rparr>))"
    have run: "pipe_page p page f0 f1 copied s = pipe_fds p f0 f1 copied s2"
      using Some q(6) by (simp add: pipe_page_def s2_def Let_def)
    have F: "files_inv s2 (in_hand s) (inodes_in_hand s) (ends_in_hand s)"
      using q(4-6) page[OF Some] by (intro use_pipe_inv[OF I, of f0 f1 pi]) (auto simp: s2_def fresh_def)
    have s2: "debts s2 = debts s" "point s2 = point s" "fds s2 = fds s" "cwds s2 = cwds s" "\<And>g. g \<noteq> f0 \<Longrightarrow> g \<noteq> f1 \<Longrightarrow> ftable s2 g = ftable s g"
      by (simp_all add: s2_def)
    have b: "f0 < NFILE" "f1 < NFILE" using q(4, 5) by (simp_all add: fresh_def)
    have other: "ftable s2 g = ftable s g" if "own s p g = 0" for g using s2(5)[of g] own that by (cases "g = f0 \<or> g = f1") auto
    from F q(1) b q(6) show ?thesis unfolding run
    proof (cases rule: pipe_fds_inv[where copied = copied])
      case (stored v G)
      have F': "files_inv (goto p (Returning v) (s2\<lparr>fds := (fds s2)(p := G)\<rparr>))
          ((in_hand s)(f0 := in_hand s f0 - 1, f1 := in_hand s f1 - 1)) (inodes_in_hand s) (ends_in_hand s)"
        using stored(2) by simp
      show "conf_ok (pipe_fds p f0 f1 copied s2)" unfolding stored(1)
        by (rule conf_step[OF C q(1, 2) F', where X = "{}"]) (use p q s2(1-4) other in \<open>auto simp: hand_defs here_def\<close>)
    next
      case given_up
      have F': "files_inv (goto p (Returning (- 1)) (owe p [CloseFile f0, CloseFile f1] s2)) (in_hand s) (inodes_in_hand s) (ends_in_hand s)"
        using F by simp
      show "conf_ok (pipe_fds p f0 f1 copied s2)" unfolding given_up
        by (rule conf_step[OF C q(1, 2) F', where X = "{}"]) (use p q s2(1-4) other b in \<open>auto simp: hand_defs here_def debt_defs\<close>)
    qed
  qed
qed

lemma change_dir_ok:
  assumes C: "conf_ok s" and p: "point s p = ChangingDir ip is_dir"
  shows "\<exists>s'. change_dir p ip is_dir s = Inr s' \<and> conf_ok s'"
proof -
  have q: "p < NPROC" "cwds s p \<noteq> None" "debts s p = []" using conf_okD(2, 3)[OF C, of p] p by (auto simp: here_def)
  note I = conf_okD(1)[OF C]
  show ?thesis
  proof (cases is_dir)
    case False
    let ?t = "goto p (Returning (- 1)) (iput_ref ip s)"
    have F: "files_inv ?t (in_hand s) ((inodes_in_hand s)(ip := inodes_in_hand s ip - 1)) (ends_in_hand s)" using iput_inv[OF I] by simp
    have "conf_ok ?t" by (rule conf_step[OF C q(1, 2) F, where X = "{}"]) (use p q in \<open>auto simp: hand_defs here_def\<close>)
    then show ?thesis using False by (simp add: change_dir_def)
  next
    case True
    obtain c where c: "cwds s p = Some c" using q(2) by auto
    let ?t = "goto p (Returning 0) (set_cwd p (Some ip) (iput_ref c s))"
    have F: "files_inv ?t (in_hand s) (\<lambda>i. ((inodes_in_hand s)(c := inodes_in_hand s c - 1)) i + of_bool (cwds s p = Some i) - of_bool (Some ip = Some i)) (ends_in_hand s)"
      using set_cwd_inv[OF iput_inv[OF I, of c] q(1), of "Some ip"] by simp
    have "conf_ok ?t" by (rule conf_step[OF C q(1, 2) F, where X = "{}"]) (use p q c in \<open>auto simp: hand_defs here_def\<close>)
    then show ?thesis using True c by (simp add: change_dir_def)
  qed
qed

lemma clearing_ok:
  assumes C: "conf_ok s" and p: "point s p = Clearing fd" "debts s p = []"
  shows "conf_ok (goto p (Exiting (fd + 1)) (set_fd p fd None s))"
proof -
  have q: "p < NPROC" "cwds s p \<noteq> None" using conf_okD(2, 3)[OF C, of p] p by (auto simp: here_def)
  let ?t = "goto p (Exiting (fd + 1)) (set_fd p fd None s)"
  note I = conf_okD(1)[OF C]
  have F: "files_inv ?t (\<lambda>f. in_hand s f + of_bool (fds s p fd = Some f)) (inodes_in_hand s) (ends_in_hand s)"
  proof (cases "fds s p fd")
    case None
    then have "set_fd p fd None s = s" by (simp add: set_fd_def fun_upd_idem)
    then show ?thesis using I None by simp
  next
    case (Some f)
    have "(in_hand s)(f := in_hand s f + 1) = (\<lambda>g. in_hand s g + of_bool (fds s p fd = Some g))"
      using Some by (auto simp: fun_eq_iff)
    then show ?thesis using take_fd_inv[OF I Some] by simp
  qed
  show ?thesis
    by (rule conf_step[OF C q F, where X = "{}"]) (use p q in \<open>auto simp: hand_defs here_def\<close>)
qed

lemma resume_ok:
  assumes C: "conf_ok s" and m: "may_resume p page s"
  shows "\<exists>s'. resume p page s = Inr s' \<and> conf_ok s'"
proof (cases "debts s p")
  case (Cons d ds)
  then show ?thesis using pay_ok[OF C Cons] by (simp add: resume_def)
next
  case Nil
  have q: "p < NPROC" "cwds s p \<noteq> None" using conf_okD(2, 3)[OF C, of p] m by (auto simp: here_def may_resume_def)
  show ?thesis
  proof (cases "point s p")
    case User
    then show ?thesis using m by (simp add: may_resume_def)
  next
    case (Returning v)
    have "conf_ok (goto p User s)" using Returning Nil q by (intro goto_ok[OF C]) (auto simp: hand_defs here_def)
    then show ?thesis using Returning Nil by (simp add: resume_def)
  next
    case (Exiting fd)
    then show ?thesis using exit_files_ok[OF C Exiting] Nil by (simp add: resume_def)
  next
    case (Clearing fd)
    then show ?thesis using clearing_ok[OF C Clearing] Nil by (simp add: resume_def)
  next
    case (Forking np i v)
    then show ?thesis using fork_files_ok[OF C Forking] Nil by (simp add: resume_def)
  next
    case (Opening omode ip ty maj)
    then show ?thesis using open_file_ok[OF C Opening] Nil by (simp add: resume_def)
  next
    case (OneEnd f0 copied)
    then show ?thesis using pipe_second_ok[OF C OneEnd] Nil by (simp add: resume_def)
  next
    case (TwoEnds f0 f1 copied)
    then show ?thesis using pipe_page_ok[OF C TwoEnds, of page] m Nil by (simp add: resume_def may_resume_def)
  next
    case (ChangingDir ip is_dir)
    then show ?thesis using change_dir_ok[OF C ChangingDir] Nil by (simp add: resume_def)
  qed
qed

lemma call_ok:
  assumes C: "conf_ok s" and m: "may_call p c s" "c = Exit \<longrightarrow> p \<noteq> 0"
  shows "\<exists>s'. do_call p c s = Inr s' \<and> conf_ok s'"
proof -
  have q: "p < NPROC" "cwds s p \<noteq> None" "point s p = User" using m(1) by (auto simp: may_call_def)
  have d: "debts s p = []" using debts_nil[OF C, of p] q(3) by auto
  note I = conf_okD(1)[OF C]
  show ?thesis
  proof (cases c)
    case (Dup fd)
    then show ?thesis using sys_dup_ok[OF C q] by simp
  next
    case (Close fd)
    then show ?thesis using sys_close_ok[OF C q] by simp
  next
    case (Fork np v)
    have n: "np < NPROC" "fds s np = Map.empty" "cwds s np = None" "point s np = User" "\<And>q i v. point s q \<noteq> Forking np i v"
      using m(1) Fork by (auto simp: may_call_def)
    have "np \<noteq> p" using n(3) q(2) by auto
    have "conf_ok (goto p (Forking np 0 v) s)"
    proof (rule goto_ok[OF C q(1, 2)])
      show "here (goto p (Forking np 0 v) s) p"
        by (rule here_forking[of _ _ np 0 v]) (use q d n \<open>np \<noteq> p\<close> in \<open>auto split: if_splits\<close>)
    qed (simp_all add: q(3) hand_defs)
    then show ?thesis using Fork by simp
  next
    case Exit
    have "conf_ok (goto p (Exiting 0) s)" using q d by (intro goto_ok[OF C]) (auto simp: hand_defs here_def)
    then show ?thesis using Exit m(2) by (simp add: begin_exit_def)
  next
    case (Open omode ip ty maj)
    let ?t = "goto p (Opening omode ip ty maj) (idup_ref ip s)"
    have F: "files_inv ?t (in_hand s) ((inodes_in_hand s)(ip := inodes_in_hand s ip + 1)) (ends_in_hand s)" using idup_inv[OF I] by simp
    have "conf_ok ?t" by (rule conf_step[OF C q(1, 2) F, where X = "{}"]) (use q d in \<open>auto simp: hand_defs here_def\<close>)
    then show ?thesis using Open by simp
  next
    case (MkPipe copied)
    then show ?thesis using sys_pipe_ok[OF C q] by simp
  next
    case (Chdir ip is_dir)
    let ?t = "goto p (ChangingDir ip is_dir) (idup_ref ip s)"
    have F: "files_inv ?t (in_hand s) ((inodes_in_hand s)(ip := inodes_in_hand s ip + 1)) (ends_in_hand s)" using idup_inv[OF I] by simp
    have "conf_ok ?t" by (rule conf_step[OF C q(1, 2) F, where X = "{}"]) (use q d in \<open>auto simp: hand_defs here_def\<close>)
    then show ?thesis using Chdir by simp
  qed
qed

lemma boot_ok: "conf_ok (boot_files r)"
proof -
  have "inode_users (boot_files r) i = of_bool (i = r)" for i
  proof -
    have "tally (\<lambda>x. of_bool (x = Some i)) NPROC (Map.empty(0 \<mapsto> r)) = of_bool (i = r)"
      by (subst tally_upd) (auto simp: NPROC_def tally_def)
    then show ?thesis by (simp add: inode_users_def boot_files_def no_file_def inode_file_def tally_def)
  qed
  moreover have "hand (boot_files r) p f = 0" "hand_inodes (boot_files r) p i = 0" "hand_ends (boot_files r) p pi w = 0" for p f i pi w
    by (simp_all add: hand_defs boot_files_def)
  ultimately have "files_inv (boot_files r) (in_hand (boot_files r)) (inodes_in_hand (boot_files r)) (ends_in_hand (boot_files r))"
    unfolding files_inv_def in_hand_def inodes_in_hand_def ends_in_hand_def
    by (simp add: boot_files_def no_file_def holders_def refers_def tally_def pipe_end_def end_files_def end_file_def)
  then show ?thesis by (simp add: conf_ok_def here_def boot_files_def)
qed

lemma file_step_ok: "file_step s s' \<Longrightarrow> conf_ok s \<Longrightarrow> conf_ok s'"
proof (induction rule: file_step.induct)
  case (calls p c s s')
  have "c = Exit \<longrightarrow> p \<noteq> 0" using calls(2) by (auto simp: begin_exit_def split: if_splits)
  then show ?case using call_ok[OF calls(3, 1)] calls(2) by auto
next
  case (resumes p page s s')
  then show ?case using resume_ok[OF resumes(3, 1)] by auto
qed

interpretation filesys: invariant_system "\<lambda>s. \<exists>r. s = boot_files r" file_step conf_ok
  by unfold_locales (use boot_ok file_step_ok in blast)+

section \<open>References as sets\<close>

lemma tally_card: "tally (\<lambda>x. of_bool (P x)) n F = int (card {x. x < n \<and> P (F x)})"
proof -
  have "tally (\<lambda>x. of_bool (P x)) n F = int (card ({..<n} \<inter> {x. P (F x)}))" by (simp add: tally_def)
  then show ?thesis by (simp add: lessThan_def Collect_conj_eq)
qed

lemma holders_card:
  assumes "files_inv s h k e"
  shows "holders s f = int (card {(p, fd). fds s p fd = Some f})"
proof -
  have "holders s f = (\<Sum>(p, fd) \<in> {..<NPROC} \<times> {..<NOFILE}. of_bool (fds s p fd = Some f))"
    unfolding holders_def refers_def tally_def by (rule sum.cartesian_product)
  also have "\<dots> = (\<Sum>x \<in> {..<NPROC} \<times> {..<NOFILE}. of_bool (fds s (fst x) (snd x) = Some f))"
    by (rule sum.cong) auto
  also have "\<dots> = int (card (({..<NPROC} \<times> {..<NOFILE}) \<inter> {x. fds s (fst x) (snd x) = Some f}))" by simp
  also have "({..<NPROC} \<times> {..<NOFILE}) \<inter> {x. fds s (fst x) (snd x) = Some f} = {(p, fd). fds s p fd = Some f}"
    using files_invD(2)[OF assms] by auto
  finally show ?thesis .
qed

lemma end_open:
  assumes C: "conf_ok s" and f: "f < NFILE" "end_file pi w (ftable s f)"
  shows "pipe_end s pi w"
proof -
  have "tally (\<lambda>x. of_bool (end_file pi w x)) NFILE (ftable s) \<ge> 1" by (rule tally_pos[OF f(1)]) (simp_all add: f(2))
  moreover have "ends_in_hand s pi w \<ge> 0" by (simp add: ends_in_hand_def hand_ends_def owed_nonneg sum_nonneg)
  ultimately show ?thesis using files_invD(4)[OF conf_okD(1)[OF C], of pi w] by (cases "pipe_end s pi w") (simp_all add: end_files_def)
qed

lemma live_file:
  assumes C: "conf_ok s" and f: "fds s p fd = Some f" and fd: "point s p \<noteq> Clearing fd"
  shows "0 < f_ref (ftable s f)"
proof -
  have B: "p < NPROC" "fd < NOFILE" "f < NFILE" using files_invD(2)[OF conf_okD(1)[OF C] f] by simp_all
  have "own s p f \<ge> 1"
  proof (cases "\<exists>n. point s p = Clearing n \<and> fds s p n = Some f")
    case True
    then obtain n where n: "point s p = Clearing n" "fds s p n = Some f" by blast
    then have nf: "n < NOFILE" "n \<noteq> fd" using files_invD(2)[OF conf_okD(1)[OF C]] fd by blast+
    have "(\<Sum>x \<in> {n, fd}. of_bool (fds s p x = Some f)) \<le> (\<Sum>x<NOFILE. of_bool (fds s p x = Some f) :: int)"
      using nf(1) B(2) by (intro sum_mono2) auto
    then have "refers f (fds s p) \<ge> 2" using n f nf(2) by (simp add: refers_def tally_def)
    then show ?thesis using n(1) owed_nonneg[of "debt_files f" "debts s p", OF debt_nonneg(3)] by (simp add: own_def hand_defs of_bool_def)
  next
    case False
    then have "point_files (point s p) (fds s p) f \<ge> 0" by (cases "point s p") (auto simp: point_files_def)
    then show ?thesis using refers_pos[of "fds s p" fd f] f B(2) owed_nonneg[of "debt_files f" "debts s p", OF debt_nonneg(3)]
      by (simp add: own_def hand_def)
  qed
  then show ?thesis using ref_pos[OF C B(3, 1)] by simp
qed

text \<open>Between calls nothing is in hand.\<close>

lemma idle_hand:
  assumes C: "conf_ok s" and idle: "\<forall>p. point s p = User"
  shows "in_hand s f = 0" "inodes_in_hand s i = 0" "ends_in_hand s pi w = 0"
proof -
  have "debts s p = []" for p using debts_nil[OF C, of p] idle by auto
  then show "in_hand s f = 0" "inodes_in_hand s i = 0" "ends_in_hand s pi w = 0"
    using idle by (simp_all add: in_hand_def inodes_in_hand_def ends_in_hand_def hand_defs)
qed

lemma idle_ends:
  assumes C: "conf_ok s" and idle: "\<forall>p. point s p = User"
  shows "pipe_end s pi w \<longleftrightarrow> (\<exists>p fd f. fds s p fd = Some f \<and> end_file pi w (ftable s f))"
proof
  note I = conf_okD(1)[OF C]
  assume "pipe_end s pi w"
  then have "card {x. x < NFILE \<and> end_file pi w (ftable s x)} \<noteq> 0"
    using files_invD(4)[OF I, of pi w] idle_hand(3)[OF C idle] by (simp add: end_files_def tally_card)
  then have "{x. x < NFILE \<and> end_file pi w (ftable s x)} \<noteq> {}" by (intro notI) simp
  then obtain f where f: "f < NFILE" "end_file pi w (ftable s f)" by blast
  then have "f_ref (ftable s f) \<noteq> 0" using files_invD(3)[OF I f(1)] by (auto simp: end_file_def)
  then have "card {(p, fd). fds s p fd = Some f} \<noteq> 0"
    using files_invD(1)[OF I f(1)] holders_card[OF I, of f] idle_hand(1)[OF C idle] by simp
  then have "{(p, fd). fds s p fd = Some f} \<noteq> {}" by (intro notI) simp
  then show "\<exists>p fd f. fds s p fd = Some f \<and> end_file pi w (ftable s f)" using f(2) by blast
qed (use end_open[OF C] files_invD(2)[OF conf_okD(1)[OF C]] in blast)

text \<open>
  C31: Whatever calls of \<^verbatim>\<open>dup\<close>, \<^verbatim>\<open>close\<close>, \<^verbatim>\<open>pipe\<close>, \<^verbatim>\<open>open\<close>, \<^verbatim>\<open>chdir\<close>, fork and exit the processes make, however
  the calls interleave between the locks they take, and failures on the way included: the reference
  count of an open file is at all times the number of descriptors that refer to it, plus the references
  that calls in progress hold, less the descriptors that exiting processes have yet to clear. A file with a
  descriptor not about to be cleared has a positive count, and if it is an end of a pipe this end is open.
  When no call is in progress, the count of a file is exactly the number of its descriptors, an
  end of a pipe is open exactly while there is a descriptor for it, and the count of an inode is the
  number of open files and current directories that use it. No call can get into the panics of
  \<^verbatim>\<open>filedup\<close> and \<^verbatim>\<open>fileclose\<close>, close an end of a freed pipe or use a missing current directory; the panic of
  \<^verbatim>\<open>kexit\<close> is reached only by the first process. (Panics in looking up a path are not in this model.)
\<close>

theorem file_references:
  assumes "reach (\<lambda>s. \<exists>r. s = boot_files r) file_step s"
  shows "(\<forall>f < NFILE. f_ref (ftable s f) = int (card {(p, fd). fds s p fd = Some f}) + (\<Sum>p<NPROC. hand s p f)) \<and>
    (\<forall>p fd f. fds s p fd = Some f \<and> point s p \<noteq> Clearing fd \<longrightarrow>
      0 < f_ref (ftable s f) \<and> (\<forall>pi w. end_file pi w (ftable s f) \<longrightarrow> pipe_end s pi w)) \<and>
    ((\<forall>p. point s p = User) \<longrightarrow>
      (\<forall>f < NFILE. f_ref (ftable s f) = int (card {(p, fd). fds s p fd = Some f})) \<and>
      (\<forall>pi w. pipe_end s pi w \<longleftrightarrow> (\<exists>p fd f. fds s p fd = Some f \<and> end_file pi w (ftable s f))) \<and>
      (\<forall>i. iref s i = int (card {f. f < NFILE \<and> inode_file i (ftable s f)}) + int (card {p. p < NPROC \<and> cwds s p = Some i}))) \<and>
    (\<forall>p c. may_call p c s \<and> (c = Exit \<longrightarrow> p \<noteq> 0) \<longrightarrow> ok (do_call p c s)) \<and>
    (\<forall>p page. may_resume p page s \<longrightarrow> ok (resume p page s))"
proof -
  have C: "conf_ok s" using filesys.reach_inv assms by simp
  note I = conf_okD(1)[OF C]
  have count: "\<forall>f < NFILE. f_ref (ftable s f) = int (card {(p, fd). fds s p fd = Some f}) + (\<Sum>p<NPROC. hand s p f)"
    using files_invD(1)[OF I] holders_card[OF I] by (simp add: in_hand_def)
  have live: "0 < f_ref (ftable s f) \<and> (\<forall>pi w. end_file pi w (ftable s f) \<longrightarrow> pipe_end s pi w)"
    if "fds s p fd = Some f" "point s p \<noteq> Clearing fd" for p fd f
    using live_file[OF C that] end_open[OF C] files_invD(2)[OF I that(1)] by blast
  have "iref s i = int (card {f. f < NFILE \<and> inode_file i (ftable s f)}) + int (card {p. p < NPROC \<and> cwds s p = Some i})"
    if "\<forall>p. point s p = User" for i
    using files_invD(6)[OF I, of i] idle_hand(2)[OF C that] by (simp add: inode_users_def tally_card)
  then have idle: "(\<forall>f < NFILE. f_ref (ftable s f) = int (card {(p, fd). fds s p fd = Some f})) \<and>
      (\<forall>pi w. pipe_end s pi w \<longleftrightarrow> (\<exists>p fd f. fds s p fd = Some f \<and> end_file pi w (ftable s f))) \<and>
      (\<forall>i. iref s i = int (card {f. f < NFILE \<and> inode_file i (ftable s f)}) + int (card {p. p < NPROC \<and> cwds s p = Some i}))"
    if "\<forall>p. point s p = User"
    using that count idle_hand(1)[OF C that] idle_ends[OF C that] by (simp add: in_hand_def)
  have "\<forall>p c. may_call p c s \<and> (c = Exit \<longrightarrow> p \<noteq> 0) \<longrightarrow> ok (do_call p c s)"
    using call_ok[OF C] unfolding ok_def by fastforce
  moreover have "\<forall>p page. may_resume p page s \<longrightarrow> ok (resume p page s)" using resume_ok[OF C] unfolding ok_def by fastforce
  ultimately show ?thesis using count live idle by blast
qed

text \<open>
  The first process makes a pipe and begins to close its writing end: the count of the file is zero, but
  the end is open until the call goes on.
\<close>

lemma first_slots: "[0..<NFILE] = 0 # 1 # [2..<NFILE]" "[0..<NOFILE] = 0 # 1 # [2..<NOFILE]"
  by (simp_all add: NFILE_def NOFILE_def upt_conv_Cons numeral_2_eq_2)

theorem file_references_witness:
  "\<exists>s s'. file_step\<^sup>*\<^sup>* (boot_files 1) s \<and> pipe_end s 7 False \<and> pipe_end s 7 True \<and> f_ref (ftable s 1) = 0 \<and>
    resume 0 None s = Inr s' \<and> pipe_end s' 7 False \<and> \<not> pipe_end s' 7 True \<and> 0 < f_ref (ftable s 0)"
proof -
  let ?b = "boot_files 1"
  define s1 where "s1 = sys_pipe 0 True ?b"
  define s2 where "s2 = pipe_second 0 0 True s1"
  define s3 where "s3 = pipe_page 0 (Some 7) 0 1 True s2"
  define s4 where "s4 = goto 0 User s3"
  define ff where "ff = no_file\<lparr>f_type := FD_PIPE, writable := True, f_pipe := 7\<rparr>"
  have v1: "point s1 0 = OneEnd 0 True" "debts s1 0 = []"
    by (simp_all add: s1_def sys_pipe_def filealloc_def first_slots boot_files_def no_file_def)
  have v2: "point s2 0 = TwoEnds 0 1 True" "debts s2 0 = []" "pipes s2 7 = None"
    by (simp_all add: s2_def s1_def pipe_second_def sys_pipe_def filealloc_def first_slots boot_files_def no_file_def)
  have v3: "point s3 0 = Returning 0" "debts s3 0 = []" "fds s3 0 0 = Some 0" "fds s3 0 1 = Some 1" "cwds s3 0 = Some 1"
    "ftable s3 1 = ff\<lparr>f_ref := 1\<rparr>" "pipes s3 7 = Some (True, True)"
    by (simp_all add: s3_def s2_def s1_def pipe_page_def pipe_fds_def fdalloc_def pipe_second_def sys_pipe_def filealloc_def first_slots
        boot_files_def no_file_def ff_def Let_def)
  obtain s5 where s5: "sys_close 0 1 s4 = Inr s5" "debts s5 0 = [EndClose (ff\<lparr>f_ref := 0\<rparr>)]" "point s5 0 = Returning 0"
    "pipes s5 7 = Some (True, True)" "f_ref (ftable s5 1) = 0" "fds s5 0 0 = Some 0"
    using v3 by (auto simp: s4_def sys_close_def argfd_def NOFILE_def fileclose_def Let_def)
  have m: "may_call 0 (MkPipe True) ?b" "may_resume 0 None s1" "may_resume 0 (Some 7) s2" "may_resume 0 None s3" "may_call 0 (Close 1) s4"
    using v1 v2 v3 by (simp_all add: may_call_def may_resume_def boot_files_def NPROC_def s4_def)
  have b1: "file_step ?b s1" by (rule calls[OF m(1)]) (simp add: s1_def)
  have b2: "file_step s1 s2" by (rule resumes[OF m(2)]) (simp add: resume_def v1 s2_def)
  have b3: "file_step s2 s3" by (rule resumes[OF m(3)]) (simp add: resume_def v2 s3_def)
  have b4: "file_step s3 s4" by (rule resumes[OF m(4)]) (simp add: resume_def v3 s4_def)
  have b5: "file_step s4 s5" by (rule calls[OF m(5)]) (simp add: s5)
  have run: "file_step\<^sup>*\<^sup>* ?b s5" using b1 b2 b3 b4 b5 by (meson converse_rtranclp_into_rtranclp rtranclp.rtrancl_refl)
  have "reach (\<lambda>s. \<exists>r. s = boot_files r) file_step ?b" by (rule reach.intros(1)) blast
  then have "reach (\<lambda>s. \<exists>r. s = boot_files r) file_step s5" using b1 b2 b3 b4 b5 by (meson reach.intros(2))
  note R = file_references[OF this]
  have "0 < f_ref (ftable s5 0)" using R[THEN conjunct2, THEN conjunct1, rule_format, of 0 0 0] s5(3, 6) by simp
  moreover have "resume 0 None s5 = Inr (s5\<lparr>debts := (debts s5)(0 := []), pipes := (pipes s5)(7 := Some (True, False))\<rparr>)"
    using s5 by (simp add: resume_def end_close_def close_end_def ff_def)
  ultimately show ?thesis using run s5 by (intro exI conjI) (auto simp: pipe_end_def)
qed

end
