(* ===== verification/File_IO.thy ===== *)
theory File_IO
  imports Fs_Files File_Table
begin

text \<open>
  Reading and writing an open file, \<^verbatim>\<open>fileread\<close> and \<^verbatim>\<open>filewrite\<close> of \<^verbatim>\<open>kernel/file.c\<close>. For an inode they
  call \<^verbatim>\<open>readi\<close> and \<^verbatim>\<open>writei\<close> with the offset of the open file, and \<^verbatim>\<open>filewrite\<close> does so in pieces small
  enough for one transaction of the log each. For a pipe or a device they pass the call on; what it
  returns is an argument here, its effect is in the theories of pipes and of the console.
\<close>

section \<open>Definitions\<close>

definition fileread :: "superblock \<Rightarrow> (nat \<Rightarrow> nat \<Rightarrow> bool) \<Rightarrow> (nat \<Rightarrow> int \<Rightarrow> int \<times> byte list) \<Rightarrow> (int \<Rightarrow> (int \<Rightarrow> int \<times> byte list) option) \<Rightarrow>
    int \<Rightarrow> kfile \<Rightarrow> inode \<Rightarrow> fsdisk \<Rightarrow> fault + (int \<times> byte list \<times> kfile \<times> inode \<times> fsdisk)" where
  "fileread sb accept piperead devread n f ip d =
    (if \<not> readable f then Inr (-1, [], f, ip, d)
     else case f_type f of
       FD_PIPE \<Rightarrow> (let (r, bs) = piperead (f_pipe f) n in Inr (r, bs, f, ip, d))
     | FD_DEVICE \<Rightarrow>
         (if f_major f < 0 \<or> f_major f \<ge> NDEV then Inr (-1, [], f, ip, d)
          else case devread (f_major f) of
            None \<Rightarrow> Inr (-1, [], f, ip, d)
          | Some rd \<Rightarrow> let (r, bs) = rd n in Inr (r, bs, f, ip, d))
     | FD_INODE \<Rightarrow>
         rbind (readi sb accept ip (f_off f) (word_of_int n) d) (\<lambda>(r, bs, ip, d).
           Inr (r, bs, (if r > 0 then f\<lparr>f_off := f_off f + word_of_int r\<rparr> else f), ip, d))
     | FD_NONE \<Rightarrow> Inl (Panic ''fileread''))"

definition write_max :: nat where "write_max = (10 - 1 - 1 - 2) div 2 * BSIZE"

function filewrite_loop :: "superblock \<Rightarrow> (nat \<Rightarrow> nat \<Rightarrow> byte list \<times> bool) \<Rightarrow> nat \<Rightarrow> nat \<Rightarrow> kfile \<Rightarrow> inode \<Rightarrow> fsdisk \<Rightarrow>
    fault + (nat \<times> kfile \<times> inode \<times> fsdisk)" where
  "filewrite_loop sb fetch n i f ip d =
    (if i < n then
       let n1 = min (n - i) write_max in
       rbind (writei sb (\<lambda>tot. fetch (i + tot)) ip (f_off f) (of_nat n1) d) (\<lambda>(r, ip, d).
         let f = (if r > 0 then f\<lparr>f_off := f_off f + word_of_int r\<rparr> else f) in
         if r \<noteq> int n1 then Inr (i, f, ip, d)
         else filewrite_loop sb fetch n (i + nat r) f ip d)
     else Inr (i, f, ip, d))"
  by auto
termination
  by (relation "measure (\<lambda>(sb, fetch, n, i, f, ip, d). n - i)") (auto simp: write_max_def BSIZE_def)

declare filewrite_loop.simps [simp del]

definition filewrite :: "superblock \<Rightarrow> (nat \<Rightarrow> nat \<Rightarrow> byte list \<times> bool) \<Rightarrow> (nat \<Rightarrow> int \<Rightarrow> int) \<Rightarrow> (int \<Rightarrow> (int \<Rightarrow> int) option) \<Rightarrow>
    int \<Rightarrow> kfile \<Rightarrow> inode \<Rightarrow> fsdisk \<Rightarrow> fault + (int \<times> kfile \<times> inode \<times> fsdisk)" where
  "filewrite sb fetch pipewrite devwrite n f ip d =
    (if \<not> writable f then Inr (-1, f, ip, d)
     else case f_type f of
       FD_PIPE \<Rightarrow> Inr (pipewrite (f_pipe f) n, f, ip, d)
     | FD_DEVICE \<Rightarrow>
         (if f_major f < 0 \<or> f_major f \<ge> NDEV then Inr (-1, f, ip, d)
          else case devwrite (f_major f) of
            None \<Rightarrow> Inr (-1, f, ip, d)
          | Some wr \<Rightarrow> Inr (wr n, f, ip, d))
     | FD_INODE \<Rightarrow>
         rbind (filewrite_loop sb fetch (nat n) 0 f ip d) (\<lambda>(i, f, ip, d).
           Inr (if int i = n then n else -1, f, ip, d))
     | FD_NONE \<Rightarrow> Inl (Panic ''filewrite''))"

section \<open>Pieces of a write\<close>

lemma others_kept_trans:
  assumes "others_kept sb ip d ip1 d1" "others_kept sb ip1 d1 ip2 d2"
  shows "others_kept sb ip d ip2 d2"
  using assms unfolding others_kept_def by metis

lemma others_kept_refl: "others_kept sb ip d ip d"
  by (simp add: others_kept_def)

text \<open>The file after a prefix of \<open>src\<close> was written at offset \<open>off\<close>.\<close>

definition spliced :: "nat \<Rightarrow> byte list \<Rightarrow> byte list \<Rightarrow> byte list" where
  "spliced off bs cs = take off cs @ bs @ drop (off + length bs) cs"

lemma spliced_Nil [simp]: "spliced off [] cs = cs"
  by (simp add: spliced_def)

lemma spliced_append:
  assumes "off \<le> length cs"
  shows "spliced (off + length as) bs (spliced off as cs) = spliced off (as @ bs) cs"
  using assms by (simp add: spliced_def ac_simps)

lemma length_spliced: "off \<le> length cs \<Longrightarrow> length (spliced off bs cs) = max (length cs) (off + length bs)"
  by (simp add: spliced_def)

lemma from_kernel_shift: "(\<lambda>tot. from_kernel src (i + tot)) = from_kernel (drop i src)"
  by (simp add: from_kernel_def fun_eq_iff add.commute)

lemma from_kernel_take:
  assumes "n1 \<le> length src"
  shows "writei_loop sb (from_kernel src) n1 tot off ip d = writei_loop sb (from_kernel (take n1 src)) n1 tot off ip d"
  using assms
proof (induction sb "from_kernel src" n1 tot off ip d rule: writei_loop.induct)
  case (1 sb n tot off ip d)
  have "from_kernel (take n src) tot m = from_kernel src tot m" if "tot + m \<le> n" for m
    using that by (simp add: from_kernel_def drop_take min_def)
  then have same: "from_kernel (take n src) tot (min (n - tot) (BSIZE - off mod BSIZE)) = from_kernel src tot (min (n - tot) (BSIZE - off mod BSIZE))"
    if "tot < n" using that by simp
  show ?case
  proof (cases "tot < n")
    case False
    then show ?thesis by (subst (1 2) writei_loop.simps) simp
  next
    case True
    show ?thesis
    proof (cases "bmap sb ip (off div BSIZE) d")
      case (Inr r)
      obtain addr ip1 d1 where r: "r = (addr, ip1, d1)" by (cases r) auto
      show ?thesis
        using True Inr r same[OF True] 1
        by (subst (1 2) writei_loop.simps) (auto simp: from_kernel_def Let_def)
    qed (use True in \<open>subst (1 2) writei_loop.simps, simp\<close>)
  qed
qed

lemma MAXFILE_bytes: "MAXFILE * BSIZE = 274432"
  by (simp add: MAXFILE_def NDIRECT_def NINDIRECT_def BSIZE_def)

text \<open>One piece: a prefix of it is written, all of it unless the disk is full or the file would be too long.\<close>

definition file_wrote :: "superblock \<Rightarrow> kfile \<Rightarrow> inode \<Rightarrow> fsdisk \<Rightarrow> byte list \<Rightarrow> kfile \<Rightarrow> inode \<Rightarrow> fsdisk \<Rightarrow> bool" where
  "file_wrote sb f ip d bs f' ip' d' \<longleftrightarrow> file_ok sb ip' d' \<and> others_kept sb ip d ip' d' \<and>
    contents ip' d' = spliced (unat (f_off f)) bs (contents ip d) \<and>
    f' = f\<lparr>f_off := f_off f'\<rparr> \<and> unat (f_off f') = unat (f_off f) + length bs"

lemma file_wrote_offset:
  assumes "file_wrote sb f ip d bs f' ip' d'" "unat (f_off f) \<le> unat (i_size ip)"
  shows "unat (f_off f') \<le> unat (i_size ip')"
proof -
  have "unat (i_size ip') = length (spliced (unat (f_off f)) bs (contents ip d))"
    using assms(1) unfolding file_wrote_def by (metis contents_length)
  then show ?thesis using assms by (simp add: file_wrote_def length_spliced)
qed

lemma file_wrote_append:
  assumes "file_wrote sb f ip d as f1 ip1 d1" "file_wrote sb f1 ip1 d1 bs f2 ip2 d2" "unat (f_off f) \<le> unat (i_size ip)"
  shows "file_wrote sb f ip d (as @ bs) f2 ip2 d2"
proof -
  have "f2 = f\<lparr>f_off := f_off f2\<rparr>"
  proof -
    have "f2 = (f\<lparr>f_off := f_off f1\<rparr>)\<lparr>f_off := f_off f2\<rparr>" using assms(1, 2) unfolding file_wrote_def by metis
    then show ?thesis by simp
  qed
  moreover have "contents ip2 d2 = spliced (unat (f_off f)) (as @ bs) (contents ip d)"
    using assms spliced_append[of "unat (f_off f)" "contents ip d" as bs] by (simp add: file_wrote_def)
  ultimately show ?thesis
    using assms others_kept_trans[of sb ip d ip1 d1 ip2 d2] by (simp add: file_wrote_def)
qed

lemma write_piece:
  assumes ok: "file_ok sb ip d" and off: "unat (f_off f) \<le> unat (i_size ip)" and n: "n1 \<le> length src" "0 < n1" "n1 \<le> write_max"
  shows "\<exists>r k ip' d'. writei sb (from_kernel src) ip (f_off f) (of_nat n1) d = Inr (r, ip', d') \<and> k \<le> n1 \<and>
    file_wrote sb f ip d (take k src) (if r > 0 then f\<lparr>f_off := f_off f + word_of_int r\<rparr> else f) ip' d' \<and> (r = int n1 \<longleftrightarrow> k = n1) \<and>
    (k < n1 \<longrightarrow> free_blocks sb d' = {} \<or> unat (f_off f) + n1 > MAXFILE * BSIZE)"
proof -
  have size: "unat (i_size ip) \<le> 274432" using ok MAXFILE_bytes by (simp add: file_ok_def)
  have n1: "n1 \<le> 3072" using n(3) by (simp add: write_max_def BSIZE_def)
  have u: "unat (of_nat n1 :: 32 word) = n1" using n1 by (intro unat_small) simp
  have le: "f_off f \<le> i_size ip" using off by (simp add: word_le_nat_alt)
  have eq: "writei sb (from_kernel src) ip (f_off f) (of_nat n1) d = writei sb (from_kernel (take n1 src)) ip (f_off f) (of_nat n1) d"
    unfolding writei_def u from_kernel_take[OF n(1)] ..
  show ?thesis
  proof (cases "unat (f_off f) + n1 \<le> MAXFILE * BSIZE")
    case True
    have "unat (of_nat n1 :: 32 word) = length (take n1 src)" "unat (f_off f) + length (take n1 src) \<le> MAXFILE * BSIZE"
      using u n(1) True by simp_all
    from writei_ok[OF ok le this] obtain k ip' d' where w: "writei sb (from_kernel (take n1 src)) ip (f_off f) (of_nat n1) d = Inr (int k, ip', d')"
      and k: "k \<le> n1" "k < n1 \<longrightarrow> free_blocks sb d' = {}" "file_ok sb ip' d'" "others_kept sb ip d ip' d'"
        "contents ip' d' = take (unat (f_off f)) (contents ip d) @ take k (take n1 src) @ drop (unat (f_off f) + k) (contents ip d)"
      using n(1) by auto
    have tk: "take k (take n1 src) = take k src" "length (take k src) = k" using k(1) n(1) by (simp_all add: min_def)
    have "unat (f_off f) + k < 2 ^ 32" using off size k(1) n1 by simp
    then have o: "unat (f_off f + word_of_nat k) = unat (f_off f) + k"
      using unat_small[of k] by (simp add: unat_word_ariths)
    have "file_wrote sb f ip d (take k src) (if int k > 0 then f\<lparr>f_off := f_off f + word_of_int (int k)\<rparr> else f) ip' d'"
      using k tk o by (auto simp: file_wrote_def spliced_def)
    then show ?thesis using eq w k(1, 2) by fastforce
  next
    case False
    have no: "unat (f_off f + of_nat n1) = unat (f_off f) + n1" using u off size n1 by (simp add: unat_word_ariths)
    then have "\<not> f_off f + of_nat n1 < f_off f" by (simp add: word_less_nat_alt)
    then have "writei sb (from_kernel src) ip (f_off f) (of_nat n1) d = Inr (- 1, ip, d)"
      using False le no unfolding writei_def by (simp add: not_less)
    moreover have "file_wrote sb f ip d (take 0 src) f ip d" using ok by (simp add: file_wrote_def others_kept_refl)
    ultimately show ?thesis using n(2) False by fastforce
  qed
qed

lemma filewrite_loop_ok:
  assumes "file_ok sb ip d" "unat (f_off f) \<le> unat (i_size ip)" "i \<le> length src"
  shows "\<exists>j k f' ip' d'. filewrite_loop sb (from_kernel src) (length src) i f ip d = Inr (j, f', ip', d') \<and> i + k \<le> length src \<and>
    file_wrote sb f ip d (take k (drop i src)) f' ip' d' \<and> (j = length src \<longleftrightarrow> i + k = length src) \<and>
    (i + k < length src \<longrightarrow> free_blocks sb d' = {} \<or> unat (f_off f) + (length src - i) > MAXFILE * BSIZE)"
  using assms
proof (induction "length src - i" arbitrary: i f ip d rule: less_induct)
  case less
  let ?n = "length src"
  show ?case
  proof (cases "i < ?n")
    case False
    moreover have "file_wrote sb f ip d [] f ip d" using less.prems(1) by (simp add: file_wrote_def others_kept_refl)
    ultimately show ?thesis using less.prems(3) by (subst filewrite_loop.simps) (auto intro!: exI[of _ 0])
  next
    case True
    define n1 where "n1 = min (?n - i) write_max"
    have n1: "n1 \<le> length (drop i src)" "0 < n1" "n1 \<le> write_max" using True by (auto simp: n1_def write_max_def BSIZE_def)
    from write_piece[OF less.prems(1, 2) n1] obtain r k ip1 d1 where
      w: "writei sb (from_kernel (drop i src)) ip (f_off f) (of_nat n1) d = Inr (r, ip1, d1)" and
      k: "k \<le> n1" "file_wrote sb f ip d (take k (drop i src)) (if r > 0 then f\<lparr>f_off := f_off f + word_of_int r\<rparr> else f) ip1 d1"
        "r = int n1 \<longleftrightarrow> k = n1" "k < n1 \<longrightarrow> free_blocks sb d1 = {} \<or> unat (f_off f) + n1 > MAXFILE * BSIZE"
      by blast
    define f1 where "f1 = (if r > 0 then f\<lparr>f_off := f_off f + word_of_int r\<rparr> else f)"
    have run: "filewrite_loop sb (from_kernel src) ?n i f ip d =
        (if r \<noteq> int n1 then Inr (i, f1, ip1, d1) else filewrite_loop sb (from_kernel src) ?n (i + nat r) f1 ip1 d1)"
      using True w by (subst filewrite_loop.simps) (simp add: from_kernel_shift n1_def[symmetric] f1_def Let_def)
    show ?thesis
    proof (cases "k = n1")
      case False
      then have "i + k < ?n" using k(1) n1(1) by simp
      moreover have "free_blocks sb d1 = {} \<or> unat (f_off f) + (?n - i) > MAXFILE * BSIZE"
        using k(1, 4) False n1(1) by auto
      ultimately show ?thesis
        using run False k(2, 3) True by (intro exI[of _ i] exI[of _ k] exI[of _ f1] exI[of _ ip1] exI[of _ d1]) (simp add: f1_def)
    next
      case eq: True
      have W: "file_wrote sb f ip d (take n1 (drop i src)) f1 ip1 d1" using k(2) eq by (simp add: f1_def)
      have len: "length (take n1 (drop i src)) = n1" using n1(1) by simp
      have "?n - (i + n1) < ?n - i" "i + n1 \<le> ?n" using n1 True by auto
      moreover have "file_ok sb ip1 d1" using W by (simp add: file_wrote_def)
      ultimately obtain j k2 f2 ip2 d2 where 2: "filewrite_loop sb (from_kernel src) ?n (i + n1) f1 ip1 d1 = Inr (j, f2, ip2, d2)" "i + n1 + k2 \<le> ?n"
        "file_wrote sb f1 ip1 d1 (take k2 (drop (i + n1) src)) f2 ip2 d2" "j = ?n \<longleftrightarrow> i + n1 + k2 = ?n"
        "i + n1 + k2 < ?n \<longrightarrow> free_blocks sb d2 = {} \<or> unat (f_off f1) + (?n - (i + n1)) > MAXFILE * BSIZE"
        using less.hyps[of "i + n1" ip1 d1 f1] file_wrote_offset[OF W less.prems(2)] by blast
      have "take n1 (drop i src) @ take k2 (drop (i + n1) src) = take (n1 + k2) (drop i src)"
        by (simp only: take_add drop_drop add.commute[of n1 i])
      then have "file_wrote sb f ip d (take (n1 + k2) (drop i src)) f2 ip2 d2"
        using file_wrote_append[OF W 2(3) less.prems(2)] by simp
      moreover have "unat (f_off f1) = unat (f_off f) + n1" using W len by (simp add: file_wrote_def)
      moreover have "nat r = n1" "r = int n1" using k(3) eq by simp_all
      ultimately show ?thesis
        using run 2 n1(1) by (intro exI[of _ j] exI[of _ "n1 + k2"] exI[of _ f2] exI[of _ ip2] exI[of _ d2]) (auto simp: add.assoc)
    qed
  qed
qed

section \<open>Writing and reading an open file\<close>

lemma write_beyond:
  assumes "unat (i_size ip) < unat (f_off f)" "src \<noteq> []" "writable f" "f_type f = FD_INODE"
  shows "filewrite sb (from_kernel src) pw dw (int (length src)) f ip d = Inr (-1, f, ip, d)"
proof -
  have "i_size ip < f_off f" using assms(1) by (simp add: word_less_nat_alt)
  then have "writei sb g ip (f_off f) m d = Inr (-1, ip, d)" for g m by (simp add: writei_def)
  then have "filewrite_loop sb (from_kernel src) (length src) 0 f ip d = Inr (0, f, ip, d)"
    using assms(2) by (subst filewrite_loop.simps) (simp add: Let_def)
  then show ?thesis using assms(2-4) by (simp add: filewrite_def)
qed

lemma read_beyond:
  assumes "unat (i_size ip) < unat (f_off f)" "readable f" "f_type f = FD_INODE"
  shows "fileread sb accept pr dr n f ip d = Inr (0, [], f, ip, d)"
proof -
  have "i_size ip < f_off f" using assms(1) by (simp add: word_less_nat_alt)
  then show ?thesis using assms(2, 3) by (simp add: fileread_def readi_def)
qed

text \<open>
  C32: Writing to an open file at its offset, in pieces, when the offset is not beyond the end of the
  file and the bytes to write can be copied in, stores a prefix of the data there, advances the
  offset by its length and changes no other file. It returns the number of bytes when all of them are
  stored and \<open>-1\<close> otherwise, which happens then only when the disk is full or the file would exceed its
  largest size. Reading as many bytes from where the write began, into memory that takes them, returns
  them and ends at the same offset. At an offset beyond the end, which truncating a file leaves other
  open files with, a write of anything fails, a read finds nothing, and both leave all as it is.
\<close>

theorem filewrite_fileread:
  assumes ok: "file_ok sb ip d" and rw: "readable f" "writable f" "f_type f = FD_INODE"
  shows "if unat (f_off f) \<le> unat (i_size ip)
    then \<exists>k f' ip' d'. filewrite sb (from_kernel src) pw dw (int (length src)) f ip d =
        Inr (if k = length src then int k else -1, f', ip', d') \<and> k \<le> length src \<and>
      (k < length src \<longrightarrow> free_blocks sb d' = {} \<or> unat (f_off f) + length src > MAXFILE * BSIZE) \<and>
      file_wrote sb f ip d (take k src) f' ip' d' \<and>
      fileread sb (\<lambda>_ _. True) pr dr (int k) f ip' d' = Inr (int k, take k src, f', ip', d')
    else (src \<noteq> [] \<longrightarrow> filewrite sb (from_kernel src) pw dw (int (length src)) f ip d = Inr (-1, f, ip, d)) \<and>
      fileread sb accept pr dr n f ip d = Inr (0, [], f, ip, d)"
proof (cases "unat (f_off f) \<le> unat (i_size ip)")
  case False
  then show ?thesis using write_beyond[of ip f src] read_beyond[of ip f] rw by simp
next
  case off: True
  obtain j k f' ip' d' where run: "filewrite_loop sb (from_kernel src) (length src) 0 f ip d = Inr (j, f', ip', d')"
    and k: "k \<le> length src" "file_wrote sb f ip d (take k src) f' ip' d'" "j = length src \<longleftrightarrow> k = length src"
      "k < length src \<longrightarrow> free_blocks sb d' = {} \<or> unat (f_off f) + length src > MAXFILE * BSIZE"
    using filewrite_loop_ok[OF ok off, of 0 src] by auto
  have len: "length (take k src) = k" using k(1) by simp
  have W: "file_ok sb ip' d'" "contents ip' d' = spliced (unat (f_off f)) (take k src) (contents ip d)"
    "f' = f\<lparr>f_off := f_off f'\<rparr>" "unat (f_off f') = unat (f_off f) + k"
    using k(2) len unfolding file_wrote_def by auto
  have le: "unat (f_off f') \<le> unat (i_size ip')" by (rule file_wrote_offset[OF k(2) off])
  have size: "unat (i_size ip') \<le> 274432" using W(1) MAXFILE_bytes by (simp add: file_ok_def)
  have uk: "unat (of_nat k :: 32 word) = k" using W(4) le size by (intro unat_small) simp
  have "take k (drop (unat (f_off f)) (contents ip' d')) = take k src"
    using off len unfolding W(2) spliced_def by (simp add: min_def)
  moreover have "f_off f \<le> i_size ip'" "unat (f_off f) + unat (of_nat k :: 32 word) < 2 ^ 32"
    using W(4) le size uk by (simp_all add: word_le_nat_alt)
  ultimately have rd: "readi sb (\<lambda>_ _. True) ip' (f_off f) (of_nat k) d' = Inr (int k, take k src, ip', d')"
    using readi_contents[OF W(1)] uk len le W(4) by (simp add: Let_def)
  have "unat (f_off f + of_nat k) = unat (f_off f) + k" using W(4) le size uk by (simp add: unat_word_ariths)
  then have "f_off f' = f_off f + of_nat k" using W(4) by (intro word_unat_eq_iff[THEN iffD2]) simp
  then have "f' = f\<lparr>f_off := f_off f + of_nat k\<rparr>" using W(3) by metis
  then have f': "(if int k > 0 then f\<lparr>f_off := f_off f + of_nat k\<rparr> else f) = f'" by (cases "k = 0") simp_all
  have "fileread sb (\<lambda>_ _. True) pr dr (int k) f ip' d' = Inr (int k, take k src, f', ip', d')"
    using rd f' rw by (auto simp: fileread_def)
  moreover have "filewrite sb (from_kernel src) pw dw (int (length src)) f ip d =
      Inr (if k = length src then int k else -1, f', ip', d')"
    using run k(3) rw by (simp add: filewrite_def)
  ultimately show ?thesis using k off by auto
qed

text \<open>Three bytes written through a fresh descriptor of an empty file.\<close>

definition fresh_file :: kfile where
  "fresh_file = no_file\<lparr>f_type := FD_INODE, f_ref := 1, readable := True, writable := True\<rparr>"

theorem filewrite_fileread_witness:
  "\<exists>k f' ip' d'. filewrite small_sb (from_kernel [1, 2, 3]) (\<lambda>_ _. 0) (\<lambda>_. None) 3 fresh_file empty_inode small_disk =
      Inr (if k = 3 then 3 else -1, f', ip', d') \<and>
    fileread small_sb (\<lambda>_ _. True) (\<lambda>_ _. (0, [])) (\<lambda>_. None) (int k) fresh_file ip' d' = Inr (int k, take k [1, 2, 3], f', ip', d')"
proof -
  have "IBLOCK (inum empty_inode) small_sb < sb_bmapstart small_sb" by (simp add: IBLOCK_def IPB_def empty_inode_def small_sb_def)
  then have ok: "file_ok small_sb empty_inode small_disk" using small_ok by (simp add: file_ok_def empty_inode_def)
  have off: "unat (f_off fresh_file) \<le> unat (i_size empty_inode)"
    by (simp add: fresh_file_def no_file_def)
  have pre: "readable fresh_file" "writable fresh_file" "f_type fresh_file = FD_INODE"
    by (simp_all add: fresh_file_def no_file_def)
  have three: "length [1, 2, 3 :: byte] = 3" "int 3 = 3" by simp_all
  from filewrite_fileread[OF ok pre, of "[1, 2, 3]" "\<lambda>_ _. 0" "\<lambda>_. None" "\<lambda>_ _. (0, [])" "\<lambda>_. None", unfolded three] off obtain k f' ip' d' where
    "filewrite small_sb (from_kernel [1, 2, 3]) (\<lambda>_ _. 0) (\<lambda>_. None) 3 fresh_file empty_inode small_disk = Inr (if k = 3 then int k else -1, f', ip', d')"
    "fileread small_sb (\<lambda>_ _. True) (\<lambda>_ _. (0, [])) (\<lambda>_. None) (int k) fresh_file ip' d' = Inr (int k, take k [1, 2, 3], f', ip', d')"
    by auto
  then show ?thesis by (intro exI[of _ k] exI[of _ f'] exI[of _ ip'] exI[of _ d']) simp
qed

end
