(* ===== verification/Bio.thy ===== *)
theory Bio
  imports Prelude "HOL-Library.Monad_Syntax"
begin

text \<open>
  The buffer cache, \<^verbatim>\<open>kernel/bio.c\<close>: a fixed set of buffers on a circular doubly linked list in the
  order of their last use. A buffer is its index and \<open>HEAD\<close>, the index behind the last, is the list
  head; \<open>nxt\<close> and \<open>prv\<close> are the link fields. Of the sleep lock of a buffer the model has its holder;
  a caller that finds it taken waits. The disk driver's \<^verbatim>\<open>virtio_disk_rw\<close> transfers one block
  between a buffer and the disk.
\<close>

section \<open>State\<close>

definition NBUF :: nat where "NBUF = 30"

definition HEAD :: nat where "HEAD = NBUF"

record 'd buf =
  b_valid :: bool
  b_dev :: nat
  b_blockno :: nat
  b_holder :: "nat option"
  b_refcnt :: "32 word"
  b_data :: 'd

record 'd bcache =
  bufs :: "nat \<Rightarrow> 'd buf"
  nxt :: "nat \<Rightarrow> nat"
  prv :: "nat \<Rightarrow> nat"
  bdisk :: "nat \<Rightarrow> nat \<Rightarrow> 'd"

definition set_buf :: "nat \<Rightarrow> ('d buf \<Rightarrow> 'd buf) \<Rightarrow> 'd bcache \<Rightarrow> 'd bcache" where
  "set_buf b f s = s\<lparr>bufs := (bufs s)(b := f (bufs s b))\<rparr>"

section \<open>Operations\<close>

text \<open>Linking a buffer in behind the head.\<close>

definition push_front :: "nat \<Rightarrow> 'd bcache \<Rightarrow> 'd bcache" where
  "push_front b s =
    (let s = s\<lparr>nxt := (nxt s)(b := nxt s HEAD), prv := (prv s)(b := HEAD)\<rparr>;
         s = s\<lparr>prv := (prv s)(nxt s HEAD := b)\<rparr> in
     s\<lparr>nxt := (nxt s)(HEAD := b)\<rparr>)"

definition unlink :: "nat \<Rightarrow> 'd bcache \<Rightarrow> 'd bcache" where
  "unlink b s =
    (let s = s\<lparr>prv := (prv s)(nxt s b := prv s b)\<rparr> in s\<lparr>nxt := (nxt s)(prv s b := nxt s b)\<rparr>)"

definition binit :: "'d bcache \<Rightarrow> 'd bcache" where
  "binit s = fold push_front [0..<NBUF] (s\<lparr>nxt := (nxt s)(HEAD := HEAD), prv := (prv s)(HEAD := HEAD)\<rparr>)"

text \<open>A walk along a link field to the head, for the first buffer that satisfies a test.\<close>

partial_function (option) walk :: "(nat \<Rightarrow> nat) \<Rightarrow> (nat \<Rightarrow> bool) \<Rightarrow> nat \<Rightarrow> nat option option" where
  "walk nx P b = (if b = HEAD then Some None else if P b then Some (Some b) else walk nx P (nx b))"

definition is_block :: "nat \<Rightarrow> nat \<Rightarrow> 'd bcache \<Rightarrow> nat \<Rightarrow> bool" where
  "is_block dev blockno s b \<longleftrightarrow> b_dev (bufs s b) = dev \<and> b_blockno (bufs s b) = blockno"

text \<open>
  The part of \<^verbatim>\<open>bget\<close> under the lock of the cache; \<^const>\<open>None\<close> stands for a walk that never ends.
\<close>

definition bget_ref :: "nat \<Rightarrow> nat \<Rightarrow> 'd bcache \<Rightarrow> (fault + nat \<times> 'd bcache) option" where
  "bget_ref dev blockno s =
    do {
      hit \<leftarrow> walk (nxt s) (is_block dev blockno s) (nxt s HEAD);
      case hit of
        Some b \<Rightarrow> Some (Inr (b, set_buf b (\<lambda>x. x\<lparr>b_refcnt := b_refcnt x + 1\<rparr>) s))
      | None \<Rightarrow> do {
          free \<leftarrow> walk (prv s) (\<lambda>b. b_refcnt (bufs s b) = 0) (prv s HEAD);
          case free of
            Some b \<Rightarrow> Some (Inr (b, set_buf b (\<lambda>x. x\<lparr>b_dev := dev, b_blockno := blockno, b_valid := False, b_refcnt := 1\<rparr>) s))
          | None \<Rightarrow> Some (Inl (Panic ''bget: no buffers''))
        }
    }"

datatype 'a buf_result = Got 'a | Waits 'a

definition lock_buf :: "nat \<Rightarrow> nat \<Rightarrow> 'd bcache \<Rightarrow> nat buf_result \<times> 'd bcache" where
  "lock_buf me b s =
    (if b_holder (bufs s b) = None then (Got b, set_buf b (\<lambda>x. x\<lparr>b_holder := Some me\<rparr>) s) else (Waits b, s))"

text \<open>\<^verbatim>\<open>bread\<close> once it holds the lock of the buffer.\<close>

definition fill :: "nat \<Rightarrow> 'd bcache \<Rightarrow> 'd bcache" where
  "fill b s =
    (if \<not> b_valid (bufs s b)
     then set_buf b (\<lambda>x. x\<lparr>b_data := bdisk s (b_dev x) (b_blockno x), b_valid := True\<rparr>) s else s)"

definition bread :: "nat \<Rightarrow> nat \<Rightarrow> nat \<Rightarrow> 'd bcache \<Rightarrow> (fault + nat buf_result \<times> 'd bcache) option" where
  "bread me dev blockno s =
    map_option (\<lambda>r. rbind r (\<lambda>(b, s). case lock_buf me b s of
      (Got b, s) \<Rightarrow> Inr (Got b, fill b s) | (Waits b, s) \<Rightarrow> Inr (Waits b, s))) (bget_ref dev blockno s)"

definition buf_write :: "nat \<Rightarrow> nat \<Rightarrow> 'd bcache \<Rightarrow> fault + 'd bcache" where
  "buf_write me b s =
    (if b_holder (bufs s b) \<noteq> Some me then Inl (Panic ''bwrite'')
     else let x = bufs s b in
       Inr (s\<lparr>bdisk := (bdisk s)(b_dev x := (bdisk s (b_dev x))(b_blockno x := b_data x))\<rparr>))"

definition brelse :: "nat \<Rightarrow> nat \<Rightarrow> 'd bcache \<Rightarrow> fault + 'd bcache" where
  "brelse me b s =
    (if b_holder (bufs s b) \<noteq> Some me then Inl (Panic ''brelse'')
     else let s = set_buf b (\<lambda>x. x\<lparr>b_holder := None\<rparr>) s;
              s = set_buf b (\<lambda>x. x\<lparr>b_refcnt := b_refcnt x - 1\<rparr>) s in
       Inr (if b_refcnt (bufs s b) = 0 then push_front b (unlink b s) else s))"

definition bpin :: "nat \<Rightarrow> 'd bcache \<Rightarrow> 'd bcache" where
  "bpin b = set_buf b (\<lambda>x. x\<lparr>b_refcnt := b_refcnt x + 1\<rparr>)"

definition bunpin :: "nat \<Rightarrow> 'd bcache \<Rightarrow> 'd bcache" where
  "bunpin b = set_buf b (\<lambda>x. x\<lparr>b_refcnt := b_refcnt x - 1\<rparr>)"

section \<open>Doubly linked segments\<close>

text \<open>The nodes \<open>xs\<close> lie between \<open>a\<close> and \<open>z\<close>, linked in both directions.\<close>

primrec seg :: "(nat \<Rightarrow> nat) \<Rightarrow> (nat \<Rightarrow> nat) \<Rightarrow> nat \<Rightarrow> nat list \<Rightarrow> nat \<Rightarrow> bool" where
  "seg nx pv a [] z \<longleftrightarrow> nx a = z \<and> pv z = a"
| "seg nx pv a (x # xs) z \<longleftrightarrow> nx a = x \<and> pv x = a \<and> seg nx pv x xs z"

lemma seg_append: "seg nx pv a (xs @ b # ys) z \<longleftrightarrow> seg nx pv a xs b \<and> seg nx pv b ys z"
  by (induction xs arbitrary: a) auto

lemma seg_rev: "seg nx pv a xs z \<Longrightarrow> seg pv nx z (rev xs) a"
  by (induction xs arbitrary: a) (auto simp: seg_append)

lemma seg_frame:
  "(\<And>x. x \<in> set (a # xs) \<Longrightarrow> nx' x = nx x) \<Longrightarrow> (\<And>x. x \<in> set (xs @ [z]) \<Longrightarrow> pv' x = pv x) \<Longrightarrow>
    seg nx' pv' a xs z \<longleftrightarrow> seg nx pv a xs z"
  by (induction xs arbitrary: a) auto

lemma seg_ends: "seg nx pv a xs z \<Longrightarrow> nx a = hd (xs @ [z]) \<and> pv z = last (a # xs)"
  by (induction xs arbitrary: a) auto

lemma seg_join:
  assumes "seg nx pv a ys b" "seg nx pv b zs z" "distinct (a # ys @ b # zs)" "z \<notin> set (ys @ b # zs)"
  shows "seg (nx(pv b := nx b)) (pv(nx b := pv b)) a (ys @ zs) z"
  using assms
proof (induction ys arbitrary: a)
  case Nil
  show ?case
  proof (cases zs)
    case (Cons c cs)
    define nx' pv' where d: "nx' = nx(pv b := nx b)" "pv' = pv(nx b := pv b)"
    have "seg nx' pv' c cs z \<longleftrightarrow> seg nx pv c cs z" using Nil Cons by (intro seg_frame) (auto simp: d)
    moreover have "nx' a = c" "pv' c = a" using Nil Cons by (auto simp: d)
    ultimately show ?thesis using Nil Cons unfolding d[symmetric] by simp
  qed (use Nil in simp)
next
  case (Cons y ys)
  have "pv b \<in> set (y # ys)" using seg_ends[of nx pv y ys b] Cons.prems(1) by (metis last_in_set list.distinct(1) seg.simps(2))
  moreover have "nx b \<in> set (zs @ [z])" using seg_ends[OF Cons.prems(2)] by (metis hd_in_set append_is_Nil_conv list.distinct(1))
  moreover define nx' pv' where d: "nx' = nx(pv b := nx b)" "pv' = pv(nx b := pv b)"
  ultimately have "nx' a = y" "pv' y = a" using Cons.prems by auto
  moreover have "seg nx' pv' y (ys @ zs) z" unfolding d by (rule Cons.IH) (use Cons.prems in auto)
  ultimately show ?case unfolding d[symmetric] by simp
qed

lemma seg_push:
  assumes "seg nx pv h xs h" "b \<notin> set (h # xs)" "distinct (h # xs)"
  shows "seg (nx(b := nx h, h := b)) (pv(b := h, nx h := b)) h (b # xs) h"
proof (cases xs)
  case (Cons x ys)
  define nx' pv' where d: "nx' = nx(b := nx h, h := b)" "pv' = pv(b := h, nx h := b)"
  have "seg nx' pv' x ys h \<longleftrightarrow> seg nx pv x ys h" using assms Cons by (intro seg_frame) (auto simp: d)
  moreover have "nx' h = b" "pv' b = h" "nx' b = x" "pv' x = b" using assms Cons by (auto simp: d)
  ultimately show ?thesis using assms Cons unfolding d[symmetric] by simp
qed (use assms in auto)

lemma walk_seg: "seg nx pv a xs HEAD \<Longrightarrow> HEAD \<notin> set xs \<Longrightarrow> walk nx P (nx a) = Some (find P xs)"
  by (induction xs arbitrary: a) (simp_all add: walk.simps)

section \<open>The cache as a list in order of use\<close>

text \<open>The list of the buffers, most recently used first; no two buffers hold the same block of a device.\<close>

definition in_order :: "'d bcache \<Rightarrow> nat list \<Rightarrow> bool" where
  "in_order s xs \<longleftrightarrow> seg (nxt s) (prv s) HEAD xs HEAD \<and> distinct xs \<and> set xs = {..<NBUF}"

definition one_copy :: "'d bcache \<Rightarrow> bool" where
  "one_copy s \<longleftrightarrow> (\<forall>a < NBUF. \<forall>b < NBUF. b_dev (bufs s a) \<noteq> 0 \<longrightarrow> b_dev (bufs s a) = b_dev (bufs s b) \<longrightarrow>
     b_blockno (bufs s a) = b_blockno (bufs s b) \<longrightarrow> a = b)"

lemma one_copy_same:
  "(\<And>c. b_dev (bufs t c) = b_dev (bufs s c)) \<Longrightarrow> (\<And>c. b_blockno (bufs t c) = b_blockno (bufs s c)) \<Longrightarrow>
    one_copy t \<longleftrightarrow> one_copy s"
  unfolding one_copy_def by simp

lemma set_buf_frame [simp]: "nxt (set_buf b f s) = nxt s" "prv (set_buf b f s) = prv s"
  "in_order (set_buf b f s) xs = in_order s xs" "bufs (set_buf b f s) = (bufs s)(b := f (bufs s b))"
  by (simp_all add: set_buf_def in_order_def)

lemma HEAD_fresh: "in_order s xs \<Longrightarrow> HEAD \<notin> set xs"
  by (simp add: in_order_def HEAD_def)

lemma push_front_seg:
  assumes "seg (nxt s) (prv s) HEAD xs HEAD" "distinct (HEAD # xs)" "b \<notin> set (HEAD # xs)"
  shows "seg (nxt (push_front b s)) (prv (push_front b s)) HEAD (b # xs) HEAD"
proof -
  have "nxt (push_front b s) = (nxt s)(b := nxt s HEAD, HEAD := b)"
    "prv (push_front b s) = (prv s)(b := HEAD, nxt s HEAD := b)"
    using assms(3) by (auto simp: push_front_def Let_def)
  then show ?thesis using seg_push[OF assms(1,3,2)] by (simp only:)
qed

lemma unlink_seg:
  assumes "seg (nxt s) (prv s) HEAD (ys @ b # zs) HEAD" "distinct (HEAD # ys @ b # zs)"
  shows "seg (nxt (unlink b s)) (prv (unlink b s)) HEAD (ys @ zs) HEAD"
proof -
  have parts: "seg (nxt s) (prv s) HEAD ys b" "seg (nxt s) (prv s) b zs HEAD" using assms(1) by (simp_all add: seg_append)
  have "nxt s b \<noteq> b" using seg_ends[OF parts(2)] assms(2) by (cases zs) auto
  then have "nxt (unlink b s) = (nxt s)(prv s b := nxt s b)" "prv (unlink b s) = (prv s)(nxt s b := prv s b)"
    by (auto simp: unlink_def Let_def)
  then show ?thesis using seg_join[OF parts] assms(2) by simp
qed

lemma binit_in_order: "in_order (binit s) (rev [0..<NBUF])"
proof -
  define s0 where "s0 = s\<lparr>nxt := (nxt s)(HEAD := HEAD), prv := (prv s)(HEAD := HEAD)\<rparr>"
  define t where "t k = fold push_front [0..<k] s0" for k
  have "k \<le> NBUF \<Longrightarrow> seg (nxt (t k)) (prv (t k)) HEAD (rev [0..<k]) HEAD" for k
  proof (induction k)
    case 0
    show ?case by (simp add: t_def s0_def)
  next
    case (Suc k)
    have "t (Suc k) = push_front k (t k)" by (simp add: t_def)
    moreover have "seg (nxt (push_front k (t k))) (prv (push_front k (t k))) HEAD (k # rev [0..<k]) HEAD"
      using Suc by (intro push_front_seg) (auto simp: HEAD_def)
    ultimately show ?case by simp
  qed
  then show ?thesis by (auto simp: in_order_def binit_def t_def s0_def)
qed

lemma push_front_bufs [simp]: "bufs (push_front b s) = bufs s" "bufs (unlink b s) = bufs s"
  by (simp_all add: push_front_def unlink_def Let_def)

lemma move_front:
  assumes "in_order s xs" "b < NBUF"
  shows "in_order (push_front b (unlink b s)) (b # remove1 b xs)"
proof -
  obtain ys zs where xs: "xs = ys @ b # zs" using assms by (metis in_order_def lessThan_iff split_list)
  have d: "distinct (HEAD # ys @ b # zs)" using assms(1) HEAD_fresh[OF assms(1)] by (simp add: in_order_def xs)
  have "seg (nxt (unlink b s)) (prv (unlink b s)) HEAD (ys @ zs) HEAD"
    using assms(1) d by (intro unlink_seg) (simp_all add: in_order_def xs)
  from push_front_seg[OF this, of b] d have "seg (nxt (push_front b (unlink b s))) (prv (push_front b (unlink b s))) HEAD (b # ys @ zs) HEAD"
    by auto
  moreover have "remove1 b xs = ys @ zs" using d by (simp add: xs remove1_append)
  ultimately show ?thesis using assms(1) d by (auto simp: in_order_def xs)
qed

lemma walk_order:
  assumes "in_order s xs"
  shows "walk (nxt s) P (nxt s HEAD) = Some (find P xs)" "walk (prv s) P (prv s HEAD) = Some (find P (rev xs))"
  using walk_seg[of "nxt s" "prv s" HEAD xs P] walk_seg[of "prv s" "nxt s" HEAD "rev xs" P]
    seg_rev[of "nxt s" "prv s" HEAD xs HEAD] assms HEAD_fresh[OF assms] by (simp_all add: in_order_def)

text \<open>What \<^verbatim>\<open>bget\<close> and \<^verbatim>\<open>brelse\<close> do to the list, the abstract least-recently-used cache.\<close>

definition lru_get :: "nat \<Rightarrow> nat \<Rightarrow> 'd bcache \<Rightarrow> nat list \<Rightarrow> fault + nat" where
  "lru_get dev blockno s xs =
    (case find (is_block dev blockno s) xs of Some b \<Rightarrow> Inr b
     | None \<Rightarrow> (case find (\<lambda>b. b_refcnt (bufs s b) = 0) (rev xs) of Some b \<Rightarrow> Inr b
         | None \<Rightarrow> Inl (Panic ''bget: no buffers'')))"

lemma find_in: "find P xs = Some b \<Longrightarrow> b \<in> set xs \<and> P b"
  by (auto simp: find_Some_iff)

lemma find_out: "find P xs = None \<Longrightarrow> b \<in> set xs \<Longrightarrow> \<not> P b"
  by (simp add: find_None_iff)

lemma bget_lru:
  assumes "in_order s xs" "one_copy s" "dev \<noteq> 0"
  shows "case lru_get dev blockno s xs of
      Inl e \<Rightarrow> bget_ref dev blockno s = Some (Inl e) \<and> (\<forall>b < NBUF. b_refcnt (bufs s b) \<noteq> 0)
    | Inr b \<Rightarrow> \<exists>s'. bget_ref dev blockno s = Some (Inr (b, s')) \<and> b < NBUF \<and> in_order s' xs \<and> one_copy s' \<and>
        is_block dev blockno s' b \<and> (\<forall>c < NBUF. is_block dev blockno s' c \<longrightarrow> c = b) \<and>
        (is_block dev blockno s b \<or> b_refcnt (bufs s b) = 0) \<and> (\<forall>c. c \<noteq> b \<longrightarrow> bufs s' c = bufs s c)"
proof (cases "find (is_block dev blockno s) xs")
  case (Some b)
  let ?s = "set_buf b (\<lambda>x. x\<lparr>b_refcnt := b_refcnt x + 1\<rparr>) s"
  have b: "b < NBUF" "is_block dev blockno s b" using find_in[OF Some] assms(1) by (auto simp: in_order_def)
  have r: "bget_ref dev blockno s = Some (Inr (b, ?s))" using Some by (simp add: bget_ref_def walk_order[OF assms(1)])
  have "one_copy ?s \<longleftrightarrow> one_copy s" by (rule one_copy_same) simp_all
  then have "one_copy ?s" using assms(2) by simp
  moreover have "c = b" if "c < NBUF" "is_block dev blockno ?s c" for c
  proof -
    have "is_block dev blockno s c" using that(2) by (auto simp: is_block_def split: if_splits)
    then show ?thesis using that(1) b assms(2,3) unfolding one_copy_def is_block_def by metis
  qed
  moreover have "is_block dev blockno ?s b" using b(2) by (simp add: is_block_def)
  moreover have L: "lru_get dev blockno s xs = Inr b" using Some by (simp add: lru_get_def)
  ultimately show ?thesis unfolding L sum.case using r b assms(1) by (intro exI[of _ ?s] conjI) auto
next
  case None
  have out: "\<not> is_block dev blockno s c" if "c < NBUF" for c using find_out[OF None] that assms(1) by (auto simp: in_order_def)
  show ?thesis
  proof (cases "find (\<lambda>b. b_refcnt (bufs s b) = 0) (rev xs)")
    case (Some b)
    let ?s = "set_buf b (\<lambda>x. x\<lparr>b_dev := dev, b_blockno := blockno, b_valid := False, b_refcnt := 1\<rparr>) s"
    have b: "b < NBUF" "b_refcnt (bufs s b) = 0" using find_in[OF Some] assms(1) by (auto simp: in_order_def)
    have r: "bget_ref dev blockno s = Some (Inr (b, ?s))" using None Some by (simp add: bget_ref_def walk_order[OF assms(1)])
    have "one_copy ?s" unfolding one_copy_def
    proof (intro allI impI)
      fix c e assume h: "c < NBUF" "e < NBUF" "b_dev (bufs ?s c) \<noteq> 0" "b_dev (bufs ?s c) = b_dev (bufs ?s e)"
        "b_blockno (bufs ?s c) = b_blockno (bufs ?s e)"
      show "c = e"
      proof (cases "c = b \<or> e = b")
        case True
        then show ?thesis using h(4,5) out[OF h(1)] out[OF h(2)] by (auto simp: is_block_def split: if_splits)
      next
        case False
        then show ?thesis using h assms(2) unfolding one_copy_def by simp
      qed
    qed
    moreover have "c = b" if "c < NBUF" "is_block dev blockno ?s c" for c
      using that out[OF that(1)] by (auto simp: is_block_def split: if_splits)
    moreover have "is_block dev blockno ?s b" by (simp add: is_block_def)
    moreover have L: "lru_get dev blockno s xs = Inr b" using None Some by (simp add: lru_get_def)
    ultimately show ?thesis unfolding L sum.case using r b assms(1) by (intro exI[of _ ?s] conjI) auto
  next
    case none: None
    then have "bget_ref dev blockno s = Some (Inl (Panic ''bget: no buffers''))"
      using None by (simp add: bget_ref_def walk_order[OF assms(1)])
    moreover have "b_refcnt (bufs s b) \<noteq> 0" if "b < NBUF" for b using find_out[OF none] that assms(1) by (auto simp: in_order_def)
    ultimately show ?thesis using None none by (simp add: lru_get_def)
  qed
qed

text \<open>
  C33: The buffer cache is a least-recently-used cache: its pointer list always holds every buffer
  once, \<^verbatim>\<open>bget\<close> ends and finds the one buffer that holds the block, or else recycles the unused
  buffer released longest ago, panicking exactly when all buffers are in use; no block ever has two
  buffers, a buffer in use is never recycled, and \<^verbatim>\<open>brelse\<close> of the last reference moves the buffer to
  the front of the list.
\<close>

theorem bcache_lru:
  assumes "in_order s xs" "one_copy s" "dev \<noteq> 0"
  shows "in_order (binit s) (rev [0..<NBUF]) \<and>
    (case lru_get dev blockno s xs of
      Inl e \<Rightarrow> bget_ref dev blockno s = Some (Inl e) \<and> (\<forall>b < NBUF. b_refcnt (bufs s b) \<noteq> 0)
    | Inr b \<Rightarrow> \<exists>s'. bget_ref dev blockno s = Some (Inr (b, s')) \<and> b < NBUF \<and> in_order s' xs \<and> one_copy s' \<and>
        is_block dev blockno s' b \<and> (\<forall>c < NBUF. is_block dev blockno s' c \<longrightarrow> c = b) \<and>
        (is_block dev blockno s b \<or> b_refcnt (bufs s b) = 0) \<and> (\<forall>c. c \<noteq> b \<longrightarrow> bufs s' c = bufs s c)) \<and>
    (\<forall>me b s'. b < NBUF \<longrightarrow> brelse me b s = Inr s' \<longrightarrow> one_copy s' \<and>
      in_order s' (if b_refcnt (bufs s b) = 1 then b # remove1 b xs else xs))"
proof -
  have rel: "one_copy s' \<and> in_order s' (if b_refcnt (bufs s b) = 1 then b # remove1 b xs else xs)"
    if "b < NBUF" "brelse me b s = Inr s'" for me b s'
  proof -
    let ?t = "set_buf b (\<lambda>x. x\<lparr>b_refcnt := b_refcnt x - 1\<rparr>) (set_buf b (\<lambda>x. x\<lparr>b_holder := None\<rparr>) s)"
    have s': "s' = (if b_refcnt (bufs s b) = 1 then push_front b (unlink b ?t) else ?t)"
      using that(2) by (auto simp: brelse_def Let_def split: if_splits)
    have "one_copy s' \<longleftrightarrow> one_copy s" by (rule one_copy_same) (simp_all add: s')
    then have "one_copy s'" using assms(2) by simp
    moreover have t: "in_order ?t xs" using assms(1) by simp
    ultimately show ?thesis using move_front[OF t that(1)] unfolding s' by (simp split: if_splits)
  qed
  show ?thesis using binit_in_order bget_lru[OF assms] rel by blast
qed

theorem bcache_lru_witness:
  "\<exists>s :: nat bcache. in_order s (rev [0..<NBUF]) \<and> one_copy s \<and> lru_get 1 7 s (rev [0..<NBUF]) = Inr 0 \<and>
    (\<exists>s'. bget_ref 1 7 s = Some (Inr (0, s')))"
proof -
  let ?b = "\<lparr>b_valid = False, b_dev = 0, b_blockno = 0, b_holder = None, b_refcnt = 0, b_data = 0 :: nat\<rparr>"
  define z where "z = \<lparr>bufs = (\<lambda>_. ?b), nxt = (\<lambda>_. 0), prv = (\<lambda>_. 0), bdisk = (\<lambda>_ _. 0)\<rparr>"
  have "bufs (fold push_front xs t) = bufs t" for xs and t :: "nat bcache" by (induction xs arbitrary: t) simp_all
  then have bufs: "bufs (binit z) = (\<lambda>_. ?b)" by (simp add: binit_def z_def)
  have o: "one_copy (binit z)" by (simp add: one_copy_def bufs)
  have "find (\<lambda>b. b_refcnt (bufs (binit z) b) = 0) (rev (rev [0..<NBUF])) = Some 0"
    by (simp add: bufs NBUF_def upt_rec[of 0])
  moreover have "find (is_block 1 7 (binit z)) (rev [0..<NBUF]) = None" by (simp add: is_block_def bufs find_None_iff)
  ultimately have "lru_get 1 7 (binit z) (rev [0..<NBUF]) = Inr 0" by (simp add: lru_get_def)
  with bcache_lru[OF binit_in_order[of z] o, of 1 7] o binit_in_order[of z] show ?thesis by auto
qed

end
