(* ===== verification/Sh.thy ===== *)
theory Sh
  imports Prelude
begin

text \<open>
  The parser of the shell, \<^verbatim>\<open>user/sh.c\<close>. The input from \<^verbatim>\<open>*ps\<close> to \<^verbatim>\<open>es\<close> is a list of bytes; a
  counted string \<^verbatim>\<open>q..eq\<close> is the list of its bytes, which \<^verbatim>\<open>nulterminate\<close> turns into a C string in
  place. A redirection parsed between the arguments wraps the command that is still being filled,
  so the arguments and the redirections of a simple command are collected side by side. The
  parsers recurse on what is left of the input; they count down a fuel, and \<^const>\<open>None\<close> is running
  out of it.
\<close>

section \<open>Commands\<close>

type_synonym bytes = "8 word list"

datatype cmd =
    EXEC "bytes list"
  | REDIR cmd bytes int int
  | PIPE cmd cmd
  | LIST cmd cmd
  | BACK cmd

definition MAXARGS :: nat where "MAXARGS = 10"

definition whitespace :: "8 word set" where
  "whitespace = {32, 9, 13, 10, 11}"

definition symbols :: "8 word set" where
  "symbols = {60, 124, 62, 38, 59, 40, 41}"

section \<open>Tokens\<close>

definition skip_space :: "bytes \<Rightarrow> bytes" where
  "skip_space s = dropWhile (\<lambda>c. c \<in> whitespace) s"

definition word_char :: "8 word \<Rightarrow> bool" where
  "word_char c \<longleftrightarrow> c \<notin> whitespace \<and> c \<notin> symbols"

text \<open>The kind of the token, 0 at the end and \<^verbatim>\<open>'a'\<close> (97) for a word, its text, and the rest.\<close>

definition gettoken :: "bytes \<Rightarrow> 8 word \<times> bytes \<times> bytes" where
  "gettoken s =
    (case skip_space s of
       [] \<Rightarrow> (0, [], [])
     | c # r \<Rightarrow>
         if c \<in> {124, 40, 41, 59, 38, 60} then (c, [c], skip_space r)
         else if c = 62 then
           if r \<noteq> [] \<and> hd r = 62 then (43, [c, 62], skip_space (tl r)) else (62, [c], skip_space r)
         else (97, takeWhile word_char (c # r), skip_space (dropWhile word_char (c # r))))"

definition peek :: "8 word list \<Rightarrow> bytes \<Rightarrow> bool" where
  "peek toks s = (case skip_space s of [] \<Rightarrow> False | c # _ \<Rightarrow> c \<in> set toks)"

section \<open>Parsers\<close>

type_synonym redir = "bytes \<times> int \<times> int"

definition O_RDONLY :: int where "O_RDONLY = 0x000"

definition O_WRONLY :: int where "O_WRONLY = 0x001"

definition O_CREATE :: int where "O_CREATE = 0x200"

definition O_TRUNC :: int where "O_TRUNC = 0x400"

definition redir_of :: "8 word \<Rightarrow> bytes \<Rightarrow> redir list" where
  "redir_of tok q =
    (if tok = 60 then [(q, O_RDONLY, 0)]
     else if tok = 62 then [(q, O_WRONLY + O_CREATE + O_TRUNC, 1)]
     else if tok = 43 then [(q, O_WRONLY + O_CREATE, 1)] else [])"

lemma skip_length: "length (skip_space s) \<le> length s"
  by (simp add: skip_space_def length_dropWhile_le)

lemma gettoken_length: "skip_space s \<noteq> [] \<Longrightarrow> length (snd (snd (gettoken s))) < length s"
proof (cases "skip_space s")
  case (Cons c r)
  have "length (c # r) \<le> length s" using skip_length[of s] Cons by simp
  moreover have "length (skip_space (dropWhile word_char (c # r))) < length (c # r)"
    if "word_char c" using that skip_length[of "dropWhile word_char r"] length_dropWhile_le[of word_char r] by simp
  moreover have "c \<notin> whitespace" using Cons unfolding skip_space_def by (metis dropWhile_eq_Cons_conv)
  moreover have "length (skip_space (tl r)) \<le> length r" using skip_length[of "tl r"] by simp
  ultimately show ?thesis
    using Cons skip_length[of r] by (auto simp: gettoken_def word_char_def symbols_def)
qed simp

function parseredirs :: "bytes \<Rightarrow> fault + (redir list \<times> bytes)" where
  "parseredirs s =
    (if peek [60, 62] s then
       let (tok, _, s1) = gettoken s; (w, q, s2) = gettoken s1 in
       if w \<noteq> 97 then Inl (Panic ''missing file for redirection'')
       else if length s2 < length s
       then rbind (parseredirs s2) (\<lambda>(rs, s3). Inr (redir_of tok q @ rs, s3)) else Inr ([], s2)
     else Inr ([], skip_space s))"
  by auto
termination by (relation "measure length") auto

text \<open>The words of a simple command, at most nine, and the redirections between them.\<close>

function parse_args :: "nat \<Rightarrow> bytes \<Rightarrow> fault + (bytes list \<times> redir list \<times> bytes)" where
  "parse_args argc s =
    (if peek [124, 41, 38, 59] s then Inr ([], [], skip_space s)
     else let (tok, q, s1) = gettoken s in
       if tok = 0 then Inr ([], [], s1)
       else if tok \<noteq> 97 then Inl (Panic ''syntax'')
       else if argc + 1 \<ge> MAXARGS then Inl (Panic ''too many args'')
       else rbind (parseredirs s1) (\<lambda>(rs, s2).
         rbind (parse_args (argc + 1) s2) (\<lambda>(args, rs', s3). Inr (q # args, rs @ rs', s3))))"
  by auto
termination by (relation "measure (\<lambda>(argc, s). MAXARGS - argc)") auto

definition redircmds :: "cmd \<Rightarrow> redir list \<Rightarrow> cmd" where
  "redircmds c rs = foldl (\<lambda>c (file, mode, fd). REDIR c file mode fd) c rs"

type_synonym 'a parse = "(fault + 'a) option"

definition pbind :: "'a parse \<Rightarrow> ('a \<Rightarrow> 'b parse) \<Rightarrow> 'b parse" where
  "pbind m f = (case m of None \<Rightarrow> None | Some (Inl e) \<Rightarrow> Some (Inl e) | Some (Inr x) \<Rightarrow> f x)"

definition token_rest :: "bytes \<Rightarrow> bytes" where
  "token_rest s = snd (snd (gettoken s))"

definition parse_simple :: "bytes \<Rightarrow> fault + (cmd \<times> bytes)" where
  "parse_simple s =
    rbind (parseredirs s) (\<lambda>(rs, s1).
      rbind (parse_args 0 s1) (\<lambda>(args, rs', s2). Inr (redircmds (EXEC args) (rs @ rs'), s2)))"

lemma peek_skip: "peek toks s \<Longrightarrow> skip_space s \<noteq> []"
  by (auto simp: peek_def)

lemma token_rest_less: "peek toks s \<Longrightarrow> length (token_rest s) < length s"
  using gettoken_length[OF peek_skip] by (simp add: token_rest_def)

function parse_backs :: "cmd \<Rightarrow> bytes \<Rightarrow> cmd \<times> bytes" where
  "parse_backs c s = (if peek [38] s then parse_backs (BACK c) (token_rest s) else (c, skip_space s))"
  by auto
termination by (relation "measure (\<lambda>(c, s). length s)") (auto intro: token_rest_less)

fun parseline :: "nat \<Rightarrow> bytes \<Rightarrow> (cmd \<times> bytes) parse"
  and parsepipe :: "nat \<Rightarrow> bytes \<Rightarrow> (cmd \<times> bytes) parse"
  and parseexec :: "nat \<Rightarrow> bytes \<Rightarrow> (cmd \<times> bytes) parse"
  and parseblock :: "nat \<Rightarrow> bytes \<Rightarrow> (cmd \<times> bytes) parse" where
  "parseline 0 s = None"
| "parseline (Suc n) s =
    pbind (parsepipe n s) (\<lambda>(c, s1).
      let (c, s2) = parse_backs c s1 in
      if peek [59] s2 then pbind (parseline n (token_rest s2)) (\<lambda>(d, s3). Some (Inr (LIST c d, s3)))
      else Some (Inr (c, skip_space s2)))"
| "parsepipe 0 s = None"
| "parsepipe (Suc n) s =
    pbind (parseexec n s) (\<lambda>(c, s1).
      if peek [124] s1 then pbind (parsepipe n (token_rest s1)) (\<lambda>(d, s2). Some (Inr (PIPE c d, s2)))
      else Some (Inr (c, skip_space s1)))"
| "parseexec 0 s = None"
| "parseexec (Suc n) s = (if peek [40] s then parseblock n s else Some (parse_simple s))"
| "parseblock 0 s = None"
| "parseblock (Suc n) s =
    (if \<not> peek [40] s then Some (Inl (Panic ''parseblock''))
     else pbind (parseline n (token_rest s)) (\<lambda>(c, s1).
       if \<not> peek [41] s1 then Some (Inl (Panic ''syntax - missing )''))
       else pbind (Some (parseredirs (token_rest s1))) (\<lambda>(rs, s2). Some (Inr (redircmds c rs, s2)))))"

definition parse_fuel :: "bytes \<Rightarrow> nat" where
  "parse_fuel s = 4 * length s + 4"

definition parsecmd :: "bytes \<Rightarrow> cmd parse" where
  "parsecmd s =
    pbind (parseline (parse_fuel s) s) (\<lambda>(c, s1).
      if skip_space s1 \<noteq> [] then Some (Inl (Panic ''syntax'')) else Some (Inr c))"

section \<open>The fuel is enough\<close>

definition shrinks :: "nat \<Rightarrow> (cmd \<times> bytes) parse \<Rightarrow> bool" where
  "shrinks k r \<longleftrightarrow> r \<noteq> None \<and> (\<forall>c s'. r = Some (Inr (c, s')) \<longrightarrow> length s' \<le> k)"

declare parseredirs.simps [simp del] parse_args.simps [simp del] parse_backs.simps [simp del]

lemma token_rest_le: "length (token_rest s) \<le> length s"
proof (cases "skip_space s = []")
  case True
  then show ?thesis by (simp add: token_rest_def gettoken_def)
next
  case False
  then show ?thesis using gettoken_length[of s] by (simp add: token_rest_def)
qed

lemma gettoken_le: "gettoken s = (t, q, s') \<Longrightarrow> length s' \<le> length s"
  using token_rest_le[of s] by (simp add: token_rest_def)

lemma parseredirs_le: "parseredirs s = Inr (rs, s') \<Longrightarrow> length s' \<le> length s"
proof (induction s arbitrary: rs s' rule: parseredirs.induct)
  case (1 s)
  obtain t q1 s1 where g1: "gettoken s = (t, q1, s1)" by (metis prod_cases3)
  obtain w q s2 where g2: "gettoken s1 = (w, q, s2)" by (metis prod_cases3)
  have le: "length s2 \<le> length s" using gettoken_le[OF g1] gettoken_le[OF g2] by simp
  show ?case
  proof (cases "peek [60, 62] s \<and> w = 97 \<and> length s2 < length s")
    case True
    then obtain rs2 where "parseredirs s2 = Inr (rs2, s')"
      using "1.prems" g1 g2 by (subst (asm) parseredirs.simps) (auto split: sum.splits)
    then have "length s' \<le> length s2" using "1.IH" True g1 g2 by metis
    then show ?thesis using le by simp
  next
    case False
    then have "s' = s2 \<or> s' = skip_space s"
      using "1.prems" g1 g2 by (subst (asm) parseredirs.simps) (auto split: if_splits)
    then show ?thesis using le skip_length by auto
  qed
qed

lemma parse_args_le: "parse_args n s = Inr (a, rs, s') \<Longrightarrow> length s' \<le> length s"
proof (induction n s arbitrary: a rs s' rule: parse_args.induct)
  case (1 n s)
  obtain t q s1 where g: "gettoken s = (t, q, s1)" by (metis prod_cases3)
  show ?case
  proof (cases "peek [124, 41, 38, 59] s \<or> t = 0")
    case True
    then have "s' = s1 \<or> s' = skip_space s"
      using "1.prems" g by (subst (asm) parse_args.simps) (auto split: if_splits)
    then show ?thesis using gettoken_le[OF g] skip_length by auto
  next
    case False
    then obtain rs1 s2 rs2 a2 where r: "parseredirs s1 = Inr (rs1, s2)" "parse_args (n + 1) s2 = Inr (a2, rs2, s')"
      and t: "t = 97" "\<not> MAXARGS \<le> n + 1"
      using "1.prems" g by (subst (asm) parse_args.simps) (auto split: sum.splits if_splits)
    have "length s' \<le> length s2" using "1.IH"[of "(t, q, s1)"] g False t r by auto
    then show ?thesis using parseredirs_le[OF r(1)] gettoken_le[OF g] by simp
  qed
qed

lemma parse_backs_le: "parse_backs c s = (d, s') \<Longrightarrow> length s' \<le> length s"
proof (induction c s rule: parse_backs.induct)
  case (1 c s)
  then show ?case
    using token_rest_le[of s] skip_length[of s]
    by (cases "peek [38] s") (auto simp: parse_backs.simps[of c s] intro: le_trans)
qed

lemma parse_simple_shrinks: "shrinks (length s) (Some (parse_simple s))"
  unfolding shrinks_def parse_simple_def
  by (auto dest!: parseredirs_le parse_args_le intro: le_trans)

lemma shrinks_pbind:
  assumes "shrinks k m" "\<And>c s'. length s' \<le> k \<Longrightarrow> shrinks k' (f (c, s'))"
  shows "shrinks k' (pbind m f)"
proof (cases m)
  case (Some r)
  then show ?thesis
    using assms by (cases r) (auto simp: shrinks_def pbind_def split: prod.splits)
qed (use assms in \<open>simp add: shrinks_def\<close>)

lemma shrinks_Inl [simp]: "shrinks k (Some (Inl e))"
  and shrinks_Inr [simp]: "shrinks k (Some (Inr (c, s))) \<longleftrightarrow> length s \<le> k"
  by (auto simp: shrinks_def)

lemma shrinks_mono: "shrinks k r \<Longrightarrow> k \<le> k' \<Longrightarrow> shrinks k' r"
  by (force simp: shrinks_def)

lemma redirs_shrinks: "length s \<le> k \<Longrightarrow>
    shrinks k (pbind (Some (parseredirs s)) (\<lambda>(rs, s'). Some (Inr (redircmds c rs, s'))))"
  using parseredirs_le[of s] by (cases "parseredirs s") (auto simp: pbind_def split: prod.splits)

lemma parse_shrinks:
  "4 * length s + 4 \<le> n \<Longrightarrow> shrinks (length s) (parseline n s)"
  "4 * length s + 3 \<le> n \<Longrightarrow> shrinks (length s) (parsepipe n s)"
  "4 * length s + 2 \<le> n \<Longrightarrow> shrinks (length s) (parseexec n s)"
  "4 * length s + 1 \<le> n \<Longrightarrow> shrinks (length s) (parseblock n s)"
proof (induction n arbitrary: s)
  case (Suc n)
  {
    case 1
    have "shrinks (length s) (let (c, s2) = parse_backs c s1 in
        if peek [59] s2 then pbind (parseline n (token_rest s2)) (\<lambda>(d, s3). Some (Inr (LIST c d, s3)))
        else Some (Inr (c, skip_space s2)))" if le: "length s1 \<le> length s" for c s1
    proof -
      obtain d s2 where b: "parse_backs c s1 = (d, s2)" by fastforce
      have "length s2 \<le> length s" using parse_backs_le[OF b] le by simp
      moreover from this have "shrinks (length (token_rest s2)) (parseline n (token_rest s2))" if "peek [59] s2"
        using token_rest_less[OF that] 1 by (intro Suc.IH(1)) simp
      ultimately show ?thesis
        using b token_rest_le[of s2] skip_length[of s2]
        by (auto intro!: shrinks_pbind[of "length (token_rest s2)"] intro: le_trans)
    qed
    then show ?case using 1 Suc.IH(2)[of s] by (auto intro!: shrinks_pbind)
  next
    case 2
    have "shrinks (length s) (if peek [124] s1
        then pbind (parsepipe n (token_rest s1)) (\<lambda>(d, s2). Some (Inr (PIPE c d, s2)))
        else Some (Inr (c, skip_space s1)))" if le: "length s1 \<le> length s" for c s1
    proof -
      have "shrinks (length (token_rest s1)) (parsepipe n (token_rest s1))" if "peek [124] s1"
        using token_rest_less[OF that] 2 le by (intro Suc.IH(2)) simp
      then show ?thesis
        using le token_rest_le[of s1] skip_length[of s1]
        by (auto intro!: shrinks_pbind[of "length (token_rest s1)"] intro: le_trans)
    qed
    then show ?case using 2 Suc.IH(3)[of s] by (auto intro!: shrinks_pbind)
  next
    case 3
    then show ?case using Suc.IH(4)[of s] parse_simple_shrinks[of s] by simp
  next
    case 4
    have "shrinks (length (token_rest s)) (parseline n (token_rest s))" if "peek [40] s"
      using token_rest_less[OF that] 4 by (intro Suc.IH(1)) simp
    then show ?case
      by (auto intro!: shrinks_pbind redirs_shrinks) (meson le_trans token_rest_le)
  }
qed simp_all

text \<open>The parser ends on every line, with a command or with one of its error messages.\<close>

lemma parsecmd_total: "parsecmd s \<noteq> None"
proof -
  have "shrinks (length s) (parseline (parse_fuel s) s)"
    by (rule parse_shrinks) (simp add: parse_fuel_def)
  then show ?thesis
    by (auto simp: parsecmd_def pbind_def shrinks_def split: option.splits sum.splits)
qed

section \<open>Printing a command back\<close>

text \<open>
  The printed form puts every operand in parentheses, so that it does not depend on precedences.
\<close>

fun show_words :: "bytes list \<Rightarrow> bytes" where
  "show_words [] = []"
| "show_words (w # ws) = w @ 32 # show_words ws"

definition redir_sym :: "int \<Rightarrow> bytes" where
  "redir_sym mode = (if mode = O_RDONLY then [60] else if mode = O_WRONLY + O_CREATE then [62, 62] else [62])"

fun show_cmd :: "cmd \<Rightarrow> bytes" where
  "show_cmd (EXEC ws) = show_words ws"
| "show_cmd (REDIR c file mode fd) = 40 # show_cmd c @ 41 # redir_sym mode @ file"
| "show_cmd (PIPE c d) = 40 # show_cmd c @ [41, 124, 40] @ show_cmd d @ [41]"
| "show_cmd (LIST c d) = 40 # show_cmd c @ [41, 59, 40] @ show_cmd d @ [41]"
| "show_cmd (BACK c) = 40 # show_cmd c @ [41, 38]"

definition word_ok :: "bytes \<Rightarrow> bool" where
  "word_ok w \<longleftrightarrow> w \<noteq> [] \<and> (\<forall>c\<in>set w. word_char c)"

fun cmd_ok :: "cmd \<Rightarrow> bool" where
  "cmd_ok (EXEC ws) \<longleftrightarrow> length ws < MAXARGS \<and> (\<forall>w\<in>set ws. word_ok w)"
| "cmd_ok (REDIR c file mode fd) \<longleftrightarrow> cmd_ok c \<and> word_ok file \<and>
    (mode, fd) \<in> {(O_RDONLY, 0), (O_WRONLY + O_CREATE + O_TRUNC, 1), (O_WRONLY + O_CREATE, 1)}"
| "cmd_ok (PIPE c d) \<longleftrightarrow> cmd_ok c \<and> cmd_ok d"
| "cmd_ok (LIST c d) \<longleftrightarrow> cmd_ok c \<and> cmd_ok d"
| "cmd_ok (BACK c) \<longleftrightarrow> cmd_ok c"

text \<open>What may follow a simple command or a block: nothing, or a symbol that is not a redirection.\<close>

definition stops :: "bytes \<Rightarrow> bool" where
  "stops r \<longleftrightarrow> r = [] \<or> hd r \<in> {124, 41, 38, 59}"

definition closes :: "bytes \<Rightarrow> bool" where
  "closes r \<longleftrightarrow> r = [] \<or> hd r = 41"

lemma closes_stops: "closes r \<Longrightarrow> stops r"
  by (auto simp: closes_def stops_def)

lemma skip_stops [simp]: "stops r \<Longrightarrow> skip_space r = r"
  by (cases r) (auto simp: stops_def skip_space_def whitespace_def)

lemma skip_symbol [simp]: "c \<in> symbols \<Longrightarrow> skip_space (c # r) = c # r"
  by (auto simp: skip_space_def whitespace_def symbols_def)

lemma skip_word [simp]: "word_ok w \<Longrightarrow> skip_space (w @ r) = w @ r"
  by (cases w) (auto simp: skip_space_def word_ok_def word_char_def)

lemma sep_word: "r = [] \<or> \<not> word_char (hd r) \<Longrightarrow> \<forall>c\<in>set w. word_char c \<Longrightarrow>
    takeWhile word_char (w @ r) = w \<and> dropWhile word_char (w @ r) = r"
  by (induction w) (cases r, auto)+

lemma gettoken_word:
  assumes "word_ok w" "r = [] \<or> \<not> word_char (hd r)"
  shows "gettoken (w @ r) = (97, w, skip_space r)"
proof -
  obtain c w' where w: "w = c # w'" "c \<notin> symbols" using assms(1) by (cases w) (auto simp: word_ok_def word_char_def)
  have "skip_space (c # w' @ r) = c # w' @ r" using skip_word[OF assms(1), of r] w by simp
  moreover have "takeWhile word_char (c # w' @ r) = w" "dropWhile word_char (c # w' @ r) = r"
    using sep_word[OF assms(2), of w] assms(1) w by (auto simp: word_ok_def)
  ultimately show ?thesis
    using w unfolding gettoken_def symbols_def by simp
qed

lemma parseredirs_none: "\<not> peek [60, 62] s \<Longrightarrow> parseredirs s = Inr ([], skip_space s)"
  by (simp add: parseredirs.simps)

lemma peek_stops [simp]: "stops r \<Longrightarrow> peek toks r \<longleftrightarrow> r \<noteq> [] \<and> hd r \<in> set toks"
  by (cases r) (auto simp: peek_def)

lemma peek_symbol [simp]: "c \<in> symbols \<Longrightarrow> peek toks (c # r) \<longleftrightarrow> c \<in> set toks"
  by (auto simp: peek_def)

lemma peek_word: "word_ok w \<Longrightarrow> set toks \<subseteq> symbols \<Longrightarrow> \<not> peek toks (w @ r)"
  using skip_word[of w r]
  by (cases w) (auto simp: peek_def word_ok_def word_char_def split: list.splits)

lemma parseredirs_stops [simp]: "stops r \<Longrightarrow> parseredirs r = Inr ([], r)"
  by (subst parseredirs_none) (auto simp: stops_def)

lemma show_words_start:
  assumes "\<forall>w\<in>set ws. word_ok w" "stops r"
  shows "skip_space (show_words ws @ r) = show_words ws @ r"
    and "\<not> peek [60, 62] (show_words ws @ r)"
    and "\<not> peek [40] (show_words ws @ r)"
  using assms peek_word[of _ "[60, 62]"] peek_word[of _ "[40]"]
  by (cases ws; auto simp: stops_def symbols_def)+

lemma parse_args_show:
  "n + length ws < MAXARGS \<Longrightarrow> \<forall>w\<in>set ws. word_ok w \<Longrightarrow> stops r \<Longrightarrow>
     parse_args n (show_words ws @ r) = Inr (ws, [], r)"
proof (induction ws arbitrary: n)
  case Nil
  then show ?case
    by (cases r) (auto simp: parse_args.simps gettoken_def stops_def)
next
  case (Cons w ws)
  let ?x = "show_words ws @ r"
  have "skip_space (32 # ?x) = ?x"
    using show_words_start(1)[of ws r] Cons.prems by (simp add: skip_space_def whitespace_def)
  moreover have "\<not> word_char 32" by (simp add: word_char_def whitespace_def)
  ultimately have "gettoken (w @ 32 # ?x) = (97, w, ?x)"
    using gettoken_word[of w "32 # ?x"] Cons.prems by simp
  moreover have "parseredirs ?x = Inr ([], ?x)"
    using show_words_start[of ws r] Cons.prems by (simp add: parseredirs_none)
  moreover have "\<not> peek [124, 41, 38, 59] (w @ 32 # ?x)"
    using peek_word[of w "[124, 41, 38, 59]"] Cons.prems by (simp add: symbols_def)
  ultimately show ?case
    using Cons by (subst parse_args.simps) simp
qed

lemma parse_simple_show:
  assumes "cmd_ok (EXEC ws)" "stops r"
  shows "parse_simple (show_words ws @ r) = Inr (EXEC ws, r)"
  using assms show_words_start[of ws r] parse_args_show[of 0 ws r]
  by (simp add: parse_simple_def parseredirs_none redircmds_def)

lemma token_rest_symbol: "c \<in> {124, 40, 41, 59, 38} \<Longrightarrow> token_rest (c # r) = skip_space r"
  by (auto simp: token_rest_def gettoken_def symbols_def)

lemma redirs_show:
  assumes "word_ok f" "stops r"
    and "(mode, fd) \<in> {(O_RDONLY, 0), (O_WRONLY + O_CREATE + O_TRUNC, 1), (O_WRONLY + O_CREATE, 1)}"
  shows "parseredirs (redir_sym mode @ f @ r) = Inr ([(f, mode, fd)], r)"
proof -
  have g2: "gettoken (f @ r) = (97, f, r)"
    using gettoken_word[of f r] assms by (auto simp: stops_def word_char_def symbols_def)
  have ne: "f \<noteq> []" "hd (f @ r) \<noteq> 62" "skip_space (f @ r) = f @ r"
    using assms(1) by (auto simp: word_ok_def word_char_def symbols_def hd_append)
  have g1: "gettoken (redir_sym mode @ f @ r) =
      (if mode = O_RDONLY then 60 else if mode = O_WRONLY + O_CREATE then 43 else 62, redir_sym mode, f @ r)"
    using ne by (auto simp: gettoken_def redir_sym_def symbols_def)
  have "peek [60, 62] (redir_sym mode @ f @ r)" by (simp add: redir_sym_def symbols_def)
  then show ?thesis
    using g1 g2 ne(1) assms(2, 3)
    by (subst parseredirs.simps) (auto simp: redir_of_def O_RDONLY_def O_WRONLY_def O_CREATE_def O_TRUNC_def)
qed

lemma show_cmd_start: "cmd_ok c \<Longrightarrow> stops r \<Longrightarrow> skip_space (show_cmd c @ r) = show_cmd c @ r"
  by (cases c) (auto simp: show_words_start symbols_def)

text \<open>A command in parentheses, once the parser reads back the command itself.\<close>

definition reads :: "cmd \<Rightarrow> bool" where
  "reads c \<longleftrightarrow> cmd_ok c \<and> (\<forall>r n. closes r \<longrightarrow> 4 * length (show_cmd c @ r) + 4 \<le> n \<longrightarrow>
     parseline n (show_cmd c @ r) = Some (Inr (c, r)))"

lemma parseexec_block:
  assumes c: "reads c" and n: "4 * length (40 # show_cmd c @ 41 # t) + 2 \<le> n" and t: "skip_space t = t"
  shows "parseexec n (40 # show_cmd c @ 41 # t) =
    pbind (Some (parseredirs t)) (\<lambda>(rs, s2). Some (Inr (redircmds c rs, s2)))"
proof -
  let ?s = "40 # show_cmd c @ 41 # t"
  obtain m where m: "n = Suc (Suc m)" "4 * length (show_cmd c @ 41 # t) + 4 \<le> m"
    using n by (cases n; cases "n - 1") auto
  have "token_rest ?s = show_cmd c @ 41 # t"
    using c show_cmd_start[of c "41 # t"] by (simp add: token_rest_symbol reads_def stops_def)
  moreover have "parseline m (show_cmd c @ 41 # t) = Some (Inr (c, 41 # t))"
    using c m(2) by (auto simp: reads_def closes_def)
  ultimately show ?thesis
    using m(1) t by (simp add: pbind_def symbols_def token_rest_symbol)
qed

lemma parseexec_plain_block:
  assumes "reads c" "4 * length (40 # show_cmd c @ 41 # t) + 2 \<le> n" "stops t"
  shows "parseexec n (40 # show_cmd c @ 41 # t) = Some (Inr (c, t))"
  using assms by (simp add: parseexec_block pbind_def redircmds_def del: parseexec.simps)

lemma parsepipe_block:
  assumes "reads c" "4 * length (40 # show_cmd c @ 41 # t) + 3 \<le> n" "stops t" "t = [] \<or> hd t \<noteq> 124"
  shows "parsepipe n (40 # show_cmd c @ 41 # t) = Some (Inr (c, t))"
proof -
  obtain m where m: "n = Suc m" using assms by (cases n) auto
  then have "parseexec m (40 # show_cmd c @ 41 # t) = Some (Inr (c, t))"
    using assms by (intro parseexec_plain_block) simp_all
  then show ?thesis
    unfolding m parsepipe.simps pbind_def using assms(3, 4) by auto
qed

lemma parseline_close:
  assumes "parsepipe n s = Some (Inr (c, r))" "closes r"
  shows "parseline (Suc n) s = Some (Inr (c, r))"
proof -
  have r: "\<not> peek [38] r" "\<not> peek [59] r" "skip_space r = r"
    using closes_stops[OF assms(2)] assms(2) by (auto simp: closes_def)
  then have "parse_backs c r = (c, r)" by (subst parse_backs.simps) simp
  then show ?thesis
    unfolding parseline.simps assms(1) pbind_def using r by simp
qed

lemma parseline_block:
  assumes "reads c" "4 * length (40 # show_cmd c @ 41 # r) + 4 \<le> n" "closes r"
  shows "parseline n (40 # show_cmd c @ 41 # r) = Some (Inr (c, r))"
proof -
  obtain m where m: "n = Suc m" using assms by (cases n) auto
  have "r = [] \<or> hd r \<noteq> 124" using assms(3) by (auto simp: closes_def)
  then show ?thesis
    using parseline_close[OF parsepipe_block[OF assms(1) _ closes_stops[OF assms(3)]] assms(3), of m] m assms(2) by simp
qed

lemma closes_skip: "closes r \<Longrightarrow> skip_space r = r" "closes r \<Longrightarrow> r = [] \<or> hd r \<noteq> 124"
  by (auto simp: closes_stops) (auto simp: closes_def)

lemma symbols_stop [simp]: "stops (124 # r)" "stops (41 # r)" "stops (38 # r)" "stops (59 # r)"
  by (simp_all add: stops_def)

lemma reads_EXEC: "cmd_ok (EXEC ws) \<Longrightarrow> reads (EXEC ws)"
  unfolding reads_def
proof (intro conjI allI impI)
  fix r n
  assume ok: "cmd_ok (EXEC ws)" and r: "closes r" and "4 * length (show_cmd (EXEC ws) @ r) + 4 \<le> n"
  then obtain k where k: "n = Suc (Suc (Suc k))" by (cases n; cases "n - 1"; cases "n - 2") auto
  have "parseexec (Suc k) (show_words ws @ r) = Some (Inr (EXEC ws, r))"
    using ok closes_stops[OF r] by (simp add: show_words_start parse_simple_show)
  then have "parsepipe (Suc (Suc k)) (show_words ws @ r) = Some (Inr (EXEC ws, r))"
    unfolding parsepipe.simps pbind_def using closes_stops[OF r] closes_skip(2)[OF r] by auto
  then show "parseline n (show_cmd (EXEC ws) @ r) = Some (Inr (EXEC ws, r))"
    unfolding k using parseline_close[OF _ r] by simp
qed

lemma reads_REDIR:
  assumes "reads c" "cmd_ok (REDIR c f mode fd)"
  shows "reads (REDIR c f mode fd)"
  unfolding reads_def
proof (intro conjI allI impI)
  fix r n
  let ?s = "40 # show_cmd c @ 41 # redir_sym mode @ f @ r"
  assume r: "closes r" and n: "4 * length (show_cmd (REDIR c f mode fd) @ r) + 4 \<le> n"
  then obtain k where k: "n = Suc (Suc k)" by (cases n; cases "n - 1") auto
  have "skip_space (redir_sym mode @ f @ r) = redir_sym mode @ f @ r" by (simp add: redir_sym_def symbols_def)
  moreover have "parseredirs (redir_sym mode @ f @ r) = Inr ([(f, mode, fd)], r)"
    using assms(2) closes_stops[OF r] by (intro redirs_show) simp_all
  ultimately have "parseexec k ?s = Some (Inr (REDIR c f mode fd, r))"
    using parseexec_block[OF assms(1), of "redir_sym mode @ f @ r" k] n k by (simp add: pbind_def redircmds_def)
  then have "parsepipe (Suc k) ?s = Some (Inr (REDIR c f mode fd, r))"
    unfolding parsepipe.simps pbind_def using closes_stops[OF r] closes_skip(2)[OF r] by auto
  then show "parseline n (show_cmd (REDIR c f mode fd) @ r) = Some (Inr (REDIR c f mode fd, r))"
    unfolding k using parseline_close[OF _ r] by simp
qed (use assms in simp)

lemma reads_PIPE:
  assumes "reads c" "reads d"
  shows "reads (PIPE c d)"
  unfolding reads_def
proof (intro conjI allI impI)
  fix r n
  let ?t = "40 # show_cmd d @ 41 # r"
  let ?s = "40 # show_cmd c @ 41 # 124 # ?t"
  assume r: "closes r" and n: "4 * length (show_cmd (PIPE c d) @ r) + 4 \<le> n"
  then obtain k where k: "n = Suc (Suc k)" by (cases n; cases "n - 1") auto
  have "parseexec k ?s = Some (Inr (c, 124 # ?t))"
    using n k assms(1) by (intro parseexec_plain_block) simp_all
  moreover have "parsepipe k ?t = Some (Inr (d, r))"
    using n k assms(2) closes_stops[OF r] closes_skip(2)[OF r] by (intro parsepipe_block) simp_all
  ultimately have "parsepipe (Suc k) ?s = Some (Inr (PIPE c d, r))"
    unfolding parsepipe.simps pbind_def by (simp add: token_rest_symbol symbols_def)
  then show "parseline n (show_cmd (PIPE c d) @ r) = Some (Inr (PIPE c d, r))"
    unfolding k using parseline_close[OF _ r] by simp
qed (use assms in \<open>simp add: reads_def\<close>)

lemma reads_LIST:
  assumes "reads c" "reads d"
  shows "reads (LIST c d)"
  unfolding reads_def
proof (intro conjI allI impI)
  fix r n
  let ?t = "40 # show_cmd d @ 41 # r"
  let ?s = "40 # show_cmd c @ 41 # 59 # ?t"
  assume r: "closes r" and n: "4 * length (show_cmd (LIST c d) @ r) + 4 \<le> n"
  then obtain k where k: "n = Suc k" by (cases n) auto
  have "parsepipe k ?s = Some (Inr (c, 59 # ?t))"
    using n k assms(1) by (intro parsepipe_block) simp_all
  moreover have "parse_backs c (59 # ?t) = (c, 59 # ?t)"
    by (subst parse_backs.simps) (simp add: symbols_def)
  moreover have "parseline k ?t = Some (Inr (d, r))"
    using n k assms(2) r by (intro parseline_block) simp_all
  ultimately show "parseline n (show_cmd (LIST c d) @ r) = Some (Inr (LIST c d, r))"
    unfolding k by (simp add: pbind_def token_rest_symbol symbols_def)
qed (use assms in \<open>simp add: reads_def\<close>)

lemma reads_BACK:
  assumes "reads c"
  shows "reads (BACK c)"
  unfolding reads_def
proof (intro conjI allI impI)
  fix r n
  let ?s = "40 # show_cmd c @ 41 # 38 # r"
  assume r: "closes r" and n: "4 * length (show_cmd (BACK c) @ r) + 4 \<le> n"
  then obtain k where k: "n = Suc k" by (cases n) auto
  have r': "\<not> peek [38] r" "\<not> peek [59] r" "skip_space r = r"
    using closes_stops[OF r] r by (auto simp: closes_def)
  have "parsepipe k ?s = Some (Inr (c, 38 # r))"
    using n k assms by (intro parsepipe_block) simp_all
  moreover have "parse_backs c (38 # r) = (BACK c, r)"
    using r' by (subst parse_backs.simps, subst parse_backs.simps) (simp add: symbols_def token_rest_symbol)
  ultimately show "parseline n (show_cmd (BACK c) @ r) = Some (Inr (BACK c, r))"
    unfolding k using r' by (simp add: pbind_def)
qed (use assms in \<open>simp add: reads_def\<close>)

lemma cmd_reads: "cmd_ok c \<Longrightarrow> reads c"
  by (induction c) (auto intro: reads_EXEC reads_REDIR reads_PIPE reads_LIST reads_BACK simp del: cmd_ok.simps(1, 2)
      simp: cmd_ok.simps(2))

text \<open>
  C34: The parser of the shell ends on every line of input, and it reads back the printed form of
  every command whose words are made of ordinary characters and whose argument lists fit
  \<^verbatim>\<open>MAXARGS\<close>: redirections, pipes, sequences and background commands, nested in any way.
\<close>

theorem sh_parse_show:
  "parsecmd s \<noteq> None \<and> (cmd_ok c \<longrightarrow> parsecmd (show_cmd c) = Some (Inr c))"
proof (intro conjI impI)
  assume "cmd_ok c"
  then have "parseline (parse_fuel (show_cmd c)) (show_cmd c @ []) = Some (Inr (c, []))"
    using cmd_reads[of c] unfolding reads_def by (auto simp: closes_def parse_fuel_def)
  then show "parsecmd (show_cmd c) = Some (Inr c)"
    by (simp add: parsecmd_def pbind_def skip_space_def)
qed (rule parsecmd_total)

text \<open>\<^verbatim>\<open>(a | b) < f &\<close>, with single letters for the words.\<close>

theorem sh_parse_show_witness:
  "\<exists>c. c = BACK (REDIR (PIPE (EXEC [[97]]) (EXEC [[98], [99]])) [102] O_RDONLY 0) \<and> cmd_ok c \<and>
     parsecmd (show_cmd c) = Some (Inr c)"
proof -
  let ?c = "BACK (REDIR (PIPE (EXEC [[97]]) (EXEC [[98], [99]])) [102] O_RDONLY 0)"
  have "cmd_ok ?c"
    by (simp add: word_ok_def word_char_def whitespace_def symbols_def MAXARGS_def)
  then show ?thesis using sh_parse_show[of "[]" ?c] by simp
qed

end
