(* ===== verification/Umalloc.thy ===== *)
theory Umalloc
  imports Prelude
begin

text \<open>
  The memory allocator of the user library, \<^verbatim>\<open>user/umalloc.c\<close>. A pointer is the number of a unit of the
  size of a header, sixteen bytes; 0 is NULL and \<open>base\<close> is the place of the static header, below
  the heap. The heap grows with \<^verbatim>\<open>sbrk\<close>; \<open>room\<close> says up to which size the kernel grants memory. The
  loops follow pointers and are partial functions.
\<close>

section \<open>Definitions\<close>

record arena =
  hptr :: "nat \<Rightarrow> nat"
  hsize :: "nat \<Rightarrow> 32 word"
  freep :: nat
  brk :: nat

definition set_ptr :: "nat \<Rightarrow> nat \<Rightarrow> arena \<Rightarrow> arena" where
  "set_ptr b p s = s\<lparr>hptr := (hptr s)(b := p)\<rparr>"

definition set_size :: "nat \<Rightarrow> 32 word \<Rightarrow> arena \<Rightarrow> arena" where
  "set_size b n s = s\<lparr>hsize := (hsize s)(b := n)\<rparr>"

text \<open>The loop of \<^verbatim>\<open>free\<close>: the free block after which \<open>bp\<close> belongs.\<close>

definition place_found :: "arena \<Rightarrow> nat \<Rightarrow> nat \<Rightarrow> bool" where
  "place_found s bp p \<longleftrightarrow> (bp > p \<and> bp < hptr s p) \<or> (p \<ge> hptr s p \<and> (bp > p \<or> bp < hptr s p))"

partial_function (option) free_place :: "arena \<Rightarrow> nat \<Rightarrow> nat \<Rightarrow> nat option" where
  "free_place s bp p = (if place_found s bp p then Some p else free_place s bp (hptr s p))"

definition join_next :: "nat \<Rightarrow> nat \<Rightarrow> arena \<Rightarrow> arena" where
  "join_next bp p s =
    (if bp + unat (hsize s bp) = hptr s p
     then set_ptr bp (hptr s (hptr s p)) (set_size bp (hsize s bp + hsize s (hptr s p)) s)
     else set_ptr bp (hptr s p) s)"

definition join_prev :: "nat \<Rightarrow> nat \<Rightarrow> arena \<Rightarrow> arena" where
  "join_prev bp p s =
    (if p + unat (hsize s p) = bp
     then set_ptr p (hptr s bp) (set_size p (hsize s p + hsize s bp) s)
     else set_ptr p bp s)"

definition free_header :: "nat \<Rightarrow> arena \<Rightarrow> arena option" where
  "free_header bp s = map_option (\<lambda>p. (join_prev bp p (join_next bp p s))\<lparr>freep := p\<rparr>) (free_place s bp (freep s))"

definition free :: "nat \<Rightarrow> arena \<Rightarrow> arena option" where
  "free ap s = free_header (ap - 1) s"

text \<open>
  The call of the kernel that moves the end of the heap: a larger size is granted or refused, and a
  smaller one is always granted unless it lies below zero, when the size stays.
\<close>

definition sbrk :: "(nat \<Rightarrow> bool) \<Rightarrow> int \<Rightarrow> arena \<Rightarrow> nat option \<times> arena" where
  "sbrk room n s =
    (let new = int (brk s) + n in
     if n > 0 \<and> \<not> room (nat new) then (None, s)
     else (Some (brk s), if new < 0 then s else s\<lparr>brk := nat new\<rparr>))"

text \<open>The argument of \<^verbatim>\<open>sbrk\<close> is an \<^verbatim>\<open>int\<close>.\<close>

definition morecore :: "(nat \<Rightarrow> bool) \<Rightarrow> nat \<Rightarrow> arena \<Rightarrow> (nat \<times> arena) option" where
  "morecore room nu s =
    (let nu = (if nu < 4096 then 4096 else nu) in
     case sbrk room (sint (of_nat (nu * 16) :: 32 word)) s of
       (None, s) \<Rightarrow> Some (0, s)
     | (Some p, s) \<Rightarrow>
         let hp = p div 16 in
         map_option (\<lambda>s. (freep s, s)) (free (hp + 1) (set_size hp (of_nat nu) s)))"

text \<open>A block that is large enough is taken whole or its upper end is.\<close>

definition take_block :: "nat \<Rightarrow> nat \<Rightarrow> nat \<Rightarrow> arena \<Rightarrow> nat \<times> arena" where
  "take_block nunits prevp p s =
    (if unat (hsize s p) = nunits then (p + 1, (set_ptr prevp (hptr s p) s)\<lparr>freep := prevp\<rparr>)
     else let s = set_size p (hsize s p - of_nat nunits) s; p = p + unat (hsize s p) in
       (p + 1, (set_size p (of_nat nunits) s)\<lparr>freep := prevp\<rparr>))"

partial_function (option) malloc_loop :: "(nat \<Rightarrow> bool) \<Rightarrow> nat \<Rightarrow> nat \<Rightarrow> nat \<Rightarrow> arena \<Rightarrow> (nat \<times> arena) option" where
  "malloc_loop room nunits prevp p s =
    (if unat (hsize s p) \<ge> nunits then Some (take_block nunits prevp p s)
     else if p = freep s then
       Option.bind (morecore room nunits s) (\<lambda>(p, s).
         if p = 0 then Some (0, s) else malloc_loop room nunits p (hptr s p) s)
     else malloc_loop room nunits p (hptr s p) s)"

definition units :: "32 word \<Rightarrow> nat" where
  "units nbytes = (unat nbytes + 16 - 1) div 16 + 1"

definition malloc :: "nat \<Rightarrow> (nat \<Rightarrow> bool) \<Rightarrow> 32 word \<Rightarrow> arena \<Rightarrow> (nat \<times> arena) option" where
  "malloc base room nbytes s =
    (let s = (if freep s = 0 then set_size base 0 ((set_ptr base base s)\<lparr>freep := base\<rparr>) else s) in
     malloc_loop room (units nbytes) (freep s) (hptr s (freep s)) s)"

section \<open>Invariant\<close>

primrec hpath :: "(nat \<Rightarrow> nat) \<Rightarrow> nat \<Rightarrow> nat list \<Rightarrow> nat \<Rightarrow> bool" where
  "hpath h p [] q \<longleftrightarrow> p = q"
| "hpath h p (x # xs) q \<longleftrightarrow> p = x \<and> hpath h (h x) xs q"

lemma hpath_append: "hpath h p (xs @ ys) q \<longleftrightarrow> (\<exists>r. hpath h p xs r \<and> hpath h r ys q)"
  by (induction xs arbitrary: p) auto

lemma hpath_upd: "u \<notin> set xs \<Longrightarrow> hpath (h(u := v)) p xs q \<longleftrightarrow> hpath h p xs q"
  by (induction xs arbitrary: p) auto

lemma hpath_cong: "(\<And>x. x \<in> set xs \<Longrightarrow> h' x = h x) \<Longrightarrow> hpath h' p xs q \<longleftrightarrow> hpath h p xs q"
  by (induction xs arbitrary: p) auto

definition extent :: "arena \<Rightarrow> nat \<Rightarrow> nat set" where
  "extent s b = {b..<b + unat (hsize s b)}"

text \<open>
  The free blocks \<open>fs\<close> and the header \<open>base\<close> form a ring in the order of their addresses, no two of
  them adjacent. The blocks in use \<open>A\<close> and the free ones are disjoint and lie in the heap.
\<close>

definition before :: "arena \<Rightarrow> nat \<Rightarrow> nat \<Rightarrow> bool" where
  "before s x y \<longleftrightarrow> x + unat (hsize s x) < y"

definition free_ring :: "nat \<Rightarrow> nat list \<Rightarrow> arena \<Rightarrow> bool" where
  "free_ring base fs s \<longleftrightarrow> hpath (hptr s) base (base # fs) base \<and> sorted_wrt (before s) (base # fs) \<and> hsize s base = 0 \<and> freep s \<in> set (base # fs)"

definition blocks_ok :: "nat \<Rightarrow> nat set \<Rightarrow> arena \<Rightarrow> bool" where
  "blocks_ok base B s \<longleftrightarrow> 0 < base \<and> brk s mod 16 = 0 \<and> brk s < 2 ^ 36 \<and> base < brk s div 16 \<and>
    (\<forall>b \<in> B. base < b \<and> hsize s b \<noteq> 0 \<and> b + unat (hsize s b) \<le> brk s div 16) \<and>
    (\<forall>b \<in> B. \<forall>c \<in> B. b < c \<longrightarrow> b + unat (hsize s b) \<le> c)"

definition heap_ok :: "nat \<Rightarrow> nat list \<Rightarrow> nat set \<Rightarrow> arena \<Rightarrow> bool" where
  "heap_ok base fs A s \<longleftrightarrow> free_ring base fs s \<and> blocks_ok base (set fs \<union> A) s \<and> A \<inter> set fs = {}"

lemma blocks_okD:
  assumes "blocks_ok base B s"
  shows "b \<in> B \<Longrightarrow> base < b" "b \<in> B \<Longrightarrow> 0 < unat (hsize s b)" "b \<in> B \<Longrightarrow> b + unat (hsize s b) \<le> brk s div 16"
    "b \<in> B \<Longrightarrow> c \<in> B \<Longrightarrow> b < c \<Longrightarrow> b + unat (hsize s b) \<le> c" "brk s div 16 < 2 ^ 32" "0 < base"
  using assms by (auto simp: blocks_ok_def unat_gt_0)

lemma blocks_cong:
  assumes "blocks_ok base B s" "\<And>b. b \<in> B \<Longrightarrow> hsize s' b = hsize s b" "brk s' = brk s" "C \<subseteq> B"
  shows "blocks_ok base C s'"
  using assms unfolding blocks_ok_def by (auto simp: subset_iff)

lemma hptr_simps [simp]:
  "hptr (set_ptr b p s) = (hptr s)(b := p)" "hsize (set_ptr b p s) = hsize s" "freep (set_ptr b p s) = freep s" "brk (set_ptr b p s) = brk s"
  "hsize (set_size b n s) = (hsize s)(b := n)" "hptr (set_size b n s) = hptr s" "freep (set_size b n s) = freep s" "brk (set_size b n s) = brk s"
  by (simp_all add: set_ptr_def set_size_def)

section \<open>The ring\<close>

lemma hpath_next: "hpath h p (xs @ x # ys) q \<Longrightarrow> h x = (if ys = [] then q else hd ys)"
  by (cases ys) (auto simp: hpath_append)

lemma hpath_rotate: "hpath h p (xs @ ys) p \<Longrightarrow> ys \<noteq> [] \<Longrightarrow> hpath h (hd ys) (ys @ xs) (hd ys)"
  by (cases ys) (auto simp: hpath_append)

lemma ringD:
  assumes "free_ring base fs s"
  shows "hpath (hptr s) base (base # fs) base" "sorted_wrt (before s) (base # fs)" "hsize s base = 0" "freep s \<in> set (base # fs)"
    "distinct (base # fs)" "\<And>xs x ys. base # fs = xs @ x # ys \<Longrightarrow> hptr s x = (if ys = [] then base else hd ys)"
    "\<And>xs x ys y. base # fs = xs @ x # ys \<Longrightarrow> y \<in> set ys \<Longrightarrow> x + unat (hsize s x) < y"
proof -
  show P: "hpath (hptr s) base (base # fs) base" "sorted_wrt (before s) (base # fs)" "hsize s base = 0" "freep s \<in> set (base # fs)"
    using assms by (simp_all add: free_ring_def)
  have "sorted_wrt (<) (base # fs)" using P(2) by (rule sorted_wrt_mono_rel[rotated]) (simp add: before_def)
  then show "distinct (base # fs)" by (simp only: strict_sorted_iff)
  show "hptr s x = (if ys = [] then base else hd ys)" if "base # fs = xs @ x # ys" for xs x ys
    using hpath_next[of "hptr s" base xs x ys base] P(1) that by simp
  show "x + unat (hsize s x) < y" if "base # fs = xs @ x # ys" "y \<in> set ys" for xs x ys y
    using P(2) that by (auto simp: sorted_wrt_append before_def)
qed

lemma free_place_walk:
  assumes "hpath (hptr s) p (us @ [q]) r" "\<forall>u \<in> set us. \<not> place_found s bp u" "place_found s bp q"
  shows "free_place s bp p = Some q"
  using assms
proof (induction us arbitrary: p)
  case Nil
  then show ?case by (subst free_place.simps) simp
next
  case (Cons u us)
  then show ?case by (subst free_place.simps) simp
qed

lemma free_place_ring:
  assumes R: "free_ring base fs s" and bp: "base < bp" "bp \<notin> set fs"
  obtains ls q rs where "base # fs = ls @ q # rs" "\<forall>x \<in> set (ls @ [q]). x < bp" "\<forall>x \<in> set rs. bp < x" "free_place s bp (freep s) = Some q"
proof -
  note D = ringD[OF R]
  let ?xs = "base # fs" and ?P = "\<lambda>x. x < bp"
  define l where "l = takeWhile ?P ?xs"
  define rs where "rs = dropWhile ?P ?xs"
  have l: "l \<noteq> []" using bp(1) by (simp add: l_def)
  define ls q where "ls = butlast l" and "q = last l"
  have lq: "l = ls @ [q]" using l by (simp add: ls_def q_def)
  have xs: "?xs = ls @ q # rs" using takeWhile_dropWhile_id[of ?P ?xs] lq by (simp add: l_def rs_def)
  have lo: "\<forall>x \<in> set (ls @ [q]). x < bp" using lq set_takeWhileD[of _ ?P ?xs] unfolding l_def by metis
  have hi: "\<forall>x \<in> set rs. bp < x"
  proof
    fix x assume x: "x \<in> set rs"
    then have ne: "rs \<noteq> []" by auto
    have "\<not> hd rs < bp" using hd_dropWhile[of ?P ?xs] ne by (simp add: rs_def)
    moreover have "hd rs \<in> set ?xs" using ne xs by simp
    then have "hd rs \<noteq> bp" using bp by auto
    moreover have "hd rs \<le> x"
    proof (cases "x = hd rs")
      case False
      then have "x \<in> set (tl rs)" using x ne by (metis list.collapse set_ConsD)
      then show ?thesis using D(7)[of "ls @ [q]" "hd rs" "tl rs"] xs ne by fastforce
    qed simp
    ultimately show "bp < x" by linarith
  qed
  have qf: "place_found s bp q"
    using D(6)[OF xs] lo hi D(7)[of "[]" base fs q] xs by (cases rs; cases ls) (auto simp: place_found_def)
  have nf: "\<not> place_found s bp u" if u: "u \<in> set ?xs" "u \<noteq> q" for u
  proof -
    obtain as bs where ab: "?xs = as @ u # bs" using u(1) by (meson split_list)
    have nx: "hptr s u = (if bs = [] then base else hd bs)" by (rule D(6)[OF ab])
    have inc: "bs \<noteq> [] \<Longrightarrow> u < hd bs" using D(7)[OF ab, of "hd bs"] by simp
    show ?thesis
    proof (cases "u < bp")
      case True
      then have ul: "u \<in> set ls" using u xs hi by auto
      then obtain l1 l2 where l12: "ls = l1 @ u # l2" by (meson split_list)
      have e: "?xs = l1 @ u # l2 @ q # rs" using xs l12 by simp
      have v: "hd (l2 @ q # rs) \<in> set (l2 @ [q])" by (cases l2) auto
      then have "u < hd (l2 @ q # rs)" "hd (l2 @ q # rs) < bp" using D(7)[OF e, of "hd (l2 @ q # rs)"] lo l12 by auto
      then show ?thesis using D(6)[OF e] by (auto simp: place_found_def)
    next
      case False
      then have "bp < u" using u bp by (metis list.set_intros(1) nat_neq_iff set_ConsD)
      then show ?thesis using nx inc bp(1) by (cases "bs = []") (auto simp: place_found_def)
    qed
  qed
  obtain as bs where ab: "?xs = as @ freep s # bs" using D(4) by (meson split_list)
  have rot: "hpath (hptr s) (freep s) ((freep s # bs) @ as) (freep s)" using hpath_rotate[of "hptr s" base as "freep s # bs"] D(1) ab by simp
  have "q \<in> set ((freep s # bs) @ as)" using xs ab by (metis Un_iff in_set_conv_decomp set_append)
  then obtain us ws where uw: "(freep s # bs) @ as = us @ q # ws" "q \<notin> set us" by (meson split_list_first)
  have "set ((freep s # bs) @ as) = set ?xs" unfolding ab by auto
  then have "\<forall>u \<in> set us. \<not> place_found s bp u" using nf uw by (metis Un_iff set_append)
  moreover have "hpath (hptr s) (freep s) (us @ [q]) (hptr s q)" using rot unfolding uw(1) by (auto simp: hpath_append)
  ultimately have "free_place s bp (freep s) = Some q" using free_place_walk qf by blast
  then show thesis using that xs lo hi by blast
qed

section \<open>Releasing a block\<close>

lemma merge_blocks:
  assumes B: "blocks_ok base B s" and x: "x \<in> B" "y \<in> B" "x + unat (hsize s x) = y"
  shows "unat (hsize s x + hsize s y) = unat (hsize s x) + unat (hsize s y)" "blocks_ok base (B - {y}) (set_size x (hsize s x + hsize s y) s)"
proof -
  note D = blocks_okD[OF B]
  have "unat (hsize s x) + unat (hsize s y) < 2 ^ 32" using D(3)[OF x(2)] D(5) x(3) by linarith
  then show u: "unat (hsize s x + hsize s y) = unat (hsize s x) + unat (hsize s y)" by (simp add: unat_word_ariths)
  have nz: "hsize s x + hsize s y \<noteq> 0" using u D(2)[OF x(1)] by (metis add_is_0 not_gr_zero unat_0)
  have far: "x + (unat (hsize s x) + unat (hsize s y)) \<le> c" if "c \<in> B" "x < c" "c \<noteq> y" for c
    using D(4)[OF x(1) that(1, 2)] D(4)[OF x(2) that(1)] x(3) that(3) by linarith
  show "blocks_ok base (B - {y}) (set_size x (hsize s x + hsize s y) s)"
    using B D(3)[OF x(2)] x(3) u nz far by (auto simp: blocks_ok_def)
qed

lemma sorted_before: "\<forall>x \<in> set xs. hsize s' x = hsize s x \<Longrightarrow> sorted_wrt (before s) xs \<Longrightarrow> sorted_wrt (before s') xs"
  by (induction xs) (auto simp: before_def)

lemma before_block: "blocks_ok base B s \<Longrightarrow> x \<in> B \<Longrightarrow> y \<in> B \<Longrightarrow> x < y \<Longrightarrow> x + unat (hsize s x) \<le> y"
  by (rule blocks_okD(4))

lemma join_next_ok:
  assumes B: "blocks_ok base B s" and b: "bp \<in> B" "set rs \<subseteq> B" "\<forall>x \<in> set rs. bp < x"
    and rs: "hptr s q = (if rs = [] then base else hd rs)" "sorted_wrt (before s) rs" "hpath (hptr s) (hptr s q) rs base" "distinct rs"
  obtains rs1 n1 where "hptr (join_next bp q s) = (hptr s)(bp := if rs1 = [] then base else hd rs1)" "hsize (join_next bp q s) = (hsize s)(bp := n1)"
    "brk (join_next bp q s) = brk s" "blocks_ok base (B - (set rs - set rs1)) (join_next bp q s)"
    "rs = rs1 \<or> rs = hd rs # rs1" "\<forall>y \<in> set rs1. bp + unat n1 < y" "hpath (hptr s) (if rs1 = [] then base else hd rs1) rs1 base"
    "extent s bp \<subseteq> extent (join_next bp q s) bp" "\<forall>r \<in> set rs - set rs1. extent s r \<subseteq> extent (join_next bp q s) bp"
proof (cases "bp + unat (hsize s bp) = hptr s q")
  case False
  have far: "bp + unat (hsize s bp) < y" if "y \<in> set rs" for y
  proof -
    have ne: "rs \<noteq> []" using that by auto
    have "bp + unat (hsize s bp) \<le> hd rs" using ne b by (intro before_block[OF B]) auto
    then have "bp + unat (hsize s bp) < hd rs" using False rs(1) ne by simp
    moreover have "hd rs \<le> y" using that rs(2) by (cases rs) (auto simp: before_def)
    ultimately show ?thesis by simp
  qed
  have "blocks_ok base B (set_ptr bp (hptr s q) s)" by (rule blocks_cong[OF B]) auto
  moreover have "hpath (hptr s) (if rs = [] then base else hd rs) rs base" using rs(1, 3) by simp
  ultimately show thesis using that[of rs "hsize s bp"] False far rs(1) by (auto simp: join_next_def extent_def)
next
  case True
  then have ne: "rs \<noteq> []" using rs(1) blocks_okD(1)[OF B b(1)] by (auto split: if_splits)
  then obtain r rs1 where r: "rs = r # rs1" by (cases rs) auto
  have hr: "hptr s q = r" using rs(1) r by simp
  have rB: "r \<in> B" using b(2) r by simp
  have nr: "r \<notin> set rs1" using rs(4) r by simp
  have eq: "bp + unat (hsize s bp) = r" using True hr by simp
  note M = merge_blocks[OF B b(1) rB eq]
  have pr: "hpath (hptr s) (hptr s r) rs1 base" using rs(3) r hr by simp
  then have hn: "hptr s r = (if rs1 = [] then base else hd rs1)" by (cases rs1) auto
  have J: "join_next bp q s = set_ptr bp (hptr s r) (set_size bp (hsize s bp + hsize s r) s)" using True hr by (simp add: join_next_def)
  have d: "set rs - set rs1 = {r}" using r nr by auto
  have "blocks_ok base (B - {r}) (join_next bp q s)" unfolding J by (rule blocks_cong[OF M(2)]) auto
  moreover have "\<forall>y \<in> set rs1. bp + unat (hsize s bp + hsize s r) < y" using M(1) eq rs(2) r by (auto simp: before_def)
  moreover have "extent s r \<subseteq> extent (join_next bp q s) bp" "extent s bp \<subseteq> extent (join_next bp q s) bp"
    using M(1) eq by (auto simp: extent_def J)
  ultimately show thesis using that[of rs1 "hsize s bp + hsize s r"] J r hn pr d by auto
qed

lemma join_prev_ok:
  assumes B: "blocks_ok base B s" and mem: "bp \<in> B" "q = base \<or> q \<in> B" and z: "hsize s base = 0" "base < bp" "q < bp"
    and h: "hd (ls @ [q]) = base" and p: "hpath (hptr s) base ls q" "hpath (hptr s) (hptr s bp) rs base"
    and so: "sorted_wrt (before s) (ls @ [q])" "sorted_wrt (before s) (bp # rs)"
    and s': "s' = (join_prev bp q s)\<lparr>freep := q\<rparr>"
  obtains ms where "free_ring base (tl (ls @ q # ms)) s'" "ms = bp # rs \<or> ms = rs \<and> q \<noteq> base \<and> extent s bp \<subseteq> extent s' q"
    "blocks_ok base (B - ({bp} - set ms)) s'" "\<forall>x. x \<noteq> q \<longrightarrow> hsize s' x = hsize s x" "extent s q \<subseteq> extent s' q" "brk s' = brk s"
proof -
  have hd: "ls @ q # us = base # tl (ls @ q # us)" for us using h by (cases ls) auto
  have lq: "x < q" if "x \<in> set ls" for x using so(1) that by (auto simp: sorted_wrt_append before_def)
  have br: "bp < y" if "y \<in> set rs" for y using so(2) that by (auto simp: before_def)
  have nq: "bp \<notin> set ls" "bp \<notin> set rs" "q \<notin> set ls" "q \<notin> set rs" "q \<noteq> bp" using lq br z(3) by fastforce+
  have ring: "free_ring base (tl (ls @ q # ms)) s'"
    if "hpath (hptr s') base (ls @ q # ms) base" "sorted_wrt (before s') (q # ms)" "\<forall>x. x \<noteq> q \<longrightarrow> hsize s' x = hsize s x" "hsize s' base = 0" for ms
  proof -
    have "before s' x y" if "x \<in> set ls" "y \<in> set (q # ms)" for x y
    proof -
      have "x + unat (hsize s x) < q" using so(1) that(1) by (auto simp: sorted_wrt_append before_def)
      moreover have "hsize s' x = hsize s x" using \<open>\<forall>x. x \<noteq> q \<longrightarrow> hsize s' x = hsize s x\<close> nq(3) that(1) by metis
      moreover have "q \<le> y" using \<open>sorted_wrt (before s') (q # ms)\<close> that(2) by (auto simp: before_def)
      ultimately show ?thesis by (simp add: before_def)
    qed
    moreover have "sorted_wrt (before s') ls"
      using that(3) so(1) nq(3) by (auto simp: sorted_wrt_append intro!: sorted_before[of ls _ s])
    ultimately have "sorted_wrt (before s') (ls @ q # ms)" using that(2) by (simp add: sorted_wrt_append)
    then show ?thesis using that(1, 4) hd[of ms] s' by (simp add: free_ring_def)
  qed
  show thesis
  proof (cases "q + unat (hsize s q) = bp")
    case True
    have qb: "q \<noteq> base" using True z by auto
    then have qB: "q \<in> B" using mem(2) by simp
    note M = merge_blocks[OF B qB mem(1) True]
    have S: "s' = (set_ptr q (hptr s bp) (set_size q (hsize s q + hsize s bp) s))\<lparr>freep := q\<rparr>" using True by (simp add: s' join_prev_def)
    have "hpath (hptr s') base (ls @ q # rs) base" using p nq by (auto simp: S hpath_append hpath_upd)
    moreover have "sorted_wrt (before s') (q # rs)"
      using so(2) M(1) True nq(4) sorted_before[of rs s' s] by (auto simp: S before_def)
    ultimately have "free_ring base (tl (ls @ q # rs)) s'"
      using z(1, 3) qb br by (intro ring) (auto simp: S hd_append dest: less_trans)
    moreover have "blocks_ok base (B - ({bp} - set rs)) s'" using M(2) nq(2) unfolding S by (intro blocks_cong[OF M(2)]) auto
    ultimately show thesis using that[of rs] qb M(1) True by (auto simp: S extent_def)
  next
    case False
    have S: "s' = (set_ptr q bp s)\<lparr>freep := q\<rparr>" using False by (simp add: s' join_prev_def)
    have "q + unat (hsize s q) < bp"
    proof (cases "q = base")
      case nqb: False
      then have "q + unat (hsize s q) \<le> bp" using mem z(3) by (intro before_block[OF B]) auto
      then show ?thesis using False by simp
    qed (use z in simp)
    then have "sorted_wrt (before s') (q # bp # rs)" using so(2) sorted_before[of rs s' s] by (auto simp: S before_def)
    moreover have "hpath (hptr s') base (ls @ q # bp # rs) base" using p nq by (auto simp: S hpath_append hpath_upd)
    ultimately have "free_ring base (tl (ls @ q # bp # rs)) s'" using z by (intro ring) (auto simp: S)
    moreover have "blocks_ok base B s'" unfolding S by (rule blocks_cong[OF B]) auto
    ultimately show thesis using that[of "bp # rs"] by (auto simp: S extent_def)
  qed
qed

lemma ring_sets:
  assumes "A \<inter> (U \<union> R) = {}" "U \<inter> R = {}" "R' \<subseteq> R" "b \<in> A" "b \<notin> R'"
  shows "U \<union> insert b R' \<union> (A - {b}) = U \<union> R \<union> A - (R - R')" "U \<union> R' \<union> (A - {b}) = U \<union> R \<union> A - (R - R') - ({b} - R')"
  using assms by blast+

lemma free_ok:
  assumes H: "heap_ok base fs A s" and bp: "bp \<in> A"
  shows "\<exists>fs' s'. free_header bp s = Some s' \<and> heap_ok base fs' (A - {bp}) s' \<and> (\<forall>a \<in> A - {bp}. hsize s' a = hsize s a) \<and> brk s' = brk s \<and>
    (\<forall>b \<in> insert bp (set fs). \<exists>c \<in> set fs'. extent s b \<subseteq> extent s' c)"
proof -
  have R: "free_ring base fs s" and B: "blocks_ok base (set fs \<union> A) s" and dis: "A \<inter> set fs = {}" using H by (auto simp: heap_ok_def)
  note D = ringD[OF R]
  have b: "base < bp" "bp \<notin> set fs" using blocks_okD(1)[OF B] bp dis by auto
  obtain ls q rs where xs: "base # fs = ls @ q # rs" and lo: "\<forall>x \<in> set (ls @ [q]). x < bp" and hi: "\<forall>x \<in> set rs. bp < x"
    and fp: "free_place s bp (freep s) = Some q" by (rule free_place_ring[OF R b])
  have srs: "set rs \<subseteq> set fs" using xs by (cases ls) auto
  have pth: "hpath (hptr s) base ls q" "hpath (hptr s) (hptr s q) rs base" using D(1) unfolding xs by (auto simp: hpath_append)
  have so: "sorted_wrt (before s) rs" "distinct rs" "sorted_wrt (before s) (ls @ [q])" using D(2, 5) unfolding xs by (auto simp: sorted_wrt_append)
  define s1 where "s1 = join_next bp q s"
  obtain rs1 n1 where J: "hptr s1 = (hptr s)(bp := if rs1 = [] then base else hd rs1)" "hsize s1 = (hsize s)(bp := n1)"
    "brk s1 = brk s" "blocks_ok base (set fs \<union> A - (set rs - set rs1)) s1" "rs = rs1 \<or> rs = hd rs # rs1" "\<forall>y \<in> set rs1. bp + unat n1 < y"
    "hpath (hptr s) (if rs1 = [] then base else hd rs1) rs1 base"
    "extent s bp \<subseteq> extent s1 bp" "\<forall>r \<in> set rs - set rs1. extent s r \<subseteq> extent s1 bp"
    using join_next_ok[OF B _ _ hi D(6)[OF xs] so(1) pth(2) so(2)] bp srs unfolding s1_def by blast
  have sub: "set rs1 \<subseteq> set rs" using J(5) by (metis set_subset_Cons order.refl)
  have ne: "q \<noteq> bp" "bp \<notin> set ls" "bp \<notin> set rs1" "q < bp" using lo hi sub by auto
  define s2 where "s2 = (join_prev bp q s1)\<lparr>freep := q\<rparr>"
  have run: "free_header bp s = Some s2" using fp by (simp add: free_header_def s1_def s2_def)
  have qs: "q = base \<or> q \<in> set fs" "q \<notin> set rs" "q \<notin> A"
    using xs D(5) blocks_okD(1)[OF B, of base] dis by (auto simp: Cons_eq_append_conv)
  have hdb: "hd (ls @ [q]) = base" using xs by (cases ls) auto
  have srt: "sorted_wrt (before s1) (ls @ [q])" "sorted_wrt (before s1) (bp # rs1)"
  proof -
    show "sorted_wrt (before s1) (ls @ [q])" using ne J(2) so(3) sorted_before[of "ls @ [q]" s1 s] by auto
    have "sorted_wrt (before s) rs1" using so(1) J(5) by (metis sorted_wrt.simps(2))
    then have "sorted_wrt (before s1) rs1" using ne J(2) sorted_before[of rs1 s1 s] by auto
    then show "sorted_wrt (before s1) (bp # rs1)" using J(2, 6) by (simp add: before_def)
  qed
  let ?B = "set fs \<union> A - (set rs - set rs1)"
  have mem: "bp \<in> ?B" "q = base \<or> q \<in> ?B" "hsize s1 base = 0" using bp b srs qs D(3) J(2) by auto
  have pt1: "hpath (hptr s1) base ls q" "hpath (hptr s1) (hptr s1 bp) rs1 base" using pth(1) J(1, 7) ne by (simp_all add: hpath_upd)
  obtain ms where K: "free_ring base (tl (ls @ q # ms)) s2" "ms = bp # rs1 \<or> ms = rs1 \<and> q \<noteq> base \<and> extent s1 bp \<subseteq> extent s2 q"
    "blocks_ok base (?B - ({bp} - set ms)) s2" "\<forall>x. x \<noteq> q \<longrightarrow> hsize s2 x = hsize s1 x" "extent s1 q \<subseteq> extent s2 q" "brk s2 = brk s1"
    by (rule join_prev_ok[OF J(4) mem b(1) ne(4) hdb pt1 srt s2_def])
  let ?fs = "tl (ls @ q # ms)"
  have sm: "set ms \<subseteq> insert bp (set rs1)" "set rs1 \<subseteq> set ms" using K(2) by auto
  have nb: "base \<notin> set ms" using sm sub srs b D(5) by auto
  define U where "U = set ls \<union> {q} - {base}"
  have U: "set fs = U \<union> set rs" "U \<inter> set rs = {}" "base \<notin> set rs" using D(5) xs by (cases ls; auto simp: U_def)+
  have sfs: "set ?fs = U \<union> set ms" using D(5) xs nb by (cases ls) (auto simp: U_def)
  have bA: "base \<notin> A" using blocks_okD(1)[OF B, of base] by auto
  have e: "set ?fs \<union> (A - {bp}) = ?B - ({bp} - set ms)"
    using K(2)
  proof
    assume ms: "ms = bp # rs1"
    then show ?thesis unfolding sfs U(1) using ring_sets(1)[OF dis[unfolded U(1)] U(2) sub bp ne(3)] by simp
  next
    assume "ms = rs1 \<and> q \<noteq> base \<and> extent s1 bp \<subseteq> extent s2 q"
    then show ?thesis unfolding sfs U(1) using ring_sets(2)[OF dis[unfolded U(1)] U(2) sub bp ne(3)] by simp
  qed
  have "heap_ok base ?fs (A - {bp}) s2" unfolding heap_ok_def e using K(1, 3) sfs U sm sub dis qs(3) by auto
  moreover have "hsize s2 a = hsize s a" if "a \<in> A - {bp}" for a using K(4) J(2) that qs(3) by auto
  moreover have "\<exists>c \<in> set ?fs. extent s x \<subseteq> extent s2 c" if x: "x \<in> insert bp (set fs)" for x
  proof -
    have same: "extent s1 y = extent s y" if "y \<noteq> bp" for y using J(2) that by (simp add: extent_def)
    have keep: "extent s2 y = extent s1 y" if "y \<noteq> q" for y using K(4) that by (simp add: extent_def)
    define y where "y = (if x = bp \<or> x \<in> set rs - set rs1 then bp else x)"
    have "extent s x \<subseteq> extent s1 y" using J(8, 9) same by (auto simp: y_def)
    moreover have "extent s1 y \<subseteq> extent s2 (if y = bp \<and> bp \<notin> set ms then q else y)" using K(2, 5) keep[of y] by (cases "y = q") auto
    moreover have "(if y = bp \<and> bp \<notin> set ms then q else y) \<in> set ?fs"
      unfolding sfs using x U K(2) sm by (auto simp: U_def y_def)
    ultimately show ?thesis by blast
  qed
  ultimately show ?thesis using run K(6) J(3) by auto
qed

section \<open>Taking a block\<close>

lemma extents_disjoint: "blocks_ok base B s \<Longrightarrow> b \<in> B \<Longrightarrow> c \<in> B \<Longrightarrow> b \<noteq> c \<Longrightarrow> extent s b \<inter> extent s c = {}"
  using blocks_okD(4)[of base B s b c] blocks_okD(4)[of base B s c b] by (cases "b < c") (auto simp: extent_def)

lemma extent_member: "blocks_ok base B s \<Longrightarrow> b \<in> B \<Longrightarrow> b \<in> extent s b"
  using blocks_okD(2)[of base B s b] by (auto simp: extent_def)

lemma take_whole:
  assumes H: "heap_ok base fs A s" and pr: "pr \<in> set (base # fs)" "hptr s pr = p" and p: "p \<noteq> base"
  obtains fs' where "heap_ok base fs' (insert p A) ((set_ptr pr (hptr s p) s)\<lparr>freep := pr\<rparr>)" "p \<notin> A"
proof -
  have R: "free_ring base fs s" and B: "blocks_ok base (set fs \<union> A) s" and dis: "A \<inter> set fs = {}" using H by (auto simp: heap_ok_def)
  note D = ringD[OF R]
  obtain xs ys where xy: "base # fs = xs @ pr # ys" using pr(1) by (meson split_list)
  then obtain vs where v: "base # fs = xs @ pr # p # vs" using D(6)[OF xy] pr(2) p by (cases ys) auto
  let ?s = "(set_ptr pr (hptr s p) s)\<lparr>freep := pr\<rparr>" and ?fs = "tl (xs @ pr # vs)"
  have hd: "xs @ pr # vs = base # ?fs" using v by (cases xs) auto
  have nd: "pr \<notin> set xs" "pr \<notin> set vs" "p \<notin> set xs" "p \<notin> set vs" "p \<noteq> pr" "base \<notin> set ?fs" "set ?fs = set fs - {p}"
    using D(5) v p by (cases xs; auto)+
  have "hpath (hptr ?s) base (base # ?fs) base" using D(1) nd unfolding v hd[symmetric] by (auto simp: hpath_append hpath_upd)
  moreover have "sorted_wrt (before ?s) (base # ?fs)"
  proof -
    have "before ?s = before s" by (intro ext) (simp add: before_def)
    then show ?thesis using D(2) unfolding v hd[symmetric] by (auto simp: sorted_wrt_append)
  qed
  moreover have "pr \<in> set (base # ?fs)" unfolding hd[symmetric] by simp
  ultimately have "free_ring base ?fs ?s" using D(3) by (simp add: free_ring_def)
  moreover have pf: "p \<in> set fs" using v p by (cases xs) auto
  then have e: "set ?fs \<union> insert p A = set fs \<union> A" using nd by auto
  have "blocks_ok base (set fs \<union> A) ?s" by (rule blocks_cong[OF B]) auto
  ultimately have "heap_ok base ?fs (insert p A) ?s" unfolding heap_ok_def e using dis nd by auto
  then show thesis using that pf dis by auto
qed

definition split_top :: "nat \<Rightarrow> nat \<Rightarrow> nat \<Rightarrow> arena \<Rightarrow> arena" where
  "split_top p q n s = set_size q (of_nat n) (set_size p (hsize s p - of_nat n) s)"

lemma split_sizes:
  assumes B: "blocks_ok base B s" and p: "p \<in> B" and n: "0 < n" "n < unat (hsize s p)" and q: "q = p + (unat (hsize s p) - n)"
  shows "unat (of_nat n :: 32 word) = n" "unat (hsize s p - of_nat n) = unat (hsize s p) - n" "p < q" "q + n = p + unat (hsize s p)" "q \<notin> B"
proof -
  have "n < 2 ^ 32" using n(2) unsigned_less[of "hsize s p", where 'a = nat] by simp
  then show u: "unat (of_nat n :: 32 word) = n" by (simp add: unat_of_nat take_bit_nat_eq_self)
  then have "(of_nat n :: 32 word) \<le> hsize s p" using n(2) by (simp add: word_le_nat_alt)
  then show v: "unat (hsize s p - of_nat n) = unat (hsize s p) - n" using u by (simp add: unat_sub)
  show l: "p < q" "q + n = p + unat (hsize s p)" using n q by auto
  show "q \<notin> B" using blocks_okD(4)[OF B p _ l(1)] l(2) n(1) by auto
qed

lemma split_blocks:
  assumes B: "blocks_ok base B s" and p: "p \<in> B" and n: "0 < n" "n < unat (hsize s p)" and q: "q = p + (unat (hsize s p) - n)"
  shows "blocks_ok base (insert q B) (split_top p q n s)"
proof -
  note D = blocks_okD[OF B] and S = split_sizes[OF B p n q]
  define z where "z b = (if b = q then n else if b = p then unat (hsize s p) - n else unat (hsize s b))" for b
  have z: "unat (hsize (split_top p q n s) b) = z b" for b using S(1, 2) by (simp add: split_top_def z_def)
  have nz: "0 < z b" if "b \<in> insert q B" for b using that D(2) n by (auto simp: z_def)
  have ends: "b + z b \<le> brk s div 16" "base < b" if "b \<in> insert q B" for b
    using that D(1, 3)[of b] D(1, 3)[OF p] S(3, 4) by (auto simp: z_def)
  have apart: "b + z b \<le> c" if "b \<in> insert q B" "c \<in> insert q B" "b < c" for b c
  proof -
    have "b = q \<or> b \<in> B" "c = q \<or> c \<in> B" "b \<noteq> c" using that by auto
    then consider "b = q" "c \<in> B" | "b = p" "c = q" | "b \<in> B" "b \<noteq> p" "c = q" | "b \<in> B" "c \<in> B" "b \<noteq> q" using S(5) by blast
    then show ?thesis
    proof cases
      case 1
      then show ?thesis using D(4)[OF p, of c] S(3, 4) that(3) by (simp add: z_def)
    next
      case 2
      moreover have "z p = unat (hsize s p) - n" using S(3) by (simp add: z_def)
      ultimately show ?thesis using q by simp
    next
      case 3
      have "b < p" using D(4)[OF p 3(1)] S(4) n(1) 3(2, 3) that(3) by (metis add_le_same_cancel1 leD le_trans nat_neq_iff less_imp_le)
      then show ?thesis using D(4)[OF 3(1) p] S(3) 3 that(3) by (simp add: z_def)
    next
      case 4
      then show ?thesis using D(4)[OF 4(1, 2) that(3)] by (auto simp: z_def)
    qed
  qed
  have "hsize (split_top p q n s) b \<noteq> 0" if "b \<in> insert q B" for b using nz[OF that] z[of b] by (metis unat_gt_0)
  moreover have "brk (split_top p q n s) = brk s" by (simp add: split_top_def)
  ultimately show ?thesis using B ends apart unfolding blocks_ok_def z by simp
qed

lemma take_split:
  assumes H: "heap_ok base fs A s" and pr: "pr \<in> set (base # fs)" and p: "p \<in> set fs" and n: "0 < n" "n < unat (hsize s p)"
    and q: "q = p + (unat (hsize s p) - n)"
  shows "heap_ok base fs (insert q A) ((split_top p q n s)\<lparr>freep := pr\<rparr>)" "q \<notin> set fs \<union> A"
proof -
  have R: "free_ring base fs s" and B: "blocks_ok base (set fs \<union> A) s" and dis: "A \<inter> set fs = {}" using H by (auto simp: heap_ok_def)
  note D = ringD[OF R]
  have pB: "p \<in> set fs \<union> A" using p by simp
  note S = split_sizes[OF B pB n q]
  show "q \<notin> set fs \<union> A" by (rule S(5))
  let ?s = "(split_top p q n s)\<lparr>freep := pr\<rparr>"
  have pb: "p \<noteq> base" "q \<noteq> base" using D(5) p S(3) blocks_okD(1)[OF B pB] by auto
  have le: "unat (hsize ?s x) \<le> unat (hsize s x)" if "x \<noteq> q" for x using that S(2) by (simp add: split_top_def)
  have "sorted_wrt (before ?s) (base # fs)"
    using D(2) by (rule sorted_wrt_mono_rel[rotated]) (use le S(5) pb in \<open>fastforce simp: before_def\<close>)
  then have "free_ring base fs ?s" using D(1, 3) pr pb by (simp add: free_ring_def split_top_def)
  moreover have "blocks_ok base (insert q (set fs \<union> A)) ?s" by (rule blocks_cong[OF split_blocks[OF B pB n q]]) auto
  ultimately show "heap_ok base fs (insert q A) ?s" using dis S(5) by (auto simp: heap_ok_def)
qed

text \<open>\<^verbatim>\<open>malloc\<close> takes the block \<open>p\<close>, which follows \<open>pr\<close> in the ring.\<close>

lemma take_block_ok:
  assumes H: "heap_ok base fs A s" and pr: "pr \<in> set (base # fs)" "hptr s pr = p" "p \<in> set (base # fs)" and n: "0 < n" "n \<le> unat (hsize s p)"
  shows "\<exists>fs' b s'. take_block n pr p s = (b + 1, s') \<and> heap_ok base fs' (insert b A) s' \<and> b \<notin> A \<and> unat (hsize s' b) = n \<and>
    (\<forall>a \<in> A. hsize s' a = hsize s a) \<and> brk s' = brk s"
proof -
  have R: "free_ring base fs s" and B: "blocks_ok base (set fs \<union> A) s" and dis: "A \<inter> set fs = {}" using H by (auto simp: heap_ok_def)
  have "p \<noteq> base" using n ringD(3)[OF R] by auto
  then have p: "p \<in> set fs" using pr(3) by simp
  show ?thesis
  proof (cases "unat (hsize s p) = n")
    case True
    obtain fs' where W: "heap_ok base fs' (insert p A) ((set_ptr pr (hptr s p) s)\<lparr>freep := pr\<rparr>)" "p \<notin> A"
      by (rule take_whole[OF H pr(1, 2) \<open>p \<noteq> base\<close>])
    moreover have "take_block n pr p s = (p + 1, (set_ptr pr (hptr s p) s)\<lparr>freep := pr\<rparr>)" using True by (simp add: take_block_def)
    ultimately show ?thesis
      using True by (intro exI[of _ fs'] exI[of _ p] exI[of _ "(set_ptr pr (hptr s p) s)\<lparr>freep := pr\<rparr>"]) simp
  next
    case False
    define q where "q = p + (unat (hsize s p) - n)"
    have n2: "n < unat (hsize s p)" using False n(2) by simp
    note S = split_sizes[OF B _ n(1) n2 q_def] and T = take_split[OF H pr(1) p n(1) n2 q_def]
    have "take_block n pr p s = (q + 1, (split_top p q n s)\<lparr>freep := pr\<rparr>)"
      using False S(2) p by (simp add: take_block_def Let_def split_top_def q_def)
    moreover have "p \<notin> A" using p dis by auto
    ultimately show ?thesis using T S(1) p by (intro exI[of _ fs] exI[of _ q] exI[of _ "(split_top p q n s)\<lparr>freep := pr\<rparr>"]) (auto simp: split_top_def)
  qed
qed

section \<open>Searching\<close>

lemma hpath_last: "hpath h p us r \<Longrightarrow> us \<noteq> [] \<Longrightarrow> h (last us) = r"
  by (induction us arbitrary: p) (auto split: if_splits)

lemma ring_walk:
  assumes R: "free_ring base fs s"
  obtains zs where "hpath (hptr s) (hptr s (freep s)) zs (freep s)" "freep s \<notin> set zs" "set (zs @ [freep s]) = set (base # fs)"
proof -
  note D = ringD[OF R]
  obtain as bs where ab: "base # fs = as @ freep s # bs" using D(4) by (meson split_list)
  have "hpath (hptr s) (freep s) ((freep s # bs) @ as) (freep s)" using hpath_rotate[of "hptr s" base as "freep s # bs"] D(1) ab by simp
  then have "hpath (hptr s) (hptr s (freep s)) (bs @ as) (freep s)" by simp
  moreover have "freep s \<notin> set (bs @ as)" using D(5) unfolding ab by auto
  moreover have "set ((bs @ as) @ [freep s]) = set (base # fs)" unfolding ab by auto
  ultimately show thesis by (rule that)
qed

lemma malloc_walk:
  assumes "hpath (hptr s) p us r" "\<forall>u \<in> set us. unat (hsize s u) < n \<and> u \<noteq> freep s"
  shows "malloc_loop room n pr p s = malloc_loop room n (last (pr # us)) r s"
  using assms
proof (induction us arbitrary: p pr)
  case (Cons u us)
  then have "malloc_loop room n pr u s = malloc_loop room n u (hptr s u) s" by (subst malloc_loop.simps) simp
  then show ?case using Cons by simp
qed simp

lemma malloc_found:
  assumes H: "heap_ok base fs A s" and f: "f \<in> set (base # fs)" "n \<le> unat (hsize s f)"
  obtains pr p where "pr \<in> set (base # fs)" "hptr s pr = p" "p \<in> set (base # fs)" "n \<le> unat (hsize s p)"
    "malloc_loop room n (freep s) (hptr s (freep s)) s = Some (take_block n pr p s)"
proof -
  have R: "free_ring base fs s" using H by (simp add: heap_ok_def)
  obtain zs where zs: "hpath (hptr s) (hptr s (freep s)) zs (freep s)" "freep s \<notin> set zs" "set (zs @ [freep s]) = set (base # fs)"
    by (rule ring_walk[OF R])
  have "\<exists>x \<in> set (zs @ [freep s]). n \<le> unat (hsize s x)" using f unfolding zs(3) by blast
  then obtain ys p ws where y: "zs @ [freep s] = ys @ p # ws" "n \<le> unat (hsize s p)" "\<forall>x \<in> set ys. \<not> n \<le> unat (hsize s x)"
    using split_list_first_prop[of "zs @ [freep s]" "\<lambda>x. n \<le> unat (hsize s x)"] by blast
  have ys: "set ys \<subseteq> set zs" using y(1) by (cases ws rule: rev_cases) auto
  have "hpath (hptr s) (freep s) (freep s # ys @ p # ws) (hptr s (freep s))" using zs(1) by (simp add: hpath_append flip: y(1))
  then have py: "hpath (hptr s) (freep s) (freep s # ys) p" by (auto simp: hpath_append)
  have "malloc_loop room n (freep s) (hptr s (freep s)) s = malloc_loop room n (last (freep s # ys)) p s"
    by (rule malloc_walk) (use py y(3) ys zs(2) in \<open>auto simp: not_le\<close>)
  also have "\<dots> = Some (take_block n (last (freep s # ys)) p s)" using y(2) by (subst malloc_loop.simps) simp
  finally have "malloc_loop room n (freep s) (hptr s (freep s)) s = Some (take_block n (last (freep s # ys)) p s)" .
  moreover have "set (freep s # ys) \<subseteq> set (base # fs)" using ys zs(3) by auto
  then have "last (freep s # ys) \<in> set (base # fs)" using last_in_set[of "freep s # ys"] by blast
  moreover have "p \<in> set (base # fs)" unfolding zs(3)[symmetric] y(1) by simp
  ultimately show thesis using that hpath_last[OF py] y(2) by blast
qed

lemma malloc_full:
  assumes H: "heap_ok base fs A s" and f: "\<forall>f \<in> set (base # fs). unat (hsize s f) < n"
  shows "malloc_loop room n (freep s) (hptr s (freep s)) s =
    Option.bind (morecore room n s) (\<lambda>(p, s). if p = 0 then Some (0, s) else malloc_loop room n p (hptr s p) s)"
proof -
  have R: "free_ring base fs s" using H by (simp add: heap_ok_def)
  obtain zs where zs: "hpath (hptr s) (hptr s (freep s)) zs (freep s)" "freep s \<notin> set zs" "set (zs @ [freep s]) = set (base # fs)"
    by (rule ring_walk[OF R])
  have "malloc_loop room n (freep s) (hptr s (freep s)) s = malloc_loop room n (last (freep s # zs)) (freep s) s"
    by (rule malloc_walk[OF zs(1)]) (use f zs in auto)
  moreover have "unat (hsize s (freep s)) < n" using ringD(4)[OF R] f by blast
  ultimately show ?thesis by (subst (asm) (2) malloc_loop.simps) simp
qed

section \<open>More memory\<close>

lemma grow_ok:
  assumes H: "heap_ok base fs A s" and nu: "0 < nu" "nu < 2 ^ 32" "brk s + 16 * nu < 2 ^ 36"
  defines "hp \<equiv> brk s div 16"
  shows "heap_ok base fs (insert hp A) (set_size hp (of_nat nu) (s\<lparr>brk := brk s + 16 * nu\<rparr>))" "hp \<notin> set fs \<union> A" "unat (of_nat nu :: 32 word) = nu"
proof -
  have R: "free_ring base fs s" and B: "blocks_ok base (set fs \<union> A) s" and dis: "A \<inter> set fs = {}" using H by (auto simp: heap_ok_def)
  note D = blocks_okD[OF B]
  let ?s = "set_size hp (of_nat nu) (s\<lparr>brk := brk s + 16 * nu\<rparr>)"
  show u: "unat (of_nat nu :: 32 word) = nu" using nu(2) by (simp add: unat_of_nat take_bit_nat_eq_self)
  have lt: "b < hp" "b + unat (hsize s b) \<le> hp" if "b \<in> set fs \<union> A" for b using D(2, 3)[OF that] by (auto simp: hp_def)
  then show new: "hp \<notin> set fs \<union> A" by blast
  have hb: "base < hp" using B by (simp add: blocks_ok_def hp_def)
  have top: "brk ?s div 16 = hp + nu" by (simp add: hp_def)
  have nz: "(of_nat nu :: 32 word) \<noteq> 0" using u nu(1) by (metis unat_0 less_irrefl)
  have old: "hsize ?s b = hsize s b" if "b \<in> set fs \<union> A" for b using lt[OF that] by simp
  have "blocks_ok base (insert hp (set fs \<union> A)) ?s"
    unfolding blocks_ok_def
  proof (intro conjI ballI impI)
    show "0 < base" "brk ?s mod 16 = 0" using B by (simp_all add: blocks_ok_def mod_add_eq)
    show "brk ?s < 2 ^ 36" "base < brk ?s div 16" using nu(3) hb top by simp_all
    fix b assume b: "b \<in> insert hp (set fs \<union> A)"
    show "base < b" "hsize ?s b \<noteq> 0" "b + unat (hsize ?s b) \<le> brk ?s div 16"
      using b D(1, 2)[of b] hb nz lt[of b] u top by auto
    fix c assume "c \<in> insert hp (set fs \<union> A)" "b < c"
    then show "b + unat (hsize ?s b) \<le> c" using b lt[of b] lt[of c] D(4)[of b c] by auto
  qed
  moreover have "free_ring base fs ?s"
  proof -
    have "sorted_wrt (before ?s) (base # fs)" by (rule sorted_before[OF _ ringD(2)[OF R]]) (use old hb in auto)
    then show ?thesis using R hb by (simp add: free_ring_def)
  qed
  ultimately show "heap_ok base fs (insert hp A) ?s" using dis new by (auto simp: heap_ok_def)
qed

lemma morecore_ok:
  assumes H: "heap_ok base fs A s" and n: "16 * n < 2 ^ 31" and room: "\<forall>b. room b \<longrightarrow> b < 2 ^ 36"
    and nu: "nu = max n 4096"
  shows "room (brk s + 16 * nu) \<Longrightarrow>
    \<exists>fs' s'. morecore room n s = Some (freep s', s') \<and> heap_ok base fs' A s' \<and> (\<forall>a \<in> A. hsize s' a = hsize s a) \<and> brk s' = brk s + 16 * nu \<and>
      (\<exists>f \<in> set fs'. n \<le> unat (hsize s' f))"
    "\<not> room (brk s + 16 * nu) \<Longrightarrow> morecore room n s = Some (0, s)"
proof -
  have nu2: "(if n < 4096 then 4096 else n) = nu" "0 < nu" "nu < 2 ^ 32" "nu * 16 < 2 ^ 31" "n \<le> nu" using n by (auto simp: nu max_def)
  have small: "sint (of_nat m :: 32 word) = int m" if "m < 2 ^ 31" for m
    using that by (simp add: signed_of_nat signed_take_bit_int_eq_self)
  have si: "sint (of_nat (nu * 16) :: 32 word) = int (16 * nu)" 
    using small[OF nu2(4)] by (simp only: mult.commute)
  have mc: "morecore room n s = (case sbrk room (int (16 * nu)) s of (None, s) \<Rightarrow> Some (0, s)
     | (Some p, s) \<Rightarrow> map_option (\<lambda>s. (freep s, s)) (free (p div 16 + 1) (set_size (p div 16) (of_nat nu) s)))"
    unfolding morecore_def nu2(1) Let_def si ..
  have new: "nat (int (brk s) + int (16 * nu)) = brk s + 16 * nu" by (simp add: nat_add_distrib)
  show "\<not> room (brk s + 16 * nu) \<Longrightarrow> morecore room n s = Some (0, s)"
    using nu2(2) new by (simp add: mc sbrk_def Let_def)
  assume r: "room (brk s + 16 * nu)"
  define s1 where "s1 = set_size (brk s div 16) (of_nat nu) (s\<lparr>brk := brk s + 16 * nu\<rparr>)"
  let ?hp = "brk s div 16"
  note G = grow_ok[OF H nu2(2, 3) room[rule_format, OF r], folded s1_def]
  obtain fs' s' where F: "free_header ?hp s1 = Some s'" "heap_ok base fs' (insert ?hp A - {?hp}) s'" "\<forall>a \<in> insert ?hp A - {?hp}. hsize s' a = hsize s1 a"
    "brk s' = brk s1" "\<forall>b \<in> insert ?hp (set fs). \<exists>c \<in> set fs'. extent s1 b \<subseteq> extent s' c" using free_ok[OF G(1)] by blast
  have A: "insert ?hp A - {?hp} = A" using G(2) by auto
  have "morecore room n s = Some (freep s', s')"
    using r F(1) new by (simp add: mc sbrk_def Let_def s1_def free_def)
  moreover have "\<forall>a \<in> A. hsize s' a = hsize s a" using F(3) G(2) unfolding A by (auto simp: s1_def)
  moreover have "\<exists>f \<in> set fs'. n \<le> unat (hsize s' f)"
  proof -
    obtain c where c: "c \<in> set fs'" "extent s1 ?hp \<subseteq> extent s' c" using F(5) by blast
    have "card (extent s1 ?hp) \<le> card (extent s' c)" using c(2) by (intro card_mono) (auto simp: extent_def)
    then show ?thesis using c(1) G(3) nu2(5) by (intro bexI[of _ c]) (simp_all add: extent_def s1_def)
  qed
  ultimately show "\<exists>fs' s'. morecore room n s = Some (freep s', s') \<and> heap_ok base fs' A s' \<and> (\<forall>a \<in> A. hsize s' a = hsize s a) \<and> brk s' = brk s + 16 * nu \<and>
      (\<exists>f \<in> set fs'. n \<le> unat (hsize s' f))" using F(2, 4) unfolding A by (auto simp: s1_def)
qed

section \<open>Clients of the allocator\<close>

text \<open>Before the first call \<^verbatim>\<open>freep\<close> is NULL; \<open>A\<close> are the headers of the blocks in use.\<close>

definition arena_ok :: "nat \<Rightarrow> nat set \<Rightarrow> arena \<Rightarrow> bool" where
  "arena_ok base A s \<longleftrightarrow> freep s = 0 \<and> A = {} \<and> blocks_ok base {} s \<or> (\<exists>fs. heap_ok base fs A s)"

lemma heap_inUse:
  assumes H: "heap_ok base fs A s" and b: "b \<in> A"
  shows "\<forall>a \<in> A - {b}. extent s b \<inter> extent s a = {}" "extent s b \<subseteq> {base<..<brk s div 16}" "0 < unat (hsize s b)"
proof -
  have B: "blocks_ok base (set fs \<union> A) s" using H by (simp add: heap_ok_def)
  show "\<forall>a \<in> A - {b}. extent s b \<inter> extent s a = {}" using extents_disjoint[OF B, of b] b by auto
  show "extent s b \<subseteq> {base<..<brk s div 16}" "0 < unat (hsize s b)"
    using blocks_okD(1-3)[OF B, of b] b by (auto simp: extent_def)
qed

lemma freep_set: "heap_ok base fs A s \<Longrightarrow> freep s \<noteq> 0"
  using blocks_okD(1)[of base "set fs \<union> A" s "freep s"] blocks_okD(6)[of base "set fs \<union> A" s]
  by (auto simp: heap_ok_def free_ring_def)

lemma first_call:
  assumes "arena_ok base A s"
  defines "s0 \<equiv> (if freep s = 0 then set_size base 0 ((set_ptr base base s)\<lparr>freep := base\<rparr>) else s)"
  obtains fs where "heap_ok base fs A s0" "\<forall>a \<in> A. hsize s0 a = hsize s a" "brk s0 = brk s"
proof (cases "freep s = 0")
  case False
  then show thesis using that assms by (auto simp: arena_ok_def)
next
  case True
  have "\<not> heap_ok base fs A s" for fs using True freep_set by blast
  then have "A = {}" "blocks_ok base {} s" using assms by (auto simp: arena_ok_def)
  moreover have "free_ring base [] s0" using True by (simp add: s0_def free_ring_def)
  moreover have "brk s0 = brk s" by (simp add: s0_def)
  ultimately show thesis using that[of "[]"] by (simp add: heap_ok_def blocks_ok_def)
qed

lemma units_bound: "unat nbytes < 2 ^ 31 - 32 \<Longrightarrow> 16 * units nbytes < 2 ^ 31" "unat nbytes \<le> 16 * (units nbytes - 1)" "0 < units nbytes"
  by (simp_all add: units_def)

lemma malloc_result:
  assumes H: "heap_ok base fs A s" and n: "0 < n" and f: "\<exists>f \<in> set (base # fs). n \<le> unat (hsize s f)"
  shows "\<exists>fs' b s'. malloc_loop room n (freep s) (hptr s (freep s)) s = Some (b + 1, s') \<and> heap_ok base fs' (insert b A) s' \<and> b \<notin> A \<and>
    unat (hsize s' b) = n \<and> (\<forall>a \<in> A. hsize s' a = hsize s a) \<and> brk s' = brk s"
  using malloc_found[OF H, where n = n and room = room] take_block_ok[OF H _ _ _ n] f by metis

lemma malloc_ok:
  assumes s: "arena_ok base A s" and n: "unat nbytes < 2 ^ 31 - 32" and room: "\<forall>b. room b \<longrightarrow> b < 2 ^ 36"
  shows "(\<exists>fs b s'. malloc base room nbytes s = Some (b + 1, s') \<and> heap_ok base fs (insert b A) s' \<and> b \<notin> A \<and> unat (hsize s' b) = units nbytes \<and>
      (\<forall>a \<in> A. hsize s' a = hsize s a)) \<or>
    (\<exists>fs s'. malloc base room nbytes s = Some (0, s') \<and> heap_ok base fs A s' \<and> \<not> room (brk s + 16 * max (units nbytes) 4096) \<and>
      (\<forall>a \<in> A. hsize s' a = hsize s a) \<and> brk s' = brk s)"
proof -
  define s0 where "s0 = (if freep s = 0 then set_size base 0 ((set_ptr base base s)\<lparr>freep := base\<rparr>) else s)"
  obtain fs where H: "heap_ok base fs A s0" and z: "\<forall>a \<in> A. hsize s0 a = hsize s a" and b: "brk s0 = brk s"
    using first_call[OF s] unfolding s0_def by blast
  have m: "malloc base room nbytes s = malloc_loop room (units nbytes) (freep s0) (hptr s0 (freep s0)) s0"
    by (simp add: malloc_def s0_def Let_def)
  note U = units_bound(1)[OF n] units_bound(3)[of nbytes]
  show ?thesis
  proof (cases "\<exists>f \<in> set (base # fs). units nbytes \<le> unat (hsize s0 f)")
    case True
    show ?thesis using malloc_result[OF H U(2) True, of room] z unfolding m by metis
  next
    case False
    then have "\<forall>f \<in> set (base # fs). unat (hsize s0 f) < units nbytes" by (simp add: not_le)
    note full = malloc_full[OF H this, of room, folded m] and M = morecore_ok[OF H U(1) room refl]
    show ?thesis
    proof (cases "room (brk s0 + 16 * max (units nbytes) 4096)")
      case r: True
      obtain fs' s' where S: "morecore room (units nbytes) s0 = Some (freep s', s')" "heap_ok base fs' A s'" "\<forall>a \<in> A. hsize s' a = hsize s0 a"
        "\<exists>f \<in> set fs'. units nbytes \<le> unat (hsize s' f)" using M(1)[OF r] by blast
      have "freep s' \<noteq> 0" by (rule freep_set[OF S(2)])
      then have "malloc base room nbytes s = malloc_loop room (units nbytes) (freep s') (hptr s' (freep s')) s'" using full S(1) by simp
      then show ?thesis using malloc_result[OF S(2) U(2), of room] S(3, 4) z by (metis list.set_intros(2))
    next
      case nr: False
      then show ?thesis using full M(2)[OF nr] H z b by auto
    qed
  qed
qed

text \<open>
  What a client may do: it requests less than \<open>2\<^sup>3\<^sup>1 - 32\<close> bytes at a time, and it releases only blocks it holds. What the kernel has left may differ at each
  request.
\<close>

definition bounded :: "(nat \<Rightarrow> bool) \<Rightarrow> bool" where
  "bounded room \<longleftrightarrow> (\<forall>b. room b \<longrightarrow> b < 2 ^ 36)"

inductive client :: "nat \<Rightarrow> nat set \<times> arena \<Rightarrow> nat set \<times> arena \<Rightarrow> bool" for base where
  client_malloc: "bounded room \<Longrightarrow> unat n < 2 ^ 31 - 32 \<Longrightarrow> malloc base room n s = Some (p, s') \<Longrightarrow>
    client base (A, s) (if p = 0 then A else insert (p - 1) A, s')"
| client_free: "b \<in> A \<Longrightarrow> free (b + 1) s = Some s' \<Longrightarrow> client base (A, s) (A - {b}, s')"

lemma client_ok:
  assumes "client base c c'" "arena_ok base (fst c) (snd c)"
  shows "arena_ok base (fst c') (snd c')"
  using assms
proof (induction rule: client.induct)
  case (client_malloc room n s p s' A)
  then show ?case using malloc_ok[of base A s n room] by (auto simp: arena_ok_def bounded_def)
next
  case (client_free b A s s')
  then obtain fs where H: "heap_ok base fs A s" by (auto simp: arena_ok_def)
  show ?case using free_ok[OF H client_free(1)] client_free(2) by (auto simp: free_def arena_ok_def)
qed

lemma clients_ok: "(client base)\<^sup>*\<^sup>* c c' \<Longrightarrow> arena_ok base (fst c) (snd c) \<Longrightarrow> arena_ok base (fst c') (snd c')"
  by (induction rule: rtranclp_induct) (auto intro: client_ok)

definition fresh_arena :: "nat \<Rightarrow> nat \<Rightarrow> arena \<Rightarrow> bool" where
  "fresh_arena base e s \<longleftrightarrow> freep s = 0 \<and> 0 < base \<and> base < e \<and> brk s = 16 * e \<and> e < 2 ^ 32"

lemma fresh_arena_ok: "fresh_arena base e s \<Longrightarrow> arena_ok base {} s"
  by (simp add: fresh_arena_def arena_ok_def blocks_ok_def)

definition small_room :: "nat \<Rightarrow> bool" where
  "small_room b \<longleftrightarrow> b < 2 ^ 20"

definition arena0 :: arena where
  "arena0 = \<lparr>hptr = (\<lambda>_. 0), hsize = (\<lambda>_. 0), freep = 0, brk = 4096\<rparr>"

lemma arena0_fresh: "fresh_arena 1 256 arena0" "bounded small_room"
  by (simp_all add: fresh_arena_def arena0_def small_room_def bounded_def)

text \<open>
  A request of less than \<open>2\<close> GiB always returns. It returns NULL, changing no block, only when the
  kernel refuses to extend the heap. Otherwise it returns a block of at least the size asked for that lies
  in the heap and is disjoint from every block in use, whose sizes are unchanged.
\<close>

definition served :: "nat \<Rightarrow> (nat \<Rightarrow> bool) \<Rightarrow> 32 word \<Rightarrow> nat set \<Rightarrow> arena \<Rightarrow> nat \<Rightarrow> arena \<Rightarrow> bool" where
  "served base room nbytes A s p s' \<longleftrightarrow> (\<forall>a \<in> A. hsize s' a = hsize s a) \<and>
    (if p = 0 then \<not> room (brk s + 16 * max (units nbytes) 4096) \<and> brk s' = brk s
     else p - 1 \<notin> A \<and> unat nbytes \<le> 16 * (unat (hsize s' (p - 1)) - 1) \<and> (\<forall>a \<in> A. extent s' (p - 1) \<inter> extent s' a = {}) \<and>
       extent s' (p - 1) \<subseteq> {base<..<brk s' div 16})"

lemma malloc_fresh:
  assumes "arena_ok base A s" "unat nbytes < 2 ^ 31 - 32" "bounded room"
  shows "\<exists>p s'. malloc base room nbytes s = Some (p, s') \<and> served base room nbytes A s p s'"
  using malloc_ok[OF assms[unfolded bounded_def]]
proof (elim disjE exE conjE)
  fix fs b s'
  assume M: "malloc base room nbytes s = Some (b + 1, s')" "heap_ok base fs (insert b A) s'" "b \<notin> A" "unat (hsize s' b) = units nbytes"
    "\<forall>a \<in> A. hsize s' a = hsize s a"
  show ?thesis
    using M heap_inUse[OF M(2), of b] units_bound(2)[of nbytes] by (intro exI[of _ "b + 1"] exI[of _ s']) (auto simp: served_def)
next
  fix fs s'
  assume "malloc base room nbytes s = Some (0, s')" "heap_ok base fs A s'" "\<not> room (brk s + 16 * max (units nbytes) 4096)"
    "\<forall>a \<in> A. hsize s' a = hsize s a" "brk s' = brk s"
  then show ?thesis by (intro exI[of _ 0] exI[of _ s']) (auto simp: served_def)
qed

text \<open>The product of units and header size is converted to the \<^verbatim>\<open>int\<close> that \<^verbatim>\<open>sbrk\<close> takes. The first
  request for \<open>2\<^sup>3\<^sup>2 - 1\<close> bytes extends the heap by sixteen bytes and returns a block said to have
  \<open>2\<^sup>2\<^sup>8 + 1\<close> units.\<close>

lemma malloc_wraps:
  assumes "fresh_arena base e s" "room (brk s + 16)"
  shows "\<exists>s'. malloc base room 0xFFFFFFFF s = Some (e + 1, s') \<and> brk s' = 16 * (e + 1) \<and> unat (hsize s' e) = 2 ^ 28 + 1 \<and>
    \<not> extent s' e \<subseteq> {base<..<brk s' div 16}"
proof -
  have f: "freep s = 0" "0 < base" "base < e" "brk s = 16 * e" using assms(1) by (simp_all add: fresh_arena_def)
  have u: "units 0xFFFFFFFF = 2 ^ 28 + 1" by (simp add: units_def)
  define s0 where "s0 = set_size base 0 ((set_ptr base base s)\<lparr>freep := base\<rparr>)"
  have s0: "hptr s0 base = base" "freep s0 = base" "brk s0 = 16 * e" "hsize s0 base = 0" using f by (simp_all add: s0_def)
  define s1 where "s1 = set_size e (of_nat (2 ^ 28 + 1)) (s0\<lparr>brk := 16 * (e + 1)\<rparr>)"
  have fp: "free_place s1 e base = Some base"
    using s0 f by (subst free_place.simps) (simp add: place_found_def s1_def)
  define s2 where "s2 = (set_ptr base e (set_ptr e base s1))\<lparr>freep := base\<rparr>"
  have fr: "free (e + 1) s1 = Some s2"
    using fp s0 f by (simp add: free_def free_header_def join_next_def join_prev_def s1_def s2_def)
  have na: "nat (16 * int e + 16) = 16 * e + 16" by linarith
  have mc: "morecore room (2 ^ 28 + 1) s0 = Some (base, s2)"
    using fr s0 assms(2) f na by (simp add: morecore_def sbrk_def Let_def s1_def add.commute) (simp add: s2_def)
  have "malloc_loop room (2 ^ 28 + 1) base base s0 = malloc_loop room (2 ^ 28 + 1) base e s2"
    using mc s0 f by (subst malloc_loop.simps) (simp add: s2_def)
  also have "\<dots> = Some (take_block (2 ^ 28 + 1) base e s2)"
    using f by (subst malloc_loop.simps) (simp add: s2_def s1_def)
  finally have run: "malloc_loop room (2 ^ 28 + 1) base base s0 = Some (take_block (2 ^ 28 + 1) base e s2)" .
  have "e + 1 \<in> {e..<e + 268435457}" "e + 1 \<notin> {base<..<Suc e}" by simp_all
  then have "\<not> {e..<e + 268435457} \<subseteq> {base<..<Suc e}" by blast
  then show ?thesis using run f s0 u by (simp add: malloc_def Let_def flip: s0_def) (simp add: take_block_def s2_def s1_def extent_def)
qed

section \<open>Properties\<close>

text \<open>
  C40: As long as every request is for less than \<open>2\<^sup>3\<^sup>1 - 32\<close> bytes (beyond that the request to the
  kernel can wrap around and a block reach out of the heap, as \<open>malloc_wraps\<close> shows), then whatever
  sequence of requests and releases of blocks it holds a client makes, and whatever the kernel grants,
  the blocks it holds stay disjoint and inside the heap. The next release returns, and so does the next
  request of less than \<open>2\<^sup>3\<^sup>1 - 32\<close> bytes: with NULL only if the kernel refuses more memory, and
  otherwise with a block of at least the size asked for, in the heap and apart from every block held,
  whose sizes are unchanged.
\<close>

theorem heap_stays_sound:
  assumes "(client base)\<^sup>*\<^sup>* ({}, s0) (A, s)" "fresh_arena base e s0"
  shows "(\<forall>a \<in> A. extent s a \<subseteq> {base<..<brk s div 16} \<and> (\<forall>b \<in> A - {a}. extent s a \<inter> extent s b = {})) \<and>
    (\<forall>room n. bounded room \<and> unat n < 2 ^ 31 - 32 \<longrightarrow> (\<exists>p s'. malloc base room n s = Some (p, s') \<and> served base room n A s p s')) \<and> (\<forall>a \<in> A. free (a + 1) s \<noteq> None)"
proof -
  have ok: "arena_ok base A s" using clients_ok[OF assms(1)] fresh_arena_ok[OF assms(2)] by simp
  then have "\<exists>p s'. malloc base room n s = Some (p, s') \<and> served base room n A s p s'" if "bounded room" "unat n < 2 ^ 31 - 32" for room n
    using malloc_fresh that by blast
  moreover have "free (a + 1) s \<noteq> None \<and> extent s a \<subseteq> {base<..<brk s div 16} \<and> (\<forall>b \<in> A - {a}. extent s a \<inter> extent s b = {})" if a: "a \<in> A" for a
  proof -
    obtain fs where H: "heap_ok base fs A s" using ok a by (auto simp: arena_ok_def)
    show ?thesis using free_ok[OF H a] heap_inUse[OF H a] by (auto simp: free_def)
  qed
  ultimately show ?thesis by blast
qed

theorem heap_stays_sound_witness:
  "\<exists>p s q s'. malloc 1 small_room 100 arena0 = Some (p, s) \<and> p \<noteq> 0 \<and> malloc 1 small_room 50 s = Some (q, s') \<and> served 1 small_room 50 {p - 1} s q s'"
proof -
  have "\<exists>p s. malloc 1 small_room 100 arena0 = Some (p, s) \<and> served 1 small_room 100 {} arena0 p s"
    using heap_stays_sound[OF rtranclp.rtrancl_refl arena0_fresh(1)] arena0_fresh(2) by simp
  then obtain p s where m: "malloc 1 small_room 100 arena0 = Some (p, s)" "p \<noteq> 0"
    by (auto simp: served_def small_room_def arena0_def units_def split: if_splits)
  have c: "client 1 ({}, arena0) ({p - 1}, s)" using client_malloc[OF arena0_fresh(2) _ m(1), of "{}"] m(2) by simp
  have "\<exists>q s'. malloc 1 small_room 50 s = Some (q, s') \<and> served 1 small_room 50 {p - 1} s q s'"
    using heap_stays_sound[OF r_into_rtranclp[of "client 1", OF c] arena0_fresh(1)] arena0_fresh(2) by simp
  then show ?thesis using m by blast
qed

end
