(* ===== verification/Vm.thy ===== *)
theory Vm
  imports Kalloc Cstring
begin

unbundle bit_operations_syntax

text \<open>
  Virtual memory, \<^verbatim>\<open>kernel/vm.c\<close>: the three-level page tables of Sv39 and the user memory they map.
  The state is the physical memory, one byte at every address, and the page allocator. A page
  table entry is the 64-bit little-endian word at its address; addresses are natural numbers and
  NULL is \<^const>\<open>None\<close>. The link word of a free page is in the memory and, as the allocator sees it,
  in \<^const>\<open>next_of\<close>.
\<close>

section \<open>Memory words and page table entries\<close>

record vm =
  vmem :: mem
  km :: kmem

definition rd64 :: "mem \<Rightarrow> nat \<Rightarrow> 64 word" where
  "rd64 m a = foldr (\<lambda>k w. push_bit (8 * k) (ucast (m (a + k))) OR w) [0..<8] 0"

definition wr64 :: "nat \<Rightarrow> 64 word \<Rightarrow> mem \<Rightarrow> mem" where
  "wr64 a v m = (\<lambda>x. if a \<le> x \<and> x < a + 8 then ucast (drop_bit (8 * (x - a)) v) else m x)"

definition PTE_V :: "64 word" where "PTE_V = 1"

definition PTE_R :: "64 word" where "PTE_R = 2"

definition PTE_W :: "64 word" where "PTE_W = 4"

definition PTE_X :: "64 word" where "PTE_X = 8"

definition PTE_U :: "64 word" where "PTE_U = 16"

definition MAXVA :: nat where "MAXVA = 2 ^ (9 + 9 + 9 + 12 - 1)"

definition PA2PTE :: "nat \<Rightarrow> 64 word" where
  "PA2PTE pa = push_bit 10 (drop_bit 12 (of_nat pa))"

definition PTE2PA :: "64 word \<Rightarrow> nat" where
  "PTE2PA pte = unat (push_bit 12 (drop_bit 10 pte))"

definition PTE_FLAGS :: "64 word \<Rightarrow> 64 word" where
  "PTE_FLAGS pte = pte AND 0x3FF"

definition PX :: "nat \<Rightarrow> nat \<Rightarrow> nat" where
  "PX level va = va div 2 ^ (12 + 9 * level) mod 512"

definition PGROUNDDOWN :: "nat \<Rightarrow> nat" where
  "PGROUNDDOWN a = a div PGSIZE * PGSIZE"

definition has :: "64 word \<Rightarrow> 64 word \<Rightarrow> bool" where
  "has pte flag \<longleftrightarrow> pte AND flag \<noteq> 0"

definition set_mem :: "(mem \<Rightarrow> mem) \<Rightarrow> vm \<Rightarrow> vm" where
  "set_mem f s = s\<lparr>vmem := f (vmem s)\<rparr>"

section \<open>Pages from the allocator\<close>

definition vm_kalloc :: "vm \<Rightarrow> nat option \<times> vm" where
  "vm_kalloc s =
    (case kalloc (km s) of (None, k) \<Rightarrow> (None, s\<lparr>km := k\<rparr>)
     | (Some p, k) \<Rightarrow> (Some p, s\<lparr>km := k, vmem := memset p 5 PGSIZE (vmem s)\<rparr>))"

definition vm_kfree :: "nat \<Rightarrow> nat \<Rightarrow> vm \<Rightarrow> fault + vm" where
  "vm_kfree kend pa s =
    rbind (kfree kend pa (km s)) (\<lambda>k.
      Inr (s\<lparr>km := k, vmem := wr64 pa (of_nat (freelist (km s))) (memset pa 1 PGSIZE (vmem s))\<rparr>))"

section \<open>Page tables\<close>

fun walk_levels :: "nat \<Rightarrow> nat \<Rightarrow> nat \<Rightarrow> bool \<Rightarrow> vm \<Rightarrow> nat option \<times> vm" where
  "walk_levels 0 pagetable va alloc s = (Some (pagetable + 8 * PX 0 va), s)"
| "walk_levels (Suc level) pagetable va alloc s =
    (let pte = pagetable + 8 * PX (Suc level) va in
     if has (rd64 (vmem s) pte) PTE_V then walk_levels level (PTE2PA (rd64 (vmem s) pte)) va alloc s
     else if \<not> alloc then (None, s)
     else case vm_kalloc s of (None, s) \<Rightarrow> (None, s)
       | (Some p, s) \<Rightarrow>
           walk_levels level p va alloc (set_mem (\<lambda>m. wr64 pte (PA2PTE p OR PTE_V) (memset p 0 PGSIZE m)) s))"

definition walk :: "nat \<Rightarrow> nat \<Rightarrow> bool \<Rightarrow> vm \<Rightarrow> fault + (nat option \<times> vm)" where
  "walk pagetable va alloc s =
    (if va \<ge> MAXVA then Inl (Panic ''walk'') else Inr (walk_levels 2 pagetable va alloc s))"

definition walkaddr :: "nat \<Rightarrow> nat \<Rightarrow> vm \<Rightarrow> nat" where
  "walkaddr pagetable va s =
    (if va \<ge> MAXVA then 0
     else case walk_levels 2 pagetable va False s of (None, _) \<Rightarrow> 0
       | (Some a, _) \<Rightarrow> let pte = rd64 (vmem s) a in
           if \<not> has pte PTE_V then 0 else if \<not> has pte PTE_U then 0 else PTE2PA pte)"

function mappages_loop :: "nat \<Rightarrow> nat \<Rightarrow> nat \<Rightarrow> nat \<Rightarrow> 64 word \<Rightarrow> vm \<Rightarrow> fault + (int \<times> vm)" where
  "mappages_loop pagetable a stop pa perm s =
    (case walk pagetable a True s of
       Inl e \<Rightarrow> Inl e
     | Inr (None, s) \<Rightarrow> Inr (-1, s)
     | Inr (Some pte, s) \<Rightarrow>
         if has (rd64 (vmem s) pte) PTE_V then Inl (Panic ''mappages: remap'')
         else let s = set_mem (wr64 pte (PA2PTE pa OR perm OR PTE_V)) s in
           if a = stop then Inr (0, s)
           else mappages_loop pagetable (a + PGSIZE) stop (pa + PGSIZE) perm s)"
  by auto
termination
  by (relation "measure (\<lambda>(pagetable, a, stop, pa, perm, s). MAXVA - a)")
    (auto simp: walk_def PGSIZE_def split: if_splits)

declare mappages_loop.simps [simp del]

definition mappages :: "nat \<Rightarrow> nat \<Rightarrow> nat \<Rightarrow> nat \<Rightarrow> 64 word \<Rightarrow> vm \<Rightarrow> fault + (int \<times> vm)" where
  "mappages pagetable va sz pa perm s =
    (if va mod PGSIZE \<noteq> 0 then Inl (Panic ''mappages: va not aligned'')
     else if sz mod PGSIZE \<noteq> 0 then Inl (Panic ''mappages: size not aligned'')
     else if sz = 0 then Inl (Panic ''mappages: size'')
     else mappages_loop pagetable va (va + sz - PGSIZE) pa perm s)"

definition uvmcreate :: "vm \<Rightarrow> nat option \<times> vm" where
  "uvmcreate s =
    (case vm_kalloc s of (None, s) \<Rightarrow> (None, s)
     | (Some p, s) \<Rightarrow> (Some p, set_mem (memset p 0 PGSIZE) s))"

primrec uvmunmap_loop :: "nat \<Rightarrow> nat \<Rightarrow> nat \<Rightarrow> nat \<Rightarrow> bool \<Rightarrow> vm \<Rightarrow> fault + vm" where
  "uvmunmap_loop kend pagetable 0 = (\<lambda>a do_free s. Inr s)"
| "uvmunmap_loop kend pagetable (Suc n) = (\<lambda>a do_free s.
    rbind (walk pagetable a False s) (\<lambda>(r, s).
      case r of None \<Rightarrow> uvmunmap_loop kend pagetable n (a + PGSIZE) do_free s
      | Some pte \<Rightarrow>
          let v = rd64 (vmem s) pte in
          if \<not> has v PTE_V then uvmunmap_loop kend pagetable n (a + PGSIZE) do_free s
          else rbind (if do_free then vm_kfree kend (PTE2PA v) s else Inr s) (\<lambda>s.
            uvmunmap_loop kend pagetable n (a + PGSIZE) do_free (set_mem (wr64 pte 0) s))))"

definition uvmunmap :: "nat \<Rightarrow> nat \<Rightarrow> nat \<Rightarrow> nat \<Rightarrow> bool \<Rightarrow> vm \<Rightarrow> fault + vm" where
  "uvmunmap kend pagetable va npages do_free s =
    (if va mod PGSIZE \<noteq> 0 then Inl (Panic ''uvmunmap: not aligned'')
     else uvmunmap_loop kend pagetable npages va do_free s)"

definition uvmdealloc :: "nat \<Rightarrow> nat \<Rightarrow> nat \<Rightarrow> nat \<Rightarrow> vm \<Rightarrow> fault + (nat \<times> vm)" where
  "uvmdealloc kend pagetable oldsz newsz s =
    (if newsz \<ge> oldsz then Inr (oldsz, s)
     else rbind (if PGROUNDUP newsz < PGROUNDUP oldsz
          then uvmunmap kend pagetable (PGROUNDUP newsz) ((PGROUNDUP oldsz - PGROUNDUP newsz) div PGSIZE) True s
          else Inr s) (\<lambda>s. Inr (newsz, s)))"

function uvmalloc_loop :: "nat \<Rightarrow> nat \<Rightarrow> nat \<Rightarrow> nat \<Rightarrow> nat \<Rightarrow> 64 word \<Rightarrow> vm \<Rightarrow> fault + (nat \<times> vm)" where
  "uvmalloc_loop kend pagetable oldsz a newsz xperm s =
    (if a < newsz then
       case vm_kalloc s of
         (None, s) \<Rightarrow> rbind (uvmdealloc kend pagetable a oldsz s) (\<lambda>(_, s). Inr (0, s))
       | (Some p, s) \<Rightarrow>
           rbind (mappages pagetable a PGSIZE p (PTE_R OR PTE_U OR xperm) (set_mem (memset p 0 PGSIZE) s)) (\<lambda>(r, s).
             if r \<noteq> 0 then
               rbind (vm_kfree kend p s) (\<lambda>s.
               rbind (uvmdealloc kend pagetable a oldsz s) (\<lambda>(_, s). Inr (0, s)))
             else uvmalloc_loop kend pagetable oldsz (a + PGSIZE) newsz xperm s)
     else Inr (newsz, s))"
  by auto
termination
  by (relation "measure (\<lambda>(kend, pagetable, oldsz, a, newsz, xperm, s). newsz - a)") (auto simp: PGSIZE_def)

declare uvmalloc_loop.simps [simp del]

definition uvmalloc :: "nat \<Rightarrow> nat \<Rightarrow> nat \<Rightarrow> nat \<Rightarrow> 64 word \<Rightarrow> vm \<Rightarrow> fault + (nat \<times> vm)" where
  "uvmalloc kend pagetable oldsz newsz xperm s =
    (if newsz < oldsz then Inr (oldsz, s)
     else uvmalloc_loop kend pagetable (PGROUNDUP oldsz) (PGROUNDUP oldsz) newsz xperm s)"

definition uvmclear :: "nat \<Rightarrow> nat \<Rightarrow> vm \<Rightarrow> fault + vm" where
  "uvmclear pagetable va s =
    rbind (walk pagetable va False s) (\<lambda>(r, s).
      case r of None \<Rightarrow> Inl (Panic ''uvmclear'')
      | Some pte \<Rightarrow> Inr (set_mem (wr64 pte (rd64 (vmem s) pte AND NOT PTE_U)) s))"

definition ismapped :: "nat \<Rightarrow> nat \<Rightarrow> vm \<Rightarrow> fault + bool" where
  "ismapped pagetable va s =
    rbind (walk pagetable va False s) (\<lambda>(r, s).
      case r of None \<Rightarrow> Inr False | Some pte \<Rightarrow> Inr (has (rd64 (vmem s) pte) PTE_V))"

text \<open>
  \<open>sz\<close> and \<open>proc_pt\<close> are the size and the page table of the calling process; 0 stands for the NULL
  address it returns.
\<close>

definition vmfault :: "nat \<Rightarrow> nat \<Rightarrow> nat \<Rightarrow> nat \<Rightarrow> nat \<Rightarrow> vm \<Rightarrow> fault + (nat \<times> vm)" where
  "vmfault kend sz proc_pt pagetable va s =
    (if va \<ge> sz then Inr (0, s)
     else let va = PGROUNDDOWN va in
       rbind (ismapped pagetable va s) (\<lambda>b.
       if b then Inr (0, s)
       else case vm_kalloc s of (None, s) \<Rightarrow> Inr (0, s)
         | (Some p, s) \<Rightarrow>
             rbind (mappages proc_pt va PGSIZE p (PTE_W OR PTE_U OR PTE_R) (set_mem (memset p 0 PGSIZE) s)) (\<lambda>(r, s).
               if r \<noteq> 0 then rbind (vm_kfree kend p s) (\<lambda>s. Inr (0, s)) else Inr (p, s))))"

section \<open>The size of a process\<close>

text \<open>
  \<open>n\<close> is a C \<^verbatim>\<open>int\<close> and the size an unsigned 64-bit number, so a negative \<open>n\<close> below the size wraps
  around.
\<close>

definition TRAMPOLINE :: nat where "TRAMPOLINE = MAXVA - PGSIZE"

definition TRAPFRAME :: nat where "TRAPFRAME = TRAMPOLINE - PGSIZE"

definition wrap64 :: "int \<Rightarrow> nat" where
  "wrap64 x = nat (x mod 2 ^ 64)"

definition growproc :: "nat \<Rightarrow> nat \<Rightarrow> int \<Rightarrow> nat \<Rightarrow> vm \<Rightarrow> fault + (int \<times> nat \<times> vm)" where
  "growproc kend pagetable n sz s =
    (if n > 0 then
       rbind (uvmalloc kend pagetable sz (wrap64 (int sz + n)) PTE_W s) (\<lambda>(sz', s).
         if sz' = 0 then Inr (-1, sz, s) else Inr (0, sz', s))
     else if n < 0 then
       rbind (uvmdealloc kend pagetable sz (wrap64 (int sz + n)) s) (\<lambda>(sz', s). Inr (0, sz', s))
     else Inr (0, sz, s))"

definition SBRK_EAGER :: int where "SBRK_EAGER = 1"

definition sys_sbrk :: "nat \<Rightarrow> nat \<Rightarrow> int \<Rightarrow> int \<Rightarrow> nat \<Rightarrow> vm \<Rightarrow> fault + (int \<times> nat \<times> vm)" where
  "sys_sbrk kend pagetable n t sz s =
    (if t = SBRK_EAGER \<or> n < 0 then
       rbind (growproc kend pagetable n sz s) (\<lambda>(r, sz', s).
         if r < 0 then Inr (-1, sz', s) else Inr (int sz, sz', s))
     else if wrap64 (int sz + n) < sz then Inr (-1, sz, s)
     else Inr (int sz, wrap64 (int sz + n), s))"

section \<open>Laws of the words\<close>

lemma bit_word_foldr:
  "bit (foldr (\<lambda>k w. push_bit (8 * k) (ucast (m (a + k))) OR w) ks (0 :: 64 word)) n \<longleftrightarrow>
     (\<exists>k\<in>set ks. 8 * k \<le> n \<and> n < 64 \<and> bit (m (a + k) :: byte) (n - 8 * k))"
  by (induction ks) (auto simp: bit_simps)

lemma bit_rd64: "bit (rd64 m a) n \<longleftrightarrow> n < 64 \<and> bit (m (a + n div 8)) (n mod 8)"
proof -
  have "k = n div 8 \<and> n - 8 * k = n mod 8" if "8 * k \<le> n" "bit (m (a + k)) (n - 8 * k)" for k
  proof -
    have "n - 8 * k < 8" using bit_imp_le_length[OF that(2)] by simp
    then have "k = n div 8" using that(1) by linarith
    then show ?thesis by (simp add: minus_mult_div_eq_mod)
  qed
  then show ?thesis
    unfolding rd64_def bit_word_foldr by (auto simp: minus_mult_div_eq_mod intro!: bexI[of _ "n div 8"])
qed

lemma rd64_cong: "(\<And>x. a \<le> x \<Longrightarrow> x < a + 8 \<Longrightarrow> m' x = m x) \<Longrightarrow> rd64 m' a = rd64 m a"
  by (rule bit_eqI) (auto simp: bit_rd64)

lemma rd64_wr64_same [simp]: "rd64 (wr64 a v m) a = v"
proof (rule bit_word_eqI)
  fix n
  assume "n < LENGTH(64)"
  then have "n div 8 < 8" "8 * (n div 8) + n mod 8 = n" by auto
  then show "bit (rd64 (wr64 a v m) a) n \<longleftrightarrow> bit v n"
    using \<open>n < LENGTH(64)\<close> by (simp add: bit_rd64 wr64_def bit_simps)
qed

lemma rd64_wr64_other: "a + 8 \<le> b \<or> b + 8 \<le> a \<Longrightarrow> rd64 (wr64 a v m) b = rd64 m b"
  by (rule rd64_cong) (auto simp: wr64_def)

lemma rd64_zero: "(\<And>x. a \<le> x \<Longrightarrow> x < a + 8 \<Longrightarrow> m x = 0) \<Longrightarrow> rd64 m a = 0"
  by (rule bit_eqI) (simp add: bit_rd64)

definition flags_ok :: "64 word \<Rightarrow> bool" where
  "flags_ok f \<longleftrightarrow> drop_bit 10 f = 0"

lemma flags_bit: "flags_ok f \<Longrightarrow> 10 \<le> n \<Longrightarrow> \<not> bit f n"
  using bit_drop_bit_eq[of 10 f] by (auto simp: flags_ok_def fun_eq_iff dest: spec[of _ "n - 10"])

lemma flags_or [simp]: "flags_ok (f OR g) \<longleftrightarrow> flags_ok f \<and> flags_ok g"
  by (auto simp: flags_ok_def or_eq_0_iff)

lemma flags_consts [simp]: "flags_ok PTE_V" "flags_ok PTE_R" "flags_ok PTE_W" "flags_ok PTE_X" "flags_ok PTE_U"
  by (simp_all add: flags_ok_def PTE_V_def PTE_R_def PTE_W_def PTE_X_def PTE_U_def)

lemma PTE2PA_PA2PTE:
  assumes "pa mod PGSIZE = 0" "pa < 2 ^ 64" "flags_ok f"
  shows "PTE2PA (PA2PTE pa OR f) = pa"
proof -
  have "take_bit 12 pa = 0" using assms(1) by (simp add: take_bit_eq_mod PGSIZE_def)
  then have "take_bit 12 (of_nat pa :: 64 word) = 0" by (subst take_bit_of_nat) simp
  then have low: "\<not> bit (of_nat pa :: 64 word) n" if "n < 12" for n
    using that bit_take_bit_iff[of 12 "of_nat pa :: 64 word" n] by simp
  have "push_bit 12 (drop_bit 10 (PA2PTE pa OR f)) = (of_nat pa :: 64 word)"
  proof (rule bit_word_eqI)
    fix n
    assume n: "n < LENGTH(64)"
    show "bit (push_bit 12 (drop_bit 10 (PA2PTE pa OR f))) n \<longleftrightarrow> bit (of_nat pa :: 64 word) n"
    proof (cases "n < 12")
      case False
      then have "\<not> bit f (n - 2)" using flags_bit[OF assms(3)] by simp
      then show ?thesis using False n by (auto simp: PA2PTE_def bit_simps)
    next
      case True
      then show ?thesis using low[OF True] by (simp only: bit_push_bit_iff) simp
    qed
  qed
  then show ?thesis using assms(2) by (simp add: PTE2PA_def unat_of_nat)
qed

lemma has_V: "has w PTE_V \<longleftrightarrow> bit w 0"
  by (simp add: has_def PTE_V_def and_one_eq bit_0 odd_iff_mod_2_eq_one)

lemma has_V_or [simp]: "has (w OR PTE_V) PTE_V" "has (w OR f OR PTE_V) PTE_V" "\<not> has 0 PTE_V"
  by (simp_all add: has_V bit_simps) (simp_all add: PTE_V_def)

lemma PX_less [simp]: "PX l va < 512"
  by (simp add: PX_def)

text \<open>The three indices determine the page.\<close>

lemma PX_page:
  assumes "va < MAXVA"
  shows "va div PGSIZE = PX 2 va * 2 ^ 18 + PX 1 va * 2 ^ 9 + PX 0 va"
proof -
  let ?p = "va div 4096"
  have "?p < 2 ^ 26" using assms by (simp add: MAXVA_def less_mult_imp_div_less)
  then have "?p div 2 ^ 18 mod 512 = ?p div 2 ^ 18"
    by (intro mod_less) (simp add: less_mult_imp_div_less)
  moreover have "?p = (?p div 512 div 512 * 512 + ?p div 512 mod 512) * 512 + ?p mod 512"
    by (simp only: div_mult_mod_eq)
  ultimately show ?thesis
    by (simp add: PX_def PGSIZE_def div_mult2_eq[symmetric])
qed

section \<open>Table trees\<close>

text \<open>
  The entry \<open>i\<close> of the table page \<open>p\<close>, the table page at a path of indices from a root, the last
  index first, and the leaf entry of an address, 0 when its table does not exist.
\<close>

definition ent :: "mem \<Rightarrow> nat \<Rightarrow> nat \<Rightarrow> 64 word" where
  "ent m p i = rd64 m (p + 8 * i)"

primrec tab :: "mem \<Rightarrow> nat \<Rightarrow> nat list \<Rightarrow> nat option" where
  "tab m r [] = Some r"
| "tab m r (i # xs) =
    (case tab m r xs of None \<Rightarrow> None
     | Some p \<Rightarrow> if has (ent m p i) PTE_V then Some (PTE2PA (ent m p i)) else None)"

definition leaf_path :: "nat \<Rightarrow> nat list" where
  "leaf_path va = [PX 1 va, PX 2 va]"

definition lookup :: "mem \<Rightarrow> nat \<Rightarrow> nat \<Rightarrow> 64 word" where
  "lookup m r va = (case tab m r (leaf_path va) of None \<Rightarrow> 0 | Some p \<Rightarrow> ent m p (PX 0 va))"

definition path :: "nat list \<Rightarrow> bool" where
  "path xs \<longleftrightarrow> length xs \<le> 2 \<and> set xs \<subseteq> {..<512}"

definition tables :: "mem \<Rightarrow> nat set \<Rightarrow> nat set" where
  "tables m R = {p. \<exists>r\<in>R. \<exists>xs. path xs \<and> tab m r xs = Some p}"

text \<open>The tables of the upper two levels, whose entries lead to tables.\<close>

definition upper :: "mem \<Rightarrow> nat set \<Rightarrow> nat set" where
  "upper m R = {p. \<exists>r\<in>R. \<exists>xs. path xs \<and> length xs < 2 \<and> tab m r xs = Some p}"

text \<open>
  The tables of a set of roots: pages of the allocator, none of them free, none of them at two
  places of the trees. An entry that leads to a table has none of the permission bits of a leaf,
  and the upper half of a root, for addresses from \<^verbatim>\<open>MAXVA\<close> on, is empty.
\<close>

definition vm_ok :: "nat \<Rightarrow> nat set \<Rightarrow> vm \<Rightarrow> bool" where
  "vm_ok kend R s \<longleftrightarrow> kmem_ok kend (km s) \<and>
    (\<forall>p\<in>tables (vmem s) R. page kend p \<and> p \<notin> pages_of (km s)) \<and>
    (\<forall>r\<in>R. \<forall>r'\<in>R. \<forall>xs ys p. path xs \<longrightarrow> path ys \<longrightarrow>
       tab (vmem s) r xs = Some p \<longrightarrow> tab (vmem s) r' ys = Some p \<longrightarrow> r = r' \<and> xs = ys) \<and>
    (\<forall>p\<in>upper (vmem s) R. \<forall>j < 512. has (ent (vmem s) p j) PTE_V \<longrightarrow> \<not> has (ent (vmem s) p j) (PTE_R OR PTE_W OR PTE_X)) \<and>
    (\<forall>r\<in>R. \<forall>j. 256 \<le> j \<longrightarrow> j < 512 \<longrightarrow> \<not> has (ent (vmem s) r j) PTE_V)"

lemma vm_okD:
  assumes "vm_ok kend R s"
  shows "kmem_ok kend (km s)"
    and "p \<in> tables (vmem s) R \<Longrightarrow> page kend p"
    and "p \<in> tables (vmem s) R \<Longrightarrow> p \<notin> pages_of (km s)"
    and "r \<in> R \<Longrightarrow> r' \<in> R \<Longrightarrow> path xs \<Longrightarrow> path ys \<Longrightarrow>
      tab (vmem s) r xs = Some p \<Longrightarrow> tab (vmem s) r' ys = Some p \<Longrightarrow> r = r' \<and> xs = ys"
    and "p \<in> upper (vmem s) R \<Longrightarrow> j < 512 \<Longrightarrow> has (ent (vmem s) p j) PTE_V \<Longrightarrow> \<not> has (ent (vmem s) p j) (PTE_R OR PTE_W OR PTE_X)"
    and "r \<in> R \<Longrightarrow> 256 \<le> j \<Longrightarrow> j < 512 \<Longrightarrow> \<not> has (ent (vmem s) r j) PTE_V"
  using assms unfolding vm_ok_def by blast+

lemma tablesI: "r \<in> R \<Longrightarrow> path xs \<Longrightarrow> tab m r xs = Some p \<Longrightarrow> p \<in> tables m R"
  by (auto simp: tables_def)

lemma path_Cons: "path (i # xs) \<longleftrightarrow> length xs < 2 \<and> i < 512 \<and> path xs"
  by (auto simp: path_def)

lemma path_leaf [simp]: "path (leaf_path va)" "path []" "length (leaf_path va) = 2"
  by (simp_all add: path_def leaf_path_def)

lemma page_bound: "page kend p \<Longrightarrow> p < 2 ^ 64"
  by (simp add: page_def PHYSTOP_def KERNBASE_def)

lemma pages_disjoint:
  assumes "page kend p" "page kend q" "p \<noteq> q"
  shows "p + PGSIZE \<le> q \<or> q + PGSIZE \<le> p"
proof -
  obtain a b where "p = PGSIZE * a" "q = PGSIZE * b"
    using assms(1, 2) by (auto simp: page_def mod_eq_0_iff_dvd elim!: dvdE)
  then show ?thesis using assms(3) by (cases a b rule: linorder_cases) (auto simp: PGSIZE_def)
qed

lemma ent_wr64:
  assumes "page kend p" "page kend q" "i < 512" "j < 512"
  shows "ent (wr64 (p + 8 * i) v m) q j = (if q = p \<and> j = i then v else ent m q j)"
proof (cases "q = p \<and> j = i")
  case False
  then have "p + 8 * i + 8 \<le> q + 8 * j \<or> q + 8 * j + 8 \<le> p + 8 * i"
    using pages_disjoint[OF assms(1, 2)] assms(3, 4) by (cases "p = q") (auto simp: PGSIZE_def)
  then show ?thesis using False by (auto simp: ent_def rd64_wr64_other)
qed (simp add: ent_def)

text \<open>The bytes of a page change and no others.\<close>

definition only_page :: "nat \<Rightarrow> mem \<Rightarrow> mem \<Rightarrow> bool" where
  "only_page p m m' \<longleftrightarrow> (\<forall>x. x < p \<or> p + PGSIZE \<le> x \<longrightarrow> m' x = m x)"

lemma only_page_ent:
  assumes "only_page p m m'" "page kend p" "page kend q" "p \<noteq> q" "j < 512"
  shows "ent m' q j = ent m q j"
  unfolding ent_def
proof (rule rd64_cong)
  fix x
  assume "q + 8 * j \<le> x" "x < q + 8 * j + 8"
  then show "m' x = m x"
    using pages_disjoint[OF assms(2, 3, 4)] assms(1, 5) by (auto simp: only_page_def PGSIZE_def)
qed

lemma only_page_memset: "only_page p m (memset p c PGSIZE m)"
  and only_page_wr64: "i < 512 \<Longrightarrow> only_page p m (wr64 (p + 8 * i) v m)"
  and only_page_wr64_0: "only_page p m (wr64 p v m)"
  and only_page_trans: "only_page p m m' \<Longrightarrow> only_page p m' m'' \<Longrightarrow> only_page p m m''"
  by (auto simp: only_page_def memset_eq wr64_def PGSIZE_def)

lemma ent_memset_0: "i < 512 \<Longrightarrow> ent (memset p 0 PGSIZE m) p i = 0"
  unfolding ent_def by (rule rd64_zero) (auto simp: memset_eq PGSIZE_def)

text \<open>A change that keeps the entries of the upper two levels keeps the trees.\<close>

lemma upper_tables: "p \<in> upper m R \<Longrightarrow> p \<in> tables m R"
  by (auto simp: upper_def tables_def)

lemma rootI: "r \<in> R \<Longrightarrow> r \<in> upper m R"
  by (auto simp: upper_def path_def intro!: exI[of _ "[]"])

lemma tab_frame:
  assumes "r \<in> R" "path xs" "\<And>p j. p \<in> upper m R \<Longrightarrow> j < 512 \<Longrightarrow> ent m' p j = ent m p j"
  shows "tab m' r xs = tab m r xs"
  using assms(2)
proof (induction xs)
  case (Cons i xs)
  then have eq: "tab m' r xs = tab m r xs" "i < 512" "path xs" "length xs < 2" by (auto simp: path_Cons)
  then have "ent m' p i = ent m p i" if "tab m r xs = Some p" for p
    using that assms(1) by (intro assms(3)) (auto simp: upper_def)
  then show ?case using eq(1) by (auto split: option.splits)
qed simp

lemma tables_frame:
  assumes "\<And>p j. p \<in> upper m R \<Longrightarrow> j < 512 \<Longrightarrow> ent m' p j = ent m p j"
  shows "tables m' R = tables m R"
  unfolding tables_def
  by (intro Collect_cong bex_cong ex_cong1 conj_cong refl) (simp add: tab_frame[OF _ _ assms])

lemma upper_frame:
  assumes "\<And>p j. p \<in> upper m R \<Longrightarrow> j < 512 \<Longrightarrow> ent m' p j = ent m p j"
  shows "upper m' R = upper m R"
  unfolding upper_def
  by (intro Collect_cong bex_cong ex_cong1 conj_cong refl) (simp add: tab_frame[OF _ _ assms])

lemma lookup_frame:
  assumes "r \<in> R" "\<And>p j. p \<in> tables m R \<Longrightarrow> j < 512 \<Longrightarrow> ent m' p j = ent m p j"
  shows "lookup m' r va = lookup m r va"
proof -
  have "tab m' r (leaf_path va) = tab m r (leaf_path va)"
    using assms upper_tables by (intro tab_frame[of r R]) auto
  moreover have "ent m' p (PX 0 va) = ent m p (PX 0 va)" if "tab m r (leaf_path va) = Some p" for p
    using tablesI[OF assms(1) _ that] by (intro assms(2)) simp_all
  ultimately show ?thesis by (simp add: lookup_def split: option.splits)
qed

lemma vm_ok_frame:
  assumes "vm_ok kend R s" "kmem_ok kend (km s')" "pages_of (km s') \<inter> tables (vmem s) R = {}"
    and "\<And>p j. p \<in> upper (vmem s) R \<Longrightarrow> j < 512 \<Longrightarrow> ent (vmem s') p j = ent (vmem s) p j"
  shows "vm_ok kend R s'"
  unfolding vm_ok_def
proof (intro conjI ballI allI impI)
  note t = tables_frame[OF assms(4)] tab_frame[OF _ _ assms(4)]
  show "kmem_ok kend (km s')" by fact
  show "page kend p" if "p \<in> tables (vmem s') R" for p
    using that vm_okD(2)[OF assms(1)] t(1) by simp
  show "p \<notin> pages_of (km s')" if "p \<in> tables (vmem s') R" for p
    using that assms(3) t(1) by auto
  show "r = r'" "xs = ys" if "r \<in> R" "r' \<in> R" "path xs" "path ys" "tab (vmem s') r xs = Some p" "tab (vmem s') r' ys = Some p"
    for r r' xs ys p
    using vm_okD(4)[OF assms(1) that(1-4)] that t(2) by auto
  show "\<not> has (ent (vmem s') p j) (PTE_R OR PTE_W OR PTE_X)" if "p \<in> upper (vmem s') R" "j < 512" "has (ent (vmem s') p j) PTE_V" for p j
    using that vm_okD(5)[OF assms(1), of p j] assms(4) upper_frame[OF assms(4)] by simp
  show "\<not> has (ent (vmem s') r j) PTE_V" if "r \<in> R" "256 \<le> j" "j < 512" for r j
    using that vm_okD(6)[OF assms(1), of r j] assms(4)[OF rootI] by simp
qed

text \<open>Writing a leaf entry.\<close>

definition same_page :: "nat \<Rightarrow> nat \<Rightarrow> bool" where
  "same_page a b \<longleftrightarrow> a div PGSIZE = b div PGSIZE"

lemma same_page_PX: "va < MAXVA \<Longrightarrow> vb < MAXVA \<Longrightarrow>
    same_page va vb \<longleftrightarrow> PX 0 va = PX 0 vb \<and> leaf_path va = leaf_path vb"
  unfolding same_page_def
proof
  assume "va div PGSIZE = vb div PGSIZE"
  then have "va div 2 ^ (12 + 9 * l) = vb div 2 ^ (12 + 9 * l)" for l
    by (simp add: PGSIZE_def power_add div_mult2_eq)
  then show "PX 0 va = PX 0 vb \<and> leaf_path va = leaf_path vb" unfolding PX_def leaf_path_def by metis
qed (simp add: PX_page leaf_path_def)

lemma leaf_write:
  fixes v :: "64 word"
  assumes ok: "vm_ok kend R s" and r: "r \<in> R" and va: "va < MAXVA"
    and p: "tab (vmem s) r (leaf_path va) = Some p"
  defines "s' \<equiv> set_mem (wr64 (p + 8 * PX 0 va) v) s"
  shows "vm_ok kend R s'" "tables (vmem s') R = tables (vmem s) R"
    and "r' \<in> R \<Longrightarrow> vb < MAXVA \<Longrightarrow>
      lookup (vmem s') r' vb = (if r' = r \<and> same_page vb va then v else lookup (vmem s) r' vb)"
proof -
  have pT: "p \<in> tables (vmem s) R" using tablesI[OF r _ p] by simp
  have ent: "ent (vmem s') q j = (if q = p \<and> j = PX 0 va then v else ent (vmem s) q j)"
    if "q \<in> tables (vmem s) R" "j < 512" for q j
    unfolding s'_def set_mem_def using ent_wr64[OF vm_okD(2)[OF ok pT] vm_okD(2)[OF ok that(1)] _ that(2)] by simp
  have "q \<noteq> p" if "q \<in> upper (vmem s) R" for q
    using that vm_okD(4)[OF ok r _ path_leaf(1) _ p] unfolding upper_def by fastforce
  then have up: "ent (vmem s') q j = ent (vmem s) q j" if "q \<in> upper (vmem s) R" "j < 512" for q j
    using that ent[OF upper_tables] by simp
  show "vm_ok kend R s'"
    using vm_ok_frame[OF ok _ _ up] vm_okD(1, 3)[OF ok] by (auto simp: s'_def set_mem_def)
  show "tables (vmem s') R = tables (vmem s) R" by (rule tables_frame[OF up])
  assume r': "r' \<in> R" and vb: "vb < MAXVA"
  have t: "tab (vmem s') r' (leaf_path vb) = tab (vmem s) r' (leaf_path vb)"
    by (rule tab_frame[OF r' _ up]) simp_all
  show "lookup (vmem s') r' vb = (if r' = r \<and> same_page vb va then v else lookup (vmem s) r' vb)"
  proof (cases "tab (vmem s) r' (leaf_path vb)")
    case None
    then show ?thesis using t p vb va by (auto simp: lookup_def same_page_PX)
  next
    case (Some q)
    have "q = p \<longleftrightarrow> r' = r \<and> leaf_path vb = leaf_path va"
      using vm_okD(4)[OF ok r' r path_leaf(1)[of vb] path_leaf(1)[of va] Some] p Some by auto
    then show ?thesis
      using t Some ent[OF tablesI[OF r' _ Some], of "PX 0 vb"] vb va
      by (auto simp: lookup_def same_page_PX)
  qed
qed

lemma table_entry: "\<not> has (PA2PTE q OR PTE_V) (PTE_R OR PTE_W OR PTE_X)"
proof -
  let ?f = "PTE_R OR PTE_W OR PTE_X"
  have f: "\<not> bit ?f n" if "10 \<le> n" for n using flags_bit[OF _ that, of ?f] by simp
  have "\<not> bit ?f 0" by (simp add: PTE_R_def PTE_W_def PTE_X_def)
  then have "(PA2PTE q OR PTE_V) AND ?f = 0"
    using f by (intro bit_word_eqI) (auto simp: PA2PTE_def bit_and_iff bit_or_iff bit_push_bit_iff PTE_V_def bit_1_iff intro!: gr0I)
  then show ?thesis by (simp add: has_def)
qed

text \<open>Adding an empty table page below an entry that is not valid.\<close>

definition add_table :: "nat \<Rightarrow> nat \<Rightarrow> nat \<Rightarrow> mem \<Rightarrow> mem" where
  "add_table p i q m = wr64 (p + 8 * i) (PA2PTE q OR PTE_V) (memset q 0 PGSIZE m)"

lemma add_table_ent:
  assumes "page kend p" "page kend q" "p \<noteq> q" "page kend t" "i < 512" "j < 512"
  shows "ent (add_table p i q m) t j =
    (if t = p \<and> j = i then PA2PTE q OR PTE_V else if t = q then 0 else ent m t j)"
proof (cases "t = q")
  case True
  then show ?thesis
    unfolding add_table_def ent_wr64[OF assms(1, 4, 5, 6)] using assms(3, 6) by (simp add: ent_memset_0)
next
  case False
  then show ?thesis
    using only_page_ent[OF only_page_memset[of q m 0] assms(2, 4) _ assms(6)]
    by (auto simp: add_table_def ent_wr64[OF assms(1, 4, 5, 6)])
qed

lemma tab_add_table:
  assumes ok: "vm_ok kend R s" and r: "r \<in> R" and i: "path (i # xs)"
    and p: "tab (vmem s) r xs = Some p" and inv: "\<not> has (ent (vmem s) p i) PTE_V"
    and q: "page kend q" "q \<notin> tables (vmem s) R"
    and r': "r' \<in> R" and ys: "path ys"
  shows "tab (add_table p i q (vmem s)) r' ys =
    (if r' = r \<and> ys = i # xs then Some q else tab (vmem s) r' ys)"
  using ys
proof (induction ys)
  case (Cons j zs)
  let ?m = "vmem s" and ?m' = "add_table p i q (vmem s)"
  have xs: "path xs" "i < 512" and zs: "path zs" "j < 512" using i Cons.prems by (auto simp: path_Cons)
  have pT: "page kend p" "p \<noteq> q" using vm_okD(2)[OF ok] tablesI[OF r xs(1) p] q(2) by auto
  have IH: "tab ?m' r' zs = (if r' = r \<and> zs = i # xs then Some q else tab ?m r' zs)" using Cons.IH zs by simp
  consider (new) "r' = r" "zs = i # xs" | (none) "\<not> (r' = r \<and> zs = i # xs)" "tab ?m r' zs = None"
    | (old) t where "\<not> (r' = r \<and> zs = i # xs)" "tab ?m r' zs = Some t" by fastforce
  then show ?case
  proof cases
    case new
    have "ent ?m' q j = 0" using add_table_ent[OF pT(1) q(1) pT(2) q(1) xs(2) zs(2)] pT(2) by simp
    then show ?thesis using new IH p inv by simp
  next
    case none
    then show ?thesis using IH p by auto
  next
    case old
    have tT: "t \<in> tables ?m R" by (rule tablesI[OF r' zs(1) old(2)])
    then have t: "page kend t" "t \<noteq> q" using vm_okD(2)[OF ok] q(2) by auto
    have "t = p \<longleftrightarrow> r' = r \<and> zs = xs"
      using vm_okD(4)[OF ok r' r zs(1) xs(1) old(2)] p old(2) by auto
    moreover have "PTE2PA (PA2PTE q OR PTE_V) = q"
      using PTE2PA_PA2PTE[of q PTE_V] q(1) page_bound[OF q(1)] by (simp add: page_def)
    ultimately show ?thesis
      using old IH t(2) add_table_ent[OF pT(1) q(1) pT(2) t(1) xs(2) zs(2)] by auto
  qed
qed simp

lemma add_table_ok:
  assumes ok: "vm_ok kend R s" and r: "r \<in> R" and i: "path (i # xs)"
    and p: "tab (vmem s) r xs = Some p" and inv: "\<not> has (ent (vmem s) p i) PTE_V"
    and q: "page kend q" "q \<notin> tables (vmem s) R" "q \<notin> pages_of (km s)" and low: "xs = [] \<Longrightarrow> i < 256"
  defines "s' \<equiv> set_mem (add_table p i q) s"
  shows "vm_ok kend R s'" "tables (vmem s') R = insert q (tables (vmem s) R)"
    "r' \<in> R \<Longrightarrow> lookup (vmem s') r' va = lookup (vmem s) r' va"
    "tab (vmem s') r (i # xs) = Some q"
proof -
  have km: "km s' = km s" by (simp add: s'_def set_mem_def)
  have tab: "tab (vmem s') r' ys = (if r' = r \<and> ys = i # xs then Some q else tab (vmem s) r' ys)"
    if "r' \<in> R" "path ys" for r' ys
    using tab_add_table[OF ok r i p inv q(1, 2) that] by (simp add: s'_def set_mem_def)
  have notq: "tab (vmem s) r' ys \<noteq> Some q" if "r' \<in> R" "path ys" for r' ys
    using q(2) tablesI[OF that] by auto
  have none: "tab (vmem s) r (i # xs) = None" using p inv by simp
  show T: "tables (vmem s') R = insert q (tables (vmem s) R)"
  proof (rule set_eqI)
    fix t
    show "t \<in> tables (vmem s') R \<longleftrightarrow> t \<in> insert q (tables (vmem s) R)"
    proof
      assume "t \<in> tables (vmem s') R"
      then show "t \<in> insert q (tables (vmem s) R)" using tab unfolding tables_def by (auto split: if_splits)
    next
      assume "t \<in> insert q (tables (vmem s) R)"
      then consider "t = q" | r' ys where "r' \<in> R" "path ys" "tab (vmem s) r' ys = Some t" by (auto simp: tables_def)
      then show "t \<in> tables (vmem s') R"
      proof cases
        case 1
        then show ?thesis using tablesI[OF r i, of "vmem s'" q] tab[OF r i] by simp
      next
        case 2
        then have "\<not> (r' = r \<and> ys = i # xs)" using none by auto
        then show ?thesis using tab[OF 2(1, 2)] 2(3) by (intro tablesI[OF 2(1, 2)]) auto
      qed
    qed
  qed
  have pT: "page kend p" "p \<noteq> q" using vm_okD(2)[OF ok] tablesI[OF r _ p] i q(2) by (auto simp: path_Cons)
  have i': "i < 512" "path xs" "length xs < 2" using i by (auto simp: path_Cons)
  have e: "ent (vmem s') t j = (if t = p \<and> j = i then PA2PTE q OR PTE_V else if t = q then 0 else ent (vmem s) t j)"
    if "t \<in> insert q (tables (vmem s) R)" "j < 512" for t j
    using that add_table_ent[OF pT(1) q(1) pT(2) _ i'(1) that(2), of t] q(1) vm_okD(2)[OF ok, of t] by (auto simp: s'_def set_mem_def)
  show "vm_ok kend R s'"
    unfolding vm_ok_def T km
  proof (intro conjI ballI allI impI)
    show "kmem_ok kend (km s)" by (rule vm_okD(1)[OF ok])
    show "page kend t" if "t \<in> insert q (tables (vmem s) R)" for t using that q vm_okD(2)[OF ok] by auto
    show "t \<notin> pages_of (km s)" if "t \<in> insert q (tables (vmem s) R)" for t using that q vm_okD(3)[OF ok] by auto
    show "a = b" "ys = zs" if "a \<in> R" "b \<in> R" "path ys" "path zs" "tab (vmem s') a ys = Some t" "tab (vmem s') b zs = Some t"
      for a b ys zs t
      using that tab[OF that(1, 3)] tab[OF that(2, 4)] notq vm_okD(4)[OF ok that(1-4)] by (auto split: if_splits)
    show "\<not> has (ent (vmem s') t j) (PTE_R OR PTE_W OR PTE_X)"
      if t: "t \<in> upper (vmem s') R" "j < 512" "has (ent (vmem s') t j) PTE_V" for t j
    proof -
      have "t = q \<or> t \<in> upper (vmem s) R"
        using t(1) tab unfolding upper_def by (auto split: if_splits)
      then show ?thesis
        using e[OF _ t(2)] upper_tables[OF t(1)] T t(2, 3) vm_okD(5)[OF ok, of t j] table_entry[of q] by (auto split: if_splits)
    qed
    show "\<not> has (ent (vmem s') t j) PTE_V" if t: "t \<in> R" "256 \<le> j" "j < 512" for t j
    proof -
      have "xs = []" if "t = p" using vm_okD(4)[OF ok t(1) r path_leaf(2) i'(2)] p that by simp
      then show ?thesis
        using e[of t j] upper_tables[OF rootI[OF t(1)]] T t low vm_okD(6)[OF ok, of t j] by (auto split: if_splits)
    qed
  qed
  show "tab (vmem s') r (i # xs) = Some q" using tab[OF r i] by simp
  show "lookup (vmem s') r' va = lookup (vmem s) r' va" if r': "r' \<in> R"
  proof -
    have up: "ent (vmem s') t (PX 0 va) = (if t = q then 0 else ent (vmem s) t (PX 0 va))" if "page kend t" "t \<noteq> p" for t
      using add_table_ent[OF pT(1) q(1) pT(2) that(1) i'(1), of "PX 0 va"] that(2) by (simp add: s'_def set_mem_def)
    let ?ys = "leaf_path va"
    show ?thesis
    proof (cases "tab (vmem s) r' ?ys")
      case None
      then show ?thesis using tab[OF r', of ?ys] up[OF q(1)] pT(2) by (auto simp: lookup_def)
    next
      case (Some t)
      have t: "page kend t" "t \<noteq> q" using vm_okD(2)[OF ok tablesI[OF r' _ Some]] notq[OF r', of ?ys] Some by auto
      have "t \<noteq> p" using vm_okD(4)[OF ok r' r path_leaf(1) i'(2) Some] p i'(3) by auto
      moreover have "\<not> (r' = r \<and> ?ys = i # xs)" using none Some by auto
      ultimately show ?thesis using tab[OF r', of ?ys] up[OF t(1)] t(2) Some by (auto simp: lookup_def)
    qed
  qed
qed

section \<open>Walking the tables\<close>

lemma vm_kalloc_Some:
  assumes ok: "vm_ok kend R s" and a: "vm_kalloc s = (Some q, s')"
  shows "vm_ok kend R s'" "page kend q" "q \<in> pages_of (km s)" "q \<notin> pages_of (km s')"
    "q \<notin> tables (vmem s) R" "tables (vmem s') R = tables (vmem s) R"
    "r \<in> R \<Longrightarrow> lookup (vmem s') r va = lookup (vmem s) r va"
    "r \<in> R \<Longrightarrow> path xs \<Longrightarrow> tab (vmem s') r xs = tab (vmem s) r xs"
    "p \<in> tables (vmem s) R \<Longrightarrow> j < 512 \<Longrightarrow> ent (vmem s') p j = ent (vmem s) p j"
    "pages_of (km s') = pages_of (km s) - {q}" "only_page q (vmem s) (vmem s')"
proof -
  obtain k where k: "kalloc (km s) = (Some q, k)" and s': "s' = s\<lparr>km := k, vmem := memset q 5 PGSIZE (vmem s)\<rparr>"
    using a by (auto simp: vm_kalloc_def split: prod.splits option.splits)
  note K = kalloc_Some[OF vm_okD(1)[OF ok] k]
  show q: "page kend q" "q \<in> pages_of (km s)" "q \<notin> pages_of (km s')" "pages_of (km s') = pages_of (km s) - {q}"
    using K s' by auto
  show qT: "q \<notin> tables (vmem s) R" using K(2) vm_okD(3)[OF ok] by auto
  show op: "only_page q (vmem s) (vmem s')" using only_page_memset s' by simp
  show e: "ent (vmem s') p j = ent (vmem s) p j" if "p \<in> tables (vmem s) R" "j < 512" for p j
    using that only_page_ent[OF op q(1) vm_okD(2)[OF ok that(1)]] qT by auto
  have up: "ent (vmem s') p j = ent (vmem s) p j" if "p \<in> upper (vmem s) R" "j < 512" for p j
    using e[OF upper_tables] that by simp
  show "vm_ok kend R s'"
    using K s' vm_okD(3)[OF ok] by (intro vm_ok_frame[OF ok _ _ up]) auto
  show "tables (vmem s') R = tables (vmem s) R" by (rule tables_frame[OF up])
  show "tab (vmem s') r xs = tab (vmem s) r xs" if "r \<in> R" "path xs" by (rule tab_frame[OF that up])
  show "lookup (vmem s') r va = lookup (vmem s) r va" if "r \<in> R" by (rule lookup_frame[OF that e])
qed

lemma vm_kalloc_None:
  "vm_ok kend R s \<Longrightarrow> vm_kalloc s = (None, s') \<Longrightarrow> s' = s \<and> pages_of (km s) = {}"
  by (auto simp: vm_kalloc_def vm_ok_def split: prod.splits option.splits dest!: kalloc_None)

text \<open>
  What a walk that may add tables does: the mappings stay, pages only move from the free list to
  the tables, and no byte of any other page changes.
\<close>

definition page_of :: "nat \<Rightarrow> nat" where
  "page_of x = x div PGSIZE * PGSIZE"

lemma only_page_of: "only_page p m m' \<Longrightarrow> p mod PGSIZE = 0 \<Longrightarrow> page_of x \<noteq> p \<Longrightarrow> m' x = m x"
proof -
  assume o: "only_page p m m'" "p mod PGSIZE = 0" "page_of x \<noteq> p"
  obtain c where c: "p = PGSIZE * c" using o(2) by auto
  have "x < p \<or> p + PGSIZE \<le> x"
  proof (rule ccontr)
    assume "\<not> (x < p \<or> p + PGSIZE \<le> x)"
    then have "c * PGSIZE \<le> x" "x < (c + 1) * PGSIZE" using c by (auto simp: algebra_simps)
    then have "x div PGSIZE = c" by (metis Suc_eq_plus1 div_nat_eqI mult.commute)
    then show False using o(3) c by (simp add: page_of_def mult.commute)
  qed
  then show ?thesis using o(1) by (auto simp: only_page_def)
qed

definition grown :: "nat \<Rightarrow> nat set \<Rightarrow> vm \<Rightarrow> vm \<Rightarrow> bool" where
  "grown kend R s s' \<longleftrightarrow> vm_ok kend R s' \<and>
    (\<forall>r\<in>R. \<forall>va. lookup (vmem s') r va = lookup (vmem s) r va) \<and>
    tables (vmem s) R \<subseteq> tables (vmem s') R \<and>
    tables (vmem s') R \<union> pages_of (km s') = tables (vmem s) R \<union> pages_of (km s) \<and>
    (\<forall>x. page_of x \<notin> tables (vmem s) R \<union> pages_of (km s) \<longrightarrow> vmem s' x = vmem s x)"

lemma grown_refl: "vm_ok kend R s \<Longrightarrow> grown kend R s s"
  by (simp add: grown_def)

lemma grown_trans: "grown kend R s s1 \<Longrightarrow> grown kend R s1 s2 \<Longrightarrow> grown kend R s s2"
  by (auto simp: grown_def)

lemma grown_add:
  assumes ok: "vm_ok kend R s" and r: "r \<in> R" and i: "path (i # xs)"
    and p: "tab (vmem s) r xs = Some p" and inv: "\<not> has (ent (vmem s) p i) PTE_V"
    and a: "vm_kalloc s = (Some q, s1)" and low: "xs = [] \<Longrightarrow> i < 256"
  defines "s' \<equiv> set_mem (add_table p i q) s1"
  shows "grown kend R s s'" "tab (vmem s') r (i # xs) = Some q"
proof -
  note A = vm_kalloc_Some[OF ok a]
  have xs: "path xs" "i < 512" using i by (auto simp: path_Cons)
  have pT: "p \<in> tables (vmem s) R" by (rule tablesI[OF r xs(1) p])
  have p1: "tab (vmem s1) r xs = Some p" "\<not> has (ent (vmem s1) p i) PTE_V"
    using A(8)[OF r xs(1)] p A(9)[OF pT xs(2)] inv by auto
  note N = add_table_ok[OF A(1) r i p1 A(2) _ A(4) low, folded s'_def]
  have km: "km s' = km s1" by (simp add: s'_def set_mem_def)
  have "vmem s' x = vmem s x" if "page_of x \<notin> tables (vmem s) R \<union> pages_of (km s)" for x
  proof -
    have ne: "page_of x \<noteq> p" "page_of x \<noteq> q" using that pT A(3) by auto
    have "p mod PGSIZE = 0" "q mod PGSIZE = 0" using vm_okD(2)[OF ok pT] A(2) by (auto simp: page_def)
    moreover have "vmem s' = add_table p i q (vmem s1)" by (simp add: s'_def set_mem_def)
    ultimately show ?thesis
      unfolding add_table_def
      using only_page_of[OF only_page_wr64[OF xs(2)] _ ne(1)] only_page_of[OF only_page_memset _ ne(2)]
        only_page_of[OF A(11) _ ne(2)] by metis
  qed
  then show "grown kend R s s'"
    unfolding grown_def km using N A(3, 5, 6, 7, 10) by auto
  show "tab (vmem s') r (i # xs) = Some q" using N(4) A(5, 6) by simp
qed

lemma drop_leaf_path: "l < 2 \<Longrightarrow> drop l (leaf_path va) = PX (Suc l) va # drop (Suc l) (leaf_path va)"
  by (cases l) (auto simp: leaf_path_def numeral_2_eq_2)

lemma path_drop [simp]: "path (drop l (leaf_path va))"
  using set_drop_subset[of l "leaf_path va"] path_leaf(1)[of va] by (auto simp: path_def)

lemma walk_levels_ok:
  assumes "l \<le> 2" "vm_ok kend R s" "r \<in> R" "tab (vmem s) r (drop l (leaf_path va)) = Some p"
    and "walk_levels l p va alloc s = (res, s')" and va: "va < MAXVA"
  shows "(if alloc then grown kend R s s' else s' = s) \<and>
    (case res of None \<Rightarrow> if alloc then pages_of (km s') = {} else tab (vmem s) r (leaf_path va) = None
     | Some a \<Rightarrow> \<exists>q. tab (vmem s') r (leaf_path va) = Some q \<and> a = q + 8 * PX 0 va)"
  using assms(1-5)
proof (induction l arbitrary: p s)
  case 0
  then show ?case by (auto simp: grown_refl)
next
  case (Suc l)
  let ?i = "PX (Suc l) va" and ?xs = "drop (Suc l) (leaf_path va)"
  have d: "drop l (leaf_path va) = ?i # ?xs" "path (?i # ?xs)"
    using drop_leaf_path[of l va] Suc.prems(1) path_drop[of l va] by auto
  have e: "rd64 (vmem s) (p + 8 * ?i) = ent (vmem s) p ?i" by (simp add: ent_def)
  show ?case
  proof (cases "has (ent (vmem s) p ?i) PTE_V")
    case True
    then have "tab (vmem s) r (drop l (leaf_path va)) = Some (PTE2PA (ent (vmem s) p ?i))"
      using Suc.prems(4) d by simp
    then show ?thesis using Suc.IH[of s "PTE2PA (ent (vmem s) p ?i)"] Suc.prems True by (simp add: e)
  next
    case False
    then have none: "tab (vmem s) r (drop l (leaf_path va)) = None" using Suc.prems(4) d by simp
    have "l = 0 \<or> l = 1" using Suc.prems(1) by auto
    then have none': "tab (vmem s) r (leaf_path va) = None"
      using none by (auto simp: leaf_path_def)
    show ?thesis
    proof (cases "vm_kalloc s")
      case (Pair a s1)
      show ?thesis
      proof (cases a)
        case None
        then show ?thesis
          using False none' Suc.prems(2, 5) Pair vm_kalloc_None[OF Suc.prems(2), of s1]
          by (cases alloc) (auto simp: e grown_refl)
      next
        case (Some q)
        let ?s = "set_mem (add_table p ?i q) s1"
        have low: "?xs = [] \<Longrightarrow> ?i < 256"
          using va Suc.prems(1) by (cases l) (auto simp: leaf_path_def PX_def MAXVA_def less_mult_imp_div_less)
        note G = grown_add[OF Suc.prems(2, 3) d(2) Suc.prems(4) False Pair[unfolded Some] low]
        have w: "alloc \<Longrightarrow> walk_levels l q va alloc ?s = (res, s')" "\<not> alloc \<Longrightarrow> res = None \<and> s' = s"
          using Suc.prems(5) False Pair Some by (auto simp: e add_table_def[abs_def])
        have t: "tab (vmem ?s) r (drop l (leaf_path va)) = Some q" using G(2) d(1) by simp
        have ok: "vm_ok kend R ?s" using G(1) by (simp add: grown_def)
        show ?thesis
        proof (cases alloc)
          case True
          then show ?thesis
            using Suc.IH[OF _ ok Suc.prems(3) t w(1)] Suc.prems(1) grown_trans[OF G(1)]
            by (auto simp del: tab.simps split: option.splits)
        qed (use w(2) none' in auto)
      qed
    qed
  qed
qed

lemma walk_alloc:
  assumes "vm_ok kend R s" "r \<in> R" "va < MAXVA"
  obtains s' where "walk r va True s = Inr (None, s')" "grown kend R s s'" "pages_of (km s') = {}"
  | p s' where "walk r va True s = Inr (Some (p + 8 * PX 0 va), s')" "grown kend R s s'"
      "tab (vmem s') r (leaf_path va) = Some p"
proof -
  obtain res s' where w: "walk_levels 2 r va True s = (res, s')" by fastforce
  have "tab (vmem s) r (drop 2 (leaf_path va)) = Some r" by (simp add: leaf_path_def)
  from walk_levels_ok[OF _ assms(1, 2) this w assms(3)] that w assms(3) show thesis
    by (cases res) (auto simp: walk_def)
qed

lemma walk_find:
  assumes "vm_ok kend R s" "r \<in> R" "va < MAXVA"
  shows "walk_levels 2 r va False s = (map_option (\<lambda>p. p + 8 * PX 0 va) (tab (vmem s) r (leaf_path va)), s)"
proof -
  obtain res s' where w: "walk_levels 2 r va False s = (res, s')" by fastforce
  have "tab (vmem s) r (drop 2 (leaf_path va)) = Some r" by (simp add: leaf_path_def)
  from walk_levels_ok[OF _ assms(1, 2) this w assms(3)] w show ?thesis by (cases res) auto
qed

lemma walkaddr_lookup:
  assumes "vm_ok kend R s" "r \<in> R"
  shows "walkaddr r va s = (if va < MAXVA \<and> has (lookup (vmem s) r va) PTE_V \<and> has (lookup (vmem s) r va) PTE_U
    then PTE2PA (lookup (vmem s) r va) else 0)"
  using walk_find[OF assms]
  by (auto simp: walkaddr_def lookup_def ent_def has_def[of 0] Let_def split: option.splits)

section \<open>Mapping\<close>

text \<open>What \<^verbatim>\<open>mappages\<close> leaves when it maps \<open>n\<close> pages from \<open>va\<close> on.\<close>

definition mapped :: "nat \<Rightarrow> nat set \<Rightarrow> nat \<Rightarrow> nat \<Rightarrow> nat \<Rightarrow> nat \<Rightarrow> 64 word \<Rightarrow> vm \<Rightarrow> vm \<Rightarrow> bool" where
  "mapped kend R r va n pa perm s s' \<longleftrightarrow> vm_ok kend R s' \<and>
    (\<forall>r'\<in>R. \<forall>vb < MAXVA. lookup (vmem s') r' vb =
       (if r' = r \<and> va \<le> vb \<and> vb < va + n * PGSIZE
        then PA2PTE (pa + (vb - va) div PGSIZE * PGSIZE) OR perm OR PTE_V else lookup (vmem s) r' vb)) \<and>
    tables (vmem s) R \<subseteq> tables (vmem s') R \<and>
    tables (vmem s') R \<union> pages_of (km s') = tables (vmem s) R \<union> pages_of (km s) \<and>
    (\<forall>x. page_of x \<notin> tables (vmem s) R \<union> pages_of (km s) \<longrightarrow> vmem s' x = vmem s x)"

lemma mapped_0: "vm_ok kend R s \<Longrightarrow> grown kend R s s' \<Longrightarrow> mapped kend R r va 0 pa perm s s'"
  by (auto simp: mapped_def grown_def)

lemma leaf_write_mapped:
  assumes "vm_ok kend R s" "r \<in> R" "va < MAXVA" "va mod PGSIZE = 0" "grown kend R s s1"
    and p: "tab (vmem s1) r (leaf_path va) = Some p"
  shows "mapped kend R r va 1 pa perm s (set_mem (wr64 (p + 8 * PX 0 va) (PA2PTE pa OR perm OR PTE_V)) s1)"
proof -
  let ?s = "set_mem (wr64 (p + 8 * PX 0 va) (PA2PTE pa OR perm OR PTE_V)) s1"
  have ok1: "vm_ok kend R s1" using assms(5) by (simp add: grown_def)
  note W = leaf_write[OF ok1 assms(2, 3) p, where v = "PA2PTE pa OR perm OR PTE_V"]
  have pT: "p \<in> tables (vmem s1) R" using tablesI[OF assms(2) _ p] by simp
  have km: "km ?s = km s1" by (simp add: set_mem_def)
  have sp: "same_page vb va \<longleftrightarrow> va \<le> vb \<and> vb < va + PGSIZE" for vb
  proof -
    obtain c where c: "va = PGSIZE * c" using assms(4) by auto
    show ?thesis unfolding same_page_def c
      by (auto simp: PGSIZE_def)
  qed
  have "vmem ?s x = vmem s x" if "page_of x \<notin> tables (vmem s) R \<union> pages_of (km s)" for x
  proof -
    have "page_of x \<noteq> p" using that pT assms(5) by (auto simp: grown_def)
    moreover have "p mod PGSIZE = 0" using vm_okD(2)[OF ok1 pT] by (simp add: page_def)
    ultimately show ?thesis
      using only_page_of[OF only_page_wr64[OF PX_less, of p "vmem s1" 0 va]] that assms(5)
      by (simp add: set_mem_def grown_def)
  qed
  moreover have "(vb - va) div PGSIZE = 0" if "vb < va + PGSIZE" for vb using that by (auto simp: PGSIZE_def)
  ultimately show ?thesis
    unfolding mapped_def using W assms(5) by (auto simp: km grown_def sp)
qed

lemma mapped_Suc:
  assumes "mapped kend R r va 1 pa perm s s1" "mapped kend R r (va + PGSIZE) n (pa + PGSIZE) perm s1 s2" "r \<in> R"
  shows "mapped kend R r va (Suc n) pa perm s s2"
proof -
  have "lookup (vmem s2) r' vb = (if r' = r \<and> va \<le> vb \<and> vb < va + Suc n * PGSIZE
      then PA2PTE (pa + (vb - va) div PGSIZE * PGSIZE) OR perm OR PTE_V else lookup (vmem s) r' vb)"
    if "r' \<in> R" "vb < MAXVA" for r' vb
  proof (cases "r' = r \<and> va + PGSIZE \<le> vb \<and> vb < va + Suc n * PGSIZE")
    case True
    then obtain d where d: "vb = va + PGSIZE + d" using le_Suc_ex by blast
    have "(PGSIZE + d) div PGSIZE = Suc (d div PGSIZE)" by (simp add: PGSIZE_def)
    then show ?thesis using True assms(2) that d by (simp add: mapped_def algebra_simps)
  next
    case False
    moreover have "(vb - va) div PGSIZE = 0" if "vb < va + PGSIZE" using that by (auto simp: PGSIZE_def)
    moreover have "\<not> (r' = r \<and> va + PGSIZE \<le> vb \<and> vb < va + PGSIZE + n * PGSIZE)"
      using False by (auto simp: algebra_simps)
    then have "lookup (vmem s2) r' vb = lookup (vmem s1) r' vb" using assms(2) that by (auto simp: mapped_def)
    moreover have "lookup (vmem s1) r' vb = (if r' = r \<and> va \<le> vb \<and> vb < va + PGSIZE
        then PA2PTE (pa + (vb - va) div PGSIZE * PGSIZE) OR perm OR PTE_V else lookup (vmem s) r' vb)"
      using assms(1) that by (simp add: mapped_def)
    ultimately show ?thesis by auto
  qed
  then show ?thesis using assms unfolding mapped_def by auto
qed

lemma grown_leaf:
  assumes "grown kend R s s'" "r \<in> R" "tab (vmem s') r (leaf_path va) = Some p"
  shows "rd64 (vmem s') (p + 8 * PX 0 va) = lookup (vmem s) r va"
proof -
  have "rd64 (vmem s') (p + 8 * PX 0 va) = lookup (vmem s') r va" using assms(3) by (simp add: lookup_def ent_def)
  then show ?thesis using assms(1, 2) by (simp add: grown_def)
qed

definition unmapped :: "mem \<Rightarrow> nat \<Rightarrow> nat \<Rightarrow> nat \<Rightarrow> bool" where
  "unmapped m r va hi \<longleftrightarrow> (\<forall>vb. va \<le> vb \<longrightarrow> vb < hi \<longrightarrow> \<not> has (lookup m r vb) PTE_V)"

lemma mappages_loop_ok:
  assumes "vm_ok kend R s" "r \<in> R" "va mod PGSIZE = 0" "va + Suc n * PGSIZE \<le> MAXVA"
    "unmapped (vmem s) r va (va + Suc n * PGSIZE)"
  shows "\<exists>ret k s'. mappages_loop r va (va + n * PGSIZE) pa perm s = Inr (ret, s') \<and>
    mapped kend R r va k pa perm s s' \<and>
    (ret = 0 \<and> k = Suc n \<or> ret = -1 \<and> k \<le> n \<and> pages_of (km s') = {})"
  using assms
proof (induction n arbitrary: va pa s)
  case (0 va pa s)
  have va: "va < MAXVA" using 0 by (simp add: PGSIZE_def)
  show ?case
  proof (rule walk_alloc[OF 0(1, 2) va])
    fix s' assume "walk r va True s = Inr (None, s')" "grown kend R s s'" "pages_of (km s') = {}"
    then show ?thesis using mapped_0[OF 0(1)] by (auto simp: mappages_loop.simps[of r va])
  next
    fix p s' assume w: "walk r va True s = Inr (Some (p + 8 * PX 0 va), s')" "grown kend R s s'"
      "tab (vmem s') r (leaf_path va) = Some p"
    have "rd64 (vmem s') (p + 8 * PX 0 va) = lookup (vmem s) r va"
      by (rule grown_leaf[OF w(2) 0(2) w(3)])
    then show ?thesis
      using w(1) leaf_write_mapped[OF 0(1, 2) va 0(3) w(2, 3)] 0(5)
      by (auto simp: mappages_loop.simps[of r va] unmapped_def PGSIZE_def)
  qed
next
  case (Suc n va pa s)
  have va: "va < MAXVA" using Suc.prems(4) by (simp add: PGSIZE_def)
  have ne: "va \<noteq> va + Suc n * PGSIZE" by (simp add: PGSIZE_def)
  show ?case
  proof (rule walk_alloc[OF Suc.prems(1, 2) va])
    fix s' assume "walk r va True s = Inr (None, s')" "grown kend R s s'" "pages_of (km s') = {}"
    then show ?thesis
      using mapped_0[OF Suc.prems(1)] by (intro exI[of _ "-1"] exI[of _ 0]) (auto simp: mappages_loop.simps[of r va])
  next
    fix p s' assume w: "walk r va True s = Inr (Some (p + 8 * PX 0 va), s')" "grown kend R s s'"
      "tab (vmem s') r (leaf_path va) = Some p"
    let ?s = "set_mem (wr64 (p + 8 * PX 0 va) (PA2PTE pa OR perm OR PTE_V)) s'"
    have "rd64 (vmem s') (p + 8 * PX 0 va) = lookup (vmem s) r va"
      by (rule grown_leaf[OF w(2) Suc.prems(2) w(3)])
    then have nv: "\<not> has (rd64 (vmem s') (p + 8 * PX 0 va)) PTE_V"
      using Suc.prems(5) by (auto simp: unmapped_def PGSIZE_def)
    have m1: "mapped kend R r va 1 pa perm s ?s" by (rule leaf_write_mapped[OF Suc.prems(1, 2) va Suc.prems(3) w(2, 3)])
    have "unmapped (vmem ?s) r (va + PGSIZE) (va + PGSIZE + Suc n * PGSIZE)"
      unfolding unmapped_def
    proof (intro allI impI)
      fix vb assume vb: "va + PGSIZE \<le> vb" "vb < va + PGSIZE + Suc n * PGSIZE"
      then have "vb < MAXVA" using Suc.prems(4) by simp
      then have "lookup (vmem ?s) r vb = lookup (vmem s) r vb" using m1 Suc.prems(2) vb by (simp add: mapped_def)
      then show "\<not> has (lookup (vmem ?s) r vb) PTE_V"
        using Suc.prems(5) vb by (auto simp: unmapped_def)
    qed
    moreover have "vm_ok kend R ?s" using m1 by (simp add: mapped_def)
    ultimately obtain ret k s2 where L: "mappages_loop r (va + PGSIZE) (va + PGSIZE + n * PGSIZE) (pa + PGSIZE) perm ?s = Inr (ret, s2)"
      and m2: "mapped kend R r (va + PGSIZE) k (pa + PGSIZE) perm ?s s2"
      and k: "ret = 0 \<and> k = Suc n \<or> ret = -1 \<and> k \<le> n \<and> pages_of (km s2) = {}"
      using Suc.IH[of ?s "va + PGSIZE" "pa + PGSIZE"] Suc.prems(2, 3, 4) by (auto simp: algebra_simps)
    have eq: "va + Suc n * PGSIZE = va + PGSIZE + n * PGSIZE" by simp
    have "mappages_loop r va (va + Suc n * PGSIZE) pa perm s = Inr (ret, s2)"
      using w(1) nv L ne unfolding eq by (subst mappages_loop.simps) (auto simp: Let_def)
    then show ?thesis
      using mapped_Suc[OF m1 m2 Suc.prems(2)] k
      by (intro exI[of _ ret] exI[of _ "Suc k"] exI[of _ s2]) auto
  qed
qed

lemma mappages_ok:
  assumes "vm_ok kend R s" "r \<in> R" "va mod PGSIZE = 0" "0 < n" "va + n * PGSIZE \<le> MAXVA"
    "unmapped (vmem s) r va (va + n * PGSIZE)"
  shows "\<exists>ret k s'. mappages r va (n * PGSIZE) pa perm s = Inr (ret, s') \<and>
    mapped kend R r va k pa perm s s' \<and>
    (ret = 0 \<and> k = n \<or> ret = -1 \<and> k < n \<and> pages_of (km s') = {})"
proof -
  obtain n' where n: "n = Suc n'" using assms(4) by (cases n) auto
  have "va + Suc n' * PGSIZE - PGSIZE = va + n' * PGSIZE" by (simp add: PGSIZE_def)
  then show ?thesis
    using mappages_loop_ok[of kend R s r va n' pa perm] assms
    by (simp add: n mappages_def less_Suc_eq_le) (simp add: PGSIZE_def)
qed

end
