(* ===== verification/Vm_User.thy ===== *)
theory Vm_User
  imports Vm
begin

unbundle bit_operations_syntax

text \<open>
  The user memory of a set of page tables: its pages are all different, and mapping, unmapping,
  growing, shrinking and page faults keep this and change nothing but the range they work on.
\<close>

section \<open>Address spaces\<close>

text \<open>
  The pages of user memory of all address spaces. Below the trap frame no page is shared: between
  two addresses or two processes, with the tables, or with the free list.
\<close>

definition user_pages :: "mem \<Rightarrow> nat set \<Rightarrow> nat set" where
  "user_pages m R = {PTE2PA (lookup m r va) | r va. r \<in> R \<and> va < TRAPFRAME \<and> has (lookup m r va) PTE_V}"

definition as_ok :: "nat \<Rightarrow> nat set \<Rightarrow> vm \<Rightarrow> bool" where
  "as_ok kend R s \<longleftrightarrow> vm_ok kend R s \<and>
    (\<forall>p\<in>user_pages (vmem s) R. page kend p \<and> p \<notin> pages_of (km s) \<and> p \<notin> tables (vmem s) R) \<and>
    (\<forall>r\<in>R. \<forall>r'\<in>R. \<forall>va < TRAPFRAME. \<forall>vb < TRAPFRAME.
       has (lookup (vmem s) r va) PTE_V \<longrightarrow> has (lookup (vmem s) r' vb) PTE_V \<longrightarrow>
       PTE2PA (lookup (vmem s) r va) = PTE2PA (lookup (vmem s) r' vb) \<longrightarrow> r = r' \<and> same_page va vb)"

definition owned :: "nat set \<Rightarrow> vm \<Rightarrow> nat set" where
  "owned R s = pages_of (km s) \<union> tables (vmem s) R \<union> user_pages (vmem s) R"

text \<open>Everything but the range \<open>lo..<hi\<close> of \<open>r\<close> is as before, mappings and contents.\<close>

definition keeps :: "nat set \<Rightarrow> nat \<Rightarrow> nat \<Rightarrow> nat \<Rightarrow> vm \<Rightarrow> vm \<Rightarrow> bool" where
  "keeps R r lo hi s s' \<longleftrightarrow> (\<forall>r'\<in>R. \<forall>vb < MAXVA. \<not> (r' = r \<and> lo \<le> vb \<and> vb < hi) \<longrightarrow>
     lookup (vmem s') r' vb = lookup (vmem s) r' vb \<and>
     (vb < TRAPFRAME \<longrightarrow> has (lookup (vmem s) r' vb) PTE_V \<longrightarrow>
       (\<forall>x. page_of x = PTE2PA (lookup (vmem s) r' vb) \<longrightarrow> vmem s' x = vmem s x)))"

lemma keeps_refl: "keeps R r lo hi s s"
  by (simp add: keeps_def)

lemma keeps_trans:
  "keeps R r lo hi s s1 \<Longrightarrow> keeps R r lo hi s1 s2 \<Longrightarrow> keeps R r lo hi s s2"
  unfolding keeps_def by metis

lemma keeps_mono: "keeps R r lo hi s s' \<Longrightarrow> lo' \<le> lo \<Longrightarrow> hi \<le> hi' \<Longrightarrow> keeps R r lo' hi' s s'"
  unfolding keeps_def by (meson le_trans less_le_trans)

lemma lookup_same_page: "va < MAXVA \<Longrightarrow> vb < MAXVA \<Longrightarrow> same_page va vb \<Longrightarrow> lookup m r va = lookup m r vb"
  by (simp add: same_page_PX lookup_def split: option.splits)

lemma same_page_range: "a mod PGSIZE = 0 \<Longrightarrow> same_page vb a \<longleftrightarrow> a \<le> vb \<and> vb < a + PGSIZE"
proof -
  assume "a mod PGSIZE = 0"
  then obtain c where c: "a = PGSIZE * c" by auto
  show ?thesis unfolding same_page_def c by (auto simp: PGSIZE_def)
qed

lemma TRAPFRAME_MAXVA: "va < TRAPFRAME \<Longrightarrow> va < MAXVA" "va \<le> TRAPFRAME \<Longrightarrow> va \<le> MAXVA"
  by (simp_all add: TRAPFRAME_def TRAMPOLINE_def)

lemma vm_ok_only_page:
  assumes ok: "vm_ok kend R s" and q: "page kend q" "q \<notin> tables (vmem s) R" and m: "only_page q (vmem s) m'"
    and k: "kmem_ok kend k" "pages_of k \<inter> tables (vmem s) R = {}"
  shows "vm_ok kend R (s\<lparr>km := k, vmem := m'\<rparr>)" "tables m' R = tables (vmem s) R"
    "r \<in> R \<Longrightarrow> lookup m' r va = lookup (vmem s) r va"
proof -
  have e: "ent m' p j = ent (vmem s) p j" if "p \<in> tables (vmem s) R" "j < 512" for p j
    using that only_page_ent[OF m q(1) vm_okD(2)[OF ok that(1)]] q(2) by auto
  have up: "ent m' p j = ent (vmem s) p j" if "p \<in> upper (vmem s) R" "j < 512" for p j
    using e[OF upper_tables] that by simp
  show "vm_ok kend R (s\<lparr>km := k, vmem := m'\<rparr>)" using k by (intro vm_ok_frame[OF ok]) (auto simp: up)
  show "tables m' R = tables (vmem s) R" by (rule tables_frame[OF up])
  show "lookup m' r va = lookup (vmem s) r va" if "r \<in> R" by (rule lookup_frame[OF that e])
qed

lemma page_of_range: "q mod PGSIZE = 0 \<Longrightarrow> page_of x = q \<Longrightarrow> q \<le> x \<and> x < q + PGSIZE"
  unfolding page_of_def PGSIZE_def by auto

text \<open>A page fresh from the allocator, filled by \<open>g\<close>.\<close>

definition fills :: "nat \<Rightarrow> (mem \<Rightarrow> mem) \<Rightarrow> bool" where
  "fills q g \<longleftrightarrow> (\<forall>m. only_page q m (g m))"

lemma fills_memset: "fills q (memset q c PGSIZE)"
  by (simp add: fills_def only_page_memset)

lemma fresh_page:
  assumes ok: "vm_ok kend R s" and a: "vm_kalloc s = (Some q, s1)" and g: "fills q g"
  defines "s2 \<equiv> set_mem g s1"
  shows "vm_ok kend R s2" "tables (vmem s2) R = tables (vmem s) R" "pages_of (km s2) = pages_of (km s) - {q}"
    "r \<in> R \<Longrightarrow> lookup (vmem s2) r va = lookup (vmem s) r va"
    "page kend q" "q \<in> pages_of (km s)" "q \<notin> tables (vmem s) R"
    "vmem s2 x = g (vmem s1) x" "page_of x \<noteq> q \<Longrightarrow> vmem s2 x = vmem s x"
proof -
  note A = vm_kalloc_Some[OF ok a]
  have o: "only_page q (vmem s1) (g (vmem s1))" using g by (simp add: fills_def)
  have s2: "s2 = s1\<lparr>km := km s1, vmem := g (vmem s1)\<rparr>" by (simp add: s2_def set_mem_def)
  note F = vm_ok_only_page[OF A(1, 2) _ o vm_okD(1)[OF A(1)]]
  have d: "pages_of (km s1) \<inter> tables (vmem s1) R = {}" using vm_okD(3)[OF A(1)] by auto
  show "vm_ok kend R s2" using F(1) d A(5, 6) unfolding s2 by simp
  show "tables (vmem s2) R = tables (vmem s) R" using F(2) d A(5, 6) unfolding s2 by simp
  show "lookup (vmem s2) r va = lookup (vmem s) r va" if "r \<in> R"
    using F(3)[OF _ d that] A(5, 6, 7) that unfolding s2 by simp
  show "pages_of (km s2) = pages_of (km s) - {q}" "page kend q" "q \<in> pages_of (km s)" "q \<notin> tables (vmem s) R"
    using A by (auto simp: s2_def set_mem_def)
  have q: "q mod PGSIZE = 0" using A(2) by (simp add: page_def)
  show "vmem s2 x = g (vmem s1) x" by (simp add: s2)
  show "vmem s2 x = vmem s x" if "page_of x \<noteq> q"
    using only_page_of[OF o q that] only_page_of[OF A(11) q that] by (simp add: s2)
qed

lemma as_okD:
  assumes "as_ok kend R s"
  shows "vm_ok kend R s"
    and "p \<in> user_pages (vmem s) R \<Longrightarrow> page kend p"
    and "p \<in> user_pages (vmem s) R \<Longrightarrow> p \<notin> pages_of (km s)"
    and "p \<in> user_pages (vmem s) R \<Longrightarrow> p \<notin> tables (vmem s) R"
    and "r \<in> R \<Longrightarrow> r' \<in> R \<Longrightarrow> va < TRAPFRAME \<Longrightarrow> vb < TRAPFRAME \<Longrightarrow> has (lookup (vmem s) r va) PTE_V \<Longrightarrow>
      has (lookup (vmem s) r' vb) PTE_V \<Longrightarrow> PTE2PA (lookup (vmem s) r va) = PTE2PA (lookup (vmem s) r' vb) \<Longrightarrow>
      r = r' \<and> same_page va vb"
  using assms unfolding as_ok_def by blast+

lemma user_pagesI:
  "r \<in> R \<Longrightarrow> va < TRAPFRAME \<Longrightarrow> has (lookup m r va) PTE_V \<Longrightarrow> PTE2PA (lookup m r va) \<in> user_pages m R"
  by (auto simp: user_pages_def)

lemma as_ok_same_lookup:
  assumes ok: "as_ok kend R s" and vm: "vm_ok kend R s'"
    and l: "\<And>r va. r \<in> R \<Longrightarrow> va < MAXVA \<Longrightarrow> lookup (vmem s') r va = lookup (vmem s) r va"
    and d: "(pages_of (km s') \<union> tables (vmem s') R) \<inter> user_pages (vmem s) R = {}"
  shows "as_ok kend R s'" "user_pages (vmem s') R = user_pages (vmem s) R"
proof -
  show U: "user_pages (vmem s') R = user_pages (vmem s) R"
    using l TRAPFRAME_MAXVA(1) unfolding user_pages_def by (metis (no_types, lifting))
  show "as_ok kend R s'"
    unfolding as_ok_def U
  proof (intro conjI ballI allI impI)
    show "page kend p" "p \<notin> pages_of (km s')" "p \<notin> tables (vmem s') R" if "p \<in> user_pages (vmem s) R" for p
      using that d as_okD(2)[OF ok] by auto
    show "r = r'" "same_page va vb" if "r \<in> R" "r' \<in> R" "va < TRAPFRAME" "vb < TRAPFRAME"
      "has (lookup (vmem s') r va) PTE_V" "has (lookup (vmem s') r' vb) PTE_V"
      "PTE2PA (lookup (vmem s') r va) = PTE2PA (lookup (vmem s') r' vb)" for r r' va vb
      using as_okD(5)[OF ok that(1-4)] that l TRAPFRAME_MAXVA(1) by auto
  qed (fact vm)
qed

text \<open>Giving a page back that is neither a table nor mapped.\<close>

lemma vm_kfree_ok:
  assumes ok: "vm_ok kend R s" and q: "page kend q" "q \<notin> pages_of (km s)" "q \<notin> tables (vmem s) R"
  shows "\<exists>s'. vm_kfree kend q s = Inr s' \<and> vm_ok kend R s' \<and> pages_of (km s') = insert q (pages_of (km s)) \<and>
    tables (vmem s') R = tables (vmem s) R \<and> (\<forall>r\<in>R. \<forall>va. lookup (vmem s') r va = lookup (vmem s) r va) \<and>
    (\<forall>r\<in>R. \<forall>xs. path xs \<longrightarrow> tab (vmem s') r xs = tab (vmem s) r xs) \<and>
    (\<forall>x. page_of x \<noteq> q \<longrightarrow> vmem s' x = vmem s x)"
proof -
  obtain k where k: "kfree kend q (km s) = Inr k" "kmem_ok kend k" "pages_of k = insert q (pages_of (km s))"
    using kfree_ok[OF vm_okD(1)[OF ok] q(1, 2)] by auto
  let ?m = "wr64 q (of_nat (freelist (km s))) (memset q 1 PGSIZE (vmem s))"
  have o: "only_page q (vmem s) ?m" by (rule only_page_trans[OF only_page_memset only_page_wr64_0])
  have d: "pages_of k \<inter> tables (vmem s) R = {}" using k(3) q(3) vm_okD(3)[OF ok] by auto
  note F = vm_ok_only_page[OF ok q(1, 3) o k(2) d]
  have "tab ?m r xs = tab (vmem s) r xs" if "r \<in> R" "path xs" for r xs
    using only_page_ent[OF o q(1) vm_okD(2)[OF ok]] q(3) upper_tables by (intro tab_frame[OF that]) metis
  moreover have "q mod PGSIZE = 0" using q(1) by (simp add: page_def)
  ultimately show ?thesis
    using F k only_page_of[OF o] by (intro exI[of _ "s\<lparr>km := k, vmem := ?m\<rparr>"]) (auto simp: vm_kfree_def)
qed

lemma PTE_fresh: "page kend q \<Longrightarrow> flags_ok perm \<Longrightarrow> PTE2PA (PA2PTE q OR perm OR PTE_V) = q"
  using PTE2PA_PA2PTE[of q "perm OR PTE_V"] page_bound[of kend q] by (simp add: page_def or.assoc)

text \<open>
  Mapping a fresh page: it becomes user memory of \<open>r\<close> with its contents, or it can be given back
  and everything is as before.
\<close>

lemma mapped_frame:
  assumes ok: "as_ok kend R s" and a: "vm_kalloc s = (Some q, s1)" and g: "fills q g"
    and m: "mapped kend R r va n q perm (set_mem g s1) s3"
  shows "page_of x = q \<Longrightarrow> vmem s3 x = g (vmem s1) x" "page_of x \<in> user_pages (vmem s) R \<Longrightarrow> vmem s3 x = vmem s x"
    "tables (vmem s3) R \<union> pages_of (km s3) = tables (vmem s) R \<union> pages_of (km s) - {q}"
    "q \<notin> user_pages (vmem s) R"
proof -
  note F = fresh_page[OF as_okD(1)[OF ok] a g]
  let ?P = "tables (vmem s) R \<union> (pages_of (km s) - {q})"
  have same: "vmem s3 x = vmem (set_mem g s1) x" if "page_of x \<notin> ?P" for x
    using m that F(2, 3) by (simp add: mapped_def)
  show q: "q \<notin> user_pages (vmem s) R" using F(6) as_okD(3)[OF ok] by auto
  show "vmem s3 x = g (vmem s1) x" if "page_of x = q" using same[of x] F(7) F(8)[of x] that by simp
  show "vmem s3 x = vmem s x" if u: "page_of x \<in> user_pages (vmem s) R"
  proof -
    have "page_of x \<notin> ?P" "page_of x \<noteq> q" using u q as_okD(3, 4)[OF ok u] by auto
    then show ?thesis using same[of x] F(9)[of x] by simp
  qed
  show "tables (vmem s3) R \<union> pages_of (km s3) = tables (vmem s) R \<union> pages_of (km s) - {q}"
    using m F(2, 3, 7) by (auto simp: mapped_def)
qed

lemma map_fresh_page:
  assumes ok: "as_ok kend R s" and r: "r \<in> R" and a: "a mod PGSIZE = 0" "a + PGSIZE \<le> TRAPFRAME"
    and nv: "\<not> has (lookup (vmem s) r a) PTE_V" and perm: "flags_ok perm" and q: "vm_kalloc s = (Some q, s1)"
    and g: "fills q g" and m: "mapped kend R r a 1 q perm (set_mem g s1) s3"
  shows "as_ok kend R s3" "owned R s3 = owned R s" "keeps R r a (a + PGSIZE) s s3"
    "a \<le> vb \<Longrightarrow> vb < a + PGSIZE \<Longrightarrow> lookup (vmem s3) r vb = PA2PTE q OR perm OR PTE_V"
proof -
  note F = fresh_page[OF as_okD(1)[OF ok] q g] and M = mapped_frame[OF ok q g m]
  have vm3: "vm_ok kend R s3" using m by (simp add: mapped_def)
  have l: "lookup (vmem s3) r' vb = (if r' = r \<and> same_page vb a then PA2PTE q OR perm OR PTE_V else lookup (vmem s) r' vb)"
    if "r' \<in> R" "vb < MAXVA" for r' vb
    using m that F(4)[OF that(1)] unfolding same_page_range[OF a(1)]
    by (auto simp: mapped_def PGSIZE_def)
  have pa: "PTE2PA (PA2PTE q OR perm OR PTE_V) = q" by (rule PTE_fresh[OF F(5) perm])
  have nv': "\<not> has (lookup (vmem s) r vb) PTE_V" if "same_page vb a" "vb < MAXVA" for vb
    using that nv lookup_same_page[of vb a "vmem s" r] a(2) by (auto simp: TRAPFRAME_def TRAMPOLINE_def PGSIZE_def)
  have aT: "a < TRAPFRAME" using a(2) by (simp add: PGSIZE_def)
  have U: "user_pages (vmem s3) R = insert q (user_pages (vmem s) R)"
  proof (intro set_eqI iffI)
    fix p assume "p \<in> user_pages (vmem s3) R"
    then show "p \<in> insert q (user_pages (vmem s) R)"
      using l TRAPFRAME_MAXVA(1) pa by (auto simp: user_pages_def split: if_splits)
  next
    fix p assume "p \<in> insert q (user_pages (vmem s) R)"
    then consider "p = q" | r' vb where "r' \<in> R" "vb < TRAPFRAME" "has (lookup (vmem s) r' vb) PTE_V" "p = PTE2PA (lookup (vmem s) r' vb)"
      by (auto simp: user_pages_def)
    then show "p \<in> user_pages (vmem s3) R"
    proof cases
      case 1
      then show ?thesis
        using user_pagesI[OF r aT, of "vmem s3"] l[OF r TRAPFRAME_MAXVA(1)[OF aT]] pa by (simp add: same_page_def)
    next
      case 2
      then have "lookup (vmem s3) r' vb = lookup (vmem s) r' vb"
        using l[OF 2(1) TRAPFRAME_MAXVA(1)[OF 2(2)]] nv'[of vb] TRAPFRAME_MAXVA(1)[OF 2(2)] by auto
      then show ?thesis using user_pagesI[OF 2(1, 2), of "vmem s3"] 2(3, 4) by simp
    qed
  qed
  have d: "p \<notin> pages_of (km s3)" "p \<notin> tables (vmem s3) R" if "p \<in> insert q (user_pages (vmem s) R)" for p
    using that M(3) as_okD(3, 4)[OF ok] by auto
  show "as_ok kend R s3"
    unfolding as_ok_def U
  proof (intro conjI ballI allI impI)
    show "page kend p" "p \<notin> pages_of (km s3)" "p \<notin> tables (vmem s3) R" if "p \<in> insert q (user_pages (vmem s) R)" for p
      using that d F(5) as_okD(2)[OF ok] by auto
    show "r1 = r2" "same_page va vb" if "r1 \<in> R" "r2 \<in> R" "va < TRAPFRAME" "vb < TRAPFRAME"
      "has (lookup (vmem s3) r1 va) PTE_V" "has (lookup (vmem s3) r2 vb) PTE_V"
      "PTE2PA (lookup (vmem s3) r1 va) = PTE2PA (lookup (vmem s3) r2 vb)" for r1 r2 va vb
      using that as_okD(5)[OF ok that(1-4)] l[OF that(1) TRAPFRAME_MAXVA(1)[OF that(3)]]
        l[OF that(2) TRAPFRAME_MAXVA(1)[OF that(4)]] pa M(4) user_pagesI[OF that(1, 3)] user_pagesI[OF that(2, 4)]
      by (auto simp: same_page_def split: if_splits)
  qed (rule vm3)
  show "owned R s3 = owned R s"
    unfolding owned_def U using M(3) F(6) by blast
  show "keeps R r a (a + PGSIZE) s s3"
    unfolding keeps_def
  proof (intro ballI allI impI)
    fix r' vb
    assume r': "r' \<in> R" and vb: "vb < MAXVA" and nr: "\<not> (r' = r \<and> a \<le> vb \<and> vb < a + PGSIZE)"
    have "lookup (vmem s3) r' vb = lookup (vmem s) r' vb"
      using l[OF r' vb] nr same_page_range[OF a(1)] by auto
    moreover have "vmem s3 x = vmem s x" if "vb < TRAPFRAME" "has (lookup (vmem s) r' vb) PTE_V"
      "page_of x = PTE2PA (lookup (vmem s) r' vb)" for x
      using M(2)[of x] user_pagesI[OF r' that(1, 2)] that(3) by simp
    ultimately show "lookup (vmem s3) r' vb = lookup (vmem s) r' vb \<and> (vb < TRAPFRAME \<longrightarrow>
      has (lookup (vmem s) r' vb) PTE_V \<longrightarrow> (\<forall>x. page_of x = PTE2PA (lookup (vmem s) r' vb) \<longrightarrow> vmem s3 x = vmem s x))"
      by blast
  qed
  show "lookup (vmem s3) r vb = PA2PTE q OR perm OR PTE_V" if "a \<le> vb" "vb < a + PGSIZE"
    using l[OF r, of vb] that same_page_range[OF a(1)] a(2) by (auto simp: TRAPFRAME_def TRAMPOLINE_def)
qed

lemma unmap_fresh_page:
  assumes ok: "as_ok kend R s" and r: "r \<in> R" and q: "vm_kalloc s = (Some q, s1)"
    and g: "fills q g" and m: "mapped kend R r a 0 q perm (set_mem g s1) s3"
  shows "\<exists>s4. vm_kfree kend q s3 = Inr s4 \<and> as_ok kend R s4 \<and> owned R s4 = owned R s \<and> keeps R r b b s s4"
proof -
  note F = fresh_page[OF as_okD(1)[OF ok] q g] and M = mapped_frame[OF ok q g m]
  have vm3: "vm_ok kend R s3" using m by (simp add: mapped_def)
  have l3: "lookup (vmem s3) r' vb = lookup (vmem s) r' vb" if "r' \<in> R" "vb < MAXVA" for r' vb
    using m that F(4)[OF that(1)] by (auto simp: mapped_def)
  have "q \<notin> pages_of (km s3)" "q \<notin> tables (vmem s3) R" using M(3) by auto
  from vm_kfree_ok[OF vm3 F(5) this] obtain s4 where s4: "vm_kfree kend q s3 = Inr s4" "vm_ok kend R s4"
    "pages_of (km s4) = insert q (pages_of (km s3))" "tables (vmem s4) R = tables (vmem s3) R"
    "\<And>r va. r \<in> R \<Longrightarrow> lookup (vmem s4) r va = lookup (vmem s3) r va"
    "\<And>x. page_of x \<noteq> q \<Longrightarrow> vmem s4 x = vmem s3 x" by blast
  have P: "pages_of (km s4) \<union> tables (vmem s4) R = pages_of (km s) \<union> tables (vmem s) R"
  proof -
    have "pages_of (km s4) \<union> tables (vmem s4) R = insert q (tables (vmem s3) R \<union> pages_of (km s3))"
      using s4(3, 4) by auto
    then show ?thesis unfolding M(3) using F(6) by auto
  qed
  have l: "lookup (vmem s4) r' vb = lookup (vmem s) r' vb" if "r' \<in> R" "vb < MAXVA" for r' vb
    using l3[OF that] s4(5)[OF that(1)] by simp
  have "(pages_of (km s4) \<union> tables (vmem s4) R) \<inter> user_pages (vmem s) R = {}"
    unfolding P using as_okD(3, 4)[OF ok] by blast
  note A = as_ok_same_lookup[OF ok s4(2) l this]
  have "keeps R r b b s s4"
    unfolding keeps_def
  proof (intro ballI allI impI conjI)
    fix r' vb x
    assume r': "r' \<in> R" and vb: "vb < MAXVA"
    show "lookup (vmem s4) r' vb = lookup (vmem s) r' vb" by (rule l[OF r' vb])
    assume v: "vb < TRAPFRAME" "has (lookup (vmem s) r' vb) PTE_V" "page_of x = PTE2PA (lookup (vmem s) r' vb)"
    have u: "page_of x \<in> user_pages (vmem s) R" using user_pagesI[OF r' v(1, 2)] v(3) by simp
    then show "vmem s4 x = vmem s x" using M(2)[OF u] M(4) s4(6)[of x] by auto
  qed
  then show ?thesis using s4(1) A P by (auto simp: owned_def)
qed

section \<open>Unmapping\<close>

definition did :: "nat \<Rightarrow> nat set \<Rightarrow> nat \<Rightarrow> nat \<Rightarrow> nat \<Rightarrow> vm \<Rightarrow> vm \<Rightarrow> bool" where
  "did kend R r lo hi s s' \<longleftrightarrow> as_ok kend R s' \<and> owned R s' = owned R s \<and> keeps R r lo hi s s'"

lemma did_refl: "as_ok kend R s \<Longrightarrow> did kend R r lo hi s s"
  by (simp add: did_def keeps_refl)

lemma did_trans: "did kend R r lo hi s s1 \<Longrightarrow> did kend R r lo hi s1 s2 \<Longrightarrow> did kend R r lo hi s s2"
  unfolding did_def using keeps_trans[of R r lo hi s s1 s2] by simp

lemma did_mono: "did kend R r lo hi s s' \<Longrightarrow> lo' \<le> lo \<Longrightarrow> hi \<le> hi' \<Longrightarrow> did kend R r lo' hi' s s'"
  unfolding did_def using keeps_mono[of R r lo hi s s' lo' hi'] by simp

lemma did_lookup:
  "did kend R r lo hi s s' \<Longrightarrow> r' \<in> R \<Longrightarrow> vb < MAXVA \<Longrightarrow> \<not> (r' = r \<and> lo \<le> vb \<and> vb < hi) \<Longrightarrow>
     lookup (vmem s') r' vb = lookup (vmem s) r' vb"
  by (simp add: did_def keeps_def)

lemma clear_page:
  assumes ok: "as_ok kend R s" and r: "r \<in> R" and a: "a mod PGSIZE = 0" "a + PGSIZE \<le> TRAPFRAME"
    and p: "tab (vmem s) r (leaf_path a) = Some p" and v: "has (lookup (vmem s) r a) PTE_V"
  shows "\<exists>s1. vm_kfree kend (PTE2PA (lookup (vmem s) r a)) s = Inr s1 \<and>
    did kend R r a (a + PGSIZE) s (set_mem (wr64 (p + 8 * PX 0 a) 0) s1) \<and>
    unmapped (vmem (set_mem (wr64 (p + 8 * PX 0 a) 0) s1)) r a (a + PGSIZE)"
proof -
  let ?q = "PTE2PA (lookup (vmem s) r a)"
  have aT: "a < TRAPFRAME" "a < MAXVA" using a(2) by (simp_all add: PGSIZE_def TRAPFRAME_def TRAMPOLINE_def)
  have q: "?q \<in> user_pages (vmem s) R" by (rule user_pagesI[OF r aT(1) v])
  obtain s1 where s1: "vm_kfree kend ?q s = Inr s1" "vm_ok kend R s1" "pages_of (km s1) = insert ?q (pages_of (km s))"
    "tables (vmem s1) R = tables (vmem s) R" "\<And>r va. r \<in> R \<Longrightarrow> lookup (vmem s1) r va = lookup (vmem s) r va"
    "\<And>r xs. r \<in> R \<Longrightarrow> path xs \<Longrightarrow> tab (vmem s1) r xs = tab (vmem s) r xs"
    "\<And>x. page_of x \<noteq> ?q \<Longrightarrow> vmem s1 x = vmem s x"
    using vm_kfree_ok[OF as_okD(1)[OF ok] as_okD(2-4)[OF ok q]] by blast
  let ?s = "set_mem (wr64 (p + 8 * PX 0 a) 0) s1"
  have p1: "tab (vmem s1) r (leaf_path a) = Some p" using s1(6)[OF r] p by simp
  note W = leaf_write[OF s1(2) r aT(2) p1, where v = 0]
  have l: "lookup (vmem ?s) r' vb = (if r' = r \<and> same_page vb a then 0 else lookup (vmem s) r' vb)"
    if "r' \<in> R" "vb < MAXVA" for r' vb
    using W(3)[OF that] s1(5)[OF that(1)] by simp
  have km: "km ?s = km s1" by (simp add: set_mem_def)
  have mem: "vmem ?s x = vmem s x" if "page_of x \<in> user_pages (vmem s) R" "page_of x \<noteq> ?q" for x
  proof -
    have pT: "p \<in> tables (vmem s) R" using tablesI[OF r _ p] by simp
    then have "p mod PGSIZE = 0" using vm_okD(2)[OF as_okD(1)[OF ok]] by (simp add: page_def)
    moreover have "page_of x \<noteq> p" using that(1) pT as_okD(4)[OF ok] by auto
    ultimately show ?thesis
      using only_page_of[OF only_page_wr64[OF PX_less, of p "vmem s1" 0 a]] s1(7)[OF that(2)] by (simp add: set_mem_def)
  qed
  have uniq: "r' = r \<and> same_page vb a" if "r' \<in> R" "vb < TRAPFRAME" "has (lookup (vmem s) r' vb) PTE_V"
    "PTE2PA (lookup (vmem s) r' vb) = ?q" for r' vb
    using as_okD(5)[OF ok that(1) r that(2) aT(1) that(3) v that(4)] .
  have U: "user_pages (vmem ?s) R = user_pages (vmem s) R - {?q}"
  proof (intro set_eqI iffI)
    fix t assume "t \<in> user_pages (vmem ?s) R"
    then obtain r' vb where t: "r' \<in> R" "vb < TRAPFRAME" "has (lookup (vmem ?s) r' vb) PTE_V" "t = PTE2PA (lookup (vmem ?s) r' vb)"
      by (auto simp: user_pages_def)
    then have "\<not> (r' = r \<and> same_page vb a)" "lookup (vmem ?s) r' vb = lookup (vmem s) r' vb"
      using l[OF t(1) TRAPFRAME_MAXVA(1)[OF t(2)]] by (auto split: if_splits)
    then show "t \<in> user_pages (vmem s) R - {?q}" using t uniq[OF t(1, 2)] user_pagesI[OF t(1, 2)] by auto
  next
    fix t assume "t \<in> user_pages (vmem s) R - {?q}"
    then obtain r' vb where t: "r' \<in> R" "vb < TRAPFRAME" "has (lookup (vmem s) r' vb) PTE_V" "t = PTE2PA (lookup (vmem s) r' vb)"
      "t \<noteq> ?q" by (auto simp: user_pages_def)
    then have "\<not> (r' = r \<and> same_page vb a)"
      using lookup_same_page[OF TRAPFRAME_MAXVA(1)[OF t(2)] aT(2)] by auto
    then have "lookup (vmem ?s) r' vb = lookup (vmem s) r' vb" using l[OF t(1) TRAPFRAME_MAXVA(1)[OF t(2)]] by auto
    then show "t \<in> user_pages (vmem ?s) R" using t user_pagesI[OF t(1, 2), of "vmem ?s"] by simp
  qed
  have "as_ok kend R ?s"
    unfolding as_ok_def U
  proof (intro conjI ballI allI impI)
    show "vm_ok kend R ?s" by (rule W(1))
    show "page kend t" "t \<notin> pages_of (km ?s)" "t \<notin> tables (vmem ?s) R" if "t \<in> user_pages (vmem s) R - {?q}" for t
      using that as_okD(2-4)[OF ok, of t] s1(3, 4) W(2) km by auto
    show "r1 = r2" "same_page va vb" if "r1 \<in> R" "r2 \<in> R" "va < TRAPFRAME" "vb < TRAPFRAME"
      "has (lookup (vmem ?s) r1 va) PTE_V" "has (lookup (vmem ?s) r2 vb) PTE_V"
      "PTE2PA (lookup (vmem ?s) r1 va) = PTE2PA (lookup (vmem ?s) r2 vb)" for r1 r2 va vb
      using that as_okD(5)[OF ok that(1-4)] l[OF that(1) TRAPFRAME_MAXVA(1)[OF that(3)]]
        l[OF that(2) TRAPFRAME_MAXVA(1)[OF that(4)]] by (auto split: if_splits)
  qed
  moreover have "owned R ?s = owned R s" unfolding owned_def U km using s1(3, 4) W(2) q by auto
  moreover have "keeps R r a (a + PGSIZE) s ?s"
    unfolding keeps_def
  proof (intro ballI allI impI conjI)
    fix r' vb x
    assume r': "r' \<in> R" and vb: "vb < MAXVA" and nr: "\<not> (r' = r \<and> a \<le> vb \<and> vb < a + PGSIZE)"
    then have ns: "\<not> (r' = r \<and> same_page vb a)" using same_page_range[OF a(1)] by auto
    then show "lookup (vmem ?s) r' vb = lookup (vmem s) r' vb" using l[OF r' vb] by auto
    assume x: "vb < TRAPFRAME" "has (lookup (vmem s) r' vb) PTE_V" "page_of x = PTE2PA (lookup (vmem s) r' vb)"
    show "vmem ?s x = vmem s x" using mem[of x] user_pagesI[OF r' x(1, 2)] x(3) uniq[OF r' x(1, 2)] ns by auto
  qed
  moreover have "unmapped (vmem ?s) r a (a + PGSIZE)"
    unfolding unmapped_def using l[OF r] same_page_range[OF a(1)] a(2) by (auto simp: TRAPFRAME_def TRAMPOLINE_def)
  ultimately show ?thesis using s1(1) by (auto simp: did_def)
qed

lemma unmapped_page:
  assumes "a mod PGSIZE = 0" "a + PGSIZE \<le> TRAPFRAME" "\<not> has (lookup m r a) PTE_V"
  shows "unmapped m r a (a + PGSIZE)"
  unfolding unmapped_def
proof (intro allI impI)
  fix vb assume "a \<le> vb" "vb < a + PGSIZE"
  then have "same_page vb a" "vb < MAXVA" "a < MAXVA" using same_page_range[OF assms(1)] assms(2) by (auto simp: TRAPFRAME_def TRAMPOLINE_def)
  then show "\<not> has (lookup m r vb) PTE_V" using lookup_same_page[of vb a m r] assms(3) by simp
qed

lemma unmapped_did:
  assumes "did kend R r lo hi s s'" "r \<in> R" "unmapped (vmem s) r a b" "b \<le> lo \<or> hi \<le> a" "b \<le> MAXVA"
  shows "unmapped (vmem s') r a b"
  unfolding unmapped_def
proof (intro allI impI)
  fix vb assume "a \<le> vb" "vb < b"
  then show "\<not> has (lookup (vmem s') r vb) PTE_V"
    using did_lookup[OF assms(1, 2), of vb] assms(3-5) by (auto simp: unmapped_def)
qed

lemma unmapped_append: "unmapped m r a b \<Longrightarrow> unmapped m r b c \<Longrightarrow> unmapped m r a c"
  unfolding unmapped_def using not_le by blast

lemma uvmunmap_loop_ok:
  assumes "as_ok kend R s" "r \<in> R" "a mod PGSIZE = 0" "a + n * PGSIZE \<le> TRAPFRAME"
  shows "\<exists>s'. uvmunmap_loop kend r n a True s = Inr s' \<and> did kend R r a (a + n * PGSIZE) s s' \<and>
    unmapped (vmem s') r a (a + n * PGSIZE)"
  using assms
proof (induction n arbitrary: a s)
  case 0
  then show ?case by (auto simp: did_refl unmapped_def)
next
  case (Suc n a s)
  let ?b = "a + PGSIZE"
  have eq: "a + Suc n * PGSIZE = ?b + n * PGSIZE" by simp
  have a: "?b \<le> TRAPFRAME" "a < MAXVA" using Suc.prems(4) by (auto simp: TRAPFRAME_def TRAMPOLINE_def PGSIZE_def)
  have w: "walk r a False s = Inr (map_option (\<lambda>p. p + 8 * PX 0 a) (tab (vmem s) r (leaf_path a)), s)"
    using walk_find[OF as_okD(1)[OF Suc.prems(1)] Suc.prems(2) a(2)] a(2) by (simp add: walk_def)
  have "\<exists>s1. uvmunmap_loop kend r (Suc n) a True s = uvmunmap_loop kend r n ?b True s1 \<and>
      did kend R r a ?b s s1 \<and> unmapped (vmem s1) r a ?b"
  proof (cases "has (lookup (vmem s) r a) PTE_V")
    case True
    then obtain p where p: "tab (vmem s) r (leaf_path a) = Some p"
      by (cases "tab (vmem s) r (leaf_path a)") (auto simp: lookup_def)
    then have rd: "rd64 (vmem s) (p + 8 * PX 0 a) = lookup (vmem s) r a" by (simp add: lookup_def ent_def)
    from clear_page[OF Suc.prems(1-3) a(1) p True] obtain s1 where
      "vm_kfree kend (PTE2PA (lookup (vmem s) r a)) s = Inr s1"
      "did kend R r a ?b s (set_mem (wr64 (p + 8 * PX 0 a) 0) s1)"
      "unmapped (vmem (set_mem (wr64 (p + 8 * PX 0 a) 0) s1)) r a ?b" by blast
    then show ?thesis using w p rd True by (intro exI[of _ "set_mem (wr64 (p + 8 * PX 0 a) 0) s1"]) simp
  next
    case False
    then have "uvmunmap_loop kend r (Suc n) a True s = uvmunmap_loop kend r n ?b True s"
      using w by (cases "tab (vmem s) r (leaf_path a)") (simp_all add: lookup_def ent_def)
    then show ?thesis using did_refl[OF Suc.prems(1)] unmapped_page[OF Suc.prems(3) a(1) False] by blast
  qed
  then obtain s1 where s1: "uvmunmap_loop kend r (Suc n) a True s = uvmunmap_loop kend r n ?b True s1"
    "did kend R r a ?b s s1" "unmapped (vmem s1) r a ?b" by blast
  have "as_ok kend R s1" using s1(2) by (simp add: did_def)
  with Suc.IH[of s1 ?b] Suc.prems(2-4) obtain s2 where s2: "uvmunmap_loop kend r n ?b True s1 = Inr s2"
    "did kend R r ?b (?b + n * PGSIZE) s1 s2" "unmapped (vmem s2) r ?b (?b + n * PGSIZE)"
    unfolding eq by auto
  have "unmapped (vmem s2) r a ?b" using unmapped_did[OF s2(2) Suc.prems(2) s1(3)] a(1) by (simp add: TRAPFRAME_MAXVA(2))
  then have "unmapped (vmem s2) r a (a + Suc n * PGSIZE)" using unmapped_append s2(3) unfolding eq by blast
  moreover have "did kend R r a (a + Suc n * PGSIZE) s s2"
    using did_trans[OF did_mono[OF s1(2)] did_mono[OF s2(2)], of a "a + Suc n * PGSIZE"] by simp
  ultimately show ?case using s1(1) s2(1) by auto
qed

section \<open>Growing and shrinking\<close>

lemma PGROUNDUP_id: "a mod PGSIZE = 0 \<Longrightarrow> PGROUNDUP a = a"
  using PGROUNDUP_props(2)[of a] PGROUNDUP_props(3)[of a a] by simp

lemma PGROUNDUP_TRAPFRAME: "sz \<le> TRAPFRAME \<Longrightarrow> PGROUNDUP sz \<le> TRAPFRAME"
  by (rule PGROUNDUP_props(3)) (simp_all add: TRAPFRAME_def TRAMPOLINE_def MAXVA_def PGSIZE_def)

lemma PGROUNDUP_mono: "a \<le> b \<Longrightarrow> PGROUNDUP a \<le> PGROUNDUP b"
  using PGROUNDUP_props(1, 2)[of b] by (intro PGROUNDUP_props(3)) auto

lemma uvmdealloc_ok:
  assumes "as_ok kend R s" "r \<in> R" "oldsz \<le> TRAPFRAME"
  shows "\<exists>s'. uvmdealloc kend r oldsz newsz s = Inr (min oldsz newsz, s') \<and>
    did kend R r (PGROUNDUP newsz) (PGROUNDUP oldsz) s s' \<and>
    unmapped (vmem s') r (PGROUNDUP newsz) (PGROUNDUP oldsz)"
proof (cases "newsz < oldsz \<and> PGROUNDUP newsz < PGROUNDUP oldsz")
  case True
  let ?n = "(PGROUNDUP oldsz - PGROUNDUP newsz) div PGSIZE"
  have "PGSIZE dvd PGROUNDUP oldsz - PGROUNDUP newsz"
    using PGROUNDUP_props(1)[of oldsz] PGROUNDUP_props(1)[of newsz] by (simp add: dvd_diff_nat mod_eq_0_iff_dvd)
  then have n: "PGROUNDUP newsz + ?n * PGSIZE = PGROUNDUP oldsz" using True by simp
  from uvmunmap_loop_ok[OF assms(1, 2) PGROUNDUP_props(1)[of newsz], of ?n] obtain s' where
    "uvmunmap_loop kend r ?n (PGROUNDUP newsz) True s = Inr s'"
    "did kend R r (PGROUNDUP newsz) (PGROUNDUP oldsz) s s'" "unmapped (vmem s') r (PGROUNDUP newsz) (PGROUNDUP oldsz)"
    using PGROUNDUP_TRAPFRAME[OF assms(3)] unfolding n by auto
  then show ?thesis using True PGROUNDUP_props(1)[of newsz] by (simp add: uvmdealloc_def uvmunmap_def min_def)
next
  case False
  then have "PGROUNDUP oldsz \<le> PGROUNDUP newsz" using PGROUNDUP_mono[of oldsz newsz] by auto
  then have "unmapped (vmem s) r (PGROUNDUP newsz) (PGROUNDUP oldsz)" by (auto simp: unmapped_def)
  moreover have "uvmdealloc kend r oldsz newsz s = Inr (min oldsz newsz, s)"
    using False by (auto simp: uvmdealloc_def min_def)
  ultimately show ?thesis using did_refl[OF assms(1)] by blast
qed

text \<open>A page of user memory that is set to zero.\<close>

definition zero_page :: "nat \<Rightarrow> 64 word \<Rightarrow> nat \<Rightarrow> nat \<Rightarrow> vm \<Rightarrow> bool" where
  "zero_page kend perm r vb s \<longleftrightarrow> (\<exists>q. page kend q \<and> lookup (vmem s) r vb = PA2PTE q OR perm OR PTE_V \<and>
     (\<forall>x. page_of x = q \<longrightarrow> vmem s x = 0))"

lemma zero_page_did:
  assumes "did kend R r lo hi s s'" "r \<in> R" "zero_page kend perm r vb s" "flags_ok perm" "vb < TRAPFRAME" "\<not> (lo \<le> vb \<and> vb < hi)"
  shows "zero_page kend perm r vb s'"
proof -
  obtain q where q: "page kend q" "lookup (vmem s) r vb = PA2PTE q OR perm OR PTE_V" "\<forall>x. page_of x = q \<longrightarrow> vmem s x = 0"
    using assms(3) by (auto simp: zero_page_def)
  have k: "keeps R r lo hi s s'" using assms(1) by (simp add: did_def)
  have "vmem s' x = vmem s x" if "page_of x = q" for x
    using k assms(2, 5, 6) TRAPFRAME_MAXVA(1)[OF assms(5)] q(2) that PTE_fresh[OF q(1) assms(4)]
    by (auto simp: keeps_def)
  then show ?thesis
    using q did_lookup[OF assms(1, 2) TRAPFRAME_MAXVA(1)[OF assms(5)]] assms(6) by (auto simp: zero_page_def)
qed

text \<open>One page more: mapped, or given back.\<close>

lemma add_page:
  assumes ok: "as_ok kend R s" and r: "r \<in> R" and a: "a mod PGSIZE = 0" "a + PGSIZE \<le> TRAPFRAME"
    and nv: "\<not> has (lookup (vmem s) r a) PTE_V" and perm: "flags_ok perm" and q: "vm_kalloc s = (Some q, s1)"
    and g: "fills q g"
  shows "(\<exists>s3. mappages r a PGSIZE q perm (set_mem g s1) = Inr (0, s3) \<and> did kend R r a (a + PGSIZE) s s3 \<and> page kend q \<and>
      (\<forall>vb. a \<le> vb \<longrightarrow> vb < a + PGSIZE \<longrightarrow> lookup (vmem s3) r vb = PA2PTE q OR perm OR PTE_V) \<and>
      (\<forall>x. page_of x = q \<longrightarrow> vmem s3 x = g (vmem s1) x)) \<or>
    (\<exists>s3 s4. mappages r a PGSIZE q perm (set_mem g s1) = Inr (-1, s3) \<and>
      vm_kfree kend q s3 = Inr s4 \<and> (\<forall>b. did kend R r b b s s4))"
proof -
  note F = fresh_page[OF as_okD(1)[OF ok] q g]
  have "unmapped (vmem (set_mem g s1)) r a (a + PGSIZE)"
    using unmapped_page[OF a nv] F(4)[OF r] by (simp add: unmapped_def)
  then obtain ret k s3 where L: "mappages r a PGSIZE q perm (set_mem g s1) = Inr (ret, s3)" "mapped kend R r a k q perm (set_mem g s1) s3"
    "ret = 0 \<and> k = 1 \<or> ret = -1 \<and> k = 0"
    using mappages_ok[OF F(1) r a(1), of 1 q perm] TRAPFRAME_MAXVA(2)[OF a(2)] by auto
  from L(3) show ?thesis
  proof (elim disjE conjE)
    assume c: "ret = 0" "k = 1"
    note M = map_fresh_page[OF ok r a nv perm q g L(2)[unfolded c]] and Z = mapped_frame(1)[OF ok q g L(2)]
    show ?thesis using L(1) c M Z F(5) by (auto simp: did_def)
  next
    assume c: "ret = -1" "k = 0"
    have "\<exists>s4. vm_kfree kend q s3 = Inr s4 \<and> did kend R r b b s s4" for b
      using unmap_fresh_page[OF ok r q g L(2)[unfolded c]] by (auto simp: did_def)
    then show ?thesis using L(1) c by (metis sum.inject(2))
  qed
qed

lemma grow_page:
  assumes ok: "as_ok kend R s" and r: "r \<in> R" and a: "a mod PGSIZE = 0" "a + PGSIZE \<le> TRAPFRAME"
    and nv: "\<not> has (lookup (vmem s) r a) PTE_V" and perm: "flags_ok perm" and q: "vm_kalloc s = (Some q, s1)"
  shows "(\<exists>s3. mappages r a PGSIZE q perm (set_mem (memset q 0 PGSIZE) s1) = Inr (0, s3) \<and>
      did kend R r a (a + PGSIZE) s s3 \<and> (\<forall>vb. a \<le> vb \<longrightarrow> vb < a + PGSIZE \<longrightarrow> zero_page kend perm r vb s3) \<and>
      PTE2PA (lookup (vmem s3) r a) = q \<and> q \<noteq> 0) \<or>
    (\<exists>s3 s4. mappages r a PGSIZE q perm (set_mem (memset q 0 PGSIZE) s1) = Inr (-1, s3) \<and>
      vm_kfree kend q s3 = Inr s4 \<and> (\<forall>b. did kend R r b b s s4))"
  using add_page[OF ok r a nv perm q fills_memset[of q 0]]
proof (elim disjE exE conjE)
  fix s3
  assume s3: "mappages r a PGSIZE q perm (set_mem (memset q 0 PGSIZE) s1) = Inr (0, s3)" "did kend R r a (a + PGSIZE) s s3" "page kend q"
    "\<forall>vb. a \<le> vb \<longrightarrow> vb < a + PGSIZE \<longrightarrow> lookup (vmem s3) r vb = PA2PTE q OR perm OR PTE_V"
    "\<forall>x. page_of x = q \<longrightarrow> vmem s3 x = memset q 0 PGSIZE (vmem s1) x"
  have "q mod PGSIZE = 0" using s3(3) by (simp add: page_def)
  then have "\<forall>x. page_of x = q \<longrightarrow> vmem s3 x = 0" using s3(5) page_of_range by (auto simp: memset_eq)
  then have "zero_page kend perm r vb s3" if "a \<le> vb" "vb < a + PGSIZE" for vb
    using s3(3, 4) that by (auto simp: zero_page_def)
  moreover have "PTE2PA (lookup (vmem s3) r a) = q" "q \<noteq> 0"
    using s3(4)[rule_format, of a] PTE_fresh[OF s3(3) perm] s3(3) by (auto simp: PGSIZE_def page_def)
  ultimately show ?thesis using s3(1, 2) by blast
qed blast

lemma page_step: "PGSIZE dvd a \<Longrightarrow> PGSIZE dvd b \<Longrightarrow> a < b \<Longrightarrow> a + PGSIZE \<le> b"
  by (elim dvdE) (simp add: PGSIZE_def)

lemma back_out:
  assumes "as_ok kend R s" "r \<in> R" "base mod PGSIZE = 0" "a mod PGSIZE = 0" "base \<le> a" "a \<le> h" "h \<le> TRAPFRAME"
    and "unmapped (vmem s) r a h"
  shows "\<exists>s' z. uvmdealloc kend r a base s = Inr (z, s') \<and> did kend R r base h s s' \<and> unmapped (vmem s') r base h"
proof -
  obtain s' where s': "uvmdealloc kend r a base s = Inr (min a base, s')" "did kend R r base a s s'"
    "unmapped (vmem s') r base a"
    using uvmdealloc_ok[OF assms(1, 2), of a base] assms(6, 7) PGROUNDUP_id[OF assms(3)] PGROUNDUP_id[OF assms(4)] by auto
  have "unmapped (vmem s') r a h"
    using unmapped_did[OF s'(2) assms(2, 8)] TRAPFRAME_MAXVA(2)[OF assms(7)] by simp
  then show ?thesis
    using s' did_mono[OF s'(2), of base h] assms(6) unmapped_append by blast
qed

lemma uvmalloc_loop_ok:
  assumes "as_ok kend R s" "r \<in> R" "base mod PGSIZE = 0" "a mod PGSIZE = 0" "base \<le> a" "a \<le> PGROUNDUP newsz"
    and "newsz \<le> TRAPFRAME" "flags_ok xperm" "unmapped (vmem s) r a (PGROUNDUP newsz)"
  shows "\<exists>ret s'. uvmalloc_loop kend r base a newsz xperm s = Inr (ret, s') \<and>
    (ret = newsz \<and> did kend R r a (PGROUNDUP newsz) s s' \<and>
       (\<forall>vb. a \<le> vb \<longrightarrow> vb < PGROUNDUP newsz \<longrightarrow> zero_page kend (PTE_R OR PTE_U OR xperm) r vb s') \<or>
     ret = 0 \<and> did kend R r base (PGROUNDUP newsz) s s' \<and> unmapped (vmem s') r base (PGROUNDUP newsz))"
  using assms
proof (induction "PGROUNDUP newsz - a" arbitrary: a s rule: less_induct)
  case (less a s)
  let ?h = "PGROUNDUP newsz" and ?perm = "PTE_R OR PTE_U OR xperm"
  have h: "?h \<le> TRAPFRAME" by (rule PGROUNDUP_TRAPFRAME[OF less.prems(7)])
  show ?case
  proof (cases "a < newsz")
    case False
    then have "?h \<le> a" using PGROUNDUP_props(3)[of a newsz] less.prems(4) by simp
    then show ?thesis
      using False less.prems(1) by (auto simp: uvmalloc_loop.simps[of kend r base a] did_refl)
  next
    case True
    then have "a < ?h" using PGROUNDUP_props(2)[of newsz] by simp
    moreover have "PGSIZE dvd ?h" "PGSIZE dvd a" using PGROUNDUP_props(1)[of newsz] less.prems(4) by (auto simp: mod_eq_0_iff_dvd)
    ultimately have ah: "a + PGSIZE \<le> ?h" by (intro page_step)
    have nv: "\<not> has (lookup (vmem s) r a) PTE_V" using less.prems(9) ah by (auto simp: unmapped_def PGSIZE_def)
    have perm: "flags_ok ?perm" using less.prems(8) by simp
    have aT: "a + PGSIZE \<le> TRAPFRAME" using ah h by simp
    note unf = uvmalloc_loop.simps[of kend r base a newsz xperm s]
    show ?thesis
    proof (cases "vm_kalloc s")
      case (Pair res s1)
      show ?thesis
      proof (cases res)
        case None
        then have "s1 = s" using vm_kalloc_None[OF as_okD(1)[OF less.prems(1)]] Pair by auto
        then show ?thesis
          using back_out[OF less.prems(1-6) h less.prems(9)] True Pair None unf by fastforce
      next
        case (Some q)
        from grow_page[OF less.prems(1, 2, 4) aT nv perm Pair[unfolded Some]] show ?thesis
        proof (elim disjE exE conjE)
          fix s3
          assume m: "mappages r a PGSIZE q ?perm (set_mem (memset q 0 PGSIZE) s1) = Inr (0, s3)"
            and d: "did kend R r a (a + PGSIZE) s s3" and z: "\<forall>vb. a \<le> vb \<longrightarrow> vb < a + PGSIZE \<longrightarrow> zero_page kend ?perm r vb s3"
          have u3: "unmapped (vmem s3) r (a + PGSIZE) ?h"
            using unmapped_did[OF d less.prems(2), of "a + PGSIZE" ?h] less.prems(9) TRAPFRAME_MAXVA(2)[OF h]
            by (auto simp: unmapped_def)
          have rec: "uvmalloc_loop kend r base a newsz xperm s = uvmalloc_loop kend r base (a + PGSIZE) newsz xperm s3"
            using True Pair Some m unf by simp
          have "as_ok kend R s3" using d by (simp add: did_def)
          moreover have "?h - (a + PGSIZE) < ?h - a" using ah by (simp add: PGSIZE_def)
          moreover have "(a + PGSIZE) mod PGSIZE = 0" using less.prems(4) by simp
          ultimately obtain ret s' where L: "uvmalloc_loop kend r base (a + PGSIZE) newsz xperm s3 = Inr (ret, s')" and
            c: "ret = newsz \<and> did kend R r (a + PGSIZE) ?h s3 s' \<and>
                (\<forall>vb. a + PGSIZE \<le> vb \<longrightarrow> vb < ?h \<longrightarrow> zero_page kend ?perm r vb s') \<or>
              ret = 0 \<and> did kend R r base ?h s3 s' \<and> unmapped (vmem s') r base ?h"
            using less.hyps[of "a + PGSIZE" s3] less.prems(2, 3, 5, 7, 8) ah u3 by auto
          from c show ?thesis
          proof (elim disjE conjE)
            assume s': "ret = newsz" "did kend R r (a + PGSIZE) ?h s3 s'"
              "\<forall>vb. a + PGSIZE \<le> vb \<longrightarrow> vb < ?h \<longrightarrow> zero_page kend ?perm r vb s'"
            have "zero_page kend ?perm r vb s'" if "a \<le> vb" "vb < ?h" for vb
            proof (cases "vb < a + PGSIZE")
              case True
              then show ?thesis using zero_page_did[OF s'(2) less.prems(2) _ perm, of vb] z that h by simp
            qed (use s'(3) that in simp)
            moreover have "did kend R r a ?h s s'" using did_trans[OF did_mono[OF d, of a ?h] did_mono[OF s'(2), of a ?h]] ah by simp
            ultimately show ?thesis using rec L s'(1) by auto
          next
            assume s': "ret = 0" "did kend R r base ?h s3 s'" "unmapped (vmem s') r base ?h"
            have "did kend R r base ?h s s'" using did_trans[OF did_mono[OF d, of base ?h] s'(2)] ah less.prems(5) by simp
            then show ?thesis using rec L s' by auto
          qed
        next
          fix s3 s4
          assume m: "mappages r a PGSIZE q ?perm (set_mem (memset q 0 PGSIZE) s1) = Inr (-1, s3)" "vm_kfree kend q s3 = Inr s4"
            and d: "\<forall>b. did kend R r b b s s4"
          have "as_ok kend R s4" using d by (simp add: did_def)
          moreover have "unmapped (vmem s4) r a ?h"
            using unmapped_did[OF d[rule_format, of a] less.prems(2, 9)] TRAPFRAME_MAXVA(2)[OF h] by simp
          ultimately obtain s' z where s': "uvmdealloc kend r a base s4 = Inr (z, s')" "did kend R r base ?h s4 s'" "unmapped (vmem s') r base ?h"
            using back_out[OF _ less.prems(2-6) h] by blast
          have "did kend R r base ?h s s'"
            using did_trans[OF did_mono[OF d[rule_format, of base], of base ?h] s'(2)] less.prems(5, 6) by simp
          then show ?thesis using True Pair Some m s' unf by auto
        qed
      qed
    qed
  qed
qed

lemma uvmalloc_ok:
  assumes "as_ok kend R s" "r \<in> R" "oldsz \<le> newsz" "newsz \<le> TRAPFRAME" "flags_ok xperm"
    and "unmapped (vmem s) r (PGROUNDUP oldsz) (PGROUNDUP newsz)"
  shows "\<exists>ret s'. uvmalloc kend r oldsz newsz xperm s = Inr (ret, s') \<and>
    did kend R r (PGROUNDUP oldsz) (PGROUNDUP newsz) s s' \<and>
    (ret = newsz \<and> (\<forall>vb. PGROUNDUP oldsz \<le> vb \<longrightarrow> vb < PGROUNDUP newsz \<longrightarrow> zero_page kend (PTE_R OR PTE_U OR xperm) r vb s') \<or>
     ret = 0 \<and> unmapped (vmem s') r (PGROUNDUP oldsz) (PGROUNDUP newsz))"
  using uvmalloc_loop_ok[OF assms(1, 2) PGROUNDUP_props(1)[of oldsz] PGROUNDUP_props(1)[of oldsz] order_refl PGROUNDUP_mono[OF assms(3)] assms(4, 5, 6)]
    assms(3) by (auto simp: uvmalloc_def)

lemma ismapped_lookup:
  "vm_ok kend R s \<Longrightarrow> r \<in> R \<Longrightarrow> va < MAXVA \<Longrightarrow> ismapped r va s = Inr (has (lookup (vmem s) r va) PTE_V)"
  using walk_find[of kend R s r va]
  by (cases "tab (vmem s) r (leaf_path va)") (auto simp: ismapped_def walk_def lookup_def ent_def)

lemma vmfault_ok:
  assumes "as_ok kend R s" "r \<in> R" "sz \<le> TRAPFRAME"
  shows "\<exists>pa s'. vmfault kend sz r r va s = Inr (pa, s') \<and> did kend R r (PGROUNDDOWN va) (PGROUNDDOWN va + PGSIZE) s s' \<and>
    (pa = 0 \<and> did kend R r 0 0 s s' \<or>
     pa \<noteq> 0 \<and> va < sz \<and> \<not> has (lookup (vmem s) r va) PTE_V \<and> PTE2PA (lookup (vmem s') r va) = pa \<and>
       zero_page kend (PTE_W OR PTE_U OR PTE_R) r va s')"
proof (cases "va < sz \<and> \<not> has (lookup (vmem s) r (PGROUNDDOWN va)) PTE_V")
  case False
  have "PGROUNDDOWN va < MAXVA" if "va < sz"
    using that assms(3) by (simp add: PGROUNDDOWN_def TRAPFRAME_def TRAMPOLINE_def PGSIZE_def)
  then have "vmfault kend sz r r va s = Inr (0, s)"
    using False ismapped_lookup[OF as_okD(1)[OF assms(1)] assms(2), of "PGROUNDDOWN va"] by (auto simp: vmfault_def)
  then show ?thesis using did_refl[OF assms(1)] by auto
next
  case True
  let ?a = "PGROUNDDOWN va" and ?perm = "PTE_W OR PTE_U OR PTE_R"
  have a: "?a mod PGSIZE = 0" "?a \<le> va" "va < ?a + PGSIZE" by (auto simp: PGROUNDDOWN_def PGSIZE_def)
  have "PGSIZE dvd ?a" "PGSIZE dvd TRAPFRAME" "?a < TRAPFRAME"
    using a(1, 2) True assms(3) by (auto simp: TRAPFRAME_def TRAMPOLINE_def MAXVA_def PGSIZE_def)
  then have aT: "?a + PGSIZE \<le> TRAPFRAME" by (rule page_step)
  have aM: "?a < MAXVA" using aT by (simp add: TRAPFRAME_def TRAMPOLINE_def PGSIZE_def)
  have nv: "\<not> has (lookup (vmem s) r ?a) PTE_V" using True by simp
  have sp: "same_page va ?a" using same_page_range[OF a(1)] a(2, 3) by simp
  have vM: "va < MAXVA" using True assms(3) TRAPFRAME_MAXVA(1)[of va] by simp
  have unf: "vmfault kend sz r r va s = (case vm_kalloc s of (None, s) \<Rightarrow> Inr (0, s)
     | (Some p, s) \<Rightarrow> rbind (mappages r ?a PGSIZE p ?perm (set_mem (memset p 0 PGSIZE) s)) (\<lambda>(x, s).
         if x \<noteq> 0 then rbind (vm_kfree kend p s) (\<lambda>s. Inr (0, s)) else Inr (p, s)))"
    using True ismapped_lookup[OF as_okD(1)[OF assms(1)] assms(2) aM] by (simp add: vmfault_def Let_def)
  show ?thesis
  proof (cases "vm_kalloc s")
    case (Pair res s1)
    show ?thesis
    proof (cases res)
      case None
      then show ?thesis using vm_kalloc_None[OF as_okD(1)[OF assms(1)]] Pair did_refl[OF assms(1)] unf by auto
    next
      case (Some q)
      have perm: "flags_ok ?perm" by simp
      from grow_page[OF assms(1, 2) a(1) aT nv perm Pair[unfolded Some]] show ?thesis
      proof (elim disjE exE conjE)
        fix s3
        assume m: "mappages r ?a PGSIZE q ?perm (set_mem (memset q 0 PGSIZE) s1) = Inr (0, s3)"
          "did kend R r ?a (?a + PGSIZE) s s3" "\<forall>vb. ?a \<le> vb \<longrightarrow> vb < ?a + PGSIZE \<longrightarrow> zero_page kend ?perm r vb s3"
          "PTE2PA (lookup (vmem s3) r ?a) = q" "q \<noteq> 0"
        then show ?thesis
          using unf Pair Some True a lookup_same_page[OF vM aM sp] by auto
      next
        fix s3 s4
        assume "mappages r ?a PGSIZE q ?perm (set_mem (memset q 0 PGSIZE) s1) = Inr (-1, s3)"
          "vm_kfree kend q s3 = Inr s4" and d: "\<forall>b. did kend R r b b s s4"
        moreover have "did kend R r ?a (?a + PGSIZE) s s4" using did_mono[OF d[rule_format, of ?a]] by simp
        ultimately show ?thesis using unf Pair Some by auto
      qed
    qed
  qed
qed

lemma create_ok:
  assumes ok: "as_ok kend R s" and c: "uvmcreate s = (Some r, s')"
  shows "as_ok kend (insert r R) s'" "owned (insert r R) s' = owned R s" "r \<notin> R" "lookup (vmem s') r va = 0"
    "r' \<in> R \<Longrightarrow> lookup (vmem s') r' va = lookup (vmem s) r' va" "page_of x \<in> user_pages (vmem s) R \<Longrightarrow> vmem s' x = vmem s x"
proof -
  obtain s1 where s1: "vm_kalloc s = (Some r, s1)" "s' = set_mem (memset r 0 PGSIZE) s1"
    using c by (auto simp: uvmcreate_def split: prod.splits option.splits)
  note F = fresh_page[OF as_okD(1)[OF ok] s1(1) fills_memset[of r 0], folded s1(2)]
  have RT: "R \<subseteq> tables (vmem s) R" using tablesI[of _ R "[]"] by auto
  then show rR: "r \<notin> R" using F(7) by auto
  have e: "ent (vmem s') r j = 0" if "j < 512" for j using ent_memset_0[OF that] by (simp add: s1(2) set_mem_def)
  have t: "tab (vmem s') r xs = (if xs = [] then Some r else None)" if "path xs" for xs
    using that by (induction xs) (auto simp: path_Cons e)
  have T: "tables (vmem s') (insert r R) = insert r (tables (vmem s) R)"
  proof -
    have "tables (vmem s') (insert r R) = {p. \<exists>xs. path xs \<and> tab (vmem s') r xs = Some p} \<union> tables (vmem s') R"
      by (auto simp: tables_def)
    also have "{p. \<exists>xs. path xs \<and> tab (vmem s') r xs = Some p} = {r}" using t by (auto split: if_splits intro: exI[of _ "[]"])
    finally show ?thesis using F(2) by simp
  qed
  show "vmem s' x = vmem s x" if "page_of x \<in> user_pages (vmem s) R"
    using that F(6) F(9)[of x] as_okD(3)[OF ok that] by auto
  show l: "lookup (vmem s') r va = 0" for va
    using t[OF path_leaf(1)[of va]] by (simp add: lookup_def leaf_path_def)
  show l': "lookup (vmem s') r' va = lookup (vmem s) r' va" if "r' \<in> R" for r' va by (rule F(4)[OF that])
  have U: "user_pages (vmem s') (insert r R) = user_pages (vmem s) R"
  proof (intro set_eqI iffI)
    fix p assume "p \<in> user_pages (vmem s') (insert r R)"
    then obtain r' va where "p = PTE2PA (lookup (vmem s') r' va)" "r' \<in> insert r R" "va < TRAPFRAME" "has (lookup (vmem s') r' va) PTE_V"
      by (auto simp: user_pages_def)
    then show "p \<in> user_pages (vmem s) R" using l l' user_pagesI[of r' R va "vmem s"] by (cases "r' = r") auto
  next
    fix p assume "p \<in> user_pages (vmem s) R"
    then obtain r' va where "p = PTE2PA (lookup (vmem s) r' va)" "r' \<in> R" "va < TRAPFRAME" "has (lookup (vmem s) r' va) PTE_V"
      by (auto simp: user_pages_def)
    then show "p \<in> user_pages (vmem s') (insert r R)" using l' user_pagesI[of r' "insert r R" va "vmem s'"] by simp
  qed
  have "r \<notin> user_pages (vmem s) R" using F(6) as_okD(3)[OF ok] by auto
  have vm: "vm_ok kend (insert r R) s'"
    unfolding vm_ok_def T
  proof (intro conjI ballI allI impI)
    show "kmem_ok kend (km s')" by (rule vm_okD(1)[OF F(1)])
    show "page kend p" "p \<notin> pages_of (km s')" if "p \<in> insert r (tables (vmem s) R)" for p
      using that F(2, 3, 5) vm_okD(2, 3)[OF F(1), of p] by auto
    fix a b xs ys p
    assume h: "a \<in> insert r R" "b \<in> insert r R" "path xs" "path ys" "tab (vmem s') a xs = Some p" "tab (vmem s') b ys = Some p"
    have "r \<notin> tables (vmem s') R" using F(2, 7) by simp
    then show "a = b" "xs = ys"
      using h vm_okD(4)[OF F(1) _ _ h(3, 4)] t[OF h(3)] t[OF h(4)] tablesI[of a R xs "vmem s'" p] tablesI[of b R ys "vmem s'" p]
      by (auto split: if_splits)
  next
    fix p j
    assume h: "p \<in> upper (vmem s') (insert r R)" "j < 512" "has (ent (vmem s') p j) PTE_V"
    then have "p = r \<or> p \<in> upper (vmem s') R" using t by (auto simp: upper_def split: if_splits)
    then show "\<not> has (ent (vmem s') p j) (PTE_R OR PTE_W OR PTE_X)" using h(2, 3) e vm_okD(5)[OF F(1), of p j] by auto
  next
    fix t j
    assume "t \<in> insert r R" "256 \<le> j" "j < (512::nat)"
    then show "\<not> has (ent (vmem s') t j) PTE_V" using e[of j] vm_okD(6)[OF F(1), of t j] by auto
  qed
  show "as_ok kend (insert r R) s'"
    unfolding as_ok_def U T
  proof (intro conjI ballI allI impI)
    show "page kend p" "p \<notin> pages_of (km s')" "p \<notin> insert r (tables (vmem s) R)" if "p \<in> user_pages (vmem s) R" for p
      using that as_okD(2-4)[OF ok that] F(3) \<open>r \<notin> user_pages (vmem s) R\<close> by auto
    show "a = b" "same_page va vb" if "a \<in> insert r R" "b \<in> insert r R" "va < TRAPFRAME" "vb < TRAPFRAME"
      "has (lookup (vmem s') a va) PTE_V" "has (lookup (vmem s') b vb) PTE_V"
      "PTE2PA (lookup (vmem s') a va) = PTE2PA (lookup (vmem s') b vb)" for a b va vb
      using that as_okD(5)[OF ok _ _ that(3, 4), of a b] l l' by auto
  qed (rule vm)
  show "owned (insert r R) s' = owned R s" unfolding owned_def U T using F(3, 6) by auto
qed

end
