(* ===== verification/Vm_Copy.thy ===== *)
theory Vm_Copy
  imports Vm_User
begin

unbundle bit_operations_syntax

text \<open>
  Copies between the kernel and user memory, and from the memory of a process to that of its child.
  The kernel's side of a copy is a list of bytes. User memory is a function from addresses to
  bytes: memory that is not there yet, because it was requested lazily, reads as zero.
\<close>

section \<open>Definitions\<close>

lemma in_page: "va - PGROUNDDOWN va < PGSIZE" "PGROUNDDOWN va \<le> va" "PGROUNDDOWN va mod PGSIZE = 0" "va - PGROUNDDOWN va = va mod PGSIZE"
  by (simp_all add: PGROUNDDOWN_def PGSIZE_def minus_div_mult_eq_mod)

lemma chunk_less: "0 < l \<Longrightarrow> l - min (PGSIZE - va mod PGSIZE) l < l"
  by (simp add: PGSIZE_def)

definition store_bytes :: "nat \<Rightarrow> byte list \<Rightarrow> mem \<Rightarrow> mem" where
  "store_bytes a bs m = (\<lambda>x. if a \<le> x \<and> x < a + length bs then bs ! (x - a) else m x)"

definition load_bytes :: "mem \<Rightarrow> nat \<Rightarrow> nat \<Rightarrow> byte list" where
  "load_bytes m a n = map (\<lambda>k. m (a + k)) [0..<n]"

text \<open>\<open>sz\<close> and \<open>ppt\<close> are the size and the page table of the calling process, for \<^verbatim>\<open>vmfault\<close>.\<close>

function copyout :: "nat \<Rightarrow> nat \<Rightarrow> nat \<Rightarrow> nat \<Rightarrow> nat \<Rightarrow> byte list \<Rightarrow> vm \<Rightarrow> fault + (int \<times> vm)" where
  "copyout kend sz ppt pagetable dstva src s =
    (if src = [] then Inr (0, s)
     else let va0 = PGROUNDDOWN dstva in
     if va0 \<ge> MAXVA then Inr (-1, s)
     else let pa0 = walkaddr pagetable va0 s in
     rbind (if pa0 = 0 then vmfault kend sz ppt pagetable va0 s else Inr (pa0, s)) (\<lambda>(pa0, s).
     if pa0 = 0 then Inr (-1, s)
     else rbind (walk pagetable va0 False s) (\<lambda>(pte, s). case pte of
         None \<Rightarrow> Inl NullDeref
       | Some a \<Rightarrow>
           if \<not> has (rd64 (vmem s) a) PTE_W then Inr (-1, s)
           else let n = min (PGSIZE - (dstva - va0)) (length src) in
             copyout kend sz ppt pagetable (va0 + PGSIZE) (drop n src)
               (set_mem (store_bytes (pa0 + (dstva - va0)) (take n src)) s))))"
  by pat_completeness auto
termination
  by (relation "measure (\<lambda>(kend, sz, ppt, pagetable, dstva, src, s). length src)") (auto simp: in_page chunk_less)

declare copyout.simps [simp del]

function copyin :: "nat \<Rightarrow> nat \<Rightarrow> nat \<Rightarrow> nat \<Rightarrow> nat \<Rightarrow> nat \<Rightarrow> vm \<Rightarrow> fault + (int \<times> byte list \<times> vm)" where
  "copyin kend sz ppt pagetable srcva len s =
    (if len = 0 then Inr (0, [], s)
     else let va0 = PGROUNDDOWN srcva; pa0 = walkaddr pagetable va0 s in
     rbind (if pa0 = 0 then vmfault kend sz ppt pagetable va0 s else Inr (pa0, s)) (\<lambda>(pa0, s).
     if pa0 = 0 then Inr (-1, [], s)
     else let n = min (PGSIZE - (srcva - va0)) len in
       rbind (copyin kend sz ppt pagetable (va0 + PGSIZE) (len - n) s) (\<lambda>(r, bs, s').
         Inr (r, load_bytes (vmem s) (pa0 + (srcva - va0)) n @ bs, s'))))"
  by pat_completeness auto
termination
  by (relation "measure (\<lambda>(kend, sz, ppt, pagetable, srcva, len, s). len)") (auto simp: in_page chunk_less)

declare copyin.simps [simp del]

text \<open>The inner loop of \<^verbatim>\<open>copyinstr\<close> stops behind the first zero; the flag says whether it found one.\<close>

primrec copy_until :: "nat \<Rightarrow> nat \<Rightarrow> mem \<Rightarrow> byte list \<times> bool" where
  "copy_until 0 p m = ([], False)"
| "copy_until (Suc n) p m =
    (if m p = 0 then ([0], True) else let (bs, z) = copy_until n (Suc p) m in (m p # bs, z))"

function copyinstr :: "nat \<Rightarrow> nat \<Rightarrow> nat \<Rightarrow> vm \<Rightarrow> int \<times> byte list" where
  "copyinstr pagetable srcva maxlen s =
    (if maxlen = 0 then (-1, [])
     else let va0 = PGROUNDDOWN srcva; pa0 = walkaddr pagetable va0 s in
     if pa0 = 0 then (-1, [])
     else let n = min (PGSIZE - (srcva - va0)) maxlen; (bs, z) = copy_until n (pa0 + (srcva - va0)) (vmem s) in
       if z then (0, bs)
       else let (r, cs) = copyinstr pagetable (va0 + PGSIZE) (maxlen - n) s in (r, bs @ cs))"
  by pat_completeness auto
termination
  by (relation "measure (\<lambda>(pagetable, srcva, maxlen, s). maxlen)") (auto simp: in_page chunk_less)

declare copyinstr.simps [simp del]

primrec uvmcopy_loop :: "nat \<Rightarrow> nat \<Rightarrow> nat \<Rightarrow> nat \<Rightarrow> nat \<Rightarrow> vm \<Rightarrow> fault + (int \<times> nat \<times> vm)" where
  "uvmcopy_loop kend old new 0 = (\<lambda>i s. Inr (0, i, s))"
| "uvmcopy_loop kend old new (Suc n) = (\<lambda>i s.
    rbind (walk old i False s) (\<lambda>(r, s).
      case r of None \<Rightarrow> uvmcopy_loop kend old new n (i + PGSIZE) s
      | Some a \<Rightarrow>
          let pte = rd64 (vmem s) a in
          if \<not> has pte PTE_V then uvmcopy_loop kend old new n (i + PGSIZE) s
          else case vm_kalloc s of
            (None, s) \<Rightarrow> Inr (-1, i, s)
          | (Some q, s) \<Rightarrow>
              rbind (mappages new i PGSIZE q (PTE_FLAGS pte) (set_mem (memmove q (PTE2PA pte) PGSIZE) s)) (\<lambda>(ret, s).
                if ret \<noteq> 0 then rbind (vm_kfree kend q s) (\<lambda>s. Inr (-1, i, s))
                else uvmcopy_loop kend old new n (i + PGSIZE) s)))"

definition uvmcopy :: "nat \<Rightarrow> nat \<Rightarrow> nat \<Rightarrow> nat \<Rightarrow> vm \<Rightarrow> fault + (int \<times> vm)" where
  "uvmcopy kend old new sz s =
    rbind (uvmcopy_loop kend old new (PGROUNDUP sz div PGSIZE) 0 s) (\<lambda>(ret, i, s).
      if ret = 0 then Inr (0, s)
      else rbind (uvmunmap kend new 0 (i div PGSIZE) True s) (\<lambda>s. Inr (-1, s)))"

section \<open>User memory\<close>

definition ubyte :: "vm \<Rightarrow> nat \<Rightarrow> nat \<Rightarrow> byte" where
  "ubyte s r va = (if has (lookup (vmem s) r va) PTE_V then vmem s (PTE2PA (lookup (vmem s) r va) + va mod PGSIZE) else 0)"

lemma page_of_add: "q mod PGSIZE = 0 \<Longrightarrow> page_of (q + vb mod PGSIZE) = q"
proof -
  assume "q mod PGSIZE = 0"
  then obtain c where "q = PGSIZE * c" by auto
  then show ?thesis by (simp add: page_of_def PGSIZE_def)
qed

lemma user_page:
  assumes "as_ok kend R s" "r \<in> R" "va < TRAPFRAME" "has (lookup (vmem s) r va) PTE_V"
  shows "page kend (PTE2PA (lookup (vmem s) r va))" "PTE2PA (lookup (vmem s) r va) mod PGSIZE = 0"
    "page_of (PTE2PA (lookup (vmem s) r va) + vb mod PGSIZE) = PTE2PA (lookup (vmem s) r va)"
proof -
  show p: "page kend (PTE2PA (lookup (vmem s) r va))" by (rule as_okD(2)[OF assms(1) user_pagesI[OF assms(2-4)]])
  then show m: "PTE2PA (lookup (vmem s) r va) mod PGSIZE = 0" by (simp add: page_def)
  show "page_of (PTE2PA (lookup (vmem s) r va) + vb mod PGSIZE) = PTE2PA (lookup (vmem s) r va)"
    by (rule page_of_add[OF m])
qed

lemma did_ubyte:
  assumes "as_ok kend R s" "did kend R r lo hi s s'" "r' \<in> R" "va < TRAPFRAME" "\<not> (r' = r \<and> lo \<le> va \<and> va < hi)"
  shows "ubyte s' r' va = ubyte s r' va"
proof -
  have k: "keeps R r lo hi s s'" using assms(2) by (simp add: did_def)
  show ?thesis
    using k assms(3-5) TRAPFRAME_MAXVA(1)[OF assms(4)] user_page(3)[OF assms(1, 3, 4), of va]
    unfolding keeps_def ubyte_def by metis
qed

text \<open>Mappings are only added, and only below the size, where there was none.\<close>

definition lazily :: "nat \<Rightarrow> nat set \<Rightarrow> nat \<Rightarrow> vm \<Rightarrow> vm \<Rightarrow> bool" where
  "lazily sz R r s s' \<longleftrightarrow> (\<forall>r' \<in> R. \<forall>va < MAXVA. lookup (vmem s') r' va = lookup (vmem s) r' va \<or>
    r' = r \<and> va < PGROUNDUP sz \<and> \<not> has (lookup (vmem s) r va) PTE_V)"

lemma lazily_refl: "lazily sz R r s s"
  by (simp add: lazily_def)

lemma lazily_trans: "lazily sz R r s s1 \<Longrightarrow> lazily sz R r s1 s2 \<Longrightarrow> lazily sz R r s s2"
  unfolding lazily_def by metis

text \<open>What the user can read; nothing from the trap frame on.\<close>

definition readable :: "mem \<Rightarrow> nat \<Rightarrow> nat \<Rightarrow> bool" where
  "readable m r va \<longleftrightarrow> has (lookup m r va) PTE_V \<and> has (lookup m r va) PTE_U"

definition top_ok :: "mem \<Rightarrow> nat \<Rightarrow> bool" where
  "top_ok m r \<longleftrightarrow> (\<forall>va. TRAPFRAME \<le> va \<longrightarrow> va < MAXVA \<longrightarrow> \<not> readable m r va)"

lemma lazily_top:
  assumes "lazily sz R r s s'" "r' \<in> R" "top_ok (vmem s) r'" "sz \<le> TRAPFRAME"
  shows "top_ok (vmem s') r'"
  using assms PGROUNDUP_TRAPFRAME[OF assms(4)] unfolding lazily_def top_ok_def readable_def by (metis leD order_trans)

lemma lazily_unmapped:
  assumes "lazily sz R r s s'" "r' \<in> R" "unmapped (vmem s) r' a b" "b \<le> MAXVA" "r' = r \<Longrightarrow> PGROUNDUP sz \<le> a"
  shows "unmapped (vmem s') r' a b"
  using assms unfolding lazily_def unmapped_def by (metis leD order.strict_trans2 order_trans)

text \<open>A page fault does not change what the memory reads.\<close>

lemma page_end_below: "va < sz \<Longrightarrow> PGROUNDDOWN va + PGSIZE \<le> PGROUNDUP sz"
  using PGROUNDUP_props(1, 2)[of sz] by (intro page_step) (auto simp: PGROUNDDOWN_def PGSIZE_def mod_eq_0_iff_dvd)

lemma same_page_down: "same_page vb va \<longleftrightarrow> PGROUNDDOWN va \<le> vb \<and> vb < PGROUNDDOWN va + PGSIZE"
proof -
  have "PGROUNDDOWN va div PGSIZE = va div PGSIZE" by (simp add: PGROUNDDOWN_def)
  then show ?thesis using same_page_range[OF in_page(3)[of va], of vb] by (simp add: same_page_def)
qed

definition writable :: "mem \<Rightarrow> nat \<Rightarrow> nat \<Rightarrow> bool" where
  "writable m r va \<longleftrightarrow> readable m r va \<and> has (lookup m r va) PTE_W"

lemma hasI: "bit w n \<Longrightarrow> bit f n \<Longrightarrow> has w f"
  unfolding has_def by (metis bit_0_eq bit_and_iff bot_apply bot_bool_def)

lemma has_perm: "has (w OR (PTE_W OR PTE_U OR PTE_R) OR PTE_V) PTE_U" "has (w OR (PTE_W OR PTE_U OR PTE_R) OR PTE_V) PTE_W"
  by (rule hasI[of _ 4] hasI[of _ 2]; simp add: bit_or_iff PTE_W_def PTE_U_def)+

text \<open>What a copy may do besides changing bytes of user memory.\<close>

definition served :: "nat \<Rightarrow> nat \<Rightarrow> nat set \<Rightarrow> nat \<Rightarrow> vm \<Rightarrow> vm \<Rightarrow> bool" where
  "served kend sz R r s s' \<longleftrightarrow> as_ok kend R s' \<and> owned R s' = owned R s \<and> lazily sz R r s s'"

lemma served_refl: "as_ok kend R s \<Longrightarrow> served kend sz R r s s"
  by (simp add: served_def lazily_refl)

lemma served_trans: "served kend sz R r s s1 \<Longrightarrow> served kend sz R r s1 s2 \<Longrightarrow> served kend sz R r s s2"
  unfolding served_def using lazily_trans[of sz R r s s1 s2] by simp

definition same_user :: "nat set \<Rightarrow> vm \<Rightarrow> vm \<Rightarrow> bool" where
  "same_user R s s' \<longleftrightarrow> (\<forall>r' \<in> R. \<forall>vb < TRAPFRAME. ubyte s' r' vb = ubyte s r' vb)"

lemma vmfault_memory:
  assumes ok: "as_ok kend R s" and r: "r \<in> R" and sz: "sz \<le> TRAPFRAME"
  shows "\<exists>pa s'. vmfault kend sz r r va s = Inr (pa, s') \<and> served kend sz R r s s' \<and> same_user R s s' \<and>
    (pa \<noteq> 0 \<longrightarrow> va < sz \<and> writable (vmem s') r va \<and> PTE2PA (lookup (vmem s') r va) = pa)"
proof -
  let ?a = "PGROUNDDOWN va" and ?perm = "PTE_W OR PTE_U OR PTE_R"
  obtain pa s' where F: "vmfault kend sz r r va s = Inr (pa, s')" "did kend R r ?a (?a + PGSIZE) s s'"
    "pa = 0 \<and> did kend R r 0 0 s s' \<or> pa \<noteq> 0 \<and> va < sz \<and> \<not> has (lookup (vmem s) r va) PTE_V \<and>
      PTE2PA (lookup (vmem s') r va) = pa \<and> zero_page kend ?perm r va s'"
    using vmfault_ok[OF assms, of va] by blast
  have d: "as_ok kend R s'" "owned R s' = owned R s" using F(2) by (auto simp: did_def)
  show ?thesis
  proof (cases "pa = 0")
    case True
    then have d0: "did kend R r 0 0 s s'" using F(3) by simp
    have "lazily sz R r s s'" using did_lookup[OF d0] by (auto simp: lazily_def)
    then show ?thesis using F(1) d True did_ubyte[OF ok d0] by (auto simp: served_def same_user_def)
  next
    case False
    then have P: "va < sz" "\<not> has (lookup (vmem s) r va) PTE_V" "PTE2PA (lookup (vmem s') r va) = pa" "zero_page kend ?perm r va s'"
      using F(3) by auto
    have aM: "va < MAXVA" using P(1) sz TRAPFRAME_MAXVA(1)[of va] by simp
    obtain q where q: "page kend q" "lookup (vmem s') r va = PA2PTE q OR ?perm OR PTE_V" "\<forall>x. page_of x = q \<longrightarrow> vmem s' x = 0"
      using P(4) by (auto simp: zero_page_def)
    have v: "has (lookup (vmem s') r va) PTE_V" unfolding q(2) by (rule has_V_or(2))
    have top: "?a + PGSIZE \<le> PGROUNDUP sz" by (rule page_end_below[OF P(1)])
    have inside: "lookup (vmem s) r vb = lookup (vmem s) r va" "lookup (vmem s') r vb = lookup (vmem s') r va" "vb < PGROUNDUP sz"
      if "?a \<le> vb" "vb < ?a + PGSIZE" for vb
    proof -
      have "same_page vb va" using that by (simp add: same_page_down)
      moreover have "vb < MAXVA" using that top PGROUNDUP_TRAPFRAME[OF sz] by (intro TRAPFRAME_MAXVA(1)) simp
      ultimately show "lookup (vmem s) r vb = lookup (vmem s) r va" "lookup (vmem s') r vb = lookup (vmem s') r va"
        using lookup_same_page aM by blast+
      show "vb < PGROUNDUP sz" using that(2) top by simp
    qed
    have "lazily sz R r s s'"
      unfolding lazily_def using did_lookup[OF F(2)] inside(1, 3) P(2) by metis
    moreover have "ubyte s' r' vb = ubyte s r' vb" if "r' \<in> R" "vb < TRAPFRAME" for r' vb
    proof (cases "r' = r \<and> ?a \<le> vb \<and> vb < ?a + PGSIZE")
      case True
      then have l: "lookup (vmem s) r vb = lookup (vmem s) r va" "lookup (vmem s') r vb = lookup (vmem s') r va" using inside by auto
      have "PTE2PA (lookup (vmem s') r vb) = q" unfolding l(2) q(2) using PTE_fresh[OF q(1), of ?perm] by simp
      then have "ubyte s' r vb = 0"
        using user_page(3)[OF d(1) r that(2), of vb] v l(2) q(3) by (simp add: ubyte_def)
      then show ?thesis using True P(2) l(1) by (simp add: ubyte_def)
    qed (rule did_ubyte[OF ok F(2) that])
    ultimately have "served kend sz R r s s'" "same_user R s s'" using d by (auto simp: served_def same_user_def)
    moreover have "writable (vmem s') r va" using v has_perm[of "PA2PTE q"] by (simp add: writable_def readable_def q(2))
    ultimately show ?thesis using F(1) P by blast
  qed
qed


section \<open>Copies between kernel and user memory\<close>

lemma only_page_store: "off + length bs \<le> PGSIZE \<Longrightarrow> only_page q m (store_bytes (q + off) bs m)"
  by (auto simp: only_page_def store_bytes_def)

lemma store_user:
  assumes ok: "as_ok kend R s" and r: "r \<in> R" and va: "va < TRAPFRAME" and v: "has (lookup (vmem s) r va) PTE_V"
    and bs: "va mod PGSIZE + length bs \<le> PGSIZE"
  defines "s' \<equiv> set_mem (store_bytes (PTE2PA (lookup (vmem s) r va) + va mod PGSIZE) bs) s"
  shows "served kend sz R r s s'" "r' \<in> R \<Longrightarrow> lookup (vmem s') r' vb = lookup (vmem s) r' vb"
    "r' \<in> R \<Longrightarrow> vb < TRAPFRAME \<Longrightarrow>
      ubyte s' r' vb = (if r' = r \<and> va \<le> vb \<and> vb < va + length bs then bs ! (vb - va) else ubyte s r' vb)"
proof -
  let ?q = "PTE2PA (lookup (vmem s) r va)"
  have q: "page kend ?q" "?q \<notin> tables (vmem s) R" "?q mod PGSIZE = 0"
    using as_okD(2, 4)[OF ok user_pagesI[OF r va v]] user_page(2)[OF ok r va v] by auto
  have m: "only_page ?q (vmem s) (vmem s')" by (simp add: s'_def set_mem_def only_page_store[OF bs])
  have s': "s' = s\<lparr>km := km s, vmem := vmem s'\<rparr>" by (simp add: s'_def set_mem_def)
  have k: "kmem_ok kend (km s)" "pages_of (km s) \<inter> tables (vmem s) R = {}"
    using vm_okD(1, 3)[OF as_okD(1)[OF ok]] by auto
  note F = vm_ok_only_page[OF as_okD(1)[OF ok] q(1, 2) m k]
  show l: "lookup (vmem s') r' vb = lookup (vmem s) r' vb" if "r' \<in> R" for r' vb by (rule F(3)[OF that])
  have vm: "vm_ok kend R s'" using F(1) s' by simp
  have ks: "km s' = km s" by (simp add: s'_def set_mem_def)
  have A: "as_ok kend R s'" "user_pages (vmem s') R = user_pages (vmem s) R"
    using as_ok_same_lookup[OF ok vm l] as_okD(3, 4)[OF ok] F(2) ks by auto
  show "served kend sz R r s s'" using A F(2) l ks by (simp add: served_def owned_def lazily_def)
  show "ubyte s' r' vb = (if r' = r \<and> va \<le> vb \<and> vb < va + length bs then bs ! (vb - va) else ubyte s r' vb)"
    if "r' \<in> R" "vb < TRAPFRAME"
  proof (cases "has (lookup (vmem s) r' vb) PTE_V \<and> PTE2PA (lookup (vmem s) r' vb) = ?q")
    case True
    then have e: "r' = r" "va div PGSIZE = vb div PGSIZE"
      using as_okD(5)[OF ok r that(1) va that(2) v] by (auto simp: same_page_def)
    have "va + vb mod PGSIZE = vb + va mod PGSIZE"
      using div_mult_mod_eq[of va PGSIZE] div_mult_mod_eq[of vb PGSIZE] unfolding e(2) by linarith
    then have "va \<le> vb \<longleftrightarrow> va mod PGSIZE \<le> vb mod PGSIZE" "vb - va = vb mod PGSIZE - va mod PGSIZE"
      "vb < va + length bs \<longleftrightarrow> vb mod PGSIZE < va mod PGSIZE + length bs" by auto
    then show ?thesis using True e(1) l[OF that(1)] by (auto simp: ubyte_def s'_def set_mem_def store_bytes_def)
  next
    case False
    have "page_of (PTE2PA (lookup (vmem s) r' vb) + vb mod PGSIZE) \<noteq> ?q" if "has (lookup (vmem s) r' vb) PTE_V"
      using False that user_page(3)[OF ok \<open>r' \<in> R\<close> \<open>vb < TRAPFRAME\<close> that] by simp
    then have same: "ubyte s' r' vb = ubyte s r' vb"
      using only_page_of[OF m q(3)] l[OF that(1)] by (simp add: ubyte_def)
    have "\<not> (va \<le> vb \<and> vb < va + length bs)" if "r' = r"
    proof
      assume "va \<le> vb \<and> vb < va + length bs"
      then have "same_page vb va" using bs in_page(1, 2, 4)[of va] unfolding same_page_down by linarith
      then show False
        using lookup_same_page[OF TRAPFRAME_MAXVA(1)[OF \<open>vb < TRAPFRAME\<close>] TRAPFRAME_MAXVA(1)[OF va], of "vmem s" r] False v that by auto
    qed
    then show ?thesis using same by auto
  qed
qed

lemma user_pa_walk:
  assumes ok: "as_ok kend R s" and r: "r \<in> R" and t: "top_ok (vmem s) r"
  shows "walkaddr r va s = 0 \<longleftrightarrow> \<not> (va < MAXVA \<and> readable (vmem s) r va)"
    "walkaddr r va s \<noteq> 0 \<Longrightarrow> va < TRAPFRAME \<and> readable (vmem s) r va \<and> walkaddr r va s = PTE2PA (lookup (vmem s) r va)"
proof -
  have T: "va < TRAPFRAME" if "va < MAXVA" "readable (vmem s) r va" using that t by (auto simp: top_ok_def not_le)
  have "PTE2PA (lookup (vmem s) r va) \<noteq> 0" if "va < MAXVA" "readable (vmem s) r va"
    using user_page(1)[OF ok r T[OF that]] that by (auto simp: readable_def page_def)
  then show z: "walkaddr r va s = 0 \<longleftrightarrow> \<not> (va < MAXVA \<and> readable (vmem s) r va)"
    using walkaddr_lookup[OF as_okD(1)[OF ok] r, of va] by (auto simp: readable_def)
  show "va < TRAPFRAME \<and> readable (vmem s) r va \<and> walkaddr r va s = PTE2PA (lookup (vmem s) r va)" if "walkaddr r va s \<noteq> 0"
    using that T z walkaddr_lookup[OF as_okD(1)[OF ok] r, of va] by (auto simp: readable_def)
qed

lemma user_pa:
  assumes ok: "as_ok kend R s" and r: "r \<in> R" and sz: "sz \<le> TRAPFRAME" and t: "top_ok (vmem s) r"
  shows "\<exists>pa s'. (if walkaddr r va s = 0 then vmfault kend sz r r va s else Inr (walkaddr r va s, s)) = Inr (pa, s') \<and>
    served kend sz R r s s' \<and> same_user R s s' \<and>
    (pa \<noteq> 0 \<longrightarrow> va < TRAPFRAME \<and> readable (vmem s') r va \<and> pa = PTE2PA (lookup (vmem s') r va)) \<and>
    (va < MAXVA \<and> readable (vmem s) r va \<longrightarrow> pa \<noteq> 0 \<and> s' = s)"
  using vmfault_memory[OF ok r sz, of va] user_pa_walk[OF ok r t, of va] served_refl[OF ok] sz
  by (cases "walkaddr r va s = 0") (auto simp: writable_def same_user_def)

lemma lazily_open:
  assumes "lazily sz R r s s'" "r \<in> R" "va < MAXVA"
  shows "readable (vmem s) r va \<Longrightarrow> readable (vmem s') r va" "writable (vmem s) r va \<Longrightarrow> writable (vmem s') r va"
  using assms unfolding lazily_def readable_def writable_def by metis+

definition stored :: "nat set \<Rightarrow> nat \<Rightarrow> nat \<Rightarrow> byte list \<Rightarrow> vm \<Rightarrow> vm \<Rightarrow> bool" where
  "stored R r va bs s s' \<longleftrightarrow> (\<forall>r' \<in> R. \<forall>vb < TRAPFRAME.
     ubyte s' r' vb = (if r' = r \<and> va \<le> vb \<and> vb < va + length bs then bs ! (vb - va) else ubyte s r' vb)) \<and>
   (\<forall>vb. va \<le> vb \<longrightarrow> vb < va + length bs \<longrightarrow> vb < TRAPFRAME \<and> writable (vmem s') r vb)"

lemma stored_Nil: "stored R r va [] s s' \<longleftrightarrow> same_user R s s'"
  by (auto simp: stored_def same_user_def)

lemma stored_append:
  assumes "stored R r va bs s s1" "stored R r (va + length bs) cs s1 s2" "lazily sz R r s1 s2" "r \<in> R"
  shows "stored R r va (bs @ cs) s s2"
  unfolding stored_def
proof (intro conjI ballI allI impI)
  fix r' vb
  assume "r' \<in> R" "vb < TRAPFRAME"
  then show "ubyte s2 r' vb = (if r' = r \<and> va \<le> vb \<and> vb < va + length (bs @ cs) then (bs @ cs) ! (vb - va) else ubyte s r' vb)"
    using assms(1, 2) by (auto simp: stored_def nth_append)
next
  fix vb
  assume "va \<le> vb" "vb < va + length (bs @ cs)"
  then have c: "vb < TRAPFRAME \<and> writable (vmem s1) r vb \<or> vb < TRAPFRAME \<and> writable (vmem s2) r vb"
    using assms(1, 2) unfolding stored_def by (metis add.assoc length_append not_le)
  then show "vb < TRAPFRAME" by auto
  then show "writable (vmem s2) r vb" using c lazily_open(2)[OF assms(3, 4) TRAPFRAME_MAXVA(1)] by auto
qed

lemma same_user_stored: "same_user R s s1 \<Longrightarrow> stored R r va bs s1 s2 \<Longrightarrow> stored R r va bs s s2"
  by (simp add: same_user_def stored_def)

lemma page_below_TRAPFRAME: "PGROUNDDOWN va < TRAPFRAME \<Longrightarrow> PGROUNDDOWN va + PGSIZE \<le> TRAPFRAME"
  using in_page(3)[of va] by (intro page_step) (auto simp: TRAPFRAME_def TRAMPOLINE_def MAXVA_def PGSIZE_def mod_eq_0_iff_dvd)

lemma page_lookup:
  assumes "PGROUNDDOWN va < TRAPFRAME" "PGROUNDDOWN va \<le> vb" "vb < PGROUNDDOWN va + PGSIZE"
  shows "vb < TRAPFRAME" "lookup m r vb = lookup m r (PGROUNDDOWN va)"
proof -
  show vb: "vb < TRAPFRAME" using page_below_TRAPFRAME[OF assms(1)] assms(3) by simp
  have "same_page vb (PGROUNDDOWN va)" using same_page_range[OF in_page(3)] assms(2, 3) by simp
  then show "lookup m r vb = lookup m r (PGROUNDDOWN va)"
    using lookup_same_page[OF TRAPFRAME_MAXVA(1)[OF vb] TRAPFRAME_MAXVA(1)[OF assms(1)]] by blast
qed

lemma lookup_down: "va < MAXVA \<Longrightarrow> lookup m r (PGROUNDDOWN va) = lookup m r va"
  using lookup_same_page[OF le_less_trans[OF in_page(2)]] by (simp add: same_page_def PGROUNDDOWN_def)

lemma store_chunk:
  assumes ok: "as_ok kend R s" and r: "r \<in> R" and va: "PGROUNDDOWN va < TRAPFRAME" and w: "writable (vmem s) r (PGROUNDDOWN va)"
    and bs: "va - PGROUNDDOWN va + length bs \<le> PGSIZE"
    and s': "s' = set_mem (store_bytes (PTE2PA (lookup (vmem s) r (PGROUNDDOWN va)) + (va - PGROUNDDOWN va)) bs) s"
  shows "served kend sz R r s s'" "stored R r va bs s s'" "top_ok (vmem s) r \<Longrightarrow> top_ok (vmem s') r"
    "writable (vmem s') r vb = writable (vmem s) r vb"
proof -
  have L: "va < TRAPFRAME" "lookup (vmem s) r va = lookup (vmem s) r (PGROUNDDOWN va)"
    using page_lookup[OF va in_page(2)] in_page(1, 2)[of va] by auto
  have b: "va mod PGSIZE + length bs \<le> PGSIZE" using bs in_page(4)[of va] by simp
  have e: "s' = set_mem (store_bytes (PTE2PA (lookup (vmem s) r va) + va mod PGSIZE) bs) s"
    by (simp add: s' L(2) in_page(4))
  have v: "has (lookup (vmem s) r va) PTE_V" using w L(2) by (simp add: writable_def readable_def)
  note U = store_user[OF ok r L(1) v b, folded e]
  show "served kend sz R r s s'" by (rule U(1))
  show W: "writable (vmem s') r vb = writable (vmem s) r vb" for vb using U(2)[OF r] by (simp add: writable_def readable_def)
  show "top_ok (vmem s') r" if "top_ok (vmem s) r" using that U(2)[OF r] by (simp add: top_ok_def readable_def)
  have "vb < TRAPFRAME \<and> writable (vmem s') r vb" if "va \<le> vb" "vb < va + length bs" for vb
    using page_lookup[OF va, of vb] that bs in_page(2)[of va] w W[of vb] by (simp add: writable_def readable_def)
  then show "stored R r va bs s s'" using U(3) by (simp add: stored_def)
qed

lemma walk_user:
  assumes "vm_ok kend R s" "r \<in> R" "va < MAXVA" "has (lookup (vmem s) r va) PTE_V"
  obtains a where "walk r va False s = Inr (Some a, s)" "rd64 (vmem s) a = lookup (vmem s) r va"
  using walk_find[OF assms(1-3)] assms(3, 4) that by (auto simp: walk_def lookup_def ent_def split: option.splits)

lemma copyout_step:
  assumes "as_ok kend R s1" "r \<in> R" "src \<noteq> []"
    and "(if walkaddr r (PGROUNDDOWN va) s = 0 then vmfault kend sz r r (PGROUNDDOWN va) s else Inr (walkaddr r (PGROUNDDOWN va) s, s)) = Inr (pa, s1)"
    and "pa \<noteq> 0 \<Longrightarrow> PGROUNDDOWN va < TRAPFRAME \<and> readable (vmem s1) r (PGROUNDDOWN va) \<and> pa = PTE2PA (lookup (vmem s1) r (PGROUNDDOWN va))"
  shows "copyout kend sz r r va src s =
    (if PGROUNDDOWN va \<ge> MAXVA then Inr (-1, s)
     else if pa = 0 \<or> \<not> writable (vmem s1) r (PGROUNDDOWN va) then Inr (-1, s1)
     else let n = min (PGSIZE - (va - PGROUNDDOWN va)) (length src) in
       copyout kend sz r r (PGROUNDDOWN va + PGSIZE) (drop n src)
         (set_mem (store_bytes (PTE2PA (lookup (vmem s1) r (PGROUNDDOWN va)) + (va - PGROUNDDOWN va)) (take n src)) s1))"
proof (cases "PGROUNDDOWN va < MAXVA \<and> pa \<noteq> 0")
  case True
  then have P: "PGROUNDDOWN va < TRAPFRAME" "readable (vmem s1) r (PGROUNDDOWN va)" "pa = PTE2PA (lookup (vmem s1) r (PGROUNDDOWN va))"
    using assms(5) by auto
  obtain a where "walk r (PGROUNDDOWN va) False s1 = Inr (Some a, s1)" "rd64 (vmem s1) a = lookup (vmem s1) r (PGROUNDDOWN va)"
    using walk_user[OF as_okD(1)[OF assms(1)] assms(2)] True P(2) by (auto simp: readable_def)
  then show ?thesis
    by (subst copyout.simps) (use True P(2, 3) assms(3, 4) in \<open>simp add: writable_def Let_def\<close>)
qed (subst copyout.simps, use assms(3, 4) in \<open>auto simp: Let_def\<close>)

text \<open>A copy stores a prefix, all of it when the memory is open already.\<close>

definition copied :: "nat \<Rightarrow> nat \<Rightarrow> nat set \<Rightarrow> nat \<Rightarrow> nat \<Rightarrow> byte list \<Rightarrow> vm \<Rightarrow> int \<Rightarrow> vm \<Rightarrow> bool" where
  "copied kend sz R r va src s ret s' \<longleftrightarrow> served kend sz R r s s' \<and>
    (\<exists>k \<le> length src. stored R r va (take k src) s s' \<and> ret = (if k = length src then 0 else -1)) \<and>
    ((\<forall>vb. va \<le> vb \<longrightarrow> vb < va + length src \<longrightarrow> vb < MAXVA \<and> writable (vmem s) r vb) \<longrightarrow> ret = 0)"

lemma copied_stop:
  assumes "served kend sz R r s s1" "same_user R s s1" "src \<noteq> []" "\<not> (va < MAXVA \<and> writable (vmem s) r va)"
  shows "copied kend sz R r va src s (-1) s1"
proof -
  have "\<not> (\<forall>vb. va \<le> vb \<longrightarrow> vb < va + length src \<longrightarrow> vb < MAXVA \<and> writable (vmem s) r vb)" using assms(3, 4) by auto
  moreover have "\<exists>k \<le> length src. stored R r va (take k src) s s1 \<and> (-1::int) = (if k = length src then 0 else -1)"
    using assms(2, 3) by (intro exI[of _ 0]) (simp add: stored_Nil)
  ultimately show ?thesis using assms(1) by (simp add: copied_def)
qed

lemma copied_append:
  assumes s1: "served kend sz R r s s1" "stored R r va bs s s1" and c: "copied kend sz R r vc cs s1 ret s'" and r: "r \<in> R"
    and va: "cs \<noteq> [] \<Longrightarrow> vc = va + length bs"
  shows "copied kend sz R r va (bs @ cs) s ret s'"
proof -
  obtain k where k: "k \<le> length cs" "stored R r vc (take k cs) s1 s'" "ret = (if k = length cs then 0 else -1)"
    using c by (auto simp: copied_def)
  have sv: "served kend sz R r s1 s'" using c by (simp add: copied_def)
  have "stored R r (va + length bs) (take k cs) s1 s'"
    using k(2) va by (cases "cs = []") (auto simp: stored_Nil)
  then have st: "stored R r va (bs @ take k cs) s s'"
    using stored_append[OF s1(2) _ _ r] sv by (auto simp: served_def)
  have "ret = 0" if o: "\<forall>vb. va \<le> vb \<longrightarrow> vb < va + length (bs @ cs) \<longrightarrow> vb < MAXVA \<and> writable (vmem s) r vb"
  proof -
    have "vb < MAXVA \<and> writable (vmem s1) r vb" if "vc \<le> vb" "vb < vc + length cs" for vb
    proof -
      have vb: "vb < MAXVA" "writable (vmem s) r vb" using that o va by fastforce+
      then show ?thesis using lazily_open(2)[OF _ r vb(1)] s1(1) by (auto simp: served_def)
    qed
    then show ?thesis using c by (simp add: copied_def)
  qed
  then show ?thesis
    using served_trans[OF s1(1) sv] st k(1, 3) unfolding copied_def
    by (intro conjI exI[of _ "length bs + k"]) auto
qed

lemma copyout_ok:
  assumes "as_ok kend R s" "r \<in> R" "sz \<le> TRAPFRAME" "top_ok (vmem s) r"
  shows "\<exists>ret s'. copyout kend sz r r va src s = Inr (ret, s') \<and> copied kend sz R r va src s ret s'"
  using assms(1, 4)
proof (induction src arbitrary: va s rule: length_induct)
  case (1 src)
  let ?va0 = "PGROUNDDOWN va" and ?n = "min (PGSIZE - (va - PGROUNDDOWN va)) (length src)"
  show ?case
  proof (cases "src = []")
    case True
    then show ?thesis using served_refl[OF 1(2)]
      by (simp add: copyout.simps copied_def stored_Nil same_user_def)
  next
    case ne: False
    obtain pa s1 where P: "(if walkaddr r ?va0 s = 0 then vmfault kend sz r r ?va0 s else Inr (walkaddr r ?va0 s, s)) = Inr (pa, s1)"
      "served kend sz R r s s1" "same_user R s s1"
      "pa \<noteq> 0 \<Longrightarrow> ?va0 < TRAPFRAME \<and> readable (vmem s1) r ?va0 \<and> pa = PTE2PA (lookup (vmem s1) r ?va0)"
      "?va0 < MAXVA \<Longrightarrow> readable (vmem s) r ?va0 \<Longrightarrow> pa \<noteq> 0 \<and> s1 = s"
      using user_pa[OF 1(2) assms(2, 3) 1(3), of ?va0] by blast
    have s1: "as_ok kend R s1" "lazily sz R r s s1" "top_ok (vmem s1) r"
      using P(2) lazily_top[OF _ assms(2) 1(3) assms(3)] by (auto simp: served_def)
    note S = copyout_step[OF s1(1) assms(2) ne P(1, 4)]
    have closed: "?va0 < MAXVA \<and> writable (vmem s) r ?va0" if "va < MAXVA \<and> writable (vmem s) r va"
      using that lookup_down[of va "vmem s" r] in_page(2)[of va] by (auto simp: writable_def readable_def)
    show ?thesis
    proof (cases "MAXVA \<le> ?va0 \<or> pa = 0 \<or> \<not> writable (vmem s1) r ?va0")
      case True
      define s2 where "s2 = (if MAXVA \<le> ?va0 then s else s1)"
      have "copyout kend sz r r va src s = Inr (-1, s2)" using S True by (auto simp: s2_def)
      moreover have "served kend sz R r s s2" "same_user R s s2"
        using P(2, 3) served_refl[OF 1(2)] by (simp_all add: s2_def same_user_def)
      moreover have "\<not> (va < MAXVA \<and> writable (vmem s) r va)"
        using closed True P(5) by (auto simp: writable_def)
      ultimately show ?thesis using copied_stop[OF _ _ ne] by blast
    next
      case False
      define s2 where "s2 = set_mem (store_bytes (PTE2PA (lookup (vmem s1) r ?va0) + (va - ?va0)) (take ?n src)) s1"
      have eq: "copyout kend sz r r va src s = copyout kend sz r r (?va0 + PGSIZE) (drop ?n src) s2"
        using S False by (simp add: s2_def Let_def)
      have n: "va - ?va0 + length (take ?n src) \<le> PGSIZE" "length (drop ?n src) < length src"
        using in_page(1)[of va] ne by (auto simp: PGSIZE_def)
      have w: "?va0 < TRAPFRAME" "writable (vmem s1) r ?va0" using P(4) False by auto
      note C = store_chunk[OF s1(1) assms(2) w n(1) s2_def]
      obtain ret s' where R: "copyout kend sz r r (?va0 + PGSIZE) (drop ?n src) s2 = Inr (ret, s')"
        "copied kend sz R r (?va0 + PGSIZE) (drop ?n src) s2 ret s'"
        using 1(1) n(2) C(1)[of sz] C(3)[OF s1(3)] unfolding served_def by blast
      have "?va0 + PGSIZE = va + length (take ?n src)" if "drop ?n src \<noteq> []"
        using that in_page(1, 2)[of va] by auto
      then have "copied kend sz R r va (take ?n src @ drop ?n src) s ret s'"
        using copied_append[OF served_trans[OF P(2) C(1)] same_user_stored[OF P(3) C(2)] R(2) assms(2)] by blast
      then show ?thesis using eq R(1) by auto
    qed
  qed
qed

text \<open>Reading user memory.\<close>

lemma load_chunk:
  assumes va: "PGROUNDDOWN va < TRAPFRAME" and v: "readable (vmem s) r (PGROUNDDOWN va)" and n: "va - PGROUNDDOWN va + n \<le> PGSIZE"
  shows "load_bytes (vmem s) (PTE2PA (lookup (vmem s) r (PGROUNDDOWN va)) + (va - PGROUNDDOWN va)) n = map (ubyte s r) [va..<va + n]"
proof (rule nth_equalityI)
  fix k
  assume k: "k < length (load_bytes (vmem s) (PTE2PA (lookup (vmem s) r (PGROUNDDOWN va)) + (va - PGROUNDDOWN va)) n)"
  then have "lookup (vmem s) r (va + k) = lookup (vmem s) r (PGROUNDDOWN va)" "(va + k) mod PGSIZE = va - PGROUNDDOWN va + k"
    using page_lookup(2)[OF va, of "va + k"] n in_page(2, 4)[of va] mod_add_left_eq[of va PGSIZE k]
    by (auto simp: load_bytes_def)
  then show "load_bytes (vmem s) (PTE2PA (lookup (vmem s) r (PGROUNDDOWN va)) + (va - PGROUNDDOWN va)) n ! k = map (ubyte s r) [va..<va + n] ! k"
    using k v by (simp add: load_bytes_def ubyte_def readable_def add.assoc)
qed (simp add: load_bytes_def)

definition fetched :: "nat \<Rightarrow> nat \<Rightarrow> nat set \<Rightarrow> nat \<Rightarrow> nat \<Rightarrow> nat \<Rightarrow> vm \<Rightarrow> int \<Rightarrow> byte list \<Rightarrow> vm \<Rightarrow> bool" where
  "fetched kend sz R r va len s ret bs s' \<longleftrightarrow> served kend sz R r s s' \<and> same_user R s s' \<and>
    length bs \<le> len \<and> bs = map (ubyte s r) [va..<va + length bs] \<and> ret = (if length bs = len then 0 else -1) \<and>
    (bs \<noteq> [] \<longrightarrow> va + length bs \<le> TRAPFRAME) \<and>
    ((\<forall>vb. va \<le> vb \<longrightarrow> vb < va + len \<longrightarrow> vb < MAXVA \<and> readable (vmem s) r vb) \<longrightarrow> ret = 0 \<and> s' = s)"

lemma same_user_trans: "same_user R s s1 \<Longrightarrow> same_user R s1 s2 \<Longrightarrow> same_user R s s2"
  by (simp add: same_user_def)

lemma map_upt_append:
  assumes "bs = map f [a..<a + length bs]" "cs = map f [c..<c + length cs]" "cs \<noteq> [] \<Longrightarrow> c = a + length bs"
  shows "bs @ cs = map f [a..<a + length (bs @ cs)]"
proof (cases "cs = []")
  case False
  then have "bs @ cs = map f ([a..<a + length bs] @ [a + length bs..<a + length bs + length cs])" using assms by simp
  then show ?thesis using upt_add_eq_append[of a "a + length bs" "length cs"] by (simp add: add.assoc del: map_append)
qed (use assms(1) in simp)

lemma fetched_append:
  assumes s1: "served kend sz R r s s1" "same_user R s s1" and c: "fetched kend sz R r vc m s1 ret cs s'" and r: "r \<in> R"
    and va: "0 < m \<Longrightarrow> vc = va + n" and o: "va < MAXVA \<Longrightarrow> readable (vmem s) r va \<Longrightarrow> s1 = s" and n: "0 < n"
    and t: "va + n \<le> TRAPFRAME" 
  shows "fetched kend sz R r va (n + m) s ret (map (ubyte s1 r) [va..<va + n] @ cs) s'"
proof -
  let ?bs = "map (ubyte s1 r) [va..<va + n] @ cs"
  have C: "served kend sz R r s1 s'" "same_user R s1 s'" "length cs \<le> m" "cs = map (ubyte s1 r) [vc..<vc + length cs]"
    "ret = (if length cs = m then 0 else -1)" "cs \<noteq> [] \<longrightarrow> vc + length cs \<le> TRAPFRAME"
    using c by (auto simp: fetched_def)
  have vc: "vc = va + n" if "cs \<noteq> []" using va C(3) that by (cases cs) auto
  have "?bs = map (ubyte s1 r) [va..<va + length ?bs]"
    by (rule map_upt_append[OF _ C(4)]) (simp_all add: vc)
  moreover have top: "va + length ?bs \<le> TRAPFRAME" using t C(6) vc by (cases "cs = []") auto
  ultimately have "?bs = map (ubyte s r) [va..<va + length ?bs]" using s1(2) r by (auto simp: same_user_def)
  moreover have "ret = 0 \<and> s' = s"
    if o': "\<forall>vb. va \<le> vb \<longrightarrow> vb < va + (n + m) \<longrightarrow> vb < MAXVA \<and> readable (vmem s) r vb"
  proof -
    have "s1 = s" using o o' n by simp
    moreover have "vb < MAXVA \<and> readable (vmem s) r vb" if "vc \<le> vb" "vb < vc + m" for vb
      using that o' va by (cases "m = 0") auto
    ultimately show ?thesis using c by (simp add: fetched_def)
  qed
  ultimately show ?thesis
    using served_trans[OF s1(1) C(1)] same_user_trans[OF s1(2) C(2)] C(3, 5) top by (auto simp: fetched_def)
qed

lemma copyin_ok:
  assumes "as_ok kend R s" "r \<in> R" "sz \<le> TRAPFRAME" "top_ok (vmem s) r"
  shows "\<exists>ret bs s'. copyin kend sz r r va len s = Inr (ret, bs, s') \<and> fetched kend sz R r va len s ret bs s'"
  using assms(1, 4)
proof (induction len arbitrary: va s rule: less_induct)
  case (less len)
  let ?va0 = "PGROUNDDOWN va" and ?n = "min (PGSIZE - (va - PGROUNDDOWN va)) len"
  show ?case
  proof (cases "len = 0")
    case True
    then show ?thesis using served_refl[OF less(2)]
      by (simp add: copyin.simps fetched_def same_user_def)
  next
    case ne: False
    obtain pa s1 where P: "(if walkaddr r ?va0 s = 0 then vmfault kend sz r r ?va0 s else Inr (walkaddr r ?va0 s, s)) = Inr (pa, s1)"
      "served kend sz R r s s1" "same_user R s s1"
      "pa \<noteq> 0 \<Longrightarrow> ?va0 < TRAPFRAME \<and> readable (vmem s1) r ?va0 \<and> pa = PTE2PA (lookup (vmem s1) r ?va0)"
      "?va0 < MAXVA \<Longrightarrow> readable (vmem s) r ?va0 \<Longrightarrow> pa \<noteq> 0 \<and> s1 = s"
      using user_pa[OF less(2) assms(2, 3) less(3), of ?va0] by blast
    have s1: "as_ok kend R s1" "lazily sz R r s s1" "top_ok (vmem s1) r"
      using P(2) lazily_top[OF _ assms(2) less(3) assms(3)] by (auto simp: served_def)
    have o: "pa \<noteq> 0 \<and> s1 = s" if "va < MAXVA" "readable (vmem s) r va"
      using that lookup_down[of va "vmem s" r] in_page(2)[of va] P(5) by (auto simp: readable_def)
    show ?thesis
    proof (cases "pa = 0")
      case True
      have "copyin kend sz r r va len s = Inr (-1, [], s1)"
        by (subst copyin.simps) (use P(1) True ne in \<open>simp add: Let_def\<close>)
      moreover have "\<not> (\<forall>vb. va \<le> vb \<longrightarrow> vb < va + len \<longrightarrow> vb < MAXVA \<and> readable (vmem s) r vb)"
        using o True ne by auto
      ultimately show ?thesis using P(2, 3) ne by (auto simp: fetched_def)
    next
      case False
      have n: "va - ?va0 + ?n \<le> PGSIZE" "len - ?n < len" "0 < ?n" "?n + (len - ?n) = len"
        using in_page(1)[of va] ne by (auto simp: PGSIZE_def)
      have w: "?va0 < TRAPFRAME" "readable (vmem s1) r ?va0" using P(4) False by auto
      obtain ret cs s' where R: "copyin kend sz r r (?va0 + PGSIZE) (len - ?n) s1 = Inr (ret, cs, s')"
        "fetched kend sz R r (?va0 + PGSIZE) (len - ?n) s1 ret cs s'"
        using less(1)[OF n(2) s1(1, 3)] by blast
      have eq: "copyin kend sz r r va len s = Inr (ret, map (ubyte s1 r) [va..<va + ?n] @ cs, s')"
        by (subst copyin.simps) (use P(1, 4) False ne R(1) load_chunk[OF w n(1)] in \<open>simp add: Let_def\<close>)
      have "?va0 + PGSIZE = va + ?n" if "0 < len - ?n" using that in_page(1, 2)[of va] by auto
      moreover have "va + ?n \<le> TRAPFRAME" using n(1) page_below_TRAPFRAME[OF w(1)] in_page(2)[of va] by linarith
      ultimately show ?thesis
        using eq fetched_append[OF P(2, 3) R(2) assms(2) _ _ n(3)] o n(4) by auto
    qed
  qed
qed

lemma copied_back:
  assumes r: "r \<in> R" and sz: "sz \<le> TRAPFRAME" and t: "top_ok (vmem s) r" and c: "copied kend sz R r va src s 0 s'"
  shows "copyin kend sz r r va (length src) s' = Inr (0, src, s')"
proof -
  have s': "as_ok kend R s'" "top_ok (vmem s') r"
    using c lazily_top[OF _ r t sz] by (auto simp: copied_def served_def)
  have st: "stored R r va src s s'" using c by (auto simp: copied_def split: if_splits)
  then have "readable (vmem s') r vb" "vb < TRAPFRAME" "ubyte s' r vb = src ! (vb - va)" if "va \<le> vb" "vb < va + length src" for vb
    using that r by (auto simp: stored_def writable_def)
  moreover obtain ret bs s2 where I: "copyin kend sz r r va (length src) s' = Inr (ret, bs, s2)"
    "fetched kend sz R r va (length src) s' ret bs s2" using copyin_ok[OF s'(1) r sz s'(2)] by blast
  ultimately have "ret = 0" "s2 = s'" using TRAPFRAME_MAXVA(1) by (auto simp: fetched_def)
  moreover have "bs = map (ubyte s' r) [va..<va + length src]" using I(2) \<open>ret = 0\<close> by (auto simp: fetched_def split: if_splits)
  then have "bs = src" using \<open>\<And>vb. va \<le> vb \<Longrightarrow> vb < va + length src \<Longrightarrow> ubyte s' r vb = src ! (vb - va)\<close>
    by (intro nth_equalityI) simp_all
  ultimately show ?thesis using I(1) by simp
qed

text \<open>A string from user memory: up to the first zero, or not at all.\<close>

lemma copy_until_ok:
  "copy_until n p m = (bs, z) \<Longrightarrow> length bs \<le> n \<and> bs = map m [p..<p + length bs] \<and>
    (if z then bs \<noteq> [] \<and> List.last bs = 0 \<and> 0 \<notin> set (butlast bs) else length bs = n \<and> 0 \<notin> set bs)"
proof (induction n arbitrary: p bs)
  case (Suc n)
  show ?case
  proof (cases "m p = 0")
    case True
    then show ?thesis using Suc.prems by auto
  next
    case False
    obtain cs where c: "copy_until n (Suc p) m = (cs, z)" "bs = m p # cs"
      using Suc.prems False by (auto split: prod.splits)
    have "cs = map m [Suc p..<Suc p + length cs]" using Suc.IH[OF c(1)] by blast
    then have "[m p] @ cs = map m [p..<p + length ([m p] @ cs)]" by (intro map_upt_append) simp_all
    then have "bs = map m [p..<p + length bs]" unfolding c(2) by (simp only: append_Cons append_Nil)
    moreover have "length bs \<le> Suc n" "if z then bs \<noteq> [] \<and> List.last bs = 0 \<and> 0 \<notin> set (butlast bs) else length bs = Suc n \<and> 0 \<notin> set bs"
      using conjunct1[OF Suc.IH[OF c(1)]] conjunct2[OF conjunct2[OF Suc.IH[OF c(1)]]] c(2) False by (auto split: if_splits)
    ultimately show ?thesis by blast
  qed
qed simp

definition string_at :: "vm \<Rightarrow> nat \<Rightarrow> nat \<Rightarrow> nat \<Rightarrow> int \<times> byte list \<Rightarrow> bool" where
  "string_at s r va maxlen = (\<lambda>(ret, bs). length bs \<le> maxlen \<and> bs = map (ubyte s r) [va..<va + length bs] \<and>
    (ret = 0 \<and> bs \<noteq> [] \<and> List.last bs = 0 \<and> 0 \<notin> set (butlast bs) \<or>
     ret = -1 \<and> 0 \<notin> set bs \<and> (length bs = maxlen \<or> \<not> (va + length bs < MAXVA \<and> readable (vmem s) r (va + length bs)))))"

lemma string_at_append:
  assumes bs: "bs = map (ubyte s r) [va..<va + length bs]" "0 \<notin> set bs" and S: "string_at s r vc m (ret, cs)"
    and v: "0 < m \<Longrightarrow> vc = va + length bs" and n: "n = length bs + m"
  shows "string_at s r va n (ret, bs @ cs)"
proof -
  have C: "length cs \<le> m" "cs = map (ubyte s r) [vc..<vc + length cs]" using S by (auto simp only: string_at_def prod.case)
  have E: "ret = 0 \<and> cs \<noteq> [] \<and> List.last cs = 0 \<and> 0 \<notin> set (butlast cs) \<or>
    ret = -1 \<and> 0 \<notin> set cs \<and> (length cs = m \<or> \<not> (vc + length cs < MAXVA \<and> readable (vmem s) r (vc + length cs)))"
    using S by (auto simp only: string_at_def prod.case)
  have "bs @ cs = map (ubyte s r) [va..<va + length (bs @ cs)]"
    using v C(1) by (intro map_upt_append[OF bs(1) C(2)]) (cases "m = 0"; simp)
  moreover have "length (bs @ cs) \<le> n" using n C(1) by simp
  moreover have "ret = 0 \<and> bs @ cs \<noteq> [] \<and> List.last (bs @ cs) = 0 \<and> 0 \<notin> set (butlast (bs @ cs)) \<or>
    ret = -1 \<and> 0 \<notin> set (bs @ cs) \<and> (length (bs @ cs) = n \<or>
      \<not> (va + length (bs @ cs) < MAXVA \<and> readable (vmem s) r (va + length (bs @ cs))))"
    using E C(1) bs(2) n v by (cases "m = 0") (auto simp: butlast_append add.assoc)
  ultimately show ?thesis unfolding string_at_def by blast
qed

lemma copyinstr_ok:
  assumes ok: "as_ok kend R s" and r: "r \<in> R" and t: "top_ok (vmem s) r"
  shows "string_at s r va maxlen (copyinstr r va maxlen s)"
proof (induction maxlen arbitrary: va rule: less_induct)
  case (less maxlen)
  let ?va0 = "PGROUNDDOWN va" and ?n = "min (PGSIZE - (va - PGROUNDDOWN va)) maxlen"
  show ?case
  proof (cases "maxlen = 0 \<or> walkaddr r ?va0 s = 0")
    case True
    have "copyinstr r va maxlen s = (-1, [])" using True by (auto simp: copyinstr.simps[of r va maxlen s] Let_def)
    moreover have "maxlen = 0 \<or> \<not> (va < MAXVA \<and> readable (vmem s) r va)"
      using True lookup_down[of va "vmem s" r] in_page(2)[of va] user_pa_walk[OF ok r t, of ?va0]
      by (auto simp: readable_def)
    ultimately show ?thesis by (auto simp: string_at_def)
  next
    case False
    then have w: "?va0 < TRAPFRAME" "readable (vmem s) r ?va0" "walkaddr r ?va0 s = PTE2PA (lookup (vmem s) r ?va0)"
      using user_pa_walk[OF ok r t, of ?va0] by auto
    have n: "va - ?va0 + ?n \<le> PGSIZE" "maxlen - ?n < maxlen" "?n + (maxlen - ?n) = maxlen"
      using in_page(1)[of va] False by (auto simp: PGSIZE_def)
    obtain bs z where c: "copy_until ?n (walkaddr r ?va0 s + (va - ?va0)) (vmem s) = (bs, z)" by fastforce
    note C = copy_until_ok[OF c]
    have l: "va - ?va0 + length bs \<le> PGSIZE" using n(1) C by linarith
    have "bs = map (vmem s) [walkaddr r ?va0 s + (va - ?va0)..<walkaddr r ?va0 s + (va - ?va0) + length bs]" using C by blast
    also have "\<dots> = load_bytes (vmem s) (walkaddr r ?va0 s + (va - ?va0)) (length bs)"
      by (intro nth_equalityI) (simp_all add: load_bytes_def)
    also have "\<dots> = map (ubyte s r) [va..<va + length bs]" unfolding w(3) by (rule load_chunk[OF w(1, 2) l])
    finally have bs: "bs = map (ubyte s r) [va..<va + length bs]" .
    show ?thesis
    proof (cases z)
      case True
      then have "copyinstr r va maxlen s = (0, bs)"
        by (subst copyinstr.simps) (use False c in \<open>simp add: Let_def\<close>)
      then show ?thesis using C True bs by (simp add: string_at_def)
    next
      case nz: False
      obtain ret cs where R: "copyinstr r (?va0 + PGSIZE) (maxlen - ?n) s = (ret, cs)" by fastforce
      then have eq: "copyinstr r va maxlen s = (ret, bs @ cs)"
        by (subst copyinstr.simps) (use False c nz in \<open>simp add: Let_def\<close>)
      have l: "length bs = ?n" "0 \<notin> set bs" using C nz by auto
      have S: "string_at s r (?va0 + PGSIZE) (maxlen - ?n) (ret, cs)" using less[OF n(2), of "?va0 + PGSIZE"] R by simp
      have v: "?va0 + PGSIZE = va + length bs" if "0 < maxlen - ?n" using that l(1) in_page(1, 2)[of va] by auto
      show ?thesis unfolding eq by (rule string_at_append[OF bs l(2) S v]) (use l(1) n(3) in simp_all)
    qed
  qed
qed

section \<open>The memory of a child\<close>

lemma bit_FLAGS: "bit (PTE_FLAGS w) n \<longleftrightarrow> n < 10 \<and> bit w n"
proof -
  have e: "(0x3FF :: 64 word) = mask 10" by (simp add: mask_eq_exp_minus_1)
  show ?thesis unfolding PTE_FLAGS_def e bit_and_iff bit_mask_iff by (auto dest: bit_imp_le_length)
qed

lemma flags_FLAGS [simp]: "flags_ok (PTE_FLAGS w)"
  unfolding flags_ok_def by (rule bit_eqI) (simp add: bit_drop_bit_eq bit_FLAGS)

lemma FLAGS_child:
  assumes "has w PTE_V"
  shows "PTE_FLAGS (PA2PTE q OR PTE_FLAGS w OR PTE_V) = PTE_FLAGS w"
proof (rule bit_word_eqI)
  fix n
  show "bit (PTE_FLAGS (PA2PTE q OR PTE_FLAGS w OR PTE_V)) n \<longleftrightarrow> bit (PTE_FLAGS w) n"
    using assms[unfolded has_V] by (auto simp: bit_FLAGS bit_or_iff PA2PTE_def bit_push_bit_iff PTE_V_def bit_1_iff)
qed

lemma fills_memmove: "fills q (memmove q p PGSIZE)"
  by (simp add: fills_def only_page_def memmove_eq block_copy_def)

text \<open>The child has the pages, the permissions and the bytes of its parent.\<close>

definition clones :: "nat \<Rightarrow> nat \<Rightarrow> nat \<Rightarrow> nat \<Rightarrow> vm \<Rightarrow> vm \<Rightarrow> bool" where
  "clones old new lo hi s s' \<longleftrightarrow> (\<forall>va. lo \<le> va \<longrightarrow> va < hi \<longrightarrow>
     (has (lookup (vmem s') new va) PTE_V \<longleftrightarrow> has (lookup (vmem s) old va) PTE_V) \<and>
     (has (lookup (vmem s) old va) PTE_V \<longrightarrow> PTE_FLAGS (lookup (vmem s') new va) = PTE_FLAGS (lookup (vmem s) old va)) \<and>
     ubyte s' new va = ubyte s old va)"

lemma clones_append:
  assumes ok: "as_ok kend R s" "as_ok kend R s1" and R: "old \<in> R" "new \<in> R" "old \<noteq> new" and hi: "hi \<le> TRAPFRAME"
    and d: "did kend R new lo mid s s1" "clones old new lo mid s s1"
    and e: "did kend R new mid hi s1 s2" "clones old new mid hi s1 s2" and m: "lo \<le> mid" "mid \<le> hi"
  shows "clones old new lo hi s s2"
  unfolding clones_def
proof (intro allI impI)
  fix va
  assume va: "lo \<le> va" "va < hi"
  then have T: "va < TRAPFRAME" "va < MAXVA" using hi TRAPFRAME_MAXVA(1)[of va] by auto
  have old: "lookup (vmem s1) old va = lookup (vmem s) old va" "ubyte s1 old va = ubyte s old va"
    using did_lookup[OF d(1) R(1) T(2)] did_ubyte[OF ok(1) d(1) R(1) T(1)] R(3) by auto
  have new: "lookup (vmem s2) new va = lookup (vmem s1) new va" "ubyte s2 new va = ubyte s1 new va" if "va < mid"
    using did_lookup[OF e(1) R(2) T(2)] did_ubyte[OF ok(2) e(1) R(2) T(1)] that by auto
  show "(has (lookup (vmem s2) new va) PTE_V \<longleftrightarrow> has (lookup (vmem s) old va) PTE_V) \<and>
    (has (lookup (vmem s) old va) PTE_V \<longrightarrow> PTE_FLAGS (lookup (vmem s2) new va) = PTE_FLAGS (lookup (vmem s) old va)) \<and>
    ubyte s2 new va = ubyte s old va"
  proof (cases "va < mid")
    case True
    then show ?thesis using d(2) va(1) new by (simp add: clones_def)
  next
    case False
    then show ?thesis using e(2) va(2) old by (simp add: clones_def)
  qed
qed

lemma clones_none:
  assumes "unmapped (vmem s) old lo hi" "unmapped (vmem s') new lo hi"
  shows "clones old new lo hi s s'"
  using assms by (simp add: clones_def unmapped_def ubyte_def)

lemma copy_page:
  assumes ok: "as_ok kend R s" and R: "old \<in> R" "new \<in> R" and a: "a mod PGSIZE = 0" "a + PGSIZE \<le> TRAPFRAME"
    and v: "has (lookup (vmem s) old a) PTE_V" "\<not> has (lookup (vmem s) new a) PTE_V" and q: "vm_kalloc s = (Some q, s1)"
  defines "w \<equiv> lookup (vmem s) old a"
  shows "(\<exists>s3. mappages new a PGSIZE q (PTE_FLAGS w) (set_mem (memmove q (PTE2PA w) PGSIZE) s1) = Inr (0, s3) \<and>
      did kend R new a (a + PGSIZE) s s3 \<and> clones old new a (a + PGSIZE) s s3) \<or>
    (\<exists>s3 s4. mappages new a PGSIZE q (PTE_FLAGS w) (set_mem (memmove q (PTE2PA w) PGSIZE) s1) = Inr (-1, s3) \<and>
      vm_kfree kend q s3 = Inr s4 \<and> (\<forall>b. did kend R new b b s s4))"
  using add_page[OF ok R(2) a v(2) flags_FLAGS[of w] q fills_memmove[of q "PTE2PA w"]]
proof (elim disjE exE conjE)
  fix s3
  assume s3: "mappages new a PGSIZE q (PTE_FLAGS w) (set_mem (memmove q (PTE2PA w) PGSIZE) s1) = Inr (0, s3)"
    "did kend R new a (a + PGSIZE) s s3" "page kend q"
    "\<forall>vb. a \<le> vb \<longrightarrow> vb < a + PGSIZE \<longrightarrow> lookup (vmem s3) new vb = PA2PTE q OR PTE_FLAGS w OR PTE_V"
    "\<forall>x. page_of x = q \<longrightarrow> vmem s3 x = memmove q (PTE2PA w) PGSIZE (vmem s1) x"
  have aT: "a < TRAPFRAME" using a(2) by (simp add: PGSIZE_def)
  note A = vm_kalloc_Some[OF as_okD(1)[OF ok] q]
  have wq: "PTE2PA w \<noteq> q" using as_okD(3)[OF ok user_pagesI[OF R(1) aT v(1)]] A(3) by (auto simp: w_def)
  have q0: "q mod PGSIZE = 0" using s3(3) by (simp add: page_def)
  have old: "lookup (vmem s) old va = w" if "a \<le> va" "va < a + PGSIZE" for va
    using lookup_same_page[of va a "vmem s" old] same_page_range[OF a(1)] that a(2) aT TRAPFRAME_MAXVA(1) by (simp add: w_def)
  have "ubyte s3 new va = ubyte s old va" if "a \<le> va" "va < a + PGSIZE" for va
  proof -
    have off: "va mod PGSIZE < PGSIZE" by (simp add: PGSIZE_def)
    have "page_of (q + va mod PGSIZE) = q" by (rule page_of_add[OF q0])
    then have "vmem s3 (q + va mod PGSIZE) = vmem s1 (PTE2PA w + va mod PGSIZE)"
      using s3(5) off by (simp add: memmove_eq block_copy_def)
    also have "\<dots> = vmem s (PTE2PA w + va mod PGSIZE)"
      using only_page_of[OF A(11) q0] user_page(3)[OF ok R(1) aT v(1), of va] wq by (simp add: w_def)
    finally have m: "vmem s3 (q + va mod PGSIZE) = vmem s (PTE2PA w + va mod PGSIZE)" .
    have l: "lookup (vmem s3) new va = PA2PTE q OR PTE_FLAGS w OR PTE_V" using s3(4) that by blast
    show ?thesis
      unfolding ubyte_def l old[OF that] PTE_fresh[OF s3(3) flags_FLAGS[of w]] m using v(1)[folded w_def] by simp
  qed
  then have "clones old new a (a + PGSIZE) s s3"
    unfolding clones_def using s3(4) old v(1)[folded w_def] FLAGS_child[of w q] has_V_or(2) by simp
  then show ?thesis using s3(1, 2) by blast
qed blast

lemma did_append: "did kend R r a b s s1 \<Longrightarrow> did kend R r b c s1 s2 \<Longrightarrow> a \<le> b \<Longrightarrow> b \<le> c \<Longrightarrow> did kend R r a c s s2"
  using did_trans did_mono order_refl by metis

text \<open>What the loop leaves when it starts at \<open>a\<close> and stops at \<open>b\<close>: all pages up to \<open>h\<close>, or some.\<close>

definition cloned :: "nat \<Rightarrow> nat set \<Rightarrow> nat \<Rightarrow> nat \<Rightarrow> nat \<Rightarrow> nat \<Rightarrow> vm \<Rightarrow> int \<times> nat \<times> vm \<Rightarrow> bool" where
  "cloned kend R old new a h s = (\<lambda>(ret, b, s'). did kend R new a b s s' \<and> b mod PGSIZE = 0 \<and> a \<le> b \<and> b \<le> h \<and>
    unmapped (vmem s') new b TRAPFRAME \<and> (ret = 0 \<and> b = h \<and> clones old new a b s s' \<or> ret = -1))"

lemma cloned_stop:
  assumes "did kend R new a a s s'" "new \<in> R" "unmapped (vmem s) new a TRAPFRAME" "a mod PGSIZE = 0" "a \<le> h"
  shows "cloned kend R old new a h s (-1, a, s')"
  using assms unmapped_did[OF assms(1-3)] TRAPFRAME_MAXVA(2) by (simp add: cloned_def)

lemma cloned_step:
  assumes ok: "as_ok kend R s" and R: "old \<in> R" "new \<in> R" "old \<noteq> new" and h: "h \<le> TRAPFRAME"
    and d: "did kend R new a c s s1" "clones old new a c s s1" "a \<le> c" and e: "cloned kend R old new c h s1 res"
  shows "cloned kend R old new a h s res"
proof -
  obtain ret b s' where res: "res = (ret, b, s')" by (cases res) auto
  have I: "did kend R new c b s1 s'" "b mod PGSIZE = 0" "c \<le> b" "b \<le> h" "unmapped (vmem s') new b TRAPFRAME"
    "ret = 0 \<and> b = h \<and> clones old new c b s1 s' \<or> ret = -1" using e by (auto simp: cloned_def res)
  have s1: "as_ok kend R s1" using d(1) by (simp add: did_def)
  have "clones old new a b s s'" if "clones old new c b s1 s'"
    using clones_append[OF ok s1 R _ d(1, 2) I(1) that d(3) I(3)] I(4) h by simp
  moreover have "did kend R new a b s s'" using did_append[OF d(1) I(1) d(3) I(3)] .
  ultimately show ?thesis using I d(3) by (auto simp: cloned_def res)
qed

lemma uvmcopy_loop_ok:
  assumes "as_ok kend R s" "old \<in> R" "new \<in> R" "old \<noteq> new" "a mod PGSIZE = 0" "a + n * PGSIZE \<le> TRAPFRAME"
    and "unmapped (vmem s) new a TRAPFRAME"
  shows "\<exists>res. uvmcopy_loop kend old new n a s = Inr res \<and> cloned kend R old new a (a + n * PGSIZE) s res"
  using assms(1, 5-7)
proof (induction n arbitrary: a s)
  case 0
  then show ?case by (auto simp: did_refl clones_def cloned_def)
next
  case (Suc n a s)
  let ?b = "a + PGSIZE" and ?w = "lookup (vmem s) old a"
  have b: "?b \<le> TRAPFRAME" "?b mod PGSIZE = 0" "a + Suc n * PGSIZE = ?b + n * PGSIZE" "?b + n * PGSIZE \<le> TRAPFRAME" "a < MAXVA"
    using Suc.prems by (auto simp: TRAPFRAME_def TRAMPOLINE_def PGSIZE_def)
  have nv: "\<not> has (lookup (vmem s) new a) PTE_V" using Suc.prems(4) b(1) by (simp add: unmapped_def PGSIZE_def)
  have rest: ?case if d: "did kend R new a ?b s s1" "clones old new a ?b s s1"
    and eq: "uvmcopy_loop kend old new (Suc n) a s = uvmcopy_loop kend old new n ?b s1" for s1
  proof -
    have "unmapped (vmem s) new ?b TRAPFRAME" using Suc.prems(4) by (simp add: unmapped_def)
    then have "unmapped (vmem s1) new ?b TRAPFRAME"
      using unmapped_did[OF d(1) assms(3)] TRAPFRAME_MAXVA(2) by simp
    moreover have "as_ok kend R s1" using d(1) by (simp add: did_def)
    ultimately obtain res where "uvmcopy_loop kend old new n ?b s1 = Inr res" "cloned kend R old new ?b (?b + n * PGSIZE) s1 res"
      using Suc.IH[of s1 ?b] b(2, 4) by auto
    then show ?thesis using cloned_step[OF Suc.prems(1) assms(2-4) b(4) d] unfolding eq b(3) by auto
  qed
  show ?case
  proof (cases "has ?w PTE_V")
    case False
    then have "clones old new a ?b s s"
      using unmapped_page[OF Suc.prems(2) b(1)] nv by (intro clones_none) auto
    moreover have "uvmcopy_loop kend old new (Suc n) a s = uvmcopy_loop kend old new n ?b s"
      using walk_find[OF as_okD(1)[OF Suc.prems(1)] assms(2) b(5)] b(5) False
      by (auto simp: walk_def lookup_def ent_def split: option.splits)
    ultimately show ?thesis using rest[of s] did_refl[OF Suc.prems(1)] by blast
  next
    case True
    obtain pte where w: "walk old a False s = Inr (Some pte, s)" "rd64 (vmem s) pte = ?w"
      using walk_user[OF as_okD(1)[OF Suc.prems(1)] assms(2) b(5) True] by blast
    have stop: ?thesis if "uvmcopy_loop kend old new (Suc n) a s = Inr (-1, a, s4)" "did kend R new a a s s4" for s4
      using that cloned_stop[OF that(2) assms(3) Suc.prems(4, 2)] by auto
    obtain q s1 where k: "vm_kalloc s = (q, s1)" by fastforce
    show ?thesis
    proof (cases q)
      case None
      then have "s1 = s" using vm_kalloc_None[OF as_okD(1)[OF Suc.prems(1)]] k by simp
      then show ?thesis using None k w True did_refl[OF Suc.prems(1)] by (intro stop[of s]) simp_all
    next
      case (Some p)
      let ?m = "mappages new a PGSIZE p (PTE_FLAGS ?w) (set_mem (memmove p (PTE2PA ?w) PGSIZE) s1)"
      show ?thesis
        using copy_page[OF Suc.prems(1) assms(2, 3) Suc.prems(2) b(1) True nv k[unfolded Some]]
      proof (elim disjE exE conjE)
        fix s3
        assume "?m = Inr (0, s3)" and d: "did kend R new a ?b s s3" "clones old new a ?b s s3"
        then show ?thesis using w True k Some by (intro rest[OF d]) simp
      next
        fix s3 s4
        assume "?m = Inr (-1, s3)" "vm_kfree kend p s3 = Inr s4" "\<forall>b. did kend R new b b s s4"
        then show ?thesis using w True k Some by (intro stop[of s4]) simp_all
      qed
    qed
  qed
qed

lemma uvmcopy_ok:
  assumes "as_ok kend R s" "old \<in> R" "new \<in> R" "old \<noteq> new" "sz \<le> TRAPFRAME" "unmapped (vmem s) new 0 TRAPFRAME"
  shows "\<exists>ret s'. uvmcopy kend old new sz s = Inr (ret, s') \<and> did kend R new 0 (PGROUNDUP sz) s s' \<and>
    (ret = 0 \<and> clones old new 0 (PGROUNDUP sz) s s' \<and> unmapped (vmem s') new (PGROUNDUP sz) TRAPFRAME \<or>
     ret = -1 \<and> unmapped (vmem s') new 0 TRAPFRAME)"
proof -
  let ?n = "PGROUNDUP sz div PGSIZE"
  have n: "?n * PGSIZE = PGROUNDUP sz" using PGROUNDUP_props(1)[of sz] by (auto simp: mod_eq_0_iff_dvd)
  obtain ret b s1 where L: "uvmcopy_loop kend old new ?n 0 s = Inr (ret, b, s1)" "did kend R new 0 b s s1"
    "b mod PGSIZE = 0" "b \<le> PGROUNDUP sz" "unmapped (vmem s1) new b TRAPFRAME"
    "ret = 0 \<and> b = PGROUNDUP sz \<and> clones old new 0 b s s1 \<or> ret = -1"
    using uvmcopy_loop_ok[OF assms(1-4), of 0 ?n] n PGROUNDUP_TRAPFRAME[OF assms(5)] assms(6) by (auto simp: cloned_def)
  show ?thesis
  proof (cases "ret = 0")
    case True
    then show ?thesis using L by (auto simp: uvmcopy_def)
  next
    case False
    have bn: "b div PGSIZE * PGSIZE = b" using L(3) by (auto simp: mod_eq_0_iff_dvd)
    have s1: "as_ok kend R s1" using L(2) by (simp add: did_def)
    have bT: "b \<le> TRAPFRAME" using L(4) PGROUNDUP_TRAPFRAME[OF assms(5)] by simp
    obtain s2 where u: "uvmunmap_loop kend new (b div PGSIZE) 0 True s1 = Inr s2" "did kend R new 0 b s1 s2" "unmapped (vmem s2) new 0 b"
      using uvmunmap_loop_ok[OF s1 assms(3), of 0 "b div PGSIZE"] bn bT by auto
    have "unmapped (vmem s2) new b TRAPFRAME" using unmapped_did[OF u(2) assms(3) L(5)] TRAPFRAME_MAXVA(2) by simp
    then have "unmapped (vmem s2) new 0 TRAPFRAME" by (rule unmapped_append[OF u(3)])
    moreover have "did kend R new 0 (PGROUNDUP sz) s s2"
      using did_mono[OF did_trans[OF L(2) u(2)] order_refl L(4)] .
    ultimately show ?thesis using False L(1, 6) u(1) by (auto simp: uvmcopy_def uvmunmap_def)
  qed
qed

end
