(* ===== verification/Vm_Free.thy ===== *)
theory Vm_Free
  imports Vm_User
begin

unbundle bit_operations_syntax

text \<open>
  Giving an address space back: its user pages, and then the pages of its tables, level by level.
\<close>

section \<open>Definitions\<close>

text \<open>
  The loop over the entries of a table, with the recursive call as a parameter. The recursion is
  bounded by \<open>depth\<close>, the room on the kernel's stack; three levels are enough for every table that
  \<^verbatim>\<open>walk\<close> builds.
\<close>

primrec free_entries :: "(nat \<Rightarrow> vm \<Rightarrow> fault + vm) \<Rightarrow> nat \<Rightarrow> nat \<Rightarrow> nat \<Rightarrow> vm \<Rightarrow> fault + vm" where
  "free_entries rec pagetable 0 = (\<lambda>i s. Inr s)"
| "free_entries rec pagetable (Suc n) = (\<lambda>i s.
    let pte = rd64 (vmem s) (pagetable + 8 * i) in
    if has pte PTE_V \<and> \<not> has pte (PTE_R OR PTE_W OR PTE_X)
    then rbind (rec (PTE2PA pte) s) (\<lambda>s. free_entries rec pagetable n (Suc i) (set_mem (wr64 (pagetable + 8 * i) 0) s))
    else if has pte PTE_V then Inl (Panic ''freewalk: leaf'')
    else free_entries rec pagetable n (Suc i) s)"

primrec freewalk :: "nat \<Rightarrow> nat \<Rightarrow> nat \<Rightarrow> vm \<Rightarrow> fault + vm" where
  "freewalk kend 0 = (\<lambda>pagetable s. Inl (Panic ''kernel stack''))"
| "freewalk kend (Suc depth) = (\<lambda>pagetable s.
    rbind (free_entries (freewalk kend depth) pagetable 512 0 s) (vm_kfree kend pagetable))"

definition uvmfree :: "nat \<Rightarrow> nat \<Rightarrow> nat \<Rightarrow> vm \<Rightarrow> fault + vm" where
  "uvmfree kend pagetable sz s =
    rbind (if sz > 0 then uvmunmap kend pagetable 0 (PGROUNDUP sz div PGSIZE) True s else Inr s)
      (freewalk kend 3 pagetable)"

section \<open>Trees of tables\<close>

text \<open>The pages of the tree of \<open>l\<close> further levels at \<open>p\<close>, and that it is a tree without leaves.\<close>

primrec sub :: "mem \<Rightarrow> nat \<Rightarrow> nat \<Rightarrow> nat set" where
  "sub m 0 p = {p}"
| "sub m (Suc l) p = insert p (\<Union>i \<in> {i. i < 512 \<and> has (ent m p i) PTE_V}. sub m l (PTE2PA (ent m p i)))"

definition children :: "nat \<Rightarrow> (nat \<Rightarrow> bool) \<Rightarrow> mem \<Rightarrow> nat \<Rightarrow> nat \<Rightarrow> nat \<Rightarrow> bool" where
  "children kend P m l i p \<longleftrightarrow> page kend p \<and>
    (\<forall>j < 512. i \<le> j \<longrightarrow> has (ent m p j) PTE_V \<longrightarrow> \<not> has (ent m p j) (PTE_R OR PTE_W OR PTE_X) \<and>
       P (PTE2PA (ent m p j)) \<and> p \<notin> sub m l (PTE2PA (ent m p j))) \<and>
    (\<forall>j < 512. \<forall>k < 512. i \<le> j \<longrightarrow> i \<le> k \<longrightarrow> j \<noteq> k \<longrightarrow> has (ent m p j) PTE_V \<longrightarrow> has (ent m p k) PTE_V \<longrightarrow>
       sub m l (PTE2PA (ent m p j)) \<inter> sub m l (PTE2PA (ent m p k)) = {})"

primrec tree :: "nat \<Rightarrow> mem \<Rightarrow> nat \<Rightarrow> nat \<Rightarrow> bool" where
  "tree kend m 0 p \<longleftrightarrow> page kend p \<and> (\<forall>i < 512. \<not> has (ent m p i) PTE_V)"
| "tree kend m (Suc l) p \<longleftrightarrow> children kend (tree kend m l) m l 0 p"

definition subs :: "mem \<Rightarrow> nat \<Rightarrow> nat \<Rightarrow> nat \<Rightarrow> nat set" where
  "subs m l i p = (\<Union>j \<in> {j. i \<le> j \<and> j < 512 \<and> has (ent m p j) PTE_V}. sub m l (PTE2PA (ent m p j)))"

lemma sub_Suc: "sub m (Suc l) p = insert p (subs m l 0 p)"
  by (simp add: subs_def)

lemma subs_step:
  assumes "i < 512"
  shows "subs m l i p = (if has (ent m p i) PTE_V then sub m l (PTE2PA (ent m p i)) else {}) \<union> subs m l (Suc i) p"
proof -
  have "{j. i \<le> j \<and> j < 512 \<and> has (ent m p j) PTE_V} =
    (if has (ent m p i) PTE_V then {i} else {}) \<union> {j. Suc i \<le> j \<and> j < 512 \<and> has (ent m p j) PTE_V}"
    using assms by (auto simp: Suc_le_eq dest: le_imp_less_or_eq)
  then show ?thesis by (auto simp: subs_def)
qed

lemma sub_root: "p \<in> sub m l p"
  by (cases l) auto

lemma childrenD:
  assumes "children kend P m l i p"
  shows "page kend p"
    and "i \<le> j \<Longrightarrow> j < 512 \<Longrightarrow> has (ent m p j) PTE_V \<Longrightarrow> \<not> has (ent m p j) (PTE_R OR PTE_W OR PTE_X)"
    and "i \<le> j \<Longrightarrow> j < 512 \<Longrightarrow> has (ent m p j) PTE_V \<Longrightarrow> P (PTE2PA (ent m p j))"
    and "i \<le> j \<Longrightarrow> j < 512 \<Longrightarrow> has (ent m p j) PTE_V \<Longrightarrow> p \<notin> sub m l (PTE2PA (ent m p j))"
    and "i \<le> j \<Longrightarrow> j < 512 \<Longrightarrow> i \<le> k \<Longrightarrow> k < 512 \<Longrightarrow> j \<noteq> k \<Longrightarrow> has (ent m p j) PTE_V \<Longrightarrow> has (ent m p k) PTE_V \<Longrightarrow>
      sub m l (PTE2PA (ent m p j)) \<inter> sub m l (PTE2PA (ent m p k)) = {}"
  using assms unfolding children_def by blast+

lemma tree_page: "tree kend m l p \<Longrightarrow> q \<in> sub m l p \<Longrightarrow> page kend q"
proof (induction l arbitrary: p)
  case (Suc l)
  then have c: "children kend (tree kend m l) m l 0 p" by simp
  from Suc.prems(2) show ?case using childrenD(1)[OF c] childrenD(3)[OF c] Suc.IH by auto
qed simp

lemma sub_frame:
  assumes "\<And>q j. q \<in> sub m l p \<Longrightarrow> j < 512 \<Longrightarrow> ent m' q j = ent m q j"
  shows "sub m' l p = sub m l p \<and> (tree kend m' l p \<longleftrightarrow> tree kend m l p)"
  using assms
proof (induction l arbitrary: p)
  case (Suc l)
  have e: "ent m' p j = ent m p j" if "j < 512" for j using Suc.prems[OF _ that, of p] by simp
  have c: "sub m' l (PTE2PA (ent m p j)) = sub m l (PTE2PA (ent m p j)) \<and>
    (tree kend m' l (PTE2PA (ent m p j)) \<longleftrightarrow> tree kend m l (PTE2PA (ent m p j)))" if "j < 512" "has (ent m p j) PTE_V" for j
    using Suc.prems that by (intro Suc.IH) auto
  have "sub m' (Suc l) p = sub m (Suc l) p" using e c by auto
  moreover have "tree kend m' (Suc l) p \<longleftrightarrow> tree kend m (Suc l) p" using e c by (auto simp: children_def)
  ultimately show ?case by blast
qed auto

lemma children_step:
  assumes c: "children kend (tree kend m l) m l i p"
    and e: "\<And>j. i < j \<Longrightarrow> j < 512 \<Longrightarrow> ent m' p j = ent m p j"
    and s: "\<And>q j k. i < j \<Longrightarrow> j < 512 \<Longrightarrow> has (ent m p j) PTE_V \<Longrightarrow> q \<in> sub m l (PTE2PA (ent m p j)) \<Longrightarrow> k < 512 \<Longrightarrow> ent m' q k = ent m q k"
  shows "children kend (tree kend m' l) m' l (Suc i) p" "subs m' l (Suc i) p = subs m l (Suc i) p"
proof -
  have f: "sub m' l (PTE2PA (ent m p j)) = sub m l (PTE2PA (ent m p j)) \<and>
    (tree kend m' l (PTE2PA (ent m p j)) \<longleftrightarrow> tree kend m l (PTE2PA (ent m p j)))" if "i < j" "j < 512" "has (ent m p j) PTE_V" for j
    using s[OF that] by (intro sub_frame)
  show "children kend (tree kend m' l) m' l (Suc i) p" using c e f by (auto simp: children_def)
  show "subs m' l (Suc i) p = subs m l (Suc i) p" using e f by (auto simp: subs_def)
qed

lemma ent_same:
  assumes "page kend q" "j < 512" "\<And>x. page_of x = q \<Longrightarrow> m' x = m x"
  shows "ent m' q j = ent m q j"
  unfolding ent_def
proof (rule rd64_cong)
  fix x assume x: "q + 8 * j \<le> x" "x < q + 8 * j + 8"
  obtain c where "q = PGSIZE * c" using assms(1) by (auto simp: page_def)
  then have "page_of x = q" using x assms(2) by (auto simp: page_of_def PGSIZE_def)
  then show "m' x = m x" by (rule assms(3))
qed

section \<open>Freeing a tree\<close>

definition freed :: "nat \<Rightarrow> nat set \<Rightarrow> nat set \<Rightarrow> vm \<Rightarrow> vm \<Rightarrow> bool" where
  "freed kend S W s s' \<longleftrightarrow> kmem_ok kend (km s') \<and> pages_of (km s') = pages_of (km s) \<union> S \<and>
    (\<forall>x. page_of x \<notin> W \<longrightarrow> vmem s' x = vmem s x)"

definition frees :: "nat \<Rightarrow> nat \<Rightarrow> (nat \<Rightarrow> vm \<Rightarrow> fault + vm) \<Rightarrow> bool" where
  "frees kend l rec \<longleftrightarrow> (\<forall>p s. tree kend (vmem s) l p \<longrightarrow> kmem_ok kend (km s) \<longrightarrow> sub (vmem s) l p \<inter> pages_of (km s) = {} \<longrightarrow>
    (\<exists>s'. rec p s = Inr s' \<and> freed kend (sub (vmem s) l p) (sub (vmem s) l p) s s'))"

lemma free_entries_none:
  "(\<And>j. i \<le> j \<Longrightarrow> j < i + n \<Longrightarrow> \<not> has (ent (vmem s) p j) PTE_V) \<Longrightarrow> free_entries rec p n i s = Inr s"
proof (induction n arbitrary: i)
  case (Suc n)
  then show ?case using Suc.prems[of i] by (simp add: ent_def[symmetric])
qed simp

lemma free_entries_ok:
  assumes rec: "frees kend l rec"
  shows "children kend (tree kend (vmem s) l) (vmem s) l i p \<Longrightarrow> i + n = 512 \<Longrightarrow> kmem_ok kend (km s) \<Longrightarrow>
    subs (vmem s) l i p \<inter> pages_of (km s) = {} \<Longrightarrow>
    \<exists>s'. free_entries rec p n i s = Inr s' \<and> freed kend (subs (vmem s) l i p) (insert p (subs (vmem s) l i p)) s s'"
proof (induction n arbitrary: i s)
  case 0
  then show ?case by (auto simp: subs_def freed_def)
next
  case (Suc n)
  let ?m = "vmem s" and ?c = "PTE2PA (ent (vmem s) p i)"
  note C = childrenD[OF Suc.prems(1)]
  have i: "i < 512" using Suc.prems(2) by simp
  show ?case
  proof (cases "has (ent ?m p i) PTE_V")
    case False
    have "children kend (tree kend ?m l) ?m l (Suc i) p" by (rule children_step(1)[OF Suc.prems(1)]) simp_all
    moreover have "subs ?m l i p = subs ?m l (Suc i) p" using subs_step[OF i] False by simp
    ultimately show ?thesis using Suc.IH[of s "Suc i"] Suc.prems False by (simp add: ent_def[symmetric])
  next
    case True
    have S: "subs ?m l i p = sub ?m l ?c \<union> subs ?m l (Suc i) p"
      using subs_step[OF i] True by simp
    have t: "tree kend ?m l ?c" "p \<notin> sub ?m l ?c" using C(3, 4)[OF order_refl i True] by auto
    obtain s1 where s1: "rec ?c s = Inr s1" "freed kend (sub ?m l ?c) (sub ?m l ?c) s s1"
      using rec t(1) Suc.prems(3, 4) S unfolding frees_def by blast
    define s2 where "s2 = set_mem (wr64 (p + 8 * i) 0) s1"
    have m1: "vmem s1 x = vmem s x" if "page_of x \<notin> sub ?m l ?c" for x using s1(2) that by (simp add: freed_def)
    have e: "ent (vmem s2) q k = ent ?m q k" if "page kend q" "q \<notin> sub ?m l ?c" "k < 512" "\<not> (q = p \<and> k = i)" for q k
      using ent_wr64[OF C(1) that(1) i that(3), of 0 "vmem s1"] ent_same[OF that(1, 3), of "vmem s1" ?m] m1 that(2, 4)
      by (auto simp: s2_def set_mem_def)
    have "ent (vmem s2) q k = ent ?m q k" if "i < j" "j < 512" "has (ent ?m p j) PTE_V" "q \<in> sub ?m l (PTE2PA (ent ?m p j))" "k < 512" for q j k
    proof -
      have "i \<le> j" "i \<noteq> j" using that(1) by auto
      then have "q \<notin> sub ?m l ?c" "q \<noteq> p" "page kend q"
        using C(5)[OF order_refl i _ that(2) _ True that(3)] C(4)[OF _ that(2, 3)] tree_page[OF C(3)[OF _ that(2, 3)] that(4)] that(4) by auto
      then show ?thesis using e that(5) by simp
    qed
    then have N: "children kend (tree kend (vmem s2) l) (vmem s2) l (Suc i) p" "subs (vmem s2) l (Suc i) p = subs ?m l (Suc i) p"
      using e[OF C(1) t(2)] by (intro children_step[OF Suc.prems(1)]; simp)+
    have k2: "kmem_ok kend (km s2)" "pages_of (km s2) = pages_of (km s) \<union> sub ?m l ?c"
      using s1(2) by (auto simp: freed_def s2_def set_mem_def)
    have "sub ?m l ?c \<inter> sub ?m l (PTE2PA (ent ?m p k)) = {}" if "Suc i \<le> k" "k < 512" "has (ent ?m p k) PTE_V" for k
      using C(5)[OF order_refl i _ that(2) _ True that(3)] that(1) by simp
    then have "sub ?m l ?c \<inter> subs ?m l (Suc i) p = {}" unfolding subs_def by blast
    then have "subs (vmem s2) l (Suc i) p \<inter> pages_of (km s2) = {}" using k2(2) N(2) Suc.prems(4) S by auto
    then obtain s' where s': "free_entries rec p n (Suc i) s2 = Inr s'"
      "freed kend (subs ?m l (Suc i) p) (insert p (subs ?m l (Suc i) p)) s2 s'"
      using Suc.IH[OF N(1) _ k2(1)] Suc.prems(2) N(2) by auto
    have "p mod PGSIZE = 0" using C(1) by (simp add: page_def)
    then have "vmem s2 x = vmem s x" if "page_of x \<notin> insert p (sub ?m l ?c)" for x
      using only_page_of[OF only_page_wr64[OF i, of p "vmem s1" 0]] m1 that by (simp add: s2_def set_mem_def)
    then have "freed kend (subs ?m l i p) (insert p (subs ?m l i p)) s s'"
      using s'(2) k2(2) S by (auto simp: freed_def)
    moreover have "free_entries rec p (Suc n) i s = Inr s'"
      using True C(2)[OF order_refl i True] s1(1) s'(1) by (simp add: ent_def s2_def)
    ultimately show ?thesis by blast
  qed
qed

lemma frees_kfree:
  assumes k: "kmem_ok kend (km s)" and p: "page kend p" "p \<notin> pages_of (km s)"
  shows "\<exists>s'. vm_kfree kend p s = Inr s' \<and> freed kend {p} {p} s s'"
proof -
  have v: "vm_ok kend {} s" using k by (simp add: vm_ok_def tables_def upper_def)
  have "p \<notin> tables (vmem s) {}" by (simp add: tables_def)
  from vm_kfree_ok[OF v p this] show ?thesis by (auto simp: freed_def dest: vm_okD(1))
qed

lemma freed_trans: "freed kend S W s s1 \<Longrightarrow> freed kend T X s1 s2 \<Longrightarrow> freed kend (S \<union> T) (W \<union> X) s s2"
  by (auto simp: freed_def)

lemma freewalk_ok: "frees kend l (freewalk kend (Suc l))"
proof (induction l)
  case 0
  show ?case
    unfolding frees_def
  proof (intro allI impI)
    fix p and s :: vm
    assume "tree kend (vmem s) 0 p" "kmem_ok kend (km s)" "sub (vmem s) 0 p \<inter> pages_of (km s) = {}"
    then show "\<exists>s'. freewalk kend (Suc 0) p s = Inr s' \<and> freed kend (sub (vmem s) 0 p) (sub (vmem s) 0 p) s s'"
      using frees_kfree[of kend s p] free_entries_none[of 0 512 s p "freewalk kend 0"] by simp
  qed
next
  case (Suc l)
  show ?case
    unfolding frees_def
  proof (intro allI impI)
    fix p and s :: vm
    assume A: "tree kend (vmem s) (Suc l) p" "kmem_ok kend (km s)" "sub (vmem s) (Suc l) p \<inter> pages_of (km s) = {}"
    let ?S = "subs (vmem s) l 0 p"
    have c: "children kend (tree kend (vmem s) l) (vmem s) l 0 p" using A(1) by simp
    obtain s1 where s1: "free_entries (freewalk kend (Suc l)) p 512 0 s = Inr s1" "freed kend ?S (insert p ?S) s s1"
      using free_entries_ok[OF Suc c _ A(2), of 512] A(3) unfolding sub_Suc by auto
    have "p \<notin> ?S" using childrenD(4)[OF c] by (auto simp: subs_def)
    then have k1: "kmem_ok kend (km s1)" "p \<notin> pages_of (km s1)" using s1(2) A(3) unfolding sub_Suc by (auto simp: freed_def)
    obtain s2 where s2: "vm_kfree kend p s1 = Inr s2" "freed kend {p} {p} s1 s2"
      using frees_kfree[OF k1(1) childrenD(1)[OF c] k1(2)] by blast
    then have "freed kend (insert p ?S) (insert p ?S) s s2" using freed_trans[OF s1(2) s2(2)] by simp
    then show "\<exists>s'. freewalk kend (Suc (Suc l)) p s = Inr s' \<and> freed kend (sub (vmem s) (Suc l) p) (sub (vmem s) (Suc l) p) s s'"
      unfolding sub_Suc using s1(1) s2(1) by auto
  qed
qed

section \<open>The tree of a page table\<close>

lemma tab_append_None: "tab m r xs = None \<Longrightarrow> tab m r (ys @ xs) = None"
  by (induction ys) auto

lemma path_append: "path (ys @ xs) \<Longrightarrow> path xs"
  by (auto simp: path_def)

text \<open>The tree below the table at the path \<open>xs\<close> is what the longer paths lead to.\<close>

lemma sub_paths:
  "path xs \<Longrightarrow> length xs + l = 2 \<Longrightarrow> tab m r xs = Some p \<Longrightarrow>
     sub m l p = {q. \<exists>ys. path (ys @ xs) \<and> tab m r (ys @ xs) = Some q}"
proof (induction l arbitrary: xs p)
  case 0
  have "ys = []" if "path (ys @ xs)" for ys using that 0(2) by (simp add: path_def)
  then have "{q. \<exists>ys. path (ys @ xs) \<and> tab m r (ys @ xs) = Some q} = {q. path ([] @ xs) \<and> tab m r ([] @ xs) = Some q}" by blast
  then show ?case using 0 by simp
next
  case (Suc l)
  have c: "sub m l (PTE2PA (ent m p i)) = {q. \<exists>ys. path (ys @ i # xs) \<and> tab m r (ys @ i # xs) = Some q}"
    if "i < 512" "has (ent m p i) PTE_V" for i
    using that Suc.prems by (intro Suc.IH) (auto simp: path_Cons)
  show ?case
  proof (intro set_eqI iffI)
    fix q assume "q \<in> sub m (Suc l) p"
    then consider "q = p" | i where "i < 512" "has (ent m p i) PTE_V" "q \<in> sub m l (PTE2PA (ent m p i))" by auto
    then show "q \<in> {q. \<exists>ys. path (ys @ xs) \<and> tab m r (ys @ xs) = Some q}"
    proof cases
      case 1
      then show ?thesis using Suc.prems by (auto intro: exI[of _ "[]"])
    next
      case 2
      then obtain ys where "path (ys @ i # xs)" "tab m r (ys @ i # xs) = Some q" using c by auto
      then show ?thesis by (auto intro!: exI[of _ "ys @ [i]"])
    qed
  next
    fix q assume "q \<in> {q. \<exists>ys. path (ys @ xs) \<and> tab m r (ys @ xs) = Some q}"
    then obtain ys where y: "path (ys @ xs)" "tab m r (ys @ xs) = Some q" by auto
    show "q \<in> sub m (Suc l) p"
    proof (cases ys rule: rev_cases)
      case Nil
      then show ?thesis using y Suc.prems(3) by simp
    next
      case (snoc zs i)
      then have z: "path (zs @ i # xs)" "tab m r (zs @ i # xs) = Some q" using y by auto
      then have "tab m r (i # xs) \<noteq> None" using tab_append_None[of m r "i # xs" zs] by auto
      then have v: "has (ent m p i) PTE_V" using Suc.prems(3) by (auto split: if_splits)
      have i: "i < 512" using path_append[OF z(1)] by (simp add: path_Cons)
      then have "q \<in> sub m l (PTE2PA (ent m p i))" using c[OF i v] z by auto
      then show ?thesis using i v by auto
    qed
  qed
qed

lemma tree_paths:
  assumes ok: "vm_ok kend R s" and r: "r \<in> R"
    and leaf: "\<And>xs p i. path xs \<Longrightarrow> length xs = 2 \<Longrightarrow> tab (vmem s) r xs = Some p \<Longrightarrow> i < 512 \<Longrightarrow> \<not> has (ent (vmem s) p i) PTE_V"
  shows "path xs \<Longrightarrow> length xs + l = 2 \<Longrightarrow> tab (vmem s) r xs = Some p \<Longrightarrow> tree kend (vmem s) l p"
proof (induction l arbitrary: xs p)
  case 0
  then show ?case using vm_okD(2)[OF ok tablesI[OF r 0(1, 3)]] leaf[OF 0(1) _ 0(3)] by simp
next
  case (Suc l)
  let ?m = "vmem s"
  have t: "tab ?m r (i # xs) = Some (PTE2PA (ent ?m p i))" "path (i # xs)" if "i < 512" "has (ent ?m p i) PTE_V" for i
    using that Suc.prems by (auto simp: path_Cons)
  have S: "sub ?m l (PTE2PA (ent ?m p i)) = {q. \<exists>ys. path (ys @ i # xs) \<and> tab ?m r (ys @ i # xs) = Some q}"
    if "i < 512" "has (ent ?m p i) PTE_V" for i
    using t[OF that] Suc.prems(2) by (intro sub_paths) auto
  have "p \<in> upper ?m R" using r Suc.prems by (auto simp: upper_def intro!: bexI[of _ r] exI[of _ xs])
  then have "\<not> has (ent ?m p j) (PTE_R OR PTE_W OR PTE_X)" if "j < 512" "has (ent ?m p j) PTE_V" for j
    using vm_okD(5)[OF ok] that by blast
  moreover have "tree kend ?m l (PTE2PA (ent ?m p j))" if "j < 512" "has (ent ?m p j) PTE_V" for j
    using Suc.IH[OF t(2)[OF that] _ t(1)[OF that]] Suc.prems(2) by simp
  moreover have "p \<notin> sub ?m l (PTE2PA (ent ?m p j))" if ji: "j < 512" "has (ent ?m p j) PTE_V" for j
  proof
    assume "p \<in> sub ?m l (PTE2PA (ent ?m p j))"
    then obtain ys where "path (ys @ j # xs)" "tab ?m r (ys @ j # xs) = Some p" using S[OF ji] by auto
    then have "ys @ j # xs = xs" using vm_okD(4)[OF ok r r] Suc.prems(1, 3) by blast
    then have "length (ys @ j # xs) = length xs" by simp
    then show False by simp
  qed
  moreover have "sub ?m l (PTE2PA (ent ?m p j)) \<inter> sub ?m l (PTE2PA (ent ?m p k)) = {}"
    if jk: "j < 512" "has (ent ?m p j) PTE_V" "k < 512" "has (ent ?m p k) PTE_V" "j \<noteq> k" for j k
  proof (rule ccontr)
    assume "\<not> ?thesis"
    then obtain q ys zs where "path (ys @ j # xs)" "tab ?m r (ys @ j # xs) = Some q" "path (zs @ k # xs)" "tab ?m r (zs @ k # xs) = Some q"
      using S[OF jk(1, 2)] S[OF jk(3, 4)] by auto
    then have "(ys @ [j]) @ xs = (zs @ [k]) @ xs" using vm_okD(4)[OF ok r r] by fastforce
    then show False using jk(5) by simp
  qed
  ultimately show ?case
    using vm_okD(2)[OF ok tablesI[OF r Suc.prems(1, 3)]] by (auto simp: children_def)
qed

lemma no_leaves:
  assumes ok: "vm_ok kend R s" and r: "r \<in> R" and u: "unmapped (vmem s) r 0 MAXVA"
    and xs: "path xs" "length xs = 2" "tab (vmem s) r xs = Some p" and i: "i < 512"
  shows "\<not> has (ent (vmem s) p i) PTE_V"
proof -
  obtain a b where ab: "xs = [a, b]" using xs(2) by (auto simp: numeral_2_eq_2 length_Suc_conv)
  have l: "a < 512" "b < 512" using xs(1) by (auto simp: ab path_Cons)
  have "has (ent (vmem s) r b) PTE_V" using xs(3) by (auto simp: ab split: if_splits)
  then have b: "b < 256" using vm_okD(6)[OF ok r, of b] l(2) by (meson not_le)
  define va where "va = (b * 512 + a) * 512 * 4096 + i * 4096"
  have va: "va < MAXVA" using b l i by (simp add: va_def MAXVA_def)
  have "(262144 * b + 512 * a + i) mod 512 = i" 
    using mod_mult_self2[of i 512 "512 * b + a"] i by (simp add: algebra_simps)
  then have "PX 0 va = i" by (simp add: va_def PX_def)
  moreover have "va div 2097152 = b * 512 + a" "va div 1073741824 = b"
    using l i by (auto simp: va_def intro!: div_nat_eqI)
  then have "PX 1 va = a" "PX 2 va = b"
    using l mod_mult_self3[of b 512 a] by (simp_all add: PX_def)
  ultimately have "lookup (vmem s) r va = ent (vmem s) p i" using xs(3) by (simp add: lookup_def leaf_path_def ab)
  then show ?thesis using u va by (metis unmapped_def zero_le)
qed

lemma as_ok_mono: "as_ok kend R s \<Longrightarrow> R' \<subseteq> R \<Longrightarrow> as_ok kend R' s"
proof -
  assume ok: "as_ok kend R s" and sub: "R' \<subseteq> R"
  have T: "tables (vmem s) R' \<subseteq> tables (vmem s) R" "user_pages (vmem s) R' \<subseteq> user_pages (vmem s) R" "upper (vmem s) R' \<subseteq> upper (vmem s) R"
    using sub by (auto simp: tables_def user_pages_def upper_def)
  note v = as_okD(1)[OF ok]
  have "vm_ok kend R' s"
    unfolding vm_ok_def using T sub vm_okD[OF v] by (meson subsetD)
  then show "as_ok kend R' s" unfolding as_ok_def using T sub as_okD[OF ok] by (meson subsetD)
qed

text \<open>The tables go back to the allocator; the other address spaces are as before.\<close>

lemma freewalk_root:
  assumes ok: "as_ok kend R s" and r: "r \<in> R" and u: "unmapped (vmem s) r 0 MAXVA"
  shows "\<exists>s'. freewalk kend 3 r s = Inr s' \<and> as_ok kend (R - {r}) s' \<and> owned (R - {r}) s' = owned R s \<and>
    keeps (R - {r}) r 0 0 s s'"
proof -
  let ?R = "R - {r}"
  note v = as_okD(1)[OF ok]
  have root: "path []" "length [] + 2 = (2::nat)" "tab (vmem s) r [] = Some r" by auto
  have T: "sub (vmem s) 2 r = tables (vmem s) {r}"
    using sub_paths[OF root] by (auto simp: tables_def)
  have t: "tree kend (vmem s) 2 r" by (rule tree_paths[OF v r no_leaves[OF v r u] root])
  have RT: "tables (vmem s) R = tables (vmem s) {r} \<union> tables (vmem s) ?R" using r by (auto simp: tables_def)
  have disj: "tables (vmem s) {r} \<inter> tables (vmem s) ?R = {}"
    using vm_okD(4)[OF v r] by (auto simp: tables_def)
  have free: "tables (vmem s) R \<inter> pages_of (km s) = {}" using vm_okD(3)[OF v] by auto
  then have d: "sub (vmem s) 2 r \<inter> pages_of (km s) = {}" using T RT by auto
  have f: "frees kend 2 (freewalk kend 3)"
    using freewalk_ok[of kend 2] by (simp only: numeral_3_eq_3 numeral_2_eq_2)
  obtain s' where s': "freewalk kend 3 r s = Inr s'" "freed kend (tables (vmem s) {r}) (tables (vmem s) {r}) s s'"
    using f[unfolded frees_def, rule_format, OF t vm_okD(1)[OF v] d] T by auto
  have ok': "as_ok kend ?R s" by (rule as_ok_mono[OF ok]) auto
  note v' = as_okD(1)[OF ok']
  have e: "ent (vmem s') q j = ent (vmem s) q j" if "q \<in> tables (vmem s) ?R" "j < 512" for q j
    using s'(2) that disj by (intro ent_same[OF vm_okD(2)[OF v' that(1)] that(2)]) (auto simp: freed_def)
  have up: "ent (vmem s') q j = ent (vmem s) q j" if "q \<in> upper (vmem s) ?R" "j < 512" for q j
    using e[OF upper_tables] that by simp
  have P: "kmem_ok kend (km s')" "pages_of (km s') = pages_of (km s) \<union> tables (vmem s) {r}" using s'(2) by (auto simp: freed_def)
  have T': "tables (vmem s') ?R = tables (vmem s) ?R" by (rule tables_frame[OF up])
  have vm: "vm_ok kend ?R s'" using P free RT disj by (intro vm_ok_frame[OF v' _ _ up]) auto
  have l: "lookup (vmem s') r' va = lookup (vmem s) r' va" if "r' \<in> ?R" for r' va by (rule lookup_frame[OF that e])
  have "r' \<in> R \<and> va < TRAPFRAME \<and> has (lookup (vmem s) r' va) PTE_V \<longleftrightarrow>
    r' \<in> ?R \<and> va < TRAPFRAME \<and> has (lookup (vmem s) r' va) PTE_V" for r' va
    using u TRAPFRAME_MAXVA(1)[of va] by (auto simp: unmapped_def)
  then have U: "user_pages (vmem s) R = user_pages (vmem s) ?R" by (simp only: user_pages_def)
  have D: "(pages_of (km s') \<union> tables (vmem s') ?R) \<inter> user_pages (vmem s) ?R = {}"
    using as_okD(3, 4)[OF ok] P(2) T' RT U by auto
  note A = as_ok_same_lookup[OF ok' vm l D]
  have "owned ?R s' = owned R s" using A(2) U T' P(2) RT by (auto simp: owned_def)
  moreover have "keeps ?R r 0 0 s s'"
    unfolding keeps_def
  proof (intro ballI allI impI conjI l)
    fix r' vb x
    assume "r' \<in> ?R" "vb < TRAPFRAME" "has (lookup (vmem s) r' vb) PTE_V" "page_of x = PTE2PA (lookup (vmem s) r' vb)"
    then have "page_of x \<notin> tables (vmem s) {r}" using as_okD(4)[OF ok user_pagesI[of r' R vb]] RT by auto
    then show "vmem s' x = vmem s x" using s'(2) by (simp add: freed_def)
  qed
  ultimately show ?thesis using s'(1) A(1) by blast
qed

lemma uvmfree_ok:
  assumes ok: "as_ok kend R s" and r: "r \<in> R" and sz: "sz \<le> TRAPFRAME"
    and u: "unmapped (vmem s) r (PGROUNDUP sz) TRAPFRAME" "unmapped (vmem s) r TRAPFRAME MAXVA"
  shows "\<exists>s'. uvmfree kend r sz s = Inr s' \<and> as_ok kend (R - {r}) s' \<and> owned (R - {r}) s' = owned R s \<and>
    keeps (R - {r}) r 0 0 s s'"
proof -
  let ?n = "PGROUNDUP sz div PGSIZE"
  have n: "?n * PGSIZE = PGROUNDUP sz" using PGROUNDUP_props(1)[of sz] by (auto simp: mod_eq_0_iff_dvd)
  have "\<exists>s1. uvmunmap kend r 0 ?n True s = Inr s1 \<and> did kend R r 0 (PGROUNDUP sz) s s1 \<and> unmapped (vmem s1) r 0 (PGROUNDUP sz)"
    using uvmunmap_loop_ok[OF ok r, of 0 ?n] n PGROUNDUP_TRAPFRAME[OF sz] by (auto simp: uvmunmap_def)
  moreover have "PGROUNDUP sz = 0" if "sz = 0" using that PGROUNDUP_id[of 0] by simp
  ultimately obtain s1 where s1: "(if sz > 0 then uvmunmap kend r 0 ?n True s else Inr s) = Inr s1"
    "did kend R r 0 (PGROUNDUP sz) s s1" "unmapped (vmem s1) r 0 (PGROUNDUP sz)"
    using did_refl[OF ok] by (cases "sz = 0") (auto simp: unmapped_def)
  have "unmapped (vmem s1) r (PGROUNDUP sz) TRAPFRAME" "unmapped (vmem s1) r TRAPFRAME MAXVA"
    using unmapped_did[OF s1(2) r u(1)] unmapped_did[OF s1(2) r u(2)] PGROUNDUP_TRAPFRAME[OF sz] TRAPFRAME_MAXVA(2) by auto
  then have "unmapped (vmem s1) r 0 MAXVA" using unmapped_append s1(3) by blast
  moreover have "as_ok kend R s1" "owned R s1 = owned R s" "keeps (R - {r}) r 0 0 s s1"
    using s1(2) by (auto simp: did_def keeps_def)
  ultimately show ?thesis
    using freewalk_root[OF _ r, of kend s1] s1(1) keeps_trans[of "R - {r}" r 0 0 s s1] by (auto simp: uvmfree_def)
qed

end
