(* ===== verification/Vm_Isolation.thy ===== *)
theory Vm_Isolation
  imports Vm_Copy Vm_Free
begin

text \<open>
  Any number of processes on one physical memory: what holds in every state they can bring it to.
\<close>

section \<open>Processes that share the memory\<close>

text \<open>
  The sizes of the address spaces by page table, and the machine. A step is one call for one of
  them; a size stays below the trap frame, which the code does not check itself.
\<close>

type_synonym spaces = "(nat \<rightharpoonup> nat) \<times> vm"

inductive vm_step :: "nat \<Rightarrow> spaces \<Rightarrow> spaces \<Rightarrow> bool" for kend where
  step_create: "uvmcreate s = (Some r, s') \<Longrightarrow> vm_step kend (sz, s) (sz(r \<mapsto> 0), s')"
| step_create_fails: "uvmcreate s = (None, s') \<Longrightarrow> vm_step kend (sz, s) (sz, s')"
| step_sbrk: "sz r = Some n \<Longrightarrow> int n + d \<le> int TRAPFRAME \<Longrightarrow> - (2 ^ 31) \<le> d \<Longrightarrow> sys_sbrk kend r d t n s = Inr (x, n', s') \<Longrightarrow>
    vm_step kend (sz, s) (sz(r \<mapsto> n'), s')"
| step_fault: "sz r = Some n \<Longrightarrow> vmfault kend n r r va s = Inr (pa, s') \<Longrightarrow> vm_step kend (sz, s) (sz, s')"
| step_copyout: "sz r = Some n \<Longrightarrow> copyout kend n r r va src s = Inr (ret, s') \<Longrightarrow> vm_step kend (sz, s) (sz, s')"
| step_copyin: "sz r = Some n \<Longrightarrow> copyin kend n r r va len s = Inr (ret, bs, s') \<Longrightarrow> vm_step kend (sz, s) (sz, s')"
| step_fork: "sz r = Some n \<Longrightarrow> sz c = Some 0 \<Longrightarrow> c \<noteq> r \<Longrightarrow> uvmcopy kend r c n s = Inr (ret, s') \<Longrightarrow>
    vm_step kend (sz, s) (sz(c \<mapsto> if ret = 0 then n else 0), s')"
| step_free: "sz r = Some n \<Longrightarrow> uvmfree kend r n s = Inr s' \<Longrightarrow> vm_step kend (sz, s) (sz(r := None), s')"

inductive_cases vm_stepE: "vm_step kend (sz, s) c"

definition vm_init :: "nat \<Rightarrow> spaces \<Rightarrow> bool" where
  "vm_init kend c \<longleftrightarrow> 0 < kend \<and> fst c = Map.empty \<and>
    (\<exists>k0. freelist k0 = 0 \<and> kinit kend k0 = Inr (km (snd c)))"

definition spaces_ok :: "nat \<Rightarrow> spaces \<Rightarrow> bool" where
  "spaces_ok kend = (\<lambda>(sz, s). as_ok kend (dom sz) s \<and> owned (dom sz) s = whole_pages kend \<and>
    (\<forall>r n. sz r = Some n \<longrightarrow> n \<le> TRAPFRAME \<and> unmapped (vmem s) r (PGROUNDUP n) TRAPFRAME \<and> unmapped (vmem s) r TRAPFRAME MAXVA))"

lemma wrap64_id: "0 \<le> x \<Longrightarrow> x < 2 ^ 64 \<Longrightarrow> wrap64 x = nat x"
  by (simp add: wrap64_def)

lemma TRAPFRAME_small: "TRAPFRAME < 2 ^ 38"
  by (simp add: TRAPFRAME_def TRAMPOLINE_def MAXVA_def PGSIZE_def)

lemma unmapped_sub: "unmapped m r a b \<Longrightarrow> a \<le> a' \<Longrightarrow> b' \<le> b \<Longrightarrow> unmapped m r a' b'"
  by (auto simp: unmapped_def)

text \<open>What a change of size leaves: \<open>n'\<close> is the new size.\<close>

definition resized :: "nat \<Rightarrow> nat set \<Rightarrow> nat \<Rightarrow> nat \<Rightarrow> nat \<Rightarrow> vm \<Rightarrow> vm \<Rightarrow> bool" where
  "resized kend R r n n' s s' \<longleftrightarrow> n' \<le> TRAPFRAME \<and> unmapped (vmem s') r (PGROUNDUP n') TRAPFRAME \<and>
    did kend R r (min (PGROUNDUP n) (PGROUNDUP n')) TRAPFRAME s s'"

lemma resized_did:
  assumes r: "r \<in> R" and n: "n' \<le> TRAPFRAME" "h \<le> TRAPFRAME" and d: "did kend R r lo h s s'"
    and lo: "min (PGROUNDUP n) (PGROUNDUP n') \<le> lo" "PGROUNDUP n' \<le> h"
    and u: "unmapped (vmem s) r h TRAPFRAME" "unmapped (vmem s') r (PGROUNDUP n') h"
  shows "resized kend R r n n' s s'"
proof -
  have "unmapped (vmem s') r h TRAPFRAME" using unmapped_did[OF d r u(1)] TRAPFRAME_MAXVA(2) by simp
  then show ?thesis
    using n u(2) unmapped_append did_mono[OF d lo(1) n(2)] unfolding resized_def by blast
qed

lemma resized_refl:
  "as_ok kend R s \<Longrightarrow> n \<le> n' \<Longrightarrow> n' \<le> TRAPFRAME \<Longrightarrow> unmapped (vmem s) r (PGROUNDUP n) TRAPFRAME \<Longrightarrow>
     resized kend R r n n' s s"
  using unmapped_sub[OF _ PGROUNDUP_mono[of n n']] by (auto simp: resized_def did_refl)

lemma growproc_grows:
  assumes ok: "as_ok kend R s" and r: "r \<in> R" and n: "n \<le> TRAPFRAME" "unmapped (vmem s) r (PGROUNDUP n) TRAPFRAME"
    and d: "int n + d \<le> int TRAPFRAME" "0 < d"
  shows "\<exists>x n' s'. growproc kend r d n s = Inr (x, n', s') \<and> resized kend R r n n' s s'"
proof -
  define m where "m = nat (int n + d)"
  have m: "wrap64 (int n + d) = m" "n \<le> m" "m \<le> TRAPFRAME" "0 < m"
    using d TRAPFRAME_small by (auto simp: m_def intro!: wrap64_id)
  have pm: "PGROUNDUP m \<le> TRAPFRAME" "PGROUNDUP n \<le> PGROUNDUP m" using m PGROUNDUP_TRAPFRAME PGROUNDUP_mono by auto
  obtain ret s' where g: "uvmalloc kend r n m PTE_W s = Inr (ret, s')" "did kend R r (PGROUNDUP n) (PGROUNDUP m) s s'"
    "ret = m \<or> ret = 0 \<and> unmapped (vmem s') r (PGROUNDUP n) (PGROUNDUP m)"
    using uvmalloc_ok[OF ok r m(2, 3) flags_consts(3) unmapped_sub[OF n(2) order_refl pm(1)]] by auto
  have u: "unmapped (vmem s) r (PGROUNDUP m) TRAPFRAME" by (rule unmapped_sub[OF n(2) pm(2) order_refl])
  from g(3) show ?thesis
  proof (elim disjE conjE)
    assume ret: "ret = m"
    have "resized kend R r n m s s'"
      using pm by (intro resized_did[OF r m(3) pm(1) g(2) _ _ u]) (auto simp: unmapped_def)
    then show ?thesis using g(1) m(1, 4) d(2) ret by (auto simp: growproc_def)
  next
    assume ret: "ret = 0" and u': "unmapped (vmem s') r (PGROUNDUP n) (PGROUNDUP m)"
    have "resized kend R r n n s s'"
      using pm by (intro resized_did[OF r n(1) pm(1) g(2) _ _ u u']) auto
    then show ?thesis using g(1) m(1) d(2) ret by (auto simp: growproc_def)
  qed
qed

lemma growproc_shrinks:
  assumes ok: "as_ok kend R s" and r: "r \<in> R" and n: "n \<le> TRAPFRAME" "unmapped (vmem s) r (PGROUNDUP n) TRAPFRAME"
    and d: "- (2 ^ 31) \<le> d" "d < 0"
  shows "\<exists>n' s'. growproc kend r d n s = Inr (0, n', s') \<and> resized kend R r n n' s s'"
proof -
  define m where "m = wrap64 (int n + d)"
  obtain s' where g: "uvmdealloc kend r n m s = Inr (min n m, s')" "did kend R r (PGROUNDUP m) (PGROUNDUP n) s s'"
    "unmapped (vmem s') r (PGROUNDUP m) (PGROUNDUP n)" using uvmdealloc_ok[OF ok r n(1)] by blast
  have pn: "PGROUNDUP n \<le> TRAPFRAME" by (rule PGROUNDUP_TRAPFRAME[OF n(1)])
  have "m \<le> n \<or> n < m" by auto
  moreover have "resized kend R r n m s s'" if "m \<le> n"
    using that n(1) PGROUNDUP_mono[OF that] g(3)
    by (intro resized_did[OF r _ pn g(2) _ _ n(2)]) auto
  moreover have "resized kend R r n n s s'" if "n < m"
    using that n(1) PGROUNDUP_mono[of n m] by (intro resized_did[OF r _ pn g(2) _ _ n(2)]) (auto simp: unmapped_def)
  ultimately have "resized kend R r n (min n m) s s'" by (auto simp: min_def)
  then show ?thesis using g(1) d(2) by (auto simp: growproc_def m_def)
qed

lemma sbrk_ok:
  assumes ok: "as_ok kend R s" and r: "r \<in> R" and n: "n \<le> TRAPFRAME" "unmapped (vmem s) r (PGROUNDUP n) TRAPFRAME"
    and d: "int n + d \<le> int TRAPFRAME" "- (2 ^ 31) \<le> d"
  shows "\<exists>x n' s'. sys_sbrk kend r d t n s = Inr (x, n', s') \<and> resized kend R r n n' s s'"
proof (cases "t = SBRK_EAGER \<or> d < 0")
  case True
  consider "0 < d" | "d < 0" | "d = 0" by linarith
  then obtain x n' s' where "growproc kend r d n s = Inr (x, n', s')" "resized kend R r n n' s s'"
    using growproc_grows[OF ok r n d(1)] growproc_shrinks[OF ok r n d(2)] resized_refl[OF ok order_refl n]
    by cases (auto simp: growproc_def)
  then show ?thesis using True by (cases "x < 0") (auto simp: sys_sbrk_def)
next
  case False
  then have "wrap64 (int n + d) = nat (int n + d)" using d TRAPFRAME_small by (intro wrap64_id) auto
  moreover have "resized kend R r n (nat (int n + d)) s s"
    using False d by (intro resized_refl[OF ok _ _ n(2)]) auto
  moreover have "\<not> nat (int n + d) < n" using False by auto
  ultimately show ?thesis using False by (auto simp: sys_sbrk_def)
qed

lemma unmapped_other:
  assumes "did kend R r lo hi s s'" "r' \<in> R" "r' \<noteq> r" "unmapped (vmem s) r' a b" "b \<le> MAXVA"
  shows "unmapped (vmem s') r' a b"
  unfolding unmapped_def
proof (intro allI impI)
  fix vb assume "a \<le> vb" "vb < b"
  then show "\<not> has (lookup (vmem s') r' vb) PTE_V"
    using did_lookup[OF assms(1, 2), of vb] assms(3-5) by (auto simp: unmapped_def)
qed

lemma spaces_init: "vm_init kend c \<Longrightarrow> spaces_ok kend c"
proof -
  assume i: "vm_init kend c"
  obtain s where c: "c = (Map.empty, s)" using i by (cases c) (auto simp: vm_init_def)
  obtain k0 where k0: "0 < kend" "freelist k0 = 0" "kinit kend k0 = Inr (km s)"
    using i unfolding vm_init_def c by auto
  then have k: "kmem_ok kend (km s)" "pages_of (km s) = whole_pages kend" using kinit_ok[OF k0(1, 2)] by auto
  have "tables (vmem s) {} = {}" "user_pages (vmem s) {} = {}" by (auto simp: tables_def user_pages_def)
  then show ?thesis using k by (auto simp: c spaces_ok_def as_ok_def vm_ok_def owned_def upper_def)
qed

lemma spaces_create:
  assumes ok: "spaces_ok kend (sz, s)" and c: "uvmcreate s = (Some r, s')"
  shows "spaces_ok kend (sz(r \<mapsto> 0), s')"
proof -
  have a: "as_ok kend (dom sz) s" using ok by (simp add: spaces_ok_def)
  note C = create_ok[OF a c]
  have "unmapped (vmem s') r' (PGROUNDUP n) TRAPFRAME" if "sz r' = Some n" for r' n
    using ok that C(5)[of r'] by (auto simp: spaces_ok_def unmapped_def dom_def)
  moreover have "unmapped (vmem s') r a b" for a b using C(4) by (simp add: unmapped_def)
  moreover have "unmapped (vmem s') r' TRAPFRAME MAXVA" if "sz r' = Some n" for r' n
    using ok that C(5)[of r'] by (auto simp: spaces_ok_def unmapped_def dom_def)
  ultimately show ?thesis using ok C(1, 2) by (auto simp: spaces_ok_def)
qed

lemma top_did:
  assumes "did kend R r lo hi s s'" "r' \<in> R" "hi \<le> TRAPFRAME" "unmapped (vmem s) r' TRAPFRAME MAXVA"
  shows "unmapped (vmem s') r' TRAPFRAME MAXVA"
  unfolding unmapped_def
proof (intro allI impI)
  fix vb assume "TRAPFRAME \<le> vb" "vb < MAXVA"
  then show "\<not> has (lookup (vmem s') r' vb) PTE_V"
    using did_lookup[OF assms(1, 2), of vb] assms(3, 4) by (auto simp: unmapped_def)
qed

lemma spaces_resized:
  assumes ok: "spaces_ok kend (sz, s)" and r: "sz r = Some n" and d: "resized kend (dom sz) r n n' s s'"
  shows "spaces_ok kend (sz(r \<mapsto> n'), s')"
proof -
  have dom: "insert r (dom sz) = dom sz" using r by auto
  have dd: "did kend (dom sz) r (min (PGROUNDUP n) (PGROUNDUP n')) TRAPFRAME s s'" using d by (simp add: resized_def)
  have "unmapped (vmem s') r' (PGROUNDUP k) TRAPFRAME" if "sz r' = Some k" "r' \<noteq> r" for r' k
    using unmapped_other[OF dd _ that(2)] ok that TRAPFRAME_MAXVA(2) by (auto simp: spaces_ok_def dom_def)
  moreover have "unmapped (vmem s') r' TRAPFRAME MAXVA" if "sz r' = Some k" for r' k
    using top_did[OF dd _ order_refl, of r'] ok that by (auto simp: spaces_ok_def dom_def)
  ultimately show ?thesis
    using ok r d dd by (auto simp: spaces_ok_def resized_def did_def dom)
qed

lemma spaces_served:
  assumes ok: "spaces_ok kend (sz, s)" and r: "sz r = Some n" and f: "served kend n (dom sz) r s s'"
  shows "spaces_ok kend (sz, s')"
proof -
  have l: "lazily n (dom sz) r s s'" using f by (simp add: served_def)
  have "unmapped (vmem s') r' (PGROUNDUP k) TRAPFRAME" "unmapped (vmem s') r' TRAPFRAME MAXVA" if k: "sz r' = Some k" for r' k
  proof -
    have "PGROUNDUP n \<le> PGROUNDUP k" if "r' = r" using that r k by simp
    then show "unmapped (vmem s') r' (PGROUNDUP k) TRAPFRAME"
      using lazily_unmapped[OF l, of r' "PGROUNDUP k" TRAPFRAME] ok k TRAPFRAME_MAXVA(2) by (auto simp: spaces_ok_def)
    show "unmapped (vmem s') r' TRAPFRAME MAXVA"
      using lazily_unmapped[OF l, of r' TRAPFRAME MAXVA] ok r k PGROUNDUP_TRAPFRAME[of n] by (auto simp: spaces_ok_def)
  qed
  then show ?thesis using ok f by (auto simp: spaces_ok_def served_def)
qed

lemma spaces_okD:
  assumes "spaces_ok kend (sz, s)" "sz r = Some n"
  shows "as_ok kend (dom sz) s" "r \<in> dom sz" "n \<le> TRAPFRAME" "top_ok (vmem s) r" "unmapped (vmem s) r (PGROUNDUP n) TRAPFRAME"
    "unmapped (vmem s) r TRAPFRAME MAXVA"
  using assms by (auto simp: spaces_ok_def top_ok_def unmapped_def readable_def)

lemma PGROUNDUP_0 [simp]: "PGROUNDUP 0 = 0"
  by (rule PGROUNDUP_id) simp

lemma spaces_fork:
  assumes ok: "spaces_ok kend (sz, s)" and r: "sz r = Some n" "sz c = Some 0" "c \<noteq> r" and f: "uvmcopy kend r c n s = Inr (ret, s')"
  shows "spaces_ok kend (sz(c \<mapsto> if ret = 0 then n else 0), s')"
proof -
  note P = spaces_okD[OF ok r(1)] and C = spaces_okD[OF ok r(2)]
  have F: "did kend (dom sz) c 0 (PGROUNDUP n) s s'"
    "ret = 0 \<and> unmapped (vmem s') c (PGROUNDUP n) TRAPFRAME \<or> ret = -1 \<and> unmapped (vmem s') c 0 TRAPFRAME"
    using uvmcopy_ok[OF P(1, 2) C(2) _ P(3)] C(5) r(3) f by auto
  have "resized kend (dom sz) c 0 (if ret = 0 then n else 0) s s'"
    using did_mono[OF F(1) order_refl PGROUNDUP_TRAPFRAME[OF P(3)]] F(2) P(3) by (auto simp: resized_def)
  then show ?thesis by (rule spaces_resized[OF ok r(2)])
qed

lemma spaces_free:
  assumes ok: "spaces_ok kend (sz, s)" and r: "sz r = Some n" and f: "uvmfree kend r n s = Inr s'"
  shows "spaces_ok kend (sz(r := None), s')"
proof -
  note S = spaces_okD[OF ok r]
  have F: "as_ok kend (dom sz - {r}) s'" "owned (dom sz - {r}) s' = owned (dom sz) s" "keeps (dom sz - {r}) r 0 0 s s'"
    using uvmfree_ok[OF S(1-3, 5, 6)] f by auto
  have "unmapped (vmem s') r' (PGROUNDUP k) TRAPFRAME" "unmapped (vmem s') r' TRAPFRAME MAXVA" "k \<le> TRAPFRAME"
    if k: "sz r' = Some k" "r' \<noteq> r" for r' k
  proof -
    have "r' \<in> dom sz - {r}" using k by auto
    then have "lookup (vmem s') r' vb = lookup (vmem s) r' vb" if "vb < MAXVA" for vb
      using F(3) that by (simp add: keeps_def)
    then show "unmapped (vmem s') r' (PGROUNDUP k) TRAPFRAME" "unmapped (vmem s') r' TRAPFRAME MAXVA" "k \<le> TRAPFRAME"
      using spaces_okD(3, 5, 6)[OF ok k(1)] TRAPFRAME_MAXVA(1) by (auto simp: unmapped_def)
  qed
  then show ?thesis using F(1, 2) ok by (auto simp: spaces_ok_def)
qed

interpretation address_spaces: invariant_system "vm_init kend" "vm_step kend" "spaces_ok kend"
proof
  show "spaces_ok kend c" if "vm_init kend c" for c using that by (rule spaces_init)
  fix c c' assume "spaces_ok kend c" "vm_step kend c c'"
  from this(2, 1) show "spaces_ok kend c'"
  proof (induction rule: vm_step.induct)
    case (step_create s r s' sz)
    then show ?case by (blast intro: spaces_create)
  next
    case (step_create_fails s s' sz)
    then have "s' = s" using vm_kalloc_None[of kend "dom sz" s]
      by (auto simp: uvmcreate_def spaces_ok_def as_ok_def split: prod.splits option.splits)
    then show ?case using step_create_fails by simp
  next
    case (step_sbrk sz r n d t s x n' s')
    then have "resized kend (dom sz) r n n' s s'"
      using sbrk_ok[of kend "dom sz" s r n d t] by (auto simp: spaces_ok_def dom_def)
    then show ?case using step_sbrk spaces_resized by blast
  next
    case (step_fault sz r n va s pa s')
    note S = spaces_okD[OF step_fault(3, 1)]
    show ?case using vmfault_memory[OF S(1-3), of va] step_fault by (auto intro: spaces_served)
  next
    case (step_copyout sz r n va src s ret s')
    note S = spaces_okD[OF step_copyout(3, 1)]
    show ?case using copyout_ok[OF S(1-4), of va src] step_copyout by (auto simp: copied_def intro: spaces_served)
  next
    case (step_copyin sz r n va len s ret bs s')
    note S = spaces_okD[OF step_copyin(3, 1)]
    show ?case using copyin_ok[OF S(1-4), of va len] step_copyin by (auto simp: fetched_def intro: spaces_served)
  next
    case (step_fork sz r n c s ret s')
    then show ?case by (blast intro: spaces_fork)
  next
    case (step_free sz r n s s')
    then show ?case by (blast intro: spaces_free)
  qed
qed

lemma create_step:
  assumes "reach (vm_init kend) (vm_step kend) (sz, s)" "pages_of (km s) \<noteq> {}"
  obtains r s' where "reach (vm_init kend) (vm_step kend) (sz(r \<mapsto> 0), s')" "r \<in> pages_of (km s)" "r \<notin> dom sz"
    "pages_of (km s') = pages_of (km s) - {r}"
proof -
  have a: "as_ok kend (dom sz) s" using address_spaces.reach_inv[OF assms(1)] by (simp add: spaces_ok_def)
  have "vm_kalloc s \<noteq> (None, s')" for s' using vm_kalloc_None[OF as_okD(1)[OF a], of s'] assms(2) by auto
  then obtain r s1 where k: "vm_kalloc s = (Some r, s1)" by (metis not_None_eq surj_pair)
  then have c: "uvmcreate s = (Some r, set_mem (memset r 0 PGSIZE) s1)" by (simp add: uvmcreate_def)
  have "reach (vm_init kend) (vm_step kend) (sz(r \<mapsto> 0), set_mem (memset r 0 PGSIZE) s1)"
    by (rule reach_step[OF assms(1) step_create[OF c]])
  then show thesis
    using that[of r] fresh_page(3, 6)[OF as_okD(1)[OF a] k fills_memset[of r 0]] create_ok(3)[OF a c] by blast
qed

lemma two_left: "{a, b} \<subseteq> X \<Longrightarrow> a \<noteq> b \<Longrightarrow> X - {r} \<noteq> {}"
  by auto

lemma two_spaces: "\<exists>s r c. reach (vm_init 0x87ffe000) (vm_step 0x87ffe000) ([r \<mapsto> 0, c \<mapsto> 0], s) \<and> r \<noteq> c"
proof -
  let ?e = "0x87ffe000 :: nat" and ?k0 = "\<lparr>freelist = 0, next_of = (\<lambda>_. 0)\<rparr>"
  obtain k where k: "kinit ?e ?k0 = Inr k" "pages_of k = whole_pages ?e" using kinit_ok[of ?e ?k0] by auto
  let ?s = "\<lparr>vmem = (\<lambda>_. 0), km = k\<rparr>"
  have i: "vm_init ?e (Map.empty, ?s)" using k(1) by (auto simp: vm_init_def intro!: exI[of _ ?k0])
  have P: "{?e, ?e + PGSIZE} \<subseteq> pages_of (km ?s)" unfolding vm.simps k(2) by (simp add: whole_pages_def PGSIZE_def PHYSTOP_def KERNBASE_def)
  then have "pages_of (km ?s) \<noteq> {}" by auto
  then obtain r s1 where A: "reach (vm_init ?e) (vm_step ?e) ([r \<mapsto> 0], s1)" "r \<in> pages_of (km ?s)" "r \<notin> dom (Map.empty :: nat \<rightharpoonup> nat)"
    "pages_of (km s1) = pages_of (km ?s) - {r}" by (rule create_step[OF reach_init[of "vm_init ?e", OF i]])
  have "?e \<noteq> ?e + PGSIZE" by (simp add: PGSIZE_def)
  then have "pages_of (km s1) \<noteq> {}" unfolding A(4) by (rule two_left[OF P])
  then obtain c s2 where "reach (vm_init ?e) (vm_step ?e) ([r \<mapsto> 0, c \<mapsto> 0], s2)" "c \<in> pages_of (km s1)" "c \<notin> dom [r \<mapsto> 0 :: nat]"
    "pages_of (km s2) = pages_of (km s1) - {c}" by (rule create_step[OF A(1)])
  then show ?thesis by (intro exI[of _ s2] exI[of _ r] exI[of _ c]) simp
qed

text \<open>
  C35: Address spaces are isolated. Whatever sequence of page table creations, \<^verbatim>\<open>sbrk\<close> calls, eager
  or lazy, page faults, copies between kernel and user memory, copies of the memory of a parent
  to a child and releases of whole address spaces the processes make, as long as no size goes beyond the trap frame: two mapped user
  pages, of one process or of two, are different physical pages; no mapped page is free or a page
  table; nothing is mapped beyond the size; every page of the machine is free, a page table or
  mapped, so none is lost; and none of the calls that may follow panics.
\<close>

theorem vm_isolation:
  assumes "reach (vm_init kend) (vm_step kend) (sz, s)" "sz r = Some n"
  shows "(\<forall>r' n' va vb. sz r' = Some n' \<longrightarrow> va < TRAPFRAME \<longrightarrow> vb < TRAPFRAME \<longrightarrow>
      has (lookup (vmem s) r va) PTE_V \<longrightarrow> has (lookup (vmem s) r' vb) PTE_V \<longrightarrow>
      PTE2PA (lookup (vmem s) r va) = PTE2PA (lookup (vmem s) r' vb) \<longrightarrow> r' = r \<and> va div PGSIZE = vb div PGSIZE) \<and>
    (\<forall>va < TRAPFRAME. has (lookup (vmem s) r va) PTE_V \<longrightarrow> va < PGROUNDUP n \<and>
      PTE2PA (lookup (vmem s) r va) \<notin> pages_of (km s) \<union> tables (vmem s) (dom sz)) \<and>
    owned (dom sz) s = whole_pages kend \<and>
    (\<forall>d t. int n + d \<le> int TRAPFRAME \<longrightarrow> - (2 ^ 31) \<le> d \<longrightarrow> ok (sys_sbrk kend r d t n s)) \<and>
    (\<forall>va. ok (vmfault kend n r r va s)) \<and>
    (\<forall>va src. ok (copyout kend n r r va src s)) \<and> (\<forall>va len. ok (copyin kend n r r va len s)) \<and>
    (\<forall>c. sz c = Some 0 \<longrightarrow> c \<noteq> r \<longrightarrow> ok (uvmcopy kend r c n s)) \<and> ok (uvmfree kend r n s)"
proof (intro conjI)
  have inv: "spaces_ok kend (sz, s)" by (rule address_spaces.reach_inv[OF assms(1)])
  then have o: "owned (dom sz) s = whole_pages kend" by (simp add: spaces_ok_def)
  note S = spaces_okD[OF inv assms(2)]
  show "\<forall>r' n' va vb. sz r' = Some n' \<longrightarrow> va < TRAPFRAME \<longrightarrow> vb < TRAPFRAME \<longrightarrow>
      has (lookup (vmem s) r va) PTE_V \<longrightarrow> has (lookup (vmem s) r' vb) PTE_V \<longrightarrow>
      PTE2PA (lookup (vmem s) r va) = PTE2PA (lookup (vmem s) r' vb) \<longrightarrow> r' = r \<and> va div PGSIZE = vb div PGSIZE"
    using as_okD(5)[OF S(1, 2)] unfolding same_page_def by (metis domI)
  show "\<forall>va < TRAPFRAME. has (lookup (vmem s) r va) PTE_V \<longrightarrow> va < PGROUNDUP n \<and>
      PTE2PA (lookup (vmem s) r va) \<notin> pages_of (km s) \<union> tables (vmem s) (dom sz)"
    using S(5) as_okD(3, 4)[OF S(1) user_pagesI[OF S(2)]] unfolding unmapped_def by (metis Un_iff not_le)
  show "owned (dom sz) s = whole_pages kend" by (rule o)
  show "\<forall>d t. int n + d \<le> int TRAPFRAME \<longrightarrow> - (2 ^ 31) \<le> d \<longrightarrow> ok (sys_sbrk kend r d t n s)"
    using sbrk_ok[OF S(1-3, 5)] unfolding ok_iff by blast
  show "\<forall>va. ok (vmfault kend n r r va s)" using vmfault_ok[OF S(1-3)] unfolding ok_iff by blast
  show "\<forall>va src. ok (copyout kend n r r va src s)" "\<forall>va len. ok (copyin kend n r r va len s)"
    using copyout_ok[OF S(1-4)] copyin_ok[OF S(1-4)] unfolding ok_iff by blast+
  show "\<forall>c. sz c = Some 0 \<longrightarrow> c \<noteq> r \<longrightarrow> ok (uvmcopy kend r c n s)"
    using uvmcopy_ok[OF S(1, 2) _ _ S(3)] spaces_okD(2, 5)[OF inv] unfolding ok_iff by (metis PGROUNDUP_0)
  show "ok (uvmfree kend r n s)" using uvmfree_ok[OF S(1-3, 5, 6)] unfolding ok_iff by blast
qed

theorem vm_isolation_witness:
  "\<exists>sz s r. reach (vm_init 0x87ffe000) (vm_step 0x87ffe000) (sz, s) \<and> sz r = Some 0 \<and>
    owned (dom sz) s = whole_pages 0x87ffe000 \<and> ok (copyout 0x87ffe000 0 r r 0 [1] s)"
proof -
  obtain s r c where R: "reach (vm_init 0x87ffe000) (vm_step 0x87ffe000) ([r \<mapsto> 0, c \<mapsto> 0], s)" "r \<noteq> c" using two_spaces by blast
  then show ?thesis using vm_isolation[OF R(1), of r 0] by fastforce
qed

text \<open>
  C36: Copying to user memory. Whatever happened before, \<^verbatim>\<open>copyout\<close> stores a prefix of the bytes at the
  address and changes no other byte of any process; it returns 0 when the prefix is everything and
  -1 otherwise, and it does store everything when the pages are there and writable. What it stored
  \<^verbatim>\<open>copyin\<close> returns.
\<close>

theorem user_memory_copy:
  assumes "reach (vm_init kend) (vm_step kend) (sz, s)" "sz r = Some n"
  shows "\<exists>ret s'. copyout kend n r r va src s = Inr (ret, s') \<and>
    (\<exists>k \<le> length src. ret = (if k = length src then 0 else -1) \<and>
      (\<forall>r' \<in> dom sz. \<forall>vb < TRAPFRAME. ubyte s' r' vb =
        (if r' = r \<and> va \<le> vb \<and> vb < va + k then src ! (vb - va) else ubyte s r' vb))) \<and>
    ((\<forall>vb. va \<le> vb \<longrightarrow> vb < va + length src \<longrightarrow> vb < MAXVA \<and> writable (vmem s) r vb) \<longrightarrow> ret = 0) \<and>
    (ret = 0 \<longrightarrow> copyin kend n r r va (length src) s' = Inr (0, src, s'))"
proof -
  note S = spaces_okD[OF address_spaces.reach_inv[OF assms(1)] assms(2)]
  obtain ret s' where C: "copyout kend n r r va src s = Inr (ret, s')" "copied kend n (dom sz) r va src s ret s'"
    using copyout_ok[OF S(1-4)] by blast
  then obtain k where k: "k \<le> length src" "stored (dom sz) r va (take k src) s s'" "ret = (if k = length src then 0 else -1)"
    by (auto simp: copied_def)
  have "ubyte s' r' vb = (if r' = r \<and> va \<le> vb \<and> vb < va + k then src ! (vb - va) else ubyte s r' vb)"
    if "r' \<in> dom sz" "vb < TRAPFRAME" for r' vb
    using k(1, 2) that by (auto simp: stored_def)
  moreover have "copyin kend n r r va (length src) s' = Inr (0, src, s')" if "ret = 0"
    using copied_back[OF S(2, 3, 4) C(2)[unfolded that]] by simp
  ultimately show ?thesis using C k(1, 3) unfolding copied_def by blast
qed

theorem user_memory_copy_witness:
  "\<exists>s r ret s'. copyout 0x87ffe000 0 r r 0 [1] s = Inr (ret, s') \<and>
    (ret = -1 \<or> copyin 0x87ffe000 0 r r 0 1 s' = Inr (0, [1], s'))"
proof -
  obtain s r c where R: "reach (vm_init 0x87ffe000) (vm_step 0x87ffe000) ([r \<mapsto> 0, c \<mapsto> 0], s)" "r \<noteq> c" using two_spaces by blast
  then obtain ret s' where "copyout 0x87ffe000 0 r r 0 [1] s = Inr (ret, s')" "ret = 0 \<or> ret = -1"
    "ret = 0 \<longrightarrow> copyin 0x87ffe000 0 r r 0 (length [1 :: byte]) s' = Inr (0, [1], s')"
    using user_memory_copy[OF R(1), of r 0 0 "[1]"] by (auto split: if_splits)
  then show ?thesis by auto
qed

text \<open>
  C37: Forking the memory. \<^verbatim>\<open>uvmcopy\<close> gives an empty child the pages of its parent below the size, with
  their permissions and their bytes, or fails and leaves the child empty. Either way the memory of
  every process but the child is as before and no page is lost.
\<close>

theorem fork_memory:
  assumes "reach (vm_init kend) (vm_step kend) (sz, s)" "sz r = Some n" "sz c = Some 0" "c \<noteq> r"
  shows "\<exists>ret s'. uvmcopy kend r c n s = Inr (ret, s') \<and>
    (ret = 0 \<and> (\<forall>va < PGROUNDUP n.
        (has (lookup (vmem s') c va) PTE_V \<longleftrightarrow> has (lookup (vmem s) r va) PTE_V) \<and>
        (has (lookup (vmem s) r va) PTE_V \<longrightarrow> PTE_FLAGS (lookup (vmem s') c va) = PTE_FLAGS (lookup (vmem s) r va)) \<and>
        ubyte s' c va = ubyte s r va) \<or>
     ret = -1 \<and> unmapped (vmem s') c 0 TRAPFRAME) \<and>
    (\<forall>r' \<in> dom sz - {c}. \<forall>va < TRAPFRAME. ubyte s' r' va = ubyte s r' va) \<and> owned (dom sz) s' = owned (dom sz) s"
proof -
  have inv: "spaces_ok kend (sz, s)" by (rule address_spaces.reach_inv[OF assms(1)])
  note S = spaces_okD[OF inv assms(2)] and C = spaces_okD[OF inv assms(3)]
  obtain ret s' where F: "uvmcopy kend r c n s = Inr (ret, s')" "did kend (dom sz) c 0 (PGROUNDUP n) s s'"
    "ret = 0 \<and> clones r c 0 (PGROUNDUP n) s s' \<or> ret = -1 \<and> unmapped (vmem s') c 0 TRAPFRAME"
    using uvmcopy_ok[OF S(1, 2) C(2) assms(4)[symmetric] S(3)] C(5) by auto
  have "ubyte s' r' va = ubyte s r' va" if "r' \<in> dom sz - {c}" "va < TRAPFRAME" for r' va
    using did_ubyte[OF S(1) F(2), of r' va] that by auto
  moreover have "owned (dom sz) s' = owned (dom sz) s" using F(2) by (simp add: did_def)
  ultimately show ?thesis using F(1, 3) by (auto simp: clones_def)
qed

theorem fork_memory_witness:
  "\<exists>s r c ret s'. uvmcopy 0x87ffe000 r c 0 s = Inr (ret, s') \<and> (ret = 0 \<or> ret = -1)"
proof -
  obtain s r c where R: "reach (vm_init 0x87ffe000) (vm_step 0x87ffe000) ([r \<mapsto> 0, c \<mapsto> 0], s)" "r \<noteq> c" using two_spaces by blast
  then show ?thesis using fork_memory[OF R(1), of r 0 c] by fastforce
qed

text \<open>
  C38: Releasing an address space. \<^verbatim>\<open>uvmfree\<close> ends without a panic, whatever the process did with its memory, and
  changes no byte of another process; when the last address space is released every page of the
  machine is back on the free list, the pages of the tables included.
\<close>

theorem exit_returns_memory:
  assumes "reach (vm_init kend) (vm_step kend) (sz, s)" "sz r = Some n"
  shows "\<exists>s'. uvmfree kend r n s = Inr s' \<and>
    (\<forall>r' \<in> dom sz - {r}. \<forall>va < TRAPFRAME. ubyte s' r' va = ubyte s r' va) \<and>
    (dom sz = {r} \<longrightarrow> pages_of (km s') = whole_pages kend)"
proof -
  have inv: "spaces_ok kend (sz, s)" by (rule address_spaces.reach_inv[OF assms(1)])
  note S = spaces_okD[OF inv assms(2)]
  obtain s' where F: "uvmfree kend r n s = Inr s'" "owned (dom sz - {r}) s' = owned (dom sz) s" "keeps (dom sz - {r}) r 0 0 s s'"
    using uvmfree_ok[OF S(1-3, 5, 6)] by blast
  have "ubyte s' r' va = ubyte s r' va" if r': "r' \<in> dom sz - {r}" "va < TRAPFRAME" for r' va
    using F(3) r' TRAPFRAME_MAXVA(1)[OF r'(2)] user_page(3)[OF S(1) _ r'(2), of r' va]
    unfolding keeps_def ubyte_def by (metis DiffD1 not_less_zero)
  moreover have "pages_of (km s') = whole_pages kend" if "dom sz = {r}"
  proof -
    have "owned {} s' = owned (dom sz) s" using F(2) that by simp
    then show ?thesis using inv by (simp add: owned_def[of "{}"] tables_def[of _ "{}"] user_pages_def[of _ "{}"] spaces_ok_def)
  qed
  ultimately show ?thesis using F(1) by blast
qed

theorem exit_returns_memory_witness:
  "\<exists>s r s'. uvmfree 0x87ffe000 r 0 s = Inr s'"
proof -
  obtain s r c where R: "reach (vm_init 0x87ffe000) (vm_step 0x87ffe000) ([r \<mapsto> 0, c \<mapsto> 0], s)" "r \<noteq> c" using two_spaces by blast
  then show ?thesis using exit_returns_memory[OF R(1), of r 0] by fastforce
qed

text \<open>
  C39: A lazy \<^verbatim>\<open>sbrk\<close> checks only that the size does not wrap around. A process can move its size
  beyond \<^verbatim>\<open>MAXVA\<close> by a sequence of successful calls, and then the first page fault it takes there
  panics the kernel: \<^verbatim>\<open>vmfault\<close> accepts the address because it is below the size.
\<close>

theorem lazy_sbrk_panics:
  assumes "n < 2 ^ 62"
  shows "\<exists>n'. (\<lambda>a b. sys_sbrk kend r (2 ^ 30) 2 a s = Inr (int a, b, s))\<^sup>*\<^sup>* n n' \<and>
    (\<forall>va. MAXVA \<le> va \<longrightarrow> va < n' \<longrightarrow> vmfault kend n' r r va s = Inl (Panic ''walk'')) \<and> MAXVA < n'"
proof -
  let ?R = "\<lambda>a b. sys_sbrk kend r (2 ^ 30) 2 a s = Inr (int a, b, s)"
  have step: "?R a (a + 2 ^ 30)" if "a < 2 ^ 63" for a
  proof -
    have "wrap64 (int a + 2 ^ 30) = a + 2 ^ 30" using that by (subst wrap64_id) auto
    then show ?thesis by (simp add: sys_sbrk_def SBRK_EAGER_def)
  qed
  have "?R\<^sup>*\<^sup>* n (n + k * 2 ^ 30)" if "k \<le> 512" for k
    using that
  proof (induction k)
    case (Suc k)
    have "?R (n + k * 2 ^ 30) (n + k * 2 ^ 30 + 2 ^ 30)" using Suc.prems assms by (intro step) simp
    with Suc show ?case by (auto simp: algebra_simps intro: rtranclp.rtrancl_into_rtrancl)
  qed simp
  from this[of 512] have "?R\<^sup>*\<^sup>* n (n + 512 * 2 ^ 30)" by simp
  moreover have "MAXVA \<le> PGROUNDDOWN va" if "MAXVA \<le> va" for va
  proof -
    have "MAXVA div PGSIZE * PGSIZE \<le> va div PGSIZE * PGSIZE" using that by (intro mult_right_mono div_le_mono) auto
    then show ?thesis by (simp add: PGROUNDDOWN_def MAXVA_def PGSIZE_def)
  qed
  then have "vmfault kend n' r r va s = Inl (Panic ''walk'')" if "MAXVA \<le> va" "va < n'" for va n'
    using that by (simp add: vmfault_def ismapped_def walk_def)
  moreover have "MAXVA < n + 512 * 2 ^ 30" by (simp add: MAXVA_def)
  ultimately show ?thesis by blast
qed

theorem lazy_sbrk_panics_witness:
  "\<exists>n' va. (\<lambda>a b. sys_sbrk 4096 8192 (2 ^ 30) 2 a \<lparr>vmem = (\<lambda>_. 0), km = \<lparr>freelist = 0, next_of = (\<lambda>_. 0)\<rparr>\<rparr> =
      Inr (int a, b, \<lparr>vmem = (\<lambda>_. 0), km = \<lparr>freelist = 0, next_of = (\<lambda>_. 0)\<rparr>\<rparr>))\<^sup>*\<^sup>* 0 n' \<and>
    vmfault 4096 n' 8192 8192 va \<lparr>vmem = (\<lambda>_. 0), km = \<lparr>freelist = 0, next_of = (\<lambda>_. 0)\<rparr>\<rparr> = Inl (Panic ''walk'')"
  using lazy_sbrk_panics[of 0 4096 8192 "\<lparr>vmem = (\<lambda>_. 0), km = \<lparr>freelist = 0, next_of = (\<lambda>_. 0)\<rparr>\<rparr>"] by auto

end
