(* ===== verification/Spec2Isabelle.thy ===== *)
theory Spec2Isabelle
  imports List_Walk Monitor_Spec Reader_Writer Schat Uthread Spinlock Locks Printf Grep Kalloc Pipe Console Log Fs_Calls File_IO Bio Sh Umalloc Vm_Isolation
begin

text \<open>
  Verification of the monitors-and-ipc repository.

  \<^bold>\<open>The program.\<close> The repository holds two hand-ins of a course on operating systems; the second,
  \<^verbatim>\<open>a2-phase2\<close>, is the complete one and the one modelled here. It has two halves. The first runs on the
  real-time threads package: a linked-list library (\<^verbatim>\<open>list_adders.c\<close>, \<^verbatim>\<open>list_movers.c\<close>,
  \<^verbatim>\<open>list_removers.c\<close>), a monitor server process with client stubs built on it (\<^verbatim>\<open>Monitor.c\<close>), a
  reader-writer package built on the monitor (\<^verbatim>\<open>reader_writer.c\<close>) and a chat program with two lists and a
  UDP socket (\<^verbatim>\<open>s-chat.c\<close>). The second, \<^verbatim>\<open>xv6-A2\<close>, is the xv6 kernel for RISC-V with mutex system calls
  and a user-level thread package added.

  \<^bold>\<open>Conventions.\<close> A pointer into a table is its index, NULL is an option or 0 where the code stores 0. A C
  function that can reach a point without meaning (an access out of range, a NULL dereference, a
  \<^verbatim>\<open>panic\<close>) returns in the sum of faults and results of Prelude. Machine integers are words where their
  wrap-around matters. A section of code that runs under a lock is one step; a call that sleeps is one
  pass up to the sleep. What other parts provide (memory of the user, the network, the pages of
  \<^verbatim>\<open>kalloc\<close>, success of a copy) is an argument where it is not itself modelled.

  \<^bold>\<open>Theories, bottom up.\<close>
  \<^item> Prelude: faults, the result monad, table scans, reachability and the locale of invariants.
  \<^item> List_Pool, List_Spec, List_Walk: the list library over its pools of nodes and headers. Well-formed
    pools, the abstraction of a list to its items, and the effect of every function; taking the first of
    several items breaks the list, which the theorems state.
  \<^item> Monitor, Monitor_Spec: the handlers of the monitor server over the lists and a Hoare monitor as their
    specification; a simulation, mutual exclusion for two clients, the crash for three.
  \<^item> Reader_Writer: the monitor procedures for readers and writers on the server of Monitor, or on the Hoare
    monitor to which a simulation takes them; exclusion and starvation of writers for up to two
    processes on the server, and the reader and writer side by side when \<^verbatim>\<open>mainp\<close>'s five are run.
  \<^item> Schat: the packet format and the four threads of the chat program down to the bytes printed; what
    becomes of a line, without the terminating zero that nobody stores, and the overrun of the keyboard
    buffer.
  \<^item> Uthread: the user-level threads of \<^verbatim>\<open>user/uthread.c\<close> with a round-robin scheduler and the
    instructions of \<^verbatim>\<open>user/uthread_switch.S\<close>; fairness, and a thread finds its registers as it left them.
  \<^item> Spinlock, Proc, Proc_Spec, Locks: \<^verbatim>\<open>spinlock.c\<close> on several CPUs, the process table of \<^verbatim>\<open>proc.c\<close> with
    fork, exit, wait, sleep, wakeup and kill, the mutex system calls and the sleep locks on top. Process
    ids are counted in an \<^verbatim>\<open>int\<close> that wraps around, and are distinct until it does.
  \<^item> Cstring, Printf, Grep, Sh: the string functions, the two formatted printers, each from its own file, the matcher and main loop
    of \<^verbatim>\<open>grep\<close>, and the parser of the shell, with a printer it is the inverse of.
  \<^item> Kalloc: the page allocator.
  \<^item> Umalloc: \<^verbatim>\<open>malloc\<close> and \<^verbatim>\<open>free\<close> of the user library over the ring of free blocks in the heap; the
    ring stays sorted and merged, both searches end, and the blocks in use stay disjoint whatever a
    client does with requests below \<open>2\<^sup>3\<^sup>1 - 32\<close> bytes; one close to \<open>2\<^sup>3\<^sup>2\<close> is answered with a block
    that is not there.
  \<^item> Vm, Vm_User, Vm_Copy, Vm_Free, Vm_Isolation: the Sv39 page tables of \<^verbatim>\<open>vm.c\<close> over a byte memory: walking and
    mapping; growing, shrinking and page faults; copies between the kernel and user memory and from a
    parent to its child; the release of an address space; and the isolation of all of them from each
    other under every sequence of these calls.
  \<^item> Ring, Pipe, Console: ring buffers, pipes whose writers may be killed in mid-pass and whose copies may
    fail, and the console input.
  \<^item> Log, Bio: the write-ahead log with crashes between any two block writes, and the buffer cache with its
    doubly linked list.
  \<^item> Fs_Blocks, Fs_Files, Fs_Names, Fs_Tree: the file system of \<^verbatim>\<open>fs.c\<close> in layers: bitmap and block maps,
    contents of files, directories and paths, and the tree of directories on the disk.
  \<^item> Fs_Inodes, Name_Space, Fs_Paths, Fs_Calls: allocating and releasing inodes; what a sound name space is
    (names, parents that lead to the root, and link counts, apart from any disk) and the four ways in which it changes; the
    calls of \<^verbatim>\<open>sysfile.c\<close> that create, link, remove and open names, shown to change the name space of the
    disk in one of these ways or not at all; every sequence of them with writes, truncation and the end
    of references, the release of orphans at boot, and the panic behind a removed parent directory.
  \<^item> File_Table, File_IO: open files, their reference counts with pipes, fork and exit, where the calls of
    several processes interleave from one lock to the next, so that \<^verbatim>\<open>fileclose\<close> ends in a later step than
    it begins; and reading and writing at the offset of a descriptor.

  \<^bold>\<open>Interfaces.\<close> Locales state what one part promises to another: \<open>invariant_system\<close> (a step relation and
  its invariant), \<open>item_queue\<close> (a queue of items, the lists under the monitor), \<open>allocator\<close> (pages and
  disk blocks), \<open>ring\<close> (slots of a ring of a given size), \<open>blocking_lock\<close> (mutexes and sleep locks) and
  \<open>fixed_codec\<close> (network byte order). Each is interpreted on the definitions of the model.

  \<^bold>\<open>Bounds and fuel.\<close> Sizes are those of the sources. Loops that end are functions with termination
  proofs. \<open>ListSearch\<close>, the user library's string scans and the searches of its allocator may run forever and are
  partial functions; the theorems say when they return. The parser of the shell is mutually recursive on positions of the line
  and takes fuel, four units per byte and four more, which is proved to be enough for every line. The
  recursion of \<open>freewalk\<close> is bounded by three levels, which is proved to be enough. Addresses
  of Vm are natural numbers; sizes that come close to the end of the 64-bit address range, where rounding up
  would wrap around, are outside the model.

  \<^bold>\<open>Not modelled.\<close> The processor, its control registers and the devices behind them (traps, boot, UART,
  PLIC, virtio), because their behaviour is not in the sources; the dispatch of system calls, which moves
  registers; the loading of programs; the slots of the table of in-memory inodes, of which the reference
  counts (File_Table) and the inodes that others hold (Fs_Paths) are modelled; small user programs, which
  are sequences of system calls, and the tests. The first hand-in is an earlier state of the same files.
\<close>

end
